(* ===== verification/Rtt_Prelude.thy ===== *)
theory Rtt_Prelude
  imports Main "HOL-Library.Word" "HOL-Library.Monad_Syntax"
begin

text \<open>
  Shared material of the development: the C integer types of
  \<^verbatim>\<open>rt-thread/include/rtdef.h\<close> as words, the error codes, the treatment of
  undefined behaviour and of failed assertions as \<open>None\<close>, and the generic
  lemmas on lists, words and modular windows that the component theories use.

  Conventions.  A pointer to a buffer is the list of its cells; an access outside
  the buffer has no defined result and is \<open>None\<close>.  A failed \<open>RT_ASSERT\<close>
  stops the system in \<open>rt_assert_handler\<close> and is \<open>None\<close> as well.  A function
  that returns is \<open>Some\<close> of its result and the new state.
\<close>

unbundle bit_operations_syntax

type_synonym u8 = "8 word"
type_synonym u16 = "16 word"
type_synonym u32 = "32 word"
type_synonym s32 = "32 word"

text \<open>A value of type \<open>s32\<close> is read with \<open>sint\<close>.  Return codes (\<^verbatim>\<open>rt_err_t\<close>): the source negates the positive constants.\<close>

type_synonym rt_err = int

abbreviation (input) RT_EOK :: rt_err where "RT_EOK \<equiv> 0"
abbreviation (input) RT_ERROR :: rt_err where "RT_ERROR \<equiv> 1"
abbreviation (input) RT_ETIMEOUT :: rt_err where "RT_ETIMEOUT \<equiv> 2"
abbreviation (input) RT_EFULL :: rt_err where "RT_EFULL \<equiv> 3"
abbreviation (input) RT_EEMPTY :: rt_err where "RT_EEMPTY \<equiv> 4"
abbreviation (input) RT_ENOMEM :: rt_err where "RT_ENOMEM \<equiv> 5"
abbreviation (input) RT_ENOSYS :: rt_err where "RT_ENOSYS \<equiv> 6"
abbreviation (input) RT_EBUSY :: rt_err where "RT_EBUSY \<equiv> 7"
abbreviation (input) RT_EIO :: rt_err where "RT_EIO \<equiv> 8"
abbreviation (input) RT_EINVAL :: rt_err where "RT_EINVAL \<equiv> 10"

text \<open>A timeout that never ends.\<close>

abbreviation (input) RT_WAITING_FOREVER :: s32 where "RT_WAITING_FOREVER \<equiv> - 1"

named_theorems rb_simps \<open>arithmetic readings of ring buffer fields\<close>
named_theorems kframe \<open>kernel fields an operation leaves alone\<close>
named_theorems kinv_intros \<open>preservation of the kernel invariant\<close>

subsection \<open>Assertions\<close>

definition rt_assert :: "bool \<Rightarrow> unit option" where
  "rt_assert b = (if b then Some () else None)"

lemma rt_assert_True [simp]: "rt_assert True = Some ()"
  by (simp add: rt_assert_def)

lemma rt_assert_False [simp]: "rt_assert False = None"
  by (simp add: rt_assert_def)

lemma rt_assert_eq_Some [simp]: "rt_assert b = Some u \<longleftrightarrow> b"
  by (simp add: rt_assert_def)

lemma bind_assert_eq_Some [simp]:
  "Option.bind (rt_assert b) f = Some y \<longleftrightarrow> b \<and> f () = Some y"
  by (simp add: rt_assert_def)

subsection \<open>Copying blocks of memory\<close>

text \<open>
  \<open>rt_memcpy(&dst[off], src, n)\<close> and reads of \<open>n\<close> cells at an offset; both are
  undefined when they leave the buffer.
\<close>

definition read_block :: "'a list \<Rightarrow> nat \<Rightarrow> nat \<Rightarrow> 'a list option" where
  "read_block src off n =
     (if off + n \<le> length src then Some (take n (drop off src)) else None)"

definition write_block :: "'a list \<Rightarrow> nat \<Rightarrow> 'a list \<Rightarrow> 'a list option" where
  "write_block dst off xs =
     (if off + length xs \<le> length dst
      then Some (take off dst @ xs @ drop (off + length xs) dst) else None)"

definition store :: "'a list \<Rightarrow> nat \<Rightarrow> 'a \<Rightarrow> 'a list option" where
  "store dst i x = (if i < length dst then Some (dst[i := x]) else None)"

definition load :: "'a list \<Rightarrow> nat \<Rightarrow> 'a option" where
  "load src i = (if i < length src then Some (src ! i) else None)"

lemma read_block_some [simp]:
  "off + n \<le> length src \<Longrightarrow> read_block src off n = Some (take n (drop off src))"
  by (simp add: read_block_def)

lemma write_block_some [simp]:
  "off + length xs \<le> length dst \<Longrightarrow>
   write_block dst off xs = Some (take off dst @ xs @ drop (off + length xs) dst)"
  by (simp add: write_block_def)

lemma store_some [simp]: "i < length dst \<Longrightarrow> store dst i x = Some (dst[i := x])"
  by (simp add: store_def)

lemma load_some [simp]: "i < length src \<Longrightarrow> load src i = Some (src ! i)"
  by (simp add: load_def)

lemma nth_overwrite:
  assumes "off + length xs \<le> length dst" "p < length dst"
  shows "(take off dst @ xs @ drop (off + length xs) dst) ! p =
         (if off \<le> p \<and> p < off + length xs then xs ! (p - off) else dst ! p)"
  using assms by (auto simp: nth_append min_def)

subsection \<open>Insertion into a list at a position\<close>

definition insert_at :: "nat \<Rightarrow> 'a \<Rightarrow> 'a list \<Rightarrow> 'a list" where
  "insert_at i x xs = take i xs @ x # drop i xs"

lemma insert_at_0 [simp]: "insert_at 0 x xs = x # xs"
  by (simp add: insert_at_def)

lemma insert_at_length [simp]: "insert_at (length xs) x xs = xs @ [x]"
  by (simp add: insert_at_def)

lemma set_insert_at [simp]: "set (insert_at i x xs) = insert x (set xs)"
proof -
  have "set xs = set (take i xs) \<union> set (drop i xs)"
    using set_append [of "take i xs" "drop i xs"] by simp
  then show ?thesis by (simp add: insert_at_def)
qed

lemma distinct_insert_at [simp]: "distinct (insert_at i x xs) \<longleftrightarrow> x \<notin> set xs \<and> distinct xs"
proof -
  have "distinct (insert_at i x xs) \<longleftrightarrow> distinct (x # take i xs @ drop i xs)"
    unfolding insert_at_def by (simp only: distinct_append distinct.simps list.set set_append) blast
  then show ?thesis by simp
qed

lemma insert_at_not_Nil [simp]: "insert_at i x xs \<noteq> []"
  by (simp add: insert_at_def)

lemma length_insert_at [simp]: "length (insert_at i x xs) = Suc (length xs)"
  by (simp add: insert_at_def)

subsection \<open>Stable insertion into a sorted list\<close>

text \<open>The position behind all members whose key is not greater: equal keys keep their order.\<close>

definition stable_pos :: "('a \<Rightarrow> 'k::linorder) \<Rightarrow> 'k \<Rightarrow> 'a list \<Rightarrow> nat" where
  "stable_pos key v xs = length (takeWhile (\<lambda>y. key y \<le> v) xs)"

lemma stable_pos_simps [simp]:
  "stable_pos key v [] = 0"
  "stable_pos key v (x # xs) = (if key x \<le> v then Suc (stable_pos key v xs) else 0)"
  by (simp_all add: stable_pos_def)

lemma insert_stable:
  "insert_at (stable_pos key v xs) x xs = takeWhile (\<lambda>y. key y \<le> v) xs @ x # dropWhile (\<lambda>y. key y \<le> v) xs"
  by (simp add: insert_at_def stable_pos_def takeWhile_eq_take [symmetric] dropWhile_eq_drop [symmetric])

lemma sorted_splice:
  fixes key :: "'a \<Rightarrow> 'k::linorder"
  assumes "sorted (map key as @ map key bs)" "\<forall>y\<in>set as. key y \<le> key x" "\<forall>y\<in>set bs. key x < key y"
  shows "sorted (map key (as @ x # bs))"
  using assms by (simp add: sorted_append less_imp_le)

lemma stable_insert_sorted:
  assumes "sorted (map key xs)"
  shows "sorted (map key (insert_at (stable_pos key (key x) xs) x xs))"
    "\<forall>y\<in>set (take (stable_pos key (key x) xs) xs). key y \<le> key x"
    "\<forall>y\<in>set (drop (stable_pos key (key x) xs) xs). key x < key y"
proof -
  let ?P = "\<lambda>y. key y \<le> key x"
  have t: "take (stable_pos key (key x) xs) xs = takeWhile ?P xs" "drop (stable_pos key (key x) xs) xs = dropWhile ?P xs"
    by (simp_all add: stable_pos_def takeWhile_eq_take [symmetric] dropWhile_eq_drop [symmetric])
  show 1: "\<forall>y\<in>set (take (stable_pos key (key x) xs) xs). key y \<le> key x" unfolding t by (auto dest: set_takeWhileD)
  have s: "sorted (map key (takeWhile ?P xs) @ map key (dropWhile ?P xs))"
    using assms by (metis map_append takeWhile_dropWhile_id)
  show 2: "\<forall>y\<in>set (drop (stable_pos key (key x) xs) xs). key x < key y"
  proof (cases "dropWhile ?P xs")
    case (Cons z zs)
    have "key x < key z" using Cons by (metis dropWhile_eq_Cons_conv linorder_not_le)
    moreover have "sorted (map key (z # zs))" using s Cons by (simp add: sorted_append)
    ultimately show ?thesis unfolding t Cons by force
  next
    case Nil
    show ?thesis unfolding t Nil by simp
  qed
  show "sorted (map key (insert_at (stable_pos key (key x) xs) x xs))"
    unfolding insert_stable by (rule sorted_splice [OF s 1 [unfolded t] 2 [unfolded t]])
qed

subsection \<open>Windows of a circular buffer\<close>

text \<open>Two positions of a window no longer than the buffer are different cells.\<close>

lemma mod_window_inj:
  fixes r i j n :: nat
  assumes "(r + i) mod n = (r + j) mod n" "i < n" "j < n"
  shows "i = j"
proof (rule linorder_cases)
  assume "i < j"
  then have "n dvd (r + j) - (r + i)"
    using assms(1) by (metis add_le_cancel_left less_imp_le_nat mod_eq_dvd_iff_nat)
  with \<open>i < j\<close> assms(3) show ?thesis by (auto dest: dvd_imp_le)
next
  assume "j < i"
  then have "n dvd (r + i) - (r + j)"
    using assms(1) by (metis add_le_cancel_left less_imp_le_nat mod_eq_dvd_iff_nat)
  with \<open>j < i\<close> assms(2) show ?thesis by (auto dest: dvd_imp_le)
qed

lemma mod_add_if:
  fixes a b n :: nat
  assumes "a < n" "b \<le> n"
  shows "(a + b) mod n = (if a + b < n then a + b else a + b - n)"
  using assms by (simp add: mod_if)

text \<open>The \<open>e\<close> cells from position \<open>r\<close> of a circular buffer with \<open>n\<close> cells.\<close>

definition ring_list :: "'a list \<Rightarrow> nat \<Rightarrow> nat \<Rightarrow> nat \<Rightarrow> 'a list" where
  "ring_list pool n r e = map (\<lambda>i. pool ! ((r + i) mod n)) [0..<e]"

lemma length_ring_list [simp]: "length (ring_list pool n r e) = e"
  by (simp add: ring_list_def)

lemma ring_list_nth: "i < e \<Longrightarrow> ring_list pool n r e ! i = pool ! ((r + i) mod n)"
  by (simp add: ring_list_def)

lemma ring_list_snoc:
  assumes "n \<le> length pool" "e < n"
  shows "ring_list (pool[(r + e) mod n := x]) n r (Suc e) = ring_list pool n r e @ [x]"
proof (rule nth_equalityI)
  fix i assume i: "i < length (ring_list (pool[(r + e) mod n := x]) n r (Suc e))"
  have e: "(r + e) mod n < length pool" using assms mod_less_divisor [of n "r + e"] by linarith
  show "ring_list (pool[(r + e) mod n := x]) n r (Suc e) ! i = (ring_list pool n r e @ [x]) ! i"
  proof (cases "i = e")
    case True
    then show ?thesis using e by (simp add: ring_list_nth nth_append)
  next
    case False
    then have "i < e" using i by simp
    moreover have "(r + e) mod n \<noteq> (r + i) mod n" using mod_window_inj [of r e n i] False assms \<open>i < e\<close> by auto
    ultimately show ?thesis by (simp add: ring_list_nth nth_append)
  qed
qed simp

lemma ring_list_tl:
  assumes "0 < n"
  shows "ring_list pool n r (Suc e) = pool ! (r mod n) # ring_list pool n ((r + 1) mod n) e"
proof -
  have "(Suc (r mod n) + i) mod n = (r + Suc i) mod n" for i
    by (metis add_Suc add_Suc_right mod_add_left_eq)
  moreover have "((r + 1) mod n + i) mod n = (r + Suc i) mod n" for i
    by (metis Suc_eq_plus1_left add.assoc mod_add_left_eq)
  ultimately show ?thesis
    unfolding ring_list_def by (simp add: upt_conv_Cons map_Suc_upt [symmetric] del: upt_Suc map_Suc_upt)
qed

lemma ring_list_cons:
  assumes "n \<le> length pool" "r' < n" "r = (r' + 1) mod n" "e < n"
  shows "ring_list (pool[r' := x]) n r' (Suc e) = x # ring_list pool n r e"
proof -
  have "ring_list (pool[r' := x]) n r e = ring_list pool n r e"
  proof (rule nth_equalityI)
    fix i assume "i < length (ring_list (pool[r' := x]) n r e)"
    then have i: "i < e" by simp
    have "(r' + Suc i) mod n \<noteq> (r' + 0) mod n" using mod_window_inj [of r' "Suc i" n 0] i assms(4) by auto
    moreover have "(r + i) mod n = (r' + Suc i) mod n" unfolding assms(3)
      by (metis Suc_eq_plus1_left add.assoc mod_add_left_eq)
    ultimately show "ring_list (pool[r' := x]) n r e ! i = ring_list pool n r e ! i"
      using assms(2) i by (simp add: ring_list_nth)
  qed simp
  then show ?thesis using ring_list_tl [of n "pool[r' := x]" r' e] assms by simp
qed

subsection \<open>Word arithmetic at the width of the C types\<close>

definition RT_ALIGN_DOWN :: "'a::len word \<Rightarrow> 'a word \<Rightarrow> 'a word" where
  "RT_ALIGN_DOWN sz align = sz AND NOT (align - 1)"

definition RT_ALIGN :: "'a::len word \<Rightarrow> 'a word \<Rightarrow> 'a word" where
  "RT_ALIGN sz align = (sz + align - 1) AND NOT (align - 1)"

lemma and_not_3_le: "unat (x AND NOT 3) \<le> unat (x :: 'a::len word)"
  by (metis word_and_le2 word_le_nat_alt)

lemma unat_and_not_3:
  fixes x :: "'a::len word"
  shows "unat (x AND -4) = unat x - unat x mod 4"
proof -
  have "x AND 3 = take_bit 2 x" by (simp add: take_bit_eq_mask mask_eq_exp_minus_1)
  then have "unat (x AND 3) = take_bit 2 (unat x)" by (simp only: unsigned_take_bit_eq)
  then have t: "unat (x AND 3) = unat x mod 4" by (simp add: take_bit_eq_mod)
  have "(x AND 3) AND (x AND NOT 3) = 0" by (rule bit_eqI) (simp add: bit_simps)
  then have "(x AND 3) + (x AND NOT 3) = (x AND 3) OR (x AND NOT 3)" by (rule disjunctive_add_eq_or)
  also have "\<dots> = x" by (rule bit_eqI) (auto simp: bit_simps)
  finally have "x = (x AND 3) + (x AND NOT 3)" by simp
  then have "x - (x AND 3) = (x AND NOT 3)" by (metis add_diff_cancel_left')
  moreover have "unat (x - (x AND 3)) = unat x - unat (x AND 3)"
    using t by (simp add: unat_sub_if')
  ultimately show ?thesis by (simp add: t)
qed

lemma unat_RT_ALIGN_DOWN: "unat (RT_ALIGN_DOWN (x :: 'a::len word) 4) = unat x - unat x mod 4"
  by (simp add: RT_ALIGN_DOWN_def unat_and_not_3)

lemma unat_RT_ALIGN:
  assumes "unat (x :: u32) + 3 < 2 ^ 32"
  shows "unat (RT_ALIGN x 4) = (unat x + 3) div 4 * 4"
proof -
  have "unat (x + 3) = unat x + 3" using assms by (subst unat_word_ariths) simp
  then have "unat (3 + x) = unat x + 3" by (simp add: add.commute)
  then show ?thesis by (simp add: RT_ALIGN_def unat_and_not_3 minus_mod_eq_div_mult)
qed

lemma unat_eqD: "unat x = unat y \<Longrightarrow> x = y"
  by (simp add: word_unat_eq_iff)

lemma unat_add_one: "unat (x :: 'a::len word) + 1 < 2 ^ LENGTH('a) \<Longrightarrow> unat (x + 1) = unat x + 1"
  by (metis Suc_eq_plus1 add.commute unat_word_ariths(1) mod_less unat_1)

lemma unat_ucast_le:
  assumes "LENGTH('a) \<le> LENGTH('b)"
  shows "unat (ucast (x :: 'a::len word) :: 'b::len word) = unat x"
proof -
  have "unat x < 2 ^ LENGTH('b)"
    using assms unsigned_less [of x] by (meson less_le_trans one_le_numeral power_increasing)
  then show ?thesis by (simp add: unsigned_ucast_eq take_bit_nat_eq_self)
qed

lemma unat_word_of_int_nat:
  "unat (word_of_int (int n) :: 'a::len word) = n mod 2 ^ LENGTH('a)"
  by (simp add: unat_of_nat take_bit_eq_mod)

lemma sint_nonneg_unat:
  fixes x :: u16
  assumes "unat x < 32768"
  shows "sint x = int (unat x)"
proof -
  from assms have "int (unat x) < 32768" by linarith
  then have "uint x < 32768" by simp
  then have "sint x = uint x"
    by (simp add: sint_uint signed_take_bit_int_eq_self_iff order_trans [OF _ uint_ge_0])
  then show ?thesis by simp
qed

end
