(* ===== verification/Bounded_Queue.thy ===== *)
theory Bounded_Queue
  imports Rtt_Prelude
begin

text \<open>
  The contract that the byte ring, the mailbox and the message queue share: a queue of
  bounded length with a fallible \<open>enq\<close> and \<open>deq\<close>, for the items it admits.  A failed access outside the
  underlying memory would be \<open>None\<close>; the contract says it never happens, that a full
  queue refuses the item and stays as it is, and that an empty one yields nothing.
\<close>

locale bounded_queue =
  fixes invar :: "'q \<Rightarrow> bool"
    and contents :: "'q \<Rightarrow> 'a list"
    and capacity :: "'q \<Rightarrow> nat"
    and admits :: "'q \<Rightarrow> 'a \<Rightarrow> bool"
    and enq :: "'q \<Rightarrow> 'a \<Rightarrow> (bool \<times> 'q) option"
    and deq :: "'q \<Rightarrow> ('a option \<times> 'q) option"
  assumes length_contents: "invar q \<Longrightarrow> length (contents q) \<le> capacity q"
    and enq_room: "invar q \<Longrightarrow> admits q x \<Longrightarrow> length (contents q) < capacity q \<Longrightarrow>
        \<exists>q'. enq q x = Some (True, q') \<and> invar q' \<and> capacity q' = capacity q \<and> admits q' = admits q \<and>
             contents q' = contents q @ [x]"
    and enq_full: "invar q \<Longrightarrow> length (contents q) = capacity q \<Longrightarrow> enq q x = Some (False, q)"
    and deq_nonempty: "invar q \<Longrightarrow> contents q = y # ys \<Longrightarrow>
        \<exists>q'. deq q = Some (Some y, q') \<and> invar q' \<and> capacity q' = capacity q \<and> admits q' = admits q \<and>
             contents q' = ys"
    and deq_empty: "invar q \<Longrightarrow> contents q = [] \<Longrightarrow> deq q = Some (None, q)"

subsection \<open>Sequences of operations\<close>

text \<open>
  A client drives the queue by a list of operations; the run collects the items that were
  accepted and those that came out, in order.
\<close>

datatype 'a qop = Enq 'a | Deq

fun qrun ::
    "('q \<Rightarrow> 'a \<Rightarrow> (bool \<times> 'q) option) \<Rightarrow> ('q \<Rightarrow> ('a option \<times> 'q) option) \<Rightarrow>
     'a qop list \<Rightarrow> 'q \<Rightarrow> ('a list \<times> 'a list \<times> 'q) option" where
  "qrun enq deq [] q = Some ([], [], q)"
| "qrun enq deq (Enq x # ops) q =
     do {
       (ok, q1) \<leftarrow> enq q x;
       (ins, outs, q2) \<leftarrow> qrun enq deq ops q1;
       Some (if ok then x # ins else ins, outs, q2)
     }"
| "qrun enq deq (Deq # ops) q =
     do {
       (r, q1) \<leftarrow> deq q;
       (ins, outs, q2) \<leftarrow> qrun enq deq ops q1;
       Some (ins, case r of None \<Rightarrow> outs | Some y \<Rightarrow> y # outs, q2)
     }"

context bounded_queue
begin

lemma enq_cases:
  assumes "invar q" "admits q x"
  obtains (room) q' where "enq q x = Some (True, q')" "invar q'" "capacity q' = capacity q"
      "contents q' = contents q @ [x]" "admits q' = admits q"
  | (full) "enq q x = Some (False, q)" "length (contents q) = capacity q"
  using assms length_contents enq_room enq_full by (metis le_neq_implies_less)

lemma deq_cases:
  assumes "invar q"
  obtains (item) y q' where "deq q = Some (Some y, q')" "invar q'" "capacity q' = capacity q"
      "contents q = y # contents q'" "admits q' = admits q"
  | (empty) "deq q = Some (None, q)" "contents q = []"
  using assms deq_nonempty deq_empty by (metis neq_Nil_conv)

text \<open>
  Every run of a client returns; nothing is lost, duplicated or reordered: what was in
  the queue followed by what was accepted is what came out followed by what is left.
\<close>

lemma qrun_fifo:
  assumes "invar q" "\<forall>x. Enq x \<in> set ops \<longrightarrow> admits q x"
  shows "\<exists>ins outs q'. qrun enq deq ops q = Some (ins, outs, q') \<and> invar q' \<and>
           capacity q' = capacity q \<and> contents q @ ins = outs @ contents q' \<and>
           length (contents q') \<le> capacity q"
  using assms
proof (induction ops arbitrary: q)
  case Nil
  then show ?case using length_contents by simp
next
  case (Cons a ops)
  show ?case
  proof (cases a)
    case (Enq x)
    then have "admits q x" using Cons.prems(2) by simp
    with Cons.prems(1) show ?thesis
    proof (cases rule: enq_cases)
      case (room q1)
      from Cons.IH [OF room(2)] Cons.prems(2) room(3,4,5) show ?thesis by (auto simp: Enq room(1))
    next
      case full
      from Cons.IH [OF Cons.prems(1)] Cons.prems(2) show ?thesis by (auto simp: Enq full(1))
    qed
  next
    case Deq
    from Cons.prems(1) show ?thesis
    proof (cases q rule: deq_cases)
      case (item y q1)
      from Cons.IH [OF item(2)] Cons.prems(2) item(3,4,5) show ?thesis by (auto simp: Deq item(1))
    next
      case empty
      from Cons.IH [OF Cons.prems(1)] Cons.prems(2) show ?thesis by (auto simp: Deq empty(1))
    qed
  qed
qed

end

end
