(* ===== verification/Ringbuffer.thy ===== *)
theory Ringbuffer
  imports Bounded_Queue
begin

text \<open>
  \<^verbatim>\<open>rt-thread/components/drivers/ipc/ringbuffer.c\<close> with the structure of
  \<^verbatim>\<open>rt-thread/components/drivers/include/ipc/ringbuffer.h\<close>: the byte ring with
  mirror bits that the serial and pipe drivers use.  The index fields keep their width
  of 15 bits and the mirrors theirs of one bit; \<open>rt_size_t\<close> is 32 bits wide.
  Differences such as \<open>buffer_size - write_index\<close> are computed in \<open>int\<close>, as
  the C promotions do.  Every copy into or out of the pool goes through the partial
  accessors of the prelude, so that \<open>None\<close> is an access outside the pool.
\<close>

section \<open>The structure and its operations\<close>

record rt_ringbuffer =
  buffer_ptr :: "u8 list"
  read_mirror :: "1 word"
  read_index :: "15 word"
  write_mirror :: "1 word"
  write_index :: "15 word"
  buffer_size :: u16

datatype rt_ringbuffer_state =
  RT_RINGBUFFER_EMPTY | RT_RINGBUFFER_FULL | RT_RINGBUFFER_HALFFULL

definition rt_ringbuffer_status :: "rt_ringbuffer \<Rightarrow> rt_ringbuffer_state" where
  "rt_ringbuffer_status rb =
     (if read_index rb = write_index rb
      then if read_mirror rb = write_mirror rb then RT_RINGBUFFER_EMPTY
           else RT_RINGBUFFER_FULL
      else RT_RINGBUFFER_HALFFULL)"

definition rt_ringbuffer_data_len :: "rt_ringbuffer \<Rightarrow> u32" where
  "rt_ringbuffer_data_len rb =
     (case rt_ringbuffer_status rb of
        RT_RINGBUFFER_EMPTY \<Rightarrow> 0
      | RT_RINGBUFFER_FULL \<Rightarrow> scast (buffer_size rb)
      | RT_RINGBUFFER_HALFFULL \<Rightarrow>
          (let wi = ucast (write_index rb) :: u32; ri = ucast (read_index rb) :: u32
           in if wi > ri then wi - ri else scast (buffer_size rb) - (ri - wi)))"

definition rt_ringbuffer_space_len :: "rt_ringbuffer \<Rightarrow> u32" where
  "rt_ringbuffer_space_len rb = scast (buffer_size rb) - rt_ringbuffer_data_len rb"

definition rt_ringbuffer_get_size :: "rt_ringbuffer \<Rightarrow> u16" where
  "rt_ringbuffer_get_size rb = buffer_size rb"

definition rt_ringbuffer_init :: "u8 list \<Rightarrow> u16 \<Rightarrow> rt_ringbuffer option" where
  "rt_ringbuffer_init pool sz =
     do {
       rt_assert (sint sz > 0);
       Some \<lparr>buffer_ptr = pool, read_mirror = 0, read_index = 0,
             write_mirror = 0, write_index = 0,
             buffer_size = RT_ALIGN_DOWN sz 4\<rparr>
     }"

definition rt_ringbuffer_reset :: "rt_ringbuffer \<Rightarrow> rt_ringbuffer" where
  "rt_ringbuffer_reset rb =
     rb\<lparr>read_mirror := 0, read_index := 0, write_mirror := 0, write_index := 0\<rparr>"

text \<open>
  The copy of \<open>len\<close> bytes at the write position that \<open>rt_ringbuffer_put\<close> and
  \<open>rt_ringbuffer_put_force\<close> both contain: one block if it ends before the end of the
  pool, otherwise two blocks and a flip of the write mirror.
\<close>

definition rt_ringbuffer_copy_in :: "rt_ringbuffer \<Rightarrow> u8 list \<Rightarrow> u16 \<Rightarrow> rt_ringbuffer option" where
  "rt_ringbuffer_copy_in rb ptr len =
     (let room = sint (buffer_size rb) - uint (write_index rb) in
      if room > uint len then
        do {
          xs \<leftarrow> read_block ptr 0 (unat len);
          buf \<leftarrow> write_block (buffer_ptr rb) (unat (write_index rb)) xs;
          Some (rb\<lparr>buffer_ptr := buf,
                   write_index := word_of_int (uint (write_index rb) + uint len)\<rparr>)
        }
      else
        do {
          xs \<leftarrow> read_block ptr 0 (nat room);
          buf \<leftarrow> write_block (buffer_ptr rb) (unat (write_index rb)) xs;
          ys \<leftarrow> read_block ptr (nat room) (nat (uint len - room));
          buf' \<leftarrow> write_block buf 0 ys;
          Some (rb\<lparr>buffer_ptr := buf',
                   write_mirror := NOT (write_mirror rb),
                   write_index := word_of_int (uint len - room)\<rparr>)
        })"

definition rt_ringbuffer_put :: "rt_ringbuffer \<Rightarrow> u8 list \<Rightarrow> u16 \<Rightarrow> (u32 \<times> rt_ringbuffer) option" where
  "rt_ringbuffer_put rb ptr len0 =
     (let size = ucast (rt_ringbuffer_space_len rb) :: u16 in
      if size = 0 then Some (0, rb)
      else
        let len = (if size < len0 then size else len0) in
        do {
          rb' \<leftarrow> rt_ringbuffer_copy_in rb ptr len;
          Some (ucast len, rb')
        })"

definition rt_ringbuffer_put_force :: "rt_ringbuffer \<Rightarrow> u8 list \<Rightarrow> u16 \<Rightarrow> (u32 \<times> rt_ringbuffer) option" where
  "rt_ringbuffer_put_force rb ptr0 len0 =
     (let space_length = ucast (rt_ringbuffer_space_len rb) :: u16;
          (ptr, len) = (if uint len0 > sint (buffer_size rb)
                        then (drop (nat (uint len0 - sint (buffer_size rb))) ptr0, buffer_size rb)
                        else (ptr0, len0));
          room = sint (buffer_size rb) - uint (write_index rb)
      in do {
           rb' \<leftarrow> rt_ringbuffer_copy_in rb ptr len;
           if room > uint len then
             Some (ucast len,
                   if len > space_length then rb'\<lparr>read_index := write_index rb'\<rparr> else rb')
           else
             Some (ucast len,
                   if len > space_length
                   then rb'\<lparr>read_mirror := (if write_index rb' \<le> read_index rb'
                                            then NOT (read_mirror rb') else read_mirror rb'),
                            read_index := write_index rb'\<rparr>
                   else rb')
         })"

text \<open>
  \<open>rt_ringbuffer_get\<close> writes the bytes to the caller's buffer \<open>ptr\<close>, which is
  returned with its new content.
\<close>

definition rt_ringbuffer_get ::
    "rt_ringbuffer \<Rightarrow> u8 list \<Rightarrow> u16 \<Rightarrow> (u32 \<times> u8 list \<times> rt_ringbuffer) option" where
  "rt_ringbuffer_get rb ptr len0 =
     (let size = rt_ringbuffer_data_len rb in
      if size = 0 then Some (0, ptr, rb)
      else
        let len = (if size < ucast len0 then ucast size else len0) :: u16;
            room = sint (buffer_size rb) - uint (read_index rb)
        in if room > uint len then
             do {
               xs \<leftarrow> read_block (buffer_ptr rb) (unat (read_index rb)) (unat len);
               ptr' \<leftarrow> write_block ptr 0 xs;
               Some (ucast len, ptr',
                     rb\<lparr>read_index := word_of_int (uint (read_index rb) + uint len)\<rparr>)
             }
           else
             do {
               xs \<leftarrow> read_block (buffer_ptr rb) (unat (read_index rb)) (nat room);
               ptr' \<leftarrow> write_block ptr 0 xs;
               ys \<leftarrow> read_block (buffer_ptr rb) 0 (nat (uint len - room));
               ptr'' \<leftarrow> write_block ptr' (nat room) ys;
               Some (ucast len, ptr'',
                     rb\<lparr>read_mirror := NOT (read_mirror rb),
                        read_index := word_of_int (uint len - room)\<rparr>)
             })"

text \<open>
  \<open>rt_ringbuffer_peek\<close> hands out a pointer into the pool: the offset of the first
  readable byte, \<open>None\<close> standing for \<open>RT_NULL\<close>.
\<close>

definition rt_ringbuffer_peek :: "rt_ringbuffer \<Rightarrow> u32 \<times> nat option \<times> rt_ringbuffer" where
  "rt_ringbuffer_peek rb =
     (let size = rt_ringbuffer_data_len rb in
      if size = 0 then (0, None, rb)
      else
        let ptr = Some (unat (read_index rb));
            room = word_of_int (sint (buffer_size rb) - uint (read_index rb)) :: u32
        in if room > size
           then (size, ptr, rb\<lparr>read_index := ucast (ucast (read_index rb) + size)\<rparr>)
           else (room, ptr, rb\<lparr>read_mirror := NOT (read_mirror rb), read_index := 0\<rparr>))"

definition rt_ringbuffer_putchar :: "rt_ringbuffer \<Rightarrow> u8 \<Rightarrow> (u32 \<times> rt_ringbuffer) option" where
  "rt_ringbuffer_putchar rb ch =
     (if rt_ringbuffer_space_len rb = 0 then Some (0, rb)
      else
        do {
          buf \<leftarrow> store (buffer_ptr rb) (unat (write_index rb)) ch;
          (if uint (write_index rb) = sint (buffer_size rb) - 1
           then Some (1, rb\<lparr>buffer_ptr := buf, write_mirror := NOT (write_mirror rb),
                            write_index := 0\<rparr>)
           else Some (1, rb\<lparr>buffer_ptr := buf, write_index := write_index rb + 1\<rparr>))
        })"

definition rt_ringbuffer_putchar_force :: "rt_ringbuffer \<Rightarrow> u8 \<Rightarrow> (u32 \<times> rt_ringbuffer) option" where
  "rt_ringbuffer_putchar_force rb ch =
     (let old_state = rt_ringbuffer_status rb in
      do {
        buf \<leftarrow> store (buffer_ptr rb) (unat (write_index rb)) ch;
        (if uint (write_index rb) = sint (buffer_size rb) - 1 then
           let rb1 = rb\<lparr>buffer_ptr := buf, write_mirror := NOT (write_mirror rb), write_index := 0\<rparr>
           in Some (1, if old_state = RT_RINGBUFFER_FULL
                       then rb1\<lparr>read_mirror := NOT (read_mirror rb1),
                                read_index := write_index rb1\<rparr>
                       else rb1)
         else
           let rb1 = rb\<lparr>buffer_ptr := buf, write_index := write_index rb + 1\<rparr>
           in Some (1, if old_state = RT_RINGBUFFER_FULL
                       then rb1\<lparr>read_index := write_index rb1\<rparr> else rb1))
      })"

definition rt_ringbuffer_getchar :: "rt_ringbuffer \<Rightarrow> (u32 \<times> u8 option \<times> rt_ringbuffer) option" where
  "rt_ringbuffer_getchar rb =
     (if rt_ringbuffer_data_len rb = 0 then Some (0, None, rb)
      else
        do {
          ch \<leftarrow> load (buffer_ptr rb) (unat (read_index rb));
          (if uint (read_index rb) = sint (buffer_size rb) - 1
           then Some (1, Some ch, rb\<lparr>read_mirror := NOT (read_mirror rb), read_index := 0\<rparr>)
           else Some (1, Some ch, rb\<lparr>read_index := read_index rb + 1\<rparr>))
        })"

section \<open>Invariant and abstraction\<close>

text \<open>
  A ring is well formed when its pool holds at least \<open>buffer_size\<close> bytes, both indices lie
  inside it, and the mirrors agree with the order of the indices: in the same mirror the
  writer is not behind the reader, in different mirrors it is not ahead of it.
\<close>

definition rb_size :: "rt_ringbuffer \<Rightarrow> nat" where
  "rb_size rb = unat (buffer_size rb)"

lemma rb_size_update [simp]:
  "rb_size (rb\<lparr>buffer_ptr := b\<rparr>) = rb_size rb"
  "rb_size (rb\<lparr>read_mirror := x\<rparr>) = rb_size rb"
  "rb_size (rb\<lparr>read_index := i\<rparr>) = rb_size rb"
  "rb_size (rb\<lparr>write_mirror := x\<rparr>) = rb_size rb"
  "rb_size (rb\<lparr>write_index := i\<rparr>) = rb_size rb"
  by (simp_all add: rb_size_def)

definition rb_inv :: "rt_ringbuffer \<Rightarrow> bool" where
  "rb_inv rb \<longleftrightarrow>
     0 < rb_size rb \<and> rb_size rb < 32768 \<and>
     rb_size rb \<le> length (buffer_ptr rb) \<and>
     unat (read_index rb) < rb_size rb \<and> unat (write_index rb) < rb_size rb \<and>
     (if read_mirror rb = write_mirror rb
      then unat (read_index rb) \<le> unat (write_index rb)
      else unat (write_index rb) \<le> unat (read_index rb))"

definition rb_used :: "rt_ringbuffer \<Rightarrow> nat" where
  "rb_used rb =
     (if read_mirror rb = write_mirror rb
      then unat (write_index rb) - unat (read_index rb)
      else rb_size rb - (unat (read_index rb) - unat (write_index rb)))"

definition rb_list :: "rt_ringbuffer \<Rightarrow> u8 list" where
  "rb_list rb =
     map (\<lambda>i. buffer_ptr rb ! ((unat (read_index rb) + i) mod rb_size rb)) [0..<rb_used rb]"

lemma length_rb_list [simp]: "length (rb_list rb) = rb_used rb"
  by (simp add: rb_list_def)

lemma rb_used_le: "rb_inv rb \<Longrightarrow> rb_used rb \<le> rb_size rb"
  by (auto simp: rb_inv_def rb_used_def split: if_splits)

lemma rb_write_pos:
  "rb_inv rb \<Longrightarrow> unat (write_index rb) = (unat (read_index rb) + rb_used rb) mod rb_size rb"
  by (auto simp: rb_inv_def rb_used_def mod_if split: if_splits)

lemma sint_buffer_size: "rb_inv rb \<Longrightarrow> sint (buffer_size rb) = int (rb_size rb)"
  unfolding rb_inv_def rb_size_def by (simp only: sint_nonneg_unat)

lemma unat_scast_size: "rb_inv rb \<Longrightarrow> unat (scast (buffer_size rb) :: u32) = rb_size rb"
proof -
  assume i: "rb_inv rb"
  have "(scast (buffer_size rb) :: u32) = word_of_int (sint (buffer_size rb))" by simp
  also have "\<dots> = of_nat (rb_size rb)" using i by (simp only: sint_buffer_size of_int_of_nat_eq)
  finally show ?thesis using i by (simp add: rb_inv_def unat_of_nat take_bit_nat_eq_self)
qed

lemma unat_ucast15 [simp]: "unat (ucast (x :: 15 word) :: u32) = unat x"
  by (simp add: unat_ucast_le)

lemma unat_data_len: "rb_inv rb \<Longrightarrow> unat (rt_ringbuffer_data_len rb) = rb_used rb"
proof -
  assume i: "rb_inv rb"
  note sz = unat_scast_size [OF i]
  show ?thesis
    using i sz
    by (auto simp: rt_ringbuffer_data_len_def rt_ringbuffer_status_def rb_inv_def rb_used_def
        Let_def word_less_nat_alt unat_sub_if'
        split: if_splits dest: unat_eqD)
qed

lemma unat_space_len:
  "rb_inv rb \<Longrightarrow> unat (rt_ringbuffer_space_len rb) = rb_size rb - rb_used rb"
  by (simp add: rt_ringbuffer_space_len_def unat_sub_if' unat_scast_size unat_data_len rb_used_le)

subsection \<open>The copy at the write position\<close>

lemma copy_in_correct:
  assumes i: "rb_inv rb" and l: "unat len \<le> rb_size rb" and p: "unat len \<le> length ptr"
  defines "n \<equiv> rb_size rb" and "w \<equiv> unat (write_index rb)"
  shows "\<exists>buf. rt_ringbuffer_copy_in rb ptr len =
       Some (rb\<lparr>buffer_ptr := buf,
                write_mirror := (if w + unat len < n then write_mirror rb else NOT (write_mirror rb)),
                write_index := word_of_int (int ((w + unat len) mod n))\<rparr>) \<and>
    length buf = length (buffer_ptr rb) \<and>
    (\<forall>j < unat len. buf ! ((w + j) mod n) = ptr ! j) \<and>
    (\<forall>q < n. (\<forall>j < unat len. (w + j) mod n \<noteq> q) \<longrightarrow> buf ! q = buffer_ptr rb ! q)"
proof -
  have wn: "w < n" and nl: "n \<le> length (buffer_ptr rb)" "0 < n"
    using i by (auto simp: rb_inv_def n_def w_def)
  have u: "uint len = int (unat len)" "uint (write_index rb) = int w" "sint (buffer_size rb) = int n"
    by (simp_all add: sint_buffer_size [OF i] n_def w_def)
  have guard: "uint len < sint (buffer_size rb) - uint (write_index rb) \<longleftrightarrow> w + unat len < n"
    unfolding u by linarith
  have room: "nat (sint (buffer_size rb) - uint (write_index rb)) = n - w"
    unfolding u by simp
  have rest: "uint len - (sint (buffer_size rb) - uint (write_index rb)) = int (unat len - (n - w))"
    if "\<not> w + unat len < n" unfolding u using that wn by linarith
  have idx: "uint (write_index rb) + uint len = int (w + unat len)" unfolding u by simp
  show ?thesis
  proof (cases "w + unat len < n")
    case True
    let ?buf = "take w (buffer_ptr rb) @ take (unat len) ptr @ drop (w + unat len) (buffer_ptr rb)"
    have nth: "?buf ! q = (if w \<le> q \<and> q < w + unat len then ptr ! (q - w) else buffer_ptr rb ! q)"
      if "q < n" for q
      using that nth_overwrite [of w "take (unat len) ptr" "buffer_ptr rb" q] True nl p by auto
    show ?thesis
    proof (intro exI [of _ ?buf] conjI allI impI)
      show "rt_ringbuffer_copy_in rb ptr len = Some (rb\<lparr>buffer_ptr := ?buf,
                write_mirror := (if w + unat len < n then write_mirror rb else NOT (write_mirror rb)),
                write_index := word_of_int (int ((w + unat len) mod n))\<rparr>)"
        unfolding rt_ringbuffer_copy_in_def Let_def guard idx w_def [symmetric]
        using True p nl by simp
    next
      fix q assume "q < n" and no: "\<forall>j < unat len. (w + j) mod n \<noteq> q"
      moreover have "\<not> (w \<le> q \<and> q < w + unat len)"
      proof
        assume "w \<le> q \<and> q < w + unat len"
        then have "q - w < unat len" "w + (q - w) = q" by auto
        with no [rule_format, of "q - w"] True show False by simp
      qed
      ultimately show "?buf ! q = buffer_ptr rb ! q" using nth [of q] by auto
    qed (use True nl p nth wn in \<open>auto simp: min_def\<close>)
  next
    case False
    let ?r = "n - w" let ?s = "unat len - (n - w)"
    define b1 where "b1 = take w (buffer_ptr rb) @ take ?r ptr @ drop (w + ?r) (buffer_ptr rb)"
    let ?buf = "take ?s (drop ?r ptr) @ drop ?s b1"
    have sl: "?s \<le> w" "?r \<le> unat len" using False l wn by (auto simp: n_def)
    have lb1: "length b1 = length (buffer_ptr rb)" using nl p sl wn by (simp add: b1_def)
    have b1: "b1 ! q = (if w \<le> q then ptr ! (q - w) else buffer_ptr rb ! q)" if "q < n" for q
      using that nth_overwrite [of w "take ?r ptr" "buffer_ptr rb" q] nl p sl wn
      by (auto simp: b1_def)
    have nth: "?buf ! q = (if q < ?s then ptr ! (?r + q)
        else if w \<le> q then ptr ! (q - w) else buffer_ptr rb ! q)" if "q < n" for q
    proof -
      have "?buf ! q = (if q < ?s then take ?s (drop ?r ptr) ! q else b1 ! q)"
        using that sl p lb1 nl wn by (simp add: nth_append)
      then show ?thesis using that sl p by (simp add: b1)
    qed
    have md: "(w + unat len) mod n = ?s" using False l wn by (auto simp: mod_if n_def)
    have wj: "(w + j) mod n = (if j < ?r then w + j else j - ?r)" if "j < unat len" for j
      using that l wn by (auto simp: mod_if n_def)
    show ?thesis
    proof (intro exI [of _ ?buf] conjI allI impI)
      show "rt_ringbuffer_copy_in rb ptr len = Some (rb\<lparr>buffer_ptr := ?buf,
                write_mirror := (if w + unat len < n then write_mirror rb else NOT (write_mirror rb)),
                write_index := word_of_int (int ((w + unat len) mod n))\<rparr>)"
      proof -
        have "read_block ptr 0 ?r = Some (take ?r ptr)" using p sl by simp
        moreover have "write_block (buffer_ptr rb) w (take ?r ptr) = Some b1"
          using nl p sl wn by (simp add: write_block_def b1_def)
        moreover have "read_block ptr ?r ?s = Some (take ?s (drop ?r ptr))" using p sl by simp
        moreover have lt: "length (take ?s (drop ?r ptr)) = ?s" using p sl by simp
        moreover have "write_block b1 0 (take ?s (drop ?r ptr)) = Some ?buf"
          using lb1 sl wn lt nl by (simp only: write_block_def) simp
        ultimately show ?thesis
          unfolding rt_ringbuffer_copy_in_def Let_def guard room rest [OF False]
            w_def [symmetric] md using False
          by (simp only: if_False nat_int Option.bind.simps)
      qed
    next
      show "length ?buf = length (buffer_ptr rb)" using lb1 sl p wn nl by auto
    next
      fix j assume "j < unat len"
      then show "?buf ! ((w + j) mod n) = ptr ! j"
        using nth [of "(w + j) mod n"] wj [of j] nl sl wn l by (auto simp: n_def)
    next
      fix q assume q: "q < n" and no: "\<forall>j < unat len. (w + j) mod n \<noteq> q"
      have "\<not> q < ?s"
      proof
        assume "q < ?s"
        then have "?r + q < unat len" by linarith
        with no wj [of "?r + q"] show False by auto
      qed
      moreover have "\<not> w \<le> q"
      proof
        assume "w \<le> q"
        then have "q - w < unat len" "q - w < ?r" using q sl by linarith+
        with no wj [of "q - w"] \<open>w \<le> q\<close> show False by auto
      qed
      ultimately show "?buf ! q = buffer_ptr rb ! q" using nth [OF q] by simp
    qed
  qed
qed

subsection \<open>Writing\<close>

lemma one_bit_cases: "(x :: 1 word) = 0 \<or> x = 1"
proof -
  have "unat x < 2" using unsigned_less [of x, where 'a = nat] by simp
  then have "unat x = unat (0 :: 1 word) \<or> unat x = unat (1 :: 1 word)" by auto
  then show ?thesis using unat_eqD by blast
qed

lemma one_bit_not: "(NOT x = y) \<longleftrightarrow> x \<noteq> y" for x y :: "1 word"
  using one_bit_cases [of x] one_bit_cases [of y] by auto

text \<open>What a correct write of \<open>xs\<close> at the end of the queue is, in terms of the fields.\<close>

lemma rb_append:
  assumes i: "rb_inv rb" and fits: "rb_used rb + m \<le> rb_size rb"
    and buf: "length buf = length (buffer_ptr rb)"
    and new: "\<forall>j < m. buf ! ((unat (write_index rb) + j) mod rb_size rb) = xs ! j"
    and old: "\<forall>q < rb_size rb.
        (\<forall>j < m. (unat (write_index rb) + j) mod rb_size rb \<noteq> q) \<longrightarrow> buf ! q = buffer_ptr rb ! q"
    and rb': "rb' = rb\<lparr>buffer_ptr := buf,
        write_mirror := (if unat (write_index rb) + m < rb_size rb then write_mirror rb
                         else NOT (write_mirror rb)),
        write_index := word_of_int (int ((unat (write_index rb) + m) mod rb_size rb))\<rparr>"
  shows "rb_inv rb'" "rb_used rb' = rb_used rb + m" "m \<le> length xs \<Longrightarrow> rb_list rb' = rb_list rb @ take m xs"
proof -
  let ?n = "rb_size rb" and ?w = "unat (write_index rb)" and ?r = "unat (read_index rb)"
  have n0: "0 < ?n" "?n < 32768" "?w < ?n" "?r < ?n" using i by (auto simp: rb_inv_def)
  have w': "unat (write_index rb') = (?w + m) mod ?n"
  proof -
    have "(?w + m) mod ?n < 32768" using n0 mod_less_divisor [of ?n "?w + m"] by linarith
    then show ?thesis unfolding rb' by (simp add: unat_of_nat take_bit_nat_eq_self)
  qed
  have shift: "(?w + j) mod ?n = (?r + (rb_used rb + j)) mod ?n" for j
    by (subst rb_write_pos [OF i]) (simp only: mod_add_left_eq add.assoc)
  have fields: "rb_size rb' = ?n" "read_index rb' = read_index rb" "read_mirror rb' = read_mirror rb"
    "buffer_ptr rb' = buf" by (simp_all add: rb' rb_size_def)
  have mir: "write_mirror rb' = (if ?w + m < ?n then write_mirror rb else NOT (write_mirror rb))"
    by (simp add: rb')
  have m: "m \<le> ?n" using fits by simp
  show inv: "rb_inv rb'"
    using i fits n0 buf unfolding rb_inv_def rb_used_def fields w' mir
    by (auto simp: mod_add_if [OF n0(3) m] one_bit_not split: if_splits) (metis one_bit_not)+
  show used: "rb_used rb' = rb_used rb + m"
    using i fits n0 unfolding rb_inv_def rb_used_def fields w' mir
    by (auto simp: mod_add_if [OF n0(3) m] one_bit_not split: if_splits) (metis one_bit_not)+
  assume len: "m \<le> length xs"
  show "rb_list rb' = rb_list rb @ take m xs"
  proof (rule nth_equalityI)
    show "length (rb_list rb') = length (rb_list rb @ take m xs)" using used len by simp
  next
    fix k assume "k < length (rb_list rb')"
    then have k: "k < rb_used rb + m" by (simp add: used)
    have l: "rb_list rb' ! k = buf ! ((?r + k) mod ?n)"
      using k by (simp add: rb_list_def fields used)
    show "rb_list rb' ! k = (rb_list rb @ take m xs) ! k"
    proof (cases "k < rb_used rb")
      case True
      have "(?w + j) mod ?n \<noteq> (?r + k) mod ?n" if "j < m" for j
      proof
        assume "(?w + j) mod ?n = (?r + k) mod ?n"
        then have "(?r + (rb_used rb + j)) mod ?n = (?r + k) mod ?n" by (simp only: shift)
        then have "rb_used rb + j = k" by (rule mod_window_inj) (use that fits True in auto)
        with True show False by simp
      qed
      then have "buf ! ((?r + k) mod ?n) = buffer_ptr rb ! ((?r + k) mod ?n)"
        using n0 old by auto
      with l True show ?thesis by (simp add: nth_append rb_list_def)
    next
      case False
      then have "(?r + k) mod ?n = (?w + (k - rb_used rb)) mod ?n" by (simp only: shift) simp
      moreover have "buf ! ((?w + (k - rb_used rb)) mod ?n) = xs ! (k - rb_used rb)"
        using new [rule_format, of "k - rb_used rb"] False k by simp
      ultimately show ?thesis using l False k len by (simp only: nth_append) simp
    qed
  qed
qed

lemma unat_ucast_space:
  assumes i: "rb_inv rb"
  shows "unat (ucast (rt_ringbuffer_space_len rb) :: u16) = rb_size rb - rb_used rb"
proof -
  have "rb_size rb - rb_used rb < 65536" using i by (auto simp: rb_inv_def)
  then show ?thesis by (simp add: unsigned_ucast_eq unat_space_len [OF i] take_bit_nat_eq_self_iff)
qed

lemma copy_in_append:
  assumes i: "rb_inv rb" and fits: "rb_used rb + unat len \<le> rb_size rb" and p: "unat len \<le> length ptr"
  shows "\<exists>rb'. rt_ringbuffer_copy_in rb ptr len = Some rb' \<and> rb_inv rb' \<and>
           buffer_size rb' = buffer_size rb \<and> read_index rb' = read_index rb \<and>
           read_mirror rb' = read_mirror rb \<and> rb_list rb' = rb_list rb @ take (unat len) ptr"
proof -
  have l: "unat len \<le> rb_size rb" using fits by simp
  obtain buf where c: "rt_ringbuffer_copy_in rb ptr len =
       Some (rb\<lparr>buffer_ptr := buf,
                write_mirror := (if unat (write_index rb) + unat len < rb_size rb then write_mirror rb
                                 else NOT (write_mirror rb)),
                write_index := word_of_int (int ((unat (write_index rb) + unat len) mod rb_size rb))\<rparr>)"
      (is "_ = Some ?rb'")
    and b: "length buf = length (buffer_ptr rb)"
    "\<forall>j < unat len. buf ! ((unat (write_index rb) + j) mod rb_size rb) = ptr ! j"
    "\<forall>q < rb_size rb. (\<forall>j < unat len. (unat (write_index rb) + j) mod rb_size rb \<noteq> q) \<longrightarrow>
        buf ! q = buffer_ptr rb ! q"
    using copy_in_correct [OF i l p] by blast
  note app = rb_append [OF i fits b refl]
  from c app(1) app(3) [OF p] show ?thesis by (intro exI [of _ ?rb']) simp
qed

text \<open>A ring whose contents wrap around the end of the pool, for the concrete instances.\<close>

definition sample_ring :: rt_ringbuffer where
  "sample_ring =
     \<lparr>buffer_ptr = [11, 12, 13, 14], read_mirror = 0, read_index = 3, write_mirror = 1,
      write_index = 1, buffer_size = 4\<rparr>"

lemma sample_ring_inv: "rb_inv sample_ring"
  by (simp add: rb_inv_def sample_ring_def rb_size_def)

lemma sample_ring_simps: "rb_size sample_ring = 4" "rb_used sample_ring = 2" "rb_list sample_ring = [14, 11]"
  by (simp_all add: sample_ring_def rb_size_def rb_used_def rb_list_def upt_rec)

text \<open>
  \<open>rt_ringbuffer_put\<close> appends as many of the offered bytes as there is room for, reports
  how many, never touches memory outside the pool and keeps the ring well formed.
\<close>

theorem put_correct:
  assumes i: "rb_inv rb" and p: "unat len \<le> length ptr"
  defines "m \<equiv> min (unat len) (rb_size rb - rb_used rb)"
  shows "\<exists>rb'. rt_ringbuffer_put rb ptr len = Some (of_nat m, rb') \<and> rb_inv rb' \<and>
           rb_size rb' = rb_size rb \<and> rb_list rb' = rb_list rb @ take m ptr"
proof (cases "rb_size rb = rb_used rb")
  case True
  have "(ucast (rt_ringbuffer_space_len rb) :: u16) = 0"
    by (rule unat_eqD) (simp add: unat_ucast_space [OF i] True)
  then show ?thesis using i True by (simp add: rt_ringbuffer_put_def m_def)
next
  case False
  let ?s = "ucast (rt_ringbuffer_space_len rb) :: u16"
  define l where "l = (if ?s < len then ?s else len)"
  have us: "unat ?s = rb_size rb - rb_used rb" by (rule unat_ucast_space [OF i])
  then have s0: "?s \<noteq> 0" using False rb_used_le [OF i] by force
  have ul: "unat l = m" using us by (auto simp: l_def m_def word_less_nat_alt)
  have lm: "ucast l = (of_nat m :: u32)" by (simp flip: ul)
  have ml: "unat l \<le> length ptr" "rb_used rb + unat l \<le> rb_size rb"
    using p rb_used_le [OF i] by (auto simp: m_def ul)
  obtain rb' where "rt_ringbuffer_copy_in rb ptr l = Some rb'" "rb_inv rb'"
    "buffer_size rb' = buffer_size rb" "rb_list rb' = rb_list rb @ take (unat l) ptr"
    using copy_in_append [OF i ml(2,1)] by blast
  then show ?thesis
    using s0 by (simp add: rt_ringbuffer_put_def Let_def l_def [symmetric] lm ul rb_size_def)
qed

theorem put_correct_witness:
  "\<exists>rb'. rt_ringbuffer_put sample_ring [1, 2, 3] 3 = Some (2, rb') \<and> rb_list rb' = [14, 11, 1, 2]"
  using put_correct [OF sample_ring_inv, of 3 "[1, 2, 3]"] by (auto simp: sample_ring_simps)

subsection \<open>Reading\<close>

text \<open>Advancing the reader by \<open>d\<close> bytes drops them from the queue.\<close>

lemma rb_advance:
  assumes i: "rb_inv rb" and d: "d \<le> rb_used rb"
    and rb': "rb' = rb\<lparr>read_mirror := (if unat (read_index rb) + d < rb_size rb then read_mirror rb
                                       else NOT (read_mirror rb)),
                      read_index := word_of_int (int ((unat (read_index rb) + d) mod rb_size rb))\<rparr>"
  shows "rb_inv rb'" "rb_used rb' = rb_used rb - d" "rb_list rb' = drop d (rb_list rb)"
proof -
  let ?n = "rb_size rb" and ?r = "unat (read_index rb)"
  have n0: "0 < ?n" "?n < 32768" "?r < ?n" using i by (auto simp: rb_inv_def)
  have m: "d \<le> ?n" using d rb_used_le [OF i] by simp
  have "(?r + d) mod ?n < 32768" using n0 mod_less_divisor [of ?n "?r + d"] by linarith
  then have r': "unat (read_index rb') = (?r + d) mod ?n"
    unfolding rb' by (simp add: unat_of_nat take_bit_nat_eq_self)
  have fields: "rb_size rb' = ?n" "write_index rb' = write_index rb" "write_mirror rb' = write_mirror rb"
    "buffer_ptr rb' = buffer_ptr rb" by (simp_all add: rb' rb_size_def)
  have mir: "read_mirror rb' = (if ?r + d < ?n then read_mirror rb else NOT (read_mirror rb))"
    by (simp add: rb')
  show inv: "rb_inv rb'"
    using i d n0 unfolding rb_inv_def rb_used_def fields r' mir
    by (auto simp: mod_add_if [OF n0(3) m] one_bit_not split: if_splits)
  show used: "rb_used rb' = rb_used rb - d"
    using i d n0 unfolding rb_inv_def rb_used_def fields r' mir
    by (auto simp: mod_add_if [OF n0(3) m] one_bit_not split: if_splits)
  show "rb_list rb' = drop d (rb_list rb)"
  proof (rule nth_equalityI)
    show "length (rb_list rb') = length (drop d (rb_list rb))" by (simp add: used)
  next
    fix k assume "k < length (rb_list rb')"
    then have k: "k < rb_used rb - d" by (simp add: used)
    have "((?r + d) mod ?n + k) mod ?n = (?r + (d + k)) mod ?n"
      by (simp only: mod_add_left_eq add.assoc)
    moreover have "d + k < rb_used rb" using k by linarith
    ultimately show "rb_list rb' ! k = drop d (rb_list rb) ! k" using k
      by (simp add: rb_list_def fields used r')
  qed
qed

lemma take_rb_list:
  assumes i: "rb_inv rb" and d: "d \<le> rb_used rb"
  shows "take d (rb_list rb) =
    (if unat (read_index rb) + d < rb_size rb
     then take d (drop (unat (read_index rb)) (buffer_ptr rb))
     else take (rb_size rb - unat (read_index rb)) (drop (unat (read_index rb)) (buffer_ptr rb)) @
          take (d - (rb_size rb - unat (read_index rb))) (buffer_ptr rb))" (is "?l = ?x")
proof (rule nth_equalityI)
  let ?n = "rb_size rb" and ?r = "unat (read_index rb)"
  have n0: "?r < ?n" "?n \<le> length (buffer_ptr rb)" "d \<le> ?n"
    using i d rb_used_le [OF i] by (auto simp: rb_inv_def)
  then show "length ?l = length ?x" using d by auto
  fix k assume "k < length ?l"
  then have k: "k < d" by simp
  then have "?l ! k = buffer_ptr rb ! ((?r + k) mod ?n)" using d by (simp add: rb_list_def)
  also have "\<dots> = ?x ! k"
    using k n0 by (auto simp: mod_add_if nth_append add.commute)
  finally show "?l ! k = ?x ! k" .
qed

text \<open>
  \<open>rt_ringbuffer_get\<close> moves the oldest bytes, as many as were asked for and are there, to
  the front of the caller's buffer and leaves the rest of the buffer and of the queue alone.
\<close>

theorem get_correct:
  assumes i: "rb_inv rb" and p: "unat len \<le> length ptr"
  defines "m \<equiv> min (unat len) (rb_used rb)"
  shows "\<exists>rb'. rt_ringbuffer_get rb ptr len =
           Some (of_nat m, take m (rb_list rb) @ drop m ptr, rb') \<and>
           rb_inv rb' \<and> rb_size rb' = rb_size rb \<and> rb_list rb' = drop m (rb_list rb)"
proof (cases "rb_used rb = 0")
  case True
  then have "rt_ringbuffer_data_len rb = 0"
    by (intro unat_eqD) (simp add: unat_data_len [OF i])
  then show ?thesis using i True by (simp add: rt_ringbuffer_get_def m_def)
next
  case False
  let ?n = "rb_size rb" and ?r = "unat (read_index rb)"
  have n0: "?r < ?n" "?n < 32768" "?n \<le> length (buffer_ptr rb)" using i by (auto simp: rb_inv_def)
  have ud: "unat (rt_ringbuffer_data_len rb) = rb_used rb" by (rule unat_data_len [OF i])
  then have d0: "rt_ringbuffer_data_len rb \<noteq> 0" using False by force
  define l where "l = (if rt_ringbuffer_data_len rb < ucast len then ucast (rt_ringbuffer_data_len rb) else len)"
  have u16: "unat (ucast (rt_ringbuffer_data_len rb) :: u16) = rb_used rb"
    using n0 rb_used_le [OF i] by (simp add: unsigned_ucast_eq ud take_bit_nat_eq_self_iff)
  have ul: "unat l = m"
    using u16 ud by (auto simp: l_def m_def word_less_nat_alt unat_ucast_le)
  have lm: "ucast l = (of_nat m :: u32)" by (simp flip: ul)
  have m: "m \<le> rb_used rb" "m \<le> length ptr" "m \<le> ?n"
    using p rb_used_le [OF i] by (auto simp: m_def)
  have u: "uint l = int m" "uint (read_index rb) = int ?r" "sint (buffer_size rb) = int ?n"
    using sint_buffer_size [OF i] by (simp_all flip: ul)
  have guard: "uint l < sint (buffer_size rb) - uint (read_index rb) \<longleftrightarrow> ?r + m < ?n"
    unfolding u by linarith
  let ?rb' = "rb\<lparr>read_mirror := (if ?r + m < ?n then read_mirror rb else NOT (read_mirror rb)),
                 read_index := word_of_int (int ((?r + m) mod ?n))\<rparr>"
  note adv = rb_advance [OF i m(1) refl]
  have sz: "rb_size ?rb' = ?n" by (simp add: rb_size_def)
  have "rt_ringbuffer_get rb ptr len = Some (of_nat m, take m (rb_list rb) @ drop m ptr, ?rb')"
  proof (cases "?r + m < ?n")
    case True
    have idx: "uint (read_index rb) + uint l = int ((?r + m) mod ?n)" unfolding u using True by simp
    let ?xs = "take m (drop ?r (buffer_ptr rb))"
    have "read_block (buffer_ptr rb) ?r m = Some ?xs" using n0 True by simp
    moreover have "length ?xs = m" using n0 True by simp
    then have "write_block ptr 0 ?xs = Some (?xs @ drop m ptr)"
      using m(2) by (simp only: write_block_def add_0 if_True take_0 append_Nil)
    moreover have "take m (rb_list rb) = ?xs" using True by (simp add: take_rb_list [OF i m(1)])
    ultimately show ?thesis
      using d0 True unfolding rt_ringbuffer_get_def Let_def l_def [symmetric] guard idx lm ul
      by (simp only: if_False if_True nat_int Option.bind.simps simp_thms) simp
  next
    case False
    have room: "sint (buffer_size rb) - uint (read_index rb) = int (?n - ?r)"
      unfolding u using n0 by simp
    have rest: "uint l - (sint (buffer_size rb) - uint (read_index rb)) = int ((?r + m) mod ?n)"
      unfolding u using False n0 m by (simp add: mod_add_if)
    have md: "(?r + m) mod ?n = m - (?n - ?r)" using False n0 m by (simp add: mod_add_if)
    let ?xs = "take (?n - ?r) (drop ?r (buffer_ptr rb))" and ?ys = "take (m - (?n - ?r)) (buffer_ptr rb)"
    have lx: "length ?xs = ?n - ?r" "length ?ys = m - (?n - ?r)" using n0 m by auto
    have "read_block (buffer_ptr rb) ?r (?n - ?r) = Some ?xs" using n0 by simp
    moreover have "write_block ptr 0 ?xs = Some (?xs @ drop (?n - ?r) ptr)"
      using n0 m False by (simp add: write_block_def)
    moreover have "read_block (buffer_ptr rb) 0 (m - (?n - ?r)) = Some ?ys" using n0 m by simp
    moreover have "write_block (?xs @ drop (?n - ?r) ptr) (?n - ?r) ?ys = Some (?xs @ ?ys @ drop m ptr)"
      using n0 m False lx unfolding write_block_def by simp
    moreover have "take m (rb_list rb) = ?xs @ ?ys" using False by (simp add: take_rb_list [OF i m(1)])
    ultimately show ?thesis
      using d0 False unfolding rt_ringbuffer_get_def Let_def l_def [symmetric] guard rest lm
      unfolding room md
      by (simp only: if_False nat_int Option.bind.simps append_assoc simp_thms)
  qed
  with adv sz show ?thesis by blast
qed

theorem get_correct_witness:
  "\<exists>rb'. rt_ringbuffer_get sample_ring [0, 0, 0] 3 = Some (2, [14, 11, 0], rb') \<and> rb_list rb' = []"
  using get_correct [OF sample_ring_inv, of 3 "[0, 0, 0]"] by (auto simp: sample_ring_simps)

subsection \<open>Single bytes\<close>

lemma succ_index:
  assumes i: "rb_inv rb" and x: "unat (x :: 15 word) < rb_size rb"
  shows "uint x = sint (buffer_size rb) - 1 \<longleftrightarrow> \<not> unat x + 1 < rb_size rb"
    and "unat x + 1 < rb_size rb \<Longrightarrow> x + 1 = word_of_int (int ((unat x + 1) mod rb_size rb))"
    and "\<not> unat x + 1 < rb_size rb \<Longrightarrow> (0 :: 15 word) = word_of_int (int ((unat x + 1) mod rb_size rb))"
proof -
  have u: "uint x = int (unat x)" "sint (buffer_size rb) = int (rb_size rb)"
    using sint_buffer_size [OF i] by simp_all
  show "uint x = sint (buffer_size rb) - 1 \<longleftrightarrow> \<not> unat x + 1 < rb_size rb"
    unfolding u using x by linarith
next
  assume "unat x + 1 < rb_size rb"
  then show "x + 1 = word_of_int (int ((unat x + 1) mod rb_size rb))" by simp
next
  assume "\<not> unat x + 1 < rb_size rb"
  with x have "unat x + 1 = rb_size rb" by simp
  then show "(0 :: 15 word) = word_of_int (int ((unat x + 1) mod rb_size rb))" by simp
qed

lemma space_len_0: "rb_inv rb \<Longrightarrow> rt_ringbuffer_space_len rb = 0 \<longleftrightarrow> rb_used rb = rb_size rb"
  using unat_space_len [of rb] rb_used_le [of rb] unat_eqD [of "rt_ringbuffer_space_len rb" 0]
  by (metis diff_is_0_eq diff_self_eq_0 le_antisym unat_0)

lemma data_len_0: "rb_inv rb \<Longrightarrow> rt_ringbuffer_data_len rb = 0 \<longleftrightarrow> rb_used rb = 0"
  using unat_data_len [of rb] unat_eqD [of "rt_ringbuffer_data_len rb" 0] by auto

lemma rb_append_byte:
  assumes i: "rb_inv rb" and fits: "rb_used rb < rb_size rb"
    and rb': "rb' = rb\<lparr>buffer_ptr := (buffer_ptr rb)[unat (write_index rb) := ch],
        write_mirror := (if unat (write_index rb) + 1 < rb_size rb then write_mirror rb
                         else NOT (write_mirror rb)),
        write_index := word_of_int (int ((unat (write_index rb) + 1) mod rb_size rb))\<rparr>"
  shows "rb_inv rb'" "rb_list rb' = rb_list rb @ [ch]"
proof -
  have w: "unat (write_index rb) < rb_size rb" "rb_size rb \<le> length (buffer_ptr rb)"
    using i by (auto simp: rb_inv_def)
  have f: "rb_used rb + 1 \<le> rb_size rb" using fits by simp
  let ?buf = "(buffer_ptr rb)[unat (write_index rb) := ch]"
  have b: "length ?buf = length (buffer_ptr rb)"
    "\<forall>j < 1. ?buf ! ((unat (write_index rb) + j) mod rb_size rb) = [ch] ! j"
    "\<forall>q < rb_size rb. (\<forall>j < 1. (unat (write_index rb) + j) mod rb_size rb \<noteq> q) \<longrightarrow>
        ?buf ! q = buffer_ptr rb ! q"
    using w by auto
  show "rb_inv rb'" by (rule rb_append(1) [OF i f b rb'])
  show "rb_list rb' = rb_list rb @ [ch]" using rb_append(3) [OF i f b rb'] by simp
qed

theorem putchar_correct:
  assumes i: "rb_inv rb"
  shows "if rb_used rb < rb_size rb
         then \<exists>rb'. rt_ringbuffer_putchar rb ch = Some (1, rb') \<and> rb_inv rb' \<and>
                rb_size rb' = rb_size rb \<and> rb_list rb' = rb_list rb @ [ch]
         else rt_ringbuffer_putchar rb ch = Some (0, rb)"
proof (cases "rb_used rb < rb_size rb")
  case True
  have w: "unat (write_index rb) < rb_size rb" "rb_size rb \<le> length (buffer_ptr rb)"
    using i by (auto simp: rb_inv_def)
  note sx = succ_index [OF i w(1)]
  let ?rb' = "rb\<lparr>buffer_ptr := (buffer_ptr rb)[unat (write_index rb) := ch],
        write_mirror := (if unat (write_index rb) + 1 < rb_size rb then write_mirror rb
                         else NOT (write_mirror rb)),
        write_index := word_of_int (int ((unat (write_index rb) + 1) mod rb_size rb))\<rparr>"
  have "rt_ringbuffer_putchar rb ch = Some (1, ?rb')"
    using True w sx(2,3)
    unfolding rt_ringbuffer_putchar_def space_len_0 [OF i] sx(1) by simp
  moreover have "rb_size ?rb' = rb_size rb" by (simp add: rb_size_def)
  ultimately show ?thesis using rb_append_byte [OF i True refl] True by auto
next
  case False
  then show ?thesis using rb_used_le [OF i] by (simp add: rt_ringbuffer_putchar_def space_len_0 [OF i])
qed

theorem getchar_correct:
  assumes i: "rb_inv rb"
  shows "case rb_list rb of
           [] \<Rightarrow> rt_ringbuffer_getchar rb = Some (0, None, rb)
         | ch # rest \<Rightarrow> \<exists>rb'. rt_ringbuffer_getchar rb = Some (1, Some ch, rb') \<and> rb_inv rb' \<and>
             rb_size rb' = rb_size rb \<and> rb_list rb' = rest"
proof (cases "rb_list rb")
  case Nil
  then have "rb_used rb = 0" by (metis length_rb_list list.size(3))
  then show ?thesis using Nil by (simp add: rt_ringbuffer_getchar_def data_len_0 [OF i])
next
  case (Cons ch rest)
  then have u: "1 \<le> rb_used rb" by (metis length_rb_list length_Cons One_nat_def Suc_le_mono zero_le)
  have w: "unat (read_index rb) < rb_size rb" "rb_size rb \<le> length (buffer_ptr rb)"
    using i by (auto simp: rb_inv_def)
  note sx = succ_index [OF i w(1)]
  have ch: "buffer_ptr rb ! unat (read_index rb) = ch"
    using Cons u w by (auto simp: rb_list_def upt_conv_Cons)
  let ?rb' = "rb\<lparr>read_mirror := (if unat (read_index rb) + 1 < rb_size rb then read_mirror rb
                                else NOT (read_mirror rb)),
                 read_index := word_of_int (int ((unat (read_index rb) + 1) mod rb_size rb))\<rparr>"
  have "rt_ringbuffer_getchar rb = Some (1, Some ch, ?rb')"
    using u w sx(2,3) ch
    unfolding rt_ringbuffer_getchar_def data_len_0 [OF i] sx(1) by simp
  moreover have "rb_size ?rb' = rb_size rb" by (simp add: rb_size_def)
  ultimately show ?thesis using rb_advance [OF i u refl] Cons by auto
qed

subsection \<open>Overwriting writes\<close>

text \<open>
  A forced write of \<open>m\<close> bytes into a ring without room for them first gives up the
  oldest bytes: it is an advance of the reader followed by an ordinary append, and it
  leaves the reader on the writer in a full ring.
\<close>

lemma rb_overwrite:
  assumes i: "rb_inv rb" and m: "m \<le> rb_size rb" and over: "rb_size rb < rb_used rb + m"
    and buf: "length buf = length (buffer_ptr rb)"
    and new: "\<forall>j < m. buf ! ((unat (write_index rb) + j) mod rb_size rb) = xs ! j"
    and old: "\<forall>q < rb_size rb.
        (\<forall>j < m. (unat (write_index rb) + j) mod rb_size rb \<noteq> q) \<longrightarrow> buf ! q = buffer_ptr rb ! q"
    and xs: "m \<le> length xs"
    and rb': "rb' = rb\<lparr>buffer_ptr := buf,
        write_mirror := (if unat (write_index rb) + m < rb_size rb then write_mirror rb
                         else NOT (write_mirror rb)),
        write_index := word_of_int (int ((unat (write_index rb) + m) mod rb_size rb)),
        read_mirror := (if unat (write_index rb) + m < rb_size rb then read_mirror rb
             else if (unat (write_index rb) + m) mod rb_size rb \<le> unat (read_index rb)
             then NOT (read_mirror rb) else read_mirror rb),
        read_index := word_of_int (int ((unat (write_index rb) + m) mod rb_size rb))\<rparr>"
  shows "rb_inv rb' \<and> rb_list rb' = drop (rb_used rb + m - rb_size rb) (rb_list rb @ take m xs)"
proof -
  let ?n = "rb_size rb" and ?w = "unat (write_index rb)" and ?r = "unat (read_index rb)"
  define d where "d = rb_used rb + m - ?n"
  have d: "d \<le> rb_used rb" using m by (simp add: d_def)
  have n0: "0 < ?n" "?w < ?n" "?r < ?n" using i by (auto simp: rb_inv_def)
  let ?rba = "rb\<lparr>read_mirror := (if ?r + d < ?n then read_mirror rb else NOT (read_mirror rb)),
                 read_index := word_of_int (int ((?r + d) mod ?n))\<rparr>"
  note adv = rb_advance [OF i d refl]
  have sz: "rb_size ?rba = ?n" by (simp add: rb_size_def)
  have fits: "rb_used ?rba + m \<le> rb_size ?rba" unfolding adv(2) sz using over m by (simp add: d_def)
  have dn: "d \<le> ?n" using d rb_used_le [OF i] by simp
  have pos: "(?r + d) mod ?n = (?w + m) mod ?n"
    using i over m n0 by (auto simp: mod_add_if [OF n0(3) dn] mod_add_if [OF n0(2) m]
      d_def rb_inv_def rb_used_def split: if_splits)
  have mirror: "(if ?r + d < ?n then read_mirror rb else NOT (read_mirror rb)) =
      (if ?w + m < ?n then read_mirror rb
       else if (?w + m) mod ?n \<le> ?r then NOT (read_mirror rb) else read_mirror rb)"
    using i over m n0 by (auto simp: mod_add_if [OF n0(2) m] d_def rb_inv_def rb_used_def
      split: if_splits)
  have "rb' = ?rba\<lparr>buffer_ptr := buf,
        write_mirror := (if unat (write_index ?rba) + m < rb_size ?rba then write_mirror ?rba
                         else NOT (write_mirror ?rba)),
        write_index := word_of_int (int ((unat (write_index ?rba) + m) mod rb_size ?rba))\<rparr>"
    unfolding rb' mirror pos by simp
  note app = rb_append [OF adv(1) fits _ _ _ this, of xs, unfolded sz]
  have "rb_inv rb'" by (rule app(1)) (use buf new old in simp_all)
  moreover have "rb_list rb' = rb_list ?rba @ take m xs"
    by (rule app(3)) (use buf new old xs in simp_all)
  ultimately show ?thesis using adv(3) d by (simp add: d_def)
qed

text \<open>The clipping of an oversized request at the head of \<open>rt_ringbuffer_put_force\<close>.\<close>

lemma put_force_clipped:
  assumes i: "rb_inv rb" and l: "unat len \<le> rb_size rb" and p: "unat len \<le> length ptr"
  shows "\<exists>rb'. rt_ringbuffer_put_force rb ptr len = Some (ucast len, rb') \<and> rb_inv rb' \<and>
           rb_size rb' = rb_size rb \<and>
           rb_list rb' = drop (rb_used rb + unat len - rb_size rb) (rb_list rb @ take (unat len) ptr)"
proof -
  let ?n = "rb_size rb" and ?w = "unat (write_index rb)" and ?r = "unat (read_index rb)"
  let ?m = "unat len"
  have n0: "?w < ?n" "?n < 32768" using i by (auto simp: rb_inv_def)
  have u: "uint len = int ?m" "uint (write_index rb) = int ?w" "sint (buffer_size rb) = int ?n"
    using sint_buffer_size [OF i] by simp_all
  have clip: "\<not> sint (buffer_size rb) < uint len" unfolding u using l by linarith
  have guard: "uint len < sint (buffer_size rb) - uint (write_index rb) \<longleftrightarrow> ?w + ?m < ?n"
    unfolding u by linarith
  have sp: "ucast (rt_ringbuffer_space_len rb) < len \<longleftrightarrow> ?n < rb_used rb + ?m"
    unfolding word_less_nat_alt unat_ucast_space [OF i] using rb_used_le [OF i] by linarith
  obtain buf where cp: "rt_ringbuffer_copy_in rb ptr len =
       Some (rb\<lparr>buffer_ptr := buf,
                write_mirror := (if ?w + ?m < ?n then write_mirror rb else NOT (write_mirror rb)),
                write_index := word_of_int (int ((?w + ?m) mod ?n))\<rparr>)"
      (is "_ = Some ?rb1")
    and buf: "length buf = length (buffer_ptr rb)" "\<forall>j < ?m. buf ! ((?w + j) mod ?n) = ptr ! j"
      "\<forall>q < ?n. (\<forall>j < ?m. (?w + j) mod ?n \<noteq> q) \<longrightarrow> buf ! q = buffer_ptr rb ! q"
    using copy_in_correct [OF i l p] by blast
  have "(?w + ?m) mod ?n < 32768" using n0 mod_less_divisor [of ?n "?w + ?m"] by linarith
  then have w': "unat (write_index ?rb1) = (?w + ?m) mod ?n"
    by (simp add: unat_of_nat take_bit_nat_eq_self)
  show ?thesis
  proof (cases "?n < rb_used rb + ?m")
    case True
    let ?rb' = "rb\<lparr>buffer_ptr := buf,
        write_mirror := (if ?w + ?m < ?n then write_mirror rb else NOT (write_mirror rb)),
        write_index := word_of_int (int ((?w + ?m) mod ?n)),
        read_mirror := (if ?w + ?m < ?n then read_mirror rb
             else if (?w + ?m) mod ?n \<le> ?r then NOT (read_mirror rb) else read_mirror rb),
        read_index := word_of_int (int ((?w + ?m) mod ?n))\<rparr>"
    have le: "write_index ?rb1 \<le> read_index rb \<longleftrightarrow> (?w + ?m) mod ?n \<le> ?r"
      unfolding word_le_nat_alt w' ..
    have "rt_ringbuffer_put_force rb ptr len = Some (ucast len, ?rb')"
      unfolding rt_ringbuffer_put_force_def Let_def
      using clip True le
      by (simp only: if_False prod.case cp Option.bind.simps guard sp) simp
    moreover have "rb_size ?rb' = ?n" by (simp add: rb_size_def)
    ultimately show ?thesis using rb_overwrite [OF i l True buf p refl] by blast
  next
    case False
    then have fits: "rb_used rb + ?m \<le> ?n" by simp
    have "rt_ringbuffer_put_force rb ptr len = Some (ucast len, ?rb1)"
      unfolding rt_ringbuffer_put_force_def Let_def
      using clip False
      by (simp only: if_False prod.case cp Option.bind.simps guard sp) simp
    moreover have "rb_size ?rb1 = ?n" by (simp add: rb_size_def)
    ultimately show ?thesis using rb_append [OF i fits buf refl] p fits by simp
  qed
qed

text \<open>
  \<open>rt_ringbuffer_put_force\<close> keeps the newest \<open>size\<close> bytes of the old contents followed by
  the offered ones, whatever the length of the offer and the position of the indices.
\<close>

theorem put_force_correct:
  assumes i: "rb_inv rb" and p: "unat len \<le> length ptr"
  shows "\<exists>rb'. rt_ringbuffer_put_force rb ptr len =
             Some (of_nat (min (unat len) (rb_size rb)), rb') \<and> rb_inv rb' \<and>
           rb_size rb' = rb_size rb \<and>
           rb_list rb' = drop (rb_used rb + unat len - rb_size rb) (rb_list rb @ take (unat len) ptr)"
proof (cases "unat len \<le> rb_size rb")
  case True
  then show ?thesis using put_force_clipped [OF i True p] by (simp add: min_def)
next
  case False
  let ?n = "rb_size rb"
  let ?ptr = "drop (unat len - ?n) ptr"
  have u: "uint len = int (unat len)" "sint (buffer_size rb) = int ?n"
      "uint (buffer_size rb) = int ?n"
    using sint_buffer_size [OF i] by (simp_all add: rb_size_def)
  have big: "sint (buffer_size rb) < uint len" "\<not> sint (buffer_size rb) < uint (buffer_size rb)"
    unfolding u using False by linarith+
  have "nat (uint len - sint (buffer_size rb)) = unat len - ?n" unfolding u by linarith
  then have "rt_ringbuffer_put_force rb ptr len = rt_ringbuffer_put_force rb ?ptr (buffer_size rb)"
    using big by (simp only: rt_ringbuffer_put_force_def if_True if_False)
  moreover have "ucast (buffer_size rb) = (of_nat (min (unat len) ?n) :: u32)"
    using False by (simp add: min_def rb_size_def)
  moreover have "take ?n ?ptr = drop (unat len - ?n) (take (unat len) ptr)"
    using False by (simp add: drop_take)
  ultimately show ?thesis
    using put_force_clipped [OF i, of "buffer_size rb" ?ptr] False p
    by (auto simp: rb_size_def)
qed

theorem put_force_correct_witness:
  "\<exists>rb'. rt_ringbuffer_put_force sample_ring [1, 2, 3] 3 = Some (3, rb') \<and> rb_list rb' = [11, 1, 2, 3]"
  using put_force_correct [OF sample_ring_inv, of 3 "[1, 2, 3]"] by (auto simp: sample_ring_simps)

lemma status_full:
  "rb_inv rb \<Longrightarrow> rt_ringbuffer_status rb = RT_RINGBUFFER_FULL \<longleftrightarrow> rb_used rb = rb_size rb"
  by (auto simp: rt_ringbuffer_status_def rb_inv_def rb_used_def word_unat_eq_iff)

theorem putchar_force_correct:
  assumes i: "rb_inv rb"
  shows "\<exists>rb'. rt_ringbuffer_putchar_force rb ch = Some (1, rb') \<and> rb_inv rb' \<and>
           rb_size rb' = rb_size rb \<and>
           rb_list rb' = drop (rb_used rb + 1 - rb_size rb) (rb_list rb @ [ch])"
proof -
  let ?n = "rb_size rb" and ?w = "unat (write_index rb)" and ?r = "unat (read_index rb)"
  have w: "?w < ?n" "?n \<le> length (buffer_ptr rb)" "1 \<le> ?n" using i by (auto simp: rb_inv_def)
  note sx = succ_index [OF i w(1)]
  let ?buf = "(buffer_ptr rb)[?w := ch]"
  have b: "length ?buf = length (buffer_ptr rb)"
    "\<forall>j < 1. ?buf ! ((?w + j) mod ?n) = [ch] ! j"
    "\<forall>q < ?n. (\<forall>j < 1. (?w + j) mod ?n \<noteq> q) \<longrightarrow> ?buf ! q = buffer_ptr rb ! q"
    using w by auto
  show ?thesis
  proof (cases "rb_used rb = ?n")
    case True
    have z: "(?w + 1) mod ?n = 0" if "\<not> ?w + 1 < ?n" using that w by (simp add: mod_if)
    have "rt_ringbuffer_putchar_force rb ch = Some (1, rb\<lparr>buffer_ptr := ?buf,
        write_mirror := (if ?w + 1 < ?n then write_mirror rb else NOT (write_mirror rb)),
        write_index := word_of_int (int ((?w + 1) mod ?n)),
        read_mirror := (if ?w + 1 < ?n then read_mirror rb
             else if (?w + 1) mod ?n \<le> ?r then NOT (read_mirror rb) else read_mirror rb),
        read_index := word_of_int (int ((?w + 1) mod ?n))\<rparr>)"
      using True w sx(2,3) z
      unfolding rt_ringbuffer_putchar_force_def Let_def status_full [OF i] sx(1) by simp
    moreover have "?n < rb_used rb + 1" using True by simp
    ultimately show ?thesis
      using rb_overwrite [OF i w(3) _ b _ refl] by simp
  next
    case False
    then have f: "rb_used rb < ?n" using rb_used_le [OF i] by simp
    have "rt_ringbuffer_putchar_force rb ch = Some (1, rb\<lparr>buffer_ptr := ?buf,
        write_mirror := (if ?w + 1 < ?n then write_mirror rb else NOT (write_mirror rb)),
        write_index := word_of_int (int ((?w + 1) mod ?n))\<rparr>)"
      using False w sx(2,3)
      unfolding rt_ringbuffer_putchar_force_def Let_def status_full [OF i] sx(1) by simp
    then show ?thesis using rb_append_byte [OF i f refl] f by simp
  qed
qed

subsection \<open>Setting up\<close>

theorem init_correct:
  assumes "4 \<le> unat sz" "unat sz < 32768" "unat sz \<le> length pool"
  shows "\<exists>rb. rt_ringbuffer_init pool sz = Some rb \<and> rb_inv rb \<and> rb_list rb = [] \<and>
              buffer_ptr rb = pool \<and> rb_size rb = unat sz - unat sz mod 4"
proof -
  have "0 < sint sz" unfolding sint_nonneg_unat [OF assms(2)] using assms(1) by linarith
  then have "rt_assert (0 < sint sz) = Some ()" by simp
  moreover have "0 < unat sz - unat sz mod 4"
    using assms(1) mod_less_divisor [of 4 "unat sz"] by linarith
  moreover have "unat sz - unat sz mod 4 \<le> length pool" "unat sz - unat sz mod 4 < 32768"
    using assms(2,3) by linarith+
  ultimately show ?thesis
    by (simp add: rt_ringbuffer_init_def rb_inv_def rb_list_def rb_used_def rb_size_def
        unat_RT_ALIGN_DOWN)
qed

theorem reset_correct:
  assumes "rb_inv rb"
  shows "rb_inv (rt_ringbuffer_reset rb)" "rb_list (rt_ringbuffer_reset rb) = []"
    "rb_size (rt_ringbuffer_reset rb) = rb_size rb"
  using assms by (auto simp: rt_ringbuffer_reset_def rb_inv_def rb_list_def rb_used_def)

text \<open>
  The assertion of \<open>rt_ringbuffer_init\<close> admits pools of one to three bytes, whose aligned
  size is zero; in such a ring every byte is reported as stored and written past the
  usable area of the pool.
\<close>

theorem init_tiny_pool:
  assumes "0 < unat sz" "unat sz < 4"
  shows "\<exists>rb. rt_ringbuffer_init pool sz = Some rb \<and> rb_size rb = 0 \<and>
     rt_ringbuffer_putchar_force rb ch = (if pool = [] then None else
       Some (1, rb\<lparr>buffer_ptr := pool[0 := ch], write_index := 1\<rparr>))"
proof -
  have s: "0 < sint sz" using sint_nonneg_unat [of sz] assms by linarith
  have "unat (RT_ALIGN_DOWN sz 4) = unat (0 :: u16)" using assms by (simp add: unat_RT_ALIGN_DOWN)
  then have z: "RT_ALIGN_DOWN sz 4 = 0" by (rule unat_eqD)
  show ?thesis using s
    by (simp add: rt_ringbuffer_init_def z rb_size_def rt_ringbuffer_putchar_force_def
        rt_ringbuffer_status_def store_def)
qed

theorem init_tiny_pool_witness:
  "\<exists>rb. rt_ringbuffer_init [9, 9, 9] 3 = Some rb \<and> rb_size rb = 0 \<and>
     rt_ringbuffer_putchar_force rb 7 = Some (1, rb\<lparr>buffer_ptr := [7, 9, 9], write_index := 1\<rparr>)"
  using init_tiny_pool [of 3 "[9, 9, 9]" 7] by simp

subsection \<open>Peeking\<close>

text \<open>
  \<open>rt_ringbuffer_peek\<close> on a ring with data hands out the longest contiguous run of the
  oldest bytes, never an empty one, and takes exactly these bytes out of the queue.
\<close>

theorem peek_correct:
  assumes i: "rb_inv rb" and ne: "rb_used rb \<noteq> 0"
  defines "m \<equiv> min (rb_used rb) (rb_size rb - unat (read_index rb))"
  shows "\<exists>rb'. rt_ringbuffer_peek rb = (of_nat m, Some (unat (read_index rb)), rb') \<and>
           rb_inv rb' \<and> rb_list rb' = drop m (rb_list rb) \<and> 0 < m \<and>
           take m (drop (unat (read_index rb)) (buffer_ptr rb)) = take m (rb_list rb)"
proof -
  let ?n = "rb_size rb" and ?r = "unat (read_index rb)"
  have n0: "?r < ?n" "?n < 32768" "?n \<le> length (buffer_ptr rb)" using i by (auto simp: rb_inv_def)
  have m: "m \<le> rb_used rb" "0 < m" using ne n0 by (auto simp: m_def)
  have ud: "unat (rt_ringbuffer_data_len rb) = rb_used rb" by (rule unat_data_len [OF i])
  have d0: "rt_ringbuffer_data_len rb \<noteq> 0" using data_len_0 [OF i] ne by simp
  have u: "uint (read_index rb) = int ?r" "sint (buffer_size rb) = int ?n"
    using sint_buffer_size [OF i] by simp_all
  have room: "sint (buffer_size rb) - uint (read_index rb) = int (?n - ?r)"
    unfolding u using n0 by simp
  have ur: "unat (word_of_int (int (?n - ?r)) :: u32) = ?n - ?r"
    using n0 by (simp only: unat_word_of_int_nat) simp
  have guard: "rt_ringbuffer_data_len rb < (word_of_int (int (?n - ?r)) :: u32) \<longleftrightarrow> ?r + m < ?n"
    unfolding word_less_nat_alt ur ud using n0 by (auto simp: m_def)
  have dl: "rt_ringbuffer_data_len rb = of_nat (rb_used rb)"
    by (simp flip: ud)
  let ?rb' = "rb\<lparr>read_mirror := (if ?r + m < ?n then read_mirror rb else NOT (read_mirror rb)),
                 read_index := word_of_int (int ((?r + m) mod ?n))\<rparr>"
  have "rt_ringbuffer_peek rb = (of_nat m, Some ?r, ?rb')"
  proof (cases "?r + m < ?n")
    case True
    then have "m = rb_used rb" by (auto simp: m_def)
    moreover have "(ucast (ucast (read_index rb) + rt_ringbuffer_data_len rb) :: 15 word) =
        word_of_int (int (?r + rb_used rb))"
      using n0 rb_used_le [OF i]
      by (intro unat_eqD) (simp add: dl unsigned_ucast_eq unat_word_ariths unat_of_nat take_bit_eq_mod)
    ultimately show ?thesis
      using True d0 unfolding rt_ringbuffer_peek_def Let_def room guard by (simp add: dl)
  next
    case False
    then have "m = ?n - ?r" "(?r + m) mod ?n = 0" using n0 by (auto simp: m_def)
    then show ?thesis
      using False d0 unfolding rt_ringbuffer_peek_def Let_def room guard by simp
  qed
  moreover have "take m (drop ?r (buffer_ptr rb)) = take m (rb_list rb)"
  proof -
    have "?r + m < ?n \<or> m = ?n - ?r" using n0 by (auto simp: m_def)
    then show ?thesis unfolding take_rb_list [OF i m(1)] by auto
  qed
  ultimately show ?thesis using rb_advance [OF i m(1) refl] m(2) by blast
qed

theorem peek_correct_witness:
  "\<exists>rb'. rt_ringbuffer_peek sample_ring = (1, Some 3, rb') \<and> rb_list rb' = [11]"
  using peek_correct [OF sample_ring_inv]
  by (auto simp: sample_ring_simps) (auto simp: sample_ring_def)

section \<open>The ring as a bounded queue of bytes\<close>

definition rb_enq :: "rt_ringbuffer \<Rightarrow> u8 \<Rightarrow> (bool \<times> rt_ringbuffer) option" where
  "rb_enq rb ch = map_option (\<lambda>(n, rb'). (n \<noteq> 0, rb')) (rt_ringbuffer_putchar rb ch)"

definition rb_deq :: "rt_ringbuffer \<Rightarrow> (u8 option \<times> rt_ringbuffer) option" where
  "rb_deq rb = map_option snd (rt_ringbuffer_getchar rb)"

interpretation rbq: bounded_queue rb_inv rb_list rb_size "\<lambda>_ _. True" rb_enq rb_deq
proof unfold_locales
  fix rb x assume i: "rb_inv rb"
  show "length (rb_list rb) \<le> rb_size rb" using rb_used_le [OF i] by simp
  show "\<exists>q'. rb_enq rb x = Some (True, q') \<and> rb_inv q' \<and> rb_size q' = rb_size rb \<and> (\<lambda>_ _. True) q' = (\<lambda>_ _. True) rb \<and>
      rb_list q' = rb_list rb @ [x]" if "length (rb_list rb) < rb_size rb"
    using putchar_correct [OF i, of x] that by (auto simp: rb_enq_def)
  show "rb_enq rb x = Some (False, rb)" if "length (rb_list rb) = rb_size rb"
    using putchar_correct [OF i, of x] that by (auto simp: rb_enq_def)
  show "\<exists>q'. rb_deq rb = Some (Some y, q') \<and> rb_inv q' \<and> rb_size q' = rb_size rb \<and> (\<lambda>_ _. True) q' = (\<lambda>_ _. True) rb \<and> rb_list q' = ys"
    if "rb_list rb = y # ys" for y ys
    using getchar_correct [OF i] that by (auto simp: rb_deq_def)
  show "rb_deq rb = Some (None, rb)" if "rb_list rb = []"
    using getchar_correct [OF i] that by (auto simp: rb_deq_def)
qed

text \<open>
  C27.  Any sequence of single-byte operations on a well-formed ring returns, and first-in
  first-out holds: the initial contents followed by the bytes that were accepted are the
  bytes that came out followed by those still inside, never more than the ring holds.
\<close>

theorem ringbuffer_fifo:
  assumes "rb_inv rb"
  shows "\<exists>ins outs rb'. qrun rb_enq rb_deq ops rb = Some (ins, outs, rb') \<and> rb_inv rb' \<and>
           rb_list rb @ ins = outs @ rb_list rb' \<and> length (rb_list rb') \<le> rb_size rb"
  using rbq.qrun_fifo [OF assms, of ops] by blast

theorem ringbuffer_fifo_witness:
  "\<exists>ins outs rb'. qrun rb_enq rb_deq [Enq 1, Deq, Enq 2, Enq 3, Enq 4, Deq] sample_ring = Some (ins, outs, rb') \<and>
     [14, 11] @ ins = outs @ rb_list rb'"
  using ringbuffer_fifo [OF sample_ring_inv, of "[Enq 1, Deq, Enq 2, Enq 3, Enq 4, Deq]"]
  by (auto simp: sample_ring_simps)

end
