(* ===== verification/Ringblk_Buf.thy ===== *)
theory Ringblk_Buf
  imports Rtt_Prelude
begin

text \<open>
  The ring of blocks (\<open>components/drivers/ipc/ringblk_buf.c\<close>): variable-size blocks allocated in a
  circular buffer without copying.  A block is known by its number in the block set; the singly
  linked lists of blocks in use and of free blocks are HOL lists, and the tail pointer is the node
  it points to.  The invariant \<open>rbb_ok\<close> describes the blocks in use as a row to the end of the
  buffer followed by a row from its start; allocation is compared with \<open>place_for\<close>, runs of
  calls keep the areas disjoint, and \<open>rbb_defects\<close> evaluates the cases in which the code does not
  keep what its comments promise.
\<close>

section \<open>Data\<close>

datatype rt_rbb_status = RT_RBB_BLK_UNUSED | RT_RBB_BLK_INITED | RT_RBB_BLK_PUT | RT_RBB_BLK_GET

record rt_rbb_blk =
  status :: rt_rbb_status
  blk_size :: "24 word"
  blk_buf :: u32

record rt_rbb =
  rbb_buf :: u32
  rbb_size :: u32
  blk_set :: "nat \<Rightarrow> rt_rbb_blk"
  blk_max_num :: u32
  blk_list :: "nat list"
  list_tail :: "nat option"
  free_list :: "nat list"

record rt_rbb_blk_queue =
  first_block :: "nat option"
  blk_num :: u32

abbreviation upd_blk :: "nat \<Rightarrow> (rt_rbb_blk \<Rightarrow> rt_rbb_blk) \<Rightarrow> rt_rbb \<Rightarrow> rt_rbb" where
  "upd_blk b f r \<equiv> r\<lparr>blk_set := (blk_set r)(b := f (blk_set r b))\<rparr>"

text \<open>The size of a block as the 32-bit value it takes part in arithmetic with.\<close>

abbreviation blk_len :: "rt_rbb \<Rightarrow> nat \<Rightarrow> u32" where
  "blk_len r b \<equiv> ucast (blk_size (blk_set r b))"

section \<open>Operations\<close>

fun rbb_fill :: "nat \<Rightarrow> nat \<Rightarrow> rt_rbb \<Rightarrow> rt_rbb" where
  "rbb_fill i 0 r = r"
| "rbb_fill i (Suc n) r =
     rbb_fill (Suc i) n ((upd_blk i (\<lambda>x. x\<lparr>status := RT_RBB_BLK_UNUSED\<rparr>) r)\<lparr>free_list := i # free_list r\<rparr>)"

definition rt_rbb_init :: "u32 \<Rightarrow> u32 \<Rightarrow> (nat \<Rightarrow> rt_rbb_blk) \<Rightarrow> u32 \<Rightarrow> rt_rbb" where
  "rt_rbb_init buf bsize block_set max_num =
     rbb_fill 0 (unat max_num)
       \<lparr>rbb_buf = buf, rbb_size = bsize, blk_set = block_set, blk_max_num = max_num,
        blk_list = [], list_tail = None, free_list = []\<rparr>"

text \<open>A creation: the three blocks of memory come from \<open>rt_malloc\<close>, in this order; what it took is given back.\<close>

definition rt_rbb_create ::
    "unit option \<Rightarrow> u32 option \<Rightarrow> (nat \<Rightarrow> rt_rbb_blk) option \<Rightarrow> u32 \<Rightarrow> u32 \<Rightarrow> rt_rbb option" where
  "rt_rbb_create m1 m2 m3 bsize max_num =
     (case m1 of
        None \<Rightarrow> None
      | Some _ \<Rightarrow>
          (case m2 of
             None \<Rightarrow> None
           | Some buf \<Rightarrow>
               (case m3 of
                  None \<Rightarrow> None
                | Some blks \<Rightarrow> Some (rt_rbb_init buf bsize blks max_num))))"

definition find_empty_blk_in_set :: "rt_rbb \<Rightarrow> (nat option \<times> rt_rbb) option" where
  "find_empty_blk_in_set r =
     (case free_list r of
        [] \<Rightarrow> Some (None, r)
      | b # bs \<Rightarrow>
          do {
            rt_assert (status (blk_set r b) = RT_RBB_BLK_UNUSED);
            Some (Some b, r\<lparr>free_list := bs\<rparr>)
          })"

text \<open>The tail pointer is the head of the list, \<open>None\<close>, or a node: the new node follows it and ends the list.\<close>

definition list_append :: "nat \<Rightarrow> rt_rbb \<Rightarrow> rt_rbb" where
  "list_append n r =
     r\<lparr>blk_list := (case list_tail r of
                     None \<Rightarrow> [n]
                   | Some t \<Rightarrow> if t \<in> set (blk_list r) then takeWhile (\<lambda>x. x \<noteq> t) (blk_list r) @ [t, n]
                               else blk_list r),
       list_tail := Some n\<rparr>"

definition rbb_list_remove :: "nat \<Rightarrow> rt_rbb \<Rightarrow> rt_rbb" where
  "rbb_list_remove n r =
     (if n \<in> set (blk_list r) then
        let prev = takeWhile (\<lambda>x. x \<noteq> n) (blk_list r) in
        r\<lparr>blk_list := remove1 n (blk_list r),
          list_tail := (if list_tail r = Some n then (if prev = [] then None else Some (last prev))
                        else list_tail r)\<rparr>
      else r)"

text \<open>The block becomes the last one, at the address \<open>at\<close>.\<close>

definition rbb_place :: "nat \<Rightarrow> u32 \<Rightarrow> u32 \<Rightarrow> rt_rbb \<Rightarrow> nat option \<times> rt_rbb" where
  "rbb_place b at sz r =
     (Some b, upd_blk b (\<lambda>x. x\<lparr>status := RT_RBB_BLK_INITED, blk_buf := at, blk_size := ucast sz\<rparr>) (list_append b r))"

definition rt_rbb_blk_alloc :: "u32 \<Rightarrow> rt_rbb \<Rightarrow> (nat option \<times> rt_rbb) option" where
  "rt_rbb_blk_alloc sz r =
     do {
       rt_assert (sz < 0x1000000);
       (new_rbb, r) \<leftarrow> find_empty_blk_in_set r;
       (case new_rbb of
          None \<Rightarrow> Some (None, r)
        | Some b \<Rightarrow>
            (case blk_list r of
               [] \<Rightarrow> Some (rbb_place b (rbb_buf r) sz r)
             | h # _ \<Rightarrow>
                 do {
                   t \<leftarrow> list_tail r;
                   let head_buf = blk_buf (blk_set r h);
                   let tail_buf = blk_buf (blk_set r t);
                   let tail_end = tail_buf + blk_len r t;
                   Some (if head_buf \<le> tail_buf then
                           let empty1 = (rbb_buf r + rbb_size r) - tail_end;
                               empty2 = head_buf - rbb_buf r
                           in if empty1 \<ge> sz then rbb_place b tail_end sz r
                              else if empty2 \<ge> sz then rbb_place b (rbb_buf r) sz r
                              else (None, r)
                         else
                           let empty1 = head_buf - tail_end
                           in if empty1 \<ge> sz then rbb_place b tail_end sz r else (None, r))
                 }))
     }"

definition rt_rbb_blk_put :: "nat \<Rightarrow> rt_rbb \<Rightarrow> rt_rbb option" where
  "rt_rbb_blk_put b r =
     do {
       rt_assert (status (blk_set r b) = RT_RBB_BLK_INITED);
       Some (upd_blk b (\<lambda>x. x\<lparr>status := RT_RBB_BLK_PUT\<rparr>) r)
     }"

fun rbb_get_loop :: "nat list \<Rightarrow> rt_rbb \<Rightarrow> nat option \<times> rt_rbb" where
  "rbb_get_loop [] r = (None, r)"
| "rbb_get_loop (b # bs) r =
     (if status (blk_set r b) = RT_RBB_BLK_PUT then (Some b, upd_blk b (\<lambda>x. x\<lparr>status := RT_RBB_BLK_GET\<rparr>) r)
      else rbb_get_loop bs r)"

definition rt_rbb_blk_get :: "rt_rbb \<Rightarrow> nat option \<times> rt_rbb" where
  "rt_rbb_blk_get r = rbb_get_loop (blk_list r) r"

definition rt_rbb_blk_size :: "nat \<Rightarrow> rt_rbb \<Rightarrow> u32" where
  "rt_rbb_blk_size b r = blk_len r b"

definition rt_rbb_blk_buf :: "nat \<Rightarrow> rt_rbb \<Rightarrow> u32" where
  "rt_rbb_blk_buf b r = blk_buf (blk_set r b)"

definition rt_rbb_blk_free :: "nat \<Rightarrow> rt_rbb \<Rightarrow> rt_rbb option" where
  "rt_rbb_blk_free b r =
     do {
       rt_assert (status (blk_set r b) \<noteq> RT_RBB_BLK_UNUSED);
       let r = upd_blk b (\<lambda>x. x\<lparr>status := RT_RBB_BLK_UNUSED\<rparr>) (rbb_list_remove b r);
       Some (r\<lparr>free_list := b # free_list r\<rparr>)
     }"

text \<open>
  The loop of \<open>rt_rbb_blk_queue_get\<close> over the rest of the list.  (Its last pass reads the
  \<open>next\<close> field of the null pointer, at address 0, and does not use the value.)
\<close>

fun queue_get_loop ::
    "u32 \<Rightarrow> nat list \<Rightarrow> nat option \<Rightarrow> u32 \<Rightarrow> rt_rbb_blk_queue \<Rightarrow> rt_rbb \<Rightarrow> u32 \<times> rt_rbb_blk_queue \<times> rt_rbb" where
  "queue_get_loop lim [] last_block len q r = (len, q, r)"
| "queue_get_loop lim (b # bs) last_block len q r =
     (let taken = (\<lambda>q. queue_get_loop lim bs (Some b) (len + blk_len r b) (q\<lparr>blk_num := blk_num q + 1\<rparr>)
                        (upd_blk b (\<lambda>x. x\<lparr>status := RT_RBB_BLK_GET\<rparr>) r))
      in case last_block of
           None \<Rightarrow>
             if status (blk_set r b) = RT_RBB_BLK_PUT then taken \<lparr>first_block = Some b, blk_num = 0\<rparr>
             else queue_get_loop lim bs None len q r
         | Some l \<Rightarrow>
             if status (blk_set r b) \<noteq> RT_RBB_BLK_PUT \<or> blk_buf (blk_set r l) > blk_buf (blk_set r b) \<or>
                len + blk_len r b > lim
             then (len, q, r)
             else taken q)"

definition rt_rbb_blk_queue_get ::
    "u32 \<Rightarrow> rt_rbb_blk_queue \<Rightarrow> rt_rbb \<Rightarrow> u32 \<times> rt_rbb_blk_queue \<times> rt_rbb" where
  "rt_rbb_blk_queue_get queue_data_len q r = queue_get_loop queue_data_len (blk_list r) None 0 q r"

text \<open>
  The blocks of a queue are followed through the links of the list.  A block that is not in the
  list has no successor the caller could use: no result.
\<close>

fun queue_len_loop :: "nat \<Rightarrow> nat list \<Rightarrow> u32 \<Rightarrow> rt_rbb \<Rightarrow> u32 option" where
  "queue_len_loop 0 bs len r = Some len"
| "queue_len_loop (Suc n) [] len r = None"
| "queue_len_loop (Suc n) (b # bs) len r = queue_len_loop n bs (len + blk_len r b) r"

definition from_block :: "nat option \<Rightarrow> rt_rbb \<Rightarrow> nat list" where
  "from_block b r = dropWhile (\<lambda>x. Some x \<noteq> b) (blk_list r)"

definition rt_rbb_blk_queue_len :: "rt_rbb_blk_queue \<Rightarrow> rt_rbb \<Rightarrow> u32 option" where
  "rt_rbb_blk_queue_len q r = queue_len_loop (unat (blk_num q)) (from_block (first_block q) r) 0 r"

definition rt_rbb_blk_queue_buf :: "rt_rbb_blk_queue \<Rightarrow> rt_rbb \<Rightarrow> u32 option" where
  "rt_rbb_blk_queue_buf q r = map_option (\<lambda>b. blk_buf (blk_set r b)) (first_block q)"

fun queue_free_loop :: "nat \<Rightarrow> nat list \<Rightarrow> rt_rbb \<Rightarrow> rt_rbb option" where
  "queue_free_loop 0 bs r = Some r"
| "queue_free_loop (Suc n) [] r = None"
| "queue_free_loop (Suc n) (b # bs) r = do { r \<leftarrow> rt_rbb_blk_free b r; queue_free_loop n bs r }"

definition rt_rbb_blk_queue_free :: "rt_rbb_blk_queue \<Rightarrow> rt_rbb \<Rightarrow> rt_rbb option" where
  "rt_rbb_blk_queue_free q r = queue_free_loop (unat (blk_num q)) (from_block (first_block q) r) r"

fun next_queue_loop :: "nat list \<Rightarrow> nat option \<Rightarrow> u32 \<Rightarrow> rt_rbb \<Rightarrow> u32" where
  "next_queue_loop [] last_block len r = len"
| "next_queue_loop (b # bs) last_block len r =
     (case last_block of
        None \<Rightarrow>
          if status (blk_set r b) \<noteq> RT_RBB_BLK_PUT then next_queue_loop bs None len r
          else next_queue_loop bs (Some b) (len + blk_len r b) r
      | Some l \<Rightarrow>
          if status (blk_set r b) \<noteq> RT_RBB_BLK_PUT \<or> blk_buf (blk_set r l) > blk_buf (blk_set r b) then len
          else next_queue_loop bs (Some b) (len + blk_len r b) r)"

definition rt_rbb_next_blk_queue_len :: "rt_rbb \<Rightarrow> u32" where
  "rt_rbb_next_blk_queue_len r = next_queue_loop (blk_list r) None 0 r"

definition rt_rbb_get_buf_size :: "rt_rbb \<Rightarrow> u32" where
  "rt_rbb_get_buf_size r = rbb_size r"

section \<open>The invariant\<close>

text \<open>
  \<open>row r lo bs hi\<close>: the blocks \<open>bs\<close> lie in this order, not empty, between \<open>lo\<close> and \<open>hi\<close>.
\<close>

abbreviation first_of :: "rt_rbb \<Rightarrow> nat \<Rightarrow> nat" where "first_of r b \<equiv> unat (blk_buf (blk_set r b))"
abbreviation end_of :: "rt_rbb \<Rightarrow> nat \<Rightarrow> nat" where "end_of r b \<equiv> first_of r b + unat (blk_size (blk_set r b))"

fun row :: "rt_rbb \<Rightarrow> nat \<Rightarrow> nat list \<Rightarrow> nat \<Rightarrow> bool" where
  "row r lo [] hi \<longleftrightarrow> lo \<le> hi"
| "row r lo (b # bs) hi \<longleftrightarrow> lo \<le> first_of r b \<and> blk_size (blk_set r b) \<noteq> 0 \<and> row r (end_of r b) bs hi"

text \<open>
  The blocks in use, in the order of allocation, are a row that begins at \<open>p\<close> and goes to the end
  of the buffer, followed by a row from its start to \<open>p\<close>.
\<close>

definition buf_end :: "rt_rbb \<Rightarrow> nat" where
  "buf_end r = unat (rbb_buf r) + unat (rbb_size r)"

definition wrapped :: "rt_rbb \<Rightarrow> bool" where
  "wrapped r \<longleftrightarrow> (\<exists>as bs p. blk_list r = as @ bs \<and> row r p as (buf_end r) \<and> row r (unat (rbb_buf r)) bs p)"

definition rbb_ok :: "rt_rbb \<Rightarrow> bool" where
  "rbb_ok r \<longleftrightarrow>
     buf_end r < 2 ^ 32 \<and> distinct (blk_list r @ free_list r) \<and>
     set (blk_list r @ free_list r) \<subseteq> {..<unat (blk_max_num r)} \<and>
     list_tail r = (if blk_list r = [] then None else Some (last (blk_list r))) \<and>
     (\<forall>b\<in>set (blk_list r). status (blk_set r b) \<noteq> RT_RBB_BLK_UNUSED) \<and>
     (\<forall>b\<in>set (free_list r). status (blk_set r b) = RT_RBB_BLK_UNUSED) \<and> wrapped r"

text \<open>What the blocks in use may rely on: their areas are inside the buffer and do not overlap.\<close>

definition area :: "rt_rbb \<Rightarrow> nat \<Rightarrow> nat set" where
  "area r b = {first_of r b..<end_of r b}"

lemma row_le: "row r lo bs hi \<Longrightarrow> lo \<le> hi"
  by (induction bs arbitrary: lo) (auto dest: le_trans add_leD1)

lemma row_member:
  "row r lo bs hi \<Longrightarrow> b \<in> set bs \<Longrightarrow> lo \<le> first_of r b \<and> end_of r b \<le> hi \<and> blk_size (blk_set r b) \<noteq> 0"
proof (induction bs arbitrary: lo)
  case (Cons c bs)
  then show ?case using row_le [of r "end_of r c" bs hi] by fastforce
qed simp

lemma row_disjoint:
  "row r lo bs hi \<Longrightarrow> distinct bs \<Longrightarrow> b \<in> set bs \<Longrightarrow> c \<in> set bs \<Longrightarrow> b \<noteq> c \<Longrightarrow> area r b \<inter> area r c = {}"
proof (induction bs arbitrary: lo)
  case (Cons d bs)
  have "area r d \<inter> area r x = {}" if "x \<in> set bs" for x
    using row_member [of r "end_of r d" bs hi x] Cons.prems(1) that by (auto simp: area_def)
  then show ?case using Cons by auto
qed simp

lemma wrapped_bounds:
  assumes "wrapped r" "b \<in> set (blk_list r)"
  shows "unat (rbb_buf r) \<le> first_of r b" "first_of r b < end_of r b" "end_of r b \<le> buf_end r"
proof -
  obtain as bs p where s: "blk_list r = as @ bs" "row r p as (buf_end r)" "row r (unat (rbb_buf r)) bs p"
    using assms(1) by (auto simp: wrapped_def)
  have "b \<in> set as \<and> p \<le> first_of r b \<and> end_of r b \<le> buf_end r \<and> blk_size (blk_set r b) \<noteq> 0 \<or>
      b \<in> set bs \<and> unat (rbb_buf r) \<le> first_of r b \<and> end_of r b \<le> p \<and> blk_size (blk_set r b) \<noteq> 0"
    using assms(2) s row_member by (metis Un_iff set_append)
  moreover have "unat (rbb_buf r) \<le> p" "p \<le> buf_end r" using row_le s(2,3) by blast+
  ultimately show "unat (rbb_buf r) \<le> first_of r b" "first_of r b < end_of r b" "end_of r b \<le> buf_end r"
    by (auto simp: unat_gt_0)
qed

lemma wrapped_disjoint:
  assumes "wrapped r" "distinct (blk_list r)" "b \<in> set (blk_list r)" "c \<in> set (blk_list r)" "b \<noteq> c"
  shows "area r b \<inter> area r c = {}"
proof -
  obtain as bs p where s: "blk_list r = as @ bs" "row r p as (buf_end r)" "row r (unat (rbb_buf r)) bs p"
    using assms(1) by (auto simp: wrapped_def)
  have m: "b \<in> set as \<or> b \<in> set bs" "c \<in> set as \<or> c \<in> set bs" using assms(3,4) s(1) by auto
  have x: "area r x \<inter> area r y = {}" if "x \<in> set bs" "y \<in> set as" for x y
    using row_member [OF s(3) that(1)] row_member [OF s(2) that(2)] by (auto simp: area_def)
  show ?thesis
  proof (cases "(b \<in> set as) = (c \<in> set as)")
    case True
    then have "b \<in> set as \<and> c \<in> set as \<or> b \<in> set bs \<and> c \<in> set bs" using m by auto
    then show ?thesis using row_disjoint s(2,3) assms(2,5) unfolding s(1) distinct_append by blast
  next
    case False
    then show ?thesis using x m by (metis Int_commute)
  qed
qed

lemma row_mono: "row r lo bs hi \<Longrightarrow> lo' \<le> lo \<Longrightarrow> hi \<le> hi' \<Longrightarrow> row r lo' bs hi'"
  by (induction bs arbitrary: lo lo') auto

lemma row_remove: "row r lo bs hi \<Longrightarrow> row r lo (remove1 b bs) hi"
proof (induction bs arbitrary: lo)
  case (Cons c bs)
  then show ?case using row_mono [of r "end_of r c" bs hi lo hi] by auto
qed simp

lemma row_cong:
  "(\<And>b. b \<in> set bs \<Longrightarrow> blk_buf (blk_set r' b) = blk_buf (blk_set r b) \<and> blk_size (blk_set r' b) = blk_size (blk_set r b)) \<Longrightarrow>
   row r' lo bs hi = row r lo bs hi"
  by (induction bs arbitrary: lo) auto

lemma row_snoc:
  "row r lo (bs @ [b]) hi \<longleftrightarrow> row r lo bs (first_of r b) \<and> blk_size (blk_set r b) \<noteq> 0 \<and> end_of r b \<le> hi"
  by (induction bs arbitrary: lo) auto

lemma row_last:
  assumes "row r lo bs hi" "bs \<noteq> []"
  shows "row r (first_of r (hd bs)) bs (end_of r (last bs))" "lo \<le> first_of r (hd bs)" "end_of r (last bs) \<le> hi"
    "first_of r (hd bs) \<le> first_of r (last bs)" "first_of r (last bs) < end_of r (last bs)"
proof -
  have h: "row r (first_of r (hd bs)) bs hi" "lo \<le> first_of r (hd bs)" using assms by (cases bs; simp)+
  have "bs = butlast bs @ [last bs]" using assms(2) by simp
  then have l: "row r (first_of r (hd bs)) (butlast bs) (first_of r (last bs))" "blk_size (blk_set r (last bs)) \<noteq> 0"
    "end_of r (last bs) \<le> hi"
    using h(1) row_snoc [of r "first_of r (hd bs)" "butlast bs" "last bs" hi] by simp_all
  then show "row r (first_of r (hd bs)) bs (end_of r (last bs))"
    using row_snoc [of r "first_of r (hd bs)" "butlast bs" "last bs" "end_of r (last bs)"] assms(2) by simp
  show "lo \<le> first_of r (hd bs)" "end_of r (last bs) \<le> hi" by fact+
  show "first_of r (hd bs) \<le> first_of r (last bs)" using row_le l(1) by blast
  show "first_of r (last bs) < end_of r (last bs)" using l(2) by (simp add: unat_gt_0)
qed

text \<open>The comparison of the first and the last block tells whether the blocks go round.\<close>

lemma wrapped_cases:
  assumes "wrapped r" "blk_list r \<noteq> []"
  defines "h \<equiv> hd (blk_list r)" and "t \<equiv> last (blk_list r)"
  shows "if first_of r h \<le> first_of r t
     then row r (first_of r h) (blk_list r) (end_of r t) \<and> unat (rbb_buf r) \<le> first_of r h \<and> end_of r t \<le> buf_end r
     else \<exists>as bs. blk_list r = as @ bs \<and> row r (first_of r h) as (buf_end r) \<and> row r (unat (rbb_buf r)) bs (end_of r t) \<and>
       end_of r t \<le> first_of r h"
proof -
  obtain as bs p where s: "blk_list r = as @ bs" "row r p as (buf_end r)" "row r (unat (rbb_buf r)) bs p"
    using assms(1) by (auto simp: wrapped_def)
  have p: "unat (rbb_buf r) \<le> p" "p \<le> buf_end r" using row_le s(2,3) by blast+
  show ?thesis
  proof (cases "as = [] \<or> bs = []")
    case True
    then have "row r (unat (rbb_buf r)) (blk_list r) (buf_end r)"
      using s p row_mono [OF s(2) p(1) order_refl] row_mono [OF s(3) order_refl p(2)] by auto
    from row_last [OF this assms(2)] show ?thesis by (simp add: h_def t_def)
  next
    case False
    then have e: "h = hd as" "t = last bs" using s(1) by (simp_all add: h_def t_def)
    note a = row_last [OF s(2), folded e] and b = row_last [OF s(3), folded e]
    have "row r (first_of r h) as (buf_end r)" using row_mono [OF a(1) order_refl a(3)] False by simp
    moreover have "row r (unat (rbb_buf r)) bs (end_of r t)" using row_mono [OF b(1,2) order_refl] False by simp
    moreover have "end_of r t \<le> first_of r h" "first_of r t < end_of r t" using a(2) b(3,5) False by auto
    ultimately show ?thesis using s(1) by auto
  qed
qed

text \<open>Where a block of \<open>n\<close> bytes can be put: behind the last one, or before the first.\<close>

definition place_for :: "rt_rbb \<Rightarrow> nat \<Rightarrow> nat option" where
  "place_for r n =
     (if blk_list r = [] then Some (unat (rbb_buf r))
      else let h = first_of r (hd (blk_list r)); t = last (blk_list r) in
        if end_of r t + n \<le> (if h \<le> first_of r t then buf_end r else h) then Some (end_of r t)
        else if h \<le> first_of r t \<and> unat (rbb_buf r) + n \<le> h then Some (unat (rbb_buf r))
        else None)"

lemma wrapped_place:
  assumes w: "wrapped r" and n: "n \<notin> set (blk_list r)" and p: "place_for r sz = Some a" and sz: "0 < sz" "sz \<le> unat (rbb_size r)"
    and bl: "blk_list r' = blk_list r @ [n]" "first_of r' n = a" "unat (blk_size (blk_set r' n)) = sz"
    and same: "rbb_buf r' = rbb_buf r" "rbb_size r' = rbb_size r"
      "\<And>b. b \<noteq> n \<Longrightarrow> blk_set r' b = blk_set r b"
  shows "wrapped r'"
proof -
  have c: "row r' lo bs hi = row r lo bs hi" if "set bs \<subseteq> set (blk_list r)" for lo bs hi
    using n that same(3) by (intro row_cong) (metis subsetD)
  have e: "buf_end r' = buf_end r" using same by (simp add: buf_end_def)
  have z: "blk_size (blk_set r' n) \<noteq> 0" using bl(3) sz(1) by auto
  show ?thesis
  proof (cases "blk_list r = []")
    case True
    then have "row r' (unat (rbb_buf r)) [n] (buf_end r)" using p bl z sz(2) by (simp add: place_for_def buf_end_def)
    moreover have "row r' (unat (rbb_buf r)) [] (unat (rbb_buf r))" by simp
    ultimately show ?thesis using True bl(1) unfolding wrapped_def e same(1) by (metis append_Nil append_Nil2)
  next
    case False
    let ?h = "hd (blk_list r)" and ?t = "last (blk_list r)"
    note wc = wrapped_cases [OF w False]
    show ?thesis
    proof (cases "first_of r ?h \<le> first_of r ?t")
      case le: True
      note wr = wc [unfolded if_P [OF le]]
      show ?thesis
      proof (cases "a = end_of r ?t \<and> end_of r ?t + sz \<le> buf_end r")
        case True
        then have "row r' (first_of r ?h) (blk_list r @ [n]) (buf_end r)"
          using wr c [OF order_refl] bl z by (simp add: row_snoc)
        moreover have "row r' (unat (rbb_buf r)) [] (first_of r ?h)" using wr by simp
        ultimately show ?thesis using bl(1) unfolding wrapped_def e same(1) by (metis append_Nil2)
      next
        case ne: False
        then have "a = unat (rbb_buf r)" "unat (rbb_buf r) + sz \<le> first_of r ?h"
          using p le False by (auto simp: place_for_def Let_def split: if_splits)
        then have "row r' (unat (rbb_buf r)) [n] (first_of r ?h)" using bl z by simp
        moreover have "row r' (first_of r ?h) (blk_list r) (buf_end r)"
          using wr row_mono c [OF order_refl] by blast
        ultimately show ?thesis using bl(1) unfolding wrapped_def e same(1) by blast
      qed
    next
      case gt: False
      then have a: "a = end_of r ?t" "end_of r ?t + sz \<le> first_of r ?h"
        using p False by (auto simp: place_for_def Let_def split: if_splits)
      obtain as bs where s: "blk_list r = as @ bs" "row r (first_of r ?h) as (buf_end r)"
          "row r (unat (rbb_buf r)) bs (end_of r ?t)" "end_of r ?t \<le> first_of r ?h"
        using wc [unfolded if_not_P [OF gt]] by blast
      have "row r' (first_of r ?h) as (buf_end r)" using c [of as] s(1,2) by simp
      moreover have "row r' (unat (rbb_buf r)) (bs @ [n]) (first_of r ?h)"
        using c [of bs] s(1,3) a bl z by (simp add: row_snoc)
      moreover have "blk_list r' = as @ bs @ [n]" using s(1) bl(1) by simp
      ultimately show ?thesis unfolding wrapped_def e same(1) by blast
    qed
  qed
qed

section \<open>The operations keep the invariant\<close>

lemma takeWhile_last: "distinct xs \<Longrightarrow> xs \<noteq> [] \<Longrightarrow> takeWhile (\<lambda>x. x \<noteq> last xs) xs = butlast xs"
  by (induction xs) (auto dest: last_in_set)

lemma remove1_last: "distinct xs \<Longrightarrow> xs \<noteq> [] \<Longrightarrow> remove1 (last xs) xs = butlast xs"
  by (induction xs) auto

lemma last_remove1: "x \<noteq> last xs \<Longrightarrow> xs \<noteq> [] \<Longrightarrow> remove1 x xs \<noteq> [] \<and> last (remove1 x xs) = last xs"
  by (induction xs) auto

lemma rbb_okD:
  assumes "rbb_ok r"
  shows "buf_end r < 2 ^ 32" "distinct (blk_list r)" "distinct (free_list r)"
    "set (blk_list r) \<inter> set (free_list r) = {}"
    "blk_list r \<noteq> [] \<Longrightarrow> list_tail r = Some (last (blk_list r))" "blk_list r = [] \<Longrightarrow> list_tail r = None"
    "b \<in> set (free_list r) \<Longrightarrow> status (blk_set r b) = RT_RBB_BLK_UNUSED"
    "b \<in> set (blk_list r) \<Longrightarrow> status (blk_set r b) \<noteq> RT_RBB_BLK_UNUSED" "wrapped r"
    "set (blk_list r) \<union> set (free_list r) \<subseteq> {..<unat (blk_max_num r)}"
  using assms by (auto simp: rbb_ok_def)

lemma list_append_end:
  assumes "rbb_ok r"
  shows "blk_list (list_append n r) = blk_list r @ [n]" "list_tail (list_append n r) = Some n"
    "rbb_buf (list_append n r) = rbb_buf r" "rbb_size (list_append n r) = rbb_size r"
    "blk_set (list_append n r) = blk_set r" "free_list (list_append n r) = free_list r"
    "blk_max_num (list_append n r) = blk_max_num r"
proof -
  show "blk_list (list_append n r) = blk_list r @ [n]"
  proof (cases "blk_list r = []")
    case False
    then have "butlast (blk_list r) @ [last (blk_list r), n] = blk_list r @ [n]"
      by (metis append_butlast_last_id append.assoc append_Cons append_Nil)
    then show ?thesis using False rbb_okD [OF assms] takeWhile_last [of "blk_list r"] by (simp add: list_append_def)
  qed (use rbb_okD(6) [OF assms] in \<open>simp add: list_append_def\<close>)
qed (simp_all add: list_append_def)

text \<open>The conditions of the code, read as numbers.\<close>

lemma alloc_places:
  assumes "rbb_ok r" "sz < 0x1000000"
  shows "rt_rbb_blk_alloc sz r = Some
     (case free_list r of
        [] \<Rightarrow> (None, r)
      | b # bs \<Rightarrow>
          (case place_for r (unat sz) of
             None \<Rightarrow> (None, r\<lparr>free_list := bs\<rparr>)
           | Some a \<Rightarrow> rbb_place b (of_nat a) sz (r\<lparr>free_list := bs\<rparr>)))"
proof (cases "free_list r")
  case Nil
  then show ?thesis using assms(2) by (simp add: rt_rbb_blk_alloc_def find_empty_blk_in_set_def)
next
  case fl: (Cons b bs)
  then have f: "find_empty_blk_in_set r = Some (Some b, r\<lparr>free_list := bs\<rparr>)"
    using rbb_okD(7) [OF assms(1)] by (simp add: find_empty_blk_in_set_def)
  show ?thesis
  proof (cases "blk_list r")
    case Nil
    then show ?thesis using assms(2) f fl by (simp add: rt_rbb_blk_alloc_def place_for_def)
  next
    case (Cons h hs)
    define t where "t = last (blk_list r)"
    have ne: "blk_list r \<noteq> []" and h: "hd (blk_list r) = h" using Cons by simp_all
    note w = rbb_okD(9) [OF assms(1)] and lt = rbb_okD(5) [OF assms(1) ne, folded t_def]
    note ht = wrapped_bounds [OF w hd_in_set [OF ne], unfolded h] wrapped_bounds [OF w last_in_set [OF ne], folded t_def]
    note e = rbb_okD(1) [OF assms(1)]
    have s: "unat (blk_len r t) = unat (blk_size (blk_set r t))" by (rule unat_ucast_le) simp
    have be: "unat (rbb_buf r + rbb_size r) = buf_end r" using e by (subst unat_word_ariths) (simp add: buf_end_def)
    have te: "unat (blk_buf (blk_set r t) + blk_len r t) = end_of r t"
      using e ht(6) s by (subst unat_word_ariths) simp
    have te': "of_nat (end_of r t) = blk_buf (blk_set r t) + blk_len r t" unfolding te [symmetric] by simp
    have d: "sz \<le> x - y \<longleftrightarrow> unat y + unat sz \<le> unat x" if "unat y \<le> unat x" for x y
      using that by (simp add: word_le_nat_alt unat_sub le_diff_conv2 add.commute)
    have hl: "blk_buf (blk_set r h) \<le> blk_buf (blk_set r t) \<longleftrightarrow> first_of r h \<le> first_of r t" by (rule word_le_nat_alt)
    have w1: "sz \<le> (rbb_buf r + rbb_size r) - (blk_buf (blk_set r t) + blk_len r t) \<longleftrightarrow> end_of r t + unat sz \<le> buf_end r"
      "sz \<le> blk_buf (blk_set r h) - rbb_buf r \<longleftrightarrow> unat (rbb_buf r) + unat sz \<le> first_of r h"
      using ht(1,6) by (subst d; simp only: te be)+
    have w2: "sz \<le> blk_buf (blk_set r h) - (blk_buf (blk_set r t) + blk_len r t) \<longleftrightarrow> end_of r t + unat sz \<le> first_of r h"
      if "\<not> first_of r h \<le> first_of r t"
      using wrapped_cases [OF w ne] that h t_def te by (subst d) auto
    have "place_for r (unat sz) =
        (if end_of r t + unat sz \<le> (if first_of r h \<le> first_of r t then buf_end r else first_of r h) then Some (end_of r t)
         else if first_of r h \<le> first_of r t \<and> unat (rbb_buf r) + unat sz \<le> first_of r h then Some (unat (rbb_buf r))
         else None)"
      using ne h by (simp add: place_for_def t_def Let_def)
    then show ?thesis
      using assms(2) f fl Cons lt te' w1 w2 hl by (cases "first_of r h \<le> first_of r t") (simp_all add: rt_rbb_blk_alloc_def Let_def)
  qed
qed

lemma place_for_bounds:
  assumes "rbb_ok r" "place_for r n = Some a" "n \<le> unat (rbb_size r)"
  shows "a < 2 ^ 32"
proof (cases "blk_list r = []")
  case True
  then show ?thesis using assms rbb_okD(1) [OF assms(1)] by (simp add: place_for_def buf_end_def)
next
  case False
  have "end_of r (last (blk_list r)) \<le> buf_end r"
    using wrapped_bounds(3) [OF rbb_okD(9) [OF assms(1)]] False by simp
  then show ?thesis using assms(2) rbb_okD(1) [OF assms(1)] unsigned_less [of "rbb_buf r"]
    by (auto simp: place_for_def Let_def False split: if_splits)
qed

lemma rbb_alloc_ok:
  assumes ok: "rbb_ok r" and sz: "0 < sz" "sz < 0x1000000" "sz \<le> rbb_size r"
  shows "\<exists>res r'. rt_rbb_blk_alloc sz r = Some (res, r') \<and> rbb_ok r' \<and>
     free_list r' = tl (free_list r) \<and> rbb_buf r' = rbb_buf r \<and> rbb_size r' = rbb_size r \<and>
     (if free_list r = [] \<or> place_for r (unat sz) = None
      then res = None \<and> blk_list r' = blk_list r \<and> blk_set r' = blk_set r
      else \<exists>b. res = Some b \<and> b = hd (free_list r) \<and> blk_list r' = blk_list r @ [b] \<and>
             Some (first_of r' b) = place_for r (unat sz) \<and> unat (blk_size (blk_set r' b)) = unat sz \<and>
             status (blk_set r' b) = RT_RBB_BLK_INITED \<and> (\<forall>c. c \<noteq> b \<longrightarrow> blk_set r' c = blk_set r c))"
proof (cases "free_list r")
  case Nil
  then show ?thesis using alloc_places [OF ok sz(2)] ok by simp
next
  case (Cons b bs)
  let ?r = "r\<lparr>free_list := bs\<rparr>"
  have w: "wrapped ?r = wrapped r" "buf_end ?r = buf_end r"
    using row_cong [of _ ?r r] by (simp_all add: wrapped_def buf_end_def)
  have ok1: "rbb_ok ?r" using ok Cons unfolding rbb_ok_def w by simp
  show ?thesis
  proof (cases "place_for r (unat sz)")
    case None
    then show ?thesis using alloc_places [OF ok sz(2)] ok1 Cons by simp
  next
    case (Some a)
    define r' where "r' = snd (rbb_place b (of_nat a) sz ?r)"
    have r: "rt_rbb_blk_alloc sz r = Some (Some b, r')"
      using alloc_places [OF ok sz(2)] Some Cons by (simp add: r'_def rbb_place_def)
    note la = list_append_end [OF ok1, of b]
    have un: "unat (ucast sz :: 24 word) = unat sz"
      using sz(2) by (simp add: unsigned_ucast_eq take_bit_nat_eq_self word_less_nat_alt)
    have "a < 2 ^ 32" using place_for_bounds [OF ok Some] sz(3) by (simp add: word_le_nat_alt)
    then have fa: "unat (of_nat a :: u32) = a" by (simp add: unat_of_nat take_bit_nat_eq_self)
    have mx: "blk_max_num r' = blk_max_num r" using la by (simp add: r'_def rbb_place_def)
    have d: "blk_list r' = blk_list r @ [b]" "list_tail r' = Some b" "rbb_buf r' = rbb_buf r" "rbb_size r' = rbb_size r"
      "free_list r' = bs" "first_of r' b = a" "unat (blk_size (blk_set r' b)) = unat sz"
      "status (blk_set r' b) = RT_RBB_BLK_INITED" "\<And>c. c \<noteq> b \<Longrightarrow> blk_set r' c = blk_set r c"
      using la fa un by (simp_all add: r'_def rbb_place_def)
    have n: "b \<notin> set (blk_list r)" "b \<notin> set bs" using rbb_okD(3,4) [OF ok] Cons by auto
    have "wrapped r'"
      by (rule wrapped_place [OF rbb_okD(9) [OF ok] n(1) Some _ _ d(1,6,7,3,4) d(9)])
         (use sz(1,3) in \<open>simp_all add: unat_gt_0 word_gt_0 word_le_nat_alt\<close>)
    moreover have "buf_end r' = buf_end r" using d(3,4) by (simp add: buf_end_def)
    moreover have "status (blk_set r' c) = RT_RBB_BLK_UNUSED" if "c \<in> set bs" for c
      using that n(2) d(9) [of c] rbb_okD(7) [OF ok, of c] Cons by (cases "c = b") auto
    moreover have "status (blk_set r' c) \<noteq> RT_RBB_BLK_UNUSED" if "c \<in> set (blk_list r')" for c
      using that d(1,8) d(9) [of c] rbb_okD(8) [OF ok, of c] by (cases "c = b") auto
    moreover have "distinct (blk_list r' @ free_list r')"
      using d(1,5) n rbb_okD(2-4) [OF ok] Cons by auto
    ultimately have "rbb_ok r'" using d(1,2,5) mx rbb_okD(1,10) [OF ok] Cons by (simp add: rbb_ok_def)
    then show ?thesis using r d Some Cons by (intro exI [of _ "Some b"] exI [of _ r']) auto
  qed
qed

text \<open>Changing the status of a block in use keeps everything.\<close>

lemma rbb_status_ok:
  assumes "rbb_ok r" "b \<in> set (blk_list r)" "s \<noteq> RT_RBB_BLK_UNUSED"
  shows "rbb_ok (upd_blk b (\<lambda>x. x\<lparr>status := s\<rparr>) r)"
proof -
  let ?r = "upd_blk b (\<lambda>x. x\<lparr>status := s\<rparr>) r"
  have "wrapped ?r = wrapped r" "buf_end ?r = buf_end r"
    using row_cong [of _ ?r r] by (simp_all add: wrapped_def buf_end_def)
  moreover have "b \<notin> set (free_list r)" using rbb_okD(4) [OF assms(1)] assms(2) by auto
  ultimately show ?thesis using assms unfolding rbb_ok_def by auto
qed

lemma rbb_put_ok:
  assumes "rbb_ok r" "b \<in> set (blk_list r)" "status (blk_set r b) = RT_RBB_BLK_INITED"
  shows "rt_rbb_blk_put b r = Some (upd_blk b (\<lambda>x. x\<lparr>status := RT_RBB_BLK_PUT\<rparr>) r)"
    "rbb_ok (upd_blk b (\<lambda>x. x\<lparr>status := RT_RBB_BLK_PUT\<rparr>) r)"
  using assms(3) rbb_status_ok [OF assms(1,2)] by (simp_all add: rt_rbb_blk_put_def)

lemma rbb_get_loop_first:
  "rbb_get_loop bs r =
     (case dropWhile (\<lambda>b. status (blk_set r b) \<noteq> RT_RBB_BLK_PUT) bs of
        [] \<Rightarrow> (None, r)
      | b # _ \<Rightarrow> (Some b, upd_blk b (\<lambda>x. x\<lparr>status := RT_RBB_BLK_GET\<rparr>) r))"
  by (induction bs) auto

lemma rbb_get_ok:
  assumes "rbb_ok r"
  shows "rbb_ok (snd (rt_rbb_blk_get r)) \<and> blk_list (snd (rt_rbb_blk_get r)) = blk_list r \<and>
    (\<forall>b. first_of (snd (rt_rbb_blk_get r)) b = first_of r b \<and> end_of (snd (rt_rbb_blk_get r)) b = end_of r b)"
proof (cases "dropWhile (\<lambda>b. status (blk_set r b) \<noteq> RT_RBB_BLK_PUT) (blk_list r)")
  case Nil
  then have "rt_rbb_blk_get r = (None, r)" unfolding rt_rbb_blk_get_def rbb_get_loop_first Nil by simp
  then show ?thesis using assms by simp
next
  case (Cons b bs)
  then have "b \<in> set (blk_list r)" by (metis list.set_intros(1) set_dropWhileD)
  then show ?thesis using rbb_status_ok [OF assms] Cons by (simp add: rt_rbb_blk_get_def rbb_get_loop_first)
qed

lemma rbb_free_ok:
  assumes "rbb_ok r" "b \<in> set (blk_list r)"
  shows "\<exists>r'. rt_rbb_blk_free b r = Some r' \<and> rbb_ok r' \<and> blk_list r' = remove1 b (blk_list r) \<and>
     free_list r' = b # free_list r \<and> rbb_size r' = rbb_size r \<and> rbb_buf r' = rbb_buf r \<and>
     (\<forall>c. c \<noteq> b \<longrightarrow> blk_set r' c = blk_set r c)"
proof -
  note ok = rbb_okD [OF assms(1)]
  have ne: "blk_list r \<noteq> []" using assms(2) by auto
  define r' where "r' = (upd_blk b (\<lambda>x. x\<lparr>status := RT_RBB_BLK_UNUSED\<rparr>) (rbb_list_remove b r))\<lparr>free_list := b # free_list r\<rparr>"
  have f: "free_list (rbb_list_remove b r) = free_list r" by (simp add: rbb_list_remove_def Let_def)
  have r: "rt_rbb_blk_free b r = Some r'"
    using ok(8) [OF assms(2)] by (simp add: rt_rbb_blk_free_def r'_def f)
  have d: "blk_list r' = remove1 b (blk_list r)" "free_list r' = b # free_list r" "rbb_buf r' = rbb_buf r"
    "rbb_size r' = rbb_size r" "\<And>c. blk_set r' c = (if c = b then (blk_set r b)\<lparr>status := RT_RBB_BLK_UNUSED\<rparr> else blk_set r c)"
    using assms(2) by (simp_all add: r'_def rbb_list_remove_def Let_def)
  have t: "list_tail r' = (if blk_list r' = [] then None else Some (last (blk_list r')))"
  proof (cases "b = last (blk_list r)")
    case True
    have "list_tail r' = (if butlast (blk_list r) = [] then None else Some (last (butlast (blk_list r))))"
      using takeWhile_last [OF ok(2) ne] ok(5) [OF ne] assms(2) True by (simp add: r'_def rbb_list_remove_def Let_def)
    then show ?thesis using remove1_last [OF ok(2) ne] True d(1) by simp
  next
    case False
    then show ?thesis using last_remove1 [OF False ne] ok(5) [OF ne] assms(2) d(1)
      by (simp add: r'_def rbb_list_remove_def Let_def)
  qed
  have e: "buf_end r' = buf_end r" using d by (simp add: buf_end_def)
  have rc: "row r' lo bs hi = row r lo bs hi" for lo bs hi by (rule row_cong) (simp add: d(5))
  obtain as bs p where s: "blk_list r = as @ bs" "row r p as (buf_end r)" "row r (unat (rbb_buf r)) bs p"
    using ok(9) by (auto simp: wrapped_def)
  have "wrapped r'"
  proof (cases "b \<in> set as")
    case True
    then show ?thesis using s row_remove d(1,3) unfolding wrapped_def e rc by (metis remove1_append)
  next
    case False
    then show ?thesis using s row_remove d(1,3) unfolding wrapped_def e rc by (metis remove1_append)
  qed
  moreover have "distinct (blk_list r' @ free_list r')" using ok(2-4) assms(2) d(1,2) by (auto dest: in_set_remove1)
  moreover have "set (blk_list r' @ free_list r') \<subseteq> {..<unat (blk_max_num r')}"
    using ok(10) assms(2) d(1,2) notin_set_remove1 by (fastforce simp: r'_def rbb_list_remove_def Let_def)
  ultimately have "rbb_ok r'"
    using ok(1,2,7,8) t d e assms(2) by (auto simp: rbb_ok_def)
  then show ?thesis using r d by auto
qed

section \<open>Queues of blocks\<close>

definition mark_taken :: "nat list \<Rightarrow> rt_rbb \<Rightarrow> rt_rbb" where
  "mark_taken bs r = r\<lparr>blk_set := (\<lambda>b. if b \<in> set bs then (blk_set r b)\<lparr>status := RT_RBB_BLK_GET\<rparr> else blk_set r b)\<rparr>"

lemma mark_taken_simps [simp]:
  "blk_list (mark_taken bs r) = blk_list r" "free_list (mark_taken bs r) = free_list r"
  "rbb_buf (mark_taken bs r) = rbb_buf r" "rbb_size (mark_taken bs r) = rbb_size r"
  "list_tail (mark_taken bs r) = list_tail r" "blk_max_num (mark_taken bs r) = blk_max_num r"
  "blk_buf (blk_set (mark_taken bs r) b) = blk_buf (blk_set r b)"
  "blk_size (blk_set (mark_taken bs r) b) = blk_size (blk_set r b)"
  "mark_taken [] r = r"
  by (simp_all add: mark_taken_def)

lemma mark_taken_Cons:
  "mark_taken bs (upd_blk b (\<lambda>x. x\<lparr>status := RT_RBB_BLK_GET\<rparr>) r) = mark_taken (b # bs) r"
  by (auto simp: mark_taken_def fun_eq_iff)

definition blk_total :: "nat list \<Rightarrow> rt_rbb \<Rightarrow> u32" where
  "blk_total bs r = sum_list (map (blk_len r) bs)"

lemma blk_total_cong: "(\<And>b. blk_size (blk_set r' b) = blk_size (blk_set r b)) \<Longrightarrow> blk_total bs r' = blk_total bs r"
  by (simp add: blk_total_def)

lemma queue_loop_more:
  "l \<notin> set bs \<Longrightarrow> distinct bs \<Longrightarrow>
   \<exists>taken post. bs = taken @ post \<and> (\<forall>b\<in>set taken. status (blk_set r b) = RT_RBB_BLK_PUT) \<and>
     queue_get_loop lim bs (Some l) n q r =
       (n + blk_total taken r, q\<lparr>blk_num := blk_num q + of_nat (length taken)\<rparr>, mark_taken taken r) \<and>
     (taken = [] \<or> n + blk_total taken r \<le> lim)"
proof (induction bs arbitrary: l n q r)
  case Nil
  then show ?case by (simp add: blk_total_def)
next
  case (Cons b bs)
  let ?r = "upd_blk b (\<lambda>x. x\<lparr>status := RT_RBB_BLK_GET\<rparr>) r"
  let ?q = "q\<lparr>blk_num := blk_num q + 1\<rparr>"
  show ?case
  proof (cases "status (blk_set r b) \<noteq> RT_RBB_BLK_PUT \<or> blk_buf (blk_set r l) > blk_buf (blk_set r b) \<or> n + blk_len r b > lim")
    case True
    then show ?thesis by (intro exI [of _ "[]"] exI [of _ "b # bs"]) (simp add: blk_total_def Let_def)
  next
    case False
    have "b \<notin> set bs" "distinct bs" using Cons.prems by auto
    then obtain taken post where t: "bs = taken @ post" "\<forall>c\<in>set taken. status (blk_set ?r c) = RT_RBB_BLK_PUT"
      "queue_get_loop lim bs (Some b) (n + blk_len r b) ?q ?r =
         (n + blk_len r b + blk_total taken ?r, ?q\<lparr>blk_num := blk_num ?q + of_nat (length taken)\<rparr>, mark_taken taken ?r)"
      "taken = [] \<or> n + blk_len r b + blk_total taken ?r \<le> lim"
      using Cons.IH [where l = b and n = "n + blk_len r b" and q = ?q and r = ?r] by blast
    have "blk_total taken ?r = blk_total taken r" by (rule blk_total_cong) simp
    then have s: "blk_total (b # taken) r = blk_len r b + blk_total taken ?r" by (simp add: blk_total_def)
    have p: "\<forall>c\<in>set (b # taken). status (blk_set r c) = RT_RBB_BLK_PUT"
      using t(1,2) False \<open>b \<notin> set bs\<close> by (auto split: if_splits)
    have "queue_get_loop lim (b # bs) (Some l) n q r =
         (n + blk_total (b # taken) r, q\<lparr>blk_num := blk_num q + of_nat (length (b # taken))\<rparr>, mark_taken (b # taken) r)"
      using False t(3) s by (simp add: mark_taken_Cons Let_def add.assoc)
    moreover have "n + blk_total (b # taken) r \<le> lim"
      using t(4) False s by (cases "taken = []") (simp_all add: blk_total_def add.assoc not_less)
    ultimately show ?thesis using t(1) p by (intro exI [of _ "b # taken"] exI [of _ post]) simp
  qed
qed

lemma queue_get_spec:
  "distinct bs \<Longrightarrow>
   \<exists>pre taken post q'. bs = pre @ taken @ post \<and> (\<forall>b\<in>set pre. status (blk_set r b) \<noteq> RT_RBB_BLK_PUT) \<and>
     (\<forall>b\<in>set taken. status (blk_set r b) = RT_RBB_BLK_PUT) \<and>
     queue_get_loop lim bs None 0 q r = (blk_total taken r, q', mark_taken taken r) \<and>
     (taken = [] \<longrightarrow> post = [] \<and> q' = q) \<and>
     (taken \<noteq> [] \<longrightarrow> q' = \<lparr>first_block = Some (hd taken), blk_num = of_nat (length taken)\<rparr>) \<and>
     (length taken \<le> 1 \<or> blk_total taken r \<le> lim)"
proof (induction bs)
  case Nil
  then show ?case by (simp add: blk_total_def)
next
  case (Cons b bs)
  show ?case
  proof (cases "status (blk_set r b) = RT_RBB_BLK_PUT")
    case True
    let ?r = "upd_blk b (\<lambda>x. x\<lparr>status := RT_RBB_BLK_GET\<rparr>) r"
    let ?q = "\<lparr>first_block = Some b, blk_num = 1\<rparr>"
    have "b \<notin> set bs" "distinct bs" using Cons.prems by auto
    then obtain taken post where t: "bs = taken @ post" "\<forall>c\<in>set taken. status (blk_set ?r c) = RT_RBB_BLK_PUT"
      "queue_get_loop lim bs (Some b) (blk_len r b) ?q ?r =
         (blk_len r b + blk_total taken ?r, ?q\<lparr>blk_num := blk_num ?q + of_nat (length taken)\<rparr>, mark_taken taken ?r)"
      "taken = [] \<or> blk_len r b + blk_total taken ?r \<le> lim"
      using queue_loop_more [where l = b and n = "blk_len r b" and q = ?q and r = ?r] by blast
    have "blk_total taken ?r = blk_total taken r" by (rule blk_total_cong) simp
    then have s: "blk_total (b # taken) r = blk_len r b + blk_total taken ?r" by (simp add: blk_total_def)
    have p: "\<forall>c\<in>set (b # taken). status (blk_set r c) = RT_RBB_BLK_PUT"
      using t(1,2) True \<open>b \<notin> set bs\<close> by (auto split: if_splits)
    have "queue_get_loop lim (b # bs) None 0 q r =
         (blk_total (b # taken) r, \<lparr>first_block = Some b, blk_num = of_nat (length (b # taken))\<rparr>, mark_taken (b # taken) r)"
      using True t(3) s by (simp add: mark_taken_Cons Let_def add.commute)
    then show ?thesis using t(1,4) p s
      by (intro exI [of _ "[]"] exI [of _ "b # taken"] exI [of _ post]
          exI [of _ "\<lparr>first_block = Some b, blk_num = of_nat (length (b # taken))\<rparr>"]) auto
  next
    case False
    then obtain pre taken post q' where t: "bs = pre @ taken @ post" "\<forall>b\<in>set pre. status (blk_set r b) \<noteq> RT_RBB_BLK_PUT"
      "\<forall>b\<in>set taken. status (blk_set r b) = RT_RBB_BLK_PUT"
      "queue_get_loop lim bs None 0 q r = (blk_total taken r, q', mark_taken taken r)"
      "taken = [] \<longrightarrow> post = [] \<and> q' = q"
      "taken \<noteq> [] \<longrightarrow> q' = \<lparr>first_block = Some (hd taken), blk_num = of_nat (length taken)\<rparr>"
      "length taken \<le> 1 \<or> blk_total taken r \<le> lim"
      using Cons.IH Cons.prems by auto
    then show ?thesis using False
      by (intro exI [of _ "b # pre"] exI [of _ taken] exI [of _ post] exI [of _ q']) simp
  qed
qed

lemma mark_taken_ok:
  assumes "rbb_ok r" "set bs \<subseteq> set (blk_list r)"
  shows "rbb_ok (mark_taken bs r)"
proof -
  let ?r = "mark_taken bs r"
  have "row ?r lo xs hi = row r lo xs hi" for lo xs hi by (rule row_cong) simp
  then have "wrapped ?r = wrapped r" "buf_end ?r = buf_end r" by (simp_all add: wrapped_def buf_end_def)
  moreover have "set bs \<inter> set (free_list r) = {}" using rbb_okD(4) [OF assms(1)] assms(2) by auto
  ultimately show ?thesis using assms(1) unfolding rbb_ok_def by (auto simp: mark_taken_def)
qed

lemma queue_len_loop_prefix:
  "queue_len_loop (length taken) (taken @ post) n r = Some (n + blk_total taken r)"
  by (induction taken arbitrary: n) (simp_all add: blk_total_def add.assoc)

lemma queue_free_loop_ok:
  "rbb_ok r \<Longrightarrow> blk_list r = pre @ taken @ post \<Longrightarrow>
   \<exists>r'. queue_free_loop (length taken) (taken @ post) r = Some r' \<and> rbb_ok r' \<and> blk_list r' = pre @ post \<and>
     free_list r' = rev taken @ free_list r"
proof (induction taken arbitrary: r)
  case (Cons b bs)
  have "b \<in> set (blk_list r)" using Cons.prems(2) by simp
  then obtain r1 where r1: "rt_rbb_blk_free b r = Some r1" "rbb_ok r1" "blk_list r1 = remove1 b (blk_list r)"
      "free_list r1 = b # free_list r"
    using rbb_free_ok [OF Cons.prems(1)] by blast
  have "b \<notin> set pre" using rbb_okD(2) [OF Cons.prems(1)] Cons.prems(2) by simp
  then have "blk_list r1 = pre @ bs @ post" using r1(3) Cons.prems(2) by (simp add: remove1_append)
  then show ?case using Cons.IH [OF r1(2)] r1(1,4) by simp
qed simp

section \<open>Runs\<close>

lemma rbb_fill_ok:
  "free_list (rbb_fill i n r) = rev [i..<i + n] @ free_list r \<and> blk_list (rbb_fill i n r) = blk_list r \<and>
   list_tail (rbb_fill i n r) = list_tail r \<and> rbb_buf (rbb_fill i n r) = rbb_buf r \<and>
   rbb_size (rbb_fill i n r) = rbb_size r \<and> blk_max_num (rbb_fill i n r) = blk_max_num r \<and>
   (\<forall>b. b \<in> {i..<i + n} \<longrightarrow> status (blk_set (rbb_fill i n r) b) = RT_RBB_BLK_UNUSED) \<and>
   (\<forall>b. b < i \<longrightarrow> blk_set (rbb_fill i n r) b = blk_set r b)"
proof (induction n arbitrary: i r)
  case (Suc n)
  let ?r = "(upd_blk i (\<lambda>x. x\<lparr>status := RT_RBB_BLK_UNUSED\<rparr>) r)\<lparr>free_list := i # free_list r\<rparr>"
  note IH = Suc.IH [of "Suc i" ?r]
  have e: "[i..<i + Suc n] = [i..<Suc i] @ [Suc i..<Suc i + n]" by (metis add_Suc_right add_Suc_shift le_add1 upt_add_eq_append le_SucI order_refl)
  have "status (blk_set (rbb_fill (Suc i) n ?r) b) = RT_RBB_BLK_UNUSED" if "b \<in> {i..<i + Suc n}" for b
  proof (cases "b = i")
    case True
    then have "blk_set (rbb_fill (Suc i) n ?r) b = blk_set ?r b" using IH by blast
    then show ?thesis using True by simp
  next
    case False
    then show ?thesis using that IH by simp
  qed
  moreover have "blk_set (rbb_fill (Suc i) n ?r) b = blk_set r b" if "b < i" for b
  proof -
    have "blk_set (rbb_fill (Suc i) n ?r) b = blk_set ?r b" using that IH by (metis less_SucI)
    then show ?thesis using that by simp
  qed
  moreover have "rbb_fill i (Suc n) r = rbb_fill (Suc i) n ?r" by simp
  ultimately show ?case using IH unfolding e by simp
qed simp

lemma rbb_init_ok:
  assumes "unat buf + unat sz < 2 ^ 32"
  shows "rbb_ok (rt_rbb_init buf sz blks n)"
proof -
  let ?r = "rt_rbb_init buf sz blks n"
  have f: "free_list ?r = rev [0..<unat n]" "blk_list ?r = []" "list_tail ?r = None" "rbb_buf ?r = buf" "rbb_size ?r = sz"
    "blk_max_num ?r = n" "\<And>b. b < unat n \<Longrightarrow> status (blk_set ?r b) = RT_RBB_BLK_UNUSED"
    by (simp_all add: rt_rbb_init_def rbb_fill_ok)
  have "row ?r (unat buf) [] (buf_end ?r)" "row ?r (unat buf) [] (unat buf)" by (simp_all add: buf_end_def f)
  then have "wrapped ?r" unfolding wrapped_def f by blast
  then show ?thesis using assms f by (auto simp: rbb_ok_def buf_end_def)
qed

text \<open>
  The calls of a program.  A run makes every call as it is; it is \<open>None\<close> when an assertion of the
  code fails.  \<open>rbb_holds\<close> says of a run that its puts and frees name blocks the program
  holds, a block being put at most once.
\<close>

datatype rbb_call = Blk_alloc u32 | Blk_put nat | Blk_get | Blk_free nat | Queue_get u32

fun rbb_do :: "rbb_call \<Rightarrow> rt_rbb \<Rightarrow> rt_rbb option" where
  "rbb_do (Blk_alloc sz) r = map_option snd (rt_rbb_blk_alloc sz r)"
| "rbb_do (Blk_put b) r = rt_rbb_blk_put b r"
| "rbb_do Blk_get r = Some (snd (rt_rbb_blk_get r))"
| "rbb_do (Blk_free b) r = rt_rbb_blk_free b r"
| "rbb_do (Queue_get lim) r = Some (snd (snd (rt_rbb_blk_queue_get lim \<lparr>first_block = None, blk_num = 0\<rparr> r)))"

fun rbb_run :: "rbb_call list \<Rightarrow> rt_rbb \<Rightarrow> rt_rbb option" where
  "rbb_run [] r = Some r"
| "rbb_run (c # cs) r = do { r \<leftarrow> rbb_do c r; rbb_run cs r }"

fun rbb_held :: "rbb_call \<Rightarrow> rt_rbb \<Rightarrow> bool" where
  "rbb_held (Blk_put b) r \<longleftrightarrow> b \<in> set (blk_list r) \<and> status (blk_set r b) = RT_RBB_BLK_INITED"
| "rbb_held (Blk_free b) r \<longleftrightarrow> b \<in> set (blk_list r)"
| "rbb_held c r \<longleftrightarrow> True"

fun rbb_holds :: "rbb_call list \<Rightarrow> rt_rbb \<Rightarrow> bool" where
  "rbb_holds [] r \<longleftrightarrow> True"
| "rbb_holds (c # cs) r \<longleftrightarrow>
     rbb_held c r \<and> (case rbb_do c r of None \<Rightarrow> True | Some r' \<Rightarrow> rbb_holds cs r')"

text \<open>The sizes a program may ask for; \<open>rbb_defects\<close> shows what other sizes do.\<close>

definition rbb_sizes :: "u32 \<Rightarrow> rbb_call list \<Rightarrow> bool" where
  "rbb_sizes bsize cs \<longleftrightarrow> (\<forall>sz. Blk_alloc sz \<in> set cs \<longrightarrow> 0 < sz \<and> sz < 0x1000000 \<and> sz \<le> bsize)"

lemma rbb_sizes_simps [simp]:
  "rbb_sizes bsize []"
  "rbb_sizes bsize (c # cs) \<longleftrightarrow> (case c of Blk_alloc sz \<Rightarrow> 0 < sz \<and> sz < 0x1000000 \<and> sz \<le> bsize | _ \<Rightarrow> True) \<and>
     rbb_sizes bsize cs"
  by (auto simp: rbb_sizes_def split: rbb_call.split)

lemma rbb_get_size: "rbb_size (snd (rt_rbb_blk_get r)) = rbb_size r"
  unfolding rt_rbb_blk_get_def rbb_get_loop_first by (simp split: list.split)

lemma rbb_do_ok:
  assumes "rbb_ok r" "rbb_held c r" "rbb_sizes (rbb_size r) [c]"
  shows "\<exists>r'. rbb_do c r = Some r' \<and> rbb_ok r' \<and> rbb_size r' = rbb_size r"
proof (cases c)
  case (Blk_alloc sz)
  then show ?thesis using rbb_alloc_ok [OF assms(1), of sz] assms(3) by auto
next
  case (Blk_put b)
  then show ?thesis using rbb_put_ok [OF assms(1), of b] assms(2) by simp
next
  case Blk_get
  then show ?thesis using rbb_get_ok [OF assms(1)] rbb_get_size by simp
next
  case (Blk_free b)
  then show ?thesis using rbb_free_ok [OF assms(1), of b] assms(2) by auto
next
  case (Queue_get lim)
  obtain pre taken post q' where "blk_list r = pre @ taken @ post"
    "queue_get_loop lim (blk_list r) None 0 \<lparr>first_block = None, blk_num = 0\<rparr> r = (blk_total taken r, q', mark_taken taken r)"
    using queue_get_spec [OF rbb_okD(2) [OF assms(1)], of r lim "\<lparr>first_block = None, blk_num = 0\<rparr>"] by blast
  moreover from this have "rbb_ok (mark_taken taken r)" by (intro mark_taken_ok [OF assms(1)]) auto
  ultimately show ?thesis using Queue_get by (simp add: rt_rbb_blk_queue_get_def)
qed

lemma rbb_run_ok:
  "rbb_ok r \<Longrightarrow> rbb_holds cs r \<Longrightarrow> rbb_sizes (rbb_size r) cs \<Longrightarrow> \<exists>r'. rbb_run cs r = Some r' \<and> rbb_ok r'"
proof (induction cs arbitrary: r)
  case (Cons c cs)
  then have "rbb_held c r" "rbb_sizes (rbb_size r) [c]" "rbb_sizes (rbb_size r) cs" by simp_all
  from rbb_do_ok [OF Cons.prems(1) this(1,2)] obtain r1 where r1: "rbb_do c r = Some r1" "rbb_ok r1" "rbb_size r1 = rbb_size r"
    by blast
  then show ?case using Cons.IH [OF r1(2)] Cons.prems(2) \<open>rbb_sizes (rbb_size r) cs\<close> by simp
qed simp

lemma dropWhile_to: "a \<notin> set pre \<Longrightarrow> dropWhile (\<lambda>x. x \<noteq> a) (pre @ a # xs) = a # xs"
  by (induction pre) auto

section \<open>Properties\<close>

text \<open>
  \<open>rt_rbb_blk_alloc\<close>, for a size that is not 0 and at most that of the buffer, takes the first
  free block and puts it behind the last block in use, or, where it does not fit and the blocks
  do not go round, at the start of the buffer; there is no other place.  Its area is inside
  the buffer and disjoint from those of all blocks in use, none of which is changed.
  When there is no place the call answers null, but the block it had taken is lost.
\<close>

theorem rt_rbb_blk_alloc_correct:
  assumes "rbb_ok r" "0 < sz" "sz < 0x1000000" "sz \<le> rbb_size r"
  shows "\<exists>res r'. rt_rbb_blk_alloc sz r = Some (res, r') \<and> rbb_ok r' \<and> free_list r' = tl (free_list r) \<and>
     (res = None \<longleftrightarrow> free_list r = [] \<or> place_for r (unat sz) = None) \<and>
     (\<forall>c. Some c \<noteq> res \<longrightarrow> blk_set r' c = blk_set r c) \<and>
     (\<forall>b. res = Some b \<longrightarrow> blk_list r' = blk_list r @ [b] \<and> Some (first_of r' b) = place_for r (unat sz) \<and>
        area r' b \<subseteq> {unat (rbb_buf r)..<buf_end r} \<and> card (area r' b) = unat sz \<and>
        (\<forall>c\<in>set (blk_list r). area r' b \<inter> area r c = {}))"
proof -
  obtain res r' where r': "rt_rbb_blk_alloc sz r = Some (res, r')" "rbb_ok r'" "free_list r' = tl (free_list r)"
    "rbb_buf r' = rbb_buf r" "rbb_size r' = rbb_size r"
    "if free_list r = [] \<or> place_for r (unat sz) = None
      then res = None \<and> blk_list r' = blk_list r \<and> blk_set r' = blk_set r
      else \<exists>b. res = Some b \<and> b = hd (free_list r) \<and> blk_list r' = blk_list r @ [b] \<and>
             Some (first_of r' b) = place_for r (unat sz) \<and> unat (blk_size (blk_set r' b)) = unat sz \<and>
             status (blk_set r' b) = RT_RBB_BLK_INITED \<and> (\<forall>c. c \<noteq> b \<longrightarrow> blk_set r' c = blk_set r c)"
    using rbb_alloc_ok [OF assms] by blast
  note ok = rbb_okD [OF r'(2)]
  have e: "buf_end r' = buf_end r" using r'(4,5) by (simp add: buf_end_def)
  have n: "area r' b \<subseteq> {unat (rbb_buf r)..<buf_end r} \<and> card (area r' b) = unat sz \<and>
        (\<forall>c\<in>set (blk_list r). area r' b \<inter> area r c = {})"
    if b: "blk_list r' = blk_list r @ [b]" "unat (blk_size (blk_set r' b)) = unat sz"
      "\<forall>c. c \<noteq> b \<longrightarrow> blk_set r' c = blk_set r c" for b
  proof (intro conjI ballI)
    have m: "b \<in> set (blk_list r')" using b(1) by simp
    show "area r' b \<subseteq> {unat (rbb_buf r)..<buf_end r}"
      using wrapped_bounds [OF ok(9) m] e r'(4) by (auto simp: area_def)
    show "card (area r' b) = unat sz" using b(2) by (simp add: area_def)
    fix c assume c: "c \<in> set (blk_list r)"
    then have "c \<noteq> b" "c \<in> set (blk_list r')" using ok(2) b(1) by auto
    then show "area r' b \<inter> area r c = {}"
      using wrapped_disjoint [OF ok(9,2) m, of c] b(3) by (simp add: area_def)
  qed
  show ?thesis
  proof (cases "free_list r = [] \<or> place_for r (unat sz) = None")
    case True
    then show ?thesis using r'(1-3,6) by simp
  next
    case False
    with r'(6) obtain b where b: "res = Some b" "blk_list r' = blk_list r @ [b]"
      "Some (first_of r' b) = place_for r (unat sz)" "unat (blk_size (blk_set r' b)) = unat sz"
      "\<forall>c. c \<noteq> b \<longrightarrow> blk_set r' c = blk_set r c" by auto
    show ?thesis using n [OF b(2,4,5)] b(1-3,5) False r'(1-3) by (intro exI [of _ res] exI [of _ r']) auto
  qed
qed

abbreviation sample_rbb :: rt_rbb where
  "sample_rbb \<equiv> rt_rbb_init 0x20000000 16 (\<lambda>_. \<lparr>status = RT_RBB_BLK_UNUSED, blk_size = 0, blk_buf = 0\<rparr>) 4"

theorem rt_rbb_blk_alloc_correct_witness:
  "\<exists>r'. rt_rbb_blk_alloc 10 sample_rbb = Some (Some 3, r') \<and> first_of r' 3 = 0x20000000"
proof -
  have ok: "rbb_ok sample_rbb" by (rule rbb_init_ok) simp
  have f: "free_list sample_rbb = [3, 2, 1, 0]" "blk_list sample_rbb = []" "rbb_size sample_rbb = 16" "rbb_buf sample_rbb = 0x20000000"
    by (simp_all add: rt_rbb_init_def rbb_fill_ok upt_rec)
  then have p: "place_for sample_rbb 10 = Some 0x20000000" by (simp add: place_for_def)
  obtain res r' where r': "rt_rbb_blk_alloc 10 sample_rbb = Some (res, r')" "res \<noteq> None" "free_list r' = [2, 1, 0]"
      "rbb_ok r'" "\<forall>b. res = Some b \<longrightarrow> blk_list r' = [b] \<and> Some (first_of r' b) = place_for sample_rbb 10"
    using rt_rbb_blk_alloc_correct [OF ok, of 10] f p by auto
  moreover have "fst (the (rt_rbb_blk_alloc 10 sample_rbb)) = Some 3" by code_simp
  ultimately show ?thesis using p by auto
qed

text \<open>
  C28.  Whatever a program allocates, puts, gets and frees, in any order, provided it allocates
  sizes that are not 0, below \<open>2 ^ 24\<close> and at most that of the buffer, and puts and frees blocks
  it holds: every call returns, and the areas of the blocks it holds are not empty, inside the
  buffer and pairwise disjoint.  Without the condition on the sizes this is false
  (\<open>rbb_defects\<close>).
\<close>

theorem rbb_blocks_disjoint:
  assumes "unat buf + unat bsize < 2 ^ 32"
    and "\<forall>sz. Blk_alloc sz \<in> set cs \<longrightarrow> 0 < sz \<and> sz < 0x1000000 \<and> sz \<le> bsize"
    and "rbb_holds cs (rt_rbb_init buf bsize blks n)"
  shows "\<exists>r. rbb_run cs (rt_rbb_init buf bsize blks n) = Some r \<and>
     (\<forall>b\<in>set (blk_list r). status (blk_set r b) \<noteq> RT_RBB_BLK_UNUSED \<and> area r b \<noteq> {} \<and>
        area r b \<subseteq> {unat (rbb_buf r)..<unat (rbb_buf r) + unat (rbb_size r)} \<and>
        (\<forall>c\<in>set (blk_list r). b \<noteq> c \<longrightarrow> area r b \<inter> area r c = {}))"
proof -
  have "rbb_size (rt_rbb_init buf bsize blks n) = bsize" by (simp add: rt_rbb_init_def rbb_fill_ok)
  then obtain r where r: "rbb_run cs (rt_rbb_init buf bsize blks n) = Some r" "rbb_ok r"
    using rbb_run_ok [OF rbb_init_ok [OF assms(1)] assms(3)] assms(2) unfolding rbb_sizes_def by metis
  note ok = rbb_okD [OF r(2)]
  show ?thesis
    using r(1) ok(8) wrapped_bounds [OF ok(9)] wrapped_disjoint [OF ok(9,2)]
    by (intro exI [of _ r]) (auto simp: area_def buf_end_def)
qed

theorem rbb_blocks_disjoint_witness:
  "\<exists>r. rbb_run [Blk_alloc 10, Blk_put 3, Blk_alloc 5, Blk_get, Blk_free 3, Blk_alloc 8] sample_rbb = Some r \<and>
     (\<forall>b\<in>set (blk_list r). \<forall>c\<in>set (blk_list r). b \<noteq> c \<longrightarrow> area r b \<inter> area r c = {})"
proof -
  let ?cs = "[Blk_alloc 10, Blk_put 3, Blk_alloc 5, Blk_get, Blk_free 3, Blk_alloc 8]"
  have b: "unat (0x20000000 :: u32) + unat (16 :: u32) < 2 ^ 32" by simp
  have s: "\<forall>sz. Blk_alloc sz \<in> set ?cs \<longrightarrow> 0 < sz \<and> sz < 0x1000000 \<and> sz \<le> (16 :: u32)" by auto
  have h: "rbb_holds ?cs sample_rbb" by code_simp
  from rbb_blocks_disjoint [OF b s h]
  show ?thesis by (elim exE conjE) (intro exI conjI, assumption, simp)
qed

text \<open>
  Round trip of a queue: \<open>rt_rbb_blk_queue_get\<close> takes a run of adjacent entries of the block
  list, all put and none before them put; \<open>rt_rbb_blk_queue_len\<close> of the queue is the size it
  returned; and \<open>rt_rbb_blk_queue_free\<close> takes exactly these blocks out of use again.
\<close>

theorem queue_get_free:
  assumes "rbb_ok r" "rt_rbb_blk_queue_get lim q0 r = (n, q, r1)"
    and "\<exists>b\<in>set (blk_list r). status (blk_set r b) = RT_RBB_BLK_PUT"
  shows "\<exists>pre taken post r2. blk_list r = pre @ taken @ post \<and> taken \<noteq> [] \<and>
     (\<forall>b\<in>set pre. status (blk_set r b) \<noteq> RT_RBB_BLK_PUT) \<and>
     (\<forall>b\<in>set taken. status (blk_set r b) = RT_RBB_BLK_PUT \<and> status (blk_set r1 b) = RT_RBB_BLK_GET) \<and>
     (length taken = 1 \<or> n \<le> lim) \<and> rt_rbb_blk_queue_len q r1 = Some n \<and>
     rt_rbb_blk_queue_free q r1 = Some r2 \<and> rbb_ok r2 \<and> blk_list r2 = pre @ post \<and>
     free_list r2 = rev taken @ free_list r"
proof -
  note ok = rbb_okD [OF assms(1)]
  obtain pre taken post q' where t: "blk_list r = pre @ taken @ post" "\<forall>b\<in>set pre. status (blk_set r b) \<noteq> RT_RBB_BLK_PUT"
    "\<forall>b\<in>set taken. status (blk_set r b) = RT_RBB_BLK_PUT"
    "queue_get_loop lim (blk_list r) None 0 q0 r = (blk_total taken r, q', mark_taken taken r)"
    "taken = [] \<longrightarrow> post = [] \<and> q' = q0"
    "taken \<noteq> [] \<longrightarrow> q' = \<lparr>first_block = Some (hd taken), blk_num = of_nat (length taken)\<rparr>"
    "length taken \<le> 1 \<or> blk_total taken r \<le> lim"
    using queue_get_spec [OF ok(2), of r lim q0] by blast
  have e: "n = blk_total taken r" "q = q'" "r1 = mark_taken taken r"
    using t(4) assms(2) by (simp_all add: rt_rbb_blk_queue_get_def)
  have ne: "taken \<noteq> []" using assms(3) t(1,2,5) by auto
  have "length taken \<le> length (blk_list r)" using t(1) by simp
  also have "length (blk_list r) = card (set (blk_list r))" using ok(2) by (simp add: distinct_card)
  also have "\<dots> \<le> unat (blk_max_num r)" using ok(10) card_mono [of "{..<unat (blk_max_num r)}" "set (blk_list r)"] by simp
  also have "\<dots> < 2 ^ 32" using unsigned_less [of "blk_max_num r"] by simp
  finally have l: "unat (of_nat (length taken) :: u32) = length taken" by (simp add: unat_of_nat take_bit_nat_eq_self)
  have "hd taken \<notin> set pre" using ok(2) ne t(1) by (cases taken) auto
  then have d: "from_block (first_block q) r1 = taken @ post"
    using ne t(1,6) e(2,3) by (cases taken) (auto simp: from_block_def dropWhile_to)
  have ok1: "rbb_ok r1" unfolding e(3) by (rule mark_taken_ok [OF assms(1)]) (use t(1) in auto)
  have "blk_list r1 = pre @ taken @ post" using e(3) t(1) by simp
  from queue_free_loop_ok [OF ok1 this] obtain r2 where r2: "queue_free_loop (length taken) (taken @ post) r1 = Some r2"
    "rbb_ok r2" "blk_list r2 = pre @ post" "free_list r2 = rev taken @ free_list r" using e(3) by auto
  have b: "unat (blk_num q) = length taken" using t(6) ne e(2) l by simp
  have "rt_rbb_blk_queue_len q r1 = Some n"
    unfolding rt_rbb_blk_queue_len_def b d queue_len_loop_prefix e(1)
    using blk_total_cong [of r1 r taken] e(3) by simp
  moreover have "rt_rbb_blk_queue_free q r1 = Some r2" unfolding rt_rbb_blk_queue_free_def b d by (rule r2(1))
  moreover have "\<forall>b\<in>set taken. status (blk_set r1 b) = RT_RBB_BLK_GET" using e(3) by (simp add: mark_taken_def)
  moreover have "length taken = 1 \<or> n \<le> lim" using t(7) ne e(1) by (cases taken) auto
  ultimately show ?thesis using t(1-3) ne r2 by blast
qed

theorem queue_get_free_witness:
  "\<exists>r n q r1 r2. rbb_run [Blk_alloc 6, Blk_put 3, Blk_alloc 5, Blk_put 2] sample_rbb = Some r \<and>
     rt_rbb_blk_queue_get 20 \<lparr>first_block = None, blk_num = 0\<rparr> r = (n, q, r1) \<and> rt_rbb_blk_queue_len q r1 = Some n \<and>
     rt_rbb_blk_queue_free q r1 = Some r2 \<and> rbb_ok r2"
proof -
  let ?cs = "[Blk_alloc 6, Blk_put 3, Blk_alloc 5, Blk_put 2]"
  have "rbb_ok sample_rbb" by (rule rbb_init_ok) simp
  moreover have "rbb_holds ?cs sample_rbb" by code_simp
  moreover have "rbb_sizes (rbb_size sample_rbb) ?cs" by (simp add: rt_rbb_init_def rbb_fill_ok)
  ultimately obtain r where r: "rbb_run ?cs sample_rbb = Some r" "rbb_ok r" using rbb_run_ok by blast
  have "map_option (\<lambda>r. \<exists>b\<in>set (blk_list r). status (blk_set r b) = RT_RBB_BLK_PUT) (rbb_run ?cs sample_rbb) = Some True"
    by code_simp
  then have p: "\<exists>b\<in>set (blk_list r). status (blk_set r b) = RT_RBB_BLK_PUT" using r(1) by simp
  obtain n q r1 where g: "rt_rbb_blk_queue_get 20 \<lparr>first_block = None, blk_num = 0\<rparr> r = (n, q, r1)"
    by (metis prod_cases3)
  show ?thesis using queue_get_free [OF r(2) g p] r(1) g by blast
qed

text \<open>
  Where the ring of blocks breaks its promises.  The first block of an empty ring may be
  larger than the buffer; an allocation that finds no place loses a block of the set for good; after
  blocks of size 0 two blocks can overlap; a queue reported as one area of its total length can
  have a gap, left by a block freed between; and its length can exceed the limit that was passed.
\<close>

theorem rbb_defects:
  "do { (x, r) \<leftarrow> rt_rbb_blk_alloc 100 sample_rbb; b \<leftarrow> x;
        Some (blk_buf (blk_set r b) + blk_len r b - (rbb_buf r + rbb_size r)) } = Some 84 \<and>
   do { (_, r) \<leftarrow> rt_rbb_blk_alloc 10 sample_rbb; (x, r') \<leftarrow> rt_rbb_blk_alloc 10 r;
        Some (x, free_list r, free_list r') } = Some (None, [2, 1, 0], [1, 0]) \<and>
   do { (_, r) \<leftarrow> rt_rbb_blk_alloc 10 sample_rbb; (_, r) \<leftarrow> rt_rbb_blk_alloc 6 r; r \<leftarrow> rt_rbb_blk_free 3 r;
        (_, r) \<leftarrow> rt_rbb_blk_alloc 10 r; (_, r) \<leftarrow> rt_rbb_blk_alloc 0 r; (_, r) \<leftarrow> rt_rbb_blk_alloc 6 r;
        Some (blk_list r, blk_buf (blk_set r 2) - blk_buf (blk_set r 0), blk_size (blk_set r 2), blk_size (blk_set r 0)) } =
     Some ([2, 3, 1, 0], 0, 6, 6) \<and>
   do { (_, r) \<leftarrow> rt_rbb_blk_alloc 5 sample_rbb; (_, r) \<leftarrow> rt_rbb_blk_alloc 5 r; (_, r) \<leftarrow> rt_rbb_blk_alloc 5 r;
        r \<leftarrow> rt_rbb_blk_put 3 r; r \<leftarrow> rt_rbb_blk_put 1 r; r \<leftarrow> rt_rbb_blk_free 2 r;
        let (n, q, r) = rt_rbb_blk_queue_get 16 \<lparr>first_block = None, blk_num = 0\<rparr> r;
        buf \<leftarrow> rt_rbb_blk_queue_buf q r;
        Some (n, blk_num q, first_block q, blk_buf (blk_set r 1) - buf) } = Some (10, 2, Some 3, 10) \<and>
   do { (_, r) \<leftarrow> rt_rbb_blk_alloc 10 sample_rbb; r \<leftarrow> rt_rbb_blk_put 3 r;
        Some (fst (rt_rbb_blk_queue_get 4 \<lparr>first_block = None, blk_num = 0\<rparr> r)) } = Some 10"
  by (intro conjI; code_simp)

end
