(* ===== verification/Kernel_State.thy ===== *)
theory Kernel_State
  imports Rtt_Prelude
begin

text \<open>
  The state of the kernel of \<^verbatim>\<open>rt-thread/src\<close> in the configuration of
  \<^verbatim>\<open>rtconfig.h\<close>: one core, 32 priorities, no signals, no soft timers, one
  level in the timer skip list, hooks left at \<open>RT_NULL\<close>.

  The structures of \<^verbatim>\<open>rtdef.h\<close> are records; a pointer to a structure is a
  reference of the type of its target, so the checks against \<open>RT_NULL\<close> hold by typing.
  The object header (\<open>struct rt_object\<close>, the first member of every kernel structure)
  is kept in one map over all object references.

  A doubly linked list is the HOL list of its members from \<open>head->next\<close> to
  \<open>head->prev\<close>.  The \<open>tlist\<close> node of
  a thread can be linked in one list at a time; the model records in which.  Linking a node
  that is linked already destroys a list in C, and has no result here.

  Interrupts are disabled by the C code around each group of updates.  A definition of the
  model is one call of the API, taken as a whole, up to the point where a blocking call
  gives up the processor in \<open>rt_schedule\<close>; what the call does after it is resumed is a
  definition of its own, and the saved call is part of the state of the thread.
\<close>

section \<open>References and lists\<close>

type_synonym tid = nat

datatype timer_ref = Timer nat | Thread_timer tid

datatype objref =
    Obj_Thread tid | Obj_Timer timer_ref | Obj_Sem nat | Obj_Mutex nat | Obj_Event nat
  | Obj_Mb nat | Obj_Mq nat | Obj_Mp nat | Obj_Device nat | Obj_Memory nat
  | Obj_Completion nat | Obj_Dq nat

text \<open>
  A completion and a data queue have no object header; they have references for the sake of their
  waiting lists.  The heads of the lists a \<open>tlist\<close> node can be in:
\<close>

datatype list_head = Ready nat | Suspended_on objref | Senders_of objref | Defunct

datatype rt_object_class =
    Class_Null | Class_Thread | Class_Semaphore | Class_Mutex | Class_Event | Class_MailBox
  | Class_MessageQueue | Class_MemHeap | Class_MemPool | Class_Device | Class_Timer | Class_Module
  | Class_Memory | Class_Unknown

fun class_code :: "rt_object_class \<Rightarrow> u8" where
  "class_code Class_Null = 0"
| "class_code Class_Thread = 1"
| "class_code Class_Semaphore = 2"
| "class_code Class_Mutex = 3"
| "class_code Class_Event = 4"
| "class_code Class_MailBox = 5"
| "class_code Class_MessageQueue = 6"
| "class_code Class_MemHeap = 7"
| "class_code Class_MemPool = 8"
| "class_code Class_Device = 9"
| "class_code Class_Timer = 10"
| "class_code Class_Module = 11"
| "class_code Class_Memory = 12"
| "class_code Class_Unknown = 14"

section \<open>Structures\<close>

record rt_object =
  obj_name :: string
  obj_type :: u8
  obj_flag :: u8

record rt_thread =
  tlist :: "list_head option"
  stat :: u8
  current_priority :: u8
  number_mask :: u32
  thread_error :: rt_err
  event_set :: u32
  event_info :: u8
  thread_init_tick :: u32
  remaining_tick :: u32
  cleanup :: "nat option"

text \<open>
  Timer callbacks: the timeout of a thread's own timer, or a function of the application,
  known by a number and given to the definitions that call it.
\<close>

datatype timer_callback = Thread_timeout tid | User_timeout nat

record rt_timer =
  timeout_func :: timer_callback
  init_tick :: u32
  timeout_tick :: u32

record rt_semaphore =
  sem_value :: u16

record rt_mutex =
  mutex_value :: u16
  original_priority :: u8
  hold :: u8
  owner :: "tid option"

record rt_event =
  event_bits :: u32

record rt_mailbox =
  msg_pool :: "u32 list"
  mb_size :: u16
  mb_entry :: u16
  in_offset :: u16
  out_offset :: u16

text \<open>
  A message block is known by its number in the pool: \<open>mq_next\<close> is the \<open>next\<close> pointer
  of its header, \<open>mq_data\<close> the \<open>msg_size\<close> bytes behind the header.
\<close>

record rt_messagequeue =
  msg_size :: u16
  max_msgs :: u16
  mq_entry :: u16
  mq_head :: "nat option"
  mq_tail :: "nat option"
  mq_free :: "nat option"
  mq_next :: "nat \<Rightarrow> nat option"
  mq_data :: "nat \<Rightarrow> u8 list"

text \<open>
  A block of a memory pool is known by its number; its header word holds the next free
  block while the block is free and the pool while it is allocated.
\<close>

datatype block_header = Next_block "nat option" | Owner_pool nat

record rt_mempool =
  mp_size :: u32
  mp_block_size :: u32
  block_list :: "nat option"
  block_header :: "nat \<Rightarrow> block_header"
  block_total_count :: u32
  block_free_count :: u32

text \<open>
  The structures of \<^verbatim>\<open>components/drivers/include/ipc\<close> that threads wait on or that the kernel
  acts upon: completions, data queues and work queues.  The node of a work item is in the list of
  a work queue, in its list of delayed items, or in none.
\<close>

record rt_completion =
  comp_flag :: u32

record rt_data_queue =
  dq_magic :: u32
  dq_size :: u16
  dq_lwm :: u16
  get_index :: "15 word"
  put_index :: "15 word"
  is_empty :: bool
  is_full :: bool
  dq_items :: "(u32 \<times> u32) list"
  evt_notify :: "nat option"

datatype work_link = Work_list nat | Delayed_list nat

record rt_work =
  work_link :: "work_link option"
  work_func :: nat
  work_data :: u32
  work_flags :: u16
  work_type :: u16
  work_owner :: "nat option"

record rt_workqueue =
  work_list :: "nat list"
  delayed_list :: "nat list"
  work_current :: "nat option"
  work_sem :: nat
  work_thread :: tid

record driver_ipc =
  completions :: "nat \<Rightarrow> rt_completion"
  dqueues :: "nat \<Rightarrow> rt_data_queue"
  works :: "nat \<Rightarrow> rt_work"
  workqueues :: "nat \<Rightarrow> rt_workqueue"

text \<open>
  Where a thread stands in a blocking call, with the local variables the rest of the call
  reads: the part of its stack that matters.
\<close>

datatype saved_call =
    No_call
  | In_sleep
  | In_sem_take nat
  | In_mutex_take nat
  | In_event_recv nat
  | In_mb_send nat u32 s32 u32
  | In_mb_recv nat s32 u32
  | In_mq_send nat "u8 list" u32 s32 u32
  | In_mq_recv nat "u8 list" u32 s32 u32
  | In_mp_alloc nat s32 u32
  | In_completion_wait nat
  | In_dq_push nat u32 u32 s32
  | In_dq_pop nat s32
  | In_work_thread nat

text \<open>
  What a call that can wait does: it returns an error code, with the value it stores for the
  caller if there is one, or it leaves the calling thread waiting.
\<close>

datatype 'a outcome = Waits | Returns rt_err "'a option"

record kernel =
  threads :: "tid \<Rightarrow> rt_thread"
  timers :: "timer_ref \<Rightarrow> rt_timer"
  objs :: "objref \<Rightarrow> rt_object"
  containers :: "rt_object_class \<Rightarrow> objref list"
  lists :: "list_head \<Rightarrow> tid list"
  ready_group :: u32
  lock_nest :: u16
  irq_nest :: u8
  current :: "tid option"
  cur_priority :: u8
  tick :: u32
  timer_list :: "timer_ref list"
  fired_list :: "timer_ref list"
  saved :: "tid \<Rightarrow> saved_call"
  sems :: "nat \<Rightarrow> rt_semaphore"
  mutexes :: "nat \<Rightarrow> rt_mutex"
  events :: "nat \<Rightarrow> rt_event"
  mailboxes :: "nat \<Rightarrow> rt_mailbox"
  queues :: "nat \<Rightarrow> rt_messagequeue"
  pools :: "nat \<Rightarrow> rt_mempool"
  devipc :: driver_ipc

section \<open>Access to the state\<close>

abbreviation upd_thread :: "tid \<Rightarrow> (rt_thread \<Rightarrow> rt_thread) \<Rightarrow> kernel \<Rightarrow> kernel" where
  "upd_thread t f k \<equiv> k\<lparr>threads := (threads k)(t := f (threads k t))\<rparr>"

abbreviation upd_obj :: "objref \<Rightarrow> (rt_object \<Rightarrow> rt_object) \<Rightarrow> kernel \<Rightarrow> kernel" where
  "upd_obj r f k \<equiv> k\<lparr>objs := (objs k)(r := f (objs k r))\<rparr>"

abbreviation upd_timer :: "timer_ref \<Rightarrow> (rt_timer \<Rightarrow> rt_timer) \<Rightarrow> kernel \<Rightarrow> kernel" where
  "upd_timer r f k \<equiv> k\<lparr>timers := (timers k)(r := f (timers k r))\<rparr>"

text \<open>The status bits of a thread (\<open>RT_THREAD_STAT_MASK\<close> and its values).\<close>

abbreviation (input) RT_THREAD_INIT :: u8 where "RT_THREAD_INIT \<equiv> 0"
abbreviation (input) RT_THREAD_READY :: u8 where "RT_THREAD_READY \<equiv> 1"
abbreviation (input) RT_THREAD_SUSPEND :: u8 where "RT_THREAD_SUSPEND \<equiv> 2"
abbreviation (input) RT_THREAD_RUNNING :: u8 where "RT_THREAD_RUNNING \<equiv> 3"
abbreviation (input) RT_THREAD_CLOSE :: u8 where "RT_THREAD_CLOSE \<equiv> 4"
abbreviation (input) RT_THREAD_STAT_MASK :: u8 where "RT_THREAD_STAT_MASK \<equiv> 7"
abbreviation (input) RT_THREAD_STAT_YIELD :: u8 where "RT_THREAD_STAT_YIELD \<equiv> 8"

abbreviation (input) tstat :: "kernel \<Rightarrow> tid \<Rightarrow> u8" where
  "tstat k t \<equiv> stat (threads k t) AND 7"

abbreviation (input) prio :: "kernel \<Rightarrow> tid \<Rightarrow> nat" where
  "prio k t \<equiv> unat (current_priority (threads k t))"

definition set_stat :: "u8 \<Rightarrow> rt_thread \<Rightarrow> rt_thread" where
  "set_stat s th = th\<lparr>stat := s OR (stat th AND NOT RT_THREAD_STAT_MASK)\<rparr>"

section \<open>Lists of threads\<close>

text \<open>\<open>rt_list_remove(&thread->tlist)\<close>: a node outside every list points to itself.\<close>

definition list_remove :: "tid \<Rightarrow> kernel \<Rightarrow> kernel" where
  "list_remove t k =
     (case tlist (threads k t) of
        None \<Rightarrow> k
      | Some h \<Rightarrow> (upd_thread t (tlist_update (\<lambda>_. None)) k)
                   \<lparr>lists := (lists k)(h := remove1 t (lists k h))\<rparr>)"

text \<open>
  Linking the node of \<open>t\<close> at position \<open>i\<close> of the list \<open>h\<close>:
  \<open>rt_list_insert_after(head, ...)\<close> is position 0, \<open>rt_list_insert_before(head, ...)\<close>
  is the position after the last member, and \<open>rt_list_insert_before\<close> on the node of a
  member is the position of that member.
\<close>

definition list_insert_at :: "list_head \<Rightarrow> nat \<Rightarrow> tid \<Rightarrow> kernel \<Rightarrow> kernel option" where
  "list_insert_at h i t k =
     do {
       rt_assert (tlist (threads k t) = None);
       Some ((upd_thread t (tlist_update (\<lambda>_. Some h)) k)
             \<lparr>lists := (lists k)(h := insert_at i t (lists k h))\<rparr>)
     }"

definition list_insert_after :: "list_head \<Rightarrow> tid \<Rightarrow> kernel \<Rightarrow> kernel option" where
  "list_insert_after h t k = list_insert_at h 0 t k"

definition list_insert_before :: "list_head \<Rightarrow> tid \<Rightarrow> kernel \<Rightarrow> kernel option" where
  "list_insert_before h t k = list_insert_at h (length (lists k h)) t k"

end
