(* ===== verification/Ffs.thy ===== *)
theory Ffs
  imports Rtt_Prelude
begin

text \<open>
  \<open>__rt_ffs\<close>, the position of the lowest set bit counted from one, in the three versions
  of the source: the Cortex-M4 instructions \<open>RBIT\<close> and \<open>CLZ\<close> of
  \<^verbatim>\<open>libcpu/arm/cortex-m4/cpuport.c\<close> that this configuration uses, and the two
  table driven versions of \<^verbatim>\<open>rt-thread/src/kservice.c\<close>.  The scheduler reads the
  highest ready priority with it.
\<close>

section \<open>The version of the processor\<close>

definition RBIT :: "u32 \<Rightarrow> u32" where
  "RBIT x = horner_sum of_bool 2 (map (\<lambda>i. bit x (31 - i)) [0..<32])"

definition CLZ :: "u32 \<Rightarrow> nat" where
  "CLZ x = length (takeWhile (\<lambda>i. \<not> bit x (31 - i)) [0..<32])"

definition rt_ffs :: "u32 \<Rightarrow> nat" where
  "rt_ffs value = (if value = 0 then 0 else CLZ (RBIT value) + 1)"

section \<open>The versions of the kernel service library\<close>

definition lowest_bit_bitmap_37 :: "nat list" where
  "lowest_bit_bitmap_37 =
     [ 0,  1,  2, 27,  3, 24, 28, 32,
       4, 17, 25, 31, 29, 12, 32, 14,
       5,  8, 18, 32, 26, 23, 32, 16,
      30, 11, 13,  7, 32, 22, 15, 10,
       6, 21,  9, 20, 19]"

definition rt_ffs_tiny :: "u32 \<Rightarrow> nat" where
  "rt_ffs_tiny value = lowest_bit_bitmap_37 ! (unat ((value AND (value - 1)) XOR value) mod 37)"

definition lowest_bit_bitmap_row :: "nat list" where
  "lowest_bit_bitmap_row = [0, 1, 0, 2, 0, 1, 0, 3, 0, 1, 0, 2, 0, 1, 0]"

definition lowest_bit_bitmap :: "nat list" where
  "lowest_bit_bitmap =
     concat (map (\<lambda>hd. hd # lowest_bit_bitmap_row) [0, 4, 5, 4, 6, 4, 5, 4, 7, 4, 5, 4, 6, 4, 5, 4])"

definition rt_ffs_table :: "u32 \<Rightarrow> nat" where
  "rt_ffs_table value =
     (if value = 0 then 0
      else if value AND 0xff \<noteq> 0 then lowest_bit_bitmap ! unat (value AND 0xff) + 1
      else if value AND 0xff00 \<noteq> 0
           then lowest_bit_bitmap ! unat (drop_bit 8 (value AND 0xff00)) + 9
      else if value AND 0xff0000 \<noteq> 0
           then lowest_bit_bitmap ! unat (drop_bit 16 (value AND 0xff0000)) + 17
      else lowest_bit_bitmap ! unat (drop_bit 24 (value AND 0xff000000)) + 25)"

section \<open>The lowest set bit\<close>

lemma bit_horner: "bit (horner_sum of_bool 2 bs :: 'a::len word) n \<longleftrightarrow> n < LENGTH('a) \<and> n < length bs \<and> bs ! n"
  by (simp add: bit_horner_sum_bit_word_iff)

lemma bit_RBIT: "n < 32 \<Longrightarrow> bit (RBIT x) n \<longleftrightarrow> bit x (31 - n)"
  by (simp add: RBIT_def bit_horner)

text \<open>The first position at which a test on positions succeeds.\<close>

lemma takeWhile_first:
  assumes "q < n" "P q" "\<forall>i < q. \<not> P i"
  shows "length (takeWhile (\<lambda>i. \<not> P i) [0..<n]) = q"
proof -
  have "[0..<n] = [0..<q] @ q # [Suc q..<n]"
    using assms(1) by (metis le_add1 less_imp_add_positive upt_add_eq_append upt_conv_Cons zero_le)
  moreover have "takeWhile (\<lambda>i. \<not> P i) ([0..<q] @ q # [Suc q..<n]) = [0..<q]"
    using assms(2,3) by (subst takeWhile_append2) auto
  ultimately show ?thesis by simp
qed

definition lowest_bit :: "u32 \<Rightarrow> nat" where
  "lowest_bit x = (LEAST n. bit x n)"

lemma lowest_bit:
  assumes "x \<noteq> 0"
  shows "bit x (lowest_bit x)" "lowest_bit x < 32" "\<And>n. n < lowest_bit x \<Longrightarrow> \<not> bit x n"
proof -
  from assms obtain n where "bit x n" by (metis bit_eqI bit_0_eq bot_apply bot_bool_def)
  then show b: "bit x (lowest_bit x)" unfolding lowest_bit_def by (rule LeastI)
  then show "lowest_bit x < 32" using bit_imp_le_length [of x "lowest_bit x"] by simp
  show "\<And>n. n < lowest_bit x \<Longrightarrow> \<not> bit x n" unfolding lowest_bit_def by (rule not_less_Least)
qed

lemma lowest_bit_unique:
  assumes "bit x n" "\<forall>m < n. \<not> bit x m"
  shows "lowest_bit x = n"
  unfolding lowest_bit_def using assms by (intro Least_equality) (auto simp: not_le [symmetric])

lemma rt_ffs_lowest_bit: "rt_ffs x = (if x = 0 then 0 else lowest_bit x + 1)"
proof (cases "x = 0")
  case False
  note l = lowest_bit [OF False]
  have "CLZ (RBIT x) = lowest_bit x"
    unfolding CLZ_def
    by (rule takeWhile_first) (use l in \<open>auto simp: bit_RBIT\<close>)
  then show ?thesis using False by (simp add: rt_ffs_def)
qed (simp add: rt_ffs_def)

subsection \<open>The tiny version isolates the bit and hashes it\<close>

lemma isolate_lowest_bit:
  assumes "x \<noteq> 0"
  shows "(x AND (x - 1)) XOR x = push_bit (lowest_bit x) 1"
proof -
  note l = lowest_bit [OF assms]
  define h where "h = x AND NOT (push_bit (lowest_bit x) 1)"
  have bh: "bit h n \<longleftrightarrow> bit x n \<and> lowest_bit x < n" for n
    using l by (cases "n < lowest_bit x"; cases "n = lowest_bit x")
      (auto simp: h_def bit_simps dest: bit_imp_le_length)
  have x: "x = h OR push_bit (lowest_bit x) 1"
    using l by (intro bit_eqI) (auto simp: h_def bit_simps)
  also have "\<dots> = h + push_bit (lowest_bit x) 1"
    by (rule disjunctive_add_eq_or [symmetric], rule bit_eqI) (auto simp: bh bit_simps)
  finally have "x - 1 = h + mask (lowest_bit x)"
    by (simp add: mask_eq_exp_minus_1 push_bit_eq_mult)
  also have "\<dots> = h OR mask (lowest_bit x)"
    by (rule disjunctive_add_eq_or, rule bit_eqI) (auto simp: bh bit_simps)
  finally have "x - 1 = h OR mask (lowest_bit x)" .
  then have "x AND (x - 1) = h"
    using l(3) by (intro bit_eqI) (auto simp: bh bit_simps)
  then show ?thesis
    by (subst (2) x) (intro bit_eqI, auto simp: bh bit_simps)
qed

definition tiny_entry_ok :: "nat \<Rightarrow> bool" where
  "tiny_entry_ok n \<longleftrightarrow> lowest_bit_bitmap_37 ! (2 ^ n mod 37) = n + 1"

lemma unat_2_power: "n < 32 \<Longrightarrow> unat (2 ^ n :: u32) = 2 ^ n"
proof -
  assume "n < 32"
  then have "(2 :: nat) ^ n < 2 ^ 32" by (intro power_strict_increasing) auto
  then show ?thesis using unat_of_nat [of "2 ^ n", where 'a = 32] by (simp add: take_bit_nat_eq_self)
qed

lemma tiny_table: "list_all tiny_entry_ok [2..<32]" "tiny_entry_ok 0" "tiny_entry_ok 1"
  by (simp_all add: tiny_entry_ok_def lowest_bit_bitmap_37_def)

text \<open>From a table of small numerals to a bounded statement.\<close>

lemma list_all_from_2:
  assumes "list_all P [2..<m]" "P 1" "0 < n" "n < m"
  shows "P n"
proof -
  have "\<forall>i \<in> {2..<m}. P i" using assms(1) by (simp only: list_all_iff set_upt)
  with assms(2-) show ?thesis by (cases "n = 1") auto
qed

lemma rt_ffs_tiny_eq: "rt_ffs_tiny x = rt_ffs x"
proof (cases "x = 0")
  case True
  then show ?thesis by (simp add: rt_ffs_tiny_def rt_ffs_def lowest_bit_bitmap_37_def)
next
  case False
  note l = lowest_bit [OF False]
  have "unat (push_bit (lowest_bit x) 1 :: u32) = 2 ^ lowest_bit x"
    using l(2) by (simp add: push_bit_eq_mult unat_2_power)
  moreover have "lowest_bit_bitmap_37 ! (2 ^ lowest_bit x mod 37) = lowest_bit x + 1"
  proof -
    have "tiny_entry_ok (lowest_bit x)"
    proof (cases "lowest_bit x = 0")
      case False
      then show ?thesis by (intro list_all_from_2 [OF tiny_table(1,3) _ l(2)]) simp
    qed (simp only: tiny_table(2))
    then show ?thesis by (simp add: tiny_entry_ok_def)
  qed
  ultimately show ?thesis
    using False
    by (simp only: rt_ffs_tiny_def isolate_lowest_bit [OF False] rt_ffs_lowest_bit if_False)
qed

subsection \<open>The byte table\<close>

definition byte_lowest_bit :: "nat \<Rightarrow> nat" where
  "byte_lowest_bit b =
     (if odd b then 0 else if odd (b div 2) then 1 else if odd (b div 4) then 2
      else if odd (b div 8) then 3 else if odd (b div 16) then 4 else if odd (b div 32) then 5
      else if odd (b div 64) then 6 else 7)"

definition byte_entry_ok :: "nat \<Rightarrow> bool" where
  "byte_entry_ok b \<longleftrightarrow> lowest_bit_bitmap ! b = byte_lowest_bit b"

lemma byte_table: "list_all byte_entry_ok [2..<256]" "byte_entry_ok 1"
  by (simp_all add: byte_entry_ok_def lowest_bit_bitmap_def lowest_bit_bitmap_row_def byte_lowest_bit_def)

lemma byte_table_lookup:
  assumes b: "bit b n" "\<forall>m < n. \<not> bit b m" and "n < 8" "unat (b :: u32) < 256"
  shows "lowest_bit_bitmap ! unat b = n"
proof -
  have d: "odd (unat b div 2 ^ i) \<longleftrightarrow> bit b i" for i
    by (simp add: bit_unsigned_iff possible_bit_def flip: bit_iff_odd)
  have "b \<noteq> 0" using assms(1) by auto
  then have "0 < unat b" by (simp add: unat_gt_0)
  then have "byte_entry_ok (unat b)" by (rule list_all_from_2 [OF byte_table _ assms(4)])
  then have t: "lowest_bit_bitmap ! unat b = byte_lowest_bit (unat b)"
    by (simp only: byte_entry_ok_def)
  have "n = 0 \<or> n = 1 \<or> n = 2 \<or> n = 3 \<or> n = 4 \<or> n = 5 \<or> n = 6 \<or> n = 7"
    using assms(3) by linarith
  moreover have e: "byte_lowest_bit (unat b) =
      (if bit b 0 then 0 else if bit b 1 then 1 else if bit b 2 then 2 else if bit b 3 then 3
       else if bit b 4 then 4 else if bit b 5 then 5 else if bit b 6 then 6 else 7)"
    using d [of 0] d [of 1] d [of 2] d [of 3] d [of 4] d [of 5] d [of 6]
    by (simp add: byte_lowest_bit_def del: bit_0)
  moreover have "n \<le> i" if "bit b i" for i using b(2) that by (meson not_le)
  note this [of 0] this [of 1] this [of 2] this [of 3] this [of 4] this [of 5] this [of 6]
  ultimately show ?thesis using b(1) unfolding t e by (elim disjE) (auto simp del: bit_0)
qed

lemma rt_ffs_table_eq: "rt_ffs_table x = rt_ffs x"
proof (cases "x = 0")
  case False
  note l = lowest_bit [OF False]
  let ?l = "lowest_bit x"
  have z: "x AND push_bit j (mask 8) \<noteq> 0 \<longleftrightarrow> ?l < j + 8" if "\<forall>i < j. \<not> bit x i" "j + 8 \<le> 32" for j
  proof
    assume "x AND push_bit j (mask 8) \<noteq> 0"
    then obtain i where "bit (x AND push_bit j (mask 8)) i" by (metis bit_eqI bit_0_eq bot_apply bot_bool_def)
    then have "bit x i" "i < j + 8" by (auto simp: bit_simps)
    then show "?l < j + 8" using l(3) by (meson le_less_trans not_le)
  next
    assume "?l < j + 8"
    moreover have "j \<le> ?l" using that(1) l(1) by (meson not_le)
    ultimately have "bit (x AND push_bit j (mask 8)) ?l" using l that(2) by (auto simp: bit_simps)
    then show "x AND push_bit j (mask 8) \<noteq> 0" by auto
  qed
  have m: "(0xff :: u32) = push_bit 0 (mask 8)" "(0xff00 :: u32) = push_bit 8 (mask 8)"
    "(0xff0000 :: u32) = push_bit 16 (mask 8)" "(0xff000000 :: u32) = push_bit 24 (mask 8)"
    by (simp_all add: mask_eq_exp_minus_1 push_bit_eq_mult)
  have look: "lowest_bit_bitmap ! unat (drop_bit j (x AND push_bit j (mask 8))) = ?l - j"
    if "j \<le> ?l" "?l < j + 8" "j + 8 \<le> 32" for j
  proof (rule byte_table_lookup)
    let ?b = "drop_bit j (x AND push_bit j (mask 8))"
    show "bit ?b (?l - j)" using that l by (auto simp: bit_simps)
    show "\<forall>i < ?l - j. \<not> bit ?b i" using that l(3) by (auto simp: bit_simps)
    show "?l - j < 8" using that by simp
    have "?b = take_bit 8 ?b" using that by (intro bit_eqI) (auto simp: bit_simps)
    then have "unat ?b = take_bit 8 (unat ?b)" by (metis unsigned_take_bit_eq)
    then show "unat ?b < 256" using take_bit_nat_less_exp [of 8 "unat ?b"] by simp
  qed
  have low: "\<forall>i < j. \<not> bit x i" if "\<not> ?l < j" for j using l(3) that by auto
  have z0: "x AND push_bit 0 (mask 8) \<noteq> 0 \<longleftrightarrow> ?l < 8" using z [of 0] by simp
  have z8: "x AND push_bit 8 (mask 8) \<noteq> 0 \<longleftrightarrow> ?l < 16" if "\<not> ?l < 8" using z [of 8] low [OF that] by simp
  have z16: "x AND push_bit 16 (mask 8) \<noteq> 0 \<longleftrightarrow> ?l < 24" if "\<not> ?l < 16" using z [of 16] low [OF that] by simp
  show ?thesis
    using False l(2) z0 z8 z16 look [of 0] look [of 8] look [of 16] look [of 24]
    unfolding rt_ffs_table_def rt_ffs_lowest_bit m by (auto simp del: push_bit_of_0)
qed (simp add: rt_ffs_table_def rt_ffs_def)

end
