(* ===== verification/Scheduler.thy ===== *)
theory Scheduler
  imports Kernel_State Ffs
begin

text \<open>
  \<^verbatim>\<open>rt-thread/src/scheduler.c\<close> (the variant without \<open>RT_USING_SMP\<close>): the ready
  table of 32 priorities with its bitmap, the choice of the next thread, and the scheduler
  lock.  \<open>rt_hw_context_switch\<close> hands the processor to \<open>rt_current_thread\<close>; in the
  model that is the change of \<open>current\<close>.  The stack overflow check is left out: stacks
  have no content here.
\<close>

section \<open>Operations\<close>

text \<open>\<open>None\<close>: the list of the lowest set bit is empty, or the index leaves the table.\<close>

definition scheduler_get_highest_priority_thread :: "kernel \<Rightarrow> (nat \<times> tid) option" where
  "scheduler_get_highest_priority_thread k =
     (let highest_ready_priority = rt_ffs (ready_group k) - 1 in
      case lists k (Ready highest_ready_priority) of
        [] \<Rightarrow> None
      | t # _ \<Rightarrow> Some (highest_ready_priority, t))"

definition rt_system_scheduler_init :: "kernel \<Rightarrow> kernel" where
  "rt_system_scheduler_init k =
     k\<lparr>lock_nest := 0,
       lists := (\<lambda>h. case h of Ready p \<Rightarrow> [] | _ \<Rightarrow> lists k h),
       ready_group := 0\<rparr>"

definition rt_schedule_insert_thread :: "tid \<Rightarrow> kernel \<Rightarrow> kernel option" where
  "rt_schedule_insert_thread t k =
     (if current k = Some t then Some (upd_thread t (set_stat RT_THREAD_RUNNING) k)
      else
        do {
          let k1 = upd_thread t (set_stat RT_THREAD_READY) k;
          rt_assert (prio k1 t < 32);
          k2 \<leftarrow> list_insert_before (Ready (prio k1 t)) t k1;
          Some (k2\<lparr>ready_group := ready_group k2 OR number_mask (threads k2 t)\<rparr>)
        })"

definition rt_schedule_remove_thread :: "tid \<Rightarrow> kernel \<Rightarrow> kernel option" where
  "rt_schedule_remove_thread t k =
     do {
       let k1 = list_remove t k;
       rt_assert (prio k1 t < 32);
       (if lists k1 (Ready (prio k1 t)) = []
        then Some (k1\<lparr>ready_group := ready_group k1 AND NOT (number_mask (threads k1 t))\<rparr>)
        else Some k1)
     }"

definition rt_system_scheduler_start :: "kernel \<Rightarrow> kernel option" where
  "rt_system_scheduler_start k =
     do {
       (hp, to) \<leftarrow> scheduler_get_highest_priority_thread k;
       let k1 = k\<lparr>current := Some to\<rparr>;
       k2 \<leftarrow> rt_schedule_remove_thread to k1;
       Some (upd_thread to (\<lambda>th. th\<lparr>stat := RT_THREAD_RUNNING\<rparr>) k2)
     }"

definition rt_schedule :: "kernel \<Rightarrow> kernel option" where
  "rt_schedule k =
     (if lock_nest k = 0 \<and> ready_group k \<noteq> 0 then
        do {
          (hp, first) \<leftarrow> scheduler_get_highest_priority_thread k;
          cur \<leftarrow> current k;
          let running = (tstat k cur = RT_THREAD_RUNNING);
          let keep = (running \<and>
                      (prio k cur < hp \<or>
                       prio k cur = hp \<and> stat (threads k cur) AND RT_THREAD_STAT_YIELD = 0));
          let to = (if keep then cur else first);
          let need_insert_from_thread = (running \<and> \<not> keep);
          let k1 = (if running
                    then upd_thread cur (\<lambda>th. th\<lparr>stat := stat th AND NOT RT_THREAD_STAT_YIELD\<rparr>) k
                    else k);
          (if to \<noteq> cur then
             do {
               let k2 = k1\<lparr>cur_priority := of_nat hp, current := Some to\<rparr>;
               k3 \<leftarrow> (if need_insert_from_thread then rt_schedule_insert_thread cur k2 else Some k2);
               k4 \<leftarrow> rt_schedule_remove_thread to k3;
               Some (upd_thread to (set_stat RT_THREAD_RUNNING) k4)
             }
           else
             do {
               k2 \<leftarrow> rt_schedule_remove_thread cur k1;
               Some (upd_thread cur (set_stat RT_THREAD_RUNNING) k2)
             })
        }
      else Some k)"

definition rt_enter_critical :: "kernel \<Rightarrow> kernel" where
  "rt_enter_critical k = k\<lparr>lock_nest := lock_nest k + 1\<rparr>"

definition rt_exit_critical :: "kernel \<Rightarrow> kernel option" where
  "rt_exit_critical k =
     (let k1 = k\<lparr>lock_nest := lock_nest k - 1\<rparr> in
      if sint (lock_nest k1) \<le> 0 then
        let k2 = k1\<lparr>lock_nest := 0\<rparr> in
        (if current k2 \<noteq> None then rt_schedule k2 else Some k2)
      else Some k1)"

definition rt_critical_level :: "kernel \<Rightarrow> u16" where
  "rt_critical_level k = lock_nest k"

section \<open>The scheduler invariant\<close>

text \<open>
  Three parts.  \<open>linked_ok\<close>: a node knows its list and occurs in it once, so no thread
  is in two lists.  \<open>group_ok\<close>: the bitmap describes which ready lists have members.
  \<open>thread_ok\<close>, for one thread: its status agrees with the list it is in, a started
  thread has a legal priority and the matching mask, and only the current thread is
  running.  Within an operation single threads are out of order for a moment; the
  invariant takes the set of these threads as an argument.
\<close>

definition linked_ok :: "kernel \<Rightarrow> bool" where
  "linked_ok k \<longleftrightarrow>
     (\<forall>h t. t \<in> set (lists k h) \<longleftrightarrow> tlist (threads k t) = Some h) \<and>
     (\<forall>h. distinct (lists k h))"

definition group_ok :: "kernel \<Rightarrow> bool" where
  "group_ok k \<longleftrightarrow> (\<forall>p. bit (ready_group k) p \<longleftrightarrow> lists k (Ready p) \<noteq> [])"

definition prio_ok :: "rt_thread \<Rightarrow> bool" where
  "prio_ok th \<longleftrightarrow>
     unat (current_priority th) < 32 \<and>
     number_mask th = 2 ^ unat (current_priority th)"

fun link_stat :: "list_head option \<Rightarrow> u8 \<Rightarrow> nat \<Rightarrow> bool" where
  "link_stat None s p \<longleftrightarrow> s \<noteq> RT_THREAD_READY"
| "link_stat (Some (Ready q)) s p \<longleftrightarrow> s = RT_THREAD_READY \<and> q = p"
| "link_stat (Some (Suspended_on r)) s p \<longleftrightarrow> s = RT_THREAD_SUSPEND"
| "link_stat (Some (Senders_of r)) s p \<longleftrightarrow> s = RT_THREAD_SUSPEND"
| "link_stat (Some Defunct) s p \<longleftrightarrow> s = RT_THREAD_CLOSE"

definition stat_ok :: "rt_thread \<Rightarrow> bool" where
  "stat_ok th \<longleftrightarrow> link_stat (tlist th) (stat th AND 7) (unat (current_priority th))"

definition thread_ok :: "tid option \<Rightarrow> tid \<Rightarrow> rt_thread \<Rightarrow> bool" where
  "thread_ok cur t th \<longleftrightarrow>
     stat_ok th \<and>
     (stat th AND 7 \<in> {RT_THREAD_READY, RT_THREAD_SUSPEND, RT_THREAD_RUNNING} \<longrightarrow> prio_ok th) \<and>
     (stat th AND 7 = RT_THREAD_RUNNING \<longrightarrow> cur = Some t) \<and>
     (cur = Some t \<longrightarrow> stat th AND 7 \<in> {RT_THREAD_SUSPEND, RT_THREAD_RUNNING, RT_THREAD_CLOSE})"

definition kinv_except :: "tid set \<Rightarrow> kernel \<Rightarrow> bool" where
  "kinv_except S k \<longleftrightarrow>
     linked_ok k \<and> group_ok k \<and> (\<forall>t. t \<notin> S \<longrightarrow> thread_ok (current k) t (threads k t))"

abbreviation kinv :: "kernel \<Rightarrow> bool" where
  "kinv \<equiv> kinv_except {}"

section \<open>Words of the status byte\<close>

lemma stat_mask [simp]: "((s OR (x AND -8)) AND 7 :: u8) = s AND 7"
  by (simp add: bit.conj_disj_distrib2 and.assoc)

lemma clear_yield_mask [simp]: "((x AND -9) AND 7 :: u8) = x AND 7"
  by (simp add: and.assoc)

lemma set_yield_mask [simp]: "((x OR 8) AND 7 :: u8) = x AND 7"
  by (simp add: bit.conj_disj_distrib2)

lemma set_stat_simps [simp]:
  "tlist (set_stat s th) = tlist th" "current_priority (set_stat s th) = current_priority th"
  "number_mask (set_stat s th) = number_mask th" "thread_error (set_stat s th) = thread_error th"
  "stat (set_stat s th) AND 7 = s AND 7"
  "prio_ok (set_stat s th) = prio_ok th"
  by (simp_all add: set_stat_def prio_ok_def)

lemma bit_mask_bit: "bit (x OR 2 ^ p :: u32) q \<longleftrightarrow> bit x q \<or> q = p \<and> p < 32"
  by (auto simp: bit_simps)

lemma bit_unmask_bit: "bit (x AND NOT (2 ^ p) :: u32) q \<longleftrightarrow> bit x q \<and> q \<noteq> p"
  by (auto simp: bit_simps dest: bit_imp_le_length)

section \<open>Lists\<close>

lemma tlist_update_triv: "tlist th = x \<Longrightarrow> th\<lparr>tlist := x\<rparr> = th"
  by (cases th) simp

lemma list_remove_frame [kframe, simp]:
  "current (list_remove t k) = current k" "ready_group (list_remove t k) = ready_group k"
  "objs (list_remove t k) = objs k" "lock_nest (list_remove t k) = lock_nest k"
  by (simp_all add: list_remove_def split: option.splits)

lemma list_remove_thread:
  "threads (list_remove t k) u = (if u = t then (threads k t)\<lparr>tlist := None\<rparr> else threads k u)"
  by (simp add: list_remove_def split: option.splits)

lemma list_remove_lists:
  assumes "linked_ok k"
  shows "lists (list_remove t k) h = remove1 t (lists k h)"
  using assms by (auto simp: list_remove_def linked_ok_def remove1_idem split: option.splits)

lemma linked_ok_remove: "linked_ok k \<Longrightarrow> linked_ok (list_remove t k)"
  using list_remove_lists [of k t]
  by (auto simp: linked_ok_def list_remove_thread)

lemma linked_ok_insert:
  assumes "linked_ok k" "list_insert_at h i t k = Some k'"
  shows "linked_ok k'"
proof -
  from assms(2) have n: "tlist (threads k t) = None"
    and k': "k' = (upd_thread t (tlist_update (\<lambda>_. Some h)) k)
             \<lparr>lists := (lists k)(h := insert_at i t (lists k h))\<rparr>"
    by (auto simp: list_insert_at_def)
  from assms(1) n have "t \<notin> set (lists k h)" by (auto simp: linked_ok_def)
  with assms(1) n show ?thesis
    unfolding linked_ok_def k' by auto
qed

section \<open>Using the invariant\<close>

lemma kinv_close:
  "kinv_except (insert t S) k \<Longrightarrow> thread_ok (current k) t (threads k t) \<Longrightarrow> kinv_except S k"
  by (auto simp: kinv_except_def)

lemma kinv_mono: "kinv_except S k \<Longrightarrow> S \<subseteq> T \<Longrightarrow> kinv_except T k"
  by (auto simp: kinv_except_def)

lemma kinv_cong:
  assumes "threads k' = threads k" "lists k' = lists k" "ready_group k' = ready_group k"
    "current k' = current k"
  shows "kinv_except S k' \<longleftrightarrow> kinv_except S k"
  by (simp add: kinv_except_def linked_ok_def group_ok_def assms)

lemma kinv_upd_thread:
  assumes "kinv_except S k" "tlist (f (threads k t)) = tlist (threads k t)"
  shows "kinv_except (insert t S) (upd_thread t f k)"
  using assms by (auto simp: kinv_except_def linked_ok_def group_ok_def)

lemma thread_ok_cong:
  assumes "tlist th' = tlist th" "stat th' AND 7 = stat th AND 7"
    "current_priority th' = current_priority th" "number_mask th' = number_mask th"
  shows "thread_ok cur t th' \<longleftrightarrow> thread_ok cur t th"
  using assms by (simp add: thread_ok_def stat_ok_def prio_ok_def)

text \<open>Updates of fields the invariant does not read.\<close>

lemma kinv_upd_neutral:
  assumes "kinv_except S k" "tlist (f (threads k t)) = tlist (threads k t)"
    "stat (f (threads k t)) AND 7 = tstat k t"
    "current_priority (f (threads k t)) = current_priority (threads k t)"
    "number_mask (f (threads k t)) = number_mask (threads k t)"
  shows "kinv_except S (upd_thread t f k)"
  using assms thread_ok_cong [OF assms(2-5)]
  by (auto simp: kinv_except_def linked_ok_def group_ok_def)

lemma kinv_thread: "kinv_except S k \<Longrightarrow> t \<notin> S \<Longrightarrow> thread_ok (current k) t (threads k t)"
  by (simp add: kinv_except_def)

lemma kinv_linked: "kinv_except S k \<Longrightarrow> linked_ok k"
  by (simp add: kinv_except_def)

lemma linked_in: "linked_ok k \<Longrightarrow> t \<in> set (lists k h) \<longleftrightarrow> tlist (threads k t) = Some h"
  by (simp add: linked_ok_def)

lemma stat_ok_ready:
  "stat_ok th \<Longrightarrow> tlist th = Some (Ready p) \<Longrightarrow> stat th AND 7 = RT_THREAD_READY \<and> p = unat (current_priority th)"
  by (simp add: stat_ok_def)

lemma running_unlinked:
  "thread_ok cur t th \<Longrightarrow> stat th AND 7 = RT_THREAD_RUNNING \<Longrightarrow> tlist th = None \<and> prio_ok th \<and> cur = Some t"
  by (auto simp: thread_ok_def stat_ok_def elim: link_stat.elims)

section \<open>The ready table\<close>

lemma remove_thread_eq:
  assumes "linked_ok k" "prio k t < 32"
  shows "rt_schedule_remove_thread t k =
    Some (k\<lparr>threads := (threads k)(t := (threads k t)\<lparr>tlist := None\<rparr>),
            lists := (\<lambda>h. remove1 t (lists k h)),
            ready_group := (if remove1 t (lists k (Ready (prio k t))) = []
              then ready_group k AND NOT (number_mask (threads k t)) else ready_group k)\<rparr>)"
proof -
  have r: "list_remove t k = k\<lparr>threads := (threads k)(t := (threads k t)\<lparr>tlist := None\<rparr>),
            lists := (\<lambda>h. remove1 t (lists k h))\<rparr>"
  proof (cases "tlist (threads k t)")
    case None
    then have "(\<lambda>h. remove1 t (lists k h)) = lists k"
      using assms(1) by (auto simp: linked_ok_def remove1_idem)
    then show ?thesis using None by (simp add: list_remove_def tlist_update_triv)
  next
    case (Some h)
    then have "(lists k)(h := remove1 t (lists k h)) = (\<lambda>h. remove1 t (lists k h))"
      using assms(1) by (auto simp: linked_ok_def remove1_idem)
    then show ?thesis using Some by (simp add: list_remove_def)
  qed
  show ?thesis using assms(2) by (simp add: rt_schedule_remove_thread_def Let_def r)
qed

lemma insert_thread_eq:
  assumes "current k \<noteq> Some t" "tlist (threads k t) = None" "prio k t < 32"
  shows "rt_schedule_insert_thread t k =
    Some (k\<lparr>threads := (threads k)(t := (set_stat RT_THREAD_READY (threads k t))\<lparr>tlist := Some (Ready (prio k t))\<rparr>),
            lists := (lists k)(Ready (prio k t) := lists k (Ready (prio k t)) @ [t]),
            ready_group := ready_group k OR number_mask (threads k t)\<rparr>)"
  using assms
  by (simp add: rt_schedule_insert_thread_def Let_def list_insert_before_def list_insert_at_def)

lemma remove_thread_kinv:
  assumes "kinv_except S k" "stat_ok (threads k t)" "prio_ok (threads k t)"
    "rt_schedule_remove_thread t k = Some k'"
  shows "kinv_except (insert t S) k'"
proof -
  let ?p = "prio k t"
  have l: "linked_ok k" and g: "group_ok k" using assms(1) by (auto simp: kinv_except_def)
  have p: "?p < 32" "number_mask (threads k t) = 2 ^ ?p"
    using assms(3) by (auto simp: prio_ok_def)
  have k': "k' = k\<lparr>threads := (threads k)(t := (threads k t)\<lparr>tlist := None\<rparr>),
            lists := (\<lambda>h. remove1 t (lists k h)),
            ready_group := (if remove1 t (lists k (Ready ?p)) = []
              then ready_group k AND NOT (2 ^ ?p) else ready_group k)\<rparr>"
    using assms(4) unfolding remove_thread_eq [OF l p(1)] p(2) by simp
  have "linked_ok k'" using l by (auto simp: linked_ok_def k')
  moreover have "remove1 t (lists k (Ready q)) = lists k (Ready q)" if "q \<noteq> ?p" for q
    using assms(2) linked_in [OF l] that by (intro remove1_idem) (auto dest: stat_ok_ready)
  then have "bit (ready_group k') q \<longleftrightarrow> lists k' (Ready q) \<noteq> []" for q
    using g by (cases "q = ?p") (auto simp: group_ok_def k' bit_unmask_bit)
  then have "group_ok k'" by (simp add: group_ok_def)
  ultimately show ?thesis using assms(1) by (auto simp: kinv_except_def k')
qed

lemma insert_thread_kinv:
  assumes "kinv_except S k" "tlist (threads k t) = None" "prio_ok (threads k t)"
  shows "\<exists>k'. rt_schedule_insert_thread t k = Some k' \<and> kinv_except (S - {t}) k'"
proof (cases "current k = Some t")
  case True
  let ?k = "upd_thread t (set_stat RT_THREAD_RUNNING) k"
  have "kinv_except (insert t S) ?k" using kinv_upd_thread [OF assms(1)] by simp
  then have "kinv_except (insert t (S - {t})) ?k" by simp
  moreover have "thread_ok (current ?k) t (threads ?k t)"
    using True assms by (simp add: thread_ok_def stat_ok_def)
  ultimately have "kinv_except (S - {t}) ?k" by (rule kinv_close)
  then show ?thesis using True by (simp add: rt_schedule_insert_thread_def)
next
  case False
  let ?p = "prio k t"
  have l: "linked_ok k" and g: "group_ok k" using assms(1) by (auto simp: kinv_except_def)
  have p: "?p < 32" "number_mask (threads k t) = 2 ^ ?p"
    using assms(3) by (auto simp: prio_ok_def)
  let ?k = "k\<lparr>threads := (threads k)(t := (set_stat RT_THREAD_READY (threads k t))\<lparr>tlist := Some (Ready ?p)\<rparr>),
            lists := (lists k)(Ready ?p := lists k (Ready ?p) @ [t]),
            ready_group := ready_group k OR 2 ^ ?p\<rparr>"
  have "t \<notin> set (lists k h)" for h using l assms(2) by (simp add: linked_ok_def)
  then have "linked_ok ?k" using l assms(2) by (auto simp: linked_ok_def)
  moreover have "group_ok ?k" using g p(1) by (auto simp: group_ok_def bit_mask_bit)
  moreover have "thread_ok (current ?k) t (threads ?k t)"
    using False assms by (simp add: thread_ok_def stat_ok_def prio_ok_def set_stat_def)
  ultimately have "kinv_except (S - {t}) ?k" using assms(1) by (auto simp: kinv_except_def)
  then show ?thesis using insert_thread_eq [OF False assms(2) p(1)] unfolding p(2) by blast
qed

section \<open>The choice of the next thread\<close>

lemma group_nonzero: "group_ok k \<Longrightarrow> ready_group k \<noteq> 0 \<longleftrightarrow> (\<exists>p. lists k (Ready p) \<noteq> [])"
  using lowest_bit(1) [of "ready_group k"] by (auto simp: group_ok_def)

text \<open>The first thread of the best priority that has a ready thread.\<close>

lemma highest_thread:
  assumes k: "kinv_except S k" and r: "ready_group k \<noteq> 0"
  shows "\<exists>p t ts. scheduler_get_highest_priority_thread k = Some (p, t) \<and> p < 32 \<and>
           lists k (Ready p) = t # ts \<and> (\<forall>q. lists k (Ready q) \<noteq> [] \<longrightarrow> p \<le> q)"
proof -
  let ?p = "lowest_bit (ready_group k)"
  note l = lowest_bit [OF r]
  have g: "group_ok k" using k by (simp add: kinv_except_def)
  then obtain t ts where "lists k (Ready ?p) = t # ts"
    using l(1) by (auto simp: group_ok_def neq_Nil_conv)
  moreover have "?p \<le> q" if "lists k (Ready q) \<noteq> []" for q
    using g l(3) [of q] that by (meson group_ok_def not_le)
  ultimately show ?thesis
    using l(2) r by (simp add: scheduler_get_highest_priority_thread_def rt_ffs_lowest_bit)
qed

lemma ready_member:
  assumes "kinv_except S k" "t \<in> set (lists k (Ready p))" "t \<notin> S"
  shows "tlist (threads k t) = Some (Ready p)" "prio k t = p" "tstat k t = RT_THREAD_READY"
    "prio_ok (threads k t)" "current k \<noteq> Some t" "stat_ok (threads k t)"
proof -
  have th: "thread_ok (current k) t (threads k t)" using assms kinv_thread by blast
  show tl: "tlist (threads k t) = Some (Ready p)" using assms linked_in [OF kinv_linked] by blast
  with th show "prio k t = p" "tstat k t = RT_THREAD_READY" "stat_ok (threads k t)"
    by (auto simp: thread_ok_def dest: stat_ok_ready)
  with th show "prio_ok (threads k t)" "current k \<noteq> Some t" by (auto simp: thread_ok_def)
qed

text \<open>Giving the processor to a thread that is out of order but unlinked.\<close>

lemma set_running_kinv:
  assumes "kinv_except (insert t S) k" "current k = Some t" "tlist (threads k t) = None"
    "prio_ok (threads k t)"
  shows "kinv_except S (upd_thread t (set_stat RT_THREAD_RUNNING) k)"
proof (rule kinv_close)
  show "kinv_except (insert t S) (upd_thread t (set_stat RT_THREAD_RUNNING) k)"
    using kinv_upd_thread [OF assms(1), of "set_stat 3" t] by simp
qed (use assms in \<open>simp add: thread_ok_def stat_ok_def\<close>)

text \<open>The change of the current thread; the old one is queued if it could go on.\<close>

lemma switch_kinv:
  assumes k: "kinv k" and cur: "current k = Some c" and t: "t \<in> set (lists k (Ready p))"
    and run: "running \<longleftrightarrow> tstat k c = RT_THREAD_RUNNING"
  shows "\<exists>k3 k4. (if running then rt_schedule_insert_thread c (k\<lparr>cur_priority := q, current := Some t\<rparr>)
                 else Some (k\<lparr>cur_priority := q, current := Some t\<rparr>)) = Some k3 \<and>
           rt_schedule_remove_thread t k3 = Some k4 \<and>
           kinv (upd_thread t (set_stat RT_THREAD_RUNNING) k4) \<and> current k4 = Some t \<and>
           linked_ok k3 \<and> threads k3 t = threads k t"
proof -
  let ?k2 = "k\<lparr>cur_priority := q, current := Some t\<rparr>"
  note tm = ready_member [OF k t, simplified]
  have ct: "t \<noteq> c" using tm cur by auto
  have cok: "thread_ok (current k) c (threads k c)" using kinv_thread [OF k] by simp
  have "kinv_except {c, t} ?k2"
    using k unfolding kinv_except_def linked_ok_def group_ok_def
    by (auto simp: thread_ok_def cur)
  moreover have "thread_ok (Some t) c (threads k c)" if "\<not> running"
    using cok that ct run by (auto simp: thread_ok_def cur)
  ultimately have nr: "kinv_except {t} ?k2" if "\<not> running"
    using kinv_close [of c "{t}" ?k2] that by simp
  define k3 where "k3 = the (if running then rt_schedule_insert_thread c ?k2 else Some ?k2)"
  have k3: "(if running then rt_schedule_insert_thread c ?k2 else Some ?k2) = Some k3"
    "kinv_except {t} k3" "current k3 = Some t" "threads k3 t = threads k t"
  proof -
    have "\<exists>k3. (if running then rt_schedule_insert_thread c ?k2 else Some ?k2) = Some k3 \<and>
        kinv_except {t} k3 \<and> current k3 = Some t \<and> threads k3 t = threads k t"
    proof (cases running)
      case True
      then have c: "tlist (threads k c) = None" "prio_ok (threads k c)"
        using cok run by (auto dest: running_unlinked)
      have *: "rt_schedule_insert_thread c ?k2 = Some k3 \<Longrightarrow> current k3 = Some t \<and> threads k3 t = threads k t" for k3
        using insert_thread_eq [of ?k2 c] c ct by (auto simp: prio_ok_def)
      have "{c, t} - {c} = {t}" using ct by auto
      with insert_thread_kinv [OF \<open>kinv_except {c, t} ?k2\<close>, of c] c True * show ?thesis by auto
    qed (use nr in auto)
    then show "(if running then rt_schedule_insert_thread c ?k2 else Some ?k2) = Some k3"
      "kinv_except {t} k3" "current k3 = Some t" "threads k3 t = threads k t"
      by (auto simp: k3_def)
  qed
  have "prio k3 t < 32" using k3(4) tm(4) by (simp add: prio_ok_def)
  then obtain k4 where k4: "rt_schedule_remove_thread t k3 = Some k4"
      "current k4 = Some t" "tlist (threads k4 t) = None" "prio_ok (threads k4 t)"
    using remove_thread_eq [OF kinv_linked [OF k3(2)], of t] k3(3,4) tm(4) by (auto simp: prio_ok_def)
  have "kinv_except {t} k4"
    using remove_thread_kinv [OF k3(2) _ _ k4(1)] k3(4) tm(4,6) by simp
  with k4 have "kinv (upd_thread t (set_stat RT_THREAD_RUNNING) k4)" by (intro set_running_kinv)
  with k3 k4 kinv_linked show ?thesis by blast
qed

section \<open>What rescheduling changes\<close>

text \<open>
  Rescheduling moves runnable threads between the processor and the ready table; waiting
  threads, the objects, the timers and every other part of the state stay as they are.
\<close>

definition runnable :: "kernel \<Rightarrow> tid \<Rightarrow> bool" where
  "runnable k t \<longleftrightarrow> tstat k t = RT_THREAD_READY \<or> tstat k t = RT_THREAD_RUNNING"

definition sched_rel :: "kernel \<Rightarrow> kernel \<Rightarrow> bool" where
  "sched_rel k k' \<longleftrightarrow>
     k' = k\<lparr>threads := threads k', lists := lists k', ready_group := ready_group k',
            current := current k', cur_priority := cur_priority k'\<rparr> \<and>
     (\<forall>h. (\<forall>p. h \<noteq> Ready p) \<longrightarrow> lists k' h = lists k h) \<and>
     (\<forall>t. threads k' t = (threads k t)\<lparr>stat := stat (threads k' t), tlist := tlist (threads k' t)\<rparr>) \<and>
     (\<forall>t. \<not> runnable k t \<longrightarrow> threads k' t = threads k t) \<and>
     (\<forall>t. runnable k t \<longrightarrow> runnable k' t)"

lemma sched_rel_refl [simp]: "sched_rel k k"
  by (simp add: sched_rel_def)

lemma sched_rel_frame:
  assumes "sched_rel k k'"
  shows "timers k' = timers k" "objs k' = objs k" "containers k' = containers k"
    "lock_nest k' = lock_nest k" "irq_nest k' = irq_nest k" "tick k' = tick k"
    "timer_list k' = timer_list k" "fired_list k' = fired_list k" "saved k' = saved k"
    "sems k' = sems k" "mutexes k' = mutexes k" "events k' = events k"
    "mailboxes k' = mailboxes k" "queues k' = queues k" "pools k' = pools k" "devipc k' = devipc k"
proof -
  obtain t l g c p where k': "k' = k\<lparr>threads := t, lists := l, ready_group := g, current := c, cur_priority := p\<rparr>"
    using assms unfolding sched_rel_def by blast
  show "timers k' = timers k" "objs k' = objs k" "containers k' = containers k"
    "lock_nest k' = lock_nest k" "irq_nest k' = irq_nest k" "tick k' = tick k"
    "timer_list k' = timer_list k" "fired_list k' = fired_list k" "saved k' = saved k"
    "sems k' = sems k" "mutexes k' = mutexes k" "events k' = events k"
    "mailboxes k' = mailboxes k" "queues k' = queues k" "pools k' = pools k" "devipc k' = devipc k"
    by (simp_all add: k')
qed

lemma sched_rel_lists:
  assumes "sched_rel k k'"
  shows "lists k' (Suspended_on r) = lists k (Suspended_on r)"
    "lists k' (Senders_of r) = lists k (Senders_of r)" "lists k' Defunct = lists k Defunct"
  using assms by (simp_all add: sched_rel_def)

lemma sched_rel_thread:
  assumes "sched_rel k k'"
  shows "current_priority (threads k' t) = current_priority (threads k t)"
    "number_mask (threads k' t) = number_mask (threads k t)"
    "thread_error (threads k' t) = thread_error (threads k t)"
    "event_set (threads k' t) = event_set (threads k t)"
    "event_info (threads k' t) = event_info (threads k t)"
    "thread_init_tick (threads k' t) = thread_init_tick (threads k t)"
    "remaining_tick (threads k' t) = remaining_tick (threads k t)"
proof -
  obtain s l where k': "threads k' t = (threads k t)\<lparr>stat := s, tlist := l\<rparr>"
    using assms unfolding sched_rel_def by blast
  show "current_priority (threads k' t) = current_priority (threads k t)"
    "number_mask (threads k' t) = number_mask (threads k t)"
    "thread_error (threads k' t) = thread_error (threads k t)"
    "event_set (threads k' t) = event_set (threads k t)"
    "event_info (threads k' t) = event_info (threads k t)"
    "thread_init_tick (threads k' t) = thread_init_tick (threads k t)"
    "remaining_tick (threads k' t) = remaining_tick (threads k t)"
    by (simp_all add: k')
qed

text \<open>The two outcomes of \<open>rt_schedule\<close> in an unlocked scheduler with ready threads.\<close>

lemma rt_schedule_keep:
  assumes k: "kinv k" and c: "current k = Some c" and l: "lock_nest k = 0"
    and h: "ready_group k \<noteq> 0" "scheduler_get_highest_priority_thread k = Some (p, f)"
    and r: "tstat k c = RT_THREAD_RUNNING"
    and keep: "prio k c < p \<or> prio k c = p \<and> stat (threads k c) AND RT_THREAD_STAT_YIELD = 0"
  shows "rt_schedule k = Some (upd_thread c (\<lambda>th. set_stat RT_THREAD_RUNNING
             (th\<lparr>stat := stat th AND NOT RT_THREAD_STAT_YIELD\<rparr>)) k)"
proof -
  let ?k1 = "upd_thread c (\<lambda>th. th\<lparr>stat := stat th AND NOT RT_THREAD_STAT_YIELD\<rparr>) k"
  have cok: "tlist (threads k c) = None" "prio_ok (threads k c)"
    using kinv_thread [OF k, of c] r by (auto dest: running_unlinked)
  have lk: "linked_ok ?k1" using kinv_linked [OF k] by (simp add: linked_ok_def)
  have un: "(\<lambda>h. remove1 c (lists k h)) = lists k"
    using kinv_linked [OF k] cok by (auto simp: linked_ok_def remove1_idem)
  have g: "ready_group k AND NOT (2 ^ prio k c) = ready_group k" if "lists k (Ready (prio k c)) = []"
  proof -
    have "\<not> bit (ready_group k) (prio k c)" using k that by (auto simp: kinv_except_def group_ok_def)
    then show ?thesis by (intro bit_eqI) (auto simp: bit_unmask_bit)
  qed
  have "prio ?k1 c < 32" using cok by (simp add: prio_ok_def)
  then have "rt_schedule_remove_thread c ?k1 = Some ?k1"
    using remove_thread_eq [OF lk, of c] cok g un
    by (simp add: prio_ok_def tlist_update_triv cong: if_cong) (auto simp: fun_eq_iff)
  then show ?thesis using c l h r keep by (simp add: rt_schedule_def Let_def)
qed

lemma sched_rel_trans:
  assumes a: "sched_rel k k'" and b: "sched_rel k' k''"
  shows "sched_rel k k''"
proof -
  have "threads k'' t = threads k t" if "\<not> runnable k t" for t
  proof -
    have 1: "threads k' t = threads k t" using a that by (simp add: sched_rel_def)
    then have "\<not> runnable k' t" using that by (simp add: runnable_def)
    then have "threads k'' t = threads k' t" using b by (simp add: sched_rel_def)
    with 1 show ?thesis by simp
  qed
  moreover have "runnable k'' t" if "runnable k t" for t
    using a b that by (simp add: sched_rel_def)
  moreover have "threads k'' t = (threads k t)\<lparr>stat := stat (threads k'' t), tlist := tlist (threads k'' t)\<rparr>" for t
  proof -
    obtain s l where 1: "threads k' t = (threads k t)\<lparr>stat := s, tlist := l\<rparr>"
      using a unfolding sched_rel_def by blast
    obtain s' l' where 2: "threads k'' t = (threads k' t)\<lparr>stat := s', tlist := l'\<rparr>"
      using b unfolding sched_rel_def by blast
    show ?thesis unfolding 2 unfolding 1 by simp
  qed
  moreover have "lists k'' h = lists k h" if "\<forall>p. h \<noteq> Ready p" for h
    using a b that by (simp add: sched_rel_def)
  moreover have "k'' = k\<lparr>threads := threads k'', lists := lists k'', ready_group := ready_group k'',
            current := current k'', cur_priority := cur_priority k''\<rparr>"
  proof -
    obtain t l g c p where 1: "k' = k\<lparr>threads := t, lists := l, ready_group := g, current := c, cur_priority := p\<rparr>"
      using a unfolding sched_rel_def by blast
    obtain t l g c p where 2: "k'' = k'\<lparr>threads := t, lists := l, ready_group := g, current := c, cur_priority := p\<rparr>"
      using b unfolding sched_rel_def by blast
    show ?thesis unfolding 2 unfolding 1 by simp
  qed
  ultimately show ?thesis unfolding sched_rel_def by blast
qed

lemma sched_rel_upd:
  assumes "runnable k t" "runnable (upd_thread t f k) t"
    "f (threads k t) = (threads k t)\<lparr>stat := stat (f (threads k t)), tlist := tlist (f (threads k t))\<rparr>"
  shows "sched_rel k (upd_thread t f k)"
  using assms by (auto simp: sched_rel_def runnable_def)

lemma sched_rel_insert:
  assumes "rt_schedule_insert_thread t k = Some k'" "runnable k t"
  shows "sched_rel k k'"
proof (cases "current k = Some t")
  case True
  then show ?thesis using assms sched_rel_upd [of k t "set_stat 3"]
    by (auto simp: rt_schedule_insert_thread_def runnable_def set_stat_def)
next
  case False
  then have "tlist (threads k t) = None" "prio k t < 32"
    using assms(1)
    by (auto simp: rt_schedule_insert_thread_def list_insert_before_def list_insert_at_def Let_def)
  with insert_thread_eq [OF False] assms show ?thesis
    by (auto simp: sched_rel_def runnable_def set_stat_def split: if_splits)
qed

lemma sched_rel_run:
  assumes "rt_schedule_remove_thread t k = Some k'" "runnable k t" "linked_ok k"
    "tlist (threads k t) = Some (Ready p)"
  shows "sched_rel k (upd_thread t (set_stat RT_THREAD_RUNNING) k')"
proof -
  have "prio k t < 32"
    using assms(1) by (auto simp: rt_schedule_remove_thread_def Let_def list_remove_thread)
  with remove_thread_eq [OF assms(3)] assms(1) obtain g where
    k': "k' = k\<lparr>threads := (threads k)(t := (threads k t)\<lparr>tlist := None\<rparr>),
            lists := (\<lambda>h. remove1 t (lists k h)), ready_group := g\<rparr>"
    by auto
  have "remove1 t (lists k h) = lists k h" if "h \<noteq> Ready p" for h
    using linked_in [OF assms(3)] assms(4) that by (intro remove1_idem) auto
  then show ?thesis using assms(2)
    by (auto simp: k' sched_rel_def runnable_def set_stat_def)
qed

lemma sched_rel_current: "sched_rel k (k\<lparr>cur_priority := q, current := c\<rparr>)"
  by (simp add: sched_rel_def runnable_def)

lemma rt_schedule_switch:
  assumes k: "kinv k" and c: "current k = Some c" and l: "lock_nest k = 0"
    and h: "ready_group k \<noteq> 0" "scheduler_get_highest_priority_thread k = Some (p, f)"
    and nk: "\<not> (tstat k c = RT_THREAD_RUNNING \<and> (prio k c < p \<or>
              prio k c = p \<and> stat (threads k c) AND RT_THREAD_STAT_YIELD = 0))"
  shows "\<exists>k'. rt_schedule k = Some k' \<and> kinv k' \<and> current k' = Some f \<and> sched_rel k k' \<and>
           tstat k' f = RT_THREAD_RUNNING"
proof -
  define r where "r \<longleftrightarrow> tstat k c = RT_THREAD_RUNNING"
  define k1 where "k1 = (if r then upd_thread c (\<lambda>th. th\<lparr>stat := stat th AND NOT RT_THREAD_STAT_YIELD\<rparr>) k else k)"
  have k1: "kinv k1" "current k1 = Some c" "lists k1 = lists k" "tstat k1 u = tstat k u" for u
    using k c kinv_upd_neutral [OF k, of "\<lambda>th. th\<lparr>stat := stat th AND NOT 8\<rparr>" c] by (auto simp: k1_def)
  have s1: "sched_rel k k1"
    by (auto simp: k1_def r_def runnable_def intro!: sched_rel_upd)
  obtain p' f' ts where "scheduler_get_highest_priority_thread k = Some (p', f')" "lists k (Ready p') = f' # ts"
    using highest_thread [OF k h(1)] by blast
  with h(2) have f: "f \<in> set (lists k1 (Ready p))" by (simp add: k1(3))
  note fm = ready_member [OF k1(1) f, simplified]
  have fc: "f \<noteq> c" using fm(5) k1(2) by auto
  obtain k3 k4 where k3: "(if r then rt_schedule_insert_thread c (k1\<lparr>cur_priority := of_nat p, current := Some f\<rparr>)
                 else Some (k1\<lparr>cur_priority := of_nat p, current := Some f\<rparr>)) = Some k3"
    and k4: "rt_schedule_remove_thread f k3 = Some k4" "current k4 = Some f"
      "kinv (upd_thread f (set_stat RT_THREAD_RUNNING) k4)" "linked_ok k3" "threads k3 f = threads k1 f"
    using switch_kinv [OF k1(1,2) f, of r "of_nat p"] k1(4) by (auto simp: r_def)
  have "sched_rel k1 k3"
  proof (cases r)
    case True
    then have "runnable (k1\<lparr>cur_priority := of_nat p, current := Some f\<rparr>) c"
      using k1(4) by (simp add: runnable_def r_def)
    with k3 True have "sched_rel (k1\<lparr>cur_priority := of_nat p, current := Some f\<rparr>) k3"
      using sched_rel_insert by simp
    then show ?thesis by (rule sched_rel_trans [OF sched_rel_current])
  qed (use k3 sched_rel_current in auto)
  moreover have "runnable k3 f" using fm(3) k4(5) by (simp add: runnable_def)
  then have "sched_rel k3 (upd_thread f (set_stat RT_THREAD_RUNNING) k4)"
    using sched_rel_run [OF k4(1) _ k4(4)] fm(1) k4(5) by auto
  ultimately have "sched_rel k (upd_thread f (set_stat RT_THREAD_RUNNING) k4)"
    using s1 sched_rel_trans by blast
  moreover have "rt_schedule k = Some (upd_thread f (set_stat RT_THREAD_RUNNING) k4)"
    unfolding rt_schedule_def using l h c nk k3 k4(1) fc
    by (auto simp: Let_def r_def [symmetric] k1_def [symmetric])
  ultimately show ?thesis using k4 by auto
qed

text \<open>
  Rescheduling always returns when a thread is current, keeps the invariant and changes
  no more than \<open>sched_rel\<close> allows.
\<close>

lemma rt_schedule_ok:
  assumes k: "kinv k" and c: "current k = Some c"
  shows "\<exists>k' n. rt_schedule k = Some k' \<and> kinv k' \<and> sched_rel k k' \<and> current k' = Some n"
proof (cases "lock_nest k = 0 \<and> ready_group k \<noteq> 0")
  case True
  then obtain p f where h: "scheduler_get_highest_priority_thread k = Some (p, f)"
    using highest_thread [OF k] by blast
  show ?thesis
  proof (cases "tstat k c = RT_THREAD_RUNNING \<and> (prio k c < p \<or>
              prio k c = p \<and> stat (threads k c) AND RT_THREAD_STAT_YIELD = 0)")
    case keep: True
    let ?f = "\<lambda>th. set_stat RT_THREAD_RUNNING (th\<lparr>stat := stat th AND NOT RT_THREAD_STAT_YIELD\<rparr>)"
    have "rt_schedule k = Some (upd_thread c ?f k)"
      using rt_schedule_keep [OF k c _ _ h] True keep by blast
    moreover have "kinv (upd_thread c ?f k)"
      by (rule kinv_upd_neutral [OF k]) (use keep in \<open>simp_all add: set_stat_def\<close>)
    moreover have "sched_rel k (upd_thread c ?f k)"
      using keep by (intro sched_rel_upd) (simp_all add: runnable_def set_stat_def)
    ultimately show ?thesis using c by auto
  next
    case False
    then show ?thesis using rt_schedule_switch [OF k c _ _ h] True by blast
  qed
qed (auto simp: rt_schedule_def k c)

text \<open>
  The thread chosen in an unlocked scheduler: the best priority among the threads that can
  run, the current thread winning ties unless it has used up its time slice or yielded.
\<close>

lemma rt_schedule_choice:
  assumes k: "kinv k" and c: "current k = Some c" and l: "lock_nest k = 0"
    and r: "rt_schedule k = Some k'" and ex: "runnable k u"
  shows "\<exists>n. current k' = Some n \<and> runnable k n \<and> tstat k' n = RT_THREAD_RUNNING \<and>
     (\<forall>t. runnable k t \<longrightarrow> prio k n \<le> prio k t) \<and>
     (n = c \<or> (\<exists>ts. lists k (Ready (prio k n)) = n # ts))"
proof -
  have run: "t = c \<and> tstat k c = RT_THREAD_RUNNING \<or> t \<in> set (lists k (Ready (prio k t)))"
    if "runnable k t" for t
  proof -
    have th: "thread_ok (current k) t (threads k t)" using kinv_thread [OF k] by simp
    show ?thesis
    proof (cases "tstat k t = RT_THREAD_RUNNING")
      case True
      then show ?thesis using th c by (auto simp: thread_ok_def)
    next
      case False
      with that have "tstat k t = RT_THREAD_READY" by (simp add: runnable_def)
      with th have "tlist (threads k t) = Some (Ready (prio k t))"
        by (auto simp: thread_ok_def stat_ok_def elim: link_stat.elims)
      then show ?thesis using linked_in [OF kinv_linked [OF k]] by blast
    qed
  qed
  show ?thesis
  proof (cases "ready_group k = 0")
    case True
    then have "lists k (Ready p) = []" for p
      using k group_nonzero [of k] by (auto simp: kinv_except_def)
    then have only: "t = c \<and> tstat k c = RT_THREAD_RUNNING" if "runnable k t" for t
      using run [OF that] by auto
    moreover have "k' = k" using r True by (simp add: rt_schedule_def)
    ultimately show ?thesis using only [OF ex] ex c by auto
  next
    case False
    obtain p f ts where h: "scheduler_get_highest_priority_thread k = Some (p, f)"
        "lists k (Ready p) = f # ts" "\<forall>q. lists k (Ready q) \<noteq> [] \<longrightarrow> p \<le> q"
      using highest_thread [OF k False] by blast
    note fm = ready_member [OF k, of f p, simplified h(2), simplified]
    have best: "p \<le> prio k t \<or> t = c \<and> tstat k c = RT_THREAD_RUNNING" if "runnable k t" for t
      using run [OF that] h(3) by (metis empty_iff empty_set)
    show ?thesis
    proof (cases "tstat k c = RT_THREAD_RUNNING \<and> (prio k c < p \<or>
              prio k c = p \<and> stat (threads k c) AND RT_THREAD_STAT_YIELD = 0)")
      case keep: True
      then have "current k' = Some c" "tstat k' c = RT_THREAD_RUNNING"
        using rt_schedule_keep [OF k c l False h(1)] r c by auto
      moreover have "prio k c \<le> prio k t" if "runnable k t" for t
        using best [OF that] keep by auto
      ultimately show ?thesis using keep by (auto simp: runnable_def)
    next
      case nk: False
      then have "current k' = Some f" "tstat k' f = RT_THREAD_RUNNING"
        using rt_schedule_switch [OF k c l False h(1)] r by auto
      moreover have "p \<le> prio k t" if "runnable k t" for t
        using best [OF that] nk by auto
      ultimately show ?thesis using fm h(2) by (auto simp: runnable_def)
    qed
  qed
qed

end
