(* ===== verification/Object.thy ===== *)
theory Object
  imports Scheduler
begin

text \<open>
  \<^verbatim>\<open>rt-thread/src/object.c\<close>: the containers of kernel objects by class.  A container is
  the list of its members from \<open>object_list.next\<close> on.  An object carries its class and the
  bit \<open>RT_Object_Class_Static\<close> in \<open>obj_type\<close>.  Memory for a dynamic object comes from
  \<open>RT_KERNEL_MALLOC\<close>: the definitions take the reference it returned, \<open>None\<close> for
  \<open>RT_NULL\<close>.
\<close>

section \<open>Operations\<close>

text \<open>The classes of this configuration that have a container.\<close>

definition object_container :: "rt_object_class list" where
  "object_container =
     [Class_Thread, Class_Semaphore, Class_Mutex, Class_Event, Class_MailBox,
      Class_MessageQueue, Class_MemPool, Class_Device, Class_Timer, Class_Memory]"

definition rt_object_get_information :: "rt_object_class \<Rightarrow> rt_object_class option" where
  "rt_object_get_information c = List.find (\<lambda>x. x = c) object_container"

definition rt_object_get_length :: "rt_object_class \<Rightarrow> kernel \<Rightarrow> nat" where
  "rt_object_get_length c k =
     (case rt_object_get_information c of None \<Rightarrow> 0 | Some i \<Rightarrow> length (containers k i))"

definition rt_object_get_pointers :: "rt_object_class \<Rightarrow> int \<Rightarrow> kernel \<Rightarrow> objref list" where
  "rt_object_get_pointers c maxlen k =
     (if maxlen \<le> 0 then []
      else case rt_object_get_information c of
             None \<Rightarrow> []
           | Some i \<Rightarrow> take (nat maxlen) (containers k i))"

abbreviation (input) RT_NAME_MAX :: nat where "RT_NAME_MAX \<equiv> 8"
abbreviation (input) RT_Object_Class_Static :: u8 where "RT_Object_Class_Static \<equiv> 0x80"

definition rt_object_init :: "objref \<Rightarrow> rt_object_class \<Rightarrow> string \<Rightarrow> kernel \<Rightarrow> kernel option" where
  "rt_object_init r c name k =
     do {
       i \<leftarrow> rt_object_get_information c;
       let k1 = rt_enter_critical k;
       rt_assert (r \<notin> set (containers k1 i));
       k2 \<leftarrow> rt_exit_critical k1;
       let k3 = upd_obj r (\<lambda>ob. ob\<lparr>obj_type := class_code c OR RT_Object_Class_Static,
                                    obj_name := take RT_NAME_MAX name\<rparr>) k2;
       Some (k3\<lparr>containers := (containers k3)(i := r # containers k3 i)\<rparr>)
     }"

definition rt_object_detach :: "objref \<Rightarrow> kernel \<Rightarrow> kernel" where
  "rt_object_detach r k =
     (let k1 = upd_obj r (\<lambda>ob. ob\<lparr>obj_type := 0\<rparr>) k in
      k1\<lparr>containers := (\<lambda>c. remove1 r (containers k1 c))\<rparr>)"

definition rt_object_allocate ::
    "objref option \<Rightarrow> rt_object_class \<Rightarrow> string \<Rightarrow> kernel \<Rightarrow> (objref option \<times> kernel) option" where
  "rt_object_allocate mem c name k =
     do {
       rt_assert (irq_nest k = 0);
       i \<leftarrow> rt_object_get_information c;
       (case mem of
          None \<Rightarrow> Some (None, k)
        | Some r \<Rightarrow>
            let k1 = upd_obj r (\<lambda>_. \<lparr>obj_name = take RT_NAME_MAX name, obj_type = class_code c,
                                      obj_flag = 0\<rparr>) k
            in Some (Some r, k1\<lparr>containers := (containers k1)(i := r # containers k1 i)\<rparr>))
     }"

definition rt_object_delete :: "objref \<Rightarrow> kernel \<Rightarrow> kernel option" where
  "rt_object_delete r k =
     do {
       rt_assert (obj_type (objs k r) AND RT_Object_Class_Static = 0);
       let k1 = upd_obj r (\<lambda>ob. ob\<lparr>obj_type := class_code Class_Null\<rparr>) k;
       Some (k1\<lparr>containers := (\<lambda>c. remove1 r (containers k1 c))\<rparr>)
     }"

definition rt_object_is_systemobject :: "objref \<Rightarrow> kernel \<Rightarrow> bool" where
  "rt_object_is_systemobject r k \<longleftrightarrow> obj_type (objs k r) AND RT_Object_Class_Static \<noteq> 0"

definition rt_object_get_type :: "objref \<Rightarrow> kernel \<Rightarrow> u8" where
  "rt_object_get_type r k = obj_type (objs k r) AND NOT RT_Object_Class_Static"

definition rt_object_find ::
    "string \<Rightarrow> rt_object_class \<Rightarrow> kernel \<Rightarrow> (objref option \<times> kernel) option" where
  "rt_object_find name c k =
     (case rt_object_get_information c of
        None \<Rightarrow> Some (None, k)
      | Some i \<Rightarrow>
          do {
            rt_assert (irq_nest k = 0);
            let k1 = rt_enter_critical k;
            let found = List.find (\<lambda>r. obj_name (objs k1 r) = take RT_NAME_MAX name) (containers k1 i);
            k2 \<leftarrow> rt_exit_critical k1;
            Some (found, k2)
          })"

end
