(* ===== verification/Timer_Core.thy ===== *)
theory Timer_Core
  imports Object
begin

text \<open>
  \<^verbatim>\<open>rt-thread/src/timer.c\<close> without the expiry loop (which calls back into the thread
  code and is in \<open>Clock\<close>): creation, start, stop and control of hard timers.
  \<open>RT_TIMER_SKIP_LIST_LEVEL\<close> is 1, so the skip list is one sorted list and the loops over
  its levels run once.  Ticks are 32 bits wide and compared by their wrapped difference.
\<close>

section \<open>Operations\<close>

abbreviation (input) RT_TIMER_FLAG_ACTIVATED :: u8 where "RT_TIMER_FLAG_ACTIVATED \<equiv> 1"
abbreviation (input) RT_TIMER_FLAG_PERIODIC :: u8 where "RT_TIMER_FLAG_PERIODIC \<equiv> 2"
abbreviation (input) RT_TICK_MAX_HALF :: u32 where "RT_TICK_MAX_HALF \<equiv> 0x7fffffff"

definition timer_init :: "timer_ref \<Rightarrow> timer_callback \<Rightarrow> u32 \<Rightarrow> u8 \<Rightarrow> kernel \<Rightarrow> kernel option" where
  "timer_init r timeout time flag k =
     do {
       rt_assert (r \<notin> set (timer_list k) \<and> r \<notin> set (fired_list k));
       let k1 = upd_obj (Obj_Timer r)
                  (\<lambda>ob. ob\<lparr>obj_flag := flag AND NOT RT_TIMER_FLAG_ACTIVATED\<rparr>) k;
       Some (upd_timer r (\<lambda>_. \<lparr>timeout_func = timeout, init_tick = time, timeout_tick = 0\<rparr>) k1)
     }"

definition timer_list_next_timeout :: "kernel \<Rightarrow> rt_err \<times> u32 option" where
  "timer_list_next_timeout k =
     (case timer_list k of
        [] \<Rightarrow> (- RT_ERROR, None)
      | r # _ \<Rightarrow> (RT_EOK, Some (timeout_tick (timers k r))))"

definition timer_remove :: "timer_ref \<Rightarrow> kernel \<Rightarrow> kernel" where
  "timer_remove r k =
     k\<lparr>timer_list := remove1 r (timer_list k), fired_list := remove1 r (fired_list k)\<rparr>"

definition timer_deactivate :: "timer_ref \<Rightarrow> kernel \<Rightarrow> kernel" where
  "timer_deactivate r k =
     upd_obj (Obj_Timer r) (\<lambda>ob. ob\<lparr>obj_flag := obj_flag ob AND NOT RT_TIMER_FLAG_ACTIVATED\<rparr>)
       (timer_remove r k)"

definition rt_timer_init ::
    "timer_ref \<Rightarrow> string \<Rightarrow> timer_callback \<Rightarrow> u32 \<Rightarrow> u8 \<Rightarrow> kernel \<Rightarrow> kernel option" where
  "rt_timer_init r name timeout time flag k =
     do {
       rt_assert (time < RT_TICK_MAX_HALF);
       k1 \<leftarrow> rt_object_init (Obj_Timer r) Class_Timer name k;
       timer_init r timeout time flag k1
     }"

definition rt_timer_detach :: "timer_ref \<Rightarrow> kernel \<Rightarrow> (rt_err \<times> kernel) option" where
  "rt_timer_detach r k =
     do {
       rt_assert (rt_object_get_type (Obj_Timer r) k = class_code Class_Timer);
       rt_assert (rt_object_is_systemobject (Obj_Timer r) k);
       let k1 = timer_deactivate r k;
       Some (RT_EOK, rt_object_detach (Obj_Timer r) k1)
     }"

definition rt_timer_create ::
    "timer_ref option \<Rightarrow> string \<Rightarrow> timer_callback \<Rightarrow> u32 \<Rightarrow> u8 \<Rightarrow> kernel \<Rightarrow>
     (timer_ref option \<times> kernel) option" where
  "rt_timer_create mem name timeout time flag k =
     do {
       rt_assert (time < RT_TICK_MAX_HALF);
       (ob, k1) \<leftarrow> rt_object_allocate (map_option Obj_Timer mem) Class_Timer name k;
       (case mem of
          None \<Rightarrow> Some (None, k1)
        | Some r \<Rightarrow> do { k2 \<leftarrow> timer_init r timeout time flag k1; Some (Some r, k2) })
     }"

definition rt_timer_delete :: "timer_ref \<Rightarrow> kernel \<Rightarrow> (rt_err \<times> kernel) option" where
  "rt_timer_delete r k =
     do {
       rt_assert (rt_object_get_type (Obj_Timer r) k = class_code Class_Timer);
       rt_assert (\<not> rt_object_is_systemobject (Obj_Timer r) k);
       let k1 = timer_deactivate r k;
       k2 \<leftarrow> rt_object_delete (Obj_Timer r) k1;
       Some (RT_EOK, k2)
     }"

text \<open>
  Where \<open>rt_timer_start\<close> links the timer: the number of list members it passes.  Members
  with the same timeout are passed, so that timers of one tick expire in the order in which
  they were started.
\<close>

fun timer_row_pos :: "(timer_ref \<Rightarrow> u32) \<Rightarrow> u32 \<Rightarrow> timer_ref list \<Rightarrow> nat" where
  "timer_row_pos tmo x [] = 0"
| "timer_row_pos tmo x (t # ts) =
     (if tmo t - x = 0 then Suc (timer_row_pos tmo x ts)
      else if tmo t - x < RT_TICK_MAX_HALF then 0
      else Suc (timer_row_pos tmo x ts))"

definition rt_timer_start :: "timer_ref \<Rightarrow> kernel \<Rightarrow> (rt_err \<times> kernel) option" where
  "rt_timer_start r k =
     do {
       rt_assert (rt_object_get_type (Obj_Timer r) k = class_code Class_Timer);
       let k1 = timer_deactivate r k;
       let k2 = upd_timer r (\<lambda>t. t\<lparr>timeout_tick := tick k1 + init_tick t\<rparr>) k1;
       let i = timer_row_pos (\<lambda>t. timeout_tick (timers k2 t)) (timeout_tick (timers k2 r)) (timer_list k2);
       let k3 = k2\<lparr>timer_list := insert_at i r (timer_list k2)\<rparr>;
       Some (RT_EOK, upd_obj (Obj_Timer r)
                       (\<lambda>ob. ob\<lparr>obj_flag := obj_flag ob OR RT_TIMER_FLAG_ACTIVATED\<rparr>) k3)
     }"

definition rt_timer_stop :: "timer_ref \<Rightarrow> kernel \<Rightarrow> (rt_err \<times> kernel) option" where
  "rt_timer_stop r k =
     do {
       rt_assert (rt_object_get_type (Obj_Timer r) k = class_code Class_Timer);
       (if obj_flag (objs k (Obj_Timer r)) AND RT_TIMER_FLAG_ACTIVATED = 0 then Some (- RT_ERROR, k)
        else Some (RT_EOK, timer_deactivate r k))
     }"

datatype timer_cmd =
    CTRL_SET_TIME u32 | CTRL_GET_TIME | CTRL_SET_ONESHOT | CTRL_SET_PERIODIC
  | CTRL_GET_STATE | CTRL_GET_REMAIN_TIME | CTRL_OTHER

text \<open>The second component of the result is what the call stores through \<open>arg\<close>.\<close>

definition rt_timer_control ::
    "timer_ref \<Rightarrow> timer_cmd \<Rightarrow> kernel \<Rightarrow> (rt_err \<times> u32 option \<times> kernel) option" where
  "rt_timer_control r cmd k =
     do {
       rt_assert (rt_object_get_type (Obj_Timer r) k = class_code Class_Timer);
       (case cmd of
          CTRL_GET_TIME \<Rightarrow> Some (RT_EOK, Some (init_tick (timers k r)), k)
        | CTRL_SET_TIME x \<Rightarrow>
            do {
              rt_assert (x < RT_TICK_MAX_HALF);
              Some (RT_EOK, None, upd_timer r (\<lambda>t. t\<lparr>init_tick := x\<rparr>) k)
            }
        | CTRL_SET_ONESHOT \<Rightarrow>
            Some (RT_EOK, None, upd_obj (Obj_Timer r)
              (\<lambda>ob. ob\<lparr>obj_flag := obj_flag ob AND NOT RT_TIMER_FLAG_PERIODIC\<rparr>) k)
        | CTRL_SET_PERIODIC \<Rightarrow>
            Some (RT_EOK, None, upd_obj (Obj_Timer r)
              (\<lambda>ob. ob\<lparr>obj_flag := obj_flag ob OR RT_TIMER_FLAG_PERIODIC\<rparr>) k)
        | CTRL_GET_STATE \<Rightarrow>
            Some (RT_EOK,
                  Some (if obj_flag (objs k (Obj_Timer r)) AND RT_TIMER_FLAG_ACTIVATED \<noteq> 0 then 1 else 0), k)
        | CTRL_GET_REMAIN_TIME \<Rightarrow> Some (RT_EOK, Some (timeout_tick (timers k r)), k)
        | CTRL_OTHER \<Rightarrow> Some (RT_EOK, None, k))
     }"

definition rt_timer_next_timeout_tick :: "kernel \<Rightarrow> u32" where
  "rt_timer_next_timeout_tick k =
     (case snd (timer_list_next_timeout k) of None \<Rightarrow> 0xffffffff | Some x \<Rightarrow> x)"

definition rt_system_timer_init :: "kernel \<Rightarrow> kernel" where
  "rt_system_timer_init k = k\<lparr>timer_list := []\<rparr>"

section \<open>What timers change\<close>

text \<open>Operations on timers and object headers leave the threads and their lists alone.\<close>

definition timer_rel :: "kernel \<Rightarrow> kernel \<Rightarrow> bool" where
  "timer_rel k k' \<longleftrightarrow>
     k' = k\<lparr>timers := timers k', objs := objs k', containers := containers k',
            timer_list := timer_list k', fired_list := fired_list k'\<rparr>"

lemma timer_rel_refl [simp]: "timer_rel k k"
  by (simp add: timer_rel_def)

lemma timer_rel_frame:
  assumes "timer_rel k k'"
  shows "threads k' = threads k" "lists k' = lists k" "ready_group k' = ready_group k"
    "lock_nest k' = lock_nest k" "irq_nest k' = irq_nest k" "current k' = current k"
    "tick k' = tick k" "saved k' = saved k" "sems k' = sems k" "mutexes k' = mutexes k"
    "events k' = events k" "mailboxes k' = mailboxes k" "queues k' = queues k" "pools k' = pools k" "devipc k' = devipc k"
proof -
  obtain a b c d e where k': "k' = k\<lparr>timers := a, objs := b, containers := c, timer_list := d, fired_list := e\<rparr>"
    using assms unfolding timer_rel_def by blast
  show "threads k' = threads k" "lists k' = lists k" "ready_group k' = ready_group k"
    "lock_nest k' = lock_nest k" "irq_nest k' = irq_nest k" "current k' = current k"
    "tick k' = tick k" "saved k' = saved k" "sems k' = sems k" "mutexes k' = mutexes k"
    "events k' = events k" "mailboxes k' = mailboxes k" "queues k' = queues k" "pools k' = pools k" "devipc k' = devipc k"
    by (simp_all add: k')
qed

lemma timer_rel_trans: "timer_rel k k' \<Longrightarrow> timer_rel k' k'' \<Longrightarrow> timer_rel k k''"
proof -
  assume a: "timer_rel k k'" and b: "timer_rel k' k''"
  obtain t o1 c l f where 1: "k' = k\<lparr>timers := t, objs := o1, containers := c, timer_list := l, fired_list := f\<rparr>"
    using a unfolding timer_rel_def by blast
  obtain t o1 c l f where 2: "k'' = k'\<lparr>timers := t, objs := o1, containers := c, timer_list := l, fired_list := f\<rparr>"
    using b unfolding timer_rel_def by blast
  show ?thesis unfolding timer_rel_def 2 unfolding 1 by simp
qed

lemma timer_rel_kinv: "timer_rel k k' \<Longrightarrow> kinv_except S k' \<longleftrightarrow> kinv_except S k"
  by (intro kinv_cong) (simp_all add: timer_rel_frame)

lemma timer_rel_runnable: "timer_rel k k' \<Longrightarrow> runnable k' t \<longleftrightarrow> runnable k t"
  by (simp add: runnable_def timer_rel_frame)

lemma timer_deactivate_rel: "timer_rel k (timer_deactivate r k)"
  by (simp add: timer_rel_def timer_deactivate_def timer_remove_def)

lemma timer_stop_rel: "rt_timer_stop r k = Some (e, k') \<Longrightarrow> timer_rel k k'"
  by (auto simp: rt_timer_stop_def timer_deactivate_rel split: if_splits)

lemma timer_start_rel: "rt_timer_start r k = Some (e, k') \<Longrightarrow> timer_rel k k'"
  by (auto simp: rt_timer_start_def Let_def timer_rel_def timer_deactivate_def timer_remove_def)

lemma timer_control_rel: "rt_timer_control r c k = Some (e, v, k') \<Longrightarrow> timer_rel k k'"
  by (auto simp: rt_timer_control_def timer_rel_def split: timer_cmd.splits)

lemma timer_detach_rel: "rt_timer_detach r k = Some (e, k') \<Longrightarrow> timer_rel k k'"
  by (auto simp: rt_timer_detach_def Let_def timer_rel_def timer_deactivate_def timer_remove_def
      rt_object_detach_def)

end
