(* ===== verification/Thread.thy ===== *)
theory Thread
  imports Timer_Core
begin

text \<open>
  \<^verbatim>\<open>rt-thread/src/thread.c\<close> and the list of closed threads of
  \<^verbatim>\<open>rt-thread/src/idle.c\<close>.  The entry function and the stack of a thread are not part
  of the model.  \<open>rt_thread_sleep\<close> and \<open>rt_thread_delay_until\<close> are split at their call
  of \<open>rt_schedule\<close>: the \<open>_finish\<close> definition is the rest of the call, run when the
  thread is current again.
\<close>

section \<open>Operations\<close>

definition rt_thread_defunct_enqueue :: "tid \<Rightarrow> kernel \<Rightarrow> kernel option" where
  "rt_thread_defunct_enqueue t k = list_insert_after Defunct t k"

definition rt_thread_defunct_dequeue :: "kernel \<Rightarrow> tid option \<times> kernel" where
  "rt_thread_defunct_dequeue k =
     (case lists k Defunct of [] \<Rightarrow> (None, k) | t # _ \<Rightarrow> (Some t, list_remove t k))"

definition thread_exit :: "kernel \<Rightarrow> kernel option" where
  "thread_exit k =
     do {
       t \<leftarrow> current k;
       k1 \<leftarrow> rt_schedule_remove_thread t k;
       (_, k2) \<leftarrow> rt_timer_detach (Thread_timer t) k1;
       let k3 = upd_thread t (\<lambda>th. th\<lparr>stat := RT_THREAD_CLOSE\<rparr>) k2;
       k4 \<leftarrow> rt_thread_defunct_enqueue t k3;
       rt_schedule k4
     }"

definition thread_timeout :: "tid \<Rightarrow> kernel \<Rightarrow> kernel option" where
  "thread_timeout t k =
     do {
       rt_assert (tstat k t = RT_THREAD_SUSPEND);
       rt_assert (rt_object_get_type (Obj_Thread t) k = class_code Class_Thread);
       let k1 = upd_thread t (\<lambda>th. th\<lparr>thread_error := - RT_ETIMEOUT\<rparr>) k;
       let k2 = list_remove t k1;
       k3 \<leftarrow> rt_schedule_insert_thread t k2;
       rt_schedule k3
     }"

definition thread_init :: "tid \<Rightarrow> u8 \<Rightarrow> u32 \<Rightarrow> kernel \<Rightarrow> (rt_err \<times> kernel) option" where
  "thread_init t priority tck k =
     do {
       rt_assert (tlist (threads k t) = None);
       rt_assert (priority < 32);
       let k1 = upd_thread t (\<lambda>_. \<lparr>tlist = None, stat = RT_THREAD_INIT, current_priority = priority,
                  number_mask = 0, thread_error = RT_EOK, event_set = 0, event_info = 0,
                  thread_init_tick = tck, remaining_tick = tck, cleanup = None\<rparr>) k;
       let k2 = k1\<lparr>saved := (saved k1)(t := No_call)\<rparr>;
       k3 \<leftarrow> rt_timer_init (Thread_timer t) (obj_name (objs k2 (Obj_Thread t))) (Thread_timeout t) 0 0 k2;
       Some (RT_EOK, k3)
     }"

definition rt_thread_init :: "tid \<Rightarrow> string \<Rightarrow> u8 \<Rightarrow> u32 \<Rightarrow> kernel \<Rightarrow> (rt_err \<times> kernel) option" where
  "rt_thread_init t name priority tck k =
     do {
       k1 \<leftarrow> rt_object_init (Obj_Thread t) Class_Thread name k;
       thread_init t priority tck k1
     }"

definition rt_thread_self :: "kernel \<Rightarrow> tid option" where
  "rt_thread_self k = current k"

definition rt_thread_suspend :: "tid \<Rightarrow> kernel \<Rightarrow> (rt_err \<times> kernel) option" where
  "rt_thread_suspend t k =
     do {
       rt_assert (rt_object_get_type (Obj_Thread t) k = class_code Class_Thread);
       rt_assert (rt_thread_self k = Some t);
       (if tstat k t \<noteq> RT_THREAD_READY \<and> tstat k t \<noteq> RT_THREAD_RUNNING then Some (- RT_ERROR, k)
        else
          do {
            k1 \<leftarrow> rt_schedule_remove_thread t k;
            let k2 = upd_thread t (set_stat RT_THREAD_SUSPEND) k1;
            (_, k3) \<leftarrow> rt_timer_stop (Thread_timer t) k2;
            Some (RT_EOK, k3)
          })
     }"

definition rt_thread_resume :: "tid \<Rightarrow> kernel \<Rightarrow> (rt_err \<times> kernel) option" where
  "rt_thread_resume t k =
     do {
       rt_assert (rt_object_get_type (Obj_Thread t) k = class_code Class_Thread);
       (if tstat k t \<noteq> RT_THREAD_SUSPEND then Some (- RT_ERROR, k)
        else
          do {
            let k1 = list_remove t k;
            (_, k2) \<leftarrow> rt_timer_stop (Thread_timer t) k1;
            k3 \<leftarrow> rt_schedule_insert_thread t k2;
            Some (RT_EOK, k3)
          })
     }"

definition rt_thread_startup :: "tid \<Rightarrow> kernel \<Rightarrow> (rt_err \<times> kernel) option" where
  "rt_thread_startup t k =
     do {
       rt_assert (tstat k t = RT_THREAD_INIT);
       rt_assert (rt_object_get_type (Obj_Thread t) k = class_code Class_Thread);
       let k1 = upd_thread t (\<lambda>th. th\<lparr>number_mask := push_bit (unat (current_priority th)) 1,
                                       stat := RT_THREAD_SUSPEND\<rparr>) k;
       (_, k2) \<leftarrow> rt_thread_resume t k1;
       k3 \<leftarrow> (if rt_thread_self k2 \<noteq> None then rt_schedule k2 else Some k2);
       Some (RT_EOK, k3)
     }"

text \<open>The common body of \<open>rt_thread_detach\<close> and \<open>rt_thread_delete\<close> after their checks.\<close>

definition thread_close :: "tid \<Rightarrow> kernel \<Rightarrow> (rt_err \<times> kernel) option" where
  "thread_close t k =
     (if tstat k t = RT_THREAD_CLOSE then Some (RT_EOK, k)
      else
        do {
          k1 \<leftarrow> (if tstat k t \<noteq> RT_THREAD_INIT then rt_schedule_remove_thread t k else Some k);
          (_, k2) \<leftarrow> rt_timer_detach (Thread_timer t) k1;
          let k3 = upd_thread t (\<lambda>th. th\<lparr>stat := RT_THREAD_CLOSE\<rparr>) k2;
          k4 \<leftarrow> rt_thread_defunct_enqueue t k3;
          Some (RT_EOK, k4)
        })"

definition rt_thread_detach :: "tid \<Rightarrow> kernel \<Rightarrow> (rt_err \<times> kernel) option" where
  "rt_thread_detach t k =
     do {
       rt_assert (rt_object_get_type (Obj_Thread t) k = class_code Class_Thread);
       rt_assert (rt_object_is_systemobject (Obj_Thread t) k);
       thread_close t k
     }"

definition rt_thread_delete :: "tid \<Rightarrow> kernel \<Rightarrow> (rt_err \<times> kernel) option" where
  "rt_thread_delete t k =
     do {
       rt_assert (rt_object_get_type (Obj_Thread t) k = class_code Class_Thread);
       rt_assert (\<not> rt_object_is_systemobject (Obj_Thread t) k);
       thread_close t k
     }"

text \<open>
  \<open>rt_thread_create\<close>: \<open>mem\<close> is the memory for the structure, \<open>stack\<close> whether the
  allocation of the stack succeeded.
\<close>

definition rt_thread_create ::
    "tid option \<Rightarrow> bool \<Rightarrow> string \<Rightarrow> u8 \<Rightarrow> u32 \<Rightarrow> kernel \<Rightarrow> (tid option \<times> kernel) option" where
  "rt_thread_create mem stack name priority tck k =
     do {
       (ob, k1) \<leftarrow> rt_object_allocate (map_option Obj_Thread mem) Class_Thread name k;
       (case mem of
          None \<Rightarrow> Some (None, k1)
        | Some t \<Rightarrow>
            if stack then do { (_, k2) \<leftarrow> thread_init t priority tck k1; Some (Some t, k2) }
            else do { k2 \<leftarrow> rt_object_delete (Obj_Thread t) k1; Some (None, k2) })
     }"

definition rt_thread_yield :: "kernel \<Rightarrow> (rt_err \<times> kernel) option" where
  "rt_thread_yield k =
     do {
       t \<leftarrow> rt_thread_self k;
       let k1 = upd_thread t (\<lambda>th. th\<lparr>remaining_tick := thread_init_tick th,
                                       stat := stat th OR RT_THREAD_STAT_YIELD\<rparr>) k;
       k2 \<leftarrow> rt_schedule k1;
       Some (RT_EOK, k2)
     }"

text \<open>The two calls with which a waiting thread starts its timer.\<close>

definition thread_arm :: "tid \<Rightarrow> u32 \<Rightarrow> kernel \<Rightarrow> kernel option" where
  "thread_arm t x k =
     do {
       (_, _, k1) \<leftarrow> rt_timer_control (Thread_timer t) (CTRL_SET_TIME x) k;
       (_, k2) \<leftarrow> rt_timer_start (Thread_timer t) k1;
       Some k2
     }"

text \<open>Suspension with the thread timer armed, as \<open>sleep\<close> and \<open>delay_until\<close> do it.\<close>

definition thread_sleep_for :: "tid \<Rightarrow> u32 \<Rightarrow> kernel \<Rightarrow> kernel option" where
  "thread_sleep_for t x k =
     do {
       (_, k1) \<leftarrow> rt_thread_suspend t k;
       k2 \<leftarrow> thread_arm t x k1;
       rt_schedule (k2\<lparr>saved := (saved k2)(t := In_sleep)\<rparr>)
     }"

definition rt_thread_sleep :: "u32 \<Rightarrow> kernel \<Rightarrow> kernel option" where
  "rt_thread_sleep x k =
     do {
       t \<leftarrow> rt_thread_self k;
       rt_assert (rt_object_get_type (Obj_Thread t) k = class_code Class_Thread);
       let k1 = upd_thread t (\<lambda>th. th\<lparr>thread_error := RT_EOK\<rparr>) k;
       thread_sleep_for t x k1
     }"

definition rt_thread_sleep_finish :: "tid \<Rightarrow> kernel \<Rightarrow> rt_err \<times> kernel" where
  "rt_thread_sleep_finish t k =
     (let k1 = upd_thread t (\<lambda>th. th\<lparr>thread_error :=
                  (if thread_error th = - RT_ETIMEOUT then RT_EOK else thread_error th)\<rparr>) k
      in (thread_error (threads k1 t), k1\<lparr>saved := (saved k1)(t := No_call)\<rparr>))"

definition rt_thread_delay :: "u32 \<Rightarrow> kernel \<Rightarrow> kernel option" where
  "rt_thread_delay x k = rt_thread_sleep x k"

text \<open>
  \<open>rt_thread_delay_until\<close> takes and returns the tick the caller keeps; the first component
  of the result is \<open>None\<close> while the call waits.
\<close>

definition rt_thread_delay_until ::
    "u32 \<Rightarrow> u32 \<Rightarrow> kernel \<Rightarrow> (rt_err option \<times> u32 \<times> kernel) option" where
  "rt_thread_delay_until tck inc_tick k =
     do {
       t \<leftarrow> rt_thread_self k;
       rt_assert (rt_object_get_type (Obj_Thread t) k = class_code Class_Thread);
       let k1 = upd_thread t (\<lambda>th. th\<lparr>thread_error := RT_EOK\<rparr>) k;
       let cur_tick = tick k1;
       (if cur_tick - tck < inc_tick then
          do {
            let tck' = tck + inc_tick;
            k2 \<leftarrow> thread_sleep_for t (tck' - cur_tick) k1;
            Some (None, tck', k2)
          }
        else Some (Some (thread_error (threads k1 t)), cur_tick, k1))
     }"

datatype thread_cmd = CTRL_STARTUP | CTRL_CLOSE | CTRL_CHANGE_PRIORITY u8 | CTRL_THREAD_OTHER

definition set_priority :: "u8 \<Rightarrow> rt_thread \<Rightarrow> rt_thread" where
  "set_priority p th = th\<lparr>current_priority := p, number_mask := push_bit (unat p) 1\<rparr>"

definition rt_thread_change_priority :: "tid \<Rightarrow> u8 \<Rightarrow> kernel \<Rightarrow> kernel option" where
  "rt_thread_change_priority t p k =
     (if tstat k t = RT_THREAD_READY then
        do {
          k1 \<leftarrow> rt_schedule_remove_thread t k;
          rt_assert (unat p < 32);
          rt_schedule_insert_thread t (upd_thread t (set_priority p) k1)
        }
      else
        do {
          rt_assert (unat p < 32);
          Some (upd_thread t (set_priority p) k)
        })"

definition rt_thread_control :: "tid \<Rightarrow> thread_cmd \<Rightarrow> kernel \<Rightarrow> (rt_err \<times> kernel) option" where
  "rt_thread_control t cmd k =
     do {
       rt_assert (rt_object_get_type (Obj_Thread t) k = class_code Class_Thread);
       (case cmd of
          CTRL_CHANGE_PRIORITY p \<Rightarrow>
            do { k1 \<leftarrow> rt_thread_change_priority t p k; Some (RT_EOK, k1) }
        | CTRL_STARTUP \<Rightarrow> rt_thread_startup t k
        | CTRL_CLOSE \<Rightarrow>
            do {
              (err, k1) \<leftarrow> (if rt_object_is_systemobject (Obj_Thread t) k
                            then rt_thread_detach t k else rt_thread_delete t k);
              k2 \<leftarrow> rt_schedule k1;
              Some (err, k2)
            }
        | CTRL_THREAD_OTHER \<Rightarrow> Some (RT_EOK, k))
     }"

definition rt_thread_find :: "string \<Rightarrow> kernel \<Rightarrow> (objref option \<times> kernel) option" where
  "rt_thread_find name k = rt_object_find name Class_Thread k"

section \<open>The timer of a thread\<close>

text \<open>
  The second part of the kernel invariant: a started thread and its timer are registered
  objects, the timer is a one-shot timer whose timeout is the thread's, it is in the timer
  list exactly while it is active, and an active timer belongs to a waiting thread.
\<close>

abbreviation (input) timer_active :: "kernel \<Rightarrow> timer_ref \<Rightarrow> bool" where
  "timer_active k r \<equiv> obj_flag (objs k (Obj_Timer r)) AND RT_TIMER_FLAG_ACTIVATED \<noteq> 0"

definition thread_timer_ok :: "kernel \<Rightarrow> tid \<Rightarrow> bool" where
  "thread_timer_ok k t \<longleftrightarrow>
     rt_object_get_type (Obj_Thread t) k = class_code Class_Thread \<and>
     rt_object_get_type (Obj_Timer (Thread_timer t)) k = class_code Class_Timer \<and>
     rt_object_is_systemobject (Obj_Timer (Thread_timer t)) k \<and>
     timeout_func (timers k (Thread_timer t)) = Thread_timeout t \<and>
     obj_flag (objs k (Obj_Timer (Thread_timer t))) AND RT_TIMER_FLAG_PERIODIC = 0 \<and>
     (timer_active k (Thread_timer t) \<longleftrightarrow> Thread_timer t \<in> set (timer_list k))"

definition started :: "kernel \<Rightarrow> tid \<Rightarrow> bool" where
  "started k t \<longleftrightarrow> runnable k t \<or> tstat k t = RT_THREAD_SUSPEND"

definition tinv :: "kernel \<Rightarrow> bool" where
  "tinv k \<longleftrightarrow>
     (\<forall>t. started k t \<longrightarrow> thread_timer_ok k t) \<and>
     distinct (timer_list k) \<and>
     (\<forall>t. Thread_timer t \<in> set (timer_list k) \<longrightarrow> tstat k t = RT_THREAD_SUSPEND)"

definition sinv :: "kernel \<Rightarrow> bool" where
  "sinv k \<longleftrightarrow> kinv k \<and> tinv k"

lemma thread_timer_ok_cong:
  assumes "objs k' = objs k" "timers k' = timers k" "timer_list k' = timer_list k"
  shows "thread_timer_ok k' t \<longleftrightarrow> thread_timer_ok k t"
  by (simp add: thread_timer_ok_def rt_object_get_type_def rt_object_is_systemobject_def assms)

text \<open>Changes of threads that keep waiting threads waiting.\<close>

lemma tinv_threads:
  assumes "tinv k" "objs k' = objs k" "timers k' = timers k" "timer_list k' = timer_list k"
    "\<forall>t. started k' t \<longrightarrow> started k t"
    "\<forall>t. tstat k t = RT_THREAD_SUSPEND \<and> Thread_timer t \<in> set (timer_list k) \<longrightarrow> tstat k' t = RT_THREAD_SUSPEND"
  shows "tinv k'"
  using assms thread_timer_ok_cong [OF assms(2-4)] by (auto simp: tinv_def)

lemma sched_rel_started:
  assumes "sched_rel k k'"
  shows "started k' t \<longleftrightarrow> started k t" "tstat k' t = RT_THREAD_SUSPEND \<longleftrightarrow> tstat k t = RT_THREAD_SUSPEND"
proof -
  have a: "threads k' t = threads k t" if "\<not> runnable k t" using assms that by (simp add: sched_rel_def)
  have b: "runnable k' t" if "runnable k t" using assms that by (simp add: sched_rel_def)
  show "tstat k' t = RT_THREAD_SUSPEND \<longleftrightarrow> tstat k t = RT_THREAD_SUSPEND"
    using a b by (cases "runnable k t") (auto simp: runnable_def)
  then show "started k' t \<longleftrightarrow> started k t"
    using a b by (cases "runnable k t") (auto simp: started_def runnable_def)
qed

lemma sched_rel_tinv: "sched_rel k k' \<Longrightarrow> tinv k \<Longrightarrow> tinv k'"
  by (rule tinv_threads) (auto simp: sched_rel_frame sched_rel_started)

lemma rt_schedule_sinv:
  assumes "sinv k" "current k \<noteq> None"
  shows "\<exists>k'. rt_schedule k = Some k' \<and> sinv k' \<and> sched_rel k k' \<and> current k' \<noteq> None"
  using assms rt_schedule_ok [of k] sched_rel_tinv by (auto simp: sinv_def)

section \<open>Suspending and resuming\<close>

lemma stopped_timer_stop:
  assumes "thread_timer_ok k t" "\<not> timer_active k (Thread_timer t)"
  shows "rt_timer_stop (Thread_timer t) k = Some (- RT_ERROR, k)"
  using assms by (simp add: rt_timer_stop_def thread_timer_ok_def)

lemma kinv_startedD:
  assumes "sinv k" "started k t"
  shows "prio_ok (threads k t)" "stat_ok (threads k t)" "thread_timer_ok k t"
    "rt_object_get_type (Obj_Thread t) k = class_code Class_Thread"
proof -
  have th: "thread_ok (current k) t (threads k t)"
    using assms(1) kinv_thread [of "{}" k t] by (simp add: sinv_def)
  then show "stat_ok (threads k t)" by (simp add: thread_ok_def)
  have "tstat k t \<in> {RT_THREAD_READY, RT_THREAD_SUSPEND, RT_THREAD_RUNNING}"
    using assms(2) by (auto simp: started_def runnable_def)
  with th show "prio_ok (threads k t)" unfolding thread_ok_def by blast
  show ok: "thread_timer_ok k t" using assms by (simp add: sinv_def tinv_def)
  then show "rt_object_get_type (Obj_Thread t) k = class_code Class_Thread"
    by (simp add: thread_timer_ok_def)
qed

lemma suspend_running:
  assumes s: "sinv k" and c: "current k = Some t" and r: "tstat k t = RT_THREAD_RUNNING"
  shows "rt_thread_suspend t k =
     Some (RT_EOK, upd_thread t (set_stat RT_THREAD_SUSPEND) (the (rt_schedule_remove_thread t k)))"
    "the (rt_schedule_remove_thread t k) = k"
proof -
  have st: "started k t" using r by (simp add: started_def runnable_def)
  note d = kinv_startedD [OF s st]
  have k: "kinv k" using s by (simp add: sinv_def)
  have tl: "tlist (threads k t) = None"
    using kinv_thread [OF k, of t] r by (auto dest: running_unlinked)
  have un: "(\<lambda>h. remove1 t (lists k h)) = lists k"
    using kinv_linked [OF k] tl by (auto simp: linked_ok_def remove1_idem)
  have g: "ready_group k AND NOT (2 ^ prio k t) = ready_group k" if "lists k (Ready (prio k t)) = []"
  proof -
    have "\<not> bit (ready_group k) (prio k t)" using k that by (auto simp: kinv_except_def group_ok_def)
    then show ?thesis by (intro bit_eqI) (auto simp: bit_unmask_bit)
  qed
  have p: "prio k t < 32" "number_mask (threads k t) = 2 ^ prio k t" using d(1) by (auto simp: prio_ok_def)
  have rm: "rt_schedule_remove_thread t k = Some k"
    using remove_thread_eq [OF kinv_linked [OF k] p(1)] un g tl p(2)
    by (simp add: tlist_update_triv cong: if_cong) (auto simp: fun_eq_iff)
  then show "the (rt_schedule_remove_thread t k) = k" by simp
  have "Thread_timer t \<notin> set (timer_list k)" using s r by (auto simp: sinv_def tinv_def)
  then have "\<not> timer_active k (Thread_timer t)" using d(3) by (simp add: thread_timer_ok_def)
  moreover have "thread_timer_ok (upd_thread t (set_stat RT_THREAD_SUSPEND) k) t"
    using d(3) thread_timer_ok_cong [of "upd_thread t (set_stat 2) k" k t] by simp
  ultimately have "rt_timer_stop (Thread_timer t) (upd_thread t (set_stat RT_THREAD_SUSPEND) k) =
      Some (- RT_ERROR, upd_thread t (set_stat RT_THREAD_SUSPEND) k)"
    using stopped_timer_stop [of "upd_thread t (set_stat RT_THREAD_SUSPEND) k" t] by simp
  then show "rt_thread_suspend t k =
     Some (RT_EOK, upd_thread t (set_stat RT_THREAD_SUSPEND) (the (rt_schedule_remove_thread t k)))"
    using d(4) c r rm by (simp add: rt_thread_suspend_def rt_thread_self_def Let_def)
qed

lemma suspend_ok:
  assumes s: "sinv k" and c: "current k = Some t" and r: "tstat k t = RT_THREAD_RUNNING"
  defines "k' \<equiv> upd_thread t (set_stat RT_THREAD_SUSPEND) k"
  shows "rt_thread_suspend t k = Some (RT_EOK, k')" "sinv k'" "tlist (threads k' t) = None"
    "tstat k' t = RT_THREAD_SUSPEND" "Thread_timer t \<notin> set (timer_list k')"
proof -
  show eq: "rt_thread_suspend t k = Some (RT_EOK, k')"
    using suspend_running [OF s c r] by (simp add: k'_def)
  have k: "kinv k" and t: "tinv k" using s by (auto simp: sinv_def)
  have th: "thread_ok (current k) t (threads k t)" using kinv_thread [OF k] by simp
  show tl: "tlist (threads k' t) = None" using th r by (auto simp: k'_def dest: running_unlinked)
  show st: "tstat k' t = RT_THREAD_SUSPEND" by (simp add: k'_def)
  show "Thread_timer t \<notin> set (timer_list k')" using t r by (auto simp: tinv_def k'_def)
  have "kinv_except {t} k'" using kinv_upd_thread [OF k, of "set_stat 2" t] by (simp add: k'_def)
  then have "kinv k'"
    by (rule kinv_close) (use running_unlinked [OF th r] in \<open>simp add: k'_def thread_ok_def stat_ok_def\<close>)
  moreover have "tinv k'"
    by (rule tinv_threads [OF t]) (use r in \<open>auto simp: k'_def started_def runnable_def split: if_splits\<close>)
  ultimately show "sinv k'" by (simp add: sinv_def)
qed

lemma flag_bits [simp]:
  "(f AND -2 :: u8) AND 1 = 0" "(f AND -2 :: u8) AND 2 = f AND 2"
  "(f OR 1 :: u8) AND 1 = 1" "(f OR 1 :: u8) AND 2 = f AND 2"
  by (simp_all add: and.assoc bit.conj_disj_distrib2)

lemma timer_deactivate_objs:
  "objs (timer_deactivate r k) x =
     (if x = Obj_Timer r then (objs k x)\<lparr>obj_flag := obj_flag (objs k x) AND NOT 1\<rparr> else objs k x)"
  by (simp add: timer_deactivate_def timer_remove_def)

lemma timer_deactivate_tinv: "tinv k \<Longrightarrow> tinv (timer_deactivate r k)"
proof -
  assume t: "tinv k"
  let ?k = "timer_deactivate r k"
  have d: "distinct (timer_list k)" using t by (simp add: tinv_def)
  have tl: "timer_list ?k = remove1 r (timer_list k)" "timers ?k = timers k" "threads ?k = threads k"
    by (simp_all add: timer_deactivate_def timer_remove_def)
  have "thread_timer_ok ?k u" if "thread_timer_ok k u" for u
    using that d by (auto simp: thread_timer_ok_def rt_object_get_type_def
        rt_object_is_systemobject_def timer_deactivate_objs tl)
  then show ?thesis using t d by (auto simp: tinv_def tl started_def runnable_def dest: notin_set_remove1)
qed

lemma timer_stop_ok:
  assumes "tinv k" "thread_timer_ok k t"
  shows "\<exists>e k'. rt_timer_stop (Thread_timer t) k = Some (e, k') \<and> tinv k' \<and>
     Thread_timer t \<notin> set (timer_list k') \<and> timers k' = timers k \<and>
     (\<forall>x. x \<noteq> Obj_Timer (Thread_timer t) \<longrightarrow> objs k' x = objs k x) \<and>
     k' = k\<lparr>objs := objs k', timer_list := timer_list k', fired_list := fired_list k'\<rparr>"
proof (cases "timer_active k (Thread_timer t)")
  case True
  let ?k = "timer_deactivate (Thread_timer t) k"
  have "Thread_timer t \<notin> set (timer_list ?k)" using assms(1)
    by (auto simp: tinv_def timer_deactivate_def timer_remove_def)
  moreover have "?k = k\<lparr>objs := objs ?k, timer_list := timer_list ?k, fired_list := fired_list ?k\<rparr>"
    "timers ?k = timers k"
    by (simp_all add: timer_deactivate_def timer_remove_def)
  moreover have "rt_timer_stop (Thread_timer t) k = Some (RT_EOK, ?k)"
    using True assms(2) by (simp add: rt_timer_stop_def thread_timer_ok_def)
  ultimately show ?thesis using timer_deactivate_tinv [OF assms(1)]
    by (metis timer_deactivate_objs)
next
  case False
  then have "Thread_timer t \<notin> set (timer_list k)" using assms(2) by (simp add: thread_timer_ok_def)
  then show ?thesis using stopped_timer_stop [OF assms(2) False] assms(1) by simp
qed

lemma list_remove_susp:
  assumes k: "kinv k" and s: "tstat k t = RT_THREAD_SUSPEND"
  shows "kinv (list_remove t k)"
proof -
  have th: "thread_ok (current k) t (threads k t)" using kinv_thread [OF k] by simp
  have l: "linked_ok k" using kinv_linked [OF k] .
  have "t \<notin> set (lists k (Ready p))" for p
    using th s linked_in [OF l] stat_ok_ready by (fastforce simp: thread_ok_def)
  then have "lists (list_remove t k) (Ready p) = lists k (Ready p)" for p
    by (simp add: list_remove_lists [OF l] remove1_idem)
  then have "group_ok (list_remove t k)" using k by (simp add: group_ok_def kinv_except_def)
  moreover have "thread_ok (current k) u (threads (list_remove t k) u)" for u
    using th s kinv_thread [OF k, of u]
    by (auto simp: list_remove_thread thread_ok_def stat_ok_def prio_ok_def)
  ultimately show ?thesis using linked_ok_remove [OF l] by (simp add: kinv_except_def)
qed

text \<open>The change a resumption makes: one thread joins the ready table or the processor.\<close>

definition resume_rel :: "tid \<Rightarrow> kernel \<Rightarrow> kernel \<Rightarrow> bool" where
  "resume_rel t k k' \<longleftrightarrow>
     (\<exists>s l ls g ob tl fl.
        k' = k\<lparr>threads := (threads k)(t := (threads k t)\<lparr>stat := s, tlist := l\<rparr>),
               lists := ls, ready_group := g, objs := ob, timer_list := tl, fired_list := fl\<rparr>) \<and>
     (\<forall>h. (\<forall>p. h \<noteq> Ready p) \<longrightarrow> lists k' h = remove1 t (lists k h)) \<and>
     (\<forall>x. x \<noteq> Obj_Timer (Thread_timer t) \<longrightarrow> objs k' x = objs k x) \<and>
     runnable k' t"

lemma resume_rel_frame:
  assumes "resume_rel t k k'"
  shows "timers k' = timers k" "containers k' = containers k"
    "lock_nest k' = lock_nest k" "irq_nest k' = irq_nest k" "current k' = current k" "tick k' = tick k"
    "saved k' = saved k" "sems k' = sems k" "mutexes k' = mutexes k" "events k' = events k"
    "mailboxes k' = mailboxes k" "queues k' = queues k" "pools k' = pools k"
    "u \<noteq> t \<Longrightarrow> threads k' u = threads k u"
    "thread_error (threads k' u) = thread_error (threads k u)"
    "current_priority (threads k' u) = current_priority (threads k u)"
    "event_set (threads k' u) = event_set (threads k u)"
    "event_info (threads k' u) = event_info (threads k u)"
    "lists k' (Suspended_on r) = remove1 t (lists k (Suspended_on r))"
    "lists k' (Senders_of r) = remove1 t (lists k (Senders_of r))" "runnable k' t"
    "x \<noteq> Obj_Timer (Thread_timer t) \<Longrightarrow> objs k' x = objs k x" "devipc k' = devipc k"
  using assms by (auto simp: resume_rel_def)

lemma insert_thread_shape:
  assumes "rt_schedule_insert_thread t k = Some k'" "tlist (threads k t) = None" "prio k t < 32"
  obtains s l ls g where
    "k' = k\<lparr>threads := (threads k)(t := (threads k t)\<lparr>stat := s, tlist := l\<rparr>),
            lists := ls, ready_group := g\<rparr>"
    "s AND 7 = RT_THREAD_READY \<or> s AND 7 = RT_THREAD_RUNNING"
    "\<forall>h. (\<forall>p. h \<noteq> Ready p) \<longrightarrow> ls h = lists k h"
proof (cases "current k = Some t")
  case True
  have "upd_thread t (set_stat 3) k =
     k\<lparr>threads := (threads k)(t := (threads k t)\<lparr>stat := 3 OR (stat (threads k t) AND NOT 7), tlist := None\<rparr>),
       lists := lists k, ready_group := ready_group k\<rparr>"
    using assms(2) by (simp add: set_stat_def tlist_update_triv)
  moreover have "k' = upd_thread t (set_stat 3) k"
    using True assms(1) by (simp add: rt_schedule_insert_thread_def)
  ultimately show ?thesis
    by (intro that [where s = "3 OR (stat (threads k t) AND NOT 7)" and l = None and ls = "lists k"
        and g = "ready_group k"]) simp_all
next
  case False
  then show ?thesis using insert_thread_eq [OF False assms(2,3)] assms(1) that
    by (auto simp: set_stat_def)
qed

lemma list_remove_shape:
  obtains ls where "list_remove t k = k\<lparr>threads := (threads k)(t := (threads k t)\<lparr>tlist := None\<rparr>), lists := ls\<rparr>"
proof (cases "tlist (threads k t)")
  case None
  then show ?thesis using that [of "lists k"] by (simp add: list_remove_def tlist_update_triv)
next
  case (Some h)
  then show ?thesis using that [of "(lists k)(h := remove1 t (lists k h))"]
    by (simp add: list_remove_def)
qed

lemma resume_ok:
  assumes s: "sinv k" and st: "tstat k t = RT_THREAD_SUSPEND"
  shows "\<exists>k'. rt_thread_resume t k = Some (RT_EOK, k') \<and> sinv k' \<and> resume_rel t k k'"
proof -
  have k: "kinv k" and ti: "tinv k" using s by (auto simp: sinv_def)
  have "started k t" using st by (simp add: started_def)
  note d = kinv_startedD [OF s this]
  define k1 where "k1 = list_remove t k"
  have k1: "kinv k1" unfolding k1_def by (rule list_remove_susp [OF k st])
  have f1: "objs k1 = objs k" "timers k1 = timers k" "timer_list k1 = timer_list k"
    "tstat k1 u = tstat k u" for u
    by (auto simp: k1_def list_remove_def split: option.splits)
  have t1: "tinv k1" by (rule tinv_threads [OF ti]) (auto simp: f1 started_def runnable_def)
  have l1: "lists k1 h = remove1 t (lists k h)" for h
    unfolding k1_def by (rule list_remove_lists [OF kinv_linked [OF k]])
  obtain ls1 where e1: "k1 = k\<lparr>threads := (threads k)(t := (threads k t)\<lparr>tlist := None\<rparr>), lists := ls1\<rparr>"
    unfolding k1_def by (rule list_remove_shape)
  have "thread_timer_ok k1 t" using d(3) thread_timer_ok_cong [OF f1(1-3)] by simp
  then obtain e k2 where k2: "rt_timer_stop (Thread_timer t) k1 = Some (e, k2)" "tinv k2"
      "Thread_timer t \<notin> set (timer_list k2)" "timers k2 = timers k1"
      "\<forall>x. x \<noteq> Obj_Timer (Thread_timer t) \<longrightarrow> objs k2 x = objs k1 x"
      "k2 = k1\<lparr>objs := objs k2, timer_list := timer_list k2, fired_list := fired_list k2\<rparr>"
    using timer_stop_ok [OF t1] by blast
  have r2: "timer_rel k1 k2" by (rule timer_stop_rel [OF k2(1)])
  have kk2: "kinv k2" using timer_rel_kinv [OF r2] k1 by simp
  have th2: "threads k2 t = (threads k t)\<lparr>tlist := None\<rparr>"
    using timer_rel_frame(1) [OF r2] by (simp add: k1_def list_remove_thread)
  then obtain k3 where k3: "rt_schedule_insert_thread t k2 = Some k3" "kinv k3"
    using insert_thread_kinv [OF kk2, of t] d(1) by (auto simp: prio_ok_def)
  have p2: "tlist (threads k2 t) = None" "prio k2 t < 32" using d(1) th2 by (simp_all add: prio_ok_def)
  obtain s' l' ls g where e3: "k3 = k2\<lparr>threads := (threads k2)(t := (threads k2 t)\<lparr>stat := s', tlist := l'\<rparr>),
            lists := ls, ready_group := g\<rparr>"
    and s': "s' AND 7 = RT_THREAD_READY \<or> s' AND 7 = RT_THREAD_RUNNING"
    and ls: "\<forall>h. (\<forall>p. h \<noteq> Ready p) \<longrightarrow> ls h = lists k2 h"
    by (rule insert_thread_shape [OF k3(1) p2])
  have st2: "tstat k2 t = RT_THREAD_SUSPEND" using th2 st by simp
  have t3: "tinv k3"
    by (rule tinv_threads [OF k2(2)])
      (use st2 k2(3) in \<open>auto simp: e3 started_def runnable_def\<close>)
  have "resume_rel t k k3"
    unfolding resume_rel_def
  proof (intro conjI)
    obtain ob tl fl where "k2 = k1\<lparr>objs := ob, timer_list := tl, fired_list := fl\<rparr>"
      using k2(6) by blast
    then have "k3 = k\<lparr>threads := (threads k)(t := (threads k t)\<lparr>stat := s', tlist := l'\<rparr>), lists := ls,
       ready_group := g, objs := ob, timer_list := tl, fired_list := fl\<rparr>"
      unfolding e3 th2 by (simp add: e1)
    then show "\<exists>s l ls g ob tl fl.
        k3 = k\<lparr>threads := (threads k)(t := (threads k t)\<lparr>stat := s, tlist := l\<rparr>),
               lists := ls, ready_group := g, objs := ob, timer_list := tl, fired_list := fl\<rparr>" by blast
    show "\<forall>h. (\<forall>p. h \<noteq> Ready p) \<longrightarrow> lists k3 h = remove1 t (lists k h)"
      using ls timer_rel_frame(2) [OF r2] l1 by (simp add: e3)
    show "\<forall>x. x \<noteq> Obj_Timer (Thread_timer t) \<longrightarrow> objs k3 x = objs k x"
      using k2(5) f1(1) by (simp add: e3)
    show "runnable k3 t" using s' by (simp add: e3 runnable_def)
  qed
  moreover have "rt_thread_resume t k = Some (RT_EOK, k3)"
    using d(4) st k2(1) k3(1) by (simp add: rt_thread_resume_def k1_def Let_def)
  ultimately show ?thesis using k3(2) t3 by (auto simp: sinv_def)
qed

section \<open>Arming the thread timer\<close>

lemma timer_start_tinv:
  assumes t: "tinv k" and ok: "thread_timer_ok k t" and st: "tstat k t = RT_THREAD_SUSPEND"
  shows "\<exists>k'. rt_timer_start (Thread_timer t) k = Some (RT_EOK, k') \<and> tinv k' \<and> timer_rel k k' \<and>
     Thread_timer t \<in> set (timer_list k')"
proof -
  let ?r = "Thread_timer t"
  define k1 where "k1 = timer_deactivate ?r k"
  have t1: "tinv k1" unfolding k1_def by (rule timer_deactivate_tinv [OF t])
  have nin: "?r \<notin> set (timer_list k1)"
    using t by (auto simp: k1_def timer_deactivate_def timer_remove_def tinv_def)
  have st1: "tstat k1 t = RT_THREAD_SUSPEND" using st by (simp add: k1_def timer_deactivate_def timer_remove_def)
  have ok1: "thread_timer_ok k1 t" using t1 st1 by (auto simp: tinv_def started_def)
  obtain tm i where s: "rt_timer_start ?r k =
      Some (RT_EOK, k1\<lparr>timers := (timers k1)(?r := (timers k1 ?r)\<lparr>timeout_tick := tm\<rparr>),
         timer_list := insert_at i ?r (timer_list k1),
         objs := (objs k1)(Obj_Timer ?r := (objs k1 (Obj_Timer ?r))\<lparr>obj_flag :=
             obj_flag (objs k1 (Obj_Timer ?r)) OR 1\<rparr>)\<rparr>)" (is "_ = Some (_, ?k2)")
    using ok by (simp add: rt_timer_start_def Let_def k1_def [symmetric] thread_timer_ok_def)
  have other: "thread_timer_ok ?k2 u \<longleftrightarrow> thread_timer_ok k1 u" if "u \<noteq> t" for u
    using that by (simp add: thread_timer_ok_def rt_object_get_type_def rt_object_is_systemobject_def)
  have "thread_timer_ok ?k2 t"
    using ok1 by (simp add: thread_timer_ok_def rt_object_get_type_def rt_object_is_systemobject_def)
  with other t1 have all: "thread_timer_ok ?k2 u" if "started k1 u" for u
    using that by (cases "u = t") (auto simp: tinv_def)
  have "started ?k2 u \<longleftrightarrow> started k1 u" for u by (simp add: started_def runnable_def)
  with all t1 nin st1 have "tinv ?k2" unfolding tinv_def by simp
  moreover have "timer_rel k ?k2" by (rule timer_start_rel [OF s])
  ultimately show ?thesis using s by auto
qed

lemma thread_arm_ok:
  assumes s: "sinv k" and st: "tstat k t = RT_THREAD_SUSPEND" and x: "x < RT_TICK_MAX_HALF"
  shows "\<exists>k'. thread_arm t x k = Some k' \<and> sinv k' \<and> timer_rel k k' \<and>
     Thread_timer t \<in> set (timer_list k')"
proof -
  have ok: "thread_timer_ok k t"
    using s st by (auto simp: sinv_def tinv_def started_def)
  let ?k1 = "upd_timer (Thread_timer t) (\<lambda>tm. tm\<lparr>init_tick := x\<rparr>) k"
  have c: "rt_timer_control (Thread_timer t) (CTRL_SET_TIME x) k = Some (RT_EOK, None, ?k1)"
    using ok x by (simp add: rt_timer_control_def thread_timer_ok_def)
  have same: "thread_timer_ok ?k1 u \<longleftrightarrow> thread_timer_ok k u" for u
    by (simp add: thread_timer_ok_def rt_object_get_type_def rt_object_is_systemobject_def)
  then have t1: "tinv ?k1" using s by (simp add: tinv_def sinv_def started_def runnable_def)
  have "thread_timer_ok ?k1 t" using same ok by blast
  from timer_start_tinv [OF t1 this] st obtain k2 where k2:
    "rt_timer_start (Thread_timer t) ?k1 = Some (RT_EOK, k2)" "tinv k2" "timer_rel ?k1 k2"
    "Thread_timer t \<in> set (timer_list k2)" by auto
  have "timer_rel k ?k1" by (rule timer_control_rel [OF c])
  then have r: "timer_rel k k2" using k2(3) by (rule timer_rel_trans)
  then have "kinv k2" using timer_rel_kinv s by (simp add: sinv_def)
  with k2 r c show ?thesis by (simp add: thread_arm_def sinv_def)
qed

section \<open>Neutral changes\<close>

lemma sinv_cong:
  assumes "threads k' = threads k" "lists k' = lists k" "ready_group k' = ready_group k"
    "current k' = current k" "objs k' = objs k" "timers k' = timers k" "timer_list k' = timer_list k"
  shows "sinv k' \<longleftrightarrow> sinv k"
  using kinv_cong [OF assms(1-4)] thread_timer_ok_cong [OF assms(5-7)]
  by (simp add: sinv_def tinv_def started_def runnable_def assms)

lemma sinv_upd_neutral:
  assumes "tlist (f (threads k t)) = tlist (threads k t)"
    "stat (f (threads k t)) AND 7 = tstat k t"
    "current_priority (f (threads k t)) = current_priority (threads k t)"
    "number_mask (f (threads k t)) = number_mask (threads k t)"
  shows "sinv (upd_thread t f k) \<longleftrightarrow> sinv k"
proof -
  let ?k = "upd_thread t f k"
  have st: "tstat ?k u = tstat k u" for u using assms by simp
  then have "started ?k u \<longleftrightarrow> started k u" for u unfolding started_def runnable_def by simp
  with st have "tinv ?k \<longleftrightarrow> tinv k"
    using thread_timer_ok_cong [of ?k k] unfolding tinv_def by simp
  moreover have "thread_ok c u (threads ?k u) \<longleftrightarrow> thread_ok c u (threads k u)" for c u
    using thread_ok_cong [OF assms] by simp
  moreover have "tlist (threads ?k u) = tlist (threads k u)" for u using assms(1) by simp
  ultimately show ?thesis
    by (simp add: sinv_def kinv_except_def linked_ok_def group_ok_def del: fun_upd_apply)
qed

lemma set_error_sinv [simp]: "sinv (upd_thread t (\<lambda>th. th\<lparr>thread_error := e\<rparr>) k) \<longleftrightarrow> sinv k"
  by (rule sinv_upd_neutral) simp_all

section \<open>Timeout of a waiting thread\<close>

text \<open>
  The timeout of a waiting thread never fails: the thread leaves its list and can run
  again, with \<open>-RT_ETIMEOUT\<close> as its error.
\<close>

lemma thread_timeout_ok:
  assumes s: "sinv k" and st: "tstat k t = RT_THREAD_SUSPEND"
    and tm: "Thread_timer t \<notin> set (timer_list k)" and c: "current k \<noteq> None"
  shows "\<exists>k'. thread_timeout t k = Some k' \<and> sinv k' \<and> runnable k' t \<and>
     thread_error (threads k' t) = - RT_ETIMEOUT \<and> timer_list k' = timer_list k \<and>
     timers k' = timers k \<and> objs k' = objs k \<and> fired_list k' = fired_list k \<and> tick k' = tick k \<and>
     current k' \<noteq> None \<and> saved k' = saved k"
proof -
  define k1 where "k1 = upd_thread t (\<lambda>th. th\<lparr>thread_error := - RT_ETIMEOUT\<rparr>) k"
  have s1: "kinv k1" "tinv k1" using s set_error_sinv [where t = t and e = "- 2" and k = k] by (auto simp: k1_def sinv_def)
  have st1: "tstat k1 t = RT_THREAD_SUSPEND" using st by (simp add: k1_def)
  have "started k t" using st by (simp add: started_def)
  note d = kinv_startedD [OF s this]
  define k2 where "k2 = list_remove t k1"
  obtain ls where e2: "k2 = k1\<lparr>threads := (threads k1)(t := (threads k1 t)\<lparr>tlist := None\<rparr>), lists := ls\<rparr>"
    unfolding k2_def by (rule list_remove_shape)
  have kk2: "kinv k2" unfolding k2_def by (rule list_remove_susp [OF s1(1) st1])
  have t2: "tinv k2" by (rule tinv_threads [OF s1(2)]) (auto simp: e2 started_def runnable_def)
  have p: "tlist (threads k2 t) = None" "prio_ok (threads k2 t)" "prio k2 t < 32"
    using d(1) by (simp_all add: e2 k1_def prio_ok_def)
  then obtain k3 where k3: "rt_schedule_insert_thread t k2 = Some k3" "kinv k3"
    using insert_thread_kinv [OF kk2, of t] by auto
  obtain s' l' ls' g where e3: "k3 = k2\<lparr>threads := (threads k2)(t := (threads k2 t)\<lparr>stat := s', tlist := l'\<rparr>),
            lists := ls', ready_group := g\<rparr>"
    and s': "s' AND 7 = RT_THREAD_READY \<or> s' AND 7 = RT_THREAD_RUNNING"
    by (rule insert_thread_shape [OF k3(1) p(1,3)])
  have t3: "tinv k3"
    by (rule tinv_threads [OF t2])
      (use st1 tm in \<open>auto simp: e3 e2 k1_def started_def runnable_def\<close>)
  have c3: "current k3 \<noteq> None" using c by (simp add: e3 e2 k1_def)
  obtain k4 where k4: "rt_schedule k3 = Some k4" "sinv k4" "sched_rel k3 k4" "current k4 \<noteq> None"
    using rt_schedule_sinv [of k3] k3(2) t3 c3 by (auto simp: sinv_def)
  have "runnable k3 t" using s' by (simp add: runnable_def e3)
  then have "runnable k4 t" using k4(3) by (simp add: sched_rel_def)
  moreover have "thread_timeout t k = Some k4"
    using st d(4) k3(1) k4(1) by (simp add: thread_timeout_def Let_def k1_def k2_def)
  moreover have "thread_error (threads k4 t) = - RT_ETIMEOUT"
    using sched_rel_thread(3) [OF k4(3)] by (simp add: e3 e2 k1_def)
  ultimately show ?thesis
    using k4 sched_rel_frame [OF k4(3)] by (simp add: e3 e2 k1_def)
qed

section \<open>Changing a priority\<close>

definition prio_rel :: "tid \<Rightarrow> u8 \<Rightarrow> kernel \<Rightarrow> kernel \<Rightarrow> bool" where
  "prio_rel t p k k' \<longleftrightarrow>
     (\<exists>s l ls g. k' = k\<lparr>threads := (threads k)(t := (set_priority p (threads k t))\<lparr>stat := s, tlist := l\<rparr>),
                        lists := ls, ready_group := g\<rparr>) \<and>
     (\<forall>h. (\<forall>q. h \<noteq> Ready q) \<longrightarrow> lists k' h = lists k h) \<and>
     tstat k' t = tstat k t"

lemma prio_rel_frame:
  assumes "prio_rel t p k k'"
  shows "timers k' = timers k" "objs k' = objs k" "containers k' = containers k" "timer_list k' = timer_list k"
    "lock_nest k' = lock_nest k" "irq_nest k' = irq_nest k" "current k' = current k" "tick k' = tick k"
    "saved k' = saved k" "sems k' = sems k" "mutexes k' = mutexes k" "events k' = events k"
    "mailboxes k' = mailboxes k" "queues k' = queues k" "pools k' = pools k"
    "u \<noteq> t \<Longrightarrow> threads k' u = threads k u" "tstat k' u = tstat k u"
    "thread_error (threads k' u) = thread_error (threads k u)"
    "current_priority (threads k' u) = (if u = t then p else current_priority (threads k u))"
    "lists k' (Suspended_on r) = lists k (Suspended_on r)" "lists k' (Senders_of r) = lists k (Senders_of r)"
    "devipc k' = devipc k"
  using assms by (auto simp: prio_rel_def set_priority_def)

lemma set_priority_simps [simp]:
  "tlist (set_priority p th) = tlist th" "stat (set_priority p th) = stat th"
  "current_priority (set_priority p th) = p" "number_mask (set_priority p th) = 2 ^ unat p"
  "thread_error (set_priority p th) = thread_error th"
  by (simp_all add: set_priority_def)

lemma prio_rel_tinv: "prio_rel t p k k' \<Longrightarrow> tinv k \<Longrightarrow> tinv k'"
  by (rule tinv_threads) (auto simp: prio_rel_frame started_def runnable_def)

lemma change_priority_ok:
  assumes s: "sinv k" and p: "unat p < 32"
  shows "\<exists>k'. rt_thread_change_priority t p k = Some k' \<and> sinv k' \<and> prio_rel t p k k'"
proof (cases "tstat k t = RT_THREAD_READY")
  case True
  have k: "kinv k" using s by (simp add: sinv_def)
  have "started k t" using True by (simp add: started_def runnable_def)
  note d = kinv_startedD [OF s this]
  have p0: "prio k t < 32" using d(1) by (simp add: prio_ok_def)
  have tl: "tlist (threads k t) = Some (Ready (prio k t))"
    using d(2) True by (auto simp: stat_ok_def elim: link_stat.elims)
  have nc: "current k \<noteq> Some t" using True kinv_thread [OF k, of t] by (auto simp: thread_ok_def)
  obtain g where rm: "rt_schedule_remove_thread t k =
      Some (k\<lparr>threads := (threads k)(t := (threads k t)\<lparr>tlist := None\<rparr>),
              lists := (\<lambda>h. remove1 t (lists k h)), ready_group := g\<rparr>)" (is "_ = Some ?k1")
    using remove_thread_eq [OF kinv_linked [OF k] p0] by blast
  have k1: "kinv_except {t} ?k1" using remove_thread_kinv [OF k d(2,1) rm] by simp
  define k2 where "k2 = upd_thread t (set_priority p) ?k1"
  have "kinv_except (insert t {t}) k2" unfolding k2_def by (rule kinv_upd_thread [OF k1]) simp
  then have k2: "kinv_except {t} k2" by simp
  have t2: "tlist (threads k2 t) = None" "prio_ok (threads k2 t)" "prio k2 t < 32" "current k2 \<noteq> Some t"
    using p nc by (simp_all add: k2_def prio_ok_def)
  obtain k3 where k3: "rt_schedule_insert_thread t k2 = Some k3" "kinv k3"
    using insert_thread_kinv [OF k2 t2(1,2)] by auto
  have e3: "k3 = k2\<lparr>threads := (threads k2)(t := (set_stat RT_THREAD_READY (threads k2 t))\<lparr>tlist := Some (Ready (prio k2 t))\<rparr>),
            lists := (lists k2)(Ready (prio k2 t) := lists k2 (Ready (prio k2 t)) @ [t]),
            ready_group := ready_group k2 OR number_mask (threads k2 t)\<rparr>"
    using insert_thread_eq [OF t2(4,1,3)] k3(1) by simp
  have un: "remove1 t (lists k h) = lists k h" if "\<forall>q. h \<noteq> Ready q" for h
    using tl that linked_in [OF kinv_linked [OF k]] by (intro remove1_idem) auto
  have "prio_rel t p k k3" unfolding prio_rel_def
  proof (intro conjI)
    show "\<exists>s l ls g. k3 = k\<lparr>threads := (threads k)(t := (set_priority p (threads k t))\<lparr>stat := s, tlist := l\<rparr>),
                        lists := ls, ready_group := g\<rparr>"
      by (intro exI [of _ "RT_THREAD_READY OR (stat (threads k t) AND NOT 7)"]
          exI [of _ "Some (Ready (unat p))"] exI [of _ "lists k3"] exI [of _ "ready_group k3"])
        (simp add: e3 k2_def set_priority_def set_stat_def)
  qed (use True un in \<open>simp_all add: e3 k2_def\<close>)
  moreover have "rt_thread_change_priority t p k = Some k3"
    using True rm k3(1) p by (simp add: rt_thread_change_priority_def k2_def)
  ultimately show ?thesis using k3(2) prio_rel_tinv s by (auto simp: sinv_def)
next
  case False
  let ?k = "upd_thread t (set_priority p) k"
  have k: "kinv k" using s by (simp add: sinv_def)
  have th: "thread_ok (current k) t (threads k t)" using kinv_thread [OF k] by simp
  then have "link_stat (tlist (threads k t)) (tstat k t) (unat p)"
    using False by (auto simp: thread_ok_def stat_ok_def elim: link_stat.elims)
  then have "thread_ok (current k) t (set_priority p (threads k t))"
    using th p by (auto simp: thread_ok_def stat_ok_def prio_ok_def)
  moreover have "kinv_except {t} ?k" using kinv_upd_thread [OF k, of "set_priority p" t] by simp
  ultimately have "kinv ?k" using kinv_close [of t "{}" ?k] by simp
  moreover have r: "prio_rel t p k ?k"
  proof -
    have "?k = k\<lparr>threads := (threads k)(t := (set_priority p (threads k t))\<lparr>stat := stat (threads k t), tlist := tlist (threads k t)\<rparr>),
        lists := lists k, ready_group := ready_group k\<rparr>" by (simp add: set_priority_def)
    then have "\<exists>s l ls g. ?k = k\<lparr>threads := (threads k)(t := (set_priority p (threads k t))\<lparr>stat := s, tlist := l\<rparr>),
        lists := ls, ready_group := g\<rparr>" by blast
    then show ?thesis unfolding prio_rel_def by simp
  qed
  ultimately show ?thesis
    using False p prio_rel_tinv [OF r] s by (auto simp: rt_thread_change_priority_def sinv_def)
qed


section \<open>Starting, closing and sleeping\<close>

lemma startup_ok:
  assumes s: "sinv k" and st: "tstat k t = RT_THREAD_INIT" and p: "prio k t < 32"
    and ok: "thread_timer_ok k t"
  shows "\<exists>k'. rt_thread_startup t k = Some (RT_EOK, k') \<and> sinv k' \<and> runnable k' t"
proof -
  define k1 where "k1 = upd_thread t (\<lambda>th. th\<lparr>number_mask := push_bit (unat (current_priority th)) 1,
                                       stat := RT_THREAD_SUSPEND\<rparr>) k"
  have k: "kinv k" and ti: "tinv k" using s by (auto simp: sinv_def)
  have th: "thread_ok (current k) t (threads k t)" using kinv_thread [OF k] by simp
  have tl: "tlist (threads k t) = None"
    using th st by (auto simp: thread_ok_def stat_ok_def elim: link_stat.elims)
  have nc: "current k \<noteq> Some t" using th st by (auto simp: thread_ok_def)
  have "kinv_except {t} k1" unfolding k1_def
    by (rule kinv_upd_thread [OF k, where f = "\<lambda>th. th\<lparr>number_mask := push_bit (unat (current_priority th)) 1,
          stat := RT_THREAD_SUSPEND\<rparr>"]) simp
  then have "kinv k1"
    by (rule kinv_close) (use tl p nc in \<open>simp add: k1_def thread_ok_def stat_ok_def prio_ok_def\<close>)
  moreover have "tinv k1"
  proof -
    have "thread_timer_ok k1 u \<longleftrightarrow> thread_timer_ok k u" for u
      by (rule thread_timer_ok_cong) (simp_all add: k1_def)
    moreover have "started k1 u \<Longrightarrow> u = t \<or> started k u" for u
      by (auto simp: k1_def started_def runnable_def split: if_splits)
    moreover have "Thread_timer t \<notin> set (timer_list k)" using ti st by (auto simp: tinv_def)
    ultimately show ?thesis using ti ok unfolding tinv_def by (auto simp: k1_def)
  qed
  ultimately have s1: "sinv k1" by (simp add: sinv_def)
  have st1: "tstat k1 t = RT_THREAD_SUSPEND" by (simp add: k1_def)
  obtain k2 where k2: "rt_thread_resume t k1 = Some (RT_EOK, k2)" "sinv k2" "resume_rel t k1 k2"
    using resume_ok [OF s1 st1] by blast
  have r2: "runnable k2 t" using resume_rel_frame(21) [OF k2(3)] .
  have "\<exists>k3. (if rt_thread_self k2 \<noteq> None then rt_schedule k2 else Some k2) = Some k3 \<and> sinv k3 \<and> runnable k3 t"
  proof (cases "current k2 = None")
    case False
    then obtain k3 where "rt_schedule k2 = Some k3" "sinv k3" "sched_rel k2 k3"
      using rt_schedule_sinv [OF k2(2)] by blast
    then show ?thesis using False r2 by (auto simp: rt_thread_self_def sched_rel_def)
  qed (use k2 r2 in \<open>simp add: rt_thread_self_def\<close>)
  then show ?thesis
    using st ok k2(1) by (auto simp: rt_thread_startup_def thread_timer_ok_def k1_def)
qed

lemma yield_ok:
  assumes s: "sinv k" and c: "current k = Some t"
  shows "\<exists>k'. rt_thread_yield k = Some (RT_EOK, k') \<and> sinv k' \<and> current k' \<noteq> None"
proof -
  let ?k = "upd_thread t (\<lambda>th. th\<lparr>remaining_tick := thread_init_tick th, stat := stat th OR 8\<rparr>) k"
  have "sinv ?k" using s sinv_upd_neutral [where k = k and t = t and f = "\<lambda>th. th\<lparr>remaining_tick := thread_init_tick th, stat := stat th OR 8\<rparr>"]
    by simp
  from rt_schedule_sinv [OF this] c show ?thesis
    by (auto simp: rt_thread_yield_def rt_thread_self_def)
qed

lemma sleep_for_ok:
  assumes s: "sinv k" and c: "current k = Some t" and r: "tstat k t = RT_THREAD_RUNNING"
    and x: "x < RT_TICK_MAX_HALF"
  shows "\<exists>k'. thread_sleep_for t x k = Some k' \<and> sinv k' \<and> current k' \<noteq> None \<and>
     tstat k' t = RT_THREAD_SUSPEND \<and> Thread_timer t \<in> set (timer_list k') \<and> saved k' t = In_sleep"
proof -
  let ?k1 = "upd_thread t (set_stat RT_THREAD_SUSPEND) k"
  note sp = suspend_ok [OF s c r]
  obtain k2 where k2: "thread_arm t x ?k1 = Some k2" "sinv k2" "timer_rel ?k1 k2"
      "Thread_timer t \<in> set (timer_list k2)"
    using thread_arm_ok [OF sp(2,4) x] by blast
  let ?k3 = "k2\<lparr>saved := (saved k2)(t := In_sleep)\<rparr>"
  have "sinv ?k3" using k2(2) sinv_cong [of ?k3 k2] by simp
  moreover have "current ?k3 \<noteq> None" using timer_rel_frame(6) [OF k2(3)] c by simp
  ultimately obtain k4 where k4: "rt_schedule ?k3 = Some k4" "sinv k4" "sched_rel ?k3 k4" "current k4 \<noteq> None"
    using rt_schedule_sinv by blast
  have "tstat ?k3 t = RT_THREAD_SUSPEND" using timer_rel_frame(1) [OF k2(3)] sp(4) by simp
  then have "tstat k4 t = RT_THREAD_SUSPEND" using sched_rel_started(2) [OF k4(3)] by blast
  then show ?thesis
    using k4 sched_rel_frame [OF k4(3)] k2 sp(1) by (auto simp: thread_sleep_for_def)
qed

text \<open>Taking a thread out of its list, whatever its status, leaves only it out of order.\<close>

lemma unlink_for_close:
  assumes s: "sinv k" and st: "started k t \<or> tstat k t = RT_THREAD_INIT"
  shows "\<exists>k'. (if tstat k t \<noteq> RT_THREAD_INIT then rt_schedule_remove_thread t k else Some k) = Some k' \<and>
     kinv_except {t} k' \<and> tlist (threads k' t) = None \<and> objs k' = objs k \<and> timers k' = timers k \<and>
     timer_list k' = timer_list k \<and> current k' = current k \<and> (\<forall>u. u \<noteq> t \<longrightarrow> threads k' u = threads k u)"
proof (cases "tstat k t = RT_THREAD_INIT")
  case True
  have k: "kinv k" using s by (simp add: sinv_def)
  have "tlist (threads k t) = None"
    using kinv_thread [OF k, of t] True by (auto simp: thread_ok_def stat_ok_def elim: link_stat.elims)
  then show ?thesis using True kinv_mono [OF k, of "{t}"] by simp
next
  case False
  have k: "kinv k" using s by (simp add: sinv_def)
  note d = kinv_startedD [OF s, of t]
  have d12: "prio_ok (threads k t)" "stat_ok (threads k t)" using d st False by auto
  have p0: "prio k t < 32" using d12 by (simp add: prio_ok_def)
  obtain g where rm: "rt_schedule_remove_thread t k =
        Some (k\<lparr>threads := (threads k)(t := (threads k t)\<lparr>tlist := None\<rparr>),
                lists := (\<lambda>h. remove1 t (lists k h)), ready_group := g\<rparr>)"
    using remove_thread_eq [OF kinv_linked [OF k] p0] by blast
  have "kinv_except {t} (k\<lparr>threads := (threads k)(t := (threads k t)\<lparr>tlist := None\<rparr>),
                lists := (\<lambda>h. remove1 t (lists k h)), ready_group := g\<rparr>)"
    using remove_thread_kinv [OF k d12(2,1) rm] by simp
  then show ?thesis using False rm by simp
qed

text \<open>The rest of the way to the list of closed threads.\<close>

lemma close_tail_ok:
  assumes k: "kinv_except {t} k" and tl: "tlist (threads k t) = None" and ti: "tinv k0"
    and ok: "thread_timer_ok k0 t"
    and f: "objs k = objs k0" "timers k = timers k0" "timer_list k = timer_list k0"
      "\<forall>u. u \<noteq> t \<longrightarrow> threads k u = threads k0 u"
  shows "\<exists>k'. do {
          (_, k2) \<leftarrow> rt_timer_detach (Thread_timer t) k;
          let k3 = upd_thread t (\<lambda>th. th\<lparr>stat := RT_THREAD_CLOSE\<rparr>) k2;
          rt_thread_defunct_enqueue t k3
        } = Some k' \<and> sinv k' \<and> tstat k' t = RT_THREAD_CLOSE \<and>
      lists k' Defunct = t # lists k Defunct \<and> current k' = current k"
proof -
  have ok1: "thread_timer_ok k t" using ok thread_timer_ok_cong [OF f(1-3)] by simp
  define k2 where "k2 = rt_object_detach (Obj_Timer (Thread_timer t)) (timer_deactivate (Thread_timer t) k)"
  have dt: "rt_timer_detach (Thread_timer t) k = Some (RT_EOK, k2)"
    using ok1 by (simp add: rt_timer_detach_def thread_timer_ok_def k2_def)
  have r2: "timer_rel k k2" by (rule timer_detach_rel [OF dt])
  define k3 where "k3 = upd_thread t (\<lambda>th. th\<lparr>stat := RT_THREAD_CLOSE\<rparr>) k2"
  define k4 where "k4 = (upd_thread t (tlist_update (\<lambda>_. Some Defunct)) k3)
       \<lparr>lists := (lists k3)(Defunct := t # lists k3 Defunct)\<rparr>"
  note fr = timer_rel_frame [OF r2]
  have enq: "rt_thread_defunct_enqueue t k3 = Some k4"
    using tl by (simp add: rt_thread_defunct_enqueue_def list_insert_after_def list_insert_at_def
        k4_def k3_def fr)
  have "kinv k4"
  proof -
    have l: "linked_ok k" "group_ok k" using k by (auto simp: kinv_except_def)
    have "t \<notin> set (lists k h)" for h using l tl by (simp add: linked_ok_def)
    then have "linked_ok k4" using l tl by (auto simp: linked_ok_def k4_def k3_def fr)
    moreover have "group_ok k4" using l by (simp add: group_ok_def k4_def k3_def fr)
    moreover have "thread_ok (current k4) u (threads k4 u)" for u
      using k by (cases "u = t") (auto simp: k4_def k3_def fr kinv_except_def thread_ok_def stat_ok_def)
    ultimately show ?thesis by (simp add: kinv_except_def)
  qed
  moreover have "tinv k4"
  proof -
    have tm: "timer_list k4 = remove1 (Thread_timer t) (timer_list k0)" "timers k4 = timers k0"
      by (simp_all add: k4_def k3_def k2_def rt_object_detach_def timer_deactivate_def timer_remove_def f)
    have ob: "objs k4 x = objs k0 x" if "x \<noteq> Obj_Timer (Thread_timer t)" for x
      using that by (simp add: k4_def k3_def k2_def rt_object_detach_def timer_deactivate_def timer_remove_def f)
    have "thread_timer_ok k4 u \<longleftrightarrow> thread_timer_ok k0 u" if "u \<noteq> t" for u
      using that by (simp add: thread_timer_ok_def rt_object_get_type_def rt_object_is_systemobject_def ob tm)
    moreover have st: "tstat k4 u = (if u = t then 4 else tstat k0 u)" for u
      using f(4) by (simp add: k4_def k3_def fr)
    then have "started k4 u \<longleftrightarrow> u \<noteq> t \<and> started k0 u" for u
      unfolding started_def runnable_def by simp
    moreover have "distinct (timer_list k0)" using ti by (simp add: tinv_def)
    ultimately show ?thesis using ti unfolding tinv_def tm st by auto
  qed
  ultimately show ?thesis using dt enq
    by (auto simp: k3_def k4_def fr sinv_def)
qed

lemma thread_close_ok:
  assumes s: "sinv k" and st: "started k t \<or> tstat k t = RT_THREAD_INIT" and ok: "thread_timer_ok k t"
  shows "\<exists>k'. thread_close t k = Some (RT_EOK, k') \<and> sinv k' \<and> tstat k' t = RT_THREAD_CLOSE \<and>
      hd (lists k' Defunct) = t \<and> current k' = current k"
proof -
  obtain k1 where k1: "(if tstat k t \<noteq> RT_THREAD_INIT then rt_schedule_remove_thread t k else Some k) = Some k1"
     "kinv_except {t} k1" "tlist (threads k1 t) = None" "objs k1 = objs k" "timers k1 = timers k"
     "timer_list k1 = timer_list k" "current k1 = current k" "\<forall>u. u \<noteq> t \<longrightarrow> threads k1 u = threads k u"
    using unlink_for_close [OF s st] by blast
  have nc: "tstat k t \<noteq> RT_THREAD_CLOSE" using st by (auto simp: started_def runnable_def)
  have ti: "tinv k" using s by (simp add: sinv_def)
  show ?thesis
    using close_tail_ok [OF k1(2,3) ti ok k1(4,5,6,8)] k1(1,7) nc
    by (auto simp: thread_close_def bind_eq_Some_conv Let_def)
qed

text \<open>The current thread that returns from its entry function is closed and left for good.\<close>

lemma thread_exit_ok:
  assumes s: "sinv k" and c: "current k = Some t" and r: "tstat k t = RT_THREAD_RUNNING"
  shows "\<exists>k'. thread_exit k = Some k' \<and> sinv k' \<and> tstat k' t = RT_THREAD_CLOSE"
proof -
  have st: "started k t" using r by (simp add: started_def runnable_def)
  note ok = kinv_startedD(3) [OF s st]
  obtain k1 where k1: "(if tstat k t \<noteq> RT_THREAD_INIT then rt_schedule_remove_thread t k else Some k) = Some k1"
     "kinv_except {t} k1" "tlist (threads k1 t) = None" "objs k1 = objs k" "timers k1 = timers k"
     "timer_list k1 = timer_list k" "current k1 = current k" "\<forall>u. u \<noteq> t \<longrightarrow> threads k1 u = threads k u"
    using unlink_for_close [OF s] st by blast
  have ti: "tinv k" using s by (simp add: sinv_def)
  obtain k4 where k4: "do {
          (_, k2) \<leftarrow> rt_timer_detach (Thread_timer t) k1;
          let k3 = upd_thread t (\<lambda>th. th\<lparr>stat := RT_THREAD_CLOSE\<rparr>) k2;
          rt_thread_defunct_enqueue t k3
        } = Some k4" "sinv k4" "tstat k4 t = RT_THREAD_CLOSE" "current k4 = current k1"
    using close_tail_ok [OF k1(2,3) ti ok k1(4,5,6,8)] by blast
  have "current k4 \<noteq> None" using k4(4) k1(7) c by simp
  then obtain k5 where k5: "rt_schedule k4 = Some k5" "sinv k5" "sched_rel k4 k5"
    using rt_schedule_sinv [OF k4(2)] by blast
  have "\<not> runnable k4 t" using k4(3) by (simp add: runnable_def)
  then have "threads k5 t = threads k4 t" using k5(3) by (simp add: sched_rel_def)
  then have "tstat k5 t = RT_THREAD_CLOSE" using k4(3) by simp
  moreover have "rt_schedule_remove_thread t k = Some k1" using k1(1) r by simp
  ultimately show ?thesis using k4(1) k5 c
    by (auto simp: thread_exit_def bind_eq_Some_conv Let_def)
qed

end
