(* ===== verification/Clock.thy ===== *)
theory Clock
  imports Thread
begin

text \<open>
  \<^verbatim>\<open>rt-thread/src/clock.c\<close>, the expiry loop \<open>rt_timer_check\<close> of
  \<^verbatim>\<open>rt-thread/src/timer.c\<close>, the interrupt nesting of \<^verbatim>\<open>rt-thread/src/irq.c\<close> and
  the idle thread's work of \<^verbatim>\<open>rt-thread/src/idle.c\<close>.

  Timeout functions and thread cleanup functions of the application are parameters: a
  function from its number to its effect on the kernel.  The loops that call them may run
  for ever; they are partial functions whose value is \<open>None\<close> in that case.
\<close>

section \<open>Interrupts\<close>

definition rt_interrupt_enter :: "kernel \<Rightarrow> kernel" where
  "rt_interrupt_enter k = k\<lparr>irq_nest := irq_nest k + 1\<rparr>"

definition rt_interrupt_leave :: "kernel \<Rightarrow> kernel" where
  "rt_interrupt_leave k = k\<lparr>irq_nest := irq_nest k - 1\<rparr>"

definition rt_interrupt_get_nest :: "kernel \<Rightarrow> u8" where
  "rt_interrupt_get_nest k = irq_nest k"

section \<open>Expiry of timers\<close>

definition call_timeout :: "(nat \<Rightarrow> kernel \<Rightarrow> kernel option) \<Rightarrow> timer_callback \<Rightarrow> kernel \<Rightarrow> kernel option" where
  "call_timeout ucb f k = (case f of Thread_timeout t \<Rightarrow> thread_timeout t k | User_timeout n \<Rightarrow> ucb n k)"

text \<open>One pass of the loop body for the expired timer \<open>r\<close>.\<close>

definition timer_fire :: "(nat \<Rightarrow> kernel \<Rightarrow> kernel option) \<Rightarrow> timer_ref \<Rightarrow> kernel \<Rightarrow> kernel option" where
  "timer_fire ucb r k =
     do {
       let k1 = timer_remove r k;
       let k2 = (if obj_flag (objs k1 (Obj_Timer r)) AND RT_TIMER_FLAG_PERIODIC = 0
                 then upd_obj (Obj_Timer r)
                        (\<lambda>ob. ob\<lparr>obj_flag := obj_flag ob AND NOT RT_TIMER_FLAG_ACTIVATED\<rparr>) k1
                 else k1);
       let k3 = k2\<lparr>fired_list := r # fired_list k2\<rparr>;
       k4 \<leftarrow> call_timeout ucb (timeout_func (timers k3 r)) k3;
       (if fired_list k4 = [] then Some k4
        else
          let k5 = timer_remove r k4;
              fl = obj_flag (objs k5 (Obj_Timer r))
          in if fl AND RT_TIMER_FLAG_PERIODIC \<noteq> 0 \<and> fl AND RT_TIMER_FLAG_ACTIVATED \<noteq> 0 then
               do {
                 (_, k6) \<leftarrow> rt_timer_start r (upd_obj (Obj_Timer r)
                    (\<lambda>ob. ob\<lparr>obj_flag := obj_flag ob AND NOT RT_TIMER_FLAG_ACTIVATED\<rparr>) k5);
                 Some k6
               }
             else Some k5)
     }"

partial_function (option) timer_check_loop ::
    "(nat \<Rightarrow> kernel \<Rightarrow> kernel option) \<Rightarrow> u32 \<Rightarrow> kernel \<Rightarrow> kernel option" where
  "timer_check_loop ucb current_tick k =
     (case timer_list k of
        [] \<Rightarrow> Some k
      | r # _ \<Rightarrow>
          if current_tick - timeout_tick (timers k r) < RT_TICK_MAX_HALF then
            Option.bind (timer_fire ucb r k) (\<lambda>k'. timer_check_loop ucb (tick k') k')
          else Some k)"

definition rt_timer_check :: "(nat \<Rightarrow> kernel \<Rightarrow> kernel option) \<Rightarrow> kernel \<Rightarrow> kernel option" where
  "rt_timer_check ucb k = timer_check_loop ucb (tick k) (k\<lparr>fired_list := []\<rparr>)"

section \<open>The tick\<close>

definition rt_tick_get :: "kernel \<Rightarrow> u32" where
  "rt_tick_get k = tick k"

definition rt_tick_set :: "u32 \<Rightarrow> kernel \<Rightarrow> kernel" where
  "rt_tick_set x k = k\<lparr>tick := x\<rparr>"

definition rt_tick_increase :: "(nat \<Rightarrow> kernel \<Rightarrow> kernel option) \<Rightarrow> kernel \<Rightarrow> kernel option" where
  "rt_tick_increase ucb k =
     do {
       let k1 = k\<lparr>tick := tick k + 1\<rparr>;
       t \<leftarrow> rt_thread_self k1;
       let k2 = upd_thread t (\<lambda>th. th\<lparr>remaining_tick := remaining_tick th - 1\<rparr>) k1;
       k3 \<leftarrow> (if remaining_tick (threads k2 t) = 0
              then rt_schedule (upd_thread t (\<lambda>th. th\<lparr>remaining_tick := thread_init_tick th,
                                                      stat := stat th OR RT_THREAD_STAT_YIELD\<rparr>) k2)
              else Some k2);
       rt_timer_check ucb k3
     }"

abbreviation (input) RT_TICK_PER_SECOND :: int where "RT_TICK_PER_SECOND \<equiv> 1000"

text \<open>
  C division truncates towards zero; on the branch where it is used \<open>ms\<close> is not negative,
  so \<open>div\<close> and \<open>mod\<close> are the C operators.
\<close>

definition rt_tick_from_millisecond :: "32 word \<Rightarrow> u32" where
  "rt_tick_from_millisecond ms =
     (if sint ms < 0 then - 1
      else word_of_int (RT_TICK_PER_SECOND * (sint ms div 1000)) +
           word_of_int ((RT_TICK_PER_SECOND * (sint ms mod 1000) + 999) div 1000))"

definition rt_tick_get_millisecond :: "kernel \<Rightarrow> u32" where
  "rt_tick_get_millisecond k = rt_tick_get k * (1000 div 1000)"

definition rt_thread_mdelay :: "32 word \<Rightarrow> kernel \<Rightarrow> kernel option" where
  "rt_thread_mdelay ms k = rt_thread_sleep (rt_tick_from_millisecond ms) k"

section \<open>The idle thread\<close>

abbreviation (input) RT_IDLE_HOOK_LIST_SIZE :: nat where "RT_IDLE_HOOK_LIST_SIZE \<equiv> 4"

text \<open>The table of idle hooks: a hook by its number, \<open>None\<close> for \<open>RT_NULL\<close>.\<close>

fun first_index :: "('a \<Rightarrow> bool) \<Rightarrow> 'a list \<Rightarrow> nat option" where
  "first_index P [] = None"
| "first_index P (x # xs) = (if P x then Some 0 else map_option Suc (first_index P xs))"

definition rt_thread_idle_sethook :: "nat \<Rightarrow> nat option list \<Rightarrow> rt_err \<times> nat option list" where
  "rt_thread_idle_sethook hook tab =
     (case first_index (\<lambda>h. h = None) (take RT_IDLE_HOOK_LIST_SIZE tab) of
        None \<Rightarrow> (- RT_EFULL, tab)
      | Some i \<Rightarrow> (RT_EOK, tab[i := Some hook]))"

definition rt_thread_idle_delhook :: "nat \<Rightarrow> nat option list \<Rightarrow> rt_err \<times> nat option list" where
  "rt_thread_idle_delhook hook tab =
     (case first_index (\<lambda>h. h = Some hook) (take RT_IDLE_HOOK_LIST_SIZE tab) of
        None \<Rightarrow> (- RT_ENOSYS, tab)
      | Some i \<Rightarrow> (RT_EOK, tab[i := None]))"

definition defunct_one :: "(nat \<Rightarrow> tid \<Rightarrow> kernel \<Rightarrow> kernel option) \<Rightarrow> tid \<Rightarrow> kernel \<Rightarrow> kernel option" where
  "defunct_one ccb t k =
     do {
       let cl = cleanup (threads k t);
       let sys = rt_object_is_systemobject (Obj_Thread t) k;
       let k1 = (if sys then rt_object_detach (Obj_Thread t) k else k);
       k2 \<leftarrow> (case cl of None \<Rightarrow> Some k1 | Some n \<Rightarrow> ccb n t k1);
       (if sys then Some k2 else rt_object_delete (Obj_Thread t) k2)
     }"

partial_function (option) rt_defunct_execute ::
    "(nat \<Rightarrow> tid \<Rightarrow> kernel \<Rightarrow> kernel option) \<Rightarrow> kernel \<Rightarrow> kernel option" where
  "rt_defunct_execute ccb k =
     (case fst (rt_thread_defunct_dequeue k) of
        None \<Rightarrow> Some k
      | Some t \<Rightarrow> Option.bind (defunct_one ccb t (snd (rt_thread_defunct_dequeue k)))
                    (\<lambda>k'. rt_defunct_execute ccb k'))"

end
