(* ===== verification/Ipc_Base.thy ===== *)
theory Ipc_Base
  imports Clock
begin

text \<open>
  The helpers at the head of \<^verbatim>\<open>rt-thread/src/ipc.c\<close>: waiting in the list of an IPC object
  in arrival or in priority order, and waking its waiters.
\<close>

section \<open>Operations\<close>

abbreviation (input) RT_IPC_FLAG_FIFO :: u8 where "RT_IPC_FLAG_FIFO \<equiv> 0"
abbreviation (input) RT_IPC_FLAG_PRIO :: u8 where "RT_IPC_FLAG_PRIO \<equiv> 1"

text \<open>Commands of the control calls: \<open>RT_IPC_CMD_RESET\<close> with its argument, or another.\<close>

datatype ipc_cmd = CMD_RESET u32 | CMD_OTHER

text \<open>\<open>RT_DEBUG_SCHEDULER_AVAILABLE\<close> and \<open>RT_DEBUG_IN_THREAD_CONTEXT\<close>.\<close>

definition in_thread_context :: "kernel \<Rightarrow> bool" where
  "in_thread_context k \<longleftrightarrow> rt_thread_self k \<noteq> None \<and> rt_interrupt_get_nest k = 0"

definition scheduler_available :: "kernel \<Rightarrow> bool" where
  "scheduler_available k \<longleftrightarrow> rt_critical_level k = 0 \<and> in_thread_context k"

text \<open>
  A list head that is initialised while threads are linked behind it leaves them dangling:
  no result.
\<close>

definition ipc_list_init :: "list_head \<Rightarrow> kernel \<Rightarrow> kernel option" where
  "ipc_list_init h k = do { rt_assert (lists k h = []); Some k }"

definition ipc_object_init :: "objref \<Rightarrow> kernel \<Rightarrow> kernel option" where
  "ipc_object_init r k = ipc_list_init (Suspended_on r) k"

fun prio_pos :: "(tid \<Rightarrow> u8) \<Rightarrow> u8 \<Rightarrow> tid list \<Rightarrow> nat" where
  "prio_pos pr p [] = 0"
| "prio_pos pr p (s # ss) = (if p < pr s then 0 else Suc (prio_pos pr p ss))"

definition ipc_list_suspend :: "list_head \<Rightarrow> tid \<Rightarrow> u8 \<Rightarrow> kernel \<Rightarrow> kernel option" where
  "ipc_list_suspend h t flag k =
     do {
       (_, k1) \<leftarrow> rt_thread_suspend t k;
       (if flag = RT_IPC_FLAG_FIFO then list_insert_before h t k1
        else if flag = RT_IPC_FLAG_PRIO then
          list_insert_at h (prio_pos (\<lambda>s. current_priority (threads k1 s))
                                     (current_priority (threads k1 t)) (lists k1 h)) t k1
        else None)
     }"

definition ipc_list_resume :: "list_head \<Rightarrow> kernel \<Rightarrow> kernel option" where
  "ipc_list_resume h k =
     (case lists k h of
        [] \<Rightarrow> None
      | t # _ \<Rightarrow> do { (_, k1) \<leftarrow> rt_thread_resume t k; Some k1 })"

text \<open>
  The loop of \<open>_ipc_list_resume_all\<close>.  A pass whose \<open>rt_thread_resume\<close> fails leaves the
  list as it was and the loop runs for ever, so \<open>length\<close> many passes decide it.
\<close>

fun ipc_resume_loop :: "nat \<Rightarrow> list_head \<Rightarrow> kernel \<Rightarrow> kernel option" where
  "ipc_resume_loop 0 h k = (if lists k h = [] then Some k else None)"
| "ipc_resume_loop (Suc n) h k =
     (case lists k h of
        [] \<Rightarrow> Some k
      | t # _ \<Rightarrow>
          do {
            (_, k1) \<leftarrow> rt_thread_resume t (upd_thread t (\<lambda>th. th\<lparr>thread_error := - RT_ERROR\<rparr>) k);
            ipc_resume_loop n h k1
          })"

definition ipc_list_resume_all :: "list_head \<Rightarrow> kernel \<Rightarrow> kernel option" where
  "ipc_list_resume_all h k = ipc_resume_loop (length (lists k h)) h k"

text \<open>
  The sequence with which every blocking call leaves the processor: join the list, arm the
  thread timer if the timeout is positive, note where the call stands, reschedule.
\<close>

definition ipc_wait :: "list_head \<Rightarrow> u8 \<Rightarrow> tid \<Rightarrow> s32 \<Rightarrow> saved_call \<Rightarrow> kernel \<Rightarrow> kernel option" where
  "ipc_wait h flag t timeout call k =
     do {
       k1 \<leftarrow> ipc_list_suspend h t flag k;
       k2 \<leftarrow> (if sint timeout > 0 then thread_arm t timeout k1 else Some k1);
       rt_schedule (k2\<lparr>saved := (saved k2)(t := call)\<rparr>)
     }"

definition finish_call :: "tid \<Rightarrow> kernel \<Rightarrow> kernel" where
  "finish_call t k = k\<lparr>saved := (saved k)(t := No_call)\<rparr>"

text \<open>Waking the first waiter and rescheduling if there is one.\<close>

definition ipc_wake_first :: "list_head \<Rightarrow> kernel \<Rightarrow> kernel option" where
  "ipc_wake_first h k =
     (if lists k h = [] then Some k
      else do { k1 \<leftarrow> ipc_list_resume h k; rt_schedule k1 })"

text \<open>The timeout that is left after a wait that began at \<open>start\<close>.\<close>

definition timeout_left :: "s32 \<Rightarrow> u32 \<Rightarrow> kernel \<Rightarrow> s32" where
  "timeout_left timeout start k =
     (if sint timeout > 0 then
        let left = timeout - (tick k - start) in (if sint left < 0 then 0 else left)
      else timeout)"

section \<open>Waiting lists\<close>

text \<open>The lists of waiting threads: those of the IPC objects.\<close>

fun wait_head :: "list_head \<Rightarrow> bool" where
  "wait_head (Suspended_on r) = True"
| "wait_head (Senders_of r) = True"
| "wait_head h = False"

lemma wait_head_not_Ready [simp]: "wait_head h \<Longrightarrow> h \<noteq> Ready p" "wait_head h \<Longrightarrow> h \<noteq> Defunct"
  by auto

lemma waiter_suspended:
  assumes "sinv k" "wait_head h" "t \<in> set (lists k h)"
  shows "tstat k t = RT_THREAD_SUSPEND" "tlist (threads k t) = Some h"
proof -
  have k: "kinv k" using assms(1) by (simp add: sinv_def)
  show l: "tlist (threads k t) = Some h" using assms(3) linked_in [OF kinv_linked [OF k]] by blast
  show "tstat k t = RT_THREAD_SUSPEND"
    using kinv_thread [OF k, of t] l assms(2)
    by (cases h) (auto simp: thread_ok_def stat_ok_def)
qed

text \<open>A suspended thread joins a waiting list at any position.\<close>

lemma wait_insert_ok:
  fixes i :: nat
  assumes s: "sinv k" and st: "tstat k t = RT_THREAD_SUSPEND" and tl: "tlist (threads k t) = None"
    and h: "wait_head h"
  defines "k' \<equiv> (upd_thread t (tlist_update (\<lambda>_. Some h)) k)
             \<lparr>lists := (lists k)(h := insert_at i t (lists k h))\<rparr>"
  shows "list_insert_at h i t k = Some k'" "sinv k'"
proof -
  show ins: "list_insert_at h i t k = Some k'" using tl by (simp add: list_insert_at_def k'_def)
  have k: "kinv k" and ti: "tinv k" using s by (auto simp: sinv_def)
  have th: "thread_ok (current k) t (threads k t)" using kinv_thread [OF k] by simp
  have "linked_ok k'" by (rule linked_ok_insert [OF kinv_linked [OF k] ins])
  moreover have "group_ok k'" using k h by (auto simp: kinv_except_def group_ok_def k'_def)
  moreover have "thread_ok (current k) u (threads k' u)" for u
  proof (cases "u = t")
    case True
    have "link_stat (Some h) 2 p" for p using h by (cases h) auto
    then show ?thesis using th st True by (auto simp: k'_def thread_ok_def stat_ok_def prio_ok_def)
  next
    case False
    then show ?thesis using kinv_thread [OF k, of u] by (simp add: k'_def)
  qed
  ultimately have "kinv k'" by (simp add: kinv_except_def k'_def)
  moreover have "tinv k'"
    by (rule tinv_threads [OF ti]) (auto simp: k'_def started_def runnable_def)
  ultimately show "sinv k'" by (simp add: sinv_def)
qed

text \<open>
  What blocking, waking and rescheduling leave alone: the IPC objects, the clock, the
  headers of all objects but the thread timers, and the data of the threads.
\<close>

definition ipc_frame :: "kernel \<Rightarrow> kernel \<Rightarrow> bool" where
  "ipc_frame k k' \<longleftrightarrow>
     sems k' = sems k \<and> mutexes k' = mutexes k \<and> events k' = events k \<and> mailboxes k' = mailboxes k \<and>
     queues k' = queues k \<and> pools k' = pools k \<and> tick k' = tick k \<and> lock_nest k' = lock_nest k \<and>
     irq_nest k' = irq_nest k \<and> devipc k' = devipc k \<and>
     (\<forall>x. (\<forall>u. x \<noteq> Obj_Timer (Thread_timer u)) \<longrightarrow> objs k' x = objs k x) \<and>
     (\<forall>u. current_priority (threads k' u) = current_priority (threads k u) \<and>
          event_set (threads k' u) = event_set (threads k u) \<and>
          event_info (threads k' u) = event_info (threads k u) \<and>
          (started k u \<longrightarrow> started k' u))"

definition same_error :: "kernel \<Rightarrow> kernel \<Rightarrow> bool" where
  "same_error k k' \<longleftrightarrow> (\<forall>u. thread_error (threads k' u) = thread_error (threads k u))"

lemma ipc_frame_refl [simp]: "ipc_frame k k" "same_error k k"
  by (simp_all add: ipc_frame_def same_error_def)

lemma ipc_frame_trans: "ipc_frame k k' \<Longrightarrow> ipc_frame k' k'' \<Longrightarrow> ipc_frame k k''"
  by (simp add: ipc_frame_def)

lemma same_error_trans: "same_error k k' \<Longrightarrow> same_error k' k'' \<Longrightarrow> same_error k k''"
  by (simp add: same_error_def)

lemma sched_rel_ipc_frame: "sched_rel k k' \<Longrightarrow> ipc_frame k k' \<and> same_error k k'"
  by (simp add: ipc_frame_def same_error_def sched_rel_frame sched_rel_thread sched_rel_started)

lemma resume_rel_ipc_frame:
  assumes "resume_rel t k k'"
  shows "ipc_frame k k' \<and> same_error k k'"
proof -
  have "started k' u" if "started k u" for u
    using that resume_rel_frame(14,21) [OF assms] by (cases "u = t") (auto simp: started_def runnable_def)
  then show ?thesis using resume_rel_frame [OF assms] by (simp add: ipc_frame_def same_error_def)
qed

lemma thread_arm_ipc_frame:
  assumes "thread_arm t x k = Some k'" "timer_rel k k'"
  shows "ipc_frame k k'" "same_error k k'"
proof -
  have "objs k' y = objs k y" if "y \<noteq> Obj_Timer (Thread_timer t)" for y
    using assms(1) that
    by (auto simp: thread_arm_def rt_timer_control_def rt_timer_start_def Let_def timer_deactivate_objs
        timer_deactivate_def timer_remove_def bind_eq_Some_conv)
  then show "ipc_frame k k'" "same_error k k'"
    using timer_rel_frame [OF assms(2)]
    by (simp_all add: ipc_frame_def same_error_def started_def runnable_def)
qed

definition wait_pos :: "u8 \<Rightarrow> tid \<Rightarrow> list_head \<Rightarrow> kernel \<Rightarrow> nat" where
  "wait_pos flag t h k =
     (if flag = RT_IPC_FLAG_FIFO then length (lists k h)
      else prio_pos (\<lambda>s. current_priority (threads k s)) (current_priority (threads k t)) (lists k h))"

lemma ipc_list_suspend_ok:
  assumes s: "sinv k" and c: "current k = Some t" and r: "tstat k t = RT_THREAD_RUNNING"
    and h: "wait_head h" and fl: "flag = RT_IPC_FLAG_FIFO \<or> flag = RT_IPC_FLAG_PRIO"
  defines "k1 \<equiv> upd_thread t (set_stat RT_THREAD_SUSPEND) k"
  defines "k' \<equiv> (upd_thread t (tlist_update (\<lambda>_. Some h)) k1)
             \<lparr>lists := (lists k)(h := insert_at (wait_pos flag t h k) t (lists k h))\<rparr>"
  shows "ipc_list_suspend h t flag k = Some k'" "sinv k'" "tstat k' t = RT_THREAD_SUSPEND"
    "Thread_timer t \<notin> set (timer_list k')"
proof -
  note sp = suspend_ok [OF s c r, folded k1_def]
  note wi = wait_insert_ok [OF sp(2,4,3) h, of "wait_pos flag t h k"]
  have e: "k' = (upd_thread t (tlist_update (\<lambda>_. Some h)) k1)
             \<lparr>lists := (lists k1)(h := insert_at (wait_pos flag t h k) t (lists k1 h))\<rparr>"
    by (simp add: k'_def k1_def)
  show "sinv k'" using wi(2) unfolding e .
  have pr: "(\<lambda>s. current_priority (threads k1 s)) = (\<lambda>s. current_priority (threads k s))"
    "lists k1 = lists k"
    by (auto simp: k1_def)
  have "ipc_list_suspend h t flag k = list_insert_at h (wait_pos flag t h k) t k1"
    using sp(1) fl fun_cong [OF pr(1), of t]
    by (auto simp: ipc_list_suspend_def wait_pos_def list_insert_before_def pr)
  also have "\<dots> = Some k'" using wi(1) unfolding e .
  finally show "ipc_list_suspend h t flag k = Some k'" .
  show "tstat k' t = RT_THREAD_SUSPEND" using sp(4) by (simp add: e)
  show "Thread_timer t \<notin> set (timer_list k')" using sp(5) by (simp add: e)
qed

text \<open>The second half of every blocking call, from a thread that has joined its list.\<close>

lemma wait_tail_ok:
  assumes s: "sinv k" and st: "tstat k t = RT_THREAD_SUSPEND" and c: "current k \<noteq> None"
    and nt: "Thread_timer t \<notin> set (timer_list k)"
    and to: "0 < sint timeout \<Longrightarrow> timeout < RT_TICK_MAX_HALF"
  shows "\<exists>k' k2. (if sint timeout > 0 then thread_arm t timeout k else Some k) = Some k2 \<and>
     rt_schedule (k2\<lparr>saved := (saved k2)(t := call)\<rparr>) = Some k' \<and> tick k2 = tick k \<and>
     sinv k' \<and> ipc_frame k k' \<and> same_error k k' \<and> current k' \<noteq> None \<and>
     threads k' t = threads k t \<and> (\<forall>h. wait_head h \<longrightarrow> lists k' h = lists k h) \<and>
     saved k' = (saved k)(t := call) \<and> (Thread_timer t \<in> set (timer_list k') \<longleftrightarrow> 0 < sint timeout)"
proof -
  obtain k2 where k2: "(if sint timeout > 0 then thread_arm t timeout k else Some k) = Some k2"
      "sinv k2" "timer_rel k k2" "ipc_frame k k2" "same_error k k2"
      "Thread_timer t \<in> set (timer_list k2) \<longleftrightarrow> 0 < sint timeout"
  proof (cases "0 < sint timeout")
    case True
    then obtain k2 where "thread_arm t timeout k = Some k2" "sinv k2" "timer_rel k k2"
        "Thread_timer t \<in> set (timer_list k2)"
      using thread_arm_ok [OF s st to] by blast
    with True thread_arm_ipc_frame show ?thesis by (intro that [of k2]) auto
  qed (use s nt that [of k] in simp)
  let ?k3 = "k2\<lparr>saved := (saved k2)(t := call)\<rparr>"
  note fr = timer_rel_frame [OF k2(3)]
  have "sinv ?k3" using k2(2) sinv_cong [of ?k3 k2] by simp
  moreover have "current ?k3 \<noteq> None" using c fr by simp
  ultimately obtain k' where k': "rt_schedule ?k3 = Some k'" "sinv k'" "sched_rel ?k3 k'" "current k' \<noteq> None"
    using rt_schedule_sinv by blast
  have i: "ipc_frame k ?k3" "same_error k ?k3"
    using k2(4,5) by (simp_all add: ipc_frame_def same_error_def started_def runnable_def)
  have "\<not> runnable ?k3 t" using st fr by (simp add: runnable_def)
  then have "threads k' t = threads k t" using k'(3) fr by (simp add: sched_rel_def)
  moreover have "lists k' h = lists k h" if "wait_head h" for h
    using that sched_rel_lists [OF k'(3)] fr by (cases h) simp_all
  moreover have "ipc_frame k k'" "same_error k k'"
    using i sched_rel_ipc_frame [OF k'(3)] by (blast intro: ipc_frame_trans same_error_trans)+
  moreover have "saved k' = (saved k)(t := call)" "timer_list k' = timer_list k2"
    using sched_rel_frame [OF k'(3)] fr by simp_all
  ultimately show ?thesis
    using k2(1,6) k'(1,2,4) fr(7) by (intro exI [of _ k'] exI [of _ k2] conjI) simp_all
qed

text \<open>
  A blocking call never fails: the caller waits in the list, at the place the flag of the
  object says, with its timer running if the timeout is finite, and another thread has the
  processor.
\<close>

definition waits_in :: "list_head \<Rightarrow> tid \<Rightarrow> nat \<Rightarrow> saved_call \<Rightarrow> s32 \<Rightarrow> kernel \<Rightarrow> kernel \<Rightarrow> bool" where
  "waits_in h t i call timeout k k' \<longleftrightarrow>
     ipc_frame k k' \<and> same_error k k' \<and> current k' \<noteq> None \<and> tstat k' t = RT_THREAD_SUSPEND \<and>
     lists k' h = insert_at i t (lists k h) \<and>
     (\<forall>h'. wait_head h' \<and> h' \<noteq> h \<longrightarrow> lists k' h' = lists k h') \<and>
     saved k' = (saved k)(t := call) \<and> (Thread_timer t \<in> set (timer_list k') \<longleftrightarrow> 0 < sint timeout)"

lemma ipc_wait_ok:
  assumes s: "sinv k" and c: "current k = Some t" and r: "tstat k t = RT_THREAD_RUNNING"
    and h: "wait_head h" and fl: "flag = RT_IPC_FLAG_FIFO \<or> flag = RT_IPC_FLAG_PRIO"
    and to: "0 < sint timeout \<Longrightarrow> timeout < RT_TICK_MAX_HALF"
  shows "\<exists>k'. ipc_wait h flag t timeout call k = Some k' \<and> sinv k' \<and>
           waits_in h t (wait_pos flag t h k) call timeout k k'"
proof -
  note su = ipc_list_suspend_ok [OF s c r h fl]
  let ?k1 = "upd_thread t (set_stat RT_THREAD_SUSPEND) k"
  let ?k = "(upd_thread t (tlist_update (\<lambda>_. Some h)) ?k1)
             \<lparr>lists := (lists k)(h := insert_at (wait_pos flag t h k) t (lists k h))\<rparr>"
  have "current ?k \<noteq> None" using c by simp
  then obtain k' k2 where k': "(if sint timeout > 0 then thread_arm t timeout ?k else Some ?k) = Some k2"
     "rt_schedule (k2\<lparr>saved := (saved k2)(t := call)\<rparr>) = Some k'"
     "sinv k'" "ipc_frame ?k k'" "same_error ?k k'" "current k' \<noteq> None"
     "threads k' t = threads ?k t" "\<forall>h. wait_head h \<longrightarrow> lists k' h = lists ?k h"
     "saved k' = (saved ?k)(t := call)" "Thread_timer t \<in> set (timer_list k') \<longleftrightarrow> 0 < sint timeout"
    using wait_tail_ok [OF su(2,3) _ su(4) to] by blast
  have "ipc_frame k ?k" "same_error k ?k"
    by (simp_all add: ipc_frame_def same_error_def set_stat_def started_def runnable_def)
  then have "ipc_frame k k'" "same_error k k'"
    using k'(4,5) by (blast intro: ipc_frame_trans same_error_trans)+
  moreover have "tstat k' t = RT_THREAD_SUSPEND" using k'(7) by simp
  moreover have "lists k' h = insert_at (wait_pos flag t h k) t (lists k h)"
    "\<forall>h'. wait_head h' \<and> h' \<noteq> h \<longrightarrow> lists k' h' = lists k h'" using k'(8) h by simp_all
  ultimately have "waits_in h t (wait_pos flag t h k) call timeout k k'"
    using k'(6,9,10) by (simp add: waits_in_def)
  moreover have "ipc_wait h flag t timeout call k = Some k'"
    unfolding ipc_wait_def su(1) Option.bind.bind_lunit k'(1) by (rule k'(2))
  ultimately show ?thesis using k'(3) by blast
qed

section \<open>Waking\<close>

lemma ipc_list_resume_ok:
  assumes s: "sinv k" and h: "wait_head h" and l: "lists k h = t # ts"
  shows "\<exists>k'. ipc_list_resume h k = Some k' \<and> sinv k' \<and> resume_rel t k k'"
proof -
  have "tstat k t = RT_THREAD_SUSPEND" using waiter_suspended(1) [OF s h] l by simp
  from resume_ok [OF s this] show ?thesis using l by (auto simp: ipc_list_resume_def)
qed

lemma resume_rel_wait_list:
  assumes "resume_rel t k k'" "wait_head h"
  shows "lists k' h = remove1 t (lists k h)"
  using assms resume_rel_frame by (cases h) auto

lemma other_waiters:
  assumes "sinv k" "lists k h = t # ts" "h' \<noteq> h"
  shows "remove1 t (lists k h') = lists k h'"
proof (rule remove1_idem)
  have l: "linked_ok k" using assms(1) kinv_linked by (auto simp: sinv_def)
  have "tlist (threads k t) = Some h" using linked_in [OF l, of t h] assms(2) by simp
  then show "t \<notin> set (lists k h')" using linked_in [OF l] assms(3) by auto
qed

definition woken :: "list_head \<Rightarrow> kernel \<Rightarrow> kernel \<Rightarrow> bool" where
  "woken h k k' \<longleftrightarrow>
     ipc_frame k k' \<and> same_error k k' \<and> current k' \<noteq> None \<and> lists k' h = tl (lists k h) \<and>
     (\<forall>h'. wait_head h' \<and> h' \<noteq> h \<longrightarrow> lists k' h' = lists k h') \<and> saved k' = saved k \<and>
     (lists k h \<noteq> [] \<longrightarrow> runnable k' (hd (lists k h)))"

lemma resume_schedule_ok:
  assumes s: "sinv k" and h: "wait_head h" and c: "current k \<noteq> None" and l: "lists k h = t # ts"
  shows "\<exists>k1 k'. ipc_list_resume h k = Some k1 \<and> rt_schedule k1 = Some k' \<and> sinv k' \<and> woken h k k'"
proof -
  obtain k1 where k1: "ipc_list_resume h k = Some k1" "sinv k1" "resume_rel t k k1"
    using ipc_list_resume_ok [OF s h l] by blast
  note fr = resume_rel_frame [OF k1(3)]
  have "current k1 \<noteq> None" using c fr(5) by simp
  then obtain k' where k': "rt_schedule k1 = Some k'" "sinv k'" "sched_rel k1 k'" "current k' \<noteq> None"
    using rt_schedule_sinv [OF k1(2)] by blast
  have ls: "lists k' h' = remove1 t (lists k h')" if "wait_head h'" for h'
    using that sched_rel_lists [OF k'(3)] resume_rel_wait_list [OF k1(3) that] by (cases h') auto
  have "lists k' h' = lists k h'" if "wait_head h'" "h' \<noteq> h" for h'
    using ls [OF that(1)] other_waiters [OF s l that(2)] by simp
  moreover have "lists k' h = ts" using ls [OF h] l by simp
  moreover have "runnable k' t" using fr(21) k'(3) by (simp add: sched_rel_def)
  moreover have "ipc_frame k k'" "same_error k k'"
    using resume_rel_ipc_frame [OF k1(3)] sched_rel_ipc_frame [OF k'(3)]
    by (blast intro: ipc_frame_trans same_error_trans)+
  moreover have "saved k' = saved k" using sched_rel_frame [OF k'(3)] fr(7) by simp
  ultimately have "woken h k k'" using k'(4) l by (simp add: woken_def)
  with k1 k' show ?thesis by blast
qed

lemma ipc_wake_first_ok:
  assumes s: "sinv k" and h: "wait_head h" and c: "current k \<noteq> None"
  shows "\<exists>k'. ipc_wake_first h k = Some k' \<and> sinv k' \<and> woken h k k'"
proof (cases "lists k h")
  case Nil
  then show ?thesis using s c by (simp add: ipc_wake_first_def woken_def)
next
  case (Cons t ts)
  then show ?thesis using resume_schedule_ok [OF s h c Cons] by (auto simp: ipc_wake_first_def)
qed

text \<open>
  Destroying or resetting an object ends every wait in it: the list is empty, each waiter
  can run and finds \<open>-RT_ERROR\<close>.
\<close>

definition all_woken :: "list_head \<Rightarrow> kernel \<Rightarrow> kernel \<Rightarrow> bool" where
  "all_woken h k k' \<longleftrightarrow>
     ipc_frame k k' \<and> current k' = current k \<and> lists k' h = [] \<and> saved k' = saved k \<and>
     (\<forall>h'. wait_head h' \<and> h' \<noteq> h \<longrightarrow> lists k' h' = lists k h') \<and>
     (\<forall>t\<in>set (lists k h). runnable k' t \<and> thread_error (threads k' t) = - RT_ERROR) \<and>
     (\<forall>t. t \<notin> set (lists k h) \<longrightarrow> threads k' t = threads k t)"

lemma ipc_resume_loop_ok:
  assumes "sinv k" "wait_head h" "n = length (lists k h)"
  shows "\<exists>k'. ipc_resume_loop n h k = Some k' \<and> sinv k' \<and> all_woken h k k'"
  using assms
proof (induction n arbitrary: k)
  case 0
  then show ?case by (simp add: all_woken_def)
next
  case (Suc n)
  then obtain t ts where l: "lists k h = t # ts" by (cases "lists k h") auto
  let ?k = "upd_thread t (\<lambda>th. th\<lparr>thread_error := - RT_ERROR\<rparr>) k"
  have s1: "sinv ?k" using Suc.prems(1) by simp
  have "tstat ?k t = RT_THREAD_SUSPEND" using waiter_suspended(1) [OF Suc.prems(1,2), of t] l by simp
  then obtain k1 where k1: "rt_thread_resume t ?k = Some (RT_EOK, k1)" "sinv k1" "resume_rel t ?k k1"
    using resume_ok [OF s1] by blast
  note fr = resume_rel_frame [OF k1(3)]
  have l1: "lists k1 h' = (if h' = h then ts else lists k h')" if "wait_head h'" for h'
    using resume_rel_wait_list [OF k1(3) that] l other_waiters [OF Suc.prems(1) l] by auto
  have d: "t \<notin> set ts"
    using Suc.prems(1) l by (metis distinct.simps(2) kinv_linked linked_ok_def sinv_def)
  have "n = length (lists k1 h)" using l1 [OF Suc.prems(2)] Suc.prems(3) l by simp
  from Suc.IH [OF k1(2) Suc.prems(2) this] obtain k' where
    k': "ipc_resume_loop n h k1 = Some k'" "sinv k'" "all_woken h k1 k'" by blast
  have "ipc_frame k ?k" by (simp add: ipc_frame_def started_def runnable_def)
  then have "ipc_frame k k'"
    using resume_rel_ipc_frame [OF k1(3)] k'(3) by (auto simp: all_woken_def intro: ipc_frame_trans)
  moreover have "threads k' t = threads k1 t" using k'(3) d l1 [OF Suc.prems(2)] by (simp add: all_woken_def)
  then have "runnable k' t" "thread_error (threads k' t) = - RT_ERROR"
    using fr(21) fr(15) [of t] by (simp_all add: runnable_def)
  moreover have "threads k' u = threads k u" if "u \<notin> set (lists k h)" for u
    using that k'(3) fr(14) [of u] l l1 [OF Suc.prems(2)] by (simp add: all_woken_def)
  ultimately have "all_woken h k k'"
    using k'(3) l l1 Suc.prems(2) fr(5,7) by (auto simp: all_woken_def)
  then show ?case using k1(1) k'(1,2) l by auto
qed

lemma ipc_list_resume_all_ok:
  assumes "sinv k" "wait_head h"
  shows "\<exists>k'. ipc_list_resume_all h k = Some k' \<and> sinv k' \<and> all_woken h k k'"
  using ipc_resume_loop_ok [OF assms refl] by (simp add: ipc_list_resume_all_def)

lemma prio_pos_stable: "prio_pos pr p ss = stable_pos pr p ss"
  by (induction ss) auto

lemma wait_pos_cong:
  assumes "lists k' h = lists k h" "\<And>u. current_priority (threads k' u) = current_priority (threads k u)"
  shows "wait_pos flag t h k' = wait_pos flag t h k"
  using assms by (simp add: wait_pos_def)

text \<open>A thread that may block: it has the processor, outside of interrupts and critical sections.\<close>

definition caller :: "tid \<Rightarrow> kernel \<Rightarrow> bool" where
  "caller t k \<longleftrightarrow> current k = Some t \<and> tstat k t = RT_THREAD_RUNNING \<and> scheduler_available k"

lemma wait_with_error_cleared:
  assumes s: "sinv k" and c: "caller t k" and h: "wait_head h"
    and fl: "flag = RT_IPC_FLAG_FIFO \<or> flag = RT_IPC_FLAG_PRIO"
    and to: "0 < sint timeout \<longrightarrow> timeout < RT_TICK_MAX_HALF"
  shows "\<exists>k'. ipc_wait h flag t timeout call (upd_thread t (\<lambda>th. th\<lparr>thread_error := RT_EOK\<rparr>) k) = Some k' \<and>
     sinv k' \<and> ipc_frame k k' \<and> current k' \<noteq> None \<and> thread_error (threads k' t) = RT_EOK \<and>
     tstat k' t = RT_THREAD_SUSPEND \<and> lists k' h = insert_at (wait_pos flag t h k) t (lists k h) \<and> saved k' t = call \<and>
     (Thread_timer t \<in> set (timer_list k') \<longleftrightarrow> 0 < sint timeout)"
proof -
  let ?k = "upd_thread t (\<lambda>th. th\<lparr>thread_error := RT_EOK\<rparr>) k"
  have 1: "sinv ?k" "current ?k = Some t" "tstat ?k t = RT_THREAD_RUNNING" using s c by (auto simp: caller_def)
  have wp: "wait_pos flag t h ?k = wait_pos flag t h k" by (rule wait_pos_cong) auto
  have "ipc_frame k ?k" by (simp add: ipc_frame_def started_def runnable_def)
  then have fr: "ipc_frame k k'" if "ipc_frame ?k k'" for k' using that ipc_frame_trans by blast
  show ?thesis
    using ipc_wait_ok [OF 1 h fl, of timeout call] to fr unfolding waits_in_def wp same_error_def
    by fastforce
qed

section \<open>Timeouts\<close>

text \<open>
  What the expiry of its timer does to a waiting thread: it leaves its list, alone, and
  finds \<open>-RT_ETIMEOUT\<close>.
\<close>

definition timed_out :: "tid \<Rightarrow> kernel \<Rightarrow> kernel \<Rightarrow> bool" where
  "timed_out t k k' \<longleftrightarrow>
     ipc_frame k k' \<and> current k' \<noteq> None \<and> runnable k' t \<and> saved k' = saved k \<and>
     (\<forall>u. thread_error (threads k' u) = (if u = t then - RT_ETIMEOUT else thread_error (threads k u))) \<and>
     (\<forall>u. runnable k u \<longrightarrow> runnable k' u) \<and>
     (\<forall>h. wait_head h \<longrightarrow> lists k' h = remove1 t (lists k h))"

lemma thread_timeout_as_resume:
  assumes s: "sinv k" and st: "tstat k t = RT_THREAD_SUSPEND"
    and tm: "Thread_timer t \<notin> set (timer_list k)"
  shows "thread_timeout t k =
     Option.bind (rt_thread_resume t (upd_thread t (\<lambda>th. th\<lparr>thread_error := - RT_ETIMEOUT\<rparr>) k))
       (\<lambda>(e, k'). rt_schedule k')"
proof -
  let ?k = "upd_thread t (\<lambda>th. th\<lparr>thread_error := - RT_ETIMEOUT\<rparr>) k"
  have "started ?k t" using st by (simp add: started_def)
  then have ok: "thread_timer_ok ?k t" using kinv_startedD(3) [of ?k t] s by simp
  have "thread_timer_ok (list_remove t ?k) t"
    using ok by (rule thread_timer_ok_cong [THEN iffD2, rotated 3]) (simp_all add: list_remove_def split: option.splits)
  moreover have "timer_list (list_remove t ?k) = timer_list k"
    by (simp add: list_remove_def split: option.splits)
  ultimately have "rt_timer_stop (Thread_timer t) (list_remove t ?k) = Some (- RT_ERROR, list_remove t ?k)"
    using tm by (intro stopped_timer_stop) (auto simp: thread_timer_ok_def)
  moreover have "rt_object_get_type (Obj_Thread t) ?k = class_code Class_Thread"
    using ok by (simp add: thread_timer_ok_def)
  ultimately show ?thesis using st
    by (simp add: thread_timeout_def rt_thread_resume_def rt_object_get_type_def Let_def)
qed

lemma thread_timeout_waiter:
  assumes s: "sinv k" and st: "tstat k t = RT_THREAD_SUSPEND"
    and tm: "Thread_timer t \<notin> set (timer_list k)" and c: "current k \<noteq> None"
  shows "\<exists>k'. thread_timeout t k = Some k' \<and> sinv k' \<and> timed_out t k k'"
proof -
  let ?k = "upd_thread t (\<lambda>th. th\<lparr>thread_error := - RT_ETIMEOUT\<rparr>) k"
  have "sinv ?k" "tstat ?k t = RT_THREAD_SUSPEND" using s st by simp_all
  then obtain k1 where k1: "rt_thread_resume t ?k = Some (RT_EOK, k1)" "sinv k1" "resume_rel t ?k k1"
    using resume_ok by blast
  note fr = resume_rel_frame [OF k1(3)]
  have "current k1 \<noteq> None" using c fr(5) by simp
  then obtain k' where k': "rt_schedule k1 = Some k'" "sinv k'" "sched_rel k1 k'" "current k' \<noteq> None"
    using rt_schedule_sinv [OF k1(2)] by blast
  have "ipc_frame k ?k" by (simp add: ipc_frame_def started_def runnable_def)
  then have "ipc_frame k k'"
    using resume_rel_ipc_frame [OF k1(3)] sched_rel_ipc_frame [OF k'(3)] by (blast intro: ipc_frame_trans)
  moreover have "thread_error (threads k' u) = (if u = t then - RT_ETIMEOUT else thread_error (threads k u))" for u
    using fr(15) [of u] sched_rel_thread(3) [OF k'(3), of u] by simp
  moreover have "lists k' h = remove1 t (lists k h)" if "wait_head h" for h
    using that sched_rel_lists [OF k'(3)] resume_rel_wait_list [OF k1(3) that] by (cases h) auto
  moreover have "runnable k' t" using fr(21) k'(3) by (simp add: sched_rel_def)
  moreover have "saved k' = saved k" using sched_rel_frame [OF k'(3)] fr(7) by simp
  moreover have "runnable k' u" if "runnable k u" for u
  proof -
    have "runnable k1 u" using that fr(14) [of u] fr(21) by (cases "u = t") (auto simp: runnable_def)
    then show ?thesis using k'(3) by (simp add: sched_rel_def)
  qed
  ultimately have "timed_out t k k'" using k'(4) by (simp add: timed_out_def)
  moreover have "thread_timeout t k = Some k'"
    using thread_timeout_as_resume [OF s st tm] k1(1) k'(1) by simp
  ultimately show ?thesis using k'(2) by blast
qed

section \<open>Critical sections\<close>

text \<open>Leaving a critical section and rescheduling: only the scheduler's part of the state changes.\<close>

definition sched_frame :: "kernel \<Rightarrow> kernel \<Rightarrow> bool" where
  "sched_frame k k' \<longleftrightarrow>
     devipc k' = devipc k \<and> sems k' = sems k \<and> tick k' = tick k \<and> same_error k k' \<and> saved k' = saved k \<and> (\<forall>h. wait_head h \<longrightarrow> lists k' h = lists k h) \<and>
     (\<forall>t. runnable k t \<longrightarrow> runnable k' t)"

lemma sched_frame_trans: "sched_frame k k1 \<Longrightarrow> sched_frame k1 k2 \<Longrightarrow> sched_frame k k2"
  by (simp add: sched_frame_def same_error_def)

lemma sched_rel_sched_frame:
  assumes "sched_rel k k'"
  shows "sched_frame k k'"
proof -
  have "lists k' h = lists k h" if "wait_head h" for h
    using that sched_rel_lists [OF assms] by (cases h) simp_all
  then show ?thesis
    using assms sched_rel_frame [OF assms] sched_rel_thread(3) [OF assms]
    by (simp add: sched_frame_def same_error_def sched_rel_def)
qed

lemma exit_critical_ok:
  assumes "sinv k" "current k \<noteq> None"
  shows "\<exists>k' n. rt_exit_critical k = Some k' \<and> sinv k' \<and> current k' \<noteq> None \<and> sched_rel (k\<lparr>lock_nest := n\<rparr>) k'"
proof -
  let ?k = "\<lambda>n. k\<lparr>lock_nest := n\<rparr>"
  have s: "sinv (?k n)" "current (?k n) \<noteq> None" for n using assms sinv_cong [of "?k n" k] by simp_all
  obtain k' where k': "rt_schedule (?k 0) = Some k'" "sinv k'" "sched_rel (?k 0) k'" "current k' \<noteq> None"
    using rt_schedule_sinv [OF s(1,2)] by blast
  show ?thesis
  proof (cases "sint (lock_nest k - 1) \<le> 0")
    case True
    then show ?thesis using k' assms(2) by (auto simp: rt_exit_critical_def Let_def)
  next
    case False
    then have "rt_exit_critical k = Some (?k (lock_nest k - 1))" by (simp add: rt_exit_critical_def Let_def)
    then show ?thesis using s [of "lock_nest k - 1"] by (intro exI [of _ "?k (lock_nest k - 1)"] exI [of _ "lock_nest k - 1"]) simp
  qed
qed

lemma exit_critical_frame:
  assumes "sinv k" "current k \<noteq> None"
  shows "\<exists>k'. rt_exit_critical k = Some k' \<and> sinv k' \<and> current k' \<noteq> None \<and> sched_frame k k'"
proof -
  obtain k' n where k': "rt_exit_critical k = Some k'" "sinv k'" "current k' \<noteq> None" "sched_rel (k\<lparr>lock_nest := n\<rparr>) k'"
    using exit_critical_ok [OF assms] by blast
  have "sched_frame k (k\<lparr>lock_nest := n\<rparr>)" by (simp add: sched_frame_def same_error_def runnable_def)
  then show ?thesis using sched_frame_trans [OF _ sched_rel_sched_frame [OF k'(4)]] k'(1-3) by blast
qed

text \<open>The structures of the drivers are no part of the invariant of threads and timers.\<close>

lemma devipc_sinv [simp]: "sinv (k\<lparr>devipc := d\<rparr>) = sinv k"
  using sinv_cong [of "k\<lparr>devipc := d\<rparr>" k] by simp

end
