(* ===== verification/Sample.thy ===== *)
theory Sample
  imports Ipc_Base
begin

text \<open>
  A concrete kernel state that satisfies the invariant: thread 0 has the processor at
  priority 5, thread 2 is ready at priority 10, and threads 1 and 3 to 7 wait, one in each
  kind of IPC object.  The concrete instances of the theorems start from it.
\<close>

fun sample_link :: "tid \<Rightarrow> list_head option" where
  "sample_link t =
     (if t = 1 then Some (Suspended_on (Obj_Sem 0))
      else if t = 2 then Some (Ready 10)
      else if t = 3 then Some (Suspended_on (Obj_Mutex 0))
      else if t = 4 then Some (Suspended_on (Obj_Event 0))
      else if t = 5 then Some (Suspended_on (Obj_Mb 0))
      else if t = 6 then Some (Suspended_on (Obj_Mq 0))
      else if t = 7 then Some (Suspended_on (Obj_Mp 0))
      else None)"

definition sample_stat :: "tid \<Rightarrow> u8" where
  "sample_stat t =
     (if t = 0 then RT_THREAD_RUNNING else if t = 2 then RT_THREAD_READY
      else if t < 8 then RT_THREAD_SUSPEND else RT_THREAD_INIT)"

definition sample_prio :: "tid \<Rightarrow> u8" where
  "sample_prio t = (if t = 0 then 5 else if t = 1 then 3 else if t = 3 then 4 else 10)"

definition sample_call :: "tid \<Rightarrow> saved_call" where
  "sample_call t =
     (if t = 1 then In_sem_take 0 else if t = 3 then In_mutex_take 0
      else if t = 4 then In_event_recv 0 else if t = 5 then In_mb_recv 0 (-1) 0
      else if t = 6 then In_mq_recv 0 (replicate 4 0) 4 (-1) 0
      else if t = 7 then In_mp_alloc 0 (-1) 0 else No_call)"

definition sample_thread :: "tid \<Rightarrow> rt_thread" where
  "sample_thread t =
     \<lparr>tlist = sample_link t, stat = sample_stat t, current_priority = sample_prio t,
      number_mask = 2 ^ unat (sample_prio t), thread_error = RT_EOK,
      event_set = (if t = 4 then 3 else 0), event_info = (if t = 4 then 5 else 0),
      thread_init_tick = 10, remaining_tick = 10, cleanup = None\<rparr>"

fun sample_class :: "objref \<Rightarrow> rt_object_class" where
  "sample_class (Obj_Thread t) = Class_Thread"
| "sample_class (Obj_Timer r) = Class_Timer"
| "sample_class (Obj_Sem n) = Class_Semaphore"
| "sample_class (Obj_Mutex n) = Class_Mutex"
| "sample_class (Obj_Event n) = Class_Event"
| "sample_class (Obj_Mb n) = Class_MailBox"
| "sample_class (Obj_Mq n) = Class_MessageQueue"
| "sample_class (Obj_Mp n) = Class_MemPool"
| "sample_class (Obj_Device n) = Class_Device"
| "sample_class (Obj_Memory n) = Class_Memory"
| "sample_class (Obj_Completion n) = Class_Null"
| "sample_class (Obj_Dq n) = Class_Null"

definition sample_object :: "objref \<Rightarrow> rt_object" where
  "sample_object r =
     \<lparr>obj_name = ''obj'', obj_type = class_code (sample_class r) OR RT_Object_Class_Static,
      obj_flag = 0\<rparr>"

definition sample_timer :: "timer_ref \<Rightarrow> rt_timer" where
  "sample_timer r =
     \<lparr>timeout_func = (case r of Thread_timer t \<Rightarrow> Thread_timeout t | Timer n \<Rightarrow> User_timeout n),
      init_tick = 0, timeout_tick = 0\<rparr>"

definition sample_kernel :: kernel where
  "sample_kernel =
     \<lparr>threads = sample_thread, timers = sample_timer, objs = sample_object, containers = (\<lambda>_. []),
      lists = (\<lambda>h. filter (\<lambda>t. sample_link t = Some h) [1..<8]), ready_group = 2 ^ 10,
      lock_nest = 0, irq_nest = 0, current = Some 0, cur_priority = 5, tick = 100,
      timer_list = [], fired_list = [], saved = sample_call,
      sems = (\<lambda>n. \<lparr>sem_value = (if n = 0 then 0 else 2)\<rparr>),
      mutexes = (\<lambda>n. if n = 0
         then \<lparr>mutex_value = 0, original_priority = 10, hold = 1, owner = Some 0\<rparr>
         else \<lparr>mutex_value = 1, original_priority = 0xff, hold = 0, owner = None\<rparr>),
      events = (\<lambda>_. \<lparr>event_bits = 0\<rparr>),
      mailboxes = (\<lambda>_. \<lparr>msg_pool = [0, 0], mb_size = 2, mb_entry = 0, in_offset = 0, out_offset = 0\<rparr>),
      queues = (\<lambda>_. \<lparr>msg_size = 4, max_msgs = 2, mq_entry = 0, mq_head = None, mq_tail = None,
         mq_free = Some 1, mq_next = (\<lambda>b. if b = 1 then Some 0 else None), mq_data = (\<lambda>_. [0, 0, 0, 0])\<rparr>),
      pools = (\<lambda>_. \<lparr>mp_size = 16, mp_block_size = 4, block_list = None,
         block_header = (\<lambda>_. Owner_pool 0), block_total_count = 2, block_free_count = 0\<rparr>),
      devipc = \<lparr>completions = (\<lambda>_. \<lparr>comp_flag = 0\<rparr>),
         dqueues = (\<lambda>_. \<lparr>dq_magic = 0xbead0e0e, dq_size = 2, dq_lwm = 0, get_index = 0, put_index = 0, is_empty = True,
            is_full = False, dq_items = [(0, 0), (0, 0)], evt_notify = None\<rparr>),
         works = (\<lambda>_. \<lparr>work_link = None, work_func = 0, work_data = 0, work_flags = 0, work_type = 0, work_owner = None\<rparr>),
         workqueues = (\<lambda>_. \<lparr>work_list = [], delayed_list = [], work_current = None, work_sem = 1, work_thread = 0\<rparr>)\<rparr>\<rparr>"

lemma sample_link_range: "sample_link t = Some h \<Longrightarrow> t \<in> {1..<8}"
  by (simp split: if_splits)

lemma sample_thread_ok: "thread_ok (Some 0) t (sample_thread t)"
  by (auto simp: thread_ok_def stat_ok_def prio_ok_def sample_thread_def sample_stat_def sample_prio_def)

lemma sample_ready: "filter (\<lambda>t. sample_link t = Some (Ready p)) [1..<8] = (if p = 10 then [2] else [])"
  by (simp add: upt_rec)

lemma sample_sinv: "sinv sample_kernel"
proof -
  have "linked_ok sample_kernel"
    using sample_link_range
    by (auto simp: linked_ok_def sample_kernel_def sample_thread_def simp del: sample_link.simps)
  moreover have "bit (2 ^ 10 :: u32) p \<longleftrightarrow> p = 10" for p using bit_mask_bit [of 0 10 p] by (simp only: or.left_neutral bit_0_eq bot_apply) auto
  then have "group_ok sample_kernel"
    unfolding group_ok_def sample_kernel_def kernel.simps sample_ready by simp
  ultimately have "kinv sample_kernel"
    using sample_thread_ok by (simp add: kinv_except_def sample_kernel_def del: sample_link.simps)
  moreover have "tinv sample_kernel"
    by (simp add: tinv_def thread_timer_ok_def sample_kernel_def rt_object_get_type_def
        rt_object_is_systemobject_def sample_object_def sample_timer_def)
  ultimately show ?thesis by (simp add: sinv_def)
qed

lemma sample_caller: "caller 0 sample_kernel"
  by (simp add: caller_def sample_kernel_def sample_thread_def sample_stat_def scheduler_available_def
      in_thread_context_def rt_critical_level_def rt_thread_self_def rt_interrupt_get_nest_def)

lemmas sample_simps = sample_kernel_def sample_thread_def sample_stat_def sample_prio_def
  sample_object_def sample_call_def

end
