(* ===== verification/Semaphore.thy ===== *)
theory Semaphore
  imports Sample
begin

text \<open>
  The semaphores of \<^verbatim>\<open>rt-thread/src/ipc.c\<close>.
\<close>

section \<open>Operations\<close>

abbreviation upd_sem :: "nat \<Rightarrow> (rt_semaphore \<Rightarrow> rt_semaphore) \<Rightarrow> kernel \<Rightarrow> kernel" where
  "upd_sem s f k \<equiv> k\<lparr>sems := (sems k)(s := f (sems k s))\<rparr>"

definition rt_sem_init :: "nat \<Rightarrow> string \<Rightarrow> u32 \<Rightarrow> u8 \<Rightarrow> kernel \<Rightarrow> (rt_err \<times> kernel) option" where
  "rt_sem_init s name val flag k =
     do {
       rt_assert (val < 0x10000);
       rt_assert (flag = RT_IPC_FLAG_FIFO \<or> flag = RT_IPC_FLAG_PRIO);
       k1 \<leftarrow> rt_object_init (Obj_Sem s) Class_Semaphore name k;
       k2 \<leftarrow> ipc_object_init (Obj_Sem s) k1;
       let k3 = upd_sem s (\<lambda>x. x\<lparr>sem_value := ucast val\<rparr>) k2;
       Some (RT_EOK, upd_obj (Obj_Sem s) (\<lambda>ob. ob\<lparr>obj_flag := flag\<rparr>) k3)
     }"

definition rt_sem_detach :: "nat \<Rightarrow> kernel \<Rightarrow> (rt_err \<times> kernel) option" where
  "rt_sem_detach s k =
     do {
       rt_assert (rt_object_get_type (Obj_Sem s) k = class_code Class_Semaphore);
       rt_assert (rt_object_is_systemobject (Obj_Sem s) k);
       k1 \<leftarrow> ipc_list_resume_all (Suspended_on (Obj_Sem s)) k;
       Some (RT_EOK, rt_object_detach (Obj_Sem s) k1)
     }"

definition rt_sem_create ::
    "nat option \<Rightarrow> string \<Rightarrow> u32 \<Rightarrow> u8 \<Rightarrow> kernel \<Rightarrow> (nat option \<times> kernel) option" where
  "rt_sem_create mem name val flag k =
     do {
       rt_assert (val < 0x10000);
       rt_assert (flag = RT_IPC_FLAG_FIFO \<or> flag = RT_IPC_FLAG_PRIO);
       rt_assert (rt_interrupt_get_nest k = 0);
       (ob, k1) \<leftarrow> rt_object_allocate (map_option Obj_Sem mem) Class_Semaphore name k;
       (case mem of
          None \<Rightarrow> Some (None, k1)
        | Some s \<Rightarrow>
            do {
              k2 \<leftarrow> ipc_object_init (Obj_Sem s) k1;
              let k3 = upd_sem s (\<lambda>x. x\<lparr>sem_value := ucast val\<rparr>) k2;
              Some (Some s, upd_obj (Obj_Sem s) (\<lambda>ob. ob\<lparr>obj_flag := flag\<rparr>) k3)
            })
     }"

definition rt_sem_delete :: "nat \<Rightarrow> kernel \<Rightarrow> (rt_err \<times> kernel) option" where
  "rt_sem_delete s k =
     do {
       rt_assert (rt_object_get_type (Obj_Sem s) k = class_code Class_Semaphore);
       rt_assert (\<not> rt_object_is_systemobject (Obj_Sem s) k);
       rt_assert (rt_interrupt_get_nest k = 0);
       k1 \<leftarrow> ipc_list_resume_all (Suspended_on (Obj_Sem s)) k;
       k2 \<leftarrow> rt_object_delete (Obj_Sem s) k1;
       Some (RT_EOK, k2)
     }"

definition rt_sem_take :: "nat \<Rightarrow> s32 \<Rightarrow> kernel \<Rightarrow> (unit outcome \<times> kernel) option" where
  "rt_sem_take s timeout k =
     do {
       rt_assert (rt_object_get_type (Obj_Sem s) k = class_code Class_Semaphore);
       (if sem_value (sems k s) > 0 then
          Some (Returns RT_EOK None, upd_sem s (\<lambda>x. x\<lparr>sem_value := sem_value x - 1\<rparr>) k)
        else if timeout = 0 then Some (Returns (- RT_ETIMEOUT) None, k)
        else
          do {
            rt_assert (scheduler_available k);
            t \<leftarrow> rt_thread_self k;
            let k1 = upd_thread t (\<lambda>th. th\<lparr>thread_error := RT_EOK\<rparr>) k;
            k2 \<leftarrow> ipc_wait (Suspended_on (Obj_Sem s)) (obj_flag (objs k1 (Obj_Sem s))) t timeout
                    (In_sem_take s) k1;
            Some (Waits, k2)
          })
     }"

definition rt_sem_take_finish :: "tid \<Rightarrow> kernel \<Rightarrow> unit outcome \<times> kernel" where
  "rt_sem_take_finish t k =
     (if thread_error (threads k t) \<noteq> RT_EOK
      then (Returns (thread_error (threads k t)) None, finish_call t k)
      else (Returns RT_EOK None, finish_call t k))"

definition rt_sem_trytake :: "nat \<Rightarrow> kernel \<Rightarrow> (unit outcome \<times> kernel) option" where
  "rt_sem_trytake s k = rt_sem_take s 0 k"

definition rt_sem_release :: "nat \<Rightarrow> kernel \<Rightarrow> (rt_err \<times> kernel) option" where
  "rt_sem_release s k =
     do {
       rt_assert (rt_object_get_type (Obj_Sem s) k = class_code Class_Semaphore);
       (if lists k (Suspended_on (Obj_Sem s)) \<noteq> [] then
          do {
            k1 \<leftarrow> ipc_list_resume (Suspended_on (Obj_Sem s)) k;
            k2 \<leftarrow> rt_schedule k1;
            Some (RT_EOK, k2)
          }
        else if sem_value (sems k s) < 0xffff then
          Some (RT_EOK, upd_sem s (\<lambda>x. x\<lparr>sem_value := sem_value x + 1\<rparr>) k)
        else Some (- RT_EFULL, k))
     }"

definition rt_sem_control :: "nat \<Rightarrow> ipc_cmd \<Rightarrow> kernel \<Rightarrow> (rt_err \<times> kernel) option" where
  "rt_sem_control s cmd k =
     do {
       rt_assert (rt_object_get_type (Obj_Sem s) k = class_code Class_Semaphore);
       (case cmd of
          CMD_RESET val \<Rightarrow>
            do {
              k1 \<leftarrow> ipc_list_resume_all (Suspended_on (Obj_Sem s)) k;
              k2 \<leftarrow> rt_schedule (upd_sem s (\<lambda>x. x\<lparr>sem_value := ucast val\<rparr>) k1);
              Some (RT_EOK, k2)
            }
        | CMD_OTHER \<Rightarrow> Some (- RT_ERROR, k))
     }"

section \<open>Correctness\<close>

text \<open>A semaphore with waiters has no token left.\<close>

definition sem_ok :: "nat \<Rightarrow> kernel \<Rightarrow> bool" where
  "sem_ok s k \<longleftrightarrow> (lists k (Suspended_on (Obj_Sem s)) \<noteq> [] \<longrightarrow> sem_value (sems k s) = 0)"

definition is_sem :: "nat \<Rightarrow> kernel \<Rightarrow> bool" where
  "is_sem s k \<longleftrightarrow> rt_object_get_type (Obj_Sem s) k = class_code Class_Semaphore \<and>
     (obj_flag (objs k (Obj_Sem s)) = RT_IPC_FLAG_FIFO \<or> obj_flag (objs k (Obj_Sem s)) = RT_IPC_FLAG_PRIO)"

text \<open>
  The abstract semaphore: a number of tokens and a line of waiting threads.  A release
  hands its token to the first in line.
\<close>

definition sem_abs :: "nat \<Rightarrow> kernel \<Rightarrow> nat \<times> tid list" where
  "sem_abs s k = (unat (sem_value (sems k s)), lists k (Suspended_on (Obj_Sem s)))"

definition sem_V :: "nat \<times> tid list \<Rightarrow> rt_err \<times> tid option \<times> nat \<times> tid list" where
  "sem_V a = (case a of
       (n, w # ws) \<Rightarrow> (RT_EOK, Some w, n, ws)
     | (n, []) \<Rightarrow> if n < 65535 then (RT_EOK, None, n + 1, []) else (- RT_EFULL, None, n, []))"

definition sem_P :: "nat \<Rightarrow> tid \<Rightarrow> bool \<Rightarrow> nat \<times> tid list \<Rightarrow> unit outcome \<times> nat \<times> tid list" where
  "sem_P i t wait a = (case a of (n, ws) \<Rightarrow>
       if n > 0 then (Returns RT_EOK None, n - 1, ws)
       else if wait then (Waits, n, insert_at i t ws)
       else (Returns (- RT_ETIMEOUT) None, n, ws))"

lemma sem_take_refines:
  assumes s: "sinv k" and i: "is_sem x k" and c: "caller t k"
    and to: "0 < sint timeout \<Longrightarrow> timeout < RT_TICK_MAX_HALF"
  shows "\<exists>oc k'. rt_sem_take x timeout k = Some (oc, k') \<and> sinv k' \<and>
     (oc, sem_abs x k') = sem_P (wait_pos (obj_flag (objs k (Obj_Sem x))) t (Suspended_on (Obj_Sem x)) k) t
                            (timeout \<noteq> 0) (sem_abs x k) \<and>
     (oc = Waits \<longrightarrow> tstat k' t = RT_THREAD_SUSPEND \<and> thread_error (threads k' t) = RT_EOK \<and>
        saved k' t = In_sem_take x \<and> (Thread_timer t \<in> set (timer_list k') \<longleftrightarrow> 0 < sint timeout))"
proof -
  consider (token) "0 < sem_value (sems k x)" | (none) "sem_value (sems k x) = 0" "timeout = 0"
    | (wait) "sem_value (sems k x) = 0" "timeout \<noteq> 0"
    by (metis word_gt_0)
  then show ?thesis
  proof cases
    case token
    let ?k = "upd_sem x (\<lambda>y. y\<lparr>sem_value := sem_value y - 1\<rparr>) k"
    have "sinv ?k" using s sinv_cong [of ?k k] by simp
    moreover have "unat (sem_value (sems k x) - 1) = unat (sem_value (sems k x)) - 1"
      using token by (simp add: unat_minus_one word_gt_0)
    moreover have "0 < unat (sem_value (sems k x))" using token by (simp add: unat_gt_0 word_gt_0)
    ultimately show ?thesis using token i
      by (simp add: rt_sem_take_def is_sem_def sem_abs_def sem_P_def)
  next
    case none
    then show ?thesis using s i by (simp add: rt_sem_take_def is_sem_def sem_abs_def sem_P_def)
  next
    case wait
    let ?k = "upd_thread t (\<lambda>th. th\<lparr>thread_error := RT_EOK\<rparr>) k"
    let ?h = "Suspended_on (Obj_Sem x)"
    let ?fl = "obj_flag (objs k (Obj_Sem x))"
    have s1: "sinv ?k" "current ?k = Some t" "tstat ?k t = RT_THREAD_RUNNING" using s c by (auto simp: caller_def)
    have fl: "?fl = RT_IPC_FLAG_FIFO \<or> ?fl = RT_IPC_FLAG_PRIO" using i by (simp add: is_sem_def)
    have h: "wait_head ?h" by simp
    obtain k' where k': "ipc_wait ?h ?fl t timeout (In_sem_take x) ?k = Some k'" "sinv k'"
       "waits_in ?h t (wait_pos ?fl t ?h ?k) (In_sem_take x) timeout ?k k'"
      using ipc_wait_ok [OF s1 h fl to] by blast
    have "wait_pos ?fl t ?h ?k = wait_pos ?fl t ?h k" by (rule wait_pos_cong) auto
    moreover have "rt_sem_take x timeout k = Some (Waits, k')"
      using wait i c k'(1) by (simp add: rt_sem_take_def is_sem_def caller_def rt_thread_self_def)
    ultimately show ?thesis using k' wait
      by (simp add: waits_in_def sem_abs_def sem_P_def ipc_frame_def same_error_def)
  qed
qed

lemma sem_release_refines:
  assumes s: "sinv k" and i: "is_sem x k" and c: "current k \<noteq> None"
  shows "\<exists>e k' w. rt_sem_release x k = Some (e, k') \<and> sinv k' \<and> same_error k k' \<and>
     (e, w, sem_abs x k') = sem_V (sem_abs x k) \<and> (case w of None \<Rightarrow> True | Some v \<Rightarrow> runnable k' v) \<and>
     current k' \<noteq> None"
proof (cases "lists k (Suspended_on (Obj_Sem x))")
  case Nil
  show ?thesis
  proof (cases "sem_value (sems k x) < 0xffff")
    case True
    let ?k = "upd_sem x (\<lambda>y. y\<lparr>sem_value := sem_value y + 1\<rparr>) k"
    have "unat (sem_value (sems k x)) < 65535" using True by (simp add: word_less_nat_alt)
    moreover from this have "unat (sem_value (sems k x) + 1) = unat (sem_value (sems k x)) + 1"
      by (subst unat_word_ariths) simp
    moreover have "sinv ?k" using s sinv_cong [of ?k k] by simp
    ultimately show ?thesis using True Nil i c
      by (simp add: rt_sem_release_def is_sem_def sem_abs_def sem_V_def same_error_def)
  next
    case False
    then have "\<not> unat (sem_value (sems k x)) < 65535" by (simp add: word_less_nat_alt)
    then show ?thesis using False Nil i s c
      by (simp add: rt_sem_release_def is_sem_def sem_abs_def sem_V_def)
  qed
next
  case (Cons v vs)
  have h: "wait_head (Suspended_on (Obj_Sem x))" by simp
  obtain k1 k' where k': "ipc_list_resume (Suspended_on (Obj_Sem x)) k = Some k1" "rt_schedule k1 = Some k'"
      "sinv k'" "woken (Suspended_on (Obj_Sem x)) k k'"
    using resume_schedule_ok [OF s h c Cons] by blast
  then show ?thesis using Cons i
    by (auto simp: rt_sem_release_def is_sem_def sem_abs_def sem_V_def woken_def ipc_frame_def)
qed

lemma sem_P_ok: "(oc, n', ws') = sem_P i t w (n, ws) \<Longrightarrow> ws \<noteq> [] \<longrightarrow> n = 0 \<Longrightarrow> ws' \<noteq> [] \<longrightarrow> n' = 0"
  by (auto simp: sem_P_def split: if_splits)

lemma sem_V_ok: "(e, w, n', ws') = sem_V (n, ws) \<Longrightarrow> ws \<noteq> [] \<longrightarrow> n = 0 \<Longrightarrow> ws' \<noteq> [] \<longrightarrow> n' = 0"
  by (auto simp: sem_V_def split: list.splits if_splits)

lemma sem_ok_abs: "sem_ok x k \<longleftrightarrow> (snd (sem_abs x k) \<noteq> [] \<longrightarrow> fst (sem_abs x k) = 0)"
  by (simp add: sem_ok_def sem_abs_def unat_0_iff)

lemma sample_is_sem: "is_sem n sample_kernel"
  by (simp add: is_sem_def sample_kernel_def sample_object_def rt_object_get_type_def)

lemma sample_sem0: "lists sample_kernel (Suspended_on (Obj_Sem 0)) = [1]"
  by (simp add: sample_kernel_def upt_rec)

lemma sample_sem0_abs: "sem_abs 0 sample_kernel = (0, [1])"
  by (simp add: sem_abs_def sample_sem0) (simp add: sample_kernel_def)

section \<open>Properties\<close>

text \<open>
  C4.  \<open>rt_sem_take\<close> implements the abstract \<open>P\<close> operation on every branch: a token
  is taken at once, an empty semaphore answers \<open>-RT_ETIMEOUT\<close> to a zero timeout, and
  otherwise the caller joins the line at the place its flag says, suspended, with its timer
  armed exactly when the timeout is positive.  The call always returns or blocks, and keeps the
  kernel invariant and the rule that tokens and waiters exclude each other.
\<close>

theorem rt_sem_take_correct:
  assumes "sinv k" "is_sem x k" "caller t k" "sem_ok x k"
    and "0 < sint timeout \<longrightarrow> timeout < RT_TICK_MAX_HALF"
  shows "\<exists>oc k'. rt_sem_take x timeout k = Some (oc, k') \<and> sinv k' \<and> sem_ok x k' \<and>
     (oc, sem_abs x k') = sem_P (wait_pos (obj_flag (objs k (Obj_Sem x))) t (Suspended_on (Obj_Sem x)) k) t
                            (timeout \<noteq> 0) (sem_abs x k) \<and>
     (oc = Waits \<longrightarrow> tstat k' t = RT_THREAD_SUSPEND \<and> thread_error (threads k' t) = RT_EOK \<and>
        saved k' t = In_sem_take x \<and> (Thread_timer t \<in> set (timer_list k') \<longleftrightarrow> 0 < sint timeout))"
proof -
  from sem_take_refines [OF assms(1-3)] assms(5) obtain oc k' where *:
    "rt_sem_take x timeout k = Some (oc, k')" "sinv k'"
    "(oc, sem_abs x k') = sem_P (wait_pos (obj_flag (objs k (Obj_Sem x))) t (Suspended_on (Obj_Sem x)) k) t
                            (timeout \<noteq> 0) (sem_abs x k)"
    "oc = Waits \<longrightarrow> tstat k' t = RT_THREAD_SUSPEND \<and> thread_error (threads k' t) = RT_EOK \<and>
        saved k' t = In_sem_take x \<and> (Thread_timer t \<in> set (timer_list k') \<longleftrightarrow> 0 < sint timeout)"
    by blast
  have "sem_ok x k'"
    using sem_P_ok [of oc "fst (sem_abs x k')" "snd (sem_abs x k')"] *(3) assms(4)
    unfolding sem_ok_abs by (metis prod.collapse)
  with * show ?thesis by blast
qed

theorem rt_sem_take_correct_witness:
  "\<exists>oc k'. rt_sem_take 0 5 sample_kernel = Some (oc, k') \<and> oc = Waits \<and>
     sem_abs 0 k' = (0, [1, 0]) \<and> tstat k' 0 = RT_THREAD_SUSPEND"
proof -
  have w: "wait_pos (obj_flag (objs sample_kernel (Obj_Sem 0))) 0 (Suspended_on (Obj_Sem 0)) sample_kernel = 1"
    by (simp add: wait_pos_def sample_sem0) (simp add: sample_kernel_def sample_object_def)
  have "sem_ok 0 sample_kernel" by (simp add: sem_ok_abs sample_sem0_abs)
  from rt_sem_take_correct [OF sample_sinv sample_is_sem sample_caller this, of 5]
  show ?thesis unfolding sample_sem0_abs w by (auto simp: sem_P_def insert_at_def)
qed

text \<open>
  C5.  \<open>rt_sem_release\<close> implements the abstract \<open>V\<close> operation on every branch: the
  first thread in line gets the token, without the counter changing, and can run; with no
  one in line the counter goes up by one, and at 65535 the call answers
  \<open>-RT_EFULL\<close> and changes nothing.
\<close>

theorem rt_sem_release_correct:
  assumes "sinv k" "is_sem x k" "current k \<noteq> None" "sem_ok x k"
  shows "\<exists>e k' w. rt_sem_release x k = Some (e, k') \<and> sinv k' \<and> sem_ok x k' \<and>
     (e, w, sem_abs x k') = sem_V (sem_abs x k) \<and> (case w of None \<Rightarrow> True | Some v \<Rightarrow> runnable k' v)"
proof -
  from sem_release_refines [OF assms(1-3)] obtain e k' w where *:
    "rt_sem_release x k = Some (e, k')" "sinv k'" "(e, w, sem_abs x k') = sem_V (sem_abs x k)"
    "case w of None \<Rightarrow> True | Some v \<Rightarrow> runnable k' v" by blast
  have "sem_ok x k'"
    using sem_V_ok [of e w "fst (sem_abs x k')" "snd (sem_abs x k')"] *(3) assms(4)
    unfolding sem_ok_abs by (metis prod.collapse)
  with * show ?thesis by blast
qed

theorem rt_sem_release_correct_witness:
  "\<exists>k'. rt_sem_release 0 sample_kernel = Some (RT_EOK, k') \<and> sem_abs 0 k' = (0, []) \<and> runnable k' 1"
proof -
  have c: "current sample_kernel \<noteq> None" by (simp add: sample_kernel_def)
  have "sem_ok 0 sample_kernel" by (simp add: sem_ok_abs sample_sem0_abs)
  from rt_sem_release_correct [OF sample_sinv sample_is_sem c this]
  show ?thesis unfolding sample_sem0_abs by (auto simp: sem_V_def)
qed

text \<open>
  The hand-over: when the first waiter of a semaphore is released, its
  \<open>rt_sem_take\<close> returns \<open>RT_EOK\<close>, and the token it got was never visible to any other
  thread: the counter stays as it is.
\<close>

theorem sem_handover:
  assumes "sinv k" "is_sem x k" "current k \<noteq> None"
    and "lists k (Suspended_on (Obj_Sem x)) = t # ts" "thread_error (threads k t) = RT_EOK"
  shows "\<exists>k'. rt_sem_release x k = Some (RT_EOK, k') \<and> sem_abs x k' = (fst (sem_abs x k), ts) \<and>
     runnable k' t \<and> fst (rt_sem_take_finish t k') = Returns RT_EOK None"
proof -
  from sem_release_refines [OF assms(1-3)] obtain e k' w where *:
    "rt_sem_release x k = Some (e, k')" "same_error k k'" "(e, w, sem_abs x k') = sem_V (sem_abs x k)"
    "case w of None \<Rightarrow> True | Some v \<Rightarrow> runnable k' v" by blast
  have "thread_error (threads k' t) = RT_EOK" using *(2) assms(5) by (simp add: same_error_def)
  then have "fst (rt_sem_take_finish t k') = Returns RT_EOK None" by (simp add: rt_sem_take_finish_def)
  then show ?thesis using * assms(4) by (auto simp: sem_abs_def sem_V_def)
qed

theorem sem_handover_witness:
  "\<exists>k'. rt_sem_release 0 sample_kernel = Some (RT_EOK, k') \<and> sem_abs 0 k' = (0, []) \<and>
     fst (rt_sem_take_finish 1 k') = Returns RT_EOK None"
proof -
  have c: "current sample_kernel \<noteq> None" "thread_error (threads sample_kernel 1) = RT_EOK"
    by (simp_all add: sample_kernel_def sample_thread_def)
  from sem_handover [OF sample_sinv sample_is_sem c(1) sample_sem0 c(2)] show ?thesis
    unfolding sample_sem0_abs by auto
qed

text \<open>
  The timeout: when the timer of a thread that waits for a semaphore expires, the
  thread leaves the line, its \<open>rt_sem_take\<close> returns \<open>-RT_ETIMEOUT\<close>, the counter and the
  other waiters stay as they are.
\<close>

theorem sem_timeout:
  assumes "sinv k" "current k \<noteq> None" "Thread_timer t \<notin> set (timer_list k)"
    and "t \<in> set (lists k (Suspended_on (Obj_Sem x)))"
  shows "\<exists>k'. thread_timeout t k = Some k' \<and> sinv k' \<and> runnable k' t \<and>
     sem_abs x k' = (fst (sem_abs x k), remove1 t (snd (sem_abs x k))) \<and>
     fst (rt_sem_take_finish t k') = Returns (- RT_ETIMEOUT) None"
proof -
  have "tstat k t = RT_THREAD_SUSPEND" using waiter_suspended(1) [OF assms(1) _ assms(4)] by simp
  from thread_timeout_waiter [OF assms(1) this assms(3,2)] show ?thesis
    by (auto simp: timed_out_def ipc_frame_def sem_abs_def rt_sem_take_finish_def)
qed

theorem sem_timeout_witness:
  "\<exists>k'. thread_timeout 1 sample_kernel = Some k' \<and> sem_abs 0 k' = (0, []) \<and>
     fst (rt_sem_take_finish 1 k') = Returns (- RT_ETIMEOUT) None"
proof -
  have c: "current sample_kernel \<noteq> None" "Thread_timer 1 \<notin> set (timer_list sample_kernel)"
    by (simp_all add: sample_kernel_def)
  have "1 \<in> set (lists sample_kernel (Suspended_on (Obj_Sem 0)))" by (simp add: sample_sem0)
  from sem_timeout [OF sample_sinv c this] show ?thesis unfolding sample_sem0_abs by auto
qed

text \<open>
  Resetting a semaphore ends every wait: no thread is left in line, each former waiter
  can run and its \<open>rt_sem_take\<close> returns \<open>-RT_ERROR\<close>; the counter is the low half of the
  argument.
\<close>

theorem sem_reset:
  assumes "sinv k" "is_sem x k" "current k \<noteq> None"
  shows "\<exists>k'. rt_sem_control x (CMD_RESET v) k = Some (RT_EOK, k') \<and> sinv k' \<and>
     sem_abs x k' = (unat v mod 65536, []) \<and>
     (\<forall>t. t \<in> set (lists k (Suspended_on (Obj_Sem x))) \<longrightarrow>
        runnable k' t \<and> fst (rt_sem_take_finish t k') = Returns (- RT_ERROR) None)"
proof -
  let ?h = "Suspended_on (Obj_Sem x)"
  obtain k1 where k1: "ipc_list_resume_all ?h k = Some k1" "sinv k1" "all_woken ?h k k1"
    using ipc_list_resume_all_ok [OF assms(1)] by force
  let ?k = "upd_sem x (\<lambda>y. y\<lparr>sem_value := ucast v\<rparr>) k1"
  have "sinv ?k" using k1(2) sinv_cong [of ?k k1] by simp
  moreover have "current ?k \<noteq> None" using k1(3) assms(3) by (simp add: all_woken_def)
  ultimately obtain k' where k': "rt_schedule ?k = Some k'" "sinv k'" "sched_rel ?k k'"
    using rt_schedule_sinv by blast
  have v: "unat (ucast v :: u16) = unat v mod 65536" by (simp add: unsigned_ucast_eq take_bit_eq_mod)
  have "sem_abs x k' = (unat v mod 65536, [])"
    using sched_rel_frame [OF k'(3)] sched_rel_lists [OF k'(3)] k1(3) v
    by (simp add: sem_abs_def all_woken_def)
  moreover have "runnable k' t \<and> thread_error (threads k' t) = - RT_ERROR" if "t \<in> set (lists k ?h)" for t
  proof -
    have "runnable k1 t" "thread_error (threads k1 t) = - RT_ERROR" using k1(3) that by (auto simp: all_woken_def)
    moreover from this have "runnable ?k t" by (simp add: runnable_def)
    ultimately show ?thesis using k'(3) sched_rel_thread(3) [OF k'(3), of t] by (simp add: sched_rel_def)
  qed
  ultimately show ?thesis using k1(1) k'(1,2) assms(2)
    by (auto simp: rt_sem_control_def is_sem_def rt_sem_take_finish_def)
qed

theorem sem_reset_witness:
  "\<exists>k'. rt_sem_control 0 (CMD_RESET 7) sample_kernel = Some (RT_EOK, k') \<and> sem_abs 0 k' = (7, []) \<and>
     fst (rt_sem_take_finish 1 k') = Returns (- RT_ERROR) None"
proof -
  have c: "current sample_kernel \<noteq> None" by (simp add: sample_kernel_def)
  from sem_reset [OF sample_sinv sample_is_sem c, of 0 7] show ?thesis by (auto simp: sample_sem0)
qed

end
