(* ===== verification/Mutex.thy ===== *)
theory Mutex
  imports Sample
begin

text \<open>
  The mutexes of \<^verbatim>\<open>rt-thread/src/ipc.c\<close>: recursive, handed over to the first waiter on
  release, with priority inheritance for the owner.
\<close>

section \<open>Operations\<close>

abbreviation upd_mutex :: "nat \<Rightarrow> (rt_mutex \<Rightarrow> rt_mutex) \<Rightarrow> kernel \<Rightarrow> kernel" where
  "upd_mutex m f k \<equiv> k\<lparr>mutexes := (mutexes k)(m := f (mutexes k m))\<rparr>"

definition fresh_mutex :: rt_mutex where
  "fresh_mutex = \<lparr>mutex_value = 1, original_priority = 0xFF, hold = 0, owner = None\<rparr>"

definition rt_mutex_init :: "nat \<Rightarrow> string \<Rightarrow> u8 \<Rightarrow> kernel \<Rightarrow> (rt_err \<times> kernel) option" where
  "rt_mutex_init m name flag k =
     do {
       k1 \<leftarrow> rt_object_init (Obj_Mutex m) Class_Mutex name k;
       k2 \<leftarrow> ipc_object_init (Obj_Mutex m) k1;
       let k3 = upd_mutex m (\<lambda>_. fresh_mutex) k2;
       Some (RT_EOK, upd_obj (Obj_Mutex m) (\<lambda>ob. ob\<lparr>obj_flag := RT_IPC_FLAG_PRIO\<rparr>) k3)
     }"

definition rt_mutex_detach :: "nat \<Rightarrow> kernel \<Rightarrow> (rt_err \<times> kernel) option" where
  "rt_mutex_detach m k =
     do {
       rt_assert (rt_object_get_type (Obj_Mutex m) k = class_code Class_Mutex);
       rt_assert (rt_object_is_systemobject (Obj_Mutex m) k);
       k1 \<leftarrow> ipc_list_resume_all (Suspended_on (Obj_Mutex m)) k;
       Some (RT_EOK, rt_object_detach (Obj_Mutex m) k1)
     }"

definition rt_mutex_create :: "nat option \<Rightarrow> string \<Rightarrow> u8 \<Rightarrow> kernel \<Rightarrow> (nat option \<times> kernel) option" where
  "rt_mutex_create mem name flag k =
     do {
       rt_assert (rt_interrupt_get_nest k = 0);
       (ob, k1) \<leftarrow> rt_object_allocate (map_option Obj_Mutex mem) Class_Mutex name k;
       (case mem of
          None \<Rightarrow> Some (None, k1)
        | Some m \<Rightarrow>
            do {
              k2 \<leftarrow> ipc_object_init (Obj_Mutex m) k1;
              let k3 = upd_mutex m (\<lambda>_. fresh_mutex) k2;
              Some (Some m, upd_obj (Obj_Mutex m) (\<lambda>ob. ob\<lparr>obj_flag := RT_IPC_FLAG_PRIO\<rparr>) k3)
            })
     }"

definition rt_mutex_delete :: "nat \<Rightarrow> kernel \<Rightarrow> (rt_err \<times> kernel) option" where
  "rt_mutex_delete m k =
     do {
       rt_assert (rt_object_get_type (Obj_Mutex m) k = class_code Class_Mutex);
       rt_assert (\<not> rt_object_is_systemobject (Obj_Mutex m) k);
       rt_assert (rt_interrupt_get_nest k = 0);
       k1 \<leftarrow> ipc_list_resume_all (Suspended_on (Obj_Mutex m)) k;
       k2 \<leftarrow> rt_object_delete (Obj_Mutex m) k1;
       Some (RT_EOK, k2)
     }"

definition rt_mutex_take :: "nat \<Rightarrow> s32 \<Rightarrow> kernel \<Rightarrow> (unit outcome \<times> kernel) option" where
  "rt_mutex_take m timeout k =
     do {
       rt_assert (scheduler_available k);
       rt_assert (rt_object_get_type (Obj_Mutex m) k = class_code Class_Mutex);
       t \<leftarrow> rt_thread_self k;
       let k1 = upd_thread t (\<lambda>th. th\<lparr>thread_error := RT_EOK\<rparr>) k;
       let mx = mutexes k1 m;
       (if owner mx = Some t then
          (if hold mx < 0xff
           then Some (Returns RT_EOK None, upd_mutex m (\<lambda>x. x\<lparr>hold := hold x + 1\<rparr>) k1)
           else Some (Returns (- RT_EFULL) None, k1))
        else if mutex_value mx > 0 then
          (let k2 = upd_mutex m (\<lambda>x. x\<lparr>mutex_value := mutex_value x - 1, owner := Some t,
                      original_priority := current_priority (threads k1 t)\<rparr>) k1
           in if hold (mutexes k2 m) < 0xff
              then Some (Returns RT_EOK None, upd_mutex m (\<lambda>x. x\<lparr>hold := hold x + 1\<rparr>) k2)
              else Some (Returns (- RT_EFULL) None, k2))
        else if timeout = 0 then
          Some (Returns (- RT_ETIMEOUT) None, upd_thread t (\<lambda>th. th\<lparr>thread_error := - RT_ETIMEOUT\<rparr>) k1)
        else
          do {
            ow \<leftarrow> owner mx;
            k2 \<leftarrow> (if current_priority (threads k1 t) < current_priority (threads k1 ow)
                   then map_option snd (rt_thread_control ow
                          (CTRL_CHANGE_PRIORITY (current_priority (threads k1 t))) k1)
                   else Some k1);
            k3 \<leftarrow> ipc_wait (Suspended_on (Obj_Mutex m)) (obj_flag (objs k2 (Obj_Mutex m))) t timeout
                    (In_mutex_take m) k2;
            Some (Waits, k3)
          })
     }"

definition rt_mutex_take_finish :: "tid \<Rightarrow> kernel \<Rightarrow> unit outcome \<times> kernel" where
  "rt_mutex_take_finish t k =
     (if thread_error (threads k t) \<noteq> RT_EOK
      then (Returns (thread_error (threads k t)) None, finish_call t k)
      else (Returns RT_EOK None, finish_call t k))"

definition rt_mutex_trytake :: "nat \<Rightarrow> kernel \<Rightarrow> (unit outcome \<times> kernel) option" where
  "rt_mutex_trytake m k = rt_mutex_take m 0 k"

text \<open>
  The end of the last release: the first waiter becomes the owner and is woken, or the mutex
  is free.
\<close>

definition mutex_hand_over :: "nat \<Rightarrow> kernel \<Rightarrow> (rt_err \<times> kernel) option" where
  "mutex_hand_over m k =
     (case lists k (Suspended_on (Obj_Mutex m)) of
        w # _ \<Rightarrow>
          (let k1 = upd_mutex m (\<lambda>x. x\<lparr>owner := Some w,
                      original_priority := current_priority (threads k w)\<rparr>) k
           in if hold (mutexes k1 m) < 0xff then
                do {
                  k2 \<leftarrow> ipc_list_resume (Suspended_on (Obj_Mutex m))
                          (upd_mutex m (\<lambda>x. x\<lparr>hold := hold x + 1\<rparr>) k1);
                  k3 \<leftarrow> rt_schedule k2;
                  Some (RT_EOK, k3)
                }
              else Some (- RT_EFULL, k1))
      | [] \<Rightarrow>
          if mutex_value (mutexes k m) < 0xffff
          then Some (RT_EOK, upd_mutex m (\<lambda>x. x\<lparr>mutex_value := mutex_value x + 1,
                       owner := None, original_priority := 0xff\<rparr>) k)
          else Some (- RT_EFULL, k))"

definition rt_mutex_release :: "nat \<Rightarrow> kernel \<Rightarrow> (rt_err \<times> kernel) option" where
  "rt_mutex_release m k =
     do {
       rt_assert (rt_object_get_type (Obj_Mutex m) k = class_code Class_Mutex);
       rt_assert (in_thread_context k);
       t \<leftarrow> rt_thread_self k;
       (if owner (mutexes k m) \<noteq> Some t then
          Some (- RT_ERROR, upd_thread t (\<lambda>th. th\<lparr>thread_error := - RT_ERROR\<rparr>) k)
        else
          let k1 = upd_mutex m (\<lambda>x. x\<lparr>hold := hold x - 1\<rparr>) k in
          if hold (mutexes k1 m) = 0 then
            do {
              k2 \<leftarrow> (if original_priority (mutexes k1 m) \<noteq> current_priority (threads k1 t)
                     then map_option snd (rt_thread_control t
                            (CTRL_CHANGE_PRIORITY (original_priority (mutexes k1 m))) k1)
                     else Some k1);
              mutex_hand_over m k2
            }
          else Some (RT_EOK, k1))
     }"

definition rt_mutex_control :: "nat \<Rightarrow> ipc_cmd \<Rightarrow> kernel \<Rightarrow> (rt_err \<times> kernel) option" where
  "rt_mutex_control m cmd k =
     do {
       rt_assert (rt_object_get_type (Obj_Mutex m) k = class_code Class_Mutex);
       Some (- RT_ERROR, k)
     }"

section \<open>Correctness\<close>

definition is_mutex :: "nat \<Rightarrow> kernel \<Rightarrow> bool" where
  "is_mutex m k \<longleftrightarrow> rt_object_get_type (Obj_Mutex m) k = class_code Class_Mutex \<and>
     (obj_flag (objs k (Obj_Mutex m)) = RT_IPC_FLAG_FIFO \<or> obj_flag (objs k (Obj_Mutex m)) = RT_IPC_FLAG_PRIO)"

text \<open>
  A mutex is free, with value 1 and nobody waiting, or it is held by one started thread that
  does not wait for it, with value 0 and a positive count of nested takes.
\<close>

definition mutex_ok :: "nat \<Rightarrow> kernel \<Rightarrow> bool" where
  "mutex_ok m k \<longleftrightarrow>
     (case owner (mutexes k m) of
        None \<Rightarrow> mutex_value (mutexes k m) = 1 \<and> hold (mutexes k m) = 0 \<and>
                lists k (Suspended_on (Obj_Mutex m)) = []
      | Some t \<Rightarrow> mutex_value (mutexes k m) = 0 \<and> hold (mutexes k m) \<noteq> 0 \<and>
                original_priority (mutexes k m) < 32 \<and> started k t \<and>
                t \<notin> set (lists k (Suspended_on (Obj_Mutex m))))"

text \<open>The abstract mutex: owner, number of nested takes, line of waiting threads.\<close>

type_synonym mutex_state = "tid option \<times> nat \<times> tid list"

definition mutex_abs :: "nat \<Rightarrow> kernel \<Rightarrow> mutex_state" where
  "mutex_abs m k = (owner (mutexes k m), unat (hold (mutexes k m)), lists k (Suspended_on (Obj_Mutex m)))"

definition mutex_P :: "nat \<Rightarrow> tid \<Rightarrow> bool \<Rightarrow> mutex_state \<Rightarrow> unit outcome \<times> mutex_state" where
  "mutex_P i t wait a = (case a of (ow, n, ws) \<Rightarrow>
       if ow = Some t then
         (if n < 255 then (Returns RT_EOK None, ow, n + 1, ws) else (Returns (- RT_EFULL) None, ow, n, ws))
       else if ow = None then (Returns RT_EOK None, Some t, 1, ws)
       else if wait then (Waits, ow, n, insert_at i t ws)
       else (Returns (- RT_ETIMEOUT) None, ow, n, ws))"

definition mutex_V :: "tid \<Rightarrow> mutex_state \<Rightarrow> rt_err \<times> mutex_state" where
  "mutex_V t a = (case a of (ow, n, ws) \<Rightarrow>
       if ow \<noteq> Some t then (- RT_ERROR, ow, n, ws)
       else if n > 1 then (RT_EOK, ow, n - 1, ws)
       else case ws of [] \<Rightarrow> (RT_EOK, None, 0, []) | w # vs \<Rightarrow> (RT_EOK, Some w, 1, vs))"

lemma prio_pos_cong: "(\<And>s. s \<in> set ss \<Longrightarrow> pr s = pr' s) \<Longrightarrow> prio_pos pr p ss = prio_pos pr' p ss"
  by (induction ss) auto

lemma running_priority:
  assumes "sinv k" "tstat k t = RT_THREAD_RUNNING"
  shows "unat (current_priority (threads k t)) < 32"
  using kinv_startedD(1) [OF assms(1), of t] assms(2) by (simp add: prio_ok_def started_def runnable_def)

text \<open>The step of priority inheritance: the owner is raised to the priority of the caller.\<close>

lemma inherit_ok:
  assumes s: "sinv k" and p: "unat p < 32" and o: "started k ow"
  shows "\<exists>k'. (if p < current_priority (threads k ow)
              then map_option snd (rt_thread_control ow (CTRL_CHANGE_PRIORITY p) k) else Some k) = Some k' \<and>
     sinv k' \<and> (k' = k \<and> \<not> p < current_priority (threads k ow) \<or>
                prio_rel ow p k k' \<and> p < current_priority (threads k ow)) \<and>
     current_priority (threads k' ow) = min p (current_priority (threads k ow))"
proof (cases "p < current_priority (threads k ow)")
  case True
  obtain k' where k': "rt_thread_change_priority ow p k = Some k'" "sinv k'" "prio_rel ow p k k'"
    using change_priority_ok [OF s p] by blast
  moreover have "rt_object_get_type (Obj_Thread ow) k = class_code Class_Thread"
    using kinv_startedD(4) [OF s o] .
  moreover have "current_priority (threads k' ow) = p" using prio_rel_frame(19) [OF k'(3), of ow] by simp
  ultimately show ?thesis using True by (simp add: rt_thread_control_def min_def less_imp_le)
qed (use s in \<open>simp add: min_def\<close>)

lemma mutex_take_fast:
  assumes s: "sinv k" and i: "is_mutex m k" and c: "caller t k" and ok: "mutex_ok m k"
    and f: "owner (mutexes k m) = Some t \<or> owner (mutexes k m) = None \<or> timeout = 0"
  shows "\<exists>oc k'. rt_mutex_take m timeout k = Some (oc, k') \<and> sinv k' \<and> mutex_ok m k' \<and>
     (oc, mutex_abs m k') = mutex_P j t (timeout \<noteq> 0) (mutex_abs m k) \<and>
     current_priority (threads k' u) = current_priority (threads k u)"
proof -
  let ?k = "upd_thread t (\<lambda>th. th\<lparr>thread_error := RT_EOK\<rparr>) k"
  let ?mx = "mutexes k m"
  have e: "scheduler_available k" "rt_object_get_type (Obj_Mutex m) k = class_code Class_Mutex"
    "current k = Some t" "rt_thread_self k = Some t" "started k t"
    using i c by (simp_all add: is_mutex_def caller_def rt_thread_self_def started_def runnable_def)
  have st: "started (upd_thread v (\<lambda>th. th\<lparr>thread_error := z\<rparr>) k\<lparr>mutexes := mm\<rparr>) u \<longleftrightarrow> started k u"
    "started (upd_thread v (\<lambda>th. th\<lparr>thread_error := z\<rparr>) k) u \<longleftrightarrow> started k u" for mm u v z
    by (simp_all add: started_def runnable_def)
  have sk: "sinv (?k\<lparr>mutexes := mm\<rparr>)" for mm using s sinv_cong [of "?k\<lparr>mutexes := mm\<rparr>" ?k] by simp
  consider (nest) "owner ?mx = Some t" "hold ?mx < 0xff" | (full) "owner ?mx = Some t" "\<not> hold ?mx < 0xff"
    | (free) "owner ?mx = None" | (busy) ow where "owner ?mx = Some ow" "ow \<noteq> t" "timeout = 0"
    using f by (cases "owner ?mx") auto
  then show ?thesis
  proof cases
    case nest
    have n: "unat (hold ?mx) < 255" using nest by (simp add: word_less_nat_alt)
    then have u: "unat (hold ?mx + 1) = unat (hold ?mx) + 1" by (subst unat_word_ariths) simp
    then have "hold ?mx + 1 \<noteq> 0" by (metis Suc_eq_plus1 nat.distinct(1) unat_0)
    then show ?thesis using nest n u e ok sk st
      by (simp add: rt_mutex_take_def mutex_abs_def mutex_P_def mutex_ok_def Let_def)
  next
    case full
    then have "\<not> unat (hold ?mx) < 255" by (simp add: word_less_nat_alt)
    then show ?thesis using full e ok s st
      by (simp add: rt_mutex_take_def mutex_abs_def mutex_P_def mutex_ok_def Let_def)
  next
    case free
    have "current_priority (threads k t) < 32"
      using running_priority [OF s, of t] c by (simp add: caller_def word_less_nat_alt)
    then show ?thesis using free e ok sk st
      by (simp add: rt_mutex_take_def mutex_abs_def mutex_P_def mutex_ok_def Let_def)
  next
    case busy
    then show ?thesis using e ok s st
      by (simp add: rt_mutex_take_def mutex_abs_def mutex_P_def mutex_ok_def Let_def)
  qed
qed

lemma started_upd_error [simp]:
  "started (upd_thread v (\<lambda>th. th\<lparr>thread_error := z\<rparr>) k) u \<longleftrightarrow> started k u"
  by (simp add: started_def runnable_def)

lemma prio_rel_started: "prio_rel t p k k' \<Longrightarrow> started k' u \<longleftrightarrow> started k u"
  using prio_rel_frame(17) by (simp add: started_def runnable_def)

text \<open>
  A blocking take: the caller waits, and the owner runs at least at the priority of the
  caller from then on.
\<close>

lemma mutex_take_wait:
  assumes s: "sinv k" and i: "is_mutex m k" and c: "caller t k" and ok: "mutex_ok m k"
    and f: "owner (mutexes k m) = Some ow" "ow \<noteq> t" "timeout \<noteq> 0"
    and to: "0 < sint timeout \<Longrightarrow> timeout < RT_TICK_MAX_HALF"
  shows "\<exists>k'. rt_mutex_take m timeout k = Some (Waits, k') \<and> sinv k' \<and> mutex_ok m k' \<and>
     mutex_abs m k' = (Some ow, unat (hold (mutexes k m)),
        insert_at (wait_pos (obj_flag (objs k (Obj_Mutex m))) t (Suspended_on (Obj_Mutex m)) k) t
          (lists k (Suspended_on (Obj_Mutex m)))) \<and>
     current_priority (threads k' ow) = min (current_priority (threads k t)) (current_priority (threads k ow)) \<and>
     (\<forall>u. u \<noteq> ow \<longrightarrow> current_priority (threads k' u) = current_priority (threads k u)) \<and>
     tstat k' t = RT_THREAD_SUSPEND \<and> thread_error (threads k' t) = RT_EOK \<and> saved k' t = In_mutex_take m"
proof -
  let ?k = "upd_thread t (\<lambda>th. th\<lparr>thread_error := RT_EOK\<rparr>) k"
  let ?h = "Suspended_on (Obj_Mutex m)"
  let ?fl = "obj_flag (objs k (Obj_Mutex m))"
  let ?p = "current_priority (threads k t)"
  have e: "scheduler_available k" "rt_object_get_type (Obj_Mutex m) k = class_code Class_Mutex"
    "rt_thread_self k = Some t" "current k = Some t" "tstat k t = RT_THREAD_RUNNING"
    "?fl = RT_IPC_FLAG_FIFO \<or> ?fl = RT_IPC_FLAG_PRIO"
    using i c by (simp_all add: is_mutex_def caller_def rt_thread_self_def)
  have o: "started k ow" "ow \<notin> set (lists k ?h)" "mutex_value (mutexes k m) = 0" "hold (mutexes k m) \<noteq> 0"
    "original_priority (mutexes k m) < 32"
    using ok f by (auto simp: mutex_ok_def)
  have p: "unat ?p < 32" by (rule running_priority [OF s e(5)])
  have s0: "sinv ?k" "started ?k ow" using s o(1) by simp_all
  obtain k2 where k2: "(if ?p < current_priority (threads ?k ow)
        then map_option snd (rt_thread_control ow (CTRL_CHANGE_PRIORITY ?p) ?k) else Some ?k) = Some k2"
      "sinv k2" "k2 = ?k \<or> prio_rel ow ?p ?k k2"
      "current_priority (threads k2 ow) = min ?p (current_priority (threads ?k ow))"
    using inherit_ok [OF s0(1) p s0(2)] by blast
  have fr: "current k2 = Some t" "tstat k2 u = tstat k u" "objs k2 = objs k" "mutexes k2 = mutexes k"
    "u \<noteq> ow \<Longrightarrow> current_priority (threads k2 u) = current_priority (threads k u)"
    "lists k2 ?h = lists k ?h" "started k2 u \<longleftrightarrow> started k u" "thread_error (threads k2 t) = RT_EOK" for u
    using k2(3) e(4) prio_rel_frame [of ow ?p ?k k2] prio_rel_started [of ow ?p ?k k2 u] by auto
  have r2: "tstat k2 t = RT_THREAD_RUNNING" using fr(2) e(5) by simp
  have h: "wait_head ?h" by simp
  obtain k3 where k3: "ipc_wait ?h ?fl t timeout (In_mutex_take m) k2 = Some k3" "sinv k3"
      "waits_in ?h t (wait_pos ?fl t ?h k2) (In_mutex_take m) timeout k2 k3"
    using ipc_wait_ok [OF k2(2) fr(1) r2 h e(6) to] by blast
  have wp: "wait_pos ?fl t ?h k2 = wait_pos ?fl t ?h k"
  proof -
    have "prio_pos (\<lambda>s. current_priority (threads k2 s)) ?p (lists k ?h) =
          prio_pos (\<lambda>s. current_priority (threads k s)) ?p (lists k ?h)"
      by (rule prio_pos_cong) (use o(2) fr(5) in metis)
    then show ?thesis using fr(5) [of t] f(2) fr(6) by (simp add: wait_pos_def)
  qed
  note w = k3(3) [unfolded waits_in_def ipc_frame_def same_error_def]
  have abs: "mutex_abs m k3 = (Some ow, unat (hold (mutexes k m)), insert_at (wait_pos ?fl t ?h k) t (lists k ?h))"
    using w f(1) by (simp add: mutex_abs_def fr wp)
  moreover have "mutex_ok m k3" using w o f by (auto simp: mutex_ok_def fr)
  moreover have "current_priority (threads k3 ow) = min ?p (current_priority (threads k ow))"
    "u \<noteq> ow \<Longrightarrow> current_priority (threads k3 u) = current_priority (threads k u)" for u
    using w k2(4) fr(5) [of u] by simp_all
  moreover have "tstat k3 t = RT_THREAD_SUSPEND" "thread_error (threads k3 t) = RT_EOK"
    "saved k3 t = In_mutex_take m" using w fr(8) by auto
  moreover have "rt_mutex_take m timeout k = Some (Waits, k3)"
    using e f o(3) k2(1) k3(1) by (auto simp: rt_mutex_take_def Let_def fr(3) split: if_splits)
  ultimately show ?thesis using k3(2) by blast
qed

lemma restore_ok:
  assumes s: "sinv k" and p: "unat p < 32" and o: "started k t"
  shows "\<exists>k'. (if p \<noteq> current_priority (threads k t)
              then map_option snd (rt_thread_control t (CTRL_CHANGE_PRIORITY p) k) else Some k) = Some k' \<and>
     sinv k' \<and> (k' = k \<or> prio_rel t p k k') \<and> current_priority (threads k' t) = p"
proof (cases "p = current_priority (threads k t)")
  case False
  obtain k' where k': "rt_thread_change_priority t p k = Some k'" "sinv k'" "prio_rel t p k k'"
    using change_priority_ok [OF s p] by blast
  moreover have "rt_object_get_type (Obj_Thread t) k = class_code Class_Thread"
    using kinv_startedD(4) [OF s o] .
  moreover have "current_priority (threads k' t) = p" using prio_rel_frame(19) [OF k'(3), of t] by simp
  ultimately show ?thesis using False by (simp add: rt_thread_control_def)
qed (use s in simp)

text \<open>The end of the last release, with the hold count at zero.\<close>

lemma mutex_hand_over_ok:
  assumes s: "sinv k" and c: "current k = Some t" and f: "hold (mutexes k m) = 0" "mutex_value (mutexes k m) = 0"
  shows "\<exists>k'. mutex_hand_over m k = Some (RT_EOK, k') \<and> sinv k' \<and> mutex_ok m k' \<and>
     mutex_abs m k' = (case lists k (Suspended_on (Obj_Mutex m)) of [] \<Rightarrow> (None, 0, []) | w # ws \<Rightarrow> (Some w, 1, ws)) \<and>
     (\<forall>u. current_priority (threads k' u) = current_priority (threads k u)) \<and>
     same_error k k' \<and> (\<forall>w ws. lists k (Suspended_on (Obj_Mutex m)) = w # ws \<longrightarrow> runnable k' w)"
proof (cases "lists k (Suspended_on (Obj_Mutex m))")
  case Nil
  let ?k' = "upd_mutex m (\<lambda>x. x\<lparr>mutex_value := mutex_value x + 1, owner := None,
                original_priority := 0xff\<rparr>) k"
  have "mutex_hand_over m k = Some (RT_EOK, ?k')"
    using Nil f by (simp add: mutex_hand_over_def)
  moreover have "sinv ?k'" using s sinv_cong [of ?k' k] by simp
  ultimately show ?thesis
    using Nil f by (intro exI [of _ ?k']) (simp add: mutex_ok_def mutex_abs_def same_error_def)
next
  case (Cons w ws)
  let ?h = "Suspended_on (Obj_Mutex m)"
  let ?k4 = "upd_mutex m (\<lambda>x. x\<lparr>owner := Some w, original_priority := current_priority (threads k w),
                hold := 1\<rparr>) k"
  have s4: "sinv ?k4" using s sinv_cong [of ?k4 k] by simp
  have h: "wait_head ?h" by simp
  have l4: "lists ?k4 ?h = w # ws" using Cons by simp
  obtain k5 k' where k': "ipc_list_resume ?h ?k4 = Some k5" "rt_schedule k5 = Some k'" "sinv k'" "woken ?h ?k4 k'"
    using resume_schedule_ok [OF s4 h _ l4] c by auto
  have r: "mutex_hand_over m k = Some (RT_EOK, k')"
    using Cons f k'(1,2) by (simp add: mutex_hand_over_def)
  note wk = k'(4) [unfolded woken_def ipc_frame_def same_error_def]
  have d: "w \<notin> set ws" using s Cons by (metis distinct.simps(2) kinv_linked linked_ok_def sinv_def)
  have "tstat k w = RT_THREAD_SUSPEND" using waiter_suspended(1) [OF s h] Cons by simp
  then have pw: "current_priority (threads k w) < 32"
    using kinv_startedD(1) [OF s, of w] by (simp add: started_def prio_ok_def word_less_nat_alt)
  have rw: "runnable k' w" "lists k' ?h = ws" "mutexes k' = mutexes ?k4" using wk l4 by simp_all
  have "mutex_ok m k'" using rw d pw f by (simp add: mutex_ok_def started_def)
  moreover have "mutex_abs m k' = (Some w, 1, ws)" using rw f by (simp add: mutex_abs_def)
  ultimately show ?thesis
    using r k'(3) Cons rw(1) wk by (intro exI [of _ k']) (simp add: same_error_def)
qed

text \<open>The last release: the priority goes back, the mutex to the first waiter or nobody.\<close>

lemma mutex_release_last:
  assumes s: "sinv k" and i: "is_mutex m k" and c: "current k = Some t"
    and th: "in_thread_context k" and ok: "mutex_ok m k"
    and f: "owner (mutexes k m) = Some t" "hold (mutexes k m) = 1"
  shows "\<exists>k'. rt_mutex_release m k = Some (RT_EOK, k') \<and> sinv k' \<and> mutex_ok m k' \<and>
     (RT_EOK, mutex_abs m k') = mutex_V t (mutex_abs m k) \<and>
     current_priority (threads k' t) = original_priority (mutexes k m) \<and>
     (\<forall>u. u \<noteq> t \<longrightarrow> current_priority (threads k' u) = current_priority (threads k u)) \<and>
     same_error k k' \<and> (\<forall>w ws. lists k (Suspended_on (Obj_Mutex m)) = w # ws \<longrightarrow> runnable k' w)"
proof -
  let ?k1 = "upd_mutex m (\<lambda>x. x\<lparr>hold := 0\<rparr>) k"
  let ?h = "Suspended_on (Obj_Mutex m)"
  let ?p = "original_priority (mutexes k m)"
  have e: "rt_object_get_type (Obj_Mutex m) k = class_code Class_Mutex" "rt_thread_self k = Some t"
    using i c by (simp_all add: is_mutex_def rt_thread_self_def)
  have o: "unat ?p < 32" "started k t" "mutex_value (mutexes k m) = 0"
    using ok f by (simp_all add: mutex_ok_def word_less_nat_alt)
  have s1: "sinv ?k1" using s sinv_cong [of ?k1 k] by simp
  have o1: "started ?k1 t" using o(2) by (simp add: started_def runnable_def)
  obtain k2 where k2: "(if ?p \<noteq> current_priority (threads ?k1 t)
       then map_option snd (rt_thread_control t (CTRL_CHANGE_PRIORITY ?p) ?k1) else Some ?k1) = Some k2"
      "sinv k2" "k2 = ?k1 \<or> prio_rel t ?p ?k1 k2" "current_priority (threads k2 t) = ?p"
    using restore_ok [OF s1 o(1) o1] by blast
  have fr: "current k2 = Some t" "mutexes k2 = mutexes ?k1"
    "u \<noteq> t \<Longrightarrow> current_priority (threads k2 u) = current_priority (threads k u)"
    "lists k2 ?h = lists k ?h" "thread_error (threads k2 u) = thread_error (threads k u)" for u
    using k2(3) c prio_rel_frame [of t ?p ?k1 k2] by auto
  have m2: "hold (mutexes k2 m) = 0" "mutex_value (mutexes k2 m) = 0" using fr(2) o(3) by simp_all
  obtain k' where k': "mutex_hand_over m k2 = Some (RT_EOK, k')" "sinv k'" "mutex_ok m k'"
     "mutex_abs m k' = (case lists k2 ?h of [] \<Rightarrow> (None, 0, []) | w # ws \<Rightarrow> (Some w, 1, ws))"
     "\<forall>u. current_priority (threads k' u) = current_priority (threads k2 u)"
     "same_error k2 k'" "\<forall>w ws. lists k2 ?h = w # ws \<longrightarrow> runnable k' w"
    using mutex_hand_over_ok [OF k2(2) fr(1) m2] by blast
  have "rt_mutex_release m k = Some (RT_EOK, k')"
    using e th f k2(1) k'(1) by (auto simp: rt_mutex_release_def Let_def split: if_splits)
  moreover have "(RT_EOK, mutex_abs m k') = mutex_V t (mutex_abs m k)"
    unfolding k'(4) fr(4) using f by (simp add: mutex_V_def mutex_abs_def split: list.splits)
  ultimately show ?thesis using k' k2(4) fr by (intro exI [of _ k']) (simp add: same_error_def)
qed

lemma mutex_release_other:
  assumes s: "sinv k" and i: "is_mutex m k" and c: "current k = Some t"
    and th: "in_thread_context k" and ok: "mutex_ok m k"
    and f: "owner (mutexes k m) \<noteq> Some t \<or> hold (mutexes k m) \<noteq> 1"
  shows "\<exists>e k'. rt_mutex_release m k = Some (e, k') \<and> sinv k' \<and> mutex_ok m k' \<and>
     (e, mutex_abs m k') = mutex_V t (mutex_abs m k) \<and>
     (\<forall>u. current_priority (threads k' u) = current_priority (threads k u)) \<and>
     (\<forall>u. u \<noteq> t \<longrightarrow> threads k' u = threads k u)"
proof (cases "owner (mutexes k m) = Some t")
  case False
  let ?k = "upd_thread t (\<lambda>th. th\<lparr>thread_error := - RT_ERROR\<rparr>) k"
  have "rt_mutex_release m k = Some (- RT_ERROR, ?k)"
    using False i c th by (simp add: rt_mutex_release_def is_mutex_def rt_thread_self_def)
  moreover have "mutex_ok m ?k" using ok by (simp add: mutex_ok_def cong: option.case_cong)
  ultimately show ?thesis using False s by (simp add: mutex_abs_def mutex_V_def)
next
  case True
  let ?k = "upd_mutex m (\<lambda>x. x\<lparr>hold := hold x - 1\<rparr>) k"
  have n0: "hold (mutexes k m) \<noteq> 0" and n1: "hold (mutexes k m) \<noteq> 1" using True ok f by (simp_all add: mutex_ok_def)
  have u: "unat (hold (mutexes k m) - 1) = unat (hold (mutexes k m)) - 1" using n0 by (simp add: unat_minus_one)
  have g: "1 < unat (hold (mutexes k m))"
  proof -
    have "unat (hold (mutexes k m)) \<noteq> 0" "unat (hold (mutexes k m)) \<noteq> unat (1 :: u8)"
      using n0 n1 unat_eqD unat_0_iff by blast+
    then show ?thesis by simp
  qed
  have z: "hold (mutexes k m) - 1 \<noteq> 0" using n1 by simp
  have "rt_mutex_release m k = Some (RT_EOK, ?k)"
    using True z i c th by (simp add: rt_mutex_release_def is_mutex_def rt_thread_self_def)
  moreover have "sinv ?k" using s sinv_cong [of ?k k] by simp
  moreover have "mutex_ok m ?k" using ok True z by (simp add: mutex_ok_def started_def runnable_def)
  ultimately show ?thesis using True u g by (simp add: mutex_abs_def mutex_V_def)
qed

lemma mutex_take_refines:
  assumes "sinv k" "is_mutex m k" "caller t k" "mutex_ok m k"
    and "0 < sint timeout \<longrightarrow> timeout < RT_TICK_MAX_HALF"
  shows "\<exists>oc k'. rt_mutex_take m timeout k = Some (oc, k') \<and> sinv k' \<and> mutex_ok m k' \<and>
     (oc, mutex_abs m k') = mutex_P (wait_pos (obj_flag (objs k (Obj_Mutex m))) t (Suspended_on (Obj_Mutex m)) k) t
                              (timeout \<noteq> 0) (mutex_abs m k) \<and>
     (oc = Waits \<longrightarrow> tstat k' t = RT_THREAD_SUSPEND \<and> thread_error (threads k' t) = RT_EOK \<and>
        saved k' t = In_mutex_take m)"
proof (cases "owner (mutexes k m) = Some t \<or> owner (mutexes k m) = None \<or> timeout = 0")
  case True
  from mutex_take_fast [OF assms(1-4) True] obtain oc k' where *:
    "rt_mutex_take m timeout k = Some (oc, k')" "sinv k'" "mutex_ok m k'"
    "(oc, mutex_abs m k') = mutex_P (wait_pos (obj_flag (objs k (Obj_Mutex m))) t (Suspended_on (Obj_Mutex m)) k) t
                              (timeout \<noteq> 0) (mutex_abs m k)" by blast
  moreover have "oc \<noteq> Waits" using *(4) True by (auto simp: mutex_P_def mutex_abs_def split: if_splits)
  ultimately show ?thesis by blast
next
  case False
  then obtain ow where f: "owner (mutexes k m) = Some ow" "ow \<noteq> t" "timeout \<noteq> 0" by auto
  show ?thesis using mutex_take_wait [OF assms(1-4) f] assms(5) f
    by (auto simp: mutex_P_def mutex_abs_def)
qed

lemma mutex_release_refines:
  assumes "sinv k" "is_mutex m k" "current k = Some t" "in_thread_context k" "mutex_ok m k"
  shows "\<exists>e k'. rt_mutex_release m k = Some (e, k') \<and> sinv k' \<and> mutex_ok m k' \<and>
     (e, mutex_abs m k') = mutex_V t (mutex_abs m k)"
proof (cases "owner (mutexes k m) = Some t \<and> hold (mutexes k m) = 1")
  case True
  then show ?thesis using mutex_release_last [OF assms] by blast
next
  case False
  then show ?thesis using mutex_release_other [OF assms] by blast
qed

lemma sample_mutex0:
  "is_mutex n sample_kernel" "mutex_ok 0 sample_kernel" "mutex_abs 0 sample_kernel = (Some 0, 1, [3])"
  "lists sample_kernel (Suspended_on (Obj_Mutex 0)) = [3]"
  "in_thread_context sample_kernel" "current sample_kernel = Some 0"
proof -
  show l: "lists sample_kernel (Suspended_on (Obj_Mutex 0)) = [3]" by (simp add: sample_kernel_def upt_rec)
  show "is_mutex n sample_kernel"
    by (simp add: is_mutex_def sample_kernel_def sample_object_def rt_object_get_type_def)
  have "started sample_kernel 0"
    by (simp add: started_def runnable_def sample_kernel_def sample_thread_def sample_stat_def)
  then show "mutex_ok 0 sample_kernel" unfolding mutex_ok_def l by (simp add: sample_kernel_def)
  show "mutex_abs 0 sample_kernel = (Some 0, 1, [3])" unfolding mutex_abs_def l by (simp add: sample_kernel_def)
  show "in_thread_context sample_kernel" "current sample_kernel = Some 0"
    by (simp_all add: in_thread_context_def rt_thread_self_def rt_interrupt_get_nest_def sample_kernel_def)
qed

section \<open>Properties\<close>

text \<open>
  C6.  \<open>rt_mutex_take\<close> implements the abstract lock on every branch: the owner nests up
  to 255 times and then gets \<open>-RT_EFULL\<close>, a free mutex is taken at once, and a mutex of
  another thread makes the caller wait in line or answers \<open>-RT_ETIMEOUT\<close>; in no case do
  two threads own it.
\<close>

theorem rt_mutex_take_correct:
  assumes "sinv k" "is_mutex m k" "caller t k" "mutex_ok m k"
    and "0 < sint timeout \<longrightarrow> timeout < RT_TICK_MAX_HALF"
  shows "\<exists>oc k'. rt_mutex_take m timeout k = Some (oc, k') \<and> sinv k' \<and> mutex_ok m k' \<and>
     (oc, mutex_abs m k') = mutex_P (wait_pos (obj_flag (objs k (Obj_Mutex m))) t (Suspended_on (Obj_Mutex m)) k) t
                              (timeout \<noteq> 0) (mutex_abs m k) \<and>
     (oc = Returns RT_EOK None \<longrightarrow> owner (mutexes k' m) = Some t)"
proof -
  from mutex_take_refines [OF assms] obtain oc k' where *:
    "rt_mutex_take m timeout k = Some (oc, k')" "sinv k'" "mutex_ok m k'"
    "(oc, mutex_abs m k') = mutex_P (wait_pos (obj_flag (objs k (Obj_Mutex m))) t (Suspended_on (Obj_Mutex m)) k) t
                              (timeout \<noteq> 0) (mutex_abs m k)" by blast
  moreover have "owner (mutexes k' m) = Some t" if "oc = Returns RT_EOK None"
    using *(4) that by (auto simp: mutex_P_def mutex_abs_def split: if_splits)
  ultimately show ?thesis by blast
qed

theorem rt_mutex_take_correct_witness:
  "\<exists>oc k'. rt_mutex_take 0 0 sample_kernel = Some (oc, k') \<and> oc = Returns RT_EOK None \<and>
     mutex_abs 0 k' = (Some 0, 2, [3])"
  using rt_mutex_take_correct [OF sample_sinv sample_mutex0(1) sample_caller sample_mutex0(2), of 0]
  unfolding sample_mutex0(3) by (auto simp: mutex_P_def)

text \<open>
  C7.  \<open>rt_mutex_release\<close> implements the abstract unlock on every branch: only the owner
  can release, a nested take is undone by one release, and the last release makes the first
  waiter the owner or frees the mutex.
\<close>

theorem rt_mutex_release_correct:
  assumes "sinv k" "is_mutex m k" "current k = Some t" "in_thread_context k" "mutex_ok m k"
  shows "\<exists>e k'. rt_mutex_release m k = Some (e, k') \<and> sinv k' \<and> mutex_ok m k' \<and>
     (e, mutex_abs m k') = mutex_V t (mutex_abs m k) \<and>
     (e \<noteq> RT_EOK \<longrightarrow> mutex_abs m k' = mutex_abs m k)"
proof -
  from mutex_release_refines [OF assms] obtain e k' where *:
    "rt_mutex_release m k = Some (e, k')" "sinv k'" "mutex_ok m k'"
    "(e, mutex_abs m k') = mutex_V t (mutex_abs m k)" by blast
  moreover have "e \<noteq> RT_EOK \<longrightarrow> mutex_abs m k' = mutex_abs m k"
    using *(4) by (auto simp: mutex_V_def split: if_splits list.splits prod.splits)
  ultimately show ?thesis by blast
qed

theorem rt_mutex_release_correct_witness:
  "\<exists>k'. rt_mutex_release 0 sample_kernel = Some (RT_EOK, k') \<and> mutex_abs 0 k' = (Some 3, 1, [])"
  using rt_mutex_release_correct [OF sample_sinv sample_mutex0(1,6,5,2)]
  unfolding sample_mutex0(3) by (auto simp: mutex_V_def)

text \<open>
  C8.  Priority inheritance: a thread that starts to wait for a mutex raises its owner to
  its own priority if that is more urgent, and changes no other priority.
\<close>

theorem mutex_inheritance:
  assumes "sinv k" "is_mutex m k" "caller t k" "mutex_ok m k"
    and "owner (mutexes k m) = Some ow" "ow \<noteq> t" "timeout \<noteq> 0"
    and "0 < sint timeout \<longrightarrow> timeout < RT_TICK_MAX_HALF"
  shows "\<exists>k'. rt_mutex_take m timeout k = Some (Waits, k') \<and>
     current_priority (threads k' ow) = min (current_priority (threads k t)) (current_priority (threads k ow)) \<and>
     (\<forall>u. u \<noteq> ow \<longrightarrow> current_priority (threads k' u) = current_priority (threads k u))"
  using mutex_take_wait [OF assms(1-7)] assms(8) by blast

text \<open>The mutex of the sample state in the hands of the ready thread 2.\<close>

definition sample_mutex_kernel :: kernel where
  "sample_mutex_kernel = sample_kernel\<lparr>mutexes :=
     (\<lambda>n. \<lparr>mutex_value = 0, original_priority = 10, hold = 1, owner = Some 2\<rparr>)\<rparr>"

theorem mutex_inheritance_witness:
  "\<exists>k'. rt_mutex_take 0 (-1) sample_mutex_kernel = Some (Waits, k') \<and>
     current_priority (threads k' 2) = 5 \<and> current_priority (threads k' 0) = 5"
proof -
  let ?k = sample_mutex_kernel
  have s: "sinv ?k" using sample_sinv sinv_cong [of ?k sample_kernel] by (simp add: sample_mutex_kernel_def)
  have i: "is_mutex 0 ?k" "caller 0 ?k"
    using sample_mutex0(1) [of 0] sample_caller
    by (simp_all add: sample_mutex_kernel_def is_mutex_def caller_def rt_object_get_type_def
        scheduler_available_def in_thread_context_def rt_critical_level_def rt_thread_self_def
        rt_interrupt_get_nest_def)
  have "started ?k 2"
    by (simp add: started_def runnable_def sample_mutex_kernel_def sample_kernel_def sample_thread_def sample_stat_def)
  then have ok: "mutex_ok 0 ?k"
    using sample_mutex0(4) by (simp add: mutex_ok_def sample_mutex_kernel_def)
  have o: "owner (mutexes ?k 0) = Some 2" by (simp add: sample_mutex_kernel_def)
  have p: "current_priority (threads ?k 0) = 5" "current_priority (threads ?k 2) = 10"
    by (simp_all add: sample_mutex_kernel_def sample_kernel_def sample_thread_def sample_prio_def)
  from mutex_inheritance [OF s i ok o, of "-1"] show ?thesis unfolding p by (auto simp: p min_def)
qed

text \<open>
  C9.  The last release of a mutex gives the owner its original priority back, and the
  thread that inherits the mutex can run, owns it with one take, and its
  \<open>rt_mutex_take\<close> returns \<open>RT_EOK\<close>.
\<close>

theorem mutex_handover:
  assumes "sinv k" "is_mutex m k" "current k = Some t" "in_thread_context k" "mutex_ok m k"
    and "owner (mutexes k m) = Some t" "hold (mutexes k m) = 1"
    and "lists k (Suspended_on (Obj_Mutex m)) = w # ws" "thread_error (threads k w) = RT_EOK"
  shows "\<exists>k'. rt_mutex_release m k = Some (RT_EOK, k') \<and> sinv k' \<and> mutex_abs m k' = (Some w, 1, ws) \<and>
     runnable k' w \<and> fst (rt_mutex_take_finish w k') = Returns RT_EOK None \<and>
     current_priority (threads k' t) = original_priority (mutexes k m)"
proof -
  obtain k' where *: "rt_mutex_release m k = Some (RT_EOK, k')" "sinv k'"
     "(RT_EOK, mutex_abs m k') = mutex_V t (mutex_abs m k)" "same_error k k'"
     "current_priority (threads k' t) = original_priority (mutexes k m)" "runnable k' w"
    using mutex_release_last [OF assms(1-7)] assms(8) by blast
  have "thread_error (threads k' w) = RT_EOK" using *(4) assms(9) by (simp add: same_error_def)
  then show ?thesis using * assms(6-8) by (auto simp: mutex_V_def mutex_abs_def rt_mutex_take_finish_def)
qed

theorem mutex_handover_witness:
  "\<exists>k'. rt_mutex_release 0 sample_kernel = Some (RT_EOK, k') \<and> mutex_abs 0 k' = (Some 3, 1, []) \<and>
     fst (rt_mutex_take_finish 3 k') = Returns RT_EOK None \<and> current_priority (threads k' 0) = 10"
proof -
  have f: "owner (mutexes sample_kernel 0) = Some 0" "hold (mutexes sample_kernel 0) = 1"
    "thread_error (threads sample_kernel 3) = RT_EOK" "original_priority (mutexes sample_kernel 0) = 10"
    by (simp_all add: sample_kernel_def sample_thread_def)
  from mutex_handover [OF sample_sinv sample_mutex0(1,6,5,2) f(1,2) sample_mutex0(4) f(3)]
  show ?thesis unfolding f(4) by auto
qed

end
