(* ===== verification/Event.thy ===== *)
theory Event
  imports Sample
begin

text \<open>
  The event sets of \<^verbatim>\<open>rt-thread/src/ipc.c\<close>: 32 flags, waited for with \<open>AND\<close> or
  \<open>OR\<close> and cleared on receipt if asked.
\<close>

section \<open>Operations\<close>

abbreviation upd_event :: "nat \<Rightarrow> (rt_event \<Rightarrow> rt_event) \<Rightarrow> kernel \<Rightarrow> kernel" where
  "upd_event e f k \<equiv> k\<lparr>events := (events k)(e := f (events k e))\<rparr>"

abbreviation (input) RT_EVENT_FLAG_AND :: u8 where "RT_EVENT_FLAG_AND \<equiv> 1"
abbreviation (input) RT_EVENT_FLAG_OR :: u8 where "RT_EVENT_FLAG_OR \<equiv> 2"
abbreviation (input) RT_EVENT_FLAG_CLEAR :: u8 where "RT_EVENT_FLAG_CLEAR \<equiv> 4"

definition rt_event_init :: "nat \<Rightarrow> string \<Rightarrow> u8 \<Rightarrow> kernel \<Rightarrow> (rt_err \<times> kernel) option" where
  "rt_event_init e name flag k =
     do {
       rt_assert (flag = RT_IPC_FLAG_FIFO \<or> flag = RT_IPC_FLAG_PRIO);
       k1 \<leftarrow> rt_object_init (Obj_Event e) Class_Event name k;
       let k2 = upd_obj (Obj_Event e) (\<lambda>ob. ob\<lparr>obj_flag := flag\<rparr>) k1;
       k3 \<leftarrow> ipc_object_init (Obj_Event e) k2;
       Some (RT_EOK, upd_event e (\<lambda>x. x\<lparr>event_bits := 0\<rparr>) k3)
     }"

definition rt_event_detach :: "nat \<Rightarrow> kernel \<Rightarrow> (rt_err \<times> kernel) option" where
  "rt_event_detach e k =
     do {
       rt_assert (rt_object_get_type (Obj_Event e) k = class_code Class_Event);
       rt_assert (rt_object_is_systemobject (Obj_Event e) k);
       k1 \<leftarrow> ipc_list_resume_all (Suspended_on (Obj_Event e)) k;
       Some (RT_EOK, rt_object_detach (Obj_Event e) k1)
     }"

definition rt_event_create :: "nat option \<Rightarrow> string \<Rightarrow> u8 \<Rightarrow> kernel \<Rightarrow> (nat option \<times> kernel) option" where
  "rt_event_create mem name flag k =
     do {
       rt_assert (flag = RT_IPC_FLAG_FIFO \<or> flag = RT_IPC_FLAG_PRIO);
       rt_assert (rt_interrupt_get_nest k = 0);
       (ob, k1) \<leftarrow> rt_object_allocate (map_option Obj_Event mem) Class_Event name k;
       (case mem of
          None \<Rightarrow> Some (None, k1)
        | Some e \<Rightarrow>
            do {
              let k2 = upd_obj (Obj_Event e) (\<lambda>ob. ob\<lparr>obj_flag := flag\<rparr>) k1;
              k3 \<leftarrow> ipc_object_init (Obj_Event e) k2;
              Some (Some e, upd_event e (\<lambda>x. x\<lparr>event_bits := 0\<rparr>) k3)
            })
     }"

definition rt_event_delete :: "nat \<Rightarrow> kernel \<Rightarrow> (rt_err \<times> kernel) option" where
  "rt_event_delete e k =
     do {
       rt_assert (rt_object_get_type (Obj_Event e) k = class_code Class_Event);
       rt_assert (\<not> rt_object_is_systemobject (Obj_Event e) k);
       rt_assert (rt_interrupt_get_nest k = 0);
       k1 \<leftarrow> ipc_list_resume_all (Suspended_on (Obj_Event e)) k;
       k2 \<leftarrow> rt_object_delete (Obj_Event e) k1;
       Some (RT_EOK, k2)
     }"

text \<open>
  The search through the waiters in \<open>rt_event_send\<close>.  The successor of a node is read
  before its thread is resumed, so the loop visits the threads that were waiting at its
  start.  The result is the error code, whether to reschedule, and the state.
\<close>

fun event_send_loop :: "nat \<Rightarrow> tid list \<Rightarrow> bool \<Rightarrow> kernel \<Rightarrow> (rt_err \<times> bool \<times> kernel) option" where
  "event_send_loop e [] need k = Some (RT_EOK, need, k)"
| "event_send_loop e (t # ts) need k =
     (let info = event_info (threads k t);
          want = event_set (threads k t);
          have = event_bits (events k e)
      in if info AND RT_EVENT_FLAG_AND \<noteq> 0 \<or> info AND RT_EVENT_FLAG_OR \<noteq> 0 then
           let ok = (if info AND RT_EVENT_FLAG_AND \<noteq> 0 then want AND have = want
                     else want AND have \<noteq> 0);
               k1 = (if ok \<and> info AND RT_EVENT_FLAG_AND = 0
                     then upd_thread t (\<lambda>th. th\<lparr>event_set := want AND have\<rparr>) k else k)
           in if ok then
                do {
                  let k2 = (if info AND RT_EVENT_FLAG_CLEAR \<noteq> 0
                            then upd_event e (\<lambda>x. x\<lparr>event_bits :=
                                   event_bits x AND NOT (event_set (threads k1 t))\<rparr>) k1
                            else k1);
                  (_, k3) \<leftarrow> rt_thread_resume t k2;
                  event_send_loop e ts True k3
                }
              else event_send_loop e ts need k1
         else Some (- RT_EINVAL, need, k))"

definition rt_event_send :: "nat \<Rightarrow> u32 \<Rightarrow> kernel \<Rightarrow> (rt_err \<times> kernel) option" where
  "rt_event_send e bits k =
     do {
       rt_assert (rt_object_get_type (Obj_Event e) k = class_code Class_Event);
       (if bits = 0 then Some (- RT_ERROR, k)
        else
          do {
            let k1 = upd_event e (\<lambda>x. x\<lparr>event_bits := event_bits x OR bits\<rparr>) k;
            (err, need, k2) \<leftarrow> event_send_loop e (lists k1 (Suspended_on (Obj_Event e))) False k1;
            (if err \<noteq> RT_EOK then Some (err, k2)
             else do { k3 \<leftarrow> (if need then rt_schedule k2 else Some k2); Some (RT_EOK, k3) })
          })
     }"

definition event_satisfied :: "u8 \<Rightarrow> u32 \<Rightarrow> u32 \<Rightarrow> bool option" where
  "event_satisfied opt want have =
     (if opt AND RT_EVENT_FLAG_AND \<noteq> 0 then Some (have AND want = want)
      else if opt AND RT_EVENT_FLAG_OR \<noteq> 0 then Some (have AND want \<noteq> 0)
      else None)"

definition rt_event_recv ::
    "nat \<Rightarrow> u32 \<Rightarrow> u8 \<Rightarrow> s32 \<Rightarrow> kernel \<Rightarrow> (u32 outcome \<times> kernel) option" where
  "rt_event_recv e want opt timeout k =
     do {
       rt_assert (rt_object_get_type (Obj_Event e) k = class_code Class_Event);
       rt_assert (scheduler_available k);
       (if want = 0 then Some (Returns (- RT_ERROR) None, k)
        else
          do {
            t \<leftarrow> rt_thread_self k;
            let k1 = upd_thread t (\<lambda>th. th\<lparr>thread_error := RT_EOK\<rparr>) k;
            let have = event_bits (events k1 e);
            ok \<leftarrow> event_satisfied opt want have;
            (if ok then
               let k2 = upd_thread t (\<lambda>th. th\<lparr>event_set := have AND want, event_info := opt\<rparr>) k1;
                   k3 = (if opt AND RT_EVENT_FLAG_CLEAR \<noteq> 0
                         then upd_event e (\<lambda>x. x\<lparr>event_bits := event_bits x AND NOT want\<rparr>) k2
                         else k2)
               in Some (Returns (thread_error (threads k3 t)) (Some (have AND want)), k3)
             else if timeout = 0 then
               Some (Returns (- RT_ETIMEOUT) None,
                     upd_thread t (\<lambda>th. th\<lparr>thread_error := - RT_ETIMEOUT\<rparr>) k1)
             else
               do {
                 let k2 = upd_thread t (\<lambda>th. th\<lparr>event_set := want, event_info := opt\<rparr>) k1;
                 k3 \<leftarrow> ipc_wait (Suspended_on (Obj_Event e)) (obj_flag (objs k2 (Obj_Event e))) t
                         timeout (In_event_recv e) k2;
                 Some (Waits, k3)
               })
          })
     }"

definition rt_event_recv_finish :: "tid \<Rightarrow> kernel \<Rightarrow> u32 outcome \<times> kernel" where
  "rt_event_recv_finish t k =
     (if thread_error (threads k t) \<noteq> RT_EOK
      then (Returns (thread_error (threads k t)) None, finish_call t k)
      else (Returns (thread_error (threads k t)) (Some (event_set (threads k t))), finish_call t k))"

definition rt_event_control :: "nat \<Rightarrow> ipc_cmd \<Rightarrow> kernel \<Rightarrow> (rt_err \<times> kernel) option" where
  "rt_event_control e cmd k =
     do {
       rt_assert (rt_object_get_type (Obj_Event e) k = class_code Class_Event);
       (case cmd of
          CMD_RESET _ \<Rightarrow>
            do {
              k1 \<leftarrow> ipc_list_resume_all (Suspended_on (Obj_Event e)) k;
              k2 \<leftarrow> rt_schedule (upd_event e (\<lambda>x. x\<lparr>event_bits := 0\<rparr>) k1);
              Some (RT_EOK, k2)
            }
        | CMD_OTHER \<Rightarrow> Some (- RT_ERROR, k))
     }"

section \<open>Correctness\<close>

definition is_event :: "nat \<Rightarrow> kernel \<Rightarrow> bool" where
  "is_event e k \<longleftrightarrow> rt_object_get_type (Obj_Event e) k = class_code Class_Event \<and>
     (obj_flag (objs k (Obj_Event e)) = RT_IPC_FLAG_FIFO \<or> obj_flag (objs k (Obj_Event e)) = RT_IPC_FLAG_PRIO)"

text \<open>
  What a waiter with option \<open>opt\<close> and interest \<open>want\<close> gets from the flags \<open>b\<close>:
  nothing, or a set of flags; and the flags that are left behind.
\<close>

definition ev_grant :: "u8 \<Rightarrow> u32 \<Rightarrow> u32 \<Rightarrow> u32 option" where
  "ev_grant opt want b =
     (if opt AND RT_EVENT_FLAG_AND \<noteq> 0 then (if want AND b = want then Some want else None)
      else if want AND b \<noteq> 0 then Some (want AND b) else None)"

definition ev_left :: "u8 \<Rightarrow> u32 \<Rightarrow> u32 \<Rightarrow> u32" where
  "ev_left opt got b = (if opt AND RT_EVENT_FLAG_CLEAR \<noteq> 0 then b AND NOT got else b)"

text \<open>One pass over the waiters: who is woken with what, who stays, which flags are left.\<close>

fun ev_scan :: "(tid \<Rightarrow> u8 \<times> u32) \<Rightarrow> u32 \<Rightarrow> tid list \<Rightarrow> (tid \<times> u32) list \<times> tid list \<times> u32" where
  "ev_scan f b [] = ([], [], b)"
| "ev_scan f b (t # ts) =
     (case ev_grant (fst (f t)) (snd (f t)) b of
        None \<Rightarrow> (let (wk, rest, b') = ev_scan f b ts in (wk, t # rest, b'))
      | Some got \<Rightarrow> (let (wk, rest, b') = ev_scan f (ev_left (fst (f t)) got b) ts in ((t, got) # wk, rest, b')))"

definition ev_interest :: "kernel \<Rightarrow> tid \<Rightarrow> u8 \<times> u32" where
  "ev_interest k t = (event_info (threads k t), event_set (threads k t))"

definition ev_option_ok :: "u8 \<Rightarrow> bool" where
  "ev_option_ok opt \<longleftrightarrow> opt AND RT_EVENT_FLAG_AND \<noteq> 0 \<or> opt AND RT_EVENT_FLAG_OR \<noteq> 0"

lemma ev_scan_cong: "(\<And>t. t \<in> set ts \<Longrightarrow> f t = g t) \<Longrightarrow> ev_scan f b ts = ev_scan g b ts"
  by (induction ts arbitrary: b) (auto split: option.splits)

lemma ev_interest_simps [simp]:
  "fst (ev_interest k t) = event_info (threads k t)" "snd (ev_interest k t) = event_set (threads k t)"
  by (simp_all add: ev_interest_def)

lemma ev_scan_woken_subset: "ev_scan f b ts = (wk, rest, b') \<Longrightarrow> (t, got) \<in> set wk \<Longrightarrow> t \<in> set ts"
  by (induction ts arbitrary: b wk rest)
    (simp, fastforce split: option.splits prod.splits simp: Let_def)

text \<open>The step of the loop for a waiter that gets its flags.\<close>

lemma event_wake_one:
  fixes got b :: u32
  assumes s: "sinv k" and t: "t \<in> set (lists k (Suspended_on (Obj_Event e)))"
  defines "k1 \<equiv> upd_event e (\<lambda>x. x\<lparr>event_bits := b\<rparr>) (upd_thread t (\<lambda>th. th\<lparr>event_set := got\<rparr>) k)"
  shows "\<exists>k'. rt_thread_resume t k1 = Some (RT_EOK, k') \<and> sinv k' \<and> resume_rel t k1 k'"
proof -
  have "sinv k1" unfolding k1_def
    using s sinv_upd_neutral [where k = k and t = t and f = "\<lambda>th. th\<lparr>event_set := got\<rparr>"]
      sinv_cong [of k1 "upd_thread t (\<lambda>th. th\<lparr>event_set := got\<rparr>) k"] by (simp add: k1_def)
  moreover have "tstat k1 t = RT_THREAD_SUSPEND"
    using waiter_suspended(1) [OF s _ t] by (simp add: k1_def)
  ultimately show ?thesis by (rule resume_ok)
qed

lemma event_loop_step:
  assumes "ev_option_ok (event_info (threads k t))"
  shows "event_send_loop e (t # ts) need k =
     (case ev_grant (event_info (threads k t)) (event_set (threads k t)) (event_bits (events k e)) of
        None \<Rightarrow> event_send_loop e ts need k
      | Some got \<Rightarrow>
          Option.bind (rt_thread_resume t (upd_event e (\<lambda>x. x\<lparr>event_bits :=
                ev_left (event_info (threads k t)) got (event_bits x)\<rparr>)
              (upd_thread t (\<lambda>th. th\<lparr>event_set := got\<rparr>) k)))
            (\<lambda>(_, k3). event_send_loop e ts True k3))"
proof -
  have triv: "upd_thread t (\<lambda>th. th\<lparr>event_set := event_set th\<rparr>) k = k" by simp
  have trivb: "upd_event e (\<lambda>x. x\<lparr>event_bits := event_bits x\<rparr>) k = k" by simp
  show ?thesis
    using assms triv trivb by (auto simp: ev_option_ok_def ev_grant_def ev_left_def Let_def)
qed

lemma event_loop_ok:
  assumes "sinv k" "lists k (Suspended_on (Obj_Event e)) = pre @ ts"
    and "\<And>t. t \<in> set ts \<Longrightarrow> ev_option_ok (event_info (threads k t))"
    and "ev_scan (ev_interest k) (event_bits (events k e)) ts = (wk, rest, b)"
  shows "\<exists>k'. event_send_loop e ts need k = Some (RT_EOK, need \<or> wk \<noteq> [], k') \<and> sinv k' \<and>
     current k' = current k \<and> saved k' = saved k \<and> event_bits (events k' e) = b \<and>
     lists k' (Suspended_on (Obj_Event e)) = pre @ rest \<and>
     (\<forall>t got. (t, got) \<in> set wk \<longrightarrow> runnable k' t \<and> event_set (threads k' t) = got) \<and>
     (\<forall>t. t \<notin> fst ` set wk \<longrightarrow> threads k' t = threads k t) \<and> same_error k k'"
  using assms
proof (induction ts arbitrary: k need wk rest b pre)
  case Nil
  then show ?case by simp
next
  case (Cons t ts)
  let ?h = "Suspended_on (Obj_Event e)"
  let ?b = "event_bits (events k e)"
  have ok: "ev_option_ok (event_info (threads k t))" using Cons.prems(3) by simp
  have dist: "distinct (pre @ t # ts)" using Cons.prems(1,2) by (metis kinv_linked linked_ok_def sinv_def)
  show ?case
  proof (cases "ev_grant (event_info (threads k t)) (event_set (threads k t)) ?b")
    case None
    obtain rest' where sc: "ev_scan (ev_interest k) ?b ts = (wk, rest', b)" "rest = t # rest'"
      using Cons.prems(4) None by (auto split: prod.splits)
    have "lists k ?h = (pre @ [t]) @ ts" using Cons.prems(2) by simp
    from Cons.IH [OF Cons.prems(1) this _ sc(1), of need] Cons.prems(3)
    show ?thesis unfolding event_loop_step [OF ok] None sc(2) by simp
  next
    case (Some got)
    let ?k1 = "upd_event e (\<lambda>x. x\<lparr>event_bits := ev_left (event_info (threads k t)) got (event_bits x)\<rparr>)
       (upd_thread t (\<lambda>th. th\<lparr>event_set := got\<rparr>) k)"
    obtain k1 where k1: "rt_thread_resume t ?k1 = Some (RT_EOK, k1)" "sinv k1" "resume_rel t ?k1 k1"
      using event_wake_one [OF Cons.prems(1), of t e got] Cons.prems(2) by auto
    note fr = resume_rel_frame [OF k1(3)]
    have same: "threads k1 u = threads k u" if "u \<noteq> t" for u using fr(14) [OF that] that by simp
    have b1: "event_bits (events k1 e) = ev_left (event_info (threads k t)) got ?b" using fr(10) by simp
    have l1: "lists k1 ?h = pre @ ts" using fr(19) [of "Obj_Event e"] Cons.prems(2) dist by (simp add: remove1_append)
    obtain wk' where sc: "ev_scan (ev_interest k) (event_bits (events k1 e)) ts = (wk', rest, b)" "wk = (t, got) # wk'"
      using Cons.prems(4) Some b1 by (auto split: prod.splits)
    have tn: "t \<notin> set ts" using dist by simp
    have "ev_scan (ev_interest k1) (event_bits (events k1 e)) ts = (wk', rest, b)"
      unfolding sc(1) [symmetric] by (rule ev_scan_cong) (use same tn in \<open>metis ev_interest_def\<close>)
    moreover have "ev_option_ok (event_info (threads k1 u))" if "u \<in> set ts" for u
    proof -
      have "u \<noteq> t" using that tn by blast
      then show ?thesis using same [of u] Cons.prems(3) [of u] that by simp
    qed
    ultimately obtain k' where k': "event_send_loop e ts True k1 = Some (RT_EOK, True, k')" "sinv k'"
       "current k' = current k1" "saved k' = saved k1" "event_bits (events k' e) = b" "lists k' ?h = pre @ rest"
       "\<forall>u g. (u, g) \<in> set wk' \<longrightarrow> runnable k' u \<and> event_set (threads k' u) = g"
       "\<forall>u. u \<notin> fst ` set wk' \<longrightarrow> threads k' u = threads k1 u" "same_error k1 k'"
      using Cons.IH [OF k1(2) l1, of wk' rest b True] by auto
    have tw: "t \<notin> fst ` set wk'"
      using ev_scan_woken_subset [OF sc(1)] tn by force
    then have "threads k' t = threads k1 t" using k'(8) by simp
    then have "runnable k' t" "event_set (threads k' t) = got"
      using fr(21) fr(17) [of t] by (simp_all add: runnable_def)
    moreover have "same_error k k1" using fr(15) by (simp add: same_error_def)
    then have "same_error k k'" using k'(9) same_error_trans by blast
    ultimately show ?thesis
      unfolding event_loop_step [OF ok] Some using k1(1) k' sc(2) same fr(5,7) by auto
  qed
qed

lemma event_recv_refines:
  assumes s: "sinv k" and i: "is_event e k" and c: "caller t k" and w: "want \<noteq> 0" and op: "ev_option_ok opt"
    and to: "0 < sint timeout \<longrightarrow> timeout < RT_TICK_MAX_HALF"
  defines "h \<equiv> Suspended_on (Obj_Event e)"
  shows "\<exists>oc k'. rt_event_recv e want opt timeout k = Some (oc, k') \<and> sinv k' \<and>
     (\<forall>u. u \<noteq> t \<longrightarrow> ev_interest k' u = ev_interest k u) \<and>
     (case ev_grant opt want (event_bits (events k e)) of
        Some got \<Rightarrow> oc = Returns RT_EOK (Some got) \<and> lists k' h = lists k h \<and>
          event_bits (events k' e) = ev_left opt got (event_bits (events k e))
      | None \<Rightarrow> event_bits (events k' e) = event_bits (events k e) \<and>
          (if timeout = 0 then oc = Returns (- RT_ETIMEOUT) None \<and> lists k' h = lists k h
           else oc = Waits \<and> tstat k' t = RT_THREAD_SUSPEND \<and> ev_interest k' t = (opt, want) \<and>
                thread_error (threads k' t) = RT_EOK \<and> saved k' t = In_event_recv e \<and>
                lists k' h = insert_at (wait_pos (obj_flag (objs k (Obj_Event e))) t h k) t (lists k h)))"
proof -
  let ?b = "event_bits (events k e)"
  let ?k1 = "upd_thread t (\<lambda>th. th\<lparr>thread_error := RT_EOK\<rparr>) k"
  have e: "rt_object_get_type (Obj_Event e) k = class_code Class_Event" "scheduler_available k"
    "rt_thread_self k = Some t" "current k = Some t" "tstat k t = RT_THREAD_RUNNING"
    using i c by (simp_all add: is_event_def caller_def rt_thread_self_def)
  have neut: "sinv (upd_thread t (\<lambda>th. th\<lparr>thread_error := RT_EOK, event_set := x, event_info := opt\<rparr>) k)" for x
    using s sinv_upd_neutral [where k = k and t = t and
        f = "\<lambda>th. th\<lparr>thread_error := RT_EOK, event_set := x, event_info := opt\<rparr>"] by simp
  have sat: "event_satisfied opt want ?b = Some (ev_grant opt want ?b \<noteq> None)"
    using op by (auto simp: event_satisfied_def ev_grant_def ev_option_ok_def and.commute)
  show ?thesis
  proof (cases "ev_grant opt want ?b")
    case (Some got)
    have got: "got = ?b AND want" using Some by (auto simp: ev_grant_def and.commute split: if_splits)
    have cl: "?b AND NOT want = ?b AND NOT got" unfolding got by (simp add: bit.conj_disj_distrib)
    let ?k2 = "upd_thread t (\<lambda>th. th\<lparr>thread_error := RT_EOK, event_set := got, event_info := opt\<rparr>) k"
    let ?k3 = "upd_event e (\<lambda>x. x\<lparr>event_bits := ev_left opt got ?b\<rparr>) ?k2"
    have "sinv ?k3" using neut [of got] sinv_cong [of ?k3 ?k2] by simp
    moreover have "rt_event_recv e want opt timeout k = Some (Returns RT_EOK (Some got), ?k3)"
      using e w Some sat by (auto simp: rt_event_recv_def Let_def got [symmetric] cl ev_left_def)
    ultimately show ?thesis using Some by (simp add: h_def ev_interest_def)
  next
    case None
    show ?thesis
    proof (cases "timeout = 0")
      case True
      then show ?thesis using e w None sat s by (simp add: rt_event_recv_def Let_def h_def ev_interest_def)
    next
      case False
      let ?k2 = "upd_thread t (\<lambda>th. th\<lparr>thread_error := RT_EOK, event_set := want, event_info := opt\<rparr>) k"
      let ?fl = "obj_flag (objs k (Obj_Event e))"
      have hh: "wait_head h" by (simp add: h_def)
      have fl: "?fl = RT_IPC_FLAG_FIFO \<or> ?fl = RT_IPC_FLAG_PRIO" using i by (simp add: is_event_def)
      have c2: "current ?k2 = Some t" "tstat ?k2 t = RT_THREAD_RUNNING" using e by simp_all
      obtain k' where k': "ipc_wait h ?fl t timeout (In_event_recv e) ?k2 = Some k'" "sinv k'"
          "waits_in h t (wait_pos ?fl t h ?k2) (In_event_recv e) timeout ?k2 k'"
        using ipc_wait_ok [OF neut c2 hh fl] to by blast
      have wp: "wait_pos ?fl t h ?k2 = wait_pos ?fl t h k" by (rule wait_pos_cong) auto
      have "rt_event_recv e want opt timeout k = Some (Waits, k')"
        using e w None sat False k'(1) by (simp add: rt_event_recv_def Let_def h_def)
      then show ?thesis using None False k'(2) k'(3) [unfolded waits_in_def ipc_frame_def same_error_def wp]
        by (simp add: ev_interest_def)
    qed
  qed
qed

lemma event_send_refines:
  assumes s: "sinv k" and i: "is_event e k" and c: "current k \<noteq> None" and b0: "bits \<noteq> 0"
    and op: "\<And>t. t \<in> set (lists k (Suspended_on (Obj_Event e))) \<Longrightarrow> ev_option_ok (event_info (threads k t))"
    and sc: "ev_scan (ev_interest k) (event_bits (events k e) OR bits) (lists k (Suspended_on (Obj_Event e))) = (wk, rest, b)"
  shows "\<exists>k'. rt_event_send e bits k = Some (RT_EOK, k') \<and> sinv k' \<and> event_bits (events k' e) = b \<and>
     lists k' (Suspended_on (Obj_Event e)) = rest \<and> saved k' = saved k \<and> same_error k k' \<and>
     (\<forall>t got. (t, got) \<in> set wk \<longrightarrow> runnable k' t \<and> event_set (threads k' t) = got)"
proof -
  let ?h = "Suspended_on (Obj_Event e)"
  let ?k1 = "upd_event e (\<lambda>x. x\<lparr>event_bits := event_bits x OR bits\<rparr>) k"
  have s1: "sinv ?k1" using s sinv_cong [of ?k1 k] by simp
  have l1: "lists ?k1 ?h = [] @ lists k ?h" by simp
  have "ev_interest ?k1 = ev_interest k" by (simp add: ev_interest_def fun_eq_iff)
  then have sc1: "ev_scan (ev_interest ?k1) (event_bits (events ?k1 e)) (lists k ?h) = (wk, rest, b)"
    using sc by simp
  have op1: "\<And>t. t \<in> set (lists k ?h) \<Longrightarrow> ev_option_ok (event_info (threads ?k1 t))" using op by simp
  obtain k2 where k2: "event_send_loop e (lists k ?h) False ?k1 = Some (RT_EOK, wk \<noteq> [], k2)" "sinv k2"
     "current k2 = current k" "saved k2 = saved k" "event_bits (events k2 e) = b" "lists k2 ?h = rest"
     "\<forall>t got. (t, got) \<in> set wk \<longrightarrow> runnable k2 t \<and> event_set (threads k2 t) = got" "same_error ?k1 k2"
    using event_loop_ok [OF s1 l1 op1 sc1, of False] by auto
  have r: "rt_event_send e bits k =
      map_option (\<lambda>k'. (RT_EOK, k')) (if wk \<noteq> [] then rt_schedule k2 else Some k2)"
    using i b0 k2(1) by (auto simp: rt_event_send_def is_event_def Let_def map_option_case split: option.splits)
  obtain k' where k': "(if wk \<noteq> [] then rt_schedule k2 else Some k2) = Some k'" "sinv k'" "sched_rel k2 k'"
    using rt_schedule_sinv [OF k2(2)] c k2(2,3) by (cases "wk = []") auto
  have "same_error k k2" using k2(8) by (simp add: same_error_def)
  then have "same_error k k'" using sched_rel_ipc_frame [OF k'(3)] same_error_trans by blast
  moreover have "runnable k' t \<and> event_set (threads k' t) = got" if "(t, got) \<in> set wk" for t got
    using k2(7) that k'(3) sched_rel_thread(4) [OF k'(3), of t] by (auto simp: sched_rel_def)
  ultimately show ?thesis
    using r k' k2 sched_rel_frame [OF k'(3)] sched_rel_lists [OF k'(3)] by auto
qed

text \<open>A waiter that is woken got all it asked for, or some of it, as it chose.\<close>

lemma ev_grant_sound:
  "ev_grant opt want b = Some got \<Longrightarrow> want \<noteq> 0 \<Longrightarrow> got \<noteq> 0 \<and> got AND want = got \<and>
     (opt AND RT_EVENT_FLAG_AND \<noteq> 0 \<longrightarrow> got = want)"
  by (auto simp: ev_grant_def and.assoc and.commute and.left_commute split: if_splits)

lemma ev_scan_sound:
  assumes "ev_scan f b ts = (wk, rest, b')" "(t, got) \<in> set wk" "\<And>u. u \<in> set ts \<Longrightarrow> snd (f u) \<noteq> 0"
  shows "got \<noteq> 0 \<and> got AND snd (f t) = got \<and> (fst (f t) AND RT_EVENT_FLAG_AND \<noteq> 0 \<longrightarrow> got = snd (f t))"
  using assms
proof (induction ts arbitrary: b wk rest)
  case (Cons u ts)
  show ?case
  proof (cases "ev_grant (fst (f u)) (snd (f u)) b")
    case None
    then obtain rest' where "ev_scan f b ts = (wk, rest', b')"
      using Cons.prems(1) by (auto split: prod.splits)
    then show ?thesis using Cons.IH Cons.prems(2,3) by (metis list.set_intros(2))
  next
    case (Some g)
    then obtain wk' where w: "ev_scan f (ev_left (fst (f u)) g b) ts = (wk', rest, b')" "wk = (u, g) # wk'"
      using Cons.prems(1) by (auto split: prod.splits)
    show ?thesis
    proof (cases "(t, got) = (u, g)")
      case True
      have "snd (f u) \<noteq> 0" using Cons.prems(3) by simp
      then show ?thesis using ev_grant_sound [OF Some] True by simp
    next
      case False
      then have "(t, got) \<in> set wk'" using Cons.prems(2) w(2) by auto
      then show ?thesis using Cons.IH [OF w(1)] Cons.prems(3) by simp
    qed
  qed
qed simp

lemma sample_event0:
  "is_event 0 sample_kernel" "lists sample_kernel (Suspended_on (Obj_Event 0)) = [4]"
  "ev_interest sample_kernel 4 = (5, 3)" "event_bits (events sample_kernel 0) = 0"
  "thread_error (threads sample_kernel 4) = RT_EOK"
  by (simp_all add: is_event_def sample_kernel_def sample_object_def rt_object_get_type_def upt_rec
      ev_interest_def sample_thread_def)

section \<open>Properties\<close>

text \<open>
  C17.  \<open>rt_event_send\<close> wakes exactly the waiters that the scan in list order grants,
  taking away what earlier waiters with the clear option consumed; each woken thread can run
  and its \<open>rt_event_recv\<close> returns \<open>RT_EOK\<close> with a non-empty part of the flags it
  asked for, all of them if it asked with \<open>AND\<close>.
\<close>

theorem rt_event_send_correct:
  assumes "sinv k" "is_event e k" "current k \<noteq> None" "bits \<noteq> 0"
    and "\<forall>t. t \<in> set (lists k (Suspended_on (Obj_Event e))) \<longrightarrow>
           ev_option_ok (event_info (threads k t)) \<and> event_set (threads k t) \<noteq> 0 \<and>
           thread_error (threads k t) = RT_EOK"
    and "ev_scan (ev_interest k) (event_bits (events k e) OR bits) (lists k (Suspended_on (Obj_Event e))) = (wk, rest, b)"
  shows "\<exists>k'. rt_event_send e bits k = Some (RT_EOK, k') \<and> sinv k' \<and> event_bits (events k' e) = b \<and>
     lists k' (Suspended_on (Obj_Event e)) = rest \<and>
     (\<forall>t got. (t, got) \<in> set wk \<longrightarrow>
        runnable k' t \<and> fst (rt_event_recv_finish t k') = Returns RT_EOK (Some got) \<and>
        got \<noteq> 0 \<and> got AND event_set (threads k t) = got \<and>
        (event_info (threads k t) AND RT_EVENT_FLAG_AND \<noteq> 0 \<longrightarrow> got = event_set (threads k t)))"
proof -
  have op: "\<And>t. t \<in> set (lists k (Suspended_on (Obj_Event e))) \<Longrightarrow> ev_option_ok (event_info (threads k t))"
    using assms(5) by blast
  from event_send_refines [OF assms(1-4) op assms(6)] obtain k' where *:
    "rt_event_send e bits k = Some (RT_EOK, k')" "sinv k'" "event_bits (events k' e) = b"
    "lists k' (Suspended_on (Obj_Event e)) = rest" "same_error k k'"
    "\<forall>t got. (t, got) \<in> set wk \<longrightarrow> runnable k' t \<and> event_set (threads k' t) = got" by blast
  have "fst (rt_event_recv_finish t k') = Returns RT_EOK (Some got)" if "(t, got) \<in> set wk" for t got
    using *(5,6) that assms(5) ev_scan_woken_subset [OF assms(6) that]
    by (auto simp: rt_event_recv_finish_def same_error_def)
  moreover have "snd (ev_interest k u) \<noteq> 0" if "u \<in> set (lists k (Suspended_on (Obj_Event e)))" for u
    using assms(5) that by simp
  ultimately show ?thesis using * ev_scan_sound [OF assms(6)] by auto
qed

theorem rt_event_send_correct_witness:
  "\<exists>k'. rt_event_send 0 7 sample_kernel = Some (RT_EOK, k') \<and> event_bits (events k' 0) = 4 \<and>
     runnable k' 4 \<and> fst (rt_event_recv_finish 4 k') = Returns RT_EOK (Some 3)"
proof -
  have "ev_scan (ev_interest sample_kernel) (event_bits (events sample_kernel 0) OR 7)
          (lists sample_kernel (Suspended_on (Obj_Event 0))) = ([(4, 3)], [], 4)"
    unfolding sample_event0 by (simp add: sample_event0(3) ev_grant_def ev_left_def del: ev_interest_simps)
  moreover have "current sample_kernel \<noteq> None" by (simp add: sample_kernel_def)
  moreover have "event_info (threads sample_kernel 4) = 5" "event_set (threads sample_kernel 4) = 3"
    using sample_event0(3) by (simp_all add: ev_interest_def)
  ultimately show ?thesis
    using rt_event_send_correct [OF sample_sinv sample_event0(1), of 7 "[(4, 3)]" "[]" 4]
    unfolding sample_event0 by (simp add: sample_event0(5) ev_option_ok_def) blast
qed

text \<open>
  \<open>rt_event_recv\<close> on every branch: flags that satisfy the request are returned at once
  and removed only with the clear option; otherwise a zero timeout answers
  \<open>-RT_ETIMEOUT\<close> and a wait records the request and joins the line, and in both cases no
  flag changes.
\<close>

theorem rt_event_recv_correct:
  assumes "sinv k" "is_event e k" "caller t k" "want \<noteq> 0" "ev_option_ok opt"
    and "0 < sint timeout \<longrightarrow> timeout < RT_TICK_MAX_HALF"
  shows "\<exists>oc k'. rt_event_recv e want opt timeout k = Some (oc, k') \<and> sinv k' \<and>
     (case ev_grant opt want (event_bits (events k e)) of
        Some got \<Rightarrow> oc = Returns RT_EOK (Some got) \<and> got \<noteq> 0 \<and>
          event_bits (events k' e) = ev_left opt got (event_bits (events k e))
      | None \<Rightarrow> event_bits (events k' e) = event_bits (events k e) \<and>
          (if timeout = 0 then oc = Returns (- RT_ETIMEOUT) None
           else oc = Waits \<and> tstat k' t = RT_THREAD_SUSPEND \<and> ev_interest k' t = (opt, want) \<and>
                t \<in> set (lists k' (Suspended_on (Obj_Event e)))))"
  using event_recv_refines [OF assms] ev_grant_sound [OF _ assms(4), of opt "event_bits (events k e)"]
  by (cases "ev_grant opt want (event_bits (events k e))") (auto, force+)

theorem rt_event_recv_correct_witness:
  "\<exists>oc k'. rt_event_recv 0 6 2 0 sample_kernel = Some (oc, k') \<and> oc = Returns (- RT_ETIMEOUT) None \<and>
     event_bits (events k' 0) = 0"
proof -
  have op: "ev_option_ok 2" by (simp add: ev_option_ok_def)
  from rt_event_recv_correct [OF sample_sinv sample_event0(1) sample_caller _ op, of 6 0] show ?thesis
    unfolding sample_event0(4) by (auto simp: ev_grant_def)
qed

end
