(* ===== verification/Mailbox.thy ===== *)
theory Mailbox
  imports Sample Bounded_Queue
begin

text \<open>
  The mailboxes of \<^verbatim>\<open>rt-thread/src/ipc.c\<close>: a ring of 32-bit mails with two lists of
  waiting threads, receivers and senders.  A waiting call is a loop around its wait; one
  pass, from the test of the ring on, is a definition of its own that the call and its
  resumption share.
\<close>

section \<open>Operations\<close>

abbreviation upd_mb :: "nat \<Rightarrow> (rt_mailbox \<Rightarrow> rt_mailbox) \<Rightarrow> kernel \<Rightarrow> kernel" where
  "upd_mb m f k \<equiv> k\<lparr>mailboxes := (mailboxes k)(m := f (mailboxes k m))\<rparr>"

definition rt_mb_init ::
    "nat \<Rightarrow> string \<Rightarrow> u32 list \<Rightarrow> u32 \<Rightarrow> u8 \<Rightarrow> kernel \<Rightarrow> (rt_err \<times> kernel) option" where
  "rt_mb_init m name msgpool sz flag k =
     do {
       rt_assert (flag = RT_IPC_FLAG_FIFO \<or> flag = RT_IPC_FLAG_PRIO);
       k1 \<leftarrow> rt_object_init (Obj_Mb m) Class_MailBox name k;
       let k2 = upd_obj (Obj_Mb m) (\<lambda>ob. ob\<lparr>obj_flag := flag\<rparr>) k1;
       k3 \<leftarrow> ipc_object_init (Obj_Mb m) k2;
       let k4 = upd_mb m (\<lambda>_. \<lparr>msg_pool = msgpool, mb_size = ucast sz, mb_entry = 0,
                                in_offset = 0, out_offset = 0\<rparr>) k3;
       k5 \<leftarrow> ipc_list_init (Senders_of (Obj_Mb m)) k4;
       Some (RT_EOK, k5)
     }"

definition mb_resume_all :: "nat \<Rightarrow> kernel \<Rightarrow> kernel option" where
  "mb_resume_all m k =
     do {
       k1 \<leftarrow> ipc_list_resume_all (Suspended_on (Obj_Mb m)) k;
       ipc_list_resume_all (Senders_of (Obj_Mb m)) k1
     }"

definition rt_mb_detach :: "nat \<Rightarrow> kernel \<Rightarrow> (rt_err \<times> kernel) option" where
  "rt_mb_detach m k =
     do {
       rt_assert (rt_object_get_type (Obj_Mb m) k = class_code Class_MailBox);
       rt_assert (rt_object_is_systemobject (Obj_Mb m) k);
       k1 \<leftarrow> mb_resume_all m k;
       Some (RT_EOK, rt_object_detach (Obj_Mb m) k1)
     }"

text \<open>\<open>pool\<close>: the array that \<open>RT_KERNEL_MALLOC\<close> returned for the mails, if any.\<close>

definition rt_mb_create ::
    "nat option \<Rightarrow> u32 list option \<Rightarrow> string \<Rightarrow> u32 \<Rightarrow> u8 \<Rightarrow> kernel \<Rightarrow> (nat option \<times> kernel) option" where
  "rt_mb_create mem pool name sz flag k =
     do {
       rt_assert (flag = RT_IPC_FLAG_FIFO \<or> flag = RT_IPC_FLAG_PRIO);
       rt_assert (rt_interrupt_get_nest k = 0);
       (ob, k1) \<leftarrow> rt_object_allocate (map_option Obj_Mb mem) Class_MailBox name k;
       (case mem of
          None \<Rightarrow> Some (None, k1)
        | Some m \<Rightarrow>
            do {
              let k2 = upd_obj (Obj_Mb m) (\<lambda>ob. ob\<lparr>obj_flag := flag\<rparr>) k1;
              k3 \<leftarrow> ipc_object_init (Obj_Mb m) k2;
              (case pool of
                 None \<Rightarrow> do { k4 \<leftarrow> rt_object_delete (Obj_Mb m) k3; Some (None, k4) }
               | Some msgpool \<Rightarrow>
                   do {
                     let k4 = upd_mb m (\<lambda>_. \<lparr>msg_pool = msgpool, mb_size = ucast sz, mb_entry = 0,
                                              in_offset = 0, out_offset = 0\<rparr>) k3;
                     k5 \<leftarrow> ipc_list_init (Senders_of (Obj_Mb m)) k4;
                     Some (Some m, k5)
                   })
            })
     }"

definition rt_mb_delete :: "nat \<Rightarrow> kernel \<Rightarrow> (rt_err \<times> kernel) option" where
  "rt_mb_delete m k =
     do {
       rt_assert (rt_object_get_type (Obj_Mb m) k = class_code Class_MailBox);
       rt_assert (\<not> rt_object_is_systemobject (Obj_Mb m) k);
       rt_assert (rt_interrupt_get_nest k = 0);
       k1 \<leftarrow> mb_resume_all m k;
       k2 \<leftarrow> rt_object_delete (Obj_Mb m) k1;
       Some (RT_EOK, k2)
     }"

text \<open>The update of the ring in \<open>rt_mb_send_wait\<close>: the flag is \<open>False\<close> on overflow.\<close>

definition mb_put :: "u32 \<Rightarrow> rt_mailbox \<Rightarrow> (bool \<times> rt_mailbox) option" where
  "mb_put val mb =
     do {
       pool \<leftarrow> store (msg_pool mb) (unat (in_offset mb)) val;
       let inp = in_offset mb + 1;
       let mb1 = mb\<lparr>msg_pool := pool, in_offset := (if inp \<ge> mb_size mb then 0 else inp)\<rparr>;
       (if mb_entry mb1 < 0xffff
        then Some (True, mb1\<lparr>mb_entry := mb_entry mb1 + 1\<rparr>)
        else Some (False, mb1))
     }"

definition mb_get :: "rt_mailbox \<Rightarrow> (u32 \<times> rt_mailbox) option" where
  "mb_get mb =
     do {
       val \<leftarrow> load (msg_pool mb) (unat (out_offset mb));
       let outp = out_offset mb + 1;
       let mb1 = mb\<lparr>out_offset := (if outp \<ge> mb_size mb then 0 else outp)\<rparr>;
       Some (val, if mb_entry mb1 > 0 then mb1\<lparr>mb_entry := mb_entry mb1 - 1\<rparr> else mb1)
     }"

definition mb_put_front :: "u32 \<Rightarrow> rt_mailbox \<Rightarrow> rt_mailbox option" where
  "mb_put_front val mb =
     do {
       let outp = (if out_offset mb > 0 then out_offset mb - 1 else mb_size mb - 1);
       pool \<leftarrow> store (msg_pool mb) (unat outp) val;
       Some (mb\<lparr>out_offset := outp, msg_pool := pool, mb_entry := mb_entry mb + 1\<rparr>)
     }"

text \<open>One pass of the loop of \<open>rt_mb_send_wait\<close> and what follows it.\<close>

definition mb_send_pass :: "nat \<Rightarrow> u32 \<Rightarrow> s32 \<Rightarrow> kernel \<Rightarrow> (unit outcome \<times> kernel) option" where
  "mb_send_pass m val timeout k =
     (if mb_entry (mailboxes k m) = mb_size (mailboxes k m) then
        do {
          t \<leftarrow> rt_thread_self k;
          let k1 = upd_thread t (\<lambda>th. th\<lparr>thread_error := RT_EOK\<rparr>) k;
          (if timeout = 0 then Some (Returns (- RT_EFULL) None, k1)
           else
             do {
               k2 \<leftarrow> ipc_wait (Senders_of (Obj_Mb m)) (obj_flag (objs k1 (Obj_Mb m))) t timeout
                       (In_mb_send m val timeout (tick k1)) k1;
               Some (Waits, k2)
             })
        }
      else
        do {
          (ok, mb) \<leftarrow> mb_put val (mailboxes k m);
          let k1 = upd_mb m (\<lambda>_. mb) k;
          (if ok then
             do {
               k2 \<leftarrow> ipc_wake_first (Suspended_on (Obj_Mb m)) k1;
               Some (Returns RT_EOK None, k2)
             }
           else Some (Returns (- RT_EFULL) None, k1))
        })"

definition rt_mb_send_wait :: "nat \<Rightarrow> u32 \<Rightarrow> s32 \<Rightarrow> kernel \<Rightarrow> (unit outcome \<times> kernel) option" where
  "rt_mb_send_wait m val timeout k =
     do {
       rt_assert (rt_object_get_type (Obj_Mb m) k = class_code Class_MailBox);
       rt_assert (timeout \<noteq> 0 \<longrightarrow> scheduler_available k);
       (if mb_entry (mailboxes k m) = mb_size (mailboxes k m) \<and> timeout = 0
        then Some (Returns (- RT_EFULL) None, k)
        else mb_send_pass m val timeout k)
     }"

definition rt_mb_send_wait_resume ::
    "tid \<Rightarrow> nat \<Rightarrow> u32 \<Rightarrow> s32 \<Rightarrow> u32 \<Rightarrow> kernel \<Rightarrow> (unit outcome \<times> kernel) option" where
  "rt_mb_send_wait_resume t m val timeout start k =
     (let k1 = finish_call t k in
      if thread_error (threads k1 t) \<noteq> RT_EOK
      then Some (Returns (thread_error (threads k1 t)) None, k1)
      else mb_send_pass m val (timeout_left timeout start k1) k1)"

definition rt_mb_send :: "nat \<Rightarrow> u32 \<Rightarrow> kernel \<Rightarrow> (unit outcome \<times> kernel) option" where
  "rt_mb_send m val k = rt_mb_send_wait m val 0 k"

definition rt_mb_urgent :: "nat \<Rightarrow> u32 \<Rightarrow> kernel \<Rightarrow> (rt_err \<times> kernel) option" where
  "rt_mb_urgent m val k =
     do {
       rt_assert (rt_object_get_type (Obj_Mb m) k = class_code Class_MailBox);
       (if mb_entry (mailboxes k m) = mb_size (mailboxes k m) then Some (- RT_EFULL, k)
        else
          do {
            mb \<leftarrow> mb_put_front val (mailboxes k m);
            k1 \<leftarrow> ipc_wake_first (Suspended_on (Obj_Mb m)) (upd_mb m (\<lambda>_. mb) k);
            Some (RT_EOK, k1)
          })
     }"

definition mb_recv_pass :: "nat \<Rightarrow> s32 \<Rightarrow> kernel \<Rightarrow> (u32 outcome \<times> kernel) option" where
  "mb_recv_pass m timeout k =
     (if mb_entry (mailboxes k m) = 0 then
        do {
          t \<leftarrow> rt_thread_self k;
          let k1 = upd_thread t (\<lambda>th. th\<lparr>thread_error := RT_EOK\<rparr>) k;
          (if timeout = 0
           then Some (Returns (- RT_ETIMEOUT) None,
                      upd_thread t (\<lambda>th. th\<lparr>thread_error := - RT_ETIMEOUT\<rparr>) k1)
           else
             do {
               k2 \<leftarrow> ipc_wait (Suspended_on (Obj_Mb m)) (obj_flag (objs k1 (Obj_Mb m))) t timeout
                       (In_mb_recv m timeout (tick k1)) k1;
               Some (Waits, k2)
             })
        }
      else
        do {
          (val, mb) \<leftarrow> mb_get (mailboxes k m);
          let k1 = upd_mb m (\<lambda>_. mb) k;
          k2 \<leftarrow> ipc_wake_first (Senders_of (Obj_Mb m)) k1;
          Some (Returns RT_EOK (Some val), k2)
        })"

definition rt_mb_recv :: "nat \<Rightarrow> s32 \<Rightarrow> kernel \<Rightarrow> (u32 outcome \<times> kernel) option" where
  "rt_mb_recv m timeout k =
     do {
       rt_assert (rt_object_get_type (Obj_Mb m) k = class_code Class_MailBox);
       rt_assert (timeout \<noteq> 0 \<longrightarrow> scheduler_available k);
       (if mb_entry (mailboxes k m) = 0 \<and> timeout = 0
        then Some (Returns (- RT_ETIMEOUT) None, k)
        else mb_recv_pass m timeout k)
     }"

definition rt_mb_recv_resume ::
    "tid \<Rightarrow> nat \<Rightarrow> s32 \<Rightarrow> u32 \<Rightarrow> kernel \<Rightarrow> (u32 outcome \<times> kernel) option" where
  "rt_mb_recv_resume t m timeout start k =
     (let k1 = finish_call t k in
      if thread_error (threads k1 t) \<noteq> RT_EOK
      then Some (Returns (thread_error (threads k1 t)) None, k1)
      else mb_recv_pass m (timeout_left timeout start k1) k1)"

definition rt_mb_control :: "nat \<Rightarrow> ipc_cmd \<Rightarrow> kernel \<Rightarrow> (rt_err \<times> kernel) option" where
  "rt_mb_control m cmd k =
     do {
       rt_assert (rt_object_get_type (Obj_Mb m) k = class_code Class_MailBox);
       (case cmd of
          CMD_RESET _ \<Rightarrow>
            do {
              k1 \<leftarrow> mb_resume_all m k;
              k2 \<leftarrow> rt_schedule (upd_mb m (\<lambda>x. x\<lparr>mb_entry := 0, in_offset := 0, out_offset := 0\<rparr>) k1);
              Some (RT_EOK, k2)
            }
        | CMD_OTHER \<Rightarrow> Some (- RT_ERROR, k))
     }"

section \<open>The ring of mails\<close>

definition mb_inv :: "rt_mailbox \<Rightarrow> bool" where
  "mb_inv mb \<longleftrightarrow>
     0 < unat (mb_size mb) \<and> unat (mb_size mb) \<le> length (msg_pool mb) \<and>
     unat (mb_entry mb) \<le> unat (mb_size mb) \<and> unat (out_offset mb) < unat (mb_size mb) \<and>
     unat (in_offset mb) = (unat (out_offset mb) + unat (mb_entry mb)) mod unat (mb_size mb)"

definition mb_list :: "rt_mailbox \<Rightarrow> u32 list" where
  "mb_list mb = ring_list (msg_pool mb) (unat (mb_size mb)) (unat (out_offset mb)) (unat (mb_entry mb))"

definition mb_cap :: "rt_mailbox \<Rightarrow> nat" where
  "mb_cap mb = unat (mb_size mb)"

text \<open>The ring operations with the guards of the calls that use them.\<close>

definition mb_enq :: "rt_mailbox \<Rightarrow> u32 \<Rightarrow> (bool \<times> rt_mailbox) option" where
  "mb_enq mb val = (if mb_entry mb = mb_size mb then Some (False, mb) else mb_put val mb)"

definition mb_deq :: "rt_mailbox \<Rightarrow> (u32 option \<times> rt_mailbox) option" where
  "mb_deq mb = (if mb_entry mb = 0 then Some (None, mb)
                else map_option (\<lambda>(v, mb'). (Some v, mb')) (mb_get mb))"

lemma mb_length [simp]: "length (mb_list mb) = unat (mb_entry mb)"
  by (simp add: mb_list_def)

lemma wrap_next:
  fixes x n :: u16
  assumes "unat x < unat n"
  shows "unat (if x + 1 \<ge> n then 0 else x + 1) = (unat x + 1) mod unat n"
proof -
  have "unat n < 2 ^ 16" using unsigned_less [of n] by simp
  then have "unat (x + 1) = unat x + 1" using assms by (intro unat_add_one) simp
  then show ?thesis
    using assms by (cases "unat x + 1 = unat n") (simp_all add: word_le_nat_alt)
qed

lemma mb_put_correct:
  assumes i: "mb_inv mb" and f: "mb_entry mb \<noteq> mb_size mb"
  shows "\<exists>mb'. mb_put val mb = Some (True, mb') \<and> mb_inv mb' \<and> mb_size mb' = mb_size mb \<and>
           mb_list mb' = mb_list mb @ [val]"
proof -
  let ?n = "unat (mb_size mb)" and ?e = "unat (mb_entry mb)" and ?o = "unat (out_offset mb)"
  have e: "?e < ?n" using i f by (simp add: mb_inv_def word_unat_eq_iff)
  have n: "?n < 2 ^ 16" using unsigned_less [of "mb_size mb"] by simp
  have inp: "unat (in_offset mb) = (?o + ?e) mod ?n" "unat (in_offset mb) < ?n" "?n \<le> length (msg_pool mb)"
    using i by (auto simp: mb_inv_def)
  have "mb_entry mb < 0xffff" using e n by (simp add: word_less_nat_alt)
  moreover have e1: "unat (mb_entry mb + 1) = ?e + 1" using e n by (intro unat_add_one) simp
  moreover define nin where "nin = (if in_offset mb + 1 \<ge> mb_size mb then 0 else in_offset mb + 1)"
  let ?mb = "mb\<lparr>msg_pool := (msg_pool mb)[unat (in_offset mb) := val], in_offset := nin, mb_entry := mb_entry mb + 1\<rparr>"
  have nin: "unat nin = (?o + (?e + 1)) mod ?n"
    unfolding nin_def wrap_next [OF inp(2)] unfolding inp(1) by (metis add.assoc mod_add_left_eq)
  have "unat (in_offset mb) < length (msg_pool mb)" using inp by simp
  ultimately have "mb_put val mb = Some (True, ?mb)" by (simp add: mb_put_def nin_def Let_def)
  moreover have "mb_inv ?mb" using i e e1 nin by (simp add: mb_inv_def)
  moreover have "mb_list ?mb = mb_list mb @ [val]"
    using ring_list_snoc [OF inp(3) e, of ?o val] e1 by (simp add: mb_list_def inp(1))
  ultimately show ?thesis by simp
qed

lemma mb_get_correct:
  assumes i: "mb_inv mb" and f: "mb_entry mb \<noteq> 0"
  shows "\<exists>mb'. mb_get mb = Some (hd (mb_list mb), mb') \<and> mb_inv mb' \<and> mb_size mb' = mb_size mb \<and>
           mb_list mb' = tl (mb_list mb)"
proof -
  let ?n = "unat (mb_size mb)" and ?o = "unat (out_offset mb)"
  obtain e where e: "unat (mb_entry mb) = Suc e" using f by (metis not0_implies_Suc unat_0_iff)
  have o: "?o < ?n" "?n \<le> length (msg_pool mb)" "0 < ?n" using i by (auto simp: mb_inv_def)
  have e1: "unat (mb_entry mb - 1) = e" using f e by (simp add: unat_minus_one)
  define nout where "nout = (if out_offset mb + 1 \<ge> mb_size mb then 0 else out_offset mb + 1)"
  have nout: "unat nout = (?o + 1) mod ?n" unfolding nout_def by (rule wrap_next [OF o(1)])
  let ?mb = "mb\<lparr>out_offset := nout, mb_entry := mb_entry mb - 1\<rparr>"
  have hd: "mb_list mb = msg_pool mb ! ?o # mb_list ?mb"
    using ring_list_tl [OF o(3), of "msg_pool mb" ?o e] o(1) by (simp add: mb_list_def e e1 nout)
  have "0 < mb_entry mb" using f by (simp add: word_gt_0)
  then have "mb_get mb = Some (msg_pool mb ! ?o, ?mb)" using o by (simp add: mb_get_def nout_def Let_def)
  moreover have "((?o + 1) mod ?n + e) mod ?n = (?o + Suc e) mod ?n"
    by (metis Suc_eq_plus1_left add.assoc mod_add_left_eq)
  then have "mb_inv ?mb" using i o e by (simp add: mb_inv_def e1 nout)
  ultimately show ?thesis by (simp add: hd)
qed

lemma mb_put_front_correct:
  assumes i: "mb_inv mb" and f: "mb_entry mb \<noteq> mb_size mb"
  shows "\<exists>mb'. mb_put_front val mb = Some mb' \<and> mb_inv mb' \<and> mb_size mb' = mb_size mb \<and>
           mb_list mb' = val # mb_list mb"
proof -
  let ?n = "unat (mb_size mb)" and ?e = "unat (mb_entry mb)" and ?o = "unat (out_offset mb)"
  define r where "r = (if out_offset mb > 0 then out_offset mb - 1 else mb_size mb - 1)"
  have e: "?e < ?n" using i f by (simp add: mb_inv_def word_unat_eq_iff)
  have n: "?n < 2 ^ 16" using unsigned_less [of "mb_size mb"] by simp
  have o: "?o < ?n" "?n \<le> length (msg_pool mb)" "0 < ?n" using i by (auto simp: mb_inv_def)
  have e1: "unat (mb_entry mb + 1) = ?e + 1" using e n by (intro unat_add_one) simp
  have s0: "mb_size mb \<noteq> 0" using o(3) by (auto simp: unat_0_iff [symmetric])
  have r: "unat r = (if ?o = 0 then ?n - 1 else ?o - 1)"
    using s0 by (simp add: r_def unat_minus_one word_gt_0 unat_0_iff)
  have r1: "unat r < ?n" "?o = (unat r + 1) mod ?n" using r o by auto
  let ?mb = "mb\<lparr>out_offset := r, msg_pool := (msg_pool mb)[unat r := val], mb_entry := mb_entry mb + 1\<rparr>"
  have "unat r < length (msg_pool mb)" using r1(1) o(2) by simp
  then have "mb_put_front val mb = Some ?mb" by (simp add: mb_put_front_def r_def Let_def)
  moreover have "((unat r + 1) mod ?n + ?e) mod ?n = (unat r + (?e + 1)) mod ?n"
    unfolding mod_add_left_eq by (simp only: ac_simps)
  then have "(unat r + (?e + 1)) mod ?n = (?o + ?e) mod ?n" using r1(2) by metis
  then have "mb_inv ?mb" using i e r1(1) by (simp add: mb_inv_def e1)
  moreover have "mb_list ?mb = val # mb_list mb"
    using ring_list_cons [OF o(2) r1 e, of val] by (simp add: mb_list_def e1)
  ultimately show ?thesis by simp
qed

interpretation mbq: bounded_queue mb_inv mb_list mb_cap "\<lambda>_ _. True" mb_enq mb_deq
proof unfold_locales
  fix mb x assume i: "mb_inv mb"
  show "length (mb_list mb) \<le> mb_cap mb" using i by (simp add: mb_inv_def mb_cap_def)
  show "\<exists>q'. mb_enq mb x = Some (True, q') \<and> mb_inv q' \<and> mb_cap q' = mb_cap mb \<and>
      (\<lambda>_ _. True) q' = (\<lambda>_ _. True) mb \<and> mb_list q' = mb_list mb @ [x]"
    if "length (mb_list mb) < mb_cap mb"
    using mb_put_correct [OF i, of x] that by (auto simp: mb_enq_def mb_cap_def)
  show "mb_enq mb x = Some (False, mb)" if "length (mb_list mb) = mb_cap mb"
    using that by (simp add: mb_enq_def mb_cap_def word_unat_eq_iff)
  show "\<exists>q'. mb_deq mb = Some (Some y, q') \<and> mb_inv q' \<and> mb_cap q' = mb_cap mb \<and>
      (\<lambda>_ _. True) q' = (\<lambda>_ _. True) mb \<and> mb_list q' = ys"
    if "mb_list mb = y # ys" for y ys
  proof -
    have "unat (mb_entry mb) \<noteq> 0" using that mb_length [of mb] by simp
    then have "mb_entry mb \<noteq> 0" by auto
    then show ?thesis using mb_get_correct [OF i] that by (auto simp: mb_deq_def mb_cap_def)
  qed
  show "mb_deq mb = Some (None, mb)" if "mb_list mb = []"
  proof -
    have "unat (mb_entry mb) = 0" using that mb_length [of mb] by simp
    then have "mb_entry mb = 0" by (simp add: unat_0_iff)
    then show ?thesis by (simp add: mb_deq_def)
  qed
qed

section \<open>The calls\<close>

definition is_mb :: "nat \<Rightarrow> kernel \<Rightarrow> bool" where
  "is_mb m k \<longleftrightarrow> rt_object_get_type (Obj_Mb m) k = class_code Class_MailBox \<and>
     (obj_flag (objs k (Obj_Mb m)) = RT_IPC_FLAG_FIFO \<or> obj_flag (objs k (Obj_Mb m)) = RT_IPC_FLAG_PRIO) \<and>
     mb_inv (mailboxes k m)"

abbreviation mails :: "kernel \<Rightarrow> nat \<Rightarrow> u32 list" where
  "mails k m \<equiv> mb_list (mailboxes k m)"

lemma mb_full_iff: "mb_inv mb \<Longrightarrow> mb_entry mb = mb_size mb \<longleftrightarrow> length (mb_list mb) = mb_cap mb"
  by (simp add: mb_cap_def word_unat_eq_iff)

lemma mb_empty_iff: "mb_entry mb = 0 \<longleftrightarrow> mb_list mb = []"
  by (metis length_0_conv mb_length unat_0_iff)

lemma mb_send_pass_refines:
  assumes s: "sinv k" and i: "is_mb m k" and c: "current k \<noteq> None"
    and cl: "timeout \<noteq> 0 \<longrightarrow> caller t k" and to: "0 < sint timeout \<longrightarrow> timeout < RT_TICK_MAX_HALF"
    and g: "length (mails k m) < mb_cap (mailboxes k m) \<or> timeout \<noteq> 0"
  shows "\<exists>oc k'. mb_send_pass m val timeout k = Some (oc, k') \<and> sinv k' \<and> mb_inv (mailboxes k' m) \<and>
     (if length (mails k m) < mb_cap (mailboxes k m)
      then oc = Returns RT_EOK None \<and> mails k' m = mails k m @ [val] \<and>
           lists k' (Suspended_on (Obj_Mb m)) = tl (lists k (Suspended_on (Obj_Mb m))) \<and>
           (lists k (Suspended_on (Obj_Mb m)) \<noteq> [] \<longrightarrow> runnable k' (hd (lists k (Suspended_on (Obj_Mb m))))) \<and>
           same_error k k' \<and> saved k' = saved k \<and> current k' \<noteq> None \<and> ipc_frame k (k'\<lparr>mailboxes := mailboxes k\<rparr>)
      else oc = Waits \<and> mailboxes k' = mailboxes k \<and> tstat k' t = RT_THREAD_SUSPEND \<and>
           saved k' t = In_mb_send m val timeout (tick k) \<and>
           lists k' (Senders_of (Obj_Mb m)) =
             insert_at (wait_pos (obj_flag (objs k (Obj_Mb m))) t (Senders_of (Obj_Mb m)) k) t
               (lists k (Senders_of (Obj_Mb m))))"
proof (cases "length (mails k m) < mb_cap (mailboxes k m)")
  case True
  have inv: "mb_inv (mailboxes k m)" using i by (simp add: is_mb_def)
  have nf: "mb_entry (mailboxes k m) \<noteq> mb_size (mailboxes k m)" using True mb_full_iff [OF inv] by simp
  obtain mb where mb: "mb_put val (mailboxes k m) = Some (True, mb)" "mb_inv mb" "mb_list mb = mails k m @ [val]"
    using mb_put_correct [OF inv nf] by blast
  let ?k1 = "upd_mb m (\<lambda>_. mb) k"
  have s1: "sinv ?k1" using s sinv_cong [of ?k1 k] by simp
  have h: "wait_head (Suspended_on (Obj_Mb m))" by simp
  have "current ?k1 \<noteq> None" using c by simp
  then obtain k' where k': "ipc_wake_first (Suspended_on (Obj_Mb m)) ?k1 = Some k'" "sinv k'"
      "woken (Suspended_on (Obj_Mb m)) ?k1 k'"
    using ipc_wake_first_ok [OF s1 h] by blast
  have "mb_send_pass m val timeout k = Some (Returns RT_EOK None, k')"
    using nf mb(1) k'(1) by (simp add: mb_send_pass_def)
  moreover have "ipc_frame k (k'\<lparr>mailboxes := mailboxes k\<rparr>)"
    using k'(3) by (simp add: woken_def ipc_frame_def started_def runnable_def)
  ultimately show ?thesis using True k'(2) k'(3) mb
    by (simp add: woken_def same_error_def) (simp add: ipc_frame_def)
next
  case False
  have inv: "mb_inv (mailboxes k m)" using i by (simp add: is_mb_def)
  have full: "mb_entry (mailboxes k m) = mb_size (mailboxes k m)"
    using False mbq.length_contents [OF inv] mb_full_iff [OF inv] by simp
  have ct: "caller t k" "timeout \<noteq> 0" using False g cl by auto
  have h: "wait_head (Senders_of (Obj_Mb m))" by simp
  have fl: "obj_flag (objs k (Obj_Mb m)) = RT_IPC_FLAG_FIFO \<or> obj_flag (objs k (Obj_Mb m)) = RT_IPC_FLAG_PRIO"
    using i by (simp add: is_mb_def)
  obtain k' where k': "ipc_wait (Senders_of (Obj_Mb m)) (obj_flag (objs k (Obj_Mb m))) t timeout
        (In_mb_send m val timeout (tick k)) (upd_thread t (\<lambda>th. th\<lparr>thread_error := RT_EOK\<rparr>) k) = Some k'"
      "sinv k'" "ipc_frame k k'" "tstat k' t = RT_THREAD_SUSPEND" "saved k' t = In_mb_send m val timeout (tick k)"
      "lists k' (Senders_of (Obj_Mb m)) = insert_at (wait_pos (obj_flag (objs k (Obj_Mb m))) t (Senders_of (Obj_Mb m)) k) t
               (lists k (Senders_of (Obj_Mb m)))"
    using wait_with_error_cleared [OF s ct(1) h fl to] by blast
  have "mb_send_pass m val timeout k = Some (Waits, k')"
    using full ct k'(1) by (simp add: mb_send_pass_def caller_def rt_thread_self_def Let_def)
  then show ?thesis using False k' inv by (simp add: ipc_frame_def)
qed

lemma mb_recv_pass_refines:
  assumes s: "sinv k" and i: "is_mb m k" and c: "current k \<noteq> None"
    and cl: "timeout \<noteq> 0 \<longrightarrow> caller t k" and to: "0 < sint timeout \<longrightarrow> timeout < RT_TICK_MAX_HALF"
    and g: "mails k m \<noteq> [] \<or> timeout \<noteq> 0"
  shows "\<exists>oc k'. mb_recv_pass m timeout k = Some (oc, k') \<and> sinv k' \<and> mb_inv (mailboxes k' m) \<and>
     (case mails k m of
        val # rest \<Rightarrow> oc = Returns RT_EOK (Some val) \<and> mails k' m = rest \<and>
           lists k' (Senders_of (Obj_Mb m)) = tl (lists k (Senders_of (Obj_Mb m))) \<and>
           (lists k (Senders_of (Obj_Mb m)) \<noteq> [] \<longrightarrow> runnable k' (hd (lists k (Senders_of (Obj_Mb m))))) \<and>
           same_error k k' \<and> saved k' = saved k \<and> current k' \<noteq> None
      | [] \<Rightarrow> oc = Waits \<and> mailboxes k' = mailboxes k \<and> tstat k' t = RT_THREAD_SUSPEND \<and>
           saved k' t = In_mb_recv m timeout (tick k) \<and>
           lists k' (Suspended_on (Obj_Mb m)) =
             insert_at (wait_pos (obj_flag (objs k (Obj_Mb m))) t (Suspended_on (Obj_Mb m)) k) t
               (lists k (Suspended_on (Obj_Mb m))))"
proof (cases "mails k m")
  case (Cons v rest)
  have inv: "mb_inv (mailboxes k m)" using i by (simp add: is_mb_def)
  have ne: "mb_entry (mailboxes k m) \<noteq> 0" using Cons mb_empty_iff by auto
  obtain mb where mb: "mb_get (mailboxes k m) = Some (v, mb)" "mb_inv mb" "mb_list mb = rest"
    using mb_get_correct [OF inv ne] Cons by auto
  let ?k1 = "upd_mb m (\<lambda>_. mb) k"
  have s1: "sinv ?k1" using s sinv_cong [of ?k1 k] by simp
  have h: "wait_head (Senders_of (Obj_Mb m))" by simp
  have "current ?k1 \<noteq> None" using c by simp
  then obtain k' where k': "ipc_wake_first (Senders_of (Obj_Mb m)) ?k1 = Some k'" "sinv k'"
      "woken (Senders_of (Obj_Mb m)) ?k1 k'"
    using ipc_wake_first_ok [OF s1 h] by blast
  have "mb_recv_pass m timeout k = Some (Returns RT_EOK (Some v), k')"
    using ne mb(1) k'(1) by (simp add: mb_recv_pass_def)
  then show ?thesis using Cons k'(2) k'(3) mb
    by (simp add: woken_def same_error_def) (simp add: ipc_frame_def)
next
  case Nil
  have inv: "mb_inv (mailboxes k m)" using i by (simp add: is_mb_def)
  have e: "mb_entry (mailboxes k m) = 0" using Nil mb_empty_iff by blast
  have ct: "caller t k" "timeout \<noteq> 0" using Nil g cl by auto
  have h: "wait_head (Suspended_on (Obj_Mb m))" by simp
  have fl: "obj_flag (objs k (Obj_Mb m)) = RT_IPC_FLAG_FIFO \<or> obj_flag (objs k (Obj_Mb m)) = RT_IPC_FLAG_PRIO"
    using i by (simp add: is_mb_def)
  obtain k' where k': "ipc_wait (Suspended_on (Obj_Mb m)) (obj_flag (objs k (Obj_Mb m))) t timeout
        (In_mb_recv m timeout (tick k)) (upd_thread t (\<lambda>th. th\<lparr>thread_error := RT_EOK\<rparr>) k) = Some k'"
      "sinv k'" "ipc_frame k k'" "tstat k' t = RT_THREAD_SUSPEND" "saved k' t = In_mb_recv m timeout (tick k)"
      "lists k' (Suspended_on (Obj_Mb m)) = insert_at (wait_pos (obj_flag (objs k (Obj_Mb m))) t (Suspended_on (Obj_Mb m)) k) t
               (lists k (Suspended_on (Obj_Mb m)))"
    using wait_with_error_cleared [OF s ct(1) h fl to] by blast
  have "mb_recv_pass m timeout k = Some (Waits, k')"
    using e ct k'(1) by (simp add: mb_recv_pass_def caller_def rt_thread_self_def Let_def)
  then show ?thesis using Nil k' inv by (simp add: ipc_frame_def)
qed

lemma sample_mb:
  "is_mb n sample_kernel" "mails sample_kernel n = []" "mb_cap (mailboxes sample_kernel n) = 2"
  "lists sample_kernel (Suspended_on (Obj_Mb 0)) = [5]" "current sample_kernel \<noteq> None"
  by (simp_all add: is_mb_def sample_kernel_def sample_object_def rt_object_get_type_def mb_inv_def
      mb_list_def ring_list_def mb_cap_def upt_rec)

section \<open>Properties\<close>

text \<open>
  C15.  \<open>rt_mb_send_wait\<close> on every branch: with room the mail is appended behind the others
  and the first waiting receiver can run; a full mailbox refuses with \<open>-RT_EFULL\<close> and
  changes nothing, or makes the caller wait among the senders; no mail is lost or overwritten.
\<close>

theorem rt_mb_send_wait_correct:
  assumes "sinv k" "is_mb m k" "current k \<noteq> None"
    and "timeout \<noteq> 0 \<longrightarrow> caller t k" "0 < sint timeout \<longrightarrow> timeout < RT_TICK_MAX_HALF"
  shows "\<exists>oc k'. rt_mb_send_wait m val timeout k = Some (oc, k') \<and> sinv k' \<and> mb_inv (mailboxes k' m) \<and>
     (if length (mails k m) < mb_cap (mailboxes k m)
      then oc = Returns RT_EOK None \<and> mails k' m = mails k m @ [val] \<and>
           (lists k (Suspended_on (Obj_Mb m)) \<noteq> [] \<longrightarrow> runnable k' (hd (lists k (Suspended_on (Obj_Mb m)))))
      else mails k' m = mails k m \<and>
           (if timeout = 0 then oc = Returns (- RT_EFULL) None \<and> k' = k
            else oc = Waits \<and> tstat k' t = RT_THREAD_SUSPEND \<and> t \<in> set (lists k' (Senders_of (Obj_Mb m)))))"
proof (cases "length (mails k m) < mb_cap (mailboxes k m) \<or> timeout \<noteq> 0")
  case True
  have inv: "mb_inv (mailboxes k m)" and ty: "rt_object_get_type (Obj_Mb m) k = class_code Class_MailBox"
    using assms(2) by (auto simp: is_mb_def)
  have "\<not> (mb_entry (mailboxes k m) = mb_size (mailboxes k m) \<and> timeout = 0)"
    using True mb_full_iff [OF inv] by auto
  moreover have "timeout \<noteq> 0 \<longrightarrow> scheduler_available k" using assms(4) by (simp add: caller_def)
  ultimately have "rt_mb_send_wait m val timeout k = mb_send_pass m val timeout k"
    using ty by (auto simp: rt_mb_send_wait_def)
  then show ?thesis
    using mb_send_pass_refines [OF assms(1-5) True, of val] True
    by (cases "length (mails k m) < mb_cap (mailboxes k m)") auto
next
  case False
  have inv: "mb_inv (mailboxes k m)" using assms(2) by (simp add: is_mb_def)
  have "mb_entry (mailboxes k m) = mb_size (mailboxes k m)"
    using False mbq.length_contents [OF inv] mb_full_iff [OF inv] by simp
  then show ?thesis using False assms(1,2) by (simp add: rt_mb_send_wait_def is_mb_def)
qed

theorem rt_mb_send_wait_correct_witness:
  "\<exists>oc k'. rt_mb_send_wait 0 42 0 sample_kernel = Some (oc, k') \<and> oc = Returns RT_EOK None \<and>
     mails k' 0 = [42] \<and> runnable k' 5"
  using rt_mb_send_wait_correct [OF sample_sinv sample_mb(1,5), of 0 0 0 42] by (auto simp: sample_mb)

text \<open>
  \<open>rt_mb_recv\<close> on every branch: the oldest mail is taken out and the first waiting
  sender can run; an empty mailbox answers \<open>-RT_ETIMEOUT\<close> and changes nothing, or makes
  the caller wait among the receivers.
\<close>

theorem rt_mb_recv_correct:
  assumes "sinv k" "is_mb m k" "current k \<noteq> None"
    and "timeout \<noteq> 0 \<longrightarrow> caller t k" "0 < sint timeout \<longrightarrow> timeout < RT_TICK_MAX_HALF"
  shows "\<exists>oc k'. rt_mb_recv m timeout k = Some (oc, k') \<and> sinv k' \<and> mb_inv (mailboxes k' m) \<and>
     (case mails k m of
        val # rest \<Rightarrow> oc = Returns RT_EOK (Some val) \<and> mails k' m = rest \<and>
           (lists k (Senders_of (Obj_Mb m)) \<noteq> [] \<longrightarrow> runnable k' (hd (lists k (Senders_of (Obj_Mb m)))))
      | [] \<Rightarrow> mails k' m = [] \<and>
           (if timeout = 0 then oc = Returns (- RT_ETIMEOUT) None \<and> k' = k
            else oc = Waits \<and> tstat k' t = RT_THREAD_SUSPEND \<and> t \<in> set (lists k' (Suspended_on (Obj_Mb m)))))"
proof (cases "mails k m \<noteq> [] \<or> timeout \<noteq> 0")
  case True
  have ty: "rt_object_get_type (Obj_Mb m) k = class_code Class_MailBox" using assms(2) by (auto simp: is_mb_def)
  have "\<not> (mb_entry (mailboxes k m) = 0 \<and> timeout = 0)" using True mb_empty_iff by auto
  moreover have "timeout \<noteq> 0 \<longrightarrow> scheduler_available k" using assms(4) by (simp add: caller_def)
  ultimately have "rt_mb_recv m timeout k = mb_recv_pass m timeout k"
    using ty by (auto simp: rt_mb_recv_def)
  then show ?thesis
    using mb_recv_pass_refines [OF assms(1-5) True] True by (cases "mails k m") auto
next
  case False
  then have "mb_entry (mailboxes k m) = 0" using mb_empty_iff by blast
  then show ?thesis using False assms(1,2) by (simp add: rt_mb_recv_def is_mb_def)
qed

theorem rt_mb_recv_correct_witness:
  "\<exists>oc k'. rt_mb_recv 1 5 sample_kernel = Some (oc, k') \<and> oc = Waits \<and>
     0 \<in> set (lists k' (Suspended_on (Obj_Mb 1)))"
  using rt_mb_recv_correct [OF sample_sinv sample_mb(1,5), of 5 0 1] sample_caller by (auto simp: sample_mb)

text \<open>
  Delivery: a mail sent to an empty mailbox on which a thread waits reaches that
  thread; when it goes on, its \<open>rt_mb_recv\<close> returns \<open>RT_EOK\<close> with this mail and leaves
  the mailbox empty.
\<close>

theorem mb_delivery:
  assumes "sinv k" "is_mb m k" "current k \<noteq> None" "mails k m = []"
    and "lists k (Suspended_on (Obj_Mb m)) = w # ws" "thread_error (threads k w) = RT_EOK"
  shows "\<exists>k' k''. rt_mb_send m val k = Some (Returns RT_EOK None, k') \<and> runnable k' w \<and>
     rt_mb_recv_resume w m timeout start k' = Some (Returns RT_EOK (Some val), k'') \<and> sinv k'' \<and>
     mails k'' m = []"
proof -
  have inv: "mb_inv (mailboxes k m)" using assms(2) by (simp add: is_mb_def)
  have room: "length (mails k m) < mb_cap (mailboxes k m)"
    using assms(4) inv by (simp add: mb_inv_def mb_cap_def)
  have "mb_entry (mailboxes k m) \<noteq> mb_size (mailboxes k m)" using room mb_full_iff [OF inv] by simp
  then have sp: "rt_mb_send m val k = mb_send_pass m val 0 k"
    using assms(2) by (simp add: rt_mb_send_def rt_mb_send_wait_def is_mb_def)
  obtain oc k' where k': "mb_send_pass m val 0 k = Some (oc, k')" "oc = Returns RT_EOK None" "sinv k'"
      "mb_inv (mailboxes k' m)" "mails k' m = [val]" "runnable k' w" "same_error k k'" "current k' \<noteq> None"
      "ipc_frame k (k'\<lparr>mailboxes := mailboxes k\<rparr>)"
    using mb_send_pass_refines [OF assms(1-3), of 0 0 val] room assms(4,5) by auto
  let ?k = "finish_call w k'"
  have s: "sinv ?k" using k'(3) sinv_cong [of ?k k'] by (simp add: finish_call_def)
  have "objs k' (Obj_Mb m) = objs k (Obj_Mb m)" using k'(9) by (simp add: ipc_frame_def)
  then have i: "is_mb m ?k" using assms(2) k'(4) by (simp add: is_mb_def finish_call_def rt_object_get_type_def)
  have e: "thread_error (threads ?k w) = RT_EOK" using k'(7) assms(6) by (simp add: same_error_def finish_call_def)
  have ml: "mails ?k m = [val]" using k'(5) by (simp add: finish_call_def)
  have ne: "mb_entry (mailboxes ?k m) \<noteq> 0" using ml mb_empty_iff by (metis list.distinct(1))
  have "mb_recv_pass m (timeout_left timeout start ?k) ?k = mb_recv_pass m 0 ?k"
    using ne by (simp add: mb_recv_pass_def)
  moreover obtain oc' k'' where "mb_recv_pass m 0 ?k = Some (oc', k'')" "oc' = Returns RT_EOK (Some val)"
      "sinv k''" "mails k'' m = []"
    using mb_recv_pass_refines [OF s i, of 0 0] k'(8) ml by (auto simp: finish_call_def)
  ultimately show ?thesis
    using sp k'(1,2,6) e by (auto simp: rt_mb_recv_resume_def Let_def)
qed

theorem mb_delivery_witness:
  "\<exists>k' k''. rt_mb_send 0 42 sample_kernel = Some (Returns RT_EOK None, k') \<and>
     rt_mb_recv_resume 5 0 (-1) 0 k' = Some (Returns RT_EOK (Some 42), k'') \<and> mails k'' 0 = []"
proof -
  have "thread_error (threads sample_kernel 5) = RT_EOK" by (simp add: sample_kernel_def sample_thread_def)
  from mb_delivery [OF sample_sinv sample_mb(1,5,2,4) this, of 42 "-1" 0] show ?thesis by blast
qed

text \<open>
  Any sequence of sends and receives that do not wait keeps the mails in order: the
  initial mails followed by the accepted ones are the received ones followed by those left,
  never more than the mailbox holds.
\<close>

theorem mailbox_fifo:
  assumes "mb_inv mb"
  shows "\<exists>ins outs mb'. qrun mb_enq mb_deq ops mb = Some (ins, outs, mb') \<and> mb_inv mb' \<and>
           mb_list mb @ ins = outs @ mb_list mb' \<and> length (mb_list mb') \<le> mb_cap mb"
  using mbq.qrun_fifo [OF assms, of ops] by blast

theorem mailbox_fifo_witness:
  "\<exists>ins outs mb'. qrun mb_enq mb_deq [Enq 1, Enq 2, Enq 3, Deq, Enq 4] (mailboxes sample_kernel 0) =
       Some (ins, outs, mb') \<and> ins = outs @ mb_list mb'"
proof -
  have "mb_inv (mailboxes sample_kernel 0)" using sample_mb(1) [of 0] by (simp add: is_mb_def)
  from mailbox_fifo [OF this, of "[Enq 1, Enq 2, Enq 3, Deq, Enq 4]"] show ?thesis
    by (auto simp: sample_mb)
qed

text \<open>
  An urgent mail overtakes the others: after \<open>rt_mb_urgent\<close> on a mailbox that is not
  full the next \<open>rt_mb_recv\<close> returns it, and the mails behind it are the former ones.
\<close>

theorem mb_urgent_first:
  assumes "sinv k" "is_mb m k" "current k \<noteq> None" "length (mails k m) < mb_cap (mailboxes k m)"
  shows "\<exists>k' k''. rt_mb_urgent m val k = Some (RT_EOK, k') \<and> mails k' m = val # mails k m \<and>
     rt_mb_recv m 0 k' = Some (Returns RT_EOK (Some val), k'') \<and> sinv k'' \<and> mails k'' m = mails k m"
proof -
  have inv: "mb_inv (mailboxes k m)" using assms(2) by (simp add: is_mb_def)
  have nf: "mb_entry (mailboxes k m) \<noteq> mb_size (mailboxes k m)" using assms(4) mb_full_iff [OF inv] by simp
  obtain mb where mb: "mb_put_front val (mailboxes k m) = Some mb" "mb_inv mb" "mb_list mb = val # mails k m"
    using mb_put_front_correct [OF inv nf] by blast
  let ?k1 = "upd_mb m (\<lambda>_. mb) k"
  have s1: "sinv ?k1" using assms(1) sinv_cong [of ?k1 k] by simp
  obtain k' where k': "ipc_wake_first (Suspended_on (Obj_Mb m)) ?k1 = Some k'" "sinv k'"
      "woken (Suspended_on (Obj_Mb m)) ?k1 k'"
    using ipc_wake_first_ok [OF s1, of "Suspended_on (Obj_Mb m)"] assms(3) by auto
  have ur: "rt_mb_urgent m val k = Some (RT_EOK, k')"
    using assms(2) nf mb(1) k'(1) by (simp add: rt_mb_urgent_def is_mb_def)
  have w: "mailboxes k' = mailboxes ?k1" "objs k' (Obj_Mb m) = objs k (Obj_Mb m)" "current k' \<noteq> None"
    using k'(3) by (auto simp: woken_def ipc_frame_def)
  have i': "is_mb m k'" using assms(2) w mb(2) by (simp add: is_mb_def rt_object_get_type_def)
  have ml: "mails k' m = val # mails k m" using w mb(3) by simp
  then have "mb_entry (mailboxes k' m) \<noteq> 0" using mb_empty_iff by (metis list.distinct(1))
  then have "rt_mb_recv m 0 k' = mb_recv_pass m 0 k'" using i' by (simp add: rt_mb_recv_def is_mb_def)
  moreover obtain k'' where "mb_recv_pass m 0 k' = Some (Returns RT_EOK (Some val), k'')" "sinv k''" "mails k'' m = mails k m"
    using mb_recv_pass_refines [OF k'(2) i' w(3), of 0 0] ml by auto
  ultimately show ?thesis using ur ml by auto
qed

theorem mb_urgent_first_witness:
  "\<exists>k' k''. rt_mb_urgent 0 42 sample_kernel = Some (RT_EOK, k') \<and>
     rt_mb_recv 0 0 k' = Some (Returns RT_EOK (Some 42), k'') \<and> mails k'' 0 = []"
  using mb_urgent_first [OF sample_sinv sample_mb(1,5), of 0 42] by (auto simp: sample_mb)

end
