(* ===== verification/Block_Chain.thy ===== *)
theory Block_Chain
  imports Rtt_Prelude
begin

text \<open>
  Singly linked chains of numbered blocks, as the message queues and the memory pools keep
  them: \<open>nx b\<close> is the link stored in block \<open>b\<close>.  The theory relates a chain to the list
  of its blocks and gives the effect of the link updates the code performs.
\<close>

fun chain :: "(nat \<Rightarrow> nat option) \<Rightarrow> nat option \<Rightarrow> nat list \<Rightarrow> bool" where
  "chain nx p [] \<longleftrightarrow> p = None"
| "chain nx p (b # bs) \<longleftrightarrow> p = Some b \<and> chain nx (nx b) bs"

text \<open>The blocks met by following the links, at most \<open>n\<close> of them.\<close>

fun walk :: "nat \<Rightarrow> (nat \<Rightarrow> nat option) \<Rightarrow> nat option \<Rightarrow> nat list" where
  "walk 0 nx p = []"
| "walk (Suc n) nx p = (case p of None \<Rightarrow> [] | Some b \<Rightarrow> b # walk n nx (nx b))"

lemma chain_None [simp]: "chain nx None bs \<longleftrightarrow> bs = []"
  by (cases bs) auto

lemma chain_Some: "chain nx (Some b) bs \<longleftrightarrow> (\<exists>cs. bs = b # cs \<and> chain nx (nx b) cs)"
  by (cases bs) auto

lemma chain_unique: "chain nx p bs \<Longrightarrow> chain nx p cs \<Longrightarrow> bs = cs"
  by (induction bs arbitrary: p cs) (auto simp: chain_Some)

lemma walk_chain: "chain nx p bs \<Longrightarrow> length bs \<le> n \<Longrightarrow> walk n nx p = bs"
proof (induction bs arbitrary: p n)
  case (Cons b bs)
  then show ?case by (cases n) auto
next
  case Nil
  then show ?case by (cases n) auto
qed

lemma chain_upd_notin [simp]: "b \<notin> set bs \<Longrightarrow> chain (nx(b := v)) p bs \<longleftrightarrow> chain nx p bs"
  by (induction bs arbitrary: p) auto

lemma chain_cong: "(\<And>b. b \<in> set bs \<Longrightarrow> nx b = nx' b) \<Longrightarrow> chain nx p bs \<longleftrightarrow> chain nx' p bs"
  by (induction bs arbitrary: p) auto

text \<open>Linking a block at the end: the last block points to it, and it points nowhere.\<close>

lemma chain_snoc:
  assumes "chain nx p bs" "b \<notin> set bs" "distinct bs" "bs \<noteq> []"
  shows "chain (nx(b := None, last bs := Some b)) p (bs @ [b])"
  using assms
proof (induction bs arbitrary: p)
  case (Cons a bs)
  show ?case
  proof (cases "bs = []")
    case True
    then show ?thesis using Cons.prems by auto
  next
    case False
    then have "chain (nx(b := None, last bs := Some b)) (nx a) (bs @ [b])"
      by (intro Cons.IH) (use Cons.prems in simp_all)
    moreover have "last bs \<noteq> a" "a \<noteq> b" using False Cons.prems by auto
    then have "(nx(b := None, last bs := Some b)) a = nx a" by simp
    ultimately show ?thesis using Cons.prems False by (simp del: fun_upd_apply)
  qed
qed simp

text \<open>Linking a block at the front.\<close>

lemma chain_cons: "chain nx p bs \<Longrightarrow> b \<notin> set bs \<Longrightarrow> chain (nx(b := p)) (Some b) (b # bs)"
  by simp

section \<open>Pools of blocks\<close>

text \<open>
  The contract of a pool that hands out numbered blocks and takes them back: a free block is
  never in use, a block is handed out once until it comes back, and none gets lost.
\<close>

locale block_pool =
  fixes invar :: "'p \<Rightarrow> bool"
    and free :: "'p \<Rightarrow> nat list"
    and used :: "'p \<Rightarrow> nat set"
    and take_block :: "'p \<Rightarrow> (nat option \<times> 'p) option"
    and give_block :: "nat \<Rightarrow> 'p \<Rightarrow> 'p"
  assumes free_distinct: "invar q \<Longrightarrow> distinct (free q)"
    and free_unused: "invar q \<Longrightarrow> set (free q) \<inter> used q = {}"
    and take_some: "invar q \<Longrightarrow> free q = b # bs \<Longrightarrow>
        \<exists>q'. take_block q = Some (Some b, q') \<and> invar q' \<and> free q' = bs \<and> used q' = insert b (used q)"
    and take_none: "invar q \<Longrightarrow> free q = [] \<Longrightarrow> take_block q = Some (None, q)"
    and give: "invar q \<Longrightarrow> b \<in> used q \<Longrightarrow>
        invar (give_block b q) \<and> free (give_block b q) = b # free q \<and> used (give_block b q) = used q - {b}"

text \<open>A client takes blocks and gives back blocks it holds; the run keeps the blocks it holds.\<close>

datatype pool_op = Take | Give nat

fun prun ::
    "('p \<Rightarrow> (nat option \<times> 'p) option) \<Rightarrow> (nat \<Rightarrow> 'p \<Rightarrow> 'p) \<Rightarrow> pool_op list \<Rightarrow> nat list \<Rightarrow> 'p \<Rightarrow>
     (nat list \<times> 'p) option" where
  "prun tk gv [] live q = Some (live, q)"
| "prun tk gv (Take # ops) live q =
     do { (r, q1) \<leftarrow> tk q; prun tk gv ops (case r of None \<Rightarrow> live | Some b \<Rightarrow> b # live) q1 }"
| "prun tk gv (Give b # ops) live q =
     (if b \<in> set live then prun tk gv ops (remove1 b live) (gv b q) else prun tk gv ops live q)"

context block_pool
begin

text \<open>
  Whatever the client does, the blocks it holds are pairwise different and none of them is
  free, and free and held blocks together are what they were.
\<close>

lemma prun_ok:
  assumes "invar q" "distinct live" "set live \<subseteq> used q"
  shows "\<exists>live' q'. prun take_block give_block ops live q = Some (live', q') \<and> invar q' \<and> distinct live' \<and>
     set live' \<subseteq> used q' \<and> set live' \<inter> set (free q') = {} \<and>
     set live' \<union> set (free q') = set live \<union> set (free q)"
  using assms
proof (induction ops arbitrary: live q)
  case Nil
  then show ?case using free_unused [of q] by auto
next
  case (Cons a ops)
  show ?case
  proof (cases a)
    case Take
    show ?thesis
    proof (cases "free q")
      case Nil
      then show ?thesis using Cons.IH [OF Cons.prems] take_none [OF Cons.prems(1)] Take by simp
    next
      case (Cons b bs)
      then obtain q1 where q1: "take_block q = Some (Some b, q1)" "invar q1" "free q1 = bs" "used q1 = insert b (used q)"
        using take_some [OF Cons.prems(1)] by blast
      have "b \<notin> set live" using free_unused [OF Cons.prems(1)] Cons.prems(3) Cons by auto
      then have "distinct (b # live)" "set (b # live) \<subseteq> used q1" using Cons.prems(2,3) q1(4) by auto
      from Cons.IH [OF q1(2) this] show ?thesis using Take Cons q1(1,3) by auto
    qed
  next
    case (Give b)
    show ?thesis
    proof (cases "b \<in> set live")
      case True
      then have u: "b \<in> used q" using Cons.prems(3) by auto
      note g = give [OF Cons.prems(1) u]
      have "distinct (remove1 b live)" "set (remove1 b live) \<subseteq> used (give_block b q)"
        using Cons.prems(2,3) g by (auto simp: set_remove1_eq)
      from Cons.IH [OF _ this] g show ?thesis using Give True Cons.prems(2) by (auto simp: set_remove1_eq)
    next
      case False
      then show ?thesis using Cons.IH [OF Cons.prems] Give by simp
    qed
  qed
qed

end

end
