(* ===== verification/Messagequeue.thy ===== *)
theory Messagequeue
  imports Sample Bounded_Queue Block_Chain
begin

text \<open>
  The message queues of \<^verbatim>\<open>rt-thread/src/ipc.c\<close>: message blocks linked by their header in
  a queue with head and tail and in a list of free blocks.  The pool is the blocks
  \<open>0 .. max_msgs - 1\<close> of \<open>msg_size\<close> bytes each.
\<close>

section \<open>Operations\<close>

abbreviation upd_mq :: "nat \<Rightarrow> (rt_messagequeue \<Rightarrow> rt_messagequeue) \<Rightarrow> kernel \<Rightarrow> kernel" where
  "upd_mq q f k \<equiv> k\<lparr>queues := (queues k)(q := f (queues k q))\<rparr>"

text \<open>The loop that pushes every block on the free list, from the first to the last.\<close>

fun mq_free_loop :: "nat \<Rightarrow> nat \<Rightarrow> rt_messagequeue \<Rightarrow> rt_messagequeue" where
  "mq_free_loop temp 0 mq = mq"
| "mq_free_loop temp (Suc n) mq =
     mq_free_loop (Suc temp) n
       (mq\<lparr>mq_next := (mq_next mq)(temp := mq_free mq), mq_free := Some temp\<rparr>)"

definition mq_setup :: "u16 \<Rightarrow> u16 \<Rightarrow> (nat \<Rightarrow> u8 list) \<Rightarrow> rt_messagequeue" where
  "mq_setup msize msgs pool =
     mq_free_loop 0 (unat msgs)
       \<lparr>msg_size = msize, max_msgs = msgs, mq_entry = 0, mq_head = None, mq_tail = None,
        mq_free = None, mq_next = (\<lambda>_. None), mq_data = pool\<rparr>"

text \<open>\<open>sizeof(struct rt_mq_message)\<close> is the size of one pointer.\<close>

definition rt_mq_init ::
    "nat \<Rightarrow> string \<Rightarrow> (nat \<Rightarrow> u8 list) \<Rightarrow> u32 \<Rightarrow> u32 \<Rightarrow> u8 \<Rightarrow> kernel \<Rightarrow> (rt_err \<times> kernel) option" where
  "rt_mq_init q name pool msize pool_size flag k =
     do {
       rt_assert (flag = RT_IPC_FLAG_FIFO \<or> flag = RT_IPC_FLAG_PRIO);
       k1 \<leftarrow> rt_object_init (Obj_Mq q) Class_MessageQueue name k;
       let k2 = upd_obj (Obj_Mq q) (\<lambda>ob. ob\<lparr>obj_flag := flag\<rparr>) k1;
       k3 \<leftarrow> ipc_object_init (Obj_Mq q) k2;
       let ms = (ucast (RT_ALIGN msize 4) :: u16);
       let msgs = (ucast (pool_size div (ucast ms + 4)) :: u16);
       let k4 = upd_mq q (\<lambda>_. mq_setup ms msgs pool) k3;
       k5 \<leftarrow> ipc_list_init (Senders_of (Obj_Mq q)) k4;
       Some (RT_EOK, k5)
     }"

definition mq_resume_all :: "nat \<Rightarrow> kernel \<Rightarrow> kernel option" where
  "mq_resume_all q k =
     do {
       k1 \<leftarrow> ipc_list_resume_all (Suspended_on (Obj_Mq q)) k;
       ipc_list_resume_all (Senders_of (Obj_Mq q)) k1
     }"

definition rt_mq_detach :: "nat \<Rightarrow> kernel \<Rightarrow> (rt_err \<times> kernel) option" where
  "rt_mq_detach q k =
     do {
       rt_assert (rt_object_get_type (Obj_Mq q) k = class_code Class_MessageQueue);
       rt_assert (rt_object_is_systemobject (Obj_Mq q) k);
       k1 \<leftarrow> mq_resume_all q k;
       Some (RT_EOK, rt_object_detach (Obj_Mq q) k1)
     }"

definition rt_mq_create ::
    "nat option \<Rightarrow> (nat \<Rightarrow> u8 list) option \<Rightarrow> string \<Rightarrow> u32 \<Rightarrow> u32 \<Rightarrow> u8 \<Rightarrow> kernel \<Rightarrow>
     (nat option \<times> kernel) option" where
  "rt_mq_create mem pool name msize msgs flag k =
     do {
       rt_assert (flag = RT_IPC_FLAG_FIFO \<or> flag = RT_IPC_FLAG_PRIO);
       rt_assert (rt_interrupt_get_nest k = 0);
       (ob, k1) \<leftarrow> rt_object_allocate (map_option Obj_Mq mem) Class_MessageQueue name k;
       (case mem of
          None \<Rightarrow> Some (None, k1)
        | Some q \<Rightarrow>
            do {
              let k2 = upd_obj (Obj_Mq q) (\<lambda>ob. ob\<lparr>obj_flag := flag\<rparr>) k1;
              k3 \<leftarrow> ipc_object_init (Obj_Mq q) k2;
              (case pool of
                 None \<Rightarrow> do { k4 \<leftarrow> rt_object_delete (Obj_Mq q) k3; Some (None, k4) }
               | Some p \<Rightarrow>
                   do {
                     let k4 = upd_mq q (\<lambda>_. mq_setup (ucast (RT_ALIGN msize 4)) (ucast msgs) p) k3;
                     k5 \<leftarrow> ipc_list_init (Senders_of (Obj_Mq q)) k4;
                     Some (Some q, k5)
                   })
            })
     }"

definition rt_mq_delete :: "nat \<Rightarrow> kernel \<Rightarrow> (rt_err \<times> kernel) option" where
  "rt_mq_delete q k =
     do {
       rt_assert (rt_object_get_type (Obj_Mq q) k = class_code Class_MessageQueue);
       rt_assert (\<not> rt_object_is_systemobject (Obj_Mq q) k);
       rt_assert (rt_interrupt_get_nest k = 0);
       k1 \<leftarrow> mq_resume_all q k;
       k2 \<leftarrow> rt_object_delete (Obj_Mq q) k1;
       Some (RT_EOK, k2)
     }"

text \<open>
  Taking the free block \<open>msg\<close>, filling it and linking it at the tail
  (\<open>rt_mq_send_wait\<close>) or at the head (\<open>rt_mq_urgent\<close>); the flag is \<open>False\<close> when the
  entry counter is at its maximum.
\<close>

definition mq_fill :: "nat \<Rightarrow> u8 list \<Rightarrow> u32 \<Rightarrow> rt_messagequeue \<Rightarrow> rt_messagequeue option" where
  "mq_fill msg buffer sz mq =
     do {
       xs \<leftarrow> read_block buffer 0 (unat sz);
       d \<leftarrow> write_block (mq_data mq msg) 0 xs;
       Some (mq\<lparr>mq_data := (mq_data mq)(msg := d)\<rparr>)
     }"

definition mq_count :: "rt_messagequeue \<Rightarrow> bool \<times> rt_messagequeue" where
  "mq_count mq =
     (if mq_entry mq < 0xffff then (True, mq\<lparr>mq_entry := mq_entry mq + 1\<rparr>) else (False, mq))"

definition mq_put :: "nat \<Rightarrow> u8 list \<Rightarrow> u32 \<Rightarrow> rt_messagequeue \<Rightarrow> (bool \<times> rt_messagequeue) option" where
  "mq_put msg buffer sz mq =
     do {
       let mq1 = mq\<lparr>mq_free := mq_next mq msg\<rparr>;
       let mq2 = mq1\<lparr>mq_next := (mq_next mq1)(msg := None)\<rparr>;
       mq3 \<leftarrow> mq_fill msg buffer sz mq2;
       let mq4 = (case mq_tail mq3 of
                    None \<Rightarrow> mq3
                  | Some lst \<Rightarrow> mq3\<lparr>mq_next := (mq_next mq3)(lst := Some msg)\<rparr>);
       let mq5 = mq4\<lparr>mq_tail := Some msg,
                     mq_head := (if mq_head mq4 = None then Some msg else mq_head mq4)\<rparr>;
       Some (mq_count mq5)
     }"

definition mq_put_front ::
    "nat \<Rightarrow> u8 list \<Rightarrow> u32 \<Rightarrow> rt_messagequeue \<Rightarrow> (bool \<times> rt_messagequeue) option" where
  "mq_put_front msg buffer sz mq =
     do {
       let mq1 = mq\<lparr>mq_free := mq_next mq msg\<rparr>;
       mq2 \<leftarrow> mq_fill msg buffer sz mq1;
       let mq3 = mq2\<lparr>mq_next := (mq_next mq2)(msg := mq_head mq2), mq_head := Some msg\<rparr>;
       let mq4 = mq3\<lparr>mq_tail := (if mq_tail mq3 = None then Some msg else mq_tail mq3)\<rparr>;
       Some (mq_count mq4)
     }"

text \<open>
  Taking the first message: its bytes for the caller's buffer, of which \<open>sz\<close> were asked.
\<close>

definition mq_get :: "u8 list \<Rightarrow> u32 \<Rightarrow> rt_messagequeue \<Rightarrow> (u8 list \<times> rt_messagequeue) option" where
  "mq_get buffer sz mq =
     do {
       msg \<leftarrow> mq_head mq;
       let mq1 = mq\<lparr>mq_head := mq_next mq msg\<rparr>;
       let mq2 = mq1\<lparr>mq_tail := (if mq_tail mq1 = Some msg then None else mq_tail mq1)\<rparr>;
       let mq3 = mq2\<lparr>mq_entry := (if mq_entry mq2 > 0 then mq_entry mq2 - 1 else mq_entry mq2)\<rparr>;
       let n = (if sz > ucast (msg_size mq3) then unat (msg_size mq3) else unat sz);
       xs \<leftarrow> read_block (mq_data mq3 msg) 0 n;
       buf \<leftarrow> write_block buffer 0 xs;
       Some (buf, mq3\<lparr>mq_next := (mq_next mq3)(msg := mq_free mq3), mq_free := Some msg\<rparr>)
     }"

definition mq_send_pass ::
    "nat \<Rightarrow> u8 list \<Rightarrow> u32 \<Rightarrow> s32 \<Rightarrow> kernel \<Rightarrow> (unit outcome \<times> kernel) option" where
  "mq_send_pass q buffer sz timeout k =
     (case mq_free (queues k q) of
        None \<Rightarrow>
          do {
            t \<leftarrow> rt_thread_self k;
            let k1 = upd_thread t (\<lambda>th. th\<lparr>thread_error := RT_EOK\<rparr>) k;
            (if timeout = 0 then Some (Returns (- RT_EFULL) None, k1)
             else
               do {
                 k2 \<leftarrow> ipc_wait (Senders_of (Obj_Mq q)) (obj_flag (objs k1 (Obj_Mq q))) t timeout
                         (In_mq_send q buffer sz timeout (tick k1)) k1;
                 Some (Waits, k2)
               })
          }
      | Some msg \<Rightarrow>
          do {
            (ok, mq) \<leftarrow> mq_put msg buffer sz (queues k q);
            let k1 = upd_mq q (\<lambda>_. mq) k;
            (if ok then
               do {
                 k2 \<leftarrow> ipc_wake_first (Suspended_on (Obj_Mq q)) k1;
                 Some (Returns RT_EOK None, k2)
               }
             else Some (Returns (- RT_EFULL) None, k1))
          })"

definition rt_mq_send_wait ::
    "nat \<Rightarrow> u8 list \<Rightarrow> u32 \<Rightarrow> s32 \<Rightarrow> kernel \<Rightarrow> (unit outcome \<times> kernel) option" where
  "rt_mq_send_wait q buffer sz timeout k =
     do {
       rt_assert (rt_object_get_type (Obj_Mq q) k = class_code Class_MessageQueue);
       rt_assert (sz \<noteq> 0);
       rt_assert (timeout \<noteq> 0 \<longrightarrow> scheduler_available k);
       (if sz > ucast (msg_size (queues k q)) then Some (Returns (- RT_ERROR) None, k)
        else if mq_free (queues k q) = None \<and> timeout = 0 then Some (Returns (- RT_EFULL) None, k)
        else mq_send_pass q buffer sz timeout k)
     }"

definition rt_mq_send_wait_resume ::
    "tid \<Rightarrow> nat \<Rightarrow> u8 list \<Rightarrow> u32 \<Rightarrow> s32 \<Rightarrow> u32 \<Rightarrow> kernel \<Rightarrow> (unit outcome \<times> kernel) option" where
  "rt_mq_send_wait_resume t q buffer sz timeout start k =
     (let k1 = finish_call t k in
      if thread_error (threads k1 t) \<noteq> RT_EOK
      then Some (Returns (thread_error (threads k1 t)) None, k1)
      else mq_send_pass q buffer sz (timeout_left timeout start k1) k1)"

definition rt_mq_send :: "nat \<Rightarrow> u8 list \<Rightarrow> u32 \<Rightarrow> kernel \<Rightarrow> (unit outcome \<times> kernel) option" where
  "rt_mq_send q buffer sz k = rt_mq_send_wait q buffer sz 0 k"

definition rt_mq_urgent :: "nat \<Rightarrow> u8 list \<Rightarrow> u32 \<Rightarrow> kernel \<Rightarrow> (rt_err \<times> kernel) option" where
  "rt_mq_urgent q buffer sz k =
     do {
       rt_assert (rt_object_get_type (Obj_Mq q) k = class_code Class_MessageQueue);
       rt_assert (sz \<noteq> 0);
       (if sz > ucast (msg_size (queues k q)) then Some (- RT_ERROR, k)
        else
          case mq_free (queues k q) of
            None \<Rightarrow> Some (- RT_EFULL, k)
          | Some msg \<Rightarrow>
              do {
                (ok, mq) \<leftarrow> mq_put_front msg buffer sz (queues k q);
                let k1 = upd_mq q (\<lambda>_. mq) k;
                (if ok then
                   do {
                     k2 \<leftarrow> ipc_wake_first (Suspended_on (Obj_Mq q)) k1;
                     Some (RT_EOK, k2)
                   }
                 else Some (- RT_EFULL, k1))
              })
     }"

definition mq_recv_pass ::
    "nat \<Rightarrow> u8 list \<Rightarrow> u32 \<Rightarrow> s32 \<Rightarrow> kernel \<Rightarrow> (u8 list outcome \<times> kernel) option" where
  "mq_recv_pass q buffer sz timeout k =
     (if mq_entry (queues k q) = 0 then
        do {
          t \<leftarrow> rt_thread_self k;
          let k1 = upd_thread t (\<lambda>th. th\<lparr>thread_error := RT_EOK\<rparr>) k;
          (if timeout = 0
           then Some (Returns (- RT_ETIMEOUT) None,
                      upd_thread t (\<lambda>th. th\<lparr>thread_error := - RT_ETIMEOUT\<rparr>) k1)
           else
             do {
               k2 \<leftarrow> ipc_wait (Suspended_on (Obj_Mq q)) (obj_flag (objs k1 (Obj_Mq q))) t timeout
                       (In_mq_recv q buffer sz timeout (tick k1)) k1;
               Some (Waits, k2)
             })
        }
      else
        do {
          (buf, mq) \<leftarrow> mq_get buffer sz (queues k q);
          k2 \<leftarrow> ipc_wake_first (Senders_of (Obj_Mq q)) (upd_mq q (\<lambda>_. mq) k);
          Some (Returns RT_EOK (Some buf), k2)
        })"

definition rt_mq_recv ::
    "nat \<Rightarrow> u8 list \<Rightarrow> u32 \<Rightarrow> s32 \<Rightarrow> kernel \<Rightarrow> (u8 list outcome \<times> kernel) option" where
  "rt_mq_recv q buffer sz timeout k =
     do {
       rt_assert (rt_object_get_type (Obj_Mq q) k = class_code Class_MessageQueue);
       rt_assert (sz \<noteq> 0);
       rt_assert (timeout \<noteq> 0 \<longrightarrow> scheduler_available k);
       (if mq_entry (queues k q) = 0 \<and> timeout = 0 then Some (Returns (- RT_ETIMEOUT) None, k)
        else mq_recv_pass q buffer sz timeout k)
     }"

definition rt_mq_recv_resume ::
    "tid \<Rightarrow> nat \<Rightarrow> u8 list \<Rightarrow> u32 \<Rightarrow> s32 \<Rightarrow> u32 \<Rightarrow> kernel \<Rightarrow> (u8 list outcome \<times> kernel) option" where
  "rt_mq_recv_resume t q buffer sz timeout start k =
     (let k1 = finish_call t k in
      if thread_error (threads k1 t) \<noteq> RT_EOK
      then Some (Returns (thread_error (threads k1 t)) None, k1)
      else mq_recv_pass q buffer sz (timeout_left timeout start k1) k1)"

text \<open>
  The loop of \<open>rt_mq_control\<close> that returns every queued block to the free list; it ends
  because the queue is a finite chain, and \<open>max_msgs\<close> passes are enough.
\<close>

fun mq_flush :: "nat \<Rightarrow> rt_messagequeue \<Rightarrow> rt_messagequeue option" where
  "mq_flush 0 mq = (if mq_head mq = None then Some mq else None)"
| "mq_flush (Suc n) mq =
     (case mq_head mq of
        None \<Rightarrow> Some mq
      | Some msg \<Rightarrow>
          mq_flush n
            (let mq1 = mq\<lparr>mq_head := mq_next mq msg\<rparr>;
                 mq2 = mq1\<lparr>mq_tail := (if mq_tail mq1 = Some msg then None else mq_tail mq1)\<rparr>
             in mq2\<lparr>mq_next := (mq_next mq2)(msg := mq_free mq2), mq_free := Some msg\<rparr>))"

definition rt_mq_control :: "nat \<Rightarrow> ipc_cmd \<Rightarrow> kernel \<Rightarrow> (rt_err \<times> kernel) option" where
  "rt_mq_control q cmd k =
     do {
       rt_assert (rt_object_get_type (Obj_Mq q) k = class_code Class_MessageQueue);
       (case cmd of
          CMD_RESET _ \<Rightarrow>
            do {
              k1 \<leftarrow> mq_resume_all q k;
              mq \<leftarrow> mq_flush (unat (max_msgs (queues k1 q))) (queues k1 q);
              k2 \<leftarrow> rt_schedule (upd_mq q (\<lambda>_. mq\<lparr>mq_entry := 0\<rparr>) k1);
              Some (RT_EOK, k2)
            }
        | CMD_OTHER \<Rightarrow> Some (- RT_ERROR, k))
     }"

section \<open>The two chains\<close>

text \<open>
  \<open>mq_wf mq qs fs\<close>: the queue is the chain of the blocks \<open>qs\<close>, the free list the chain of
  \<open>fs\<close>, and every block of the pool is in exactly one of them.
\<close>

definition mq_wf :: "rt_messagequeue \<Rightarrow> nat list \<Rightarrow> nat list \<Rightarrow> bool" where
  "mq_wf mq qs fs \<longleftrightarrow>
     chain (mq_next mq) (mq_head mq) qs \<and> chain (mq_next mq) (mq_free mq) fs \<and>
     distinct (qs @ fs) \<and> set (qs @ fs) = {..<unat (max_msgs mq)} \<and>
     mq_tail mq = (if qs = [] then None else Some (last qs)) \<and> unat (mq_entry mq) = length qs \<and>
     (\<forall>b<unat (max_msgs mq). length (mq_data mq b) = unat (msg_size mq))"

definition mq_blocks :: "rt_messagequeue \<Rightarrow> nat list" where
  "mq_blocks mq = walk (unat (max_msgs mq)) (mq_next mq) (mq_head mq)"

definition mq_frees :: "rt_messagequeue \<Rightarrow> nat list" where
  "mq_frees mq = walk (unat (max_msgs mq)) (mq_next mq) (mq_free mq)"

definition mq_inv :: "rt_messagequeue \<Rightarrow> bool" where
  "mq_inv mq \<longleftrightarrow> mq_wf mq (mq_blocks mq) (mq_frees mq)"

text \<open>The messages in the queue: whole blocks, since the length of a message is not kept.\<close>

definition mq_list :: "rt_messagequeue \<Rightarrow> u8 list list" where
  "mq_list mq = map (mq_data mq) (mq_blocks mq)"

definition mq_cap :: "rt_messagequeue \<Rightarrow> nat" where
  "mq_cap mq = unat (max_msgs mq)"

lemma mq_wf_length:
  assumes "mq_wf mq qs fs"
  shows "length qs + length fs = unat (max_msgs mq)"
proof -
  have "length (qs @ fs) = card (set (qs @ fs))" using assms by (metis distinct_card mq_wf_def)
  then show ?thesis using assms by (simp add: mq_wf_def)
qed

lemma mq_wf_unique:
  assumes "mq_wf mq qs fs"
  shows "mq_blocks mq = qs" "mq_frees mq = fs" "mq_inv mq"
proof -
  show 1: "mq_blocks mq = qs" "mq_frees mq = fs"
    using mq_wf_length [OF assms] assms
    by (auto simp: mq_blocks_def mq_frees_def mq_wf_def intro!: walk_chain)
  show "mq_inv mq" using assms by (simp add: mq_inv_def 1)
qed

text \<open>The three primitive moves of a block.\<close>

lemma mq_put_wf:
  assumes w: "mq_wf mq qs (msg # fs)" and b: "unat sz \<le> length buffer" "unat sz \<le> unat (msg_size mq)"
  shows "\<exists>mq'. mq_put msg buffer sz mq = Some (True, mq') \<and> mq_wf mq' (qs @ [msg]) fs \<and>
     mq_data mq' = (mq_data mq)(msg := take (unat sz) buffer @ drop (unat sz) (mq_data mq msg)) \<and>
     msg_size mq' = msg_size mq \<and> max_msgs mq' = max_msgs mq"
proof -
  let ?d = "take (unat sz) buffer @ drop (unat sz) (mq_data mq msg)"
  have ml: "msg < unat (max_msgs mq)" "msg \<notin> set qs" "msg \<notin> set fs" "distinct qs" "distinct fs"
    "set qs \<inter> set fs = {}" "chain (mq_next mq) (mq_head mq) qs" "chain (mq_next mq) (mq_next mq msg) fs"
    using w by (auto simp: mq_wf_def)
  have len: "length (mq_data mq msg) = unat (msg_size mq)" using w ml(1) by (simp add: mq_wf_def)
  have n: "length qs < unat (max_msgs mq)" using mq_wf_length [OF w] by simp
  have n16: "unat (max_msgs mq) < 2 ^ 16" using unsigned_less [of "max_msgs mq"] by simp
  have e: "unat (mq_entry mq) = length qs" using w by (simp add: mq_wf_def)
  have cnt: "mq_entry mq < 0xffff" using e n n16 by (simp add: word_less_nat_alt)
  have e1: "unat (mq_entry mq + 1) = length qs + 1" using e n n16 by (subst unat_add_one) simp_all
  let ?nx = "if qs = [] then (mq_next mq)(msg := None) else (mq_next mq)(msg := None, last qs := Some msg)"
  let ?mq = "mq\<lparr>mq_free := mq_next mq msg, mq_next := ?nx, mq_data := (mq_data mq)(msg := ?d),
      mq_tail := Some msg, mq_head := (if mq_head mq = None then Some msg else mq_head mq),
      mq_entry := mq_entry mq + 1\<rparr>"
  have hd: "mq_head mq = None \<longleftrightarrow> qs = []" using ml(7) by (cases qs) auto
  have tl: "mq_tail mq = (if qs = [] then None else Some (last qs))" using w by (simp add: mq_wf_def)
  have "mq_put msg buffer sz mq = Some (True, ?mq)"
    using b len cnt hd tl by (cases "qs = []") (simp_all add: mq_put_def mq_fill_def mq_count_def Let_def)
  moreover have "mq_wf ?mq (qs @ [msg]) fs"
  proof -
    have "chain ?nx (mq_head ?mq) (qs @ [msg])"
      using chain_snoc [OF ml(7,2,4)] hd by (cases "qs = []") auto
    moreover have "chain ?nx (mq_next mq msg) fs"
      using ml(3,6,8) by (cases "qs = []") (auto simp: disjoint_iff)
    ultimately show ?thesis using w ml e1 b len unfolding mq_wf_def by (auto simp: min_def)
  qed
  ultimately show ?thesis by (intro exI [of _ ?mq]) simp
qed

lemma mq_put_front_wf:
  assumes w: "mq_wf mq qs (msg # fs)" and b: "unat sz \<le> length buffer" "unat sz \<le> unat (msg_size mq)"
  shows "\<exists>mq'. mq_put_front msg buffer sz mq = Some (True, mq') \<and> mq_wf mq' (msg # qs) fs \<and>
     mq_data mq' = (mq_data mq)(msg := take (unat sz) buffer @ drop (unat sz) (mq_data mq msg)) \<and>
     msg_size mq' = msg_size mq \<and> max_msgs mq' = max_msgs mq"
proof -
  let ?d = "take (unat sz) buffer @ drop (unat sz) (mq_data mq msg)"
  have ml: "msg < unat (max_msgs mq)" "msg \<notin> set qs" "msg \<notin> set fs" "distinct qs" "distinct fs"
    "set qs \<inter> set fs = {}" "chain (mq_next mq) (mq_head mq) qs" "chain (mq_next mq) (mq_next mq msg) fs"
    using w by (auto simp: mq_wf_def)
  have len: "length (mq_data mq msg) = unat (msg_size mq)" using w ml(1) by (simp add: mq_wf_def)
  have n: "length qs < unat (max_msgs mq)" using mq_wf_length [OF w] by simp
  have n16: "unat (max_msgs mq) < 2 ^ 16" using unsigned_less [of "max_msgs mq"] by simp
  have e: "unat (mq_entry mq) = length qs" using w by (simp add: mq_wf_def)
  have cnt: "mq_entry mq < 0xffff" using e n n16 by (simp add: word_less_nat_alt)
  have e1: "unat (mq_entry mq + 1) = length qs + 1" using e n n16 by (subst unat_add_one) simp_all
  let ?mq = "mq\<lparr>mq_free := mq_next mq msg, mq_next := (mq_next mq)(msg := mq_head mq),
      mq_data := (mq_data mq)(msg := ?d), mq_head := Some msg,
      mq_tail := (if mq_tail mq = None then Some msg else mq_tail mq), mq_entry := mq_entry mq + 1\<rparr>"
  have "mq_put_front msg buffer sz mq = Some (True, ?mq)"
    using b len cnt by (simp add: mq_put_front_def mq_fill_def mq_count_def Let_def)
  moreover have "mq_wf ?mq (msg # qs) fs"
    using w ml e1 b len unfolding mq_wf_def by (auto simp: min_def)
  ultimately show ?thesis by (intro exI [of _ ?mq]) simp
qed

lemma mq_get_wf:
  assumes w: "mq_wf mq (msg # qs) fs" and b: "min (unat sz) (unat (msg_size mq)) \<le> length buffer"
  defines "n \<equiv> min (unat sz) (unat (msg_size mq))"
  shows "\<exists>mq'. mq_get buffer sz mq = Some (take n (mq_data mq msg) @ drop n buffer, mq') \<and>
     mq_wf mq' qs (msg # fs) \<and> mq_data mq' = mq_data mq \<and> msg_size mq' = msg_size mq \<and> max_msgs mq' = max_msgs mq"
proof -
  have ml: "msg < unat (max_msgs mq)" "msg \<notin> set qs" "msg \<notin> set fs" "distinct qs" "distinct fs"
    "set qs \<inter> set fs = {}" "chain (mq_next mq) (mq_next mq msg) qs" "chain (mq_next mq) (mq_free mq) fs"
    "mq_head mq = Some msg"
    using w by (auto simp: mq_wf_def)
  have len: "length (mq_data mq msg) = unat (msg_size mq)" using w ml(1) by (simp add: mq_wf_def)
  have e: "unat (mq_entry mq) = Suc (length qs)" using w by (simp add: mq_wf_def)
  then have e0: "0 < mq_entry mq" "unat (mq_entry mq - 1) = length qs"
    by (metis nat.distinct(1) unat_0 word_gt_0, metis diff_Suc_1 e nat.distinct(1) unat_0 unat_minus_one)
  have n: "(if sz > ucast (msg_size mq) then unat (msg_size mq) else unat sz) = n"
    by (auto simp: n_def word_less_nat_alt unat_ucast_le min_def)
  let ?mq = "mq\<lparr>mq_head := mq_next mq msg, mq_tail := (if mq_tail mq = Some msg then None else mq_tail mq),
      mq_entry := mq_entry mq - 1, mq_next := (mq_next mq)(msg := mq_free mq), mq_free := Some msg\<rparr>"
  have "n \<le> length (mq_data mq msg)" "n \<le> length buffer" using len b by (auto simp: n_def)
  then have "mq_get buffer sz mq = Some (take n (mq_data mq msg) @ drop n buffer, ?mq)"
    using ml(9) e0(1) n by (auto simp: mq_get_def Let_def min_absorb2 split: if_splits)
  moreover have "mq_wf ?mq qs (msg # fs)"
  proof -
    have "mq_tail mq = Some (if qs = [] then msg else last qs)" using w by (auto simp: mq_wf_def)
    moreover have "last qs \<noteq> msg" if "qs \<noteq> []" using that ml(2) by auto
    ultimately show ?thesis using w ml e0(2) unfolding mq_wf_def by auto
  qed
  ultimately show ?thesis by (intro exI [of _ ?mq]) simp
qed

subsection \<open>Creation and reset\<close>

lemma mq_free_loop_fields:
  "mq_head (mq_free_loop x n mq) = mq_head mq" "mq_tail (mq_free_loop x n mq) = mq_tail mq"
  "mq_entry (mq_free_loop x n mq) = mq_entry mq" "mq_data (mq_free_loop x n mq) = mq_data mq"
  "msg_size (mq_free_loop x n mq) = msg_size mq" "max_msgs (mq_free_loop x n mq) = max_msgs mq"
  by (induction n arbitrary: x mq) simp_all

lemma mq_free_loop_chain:
  "chain (mq_next mq) (mq_free mq) fs \<Longrightarrow> (\<forall>b\<in>set fs. b < x) \<Longrightarrow>
   chain (mq_next (mq_free_loop x n mq)) (mq_free (mq_free_loop x n mq)) (rev [x..<x + n] @ fs)"
proof (induction n arbitrary: x mq fs)
  case (Suc n)
  let ?mq = "mq\<lparr>mq_next := (mq_next mq)(x := mq_free mq), mq_free := Some x\<rparr>"
  have "x \<notin> set fs" using Suc.prems(2) by auto
  then have "chain (mq_next ?mq) (mq_free ?mq) (x # fs)" using Suc.prems(1) by simp
  moreover have "\<forall>b\<in>set (x # fs). b < Suc x" using Suc.prems(2) by auto
  ultimately have "chain (mq_next (mq_free_loop (Suc x) n ?mq)) (mq_free (mq_free_loop (Suc x) n ?mq))
      (rev [Suc x..<Suc x + n] @ x # fs)" by (rule Suc.IH)
  moreover have "rev [x..<x + Suc n] @ fs = rev [Suc x..<Suc x + n] @ x # fs"
    by (simp add: upt_conv_Cons del: upt_Suc)
  ultimately show ?case by (simp del: upt_Suc)
qed simp

lemma mq_setup_wf:
  assumes "\<forall>b<unat msgs. length (pool b) = unat msize"
  shows "mq_wf (mq_setup msize msgs pool) [] (rev [0..<unat msgs])"
  using mq_free_loop_chain [where x = 0 and n = "unat msgs" and fs = "[]" and
      mq = "\<lparr>msg_size = msize, max_msgs = msgs, mq_entry = 0, mq_head = None, mq_tail = None,
        mq_free = None, mq_next = (\<lambda>_. None), mq_data = pool\<rparr>"] assms
  by (auto simp: mq_wf_def mq_setup_def mq_free_loop_fields)

text \<open>The loop of the reset gives every block back; the counter is cleared after it.\<close>

lemma mq_flush_wf:
  assumes "mq_wf (mq\<lparr>mq_entry := of_nat (length qs)\<rparr>) qs fs" "length qs \<le> n"
  shows "\<exists>mq'. mq_flush n mq = Some mq' \<and> mq_wf (mq'\<lparr>mq_entry := 0\<rparr>) [] (rev qs @ fs) \<and>
     msg_size mq' = msg_size mq \<and> max_msgs mq' = max_msgs mq \<and> mq_data mq' = mq_data mq"
  using assms
proof (induction qs arbitrary: mq fs n)
  case Nil
  then have "mq_head mq = None" by (simp add: mq_wf_def)
  then have "mq_flush n mq = Some mq" by (cases n) simp_all
  then show ?case using Nil by simp
next
  case (Cons b qs)
  obtain n' where n: "n = Suc n'" using Cons.prems(2) by (cases n) auto
  let ?mq = "mq\<lparr>mq_head := mq_next mq b, mq_tail := (if mq_tail mq = Some b then None else mq_tail mq),
      mq_next := (mq_next mq)(b := mq_free mq), mq_free := Some b\<rparr>"
  have hd: "mq_head mq = Some b" using Cons.prems(1) by (simp add: mq_wf_def)
  have "unat (max_msgs mq) < 2 ^ 16" using unsigned_less [of "max_msgs mq"] by simp
  then have len: "unat (of_nat (length qs) :: u16) = length qs"
    using mq_wf_length [OF Cons.prems(1)] by (simp add: unat_of_nat take_bit_nat_eq_self)
  have "mq_wf (?mq\<lparr>mq_entry := of_nat (length qs)\<rparr>) qs (b # fs)"
  proof -
    have "mq_tail mq = Some (if qs = [] then b else last qs)" using Cons.prems(1) by (auto simp: mq_wf_def)
    moreover have "last qs \<noteq> b" if "qs \<noteq> []" using that Cons.prems(1) by (auto simp: mq_wf_def)
    ultimately show ?thesis using Cons.prems(1) len unfolding mq_wf_def by auto
  qed
  moreover have "length qs \<le> n'" using Cons.prems(2) n by simp
  moreover have "mq_flush n mq = mq_flush n' ?mq" using hd n by (simp add: Let_def)
  ultimately show ?case using Cons.IH [of ?mq "b # fs" n'] by (simp cong: if_cong)
qed

section \<open>The queue as a bounded queue of messages\<close>

text \<open>The operations with the guards of the calls that use them, for messages of full size.\<close>

definition mq_enq :: "rt_messagequeue \<Rightarrow> u8 list \<Rightarrow> (bool \<times> rt_messagequeue) option" where
  "mq_enq mq x = (case mq_free mq of None \<Rightarrow> Some (False, mq)
                  | Some msg \<Rightarrow> mq_put msg x (ucast (msg_size mq)) mq)"

definition mq_deq :: "rt_messagequeue \<Rightarrow> (u8 list option \<times> rt_messagequeue) option" where
  "mq_deq mq = (if mq_entry mq = 0 then Some (None, mq)
                else map_option (\<lambda>(x, mq'). (Some x, mq'))
                       (mq_get (replicate (unat (msg_size mq)) 0) (ucast (msg_size mq)) mq))"

definition mq_admits :: "rt_messagequeue \<Rightarrow> u8 list \<Rightarrow> bool" where
  "mq_admits mq x \<longleftrightarrow> length x = unat (msg_size mq)"

lemma unat_ucast_u16 [simp]: "unat (ucast (x :: u16) :: u32) = unat x"
  by (rule unat_ucast_le) simp

lemma mq_free_None: "mq_wf mq qs fs \<Longrightarrow> mq_free mq = None \<longleftrightarrow> fs = []"
  by (cases fs) (auto simp: mq_wf_def)

lemma mq_list_wf: "mq_wf mq qs fs \<Longrightarrow> mq_list mq = map (mq_data mq) qs"
  by (simp add: mq_list_def mq_wf_unique)

lemma mq_get_list:
  assumes w: "mq_wf mq qs fs" and b: "min (unat sz) (unat (msg_size mq)) \<le> length buffer" and ne: "mq_list mq = x # xs"
  defines "n \<equiv> min (unat sz) (unat (msg_size mq))"
  shows "\<exists>mq'. mq_get buffer sz mq = Some (take n x @ drop n buffer, mq') \<and> mq_inv mq' \<and>
     mq_list mq' = xs \<and> msg_size mq' = msg_size mq \<and> max_msgs mq' = max_msgs mq"
proof -
  obtain msg qs' where q: "qs = msg # qs'" "mq_data mq msg = x" "map (mq_data mq) qs' = xs"
    using ne mq_list_wf [OF w] by auto
  obtain mq' where mq': "mq_get buffer sz mq = Some (take n x @ drop n buffer, mq')" "mq_wf mq' qs' (msg # fs)"
      "mq_data mq' = mq_data mq" "msg_size mq' = msg_size mq" "max_msgs mq' = max_msgs mq"
    using mq_get_wf [OF w [unfolded q(1)] b] q(2) unfolding n_def by auto
  then show ?thesis using mq_wf_unique(3) [OF mq'(2)] mq_list_wf [OF mq'(2)] q(3) by auto
qed

lemma mq_put_list:
  assumes w: "mq_wf mq qs fs" and f: "mq_free mq = Some msg"
    and b: "unat sz \<le> length buffer" "unat sz \<le> unat (msg_size mq)"
  shows "\<exists>mq' old. mq_put msg buffer sz mq = Some (True, mq') \<and> mq_inv mq' \<and> length old = unat (msg_size mq) \<and>
     mq_list mq' = mq_list mq @ [take (unat sz) buffer @ drop (unat sz) old] \<and>
     msg_size mq' = msg_size mq \<and> max_msgs mq' = max_msgs mq"
proof -
  obtain fs' where fs: "fs = msg # fs'" using w f by (cases fs) (auto simp: mq_wf_def)
  obtain mq' where mq': "mq_put msg buffer sz mq = Some (True, mq')" "mq_wf mq' (qs @ [msg]) fs'"
      "mq_data mq' = (mq_data mq)(msg := take (unat sz) buffer @ drop (unat sz) (mq_data mq msg))"
      "msg_size mq' = msg_size mq" "max_msgs mq' = max_msgs mq"
    using mq_put_wf [OF w [unfolded fs] b] by blast
  have m: "msg \<notin> set qs" "msg < unat (max_msgs mq)" using w fs by (auto simp: mq_wf_def)
  then have "length (mq_data mq msg) = unat (msg_size mq)" using w by (simp add: mq_wf_def)
  moreover have "mq_list mq' = mq_list mq @ [take (unat sz) buffer @ drop (unat sz) (mq_data mq msg)]"
    using mq_list_wf [OF mq'(2)] mq_list_wf [OF w] m(1) mq'(3) by simp
  ultimately show ?thesis using mq' mq_wf_unique(3) [OF mq'(2)] by blast
qed

interpretation mqq: bounded_queue mq_inv mq_list mq_cap mq_admits mq_enq mq_deq
proof unfold_locales
  fix mq x assume "mq_inv mq"
  then obtain qs fs where w: "mq_wf mq qs fs" by (auto simp: mq_inv_def)
  note l = mq_list_wf [OF w] and n = mq_wf_length [OF w]
  show "length (mq_list mq) \<le> mq_cap mq" using n by (simp add: l mq_cap_def)
  show "\<exists>q'. mq_enq mq x = Some (True, q') \<and> mq_inv q' \<and> mq_cap q' = mq_cap mq \<and> mq_admits q' = mq_admits mq \<and>
      mq_list q' = mq_list mq @ [x]"
    if a: "mq_admits mq x" and r: "length (mq_list mq) < mq_cap mq"
  proof -
    obtain msg where f: "mq_free mq = Some msg" using r n mq_free_None [OF w] by (force simp: l mq_cap_def)
    show ?thesis using mq_put_list [OF w f, of "ucast (msg_size mq)" x] a f
      by (auto simp: mq_enq_def mq_cap_def mq_admits_def fun_eq_iff)
  qed
  show "mq_enq mq x = Some (False, mq)" if "length (mq_list mq) = mq_cap mq"
  proof -
    have "mq_free mq = None" using that n mq_free_None [OF w] by (simp add: l mq_cap_def)
    then show ?thesis by (simp add: mq_enq_def)
  qed
  show "\<exists>q'. mq_deq mq = Some (Some y, q') \<and> mq_inv q' \<and> mq_cap q' = mq_cap mq \<and> mq_admits q' = mq_admits mq \<and>
      mq_list q' = ys" if y: "mq_list mq = y # ys" for y ys
  proof -
    obtain msg qs' where q: "qs = msg # qs'" "mq_data mq msg = y" using y l by auto
    have "length y = unat (msg_size mq)" using w q by (auto simp: mq_wf_def)
    moreover have "mq_entry mq \<noteq> 0" using w q(1) by (auto simp: mq_wf_def)
    ultimately show ?thesis
      using mq_get_list [OF w _ y, of "ucast (msg_size mq)" "replicate (unat (msg_size mq)) 0"]
      by (auto simp: mq_deq_def mq_cap_def mq_admits_def fun_eq_iff)
  qed
  show "mq_deq mq = Some (None, mq)" if "mq_list mq = []"
  proof -
    have "unat (mq_entry mq) = 0" using that w by (simp add: l mq_wf_def)
    then show ?thesis by (simp add: mq_deq_def unat_0_iff)
  qed
qed

section \<open>The calls\<close>

definition is_mq :: "nat \<Rightarrow> kernel \<Rightarrow> bool" where
  "is_mq q k \<longleftrightarrow> rt_object_get_type (Obj_Mq q) k = class_code Class_MessageQueue \<and>
     (obj_flag (objs k (Obj_Mq q)) = RT_IPC_FLAG_FIFO \<or> obj_flag (objs k (Obj_Mq q)) = RT_IPC_FLAG_PRIO) \<and>
     mq_inv (queues k q)"

abbreviation msgs :: "kernel \<Rightarrow> nat \<Rightarrow> u8 list list" where
  "msgs k q \<equiv> mq_list (queues k q)"

lemma mq_full_iff: "mq_inv mq \<Longrightarrow> mq_free mq = None \<longleftrightarrow> length (mq_list mq) = mq_cap mq"
proof -
  assume "mq_inv mq"
  then obtain qs fs where w: "mq_wf mq qs fs" by (auto simp: mq_inv_def)
  show ?thesis using mq_free_None [OF w] mq_wf_length [OF w] by (auto simp: mq_list_wf [OF w] mq_cap_def)
qed

lemma mq_empty_iff: "mq_inv mq \<Longrightarrow> mq_entry mq = 0 \<longleftrightarrow> mq_list mq = []"
proof -
  assume "mq_inv mq"
  then obtain qs fs where w: "mq_wf mq qs fs" by (auto simp: mq_inv_def)
  have "unat (mq_entry mq) = length qs" using w by (simp add: mq_wf_def)
  then show ?thesis unfolding mq_list_wf [OF w] by (metis length_0_conv map_is_Nil_conv unat_0_iff)
qed

lemma mq_send_pass_refines:
  assumes s: "sinv k" and i: "is_mq q k" and c: "current k \<noteq> None"
    and cl: "timeout \<noteq> 0 \<longrightarrow> caller t k" and to: "0 < sint timeout \<longrightarrow> timeout < RT_TICK_MAX_HALF"
    and b: "unat sz \<le> length buffer" "unat sz \<le> unat (msg_size (queues k q))"
    and g: "length (msgs k q) < mq_cap (queues k q) \<or> timeout \<noteq> 0"
  shows "\<exists>oc k'. mq_send_pass q buffer sz timeout k = Some (oc, k') \<and> sinv k' \<and> is_mq q k' \<and>
     current k' \<noteq> None \<and> msg_size (queues k' q) = msg_size (queues k q) \<and>
     (if length (msgs k q) < mq_cap (queues k q)
      then oc = Returns RT_EOK None \<and>
           (\<exists>old. length old = unat (msg_size (queues k q)) \<and>
              msgs k' q = msgs k q @ [take (unat sz) buffer @ drop (unat sz) old]) \<and>
           (lists k (Suspended_on (Obj_Mq q)) \<noteq> [] \<longrightarrow> runnable k' (hd (lists k (Suspended_on (Obj_Mq q)))))
      else oc = Waits \<and> queues k' = queues k \<and> tstat k' t = RT_THREAD_SUSPEND \<and>
           t \<in> set (lists k' (Senders_of (Obj_Mq q))))"
proof (cases "length (msgs k q) < mq_cap (queues k q)")
  case True
  have inv: "mq_inv (queues k q)" using i by (simp add: is_mq_def)
  then have w: "mq_wf (queues k q) (mq_blocks (queues k q)) (mq_frees (queues k q))" by (simp add: mq_inv_def)
  obtain msg where f: "mq_free (queues k q) = Some msg" using True mq_full_iff [OF inv] by force
  obtain mq old where mq: "mq_put msg buffer sz (queues k q) = Some (True, mq)" "mq_inv mq"
      "length old = unat (msg_size (queues k q))" "mq_list mq = msgs k q @ [take (unat sz) buffer @ drop (unat sz) old]"
      "msg_size mq = msg_size (queues k q)"
    using mq_put_list [OF w f b] by blast
  let ?k1 = "upd_mq q (\<lambda>_. mq) k"
  have s1: "sinv ?k1" using s sinv_cong [of ?k1 k] by simp
  obtain k' where k': "ipc_wake_first (Suspended_on (Obj_Mq q)) ?k1 = Some k'" "sinv k'"
      "woken (Suspended_on (Obj_Mq q)) ?k1 k'"
    using ipc_wake_first_ok [OF s1, of "Suspended_on (Obj_Mq q)"] c by auto
  have fr: "queues k' = queues ?k1" "objs k' (Obj_Mq q) = objs k (Obj_Mq q)" "current k' \<noteq> None"
    "lists k (Suspended_on (Obj_Mq q)) \<noteq> [] \<longrightarrow> runnable k' (hd (lists k (Suspended_on (Obj_Mq q))))"
    using k'(3) by (auto simp: woken_def ipc_frame_def)
  have "mq_send_pass q buffer sz timeout k = Some (Returns RT_EOK None, k')"
    using f mq(1) k'(1) by (simp add: mq_send_pass_def)
  moreover have "is_mq q k'" using i mq(2) fr by (simp add: is_mq_def rt_object_get_type_def)
  ultimately show ?thesis using True k'(2) fr mq by auto
next
  case False
  have inv: "mq_inv (queues k q)" using i by (simp add: is_mq_def)
  have full: "mq_free (queues k q) = None"
    using False mqq.length_contents [OF inv] mq_full_iff [OF inv] by simp
  have ct: "caller t k" "timeout \<noteq> 0" using False g cl by auto
  have fl: "obj_flag (objs k (Obj_Mq q)) = RT_IPC_FLAG_FIFO \<or> obj_flag (objs k (Obj_Mq q)) = RT_IPC_FLAG_PRIO"
    using i by (simp add: is_mq_def)
  let ?h = "Senders_of (Obj_Mq q)"
  have h: "wait_head ?h" by simp
  obtain k' where k': "ipc_wait ?h (obj_flag (objs k (Obj_Mq q))) t timeout
        (In_mq_send q buffer sz timeout (tick k)) (upd_thread t (\<lambda>th. th\<lparr>thread_error := RT_EOK\<rparr>) k) = Some k'"
      "sinv k'" "ipc_frame k k'" "tstat k' t = RT_THREAD_SUSPEND" "current k' \<noteq> None"
      "lists k' ?h = insert_at (wait_pos (obj_flag (objs k (Obj_Mq q))) t ?h k) t (lists k ?h)"
    using wait_with_error_cleared [OF s ct(1) h fl to] by blast
  have "mq_send_pass q buffer sz timeout k = Some (Waits, k')"
    using full ct k'(1) by (simp add: mq_send_pass_def caller_def rt_thread_self_def Let_def)
  moreover have "is_mq q k'" using i k'(3) by (simp add: is_mq_def ipc_frame_def rt_object_get_type_def)
  ultimately show ?thesis using False k' by (simp add: ipc_frame_def)
qed

lemma mq_recv_pass_refines:
  assumes s: "sinv k" and i: "is_mq q k" and c: "current k \<noteq> None"
    and cl: "timeout \<noteq> 0 \<longrightarrow> caller t k" and to: "0 < sint timeout \<longrightarrow> timeout < RT_TICK_MAX_HALF"
    and b: "min (unat sz) (unat (msg_size (queues k q))) \<le> length buffer"
    and g: "msgs k q \<noteq> [] \<or> timeout \<noteq> 0"
  defines "n \<equiv> min (unat sz) (unat (msg_size (queues k q)))"
  shows "\<exists>oc k'. mq_recv_pass q buffer sz timeout k = Some (oc, k') \<and> sinv k' \<and> is_mq q k' \<and> current k' \<noteq> None \<and>
     (case msgs k q of
        x # rest \<Rightarrow> oc = Returns RT_EOK (Some (take n x @ drop n buffer)) \<and> msgs k' q = rest \<and>
           (lists k (Senders_of (Obj_Mq q)) \<noteq> [] \<longrightarrow> runnable k' (hd (lists k (Senders_of (Obj_Mq q)))))
      | [] \<Rightarrow> oc = Waits \<and> queues k' = queues k \<and> tstat k' t = RT_THREAD_SUSPEND \<and>
           t \<in> set (lists k' (Suspended_on (Obj_Mq q))))"
proof (cases "msgs k q")
  case (Cons x rest)
  have inv: "mq_inv (queues k q)" using i by (simp add: is_mq_def)
  then have w: "mq_wf (queues k q) (mq_blocks (queues k q)) (mq_frees (queues k q))" by (simp add: mq_inv_def)
  have ne: "mq_entry (queues k q) \<noteq> 0" using Cons mq_empty_iff [OF inv] by simp
  obtain mq where mq: "mq_get buffer sz (queues k q) = Some (take n x @ drop n buffer, mq)" "mq_inv mq" "mq_list mq = rest"
    using mq_get_list [OF w b Cons] unfolding n_def by blast
  let ?k1 = "upd_mq q (\<lambda>_. mq) k"
  have s1: "sinv ?k1" using s sinv_cong [of ?k1 k] by simp
  obtain k' where k': "ipc_wake_first (Senders_of (Obj_Mq q)) ?k1 = Some k'" "sinv k'"
      "woken (Senders_of (Obj_Mq q)) ?k1 k'"
    using ipc_wake_first_ok [OF s1, of "Senders_of (Obj_Mq q)"] c by auto
  have fr: "queues k' = queues ?k1" "objs k' (Obj_Mq q) = objs k (Obj_Mq q)" "current k' \<noteq> None"
    "lists k (Senders_of (Obj_Mq q)) \<noteq> [] \<longrightarrow> runnable k' (hd (lists k (Senders_of (Obj_Mq q))))"
    using k'(3) by (auto simp: woken_def ipc_frame_def)
  have "mq_recv_pass q buffer sz timeout k = Some (Returns RT_EOK (Some (take n x @ drop n buffer)), k')"
    using ne mq(1) k'(1) by (simp add: mq_recv_pass_def)
  moreover have "is_mq q k'" using i mq(2) fr by (simp add: is_mq_def rt_object_get_type_def)
  ultimately show ?thesis using Cons k'(2) fr mq(3) by simp
next
  case Nil
  have inv: "mq_inv (queues k q)" using i by (simp add: is_mq_def)
  have e: "mq_entry (queues k q) = 0" using Nil mq_empty_iff [OF inv] by blast
  have ct: "caller t k" "timeout \<noteq> 0" using Nil g cl by auto
  have fl: "obj_flag (objs k (Obj_Mq q)) = RT_IPC_FLAG_FIFO \<or> obj_flag (objs k (Obj_Mq q)) = RT_IPC_FLAG_PRIO"
    using i by (simp add: is_mq_def)
  let ?h = "Suspended_on (Obj_Mq q)"
  have h: "wait_head ?h" by simp
  obtain k' where k': "ipc_wait ?h (obj_flag (objs k (Obj_Mq q))) t timeout
        (In_mq_recv q buffer sz timeout (tick k)) (upd_thread t (\<lambda>th. th\<lparr>thread_error := RT_EOK\<rparr>) k) = Some k'"
      "sinv k'" "ipc_frame k k'" "tstat k' t = RT_THREAD_SUSPEND" "current k' \<noteq> None"
      "lists k' ?h = insert_at (wait_pos (obj_flag (objs k (Obj_Mq q))) t ?h k) t (lists k ?h)"
    using wait_with_error_cleared [OF s ct(1) h fl to] by blast
  have "mq_recv_pass q buffer sz timeout k = Some (Waits, k')"
    using e ct k'(1) by (simp add: mq_recv_pass_def caller_def rt_thread_self_def Let_def)
  moreover have "is_mq q k'" using i k'(3) by (simp add: is_mq_def ipc_frame_def rt_object_get_type_def)
  ultimately show ?thesis using Nil k' by (simp add: ipc_frame_def)
qed

lemma sample_mq_wf: "mq_wf (queues sample_kernel n) [] [1, 0]"
  by (auto simp: mq_wf_def sample_kernel_def)

lemma sample_mq:
  "is_mq n sample_kernel" "msgs sample_kernel n = []" "mq_cap (queues sample_kernel n) = 2"
  "msg_size (queues sample_kernel n) = 4" "current sample_kernel \<noteq> None"
proof -
  show "is_mq n sample_kernel" using mq_wf_unique(3) [OF sample_mq_wf [of n]]
    by (simp add: is_mq_def) (simp add: sample_kernel_def sample_object_def rt_object_get_type_def)
  show "msgs sample_kernel n = []" by (simp add: mq_list_wf [OF sample_mq_wf])
qed (simp_all add: sample_kernel_def mq_cap_def)

lemma sample_mq_waiter: "lists sample_kernel (Suspended_on (Obj_Mq 0)) = [6]"
  by (simp add: sample_kernel_def upt_rec)

section \<open>Properties\<close>

text \<open>
  C16.  \<open>rt_mq_send_wait\<close> on every branch: a message longer than a block is refused with
  \<open>-RT_ERROR\<close>; with a free block the bytes of the message go to the front of a new last
  message and the first waiting receiver can run; a full queue refuses with
  \<open>-RT_EFULL\<close> or makes the caller wait.  No block is lost and no queued message changes.
\<close>

theorem rt_mq_send_wait_correct:
  assumes "sinv k" "is_mq q k" "current k \<noteq> None" "sz \<noteq> 0" "unat sz \<le> length buffer"
    and "timeout \<noteq> 0 \<longrightarrow> caller t k" "0 < sint timeout \<longrightarrow> timeout < RT_TICK_MAX_HALF"
  shows "\<exists>oc k'. rt_mq_send_wait q buffer sz timeout k = Some (oc, k') \<and> sinv k' \<and> is_mq q k' \<and>
     (if unat (msg_size (queues k q)) < unat sz then oc = Returns (- RT_ERROR) None \<and> k' = k
      else if length (msgs k q) < mq_cap (queues k q)
      then oc = Returns RT_EOK None \<and>
           (\<exists>x. msgs k' q = msgs k q @ [x] \<and> length x = unat (msg_size (queues k q)) \<and>
                take (unat sz) x = take (unat sz) buffer) \<and>
           (lists k (Suspended_on (Obj_Mq q)) \<noteq> [] \<longrightarrow> runnable k' (hd (lists k (Suspended_on (Obj_Mq q)))))
      else msgs k' q = msgs k q \<and>
           (if timeout = 0 then oc = Returns (- RT_EFULL) None \<and> k' = k
            else oc = Waits \<and> tstat k' t = RT_THREAD_SUSPEND \<and> t \<in> set (lists k' (Senders_of (Obj_Mq q)))))"
proof (cases "unat (msg_size (queues k q)) < unat sz")
  case True
  then have "sz > ucast (msg_size (queues k q))" by (simp add: word_less_nat_alt)
  then show ?thesis using True assms(1-4,6) by (simp add: rt_mq_send_wait_def is_mq_def caller_def)
next
  case fits: False
  then have nb: "\<not> sz > ucast (msg_size (queues k q))" by (simp add: word_less_nat_alt)
  have inv: "mq_inv (queues k q)" using assms(2) by (simp add: is_mq_def)
  have sc: "timeout \<noteq> 0 \<longrightarrow> scheduler_available k" using assms(6) by (simp add: caller_def)
  show ?thesis
  proof (cases "length (msgs k q) < mq_cap (queues k q) \<or> timeout \<noteq> 0")
    case True
    have "\<not> (mq_free (queues k q) = None \<and> timeout = 0)" using True mq_full_iff [OF inv] by auto
    then have r: "rt_mq_send_wait q buffer sz timeout k = mq_send_pass q buffer sz timeout k"
      using assms(2,4) sc nb by (auto simp: rt_mq_send_wait_def is_mq_def)
    have fits': "unat sz \<le> unat (msg_size (queues k q))" using fits by simp
    from mq_send_pass_refines [OF assms(1-3,6,7,5) fits' True] show ?thesis
    proof (cases "length (msgs k q) < mq_cap (queues k q)")
      case room: True
      with mq_send_pass_refines [OF assms(1-3,6,7,5) fits' True] obtain k' old where
        "mq_send_pass q buffer sz timeout k = Some (Returns RT_EOK None, k')" "sinv k'" "is_mq q k'"
        "length old = unat (msg_size (queues k q))"
        "msgs k' q = msgs k q @ [take (unat sz) buffer @ drop (unat sz) old]"
        "lists k (Suspended_on (Obj_Mq q)) \<noteq> [] \<longrightarrow> runnable k' (hd (lists k (Suspended_on (Obj_Mq q))))"
        by auto
      then show ?thesis using r room fits assms(5) by auto
    qed (use r fits True in auto)
  next
    case False
    then have "mq_free (queues k q) = None" using mqq.length_contents [OF inv] mq_full_iff [OF inv] by simp
    then show ?thesis using False fits nb assms(1,2,4) by (simp add: rt_mq_send_wait_def is_mq_def)
  qed
qed

theorem rt_mq_send_wait_correct_witness:
  "\<exists>oc k'. rt_mq_send_wait 0 [1, 2, 3] 3 0 sample_kernel = Some (oc, k') \<and> oc = Returns RT_EOK None \<and>
     (\<exists>x. msgs k' 0 = [x] \<and> take 3 x = [1, 2, 3]) \<and> runnable k' 6"
  using rt_mq_send_wait_correct [OF sample_sinv sample_mq(1,5), of 3 "[1, 2, 3]" 0 0 0]
  by (auto simp: sample_mq sample_mq_waiter)

text \<open>
  \<open>rt_mq_recv\<close> on every branch: the oldest message leaves the queue, as many of its
  bytes as were asked for and fit go to the front of the caller's buffer, and the first
  waiting sender can run; an empty queue answers \<open>-RT_ETIMEOUT\<close> and changes nothing, or
  makes the caller wait.
\<close>

theorem rt_mq_recv_correct:
  assumes "sinv k" "is_mq q k" "current k \<noteq> None" "sz \<noteq> 0"
    and "min (unat sz) (unat (msg_size (queues k q))) \<le> length buffer"
    and "timeout \<noteq> 0 \<longrightarrow> caller t k" "0 < sint timeout \<longrightarrow> timeout < RT_TICK_MAX_HALF"
  shows "\<exists>oc k'. rt_mq_recv q buffer sz timeout k = Some (oc, k') \<and> sinv k' \<and> is_mq q k' \<and>
     (case msgs k q of
        x # rest \<Rightarrow> oc = Returns RT_EOK (Some (take (min (unat sz) (unat (msg_size (queues k q)))) x @
                             drop (min (unat sz) (unat (msg_size (queues k q)))) buffer)) \<and>
           msgs k' q = rest \<and>
           (lists k (Senders_of (Obj_Mq q)) \<noteq> [] \<longrightarrow> runnable k' (hd (lists k (Senders_of (Obj_Mq q)))))
      | [] \<Rightarrow> msgs k' q = [] \<and>
           (if timeout = 0 then oc = Returns (- RT_ETIMEOUT) None \<and> k' = k
            else oc = Waits \<and> tstat k' t = RT_THREAD_SUSPEND \<and> t \<in> set (lists k' (Suspended_on (Obj_Mq q)))))"
proof (cases "msgs k q \<noteq> [] \<or> timeout \<noteq> 0")
  case True
  have inv: "mq_inv (queues k q)" using assms(2) by (simp add: is_mq_def)
  have "\<not> (mq_entry (queues k q) = 0 \<and> timeout = 0)" using True mq_empty_iff [OF inv] by auto
  moreover have "timeout \<noteq> 0 \<longrightarrow> scheduler_available k" using assms(6) by (simp add: caller_def)
  ultimately have "rt_mq_recv q buffer sz timeout k = mq_recv_pass q buffer sz timeout k"
    using assms(2,4) by (auto simp: rt_mq_recv_def is_mq_def)
  then show ?thesis
    using mq_recv_pass_refines [OF assms(1-3,6,7,5) True] True by (cases "msgs k q") auto
next
  case False
  then have "mq_entry (queues k q) = 0" using mq_empty_iff assms(2) by (simp add: is_mq_def)
  then show ?thesis using False assms(1,2,4) by (simp add: rt_mq_recv_def is_mq_def)
qed

theorem rt_mq_recv_correct_witness:
  "\<exists>oc k'. rt_mq_recv 1 [0, 0, 0, 0] 4 (-1) sample_kernel = Some (oc, k') \<and> oc = Waits \<and>
     0 \<in> set (lists k' (Suspended_on (Obj_Mq 1)))"
  using rt_mq_recv_correct [OF sample_sinv sample_mq(1,5), of 4 1 "[0, 0, 0, 0]" "-1" 0] sample_caller
  by (auto simp: sample_mq)

text \<open>
  Round trip: a message sent to an empty queue comes back byte for byte from the next
  receive of the same size, and the queue is empty again.
\<close>

theorem mq_roundtrip:
  assumes "sinv k" "is_mq q k" "current k \<noteq> None" "msgs k q = []" "0 < mq_cap (queues k q)"
    and "sz \<noteq> 0" "unat sz \<le> unat (msg_size (queues k q))" "unat sz \<le> length buffer" "unat sz \<le> length buf"
  shows "\<exists>k' k''. rt_mq_send q buffer sz k = Some (Returns RT_EOK None, k') \<and>
     rt_mq_recv q buf sz 0 k' = Some (Returns RT_EOK (Some (take (unat sz) buffer @ drop (unat sz) buf)), k'') \<and>
     sinv k'' \<and> msgs k'' q = []"
proof -
  have inv: "mq_inv (queues k q)" using assms(2) by (simp add: is_mq_def)
  have room: "length (msgs k q) < mq_cap (queues k q)" using assms(4,5) by simp
  have "mq_free (queues k q) \<noteq> None" using mq_full_iff [OF inv] room by simp
  moreover have "\<not> sz > ucast (msg_size (queues k q))" using assms(7) by (simp add: word_less_nat_alt)
  ultimately have s: "rt_mq_send q buffer sz k = mq_send_pass q buffer sz 0 k"
    using assms(2,6) by (auto simp: rt_mq_send_def rt_mq_send_wait_def is_mq_def)
  obtain k' old where k': "mq_send_pass q buffer sz 0 k = Some (Returns RT_EOK None, k')" "sinv k'" "is_mq q k'"
      "current k' \<noteq> None" "msg_size (queues k' q) = msg_size (queues k q)"
      "msgs k' q = [take (unat sz) buffer @ drop (unat sz) old]"
    using mq_send_pass_refines [OF assms(1-3) _ _ assms(8,7), of 0 0] room assms(4) by auto
  have n: "min (unat sz) (unat (msg_size (queues k' q))) = unat sz" using k'(5) assms(7) by simp
  have inv': "mq_inv (queues k' q)" using k'(3) by (simp add: is_mq_def)
  have "mq_entry (queues k' q) \<noteq> 0" using mq_empty_iff [OF inv'] k'(6) by simp
  then have "rt_mq_recv q buf sz 0 k' = mq_recv_pass q buf sz 0 k'"
    using k'(3) assms(6) by (simp add: rt_mq_recv_def is_mq_def)
  moreover obtain k'' where "mq_recv_pass q buf sz 0 k' =
        Some (Returns RT_EOK (Some (take (unat sz) (take (unat sz) buffer @ drop (unat sz) old) @ drop (unat sz) buf)), k'')"
      "sinv k''" "msgs k'' q = []"
    using mq_recv_pass_refines [OF k'(2,3,4), of 0 0 sz buf] k'(6) n assms(9) by auto
  ultimately show ?thesis using s k'(1) assms(8) by (simp add: min_def)
qed

theorem mq_roundtrip_witness:
  "\<exists>k' k''. rt_mq_send 1 [7, 8, 9] 3 sample_kernel = Some (Returns RT_EOK None, k') \<and>
     rt_mq_recv 1 [0, 0, 0, 0] 3 0 k' = Some (Returns RT_EOK (Some [7, 8, 9, 0]), k'') \<and> msgs k'' 1 = []"
  using mq_roundtrip [OF sample_sinv sample_mq(1,5,2), of 1 3 "[7, 8, 9]" "[0, 0, 0, 0]"]
  by (auto simp: sample_mq)

text \<open>
  Any sequence of full-size sends and receives that do not wait keeps the messages in
  order and never exceeds the number of blocks.
\<close>

theorem messagequeue_fifo:
  assumes "mq_inv mq" "\<forall>x. Enq x \<in> set ops \<longrightarrow> length x = unat (msg_size mq)"
  shows "\<exists>ins outs mq'. qrun mq_enq mq_deq ops mq = Some (ins, outs, mq') \<and> mq_inv mq' \<and>
           mq_list mq @ ins = outs @ mq_list mq' \<and> length (mq_list mq') \<le> mq_cap mq"
  using mqq.qrun_fifo [OF assms(1), of ops] assms(2) unfolding mq_admits_def by blast

theorem messagequeue_fifo_witness:
  "\<exists>ins outs mq'. qrun mq_enq mq_deq [Enq [1, 2, 3, 4], Deq, Enq [5, 6, 7, 8]] (queues sample_kernel 0) =
       Some (ins, outs, mq') \<and> ins = outs @ mq_list mq'"
proof -
  have "mq_inv (queues sample_kernel 0)" using sample_mq(1) [of 0] by (simp add: is_mq_def)
  from messagequeue_fifo [OF this, of "[Enq [1, 2, 3, 4], Deq, Enq [5, 6, 7, 8]]"] show ?thesis
    by (auto simp: sample_mq)
qed

text \<open>
  Initialising a queue over a pool gives an empty queue with every block free, and the
  blocks with their headers fit into the pool, whatever sizes are passed.
\<close>

theorem rt_mq_init_correct:
  assumes "rt_mq_init q name pool msize pool_size flag k = Some (e, k')"
    and "\<forall>b. length (pool b) = unat (msg_size (queues k' q))"
  shows "e = RT_EOK \<and> mq_inv (queues k' q) \<and> msgs k' q = [] \<and>
     length (mq_frees (queues k' q)) = mq_cap (queues k' q) \<and>
     mq_cap (queues k' q) * (unat (msg_size (queues k' q)) + 4) \<le> unat pool_size"
proof -
  define ms where "ms = (ucast (RT_ALIGN msize 4) :: u16)"
  define n where "n = (ucast (pool_size div (ucast ms + 4)) :: u16)"
  have q: "queues k' q = mq_setup ms n pool"
    using assms(1) by (auto simp: rt_mq_init_def Let_def ms_def n_def ipc_list_init_def bind_eq_Some_conv)
  have sz: "msg_size (queues k' q) = ms" "max_msgs (queues k' q) = n"
    by (simp_all add: q mq_setup_def mq_free_loop_fields)
  have w: "mq_wf (queues k' q) [] (rev [0..<unat n])" unfolding q by (rule mq_setup_wf) (use assms(2) sz in simp)
  note iv = mq_wf_unique(3) [OF w] and l = mq_list_wf [OF w]
  have "unat (ucast ms + 4 :: u32) = unat ms + 4"
  proof -
    have "unat ms < 2 ^ 16" using unsigned_less [of ms] by simp
    then show ?thesis by (subst unat_word_ariths) simp
  qed
  then have d: "unat (pool_size div (ucast ms + 4)) = unat pool_size div (unat ms + 4)" by (simp add: unat_div)
  have "unat n \<le> unat (pool_size div (ucast ms + 4))"
    unfolding n_def by (simp add: unsigned_ucast_eq take_bit_nat_less_eq_self)
  then have "unat n * (unat ms + 4) \<le> unat pool_size"
    unfolding d by (meson div_times_less_eq_dividend le_trans mult_le_mono1)
  moreover have "e = RT_EOK" using assms(1) by (auto simp: rt_mq_init_def Let_def bind_eq_Some_conv)
  ultimately show ?thesis
    using iv l sz mq_wf_unique(2) [OF w] by (simp add: mq_cap_def)
qed

theorem rt_mq_init_correct_witness:
  "\<exists>k'. rt_mq_init 3 ''mq'' (\<lambda>_. replicate 8 0) 6 30 0 sample_kernel = Some (RT_EOK, k') \<and>
     mq_inv (queues k' 3) \<and> msgs k' 3 = [] \<and> mq_cap (queues k' 3) = 2"
proof -
  obtain k2 where s: "rt_schedule sample_kernel = Some k2" "sched_rel sample_kernel k2"
    using rt_schedule_sinv [OF sample_sinv sample_mq(5)] by blast
  note fr = sched_rel_frame [OF s(2)] and ls = sched_rel_lists [OF s(2)]
  have l0: "lists sample_kernel (Suspended_on (Obj_Mq 3)) = []" "lists sample_kernel (Senders_of (Obj_Mq 3)) = []"
    "lock_nest sample_kernel = 0" "containers sample_kernel = (\<lambda>_. [])" "sample_kernel\<lparr>lock_nest := 0\<rparr> = sample_kernel"
    by (simp_all add: sample_kernel_def upt_rec)
  obtain k' where k': "rt_mq_init 3 ''mq'' (\<lambda>_. replicate 8 0) 6 30 0 sample_kernel = Some (RT_EOK, k')"
      "queues k' 3 = mq_setup 8 2 (\<lambda>_. replicate 8 0)"
    using s(1) l0 sample_mq(5)
    by (auto simp: rt_mq_init_def rt_object_init_def rt_object_get_information_def object_container_def
        rt_enter_critical_def rt_exit_critical_def ipc_object_init_def ipc_list_init_def ls RT_ALIGN_def)
  have sz: "msg_size (queues k' 3) = 8" "max_msgs (queues k' 3) = 2"
    by (simp_all add: k'(2) mq_setup_def mq_free_loop_fields)
  from rt_mq_init_correct [OF k'(1)] sz k'(1) show ?thesis by (simp add: mq_cap_def)
qed

end
