(* ===== verification/Mempool.thy ===== *)
theory Mempool
  imports Sample Block_Chain
begin

text \<open>
  \<^verbatim>\<open>rt-thread/src/mempool.c\<close>: pools of blocks of one size.  A free block holds the
  address of the next free block in its header word, an allocated one the address of its
  pool.  Block \<open>b\<close> lies at offset \<open>b * (block_size + 4)\<close>.
\<close>

section \<open>Operations\<close>

abbreviation upd_mp :: "nat \<Rightarrow> (rt_mempool \<Rightarrow> rt_mempool) \<Rightarrow> kernel \<Rightarrow> kernel" where
  "upd_mp p f k \<equiv> k\<lparr>pools := (pools k)(p := f (pools k p))\<rparr>"

text \<open>The loop that chains every block to its successor.\<close>

fun mp_chain_loop :: "nat \<Rightarrow> nat \<Rightarrow> (nat \<Rightarrow> block_header) \<Rightarrow> (nat \<Rightarrow> block_header)" where
  "mp_chain_loop offset 0 hdr = hdr"
| "mp_chain_loop offset (Suc n) hdr =
     mp_chain_loop (Suc offset) n (hdr(offset := Next_block (Some (Suc offset))))"

text \<open>
  With no block at all the last store of the loop's epilogue goes before the start of the
  pool: no result.
\<close>

definition mp_setup :: "u32 \<Rightarrow> u32 \<Rightarrow> u32 \<Rightarrow> rt_mempool option" where
  "mp_setup sz bsize count =
     do {
       let hdr = mp_chain_loop 0 (unat count) (\<lambda>_. Next_block None);
       rt_assert (unat count \<noteq> 0);
       Some \<lparr>mp_size = sz, mp_block_size = bsize, block_list = Some 0,
             block_header = hdr(unat count - 1 := Next_block None),
             block_total_count = count, block_free_count = count\<rparr>
     }"

definition rt_mp_init :: "nat \<Rightarrow> string \<Rightarrow> u32 \<Rightarrow> u32 \<Rightarrow> kernel \<Rightarrow> (rt_err \<times> kernel) option" where
  "rt_mp_init p name sz bsize k =
     do {
       rt_assert (sz > 0 \<and> bsize > 0);
       k1 \<leftarrow> rt_object_init (Obj_Mp p) Class_MemPool name k;
       let psz = RT_ALIGN_DOWN sz 4;
       let bs = RT_ALIGN bsize 4;
       k2 \<leftarrow> ipc_list_init (Suspended_on (Obj_Mp p)) k1;
       mp \<leftarrow> mp_setup psz bs (psz div (bs + 4));
       Some (RT_EOK, upd_mp p (\<lambda>_. mp) k2)
     }"

text \<open>The loop that wakes all waiters is the one of \<open>_ipc_list_resume_all\<close>.\<close>

definition rt_mp_detach :: "nat \<Rightarrow> kernel \<Rightarrow> (rt_err \<times> kernel) option" where
  "rt_mp_detach p k =
     do {
       rt_assert (rt_object_get_type (Obj_Mp p) k = class_code Class_MemPool);
       rt_assert (rt_object_is_systemobject (Obj_Mp p) k);
       k1 \<leftarrow> ipc_list_resume_all (Suspended_on (Obj_Mp p)) k;
       Some (RT_EOK, rt_object_detach (Obj_Mp p) k1)
     }"

definition rt_mp_create ::
    "nat option \<Rightarrow> bool \<Rightarrow> string \<Rightarrow> u32 \<Rightarrow> u32 \<Rightarrow> kernel \<Rightarrow> (nat option \<times> kernel) option" where
  "rt_mp_create mem start name count bsize k =
     do {
       rt_assert (rt_interrupt_get_nest k = 0);
       rt_assert (count > 0 \<and> bsize > 0);
       (ob, k1) \<leftarrow> rt_object_allocate (map_option Obj_Mp mem) Class_MemPool name k;
       (case mem of
          None \<Rightarrow> Some (None, k1)
        | Some p \<Rightarrow>
            let bs = RT_ALIGN bsize 4 in
            if start then
              do {
                k2 \<leftarrow> ipc_list_init (Suspended_on (Obj_Mp p)) k1;
                mp \<leftarrow> mp_setup ((bs + 4) * count) bs count;
                Some (Some p, upd_mp p (\<lambda>_. mp) k2)
              }
            else do { k2 \<leftarrow> rt_object_delete (Obj_Mp p) k1; Some (None, k2) })
     }"

definition rt_mp_delete :: "nat \<Rightarrow> kernel \<Rightarrow> (rt_err \<times> kernel) option" where
  "rt_mp_delete p k =
     do {
       rt_assert (rt_interrupt_get_nest k = 0);
       rt_assert (rt_object_get_type (Obj_Mp p) k = class_code Class_MemPool);
       rt_assert (\<not> rt_object_is_systemobject (Obj_Mp p) k);
       k1 \<leftarrow> ipc_list_resume_all (Suspended_on (Obj_Mp p)) k;
       k2 \<leftarrow> rt_object_delete (Obj_Mp p) k1;
       Some (RT_EOK, k2)
     }"

text \<open>
  \<open>rt_set_errno\<close> of \<^verbatim>\<open>rt-thread/src/kservice.c\<close>; the error number used outside of
  threads is not part of the state.
\<close>

definition rt_set_errno :: "rt_err \<Rightarrow> kernel \<Rightarrow> kernel" where
  "rt_set_errno err k =
     (if rt_interrupt_get_nest k \<noteq> 0 then k
      else case rt_thread_self k of
             None \<Rightarrow> k
           | Some t \<Rightarrow> upd_thread t (\<lambda>th. th\<lparr>thread_error := err\<rparr>) k)"

definition mp_take :: "nat \<Rightarrow> rt_mempool \<Rightarrow> (nat \<times> rt_mempool) option" where
  "mp_take p mp =
     do {
       let mp1 = mp\<lparr>block_free_count := block_free_count mp - 1\<rparr>;
       b \<leftarrow> block_list mp1;
       (case block_header mp1 b of
          Next_block nx \<Rightarrow>
            Some (b, mp1\<lparr>block_list := nx, block_header := (block_header mp1)(b := Owner_pool p)\<rparr>)
        | Owner_pool _ \<Rightarrow> None)
     }"

definition mp_give :: "nat \<Rightarrow> rt_mempool \<Rightarrow> rt_mempool" where
  "mp_give b mp =
     (let mp1 = mp\<lparr>block_free_count := block_free_count mp + 1\<rparr> in
      mp1\<lparr>block_header := (block_header mp1)(b := Next_block (block_list mp1)),
          block_list := Some b\<rparr>)"

text \<open>
  One pass of the loop of \<open>rt_mp_alloc\<close> and what follows it.  A waiting thread is linked
  with \<open>rt_list_insert_after\<close>: at the front of the list.
\<close>

definition mp_alloc_pass :: "nat \<Rightarrow> s32 \<Rightarrow> kernel \<Rightarrow> (nat outcome \<times> kernel) option" where
  "mp_alloc_pass p time k =
     (if block_free_count (pools k p) = 0 then
        (if time = 0 then Some (Returns RT_EOK None, rt_set_errno (- RT_ETIMEOUT) k)
         else
           do {
             rt_assert (rt_interrupt_get_nest k = 0);
             t \<leftarrow> rt_thread_self k;
             let k1 = upd_thread t (\<lambda>th. th\<lparr>thread_error := RT_EOK\<rparr>) k;
             (_, k2) \<leftarrow> rt_thread_suspend t k1;
             k3 \<leftarrow> list_insert_after (Suspended_on (Obj_Mp p)) t k2;
             k4 \<leftarrow> (if sint time > 0 then thread_arm t time k3 else Some k3);
             k5 \<leftarrow> rt_schedule (k4\<lparr>saved := (saved k4)(t := In_mp_alloc p time (tick k4))\<rparr>);
             Some (Waits, k5)
           })
      else
        do {
          (b, mp) \<leftarrow> mp_take p (pools k p);
          Some (Returns RT_EOK (Some b), upd_mp p (\<lambda>_. mp) k)
        })"

definition rt_mp_alloc :: "nat \<Rightarrow> s32 \<Rightarrow> kernel \<Rightarrow> (nat outcome \<times> kernel) option" where
  "rt_mp_alloc p time k = mp_alloc_pass p time k"

definition rt_mp_alloc_resume ::
    "tid \<Rightarrow> nat \<Rightarrow> s32 \<Rightarrow> u32 \<Rightarrow> kernel \<Rightarrow> (nat outcome \<times> kernel) option" where
  "rt_mp_alloc_resume t p time before_sleep k =
     (let k1 = finish_call t k in
      if thread_error (threads k1 t) \<noteq> RT_EOK then Some (Returns RT_EOK None, k1)
      else mp_alloc_pass p (timeout_left time before_sleep k1) k1)"

text \<open>
  \<open>rt_mp_free\<close> of block \<open>b\<close> of pool \<open>p\<close>: the header says which pool to return it to.
\<close>

definition rt_mp_free :: "nat \<Rightarrow> nat \<Rightarrow> kernel \<Rightarrow> kernel option" where
  "rt_mp_free p b k =
     (case block_header (pools k p) b of
        Next_block _ \<Rightarrow> None
      | Owner_pool p' \<Rightarrow>
          if p' \<noteq> p then None
          else
            let k1 = upd_mp p (mp_give b) k in
            case lists k1 (Suspended_on (Obj_Mp p)) of
              [] \<Rightarrow> Some k1
            | t # _ \<Rightarrow>
                do {
                  let k2 = upd_thread t (\<lambda>th. th\<lparr>thread_error := RT_EOK\<rparr>) k1;
                  (_, k3) \<leftarrow> rt_thread_resume t k2;
                  rt_schedule k3
                })"

section \<open>The free list\<close>

definition mp_next :: "rt_mempool \<Rightarrow> nat \<Rightarrow> nat option" where
  "mp_next mp b = (case block_header mp b of Next_block n \<Rightarrow> n | Owner_pool _ \<Rightarrow> None)"

text \<open>
  The free blocks form a chain of link headers, all other blocks name their pool, and the
  counter is the length of the chain.
\<close>

definition mp_wf :: "nat \<Rightarrow> rt_mempool \<Rightarrow> nat list \<Rightarrow> bool" where
  "mp_wf p mp fs \<longleftrightarrow>
     chain (mp_next mp) (block_list mp) fs \<and> distinct fs \<and> set fs \<subseteq> {..<unat (block_total_count mp)} \<and>
     (\<forall>b<unat (block_total_count mp). case block_header mp b of
        Next_block _ \<Rightarrow> b \<in> set fs | Owner_pool p' \<Rightarrow> p' = p \<and> b \<notin> set fs) \<and>
     unat (block_free_count mp) = length fs"

definition mp_frees :: "rt_mempool \<Rightarrow> nat list" where
  "mp_frees mp = walk (unat (block_total_count mp)) (mp_next mp) (block_list mp)"

definition mp_used :: "rt_mempool \<Rightarrow> nat set" where
  "mp_used mp = {..<unat (block_total_count mp)} - set (mp_frees mp)"

definition mp_inv :: "nat \<Rightarrow> rt_mempool \<Rightarrow> bool" where
  "mp_inv p mp \<longleftrightarrow> mp_wf p mp (mp_frees mp)"

lemma mp_wf_length: "mp_wf p mp fs \<Longrightarrow> length fs \<le> unat (block_total_count mp)"
proof -
  assume w: "mp_wf p mp fs"
  have "card (set fs) \<le> card {..<unat (block_total_count mp)}"
    using w by (intro card_mono) (auto simp: mp_wf_def)
  then show ?thesis using w by (simp add: mp_wf_def distinct_card)
qed

lemma mp_wf_unique:
  assumes "mp_wf p mp fs"
  shows "mp_frees mp = fs" "mp_inv p mp"
proof -
  show 1: "mp_frees mp = fs"
    using mp_wf_length [OF assms] assms by (auto simp: mp_frees_def mp_wf_def intro!: walk_chain)
  show "mp_inv p mp" using assms by (simp add: mp_inv_def 1)
qed

lemma mp_next_header:
  "block_header mp' = (block_header mp)(b := h) \<Longrightarrow>
   mp_next mp' = (mp_next mp)(b := (case h of Next_block n \<Rightarrow> n | Owner_pool _ \<Rightarrow> None))"
  by (auto simp: mp_next_def fun_eq_iff)

lemma mp_take_wf:
  assumes w: "mp_wf p mp (b # fs)"
  shows "\<exists>mp'. mp_take p mp = Some (b, mp') \<and> mp_wf p mp' fs \<and> block_total_count mp' = block_total_count mp"
proof -
  have b: "block_list mp = Some b" "chain (mp_next mp) (mp_next mp b) fs" "b < unat (block_total_count mp)"
    "b \<notin> set fs" "unat (block_free_count mp) = Suc (length fs)" "distinct fs" "set fs \<subseteq> {..<unat (block_total_count mp)}"
    using w by (auto simp: mp_wf_def)
  have all: "\<forall>c<unat (block_total_count mp). case block_header mp c of
      Next_block _ \<Rightarrow> c \<in> set (b # fs) | Owner_pool p' \<Rightarrow> p' = p \<and> c \<notin> set (b # fs)"
    using w by (simp add: mp_wf_def)
  obtain n where n: "block_header mp b = Next_block n"
    using all b(3) by (cases "block_header mp b") auto
  let ?mp = "mp\<lparr>block_free_count := block_free_count mp - 1, block_list := n,
      block_header := (block_header mp)(b := Owner_pool p)\<rparr>"
  have "mp_take p mp = Some (b, ?mp)" using b(1) n by (simp add: mp_take_def)
  moreover have "mp_wf p ?mp fs"
  proof -
    have "chain (mp_next ?mp) n fs"
      using b(2,4) n mp_next_header [of ?mp mp b "Owner_pool p"] by (simp add: mp_next_def [of mp b])
    moreover have "block_free_count mp \<noteq> 0" using b(5) by auto
    then have "unat (block_free_count mp - 1) = length fs" using b(5) by (simp add: unat_minus_one)
    moreover have "\<forall>c<unat (block_total_count mp). case block_header ?mp c of
      Next_block _ \<Rightarrow> c \<in> set fs | Owner_pool p' \<Rightarrow> p' = p \<and> c \<notin> set fs"
      using all b(4) by (auto split: block_header.splits)
    ultimately show ?thesis using b(6,7) by (simp add: mp_wf_def)
  qed
  ultimately show ?thesis by (intro exI [of _ ?mp]) simp
qed

lemma mp_give_wf:
  assumes w: "mp_wf p mp fs" and b: "b < unat (block_total_count mp)" "b \<notin> set fs"
  shows "mp_wf p (mp_give b mp) (b # fs)" "block_total_count (mp_give b mp) = block_total_count mp"
proof -
  show t: "block_total_count (mp_give b mp) = block_total_count mp" by (simp add: mp_give_def)
  have all: "\<forall>c<unat (block_total_count mp). case block_header mp c of
      Next_block _ \<Rightarrow> c \<in> set fs | Owner_pool p' \<Rightarrow> p' = p \<and> c \<notin> set fs"
    using w by (simp add: mp_wf_def)
  have "mp_next (mp_give b mp) = (mp_next mp)(b := block_list mp)"
    using mp_next_header [of "mp_give b mp" mp b "Next_block (block_list mp)"] by (simp add: mp_give_def)
  then have ch: "chain (mp_next (mp_give b mp)) (Some b) (b # fs)" using w b(2) by (simp add: mp_wf_def)
  have "card (set (b # fs)) \<le> card {..<unat (block_total_count mp)}"
    using w b by (intro card_mono) (auto simp: mp_wf_def)
  then have "Suc (length fs) \<le> unat (block_total_count mp)"
    using w b by (simp add: mp_wf_def distinct_card)
  moreover have "unat (block_total_count mp) < 2 ^ 32" using unsigned_less [of "block_total_count mp"] by simp
  ultimately have "Suc (length fs) < 2 ^ 32" by linarith
  then have "unat (block_free_count mp + 1) = Suc (length fs)"
    using w by (subst unat_add_one) (simp_all add: mp_wf_def)
  moreover have "\<forall>c<unat (block_total_count mp). case block_header (mp_give b mp) c of
      Next_block _ \<Rightarrow> c \<in> set (b # fs) | Owner_pool p' \<Rightarrow> p' = p \<and> c \<notin> set (b # fs)"
    using all by (auto simp: mp_give_def split: block_header.splits)
  ultimately show "mp_wf p (mp_give b mp) (b # fs)"
    using w b ch by (simp add: mp_wf_def t) (simp add: mp_give_def)
qed

text \<open>The guarded allocation, and the pool as an instance of the contract.\<close>

definition mp_alloc_block :: "nat \<Rightarrow> rt_mempool \<Rightarrow> (nat option \<times> rt_mempool) option" where
  "mp_alloc_block p mp = (if block_free_count mp = 0 then Some (None, mp)
                          else map_option (\<lambda>(b, mp'). (Some b, mp')) (mp_take p mp))"

lemma mp_count_0: "mp_inv p mp \<Longrightarrow> block_free_count mp = 0 \<longleftrightarrow> mp_frees mp = []"
  by (metis length_0_conv mp_inv_def mp_wf_def unat_0_iff)

interpretation mpp: block_pool "mp_inv p" mp_frees mp_used "mp_alloc_block p" mp_give for p
proof unfold_locales
  fix mp b bs assume i: "mp_inv p mp"
  then have w: "mp_wf p mp (mp_frees mp)" by (simp add: mp_inv_def)
  show "distinct (mp_frees mp)" using w by (simp add: mp_wf_def)
  show "set (mp_frees mp) \<inter> mp_used mp = {}" by (auto simp: mp_used_def)
  show "\<exists>q'. mp_alloc_block p mp = Some (Some b, q') \<and> mp_inv p q' \<and> mp_frees q' = bs \<and>
      mp_used q' = insert b (mp_used mp)" if f: "mp_frees mp = b # bs"
  proof -
    obtain mp' where mp': "mp_take p mp = Some (b, mp')" "mp_wf p mp' bs" "block_total_count mp' = block_total_count mp"
      using mp_take_wf w f by metis
    have "b < unat (block_total_count mp)" "b \<notin> set bs" using w f by (auto simp: mp_wf_def)
    then show ?thesis using mp' mp_wf_unique [OF mp'(2)] f mp_count_0 [OF i]
      by (auto simp: mp_alloc_block_def mp_used_def)
  qed
  show "mp_alloc_block p mp = Some (None, mp)" if "mp_frees mp = []"
    using that mp_count_0 [OF i] by (simp add: mp_alloc_block_def)
  show "mp_inv p (mp_give b mp) \<and> mp_frees (mp_give b mp) = b # mp_frees mp \<and>
      mp_used (mp_give b mp) = mp_used mp - {b}" if "b \<in> mp_used mp"
  proof -
    have b: "b < unat (block_total_count mp)" "b \<notin> set (mp_frees mp)" using that by (auto simp: mp_used_def)
    note g = mp_give_wf [OF w b]
    show ?thesis using mp_wf_unique [OF g(1)] g(2) by (auto simp: mp_used_def)
  qed
qed

subsection \<open>Creation\<close>

lemma mp_chain_loop_eq:
  "mp_chain_loop x n hdr b = (if x \<le> b \<and> b < x + n then Next_block (Some (Suc b)) else hdr b)"
  by (induction n arbitrary: x hdr) auto

lemma chain_upt:
  assumes "\<And>b. x \<le> b \<Longrightarrow> Suc b < y \<Longrightarrow> nx b = Some (Suc b)" "x < y" "nx (y - 1) = None"
  shows "chain nx (Some x) [x..<y]"
  using assms
proof (induction "y - x" arbitrary: x)
  case (Suc n)
  have u: "[x..<y] = x # [Suc x..<y]" using Suc.prems(2) by (simp add: upt_conv_Cons)
  show ?case
  proof (cases "Suc x = y")
    case True
    then show ?thesis using Suc.prems(3) u by auto
  next
    case False
    then have "chain nx (Some (Suc x)) [Suc x..<y]" using Suc.hyps Suc.prems by auto
    moreover have "nx x = Some (Suc x)" using False Suc.prems(1) [of x] Suc.prems(2) by simp
    ultimately show ?thesis using u by simp
  qed
qed simp

lemma mp_setup_wf:
  assumes "mp_setup sz bsize count = Some mp"
  shows "mp_wf p mp [0..<unat count]" "block_total_count mp = count" "mp_size mp = sz" "mp_block_size mp = bsize"
proof -
  have c: "unat count \<noteq> 0" and mp: "mp = \<lparr>mp_size = sz, mp_block_size = bsize, block_list = Some 0,
             block_header = (mp_chain_loop 0 (unat count) (\<lambda>_. Next_block None))(unat count - 1 := Next_block None),
             block_total_count = count, block_free_count = count\<rparr>"
    using assms by (auto simp: mp_setup_def Let_def)
  have "chain (mp_next mp) (Some 0) [0..<unat count]"
    by (rule chain_upt) (use c in \<open>auto simp: mp mp_next_def mp_chain_loop_eq\<close>)
  moreover have "\<exists>n. block_header mp b = Next_block n" if "b < unat count" for b
    using that by (simp add: mp mp_chain_loop_eq)
  moreover show t: "block_total_count mp = count" "mp_size mp = sz" "mp_block_size mp = bsize" by (simp_all add: mp)
  moreover have "block_list mp = Some 0" "block_free_count mp = count" by (simp_all add: mp)
  ultimately show "mp_wf p mp [0..<unat count]" unfolding mp_wf_def by (auto split: block_header.splits) (metis block_header.distinct(1))+
qed

section \<open>The calls\<close>

lemma mp_alloc_wait:
  assumes s: "sinv k" and c: "caller t k" and e: "block_free_count (pools k p) = 0" and tm: "time \<noteq> 0"
    and to: "0 < sint time \<longrightarrow> time < RT_TICK_MAX_HALF"
  shows "\<exists>k'. rt_mp_alloc p time k = Some (Waits, k') \<and> sinv k' \<and> pools k' = pools k \<and>
     tstat k' t = RT_THREAD_SUSPEND \<and> thread_error (threads k' t) = RT_EOK \<and>
     saved k' t = In_mp_alloc p time (tick k) \<and>
     lists k' (Suspended_on (Obj_Mp p)) = t # lists k (Suspended_on (Obj_Mp p))"
proof -
  let ?h = "Suspended_on (Obj_Mp p)"
  let ?k1 = "upd_thread t (\<lambda>th. th\<lparr>thread_error := RT_EOK\<rparr>) k"
  let ?k2 = "upd_thread t (set_stat RT_THREAD_SUSPEND) ?k1"
  let ?k3 = "(upd_thread t (tlist_update (\<lambda>_. Some ?h)) ?k2)\<lparr>lists := (lists ?k2)(?h := insert_at 0 t (lists ?k2 ?h))\<rparr>"
  have 1: "sinv ?k1" "current ?k1 = Some t" "tstat ?k1 t = RT_THREAD_RUNNING" using s c by (auto simp: caller_def)
  note sp = suspend_ok [OF 1]
  have h: "wait_head ?h" by simp
  note wi = wait_insert_ok [OF sp(2,4,3) h, of 0]
  have st: "tstat ?k3 t = RT_THREAD_SUSPEND" using sp(4) by simp
  have nt: "Thread_timer t \<notin> set (timer_list ?k3)" using sp(5) by simp
  have cu: "current ?k3 \<noteq> None" using 1 by simp
  obtain k' k4 where k': "(if sint time > 0 then thread_arm t time ?k3 else Some ?k3) = Some k4"
     "rt_schedule (k4\<lparr>saved := (saved k4)(t := In_mp_alloc p time (tick k))\<rparr>) = Some k'" "tick k4 = tick ?k3"
     "sinv k'" "ipc_frame ?k3 k'" "same_error ?k3 k'" "threads k' t = threads ?k3 t"
     "\<forall>h. wait_head h \<longrightarrow> lists k' h = lists ?k3 h"
     "saved k' = (saved ?k3)(t := In_mp_alloc p time (tick k))"
    using wait_tail_ok [OF wi(2) st cu nt, of time "In_mp_alloc p time (tick k)"] to by blast
  have tk: "tick k4 = tick k" using k'(3) by simp
  have "list_insert_after ?h t ?k2 = Some ?k3" unfolding list_insert_after_def by (rule wi(1))
  then have "rt_mp_alloc p time k =
      Option.bind (if sint time > 0 then thread_arm t time ?k3 else Some ?k3)
        (\<lambda>k4. Option.bind (rt_schedule (k4\<lparr>saved := (saved k4)(t := In_mp_alloc p time (tick k4))\<rparr>))
           (\<lambda>k5. Some (Waits, k5)))"
    using e tm c sp(1) by (simp add: rt_mp_alloc_def mp_alloc_pass_def Let_def caller_def rt_thread_self_def
        scheduler_available_def in_thread_context_def)
  then have "rt_mp_alloc p time k = Some (Waits, k')" unfolding k'(1) using k'(2) tk by simp
  moreover have "lists k' ?h = t # lists k ?h" using k'(8) h by simp
  ultimately show ?thesis using k'(4,5,6,7,9) st by (simp add: ipc_frame_def same_error_def)
qed

lemma mp_free_ok:
  assumes s: "sinv k" and c: "current k \<noteq> None" and i: "mp_inv p (pools k p)" and b: "b \<in> mp_used (pools k p)"
  shows "\<exists>k'. rt_mp_free p b k = Some k' \<and> sinv k' \<and> mp_inv p (pools k' p) \<and>
     mp_frees (pools k' p) = b # mp_frees (pools k p) \<and>
     lists k' (Suspended_on (Obj_Mp p)) = tl (lists k (Suspended_on (Obj_Mp p))) \<and>
     (\<forall>t ts. lists k (Suspended_on (Obj_Mp p)) = t # ts \<longrightarrow> runnable k' t \<and> thread_error (threads k' t) = RT_EOK) \<and>
     current k' \<noteq> None"
proof -
  let ?h = "Suspended_on (Obj_Mp p)"
  have w: "mp_wf p (pools k p) (mp_frees (pools k p))" using i by (simp add: mp_inv_def)
  have bb: "b < unat (block_total_count (pools k p))" "b \<notin> set (mp_frees (pools k p))"
    using b by (auto simp: mp_used_def)
  have own: "block_header (pools k p) b = Owner_pool p"
    using w bb by (cases "block_header (pools k p) b") (auto simp: mp_wf_def)
  note g = mpp.give [OF i b]
  let ?k1 = "upd_mp p (mp_give b) k"
  have s1: "sinv ?k1" using s sinv_cong [of ?k1 k] by simp
  show ?thesis
  proof (cases "lists k ?h")
    case Nil
    then show ?thesis using own g s1 c by (intro exI [of _ ?k1]) (simp add: rt_mp_free_def Let_def)
  next
    case (Cons t ts)
    let ?k2 = "upd_thread t (\<lambda>th. th\<lparr>thread_error := RT_EOK\<rparr>) ?k1"
    have s2: "sinv ?k2" using s1 by (simp only: set_error_sinv)
    have h: "wait_head ?h" by simp
    have l2: "lists ?k2 ?h = t # ts" "current ?k2 \<noteq> None" using Cons c by simp_all
    obtain k3 k' where k': "ipc_list_resume ?h ?k2 = Some k3" "rt_schedule k3 = Some k'" "sinv k'" "woken ?h ?k2 k'"
      using resume_schedule_ok [OF s2 h l2(2,1)] by blast
    have "rt_mp_free p b k = Some k'"
      using own Cons k'(1,2) by (auto simp: rt_mp_free_def Let_def ipc_list_resume_def bind_eq_Some_conv)
    moreover have "pools k' = pools ?k1" "lists k' ?h = ts" "runnable k' t" "thread_error (threads k' t) = RT_EOK"
      "current k' \<noteq> None"
      using k'(4) l2(1) by (simp_all add: woken_def ipc_frame_def same_error_def)
    ultimately show ?thesis using g k'(3) Cons by auto
  qed
qed

lemma sample_mp: "mp_wf 0 (pools sample_kernel 0) []" "mp_inv 0 (pools sample_kernel 0)"
  "mp_frees (pools sample_kernel 0) = []" "mp_used (pools sample_kernel 0) = {0, 1}"
  "lists sample_kernel (Suspended_on (Obj_Mp 0)) = [7]" "current sample_kernel \<noteq> None"
  "mp_frees (pools (upd_mp 0 (mp_give 1) sample_kernel) 0) = [1]"
proof -
  show w: "mp_wf 0 (pools sample_kernel 0) []" by (auto simp: mp_wf_def sample_kernel_def)
  show i: "mp_inv 0 (pools sample_kernel 0)" and f: "mp_frees (pools sample_kernel 0) = []"
    using mp_wf_unique [OF w] by simp_all
  show u: "mp_used (pools sample_kernel 0) = {0, 1}" unfolding mp_used_def f by (auto simp: sample_kernel_def)
  show "mp_frees (pools (upd_mp 0 (mp_give 1) sample_kernel) 0) = [1]" using mpp.give [OF i, of 1] u f by simp
qed (simp_all add: sample_kernel_def upt_rec)

section \<open>Properties\<close>

text \<open>
  \<open>rt_mp_alloc\<close> on every branch: it returns the first free block, which was not in use
  and now is; an exhausted pool gives no block and records \<open>-RT_ETIMEOUT\<close>, or makes the
  caller wait in front of the earlier waiters; the free list stays intact.
\<close>

theorem rt_mp_alloc_correct:
  assumes "sinv k" "mp_inv p (pools k p)" "caller t k" "0 < sint time \<longrightarrow> time < RT_TICK_MAX_HALF"
  shows "\<exists>oc k'. rt_mp_alloc p time k = Some (oc, k') \<and> sinv k' \<and> mp_inv p (pools k' p) \<and>
     (case mp_frees (pools k p) of
        b # bs \<Rightarrow> oc = Returns RT_EOK (Some b) \<and> mp_frees (pools k' p) = bs \<and>
          b \<notin> mp_used (pools k p) \<and> mp_used (pools k' p) = insert b (mp_used (pools k p))
      | [] \<Rightarrow> mp_frees (pools k' p) = [] \<and>
          (if time = 0 then oc = Returns RT_EOK None \<and> thread_error (threads k' t) = - RT_ETIMEOUT
           else oc = Waits \<and> tstat k' t = RT_THREAD_SUSPEND \<and> hd (lists k' (Suspended_on (Obj_Mp p))) = t))"
proof (cases "mp_frees (pools k p)")
  case Nil
  then have e: "block_free_count (pools k p) = 0" using mp_count_0 [OF assms(2)] by blast
  show ?thesis
  proof (cases "time = 0")
    case True
    have "rt_set_errno (- RT_ETIMEOUT) k = upd_thread t (\<lambda>th. th\<lparr>thread_error := - RT_ETIMEOUT\<rparr>) k"
      using assms(3) by (simp add: rt_set_errno_def caller_def scheduler_available_def in_thread_context_def
          rt_thread_self_def)
    then show ?thesis using Nil True e assms(1,2) by (simp add: rt_mp_alloc_def mp_alloc_pass_def)
  next
    case False
    from mp_alloc_wait [OF assms(1,3) e False assms(4)] obtain k' where
      "rt_mp_alloc p time k = Some (Waits, k')" "sinv k'" "pools k' = pools k"
      "tstat k' t = RT_THREAD_SUSPEND" "lists k' (Suspended_on (Obj_Mp p)) = t # lists k (Suspended_on (Obj_Mp p))"
      by blast
    then show ?thesis using Nil False assms(2) by simp
  qed
next
  case (Cons b bs)
  obtain mp where mp: "mp_alloc_block p (pools k p) = Some (Some b, mp)" "mp_inv p mp" "mp_frees mp = bs"
      "mp_used mp = insert b (mp_used (pools k p))"
    using mpp.take_some [OF assms(2) Cons] by blast
  have ne: "block_free_count (pools k p) \<noteq> 0" using mp_count_0 [OF assms(2)] Cons by simp
  then have "mp_take p (pools k p) = Some (b, mp)" using mp(1) by (auto simp: mp_alloc_block_def)
  then have "rt_mp_alloc p time k = Some (Returns RT_EOK (Some b), upd_mp p (\<lambda>_. mp) k)"
    using ne by (simp add: rt_mp_alloc_def mp_alloc_pass_def)
  moreover have "sinv (upd_mp p (\<lambda>_. mp) k)" using assms(1) sinv_cong [of "upd_mp p (\<lambda>_. mp) k" k] by simp
  moreover have "b \<notin> mp_used (pools k p)" using mpp.free_unused [OF assms(2)] Cons by auto
  ultimately show ?thesis using Cons mp by simp
qed

theorem rt_mp_alloc_correct_witness:
  "\<exists>oc k'. rt_mp_alloc 0 5 sample_kernel = Some (oc, k') \<and> oc = Waits \<and>
     hd (lists k' (Suspended_on (Obj_Mp 0))) = 0"
  using rt_mp_alloc_correct [OF sample_sinv sample_mp(2) sample_caller, of 5] by (auto simp: sample_mp)

text \<open>
  \<open>rt_mp_free\<close> puts an allocated block back as the first free one and wakes the first
  waiter, whose error is cleared so that it tries again.
\<close>

theorem rt_mp_free_correct:
  assumes "sinv k" "current k \<noteq> None" "mp_inv p (pools k p)" "b \<in> mp_used (pools k p)"
  shows "\<exists>k'. rt_mp_free p b k = Some k' \<and> sinv k' \<and> mp_inv p (pools k' p) \<and>
     mp_frees (pools k' p) = b # mp_frees (pools k p) \<and> b \<notin> mp_used (pools k' p) \<and>
     (\<forall>t ts. lists k (Suspended_on (Obj_Mp p)) = t # ts \<longrightarrow>
        runnable k' t \<and> lists k' (Suspended_on (Obj_Mp p)) = ts \<and>
        (\<exists>b' k''. rt_mp_alloc_resume t p time start k' = Some (Returns RT_EOK (Some b'), k'')))"
proof -
  obtain k' where k': "rt_mp_free p b k = Some k'" "sinv k'" "mp_inv p (pools k' p)"
     "mp_frees (pools k' p) = b # mp_frees (pools k p)"
     "lists k' (Suspended_on (Obj_Mp p)) = tl (lists k (Suspended_on (Obj_Mp p)))"
     "\<forall>t ts. lists k (Suspended_on (Obj_Mp p)) = t # ts \<longrightarrow> runnable k' t \<and> thread_error (threads k' t) = RT_EOK"
    using mp_free_ok [OF assms] by blast
  have "\<exists>b' k''. rt_mp_alloc_resume t p time start k' = Some (Returns RT_EOK (Some b'), k'')"
    if "thread_error (threads k' t) = RT_EOK" for t
  proof -
    have "mp_wf p (pools k' p) (b # mp_frees (pools k p))" using k'(3,4) by (simp add: mp_inv_def)
    then obtain mp where "mp_take p (pools k' p) = Some (b, mp)" using mp_take_wf by blast
    moreover have "block_free_count (pools k' p) \<noteq> 0" using mp_count_0 [OF k'(3)] k'(4) by simp
    ultimately show ?thesis using that
      by (simp add: rt_mp_alloc_resume_def mp_alloc_pass_def finish_call_def Let_def)
  qed
  moreover have "b \<notin> mp_used (pools k' p)" using mpp.free_unused [OF k'(3)] k'(4) by auto
  ultimately show ?thesis using k' by auto
qed

theorem rt_mp_free_correct_witness:
  "\<exists>k'. rt_mp_free 0 1 sample_kernel = Some k' \<and> mp_frees (pools k' 0) = [1] \<and> runnable k' 7"
  using rt_mp_free_correct [OF sample_sinv sample_mp(6,2), of 1] by (auto simp: sample_mp)

text \<open>
  C22.  No sequence of allocations and releases hands out a block that is still held, and no
  block is ever lost: the blocks held by the client are pairwise different, disjoint from the
  free ones, and together with them are the blocks held or free at the start.
\<close>

theorem mempool_no_double_allocation:
  assumes "mp_inv p mp"
  shows "\<exists>live mp'. prun (mp_alloc_block p) mp_give ops [] mp = Some (live, mp') \<and> mp_inv p mp' \<and>
     distinct live \<and> set live \<inter> set (mp_frees mp') = {} \<and> set live \<union> set (mp_frees mp') = set (mp_frees mp)"
  using mpp.prun_ok [OF assms, of "[]" ops] by auto

theorem mempool_no_double_allocation_witness:
  "\<exists>live mp'. prun (mp_alloc_block 0) mp_give [Take, Give 1, Take] [] (mp_give 1 (pools sample_kernel 0)) =
       Some (live, mp') \<and> distinct live \<and> set live \<union> set (mp_frees mp') = {1}"
proof -
  have "mp_inv 0 (mp_give 1 (pools sample_kernel 0))" "mp_frees (mp_give 1 (pools sample_kernel 0)) = [1]"
    using mpp.give [OF sample_mp(2), of 1] sample_mp by simp_all
  with mempool_no_double_allocation [of 0 "mp_give 1 (pools sample_kernel 0)" "[Take, Give 1, Take]"]
  show ?thesis by auto
qed

text \<open>
  Initialising a pool makes every block free, and the blocks with their headers fit into
  the memory that was passed.
\<close>

theorem rt_mp_init_correct:
  assumes "rt_mp_init p name sz bsize k = Some (e, k')" "unat bsize \<le> 0xfffffff0"
  shows "e = RT_EOK \<and> mp_inv p (pools k' p) \<and> mp_used (pools k' p) = {} \<and> mp_frees (pools k' p) \<noteq> [] \<and>
     length (mp_frees (pools k' p)) * (unat (mp_block_size (pools k' p)) + 4) \<le> unat sz \<and>
     unat bsize \<le> unat (mp_block_size (pools k' p))"
proof -
  let ?ps = "RT_ALIGN_DOWN sz 4" and ?bs = "RT_ALIGN bsize 4"
  obtain mp where mp: "mp_setup ?ps ?bs (?ps div (?bs + 4)) = Some mp" "pools k' p = mp" "e = RT_EOK"
    using assms(1) by (auto simp: rt_mp_init_def Let_def bind_eq_Some_conv)
  note st = mp_setup_wf(1) [OF mp(1), of p] mp_setup_wf(2-4) [OF mp(1)]
  have f: "mp_frees mp = [0..<unat (?ps div (?bs + 4))]" "mp_inv p mp" using mp_wf_unique [OF st(1)] by simp_all
  have nz: "unat (?ps div (?bs + 4)) \<noteq> 0" using mp(1) by (auto simp: mp_setup_def Let_def)
  have "unat ?bs = (unat bsize + 3) div 4 * 4" using assms(2) by (intro unat_RT_ALIGN) simp
  then have al: "unat ?bs \<le> unat bsize + 3" "unat bsize \<le> unat ?bs" by linarith+
  have "unat (?bs + 4) = unat ?bs + 4" using al(1) assms(2) by (subst unat_word_ariths) simp
  then have "unat (?ps div (?bs + 4)) * (unat ?bs + 4) \<le> unat ?ps" by (simp add: unat_div)
  also have "\<dots> \<le> unat sz" by (simp add: unat_RT_ALIGN_DOWN)
  finally show ?thesis using mp f st al(2) nz by (auto simp: mp_used_def)
qed

theorem rt_mp_init_correct_witness:
  "\<exists>k'. rt_mp_init 3 ''mp'' 30 6 sample_kernel = Some (RT_EOK, k') \<and> mp_used (pools k' 3) = {} \<and>
     length (mp_frees (pools k' 3)) * (unat (mp_block_size (pools k' 3)) + 4) \<le> 30"
proof -
  obtain k2 where s: "rt_schedule sample_kernel = Some k2" "sched_rel sample_kernel k2"
    using rt_schedule_sinv [OF sample_sinv sample_mp(6)] by blast
  note fr = sched_rel_frame [OF s(2)] and ls = sched_rel_lists [OF s(2)]
  have l0: "lists sample_kernel (Suspended_on (Obj_Mp 3)) = []" "lock_nest sample_kernel = 0"
    "containers sample_kernel = (\<lambda>_. [])" "sample_kernel\<lparr>lock_nest := 0\<rparr> = sample_kernel"
    by (simp_all add: sample_kernel_def upt_rec)
  obtain k' where k': "rt_mp_init 3 ''mp'' 30 6 sample_kernel = Some (RT_EOK, k')"
    using s(1) l0 sample_mp(6)
    by (auto simp: rt_mp_init_def rt_object_init_def rt_object_get_information_def object_container_def
        rt_enter_critical_def rt_exit_critical_def ipc_list_init_def ls RT_ALIGN_def RT_ALIGN_DOWN_def mp_setup_def Let_def)
  from rt_mp_init_correct [OF this] k' show ?thesis by simp
qed

end
