(* ===== verification/Completion.thy ===== *)
theory Completion
  imports Sample
begin

text \<open>
  Completions (\<open>components/drivers/ipc/completion.c\<close>): a flag that one thread waits for and that
  interrupt handlers or other threads set.  The part of \<open>rt_completion_wait\<close> after the wait is
  \<open>rt_completion_wait_finish\<close>.  The abstract completion is a pair of the flag and the waiting thread.
\<close>

section \<open>Operations\<close>

abbreviation (input) RT_COMPLETED :: u32 where "RT_COMPLETED \<equiv> 1"
abbreviation (input) RT_UNCOMPLETED :: u32 where "RT_UNCOMPLETED \<equiv> 0"

abbreviation cpl :: "kernel \<Rightarrow> nat \<Rightarrow> rt_completion" where
  "cpl k c \<equiv> completions (devipc k) c"

abbreviation upd_comp :: "nat \<Rightarrow> (rt_completion \<Rightarrow> rt_completion) \<Rightarrow> kernel \<Rightarrow> kernel" where
  "upd_comp c f k \<equiv>
     k\<lparr>devipc := (devipc k)\<lparr>completions := (completions (devipc k))(c := f (completions (devipc k) c))\<rparr>\<rparr>"

definition rt_completion_init :: "nat \<Rightarrow> kernel \<Rightarrow> kernel option" where
  "rt_completion_init c k =
     ipc_list_init (Suspended_on (Obj_Completion c)) (upd_comp c (\<lambda>x. x\<lparr>comp_flag := RT_UNCOMPLETED\<rparr>) k)"

definition rt_completion_wait :: "nat \<Rightarrow> s32 \<Rightarrow> kernel \<Rightarrow> (unit outcome \<times> kernel) option" where
  "rt_completion_wait c timeout k =
     do {
       rt_assert (timeout \<noteq> 0 \<longrightarrow> scheduler_available k);
       (if comp_flag (cpl k c) \<noteq> RT_COMPLETED then
          do {
            rt_assert (lists k (Suspended_on (Obj_Completion c)) = []);
            (if timeout = 0 then Some (Returns (- RT_ETIMEOUT) None, k)
             else
               do {
                 t \<leftarrow> rt_thread_self k;
                 let k1 = upd_thread t (\<lambda>th. th\<lparr>thread_error := RT_EOK\<rparr>) k;
                 k2 \<leftarrow> ipc_wait (Suspended_on (Obj_Completion c)) RT_IPC_FLAG_FIFO t timeout (In_completion_wait c) k1;
                 Some (Waits, k2)
               })
          }
        else Some (Returns RT_EOK None, upd_comp c (\<lambda>x. x\<lparr>comp_flag := RT_UNCOMPLETED\<rparr>) k))
     }"

definition rt_completion_wait_finish :: "tid \<Rightarrow> nat \<Rightarrow> kernel \<Rightarrow> unit outcome \<times> kernel" where
  "rt_completion_wait_finish t c k =
     (Returns (thread_error (threads k t)) None,
      upd_comp c (\<lambda>x. x\<lparr>comp_flag := RT_UNCOMPLETED\<rparr>) (finish_call t k))"

definition rt_completion_done :: "nat \<Rightarrow> kernel \<Rightarrow> kernel option" where
  "rt_completion_done c k =
     (if comp_flag (cpl k c) = RT_COMPLETED then Some k
      else
        do {
          let k1 = upd_comp c (\<lambda>x. x\<lparr>comp_flag := RT_COMPLETED\<rparr>) k;
          (if lists k1 (Suspended_on (Obj_Completion c)) \<noteq> [] then
             do { k2 \<leftarrow> ipc_list_resume (Suspended_on (Obj_Completion c)) k1; rt_schedule k2 }
           else Some k1)
        })"

section \<open>Correctness\<close>

text \<open>
  The abstract completion: whether it is done, and the thread that waits for it.  Done is
  remembered until one wait has consumed it.
\<close>

definition comp_ok :: "nat \<Rightarrow> kernel \<Rightarrow> bool" where
  "comp_ok c k \<longleftrightarrow>
     (comp_flag (cpl k c) = RT_COMPLETED \<or> comp_flag (cpl k c) = RT_UNCOMPLETED) \<and>
     length (lists k (Suspended_on (Obj_Completion c))) \<le> 1 \<and>
     (comp_flag (cpl k c) = RT_COMPLETED \<longrightarrow> lists k (Suspended_on (Obj_Completion c)) = [])"

definition comp_abs :: "nat \<Rightarrow> kernel \<Rightarrow> bool \<times> tid list" where
  "comp_abs c k = (comp_flag (cpl k c) = RT_COMPLETED, lists k (Suspended_on (Obj_Completion c)))"

definition comp_wait_spec :: "tid \<Rightarrow> bool \<Rightarrow> bool \<times> tid list \<Rightarrow> unit outcome \<times> bool \<times> tid list" where
  "comp_wait_spec t wait a = (case a of (finished, ws) \<Rightarrow>
     if finished then (Returns RT_EOK None, False, ws)
     else if wait then (Waits, False, [t])
     else (Returns (- RT_ETIMEOUT) None, False, ws))"

lemma completion_wait_refines:
  assumes s: "sinv k" and o: "comp_ok c k" and cl: "timeout \<noteq> 0 \<longrightarrow> caller t k"
    and to: "0 < sint timeout \<longrightarrow> timeout < RT_TICK_MAX_HALF"
    and one: "comp_abs c k \<noteq> (False, []) \<longrightarrow> fst (comp_abs c k)"
  shows "\<exists>oc k'. rt_completion_wait c timeout k = Some (oc, k') \<and> sinv k' \<and> comp_ok c k' \<and>
     (oc, comp_abs c k') = comp_wait_spec t (timeout \<noteq> 0) (comp_abs c k) \<and>
     (oc = Waits \<longrightarrow> current k' \<noteq> None \<and> tstat k' t = RT_THREAD_SUSPEND \<and> thread_error (threads k' t) = RT_EOK \<and>
        saved k' t = In_completion_wait c \<and> (Thread_timer t \<in> set (timer_list k') \<longleftrightarrow> 0 < sint timeout))"
proof -
  let ?h = "Suspended_on (Obj_Completion c)"
  have sa: "timeout \<noteq> 0 \<longrightarrow> scheduler_available k" using cl by (simp add: caller_def)
  consider (don) "comp_flag (cpl k c) = RT_COMPLETED"
    | (none) "comp_flag (cpl k c) = RT_UNCOMPLETED" "timeout = 0"
    | (wait) "comp_flag (cpl k c) = RT_UNCOMPLETED" "timeout \<noteq> 0"
    using o by (auto simp: comp_ok_def)
  then show ?thesis
  proof cases
    case don
    then have "lists k ?h = []" using o by (simp add: comp_ok_def)
    with don show ?thesis using s sa
      by (simp add: rt_completion_wait_def comp_ok_def comp_abs_def comp_wait_spec_def)
  next
    case none
    then have "lists k ?h = []" using one by (simp add: comp_abs_def)
    with none show ?thesis using s o
      by (simp add: rt_completion_wait_def comp_abs_def comp_wait_spec_def)
  next
    case wait
    have l: "lists k ?h = []" using one wait by (simp add: comp_abs_def)
    have c: "caller t k" using cl wait by simp
    obtain k' where k': "ipc_wait ?h RT_IPC_FLAG_FIFO t timeout (In_completion_wait c)
          (upd_thread t (\<lambda>th. th\<lparr>thread_error := RT_EOK\<rparr>) k) = Some k'" "sinv k'" "ipc_frame k k'" "current k' \<noteq> None"
        "thread_error (threads k' t) = RT_EOK" "tstat k' t = RT_THREAD_SUSPEND"
        "lists k' ?h = insert_at (wait_pos RT_IPC_FLAG_FIFO t ?h k) t (lists k ?h)"
        "saved k' t = In_completion_wait c" "Thread_timer t \<in> set (timer_list k') \<longleftrightarrow> 0 < sint timeout"
      using wait_with_error_cleared [OF s c _ _ to, of ?h RT_IPC_FLAG_FIFO "In_completion_wait c"] by auto
    have "rt_completion_wait c timeout k = Some (Waits, k')"
      using wait l sa c k'(1) by (simp add: rt_completion_wait_def caller_def rt_thread_self_def)
    moreover have "lists k' ?h = [t]" using k'(7) l by (simp add: insert_at_def)
    moreover have "cpl k' c = cpl k c" using k'(3) by (simp add: ipc_frame_def)
    ultimately show ?thesis using wait k'(2,4,5,6,8,9)
      by (simp add: comp_ok_def comp_abs_def comp_wait_spec_def)
  qed
qed

lemma completion_done_refines:
  assumes s: "sinv k" and o: "comp_ok c k" and cu: "current k \<noteq> None"
  shows "\<exists>k'. rt_completion_done c k = Some k' \<and> sinv k' \<and> comp_ok c k' \<and> comp_abs c k' = (True, []) \<and>
     same_error k k' \<and> saved k' = saved k \<and> current k' \<noteq> None \<and>
     (\<forall>t\<in>set (lists k (Suspended_on (Obj_Completion c))). runnable k' t)"
proof (cases "comp_flag (cpl k c) = RT_COMPLETED")
  case True
  then show ?thesis using s o cu by (simp add: rt_completion_done_def comp_ok_def comp_abs_def)
next
  case False
  let ?h = "Suspended_on (Obj_Completion c)"
  let ?k1 = "upd_comp c (\<lambda>x. x\<lparr>comp_flag := RT_COMPLETED\<rparr>) k"
  have s1: "sinv ?k1" "current ?k1 \<noteq> None" using s cu by simp_all
  obtain k' where k': "ipc_wake_first ?h ?k1 = Some k'" "sinv k'" "woken ?h ?k1 k'"
    using ipc_wake_first_ok [OF s1(1) _ s1(2), of ?h] by auto
  have r: "rt_completion_done c k = Some k'"
    using k'(1) False by (simp add: rt_completion_done_def ipc_wake_first_def Let_def split: if_splits)
  have len: "tl (lists k ?h) = []" using o by (cases "lists k ?h") (auto simp: comp_ok_def)
  then have l: "lists k' ?h = []" using k'(3) by (simp add: woken_def)
  have d: "cpl k' c = cpl ?k1 c" "current k' \<noteq> None" "saved k' = saved k" "same_error k k'"
    using k'(3) by (simp_all add: woken_def ipc_frame_def same_error_def)
  have "runnable k' t" if "t \<in> set (lists k ?h)" for t
    using that len k'(3) by (cases "lists k ?h") (auto simp: woken_def)
  then show ?thesis using r k'(2) l d by (intro exI [of _ k']) (simp add: comp_ok_def comp_abs_def)
qed

lemma sample_comp: "comp_ok 0 sample_kernel" "comp_abs 0 sample_kernel = (False, [])" "current sample_kernel \<noteq> None"
  by (simp_all add: comp_ok_def comp_abs_def sample_kernel_def)

section \<open>Properties\<close>

text \<open>
  \<open>rt_completion_wait\<close> on every branch: a completion that is done is consumed at once; one that
  is not answers \<open>-RT_ETIMEOUT\<close> to a zero timeout, and otherwise the caller becomes its one
  waiting thread, with its timer running exactly when the timeout is positive.
\<close>

theorem rt_completion_wait_correct:
  assumes "sinv k" "comp_ok c k" "timeout \<noteq> 0 \<longrightarrow> caller t k" "0 < sint timeout \<longrightarrow> timeout < RT_TICK_MAX_HALF"
    and "lists k (Suspended_on (Obj_Completion c)) = []"
  shows "\<exists>oc k'. rt_completion_wait c timeout k = Some (oc, k') \<and> sinv k' \<and> comp_ok c k' \<and>
     (oc, comp_abs c k') = comp_wait_spec t (timeout \<noteq> 0) (comp_abs c k) \<and>
     (oc = Waits \<longrightarrow> tstat k' t = RT_THREAD_SUSPEND \<and>
        saved k' t = In_completion_wait c \<and> (Thread_timer t \<in> set (timer_list k') \<longleftrightarrow> 0 < sint timeout))"
  using completion_wait_refines [OF assms(1-4)] assms(5) by (auto simp: comp_abs_def)

theorem rt_completion_wait_correct_witness:
  "\<exists>oc k'. rt_completion_wait 0 5 sample_kernel = Some (oc, k') \<and> oc = Waits \<and> comp_abs 0 k' = (False, [0])"
proof -
  have l: "lists sample_kernel (Suspended_on (Obj_Completion 0)) = []" using sample_comp(2) by (simp add: comp_abs_def)
  show ?thesis
    using rt_completion_wait_correct [OF sample_sinv sample_comp(1) _ _ l, of 5 0] sample_caller
    by (auto simp: sample_comp(2) comp_wait_spec_def)
qed

text \<open>
  C30.  Handshake: \<open>rt_completion_done\<close> lets the waiting thread run; when it goes on, its
  \<open>rt_completion_wait\<close> returns \<open>RT_EOK\<close> and the completion is open again for the next round.  Further
  calls of \<open>rt_completion_done\<close> before that change nothing.
\<close>

theorem completion_handshake:
  assumes "sinv k" "comp_ok c k" "current k \<noteq> None"
    and "lists k (Suspended_on (Obj_Completion c)) = [t]" "thread_error (threads k t) = RT_EOK"
  shows "\<exists>k' k''. rt_completion_done c k = Some k' \<and> sinv k' \<and> runnable k' t \<and> rt_completion_done c k' = Some k' \<and>
     rt_completion_wait_finish t c k' = (Returns RT_EOK None, k'') \<and> sinv k'' \<and> comp_ok c k'' \<and>
     comp_abs c k'' = (False, [])"
proof -
  obtain k' where k': "rt_completion_done c k = Some k'" "sinv k'" "comp_ok c k'" "comp_abs c k' = (True, [])"
    "same_error k k'" "runnable k' t"
    using completion_done_refines [OF assms(1-3)] assms(4) by auto
  have r: "rt_completion_done c k' = Some k'" using k'(4) by (simp add: rt_completion_done_def comp_abs_def)
  have e: "thread_error (threads k' t) = RT_EOK" using k'(5) assms(5) by (simp add: same_error_def)
  let ?k = "upd_comp c (\<lambda>x. x\<lparr>comp_flag := RT_UNCOMPLETED\<rparr>) (finish_call t k')"
  have "sinv (finish_call t k')" using k'(2) sinv_cong [of "finish_call t k'" k'] by (simp add: finish_call_def)
  then have "sinv ?k" by simp
  moreover have "comp_ok c ?k" "comp_abs c ?k = (False, [])"
    using k'(4) by (simp_all add: comp_ok_def comp_abs_def finish_call_def)
  moreover have "rt_completion_wait_finish t c k' = (Returns RT_EOK None, ?k)"
    using e by (simp add: rt_completion_wait_finish_def)
  ultimately show ?thesis using k'(1,2,6) r by blast
qed

theorem completion_handshake_witness:
  "\<exists>k k' k''. rt_completion_wait 0 5 sample_kernel = Some (Waits, k) \<and> rt_completion_done 0 k = Some k' \<and>
     rt_completion_wait_finish 0 0 k' = (Returns RT_EOK None, k'')"
proof -
  obtain oc k where k: "rt_completion_wait 0 5 sample_kernel = Some (oc, k)" "sinv k" "comp_ok 0 k"
    "(oc, comp_abs 0 k) = comp_wait_spec 0 True (comp_abs 0 sample_kernel)"
    "oc = Waits \<longrightarrow> current k \<noteq> None \<and> thread_error (threads k 0) = RT_EOK"
    using completion_wait_refines [OF sample_sinv sample_comp(1), of 5 0] sample_caller sample_comp(2) by auto
  then have w: "oc = Waits" "comp_abs 0 k = (False, [0])" by (simp_all add: sample_comp(2) comp_wait_spec_def)
  then show ?thesis using completion_handshake [OF k(2,3), of 0] k(1,5) by (auto simp: comp_abs_def)
qed

end
