(* ===== verification/Dataqueue.thy ===== *)
theory Dataqueue
  imports Sample Bounded_Queue
begin

text \<open>
  Data queues (\<open>components/drivers/ipc/dataqueue.c\<close>): a ring of pointers with sizes, with two lists of
  waiting threads, readers (\<open>suspended_pop_list\<close>) and writers (\<open>suspended_push_list\<close>), and flags for
  empty and full.  The loops of the blocking calls are split at the wait as in theory \<open>Mailbox\<close>;
  unlike there, a thread that has to wait again waits for the whole timeout once more.  The ring is
  an instance of the contract \<open>bounded_queue\<close>.
\<close>

section \<open>Operations\<close>

abbreviation (input) DATAQUEUE_MAGIC :: u32 where "DATAQUEUE_MAGIC \<equiv> 0xbead0e0e"
abbreviation (input) RT_DATAQUEUE_EVENT_POP :: u32 where "RT_DATAQUEUE_EVENT_POP \<equiv> 1"
abbreviation (input) RT_DATAQUEUE_EVENT_PUSH :: u32 where "RT_DATAQUEUE_EVENT_PUSH \<equiv> 2"
abbreviation (input) RT_DATAQUEUE_EVENT_LWM :: u32 where "RT_DATAQUEUE_EVENT_LWM \<equiv> 3"

text \<open>An item: the pointer and the size of the data.\<close>

type_synonym dq_item = "u32 \<times> u32"

abbreviation dqu :: "kernel \<Rightarrow> nat \<Rightarrow> rt_data_queue" where
  "dqu k q \<equiv> dqueues (devipc k) q"

abbreviation upd_dq :: "nat \<Rightarrow> (rt_data_queue \<Rightarrow> rt_data_queue) \<Rightarrow> kernel \<Rightarrow> kernel" where
  "upd_dq q f k \<equiv>
     k\<lparr>devipc := (devipc k)\<lparr>dqueues := (dqueues (devipc k))(q := f (dqueues (devipc k) q))\<rparr>\<rparr>"

text \<open>\<open>mem\<close>: the array that \<open>rt_malloc\<close> returned for the items, if any.\<close>

definition rt_data_queue_init ::
    "nat \<Rightarrow> u16 \<Rightarrow> u16 \<Rightarrow> nat option \<Rightarrow> dq_item list option \<Rightarrow> kernel \<Rightarrow> (rt_err \<times> kernel) option" where
  "rt_data_queue_init q sz lwm notify mem k =
     do {
       rt_assert (sz > 0);
       let k1 = upd_dq q (\<lambda>x. x\<lparr>evt_notify := notify, dq_magic := DATAQUEUE_MAGIC, dq_size := sz, dq_lwm := lwm,
                                get_index := 0, put_index := 0, is_empty := True, is_full := False\<rparr>) k;
       k2 \<leftarrow> ipc_list_init (Senders_of (Obj_Dq q)) k1;
       k3 \<leftarrow> ipc_list_init (Suspended_on (Obj_Dq q)) k2;
       Some (case mem of
          None \<Rightarrow> (- RT_ENOMEM, upd_dq q (\<lambda>x. x\<lparr>dq_items := []\<rparr>) k3)
        | Some a \<Rightarrow> (RT_EOK, upd_dq q (\<lambda>x. x\<lparr>dq_items := a\<rparr>) k3))
     }"

text \<open>The changes of the ring in \<open>rt_data_queue_push\<close> and \<open>rt_data_queue_pop\<close>; the indices have 15 bits.\<close>

definition dq_put :: "dq_item \<Rightarrow> rt_data_queue \<Rightarrow> rt_data_queue option" where
  "dq_put it dq =
     do {
       a \<leftarrow> store (dq_items dq) (unat (put_index dq)) it;
       let p = put_index dq + 1;
       let p = (if unat p = unat (dq_size dq) then 0 else p);
       let dq = dq\<lparr>dq_items := a, put_index := p, is_empty := False\<rparr>;
       Some (if put_index dq = get_index dq then dq\<lparr>is_full := True\<rparr> else dq)
     }"

definition dq_get :: "rt_data_queue \<Rightarrow> (dq_item \<times> rt_data_queue) option" where
  "dq_get dq =
     do {
       it \<leftarrow> load (dq_items dq) (unat (get_index dq));
       let g = get_index dq + 1;
       let g = (if unat g = unat (dq_size dq) then 0 else g);
       let dq = dq\<lparr>get_index := g, is_full := False\<rparr>;
       Some (it, if put_index dq = get_index dq then dq\<lparr>is_empty := True\<rparr> else dq)
     }"

definition dq_len :: "rt_data_queue \<Rightarrow> u16" where
  "dq_len dq =
     (if is_empty dq then 0
      else if put_index dq > get_index dq then ucast (put_index dq) - ucast (get_index dq)
      else dq_size dq + ucast (put_index dq) - ucast (get_index dq))"

definition rt_data_queue_len :: "nat \<Rightarrow> kernel \<Rightarrow> u16 option" where
  "rt_data_queue_len q k =
     do { rt_assert (dq_magic (dqu k q) = DATAQUEUE_MAGIC); Some (dq_len (dqu k q)) }"

text \<open>The notification callback: \<open>ncb\<close> gives the function a queue refers to its meaning.\<close>

type_synonym notify_fun = "nat \<Rightarrow> nat \<Rightarrow> u32 \<Rightarrow> kernel \<Rightarrow> kernel option"

definition dq_notify :: "notify_fun \<Rightarrow> nat \<Rightarrow> u32 \<Rightarrow> kernel \<Rightarrow> kernel option" where
  "dq_notify ncb q event k =
     (case evt_notify (dqu k q) of None \<Rightarrow> Some k | Some f \<Rightarrow> ncb f q event k)"

text \<open>One pass of the loop of \<open>rt_data_queue_push\<close> and what follows it.\<close>

definition dq_push_pass ::
    "notify_fun \<Rightarrow> nat \<Rightarrow> u32 \<Rightarrow> u32 \<Rightarrow> s32 \<Rightarrow> kernel \<Rightarrow> (unit outcome \<times> kernel) option" where
  "dq_push_pass ncb q data_ptr data_size timeout k =
     (if is_full (dqu k q) then
        (if timeout = 0 then Some (Returns (- RT_ETIMEOUT) None, k)
         else
           do {
             t \<leftarrow> rt_thread_self k;
             let k1 = upd_thread t (\<lambda>th. th\<lparr>thread_error := RT_EOK\<rparr>) k;
             k2 \<leftarrow> ipc_wait (Senders_of (Obj_Dq q)) RT_IPC_FLAG_FIFO t timeout
                     (In_dq_push q data_ptr data_size timeout) k1;
             Some (Waits, k2)
           })
      else
        do {
          dq \<leftarrow> dq_put (data_ptr, data_size) (dqu k q);
          let k1 = upd_dq q (\<lambda>_. dq) k;
          k2 \<leftarrow> (if lists k1 (Suspended_on (Obj_Dq q)) \<noteq> [] then
                   do { k2 \<leftarrow> ipc_list_resume (Suspended_on (Obj_Dq q)) k1; rt_schedule k2 }
                 else dq_notify ncb q RT_DATAQUEUE_EVENT_PUSH k1);
          Some (Returns RT_EOK None, k2)
        })"

definition rt_data_queue_push ::
    "notify_fun \<Rightarrow> nat \<Rightarrow> u32 \<Rightarrow> u32 \<Rightarrow> s32 \<Rightarrow> kernel \<Rightarrow> (unit outcome \<times> kernel) option" where
  "rt_data_queue_push ncb q data_ptr data_size timeout k =
     do {
       rt_assert (dq_magic (dqu k q) = DATAQUEUE_MAGIC);
       rt_assert (timeout \<noteq> 0 \<longrightarrow> scheduler_available k);
       dq_push_pass ncb q data_ptr data_size timeout k
     }"

definition rt_data_queue_push_resume ::
    "notify_fun \<Rightarrow> tid \<Rightarrow> nat \<Rightarrow> u32 \<Rightarrow> u32 \<Rightarrow> s32 \<Rightarrow> kernel \<Rightarrow> (unit outcome \<times> kernel) option" where
  "rt_data_queue_push_resume ncb t q data_ptr data_size timeout k =
     (let k1 = finish_call t k in
      if thread_error (threads k1 t) \<noteq> RT_EOK
      then Some (Returns (thread_error (threads k1 t)) None, k1)
      else dq_push_pass ncb q data_ptr data_size timeout k1)"

definition dq_pop_pass :: "notify_fun \<Rightarrow> nat \<Rightarrow> s32 \<Rightarrow> kernel \<Rightarrow> (dq_item outcome \<times> kernel) option" where
  "dq_pop_pass ncb q timeout k =
     (if is_empty (dqu k q) then
        (if timeout = 0 then Some (Returns (- RT_ETIMEOUT) None, k)
         else
           do {
             t \<leftarrow> rt_thread_self k;
             let k1 = upd_thread t (\<lambda>th. th\<lparr>thread_error := RT_EOK\<rparr>) k;
             k2 \<leftarrow> ipc_wait (Suspended_on (Obj_Dq q)) RT_IPC_FLAG_FIFO t timeout (In_dq_pop q timeout) k1;
             Some (Waits, k2)
           })
      else
        do {
          (it, dq) \<leftarrow> dq_get (dqu k q);
          let k1 = upd_dq q (\<lambda>_. dq) k;
          len \<leftarrow> rt_data_queue_len q k1;
          k2 \<leftarrow> (if len \<le> dq_lwm (dqu k1 q) then
                   do {
                     k2 \<leftarrow> (if lists k1 (Senders_of (Obj_Dq q)) \<noteq> [] then
                              do { k2 \<leftarrow> ipc_list_resume (Senders_of (Obj_Dq q)) k1; rt_schedule k2 }
                            else Some k1);
                     dq_notify ncb q RT_DATAQUEUE_EVENT_LWM k2
                   }
                 else dq_notify ncb q RT_DATAQUEUE_EVENT_POP k1);
          Some (Returns RT_EOK (Some it), k2)
        })"

definition rt_data_queue_pop ::
    "notify_fun \<Rightarrow> nat \<Rightarrow> s32 \<Rightarrow> kernel \<Rightarrow> (dq_item outcome \<times> kernel) option" where
  "rt_data_queue_pop ncb q timeout k =
     do {
       rt_assert (dq_magic (dqu k q) = DATAQUEUE_MAGIC);
       rt_assert (timeout \<noteq> 0 \<longrightarrow> scheduler_available k);
       dq_pop_pass ncb q timeout k
     }"

definition rt_data_queue_pop_resume ::
    "notify_fun \<Rightarrow> tid \<Rightarrow> nat \<Rightarrow> s32 \<Rightarrow> kernel \<Rightarrow> (dq_item outcome \<times> kernel) option" where
  "rt_data_queue_pop_resume ncb t q timeout k =
     (let k1 = finish_call t k in
      if thread_error (threads k1 t) \<noteq> RT_EOK
      then Some (Returns (thread_error (threads k1 t)) None, k1)
      else dq_pop_pass ncb q timeout k1)"

definition rt_data_queue_peek :: "nat \<Rightarrow> kernel \<Rightarrow> (rt_err \<times> dq_item option) option" where
  "rt_data_queue_peek q k =
     do {
       rt_assert (dq_magic (dqu k q) = DATAQUEUE_MAGIC);
       (if is_empty (dqu k q) then Some (- RT_EEMPTY, None)
        else
          do {
            it \<leftarrow> load (dq_items (dqu k q)) (unat (get_index (dqu k q)));
            Some (RT_EOK, Some it)
          })
     }"

definition rt_data_queue_reset :: "nat \<Rightarrow> kernel \<Rightarrow> kernel option" where
  "rt_data_queue_reset q k =
     do {
       rt_assert (dq_magic (dqu k q) = DATAQUEUE_MAGIC);
       let k1 = upd_dq q (\<lambda>x. x\<lparr>get_index := 0, put_index := 0, is_empty := True, is_full := False\<rparr>) k;
       let k2 = rt_enter_critical k1;
       k3 \<leftarrow> ipc_list_resume_all (Suspended_on (Obj_Dq q)) k2;
       k4 \<leftarrow> ipc_list_resume_all (Senders_of (Obj_Dq q)) k3;
       k5 \<leftarrow> rt_exit_critical k4;
       rt_schedule k5
     }"

definition rt_data_queue_deinit :: "nat \<Rightarrow> kernel \<Rightarrow> (rt_err \<times> kernel) option" where
  "rt_data_queue_deinit q k =
     do {
       rt_assert (dq_magic (dqu k q) = DATAQUEUE_MAGIC);
       k1 \<leftarrow> rt_data_queue_reset q k;
       Some (RT_EOK, upd_dq q (\<lambda>x. x\<lparr>dq_magic := 0, dq_items := []\<rparr>) k1)
     }"

section \<open>The ring of items\<close>

text \<open>How many items there are, and the invariant of the two flags.\<close>

definition dq_count :: "rt_data_queue \<Rightarrow> nat" where
  "dq_count dq =
     (if is_empty dq then 0 else if is_full dq then unat (dq_size dq)
      else (unat (put_index dq) + unat (dq_size dq) - unat (get_index dq)) mod unat (dq_size dq))"

definition dq_inv :: "rt_data_queue \<Rightarrow> bool" where
  "dq_inv dq \<longleftrightarrow>
     dq_magic dq = DATAQUEUE_MAGIC \<and> 0 < unat (dq_size dq) \<and> unat (dq_size dq) < 32768 \<and>
     unat (dq_size dq) \<le> length (dq_items dq) \<and>
     unat (get_index dq) < unat (dq_size dq) \<and> unat (put_index dq) < unat (dq_size dq) \<and>
     \<not> (is_empty dq \<and> is_full dq) \<and> (is_empty dq \<or> is_full dq \<longleftrightarrow> put_index dq = get_index dq)"

definition dq_list :: "rt_data_queue \<Rightarrow> dq_item list" where
  "dq_list dq = ring_list (dq_items dq) (unat (dq_size dq)) (unat (get_index dq)) (dq_count dq)"

definition dq_cap :: "rt_data_queue \<Rightarrow> nat" where
  "dq_cap dq = unat (dq_size dq)"

definition dq_enq :: "rt_data_queue \<Rightarrow> dq_item \<Rightarrow> (bool \<times> rt_data_queue) option" where
  "dq_enq dq it = (if is_full dq then Some (False, dq) else map_option (Pair True) (dq_put it dq))"

definition dq_deq :: "rt_data_queue \<Rightarrow> (dq_item option \<times> rt_data_queue) option" where
  "dq_deq dq = (if is_empty dq then Some (None, dq)
                else map_option (\<lambda>(it, dq'). (Some it, dq')) (dq_get dq))"

lemma dq_length [simp]: "length (dq_list dq) = dq_count dq"
  by (simp add: dq_list_def)

lemma window_count:
  fixes n :: nat
  assumes "g < n" "p = (g + c) mod n"
  shows "(p + n - g) mod n = c mod n"
proof -
  have "(p + n - g) mod n = (p + (n - g)) mod n" using assms(1) by simp
  also have "\<dots> = (g + c + (n - g)) mod n" unfolding assms(2) by (rule mod_add_left_eq)
  also have "g + c + (n - g) = c + n" using assms(1) by simp
  finally show ?thesis by simp
qed

lemma dq_window:
  assumes "dq_inv dq"
  shows "dq_count dq \<le> unat (dq_size dq)" "dq_count dq = 0 \<longleftrightarrow> is_empty dq" "dq_count dq = unat (dq_size dq) \<longleftrightarrow> is_full dq"
    "unat (put_index dq) = (unat (get_index dq) + dq_count dq) mod unat (dq_size dq)"
proof -
  let ?p = "unat (put_index dq)" and ?g = "unat (get_index dq)" and ?n = "unat (dq_size dq)"
  have i: "0 < ?n" "?g < ?n" "?p < ?n" "\<not> (is_empty dq \<and> is_full dq)" "is_empty dq \<or> is_full dq \<longleftrightarrow> ?p = ?g"
    using assms by (auto simp: dq_inv_def word_unat_eq_iff)
  have c: "dq_count dq = (if is_empty dq then 0 else if is_full dq then ?n else if ?g < ?p then ?p - ?g else ?p + ?n - ?g)"
    using i by (auto simp: dq_count_def mod_if)
  show "dq_count dq \<le> ?n" "dq_count dq = 0 \<longleftrightarrow> is_empty dq" "dq_count dq = ?n \<longleftrightarrow> is_full dq"
    using i unfolding c by auto
  show "?p = (?g + dq_count dq) mod ?n" using i unfolding c by (auto simp: mod_if)
qed

lemma dq_invI:
  assumes "dq_magic dq = DATAQUEUE_MAGIC" "0 < unat (dq_size dq)" "unat (dq_size dq) < 32768"
    "unat (dq_size dq) \<le> length (dq_items dq)" "unat (get_index dq) < unat (dq_size dq)" "c \<le> unat (dq_size dq)"
    "unat (put_index dq) = (unat (get_index dq) + c) mod unat (dq_size dq)"
    "is_empty dq \<longleftrightarrow> c = 0" "is_full dq \<longleftrightarrow> c = unat (dq_size dq)"
  shows "dq_inv dq" "dq_count dq = c"
proof -
  let ?p = "unat (put_index dq)" and ?g = "unat (get_index dq)" and ?n = "unat (dq_size dq)"
  have w: "(?p + ?n - ?g) mod ?n = c mod ?n" using window_count [OF assms(5,7)] .
  show "dq_count dq = c" using assms(6,8,9) w by (auto simp: dq_count_def)
  have "?p = ?g \<longleftrightarrow> c mod ?n = 0"
  proof
    assume "?p = ?g"
    then show "c mod ?n = 0" using w by simp
  next
    assume "c mod ?n = 0"
    then show "?p = ?g" using assms(5,7) by (metis add.right_neutral mod_add_right_eq mod_less)
  qed
  moreover have "c mod ?n = 0 \<longleftrightarrow> c = 0 \<or> c = ?n" using assms(2,6) by (auto simp: mod_if split: if_splits)
  ultimately have "put_index dq = get_index dq \<longleftrightarrow> c = 0 \<or> c = ?n" by (simp add: word_unat_eq_iff)
  moreover have "?p < ?n" using assms(2,7) by simp
  ultimately show "dq_inv dq" using assms by (auto simp: dq_inv_def)
qed

lemma dq_next:
  fixes x :: "15 word" and n :: u16
  assumes "unat x < unat n" "unat n < 32768"
  shows "unat (if unat (x + 1) = unat n then 0 else x + 1) = (unat x + 1) mod unat n"
proof -
  have "unat (x + 1) = unat x + 1" using assms by (intro unat_add_one) simp
  then show ?thesis using assms(1) by (auto simp: mod_if)
qed

lemma dq_put_correct:
  assumes i: "dq_inv dq" and f: "\<not> is_full dq"
  shows "\<exists>dq'. dq_put it dq = Some dq' \<and> dq_inv dq' \<and> dq_size dq' = dq_size dq \<and> dq_lwm dq' = dq_lwm dq \<and>
           evt_notify dq' = evt_notify dq \<and> dq_list dq' = dq_list dq @ [it]"
proof -
  let ?n = "unat (dq_size dq)" and ?g = "unat (get_index dq)" and ?c = "dq_count dq"
  note w = dq_window [OF i]
  have n: "0 < ?n" "?n < 32768" "?n \<le> length (dq_items dq)" "?g < ?n" "unat (put_index dq) < ?n"
    using i by (auto simp: dq_inv_def)
  have c: "?c < ?n" using w(1,3) f by simp
  define p where "p = (if unat (put_index dq + 1) = ?n then 0 else put_index dq + 1)"
  have p: "unat p = (?g + (?c + 1)) mod ?n"
    unfolding p_def dq_next [OF n(5,2)] w(4) by (metis add.assoc mod_add_left_eq)
  define dq' where "dq' = dq\<lparr>dq_items := (dq_items dq)[unat (put_index dq) := it], put_index := p, is_empty := False,
      is_full := (?c + 1 = ?n)\<rparr>"
  have ok: "dq_inv dq'" "dq_count dq' = ?c + 1"
    by (rule dq_invI [where c = "?c + 1"]; use i n c p f in \<open>simp add: dq'_def dq_inv_def\<close>)+
  have "(p = get_index dq) = (?c + 1 = ?n)"
    using ok(1) dq_window(2,3) [OF ok(1)] ok(2) by (simp add: dq'_def dq_inv_def)
  then have "dq_put it dq = Some dq'"
    using n f by (simp add: dq_put_def p_def [symmetric] Let_def dq'_def)
  moreover have "dq_list dq' = dq_list dq @ [it]"
    using ring_list_snoc [OF n(3) c, of ?g it] ok(2) w(4) by (simp add: dq_list_def) (simp add: dq'_def)
  ultimately show ?thesis using ok(1) by (simp add: dq'_def)
qed

lemma dq_get_correct:
  assumes i: "dq_inv dq" and f: "\<not> is_empty dq"
  shows "\<exists>dq'. dq_get dq = Some (hd (dq_list dq), dq') \<and> dq_inv dq' \<and> dq_size dq' = dq_size dq \<and> dq_lwm dq' = dq_lwm dq \<and>
           evt_notify dq' = evt_notify dq \<and> dq_list dq' = tl (dq_list dq)"
proof -
  let ?n = "unat (dq_size dq)" and ?g = "unat (get_index dq)"
  note w = dq_window [OF i]
  have n: "0 < ?n" "?n < 32768" "?n \<le> length (dq_items dq)" "?g < ?n" using i by (auto simp: dq_inv_def)
  obtain c where c: "dq_count dq = Suc c" using w(2) f by (cases "dq_count dq") auto
  then have cn: "c < ?n" "c \<noteq> ?n" using w(1) by simp_all
  define g where "g = (if unat (get_index dq + 1) = ?n then 0 else get_index dq + 1)"
  have g: "unat g = (?g + 1) mod ?n" unfolding g_def by (rule dq_next [OF n(4,2)])
  define dq' where "dq' = dq\<lparr>get_index := g, is_full := (c = ?n), is_empty := (c = 0)\<rparr>"
  have p: "unat (put_index dq) = (unat g + c) mod ?n" unfolding w(4) c g by (metis Suc_eq_plus1_left add.assoc mod_add_left_eq)
  have ok: "dq_inv dq'" "dq_count dq' = c"
    by (rule dq_invI [where c = c]; use i n c cn p f g in \<open>simp add: dq'_def dq_inv_def\<close>)+
  have "(put_index dq = g) = (c = 0)"
    using ok(1) dq_window(2,3) [OF ok(1)] ok(2) w(1) c by (auto simp: dq'_def dq_inv_def)
  then have "dq_get dq = Some (dq_items dq ! ?g, dq')"
    using n f cn by (simp add: dq_get_def g_def [symmetric] Let_def dq'_def)
  moreover have "dq_list dq = dq_items dq ! ?g # dq_list dq'"
    using ring_list_tl [OF n(1), of "dq_items dq" ?g c] n(4) ok(2) c g by (simp add: dq_list_def) (simp add: dq'_def)
  ultimately show ?thesis using ok(1) by (simp add: dq'_def)
qed

lemma dq_len_count:
  assumes "dq_inv dq"
  shows "unat (dq_len dq) = dq_count dq"
proof -
  let ?p = "unat (put_index dq)" and ?g = "unat (get_index dq)" and ?n = "unat (dq_size dq)"
  have i: "0 < ?n" "?g < ?n" "?p < ?n" "?n < 32768" "\<not> (is_empty dq \<and> is_full dq)" "is_empty dq \<or> is_full dq \<longleftrightarrow> ?p = ?g"
    using assms by (auto simp: dq_inv_def word_unat_eq_iff)
  have u: "unat (ucast (put_index dq) :: u16) = ?p" "unat (ucast (get_index dq) :: u16) = ?g"
    by (rule unat_ucast_le; simp)+
  consider (e) "is_empty dq" | (gt) "\<not> is_empty dq" "?g < ?p" | (le) "\<not> is_empty dq" "?p \<le> ?g" by linarith
  then show ?thesis
  proof cases
    case e
    then show ?thesis by (simp add: dq_len_def dq_count_def)
  next
    case gt
    then have "unat (dq_len dq) = ?p - ?g" using u by (simp add: dq_len_def word_less_nat_alt unat_sub word_le_nat_alt)
    then show ?thesis using gt i by (auto simp: dq_count_def mod_if)
  next
    case le
    have s: "unat (dq_size dq + ucast (put_index dq)) = ?n + ?p" using i(3,4) u by (subst unat_word_ariths) simp
    then have "unat (dq_len dq) = ?n + ?p - ?g"
      using le u i(2) by (simp add: dq_len_def word_less_nat_alt unat_sub word_le_nat_alt not_less)
    then show ?thesis using le i by (auto simp: dq_count_def mod_if)
  qed
qed

interpretation dqq: bounded_queue dq_inv dq_list dq_cap "\<lambda>_ _. True" dq_enq dq_deq
proof unfold_locales
  fix dq x assume i: "dq_inv dq"
  note w = dq_window [OF i]
  show "length (dq_list dq) \<le> dq_cap dq" using w(1) by (simp add: dq_cap_def)
  show "\<exists>q'. dq_enq dq x = Some (True, q') \<and> dq_inv q' \<and> dq_cap q' = dq_cap dq \<and>
      (\<lambda>_ _. True) q' = (\<lambda>_ _. True) dq \<and> dq_list q' = dq_list dq @ [x]"
    if "length (dq_list dq) < dq_cap dq"
    using dq_put_correct [OF i, of x] that w(3) by (auto simp: dq_enq_def dq_cap_def)
  show "dq_enq dq x = Some (False, dq)" if "length (dq_list dq) = dq_cap dq"
    using that w(3) by (simp add: dq_enq_def dq_cap_def)
  show "\<exists>q'. dq_deq dq = Some (Some y, q') \<and> dq_inv q' \<and> dq_cap q' = dq_cap dq \<and>
      (\<lambda>_ _. True) q' = (\<lambda>_ _. True) dq \<and> dq_list q' = ys"
    if "dq_list dq = y # ys" for y ys
  proof -
    have "dq_count dq \<noteq> 0" using that dq_length [of dq] by simp
    then show ?thesis using dq_get_correct [OF i] that w(2) by (cases y) (auto simp: dq_deq_def dq_cap_def)
  qed
  show "dq_deq dq = Some (None, dq)" if "dq_list dq = []"
  proof -
    have "dq_count dq = 0" using that dq_length [of dq] by simp
    then show ?thesis using w(2) by (simp add: dq_deq_def)
  qed
qed

section \<open>The calls\<close>

abbreviation items :: "kernel \<Rightarrow> nat \<Rightarrow> dq_item list" where
  "items k q \<equiv> dq_list (dqu k q)"

abbreviation pop_line :: "nat \<Rightarrow> list_head" where "pop_line q \<equiv> Suspended_on (Obj_Dq q)"
abbreviation push_line :: "nat \<Rightarrow> list_head" where "push_line q \<equiv> Senders_of (Obj_Dq q)"

text \<open>
  What a notification function is asked for: it returns, and does not touch the queue, the
  errors and the calls of the threads; it may wake threads.
\<close>

text \<open>Waking the first thread of a line after a change of the queue.\<close>

lemma dq_wake:
  assumes "sinv k" "current k \<noteq> None" "wait_head h"
  shows "\<exists>k'. ipc_wake_first h (upd_dq q (\<lambda>_. dq) k) = Some k' \<and> sinv k' \<and> dqu k' q = dq \<and> same_error k k' \<and>
     saved k' = saved k \<and> current k' \<noteq> None \<and> (lists k h \<noteq> [] \<longrightarrow> runnable k' (hd (lists k h))) \<and>
     woken h (upd_dq q (\<lambda>_. dq) k) k'"
proof -
  let ?k = "upd_dq q (\<lambda>_. dq) k"
  have "sinv ?k" "current ?k \<noteq> None" using assms(1,2) by simp_all
  then obtain k' where k': "ipc_wake_first h ?k = Some k'" "sinv k'" "woken h ?k k'"
    using ipc_wake_first_ok [of ?k h] assms(3) by blast
  then show ?thesis by (intro exI [of _ k']) (simp add: woken_def ipc_frame_def same_error_def)
qed

lemma dq_full_iff: "dq_inv dq \<Longrightarrow> is_full dq \<longleftrightarrow> \<not> length (dq_list dq) < dq_cap dq"
  using dq_window(1,3) [of dq] by (auto simp: dq_cap_def)

lemma dq_empty_iff: "dq_inv dq \<Longrightarrow> is_empty dq \<longleftrightarrow> dq_list dq = []"
  using dq_window(2) [of dq] dq_length [of dq] by (metis length_0_conv)

text \<open>
  The passes with any callback: \<open>ncb\<close> may change the kernel as it likes and need not return; what
  the queue holds is said of the state it is called in.
\<close>

lemma dq_push_pass_cases:
  assumes s: "sinv k" and i: "dq_inv (dqu k q)" and c: "current k \<noteq> None"
    and cl: "timeout \<noteq> 0 \<longrightarrow> caller t k" and to: "0 < sint timeout \<longrightarrow> timeout < RT_TICK_MAX_HALF"
  shows "if length (items k q) < dq_cap (dqu k q)
     then \<exists>k1. sinv k1 \<and> dq_inv (dqu k1 q) \<and> items k1 q = items k q @ [(p, sz)] \<and> same_error k k1 \<and>
            saved k1 = saved k \<and> current k1 \<noteq> None \<and>
            (if lists k (pop_line q) = []
             then dq_push_pass ncb q p sz timeout k = map_option (Pair (Returns RT_EOK None))
                    (case evt_notify (dqu k q) of None \<Rightarrow> Some k1 | Some f \<Rightarrow> ncb f q RT_DATAQUEUE_EVENT_PUSH k1)
             else dq_push_pass ncb q p sz timeout k = Some (Returns RT_EOK None, k1) \<and>
                  runnable k1 (hd (lists k (pop_line q))))
     else \<exists>oc k'. dq_push_pass ncb q p sz timeout k = Some (oc, k') \<and> sinv k' \<and> dq_inv (dqu k' q) \<and>
            items k' q = items k q \<and>
            (if timeout = 0 then oc = Returns (- RT_ETIMEOUT) None \<and> k' = k
             else oc = Waits \<and> tstat k' t = RT_THREAD_SUSPEND \<and> thread_error (threads k' t) = RT_EOK \<and>
                  saved k' t = In_dq_push q p sz timeout \<and> current k' \<noteq> None \<and>
                  lists k' (push_line q) = lists k (push_line q) @ [t])"
proof (cases "length (items k q) < dq_cap (dqu k q)")
  case True
  then have f: "\<not> is_full (dqu k q)" using dq_full_iff [OF i] by simp
  obtain dq where dq: "dq_put (p, sz) (dqu k q) = Some dq" "dq_inv dq" "dq_list dq = items k q @ [(p, sz)]"
      "evt_notify dq = evt_notify (dqu k q)"
    using dq_put_correct [OF i f, of "(p, sz)"] by blast
  let ?k1 = "upd_dq q (\<lambda>_. dq) k"
  show ?thesis
  proof (cases "lists k (pop_line q) = []")
    case Nil: True
    have "dq_push_pass ncb q p sz timeout k = map_option (Pair (Returns RT_EOK None))
        (case evt_notify (dqu k q) of None \<Rightarrow> Some ?k1 | Some f \<Rightarrow> ncb f q RT_DATAQUEUE_EVENT_PUSH ?k1)"
      using f dq(1,4) Nil by (simp add: dq_push_pass_def dq_notify_def Let_def map_conv_bind_option comp_def split: option.split)
    moreover have "sinv ?k1" "current ?k1 \<noteq> None" "same_error k ?k1" "dq_inv (dqu ?k1 q)"
        "items ?k1 q = items k q @ [(p, sz)]" "saved ?k1 = saved k"
      using s c dq by (simp_all add: same_error_def)
    ultimately show ?thesis unfolding if_P [OF True] if_P [OF Nil] by (intro exI [of _ ?k1] conjI)
  next
    case ne: False
    obtain k' where k': "ipc_wake_first (pop_line q) ?k1 = Some k'" "sinv k'" "dqu k' q = dq" "same_error k k'"
       "saved k' = saved k" "current k' \<noteq> None" "lists k (pop_line q) \<noteq> [] \<longrightarrow> runnable k' (hd (lists k (pop_line q)))"
      using dq_wake [OF s c, of "pop_line q" q dq] by auto
    have "dq_push_pass ncb q p sz timeout k = Some (Returns RT_EOK None, k')"
      using f dq(1) k'(1) ne by (auto simp: dq_push_pass_def ipc_wake_first_def Let_def bind_eq_Some_conv)
    then show ?thesis using True k' dq ne by (simp only: if_True if_False) auto
  qed
next
  case False
  then have f: "is_full (dqu k q)" using dq_full_iff [OF i] by simp
  show ?thesis
  proof (cases "timeout = 0")
    case True
    then show ?thesis using False f s i by (simp add: dq_push_pass_def)
  next
    case nz: False
    then have ct: "caller t k" using cl by simp
    obtain k' where k': "ipc_wait (push_line q) RT_IPC_FLAG_FIFO t timeout (In_dq_push q p sz timeout)
          (upd_thread t (\<lambda>th. th\<lparr>thread_error := RT_EOK\<rparr>) k) = Some k'" "sinv k'" "ipc_frame k k'" "current k' \<noteq> None"
        "thread_error (threads k' t) = RT_EOK" "tstat k' t = RT_THREAD_SUSPEND"
        "lists k' (push_line q) = insert_at (wait_pos RT_IPC_FLAG_FIFO t (push_line q) k) t (lists k (push_line q))"
        "saved k' t = In_dq_push q p sz timeout"
      using wait_with_error_cleared [OF s ct _ _ to, of "push_line q" RT_IPC_FLAG_FIFO "In_dq_push q p sz timeout"] by auto
    have "dq_push_pass ncb q p sz timeout k = Some (Waits, k')"
      using f nz ct k'(1) by (simp add: dq_push_pass_def caller_def rt_thread_self_def Let_def)
    moreover have "lists k' (push_line q) = lists k (push_line q) @ [t]" using k'(7) by (simp add: wait_pos_def)
    moreover have "dqu k' q = dqu k q" using k'(3) by (simp add: ipc_frame_def)
    ultimately show ?thesis using False nz k'(2,4-6,8) i by simp
  qed
qed

lemma dq_push_pass_refines:
  assumes "sinv k" "dq_inv (dqu k q)" "current k \<noteq> None" "timeout \<noteq> 0 \<longrightarrow> caller t k"
    "0 < sint timeout \<longrightarrow> timeout < RT_TICK_MAX_HALF" and n: "evt_notify (dqu k q) = None"
  shows "\<exists>oc k'. dq_push_pass ncb q p sz timeout k = Some (oc, k') \<and> sinv k' \<and> dq_inv (dqu k' q)"
proof (cases "length (items k q) < dq_cap (dqu k q)")
  case True
  then obtain k1 where "sinv k1" "dq_inv (dqu k1 q)" "dq_push_pass ncb q p sz timeout k = Some (Returns RT_EOK None, k1)"
    using dq_push_pass_cases [OF assms(1-5), where ncb = ncb and p = p and sz = sz] n by (auto split: if_splits)
  then show ?thesis by blast
next
  case False
  then show ?thesis using dq_push_pass_cases [OF assms(1-5), where ncb = ncb and p = p and sz = sz] by (auto split: if_splits)
qed

lemma dq_pop_pass_cases:
  assumes s: "sinv k" and i: "dq_inv (dqu k q)" and c: "current k \<noteq> None"
    and cl: "timeout \<noteq> 0 \<longrightarrow> caller t k" and to: "0 < sint timeout \<longrightarrow> timeout < RT_TICK_MAX_HALF"
  shows "case items k q of
       it # rest \<Rightarrow>
         \<exists>k1. sinv k1 \<and> dq_inv (dqu k1 q) \<and> items k1 q = rest \<and> same_error k k1 \<and> saved k1 = saved k \<and> current k1 \<noteq> None \<and>
           (length rest \<le> unat (dq_lwm (dqu k q)) \<and> lists k (push_line q) \<noteq> [] \<longrightarrow>
              runnable k1 (hd (lists k (push_line q)))) \<and>
           dq_pop_pass ncb q timeout k = map_option (Pair (Returns RT_EOK (Some it)))
             (case evt_notify (dqu k q) of None \<Rightarrow> Some k1
              | Some f \<Rightarrow> ncb f q (if length rest \<le> unat (dq_lwm (dqu k q)) then RT_DATAQUEUE_EVENT_LWM
                                  else RT_DATAQUEUE_EVENT_POP) k1)
     | [] \<Rightarrow>
         \<exists>oc k'. dq_pop_pass ncb q timeout k = Some (oc, k') \<and> sinv k' \<and> dq_inv (dqu k' q) \<and> items k' q = [] \<and>
           (if timeout = 0 then oc = Returns (- RT_ETIMEOUT) None \<and> k' = k
            else oc = Waits \<and> tstat k' t = RT_THREAD_SUSPEND \<and> thread_error (threads k' t) = RT_EOK \<and>
                 saved k' t = In_dq_pop q timeout \<and> current k' \<noteq> None \<and>
                 lists k' (pop_line q) = lists k (pop_line q) @ [t])"
proof (cases "items k q")
  case (Cons it rest)
  then have f: "\<not> is_empty (dqu k q)" using dq_empty_iff [OF i] by simp
  obtain dq where dq: "dq_get (dqu k q) = Some (it, dq)" "dq_inv dq" "dq_lwm dq = dq_lwm (dqu k q)" "dq_list dq = rest"
      "evt_notify dq = evt_notify (dqu k q)"
    using dq_get_correct [OF i f] Cons by auto
  let ?k1 = "upd_dq q (\<lambda>_. dq) k"
  have len: "rt_data_queue_len q ?k1 = Some (dq_len dq)" using dq(2) by (simp add: rt_data_queue_len_def dq_inv_def)
  have lw: "dq_len dq \<le> dq_lwm dq \<longleftrightarrow> length rest \<le> unat (dq_lwm (dqu k q))"
    using dq_len_count [OF dq(2)] dq(3) dq_length [of dq] unfolding dq(4) by (simp add: word_le_nat_alt)
  show ?thesis
  proof (cases "length rest \<le> unat (dq_lwm (dqu k q))")
    case True
    obtain k2 where k2: "ipc_wake_first (push_line q) ?k1 = Some k2" "sinv k2" "dqu k2 q = dq" "same_error k k2"
       "saved k2 = saved k" "current k2 \<noteq> None" "lists k (push_line q) \<noteq> [] \<longrightarrow> runnable k2 (hd (lists k (push_line q)))"
      using dq_wake [OF s c, of "push_line q" q dq] by auto
    have w: "(if lists k (push_line q) \<noteq> [] then Option.bind (ipc_list_resume (push_line q) ?k1) rt_schedule else Some ?k1) = Some k2"
      using k2(1) by (simp add: ipc_wake_first_def split: if_splits)
    have "dq_pop_pass ncb q timeout k = Option.bind (Option.bind
        (if lists k (push_line q) \<noteq> [] then Option.bind (ipc_list_resume (push_line q) ?k1) rt_schedule else Some ?k1)
        (\<lambda>k2. dq_notify ncb q RT_DATAQUEUE_EVENT_LWM k2)) (\<lambda>k2. Some (Returns RT_EOK (Some it), k2))"
      using f dq(1,3) len lw True by (simp add: dq_pop_pass_def Let_def)
    then have "dq_pop_pass ncb q timeout k = map_option (Pair (Returns RT_EOK (Some it)))
        (case evt_notify (dqu k q) of None \<Rightarrow> Some k2 | Some f \<Rightarrow> ncb f q RT_DATAQUEUE_EVENT_LWM k2)"
      unfolding w by (simp add: dq_notify_def k2(3) dq(5) map_conv_bind_option comp_def split: option.split)
    then show ?thesis using Cons True k2(2-7) dq(2,4) by auto
  next
    case False
    have "dq_pop_pass ncb q timeout k = map_option (Pair (Returns RT_EOK (Some it)))
        (case evt_notify (dqu k q) of None \<Rightarrow> Some ?k1 | Some f \<Rightarrow> ncb f q RT_DATAQUEUE_EVENT_POP ?k1)"
      using f dq(1,3,5) len lw False by (simp add: dq_pop_pass_def dq_notify_def Let_def map_conv_bind_option comp_def split: option.split)
    moreover have "sinv ?k1" "current ?k1 \<noteq> None" "same_error k ?k1" "dq_inv (dqu ?k1 q)" "items ?k1 q = rest" "saved ?k1 = saved k"
      using s c dq by (simp_all add: same_error_def)
    ultimately show ?thesis using False unfolding Cons list.case if_not_P [OF False]
      by (intro exI [of _ ?k1] conjI impI) simp_all
  qed
next
  case Nil
  then have f: "is_empty (dqu k q)" using dq_empty_iff [OF i] by simp
  show ?thesis
  proof (cases "timeout = 0")
    case True
    then show ?thesis using Nil f s i by (simp add: dq_pop_pass_def)
  next
    case nz: False
    then have ct: "caller t k" using cl by simp
    obtain k' where k': "ipc_wait (pop_line q) RT_IPC_FLAG_FIFO t timeout (In_dq_pop q timeout)
          (upd_thread t (\<lambda>th. th\<lparr>thread_error := RT_EOK\<rparr>) k) = Some k'" "sinv k'" "ipc_frame k k'" "current k' \<noteq> None"
        "thread_error (threads k' t) = RT_EOK" "tstat k' t = RT_THREAD_SUSPEND"
        "lists k' (pop_line q) = insert_at (wait_pos RT_IPC_FLAG_FIFO t (pop_line q) k) t (lists k (pop_line q))"
        "saved k' t = In_dq_pop q timeout"
      using wait_with_error_cleared [OF s ct _ _ to, of "pop_line q" RT_IPC_FLAG_FIFO "In_dq_pop q timeout"] by auto
    have "dq_pop_pass ncb q timeout k = Some (Waits, k')"
      using f nz ct k'(1) by (simp add: dq_pop_pass_def caller_def rt_thread_self_def Let_def)
    moreover have "lists k' (pop_line q) = lists k (pop_line q) @ [t]" using k'(7) by (simp add: wait_pos_def)
    moreover have "dqu k' q = dqu k q" using k'(3) by (simp add: ipc_frame_def)
    ultimately show ?thesis using Nil nz k'(2,4-6,8) i by simp
  qed
qed

lemma dq_pop_pass_refines:
  assumes "sinv k" "dq_inv (dqu k q)" "current k \<noteq> None" "timeout \<noteq> 0 \<longrightarrow> caller t k"
    "0 < sint timeout \<longrightarrow> timeout < RT_TICK_MAX_HALF" and n: "evt_notify (dqu k q) = None"
  shows "\<exists>oc k'. dq_pop_pass ncb q timeout k = Some (oc, k') \<and> sinv k' \<and> dq_inv (dqu k' q)"
proof (cases "items k q")
  case (Cons it rest)
  then obtain k1 where "sinv k1" "dq_inv (dqu k1 q)" "dq_pop_pass ncb q timeout k = Some (Returns RT_EOK (Some it), k1)"
    using dq_pop_pass_cases [OF assms(1-5), where ncb = ncb] n by auto
  then show ?thesis by blast
next
  case Nil
  then show ?thesis using dq_pop_pass_cases [OF assms(1-5), where ncb = ncb] by auto
qed

lemma dq_reset_ok:
  assumes s: "sinv k" and i: "dq_inv (dqu k q)" and c: "current k \<noteq> None"
  shows "\<exists>k'. rt_data_queue_reset q k = Some k' \<and> sinv k' \<and> dq_inv (dqu k' q) \<and> items k' q = [] \<and>
     lists k' (pop_line q) = [] \<and> lists k' (push_line q) = [] \<and>
     (\<forall>t\<in>set (lists k (pop_line q)) \<union> set (lists k (push_line q)).
        runnable k' t \<and> thread_error (threads k' t) = - RT_ERROR)"
proof -
  let ?f = "\<lambda>x. x\<lparr>get_index := 0, put_index := 0, is_empty := True, is_full := False\<rparr>"
  let ?k2 = "rt_enter_critical (upd_dq q ?f k)"
  have s2: "sinv ?k2" "current ?k2 \<noteq> None" "dqu ?k2 q = ?f (dqu k q)" "lists ?k2 = lists k"
    using s c sinv_cong [of ?k2 k] by (simp_all add: rt_enter_critical_def)
  have wh: "wait_head (pop_line q)" "wait_head (push_line q)" by simp_all
  obtain k3 where k3: "ipc_list_resume_all (pop_line q) ?k2 = Some k3" "sinv k3" "all_woken (pop_line q) ?k2 k3"
    using ipc_list_resume_all_ok [OF s2(1) wh(1)] by blast
  obtain k4 where k4: "ipc_list_resume_all (push_line q) k3 = Some k4" "sinv k4" "all_woken (push_line q) k3 k4"
    using ipc_list_resume_all_ok [OF k3(2) wh(2)] by blast
  have d: "dqu k4 q = ?f (dqu k q)" "current k4 \<noteq> None" using k3(3) k4(3) s2(2,3) by (simp_all add: all_woken_def ipc_frame_def)
  have l: "lists k4 (pop_line q) = []" "lists k4 (push_line q) = []" "lists k3 (push_line q) = lists k (push_line q)"
    using k3(3) k4(3) s2(4) by (simp_all add: all_woken_def)
  have w: "runnable k4 t \<and> thread_error (threads k4 t) = - RT_ERROR"
    if "t \<in> set (lists k (pop_line q)) \<union> set (lists k (push_line q))" for t
  proof (cases "t \<in> set (lists k (push_line q))")
    case True
    then show ?thesis using k4(3) l(3) by (simp add: all_woken_def)
  next
    case False
    then have "threads k4 t = threads k3 t" "t \<in> set (lists ?k2 (pop_line q))"
      using k4(3) l(3) that s2(4) by (simp_all add: all_woken_def)
    then show ?thesis using k3(3) by (simp add: all_woken_def runnable_def)
  qed
  obtain k5 where k5: "rt_exit_critical k4 = Some k5" "sinv k5" "current k5 \<noteq> None" "sched_frame k4 k5"
    using exit_critical_frame [OF k4(2) d(2)] by blast
  obtain k' where k': "rt_schedule k5 = Some k'" "sinv k'" "sched_rel k5 k'"
    using rt_schedule_sinv [OF k5(2,3)] by blast
  have fr: "sched_frame k4 k'" using sched_frame_trans [OF k5(4) sched_rel_sched_frame [OF k'(3)]] .
  have "rt_data_queue_reset q k = Some k'"
    using i k3(1) k4(1) k5(1) k'(1) by (simp add: rt_data_queue_reset_def dq_inv_def)
  moreover have "dq_inv (?f (dqu k q))" "dq_list (?f (dqu k q)) = []"
    using i by (simp_all add: dq_inv_def dq_list_def dq_count_def ring_list_def)
  ultimately show ?thesis using k'(2) fr d(1) l(1,2) w wh by (intro exI [of _ k']) (simp add: sched_frame_def same_error_def)
qed

lemma sample_dq:
  "dq_inv (dqu sample_kernel q)" "items sample_kernel q = []" "dq_cap (dqu sample_kernel q) = 2" "current sample_kernel \<noteq> None"
  "lists sample_kernel (pop_line q) = []" "evt_notify (dqu sample_kernel q) = None"
  by (simp_all add: dq_inv_def dq_list_def dq_count_def dq_cap_def ring_list_def sample_kernel_def upt_rec)

section \<open>Properties\<close>

text \<open>
  C29.  \<open>rt_data_queue_push\<close> on every branch: with room the item goes behind the others, and then
  either the first thread that waits for one can run and the call returns, or, when none waits, the
  notification function is called in that state and the call ends as it ends; nothing is assumed
  of that function.  A full queue answers \<open>-RT_ETIMEOUT\<close> to a zero timeout and changes nothing,
  or makes the caller wait behind the other writers.
\<close>

theorem rt_data_queue_push_correct:
  assumes "sinv k" "dq_inv (dqu k q)" "current k \<noteq> None"
    and "timeout \<noteq> 0 \<longrightarrow> caller t k" "0 < sint timeout \<longrightarrow> timeout < RT_TICK_MAX_HALF"
  shows "if length (items k q) < dq_cap (dqu k q)
     then \<exists>k1. sinv k1 \<and> dq_inv (dqu k1 q) \<and> items k1 q = items k q @ [(p, sz)] \<and> current k1 \<noteq> None \<and>
            (if lists k (pop_line q) = []
             then rt_data_queue_push ncb q p sz timeout k = map_option (Pair (Returns RT_EOK None))
                    (case evt_notify (dqu k q) of None \<Rightarrow> Some k1 | Some f \<Rightarrow> ncb f q RT_DATAQUEUE_EVENT_PUSH k1)
             else rt_data_queue_push ncb q p sz timeout k = Some (Returns RT_EOK None, k1) \<and>
                  runnable k1 (hd (lists k (pop_line q))))
     else \<exists>oc k'. rt_data_queue_push ncb q p sz timeout k = Some (oc, k') \<and> sinv k' \<and> dq_inv (dqu k' q) \<and>
            items k' q = items k q \<and>
            (if timeout = 0 then oc = Returns (- RT_ETIMEOUT) None \<and> k' = k
             else oc = Waits \<and> tstat k' t = RT_THREAD_SUSPEND \<and> saved k' t = In_dq_push q p sz timeout \<and>
                  lists k' (push_line q) = lists k (push_line q) @ [t])"
proof -
  have e: "rt_data_queue_push ncb q p sz timeout k = dq_push_pass ncb q p sz timeout k"
    using assms(2,4) by (simp add: rt_data_queue_push_def dq_inv_def caller_def)
  show ?thesis using dq_push_pass_cases [OF assms, where ncb = ncb and p = p and sz = sz] unfolding e by (auto split: if_splits)
qed

theorem rt_data_queue_push_correct_witness:
  "\<exists>k'. rt_data_queue_push (\<lambda>_ _ _ _. None) 0 0x20000400 8 0 sample_kernel = Some (Returns RT_EOK None, k') \<and>
     items k' 0 = [(0x20000400, 8)]"
  using rt_data_queue_push_correct [OF sample_sinv sample_dq(1,4), where q = 0 and timeout = 0 and t = 0 and p = "0x20000400" and sz = 8 and ncb = "\<lambda>_ _ _ _. None"]
  by (auto simp: sample_dq)

text \<open>
  \<open>rt_data_queue_pop\<close> on every branch: the oldest item is taken out, and when no more than the
  low water mark are left the first waiting writer can run; then the notification function, of
  which nothing is assumed, is called with the event that says which it was.  An empty queue answers
  \<open>-RT_ETIMEOUT\<close> to a zero timeout and changes nothing, or makes the caller wait behind the other
  readers.
\<close>

theorem rt_data_queue_pop_correct:
  assumes "sinv k" "dq_inv (dqu k q)" "current k \<noteq> None"
    and "timeout \<noteq> 0 \<longrightarrow> caller t k" "0 < sint timeout \<longrightarrow> timeout < RT_TICK_MAX_HALF"
  shows "case items k q of
       it # rest \<Rightarrow>
         \<exists>k1. sinv k1 \<and> dq_inv (dqu k1 q) \<and> items k1 q = rest \<and> current k1 \<noteq> None \<and>
           (length rest \<le> unat (dq_lwm (dqu k q)) \<and> lists k (push_line q) \<noteq> [] \<longrightarrow>
              runnable k1 (hd (lists k (push_line q)))) \<and>
           rt_data_queue_pop ncb q timeout k = map_option (Pair (Returns RT_EOK (Some it)))
             (case evt_notify (dqu k q) of None \<Rightarrow> Some k1
              | Some f \<Rightarrow> ncb f q (if length rest \<le> unat (dq_lwm (dqu k q)) then RT_DATAQUEUE_EVENT_LWM
                                  else RT_DATAQUEUE_EVENT_POP) k1)
     | [] \<Rightarrow>
         \<exists>oc k'. rt_data_queue_pop ncb q timeout k = Some (oc, k') \<and> sinv k' \<and> dq_inv (dqu k' q) \<and> items k' q = [] \<and>
           (if timeout = 0 then oc = Returns (- RT_ETIMEOUT) None \<and> k' = k
            else oc = Waits \<and> tstat k' t = RT_THREAD_SUSPEND \<and> saved k' t = In_dq_pop q timeout \<and>
                 lists k' (pop_line q) = lists k (pop_line q) @ [t])"
proof -
  have e: "rt_data_queue_pop ncb q timeout k = dq_pop_pass ncb q timeout k"
    using assms(2,4) by (simp add: rt_data_queue_pop_def dq_inv_def caller_def)
  show ?thesis using dq_pop_pass_cases [OF assms, where ncb = ncb] unfolding e by (cases "items k q") (auto split: if_splits)
qed

theorem rt_data_queue_pop_correct_witness:
  "\<exists>oc k'. rt_data_queue_pop (\<lambda>_ _ _ _. None) 0 5 sample_kernel = Some (oc, k') \<and> oc = Waits \<and>
     lists k' (pop_line 0) = [0]"
  using rt_data_queue_pop_correct [OF sample_sinv sample_dq(1,4), where q = 0 and timeout = 5 and t = 0 and ncb = "\<lambda>_ _ _ _. None"] sample_caller by (auto simp: sample_dq)

text \<open>
  \<open>rt_data_queue_reset\<close> empties the queue and ends every wait for it: both lines are empty,
  and each thread that waited can run and finds \<open>-RT_ERROR\<close>.
\<close>

theorem rt_data_queue_reset_correct:
  assumes "sinv k" "dq_inv (dqu k q)" "current k \<noteq> None"
  shows "\<exists>k'. rt_data_queue_reset q k = Some k' \<and> sinv k' \<and> dq_inv (dqu k' q) \<and> items k' q = [] \<and>
     lists k' (pop_line q) = [] \<and> lists k' (push_line q) = [] \<and>
     (\<forall>t\<in>set (lists k (pop_line q)) \<union> set (lists k (push_line q)).
        runnable k' t \<and> thread_error (threads k' t) = - RT_ERROR)"
  using assms by (rule dq_reset_ok)

theorem rt_data_queue_reset_correct_witness:
  "\<exists>k k'. dq_pop_pass (\<lambda>_ _ _. Some) 0 5 sample_kernel = Some (Waits, k) \<and> rt_data_queue_reset 0 k = Some k' \<and>
     thread_error (threads k' 0) = - RT_ERROR"
proof -
  obtain oc k where k: "dq_pop_pass (\<lambda>_ _ _. Some) 0 5 sample_kernel = Some (oc, k)" "sinv k" "dq_inv (dqu k 0)"
      "oc = Waits" "current k \<noteq> None" "lists k (pop_line 0) = [0]"
    using dq_pop_pass_cases [OF sample_sinv sample_dq(1,4), where q = 0 and timeout = 5 and t = 0 and ncb = "\<lambda>_ _ _. Some"] sample_caller by (auto simp: sample_dq)
  then show ?thesis using rt_data_queue_reset_correct [OF k(2,3,5)] by fastforce
qed

end
