(* ===== verification/Kernel_Properties.thy ===== *)
theory Kernel_Properties
  imports Sample
begin

text \<open>
  Properties of the parts below the IPC objects: the waiting lines, the scheduler, the threads,
  the timers and the clock, with their instances on the sample state.
\<close>

section \<open>Waiting lines\<close>

text \<open>
  In an object with the priority flag the waiting line is kept in order of priority, the
  most urgent thread first, and threads of the same priority in the order of their arrival:
  a thread that joins is placed behind all waiters that are at least as urgent and before all
  others.
\<close>

theorem wait_line_sorted:
  assumes "sinv k" "current k = Some t" "tstat k t = RT_THREAD_RUNNING" "wait_head h"
    and "sorted (map (\<lambda>u. current_priority (threads k u)) (lists k h))"
  shows "\<exists>k' as bs. ipc_list_suspend h t RT_IPC_FLAG_PRIO k = Some k' \<and> sinv k' \<and>
     lists k h = as @ bs \<and> lists k' h = as @ t # bs \<and>
     sorted (map (\<lambda>u. current_priority (threads k' u)) (lists k' h)) \<and>
     (\<forall>u\<in>set as. current_priority (threads k u) \<le> current_priority (threads k t)) \<and>
     (\<forall>u\<in>set bs. current_priority (threads k t) < current_priority (threads k u))"
proof -
  let ?pr = "\<lambda>u. current_priority (threads k u)"
  let ?i = "stable_pos ?pr (?pr t) (lists k h)"
  have fl: "RT_IPC_FLAG_PRIO = RT_IPC_FLAG_FIFO \<or> RT_IPC_FLAG_PRIO = RT_IPC_FLAG_PRIO" by simp
  let ?k = "(upd_thread t (tlist_update (\<lambda>_. Some h)) (upd_thread t (set_stat RT_THREAD_SUSPEND) k))
             \<lparr>lists := (lists k)(h := insert_at ?i t (lists k h))\<rparr>"
  have wp: "wait_pos RT_IPC_FLAG_PRIO t h k = ?i" by (simp add: wait_pos_def prio_pos_stable)
  have "ipc_list_suspend h t RT_IPC_FLAG_PRIO k = Some ?k" "sinv ?k"
    using ipc_list_suspend_ok [OF assms(1-4) fl] unfolding wp by blast+
  moreover note so = stable_insert_sorted [OF assms(5), of t]
  moreover have "(\<lambda>u. current_priority (threads ?k u)) = ?pr" by auto
  then have "sorted (map (\<lambda>u. current_priority (threads ?k u)) (lists ?k h))" using so(1) by simp
  ultimately show ?thesis
    by (intro exI [of _ ?k] exI [of _ "take ?i (lists k h)"] exI [of _ "drop ?i (lists k h)"])
      (simp add: insert_at_def)
qed

theorem wait_line_sorted_witness:
  "\<exists>k' as bs. ipc_list_suspend (Suspended_on (Obj_Sem 0)) 0 RT_IPC_FLAG_PRIO sample_kernel = Some k' \<and>
     [1] = as @ bs \<and> lists k' (Suspended_on (Obj_Sem 0)) = as @ 0 # bs"
proof -
  have l: "lists sample_kernel (Suspended_on (Obj_Sem 0)) = [1]" by (simp add: sample_kernel_def upt_rec)
  have c: "current sample_kernel = Some 0" "tstat sample_kernel 0 = RT_THREAD_RUNNING"
    using sample_caller by (simp_all add: caller_def)
  have "wait_head (Suspended_on (Obj_Sem 0))" by simp
  from wait_line_sorted [OF sample_sinv c this] show ?thesis unfolding l by auto
qed

lemma tick_window:
  fixes a b :: u32
  assumes "unat a < 0x7fffffff" "unat b < 0x7fffffff"
  shows "a - b \<noteq> 0 \<and> a - b < RT_TICK_MAX_HALF \<longleftrightarrow> unat b < unat a"
proof (cases "unat b \<le> unat a")
  case True
  then have "unat (a - b) = unat a - unat b" by (simp add: unat_sub_if')
  then show ?thesis using True assms by (auto simp: word_less_nat_alt word_unat_eq_iff)
next
  case False
  then have "unat (a - b) = unat a + 2 ^ 32 - unat b" by (simp add: unat_sub_if')
  then show ?thesis using False assms by (auto simp: word_less_nat_alt word_unat_eq_iff)
qed

text \<open>
  Within a window of half the tick range, the walk of \<open>rt_timer_start\<close> passes exactly the
  timers that expire no later.
\<close>

lemma timer_row_pos_stable:
  assumes "\<forall>t\<in>set ts. unat (tmo t - now) < 0x7fffffff" "unat (x - now) < 0x7fffffff"
  shows "timer_row_pos tmo x ts = stable_pos (\<lambda>t. unat (tmo t - now)) (unat (x - now)) ts"
  using assms(1)
proof (induction ts)
  case (Cons t ts)
  have d: "tmo t - x = (tmo t - now) - (x - now)" by simp
  have "tmo t - x \<noteq> 0 \<and> tmo t - x < RT_TICK_MAX_HALF \<longleftrightarrow> unat (x - now) < unat (tmo t - now)"
    unfolding d by (rule tick_window) (use Cons.prems assms(2) in auto)
  then show ?case using Cons by auto
qed simp

definition timer_left :: "kernel \<Rightarrow> timer_ref \<Rightarrow> nat" where
  "timer_left k r = unat (timeout_tick (timers k r) - tick k)"

definition timers_sorted :: "kernel \<Rightarrow> bool" where
  "timers_sorted k \<longleftrightarrow> distinct (timer_list k) \<and> sorted (map (timer_left k) (timer_list k)) \<and>
     (\<forall>r\<in>set (timer_list k). timer_left k r < 0x7fffffff)"

lemma sorted_remove1_map: "sorted (map f xs) \<Longrightarrow> sorted (map f (remove1 x xs))"
  by (induction xs) (auto dest: set_remove1_subset [THEN subsetD])

text \<open>Three timers around the overflow of the tick counter, for the concrete instance.\<close>

definition sample_timer_kernel :: kernel where
  "sample_timer_kernel = sample_kernel\<lparr>tick := 0xfffffffe, timer_list := [Timer 0, Timer 1],
     timers := (\<lambda>r. \<lparr>timeout_func = User_timeout 0, init_tick = 3,
        timeout_tick = (if r = Timer 0 then 0xffffffff else if r = Timer 1 then 3 else 0)\<rparr>)\<rparr>"

section \<open>Timers\<close>

lemma timer_start_sorted:
  assumes "timers_sorted k" "rt_object_get_type (Obj_Timer r) k = class_code Class_Timer"
    and "init_tick (timers k r) < RT_TICK_MAX_HALF"
  shows "\<exists>k' as bs. rt_timer_start r k = Some (RT_EOK, k') \<and> timers_sorted k' \<and>
     remove1 r (timer_list k) = as @ bs \<and> timer_list k' = as @ r # bs \<and>
     timer_left k' r = unat (init_tick (timers k r)) \<and>
     (\<forall>u\<in>set as. timer_left k u \<le> timer_left k' r) \<and> (\<forall>u\<in>set bs. timer_left k' r < timer_left k u)"
proof -
  let ?ts = "remove1 r (timer_list k)"
  let ?x = "tick k + init_tick (timers k r)"
  let ?tmo = "\<lambda>t. if t = r then ?x else timeout_tick (timers k t)"
  let ?key = "\<lambda>t. unat (?tmo t - tick k)"
  have rn: "r \<notin> set ?ts" using assms(1) by (simp add: timers_sorted_def)
  have keys: "?key t = timer_left k t" if "t \<in> set ?ts" for t using that rn by (auto simp: timer_left_def)
  have x: "unat (?x - tick k) < 0x7fffffff" using assms(3) by (simp add: word_less_nat_alt)
  have w: "\<forall>t\<in>set ?ts. unat (?tmo t - tick k) < 0x7fffffff"
    using assms(1) keys notin_set_remove1 by (fastforce simp: timers_sorted_def)
  define i where "i = stable_pos ?key (?key r) ?ts"
  have pos: "timer_row_pos ?tmo ?x ?ts = i"
    using timer_row_pos_stable [OF w x] by (simp add: i_def)
  have "map ?key ?ts = map (timer_left k) ?ts" using keys by simp
  then have so: "sorted (map ?key ?ts)" using assms(1) sorted_remove1_map by (metis timers_sorted_def)
  note st = stable_insert_sorted [OF so, of r, folded i_def]
  obtain k' where k': "rt_timer_start r k = Some (RT_EOK, k')" "timer_list k' = insert_at i r ?ts"
     "(\<lambda>t. timeout_tick (timers k' t)) = ?tmo" "tick k' = tick k"
    using assms(2) pos
    by (auto simp: rt_timer_start_def Let_def timer_deactivate_def timer_remove_def fun_upd_def if_distrib cong: if_cong)
  have left: "timer_left k' = ?key" using fun_cong [OF k'(3)] k'(4) by (auto simp: timer_left_def fun_eq_iff)
  have "timers_sorted k'"
    unfolding timers_sorted_def k'(2) left using st(1) rn assms(1) w x by (auto simp: timers_sorted_def)
  moreover have "u \<in> set ?ts" if "u \<in> set (take i ?ts) \<or> u \<in> set (drop i ?ts)" for u
    using that in_set_takeD in_set_dropD by fast
  ultimately show ?thesis
    using k'(1,2) st(2,3) keys left
    by (intro exI [of _ k'] exI [of _ "take i ?ts"] exI [of _ "drop i ?ts"]) (auto simp: insert_at_def)
qed

text \<open>
  C12.  Starting a timer, at any value of the wrapping tick counter: it is due after its
  interval, the list stays ordered by the time that is left, and the timer is placed behind
  those that are due no later and before all others, so that timers of one tick expire in the
  order of their start; a timer that was running is moved, not duplicated.
\<close>

theorem rt_timer_start_sorted:
  assumes "timers_sorted k" "rt_object_get_type (Obj_Timer r) k = class_code Class_Timer"
    and "init_tick (timers k r) < RT_TICK_MAX_HALF"
  shows "\<exists>k' as bs. rt_timer_start r k = Some (RT_EOK, k') \<and> timers_sorted k' \<and>
     remove1 r (timer_list k) = as @ bs \<and> timer_list k' = as @ r # bs \<and>
     timer_left k' r = unat (init_tick (timers k r)) \<and>
     (\<forall>u\<in>set as. timer_left k u \<le> timer_left k' r) \<and> (\<forall>u\<in>set bs. timer_left k' r < timer_left k u)"
  by (rule timer_start_sorted [OF assms])

theorem rt_timer_start_sorted_witness:
  "\<exists>k' as bs. rt_timer_start (Timer 2) sample_timer_kernel = Some (RT_EOK, k') \<and>
     [Timer 0, Timer 1] = as @ bs \<and> timer_list k' = as @ Timer 2 # bs \<and> timer_left k' (Timer 2) = 3"
proof -
  let ?k = sample_timer_kernel
  have l: "remove1 (Timer 2) (timer_list ?k) = [Timer 0, Timer 1]" "init_tick (timers ?k (Timer 2)) = 3"
    by (simp_all add: sample_timer_kernel_def)
  have "timers_sorted ?k" by (simp add: timers_sorted_def timer_left_def sample_timer_kernel_def)
  moreover have "rt_object_get_type (Obj_Timer (Timer 2)) ?k = class_code Class_Timer"
    by (simp add: sample_timer_kernel_def sample_kernel_def sample_object_def rt_object_get_type_def)
  ultimately show ?thesis using rt_timer_start_sorted [of ?k "Timer 2"] unfolding l by auto
qed

lemma thread_timer_fire:
  assumes s: "sinv k" and c: "current k \<noteq> None" and r: "Thread_timer t \<in> set (timer_list k)"
  shows "\<exists>k'. timer_fire ucb (Thread_timer t) k = Some k' \<and> sinv k' \<and> current k' \<noteq> None \<and>
     timer_list k' = remove1 (Thread_timer t) (timer_list k) \<and> timers k' = timers k \<and> tick k' = tick k \<and>
     fired_list k' = remove1 (Thread_timer t) (fired_list k) \<and> runnable k' t \<and> (\<forall>u. runnable k u \<longrightarrow> runnable k' u) \<and>
     (\<forall>u. thread_error (threads k' u) = (if u = t then - RT_ETIMEOUT else thread_error (threads k u))) \<and>
     timed_out t k k'"
proof -
  let ?r = "Thread_timer t"
  have ti: "tinv k" using s by (simp add: sinv_def)
  have st: "tstat k t = RT_THREAD_SUSPEND" using ti r by (simp add: tinv_def)
  have ok: "thread_timer_ok k t" using kinv_startedD(3) [OF s] st by (simp add: started_def)
  define k3 where "k3 = (timer_deactivate ?r k)\<lparr>fired_list := ?r # fired_list (timer_deactivate ?r k)\<rparr>"
  have rel: "timer_rel k k3"
    by (simp add: k3_def timer_rel_def timer_deactivate_def timer_remove_def)
  note fr = timer_rel_frame [OF rel]
  have "kinv (timer_deactivate ?r k)" using timer_rel_kinv [OF timer_deactivate_rel] s by (simp add: sinv_def)
  then have "sinv (timer_deactivate ?r k)" using timer_deactivate_tinv [OF ti] by (simp add: sinv_def)
  then have s3: "sinv k3" using sinv_cong [of k3 "timer_deactivate ?r k"] by (simp add: k3_def)
  have l3: "timer_list k3 = remove1 ?r (timer_list k)" "timers k3 = timers k" "fired_list k3 \<noteq> []"
      "fired_list k3 = ?r # remove1 ?r (fired_list k)"
    by (simp_all add: k3_def timer_deactivate_def timer_remove_def)
  have d: "?r \<notin> set (timer_list k3)" using ti l3(1) by (simp add: tinv_def)
  have st3: "tstat k3 t = RT_THREAD_SUSPEND" "current k3 \<noteq> None" using st c fr by simp_all
  obtain k4 where k4: "thread_timeout t k3 = Some k4" "sinv k4" "timer_list k4 = timer_list k3" "timers k4 = timers k3"
      "objs k4 = objs k3" "fired_list k4 = fired_list k3" "tick k4 = tick k3" "current k4 \<noteq> None"
    using thread_timeout_ok [OF s3 st3(1) d st3(2)] by blast
  have to: "timed_out t k3 k4" using thread_timeout_waiter [OF s3 st3(1) d st3(2)] k4(1) by auto
  have fl: "obj_flag (objs k (Obj_Timer ?r)) AND 2 = 0" "timeout_func (timers k ?r) = Thread_timeout t"
    using ok by (simp_all add: thread_timer_ok_def)
  have fl4: "obj_flag (objs k4 (Obj_Timer ?r)) AND 2 = 0"
    using fl(1) k4(5) by (simp add: k3_def timer_deactivate_objs)
  let ?k5 = "timer_remove ?r k4"
  have "timer_fire ucb ?r k = Some ?k5"
  proof -
    have "timer_fire ucb ?r k = Option.bind (thread_timeout t k3) (\<lambda>k4.
        if fired_list k4 = [] then Some k4
        else let k5 = timer_remove ?r k4; fl = obj_flag (objs k5 (Obj_Timer ?r))
             in if fl AND 2 \<noteq> 0 \<and> fl AND 1 \<noteq> 0 then
               do { (_, k6) \<leftarrow> rt_timer_start ?r (upd_obj (Obj_Timer ?r)
                      (\<lambda>ob. ob\<lparr>obj_flag := obj_flag ob AND NOT 1\<rparr>) k5); Some k6 }
             else Some k5)"
      using fl unfolding timer_fire_def Let_def call_timeout_def
      by (simp add: k3_def timer_deactivate_def timer_remove_def)
    then show ?thesis using k4(1,6) l3(3) fl4 by (simp add: timer_remove_def Let_def)
  qed
  moreover have tl: "timer_list ?k5 = timer_list k4" using d k4(3) by (simp add: timer_remove_def remove1_idem)
  then have "sinv ?k5" using k4(2) sinv_cong [of ?k5 k4] by (simp add: timer_remove_def)
  moreover have run: "runnable k3 u \<longleftrightarrow> runnable k u" for u using fr by (simp add: runnable_def)
  moreover have "timed_out t k ?k5"
  proof -
    have "objs k3 x = objs k x" if "\<forall>u. x \<noteq> Obj_Timer (Thread_timer u)" for x
      using that by (simp add: k3_def timer_deactivate_objs)
    moreover have "started ?k5 u = started k4 u" "started k3 u = started k u" "runnable ?k5 u = runnable k4 u" for u
      using fr by (simp_all add: started_def runnable_def timer_remove_def)
    ultimately show ?thesis
      using to fr run unfolding timed_out_def ipc_frame_def by (simp add: timer_remove_def)
  qed
  ultimately show ?thesis using tl k4 l3 to fr
    by (intro exI [of _ ?k5]) (auto simp: timer_remove_def timed_out_def runnable_def)
qed

lemma timer_check_loop_ok:
  assumes "sinv k" "current k \<noteq> None" "\<forall>r\<in>set (timer_list k). \<exists>t. r = Thread_timer t"
  shows "\<exists>k' fired. timer_check_loop ucb (tick k) k = Some k' \<and> sinv k' \<and> current k' \<noteq> None \<and>
     tick k' = tick k \<and> timers k' = timers k \<and> timer_list k = fired @ timer_list k' \<and>
     (\<forall>r\<in>set fired. tick k - timeout_tick (timers k r) < RT_TICK_MAX_HALF) \<and>
     (timer_list k' = [] \<or> \<not> tick k - timeout_tick (timers k (hd (timer_list k'))) < RT_TICK_MAX_HALF) \<and>
     (\<forall>u. runnable k u \<longrightarrow> runnable k' u) \<and>
     (\<forall>u. if Thread_timer u \<in> set fired then runnable k' u \<and> thread_error (threads k' u) = - RT_ETIMEOUT
          else thread_error (threads k' u) = thread_error (threads k u))"
  using assms
proof (induction "length (timer_list k)" arbitrary: k)
  case 0
  then show ?case by (simp add: timer_check_loop.simps)
next
  case (Suc n)
  then obtain r rs where l: "timer_list k = r # rs" by (cases "timer_list k") auto
  then obtain t where r: "r = Thread_timer t" using Suc.prems(3) by auto
  show ?case
  proof (cases "tick k - timeout_tick (timers k r) < RT_TICK_MAX_HALF")
    case False
    then have "timer_check_loop ucb (tick k) k = Some k" using l by (simp add: timer_check_loop.simps)
    then show ?thesis using Suc.prems l False by (intro exI [of _ k] exI [of _ "[]"]) simp
  next
    case True
    have "Thread_timer t \<in> set (timer_list k)" using l r by simp
    then obtain k1 where k1: "timer_fire ucb r k = Some k1" "sinv k1" "current k1 \<noteq> None" "timer_list k1 = rs"
       "timers k1 = timers k" "tick k1 = tick k" "runnable k1 t" "\<forall>u. runnable k u \<longrightarrow> runnable k1 u"
       "\<forall>u. thread_error (threads k1 u) = (if u = t then - RT_ETIMEOUT else thread_error (threads k u))"
      using thread_timer_fire [OF Suc.prems(1,2), of t ucb] l r by auto
    have "n = length (timer_list k1)" "\<forall>r\<in>set (timer_list k1). \<exists>t. r = Thread_timer t"
      using Suc.hyps(2) l k1(4) Suc.prems(3) by auto
    from Suc.hyps(1) [OF this(1) k1(2,3) this(2)] obtain k' fired where k':
      "timer_check_loop ucb (tick k) k1 = Some k'" "sinv k'" "current k' \<noteq> None" "tick k' = tick k"
      "timers k' = timers k" "rs = fired @ timer_list k'"
      "\<forall>r\<in>set fired. tick k - timeout_tick (timers k r) < RT_TICK_MAX_HALF"
      "timer_list k' = [] \<or> \<not> tick k - timeout_tick (timers k (hd (timer_list k'))) < RT_TICK_MAX_HALF"
      "\<forall>u. runnable k1 u \<longrightarrow> runnable k' u"
      "\<forall>u. if Thread_timer u \<in> set fired then runnable k' u \<and> thread_error (threads k' u) = - RT_ETIMEOUT
          else thread_error (threads k' u) = thread_error (threads k1 u)"
      unfolding k1(4,5,6) by blast
    have "timer_check_loop ucb (tick k) k = Some k'"
      using l True k1(1,6) k'(1) by (simp add: timer_check_loop.simps [of ucb _ k])
    moreover have "distinct (timer_list k)" using Suc.prems(1) by (simp add: sinv_def tinv_def)
    ultimately show ?thesis using l r True k1 k'
      by (intro exI [of _ k'] exI [of _ "r # fired"]) auto
  qed
qed

lemma runnable_fired: "runnable (k\<lparr>fired_list := l\<rparr>) u \<longleftrightarrow> runnable k u"
  by (simp add: runnable_def)

text \<open>
  C13.  The expiry loop on the timers of waiting threads: it ends; it fires exactly the longest
  prefix of the timer list whose times have passed (in the order of the list), the rest of the
  list stays; every thread whose timer fired can run again with the error \<open>-RT_ETIMEOUT\<close>,
  no other thread's error changes, no thread stops being able to run, and the kernel invariant
  is kept.
\<close>

theorem rt_timer_check_expires:
  assumes "sinv k" "current k \<noteq> None" "\<forall>r\<in>set (timer_list k). \<exists>t. r = Thread_timer t"
  shows "\<exists>k' fired. rt_timer_check ucb k = Some k' \<and> sinv k' \<and> tick k' = tick k \<and>
     timer_list k = fired @ timer_list k' \<and>
     (\<forall>r\<in>set fired. tick k - timeout_tick (timers k r) < RT_TICK_MAX_HALF) \<and>
     (timer_list k' = [] \<or> \<not> tick k - timeout_tick (timers k (hd (timer_list k'))) < RT_TICK_MAX_HALF) \<and>
     (\<forall>u. runnable k u \<longrightarrow> runnable k' u) \<and>
     (\<forall>u. if Thread_timer u \<in> set fired then runnable k' u \<and> thread_error (threads k' u) = - RT_ETIMEOUT
          else thread_error (threads k' u) = thread_error (threads k u))"
proof -
  let ?k = "k\<lparr>fired_list := []\<rparr>"
  have "sinv ?k" using assms(1) sinv_cong [of ?k k] by simp
  from timer_check_loop_ok [OF this, of ucb] assms(2,3) show ?thesis
    unfolding rt_timer_check_def by (simp add: runnable_fired cong: if_cong split del: if_split) blast
qed

definition sample_wait_kernel :: kernel where
  "sample_wait_kernel = sample_kernel\<lparr>timer_list := [Thread_timer 1, Thread_timer 3],
     objs := (\<lambda>r. if r \<in> {Obj_Timer (Thread_timer 1), Obj_Timer (Thread_timer 3)}
                  then (sample_object r)\<lparr>obj_flag := 1\<rparr> else sample_object r),
     timers := (\<lambda>r. if r = Thread_timer 3 then (sample_timer r)\<lparr>timeout_tick := 101\<rparr>
                    else (sample_timer r)\<lparr>timeout_tick := 100\<rparr>)\<rparr>"

lemma sample_wait_sinv: "sinv sample_wait_kernel"
proof -
  have "linked_ok sample_wait_kernel \<longleftrightarrow> linked_ok sample_kernel"
    "group_ok sample_wait_kernel \<longleftrightarrow> group_ok sample_kernel"
    "threads sample_wait_kernel = threads sample_kernel" "current sample_wait_kernel = current sample_kernel"
    by (simp_all add: linked_ok_def group_ok_def sample_wait_kernel_def)
  then have "kinv sample_wait_kernel" using sample_sinv by (simp add: sinv_def kinv_except_def)
  moreover have "tinv sample_wait_kernel"
    by (auto simp: tinv_def thread_timer_ok_def sample_wait_kernel_def sample_kernel_def rt_object_get_type_def
        rt_object_is_systemobject_def sample_object_def sample_timer_def sample_thread_def sample_stat_def)
  ultimately show ?thesis by (simp add: sinv_def)
qed

theorem rt_timer_check_expires_witness:
  "\<exists>k' fired. rt_timer_check (\<lambda>_. Some) sample_wait_kernel = Some k' \<and> sinv k' \<and>
     [Thread_timer 1, Thread_timer 3] = fired @ timer_list k'"
proof -
  have l: "timer_list sample_wait_kernel = [Thread_timer 1, Thread_timer 3]" "current sample_wait_kernel \<noteq> None"
    by (simp_all add: sample_wait_kernel_def sample_kernel_def)
  have "\<forall>r\<in>set (timer_list sample_wait_kernel). \<exists>t. r = Thread_timer t" by (simp add: l)
  from rt_timer_check_expires [OF sample_wait_sinv l(2) this, of "\<lambda>_. Some"] show ?thesis
    unfolding l(1) by blast
qed

text \<open>
  A periodic timer of interval 0 that is due: when it fires and its callback does not touch
  the kernel, it is due again at once.
\<close>

definition due_again :: "nat \<Rightarrow> kernel \<Rightarrow> bool" where
  "due_again n k \<longleftrightarrow> timer_list k = [Timer n] \<and> rt_object_get_type (Obj_Timer (Timer n)) k = class_code Class_Timer \<and>
     obj_flag (objs k (Obj_Timer (Timer n))) AND RT_TIMER_FLAG_PERIODIC \<noteq> 0 \<and>
     timer_active k (Timer n) \<and> init_tick (timers k (Timer n)) = 0 \<and>
     timeout_func (timers k (Timer n)) = User_timeout n \<and> timeout_tick (timers k (Timer n)) = tick k"

lemma due_again_fire:
  assumes "due_again n k"
  shows "\<exists>k'. timer_fire (\<lambda>_. Some) (Timer n) k = Some k' \<and> due_again n k'"
  using assms
  by (simp add: due_again_def timer_fire_def timer_remove_def call_timeout_def rt_timer_start_def
      timer_deactivate_def Let_def rt_object_get_type_def insert_at_def)

lemma due_again_never:
  assumes "timer_check_loop ucb now k = Some r"
  shows "ucb = (\<lambda>_. Some) \<longrightarrow> now = tick k \<longrightarrow> \<not> due_again n k"
proof (rule timer_check_loop.raw_induct [OF _ assms,
      where P = "\<lambda>ucb now k r. ucb = (\<lambda>_. Some) \<longrightarrow> now = tick k \<longrightarrow> \<not> due_again n k"], intro impI notI)
  fix loop ucb now k r
  assume IH: "\<And>ucb now k r. loop ucb now k = Some r \<Longrightarrow> ucb = (\<lambda>_. Some) \<longrightarrow> now = tick k \<longrightarrow> \<not> due_again n k"
    and b: "(case timer_list k of [] \<Rightarrow> Some k
      | r # _ \<Rightarrow> if now - timeout_tick (timers k r) < RT_TICK_MAX_HALF
          then Option.bind (timer_fire ucb r k) (\<lambda>k'. loop ucb (tick k') k') else Some k) = Some r"
    and u: "ucb = (\<lambda>_. Some)" and t: "now = tick k" and d: "due_again n k"
  obtain k' where k': "timer_fire (\<lambda>_. Some) (Timer n) k = Some k'" "due_again n k'"
    using due_again_fire [OF d] by blast
  have "timer_list k = [Timer n]" "now - timeout_tick (timers k (Timer n)) < RT_TICK_MAX_HALF"
    using d t by (simp_all add: due_again_def)
  then have "loop (\<lambda>_. Some) (tick k') k' = Some r" using b k'(1) u by simp
  then show False using IH k'(2) by blast
qed

text \<open>
  The expiry loop does not end for such a timer: every pass fires it and leaves a state
  of the same kind, so the call of \<open>rt_timer_check\<close> in the tick interrupt has no result.
  \<open>rt_timer_init\<close> accepts the interval 0.
\<close>

theorem rt_timer_check_diverges:
  assumes "due_again n k"
  shows "(\<exists>k'. timer_fire (\<lambda>_. Some) (Timer n) k = Some k' \<and> due_again n k') \<and>
     rt_timer_check (\<lambda>_. Some) k = None"
proof -
  have "due_again n (k\<lparr>fired_list := []\<rparr>)" using assms by (simp add: due_again_def rt_object_get_type_def)
  then have "rt_timer_check (\<lambda>_. Some) k = None"
    using due_again_never [of _ _ _ _ n] by (cases "rt_timer_check (\<lambda>_. Some) k") (auto simp: rt_timer_check_def)
  then show ?thesis using due_again_fire [OF assms] by blast
qed

definition sample_periodic_kernel :: kernel where
  "sample_periodic_kernel = sample_kernel\<lparr>timer_list := [Timer 0],
     objs := (\<lambda>r. (sample_object r)\<lparr>obj_flag := 3\<rparr>),
     timers := (\<lambda>r. (sample_timer r)\<lparr>timeout_tick := 100\<rparr>)\<rparr>"

theorem rt_timer_check_diverges_witness: "rt_timer_check (\<lambda>_. Some) sample_periodic_kernel = None"
proof -
  have "due_again 0 sample_periodic_kernel"
    by (simp add: due_again_def sample_periodic_kernel_def sample_kernel_def sample_object_def sample_timer_def
        rt_object_get_type_def)
  from rt_timer_check_diverges [OF this] show ?thesis by simp
qed

text \<open>
  C10.  The choice of \<open>rt_schedule\<close> in an unlocked scheduler: it returns, and the thread that
  has the processor afterwards can run and has the best priority of all threads that can run;
  it is the former current thread or the first of the ready threads of its priority.
\<close>

theorem rt_schedule_picks_best:
  assumes "sinv k" "current k = Some c" "lock_nest k = 0" "runnable k u"
  shows "\<exists>k' n. rt_schedule k = Some k' \<and> sinv k' \<and> sched_rel k k' \<and> current k' = Some n \<and> runnable k n \<and>
     tstat k' n = RT_THREAD_RUNNING \<and> (\<forall>t. runnable k t \<longrightarrow> prio k n \<le> prio k t) \<and>
     (n = c \<or> (\<exists>ts. lists k (Ready (prio k n)) = n # ts))"
proof -
  have k: "kinv k" using assms(1) by (simp add: sinv_def)
  obtain k' where k': "rt_schedule k = Some k'" "sinv k'" "sched_rel k k'"
    using rt_schedule_sinv [OF assms(1)] assms(2) by auto
  from rt_schedule_choice [OF k assms(2,3) k'(1) assms(4)] k' show ?thesis by blast
qed

theorem rt_schedule_picks_best_witness:
  "\<exists>k'. rt_schedule sample_kernel = Some k' \<and> current k' \<noteq> None"
proof -
  have "current sample_kernel = Some 0" "lock_nest sample_kernel = 0" "runnable sample_kernel 2"
    by (simp_all add: sample_simps runnable_def)
  from rt_schedule_picks_best [OF sample_sinv this] show ?thesis by auto
qed

section \<open>Taking turns\<close>

text \<open>
  The threads that share the best ready priority \<open>p\<close>: the running one and, in their order,
  those of the ready list.
\<close>

definition turn_line :: "nat \<Rightarrow> tid list \<Rightarrow> kernel \<Rightarrow> bool" where
  "turn_line p line k \<longleftrightarrow> sinv k \<and> lock_nest k = 0 \<and> line \<noteq> [] \<and> current k = Some (hd line) \<and>
     tstat k (hd line) = RT_THREAD_RUNNING \<and> prio k (hd line) = p \<and> lists k (Ready p) = tl line \<and>
     (\<forall>q<p. lists k (Ready q) = [])"

text \<open>The effect of a switch from the running thread \<open>c\<close> to the first thread of its own list.\<close>

lemma rt_schedule_rotate:
  assumes k: "kinv k" and c: "current k = Some c" "tstat k c = RT_THREAD_RUNNING" "lock_nest k = 0"
    and l: "lists k (Ready (prio k c)) = f # fs" and y: "stat (threads k c) AND 8 \<noteq> 0"
    and h: "scheduler_get_highest_priority_thread k = Some (prio k c, f)" "ready_group k \<noteq> 0"
    and r: "rt_schedule k = Some k'"
  shows "lists k' = (lists k)(Ready (prio k c) := fs @ [c])"
proof -
  let ?p = "prio k c"
  note fm = ready_member [OF k, of f ?p, simplified l, simplified]
  have cok: "tlist (threads k c) = None" "prio_ok (threads k c)"
    using kinv_thread [OF k, of c] c(2) by (auto dest: running_unlinked)
  have fc: "f \<noteq> c" using fm c by auto
  have d: "c \<notin> set fs" "f \<notin> set fs"
    using kinv_linked [OF k] l cok(1) by (metis linked_ok_def list.set_intros(2) option.distinct(1), metis linked_ok_def l distinct.simps(2))
  show ?thesis
    using r c l y h fc cok fm
    by (auto simp: rt_schedule_def Let_def rt_schedule_insert_thread_def rt_schedule_remove_thread_def
        list_insert_before_def list_insert_at_def list_remove_def prio_ok_def insert_at_def set_stat_def
        bind_eq_Some_conv fun_eq_iff split: if_splits)
qed

lemma turn_line_yield:
  assumes "turn_line p line k"
  shows "\<exists>k'. rt_thread_yield k = Some (RT_EOK, k') \<and> turn_line p (rotate1 line) k'"
proof -
  obtain c fs where ln: "line = c # fs" using assms by (cases line) (auto simp: turn_line_def)
  have s: "sinv k" and c: "current k = Some c" "tstat k c = RT_THREAD_RUNNING" "lock_nest k = 0" "prio k c = p"
      "lists k (Ready p) = fs" "\<forall>q<p. lists k (Ready q) = []"
    using assms by (simp_all add: turn_line_def ln)
  let ?f = "\<lambda>th. th\<lparr>remaining_tick := thread_init_tick th, stat := stat th OR 8\<rparr>"
  define k1 where "k1 = upd_thread c ?f k"
  have s1: "sinv k1" using s sinv_upd_neutral [where k = k and t = c and f = ?f] by (simp add: k1_def)
  have kk: "kinv k1" using s1 by (simp add: sinv_def)
  have c1: "current k1 = Some c" "tstat k1 c = RT_THREAD_RUNNING" "lock_nest k1 = 0" "prio k1 c = p"
      "lists k1 = lists k" "prio k1 u = prio k u" for u using c by (simp_all add: k1_def)
  have y: "stat (threads k1 c) AND 8 \<noteq> 0"
  proof -
    have "bit (stat (threads k1 c) AND 8) 3" by (simp add: k1_def bit_simps)
    then show ?thesis by auto
  qed
  obtain k' where k': "rt_schedule k1 = Some k'" "sinv k'" "sched_rel k1 k'"
    using rt_schedule_sinv [OF s1] c1(1) by auto
  have yd: "rt_thread_yield k = Some (RT_EOK, k')"
    using k'(1) c(1) by (simp add: rt_thread_yield_def rt_thread_self_def k1_def)
  have pr: "prio k' u = prio k u" for u using sched_rel_thread(1) [OF k'(3)] c1(6) by simp
  have ln0: "lock_nest k' = 0" using sched_rel_frame(4) [OF k'(3)] c1(3) by simp
  show ?thesis
  proof (cases fs)
    case Nil
    have "current k' = Some c \<and> tstat k' c = RT_THREAD_RUNNING \<and> lists k' = lists k"
    proof (cases "ready_group k1 = 0")
      case True
      then show ?thesis using k'(1) c1 by (auto simp: rt_schedule_def)
    next
      case False
      then obtain q f ts where h: "scheduler_get_highest_priority_thread k1 = Some (q, f)" "lists k1 (Ready q) = f # ts"
        using highest_thread [OF kk] by blast
      have "p \<noteq> q" "\<not> q < p" using h(2) c(5,6) Nil c1(5) by auto
      then show ?thesis using rt_schedule_keep [OF kk c1(1,3) False h(1) c1(2)] k'(1) c1 by auto
    qed
    then show ?thesis using yd k'(2) ln0 pr c ln Nil by (auto simp: turn_line_def)
  next
    case (Cons f gs)
    have rg: "ready_group k1 \<noteq> 0" using kk Cons c(5) c1(5) group_nonzero [of k1] by (auto simp: kinv_except_def)
    obtain q g ts where h: "scheduler_get_highest_priority_thread k1 = Some (q, g)" "lists k1 (Ready q) = g # ts"
       "\<forall>q'. lists k1 (Ready q') \<noteq> [] \<longrightarrow> q \<le> q'"
      using highest_thread [OF kk rg] by blast
    have "q \<le> p" "\<not> q < p" using h(2,3) c(5,6) Cons c1(5) by auto
    then have q: "q = p" "g = f" using h(2) c(5) Cons c1(5) by auto
    have l: "lists k1 (Ready (prio k1 c)) = f # gs" using c(5) Cons c1(4,5) by simp
    have "lists k' = (lists k1)(Ready (prio k1 c) := gs @ [c])"
      by (rule rt_schedule_rotate [OF kk c1(1-3) l y _ rg k'(1)]) (use h(1) q c1(4) in simp)
    moreover have nk: "\<not> (tstat k1 c = RT_THREAD_RUNNING \<and> (prio k1 c < p \<or>
              prio k1 c = p \<and> stat (threads k1 c) AND RT_THREAD_STAT_YIELD = 0))" using y c1(4) by simp
    have "current k' = Some f \<and> tstat k' f = RT_THREAD_RUNNING"
      using rt_schedule_switch [OF kk c1(1,3) rg _ nk] h(1) q k'(1) by auto
    moreover have "prio k f = p" using ready_member(2) [of "{}" k1 f p] kk l c1 by simp
    ultimately show ?thesis using yd k'(2) ln0 pr c c1 ln Cons by (auto simp: turn_line_def)
  qed
qed

primrec yield_times :: "nat \<Rightarrow> kernel \<Rightarrow> kernel option" where
  "yield_times 0 k = Some k"
| "yield_times (Suc n) k = do { (_, k') \<leftarrow> rt_thread_yield k; yield_times n k' }"

text \<open>
  C11.  Round robin: when the threads of the best priority do nothing but yield, every call
  returns and they have the processor in turns: after \<open>n\<close> calls the line of the running
  thread and the ready ones behind it is the old line rotated by \<open>n\<close>, so each thread of a
  line of \<open>m\<close> runs once in every \<open>m\<close> calls.
\<close>

theorem yield_round_robin:
  assumes "turn_line p line k"
  shows "\<exists>k'. yield_times n k = Some k' \<and> turn_line p (rotate n line) k' \<and>
     current k' = Some (line ! (n mod length line))"
proof -
  have "\<exists>k'. yield_times n k = Some k' \<and> turn_line p (rotate n line) k'"
    using assms
  proof (induction n arbitrary: k line)
    case (Suc n)
    obtain k1 where k1: "rt_thread_yield k = Some (RT_EOK, k1)" "turn_line p (rotate1 line) k1"
      using turn_line_yield [OF Suc.prems] by blast
    from Suc.IH [OF k1(2)] k1(1) show ?case by (simp add: rotate1_rotate_swap)
  qed simp
  moreover have "line \<noteq> []" using assms by (simp add: turn_line_def)
  ultimately show ?thesis by (auto simp: turn_line_def hd_rotate_conv_nth)
qed

text \<open>Three threads of priority 10, thread 2 running.\<close>

definition sample_turn_kernel :: kernel where
  "sample_turn_kernel = sample_kernel\<lparr>current := Some 2,
     threads := (\<lambda>t. if t = 2 then (sample_thread 2)\<lparr>stat := RT_THREAD_RUNNING, tlist := None\<rparr>
        else if t = 8 \<or> t = 9 then (sample_thread t)\<lparr>stat := RT_THREAD_READY, tlist := Some (Ready 10)\<rparr>
        else if t = 0 then (sample_thread 0)\<lparr>stat := RT_THREAD_INIT\<rparr> else sample_thread t),
     lists := (\<lambda>h. if h = Ready 10 then [8, 9] else lists sample_kernel h)\<rparr>"

lemma sample_turn_line: "turn_line 10 [2, 8, 9] sample_turn_kernel"
proof -
  let ?k = sample_turn_kernel
  have "linked_ok ?k"
    using sample_link_range
    by (auto simp: linked_ok_def sample_turn_kernel_def sample_kernel_def sample_thread_def split: if_splits)
  moreover have "bit (2 ^ 10 :: u32) p \<longleftrightarrow> p = 10" for p using bit_mask_bit [of 0 10 p] by (simp only: or.left_neutral bit_0_eq bot_apply) auto
  then have "group_ok ?k"
    unfolding group_ok_def sample_turn_kernel_def sample_kernel_def kernel.simps sample_ready by simp
  moreover have "thread_ok (current ?k) t (threads ?k t)" for t
  proof (cases "t \<in> {0, 2, 8, 9}")
    case True
    then show ?thesis
      by (auto simp: sample_turn_kernel_def thread_ok_def stat_ok_def prio_ok_def sample_thread_def
          sample_prio_def sample_stat_def)
  next
    case False
    then have "threads ?k t = sample_thread t" "sample_stat t \<noteq> 3"
      by (simp_all add: sample_turn_kernel_def sample_stat_def)
    moreover have "current ?k = Some 2" by (simp add: sample_turn_kernel_def)
    moreover have "sample_stat t AND 7 \<noteq> 3" using False by (simp add: sample_stat_def)
    ultimately show ?thesis using sample_thread_ok [of t] False by (simp add: thread_ok_def sample_thread_def)
  qed
  ultimately have "kinv ?k" by (simp add: kinv_except_def)
  moreover have "tinv ?k"
    by (simp add: tinv_def thread_timer_ok_def sample_turn_kernel_def sample_kernel_def rt_object_get_type_def
        rt_object_is_systemobject_def sample_object_def sample_timer_def)
  ultimately show ?thesis
    by (simp add: turn_line_def sinv_def sample_turn_kernel_def sample_thread_def sample_prio_def sample_kernel_def upt_rec)
qed

theorem yield_round_robin_witness:
  "\<exists>k'. yield_times 4 sample_turn_kernel = Some k' \<and> current k' = Some 8"
proof -
  have "[2, 8, 9 :: nat] ! (4 mod length [2, 8, 9 :: nat]) = 8" by code_simp
  then show ?thesis using yield_round_robin [OF sample_turn_line, of 4] by metis
qed

section \<open>Find first set and time conversion\<close>

text \<open>
  C40.  The three implementations of find-first-set compute the same function: the bit
  reversal and count of leading zeros of the processor port, the byte-wise table lookup and
  the table of remainders modulo 37 of the kernel services, on every 32-bit value.
\<close>

theorem ffs_equivalent: "rt_ffs_table x = rt_ffs x \<and> rt_ffs_tiny x = rt_ffs x"
  by (simp add: rt_ffs_tiny_eq rt_ffs_table_eq)

lemma thread_arm_sorted:
  assumes "timers_sorted k" "thread_timer_ok k t" "x < RT_TICK_MAX_HALF" "thread_arm t x k = Some k'"
  shows "timers_sorted k' \<and> timer_left k' (Thread_timer t) = unat x \<and>
     set (timer_list k') = insert (Thread_timer t) (set (timer_list k))"
proof -
  let ?r = "Thread_timer t"
  let ?k1 = "upd_timer ?r (\<lambda>tm. tm\<lparr>init_tick := x\<rparr>) k"
  have ty: "rt_object_get_type (Obj_Timer ?r) ?k1 = class_code Class_Timer"
    using assms(2) by (simp add: thread_timer_ok_def rt_object_get_type_def)
  have "timer_left ?k1 = timer_left k" by (auto simp: timer_left_def fun_eq_iff)
  then have "timers_sorted ?k1" using assms(1) by (simp add: timers_sorted_def)
  from timer_start_sorted [OF this ty] assms(3) obtain k2 as bs where k2:
    "rt_timer_start ?r ?k1 = Some (RT_EOK, k2)" "timers_sorted k2" "remove1 ?r (timer_list k) = as @ bs"
    "timer_list k2 = as @ ?r # bs" "timer_left k2 ?r = unat x" by auto
  have "rt_object_get_type (Obj_Timer ?r) k = class_code Class_Timer"
    using assms(2) by (simp add: thread_timer_ok_def)
  then have "k' = k2" using k2(1) assms(3,4) by (simp add: thread_arm_def rt_timer_control_def)
  moreover have "set (as @ bs) = set (timer_list k) - {?r}"
    using k2(3) assms(1) set_remove1_eq [of "timer_list k" ?r] by (simp add: timers_sorted_def)
  ultimately show ?thesis using k2 by auto
qed

text \<open>What is expired at a later tick, for a timer that was due in \<open>l\<close> ticks.\<close>

lemma expired_after:
  fixes now tmo y :: u32
  assumes "unat (tmo - now) < 0x7fffffff" "unat y < 0x7fffffff"
  shows "now + y - tmo < RT_TICK_MAX_HALF \<longleftrightarrow> unat (tmo - now) \<le> unat y"
proof -
  have e: "now + y - tmo = y - (tmo - now)" by simp
  show ?thesis
  proof (cases "unat (tmo - now) \<le> unat y")
    case True
    then have "unat (y - (tmo - now)) = unat y - unat (tmo - now)" by (simp add: unat_sub_if')
    then show ?thesis using True assms unfolding e by (simp add: word_less_nat_alt)
  next
    case False
    then have "unat (y - (tmo - now)) = unat y + 2 ^ 32 - unat (tmo - now)" by (simp add: unat_sub_if')
    then show ?thesis using False assms unfolding e by (simp add: word_less_nat_alt)
  qed
qed

lemma sleep_for_sorted:
  assumes s: "sinv k" and c: "current k = Some t" "tstat k t = RT_THREAD_RUNNING"
    and x: "x < RT_TICK_MAX_HALF" and ts: "timers_sorted k"
    and r: "thread_sleep_for t x k = Some k'"
  shows "timers_sorted k' \<and> timer_left k' (Thread_timer t) = unat x \<and> tick k' = tick k \<and>
     set (timer_list k') = insert (Thread_timer t) (set (timer_list k))"
proof -
  let ?k1 = "upd_thread t (set_stat RT_THREAD_SUSPEND) k"
  note sp = suspend_ok [OF s c]
  obtain k2 where k2: "thread_arm t x ?k1 = Some k2" "sinv k2" "timer_rel ?k1 k2"
    using thread_arm_ok [OF sp(2,4) x] by blast
  have ok: "thread_timer_ok ?k1 t" using sp(2,4) by (auto simp: sinv_def tinv_def started_def)
  have tl: "timer_left ?k1 = timer_left k" by (auto simp: timer_left_def fun_eq_iff)
  then have "timers_sorted ?k1" using ts by (simp add: timers_sorted_def)
  note a = thread_arm_sorted [OF this ok x k2(1)]
  have "tick k2 = tick k" using timer_rel_frame(7) [OF k2(3)] by simp
  moreover let ?k3 = "k2\<lparr>saved := (saved k2)(t := In_sleep)\<rparr>"
  have s3: "sinv ?k3" "current ?k3 \<noteq> None"
    using k2(2) sinv_cong [of ?k3 k2] timer_rel_frame(6) [OF k2(3)] c by simp_all
  have "rt_schedule ?k3 = Some k'" using r sp(1) k2(1) by (simp add: thread_sleep_for_def)
  then have sr: "sched_rel ?k3 k'" using rt_schedule_sinv [OF s3] by auto
  have "timers k' = timers k2" "timer_list k' = timer_list k2" "tick k' = tick k2"
    using sched_rel_frame [OF sr] by simp_all
  moreover from this have "timer_left k' = timer_left k2" by (simp add: timer_left_def fun_eq_iff)
  ultimately show ?thesis using a by (simp add: timers_sorted_def)
qed

section \<open>Closed threads\<close>

text \<open>
  Time conversion at 1000 ticks per second: every non-negative number of milliseconds is
  the same number of ticks, without overflow, and every negative one is waiting for ever.
\<close>

theorem rt_tick_from_millisecond_exact:
  "rt_tick_from_millisecond ms = (if sint ms < 0 then - 1 else ms)"
proof (cases "sint ms < 0")
  case False
  have "(1000 * m + 999) div 1000 = m" for m :: int using div_mult_self4 [of 1000 999 m] by (simp add: add.commute)
  then have e: "rt_tick_from_millisecond ms = word_of_int (1000 * (sint ms div 1000)) + word_of_int (sint ms mod 1000)"
    using False by (simp add: rt_tick_from_millisecond_def)
  show ?thesis unfolding e wi_hom_add using False by simp
qed (simp add: rt_tick_from_millisecond_def)

lemma defunct_dequeue_ok:
  assumes s: "sinv k" and l: "lists k Defunct = t # ts"
  shows "fst (rt_thread_defunct_dequeue k) = Some t" "sinv (snd (rt_thread_defunct_dequeue k))"
    "lists (snd (rt_thread_defunct_dequeue k)) Defunct = ts"
    "objs (snd (rt_thread_defunct_dequeue k)) = objs k" "containers (snd (rt_thread_defunct_dequeue k)) = containers k"
    "tstat (snd (rt_thread_defunct_dequeue k)) u = tstat k u"
proof -
  let ?k = "list_remove t k"
  have k: "kinv k" and ti: "tinv k" using s by (auto simp: sinv_def)
  have tl: "tlist (threads k t) = Some Defunct" using linked_in [OF kinv_linked [OF k], of t Defunct] l by simp
  have e: "?k = k\<lparr>threads := (threads k)(t := (threads k t)\<lparr>tlist := None\<rparr>),
      lists := (lists k)(Defunct := ts)\<rparr>" using tl l by (simp add: list_remove_def)
  have th: "thread_ok (current k) t (threads k t)" using kinv_thread [OF k] by simp
  then have st: "tstat k t = RT_THREAD_CLOSE" using tl by (simp add: thread_ok_def stat_ok_def)
  have "linked_ok ?k" by (rule linked_ok_remove [OF kinv_linked [OF k]])
  moreover have "group_ok ?k" using k by (simp add: e kinv_except_def group_ok_def)
  moreover have "thread_ok (current ?k) u (threads ?k u)" for u
    using kinv_thread [OF k, of u] th st by (cases "u = t") (auto simp: e thread_ok_def stat_ok_def)
  ultimately have "kinv ?k" by (simp add: kinv_except_def)
  moreover have "tinv ?k" by (rule tinv_threads [OF ti]) (auto simp: e started_def runnable_def split: if_splits)
  ultimately show "fst (rt_thread_defunct_dequeue k) = Some t" "sinv (snd (rt_thread_defunct_dequeue k))"
    "lists (snd (rt_thread_defunct_dequeue k)) Defunct = ts"
    "objs (snd (rt_thread_defunct_dequeue k)) = objs k" "containers (snd (rt_thread_defunct_dequeue k)) = containers k"
    "tstat (snd (rt_thread_defunct_dequeue k)) u = tstat k u"
    by (simp_all add: rt_thread_defunct_dequeue_def l sinv_def) (simp_all add: e)
qed

text \<open>
  The documented duty of a cleanup function: it returns and leaves the kernel's own data alone.
\<close>

definition cleanup_neutral :: "(nat \<Rightarrow> tid \<Rightarrow> kernel \<Rightarrow> kernel option) \<Rightarrow> bool" where
  "cleanup_neutral ccb \<longleftrightarrow> (\<forall>n t k. ccb n t k = Some k)"

lemma defunct_one_ok:
  assumes s: "sinv k" and st: "tstat k t = RT_THREAD_CLOSE" and c: "cleanup_neutral ccb"
  shows "\<exists>k'. defunct_one ccb t k = Some k' \<and> sinv k' \<and> lists k' = lists k \<and> threads k' = threads k \<and>
     (\<forall>c. containers k' c = remove1 (Obj_Thread t) (containers k c)) \<and>
     obj_type (objs k' (Obj_Thread t)) = 0 \<and> (\<forall>r. r \<noteq> Obj_Thread t \<longrightarrow> objs k' r = objs k r)"
proof -
  let ?k = "rt_object_detach (Obj_Thread t) k"
  have one: "defunct_one ccb t k = Some ?k"
    using c by (auto simp: defunct_one_def Let_def cleanup_neutral_def rt_object_detach_def rt_object_delete_def
        rt_object_is_systemobject_def split: option.splits)
  have "kinv ?k" using s kinv_cong [of ?k k] by (simp add: sinv_def rt_object_detach_def Let_def)
  have "thread_timer_ok ?k u \<longleftrightarrow> thread_timer_ok k u" if "u \<noteq> t" for u
    using that by (simp add: thread_timer_ok_def rt_object_get_type_def rt_object_is_systemobject_def rt_object_detach_def Let_def)
  moreover have "threads ?k = threads k" "timer_list ?k = timer_list k" by (simp_all add: rt_object_detach_def Let_def)
  moreover have "u \<noteq> t" if "started k u" for u using that st by (auto simp: started_def runnable_def)
  ultimately have "tinv ?k" using s by (auto simp: sinv_def tinv_def started_def runnable_def)
  moreover have "kinv ?k" by fact
  ultimately show ?thesis using one by (auto simp: sinv_def rt_object_detach_def Let_def)
qed

text \<open>
  The idle thread's reclaiming loop ends with no closed thread left: every thread of the
  list of closed threads has lost its object and left the containers, every other object is
  where it was, and the kernel invariant is kept.
\<close>

theorem rt_defunct_execute_reclaims:
  assumes "sinv k" "cleanup_neutral ccb" "\<forall>c. distinct (containers k c)"
  shows "\<exists>k'. rt_defunct_execute ccb k = Some k' \<and> sinv k' \<and> lists k' Defunct = [] \<and>
     (\<forall>c. containers k' c = filter (\<lambda>r. r \<notin> Obj_Thread ` set (lists k Defunct)) (containers k c)) \<and>
     (\<forall>t\<in>set (lists k Defunct). obj_type (objs k' (Obj_Thread t)) = 0) \<and>
     (\<forall>r. r \<notin> Obj_Thread ` set (lists k Defunct) \<longrightarrow> objs k' r = objs k r)"
  using assms(1,3)
proof (induction "lists k Defunct" arbitrary: k)
  case Nil
  then have "rt_defunct_execute ccb k = Some k"
    by (simp add: rt_defunct_execute.simps [of ccb k] rt_thread_defunct_dequeue_def)
  then show ?case using Nil by (simp add: Nil.hyps [symmetric])
next
  case (Cons t ts)
  let ?k1 = "snd (rt_thread_defunct_dequeue k)"
  note l = Cons.hyps(2) [symmetric]
  note d = defunct_dequeue_ok [OF Cons.prems(1) l]
  have k: "kinv k" using Cons.prems(1) by (simp add: sinv_def)
  have tl: "tlist (threads k t) = Some Defunct" using linked_in [OF kinv_linked [OF k], of t Defunct] l by simp
  have "thread_ok (current k) t (threads k t)" using kinv_thread [OF k] by simp
  then have "tstat ?k1 t = RT_THREAD_CLOSE" using d(6) tl by (simp add: thread_ok_def stat_ok_def)
  then obtain k2 where k2: "defunct_one ccb t ?k1 = Some k2" "sinv k2" "lists k2 = lists ?k1"
    "\<forall>c. containers k2 c = remove1 (Obj_Thread t) (containers ?k1 c)" "obj_type (objs k2 (Obj_Thread t)) = 0"
    "\<forall>r. r \<noteq> Obj_Thread t \<longrightarrow> objs k2 r = objs ?k1 r"
    using defunct_one_ok [OF d(2) _ assms(2)] by blast
  have "\<forall>c. distinct (containers k2 c)" "ts = lists k2 Defunct" using k2(3,4) d(3,5) Cons.prems(2) by simp_all
  from Cons.hyps(1) [OF this(2) k2(2) this(1)] obtain k' where k':
    "rt_defunct_execute ccb k2 = Some k'" "sinv k'" "lists k' Defunct = []"
    "\<forall>c. containers k' c = filter (\<lambda>r. r \<notin> Obj_Thread ` set ts) (containers k2 c)"
    "\<forall>t\<in>set ts. obj_type (objs k' (Obj_Thread t)) = 0"
    "\<forall>r. r \<notin> Obj_Thread ` set ts \<longrightarrow> objs k' r = objs k2 r" unfolding k2(3) d(3) by blast
  have "rt_defunct_execute ccb k = Some k'"
    using d(1) k2(1) k'(1) by (simp add: rt_defunct_execute.simps [of ccb k])
  moreover have "containers k' c = filter (\<lambda>r. r \<notin> Obj_Thread ` set (t # ts)) (containers k c)" for c
    using k'(4) k2(4) d(5) Cons.prems(2) by (auto simp: distinct_remove1_removeAll removeAll_filter_not_eq intro: filter_cong)
  moreover have "t \<notin> set ts" using kinv_linked [OF k] l by (metis linked_ok_def distinct.simps(2))
  then have "obj_type (objs k' (Obj_Thread t)) = 0" using k'(6) k2(5) by auto
  moreover have "objs k' r = objs k r" if "r \<notin> Obj_Thread ` set (t # ts)" for r
    using that k'(6) k2(6) d(4) by auto
  ultimately show ?case unfolding l using k' by auto
qed

definition sample_defunct_kernel :: kernel where
  "sample_defunct_kernel = sample_kernel\<lparr>
     threads := (threads sample_kernel)(8 := (sample_thread 8)\<lparr>stat := RT_THREAD_CLOSE, tlist := Some Defunct\<rparr>),
     lists := (lists sample_kernel)(Defunct := [8]),
     containers := (\<lambda>c. if c = Class_Thread then [Obj_Thread 8, Obj_Thread 0] else [])\<rparr>"

lemma sample_defunct_sinv: "sinv sample_defunct_kernel"
proof -
  let ?k = sample_defunct_kernel
  have l: "linked_ok sample_kernel" "group_ok sample_kernel" "tinv sample_kernel"
    using sample_sinv by (auto simp: sinv_def kinv_except_def)
  have n: "lists sample_kernel Defunct = []" by (simp add: sample_kernel_def upt_rec)
  have t8: "tlist (threads sample_kernel 8) = None" by (simp add: sample_kernel_def sample_thread_def)
  have nd: "tlist (threads sample_kernel t) \<noteq> Some Defunct" for t
    using linked_in [OF l(1), of t Defunct] n by simp
  have "linked_ok ?k"
    using l(1) t8 nd unfolding linked_ok_def sample_defunct_kernel_def by auto
  moreover have "group_ok ?k" using l(2) by (simp add: group_ok_def sample_defunct_kernel_def)
  moreover have "thread_ok (current ?k) t (threads ?k t)" for t
  proof (cases "t = 8")
    case True
    then show ?thesis by (simp add: sample_defunct_kernel_def thread_ok_def stat_ok_def sample_kernel_def)
  next
    case False
    then have "threads ?k t = threads sample_kernel t" "current ?k = current sample_kernel"
      by (simp_all add: sample_defunct_kernel_def)
    then show ?thesis using kinv_thread [of "{}" sample_kernel t] sample_sinv by (simp add: sinv_def)
  qed
  ultimately have "kinv ?k" by (simp add: kinv_except_def)
  moreover have "tinv ?k" unfolding sample_defunct_kernel_def
    using l(3) by (simp add: tinv_def sample_kernel_def thread_timer_ok_def rt_object_get_type_def
        rt_object_is_systemobject_def sample_object_def sample_timer_def)
  ultimately show ?thesis by (simp add: sinv_def)
qed

theorem rt_defunct_execute_reclaims_witness:
  "\<exists>k'. rt_defunct_execute (\<lambda>n t. Some) sample_defunct_kernel = Some k' \<and> sinv k' \<and>
     containers k' Class_Thread = [Obj_Thread 0]"
proof -
  have l: "lists sample_defunct_kernel Defunct = [8]"
    "containers sample_defunct_kernel Class_Thread = [Obj_Thread 8, Obj_Thread 0]"
    "\<forall>c. distinct (containers sample_defunct_kernel c)" by (simp_all add: sample_defunct_kernel_def)
  have "cleanup_neutral (\<lambda>n t. Some)" by (simp add: cleanup_neutral_def)
  from rt_defunct_execute_reclaims [OF sample_defunct_sinv this l(3)] l show ?thesis by force
qed

end
