(* ===== verification/Small_Mem.thy ===== *)
theory Small_Mem
  imports Object
begin

text \<open>
  \<^verbatim>\<open>rt-thread/src/mem.c\<close>, the small memory management that is the system heap of this
  configuration.  The managed area is a row of blocks, each with a header
  (\<open>struct rt_small_mem_item\<close>) of 12 bytes that holds the offsets of its neighbours and, in
  \<open>pool_ptr\<close>, the address of the heap object with the bit for a used block.

  A pointer into the area that the heap keeps (\<open>lfree\<close>, \<open>heap_end\<close>) is its offset from
  \<open>heap_ptr\<close>; pointers that are exchanged with the caller are addresses, \<open>None\<close> for
  \<open>RT_NULL\<close>.  The headers are a map over offsets and the bytes of the area another one: the
  invariant in theory \<open>Heap_Row\<close> says that the headers in use never overlap the memory that was
  handed out.  \<open>RT_USING_MEMTRACE\<close> is off.  The object header of the heap is in the kernel state;
  \<open>n\<close> is its number there.
\<close>

section \<open>Operations\<close>

record smem_item =
  pool_ptr :: u32
  item_next :: u32
  item_prev :: u32

record rt_small_mem =
  smem_addr :: u32
  mem_address :: u32
  mem_total :: u32
  mem_used :: u32
  mem_max :: u32
  heap_end :: u32
  lfree :: u32
  mem_size_aligned :: u32
  items :: "u32 \<Rightarrow> smem_item"
  bytes :: "u32 \<Rightarrow> u8"

abbreviation (input) RT_ALIGN_SIZE :: u32 where "RT_ALIGN_SIZE \<equiv> 4"
abbreviation (input) SIZEOF_STRUCT_MEM :: u32 where "SIZEOF_STRUCT_MEM \<equiv> 12"
abbreviation (input) MIN_SIZE :: u32 where "MIN_SIZE \<equiv> 12"
abbreviation (input) MIN_SIZE_ALIGNED :: u32 where "MIN_SIZE_ALIGNED \<equiv> 12"
abbreviation (input) MEM_MASK :: u32 where "MEM_MASK \<equiv> 0xfffffffe"

text \<open>\<open>sizeof(struct rt_small_mem)\<close> on the 32-bit target.\<close>

abbreviation (input) SIZEOF_SMALL_MEM :: u32 where "SIZEOF_SMALL_MEM \<equiv> 56"

abbreviation upd_item :: "u32 \<Rightarrow> (smem_item \<Rightarrow> smem_item) \<Rightarrow> rt_small_mem \<Rightarrow> rt_small_mem" where
  "upd_item p f h \<equiv> h\<lparr>items := (items h)(p := f (items h p))\<rparr>"

definition MEM_USED :: "rt_small_mem \<Rightarrow> u32" where
  "MEM_USED h = (smem_addr h AND MEM_MASK) OR 1"

definition MEM_FREED :: "rt_small_mem \<Rightarrow> u32" where
  "MEM_FREED h = (smem_addr h AND MEM_MASK) OR 0"

definition MEM_ISUSED :: "rt_small_mem \<Rightarrow> u32 \<Rightarrow> bool" where
  "MEM_ISUSED h p \<longleftrightarrow> pool_ptr (items h p) AND NOT MEM_MASK \<noteq> 0"

definition MEM_POOL :: "rt_small_mem \<Rightarrow> u32 \<Rightarrow> u32" where
  "MEM_POOL h p = pool_ptr (items h p) AND MEM_MASK"

definition plug_forward :: "u32 \<Rightarrow> rt_small_mem \<Rightarrow> rt_small_mem" where
  "plug_forward mem m =
     (let nmem = item_next (items m mem) in
      if mem \<noteq> nmem \<and> \<not> MEM_ISUSED m nmem \<and> nmem \<noteq> heap_end m then
        let m1 = (if lfree m = nmem then m\<lparr>lfree := mem\<rparr> else m);
            m2 = upd_item nmem (\<lambda>i. i\<lparr>pool_ptr := 0\<rparr>) m1;
            m3 = upd_item mem (\<lambda>i. i\<lparr>item_next := item_next (items m2 nmem)\<rparr>) m2
        in upd_item (item_next (items m3 nmem)) (\<lambda>i. i\<lparr>item_prev := mem\<rparr>) m3
      else m)"

definition plug_backward :: "u32 \<Rightarrow> rt_small_mem \<Rightarrow> rt_small_mem" where
  "plug_backward mem m =
     (let pmem = item_prev (items m mem) in
      if pmem \<noteq> mem \<and> \<not> MEM_ISUSED m pmem then
        let m1 = (if lfree m = mem then m\<lparr>lfree := pmem\<rparr> else m);
            m2 = upd_item mem (\<lambda>i. i\<lparr>pool_ptr := 0\<rparr>) m1;
            m3 = upd_item pmem (\<lambda>i. i\<lparr>item_next := item_next (items m2 mem)\<rparr>) m2
        in upd_item (item_next (items m3 mem)) (\<lambda>i. i\<lparr>item_prev := pmem\<rparr>) m3
      else m)"

definition plug_holes :: "u32 \<Rightarrow> rt_small_mem \<Rightarrow> rt_small_mem option" where
  "plug_holes mem m =
     do {
       rt_assert (mem < heap_end m);
       Some (plug_backward mem (plug_forward mem m))
     }"

text \<open>
  \<open>rt_smem_init\<close>: the heap object stands at the aligned begin of the area, the blocks behind
  it.  \<open>its\<close> and \<open>bs\<close> are what the area holds before.
\<close>

definition smem_setup ::
    "(u32 \<Rightarrow> smem_item) \<Rightarrow> (u32 \<Rightarrow> u8) \<Rightarrow> u32 \<Rightarrow> u32 \<Rightarrow> rt_small_mem option" where
  "smem_setup its bs begin_addr sz =
     (let small_mem = RT_ALIGN begin_addr RT_ALIGN_SIZE;
          start_addr = small_mem + SIZEOF_SMALL_MEM;
          begin_align = RT_ALIGN start_addr RT_ALIGN_SIZE;
          end_align = RT_ALIGN_DOWN (begin_addr + sz) RT_ALIGN_SIZE
      in if end_align > 2 * SIZEOF_STRUCT_MEM \<and> end_align - 2 * SIZEOF_STRUCT_MEM \<ge> start_addr then
           let mem_size = end_align - begin_align - 2 * SIZEOF_STRUCT_MEM;
               h0 = \<lparr>smem_addr = small_mem, mem_address = begin_align, mem_total = mem_size, mem_used = 0,
                     mem_max = 0, heap_end = 0, lfree = 0, mem_size_aligned = mem_size,
                     items = its, bytes = bs\<rparr>;
               h1 = upd_item 0 (\<lambda>_. \<lparr>pool_ptr = MEM_FREED h0, item_next = mem_size + SIZEOF_STRUCT_MEM,
                                     item_prev = 0\<rparr>) h0;
               h2 = h1\<lparr>heap_end := item_next (items h1 0)\<rparr>;
               h3 = upd_item (heap_end h2) (\<lambda>_. \<lparr>pool_ptr = MEM_USED h2,
                      item_next = mem_size + SIZEOF_STRUCT_MEM, item_prev = mem_size + SIZEOF_STRUCT_MEM\<rparr>) h2
           in Some (h3\<lparr>lfree := 0\<rparr>)
         else None)"

definition rt_smem_init ::
    "nat \<Rightarrow> (u32 \<Rightarrow> smem_item) \<Rightarrow> (u32 \<Rightarrow> u8) \<Rightarrow> string \<Rightarrow> u32 \<Rightarrow> u32 \<Rightarrow> kernel \<Rightarrow>
     (rt_small_mem option \<times> kernel) option" where
  "rt_smem_init n its bs name begin_addr sz k =
     (case smem_setup its bs begin_addr sz of
        None \<Rightarrow> Some (None, k)
      | Some h \<Rightarrow> do { k1 \<leftarrow> rt_object_init (Obj_Memory n) Class_Memory name k; Some (Some h, k1) })"

definition is_memory :: "nat \<Rightarrow> kernel \<Rightarrow> bool" where
  "is_memory n k \<longleftrightarrow> rt_object_get_type (Obj_Memory n) k = class_code Class_Memory \<and>
     rt_object_is_systemobject (Obj_Memory n) k"

definition rt_smem_detach :: "nat \<Rightarrow> kernel \<Rightarrow> (rt_err \<times> kernel) option" where
  "rt_smem_detach n k =
     do { rt_assert (is_memory n k); Some (RT_EOK, rt_object_detach (Obj_Memory n) k) }"

text \<open>
  The search of \<open>rt_smem_alloc\<close> for the first free block that is large enough, and its loop
  over \<open>lfree\<close>.  Both follow \<open>next\<close> and would not end on a damaged row.
\<close>

partial_function (option) smem_find :: "rt_small_mem \<Rightarrow> u32 \<Rightarrow> u32 \<Rightarrow> u32 option option" where
  "smem_find h sz ptr =
     (if ptr \<le> mem_size_aligned h - sz then
        (if \<not> MEM_ISUSED h ptr \<and> item_next (items h ptr) - (ptr + SIZEOF_STRUCT_MEM) \<ge> sz
         then Some (Some ptr)
         else smem_find h sz (item_next (items h ptr)))
      else Some None)"

partial_function (option) smem_lowest :: "rt_small_mem \<Rightarrow> u32 \<Rightarrow> u32 option" where
  "smem_lowest h p =
     (if MEM_ISUSED h p \<and> p \<noteq> heap_end h then smem_lowest h (item_next (items h p)) else Some p)"

text \<open>The accounting of \<open>used\<close> and \<open>max\<close>.\<close>

definition smem_count :: "u32 \<Rightarrow> rt_small_mem \<Rightarrow> rt_small_mem" where
  "smem_count x h =
     (let h1 = h\<lparr>mem_used := mem_used h + x\<rparr> in
      if mem_max h1 < mem_used h1 then h1\<lparr>mem_max := mem_used h1\<rparr> else h1)"

text \<open>The free block \<open>mem2\<close> that a split leaves behind the first \<open>sz\<close> bytes of the block at \<open>ptr\<close>.\<close>

definition smem_split :: "u32 \<Rightarrow> u32 \<Rightarrow> rt_small_mem \<Rightarrow> rt_small_mem" where
  "smem_split ptr ptr2 h =
     (let h1 = upd_item ptr2 (\<lambda>_. \<lparr>pool_ptr = MEM_FREED h, item_next = item_next (items h ptr),
                                   item_prev = ptr\<rparr>) h;
          h2 = upd_item ptr (\<lambda>i. i\<lparr>item_next := ptr2\<rparr>) h1
      in if item_next (items h2 ptr2) \<noteq> mem_size_aligned h2 + SIZEOF_STRUCT_MEM
         then upd_item (item_next (items h2 ptr2)) (\<lambda>i. i\<lparr>item_prev := ptr2\<rparr>) h2
         else h2)"

definition smem_take :: "u32 \<Rightarrow> u32 \<Rightarrow> rt_small_mem \<Rightarrow> rt_small_mem option" where
  "smem_take ptr sz h =
     do {
       let room = item_next (items h ptr) - (ptr + SIZEOF_STRUCT_MEM);
       let h1 = (if room \<ge> sz + SIZEOF_STRUCT_MEM + MIN_SIZE_ALIGNED
                 then smem_count (sz + SIZEOF_STRUCT_MEM)
                        (smem_split ptr (ptr + SIZEOF_STRUCT_MEM + sz) h)
                 else smem_count (item_next (items h ptr) - ptr) h);
       let h2 = upd_item ptr (\<lambda>i. i\<lparr>pool_ptr := MEM_USED h1\<rparr>) h1;
       h3 \<leftarrow> (if ptr = lfree h2 then
                do {
                  l \<leftarrow> smem_lowest h2 (lfree h2);
                  let h' = h2\<lparr>lfree := l\<rparr>;
                  rt_assert (lfree h' = heap_end h' \<or> \<not> MEM_ISUSED h' (lfree h'));
                  Some h'
                }
              else Some h2);
       rt_assert (mem_address h3 + ptr + SIZEOF_STRUCT_MEM + sz \<le> mem_address h3 + heap_end h3);
       rt_assert ((mem_address h3 + ptr + SIZEOF_STRUCT_MEM) mod RT_ALIGN_SIZE = 0);
       rt_assert ((mem_address h3 + ptr) AND (RT_ALIGN_SIZE - 1) = 0);
       Some h3
     }"

definition rt_smem_alloc ::
    "nat \<Rightarrow> kernel \<Rightarrow> u32 \<Rightarrow> rt_small_mem \<Rightarrow> (u32 option \<times> rt_small_mem) option" where
  "rt_smem_alloc n k sz h =
     (if sz = 0 then Some (None, h)
      else
        do {
          rt_assert (is_memory n k);
          let sz1 = RT_ALIGN sz RT_ALIGN_SIZE;
          let sz2 = (if sz1 < MIN_SIZE_ALIGNED then MIN_SIZE_ALIGNED else sz1);
          (if sz2 > mem_size_aligned h then Some (None, h)
           else
             do {
               found \<leftarrow> smem_find h sz2 (lfree h);
               (case found of
                  None \<Rightarrow> Some (None, h)
                | Some ptr \<Rightarrow>
                    do {
                      h1 \<leftarrow> smem_take ptr sz2 h;
                      Some (Some (mem_address h1 + ptr + SIZEOF_STRUCT_MEM), h1)
                    })
             })
        })"

definition rt_smem_free :: "nat \<Rightarrow> kernel \<Rightarrow> u32 option \<Rightarrow> rt_small_mem \<Rightarrow> rt_small_mem option" where
  "rt_smem_free n k rmem h =
     (case rmem of
        None \<Rightarrow> Some h
      | Some r \<Rightarrow>
          do {
            rt_assert (r AND (RT_ALIGN_SIZE - 1) = 0);
            let mem = r - SIZEOF_STRUCT_MEM - mem_address h;
            rt_assert (MEM_POOL h mem = smem_addr h);
            rt_assert (smem_addr h \<noteq> 0);
            rt_assert (MEM_ISUSED h mem);
            rt_assert (is_memory n k);
            rt_assert (r \<ge> mem_address h \<and> r < mem_address h + heap_end h);
            rt_assert (MEM_POOL h (item_next (items h mem)) = smem_addr h);
            let h1 = upd_item mem (\<lambda>i. i\<lparr>pool_ptr := MEM_FREED h\<rparr>) h;
            let h2 = (if mem < lfree h1 then h1\<lparr>lfree := mem\<rparr> else h1);
            let h3 = h2\<lparr>mem_used := mem_used h2 - (item_next (items h2 mem) - mem)\<rparr>;
            plug_holes mem h3
          })"

definition rt_smem_realloc ::
    "nat \<Rightarrow> kernel \<Rightarrow> u32 option \<Rightarrow> u32 \<Rightarrow> rt_small_mem \<Rightarrow> (u32 option \<times> rt_small_mem) option" where
  "rt_smem_realloc n k rmem newsize0 h =
     do {
       rt_assert (is_memory n k);
       let newsize = RT_ALIGN newsize0 RT_ALIGN_SIZE;
       (if newsize > mem_size_aligned h then Some (None, h)
        else if newsize = 0 then do { h1 \<leftarrow> rt_smem_free n k rmem h; Some (None, h1) }
        else case rmem of
          None \<Rightarrow> rt_smem_alloc n k newsize h
        | Some r \<Rightarrow>
            do {
              rt_assert (r AND (RT_ALIGN_SIZE - 1) = 0);
              rt_assert (r \<ge> mem_address h);
              rt_assert (r < mem_address h + heap_end h);
              let ptr = r - SIZEOF_STRUCT_MEM - mem_address h;
              let sz = item_next (items h ptr) - ptr - SIZEOF_STRUCT_MEM;
              (if sz = newsize then Some (Some r, h)
               else if newsize + SIZEOF_STRUCT_MEM + MIN_SIZE < sz then
                 do {
                   let h1 = h\<lparr>mem_used := mem_used h - (sz - newsize)\<rparr>;
                   let ptr2 = ptr + SIZEOF_STRUCT_MEM + newsize;
                   let h2 = smem_split ptr ptr2 h1;
                   let h3 = (if ptr2 < lfree h2 then h2\<lparr>lfree := ptr2\<rparr> else h2);
                   h4 \<leftarrow> plug_holes ptr2 h3;
                   Some (Some r, h4)
                 }
               else
                 do {
                   (nmem, h1) \<leftarrow> rt_smem_alloc n k newsize h;
                   (case nmem of
                      None \<Rightarrow> Some (None, h1)
                    | Some a \<Rightarrow>
                        do {
                          let src = r - mem_address h1;
                          let dst = a - mem_address h1;
                          let len = (if sz < newsize then sz else newsize);
                          let h2 = h1\<lparr>bytes := (\<lambda>x. if x - dst < len then bytes h1 (src + (x - dst))
                                                       else bytes h1 x)\<rparr>;
                          h3 \<leftarrow> rt_smem_free n k (Some r) h2;
                          Some (Some a, h3)
                        })
                 })
            })
     }"

end
