(* ===== verification/Heap_Row.thy ===== *)
theory Heap_Row
  imports Small_Mem
begin

text \<open>
  The rows of blocks a small memory heap represents: the invariant that ties the headers to a
  list of blocks, the two searches of \<open>rt_smem_alloc\<close> over it, and \<open>plug_holes\<close> as an operation on
  lists.
\<close>

section \<open>The row of blocks\<close>

text \<open>
  What a heap represents: the row of its blocks, each with its use and its length in bytes
  (header included).  \<open>seg h p a cs\<close>: the headers from offset \<open>a\<close> on, whose predecessor is at
  \<open>p\<close>, describe the blocks \<open>cs\<close>.
\<close>

type_synonym cell = "bool \<times> nat"

definition row_total :: "cell list \<Rightarrow> nat" where
  "row_total cs = sum_list (map snd cs)"

definition used_total :: "cell list \<Rightarrow> nat" where
  "used_total cs = sum_list (map snd (filter fst cs))"

fun seg :: "rt_small_mem \<Rightarrow> nat \<Rightarrow> nat \<Rightarrow> cell list \<Rightarrow> bool" where
  "seg h p a [] = True"
| "seg h p a ((u, n) # cs) \<longleftrightarrow> 12 \<le> n \<and> 4 dvd n \<and>
     items h (of_nat a) = \<lparr>pool_ptr = (if u then MEM_USED h else MEM_FREED h),
                            item_next = of_nat (a + n), item_prev = of_nat p\<rparr> \<and>
     seg h a (a + n) cs"

fun last_off :: "nat \<Rightarrow> nat \<Rightarrow> cell list \<Rightarrow> nat" where
  "last_off p a [] = p"
| "last_off p a (c # cs) = last_off a (a + snd c) cs"

fun plugged :: "cell list \<Rightarrow> bool" where
  "plugged (c # d # cs) \<longleftrightarrow> (fst c \<or> fst d) \<and> plugged (d # cs)"
| "plugged cs = True"

fun first_free :: "nat \<Rightarrow> cell list \<Rightarrow> nat" where
  "first_free a [] = a"
| "first_free a (c # cs) = (if fst c then first_free (a + snd c) cs else a)"

text \<open>
  \<open>row\<close>: the fields that change in every operation agree with the blocks: the headers, the end
  mark and the pointer to the first free block.  \<open>smem_ok\<close> adds what holds between operations:
  no two free blocks are neighbours, used blocks have room, \<open>used\<close> is the sum of the used blocks, and the area is aligned
  and inside the address space.
\<close>

definition row :: "rt_small_mem \<Rightarrow> cell list \<Rightarrow> bool" where
  "row h cs \<longleftrightarrow> seg h 0 0 cs \<and> row_total cs < 2 ^ 32 \<and> row_total cs = unat (mem_size_aligned h) + 12 \<and>
     heap_end h = of_nat (row_total cs) \<and> pool_ptr (items h (heap_end h)) = MEM_USED h \<and>
     lfree h = of_nat (first_free 0 cs)"

definition smem_ok :: "rt_small_mem \<Rightarrow> cell list \<Rightarrow> bool" where
  "smem_ok h cs \<longleftrightarrow> row h cs \<and> cs \<noteq> [] \<and> plugged cs \<and> (\<forall>c\<in>set cs. fst c \<longrightarrow> 12 < snd c) \<and>
     unat (mem_address h) + row_total cs + 12 < 2 ^ 32 \<and>
     smem_addr h \<noteq> 0 \<and> 4 dvd unat (smem_addr h) \<and> 4 dvd unat (mem_address h) \<and>
     unat (mem_used h) = used_total cs \<and> mem_used h \<le> mem_max h"

definition same_frame :: "rt_small_mem \<Rightarrow> rt_small_mem \<Rightarrow> bool" where
  "same_frame h h' \<longleftrightarrow> h' = h\<lparr>items := items h', lfree := lfree h'\<rparr>"

subsection \<open>Offsets as words\<close>

lemma unat_of_nat32: "n < 2 ^ 32 \<Longrightarrow> unat (of_nat n :: u32) = n"
  by (simp add: unat_of_nat take_bit_nat_eq_self)

lemma of_nat_le32: "x < 2 ^ 32 \<Longrightarrow> y < 2 ^ 32 \<Longrightarrow> (of_nat x :: u32) \<le> of_nat y \<longleftrightarrow> x \<le> y"
  by (simp add: word_le_nat_alt unat_of_nat32)

lemma of_nat_less32: "x < 2 ^ 32 \<Longrightarrow> y < 2 ^ 32 \<Longrightarrow> (of_nat x :: u32) < of_nat y \<longleftrightarrow> x < y"
  by (simp add: word_less_nat_alt unat_of_nat32)

lemma of_nat_eq32: "x < 2 ^ 32 \<Longrightarrow> y < 2 ^ 32 \<Longrightarrow> (of_nat x :: u32) = of_nat y \<longleftrightarrow> x = y"
  by (metis unat_of_nat32)

lemma room_word: "12 \<le> n \<Longrightarrow> of_nat (a + n) - (of_nat a + 12 :: u32) = of_nat (n - 12)"
  by (simp add: of_nat_diff)

lemma row_total_simps [simp]: "row_total [] = 0" "row_total (c # cs) = snd c + row_total cs" "row_total (xs @ ys) = row_total xs + row_total ys"
  by (simp_all add: row_total_def)

lemma used_row_total_simps [simp]:
  "used_total [] = 0" "used_total (c # cs) = (if fst c then snd c else 0) + used_total cs"
  "used_total (xs @ ys) = used_total xs + used_total ys"
  by (simp_all add: used_total_def)

lemma used_total_le: "used_total cs \<le> row_total cs"
  by (induction cs) auto

subsection \<open>The flag in the header\<close>

lemma mem_flag [simp]:
  "((x AND 0xfffffffe) OR 1 :: u32) AND 1 = 1" "(x AND 0xfffffffe :: u32) AND 1 = 0"
  "((x AND 0xfffffffe) OR 1 :: u32) AND 0xfffffffe = x AND 0xfffffffe"
  by (simp_all add: and.assoc bit.conj_disj_distrib2)

lemma mem_mask: "NOT (0xfffffffe :: u32) = 1" "(0xfffffffe :: u32) = NOT 1"
  by simp_all

lemma used_flag: "pool_ptr (items h p) = (if u then MEM_USED h else MEM_FREED h) \<Longrightarrow> MEM_ISUSED h p \<longleftrightarrow> u"
  unfolding MEM_ISUSED_def mem_mask(1) by (simp add: MEM_USED_def MEM_FREED_def)

lemma even_mask: "4 dvd unat (x :: u32) \<Longrightarrow> x AND 0xfffffffe = x"
proof -
  assume "4 dvd unat x"
  then have "even (unat x)" by (meson dvd_trans even_numeral)
  then have "\<not> bit x 0" using bit_unsigned_iff [of x 0, where ?'a = nat] by (simp add: bit_0)
  then show ?thesis unfolding mem_mask(2) by (intro bit_eqI) (auto simp: bit_simps bit_1_iff intro: gr0I)
qed

lemma pool_flag:
  assumes "pool_ptr (items h p) = (if u then MEM_USED h else MEM_FREED h)" "4 dvd unat (smem_addr h)"
  shows "MEM_POOL h p = smem_addr h"
  using assms(1) even_mask [OF assms(2)] mem_flag(3) [of "smem_addr h"]
  by (auto simp: MEM_POOL_def MEM_USED_def MEM_FREED_def)

subsection \<open>Parts of the row\<close>

lemma seg_append:
  "seg h p a (xs @ ys) \<longleftrightarrow> seg h p a xs \<and> seg h (last_off p a xs) (a + row_total xs) ys"
  by (induction xs arbitrary: p a) (auto simp: add.assoc)

lemma seg_cong:
  "items h' = items h \<Longrightarrow> smem_addr h' = smem_addr h \<Longrightarrow> seg h' p a cs \<longleftrightarrow> seg h p a cs"
  by (induction cs arbitrary: p a) (auto simp: MEM_USED_def MEM_FREED_def)

lemma MEM_items [simp]:
  "MEM_USED (h\<lparr>items := x\<rparr>) = MEM_USED h" "MEM_FREED (h\<lparr>items := x\<rparr>) = MEM_FREED h"
  "MEM_USED (h\<lparr>lfree := l\<rparr>) = MEM_USED h" "MEM_FREED (h\<lparr>lfree := l\<rparr>) = MEM_FREED h"
  "MEM_USED (h\<lparr>mem_used := l\<rparr>) = MEM_USED h" "MEM_FREED (h\<lparr>mem_used := l\<rparr>) = MEM_FREED h"
  by (simp_all add: MEM_USED_def MEM_FREED_def)

lemma seg_upd_outside:
  assumes "x < a \<or> a + row_total cs \<le> x" "x < 2 ^ 32" "a + row_total cs \<le> 2 ^ 32"
  shows "seg (h\<lparr>items := (items h)(of_nat x := v)\<rparr>) p a cs \<longleftrightarrow> seg h p a cs"
  using assms
proof (induction cs arbitrary: p a)
  case (Cons c cs)
  obtain u n where c: "c = (u, n)" by (cases c)
  show ?case
  proof (cases "12 \<le> n")
    case True
    then have "of_nat a \<noteq> (of_nat x :: u32)" using Cons.prems c by (subst of_nat_eq32) auto
    then show ?thesis using Cons c by auto
  qed (simp add: c)
qed simp

lemma seg_aligned: "seg h p a cs \<Longrightarrow> 4 dvd row_total cs"
  by (induction cs arbitrary: p a) auto

lemma first_free_append:
  "first_free a (xs @ ys) = (if \<forall>c\<in>set xs. fst c then first_free (a + row_total xs) ys else first_free a xs)"
  by (induction xs arbitrary: a) (auto simp: add.assoc)

lemma first_free_bounds: "a \<le> first_free a cs \<and> first_free a cs \<le> a + row_total cs"
  by (induction cs arbitrary: a) (auto, (metis add.assoc add_leD1 le_add1 order_trans | metis add.assoc)+)

lemma plugged_append:
  "plugged (xs @ ys) \<longleftrightarrow> plugged xs \<and> plugged ys \<and> (xs \<noteq> [] \<and> ys \<noteq> [] \<longrightarrow> fst (last xs) \<or> fst (hd ys))"
proof (induction xs)
  case (Cons c xs)
  then show ?case by (cases xs; cases ys) auto
qed simp

subsection \<open>The two searches\<close>

fun fit :: "nat \<Rightarrow> nat \<Rightarrow> cell list \<Rightarrow> nat option" where
  "fit s a [] = None"
| "fit s a (c # cs) = (if \<not> fst c \<and> s + 12 \<le> snd c then Some a else fit s (a + snd c) cs)"

lemma fit_bound: "fit s a cs = Some b \<Longrightarrow> a \<le> b \<and> b + s + 12 \<le> a + row_total cs"
  by (induction cs arbitrary: a) (fastforce split: if_splits)+

lemma find_limit:
  assumes "s \<le> unat m" "a < 2 ^ 32"
  shows "of_nat a \<le> (m :: u32) - of_nat s \<longleftrightarrow> a \<le> unat m - s"
proof -
  have "m - of_nat s = of_nat (unat m - s)" using assms(1) by (simp add: of_nat_diff)
  moreover have "unat m < 2 ^ 32" using unsigned_less [of m] by simp
  then have "unat m - s < 2 ^ 32" by linarith
  ultimately show ?thesis using of_nat_le32 [OF assms(2)] by presburger
qed

lemma smem_find_fit:
  assumes "seg h p a cs" "a + row_total cs = unat (mem_size_aligned h) + 12" "a + row_total cs < 2 ^ 32"
    and "s \<le> unat (mem_size_aligned h)"
  shows "smem_find h (of_nat s) (of_nat a) = Some (map_option of_nat (fit s a cs))"
  using assms(1,2,3)
proof (induction cs arbitrary: p a)
  case Nil
  have "\<not> of_nat a \<le> mem_size_aligned h - of_nat s" using Nil find_limit [OF assms(4), of a] by simp
  then show ?case by (simp add: smem_find.simps)
next
  case (Cons c cs)
  obtain u n where c: "c = (u, n)" by (cases c)
  have lim: "of_nat a \<le> mem_size_aligned h - of_nat s \<longleftrightarrow> a \<le> unat (mem_size_aligned h) - s"
    using find_limit [OF assms(4), of a] Cons.prems by simp
  have it: "MEM_ISUSED h (of_nat a) \<longleftrightarrow> u" using Cons.prems(1) c by (intro used_flag) simp
  have nx: "item_next (items h (of_nat a)) = of_nat (a + n)" and n: "12 \<le> n" using Cons.prems(1) c by simp_all
  have rm: "item_next (items h (of_nat a)) - (of_nat a + 12) \<ge> of_nat s \<longleftrightarrow> s + 12 \<le> n"
    unfolding nx room_word [OF n] using Cons.prems(3) c assms(4) Cons.prems(2) n by (subst of_nat_le32) auto
  show ?case
  proof (cases "a \<le> unat (mem_size_aligned h) - s")
    case False
    have "fit s a (c # cs) = None"
    proof (rule ccontr)
      assume "fit s a (c # cs) \<noteq> None"
      then obtain b where "fit s a (c # cs) = Some b" by blast
      from fit_bound [OF this] have "a \<le> unat (mem_size_aligned h) - s" using Cons.prems(2) by auto
      then show False using False by simp
    qed
    then show ?thesis using False lim by (simp add: smem_find.simps)
  next
    case True
    have ih: "smem_find h (of_nat s) (of_nat (a + n)) = Some (map_option of_nat (fit s (a + n) cs))"
      using Cons.IH [of a "a + n"] Cons.prems c by (simp add: add.assoc)
    show ?thesis
      using True lim it rm nx ih c by (simp add: smem_find.simps [of h _ "of_nat a"])
  qed
qed

lemma smem_lowest_first:
  assumes "seg h p a cs" "a + row_total cs < 2 ^ 32" "heap_end h = of_nat (a + row_total cs)"
  shows "smem_lowest h (of_nat a) = Some (of_nat (first_free a cs))"
  using assms
proof (induction cs arbitrary: p a)
  case (Cons c cs)
  obtain u n where c: "c = (u, n)" by (cases c)
  have it: "MEM_ISUSED h (of_nat a) \<longleftrightarrow> u" using Cons.prems(1) c by (intro used_flag) simp
  have nx: "item_next (items h (of_nat a)) = of_nat (a + n)" and n: "12 \<le> n" using Cons.prems(1) c by simp_all
  have ne: "of_nat a \<noteq> heap_end h" using Cons.prems c n by (subst Cons.prems(3), subst of_nat_eq32) auto
  have "smem_lowest h (of_nat (a + n)) = Some (of_nat (first_free (a + n) cs))"
    using Cons.IH [of a "a + n"] Cons.prems c by (simp add: add.assoc)
  then show ?case using it ne nx c by (simp add: smem_lowest.simps [of h "of_nat a"])
qed (simp add: smem_lowest.simps)

subsection \<open>Changes to the row\<close>

lemma same_frame_fields:
  assumes "same_frame h h'"
  shows "smem_addr h' = smem_addr h" "mem_address h' = mem_address h" "mem_total h' = mem_total h"
    "mem_used h' = mem_used h" "mem_max h' = mem_max h" "heap_end h' = heap_end h"
    "mem_size_aligned h' = mem_size_aligned h" "bytes h' = bytes h"
    "MEM_USED h' = MEM_USED h" "MEM_FREED h' = MEM_FREED h"
proof -
  obtain x y where "h' = h\<lparr>items := x, lfree := y\<rparr>" using assms unfolding same_frame_def by blast
  then show "smem_addr h' = smem_addr h" "mem_address h' = mem_address h" "mem_total h' = mem_total h"
    "mem_used h' = mem_used h" "mem_max h' = mem_max h" "heap_end h' = heap_end h"
    "mem_size_aligned h' = mem_size_aligned h" "bytes h' = bytes h"
    "MEM_USED h' = MEM_USED h" "MEM_FREED h' = MEM_FREED h" by (simp_all add: MEM_USED_def MEM_FREED_def)
qed

lemma same_frame_refl [simp]: "same_frame h h" by (simp add: same_frame_def)

lemma same_frame_trans: "same_frame h h' \<Longrightarrow> same_frame h' h'' \<Longrightarrow> same_frame h h''"
  by (cases h; cases h'; cases h'') (simp add: same_frame_def)

lemma same_frame_upd [simp]:
  "same_frame h (h'\<lparr>items := x\<rparr>) \<longleftrightarrow> same_frame h h'" "same_frame h (h'\<lparr>lfree := l\<rparr>) \<longleftrightarrow> same_frame h h'"
  by (cases h; cases h'; simp add: same_frame_def)+

lemma seg_set_prev:
  assumes "seg h p a bs" "bs \<noteq> []" "a + row_total bs < 2 ^ 32"
  shows "seg (upd_item (of_nat a) (\<lambda>i. i\<lparr>item_prev := of_nat q\<rparr>) h) q a bs"
proof -
  obtain v l cs where bs: "bs = (v, l) # cs" using assms(2) by (cases bs) auto
  have "seg (h\<lparr>items := (items h)(of_nat a := (items h (of_nat a))\<lparr>item_prev := of_nat q\<rparr>)\<rparr>) a (a + l) cs
      \<longleftrightarrow> seg h a (a + l) cs"
    by (rule seg_upd_outside) (use assms(1,3) bs in auto)
  then show ?thesis using assms(1) bs by simp
qed

text \<open>The block in the middle of a row and its neighbours.\<close>

lemma seg_mid:
  assumes "seg h 0 0 (xs @ (u, n) # bs)"
  shows "seg h 0 0 xs" "seg h (row_total xs) (row_total xs + n) bs" "12 \<le> n" "4 dvd n"
    "items h (of_nat (row_total xs)) = \<lparr>pool_ptr = (if u then MEM_USED h else MEM_FREED h),
        item_next = of_nat (row_total xs + n), item_prev = of_nat (last_off 0 0 xs)\<rparr>"
  using assms by (simp_all add: seg_append)

lemma seg_set_flag:
  assumes "seg h 0 0 (xs @ (u, n) # bs)" "row_total xs + n + row_total bs < 2 ^ 32"
    and "w = (if v then MEM_USED h else MEM_FREED h)"
  shows "seg (upd_item (of_nat (row_total xs)) (\<lambda>i. i\<lparr>pool_ptr := w\<rparr>) h) 0 0 (xs @ (v, n) # bs)"
proof -
  note m = seg_mid [OF assms(1)]
  let ?h = "upd_item (of_nat (row_total xs)) (\<lambda>i. i\<lparr>pool_ptr := w\<rparr>) h"
  have "seg ?h 0 0 xs \<longleftrightarrow> seg h 0 0 xs" by (rule seg_upd_outside) (use assms(2) in auto)
  moreover have "seg ?h (row_total xs) (row_total xs + n) bs \<longleftrightarrow> seg h (row_total xs) (row_total xs + n) bs"
    by (rule seg_upd_outside) (use assms(2) m(3) in auto)
  ultimately show ?thesis using m assms(3) by (simp add: seg_append)
qed

lemma smem_split_seg:
  assumes s: "seg h 0 0 (xs @ (u, m) # bs)" and b: "row_total xs + m + row_total bs < 2 ^ 32"
    and n: "12 \<le> n" "n + 12 \<le> m" "4 dvd n"
    and e: "row_total xs + m + row_total bs = unat (mem_size_aligned h) + 12"
  defines "h' \<equiv> smem_split (of_nat (row_total xs)) (of_nat (row_total xs + n)) h"
  shows "seg h' 0 0 (xs @ (u, n) # (False, m - n) # bs)" "same_frame h h'" "lfree h' = lfree h"
    "pool_ptr (items h' (of_nat (row_total xs + m + row_total bs))) = pool_ptr (items h (of_nat (row_total xs + m + row_total bs)))"
proof -
  let ?x = "row_total xs"
  note md = seg_mid [OF s]
  define h1 where "h1 = upd_item (of_nat (?x + n)) (\<lambda>_. \<lparr>pool_ptr = MEM_FREED h, item_next = of_nat (?x + m),
       item_prev = of_nat ?x\<rparr>) h"
  define h2 where "h2 = upd_item (of_nat ?x) (\<lambda>i. i\<lparr>item_next := of_nat (?x + n)\<rparr>) h1"
  have ne: "(of_nat ?x :: u32) \<noteq> of_nat (?x + n)" using b n by (subst of_nat_eq32) auto
  have fin: "of_nat (?x + m) = mem_size_aligned h + 12 \<longleftrightarrow> bs = []"
  proof -
    have "mem_size_aligned h + 12 = of_nat (?x + m + row_total bs)" using e by simp
    moreover have "of_nat (?x + m) = (of_nat (?x + m + row_total bs) :: u32) \<longleftrightarrow> row_total bs = 0" using b by (subst of_nat_eq32) auto
    moreover have "row_total bs = 0 \<longleftrightarrow> bs = []" using md(2) by (cases bs) auto
    ultimately show ?thesis by simp
  qed
  have h': "h' = (if bs = [] then h2 else upd_item (of_nat (?x + m)) (\<lambda>i. i\<lparr>item_prev := of_nat (?x + n)\<rparr>) h2)"
    using md(5) fin ne by (simp add: h'_def smem_split_def Let_def h2_def h1_def)
  have o: "seg h1 0 0 xs" "seg h2 0 0 xs" "seg h2 ?x (?x + m) bs"
  proof -
    show 1: "seg h1 0 0 xs" using seg_upd_outside [of "?x + n" 0 xs h _ 0] b n md(1) by (simp add: h1_def)
    then show "seg h2 0 0 xs" using seg_upd_outside [of "?x" 0 xs h1 _ 0] b by (simp add: h2_def)
    have "seg h1 ?x (?x + m) bs"
      using seg_upd_outside [of "?x + n" "?x + m" bs h _ ?x] b n md(2) by (simp add: h1_def)
    then show "seg h2 ?x (?x + m) bs" using seg_upd_outside [of "?x" "?x + m" bs h1 _ ?x] b md(3) by (simp add: h2_def)
  qed
  have i2: "items h2 (of_nat ?x) = \<lparr>pool_ptr = (if u then MEM_USED h else MEM_FREED h),
        item_next = of_nat (?x + n), item_prev = of_nat (last_off 0 0 xs)\<rparr>"
      "items h2 (of_nat (?x + n)) = \<lparr>pool_ptr = MEM_FREED h, item_next = of_nat (?x + m), item_prev = of_nat ?x\<rparr>"
      "MEM_USED h2 = MEM_USED h" "MEM_FREED h2 = MEM_FREED h"
    using ne md(5) by (simp_all add: h2_def h1_def)
  show "same_frame h h'" "lfree h' = lfree h" by (simp_all add: h' h2_def h1_def)
  show "seg h' 0 0 (xs @ (u, n) # (False, m - n) # bs)"
  proof (cases "bs = []")
    case True
    have "4 dvd m - n" using md(4) n by auto
    then show ?thesis using True o i2 md n by (simp add: h' seg_append)
  next
    case False
    let ?h = "upd_item (of_nat (?x + m)) (\<lambda>i. i\<lparr>item_prev := of_nat (?x + n)\<rparr>) h2"
    have 1: "seg ?h (?x + n) (?x + m) bs" by (rule seg_set_prev [OF o(3) False]) (use b in simp)
    have 2: "seg ?h 0 0 xs" using seg_upd_outside [of "?x + m" 0 xs h2 _ 0] b o(2) by simp
    have "(of_nat (?x + m) :: u32) \<noteq> of_nat ?x" "(of_nat (?x + m) :: u32) \<noteq> of_nat (?x + n)"
      using b n by (subst of_nat_eq32; simp)+
    moreover have "4 dvd m - n" using md(4) n by auto
    ultimately show ?thesis using False 1 2 i2 md n by (simp add: h' seg_append)
  qed
  have "(of_nat (?x + m + row_total bs) :: u32) \<noteq> of_nat ?x" "(of_nat (?x + m + row_total bs) :: u32) \<noteq> of_nat (?x + n)"
    "(of_nat (?x + m) :: u32) \<noteq> of_nat (?x + n)"
    using b n by (subst of_nat_eq32; simp)+
  then show "pool_ptr (items h' (of_nat (?x + m + row_total bs))) = pool_ptr (items h (of_nat (?x + m + row_total bs)))"
    by (simp add: h' h2_def h1_def del: of_nat_add)
qed

text \<open>What \<open>plug_holes\<close> makes of a free block of \<open>n\<close> bytes between \<open>xs\<close> and \<open>bs\<close>.\<close>

fun join_next :: "nat \<Rightarrow> cell list \<Rightarrow> cell list" where
  "join_next n ((False, m) # bs) = (False, n + m) # bs"
| "join_next n bs = (False, n) # bs"

definition join_prev :: "cell list \<Rightarrow> cell list \<Rightarrow> cell list" where
  "join_prev xs cs =
     (if xs \<noteq> [] \<and> \<not> fst (last xs) then butlast xs @ (False, snd (last xs) + snd (hd cs)) # tl cs
      else xs @ cs)"

lemma row_mid:
  assumes "row h (xs @ (u, n) # bs)"
  shows "seg h 0 0 (xs @ (u, n) # bs)" "row_total xs + n + row_total bs < 2 ^ 32"
    "heap_end h = of_nat (row_total xs + n + row_total bs)" "pool_ptr (items h (of_nat (row_total xs + n + row_total bs))) = MEM_USED h"
    "row_total xs + n + row_total bs = unat (mem_size_aligned h) + 12"
    "lfree h = of_nat (first_free 0 (xs @ (u, n) # bs))"
proof -
  have t: "row_total (xs @ (u, n) # bs) = row_total xs + n + row_total bs" by simp
  note r = assms [unfolded row_def t]
  show "seg h 0 0 (xs @ (u, n) # bs)" "row_total xs + n + row_total bs < 2 ^ 32"
    "heap_end h = of_nat (row_total xs + n + row_total bs)"
    "row_total xs + n + row_total bs = unat (mem_size_aligned h) + 12"
    "lfree h = of_nat (first_free 0 (xs @ (u, n) # bs))" using r by blast+
  then show "pool_ptr (items h (of_nat (row_total xs + n + row_total bs))) = MEM_USED h" using r by metis
qed

text \<open>The same fields in a changed heap whose blocks fill the same area.\<close>

lemma row_changed:
  assumes r: "row h cs" and f: "same_frame h h'" and s: "seg h' 0 0 cs'" "row_total cs' = row_total cs"
    and p: "pool_ptr (items h' (of_nat (row_total cs))) = MEM_USED h" and l: "lfree h' = of_nat (first_free 0 cs')"
  shows "row h' cs'"
  using r s p l unfolding row_def same_frame_fields [OF f] by metis

text \<open>Both directions of \<open>plug_holes\<close> merge two free neighbours with the same three writes.\<close>

lemma merge_row:
  assumes r: "row h (ys @ (False, l) # (False, n) # bs)"
  defines "y \<equiv> row_total ys" and "x \<equiv> row_total ys + l" and "z \<equiv> row_total ys + l + n"
  defines "h1 \<equiv> upd_item (of_nat x) (\<lambda>i. i\<lparr>pool_ptr := 0\<rparr>) h"
  defines "h2 \<equiv> upd_item (of_nat y) (\<lambda>i. i\<lparr>item_next := of_nat z\<rparr>) h1"
  defines "h' \<equiv> upd_item (of_nat z) (\<lambda>i. i\<lparr>item_prev := of_nat y\<rparr>) h2"
  shows "row h' (ys @ (False, l + n) # bs)" "same_frame h h'"
proof -
  note rm = row_mid [OF r]
  note my = seg_mid [OF rm(1), folded y_def]
  have b: "z + row_total bs < 2 ^ 32" and n: "12 \<le> n" "4 dvd n" and sb: "seg h x z bs" and xy: "y < x" "x < z"
    using rm(2) my(2,3) by (simp_all add: x_def y_def z_def add.assoc)
  have zne: "(of_nat z :: u32) \<noteq> of_nat x" "(of_nat z :: u32) \<noteq> of_nat y" "(of_nat y :: u32) \<noteq> of_nat x"
    using b xy by (subst of_nat_eq32; simp)+
  have "seg h1 0 0 ys" using seg_upd_outside [of x 0 ys h _ 0] b xy my(1) by (simp add: h1_def y_def)
  then have "seg h2 0 0 ys" using seg_upd_outside [of y 0 ys h1 _ 0] b xy by (simp add: h2_def y_def)
  then have "seg h' 0 0 ys" using seg_upd_outside [of z 0 ys h2 _ 0] b xy by (simp add: h'_def y_def)
  moreover have "seg h1 x z bs" using seg_upd_outside [of x z bs h _ x] b xy sb by (simp add: h1_def)
  then have "seg h2 x z bs" using seg_upd_outside [of y z bs h1 _ x] b xy by (simp add: h2_def)
  then have "seg h' y z bs" using seg_set_prev [of h2 x z bs y] b by (cases "bs = []") (simp_all add: h'_def)
  moreover have "items h' (of_nat y) = \<lparr>pool_ptr = MEM_FREED h', item_next = of_nat z,
      item_prev = of_nat (last_off 0 0 ys)\<rparr>"
    using zne my(5) by (simp add: h'_def h2_def h1_def)
  ultimately have sg: "seg h' 0 0 (ys @ (False, l + n) # bs)"
    using n my(3,4) by (simp add: seg_append add.assoc y_def z_def)
  show sf: "same_frame h h'" by (simp add: h'_def h2_def h1_def)
  have "pool_ptr (items h' w) = pool_ptr (items h w)" if "w \<noteq> of_nat x" "w \<noteq> of_nat y" for w
    using that by (cases "w = of_nat z") (simp_all add: h'_def h2_def h1_def)
  moreover have "(of_nat (z + row_total bs) :: u32) \<noteq> of_nat x" "(of_nat (z + row_total bs) :: u32) \<noteq> of_nat y"
    using b xy by (subst of_nat_eq32; simp)+
  moreover have tt: "row_total (ys @ (False, l) # (False, n) # bs) = z + row_total bs"
    "row_total (ys @ (False, l + n) # bs) = z + row_total bs" by (simp_all add: z_def)
  ultimately have "pool_ptr (items h' (of_nat (z + row_total bs))) = MEM_USED h" using r unfolding row_def by metis
  moreover have "lfree h' = of_nat (first_free 0 (ys @ (False, l + n) # bs))"
    using rm(6) by (simp add: h'_def h2_def h1_def first_free_append)
  ultimately show "row h' (ys @ (False, l + n) # bs)"
    using sg sf tt by (intro row_changed [OF r]) metis+
qed

lemma free_not_after:
  assumes "row h (ys @ (False, l) # c # bs)"
  shows "lfree h \<noteq> of_nat (row_total ys + l)"
proof -
  note rm = row_mid [OF assms]
  have "first_free 0 (ys @ (False, l) # c # bs) \<le> row_total ys"
    using first_free_bounds [of 0 ys] by (auto simp: first_free_append)
  then show ?thesis unfolding rm(6) using rm(2) seg_mid(3) [OF rm(1)] by (subst of_nat_eq32) auto
qed

lemma plug_forward_row:
  assumes r: "row h (xs @ (False, n) # bs)"
  defines "h' \<equiv> plug_forward (of_nat (row_total xs)) h"
  shows "row h' (xs @ join_next n bs) \<and> same_frame h h'"
proof -
  let ?x = "row_total xs" and ?y = "row_total xs + n"
  note rm = row_mid [OF r]
  note md = seg_mid [OF rm(1)]
  have nx: "item_next (items h (of_nat ?x)) = of_nat ?y" using md(5) by simp
  show ?thesis
  proof (cases bs)
    case Nil
    then have "MEM_ISUSED h (of_nat ?y)" using rm(4) used_flag [of h "of_nat ?y" True] by simp
    then have "h' = h" unfolding h'_def plug_forward_def nx Let_def by simp
    then show ?thesis using r Nil by simp
  next
    case (Cons c cs)
    obtain u m where c: "c = (u, m)" by (cases c)
    have it: "12 \<le> m" "items h (of_nat ?y) = \<lparr>pool_ptr = (if u then MEM_USED h else MEM_FREED h),
        item_next = of_nat (?y + m), item_prev = of_nat ?x\<rparr>" using md(2) Cons c by simp_all
    have us: "MEM_ISUSED h (of_nat ?y) \<longleftrightarrow> u" by (rule used_flag) (simp add: it(2) del: of_nat_add)
    show ?thesis
    proof (cases u)
      case True
      then have "h' = h" using us unfolding h'_def plug_forward_def nx Let_def by simp
      then show ?thesis using r Cons c True by simp
    next
      case False
      have "(of_nat ?x :: u32) \<noteq> of_nat ?y" using rm(2) md(3) by (subst of_nat_eq32) auto
      moreover have "of_nat ?y \<noteq> heap_end h" unfolding rm(3) using rm(2) Cons c it(1) by (subst of_nat_eq32) auto
      moreover have r': "row h (xs @ (False, n) # (False, m) # cs)" using r Cons c False by simp
      ultimately have "h' = upd_item (of_nat (?y + m)) (\<lambda>i. i\<lparr>item_prev := of_nat ?x\<rparr>)
          (upd_item (of_nat ?x) (\<lambda>i. i\<lparr>item_next := of_nat (?y + m)\<rparr>)
             (upd_item (of_nat ?y) (\<lambda>i. i\<lparr>pool_ptr := 0\<rparr>) h))"
        using free_not_after [OF r'] us False it(2) unfolding h'_def plug_forward_def nx Let_def
        by (simp del: of_nat_add)
      then show ?thesis using merge_row [OF r'] Cons c False by simp
    qed
  qed
qed

lemma last_off_snoc: "last_off p a (xs @ [c]) = a + row_total xs"
  by (induction xs arbitrary: p a) (auto simp: add.assoc)

lemma plug_backward_row:
  assumes r: "row h (xs @ (False, n) # bs)"
  defines "h' \<equiv> plug_backward (of_nat (row_total xs)) h"
  shows "row h' (join_prev xs ((False, n) # bs)) \<and> same_frame h h'"
proof -
  note rm = row_mid [OF r]
  note md = seg_mid [OF rm(1)]
  have pv: "item_prev (items h (of_nat (row_total xs))) = of_nat (last_off 0 0 xs)" using md(5) by simp
  show ?thesis
  proof (cases xs rule: rev_cases)
    case Nil
    then have "h' = h" using pv unfolding h'_def plug_backward_def by (simp add: Let_def)
    then show ?thesis using r Nil by (simp add: join_prev_def)
  next
    case (snoc ys c)
    obtain u l where c: "c = (u, l)" by (cases c)
    have x: "row_total xs = row_total ys + l" and lo: "last_off 0 0 xs = row_total ys" using snoc c by (simp_all add: last_off_snoc)
    have r': "row h (ys @ (u, l) # (False, n) # bs)" using r snoc c by simp
    note my = seg_mid [OF row_mid(1) [OF r']]
    have us: "MEM_ISUSED h (of_nat (row_total ys)) \<longleftrightarrow> u" using my(5) by (intro used_flag) simp
    show ?thesis
    proof (cases u)
      case True
      then have "h' = h" using pv lo us unfolding h'_def plug_backward_def by (simp add: Let_def)
      then show ?thesis using r snoc c True by (simp add: join_prev_def)
    next
      case False
      have "(of_nat (row_total ys) :: u32) \<noteq> of_nat (row_total ys + l)" using rm(2) my(3) x by (subst of_nat_eq32) auto
      then have "h' = upd_item (of_nat (row_total ys + l + n)) (\<lambda>i. i\<lparr>item_prev := of_nat (row_total ys)\<rparr>)
          (upd_item (of_nat (row_total ys)) (\<lambda>i. i\<lparr>item_next := of_nat (row_total ys + l + n)\<rparr>)
             (upd_item (of_nat (row_total ys + l)) (\<lambda>i. i\<lparr>pool_ptr := 0\<rparr>) h))"
        using free_not_after [of h ys l "(False, n)" bs] r' us False md(5)
        unfolding h'_def plug_backward_def pv lo Let_def x by (simp del: of_nat_add)
      then show ?thesis using merge_row [of h ys l n bs] r' snoc c False by (simp add: join_prev_def)
    qed
  qed
qed

end
