(* ===== verification/Heap_Ops.thy ===== *)
theory Heap_Ops
  imports Heap_Row
begin

text \<open>
  Allocation, freeing, shrinking and set-up of a heap as operations on its row of blocks.
\<close>

section \<open>Correctness of the operations\<close>

definition release :: "cell list \<Rightarrow> nat \<Rightarrow> cell list \<Rightarrow> cell list" where
  "release xs n bs = join_prev xs (join_next n bs)"

lemma join_next_shape: "\<exists>m ds. join_next n bs = (False, m) # ds \<and> m + row_total ds = n + row_total bs \<and> used_total ds = used_total bs"
  by (cases "(n, bs)" rule: join_next.cases) auto

lemma plug_holes_row:
  assumes r: "row h (xs @ (False, n) # bs)"
  shows "\<exists>h'. plug_holes (of_nat (row_total xs)) h = Some h' \<and> row h' (release xs n bs) \<and> same_frame h h'"
proof -
  note rm = row_mid [OF r]
  let ?x = "of_nat (row_total xs) :: u32"
  have "?x < heap_end h" unfolding rm(3) using rm(2) seg_mid(3) [OF rm(1)] by (subst of_nat_less32) auto
  moreover note f = plug_forward_row [OF r]
  obtain m ds where j: "join_next n bs = (False, m) # ds" using join_next_shape by blast
  have "row (plug_forward ?x h) (xs @ (False, m) # ds)" using f j by simp
  note plug_backward_row [OF this]
  then have "row (plug_backward ?x (plug_forward ?x h)) (release xs n bs)"
    "same_frame h (plug_backward ?x (plug_forward ?x h))"
    using f j same_frame_trans by (auto simp: release_def)
  ultimately show ?thesis by (simp add: plug_holes_def)
qed

lemma release_total: "row_total (release xs n bs) = row_total xs + n + row_total bs"
  and release_used: "used_total (release xs n bs) = used_total xs + used_total bs"
  and release_ne: "release xs n bs \<noteq> []"
proof -
  obtain m ds where j: "join_next n bs = (False, m) # ds" "m + row_total ds = n + row_total bs" "used_total ds = used_total bs"
    using join_next_shape by blast
  show "row_total (release xs n bs) = row_total xs + n + row_total bs" "used_total (release xs n bs) = used_total xs + used_total bs"
    "release xs n bs \<noteq> []"
    unfolding release_def join_prev_def j(1) using j(2,3) by (cases xs rule: rev_cases; auto)+
qed

lemma release_plugged:
  assumes "plugged (xs @ (True, n) # bs)"
  shows "plugged (release xs n bs)"
proof -
  have p: "plugged xs" "plugged bs" using assms by (auto simp: plugged_append) (cases bs; simp)
  obtain m ds where j: "join_next n bs = (False, m) # ds" "plugged ds" "ds = [] \<or> fst (hd ds)"
  proof (cases "(n, bs)" rule: join_next.cases)
    case (1 n' m cs)
    then have "cs = [] \<or> fst (hd cs)" "plugged cs" using p(2) by (cases cs; auto)+
    then show ?thesis using that 1 by auto
  qed (use p that in auto)
  have q: "plugged ((False, k) # ds)" for k using j(2,3) by (cases ds) auto
  show ?thesis
  proof (cases "xs \<noteq> [] \<and> \<not> fst (last xs)")
    case False
    then show ?thesis using p q by (auto simp: release_def join_prev_def j(1) plugged_append)
  next
    case True
    then obtain ys c where xs: "xs = ys @ [c]" "\<not> fst c" by (cases xs rule: rev_cases) auto
    have "plugged ys" "ys = [] \<or> fst (last ys)" using p(1) xs by (auto simp: plugged_append)
    then show ?thesis using q xs by (auto simp: release_def join_prev_def j(1) plugged_append)
  qed
qed

lemma release_cells: "fst c \<Longrightarrow> c \<in> set (release xs n bs) \<longleftrightarrow> c \<in> set xs \<union> set bs"
proof -
  assume c: "fst c"
  have j: "c \<in> set (join_next n bs) \<longleftrightarrow> c \<in> set bs" using c by (cases "(n, bs)" rule: join_next.cases) auto
  obtain m ds where s: "join_next n bs = (False, m) # ds" using join_next_shape by blast
  show ?thesis unfolding release_def join_prev_def using c j s
    by (cases xs rule: rev_cases) (auto split: if_splits)
qed

subsection \<open>Freeing\<close>

lemma aligned_and: "4 dvd unat (x :: u32) \<Longrightarrow> x AND 3 = 0"
proof -
  assume "4 dvd unat x"
  then have "unat (x AND NOT 3) = unat x" by (simp add: unat_and_not_3)
  then have "x AND NOT 3 = x" by (simp add: word_unat_eq_iff)
  then have "x AND 3 = (x AND NOT 3) AND 3" by simp
  then show ?thesis by (simp add: and.assoc)
qed

lemma heap_address:
  assumes "smem_ok h cs" "a \<le> row_total cs + 12"
  shows "unat (mem_address h + of_nat a) = unat (mem_address h) + a"
proof -
  have "unat (mem_address h) + a < 2 ^ 32" "a < 2 ^ 32" using assms by (simp_all add: smem_ok_def)
  then show ?thesis by (simp add: unat_word_ariths unat_of_nat32)
qed

text \<open>The address of the memory in the block behind \<open>xs\<close>.\<close>

definition area :: "rt_small_mem \<Rightarrow> cell list \<Rightarrow> u32" where
  "area h xs = mem_address h + of_nat (row_total xs) + SIZEOF_STRUCT_MEM"

lemma area_props:
  assumes ok: "smem_ok h (xs @ (u, n) # bs)"
  shows "unat (area h xs) = unat (mem_address h) + row_total xs + 12" "area h xs AND 3 = 0"
    "area h xs - SIZEOF_STRUCT_MEM - mem_address h = of_nat (row_total xs)" "mem_address h \<le> area h xs"
    "u \<Longrightarrow> area h xs < mem_address h + heap_end h"
proof -
  have r: "row h (xs @ (u, n) # bs)" using ok by (simp add: smem_ok_def)
  note rm = row_mid [OF r]
  note md = seg_mid [OF rm(1)]
  have "area h xs = mem_address h + of_nat (row_total xs + 12)" by (simp add: area_def)
  then show a: "unat (area h xs) = unat (mem_address h) + row_total xs + 12"
    using heap_address [OF ok, of "row_total xs + 12"] by simp
  have "4 dvd row_total xs" using seg_aligned [OF md(1)] .
  then have "4 dvd unat (area h xs)" unfolding a using ok by (simp add: smem_ok_def)
  then show "area h xs AND 3 = 0" by (rule aligned_and)
  show "area h xs - SIZEOF_STRUCT_MEM - mem_address h = of_nat (row_total xs)" by (simp add: area_def)
  show "mem_address h \<le> area h xs" by (simp add: word_le_nat_alt a)
  have "unat (mem_address h + heap_end h) = unat (mem_address h) + (row_total xs + n + row_total bs)"
    unfolding rm(3) using heap_address [OF ok, of "row_total xs + n + row_total bs"] by simp
  then show "area h xs < mem_address h + heap_end h" if u
    using that ok by (simp add: word_less_nat_alt a smem_ok_def)
qed

lemma row_fields [simp]:
  "row (h\<lparr>mem_used := v\<rparr>) cs \<longleftrightarrow> row h cs" "row (h\<lparr>mem_max := v\<rparr>) cs \<longleftrightarrow> row h cs" "row (h\<lparr>bytes := b\<rparr>) cs \<longleftrightarrow> row h cs"
  using seg_cong [of "h\<lparr>mem_used := v\<rparr>" h 0 0 cs] seg_cong [of "h\<lparr>mem_max := v\<rparr>" h 0 0 cs]
    seg_cong [of "h\<lparr>bytes := b\<rparr>" h 0 0 cs] by (simp_all add: row_def MEM_USED_def)

text \<open>A used block that is marked free, with the pointer to the lowest free block following.\<close>

lemma mark_free_row:
  assumes r: "row h (xs @ (True, n) # bs)"
  defines "x \<equiv> of_nat (row_total xs)"
  defines "h1 \<equiv> upd_item x (\<lambda>i. i\<lparr>pool_ptr := MEM_FREED h\<rparr>) h"
  defines "h2 \<equiv> if x < lfree h1 then h1\<lparr>lfree := x\<rparr> else h1"
  shows "row h2 (xs @ (False, n) # bs)" "same_frame h h2" "item_next (items h2 x) = item_next (items h x)"
proof -
  note rm = row_mid [OF r]
  note md = seg_mid [OF rm(1)]
  have s1: "seg h1 0 0 (xs @ (False, n) # bs)" using seg_set_flag [OF rm(1,2), of _ False] by (simp add: h1_def x_def)
  then have s2: "seg h2 0 0 (xs @ (False, n) # bs)" using seg_cong [of h2 h1] by (simp add: h2_def)
  show sf: "same_frame h h2" "item_next (items h2 x) = item_next (items h x)" by (simp_all add: h2_def h1_def)
  have fl: "x < lfree h \<longleftrightarrow> (\<forall>c\<in>set xs. fst c)"
  proof -
    have "first_free 0 (xs @ (True, n) # bs) < 2 ^ 32" "row_total xs < 2 ^ 32"
      using first_free_bounds [of 0 "xs @ (True, n) # bs"] rm(2) by simp_all
    moreover have "row_total xs < first_free 0 (xs @ (True, n) # bs) \<longleftrightarrow> (\<forall>c\<in>set xs. fst c)"
      using first_free_bounds [of 0 xs] first_free_bounds [of "row_total xs + n" bs] md(3) by (auto simp: first_free_append)
    ultimately show ?thesis unfolding rm(6) x_def by (simp add: of_nat_less32)
  qed
  have "lfree h2 = of_nat (first_free 0 (xs @ (False, n) # bs))"
    using fl rm(6) by (auto simp: h2_def h1_def x_def first_free_append)
  moreover have "(of_nat (row_total xs + n + row_total bs) :: u32) \<noteq> x" unfolding x_def using rm(2) md(3) by (subst of_nat_eq32) auto
  then have "pool_ptr (items h2 (of_nat (row_total xs + n + row_total bs))) = MEM_USED h" using rm(4) by (simp add: h2_def h1_def del: of_nat_add)
  moreover have "row_total (xs @ (True, n) # bs) = row_total xs + n + row_total bs" "row_total (xs @ (False, n) # bs) = row_total xs + n + row_total bs"
    by simp_all
  ultimately show "row h2 (xs @ (False, n) # bs)" using s2 sf(1) by (intro row_changed [OF r]) metis+
qed

text \<open>The checks on the header of a block that is handed back.\<close>

lemma free_checks:
  assumes ok: "smem_ok h (xs @ (True, n) # bs)"
  shows "MEM_POOL h (of_nat (row_total xs)) = smem_addr h" "MEM_ISUSED h (of_nat (row_total xs))"
    "item_next (items h (of_nat (row_total xs))) = of_nat (row_total xs + n)" "MEM_POOL h (of_nat (row_total xs + n)) = smem_addr h"
proof -
  have r: "row h (xs @ (True, n) # bs)" and al: "4 dvd unat (smem_addr h)" using ok by (simp_all add: smem_ok_def)
  note rm = row_mid [OF r]
  note md = seg_mid [OF rm(1)]
  show "MEM_POOL h (of_nat (row_total xs)) = smem_addr h" "MEM_ISUSED h (of_nat (row_total xs))"
    "item_next (items h (of_nat (row_total xs))) = of_nat (row_total xs + n)"
    using pool_flag [of h "of_nat (row_total xs)" True] used_flag [of h "of_nat (row_total xs)" True] md(5) al by simp_all
  show "MEM_POOL h (of_nat (row_total xs + n)) = smem_addr h"
  proof (cases bs)
    case Nil
    then show ?thesis using rm(4) pool_flag [of h _ True] al by simp
  next
    case (Cons c cs)
    obtain u m where c: "c = (u, m)" by (cases c)
    show ?thesis by (rule pool_flag [OF _ al]) (use md(2) Cons c in simp)
  qed
qed

lemma smem_ok_changed:
  assumes "smem_ok h cs" "row h' cs'" "cs' \<noteq> []" "plugged cs'" "row_total cs' = row_total cs"
    and "\<forall>c\<in>set cs'. fst c \<longrightarrow> 12 < snd c"
    and "smem_addr h' = smem_addr h" "mem_address h' = mem_address h" "mem_max h' = mem_max h"
    and "unat (mem_used h') = used_total cs'" "mem_used h' \<le> mem_used h"
  shows "smem_ok h' cs'"
  using assms order_trans [OF assms(11)] by (simp add: smem_ok_def)

lemma rt_smem_free_ok:
  assumes ok: "smem_ok h (xs @ (True, n) # bs)" and k: "is_memory i k"
  shows "\<exists>h'. rt_smem_free i k (Some (area h xs)) h = Some h' \<and> smem_ok h' (release xs n bs) \<and>
     bytes h' = bytes h \<and> mem_address h' = mem_address h"
proof -
  let ?x = "of_nat (row_total xs) :: u32"
  let ?h1 = "upd_item ?x (\<lambda>i. i\<lparr>pool_ptr := MEM_FREED h\<rparr>) h"
  let ?h2 = "if ?x < lfree ?h1 then ?h1\<lparr>lfree := ?x\<rparr> else ?h1"
  let ?h3 = "?h2\<lparr>mem_used := mem_used ?h2 - (item_next (items ?h2 ?x) - ?x)\<rparr>"
  have r: "row h (xs @ (True, n) # bs)" and ne: "smem_addr h \<noteq> 0" using ok by (simp_all add: smem_ok_def)
  note ck = free_checks [OF ok] and ar = area_props [OF ok]
  note mf = mark_free_row [OF r]
  have "row ?h3 (xs @ (False, n) # bs)" using mf(1) by simp
  then obtain h' where h': "plug_holes ?x ?h3 = Some h'" "row h' (release xs n bs)" "same_frame ?h3 h'"
    using plug_holes_row by blast
  have fr: "rt_smem_free i k (Some (area h xs)) h = Some h'"
    using h'(1) ar(2,4) ar(5) ck k ne by (simp add: rt_smem_free_def ar(3) Let_def)
  note f3 = same_frame_fields [OF h'(3)] and f2 = same_frame_fields [OF mf(2)]
  have us: "mem_used h' = mem_used h - of_nat n" using f3 f2 mf(3) ck(3) by simp
  have ut: "unat (mem_used h) = used_total xs + n + used_total bs" using ok by (simp add: smem_ok_def)
  then have le: "of_nat n \<le> mem_used h" and nn: "unat (of_nat n :: u32) = n"
    using row_mid(2) [OF r] by (simp_all add: word_le_nat_alt unat_of_nat32)
  then have "unat (mem_used h') = used_total xs + used_total bs" "mem_used h' \<le> mem_used h"
    unfolding us using ut by (simp_all add: unat_sub word_le_nat_alt)
  moreover have "plugged (release xs n bs)" using release_plugged ok by (simp add: smem_ok_def)
  moreover have same: "smem_addr h' = smem_addr h" "mem_address h' = mem_address h" "mem_max h' = mem_max h"
    "bytes h' = bytes h" using f3(1,2,5,8) f2(1,2,5,8) by simp_all
  moreover have "\<forall>c\<in>set (release xs n bs). fst c \<longrightarrow> 12 < snd c" using release_cells ok by (auto simp: smem_ok_def)
  ultimately have "smem_ok h' (release xs n bs)"
    by (intro smem_ok_changed [OF ok h'(2)]) (simp_all add: release_ne release_total release_used)
  then show ?thesis using fr same by auto
qed

subsection \<open>Allocating\<close>

lemma fit_split:
  "fit s a cs = Some b \<Longrightarrow> \<exists>xs n bs. cs = xs @ (False, n) # bs \<and> b = a + row_total xs \<and> s + 12 \<le> n \<and>
     (\<forall>c\<in>set xs. fst c \<or> snd c < s + 12)"
proof (induction cs arbitrary: a)
  case (Cons c cs)
  show ?case
  proof (cases "\<not> fst c \<and> s + 12 \<le> snd c")
    case True
    then show ?thesis using Cons.prems by (intro exI [of _ "[]"] exI [of _ "snd c"] exI [of _ cs]) (cases c; auto)
  next
    case False
    then have "fit s (a + snd c) cs = Some b" using Cons.prems by (auto split: if_splits)
    from Cons.IH [OF this] obtain xs n bs where "cs = xs @ (False, n) # bs" "b = a + snd c + row_total xs" "s + 12 \<le> n"
      "\<forall>c\<in>set xs. fst c \<or> snd c < s + 12" by blast
    then show ?thesis using False by (intro exI [of _ "c # xs"] exI [of _ n] exI [of _ bs]) auto
  qed
qed simp

lemma fit_none: "fit s a cs = None \<longleftrightarrow> (\<forall>c\<in>set cs. fst c \<or> snd c < s + 12)"
  by (induction cs arbitrary: a) auto

lemma fit_skip: "\<forall>c\<in>set xs. fst c \<Longrightarrow> fit s a (xs @ ys) = fit s (a + row_total xs) ys"
  by (induction xs arbitrary: a) (auto simp: add.assoc)

text \<open>The blocks after \<open>s\<close> bytes have been taken from the free block of \<open>n\<close> between \<open>xs\<close> and \<open>bs\<close>.\<close>

definition taken :: "nat \<Rightarrow> cell list \<Rightarrow> nat \<Rightarrow> cell list \<Rightarrow> cell list" where
  "taken s xs n bs =
     xs @ (if s + 36 \<le> n then (True, s + 12) # (False, n - (s + 12)) # bs else (True, n) # bs)"

definition taken_size :: "nat \<Rightarrow> nat \<Rightarrow> nat" where
  "taken_size s n = (if s + 36 \<le> n then s + 12 else n)"

lemma taken_total: "s + 12 \<le> n \<Longrightarrow> row_total (taken s xs n bs) = row_total xs + n + row_total bs"
  and taken_used: "used_total (taken s xs n bs) = used_total xs + taken_size s n + used_total bs"
  and taken_ne: "taken s xs n bs \<noteq> []"
  by (auto simp: taken_def taken_size_def)

lemma taken_plugged: "plugged (xs @ (False, n) # bs) \<Longrightarrow> plugged (taken s xs n bs)"
  by (cases bs) (auto simp: taken_def plugged_append)

lemma first_free_less:
  "seg h p a xs \<Longrightarrow> \<not> (\<forall>c\<in>set xs. fst c) \<Longrightarrow> first_free a xs < a + row_total xs"
  by (induction xs arbitrary: p a) (fastforce split: if_splits)+

lemma smem_count_eq:
  "smem_count x h = h\<lparr>mem_used := mem_used h + x, mem_max := max (mem_max h) (mem_used h + x)\<rparr>"
  by (simp add: smem_count_def Let_def max_def)

lemma first_free_split:
  "\<exists>xs ys. cs = xs @ ys \<and> (\<forall>c\<in>set xs. fst c) \<and> first_free a cs = a + row_total xs"
proof (induction cs arbitrary: a)
  case (Cons c cs)
  show ?case
  proof (cases "fst c")
    case True
    obtain xs ys where "cs = xs @ ys" "\<forall>c\<in>set xs. fst c" "first_free (a + snd c) cs = a + snd c + row_total xs"
      using Cons.IH by blast
    then show ?thesis using True by (intro exI [of _ "c # xs"] exI [of _ ys]) auto
  qed (auto intro: exI [of _ "[]"])
qed simp

lemma smem_find_first:
  assumes "row h cs" "s \<le> unat (mem_size_aligned h)"
  shows "smem_find h (of_nat s) (lfree h) = Some (map_option of_nat (fit s 0 cs))"
proof -
  obtain xs ys where cs: "cs = xs @ ys" "\<forall>c\<in>set xs. fst c" "first_free 0 cs = 0 + row_total xs"
    using first_free_split by blast
  have r: "seg h 0 0 cs" "row_total cs < 2 ^ 32" "row_total cs = unat (mem_size_aligned h) + 12" "lfree h = of_nat (row_total xs)"
    using assms(1) cs(3) by (simp_all add: row_def)
  have "seg h (last_off 0 0 xs) (row_total xs) ys" using r(1) cs(1) by (simp add: seg_append)
  then show ?thesis
    using smem_find_fit [of h _ "row_total xs" ys s] r assms(2) cs(1) fit_skip [OF cs(2), of s 0 ys] by simp
qed

text \<open>The blocks once the chosen one is split and marked.\<close>

lemma take_seg:
  assumes r: "row h (xs @ (False, n) # bs)" and s: "s + 12 \<le> n" "12 \<le> s" "4 dvd s"
  defines "x \<equiv> row_total xs"
  defines "h1 \<equiv> if s + 36 \<le> n then smem_split (of_nat x) (of_nat (x + (s + 12))) h else h"
  defines "h2 \<equiv> upd_item (of_nat x) (\<lambda>i. i\<lparr>pool_ptr := MEM_USED h\<rparr>) h1"
  shows "seg h2 0 0 (taken s xs n bs)" "same_frame h h2" "lfree h2 = lfree h"
    "pool_ptr (items h2 (of_nat (x + n + row_total bs))) = MEM_USED h"
proof -
  note rm = row_mid [OF r]
  note md = seg_mid [OF rm(1)]
  have ne: "(of_nat (x + n + row_total bs) :: u32) \<noteq> of_nat x" unfolding x_def using rm(2) md(3) by (subst of_nat_eq32) auto
  have "seg h2 0 0 (taken s xs n bs) \<and> same_frame h h2 \<and> lfree h2 = lfree h \<and>
     pool_ptr (items h2 (of_nat (x + n + row_total bs))) = MEM_USED h"
  proof (cases "s + 36 \<le> n")
    case True
    have d: "4 dvd s + 12" using s(3) by simp
    note sp = smem_split_seg [OF rm(1,2) _ _ d rm(5)]
    have h1: "seg h1 0 0 (xs @ (False, s + 12) # (False, n - (s + 12)) # bs)" "same_frame h h1" "lfree h1 = lfree h"
      "pool_ptr (items h1 (of_nat (x + n + row_total bs))) = MEM_USED h"
      using sp True s(2) rm(4) by (simp_all add: h1_def x_def del: of_nat_add)
    have "seg h2 0 0 (xs @ (True, s + 12) # (False, n - (s + 12)) # bs)"
      unfolding h2_def x_def by (rule seg_set_flag [OF h1(1)]) (use True rm(2) same_frame_fields(9) [OF h1(2)] in simp_all)
    then show ?thesis using True h1 ne by (simp add: taken_def h2_def del: of_nat_add)
  next
    case False
    have "seg h2 0 0 (xs @ (True, n) # bs)"
      unfolding h2_def x_def h1_def using False by (simp del: of_nat_add) (rule seg_set_flag [OF rm(1,2)], simp)
    then show ?thesis using False ne rm(4) by (simp add: taken_def h2_def h1_def x_def del: of_nat_add)
  qed
  then show "seg h2 0 0 (taken s xs n bs)" "same_frame h h2" "lfree h2 = lfree h"
    "pool_ptr (items h2 (of_nat (x + n + row_total bs))) = MEM_USED h" by simp_all
qed

text \<open>The loop that looks for the new lowest free block.\<close>

lemma lowest_after_take:
  assumes r: "row h (xs @ (False, n) # bs)" and s: "s + 12 \<le> n"
    and g: "seg h2 0 0 (taken s xs n bs)" "heap_end h2 = heap_end h" "lfree h2 = lfree h"
      "pool_ptr (items h2 (heap_end h2)) = MEM_USED h2"
  defines "x \<equiv> of_nat (row_total xs) :: u32"
  shows "\<exists>l. (if x = lfree h2 then smem_lowest h2 (lfree h2) else Some (lfree h2)) = Some l \<and>
     l = of_nat (first_free 0 (taken s xs n bs))"
proof -
  note rm = row_mid [OF r]
  note md = seg_mid [OF rm(1)]
  have iff: "x = lfree h \<longleftrightarrow> (\<forall>c\<in>set xs. fst c)"
  proof -
    have "first_free 0 (xs @ (False, n) # bs) = (if \<forall>c\<in>set xs. fst c then row_total xs else first_free 0 xs)"
      by (simp add: first_free_append)
    moreover have "\<not> (\<forall>c\<in>set xs. fst c) \<longrightarrow> first_free 0 xs < row_total xs"
      using first_free_less [OF md(1)] by simp
    ultimately have "row_total xs = first_free 0 (xs @ (False, n) # bs) \<longleftrightarrow> (\<forall>c\<in>set xs. fst c)"
      by (metis less_irrefl_nat)
    moreover have "first_free 0 (xs @ (False, n) # bs) < 2 ^ 32"
      using first_free_bounds [of 0 "xs @ (False, n) # bs"] rm(2) by simp
    ultimately show ?thesis unfolding rm(6) x_def using rm(2) by (simp add: of_nat_eq32)
  qed
  have tt: "row_total (taken s xs n bs) = row_total xs + n + row_total bs" by (rule taken_total [OF s])
  show ?thesis
  proof (cases "\<forall>c\<in>set xs. fst c")
    case True
    obtain ts where ts: "taken s xs n bs = xs @ ts" "row_total ts = n + row_total bs" using tt by (auto simp: taken_def)
    have "seg h2 (last_off 0 0 xs) (row_total xs) ts" using g(1) ts by (simp add: seg_append)
    moreover have "heap_end h2 = of_nat (row_total xs + row_total ts)" using g(2) rm(3) ts(2) by (simp add: add.assoc)
    ultimately have "smem_lowest h2 (of_nat (row_total xs)) = Some (of_nat (first_free (row_total xs) ts))"
      using smem_lowest_first rm(2) ts(2) by (simp add: add.assoc)
    moreover have "first_free 0 (taken s xs n bs) = first_free (row_total xs) ts" using True ts(1) by (simp add: first_free_append)
    ultimately show ?thesis using True iff g(3) by (simp add: x_def)
  next
    case False
    have "first_free 0 (taken s xs n bs) = first_free 0 (xs @ (False, n) # bs)"
      unfolding taken_def first_free_append using False by (simp only: if_False)
    then show ?thesis using False iff g(3) rm(6) by auto
  qed
qed

lemma word_mod4: "4 dvd unat (x :: u32) \<Longrightarrow> x mod 4 = 0"
  by (simp add: word_unat_eq_iff unat_mod)

text \<open>The assertions at the end of an allocation.\<close>

lemma take_checks:
  assumes ok: "smem_ok h (xs @ (u, n) # bs)" and s: "s + 12 \<le> n"
  shows "mem_address h + of_nat (row_total xs) + 12 + of_nat s \<le> mem_address h + heap_end h"
    "(mem_address h + of_nat (row_total xs) + 12) mod 4 = 0" "(mem_address h + of_nat (row_total xs)) AND 3 = 0"
proof -
  have r: "row h (xs @ (u, n) # bs)" and al: "4 dvd unat (mem_address h)" using ok by (simp_all add: smem_ok_def)
  note rm = row_mid [OF r]
  have x: "4 dvd row_total xs" using seg_aligned [OF seg_mid(1) [OF rm(1)]] .
  have "unat (mem_address h + of_nat (row_total xs + 12 + s)) = unat (mem_address h) + (row_total xs + 12 + s)"
    "unat (mem_address h + of_nat (row_total xs + n + row_total bs)) = unat (mem_address h) + (row_total xs + n + row_total bs)"
    "unat (mem_address h + of_nat (row_total xs + 12)) = unat (mem_address h) + (row_total xs + 12)"
    "unat (mem_address h + of_nat (row_total xs)) = unat (mem_address h) + row_total xs"
    using s by (intro heap_address [OF ok]; simp)+
  note un = this
  have e: "mem_address h + of_nat (row_total xs) + 12 + of_nat s = mem_address h + of_nat (row_total xs + 12 + s)" by simp
  show "mem_address h + of_nat (row_total xs) + 12 + of_nat s \<le> mem_address h + heap_end h"
    unfolding e rm(3) word_le_nat_alt un(1,2) using s by simp
  have "mem_address h + of_nat (row_total xs) + 12 = mem_address h + of_nat (row_total xs + 12)" by simp
  then show "(mem_address h + of_nat (row_total xs) + 12) mod 4 = 0"
    using un(3) x al by (intro word_mod4) (simp only: dvd_add dvd_refl, simp)
  show "(mem_address h + of_nat (row_total xs)) AND 3 = 0" using un(4) x al by (intro aligned_and) simp
qed

lemma first_free_state:
  "seg h p a cs \<Longrightarrow> first_free a cs = a + row_total cs \<or> \<not> MEM_ISUSED h (of_nat (first_free a cs))"
proof (induction cs arbitrary: p a)
  case (Cons c cs)
  obtain u n where c: "c = (u, n)" by (cases c)
  have "MEM_ISUSED h (of_nat a) \<longleftrightarrow> u" using Cons.prems c by (intro used_flag) simp
  moreover have "first_free (a + n) cs = a + n + row_total cs \<or> \<not> MEM_ISUSED h (of_nat (first_free (a + n) cs))"
    using Cons c by auto
  ultimately show ?case using c by (cases u) (simp_all add: add.assoc)
qed simp

lemma smem_take_ok:
  assumes ok: "smem_ok h (xs @ (False, n) # bs)" and s: "s + 12 \<le> n" "12 \<le> s" "4 dvd s"
  shows "\<exists>h'. smem_take (of_nat (row_total xs)) (of_nat s) h = Some h' \<and> smem_ok h' (taken s xs n bs) \<and>
     bytes h' = bytes h \<and> mem_address h' = mem_address h"
proof -
  have r: "row h (xs @ (False, n) # bs)" using ok by (simp add: smem_ok_def)
  note rm = row_mid [OF r]
  note md = seg_mid [OF rm(1)]
  let ?x = "of_nat (row_total xs) :: u32" and ?T = "row_total xs + n + row_total bs"
  define h1 where "h1 = (if s + 36 \<le> n then smem_split ?x (of_nat (row_total xs + (s + 12))) h else h)"
  define h2 where "h2 = upd_item ?x (\<lambda>i. i\<lparr>pool_ptr := MEM_USED h\<rparr>) h1"
  note tk = take_seg [OF r s, folded h1_def, folded h2_def]
  note fr = same_frame_fields [OF tk(2)]
  have nx: "item_next (items h ?x) = of_nat (row_total xs + n)" using md(5) by simp
  have room: "item_next (items h ?x) - (?x + 12) \<ge> of_nat s + 12 + 12 \<longleftrightarrow> s + 36 \<le> n"
  proof -
    have e: "of_nat s + 12 + 12 = (of_nat (s + 24) :: u32)" by simp
    have "s + 24 < 2 ^ 32" using ok s(1) by (simp add: smem_ok_def)
    moreover have "n - 12 < 2 ^ 32" using rm(2) by linarith
    ultimately show ?thesis using of_nat_le32 [of "s + 24" "n - 12"] unfolding nx room_word [OF md(3)] e using md(3) by linarith
  qed
  define c where "c = (of_nat (taken_size s n) :: u32)"
  define h3 where "h3 = h2\<lparr>mem_used := mem_used h + c, mem_max := max (mem_max h) (mem_used h + c)\<rparr>"
  have f1: "same_frame h h1" using tk(2) by (simp add: h2_def)
  have h12: "upd_item ?x (\<lambda>i. i\<lparr>pool_ptr := MEM_USED (smem_count c h1)\<rparr>) (smem_count c h1) = h3"
    using same_frame_fields [OF f1] by (cases h1) (simp add: smem_count_eq h3_def h2_def MEM_USED_def)
  have sg3: "seg h3 0 0 (taken s xs n bs)" using tk(1) seg_cong [of h3 h2] by (simp add: h3_def)
  have f3: "heap_end h3 = heap_end h" "lfree h3 = lfree h" "mem_address h3 = mem_address h" "MEM_USED h3 = MEM_USED h"
    "smem_addr h3 = smem_addr h" "bytes h3 = bytes h" "mem_size_aligned h3 = mem_size_aligned h"
    using fr tk(3) by (simp_all add: h3_def MEM_USED_def)
  have e3: "pool_ptr (items h3 (of_nat ?T)) = MEM_USED h" using tk(4) by (simp add: h3_def del: of_nat_add)
  have "pool_ptr (items h3 (heap_end h3)) = MEM_USED h3" unfolding f3(1,4) rm(3) by (rule e3)
  from lowest_after_take [OF r s(1) sg3 f3(1,2) this] obtain l where
    l: "(if ?x = lfree h3 then smem_lowest h3 (lfree h3) else Some (lfree h3)) = Some l"
       "l = of_nat (first_free 0 (taken s xs n bs))" by blast
  let ?h4 = "h3\<lparr>lfree := l\<rparr>"
  have st: "l = heap_end ?h4 \<or> \<not> MEM_ISUSED ?h4 l"
    using first_free_state [OF sg3] l(2) taken_total [OF s(1), of xs bs] f3(1) rm(3)
    by (auto simp: MEM_ISUSED_def simp del: of_nat_add)
  have h1': "(if item_next (items h ?x) - (?x + 12) \<ge> of_nat s + 12 + 12
       then smem_count (of_nat s + 12) (smem_split ?x (?x + 12 + of_nat s) h)
       else smem_count (item_next (items h ?x) - ?x) h) = smem_count c h1"
    unfolding room using nx by (simp add: h1_def c_def taken_size_def add_ac)
  have "smem_take ?x (of_nat s) h = Some ?h4"
    using l(1) st take_checks [OF ok s(1)] f3 unfolding smem_take_def Let_def h1' h12
    by (cases "?x = lfree h3") auto
  moreover have "smem_ok ?h4 (taken s xs n bs)"
  proof -
    have "seg ?h4 0 0 (taken s xs n bs)" using sg3 seg_cong [of ?h4 h3] by simp
    then have "row ?h4 (taken s xs n bs)"
      unfolding row_def taken_total [OF s(1)] using f3 e3 rm l(2) by (simp del: of_nat_add)
    moreover have us: "unat (mem_used h) = used_total xs + used_total bs" using ok by (simp add: smem_ok_def)
    have "used_total xs + taken_size s n + used_total bs < 2 ^ 32"
      using rm(2) s(1) used_total_le [of xs] used_total_le [of bs] by (simp add: taken_size_def)
    then have "unat (mem_used h + c) = used_total xs + taken_size s n + used_total bs"
      using us by (simp add: unat_word_ariths c_def unat_of_nat32)
    moreover have "plugged (taken s xs n bs)" using ok taken_plugged by (simp add: smem_ok_def)
    moreover have "\<forall>c\<in>set (taken s xs n bs). fst c \<longrightarrow> 12 < snd c" using ok s by (auto simp: smem_ok_def taken_def)
    ultimately show ?thesis using ok f3
      unfolding smem_ok_def taken_total [OF s(1)] taken_used by (simp add: h3_def taken_ne)
  qed
  ultimately show ?thesis using f3 by simp
qed

text \<open>The number of bytes a request is rounded up to.\<close>

definition request :: "u32 \<Rightarrow> nat" where
  "request sz = max 12 ((unat sz + 3) div 4 * 4)"

lemma request_props: "12 \<le> request sz" "4 dvd request sz" "unat sz \<le> request sz"
proof -
  have "unat sz \<le> (unat sz + 3) div 4 * 4" by linarith
  then show "12 \<le> request sz" "4 dvd request sz" "unat sz \<le> request sz" by (auto simp: request_def max_def)
qed

lemma request_word:
  assumes "unat sz \<le> 0xfffffffc"
  shows "(if RT_ALIGN sz 4 < 12 then 12 else RT_ALIGN sz 4) = (of_nat (request sz) :: u32)" "request sz < 2 ^ 32"
proof -
  have a: "unat (RT_ALIGN sz 4) = (unat sz + 3) div 4 * 4" by (rule unat_RT_ALIGN) (use assms in simp)
  have "unat (RT_ALIGN sz 4) < 2 ^ 32" using unsigned_less [of "RT_ALIGN sz 4"] by simp
  then have "(unat sz + 3) div 4 * 4 < 2 ^ 32" unfolding a .
  then show "request sz < 2 ^ 32" by (simp add: request_def)
  show "(if RT_ALIGN sz 4 < 12 then 12 else RT_ALIGN sz 4) = (of_nat (request sz) :: u32)"
  proof (cases "(unat sz + 3) div 4 * 4 < 12")
    case True
    then show ?thesis using a by (simp add: word_less_nat_alt request_def)
  next
    case False
    then have "request sz = unat (RT_ALIGN sz 4)" using a by (simp add: request_def)
    moreover have "\<not> RT_ALIGN sz 4 < 12" using False a by (simp add: word_less_nat_alt)
    ultimately show ?thesis by simp
  qed
qed

lemma smem_alloc_cases:
  assumes ok: "smem_ok h cs" and k: "is_memory i k" and z: "sz \<noteq> 0" "unat sz \<le> 0xfffffffc"
  defines "s \<equiv> request sz"
  shows "(\<exists>xs n bs h'. cs = xs @ (False, n) # bs \<and> s + 12 \<le> n \<and> (\<forall>c\<in>set xs. fst c \<or> snd c < s + 12) \<and>
      rt_smem_alloc i k sz h = Some (Some (area h xs), h') \<and> smem_ok h' (taken s xs n bs) \<and>
      bytes h' = bytes h \<and> mem_address h' = mem_address h) \<or>
    (\<forall>c\<in>set cs. fst c \<or> snd c < s + 12) \<and> rt_smem_alloc i k sz h = Some (None, h)"
proof -
  have r: "row h cs" using ok by (simp add: smem_ok_def)
  note rq = request_word [OF z(2), folded s_def]
  have gt: "of_nat s > mem_size_aligned h \<longleftrightarrow> s > unat (mem_size_aligned h)"
    using rq(2) by (simp add: word_less_nat_alt unat_of_nat32)
  show ?thesis
  proof (cases "s > unat (mem_size_aligned h)")
    case True
    have "snd c < s + 12" if "c \<in> set cs" for c
    proof -
      have "snd c \<le> row_total cs" using that unfolding row_total_def by (intro member_le_sum_list) auto
      then show ?thesis using r True by (simp add: row_def)
    qed
    moreover have "rt_smem_alloc i k sz h = Some (None, h)"
      using True z(1) k gt by (simp add: rt_smem_alloc_def Let_def rq(1))
    ultimately show ?thesis by blast
  next
    case False
    have f: "smem_find h (of_nat s) (lfree h) = Some (map_option of_nat (fit s 0 cs))"
      using smem_find_first [OF r] False by simp
    show ?thesis
    proof (cases "fit s 0 cs")
      case None
      then have "rt_smem_alloc i k sz h = Some (None, h)"
        using False f z(1) k gt by (simp add: rt_smem_alloc_def Let_def rq(1))
      then show ?thesis using None fit_none by blast
    next
      case (Some b)
      then obtain xs n bs where c: "cs = xs @ (False, n) # bs" "b = row_total xs" "s + 12 \<le> n"
        "\<forall>c\<in>set xs. fst c \<or> snd c < s + 12" using fit_split [OF Some] by auto
      have s4: "12 \<le> s" "4 dvd s" using request_props by (simp_all add: s_def)
      obtain h' where h': "smem_take (of_nat (row_total xs)) (of_nat s) h = Some h'" "smem_ok h' (taken s xs n bs)"
        "bytes h' = bytes h" "mem_address h' = mem_address h"
        using smem_take_ok [OF ok [unfolded c(1)] c(3) s4] by blast
      have "rt_smem_alloc i k sz h = Some (Some (area h xs), h')"
        using False f Some c(2) z(1) k gt h'(1,4) by (simp add: rt_smem_alloc_def Let_def rq(1) area_def)
      then show ?thesis using c h' by blast
    qed
  qed
qed

lemma taken_release:
  assumes "plugged (xs @ (False, n) # bs)" "s + 12 \<le> n"
  shows "\<exists>m ds. taken s xs n bs = xs @ (True, m) # ds \<and> m = taken_size s n \<and> release xs m ds = xs @ (False, n) # bs"
proof -
  have l: "xs = [] \<or> fst (last xs)" and b: "bs = [] \<or> fst (hd bs)"
    using assms(1) by (auto simp: plugged_append; cases bs; auto)+
  have jn: "join_next n bs = (False, n) # bs" using b by (cases "(n, bs)" rule: join_next.cases) auto
  have jp: "join_prev xs ((False, n) # bs) = xs @ (False, n) # bs" using l by (auto simp: join_prev_def)
  show ?thesis
  proof (cases "s + 36 \<le> n")
    case True
    then show ?thesis using jp by (simp add: taken_def taken_size_def release_def)
  next
    case False
    then show ?thesis using jp jn by (simp add: taken_def taken_size_def release_def)
  qed
qed

subsection \<open>A new heap\<close>

lemma smem_setup_fields:
  assumes a: "smem_setup its bs begin_addr sz = Some h" and b: "unat begin_addr + unat sz < 2 ^ 32"
    and c: "unat begin_addr \<le> 0xffffff00"
  defines "A \<equiv> (unat begin_addr + 3) div 4 * 4" and "E \<equiv> unat begin_addr + unat sz - (unat begin_addr + unat sz) mod 4"
  shows "unat (smem_addr h) = A" "unat (mem_address h) = A + 56" "A + 80 \<le> E" "E < 2 ^ 32"
    "unat (mem_size_aligned h) = E - A - 80"
    "h = h\<lparr>mem_used := 0, mem_max := 0, heap_end := mem_size_aligned h + 12, lfree := 0,
       items := its(0 := \<lparr>pool_ptr = MEM_FREED h, item_next = mem_size_aligned h + 12, item_prev = 0\<rparr>,
         mem_size_aligned h + 12 := \<lparr>pool_ptr = MEM_USED h, item_next = mem_size_aligned h + 12,
            item_prev = mem_size_aligned h + 12\<rparr>), bytes := bs\<rparr>"
proof -
  let ?sm = "RT_ALIGN begin_addr 4" and ?e = "RT_ALIGN_DOWN (begin_addr + sz) 4"
  have sm: "unat ?sm = A" unfolding A_def by (rule unat_RT_ALIGN) (use c in simp)
  have A: "A \<le> unat begin_addr + 3" "4 dvd A" by (simp_all add: A_def)
  have st: "unat (?sm + 56) = A + 56" using sm A c by (simp add: unat_word_ariths)
  have ba: "unat (RT_ALIGN (?sm + 56) 4) = A + 56"
  proof -
    have "unat (RT_ALIGN (?sm + 56) 4) = (unat (?sm + 56) + 3) div 4 * 4"
      by (rule unat_RT_ALIGN) (use st A c in simp)
    then show ?thesis unfolding st using A(2) by (auto elim!: dvdE)
  qed
  have "unat (begin_addr + sz) = unat begin_addr + unat sz" using b by (simp add: unat_word_ariths)
  then have e: "unat ?e = E" by (simp add: unat_RT_ALIGN_DOWN E_def)
  show E: "E < 2 ^ 32" using b by (simp add: E_def)
  have cond: "?e > 24" "?e - 24 \<ge> ?sm + 56" using a by (auto simp: smem_setup_def Let_def split: if_splits)
  have "unat (?e - 24) = E - 24" using cond(1) e by (simp add: unat_sub word_less_nat_alt word_le_nat_alt)
  then show AE: "A + 80 \<le> E" using cond st e by (simp add: word_le_nat_alt word_less_nat_alt)
  have h: "smem_addr h = ?sm" "mem_address h = RT_ALIGN (?sm + 56) 4" "mem_size_aligned h = ?e - RT_ALIGN (?sm + 56) 4 - 24"
    using a by (auto simp: smem_setup_def Let_def split: if_splits)
  show "unat (smem_addr h) = A" "unat (mem_address h) = A + 56" using h sm ba by simp_all
  have "unat (?e - RT_ALIGN (?sm + 56) 4) = E - (A + 56)" using e ba AE by (simp add: unat_sub word_le_nat_alt)
  then show "unat (mem_size_aligned h) = E - A - 80" using h(3) AE by (simp add: unat_sub word_le_nat_alt)
  show "h = h\<lparr>mem_used := 0, mem_max := 0, heap_end := mem_size_aligned h + 12, lfree := 0,
       items := its(0 := \<lparr>pool_ptr = MEM_FREED h, item_next = mem_size_aligned h + 12, item_prev = 0\<rparr>,
         mem_size_aligned h + 12 := \<lparr>pool_ptr = MEM_USED h, item_next = mem_size_aligned h + 12,
            item_prev = mem_size_aligned h + 12\<rparr>), bytes := bs\<rparr>"
    using a by (auto simp: smem_setup_def Let_def MEM_USED_def MEM_FREED_def split: if_splits)
qed

lemma smem_setup_ok:
  assumes a: "smem_setup its bs begin_addr sz = Some h" and b: "unat begin_addr + unat sz < 2 ^ 32"
    and c: "unat begin_addr \<le> 0xffffff00" "begin_addr \<noteq> 0"
  shows "smem_ok h [(False, unat (mem_size_aligned h) + 12)]"
proof -
  define A where "A = (unat begin_addr + 3) div 4 * 4"
  define E where "E = unat begin_addr + unat sz - (unat begin_addr + unat sz) mod 4"
  note f = smem_setup_fields [OF a b c(1), folded A_def E_def]
  let ?m = "unat (mem_size_aligned h)"
  have "0 < unat begin_addr" using c(2) by (simp add: unat_gt_0)
  then have "0 < (unat begin_addr + 3) div 4" by linarith
  then have d: "4 dvd A" "4 dvd E" "0 < A" by (simp_all add: A_def E_def dvd_minus_mod)
  then have m: "4 dvd ?m" "?m + 12 < 2 ^ 32" "A + 56 + (?m + 12) + 12 < 2 ^ 32" unfolding f(5) using f(3,4) by auto
  have he: "mem_size_aligned h + 12 = of_nat (?m + 12)" by simp
  then have "mem_size_aligned h + 12 \<noteq> 0" using m(2) of_nat_eq32 [of "?m + 12" 0] by simp
  then have it: "items h 0 = \<lparr>pool_ptr = MEM_FREED h, item_next = of_nat (?m + 12), item_prev = 0\<rparr>"
    "pool_ptr (items h (of_nat (?m + 12))) = MEM_USED h" "heap_end h = of_nat (?m + 12)" "lfree h = 0"
    "mem_used h = 0" "mem_max h = 0"
    by (subst f(6), simp)+
  have "row h [(False, ?m + 12)]" unfolding row_def using it m d by (simp del: of_nat_add)
  moreover have "smem_addr h \<noteq> 0" using f(1) d(3) by auto
  ultimately show ?thesis unfolding smem_ok_def using it m d f(1,2) by simp
qed

section \<open>Shrinking and growing\<close>

text \<open>The cell list of a shrunk block.\<close>

lemma shrink_row:
  assumes ok: "smem_ok h (xs @ (True, n) # bs)" and m: "m + 36 < n" "4 dvd m" "0 < m"
  defines "x \<equiv> row_total xs"
  defines "h1 \<equiv> h\<lparr>mem_used := mem_used h - (of_nat (n - 12) - of_nat m)\<rparr>"
  defines "h2 \<equiv> smem_split (of_nat x) (of_nat (x + (m + 12))) h1"
  defines "h3 \<equiv> if of_nat (x + (m + 12)) < lfree h2 then h2\<lparr>lfree := of_nat (x + (m + 12))\<rparr> else h2"
  shows "row h3 ((xs @ [(True, m + 12)]) @ (False, n - (m + 12)) # bs)" "same_frame h1 h3"
proof -
  have r: "row h (xs @ (True, n) # bs)" using ok by (simp add: smem_ok_def)
  note rm = row_mid [OF r]
  note md = seg_mid [OF rm(1)]
  have sg1: "seg h1 0 0 (xs @ (True, n) # bs)" using rm(1) seg_cong [of h1 h] by (simp add: h1_def)
  have d: "4 dvd m + 12" using m(2) by simp
  have ms: "row_total xs + n + row_total bs = unat (mem_size_aligned h1) + 12" using rm(5) by (simp add: h1_def)
  have lim: "12 \<le> m + 12" "m + 12 + 12 \<le> n" using m(1) by simp_all
  note sp = smem_split_seg [OF sg1 rm(2) lim d ms, folded x_def, folded h2_def]
  show sf: "same_frame h1 h3" using sp(2) by (simp add: h3_def)
  let ?cs = "(xs @ [(True, m + 12)]) @ (False, n - (m + 12)) # bs"
  have "seg h3 0 0 ?cs" using sp(1) seg_cong [of h3 h2] by (simp add: h3_def)
  moreover have "pool_ptr (items h3 (of_nat (x + n + row_total bs))) = MEM_USED h1"
    using sp(4) rm(4) by (simp add: h3_def h1_def x_def del: of_nat_add)
  moreover have tt: "row_total (xs @ (True, n) # bs) = x + n + row_total bs" "row_total ?cs = x + n + row_total bs"
    using m(1) by (simp_all add: x_def)
  moreover have "lfree h3 = of_nat (first_free 0 ?cs)"
  proof -
    let ?p = "x + (m + 12)"
    have l: "lfree h2 = of_nat (first_free 0 (xs @ (True, n) # bs))" using sp(3) rm(6) by (simp add: h1_def)
    have b: "first_free 0 (xs @ (True, n) # bs) < 2 ^ 32" "?p < 2 ^ 32"
      using first_free_bounds [of 0 "xs @ (True, n) # bs"] rm(2) m(1) by (simp_all add: x_def)
    have "of_nat ?p < lfree h2 \<longleftrightarrow> ?p < first_free 0 (xs @ (True, n) # bs)"
      unfolding l by (rule of_nat_less32 [OF b(2,1)])
    moreover have "?p < first_free 0 (xs @ (True, n) # bs) \<longleftrightarrow> (\<forall>c\<in>set xs. fst c)"
      using first_free_bounds [of 0 xs] first_free_bounds [of "x + n" bs] m(1) by (auto simp: first_free_append x_def)
    ultimately show ?thesis using l by (auto simp: h3_def first_free_append x_def)
  qed
  moreover have r1: "row h1 (xs @ (True, n) # bs)" using r by (simp add: h1_def)
  ultimately show "row h3 ?cs" by (intro row_changed [OF r1 sf]) metis+
qed

definition shrunk :: "cell list \<Rightarrow> nat \<Rightarrow> nat \<Rightarrow> cell list \<Rightarrow> cell list" where
  "shrunk xs n m bs = xs @ (True, m + 12) # join_next (n - (m + 12)) bs"

lemma shrunk_cells:
  assumes "m + 36 < n"
  shows "shrunk xs n m bs \<noteq> []" "row_total (shrunk xs n m bs) = row_total xs + n + row_total bs"
    "used_total (shrunk xs n m bs) = used_total xs + (m + 12) + used_total bs"
    "plugged (xs @ (True, n) # bs) \<Longrightarrow> plugged (shrunk xs n m bs)"
    "fst c \<Longrightarrow> c \<in> set (shrunk xs n m bs) \<longleftrightarrow> c \<in> set xs \<or> c \<in> set bs \<or> c = (True, m + 12)"
proof -
  let ?k = "n - (m + 12)"
  have rl: "shrunk xs n m bs = release (xs @ [(True, m + 12)]) ?k bs" by (simp add: shrunk_def release_def join_prev_def)
  show "shrunk xs n m bs \<noteq> []" "row_total (shrunk xs n m bs) = row_total xs + n + row_total bs"
    "used_total (shrunk xs n m bs) = used_total xs + (m + 12) + used_total bs"
    using assms unfolding rl release_total release_used by (simp_all add: release_ne)
  have "plugged ((xs @ [(True, m + 12)]) @ (True, ?k) # bs)" if "plugged (xs @ (True, n) # bs)"
    using that by (cases bs) (auto simp: plugged_append)
  then show "plugged (shrunk xs n m bs)" if "plugged (xs @ (True, n) # bs)"
    unfolding rl using that by (intro release_plugged) blast
  show "c \<in> set (shrunk xs n m bs) \<longleftrightarrow> c \<in> set xs \<or> c \<in> set bs \<or> c = (True, m + 12)" if "fst c"
    unfolding rl release_cells [OF that] by auto
qed

text \<open>What \<open>rt_smem_realloc\<close> computes from the header of a block in use.\<close>

lemma realloc_header:
  assumes ok: "smem_ok h (xs @ (True, n) # bs)" and m: "m < 2 ^ 32 - 24"
  shows "item_next (items h (of_nat (row_total xs))) - of_nat (row_total xs) - 12 = (of_nat (n - 12) :: u32)"
    "(of_nat (n - 12) :: u32) = of_nat m \<longleftrightarrow> n = m + 12" "of_nat m + 12 + 12 < (of_nat (n - 12) :: u32) \<longleftrightarrow> m + 36 < n"
    "(of_nat (n - 12) :: u32) < of_nat m \<longleftrightarrow> n < m + 12"
proof -
  have r: "row h (xs @ (True, n) # bs)" using ok by (simp add: smem_ok_def)
  note rm = row_mid [OF r]
  note md = seg_mid [OF rm(1)]
  have n: "n - 12 < 2 ^ 32" "12 \<le> n" using rm(2) md(3) by simp_all
  show "item_next (items h (of_nat (row_total xs))) - of_nat (row_total xs) - 12 = (of_nat (n - 12) :: u32)"
    using md(5) n(2) by (simp add: of_nat_diff)
  have m1: "m < 2 ^ 32" "m + 24 < 2 ^ 32" using m by simp_all
  show "(of_nat (n - 12) :: u32) = of_nat m \<longleftrightarrow> n = m + 12" using of_nat_eq32 [OF n(1) m1(1)] n(2) by linarith
  show "(of_nat (n - 12) :: u32) < of_nat m \<longleftrightarrow> n < m + 12" using of_nat_less32 [OF n(1) m1(1)] n(2) by linarith
  have e: "of_nat m + 12 + 12 = (of_nat (m + 24) :: u32)" by simp
  show "of_nat m + 12 + 12 < (of_nat (n - 12) :: u32) \<longleftrightarrow> m + 36 < n"
    unfolding e using of_nat_less32 [OF m1(2) n(1)] n(2) by linarith
qed

text \<open>The rounded size of a request that fits the heap.\<close>

lemma realloc_size:
  assumes ok: "smem_ok h cs" and z: "0 < unat sz" "unat sz \<le> 0xfffffffc" "RT_ALIGN sz 4 \<le> mem_size_aligned h"
  defines "m \<equiv> (unat sz + 3) div 4 * 4"
  shows "RT_ALIGN sz 4 = of_nat m" "RT_ALIGN sz 4 \<noteq> 0" "0 < m" "4 dvd m" "m < 2 ^ 32 - 24" "unat sz \<le> m"
proof -
  have a: "unat (RT_ALIGN sz 4) = m" unfolding m_def by (rule unat_RT_ALIGN) (use z(2) in simp)
  show "RT_ALIGN sz 4 = of_nat m" unfolding a [symmetric] by simp
  have "0 < (unat sz + 3) div 4" using z(1) by linarith
  then show "0 < m" "4 dvd m" by (simp_all add: m_def)
  then show "RT_ALIGN sz 4 \<noteq> 0" using a by auto
  show "m < 2 ^ 32 - 24" using z(3) ok a by (simp add: word_le_nat_alt smem_ok_def row_def)
  show "unat sz \<le> m" unfolding m_def by linarith
qed

lemma realloc_shrink:
  assumes ok: "smem_ok h (xs @ (True, n) # bs)" and k: "is_memory i k"
    and z: "0 < unat sz" "unat sz \<le> 0xfffffffc" "RT_ALIGN sz 4 \<le> mem_size_aligned h"
    and m: "(unat sz + 3) div 4 * 4 + 36 < n"
  shows "\<exists>h'. rt_smem_realloc i k (Some (area h xs)) sz h = Some (Some (area h xs), h') \<and>
     smem_ok h' (shrunk xs n ((unat sz + 3) div 4 * 4) bs) \<and> bytes h' = bytes h \<and>
     mem_address h' = mem_address h"
proof -
  define m where "m = (unat sz + 3) div 4 * 4"
  note sz = realloc_size [OF ok z, folded m_def] and ar = area_props [OF ok]
  note hd = realloc_header [OF ok sz(5)]
  have mn: "m + 36 < n" using m by (simp add: m_def)
  let ?p = "of_nat (row_total xs + (m + 12)) :: u32"
  define q where "q = (of_nat (n - 12) :: u32)"
  define h1 where "h1 = h\<lparr>mem_used := mem_used h - (q - of_nat m)\<rparr>"
  define h2 where "h2 = smem_split (of_nat (row_total xs)) ?p h1"
  define h3 where "h3 = (if ?p < lfree h2 then h2\<lparr>lfree := ?p\<rparr> else h2)"
  note sr = shrink_row [OF ok mn sz(4,3), folded q_def, folded h1_def, folded h2_def, folded h3_def]
  have "row_total (xs @ [(True, m + 12)]) = row_total xs + (m + 12)" by simp
  then obtain h' where h': "plug_holes ?p h3 = Some h'" "row h' (shrunk xs n m bs)" "same_frame h3 h'"
    using plug_holes_row [OF sr(1)] by (auto simp: release_def join_prev_def shrunk_def)
  have pe: "of_nat (row_total xs) + 12 + of_nat m = ?p" by simp
  have "rt_smem_realloc i k (Some (area h xs)) sz h = Some (Some (area h xs), h')"
    using k z(3) sz(2) ar hd(2,3) mn h'(1) unfolding rt_smem_realloc_def Let_def option.case ar(3) sz(1) hd(1) pe q_def [symmetric]
      h1_def [symmetric] h2_def [symmetric] h3_def [symmetric] not_less [symmetric]
    by simp
  moreover have same: "smem_addr h' = smem_addr h" "mem_address h' = mem_address h" "mem_max h' = mem_max h"
    "bytes h' = bytes h" "mem_used h' = mem_used h - (q - of_nat m)"
    using same_frame_fields [OF h'(3)] same_frame_fields [OF sr(2)] by (simp_all add: h1_def)
  have "smem_ok h' (shrunk xs n m bs)"
  proof (rule smem_ok_changed [OF ok h'(2) _ _ _ _ same(1-3)])
    note sc = shrunk_cells [OF mn, where xs = xs and bs = bs]
    show "shrunk xs n m bs \<noteq> []" "row_total (shrunk xs n m bs) = row_total (xs @ (True, n) # bs)" using sc by simp_all
    show "plugged (shrunk xs n m bs)" using sc(4) ok by (simp add: smem_ok_def)
    show "\<forall>c\<in>set (shrunk xs n m bs). fst c \<longrightarrow> 12 < snd c" using sc(5) sz(3) ok by (auto simp: smem_ok_def)
    have u: "unat (mem_used h) = used_total xs + n + used_total bs" and qm: "unat (q - of_nat m) = n - 12 - m"
    proof -
      show "unat (mem_used h) = used_total xs + n + used_total bs" using ok by (simp add: smem_ok_def)
      have "n < 2 ^ 32" using ok by (simp add: smem_ok_def row_def)
      then have "n - 12 < 2 ^ 32" "m < 2 ^ 32" using mn by linarith+
      then show "unat (q - of_nat m) = n - 12 - m"
        using mn by (simp add: q_def unat_sub word_le_nat_alt unat_of_nat32 del: of_nat_diff)
    qed
    then have "q - of_nat m \<le> mem_used h" by (simp add: word_le_nat_alt)
    then show "unat (mem_used h') = used_total (shrunk xs n m bs)" "mem_used h' \<le> mem_used h"
      unfolding same(5) sc(3) using u qm mn by (simp_all add: unat_sub word_le_nat_alt)
  qed
  ultimately show ?thesis using same(2,4) by (auto simp: m_def)
qed

end
