(* ===== verification/Allocator.thy ===== *)
theory Allocator
  imports Main
begin

text \<open>
  The interface of a memory allocator: \<open>live\<close> is the set of areas (address and length) that are
  handed out, \<open>need\<close> the length a request asks for.  The client is any program that allocates
  and frees what it owns.
\<close>

datatype 'r mem_op = Alloc 'r | Free nat

text \<open>
  A run of the client: it keeps the address and the requested length of what it owns, and frees
  by position.
\<close>

fun mrun :: "('r \<Rightarrow> 'h \<Rightarrow> (nat option \<times> 'h) option) \<Rightarrow> (nat \<Rightarrow> 'h \<Rightarrow> 'h option) \<Rightarrow> ('r \<Rightarrow> nat) \<Rightarrow>
    'r mem_op list \<Rightarrow> 'h \<times> (nat \<times> nat) list \<Rightarrow> ('h \<times> (nat \<times> nat) list) option" where
  "mrun alloc free need [] s = Some s"
| "mrun alloc free need (Alloc r # ops) (h, own) =
     (case alloc r h of
        None \<Rightarrow> None
      | Some (None, h') \<Rightarrow> mrun alloc free need ops (h', own)
      | Some (Some a, h') \<Rightarrow> mrun alloc free need ops (h', (a, need r) # own))"
| "mrun alloc free need (Free i # ops) (h, own) =
     (if i < length own then
        (case free (fst (own ! i)) h of
           None \<Rightarrow> None
         | Some h' \<Rightarrow> mrun alloc free need ops (h', take i own @ drop (Suc i) own))
      else mrun alloc free need ops (h, own))"

definition owns :: "(nat \<times> nat) set \<Rightarrow> (nat \<times> nat) list \<Rightarrow> bool" where
  "owns L own \<longleftrightarrow> distinct (map fst own) \<and> (\<forall>x\<in>set own. \<exists>l\<ge>snd x. (fst x, l) \<in> L)"

definition apart :: "nat \<times> nat \<Rightarrow> nat \<times> nat \<Rightarrow> bool" where
  "apart x y \<longleftrightarrow> fst x + snd x \<le> fst y \<or> fst y + snd y \<le> fst x"

locale allocator =
  fixes inv :: "'h \<Rightarrow> bool"
    and live :: "'h \<Rightarrow> (nat \<times> nat) set"
    and admits :: "'r \<Rightarrow> bool"
    and need :: "'r \<Rightarrow> nat"
    and alloc :: "'r \<Rightarrow> 'h \<Rightarrow> (nat option \<times> 'h) option"
    and free :: "nat \<Rightarrow> 'h \<Rightarrow> 'h option"
  assumes alloc_ok: "inv h \<Longrightarrow> admits r \<Longrightarrow> \<exists>res h'. alloc r h = Some (res, h') \<and> inv h' \<and>
        (case res of None \<Rightarrow> live h' = live h | Some a \<Rightarrow> \<exists>l. need r \<le> l \<and> live h' = insert (a, l) (live h) \<and> (a, l) \<notin> live h)"
    and free_ok: "inv h \<Longrightarrow> (a, l) \<in> live h \<Longrightarrow> \<exists>h'. free a h = Some h' \<and> inv h' \<and> live h' = live h - {(a, l)}"
    and live_apart: "inv h \<Longrightarrow> x \<in> live h \<Longrightarrow> y \<in> live h \<Longrightarrow> x \<noteq> y \<Longrightarrow> apart x y"
    and live_pos: "inv h \<Longrightarrow> x \<in> live h \<Longrightarrow> 0 < snd x"
begin

lemma live_address:
  assumes "inv h" "(a, l) \<in> live h" "(a, m) \<in> live h"
  shows "l = m"
  using live_apart [OF assms(1-3)] live_pos [OF assms(1,2)] live_pos [OF assms(1,3)] by (auto simp: apart_def)

lemma owns_alloc:
  assumes "inv h'" "owns (live h) own" "need r \<le> l" "live h' = insert (a, l) (live h)" "(a, l) \<notin> live h"
  shows "owns (live h') ((a, need r) # own)"
proof -
  have "a \<noteq> fst x" if x: "x \<in> set own" for x
  proof
    assume e: "a = fst x"
    obtain m where "(fst x, m) \<in> live h" using assms(2) x unfolding owns_def by blast
    then show False using live_address [OF assms(1), of a l m] assms(4,5) e by auto
  qed
  then have "a \<notin> fst ` set own" by blast
  moreover have "\<forall>x\<in>set own. \<exists>l\<ge>snd x. (fst x, l) \<in> live h'" using assms(2,4) unfolding owns_def by blast
  ultimately show ?thesis using assms(2-4) by (simp add: owns_def) blast
qed

lemma owns_free:
  assumes "inv h" "owns (live h) own" "i < length own" "(fst (own ! i), l) \<in> live h" "live h' = live h - {(fst (own ! i), l)}"
  shows "owns (live h') (take i own @ drop (Suc i) own)"
proof -
  let ?own = "take i own @ drop (Suc i) own"
  have s: "own = take i own @ own ! i # drop (Suc i) own" using assms(3) by (rule id_take_nth_drop)
  have "distinct (map fst (take i own @ own ! i # drop (Suc i) own))" using assms(2) s by (simp add: owns_def)
  then have d: "distinct (map fst ?own)" "fst (own ! i) \<notin> fst ` set ?own" by auto
  have "\<exists>l\<ge>snd x. (fst x, l) \<in> live h'" if "x \<in> set ?own" for x
  proof -
    have "x \<in> set own" using that by (auto dest: in_set_takeD in_set_dropD)
    then obtain m where "m \<ge> snd x" "(fst x, m) \<in> live h" using assms(2) unfolding owns_def by blast
    moreover have "fst x \<noteq> fst (own ! i)" using d(2) that by (metis imageI)
    ultimately show ?thesis using assms(5) by blast
  qed
  then show ?thesis using d(1) by (simp add: owns_def)
qed

text \<open>Whatever the client does, every call returns and what it owns never overlaps.\<close>

lemma mrun_ok:
  assumes "inv h" "owns (live h) own" "\<forall>r. Alloc r \<in> set ops \<longrightarrow> admits r"
  shows "\<exists>h' own'. mrun alloc free need ops (h, own) = Some (h', own') \<and> inv h' \<and> owns (live h') own'"
  using assms
proof (induction ops arbitrary: h own)
  case (Cons x ops)
  show ?case
  proof (cases x)
    case (Alloc r)
    obtain res h' where h': "alloc r h = Some (res, h')" "inv h'"
      "case res of None \<Rightarrow> live h' = live h | Some a \<Rightarrow> \<exists>l. need r \<le> l \<and> live h' = insert (a, l) (live h) \<and> (a, l) \<notin> live h"
      using alloc_ok [OF Cons.prems(1), of r] Cons.prems(3) Alloc by auto
    show ?thesis
    proof (cases res)
      case None
      then show ?thesis using Cons.IH [OF h'(2), of own] Cons.prems h' Alloc by auto
    next
      case (Some a)
      then have "owns (live h') ((a, need r) # own)" using h'(3) owns_alloc [OF h'(2) Cons.prems(2)] by auto
      then show ?thesis using Cons.IH [OF h'(2)] Cons.prems(3) h'(1) Some Alloc by auto
    qed
  next
    case (Free i)
    show ?thesis
    proof (cases "i < length own")
      case True
      then have "own ! i \<in> set own" by simp
      then obtain l where l: "(fst (own ! i), l) \<in> live h" using Cons.prems(2) unfolding owns_def by blast
      obtain h' where h': "free (fst (own ! i)) h = Some h'" "inv h'" "live h' = live h - {(fst (own ! i), l)}"
        using free_ok [OF Cons.prems(1) l] by blast
      have "owns (live h') (take i own @ drop (Suc i) own)"
        by (rule owns_free [OF Cons.prems(1,2) True l h'(3)])
      then show ?thesis using Cons.IH [OF h'(2)] Cons.prems(3) h'(1) True Free by auto
    next
      case False
      then show ?thesis using Cons.IH [OF Cons.prems(1,2)] Cons.prems(3) Free by simp
    qed
  qed
qed simp

lemma owned_apart:
  assumes "inv h" "owns (live h) own" "i < length own" "j < length own" "i \<noteq> j"
  shows "apart (own ! i) (own ! j)"
proof -
  have o: "\<exists>l. snd (own ! k) \<le> l \<and> (fst (own ! k), l) \<in> live h" if "k < length own" for k
    using assms(2) nth_mem [OF that] unfolding owns_def by blast
  obtain l m where l: "snd (own ! i) \<le> l" "(fst (own ! i), l) \<in> live h" "snd (own ! j) \<le> m" "(fst (own ! j), m) \<in> live h"
    using o [OF assms(3)] o [OF assms(4)] by blast
  have "fst (own ! i) \<noteq> fst (own ! j)"
    using assms(2-5) by (simp add: owns_def) (metis length_map nth_eq_iff_index_eq nth_map)
  then have "apart (fst (own ! i), l) (fst (own ! j), m)" using live_apart [OF assms(1) l(2,4)] by simp
  then show ?thesis using l by (auto simp: apart_def)
qed

end

end
