(* ===== verification/Heap_Contract.thy ===== *)
theory Heap_Contract
  imports Heap_Ops Allocator Sample
begin

text \<open>
  What the small memory heap promises its callers: the areas it has handed out, the heap as an
  instance of the allocator interface, and the contract of every operation.
\<close>

section \<open>The memory handed out\<close>

text \<open>The areas of the blocks in use, as address and length, for a row that begins at address \<open>a\<close>.\<close>

fun areas :: "nat \<Rightarrow> cell list \<Rightarrow> (nat \<times> nat) set" where
  "areas a [] = {}"
| "areas a (c # cs) = (if fst c then insert (a + 12, snd c - 12) (areas (a + snd c) cs) else areas (a + snd c) cs)"

lemma areas_append: "areas a (xs @ ys) = areas a xs \<union> areas (a + row_total xs) ys"
  by (induction xs arbitrary: a) (auto simp: add.assoc)

lemma areas_join_next: "areas a (join_next n bs) = areas (a + n) bs"
  by (cases "(n, bs)" rule: join_next.cases) (auto simp: add.assoc)

lemma areas_release: "areas a (release xs n bs) = areas a xs \<union> areas (a + row_total xs + n) bs"
proof -
  obtain m ds where j: "join_next n bs = (False, m) # ds" using join_next_shape by blast
  have "areas b (join_prev xs ((False, m) # ds)) = areas b xs \<union> areas (b + row_total xs + m) ds" for b
    by (cases xs rule: rev_cases) (auto simp: join_prev_def areas_append add.assoc)
  moreover have "areas (a + row_total xs + m) ds = areas (a + row_total xs + n) bs"
    using areas_join_next [of "a + row_total xs" n bs] j by simp
  ultimately show ?thesis unfolding release_def j by simp
qed

lemma areas_taken:
  "s + 12 \<le> n \<Longrightarrow> areas a (taken s xs n bs) =
     insert (a + row_total xs + 12, taken_size s n - 12) (areas a (xs @ (False, n) # bs))"
  by (auto simp: taken_def taken_size_def areas_append add.assoc)

lemma areas_range:
  "(b, l) \<in> areas a cs \<Longrightarrow> \<forall>c\<in>set cs. fst c \<longrightarrow> 12 < snd c \<Longrightarrow> a + 12 \<le> b \<and> b + l \<le> a + row_total cs \<and> 0 < l"
  by (induction cs arbitrary: a) (fastforce split: if_splits)+

lemma areas_disjoint:
  assumes "\<forall>c\<in>set cs. fst c \<longrightarrow> 12 < snd c" "(b, l) \<in> areas a cs" "(d, m) \<in> areas a cs" "(b, l) \<noteq> (d, m)"
  shows "b + l \<le> d \<or> d + m \<le> b"
  using assms
proof (induction cs arbitrary: a)
  case (Cons c cs)
  have r: "a + snd c + 12 \<le> e" if "(e, j) \<in> areas (a + snd c) cs" for e j
    using areas_range [OF that] Cons.prems(1) by auto
  show ?case
  proof (cases "(b, l) \<in> areas (a + snd c) cs \<and> (d, m) \<in> areas (a + snd c) cs")
    case True
    then show ?thesis using Cons by auto
  next
    case False
    then show ?thesis using Cons.prems r [of b l] r [of d m] by (auto split: if_splits)
  qed
qed simp

lemma areas_split:
  "(b, l) \<in> areas a cs \<Longrightarrow> \<exists>xs n bs. cs = xs @ (True, n) # bs \<and> b = a + row_total xs + 12 \<and> l = n - 12"
proof (induction cs arbitrary: a)
  case (Cons c cs)
  show ?case
  proof (cases "fst c \<and> (b, l) = (a + 12, snd c - 12)")
    case True
    then show ?thesis by (intro exI [of _ "[]"] exI [of _ "snd c"] exI [of _ cs]) (cases c; auto)
  next
    case False
    then have "(b, l) \<in> areas (a + snd c) cs" using Cons.prems by (auto split: if_splits)
    from Cons.IH [OF this] obtain xs n bs where "cs = xs @ (True, n) # bs" "b = a + snd c + row_total xs + 12" "l = n - 12"
      by blast
    then show ?thesis by (intro exI [of _ "c # xs"] exI [of _ n] exI [of _ bs]) auto
  qed
qed simp

text \<open>Releasing one area leaves all others.\<close>

lemma areas_minus:
  assumes "\<forall>c\<in>set (xs @ (True, n) # bs). fst c \<longrightarrow> 12 < snd c"
  shows "areas a (release xs n bs) = areas a (xs @ (True, n) # bs) - {(a + row_total xs + 12, n - 12)}"
proof -
  have "(a + row_total xs + 12, n - 12) \<notin> areas a xs"
    using areas_range [of "a + row_total xs + 12" "n - 12" a xs] assms by auto
  moreover have "(a + row_total xs + 12, n - 12) \<notin> areas (a + row_total xs + n) bs"
    using areas_range [of "a + row_total xs + 12" "n - 12" "a + row_total xs + n" bs] assms by auto
  ultimately show ?thesis unfolding areas_release by (auto simp: areas_append)
qed

text \<open>The row of a heap, read off its headers, and what it has handed out.\<close>

fun read_row :: "nat \<Rightarrow> rt_small_mem \<Rightarrow> u32 \<Rightarrow> cell list" where
  "read_row 0 h p = []"
| "read_row (Suc f) h p =
     (if p = heap_end h then []
      else (MEM_ISUSED h p, unat (item_next (items h p) - p)) # read_row f h (item_next (items h p)))"

definition heap_cells :: "rt_small_mem \<Rightarrow> cell list" where
  "heap_cells h = read_row (unat (mem_size_aligned h) + 12) h 0"

definition live :: "rt_small_mem \<Rightarrow> (nat \<times> nat) set" where
  "live h = areas (unat (mem_address h)) (heap_cells h)"

definition smem_inv :: "rt_small_mem \<Rightarrow> bool" where
  "smem_inv h \<longleftrightarrow> smem_ok h (heap_cells h)"

lemma read_row_seg:
  assumes "seg h p a cs" "a + row_total cs < 2 ^ 32" "heap_end h = of_nat (a + row_total cs)" "row_total cs \<le> f"
  shows "read_row f h (of_nat a) = cs"
  using assms
proof (induction cs arbitrary: p a f)
  case Nil
  then show ?case by (cases f) simp_all
next
  case (Cons c cs)
  obtain u n where c: "c = (u, n)" by (cases c)
  have n: "12 \<le> n" "item_next (items h (of_nat a)) = of_nat (a + n)" using Cons.prems(1) c by simp_all
  then obtain g where f: "f = Suc g" using Cons.prems(4) c by (cases f) auto
  have "of_nat a \<noteq> heap_end h" unfolding Cons.prems(3) using Cons.prems(2) c n(1) by (subst of_nat_eq32) auto
  moreover have "MEM_ISUSED h (of_nat a) \<longleftrightarrow> u" using Cons.prems(1) c by (intro used_flag) simp
  moreover have "unat (of_nat (a + n) - of_nat a :: u32) = n" using Cons.prems(2) c by (simp add: unat_of_nat32)
  moreover have "read_row g h (of_nat (a + n)) = cs"
    using Cons.IH [of a "a + n" g] Cons.prems c f n(1) by (simp add: add.assoc)
  ultimately show ?case using c f n(2) by simp
qed

lemma heap_cells_ok:
  assumes "smem_ok h cs"
  shows "heap_cells h = cs" "smem_inv h" "live h = areas (unat (mem_address h)) cs"
proof -
  have r: "seg h 0 0 cs" "row_total cs < 2 ^ 32" "row_total cs = unat (mem_size_aligned h) + 12" "heap_end h = of_nat (row_total cs)"
    using assms by (simp_all add: smem_ok_def row_def)
  show c: "heap_cells h = cs" unfolding heap_cells_def using read_row_seg [OF r(1), of "unat (mem_size_aligned h) + 12"] r by simp
  then show "smem_inv h" "live h = areas (unat (mem_address h)) cs" using assms by (simp_all add: smem_inv_def live_def)
qed

lemma smem_ok_bytes [simp]: "smem_ok (h\<lparr>bytes := b\<rparr>) cs \<longleftrightarrow> smem_ok h cs"
  by (simp add: smem_ok_def)

lemma smem_alloc_live:
  assumes ok: "smem_inv h" and k: "is_memory i k" and z: "unat sz \<le> 0xfffffffc"
  shows "\<exists>res h'. rt_smem_alloc i k sz h = Some (res, h') \<and> smem_inv h' \<and> bytes h' = bytes h \<and>
     mem_address h' = mem_address h \<and>
     (case res of None \<Rightarrow> h' = h
      | Some a \<Rightarrow> \<exists>l. unat sz \<le> l \<and> live h' = insert (unat a, l) (live h) \<and> (unat a, l) \<notin> live h \<and> a AND 3 = 0)"
proof (cases "sz = 0")
  case True
  then show ?thesis using ok by (simp add: rt_smem_alloc_def)
next
  case False
  define s where "s = request sz"
  have o: "smem_ok h (heap_cells h)" using ok by (simp add: smem_inv_def)
  from smem_alloc_cases [OF o k False z, folded s_def] show ?thesis
  proof (elim disjE exE conjE)
    fix xs n bs h'
    assume c: "heap_cells h = xs @ (False, n) # bs" "s + 12 \<le> n" and r: "rt_smem_alloc i k sz h = Some (Some (area h xs), h')"
      and o': "smem_ok h' (taken s xs n bs)" and e: "bytes h' = bytes h" "mem_address h' = mem_address h"
    let ?b = "unat (mem_address h)" and ?l = "taken_size s n - 12"
    have l': "live h' = insert (?b + row_total xs + 12, ?l) (live h)"
      using heap_cells_ok(3) [OF o'] areas_taken [OF c(2)] c(1) e(2) by (simp add: live_def)
    have a: "unat (area h xs) = ?b + row_total xs + 12" "area h xs AND 3 = 0" using area_props(1,2) o c(1) by simp_all
    have "unat sz \<le> ?l" using request_props(3) [of sz] c(2) by (auto simp: s_def taken_size_def)
    moreover have "(?b + row_total xs + 12, ?l) \<notin> live h"
    proof
      assume "(?b + row_total xs + 12, ?l) \<in> live h"
      then have i: "(?b + row_total xs + 12, ?l) \<in> areas ?b xs \<union> areas (?b + row_total xs + n) bs"
        unfolding live_def c(1) by (simp add: areas_append)
      have w: "\<forall>c\<in>set xs. fst c \<longrightarrow> 12 < snd c" "\<forall>c\<in>set bs. fst c \<longrightarrow> 12 < snd c" using o c(1) by (auto simp: smem_ok_def)
      show False using i areas_range [OF _ w(1)] areas_range [OF _ w(2)] c(2) by fastforce
    qed
    ultimately show ?thesis using r heap_cells_ok(2) [OF o'] l' a e by auto
  qed (use ok in auto)
qed

lemma smem_free_live:
  assumes ok: "smem_inv h" and k: "is_memory i k" and l: "(unat a, l) \<in> live h"
  shows "\<exists>h'. rt_smem_free i k (Some a) h = Some h' \<and> smem_inv h' \<and> live h' = live h - {(unat a, l)} \<and>
     bytes h' = bytes h \<and> mem_address h' = mem_address h"
proof -
  have o: "smem_ok h (heap_cells h)" using ok by (simp add: smem_inv_def)
  obtain xs n bs where c: "heap_cells h = xs @ (True, n) # bs" "unat a = unat (mem_address h) + row_total xs + 12" "l = n - 12"
    using areas_split [OF l [unfolded live_def]] by blast
  have o1: "smem_ok h (xs @ (True, n) # bs)" using o c(1) by simp
  have a: "a = area h xs" using area_props(1) [OF o1] c(2) by (simp add: word_unat_eq_iff)
  obtain h' where h': "rt_smem_free i k (Some a) h = Some h'" "smem_ok h' (release xs n bs)"
    "bytes h' = bytes h" "mem_address h' = mem_address h"
    using rt_smem_free_ok [OF o1 k] a by blast
  have "\<forall>c\<in>set (xs @ (True, n) # bs). fst c \<longrightarrow> 12 < snd c" using o1 by (simp add: smem_ok_def)
  from areas_minus [OF this] have "live h' = live h - {(unat a, l)}"
    using heap_cells_ok(3) [OF h'(2)] heap_cells_ok(3) [OF o1] c(2,3) h'(4) by simp
  then show ?thesis using h' heap_cells_ok(2) [OF h'(2)] by blast
qed

section \<open>The heap as an allocator\<close>

text \<open>The calls on a heap with the kernel state that holds its object header.\<close>

definition smem_alloc_at :: "nat \<Rightarrow> u32 \<Rightarrow> kernel \<times> rt_small_mem \<Rightarrow> (nat option \<times> kernel \<times> rt_small_mem) option" where
  "smem_alloc_at i sz s =
     map_option (\<lambda>(a, h). (map_option unat a, fst s, h)) (rt_smem_alloc i (fst s) sz (snd s))"

definition smem_free_at :: "nat \<Rightarrow> nat \<Rightarrow> kernel \<times> rt_small_mem \<Rightarrow> (kernel \<times> rt_small_mem) option" where
  "smem_free_at i a s = map_option (Pair (fst s)) (rt_smem_free i (fst s) (Some (of_nat a)) (snd s))"

lemma live_bound: "smem_inv h \<Longrightarrow> (a, l) \<in> live h \<Longrightarrow> a < 2 ^ 32"
proof -
  assume o: "smem_inv h" and l: "(a, l) \<in> live h"
  have c: "smem_ok h (heap_cells h)" using o by (simp add: smem_inv_def)
  have "a + l \<le> unat (mem_address h) + row_total (heap_cells h)"
    using areas_range [OF l [unfolded live_def]] c by (auto simp: smem_ok_def)
  then show ?thesis using c by (simp add: smem_ok_def)
qed

interpretation smem: allocator "\<lambda>s. smem_inv (snd s) \<and> is_memory i (fst s)" "\<lambda>s. live (snd s)"
    "\<lambda>sz. unat sz \<le> 0xfffffffc" unat "smem_alloc_at i" "smem_free_at i" for i
proof (unfold_locales, goal_cases)
  case (1 s sz)
  from smem_alloc_live [of "snd s" i "fst s" sz] 1 show ?case
    by (fastforce simp: smem_alloc_at_def split: option.splits)
next
  case (2 s a l)
  then have "unat (of_nat a :: u32) = a" using live_bound unat_of_nat32 by blast
  with smem_free_live [of "snd s" i "fst s" "of_nat a" l] 2 show ?case by (auto simp: smem_free_at_def)
next
  case (3 s x y)
  then have "\<forall>c\<in>set (heap_cells (snd s)). fst c \<longrightarrow> 12 < snd c" by (simp add: smem_inv_def smem_ok_def)
  from areas_disjoint [OF this] 3 show ?case unfolding apart_def live_def by (cases x; cases y) auto
next
  case (4 s x)
  then have "\<forall>c\<in>set (heap_cells (snd s)). fst c \<longrightarrow> 12 < snd c" by (simp add: smem_inv_def smem_ok_def)
  from areas_range [OF _ this] 4 show ?case unfolding live_def by (cases x) auto
qed

lemma realloc_move:
  assumes ok: "smem_ok h (xs @ (True, n) # bs)" and k: "is_memory i k"
    and z: "0 < unat sz" "unat sz \<le> 0xfffffffc" "RT_ALIGN sz 4 \<le> mem_size_aligned h"
  defines "m \<equiv> (unat sz + 3) div 4 * 4"
  assumes mn: "n \<noteq> m + 12" "\<not> m + 36 < n"
  shows "\<exists>r h'. rt_smem_realloc i k (Some (area h xs)) sz h = Some (r, h') \<and>
     (case r of None \<Rightarrow> h' = h
      | Some a \<Rightarrow> smem_inv h' \<and> mem_address h' = mem_address h \<and>
         (\<exists>l\<ge>m. live h' = insert (unat a, l) (live h - {(unat (area h xs), n - 12)}) \<and> (unat a, l) \<notin> live h \<and>
           (\<forall>x. bytes h' x = (if x - (a - mem_address h) < min (of_nat (n - 12)) (of_nat m)
                  then bytes h (area h xs - mem_address h + (x - (a - mem_address h))) else bytes h x))))"
proof -
  note sz = realloc_size [OF ok z, folded m_def] and ar = area_props [OF ok]
  note hd = realloc_header [OF ok sz(5)] and hc = heap_cells_ok [OF ok]
  define q where "q = (of_nat (n - 12) :: u32)"
  let ?p = "of_nat m :: u32" and ?r = "area h xs"
  have m32: "unat ?p = m" using sz(5) by (simp add: unat_of_nat32)
  have lim: "unat ?p \<le> 0xfffffffc" using sz(5) m32 by simp
  obtain res h1 where h1: "rt_smem_alloc i k ?p h = Some (res, h1)" "smem_inv h1" "bytes h1 = bytes h"
     "mem_address h1 = mem_address h"
     "case res of None \<Rightarrow> h1 = h
      | Some a \<Rightarrow> \<exists>l. unat ?p \<le> l \<and> live h1 = insert (unat a, l) (live h) \<and> (unat a, l) \<notin> live h \<and> a AND 3 = 0"
    using smem_alloc_live [OF hc(2) k lim] by blast
  define h2 where "h2 = (\<lambda>a. h1\<lparr>bytes := (\<lambda>x. if x - (a - mem_address h1) < (if q < ?p then q else ?p)
       then bytes h1 (?r - mem_address h1 + (x - (a - mem_address h1))) else bytes h1 x)\<rparr>)"
  have re: "rt_smem_realloc i k (Some ?r) sz h =
      (case res of None \<Rightarrow> Some (None, h1)
       | Some a \<Rightarrow> map_option (Pair (Some a)) (rt_smem_free i k (Some ?r) (h2 a)))"
    using k z(3) sz(2) ar hd(2,3) mn h1(1)
    unfolding rt_smem_realloc_def Let_def option.case ar(3) sz(1) hd(1) q_def [symmetric] not_less [symmetric] h2_def
    by (auto split: option.splits simp: map_option_case)
  show ?thesis
  proof (cases res)
    case None
    then show ?thesis using re h1(5) by simp
  next
    case (Some a)
    then obtain l where l: "m \<le> l" "live h1 = insert (unat a, l) (live h)" "(unat a, l) \<notin> live h"
      using h1(5) m32 by auto
    have i2: "smem_inv (h2 a)" "live (h2 a) = live h1" "mem_address (h2 a) = mem_address h"
      using h1(2,4) smem_ok_bytes [where h = h1 and cs = "heap_cells h1"] heap_cells_ok [of "h2 a" "heap_cells h1"]
      by (simp_all add: h2_def smem_inv_def live_def)
    have old: "(unat ?r, n - 12) \<in> live h" using hc(3) ar(1) by (simp add: areas_append)
    then obtain h' where h': "rt_smem_free i k (Some ?r) (h2 a) = Some h'" "smem_inv h'"
      "live h' = live (h2 a) - {(unat ?r, n - 12)}" "bytes h' = bytes (h2 a)" "mem_address h' = mem_address (h2 a)"
      using smem_free_live [OF i2(1) k] i2(2) l(2) by blast
    have "live h' = insert (unat a, l) (live h - {(unat ?r, n - 12)})" using h'(3) i2(2) l(2,3) old by auto
    moreover have "bytes h' x = (if x - (a - mem_address h) < min q ?p
         then bytes h (?r - mem_address h + (x - (a - mem_address h))) else bytes h x)" for x
      using h'(4) h1(3,4) by (auto simp: h2_def min_def)
    ultimately show ?thesis using re Some h' i2(3) l(1,3) by (auto simp: q_def)
  qed
qed

text \<open>A concrete heap: 256 bytes of memory, and the same heap with a block of 40 bytes taken.\<close>

definition sample_heap :: rt_small_mem where
  "sample_heap = the (smem_setup (\<lambda>_. \<lparr>pool_ptr = 0, item_next = 0, item_prev = 0\<rparr>) (\<lambda>_. 0) 0x20000000 256)"

lemma sample_heap_setup:
  "smem_setup (\<lambda>_. \<lparr>pool_ptr = 0, item_next = 0, item_prev = 0\<rparr>) (\<lambda>_. 0) 0x20000000 256 = Some sample_heap"
  by (simp add: sample_heap_def smem_setup_def Let_def RT_ALIGN_def RT_ALIGN_DOWN_def)

lemma sample_heap_ok:
  "smem_ok sample_heap [(False, 188)]" "smem_inv sample_heap" "heap_cells sample_heap = [(False, 188)]"
  "mem_address sample_heap = 0x20000038" "is_memory 0 sample_kernel" "live sample_heap = {}"
proof -
  have "unat (mem_size_aligned sample_heap) = 176" using smem_setup_fields(5) [OF sample_heap_setup] by simp
  then show o: "smem_ok sample_heap [(False, 188)]" using smem_setup_ok [OF sample_heap_setup] by simp
  show "smem_inv sample_heap" "heap_cells sample_heap = [(False, 188)]" "live sample_heap = {}"
    using heap_cells_ok [OF o] by simp_all
  have "unat (mem_address sample_heap) = 0x20000038" using smem_setup_fields(2) [OF sample_heap_setup] by simp
  then show "mem_address sample_heap = 0x20000038" by (simp add: word_unat_eq_iff)
  show "is_memory 0 sample_kernel"
    by (simp add: is_memory_def rt_object_get_type_def rt_object_is_systemobject_def sample_kernel_def sample_object_def)
qed

definition sample_heap_taken :: rt_small_mem where
  "sample_heap_taken = snd (the (rt_smem_alloc 0 sample_kernel 40 sample_heap))"

lemma sample_heap_taken_ok:
  "smem_inv sample_heap_taken" "(0x20000044, 40) \<in> live sample_heap_taken"
  "heap_cells sample_heap_taken = [(True, 52), (False, 136)]"
proof -
  have rq: "request 40 = 40" by (simp add: request_def)
  obtain xs n bs h' where c: "[(False, 188)] = xs @ (False, n) # bs"
    "rt_smem_alloc 0 sample_kernel 40 sample_heap = Some (Some (area sample_heap xs), h')"
    "smem_ok h' (taken 40 xs n bs)" "mem_address h' = mem_address sample_heap"
    using smem_alloc_cases [OF sample_heap_ok(1,5), of 40] unfolding rq by fastforce
  have "h' = sample_heap_taken" using c(2) by (simp add: sample_heap_taken_def)
  moreover have "xs = []" "n = 188" "bs = []" using c(1) by (cases xs; simp)+
  ultimately have o: "smem_ok sample_heap_taken [(True, 52), (False, 136)]" "mem_address sample_heap_taken = 0x20000038"
    using c(3,4) sample_heap_ok(4) by (simp_all add: taken_def)
  show "smem_inv sample_heap_taken" "heap_cells sample_heap_taken = [(True, 52), (False, 136)]"
    "(0x20000044, 40) \<in> live sample_heap_taken"
    using heap_cells_ok [OF o(1)] o(2) by simp_all
qed

section \<open>The promises of the heap\<close>

text \<open>
  The memory of an area that was handed out, and what the contract of a resize says of it.
\<close>

definition content :: "rt_small_mem \<Rightarrow> nat \<Rightarrow> nat \<Rightarrow> u8 list" where
  "content h a l = map (\<lambda>j. bytes h (of_nat (a - unat (mem_address h) + j))) [0..<l]"

lemma content_cong:
  assumes "bytes h' = bytes h" "mem_address h' = mem_address h"
  shows "content h' a l = content h a l"
  using assms by (simp add: content_def)

lemma live_range:
  assumes "smem_inv h" "(a, l) \<in> live h"
  shows "unat (mem_address h) + 12 \<le> a \<and> a + l + 12 < 2 ^ 32 \<and> 0 < l"
proof -
  have c: "smem_ok h (heap_cells h)" using assms by (simp add: smem_inv_def)
  then have "unat (mem_address h) + 12 \<le> a \<and> a + l \<le> unat (mem_address h) + row_total (heap_cells h) \<and> 0 < l"
    using areas_range [OF assms(2) [unfolded live_def]] by (auto simp: smem_ok_def)
  then show ?thesis using c by (auto simp: smem_ok_def)
qed

lemma live_disjoint:
  assumes "smem_inv h" "x \<in> live h" "y \<in> live h" "x \<noteq> y"
  shows "apart x y"
proof -
  have "\<forall>c\<in>set (heap_cells h). fst c \<longrightarrow> 12 < snd c" using assms(1) by (simp add: smem_inv_def smem_ok_def)
  from areas_disjoint [OF this] assms(2-4) show ?thesis unfolding apart_def live_def by (cases x; cases y) auto
qed

lemma offset_diff:
  assumes "M \<le> c" "M \<le> b" "b \<le> c + j"
  shows "(of_nat (c - M + j) - of_nat (b - M) :: u32) = of_nat (c + j - b)"
proof -
  have "c - M + j = (b - M) + (c + j - b)" using assms by linarith
  then have "(of_nat (c - M + j) :: u32) = of_nat (b - M) + of_nat (c + j - b)" by (simp only: of_nat_add)
  then show ?thesis by simp
qed

text \<open>The offset of byte \<open>j\<close> of an area, against the copied range.\<close>

lemma offset_in_range:
  assumes "M \<le> c" "c + m < 2 ^ 32" "M \<le> b" "b + len < 2 ^ 32" "j < m"
  shows "(of_nat (c - M + j) - of_nat (b - M) :: u32) < of_nat len \<longleftrightarrow> b \<le> c + j \<and> c + j < b + len"
proof (cases "b \<le> c + j")
  case True
  have "c + j - b < 2 ^ 32" "len < 2 ^ 32" using assms by linarith+
  then have "(of_nat (c + j - b) :: u32) < of_nat len \<longleftrightarrow> c + j - b < len" by (rule of_nat_less32)
  then show ?thesis unfolding offset_diff [OF assms(1,3) True] using True by linarith
next
  case False
  have d: "(of_nat (c - M + j) - of_nat (b - M) :: u32) = of_nat (2 ^ 32 - (b - (c + j)))"
  proof -
    have "of_nat (2 ^ 32 - (b - (c + j))) = (of_nat (2 ^ 32) - of_nat (b - (c + j)) :: u32)"
      using assms by (subst of_nat_diff) simp_all
    also have "\<dots> = - of_nat (b - (c + j))" by simp
    also have "\<dots> = of_nat (c - M + j) - of_nat (b - M)"
    proof -
      have "b - M = (b - (c + j)) + (c - M + j)" using False assms(1) by linarith
      then show ?thesis by (simp only: of_nat_add) simp
    qed
    finally show ?thesis by simp
  qed
  have "2 ^ 32 - (b - (c + j)) < 2 ^ 32" "len < 2 ^ 32" "len \<le> 2 ^ 32 - (b - (c + j))" using False assms by linarith+
  then show ?thesis using False of_nat_less32 [of "2 ^ 32 - (b - (c + j))" len] d by simp
qed

lemma moved_content:
  assumes b: "\<And>x. bytes h' x = (if x - (of_nat b - mem_address h) < of_nat len
                 then bytes h (of_nat a - mem_address h + (x - (of_nat b - mem_address h))) else bytes h x)"
    and m: "mem_address h' = mem_address h" "unat (mem_address h) \<le> a" "unat (mem_address h) \<le> b" "b + len < 2 ^ 32"
  shows "content h' b len = content h a len"
    "unat (mem_address h) \<le> c \<Longrightarrow> c + k < 2 ^ 32 \<Longrightarrow> c + k \<le> b \<or> b + len \<le> c \<Longrightarrow> content h' c k = content h c k"
proof -
  let ?M = "unat (mem_address h)"
  have w: "of_nat x - mem_address h = of_nat (x - ?M)" if "?M \<le> x" for x
    using that by simp
  have br: "bytes h' (of_nat (c - ?M + j)) = (if b \<le> c + j \<and> c + j < b + len then bytes h (of_nat (a - ?M + (c + j - b)))
      else bytes h (of_nat (c - ?M + j)))" if "j < k" "?M \<le> c" "c + k < 2 ^ 32" for c j k
  proof (cases "b \<le> c + j \<and> c + j < b + len")
    case True
    then have "(of_nat (c - ?M + j) - of_nat (b - ?M) :: u32) = of_nat (c + j - b)"
      by (intro offset_diff [OF that(2) m(3)]) simp
    then show ?thesis
      using b [of "of_nat (c - ?M + j)"] offset_in_range [OF that(2,3) m(3,4) that(1)] True
      unfolding w [OF m(2)] w [OF m(3)] by (simp add: of_nat_add [symmetric] del: of_nat_add of_nat_diff)
  next
    case False
    then show ?thesis
      using b [of "of_nat (c - ?M + j)"] offset_in_range [OF that(2,3) m(3,4) that(1)]
      unfolding w [OF m(3)] by (simp only: False if_False)
  qed
  show "content h' b len = content h a len"
    unfolding content_def m(1) using br [OF _ m(3,4)] by simp
  show "content h' c k = content h c k" if "?M \<le> c" "c + k < 2 ^ 32" "c + k \<le> b \<or> b + len \<le> c"
    unfolding content_def m(1) using br [OF _ that(1,2)] that(3) by fastforce
qed

lemma smem_setup_some:
  assumes b: "unat begin_addr + unat sz < 2 ^ 32" and c: "unat begin_addr \<le> 0xffffff00"
  shows "smem_setup its bs begin_addr sz \<noteq> None \<longleftrightarrow>
    (unat begin_addr + 3) div 4 * 4 + 80 \<le> unat begin_addr + unat sz - (unat begin_addr + unat sz) mod 4"
proof -
  let ?sm = "RT_ALIGN begin_addr 4" and ?e = "RT_ALIGN_DOWN (begin_addr + sz) 4"
  define A where "A = (unat begin_addr + 3) div 4 * 4"
  define E where "E = unat begin_addr + unat sz - (unat begin_addr + unat sz) mod 4"
  have sm: "unat ?sm = A" unfolding A_def by (rule unat_RT_ALIGN) (use c in simp)
  have "A \<le> unat begin_addr + 3" by (simp add: A_def)
  then have st: "unat (?sm + 56) = A + 56" using sm c by (simp add: unat_word_ariths)
  have "unat (begin_addr + sz) = unat begin_addr + unat sz" using b by (simp add: unat_word_ariths)
  then have e: "unat ?e = E" by (simp add: unat_RT_ALIGN_DOWN E_def)
  have "unat (?e - 24) = E - 24" if "24 < E" using that e by (simp add: unat_sub word_le_nat_alt)
  then have "?e > 24 \<and> ?e - 24 \<ge> ?sm + 56 \<longleftrightarrow> A + 80 \<le> E"
    using e st by (auto simp: word_less_nat_alt word_le_nat_alt)
  then show ?thesis unfolding A_def [symmetric] E_def [symmetric] by (simp add: smem_setup_def Let_def)
qed

lemma smem_object_init:
  assumes "current k = None" "lock_nest k = 0" "Obj_Memory i \<notin> set (containers k Class_Memory)"
  shows "\<exists>k1. rt_object_init (Obj_Memory i) Class_Memory name k = Some k1 \<and> is_memory i k1 \<and>
     rt_object_get_pointers Class_Memory 1 k1 = [Obj_Memory i]"
  using assms
  by (simp add: rt_object_init_def rt_object_get_information_def object_container_def rt_enter_critical_def
      rt_exit_critical_def Let_def is_memory_def rt_object_get_type_def rt_object_is_systemobject_def
      rt_object_get_pointers_def)

text \<open>
  C21.  \<open>rt_smem_init\<close> on an area: it answers \<open>RT_NULL\<close> and changes nothing exactly when the area, aligned
  at both ends, has no room for the heap object and two headers; otherwise the heap satisfies its
  invariant, consists of one free block, has handed nothing out, and lies inside the area.
\<close>

lemma rt_smem_init_correct:
  assumes "unat begin_addr + unat sz < 2 ^ 32" "unat begin_addr \<le> 0xffffff00" "begin_addr \<noteq> 0"
    and "current k = None" "lock_nest k = 0" "Obj_Memory i \<notin> set (containers k Class_Memory)"
  shows "\<exists>res k1. rt_smem_init i its bs name begin_addr sz k = Some (res, k1) \<and>
     (res = None \<longleftrightarrow> unat begin_addr + unat sz - (unat begin_addr + unat sz) mod 4 < (unat begin_addr + 3) div 4 * 4 + 80) \<and>
     (case res of None \<Rightarrow> k1 = k
      | Some h \<Rightarrow> smem_inv h \<and> heap_cells h = [(False, unat (mem_size_aligned h) + 12)] \<and> live h = {} \<and>
          is_memory i k1 \<and> unat begin_addr \<le> unat (smem_addr h) \<and>
          unat (smem_addr h) + 56 = unat (mem_address h) \<and>
          unat (mem_address h) + row_total (heap_cells h) + 12 \<le> unat begin_addr + unat sz)"
proof (cases "smem_setup its bs begin_addr sz")
  case None
  then show ?thesis using smem_setup_some [OF assms(1,2), of its bs] by (simp add: rt_smem_init_def)
next
  case (Some h)
  obtain k1 where k1: "rt_object_init (Obj_Memory i) Class_Memory name k = Some k1" "is_memory i k1"
    using smem_object_init [OF assms(4-6)] by blast
  note f = smem_setup_fields [OF Some assms(1,2)] and hc = heap_cells_ok [OF smem_setup_ok [OF Some assms(1-3)]]
  have "unat begin_addr \<le> (unat begin_addr + 3) div 4 * 4" by linarith
  then have "unat begin_addr \<le> unat (smem_addr h)" "unat (smem_addr h) + 56 = unat (mem_address h)"
    "unat (mem_address h) + row_total (heap_cells h) + 12 \<le> unat begin_addr + unat sz"
    using f(1-5) unfolding hc(1) row_total_simps snd_conv by linarith+
  then show ?thesis using k1 hc Some smem_setup_some [OF assms(1,2), of its bs] by (simp add: rt_smem_init_def not_less)
qed

lemma rt_smem_init_correct_witness:
  "\<exists>h k1. rt_smem_init 1 (\<lambda>_. \<lparr>pool_ptr = 0, item_next = 0, item_prev = 0\<rparr>) (\<lambda>_. 0) ''heap'' 0x20000001 257
       (sample_kernel\<lparr>current := None\<rparr>) = Some (Some h, k1) \<and> smem_inv h \<and> is_memory 1 k1 \<and> live h = {}"
proof -
  let ?its = "\<lambda>_. \<lparr>pool_ptr = 0, item_next = 0, item_prev = 0\<rparr>" and ?k = "sample_kernel\<lparr>current := None\<rparr>"
  have p: "unat (0x20000001 :: u32) + unat (257 :: u32) < 2 ^ 32" "unat (0x20000001 :: u32) \<le> 0xffffff00"
    "(0x20000001 :: u32) \<noteq> 0" "current ?k = None" "lock_nest ?k = 0" "Obj_Memory 1 \<notin> set (containers ?k Class_Memory)"
    by (simp_all add: sample_kernel_def)
  show ?thesis
    using rt_smem_init_correct [OF p, of ?its "\<lambda>_. 0" "''heap''"]
    by (elim exE conjE, rename_tac res k1, case_tac res) simp_all
qed

text \<open>
  C19.  Allocation is first fit: \<open>rt_smem_alloc\<close> takes the first free block that has room for the request
  rounded up, splits off the rest if that can hold a block, and changes no byte of the area; it
  answers \<open>RT_NULL\<close> with the heap unchanged exactly when no free block is large enough.
\<close>

lemma rt_smem_alloc_correct:
  assumes "smem_inv h" "is_memory i k" "sz \<noteq> 0" "unat sz \<le> 0xfffffffc"
  shows "(\<exists>xs n bs h'. heap_cells h = xs @ (False, n) # bs \<and> request sz + 12 \<le> n \<and>
      (\<forall>c\<in>set xs. fst c \<or> snd c < request sz + 12) \<and>
      rt_smem_alloc i k sz h = Some (Some (area h xs), h') \<and> smem_inv h' \<and>
      heap_cells h' = taken (request sz) xs n bs \<and> bytes h' = bytes h \<and>
      live h' = insert (unat (area h xs), taken_size (request sz) n - 12) (live h)) \<or>
    (\<forall>c\<in>set (heap_cells h). fst c \<or> snd c < request sz + 12) \<and> rt_smem_alloc i k sz h = Some (None, h)"
proof -
  have o: "smem_ok h (heap_cells h)" using assms(1) by (simp add: smem_inv_def)
  from smem_alloc_cases [OF o assms(2-4)] show ?thesis
  proof (elim disjE exE conjE)
    fix xs n bs h'
    assume c: "heap_cells h = xs @ (False, n) # bs" "request sz + 12 \<le> n"
      and f: "\<forall>c\<in>set xs. fst c \<or> snd c < request sz + 12"
      and r: "rt_smem_alloc i k sz h = Some (Some (area h xs), h')"
      and o': "smem_ok h' (taken (request sz) xs n bs)" and e: "bytes h' = bytes h" "mem_address h' = mem_address h"
    have "unat (area h xs) = unat (mem_address h) + row_total xs + 12" using area_props(1) o c(1) by simp
    then have "live h' = insert (unat (area h xs), taken_size (request sz) n - 12) (live h)"
      using heap_cells_ok(3) [OF o'] areas_taken [OF c(2)] c(1) e(2) by (simp add: live_def)
    then show ?thesis using c f r heap_cells_ok(1,2) [OF o'] e(1) by blast
  qed blast
qed

lemma rt_smem_alloc_correct_witness:
  "\<exists>a h'. rt_smem_alloc 0 sample_kernel 40 sample_heap = Some (Some a, h') \<and> live h' = {(unat a, 40)}"
proof -
  have "request 40 = 40" by (simp add: request_def)
  then show ?thesis
    using rt_smem_alloc_correct [OF sample_heap_ok(2,5), of 40] sample_heap_ok(6)
    unfolding sample_heap_ok(3) by (auto simp: Cons_eq_append_conv taken_size_def)
qed

text \<open>
  \<open>rt_smem_free\<close> of an area that was handed out takes exactly this area back, merges its block with
  free neighbours and changes no byte of the area.
\<close>

lemma rt_smem_free_correct:
  assumes "smem_inv h" "is_memory i k" "(unat a, l) \<in> live h"
  shows "\<exists>xs n bs h'. heap_cells h = xs @ (True, n) # bs \<and> a = area h xs \<and> l = n - 12 \<and>
     rt_smem_free i k (Some a) h = Some h' \<and> smem_inv h' \<and> heap_cells h' = release xs n bs \<and>
     live h' = live h - {(unat a, l)} \<and> bytes h' = bytes h"
proof -
  have o: "smem_ok h (heap_cells h)" using assms(1) by (simp add: smem_inv_def)
  obtain xs n bs where c: "heap_cells h = xs @ (True, n) # bs" "unat a = unat (mem_address h) + row_total xs + 12" "l = n - 12"
    using areas_split [OF assms(3) [unfolded live_def]] by blast
  have o1: "smem_ok h (xs @ (True, n) # bs)" using o c(1) by simp
  have a: "a = area h xs" using area_props(1) [OF o1] c(2) by (simp add: word_unat_eq_iff)
  obtain h' where "rt_smem_free i k (Some a) h = Some h'" "smem_ok h' (release xs n bs)"
    using rt_smem_free_ok [OF o1 assms(2)] a by blast
  then show ?thesis using heap_cells_ok(1) smem_free_live [OF assms] c a by auto
qed

lemma rt_smem_free_correct_witness:
  "\<exists>h'. rt_smem_free 0 sample_kernel (Some 0x20000044) sample_heap_taken = Some h' \<and> smem_inv h' \<and>
     live h' = live sample_heap_taken - {(0x20000044, 40)}"
  using rt_smem_free_correct [OF sample_heap_taken_ok(1) sample_heap_ok(5), of "0x20000044" 40] sample_heap_taken_ok(2)
  by fastforce

text \<open>
  Freeing what was just allocated gives the same row of blocks, the same first free block and the
  same use count as before.
\<close>

lemma smem_alloc_free_roundtrip:
  assumes "smem_inv h" "is_memory i k" "sz \<noteq> 0" "unat sz \<le> 0xfffffffc"
    and "\<exists>c\<in>set (heap_cells h). \<not> fst c \<and> request sz + 12 \<le> snd c"
  shows "\<exists>a h1 h2. rt_smem_alloc i k sz h = Some (Some a, h1) \<and> rt_smem_free i k (Some a) h1 = Some h2 \<and>
     smem_inv h2 \<and> heap_cells h2 = heap_cells h \<and> mem_used h2 = mem_used h \<and> lfree h2 = lfree h \<and> bytes h2 = bytes h"
proof -
  have o: "smem_ok h (heap_cells h)" using assms(1) by (simp add: smem_inv_def)
  obtain xs n bs h1 where c: "heap_cells h = xs @ (False, n) # bs" "request sz + 12 \<le> n"
    "rt_smem_alloc i k sz h = Some (Some (area h xs), h1)" "smem_ok h1 (taken (request sz) xs n bs)"
    "bytes h1 = bytes h" "mem_address h1 = mem_address h"
    using smem_alloc_cases [OF o assms(2-4)] assms(5) by fastforce
  have "plugged (xs @ (False, n) # bs)" using o c(1) by (simp add: smem_ok_def)
  then obtain m ds where t: "taken (request sz) xs n bs = xs @ (True, m) # ds" "release xs m ds = xs @ (False, n) # bs"
    using taken_release c(2) by blast
  have o1: "smem_ok h1 (xs @ (True, m) # ds)" using c(4) t(1) by simp
  have "area h1 xs = area h xs" using c(6) by (simp add: area_def)
  then obtain h2 where h2: "rt_smem_free i k (Some (area h xs)) h1 = Some h2" "smem_ok h2 (heap_cells h)" "bytes h2 = bytes h1"
    using rt_smem_free_ok [OF o1 assms(2)] t(2) c(1) by auto
  then have "mem_used h2 = mem_used h" "lfree h2 = lfree h" using o by (simp_all add: smem_ok_def row_def word_unat_eq_iff)
  then show ?thesis using c h2 heap_cells_ok(1,2) [OF h2(2)] by auto
qed

lemma smem_alloc_free_roundtrip_witness:
  "\<exists>a h1 h2. rt_smem_alloc 0 sample_kernel 40 sample_heap = Some (Some a, h1) \<and>
     rt_smem_free 0 sample_kernel (Some a) h1 = Some h2 \<and> heap_cells h2 = [(False, 188)]"
proof -
  have "request 40 = 40" by (simp add: request_def)
  then show ?thesis
    using smem_alloc_free_roundtrip [OF sample_heap_ok(2,5), of 40] unfolding sample_heap_ok(3) by auto
qed

lemma content_prefix:
  assumes "content h' b q = content h a q" "p \<le> q"
  shows "content h' b p = content h a p"
proof -
  have "content g x p = take p (content g x q)" for g x
    using assms(2) by (simp add: content_def take_map)
  then show ?thesis using assms(1) by simp
qed

lemma areas_shrunk:
  "areas a (shrunk xs n m bs) = insert (a + row_total xs + 12, m) (areas a xs \<union> areas (a + row_total xs + n) bs)"
  if "m + 36 < n"
  using that areas_join_next [of "a + row_total xs + (m + 12)" "n - (m + 12)" bs]
  by (auto simp: shrunk_def areas_append add.assoc)

text \<open>The four outcomes of a resize of the block of \<open>n\<close> bytes behind \<open>xs\<close>.\<close>

lemma realloc_keep:
  assumes ok: "smem_ok h (xs @ (True, n) # bs)" and k: "is_memory i k"
    and z: "0 < unat sz" "unat sz \<le> 0xfffffffc" "RT_ALIGN sz 4 \<le> mem_size_aligned h"
    and n: "n = (unat sz + 3) div 4 * 4 + 12"
  shows "rt_smem_realloc i k (Some (area h xs)) sz h = Some (Some (area h xs), h)"
proof -
  note sz = realloc_size [OF ok z] and ar = area_props [OF ok]
  note hd = realloc_header [OF ok sz(5)]
  show ?thesis using k z(3) sz(2) ar hd n
    unfolding rt_smem_realloc_def Let_def option.case ar(3) sz(1) hd(1) not_less [symmetric] by simp
qed

lemma realloc_too_large:
  assumes "is_memory i k" "\<not> RT_ALIGN sz 4 \<le> mem_size_aligned h"
  shows "rt_smem_realloc i k r sz h = Some (None, h)"
  using assms by (simp add: rt_smem_realloc_def Let_def not_le)

definition resized :: "nat \<Rightarrow> u32 option \<Rightarrow> nat \<times> nat \<Rightarrow> rt_small_mem \<Rightarrow> rt_small_mem \<Rightarrow> bool" where
  "resized s res x h h' \<longleftrightarrow>
     smem_inv h' \<and>
     (case res of
        None \<Rightarrow> h' = h
      | Some b \<Rightarrow>
          \<exists>l'\<ge>s. live h' = insert (unat b, l') (live h - {x}) \<and>
            content h' (unat b) (min (snd x) s) = content h (fst x) (min (snd x) s) \<and>
            (\<forall>y\<in>live h - {x}. content h' (fst y) (snd y) = content h (fst y) (snd y)))"

lemma realloc_shrink_resized:
  assumes ok: "smem_ok h (xs @ (True, n) # bs)" and k: "is_memory i k"
    and z: "0 < unat sz" "unat sz \<le> 0xfffffffc" "RT_ALIGN sz 4 \<le> mem_size_aligned h"
    and m: "(unat sz + 3) div 4 * 4 + 36 < n"
  shows "\<exists>res h'. rt_smem_realloc i k (Some (area h xs)) sz h = Some (res, h') \<and>
     resized (unat sz) res (unat (area h xs), n - 12) h h'"
proof -
  let ?m = "(unat sz + 3) div 4 * 4"
  obtain h' where h': "rt_smem_realloc i k (Some (area h xs)) sz h = Some (Some (area h xs), h')"
     "smem_ok h' (shrunk xs n ?m bs)" "bytes h' = bytes h" "mem_address h' = mem_address h"
    using realloc_shrink [OF ok k z m] by blast
  note hc = heap_cells_ok [OF h'(2)] and hc0 = heap_cells_ok [OF ok]
  have a: "unat (area h xs) = unat (mem_address h) + row_total xs + 12" by (rule area_props(1) [OF ok])
  have "\<forall>c\<in>set (xs @ (True, n) # bs). fst c \<longrightarrow> 12 < snd c" using ok by (simp add: smem_ok_def)
  then have "live h' = insert (unat (area h xs), ?m) (live h - {(unat (area h xs), n - 12)})"
    unfolding hc(3) hc0(3) h'(4) areas_shrunk [OF m] a by (subst areas_minus [symmetric]) (simp_all add: areas_release)
  moreover have "unat sz \<le> ?m" by linarith
  ultimately show ?thesis
    using h'(1) hc(2) content_cong [OF h'(3,4)] unfolding resized_def by (intro exI conjI) auto
qed

lemma realloc_move_resized:
  assumes ok: "smem_ok h (xs @ (True, n) # bs)" and k: "is_memory i k"
    and z: "0 < unat sz" "unat sz \<le> 0xfffffffc" "RT_ALIGN sz 4 \<le> mem_size_aligned h"
    and mn: "n \<noteq> (unat sz + 3) div 4 * 4 + 12" "\<not> (unat sz + 3) div 4 * 4 + 36 < n"
  shows "\<exists>res h'. rt_smem_realloc i k (Some (area h xs)) sz h = Some (res, h') \<and>
     resized (unat sz) res (unat (area h xs), n - 12) h h'"
proof -
  let ?m = "(unat sz + 3) div 4 * 4" and ?a = "area h xs"
  define len where "len = min (n - 12) ?m"
  note hc = heap_cells_ok [OF ok] and ar = area_props [OF ok] and rs = realloc_size [OF ok z]
  obtain r h' where h': "rt_smem_realloc i k (Some ?a) sz h = Some (r, h')"
    "case r of None \<Rightarrow> h' = h
      | Some a \<Rightarrow> smem_inv h' \<and> mem_address h' = mem_address h \<and>
         (\<exists>l\<ge>?m. live h' = insert (unat a, l) (live h - {(unat ?a, n - 12)}) \<and> (unat a, l) \<notin> live h \<and>
           (\<forall>x. bytes h' x = (if x - (a - mem_address h) < min (of_nat (n - 12)) (of_nat ?m)
                  then bytes h (?a - mem_address h + (x - (a - mem_address h))) else bytes h x)))"
    using realloc_move [OF ok k z mn] by blast
  have old: "(unat ?a, n - 12) \<in> live h" using hc(3) ar(1) by (simp add: areas_append)
  show ?thesis
  proof (cases r)
    case None
    then show ?thesis using h' hc(2) by (simp add: resized_def)
  next
    case (Some a)
    then obtain l where l: "?m \<le> l" "live h' = insert (unat a, l) (live h - {(unat ?a, n - 12)})" "(unat a, l) \<notin> live h"
      and b: "\<And>x. bytes h' x = (if x - (a - mem_address h) < min (of_nat (n - 12)) (of_nat ?m)
                  then bytes h (?a - mem_address h + (x - (a - mem_address h))) else bytes h x)"
      and i': "smem_inv h'" "mem_address h' = mem_address h" using h'(2) by auto
    have n: "n - 12 < 2 ^ 32" using live_range [OF hc(2) old] by linarith
    have "min (of_nat (n - 12)) (of_nat ?m) = (of_nat len :: u32)"
      using rs(5) n of_nat_le32 [of "n - 12" ?m] by (auto simp: min_def len_def simp del: of_nat_mult of_nat_diff)
    then have b': "bytes h' x = (if x - (of_nat (unat a) - mem_address h) < of_nat len
        then bytes h (of_nat (unat ?a) - mem_address h + (x - (of_nat (unat a) - mem_address h))) else bytes h x)" for x
      using b [of x] by simp
    have ra: "unat (mem_address h) + 12 \<le> unat a \<and> unat a + l + 12 < 2 ^ 32" using live_range [OF i'(1), of "unat a" l] l(2) i'(2) by simp
    have le: "len \<le> l" "len \<le> n - 12" using l(1) by (simp_all add: len_def)
    have mv: "unat (mem_address h) \<le> unat ?a" "unat (mem_address h) \<le> unat a" "unat a + len < 2 ^ 32"
      using ra ar(1) le by linarith+
    note mc = moved_content [OF b' i'(2) mv]
    have "min (n - 12) (unat sz) \<le> len" using rs(6) by (simp add: len_def min_def)
    then have c1: "content h' (unat a) (min (n - 12) (unat sz)) = content h (unat ?a) (min (n - 12) (unat sz))"
      using content_prefix [OF mc(1)] by blast
    have c2: "content h' (fst y) (snd y) = content h (fst y) (snd y)" if y: "y \<in> live h - {(unat ?a, n - 12)}" for y
    proof -
      have yr: "unat (mem_address h) + 12 \<le> fst y \<and> fst y + snd y + 12 < 2 ^ 32"
        using live_range [OF hc(2), of "fst y" "snd y"] y by simp
      have "apart y (unat a, l)" using live_disjoint [OF i'(1), of y "(unat a, l)"] y l(2,3) by auto
      then have "fst y + snd y \<le> unat a \<or> unat a + len \<le> fst y" using le by (auto simp: apart_def)
      moreover have "unat (mem_address h) \<le> fst y" "fst y + snd y < 2 ^ 32" using yr by linarith+
      ultimately show ?thesis using mc(2) by blast
    qed
    have "unat sz \<le> l" using l(1) rs(6) by linarith
    then show ?thesis using h'(1) Some i'(1) l(2) c1 c2 unfolding resized_def by auto
  qed
qed

text \<open>
  C20.  \<open>rt_smem_realloc\<close> of an area that was handed out: either it answers \<open>RT_NULL\<close> and the heap is
  unchanged, or the old area is replaced by one of at least the new length, which keeps the common
  part of the contents; the contents of all other areas are untouched.
\<close>

lemma rt_smem_realloc_correct:
  assumes "smem_inv h" "is_memory i k" "(unat a, l) \<in> live h" "0 < unat sz" "unat sz \<le> 0xfffffffc"
  shows "\<exists>res h'. rt_smem_realloc i k (Some a) sz h = Some (res, h') \<and> smem_inv h' \<and>
     (case res of
        None \<Rightarrow> h' = h
      | Some b \<Rightarrow>
          \<exists>l'\<ge>unat sz. live h' = insert (unat b, l') (live h - {(unat a, l)}) \<and>
            content h' (unat b) (min l (unat sz)) = content h (unat a) (min l (unat sz)) \<and>
            (\<forall>y\<in>live h - {(unat a, l)}. content h' (fst y) (snd y) = content h (fst y) (snd y)))"
proof -
  have o: "smem_ok h (heap_cells h)" using assms(1) by (simp add: smem_inv_def)
  obtain xs n bs where c: "heap_cells h = xs @ (True, n) # bs" "unat a = unat (mem_address h) + row_total xs + 12" "l = n - 12"
    using areas_split [OF assms(3) [unfolded live_def]] by blast
  have o1: "smem_ok h (xs @ (True, n) # bs)" using o c(1) by simp
  have a: "a = area h xs" using area_props(1) [OF o1] c(2) by (simp add: word_unat_eq_iff)
  have w: "12 < n" using o1 by (simp add: smem_ok_def)
  have "\<exists>res h'. rt_smem_realloc i k (Some a) sz h = Some (res, h') \<and> resized (unat sz) res (unat a, l) h h'"
  proof (cases "RT_ALIGN sz 4 \<le> mem_size_aligned h")
    case False
    then show ?thesis using realloc_too_large [OF assms(2)] assms(1) by (simp add: resized_def)
  next
    case True
    note z = assms(4,5) True
    show ?thesis
    proof (cases "n = (unat sz + 3) div 4 * 4 + 12")
      case keep: True
      have "unat sz \<le> l" using keep c(3) by simp
      then show ?thesis using realloc_keep [OF o1 assms(2) z keep] a assms(1,3)
        unfolding resized_def by (intro exI conjI) (auto simp: insert_absorb)
    next
      case False
      then show ?thesis using realloc_shrink_resized [OF o1 assms(2) z] realloc_move_resized [OF o1 assms(2) z False]
        unfolding a c(3) by blast
    qed
  qed
  then show ?thesis unfolding resized_def fst_conv snd_conv .
qed

lemma rt_smem_realloc_correct_witness:
  "\<exists>res h'. rt_smem_realloc 0 sample_kernel (Some 0x20000044) 80 sample_heap_taken = Some (res, h') \<and> smem_inv h'"
  using rt_smem_realloc_correct [OF sample_heap_taken_ok(1) sample_heap_ok(5), of "0x20000044" 40 80] sample_heap_taken_ok(2)
  by auto

text \<open>
  C18.  A program that allocates and frees in any order, with requests of at most \<open>0xfffffffc\<close> bytes (a larger
  one wraps in \<open>RT_ALIGN\<close>, lemma \<open>rt_smem_alloc_wraps\<close>), and that frees only areas it owns: every call returns,
  the heap keeps its invariant, and the areas the program owns never overlap.
\<close>

lemma heap_no_overlap:
  assumes "smem_inv h" "is_memory i k" "\<forall>r. Alloc r \<in> set ops \<longrightarrow> unat r \<le> 0xfffffffc"
  shows "\<exists>k' h' own. mrun (smem_alloc_at i) (smem_free_at i) unat ops ((k, h), []) = Some ((k', h'), own) \<and>
     smem_inv h' \<and>
     (\<forall>x\<in>set own. \<exists>l\<ge>snd x. (fst x, l) \<in> live h') \<and>
     (\<forall>p<length own. \<forall>q<length own. p \<noteq> q \<longrightarrow> apart (own ! p) (own ! q))"
proof -
  have "owns (live h) []" by (simp add: owns_def)
  then obtain s' own where r: "mrun (smem_alloc_at i) (smem_free_at i) unat ops ((k, h), []) = Some (s', own)"
    "smem_inv (snd s')" "is_memory i (fst s')" "owns (live (snd s')) own"
    using smem.mrun_ok [of "(k, h)" i "[]" ops] assms by auto
  have "apart (own ! p) (own ! q)" if "p < length own" "q < length own" "p \<noteq> q" for p q
    using smem.owned_apart [of s' i own p q] r that by simp
  then show ?thesis using r by (cases s') (auto simp: owns_def)
qed

lemma heap_no_overlap_witness:
  "\<exists>s own. mrun (smem_alloc_at 0) (smem_free_at 0) unat [Alloc 40, Alloc 20, Free 1, Alloc 200, Alloc (13 :: u32)]
       ((sample_kernel, sample_heap), []) = Some (s, own) \<and> smem_inv (snd s)"
  using heap_no_overlap [OF sample_heap_ok(2,5), of "[Alloc 40, Alloc 20, Free 1, Alloc 200, Alloc 13]"] by fastforce

lemma plugged_all_free: "plugged cs \<Longrightarrow> \<forall>c\<in>set cs. \<not> fst c \<Longrightarrow> cs \<noteq> [] \<Longrightarrow> cs = [(False, row_total cs)]"
  by (cases cs rule: plugged.cases) auto

lemma areas_empty: "areas a cs = {} \<longleftrightarrow> (\<forall>c\<in>set cs. \<not> fst c)"
  by (induction cs arbitrary: a) auto

text \<open>
  When nothing is handed out, the heap is one free block over the whole area: no sequence of calls
  leaves it fragmented.
\<close>

lemma heap_whole_when_empty:
  assumes "smem_inv h" "live h = {}"
  shows "heap_cells h = [(False, unat (mem_size_aligned h) + 12)] \<and> mem_used h = 0 \<and> lfree h = 0"
proof -
  have o: "smem_ok h (heap_cells h)" using assms(1) by (simp add: smem_inv_def)
  then have c: "heap_cells h = [(False, row_total (heap_cells h))]"
    using plugged_all_free assms(2) by (simp add: smem_ok_def live_def areas_empty)
  have "row_total (heap_cells h) = unat (mem_size_aligned h) + 12" using o by (simp add: smem_ok_def row_def)
  then have c': "heap_cells h = [(False, unat (mem_size_aligned h) + 12)]" using c by simp
  have "unat (mem_used h) = 0" "lfree h = 0" using o unfolding smem_ok_def row_def c' by simp_all
  then show ?thesis using c' by (simp add: unat_eq_0)
qed

lemma heap_whole_when_empty_witness:
  "heap_cells sample_heap = [(False, unat (mem_size_aligned sample_heap) + 12)] \<and> mem_used sample_heap = 0"
  using heap_whole_when_empty [OF sample_heap_ok(2,6)] by simp

lemma RT_ALIGN_wraps:
  assumes "0xfffffffc < unat (sz :: u32)"
  shows "RT_ALIGN sz 4 = 0"
proof -
  have "unat sz < 2 ^ 32" using unsigned_less [of sz] by simp
  then have "unat (sz + 3) < 4" using assms by (simp add: unat_word_ariths mod_if) linarith
  then have "unat (RT_ALIGN_DOWN (sz + 3) 4) = 0" by (simp add: unat_RT_ALIGN_DOWN)
  then show ?thesis by (simp add: RT_ALIGN_def RT_ALIGN_DOWN_def unat_eq_0 add.commute)
qed

text \<open>
  A request of more than \<open>0xfffffffc\<close> bytes is rounded up past the 32-bit range, so it is not
  refused: it gets an area of less than 36 bytes.
\<close>

lemma rt_smem_alloc_wraps:
  assumes "smem_inv h" "is_memory i k" "0xfffffffc < unat sz"
    and "\<exists>c\<in>set (heap_cells h). \<not> fst c \<and> 24 \<le> snd c"
  shows "\<exists>a l h'. rt_smem_alloc i k sz h = Some (Some a, h') \<and> live h' = insert (unat a, l) (live h) \<and> l < 36"
proof -
  have o: "smem_ok h (heap_cells h)" using assms(1) by (simp add: smem_inv_def)
  have "RT_ALIGN (12 :: u32) 4 = 12" by (simp add: RT_ALIGN_def)
  moreover have "sz \<noteq> 0" using assms(3) by auto
  ultimately have e: "rt_smem_alloc i k sz h = rt_smem_alloc i k 12 h"
    using RT_ALIGN_wraps [OF assms(3)] by (simp add: rt_smem_alloc_def)
  have rq: "request 12 = 12" by (simp add: request_def)
  obtain xs n bs h' where c: "heap_cells h = xs @ (False, n) # bs" "24 \<le> n"
    "rt_smem_alloc i k 12 h = Some (Some (area h xs), h')" "smem_ok h' (taken 12 xs n bs)" "mem_address h' = mem_address h"
    using smem_alloc_cases [OF o assms(2), of 12] assms(4) unfolding rq by fastforce
  have "unat (area h xs) = unat (mem_address h) + row_total xs + 12" using area_props(1) o c(1) by simp
  then have "live h' = insert (unat (area h xs), taken_size 12 n - 12) (live h)"
    using heap_cells_ok(3) [OF c(4)] areas_taken [of 12 n] c(1,2,5) by (simp add: live_def)
  moreover have "taken_size 12 n - 12 < 36" by (cases "48 \<le> n") (simp_all add: taken_size_def)
  ultimately show ?thesis using e c(3) by auto
qed

lemma rt_smem_alloc_wraps_witness:
  "\<exists>a l h'. rt_smem_alloc 0 sample_kernel 0xffffffff sample_heap = Some (Some a, h') \<and>
     live h' = {(unat a, l)} \<and> l < 36"
  using rt_smem_alloc_wraps [OF sample_heap_ok(2,5), of "0xffffffff"] sample_heap_ok(6)
  unfolding sample_heap_ok(3) by simp

end
