(* ===== verification/Kprintf.thy ===== *)
theory Kprintf
  imports Rtt_Prelude
begin

text \<open>
  The formatted output of \<^verbatim>\<open>kservice.c\<close> (\<^verbatim>\<open>rt_vsnprintf\<close> and what it calls), in the
  configuration of the file: precision on, no \<^verbatim>\<open>long long\<close>, no alternative form.  Strings
  are HOL strings; the variables of type \<^verbatim>\<open>int\<close> that hold widths and precisions are integers,
  since an overflow of theirs is undefined in C.  The last section states the contract of
  \<open>rt_vsnprintf\<close> towards its buffer, what a number looks like, that decimal numbers read back,
  and three deviations from the formats of C.
\<close>

section \<open>The output buffer\<close>

text \<open>
  The memory by address, and the pointers \<open>str\<close> and \<open>end\<close> of the source (here \<open>lim\<close>), 32-bit
  addresses.  Every character goes through the statement
  \<^verbatim>\<open>if (str < end) *str = c; ++str;\<close>, whose comparison is one of unsigned addresses and whose
  increment wraps.
\<close>

record outbuf =
  mem :: "u32 \<Rightarrow> char"
  str :: u32
  lim :: u32

definition out_char :: "char \<Rightarrow> outbuf \<Rightarrow> outbuf" where
  "out_char c b =
     (let b1 = (if str b < lim b then b\<lparr>mem := (mem b)(str b := c)\<rparr> else b) in b1\<lparr>str := str b1 + 1\<rparr>)"

section \<open>Digits\<close>

abbreviation (input) ZEROPAD :: u8 where "ZEROPAD \<equiv> 1"
abbreviation (input) SIGN :: u8 where "SIGN \<equiv> 2"
abbreviation (input) PLUS :: u8 where "PLUS \<equiv> 4"
abbreviation (input) SPACE :: u8 where "SPACE \<equiv> 8"
abbreviation (input) LEFT :: u8 where "LEFT \<equiv> 16"
abbreviation (input) SPECIAL :: u8 where "SPECIAL \<equiv> 32"
abbreviation (input) LARGE :: u8 where "LARGE \<equiv> 64"

abbreviation NUL :: char where "NUL \<equiv> CHR 0x00"

definition ISDIGIT :: "char \<Rightarrow> bool" where
  "ISDIGIT c \<longleftrightarrow> (of_nat (of_char c) :: u32) - of_nat (of_char (CHR ''0'')) < 10"

text \<open>The character a format pointer is at; strings of the model end before their null byte.\<close>

definition peek :: "string \<Rightarrow> char" where
  "peek s = (case s of [] \<Rightarrow> NUL | c # _ \<Rightarrow> c)"

definition divide :: "u32 \<Rightarrow> u8 \<Rightarrow> nat \<times> u32" where
  "divide n base = (if base = 10 then (unat (n mod 10), n div 10) else (unat (n mod 16), n div 16))"

fun skip_digits :: "int \<Rightarrow> string \<Rightarrow> int \<times> string" where
  "skip_digits i [] = (i, [])"
| "skip_digits i (c # s) =
     (if ISDIGIT c then skip_digits (i * 10 + of_char c - of_char (CHR ''0'')) s else (i, c # s))"

definition skip_atoi :: "string \<Rightarrow> int \<times> string" where
  "skip_atoi s = skip_digits 0 s"

lemma divide_less: "num \<noteq> 0 \<Longrightarrow> unat (snd (divide num base)) < unat num"
  by (simp add: divide_def unat_div unat_gt_0)

text \<open>\<^verbatim>\<open>while (num != 0) tmp[i++] = digits[divide(&num, base)]\<close>; the array \<open>tmp\<close> has 16 cells.\<close>

function digit_loop :: "string \<Rightarrow> u8 \<Rightarrow> u32 \<Rightarrow> string \<Rightarrow> string" where
  "digit_loop digits base num tmp =
     (if num = 0 then tmp
      else digit_loop digits base (snd (divide num base)) (tmp @ [digits ! fst (divide num base)]))"
  by pat_completeness auto
termination
  by (relation "measure (\<lambda>(digits, base, num, tmp). unat num)") (simp_all add: divide_less)

declare digit_loop.simps [simp del]

text \<open>The loops that pad; \<open>size\<close> is decremented by the test that ends them, too.\<close>

function pad_loop :: "char \<Rightarrow> int \<Rightarrow> outbuf \<Rightarrow> int \<times> outbuf" where
  "pad_loop c sz b = (if sz > 0 then pad_loop c (sz - 1) (out_char c b) else (sz - 1, b))"
  by pat_completeness auto
termination by (relation "measure (\<lambda>(c, sz, b). nat sz)") simp_all

declare pad_loop.simps [simp del]

function prec_loop :: "int \<Rightarrow> int \<Rightarrow> outbuf \<Rightarrow> outbuf" where
  "prec_loop i precision b =
     (if i < precision then prec_loop i (precision - 1) (out_char (CHR ''0'') b) else b)"
  by pat_completeness auto
termination by (relation "measure (\<lambda>(i, precision, b). nat (precision - i))") simp_all

declare prec_loop.simps [simp del]

fun digits_out :: "nat \<Rightarrow> string \<Rightarrow> outbuf \<Rightarrow> outbuf" where
  "digits_out 0 tmp b = b"
| "digits_out (Suc i) tmp b = digits_out i tmp (out_char (tmp ! i) b)"

definition print_number :: "outbuf \<Rightarrow> s32 \<Rightarrow> u8 \<Rightarrow> int \<Rightarrow> int \<Rightarrow> u8 \<Rightarrow> outbuf" where
  "print_number b num base s precision type0 =
     (let precision_bak = precision;
          sz = s;
          digits = (if type0 AND LARGE \<noteq> 0 then ''0123456789ABCDEF'' else ''0123456789abcdef'');
          type = (if type0 AND LEFT \<noteq> 0 then type0 AND NOT ZEROPAD else type0);
          c = (if type AND ZEROPAD \<noteq> 0 then CHR ''0'' else CHR '' '');
          (sign, num) =
            (if type AND SIGN \<noteq> 0 then
               (if sint num < 0 then (CHR ''-'', - num)
                else if type AND PLUS \<noteq> 0 then (CHR ''+'', num)
                else if type AND SPACE \<noteq> 0 then (CHR '' '', num)
                else (NUL, num))
             else (NUL, num));
          tmp = (if num = 0 then ''0'' else digit_loop digits base num []);
          i = int (length tmp);
          precision = (if i > precision then i else precision);
          sz = sz - precision;
          (sz, b) = (if type AND (ZEROPAD OR LEFT) = 0
                     then pad_loop (CHR '' '') (if sign \<noteq> NUL \<and> sz > 0 then sz - 1 else sz) b
                     else (sz, b));
          (sz, b) = (if sign \<noteq> NUL then (sz - 1, out_char sign b) else (sz, b));
          (sz, b) = (if type AND LEFT = 0 then pad_loop c sz b else (sz, b));
          b = prec_loop i precision b;
          b = (if precision_bak \<noteq> 0 then digits_out (length tmp) tmp b else b);
          (sz, b) = pad_loop (CHR '' '') sz b
      in b)"

section \<open>Formats\<close>

text \<open>The arguments behind the format: 32-bit integers, and strings or null pointers.\<close>

datatype va_arg = Arg_int u32 | Arg_str "string option"

fun arg_int :: "va_arg list \<Rightarrow> (u32 \<times> va_arg list) option" where
  "arg_int (Arg_int x # args) = Some (x, args)"
| "arg_int _ = None"

fun arg_str :: "va_arg list \<Rightarrow> (string option \<times> va_arg list) option" where
  "arg_str (Arg_str s # args) = Some (s, args)"
| "arg_str _ = None"

fun vs_flags :: "u8 \<Rightarrow> string \<Rightarrow> u8 \<times> string" where
  "vs_flags flags [] = (flags, [])"
| "vs_flags flags (c # fmt) =
     (if c = CHR ''-'' then vs_flags (flags OR LEFT) fmt
      else if c = CHR ''+'' then vs_flags (flags OR PLUS) fmt
      else if c = CHR '' '' then vs_flags (flags OR SPACE) fmt
      else if c = CHR ''#'' then vs_flags (flags OR SPECIAL) fmt
      else if c = CHR ''0'' then vs_flags (flags OR ZEROPAD) fmt
      else (flags, c # fmt))"

definition vs_width :: "u8 \<Rightarrow> string \<Rightarrow> va_arg list \<Rightarrow> (int \<times> u8 \<times> string \<times> va_arg list) option" where
  "vs_width flags fmt args =
     (if ISDIGIT (peek fmt) then
        (let (field_width, fmt1) = skip_atoi fmt in Some (field_width, flags, fmt1, args))
      else if peek fmt = CHR ''*'' then
        do {
          (x, args1) \<leftarrow> arg_int args;
          (if sint x < 0 then Some (- sint x, flags OR LEFT, tl fmt, args1)
           else Some (sint x, flags, tl fmt, args1))
        }
      else Some (- 1, flags, fmt, args))"

definition vs_precision :: "string \<Rightarrow> va_arg list \<Rightarrow> (int \<times> string \<times> va_arg list) option" where
  "vs_precision fmt args =
     (if peek fmt = CHR ''.'' then
        do {
          let fmt1 = tl fmt;
          (precision, fmt2, args1) \<leftarrow>
            (if ISDIGIT (peek fmt1) then (let (p, f) = skip_atoi fmt1 in Some (p, f, args))
             else if peek fmt1 = CHR ''*'' then
               do { (x, args1) \<leftarrow> arg_int args; Some (sint x, tl fmt1, args1) }
             else Some (- 1, fmt1, args));
          Some (if precision < 0 then 0 else precision, fmt2, args1)
        }
      else Some (- 1, fmt, args))"

definition vs_qualifier :: "string \<Rightarrow> char \<times> string" where
  "vs_qualifier fmt =
     (if peek fmt = CHR ''h'' \<or> peek fmt = CHR ''l'' then (peek fmt, tl fmt) else (NUL, fmt))"

function char_pad :: "int \<Rightarrow> outbuf \<Rightarrow> int \<times> outbuf" where
  "char_pad field_width b =
     (if field_width - 1 > 0 then char_pad (field_width - 1) (out_char (CHR '' '') b) else (field_width - 1, b))"
  by pat_completeness auto
termination by (relation "measure (\<lambda>(w, b). nat w)") simp_all

declare char_pad.simps [simp del]

function str_pad :: "int \<Rightarrow> int \<Rightarrow> outbuf \<Rightarrow> int \<times> outbuf" where
  "str_pad len field_width b =
     (if len < field_width then str_pad len (field_width - 1) (out_char (CHR '' '') b) else (field_width - 1, b))"
  by pat_completeness auto
termination by (relation "measure (\<lambda>(len, w, b). nat (w - len))") simp_all

declare str_pad.simps [simp del]

text \<open>\<^verbatim>\<open>for (len = 0; (len != field_width) && (s[len] != 0); len++)\<close> from \<open>len\<close> on, \<open>s\<close> the rest.\<close>

fun str_len :: "int \<Rightarrow> int \<Rightarrow> string \<Rightarrow> int" where
  "str_len field_width len [] = len"
| "str_len field_width len (c # s) = (if len \<noteq> field_width then str_len field_width (len + 1) s else len)"

fun str_out :: "nat \<Rightarrow> string \<Rightarrow> outbuf \<Rightarrow> outbuf" where
  "str_out 0 s b = b"
| "str_out (Suc n) s b = str_out n (tl s) (out_char (peek s) b)"

definition conv_c :: "u8 \<Rightarrow> int \<Rightarrow> va_arg list \<Rightarrow> outbuf \<Rightarrow> (va_arg list \<times> outbuf) option" where
  "conv_c flags field_width args b =
     do {
       let (field_width, b) = (if flags AND LEFT = 0 then char_pad field_width b else (field_width, b));
       (x, args) \<leftarrow> arg_int args;
       let b = out_char (char_of (unat (ucast x :: u8))) b;
       let (field_width, b) = char_pad field_width b;
       Some (args, b)
     }"

definition conv_s :: "u8 \<Rightarrow> int \<Rightarrow> int \<Rightarrow> va_arg list \<Rightarrow> outbuf \<Rightarrow> (va_arg list \<times> outbuf) option" where
  "conv_s flags field_width precision args b =
     do {
       (p, args) \<leftarrow> arg_str args;
       let s = (case p of None \<Rightarrow> ''(NULL)'' | Some s \<Rightarrow> s);
       let len = str_len field_width 0 s;
       let len = (if precision > 0 \<and> len > precision then precision else len);
       let (field_width, b) = (if flags AND LEFT = 0 then str_pad len field_width b else (field_width, b));
       let b = str_out (nat len) s b;
       let (field_width, b) = str_pad len field_width b;
       Some (args, b)
     }"

definition conv_p :: "u8 \<Rightarrow> int \<Rightarrow> int \<Rightarrow> va_arg list \<Rightarrow> outbuf \<Rightarrow> (va_arg list \<times> outbuf) option" where
  "conv_p flags field_width precision args b =
     do {
       (x, args) \<leftarrow> arg_int args;
       let (field_width, flags) = (if field_width = - 1 then (8, flags OR ZEROPAD) else (field_width, flags));
       Some (args, print_number b x 16 field_width precision flags)
     }"

definition conv_num ::
    "u8 \<Rightarrow> u8 \<Rightarrow> int \<Rightarrow> int \<Rightarrow> char \<Rightarrow> va_arg list \<Rightarrow> outbuf \<Rightarrow> (va_arg list \<times> outbuf) option" where
  "conv_num base flags field_width precision qualifier args b =
     do {
       (x, args) \<leftarrow> arg_int args;
       let num = (if qualifier = CHR ''l'' then x
                  else if qualifier = CHR ''h'' then
                    (let h = (ucast x :: u16) in if flags AND SIGN \<noteq> 0 then scast h else ucast h)
                  else x);
       Some (args, print_number b num base field_width precision flags)
     }"

definition vs_conversion ::
    "u8 \<Rightarrow> int \<Rightarrow> int \<Rightarrow> char \<Rightarrow> string \<Rightarrow> va_arg list \<Rightarrow> outbuf \<Rightarrow> (string \<times> va_arg list \<times> outbuf) option" where
  "vs_conversion flags field_width precision qualifier fmt args b =
     (let c = peek fmt;
          conv = map_option (\<lambda>(args, b). (tl fmt, args, b));
          number = (\<lambda>base flags. conv (conv_num base flags field_width precision qualifier args b))
      in if c = CHR ''c'' then conv (conv_c flags field_width args b)
         else if c = CHR ''s'' then conv (conv_s flags field_width precision args b)
         else if c = CHR ''p'' then conv (conv_p flags field_width precision args b)
         else if c = CHR ''%'' then Some (tl fmt, args, out_char (CHR ''%'') b)
         else if c = CHR ''o'' then number 8 flags
         else if c = CHR ''X'' then number 16 (flags OR LARGE)
         else if c = CHR ''x'' then number 16 flags
         else if c = CHR ''d'' \<or> c = CHR ''i'' then number 10 (flags OR SIGN)
         else if c = CHR ''u'' then number 10 flags
         else
           (let b = out_char (CHR ''%'') b
            in if c \<noteq> NUL then Some (tl fmt, args, out_char c b) else Some (fmt, args, b)))"

text \<open>Everything from behind the percent sign to the next character of the format.\<close>

definition vs_directive :: "string \<Rightarrow> va_arg list \<Rightarrow> outbuf \<Rightarrow> (string \<times> va_arg list \<times> outbuf) option" where
  "vs_directive fmt args b =
     do {
       let (flags, fmt) = vs_flags 0 fmt;
       (field_width, flags, fmt, args) \<leftarrow> vs_width flags fmt args;
       (precision, fmt, args) \<leftarrow> vs_precision fmt args;
       let (qualifier, fmt) = vs_qualifier fmt;
       vs_conversion flags field_width precision qualifier fmt args b
     }"

lemma vs_flags_length: "length (snd (vs_flags flags fmt)) \<le> length fmt"
  by (induction flags fmt rule: vs_flags.induct) auto

lemma skip_digits_length: "length (snd (skip_digits i s)) \<le> length s"
  by (induction i s rule: skip_digits.induct) auto

lemma vs_width_length: "vs_width flags fmt args = Some (w, f, fmt', args') \<Longrightarrow> length fmt' \<le> length fmt"
  using skip_digits_length [of 0 fmt]
  by (auto simp: vs_width_def skip_atoi_def bind_eq_Some_conv split: if_splits prod.splits)

lemma vs_precision_length: "vs_precision fmt args = Some (p, fmt', args') \<Longrightarrow> length fmt' \<le> length fmt"
  using skip_digits_length [of 0 "tl fmt"]
  by (auto simp: vs_precision_def skip_atoi_def Let_def bind_eq_Some_conv split: if_splits prod.splits)

lemma vs_conversion_length:
  "vs_conversion flags w p q fmt args b = Some (fmt', args', b') \<Longrightarrow> length fmt' \<le> length fmt"
  by (auto simp: vs_conversion_def Let_def split: if_splits)

lemma vs_directive_length:
  assumes "vs_directive fmt args b = Some (fmt', args', b')"
  shows "length fmt' \<le> length fmt"
proof -
  obtain flags fmt1 where f: "vs_flags 0 fmt = (flags, fmt1)" by (cases "vs_flags 0 fmt")
  obtain w flags2 fmt2 args2 where w: "vs_width flags fmt1 args = Some (w, flags2, fmt2, args2)"
    using assms f by (auto simp: vs_directive_def bind_eq_Some_conv)
  obtain p fmt3 args3 where p: "vs_precision fmt2 args2 = Some (p, fmt3, args3)"
    using assms f w by (auto simp: vs_directive_def bind_eq_Some_conv)
  obtain q fmt4 where q: "vs_qualifier fmt3 = (q, fmt4)" by (cases "vs_qualifier fmt3")
  have "vs_conversion flags2 w p q fmt4 args3 b = Some (fmt', args', b')"
    using assms f w p q by (simp add: vs_directive_def)
  moreover have "length fmt4 \<le> length fmt3" using q by (auto simp: vs_qualifier_def split: if_splits)
  moreover have "length fmt1 \<le> length fmt" using vs_flags_length [of 0 fmt] f by simp
  ultimately show ?thesis
    using vs_width_length [OF w] vs_precision_length [OF p] vs_conversion_length by fastforce
qed

function vs_loop :: "string \<Rightarrow> va_arg list \<Rightarrow> outbuf \<Rightarrow> outbuf option" where
  "vs_loop [] args b = Some b"
| "vs_loop (c # fmt) args b =
     (if c \<noteq> CHR ''%'' then vs_loop fmt args (out_char c b)
      else case vs_directive fmt args b of
             None \<Rightarrow> None
           | Some (fmt', args', b') \<Rightarrow> vs_loop fmt' args' b')"
  by pat_completeness auto

termination
  by (relation "measure (\<lambda>(fmt, args, b). length fmt)") (auto dest: vs_directive_length)

definition rt_vsnprintf ::
    "u32 \<Rightarrow> u32 \<Rightarrow> string \<Rightarrow> va_arg list \<Rightarrow> (u32 \<Rightarrow> char) \<Rightarrow> (int \<times> (u32 \<Rightarrow> char)) option" where
  "rt_vsnprintf buf sz fmt args m =
     do {
       let (limit, room) = (if buf + sz < buf then (- 1, - 1 - buf) else (buf + sz, sz));
       b \<leftarrow> vs_loop fmt args \<lparr>mem = m, str = buf, lim = limit\<rparr>;
       let m' = (if room > 0 then
                   (if str b < lim b then (mem b)(str b := NUL) else (mem b)(lim b - 1 := NUL))
                 else mem b);
       Some (sint (str b - buf), m')
     }"

definition rt_snprintf ::
    "u32 \<Rightarrow> u32 \<Rightarrow> string \<Rightarrow> va_arg list \<Rightarrow> (u32 \<Rightarrow> char) \<Rightarrow> (int \<times> (u32 \<Rightarrow> char)) option" where
  "rt_snprintf buf sz fmt args m = rt_vsnprintf buf sz fmt args m"

definition rt_vsprintf ::
    "u32 \<Rightarrow> string \<Rightarrow> va_arg list \<Rightarrow> (u32 \<Rightarrow> char) \<Rightarrow> (int \<times> (u32 \<Rightarrow> char)) option" where
  "rt_vsprintf buf fmt args m = rt_vsnprintf buf (- 1) fmt args m"

definition rt_sprintf ::
    "u32 \<Rightarrow> string \<Rightarrow> va_arg list \<Rightarrow> (u32 \<Rightarrow> char) \<Rightarrow> (int \<times> (u32 \<Rightarrow> char)) option" where
  "rt_sprintf buf fmt args m = rt_vsprintf buf fmt args m"

section \<open>What is printed\<close>

definition emit :: "string \<Rightarrow> outbuf \<Rightarrow> outbuf" where
  "emit xs b = fold out_char xs b"

lemma emit_Nil [simp]: "emit [] b = b"
  by (simp add: emit_def)

lemma out_char_emit: "out_char c b = emit [c] b"
  by (simp add: emit_def)

lemma emit_emit [simp]: "emit ys (emit xs b) = emit (xs @ ys) b"
  by (simp add: emit_def)

lemma out_char_fields [simp]: "str (out_char c b) = str b + 1" "lim (out_char c b) = lim b"
  by (simp_all add: out_char_def Let_def)

lemma emit_fields [simp]: "str (emit xs b) = str b + of_nat (length xs)" "lim (emit xs b) = lim b"
  by (induction xs arbitrary: b) (simp_all add: emit_def)

text \<open>
  A character of a text of \<open>n\<close> that goes to the place with the distance \<open>off\<close> from the start: the
  cursor passes a place once in \<open>2 ^ 32\<close> characters, and the last one stays.
\<close>

definition last_at :: "nat \<Rightarrow> nat \<Rightarrow> nat" where
  "last_at n off = off + 2 ^ 32 * ((n - 1 - off) div 2 ^ 32)"

lemma last_at_small [simp]: "n \<le> 4294967296 \<Longrightarrow> off < n \<Longrightarrow> last_at n off = off"
  by (simp add: last_at_def)

lemma last_at_end: "off = n mod 2 ^ 32 \<Longrightarrow> last_at (Suc n) off = n"
proof -
  assume o: "off = n mod 2 ^ 32"
  have "2 ^ 32 * ((n - off) div 2 ^ 32) = n - off" unfolding o by (simp add: minus_mod_eq_mult_div)
  moreover have "off \<le> n" unfolding o by (rule mod_less_eq_dividend)
  ultimately show ?thesis by (simp add: last_at_def)
qed

lemma last_at_Suc:
  assumes "off \<noteq> n mod 2 ^ 32" "off < 2 ^ 32" "off < n"
  shows "last_at (Suc n) off = last_at n off"
proof -
  obtain k where k: "n = off + Suc k" using assms(3) less_iff_Suc_add by auto
  have "Suc k mod 2 ^ 32 \<noteq> 0"
  proof
    assume "Suc k mod 2 ^ 32 = 0"
    then have "n mod 2 ^ 32 = off mod 2 ^ 32" unfolding k by (metis add.right_neutral mod_add_right_eq)
    then show False using assms(1,2) by simp
  qed
  then have "Suc k div 2 ^ 32 = k div 2 ^ 32" by (simp only: div_Suc if_False)
  then show ?thesis by (simp add: last_at_def k)
qed

lemma last_at_less: "off < n \<Longrightarrow> last_at n off < n"
proof -
  assume "off < n"
  moreover have "2 ^ 32 * ((n - 1 - off) div 2 ^ 32) \<le> n - 1 - off" by simp
  ultimately show ?thesis unfolding last_at_def by linarith
qed

lemma emit_mem:
  "mem (emit xs b) i = (if unat (i - str b) < length xs \<and> i < lim b
     then xs ! last_at (length xs) (unat (i - str b)) else mem b i)"
proof (induction xs rule: rev_induct)
  case (snoc x xs)
  let ?o = "unat (i - str b)" and ?n = "length xs"
  have o: "?o < 2 ^ 32" using unsigned_less [of "i - str b"] by simp
  have e: "i = str b + of_nat ?n \<longleftrightarrow> ?o = ?n mod 2 ^ 32"
  proof
    assume "?o = ?n mod 2 ^ 32"
    then have "i - str b = of_nat ?n"
      by (simp add: word_unat_eq_iff unat_of_nat take_bit_eq_mod)
    then show "i = str b + of_nat ?n" by (simp add: algebra_simps)
  qed (simp add: unat_of_nat take_bit_eq_mod)
  have step: "emit (xs @ [x]) b = out_char x (emit xs b)" by (simp add: emit_def)
  show ?case
  proof (cases "i = str b + of_nat ?n")
    case True
    then have o: "?o = ?n mod 2 ^ 32" using e by blast
    then have "?o < Suc ?n" by (simp add: less_Suc_eq_le)
    then show ?thesis using True snoc.IH last_at_end [OF o] unfolding step
      by (auto simp: out_char_def Let_def)
  next
    case False
    then have n: "?o \<noteq> ?n mod 2 ^ 32" using e by blast
    then have "?o < Suc ?n \<longleftrightarrow> ?o < ?n" using o by (metis less_Suc_eq mod_less)
    moreover have "?o < ?n \<Longrightarrow> last_at (Suc ?n) ?o = last_at ?n ?o" using last_at_Suc [OF n o] .
    ultimately show ?thesis using False snoc.IH last_at_less [of ?o ?n] unfolding step
      by (auto simp: out_char_def Let_def nth_append)
  qed
qed simp

lemma pad_loop_emit: "pad_loop c sz b = (if sz > 0 then - 1 else sz - 1, emit (replicate (nat sz) c) b)"
proof (induction c sz b rule: pad_loop.induct)
  case (1 c sz b)
  show ?case
  proof (cases "sz > 0")
    case True
    then have "nat sz = Suc (nat (sz - 1))" by simp
    then show ?thesis using True 1 by (subst pad_loop.simps) (simp add: out_char_emit)
  qed (subst pad_loop.simps, simp)
qed

lemma prec_loop_emit: "prec_loop i p b = emit (replicate (nat (p - i)) (CHR ''0'')) b"
proof (induction i p b rule: prec_loop.induct)
  case (1 i p b)
  show ?case
  proof (cases "i < p")
    case True
    then have "nat (p - i) = Suc (nat (p - 1 - i))" by simp
    then show ?thesis using True 1 by (subst prec_loop.simps) (simp add: out_char_emit)
  qed (subst prec_loop.simps, simp)
qed

lemma char_pad_emit: "char_pad w b = (if w > 1 then 0 else w - 1, emit (replicate (nat (w - 1)) (CHR '' '')) b)"
proof (induction w b rule: char_pad.induct)
  case (1 w b)
  show ?case
  proof (cases "w - 1 > 0")
    case True
    then have "nat (w - 1) = Suc (nat (w - 1 - 1))" by simp
    then show ?thesis using True 1 by (subst char_pad.simps) (auto simp: out_char_emit)
  qed (subst char_pad.simps, simp)
qed

lemma str_pad_emit:
  "str_pad len w b = (if len < w then len - 1 else w - 1, emit (replicate (nat (w - len)) (CHR '' '')) b)"
proof (induction len w b rule: str_pad.induct)
  case (1 len w b)
  show ?case
  proof (cases "len < w")
    case True
    then have "nat (w - len) = Suc (nat (w - 1 - len))" by simp
    then show ?thesis using True 1 by (subst str_pad.simps) (auto simp: out_char_emit)
  qed (subst str_pad.simps, simp)
qed

lemma digits_out_emit: "n \<le> length tmp \<Longrightarrow> digits_out n tmp b = emit (rev (take n tmp)) b"
  by (induction n tmp b rule: digits_out.induct) (simp_all add: out_char_emit take_Suc_conv_app_nth)

lemma str_out_emit: "n \<le> length s \<Longrightarrow> str_out n s b = emit (take n s) b"
proof (induction n s b rule: str_out.induct)
  case (2 n s b)
  then show ?case by (cases s) (simp_all add: out_char_emit peek_def)
qed simp

lemma str_len_eq: "str_len w l s = (if l \<le> w \<and> w \<le> l + int (length s) then w else l + int (length s))"
  by (induction w l s rule: str_len.induct) auto

text \<open>The digits of a number, the last one first.\<close>

fun to_base :: "nat \<Rightarrow> nat \<Rightarrow> nat list" where
  "to_base r n = (if r < 2 \<or> n = 0 then [] else n mod r # to_base r (n div r))"

declare to_base.simps [simp del]

definition radix :: "u8 \<Rightarrow> nat" where
  "radix base = (if base = 10 then 10 else 16)"

lemma divide_eq: "fst (divide n base) = unat n mod radix base" "unat (snd (divide n base)) = unat n div radix base"
  by (simp_all add: divide_def radix_def unat_mod unat_div)

lemma digit_loop_eq: "digit_loop ds base num tmp = tmp @ map ((!) ds) (to_base (radix base) (unat num))"
proof (induction ds base num tmp rule: digit_loop.induct)
  case (1 ds base num tmp)
  have r: "\<not> radix base < 2" by (simp add: radix_def)
  show ?case
  proof (cases "num = 0")
    case True
    then show ?thesis by (subst digit_loop.simps) (simp add: to_base.simps)
  next
    case False
    then show ?thesis using 1 r
      by (subst digit_loop.simps, subst to_base.simps) (simp add: divide_eq unat_eq_zero)
  qed
qed

definition digit_chars :: "u8 \<Rightarrow> string" where
  "digit_chars type = (if type AND LARGE \<noteq> 0 then ''0123456789ABCDEF'' else ''0123456789abcdef'')"

definition magnitude_text :: "u8 \<Rightarrow> u8 \<Rightarrow> u32 \<Rightarrow> string" where
  "magnitude_text type base x =
     (if x = 0 then ''0'' else rev (map ((!) (digit_chars type)) (to_base (radix base) (unat x))))"

definition sign_text :: "u8 \<Rightarrow> s32 \<Rightarrow> string" where
  "sign_text type num =
     (if type AND SIGN \<noteq> 0 then
        (if sint num < 0 then ''-'' else if type AND PLUS \<noteq> 0 then ''+''
         else if type AND SPACE \<noteq> 0 then '' '' else [])
      else [])"

definition number_text :: "s32 \<Rightarrow> u8 \<Rightarrow> int \<Rightarrow> int \<Rightarrow> u8 \<Rightarrow> string" where
  "number_text num base s precision type =
     (let sg = sign_text type num;
          ds = magnitude_text type base (if type AND SIGN \<noteq> 0 \<and> sint num < 0 then - num else num);
          body = replicate (nat (precision - int (length ds))) (CHR ''0'') @ (if precision = 0 then [] else ds);
          w = nat (s - max (int (length ds)) precision - int (length sg))
      in if type AND LEFT \<noteq> 0 then sg @ body @ replicate w (CHR '' '')
         else if type AND ZEROPAD \<noteq> 0 then sg @ replicate w (CHR ''0'') @ body
         else replicate w (CHR '' '') @ sg @ body)"

lemma vs_flag_bits [simp]:
  fixes x :: u8
  shows "(x AND - 2) AND 2 = x AND 2" "(x AND - 2) AND 4 = x AND 4" "(x AND - 2) AND 8 = x AND 8"
    "(x AND - 2) AND 16 = x AND 16" "(x AND - 2) AND 64 = x AND 64" "(x AND - 2) AND 1 = 0"
    "(x AND - 2) AND 17 = x AND 16"
  by (simp_all add: and.assoc)

lemma pad_flags:
  fixes x :: u8
  shows "x AND 17 = 0 \<longleftrightarrow> x AND 1 = 0 \<and> x AND 16 = 0"
proof -
  have "x AND 17 = (x AND 1) OR (x AND 16)" using bit.conj_disj_distrib [of x 1 16] by simp
  then show ?thesis by (metis or.left_neutral or_eq_0_iff)
qed

lemma print_number_emit:
  "print_number b num base s precision type = emit (number_text num base s precision type) b"
proof -
  define type' where "type' = (if type AND LEFT \<noteq> 0 then type AND NOT ZEROPAD else type)"
  have bits: "type' AND SIGN = type AND SIGN" "type' AND PLUS = type AND PLUS" "type' AND SPACE = type AND SPACE"
     "type' AND LEFT = type AND LEFT"
    by (simp_all add: type'_def)
  have z: "type' AND ZEROPAD \<noteq> 0 \<longleftrightarrow> type AND LEFT = 0 \<and> type AND ZEROPAD \<noteq> 0"
    "type' AND (ZEROPAD OR LEFT) = 0 \<longleftrightarrow> type AND LEFT = 0 \<and> type AND ZEROPAD = 0"
    by (auto simp: type'_def pad_flags)
  define sg where "sg = sign_text type num"
  define x where "x = (if type AND SIGN \<noteq> 0 \<and> sint num < 0 then - num else num)"
  define ds where "ds = magnitude_text type base x"
  define tmp where "tmp = (if x = 0 then ''0'' else digit_loop (digit_chars type) base x [])"
  define sign where "sign = (case sg of [] \<Rightarrow> NUL | c # _ \<Rightarrow> c)"
  have sn: "(if type' AND SIGN \<noteq> 0 then
               (if sint num < 0 then (CHR ''-'', - num)
                else if type' AND PLUS \<noteq> 0 then (CHR ''+'', num)
                else if type' AND SPACE \<noteq> 0 then (CHR '' '', num)
                else (NUL, num))
             else (NUL, num)) = (sign, x)"
    unfolding bits by (simp add: sign_def sg_def sign_text_def x_def)
  have sg: "sg = (if sign = NUL then [] else [sign])" by (auto simp: sign_def sg_def sign_text_def)
  have tmp: "rev tmp = ds" "length tmp = length ds"
    by (simp_all add: tmp_def ds_def magnitude_text_def digit_loop_eq)
  have nat0: "nat (- 1) = 0" "nat (z - 1) = 0 \<longleftrightarrow> z \<le> 1" for z :: int by simp_all
  let ?P = "if int (length ds) > precision then int (length ds) else precision"
  have P: "?P = max (int (length ds)) precision" by auto
  have zeros: "nat (max (int (length ds)) precision - int (length ds)) = nat (precision - int (length ds))" by (simp add: max_def)
  have dg: "(if precision \<noteq> 0 then digits_out (length ds) tmp b else b) = emit (if precision = 0 then [] else ds) b" for b
    using digits_out_emit [of "length ds" tmp b] tmp by simp
  have pn: "print_number b num base s precision type =
     (let sz = s - ?P;
          (sz, b) = (if type AND LEFT = 0 \<and> type AND ZEROPAD = 0
                     then pad_loop (CHR '' '') (if sign \<noteq> NUL \<and> sz > 0 then sz - 1 else sz) b
                     else (sz, b));
          (sz, b) = (if sign \<noteq> NUL then (sz - 1, out_char sign b) else (sz, b));
          (sz, b) = (if type AND LEFT = 0
                     then pad_loop (if type' AND ZEROPAD \<noteq> 0 then CHR ''0'' else CHR '' '') sz b else (sz, b));
          b = prec_loop (int (length ds)) ?P b;
          b = emit (if precision = 0 then [] else ds) b;
          (sz, b) = pad_loop (CHR '' '') sz b
      in b)"
    unfolding print_number_def type'_def [symmetric] Let_def sn prod.case tmp_def [symmetric]
      digit_chars_def [symmetric] tmp(2) dg z(2) bits(4) ..
  show ?thesis
  proof (cases "type AND LEFT = 0")
    case False
    then show ?thesis unfolding pn number_text_def Let_def sg_def [symmetric] x_def [symmetric] ds_def [symmetric]
      by (simp add: pad_loop_emit prec_loop_emit zeros P out_char_emit sg)
  next
    case l: True
    show ?thesis
    proof (cases "type AND ZEROPAD = 0")
      case True
      have w: "nat (s - max (int (length ds)) precision) = 0" "nat (s - max (int (length ds)) precision - 1) = 0"
        if "\<not> 0 < s - max (int (length ds)) precision" using that by (auto simp: max_def)
      show ?thesis using True l
        unfolding pn number_text_def Let_def sg_def [symmetric] x_def [symmetric] ds_def [symmetric] P
        by (cases "0 < s - max (int (length ds)) precision")
          (simp_all add: pad_loop_emit prec_loop_emit zeros out_char_emit sg nat0 w del: max_less_iff_conj)
    next
      case False
      then show ?thesis using l z(1) unfolding pn number_text_def Let_def sg_def [symmetric] x_def [symmetric] ds_def [symmetric]
        by (simp add: pad_loop_emit prec_loop_emit zeros P out_char_emit sg nat0)
    qed
  qed
qed

text \<open>A conversion fails for every buffer or prints a text that does not depend on the buffer.\<close>

definition prints :: "(outbuf \<Rightarrow> ('a \<times> outbuf) option) \<Rightarrow> bool" where
  "prints f \<longleftrightarrow> (\<forall>b. f b = None) \<or> (\<exists>x out. \<forall>b. f b = Some (x, emit out b))"

lemma prints_None [simp]: "prints (\<lambda>b. None)"
  by (simp add: prints_def)

lemma prints_emit [simp]: "prints (\<lambda>b. Some (x, emit out b))"
  by (auto simp: prints_def)

lemma prints_conv_c: "prints (conv_c flags w args)"
proof (cases "arg_int args")
  case (Some p)
  then show ?thesis
    by (cases p; cases "flags AND LEFT = 0") (simp_all add: conv_c_def [abs_def] char_pad_emit out_char_emit)
qed (simp add: conv_c_def [abs_def] prints_def split: prod.split)

lemma prints_conv_s: "prints (conv_s flags w precision args)"
proof (cases "arg_str args")
  case (Some p)
  obtain s args' where p: "p = (s, args')" by (cases p)
  define xs where "xs = (case s of None \<Rightarrow> ''(NULL)'' | Some s \<Rightarrow> s)"
  define len where "len = (if precision > 0 \<and> str_len w 0 xs > precision then precision else str_len w 0 xs)"
  have n: "nat len \<le> length xs" by (auto simp: len_def str_len_eq)
  have c: "conv_s flags w precision args = (\<lambda>b.
      (case (if flags AND LEFT = 0 then str_pad len w b else (w, b)) of (field_width, b) \<Rightarrow>
         Some (args', snd (str_pad len field_width (str_out (nat len) xs b)))))"
    unfolding conv_s_def [abs_def] Some p bind.bind_lunit prod.case Let_def xs_def [symmetric] len_def [symmetric]
    by (simp add: case_prod_unfold)
  show ?thesis unfolding c using n
    by (cases "flags AND LEFT = 0") (simp_all add: str_pad_emit str_out_emit)
qed (simp add: conv_s_def [abs_def])

lemma prints_conv_p: "prints (conv_p flags w precision args)"
  by (cases "arg_int args") (auto simp: conv_p_def [abs_def] print_number_emit)

lemma prints_conv_num: "prints (conv_num base flags w precision q args)"
  by (cases "arg_int args") (auto simp: conv_num_def [abs_def] print_number_emit Let_def)

definition prints_on :: "(outbuf \<Rightarrow> (string \<times> va_arg list \<times> outbuf) option) \<Rightarrow> bool" where
  "prints_on f \<longleftrightarrow> (\<forall>b. f b = None) \<or> (\<exists>fmt args out. \<forall>b. f b = Some (fmt, args, emit out b))"

lemma prints_on_None [simp]: "prints_on (\<lambda>b. None)"
  by (simp add: prints_on_def)

lemma prints_on_emit [simp]: "prints_on (\<lambda>b. Some (fmt, args, emit out b))"
  by (auto simp: prints_on_def)

lemma prints_on_same [simp]: "prints_on (\<lambda>b. Some (fmt, args, b))"
  using prints_on_emit [of fmt args "[]"] by simp

lemma prints_on_map: "prints f \<Longrightarrow> prints_on (\<lambda>b. map_option (\<lambda>(args, b). (fmt, args, b)) (f b))"
  unfolding prints_def prints_on_def by fastforce

lemma prints_on_if:
  "prints_on f \<Longrightarrow> prints_on g \<Longrightarrow> prints_on (\<lambda>b. if P then f b else g b)"
  by (cases P) simp_all

lemma prints_conversion: "prints_on (vs_conversion flags w precision q fmt args)"
proof -
  note m = prints_on_map [OF prints_conv_num] prints_on_map [OF prints_conv_c]
    prints_on_map [OF prints_conv_s] prints_on_map [OF prints_conv_p]
  show ?thesis unfolding vs_conversion_def [abs_def] Let_def out_char_emit emit_emit
    by (intro prints_on_if m prints_on_emit)
qed

lemma prints_directive: "prints_on (vs_directive fmt args)"
proof -
  obtain flags fmt1 where f: "vs_flags 0 fmt = (flags, fmt1)" by (cases "vs_flags 0 fmt")
  show ?thesis
  proof (cases "vs_width flags fmt1 args")
    case None
    then show ?thesis using f by (simp add: vs_directive_def [abs_def])
  next
    case (Some r)
    obtain w flags2 fmt2 args2 where r: "r = (w, flags2, fmt2, args2)" by (cases r)
    show ?thesis
    proof (cases "vs_precision fmt2 args2")
      case None
      then show ?thesis using f Some r by (simp add: vs_directive_def [abs_def])
    next
      case (Some p)
      obtain pr fmt3 args3 where p: "p = (pr, fmt3, args3)" by (cases p)
      obtain q fmt4 where q: "vs_qualifier fmt3 = (q, fmt4)" by (cases "vs_qualifier fmt3")
      show ?thesis using f Some \<open>vs_width flags fmt1 args = Some r\<close> r p q prints_conversion
        by (simp add: vs_directive_def [abs_def])
    qed
  qed
qed

lemma prints_loop:
  "(\<forall>b. vs_loop fmt args b = None) \<or> (\<exists>out. \<forall>b. vs_loop fmt args b = Some (emit out b))"
proof (induction fmt arbitrary: args rule: length_induct)
  case (1 fmt)
  show ?case
  proof (cases fmt)
    case Nil
    then have "\<forall>b. vs_loop fmt args b = Some (emit [] b)" by simp
    then show ?thesis by blast
  next
    case (Cons c cs)
    show ?thesis
    proof (cases "c = CHR ''%''")
      case False
      then have v: "vs_loop fmt args b = vs_loop cs args (emit [c] b)" for b using Cons by (simp add: out_char_emit)
      have "(\<forall>b. vs_loop cs args b = None) \<or> (\<exists>out. \<forall>b. vs_loop cs args b = Some (emit out b))" using 1 Cons by simp
      then show ?thesis unfolding v by (metis emit_emit)
    next
      case True
      from prints_directive [of cs args] consider (none) "\<forall>b. vs_directive cs args b = None"
        | (some) fmt' args' out where "\<forall>b. vs_directive cs args b = Some (fmt', args', emit out b)"
        unfolding prints_on_def by blast
      then show ?thesis
      proof cases
        case none
        then show ?thesis using Cons True by simp
      next
        case some
        then have "length fmt' \<le> length cs" using vs_directive_length by blast
        then have "(\<forall>b. vs_loop fmt' args' b = None) \<or> (\<exists>out. \<forall>b. vs_loop fmt' args' b = Some (emit out b))"
          using 1 Cons by simp
        moreover have "vs_loop fmt args b = vs_loop fmt' args' (emit out b)" for b using some Cons True by simp
        ultimately show ?thesis by (metis emit_emit)
      qed
    qed
  qed
qed

section \<open>Reading numbers back\<close>

lemma to_base_length: "n < r ^ k \<Longrightarrow> length (to_base r n) \<le> k"
proof (induction k arbitrary: n)
  case 0
  then show ?case by (simp add: to_base.simps)
next
  case (Suc k)
  then have "n div r < r ^ k" by (simp add: less_mult_imp_div_less mult.commute)
  then show ?case using Suc.IH [of "n div r"] by (subst to_base.simps) simp
qed

lemma to_base_less: "d \<in> set (to_base r n) \<Longrightarrow> d < r"
  by (induction r n rule: to_base.induct) (subst (asm) (2) to_base.simps, auto split: if_splits)

lemma digit_char_10:
  assumes "d < 10"
  shows "of_char (digit_chars type ! d) = (48 + int d)" "ISDIGIT (digit_chars type ! d)"
proof -
  have "d = 0 \<or> d = 1 \<or> d = 2 \<or> d = 3 \<or> d = 4 \<or> d = 5 \<or> d = 6 \<or> d = 7 \<or> d = 8 \<or> d = 9"
    using assms by presburger
  then show "of_char (digit_chars type ! d) = (48 + int d)" "ISDIGIT (digit_chars type ! d)"
    by (auto simp: digit_chars_def ISDIGIT_def)
qed

lemma skip_digits_to_base:
  "skip_digits i (rev (map ((!) (digit_chars type)) (to_base 10 n)) @ rest) =
     skip_digits (i * 10 ^ length (to_base 10 n) + int n) rest"
proof (induction n arbitrary: i rest rule: less_induct)
  case (less n)
  show ?case
  proof (cases "n = 0")
    case True
    then show ?thesis by (simp add: to_base.simps)
  next
    case False
    let ?d = "n mod 10"
    have tb: "to_base 10 n = ?d # to_base 10 (n div 10)" using False by (subst to_base.simps) simp
    have c: "of_char (digit_chars type ! ?d) = 48 + int ?d" "ISDIGIT (digit_chars type ! ?d)"
      using digit_char_10 [of ?d type] by simp_all
    have "int n = int (n div 10) * 10 + int ?d" by presburger
    then show ?thesis using less [of "n div 10" i "digit_chars type ! ?d # rest"] False c
      unfolding tb by (simp add: algebra_simps)
  qed
qed

lemma magnitude_read: "skip_atoi (magnitude_text type 10 x) = (int (unat x), [])"
proof (cases "x = 0")
  case True
  then show ?thesis by (simp add: skip_atoi_def magnitude_text_def ISDIGIT_def)
next
  case False
  then show ?thesis using skip_digits_to_base [of 0 type "unat x" "[]"]
    by (simp add: skip_atoi_def magnitude_text_def radix_def)
qed

lemma magnitude_length: "length (magnitude_text type base x) \<le> 10" "magnitude_text type base x \<noteq> []"
proof -
  have "unat x < 4294967296" using unsigned_less [of x] by simp
  then have "unat x < radix base ^ 10" by (auto simp: radix_def)
  then show "length (magnitude_text type base x) \<le> 10"
    using to_base_length [of "unat x" "radix base" 10] by (simp add: magnitude_text_def)
  have "to_base (radix base) (unat x) \<noteq> []" if "x \<noteq> 0"
    using that by (subst to_base.simps) (simp add: radix_def unat_eq_zero)
  then show "magnitude_text type base x \<noteq> []" by (simp add: magnitude_text_def)
qed

definition read_int :: "string \<Rightarrow> int \<times> string" where
  "read_int s = (if peek s = CHR ''-'' then (let (i, r) = skip_atoi (tl s) in (- i, r)) else skip_atoi s)"

lemma number_text_plain:
  "number_text num base (-1) (-1) type = sign_text type num @
     magnitude_text type base (if type AND SIGN \<noteq> 0 \<and> sint num < 0 then - num else num)"
  by (simp add: number_text_def Let_def)

lemma sint_cases:
  fixes x :: s32
  shows "sint x = uint x \<or> sint x = uint x - 4294967296"
proof -
  have u: "0 \<le> uint x" "uint x < 4294967296" using uint_lt2p [of x] by simp_all
  have "sint x = (uint x + 2147483648) mod 4294967296 - 2147483648"
    by (simp add: sint_uint signed_take_bit_eq_take_bit_shift take_bit_eq_mod)
  moreover have "(uint x + 2147483648) mod 4294967296 =
      (if uint x < 2147483648 then uint x + 2147483648 else uint x + 2147483648 - 4294967296)"
  proof (cases "uint x < 2147483648")
    case True
    then show ?thesis using u by (simp add: mod_pos_pos_trivial)
  next
    case False
    have "(uint x + 2147483648 - 4294967296) mod 4294967296 = uint x + 2147483648 - 4294967296"
      using False u by (intro mod_pos_pos_trivial) simp_all
    then show ?thesis using False by (simp only: minus_mod_self2 if_False)
  qed
  ultimately show ?thesis by simp
qed

lemma unat_minus_sint:
  fixes x :: s32
  assumes "sint x < 0"
  shows "int (unat (- x)) = - sint x"
proof -
  have "sint x = uint x - 4294967296" using assms sint_cases [of x] by auto
  moreover have "uint (- x) = (- uint x) mod 4294967296" by (simp add: uint_word_ariths)
  moreover have "0 \<le> uint x" "uint x < 4294967296" using uint_lt2p [of x] by simp_all
  moreover have "uint x \<noteq> 0" using assms by (auto simp: uint_0_iff)
  ultimately show ?thesis using assms by (simp add: zmod_zminus1_eq_if)
qed

lemma sint_unat:
  fixes x :: s32
  assumes "\<not> sint x < 0"
  shows "int (unat x) = sint x"
proof -
  have "uint x < 4294967296" using uint_lt2p [of x] by simp
  then show ?thesis using assms sint_cases [of x] by auto
qed

section \<open>Properties\<close>

text \<open>The memory after a text went to a buffer that ends at \<open>limit\<close>, its null byte included.\<close>

definition stored :: "u32 \<Rightarrow> u32 \<Rightarrow> string \<Rightarrow> (u32 \<Rightarrow> char) \<Rightarrow> u32 \<Rightarrow> char" where
  "stored buf limit out m i =
     (let e = buf + of_nat (length out)
      in if buf \<noteq> limit \<and> i = (if e < limit then e else limit - 1) then NUL
         else if unat (i - buf) < length out \<and> i < limit then out ! last_at (length out) (unat (i - buf))
         else m i)"

lemma rt_vsnprintf_emit:
  assumes o: "\<And>b. vs_loop fmt args b = Some (emit out b)"
  shows "rt_vsnprintf buf sz fmt args m =
    Some (sint (of_nat (length out) :: s32), stored buf (if buf + sz < buf then - 1 else buf + sz) out m)"
proof -
  define limit where "limit = (if buf + sz < buf then - 1 else buf + sz)"
  define room where "room = (if buf + sz < buf then - 1 - buf else sz)"
  have lr: "(if buf + sz < buf then (- 1, - 1 - buf) else (buf + sz, sz)) = (limit, room)"
    by (simp add: limit_def room_def)
  have r: "0 < room \<longleftrightarrow> buf \<noteq> limit" by (auto simp: limit_def room_def word_gt_0)
  let ?b = "emit out \<lparr>mem = m, str = buf, lim = limit\<rparr>"
  have "rt_vsnprintf buf sz fmt args m = Some (sint (of_nat (length out) :: s32),
      (if buf \<noteq> limit then (if buf + of_nat (length out) < limit then (mem ?b)(buf + of_nat (length out) := NUL)
         else (mem ?b)(limit - 1 := NUL)) else mem ?b))"
    using o by (simp add: rt_vsnprintf_def lr r Let_def)
  also have "(if buf \<noteq> limit then (if buf + of_nat (length out) < limit then (mem ?b)(buf + of_nat (length out) := NUL)
         else (mem ?b)(limit - 1 := NUL)) else mem ?b) = stored buf limit out m"
    by (rule ext) (simp add: stored_def emit_mem Let_def)
  finally show ?thesis by (simp add: limit_def)
qed

lemma stored_fits:
  assumes "unat buf + length out < 2 ^ 32" "buf \<le> limit"
  shows "stored buf limit out m i =
    (let room = unat (limit - buf); k = min (length out) (room - 1)
     in if room = 0 then m i else if unat (i - buf) < k then out ! unat (i - buf)
        else if unat (i - buf) = k then NUL else m i)"
proof -
  let ?n = "length out" and ?o = "unat (i - buf)" and ?r = "unat (limit - buf)"
  have n: "?n < 2 ^ 32" "unat buf + ?n < 4294967296" using assms(1) by simp_all
  have un: "unat (of_nat ?n :: u32) = ?n" using n(1) by (simp add: unat_of_nat take_bit_nat_eq_self)
  have e: "unat (buf + of_nat ?n) = unat buf + ?n" using n un by (simp add: unat_add_lem [THEN iffD1])
  have r: "?r = unat limit - unat buf" using assms(2) by (simp add: unat_sub)
  have le: "unat buf \<le> unat limit" using assms(2) by (simp add: word_le_nat_alt)
  have at: "i = buf + of_nat x \<longleftrightarrow> ?o = x" if "x < 2 ^ 32" for x
  proof
    assume "?o = x"
    then have "i - buf = of_nat x" using that by (simp add: word_unat_eq_iff unat_of_nat take_bit_nat_eq_self)
    then show "i = buf + of_nat x" by (simp add: algebra_simps)
  qed (use that in \<open>simp add: unat_of_nat take_bit_nat_eq_self\<close>)
  have z: "?r = 0 \<longleftrightarrow> buf = limit" by (metis eq_iff_diff_eq_0 unat_eq_zero)
  have last: "limit - 1 = buf + of_nat (?r - 1)" if "?r \<noteq> 0"
  proof -
    have "of_nat (?r - 1) = limit - buf - 1" using that by (simp add: of_nat_diff)
    then show ?thesis by simp
  qed
  have less: "buf + of_nat ?n < limit \<longleftrightarrow> ?n < ?r" using e r le by (simp add: word_less_nat_alt) linarith
  have below: "i < limit" if "?o < ?n" "?o < ?r"
  proof -
    have "i = buf + of_nat ?o" by simp
    moreover have "unat (buf + of_nat ?o :: u32) = unat buf + ?o"
      using that n by (subst unat_add_lem [THEN iffD1]) simp_all
    ultimately show ?thesis using that r le by (simp add: word_less_nat_alt)
  qed
  have above: "\<not> i < limit" if "?o < ?n" "\<not> ?o < ?r"
  proof -
    have "i = buf + of_nat ?o" by simp
    moreover have "unat (buf + of_nat ?o :: u32) = unat buf + ?o"
      using that n by (subst unat_add_lem [THEN iffD1]) simp_all
    ultimately show ?thesis using that r le by (simp add: word_less_nat_alt)
  qed
  have lastat: "last_at ?n ?o = ?o" if "?o < ?n" using that n by simp
  have "?r < 2 ^ 32" using unsigned_less [of "limit - buf"] by simp
  then have rr: "?r - 1 < 2 ^ 32" by simp
  show ?thesis
  proof (cases "?r = 0")
    case True
    have "buf = limit" using True z by blast
    moreover have "\<not> (?o < ?n \<and> i < limit)" using above unfolding True by blast
    ultimately have "stored buf limit out m i = m i" unfolding stored_def Let_def by (simp only: if_False simp_thms)
    then show ?thesis unfolding Let_def True by simp
  next
    case False
    have nul: "i = (if buf + of_nat ?n < limit then buf + of_nat ?n else limit - 1) \<longleftrightarrow> ?o = min ?n (?r - 1)"
    proof (cases "?n < ?r")
      case True
      then have "min ?n (?r - 1) = ?n" by simp
      then show ?thesis using at [OF n(1)] True by (simp only: less if_True)
    next
      case r: False
      then have "min ?n (?r - 1) = ?r - 1" by simp
      then show ?thesis using at [OF rr] last [OF False] r by (simp only: less if_False)
    qed
    have b: "buf \<noteq> limit" using False unfolding z .
    show ?thesis
    proof (cases "?o = min ?n (?r - 1)")
      case True
      then have "stored buf limit out m i = NUL" unfolding stored_def Let_def nul using b by simp
      moreover have "\<not> ?o < min ?n (?r - 1)" using True by simp
      ultimately show ?thesis using True False by (simp only: Let_def if_False if_True simp_thms)
    next
      case o: False
      then have "?o < ?n \<and> i < limit \<longleftrightarrow> ?o < min ?n (?r - 1)" using below above by (cases "?o < ?r") auto
      moreover have "last_at ?n ?o = ?o" if "?o < min ?n (?r - 1)" using lastat that by simp
      ultimately have "stored buf limit out m i = (if ?o < min ?n (?r - 1) then out ! ?o else m i)"
        unfolding stored_def Let_def nul using o by (simp only: simp_thms if_False cong: if_cong)
      then show ?thesis using o False by (simp only: Let_def if_False)
    qed
  qed
qed

lemma rt_vsnprintf_text:
  assumes "rt_vsnprintf buf0 sz0 fmt args m0 = Some (n, m1)"
  shows "\<exists>out. n = sint (of_nat (length out) :: s32) \<and> (\<forall>buf sz m. rt_vsnprintf buf sz fmt args m =
    Some (n, stored buf (if buf + sz < buf then - 1 else buf + sz) out m))"
proof -
  obtain out where o: "\<And>b. vs_loop fmt args b = Some (emit out b)"
    using prints_loop [of fmt args] assms by (auto simp: rt_vsnprintf_def Let_def split: prod.splits)
  show ?thesis using rt_vsnprintf_emit [OF o] assms by (intro exI [of _ out]) simp
qed

lemma conversion_d:
  "vs_loop ''%d'' [Arg_int x] b = Some (emit (number_text x 10 (-1) (-1) 2) b)"
  "vs_loop ''%u'' [Arg_int x] b = Some (emit (number_text x 10 (-1) (-1) 0) b)"
  by (simp_all add: vs_directive_def vs_width_def vs_precision_def vs_qualifier_def vs_conversion_def conv_num_def
      peek_def ISDIGIT_def print_number_emit Let_def)

text \<open>
  C23.  The contract of \<open>rt_vsnprintf\<close>.  What it prints does not depend on the buffer: when one
  call returns \<open>n\<close>, there is a text such that every call with the same format and arguments
  returns \<open>n\<close>, the length of the text as a 32-bit signed number, whether the text was cut off or
  not.  The memory afterwards is \<open>stored\<close> for every buffer: the last character that came past a
  place below \<open>end\<close>, the null byte, and the rest unchanged.  As long as the text ends before the
  end of the address space, this is as much of the text as fits in front of the null byte, every
  other byte of the memory is left alone, and a call with room 0 stores nothing.
\<close>

theorem rt_vsnprintf_contract:
  assumes "rt_vsnprintf buf0 sz0 fmt args m0 = Some (n, m1)"
  shows "\<exists>out. n = sint (of_nat (length out) :: s32) \<and>
    (\<forall>buf sz m. \<exists>m'. rt_vsnprintf buf sz fmt args m = Some (n, m') \<and>
      (let limit = (if buf + sz < buf then - 1 else buf + sz);
           room = unat (limit - buf);
           k = min (length out) (room - 1)
       in (\<forall>i. m' i = stored buf limit out m i) \<and>
          (unat buf + length out < 2 ^ 32 \<longrightarrow>
            (\<forall>i. m' i = (if room = 0 then m i else if unat (i - buf) < k then out ! unat (i - buf)
                         else if unat (i - buf) = k then NUL else m i)))))"
proof -
  obtain out where o: "n = sint (of_nat (length out) :: s32)" "\<And>buf sz m. rt_vsnprintf buf sz fmt args m =
    Some (n, stored buf (if buf + sz < buf then - 1 else buf + sz) out m)"
    using rt_vsnprintf_text [OF assms] by blast
  show ?thesis
  proof (intro exI [of _ out] conjI allI o(1))
    fix buf sz :: u32 and m :: "u32 \<Rightarrow> char"
    define limit where "limit = (if buf + sz < buf then - 1 else buf + sz)"
    have "buf \<le> limit"
    proof (cases "buf + sz < buf")
      case False
      then show ?thesis by (metis limit_def not_less)
    qed (simp add: limit_def)
    then show "\<exists>m'. rt_vsnprintf buf sz fmt args m = Some (n, m') \<and>
      (let limit = (if buf + sz < buf then - 1 else buf + sz);
           room = unat (limit - buf);
           k = min (length out) (room - 1)
       in (\<forall>i. m' i = stored buf limit out m i) \<and>
          (unat buf + length out < 2 ^ 32 \<longrightarrow>
            (\<forall>i. m' i = (if room = 0 then m i else if unat (i - buf) < k then out ! unat (i - buf)
                         else if unat (i - buf) = k then NUL else m i))))"
      unfolding o(2) limit_def [symmetric] Let_def
      by (intro exI [of _ "stored buf limit out m"] conjI impI allI refl) (simp only: stored_fits Let_def)
  qed
qed

lemma print_1234: "rt_vsnprintf buf sz ''%u'' [Arg_int 1234] m =
    Some (4, stored buf (if buf + sz < buf then - 1 else buf + sz) ''1234'' m)"
proof -
  have "number_text 1234 10 (-1) (-1) 0 = ''1234''" by code_simp
  then have "vs_loop ''%u'' [Arg_int 1234] b = Some (emit ''1234'' b)" for b by (simp only: conversion_d)
  from rt_vsnprintf_emit [OF this] show ?thesis by simp
qed

theorem rt_vsnprintf_contract_witness:
  "\<exists>m'. rt_vsnprintf 0x20000000 3 ''%u'' [Arg_int 1234] (\<lambda>_. CHR ''x'') = Some (4, m') \<and>
     m' 0x20000002 = NUL \<and> m' 0x20000003 = CHR ''x''"
proof -
  from rt_vsnprintf_contract [OF print_1234 [where buf = "0x20000000" and sz = 40 and m = "\<lambda>_. NUL"]] obtain m' where
    "rt_vsnprintf 0x20000000 3 ''%u'' [Arg_int 1234] (\<lambda>_. CHR ''x'') = Some (4, m')" by blast
  moreover from this have "m' = stored 0x20000000 0x20000003 ''1234'' (\<lambda>_. CHR ''x'')" by (simp add: print_1234)
  moreover have "stored 0x20000000 0x20000003 ''1234'' (\<lambda>_. CHR ''x'') 0x20000002 = NUL"
    "stored 0x20000000 0x20000003 ''1234'' (\<lambda>_. CHR ''x'') 0x20000003 = CHR ''x''" by (simp_all add: stored_def)
  ultimately show ?thesis by blast
qed

text \<open>
  \<open>print_number\<close> prints exactly \<open>number_text\<close>: sign, padding of zeros or blanks on the
  side the flags say, leading zeros up to the precision, and the digits of the magnitude, at most
  10 of the 16 its array can hold; with a precision that is not 0 the text is as wide as asked for.
\<close>

theorem print_number_correct:
  "print_number b num base s precision type = emit (number_text num base s precision type) b \<and>
   length (digit_loop (digit_chars type) base x []) \<le> 10 \<and>
   (precision = 0 \<or> int (length (number_text num base s precision type)) =
      max s (int (length (sign_text type num)) + max precision (int (length (magnitude_text type base
        (if type AND SIGN \<noteq> 0 \<and> sint num < 0 then - num else num))))))"
proof -
  have "unat x < 4294967296" using unsigned_less [of x] by simp
  then have "unat x < radix base ^ 10" by (auto simp: radix_def)
  then have "length (digit_loop (digit_chars type) base x []) \<le> 10"
    using to_base_length [of "unat x" "radix base" 10] by (simp add: digit_loop_eq)
  moreover have "precision = 0 \<or> int (length (number_text num base s precision type)) =
      max s (int (length (sign_text type num)) + max precision (int (length (magnitude_text type base
        (if type AND SIGN \<noteq> 0 \<and> sint num < 0 then - num else num)))))"
    unfolding number_text_def Let_def by (auto simp: max_def)
  ultimately show ?thesis using print_number_emit by blast
qed

lemma magnitude_peek: "peek (magnitude_text type 10 x) \<noteq> CHR ''-''"
proof -
  have "ISDIGIT c" if c: "c \<in> set (magnitude_text type 10 x)" for c
  proof (cases "x = 0")
    case True
    then show ?thesis using c by (simp add: magnitude_text_def ISDIGIT_def)
  next
    case False
    then obtain d where "d \<in> set (to_base 10 (unat x))" "c = digit_chars type ! d"
      using c by (auto simp: magnitude_text_def radix_def)
    then show ?thesis using to_base_less digit_char_10(2) by simp
  qed
  moreover have "peek (magnitude_text type 10 x) \<in> set (magnitude_text type 10 x)"
    using magnitude_length(2) [of type 10 x] by (cases "magnitude_text type 10 x") (auto simp: peek_def)
  moreover have "\<not> ISDIGIT (CHR ''-'')" by (simp add: ISDIGIT_def)
  ultimately show ?thesis by metis
qed

text \<open>Output that fits is in the buffer, with the null byte behind it.\<close>

lemma output_fits:
  assumes o: "\<And>b. vs_loop fmt args b = Some (emit out b)" and l: "length out < unat sz" "\<not> buf + sz < buf"
    and s: "length out < 2 ^ 31"
  shows "\<exists>m1. rt_vsnprintf buf sz fmt args m = Some (int (length out), m1) \<and>
      m1 (buf + of_nat (length out)) = NUL \<and> map (\<lambda>i. m1 (buf + of_nat i)) [0..<length out] = out"
proof -
  have "unat (buf + sz) = unat buf + unat sz" using l(2) by (metis unat_plus_simple not_less)
  moreover have "unat (buf + sz) < 2 ^ 32" using unsigned_less [of "buf + sz"] by simp
  ultimately have n: "unat buf + length out < 2 ^ 32" using l(1) by simp
  have r: "unat (buf + sz - buf) = unat sz" by simp
  have u: "unat (buf + of_nat i - buf :: u32) = i" if "i \<le> length out" for i
    using that s by (simp add: unat_of_nat take_bit_nat_eq_self)
  have at: "stored buf (buf + sz) out m (buf + of_nat i) =
      (if i < length out then out ! i else NUL)" if "i \<le> length out" for i
    using l that u [OF that] by (subst stored_fits [OF n]) (auto simp: Let_def)
  have "sint (of_nat (length out) :: s32) = int (length out)"
    using s by (simp add: signed_of_nat signed_take_bit_int_eq_self)
  then have "rt_vsnprintf buf sz fmt args m = Some (int (length out), stored buf (buf + sz) out m)"
    using rt_vsnprintf_emit [OF o, where buf = buf and sz = sz and m = m] l(2) by simp
  moreover have "map (\<lambda>i. stored buf (buf + sz) out m (buf + of_nat i)) [0..<length out] = out"
    by (intro nth_equalityI) (simp_all add: at)
  ultimately show ?thesis using at [of "length out"] by auto
qed

text \<open>
  C24.  Round trip of decimal numbers: with room for 12 bytes, \<^verbatim>\<open>%d\<close> stores a text that reads
  back as the signed value of the argument, terminated by a null byte, and \<^verbatim>\<open>%u\<close> one that
  reads back as its unsigned value.
\<close>

theorem decimal_roundtrip:
  assumes "12 \<le> sz" "buf \<le> buf + sz"
  shows "(\<exists>n m1. rt_vsnprintf buf sz ''%d'' [Arg_int x] m = Some (int n, m1) \<and> m1 (buf + of_nat n) = NUL \<and>
      read_int (map (\<lambda>i. m1 (buf + of_nat i)) [0..<n]) = (sint x, [])) \<and>
    (\<exists>n m1. rt_vsnprintf buf sz ''%u'' [Arg_int x] m = Some (int n, m1) \<and> m1 (buf + of_nat n) = NUL \<and>
      read_int (map (\<lambda>i. m1 (buf + of_nat i)) [0..<n]) = (int (unat x), []))"
proof -
  have z: "12 \<le> unat sz" "\<not> buf + sz < buf" using assms by (simp_all add: word_le_nat_alt not_less)
  define sg where "sg = sign_text 2 x"
  define ds where "ds = magnitude_text 2 10 (if sint x < 0 then - x else x)"
  have sg: "sg = (if sint x < 0 then ''-'' else [])" by (simp add: sg_def sign_text_def)
  have ds: "length ds \<le> 10" "ds \<noteq> []" "skip_atoi ds = (if sint x < 0 then - sint x else sint x, [])"
    using magnitude_length magnitude_read unat_minus_sint sint_unat by (simp_all add: ds_def)
  have nt: "number_text x 10 (-1) (-1) 2 = sg @ ds" "number_text x 10 (-1) (-1) 0 = magnitude_text 0 10 x"
    by (simp_all add: number_text_plain sg_def ds_def sign_text_def)
  have "peek ds \<noteq> CHR ''-''" by (simp add: ds_def magnitude_peek)
  then have "read_int (sg @ ds) = (sint x, [])" using ds(3) by (auto simp: read_int_def sg peek_def)
  moreover have "read_int (magnitude_text 0 10 x) = (int (unat x), [])"
    using magnitude_peek magnitude_read by (simp add: read_int_def)
  moreover have "length (sg @ ds) \<le> 11" "length (magnitude_text 0 10 x) \<le> 11"
    using ds(1) magnitude_length [of 0 10 x] by (simp_all add: sg)
  ultimately have r: "read_int (sg @ ds) = (sint x, [])" "read_int (magnitude_text 0 10 x) = (int (unat x), [])"
    "length (sg @ ds) \<le> 11" "length (magnitude_text 0 10 x) \<le> 11" by blast+
  have c: "vs_loop ''%d'' [Arg_int x] b = Some (emit (sg @ ds) b)"
    "vs_loop ''%u'' [Arg_int x] b = Some (emit (magnitude_text 0 10 x) b)" for b
    by (simp_all only: conversion_d nt)
  let ?d = "sg @ ds" and ?u = "magnitude_text 0 10 x"
  have big: "length ?d < unat sz" "length ?u < unat sz" "length ?d < 2 ^ 31" "length ?u < 2 ^ 31"
    using r(3,4) z by simp_all
  obtain m1 where d: "rt_vsnprintf buf sz ''%d'' [Arg_int x] m = Some (int (length ?d), m1)"
      "m1 (buf + of_nat (length ?d)) = NUL" "map (\<lambda>i. m1 (buf + of_nat i)) [0..<length ?d] = ?d"
    using output_fits [OF c(1) big(1) z(2) big(3), of m] by blast
  obtain m2 where u: "rt_vsnprintf buf sz ''%u'' [Arg_int x] m = Some (int (length ?u), m2)"
      "m2 (buf + of_nat (length ?u)) = NUL" "map (\<lambda>i. m2 (buf + of_nat i)) [0..<length ?u] = ?u"
    using output_fits [OF c(2) big(2) z(2) big(4), of m] by blast
  have "read_int (map (\<lambda>i. m1 (buf + of_nat i)) [0..<length ?d]) = (sint x, [])" unfolding d(3) by (rule r(1))
  moreover have "read_int (map (\<lambda>i. m2 (buf + of_nat i)) [0..<length ?u]) = (int (unat x), [])"
    unfolding u(3) by (rule r(2))
  ultimately show ?thesis using d(1,2) u(1,2) by blast
qed

theorem decimal_roundtrip_witness:
  "\<exists>n m1. rt_vsnprintf 0x20000000 12 ''%d'' [Arg_int (- 2147483648)] (\<lambda>_. NUL) = Some (int n, m1) \<and>
     read_int (map (\<lambda>i. m1 (0x20000000 + of_nat i)) [0..<n]) = (- 2147483648, [])"
  using decimal_roundtrip [of 12 "0x20000000" "- 2147483648" "\<lambda>_. NUL"] by auto

text \<open>
  The octal conversion prints hexadecimal digits: \<^verbatim>\<open>%o\<close> is \<^verbatim>\<open>%x\<close>, because
  \<open>divide\<close> knows the bases 10 and 16 only; 8 is printed as 8.
\<close>

theorem octal_is_hexadecimal:
  "rt_vsnprintf buf sz ''%o'' args m = rt_vsnprintf buf sz ''%x'' args m \<and>
   print_number b num 8 s precision type = print_number b num 16 s precision type"
proof -
  have p: "print_number b num 8 s precision type = print_number b num 16 s precision type" for b num s precision type
    by (simp add: print_number_emit number_text_def magnitude_text_def radix_def)
  have "vs_loop ''%o'' args b = vs_loop ''%x'' args b" for b
    by (simp add: vs_directive_def vs_width_def vs_precision_def vs_qualifier_def vs_conversion_def conv_num_def
      peek_def ISDIGIT_def p)
  then show ?thesis using p by (simp add: rt_vsnprintf_def)
qed

text \<open>
  A precision of 0 suppresses the digits of every number, and the field width cuts strings off.
\<close>

lemma precision_zero: "map_option fst (rt_vsnprintf buf sz ''%.0u'' [Arg_int x] m) = Some 0"
proof -
  have "number_text x 10 (-1) 0 0 = []" by (simp add: number_text_def Let_def sign_text_def)
  then have "vs_loop ''%.0u'' [Arg_int x] b = Some b" for b
    by (simp add: vs_directive_def vs_width_def vs_precision_def vs_qualifier_def vs_conversion_def conv_num_def
      peek_def ISDIGIT_def skip_atoi_def print_number_emit Let_def)
  then show ?thesis by (simp add: rt_vsnprintf_def Let_def)
qed

lemma width_truncates: "map_option fst (rt_vsnprintf buf sz ''%2s'' [Arg_str (Some ''hello'')] m) = Some 2"
proof -
  have "vs_loop ''%2s'' [Arg_str (Some ''hello'')] b = Some (emit ''he'' b)" for b
    by (simp add: vs_directive_def vs_width_def vs_precision_def vs_qualifier_def vs_conversion_def conv_s_def
      peek_def ISDIGIT_def skip_atoi_def str_pad_emit str_len_eq str_out_emit emit_def Let_def)
  from rt_vsnprintf_emit [OF this] show ?thesis by simp
qed

text \<open>
  The cursor wraps.  Two numbers of width \<open>2147483647\<close> need more characters than there are
  addresses behind the buffer: the cursor passes the end of the address space and is below \<open>end\<close>
  again, so blanks are stored from address 0 up to the buffer, far outside it; the null byte goes
  below the buffer, and the result is negative.
\<close>

lemma number_text_wide:
  assumes "11 \<le> s"
  shows "length (number_text x 10 s (-1) 2) = nat s" "i < nat s - 11 \<Longrightarrow> number_text x 10 s (-1) 2 ! i = CHR '' ''"
proof -
  define ds where "ds = magnitude_text 2 10 (if sint x < 0 then - x else x)"
  have l: "length ds \<le> 10" "length (sign_text 2 x) \<le> 1"
    using magnitude_length by (simp_all add: ds_def sign_text_def)
  have t: "number_text x 10 s (-1) 2 =
      replicate (nat (s - int (length ds) - int (length (sign_text 2 x)))) (CHR '' '') @ sign_text 2 x @ ds"
    by (simp add: number_text_def ds_def Let_def)
  show "length (number_text x 10 s (-1) 2) = nat s" using l assms by (simp add: t)
  show "i < nat s - 11 \<Longrightarrow> number_text x 10 s (-1) 2 ! i = CHR '' ''"
  proof -
    assume "i < nat s - 11"
    then have "i < nat (s - int (length ds) - int (length (sign_text 2 x)))" using l by linarith
    then show ?thesis by (simp add: t nth_append)
  qed
qed

lemma long_output_wraps:
  "\<exists>m'. rt_vsnprintf 0x20000000 128 ''%2147483647d%2147483647d'' [Arg_int x, Arg_int y] m = Some (- 2, m') \<and>
     (\<forall>i < 0x1FFFFFF0. m' i = CHR '' '') \<and> m' 0x1FFFFFFE = NUL"
proof -
  let ?W = "2147483647 :: int"
  define X where "X = number_text x 10 ?W (-1) 2"
  define Y where "Y = number_text y 10 ?W (-1) 2"
  have l: "length X = 2147483647" "length Y = 2147483647" by (simp_all add: X_def Y_def number_text_wide)
  have blank: "Y ! i = CHR '' ''" if "i < 2147483636" for i
    using that unfolding Y_def by (intro number_text_wide) simp_all
  have "vs_loop ''%2147483647d%2147483647d'' [Arg_int x, Arg_int y] b = Some (emit (X @ Y) b)" for b
    unfolding X_def Y_def
    by (simp add: vs_directive_def vs_width_def vs_precision_def vs_qualifier_def vs_conversion_def conv_num_def
      peek_def ISDIGIT_def skip_atoi_def print_number_emit Let_def)
  note v = rt_vsnprintf_emit [OF this, where buf = "0x20000000" and sz = 128 and m = m]
  have n: "length (X @ Y) = 4294967294" by (simp add: l)
  have "stored 0x20000000 0x20000080 (X @ Y) m i = CHR '' ''" if i: "i < 0x1FFFFFF0" for i
  proof -
    have u: "unat i < 536870896" using i by (simp add: word_less_nat_alt)
    have "i - 0x20000000 = i + 0xE0000000" by simp
    moreover have "unat (i + 0xE0000000) = unat i + 3758096384"
      using u by (subst unat_add_lem [THEN iffD1]) simp_all
    ultimately have d: "unat (i - 0x20000000) = unat i + 3758096384" by (simp only:)
    have "(X @ Y) ! (unat i + 3758096384) = Y ! (unat i + 1610612737)" by (simp add: nth_append l add.commute)
    also have "\<dots> = CHR '' ''" using u by (intro blank) simp
    finally have c: "(X @ Y) ! (unat i + 3758096384) = CHR '' ''" .
    have "i < 0x20000080" "i \<noteq> 0x1FFFFFFE" using i by (simp_all add: word_less_nat_alt) auto
    moreover have "last_at 4294967294 (unat i + 3758096384) = unat i + 3758096384" using u by simp
    moreover have "(4831838206 :: u32) = 0x1FFFFFFE" by simp
    then have "i \<noteq> 4831838206" using \<open>i \<noteq> 0x1FFFFFFE\<close> by (simp only: simp_thms)
    ultimately show ?thesis using c d u unfolding stored_def n Let_def by simp
  qed
  moreover have "stored 0x20000000 0x20000080 (X @ Y) m 0x1FFFFFFE = NUL"
    unfolding stored_def n Let_def by simp
  moreover have "sint (of_nat (length (X @ Y)) :: s32) = - 2" unfolding n by simp
  ultimately show ?thesis using v by simp
qed

end
