(* ===== verification/Kservice.thy ===== *)
theory Kservice
  imports Rtt_Prelude "HOL-Library.Sublist"
begin

text \<open>
  The memory and string routines of \<^verbatim>\<open>kservice.c\<close> in the configuration of the project
  (neither \<^verbatim>\<open>RT_KSERVICE_USING_TINY_SIZE\<close> nor the C library).  The memory is one area that
  starts at a multiple of four; an address is an index into it, and an access outside it has no
  result.  \<^verbatim>\<open>char\<close> is unsigned, as on ARM.  Lengths are natural numbers: the counters of the
  source run down to 0 and are not used after that.
\<close>

section \<open>Blocks of memory\<close>

type_synonym memory = "u8 list"

definition word_bytes :: "u32 \<Rightarrow> u8 list" where
  "word_bytes w = [ucast w, ucast (drop_bit 8 w), ucast (drop_bit 16 w), ucast (drop_bit 24 w)]"

definition store_word :: "memory \<Rightarrow> nat \<Rightarrow> u32 \<Rightarrow> memory option" where
  "store_word m a w = write_block m a (word_bytes w)"

definition UNALIGNED :: "nat \<Rightarrow> bool" where
  "UNALIGNED a \<longleftrightarrow> a AND (4 - 1) \<noteq> 0"

function set_words_4 :: "memory \<Rightarrow> nat \<Rightarrow> u32 \<Rightarrow> nat \<Rightarrow> (memory \<times> nat \<times> nat) option" where
  "set_words_4 m a buffer count =
     (if count \<ge> 16 then
        do {
          m \<leftarrow> store_word m a buffer;
          m \<leftarrow> store_word m (a + 4) buffer;
          m \<leftarrow> store_word m (a + 8) buffer;
          m \<leftarrow> store_word m (a + 12) buffer;
          set_words_4 m (a + 16) buffer (count - 16)
        }
      else Some (m, a, count))"
  by pat_completeness auto
termination by (relation "measure (\<lambda>(m, a, buffer, count). count)") simp_all

function set_words :: "memory \<Rightarrow> nat \<Rightarrow> u32 \<Rightarrow> nat \<Rightarrow> (memory \<times> nat \<times> nat) option" where
  "set_words m a buffer count =
     (if count \<ge> 4 then do { m \<leftarrow> store_word m a buffer; set_words m (a + 4) buffer (count - 4) }
      else Some (m, a, count))"
  by pat_completeness auto
termination by (relation "measure (\<lambda>(m, a, buffer, count). count)") simp_all

fun set_bytes :: "memory \<Rightarrow> nat \<Rightarrow> u8 \<Rightarrow> nat \<Rightarrow> memory option" where
  "set_bytes m a d 0 = Some m"
| "set_bytes m a d (Suc count) = do { m \<leftarrow> store m a d; set_bytes m (a + 1) d count }"

declare set_words_4.simps [simp del] set_words.simps [simp del]

definition rt_memset :: "memory \<Rightarrow> nat \<Rightarrow> s32 \<Rightarrow> nat \<Rightarrow> memory option" where
  "rt_memset m s c count =
     (let d = c AND 0xff in
      do {
        (m, a, count) \<leftarrow>
          (if \<not> count < 4 \<and> \<not> UNALIGNED s then
             do {
               let buffer = push_bit 8 d OR d;
               let buffer = buffer OR push_bit 16 buffer;
               (m, a, count) \<leftarrow> set_words_4 m s buffer count;
               set_words m a buffer count
             }
           else Some (m, s, count));
        set_bytes m a (ucast d) count
      })"

text \<open>\<^verbatim>\<open>*dst++ = *src++\<close> with pointers to cells of \<open>k\<close> bytes.\<close>

definition copy_cell :: "nat \<Rightarrow> memory \<Rightarrow> nat \<Rightarrow> nat \<Rightarrow> memory option" where
  "copy_cell k m dst src = do { xs \<leftarrow> read_block m src k; write_block m dst xs }"

function copy_words_4 :: "memory \<Rightarrow> nat \<Rightarrow> nat \<Rightarrow> nat \<Rightarrow> (memory \<times> nat \<times> nat \<times> nat) option" where
  "copy_words_4 m dst src len =
     (if len \<ge> 16 then
        do {
          m \<leftarrow> copy_cell 4 m dst src;
          m \<leftarrow> copy_cell 4 m (dst + 4) (src + 4);
          m \<leftarrow> copy_cell 4 m (dst + 8) (src + 8);
          m \<leftarrow> copy_cell 4 m (dst + 12) (src + 12);
          copy_words_4 m (dst + 16) (src + 16) (len - 16)
        }
      else Some (m, dst, src, len))"
  by pat_completeness auto
termination by (relation "measure (\<lambda>(m, dst, src, len). len)") simp_all

function copy_words :: "memory \<Rightarrow> nat \<Rightarrow> nat \<Rightarrow> nat \<Rightarrow> (memory \<times> nat \<times> nat \<times> nat) option" where
  "copy_words m dst src len =
     (if len \<ge> 4 then do { m \<leftarrow> copy_cell 4 m dst src; copy_words m (dst + 4) (src + 4) (len - 4) }
      else Some (m, dst, src, len))"
  by pat_completeness auto
termination by (relation "measure (\<lambda>(m, dst, src, len). len)") simp_all

fun copy_bytes :: "memory \<Rightarrow> nat \<Rightarrow> nat \<Rightarrow> nat \<Rightarrow> memory option" where
  "copy_bytes m dst src 0 = Some m"
| "copy_bytes m dst src (Suc len) = do { m \<leftarrow> copy_cell 1 m dst src; copy_bytes m (dst + 1) (src + 1) len }"

declare copy_words_4.simps [simp del] copy_words.simps [simp del]

definition rt_memcpy :: "memory \<Rightarrow> nat \<Rightarrow> nat \<Rightarrow> nat \<Rightarrow> memory option" where
  "rt_memcpy m dst src count =
     do {
       (m, dst, src, len) \<leftarrow>
         (if \<not> count < 16 \<and> \<not> (UNALIGNED src \<or> UNALIGNED dst) then
            do {
              (m, dst, src, len) \<leftarrow> copy_words_4 m dst src count;
              copy_words m dst src len
            }
          else Some (m, dst, src, count));
       copy_bytes m dst src len
     }"

text \<open>\<^verbatim>\<open>while (n--) *(--tmp) = *(--s)\<close> with both pointers behind the blocks.\<close>

fun move_down :: "memory \<Rightarrow> nat \<Rightarrow> nat \<Rightarrow> nat \<Rightarrow> memory option" where
  "move_down m tmp s 0 = Some m"
| "move_down m tmp s (Suc n) = do { m \<leftarrow> copy_cell 1 m (tmp - 1) (s - 1); move_down m (tmp - 1) (s - 1) n }"

definition rt_memmove :: "memory \<Rightarrow> nat \<Rightarrow> nat \<Rightarrow> nat \<Rightarrow> memory option" where
  "rt_memmove m dest src n =
     (if src < dest \<and> dest < src + n then move_down m (dest + n) (src + n) n
      else copy_bytes m dest src n)"

fun rt_memcmp :: "memory \<Rightarrow> nat \<Rightarrow> nat \<Rightarrow> nat \<Rightarrow> int option" where
  "rt_memcmp m cs ct 0 = Some 0"
| "rt_memcmp m cs ct (Suc count) =
     do {
       a \<leftarrow> load m cs;
       b \<leftarrow> load m ct;
       (let res = int (unat a) - int (unat b)
        in if res \<noteq> 0 then Some res else rt_memcmp m (cs + 1) (ct + 1) count)
     }"

section \<open>Filling\<close>

lemma write_block_append:
  assumes "a \<le> length m"
  shows "write_block m a (xs @ ys) = Option.bind (write_block m a xs) (\<lambda>m. write_block m (a + length xs) ys)"
  using assms by (auto simp: write_block_def min_def add.commute add.left_commute)

lemma write_block_Nil [simp]: "a \<le> length m \<Longrightarrow> write_block m a [] = Some m"
  by (simp add: write_block_def)

lemma write_block_length: "write_block m a xs = Some m' \<Longrightarrow> length m' = length m \<and> a + length xs \<le> length m"
  by (auto simp: write_block_def split: if_splits)

lemma store_write: "store m a x = write_block m a [x]"
  by (auto simp: store_def write_block_def upd_conv_take_nth_drop)

lemma word_bytes_length [simp]: "length (word_bytes w) = 4"
  by (simp add: word_bytes_def)

lemma set_bytes_write: "a \<le> length m \<Longrightarrow> set_bytes m a d n = write_block m a (replicate n d)"
proof (induction n arbitrary: m a)
  case (Suc n)
  show ?case
  proof (cases "store m a d")
    case None
    then show ?thesis using Suc.prems by (auto simp: store_write write_block_def split: if_splits)
  next
    case (Some m1)
    then have "length m1 = length m" "a + 1 \<le> length m" using write_block_length by (fastforce simp: store_write)+
    then show ?thesis using Suc.IH [of "a + 1" m1] Some Suc.prems write_block_append [of a m "[d]" "replicate n d"]
      by (simp add: store_write)
  qed
qed simp

lemma fill_word:
  fixes c :: u32
  defines "d \<equiv> c AND 0xff"
  defines "w \<equiv> push_bit 8 d OR d"
  shows "word_bytes (w OR push_bit 16 w) = replicate 4 (ucast c)"
proof -
  have ff: "(0xff :: u32) = mask 8" by (simp add: mask_eq_exp_minus_1)
  have "(ucast (w OR push_bit 16 w) :: u8) = ucast c"
    unfolding w_def d_def ff by (rule bit_word_eqI) (auto simp: bit_simps)
  moreover have "(ucast (drop_bit 8 (w OR push_bit 16 w)) :: u8) = ucast c"
    unfolding w_def d_def ff by (rule bit_word_eqI) (auto simp: bit_simps)
  moreover have "(ucast (drop_bit 16 (w OR push_bit 16 w)) :: u8) = ucast c"
    unfolding w_def d_def ff by (rule bit_word_eqI) (auto simp: bit_simps)
  moreover have "(ucast (drop_bit 24 (w OR push_bit 16 w)) :: u8) = ucast c"
    unfolding w_def d_def ff by (rule bit_word_eqI) (auto simp: bit_simps)
  ultimately show ?thesis by (simp add: word_bytes_def numeral_eq_Suc)
qed

lemma set_words_write:
  assumes "word_bytes w = replicate 4 d" "a \<le> length m"
  shows "set_words m a w n = map_option (\<lambda>m. (m, a + 4 * (n div 4), n mod 4)) (write_block m a (replicate (4 * (n div 4)) d))"
  using assms(2)
proof (induction n arbitrary: m a rule: less_induct)
  case (less n)
  show ?case
  proof (cases "n \<ge> 4")
    case False
    then show ?thesis using less.prems by (subst set_words.simps) simp
  next
    case True
    then have n: "4 * (n div 4) = 4 + 4 * ((n - 4) div 4)" "n mod 4 = (n - 4) mod 4"
      by (simp_all add: le_div_geq le_mod_geq)
    have ap: "write_block m a (replicate (4 + 4 * ((n - 4) div 4)) d) =
        Option.bind (write_block m a (replicate 4 d)) (\<lambda>m. write_block m (a + 4) (replicate (4 * ((n - 4) div 4)) d))"
      using write_block_append [OF less.prems, of "replicate 4 d"] by (simp add: replicate_add)
    show ?thesis
    proof (cases "write_block m a (replicate 4 d)")
      case None
      then show ?thesis using True unfolding n ap by (subst set_words.simps) (simp add: store_word_def assms(1))
    next
      case (Some m1)
      then have "a + 4 \<le> length m1" using write_block_length by fastforce
      then show ?thesis using True Some less.IH [of "n - 4" "a + 4" m1] unfolding n ap
        by (subst set_words.simps) (simp add: store_word_def assms(1) add.assoc)
    qed
  qed
qed

lemma set_words_4_same:
  "Option.bind (set_words_4 m a w n) (\<lambda>(m, a, n). set_words m a w n) = set_words m a w n"
proof (induction n arbitrary: m a rule: less_induct)
  case (less n)
  show ?case
  proof (cases "n \<ge> 16")
    case False
    then show ?thesis by (subst set_words_4.simps) simp
  next
    case True
    have w: "set_words m a w k = Option.bind (store_word m a w) (\<lambda>m. set_words m (a + 4) w (k - 4))" if "4 \<le> k" for m a k
      using that by (subst set_words.simps) simp
    have "set_words m a w n =
        Option.bind (store_word m a w) (\<lambda>m. Option.bind (store_word m (a + 4) w) (\<lambda>m.
          Option.bind (store_word m (a + 8) w) (\<lambda>m. Option.bind (store_word m (a + 12) w) (\<lambda>m.
            set_words m (a + 16) w (n - 16)))))"
      using True by (simp add: w add.assoc)
    then show ?thesis using True less.IH [of "n - 16"] by (subst set_words_4.simps) simp
  qed
qed

lemma rt_memset_write:
  assumes "s \<le> length m"
  shows "rt_memset m s c count = write_block m s (replicate count (ucast c))"
proof -
  let ?d = "c AND 0xff" and ?c = "ucast c :: u8"
  have d: "(ucast ?d :: u8) = ?c"
  proof -
    have ff: "(0xff :: u32) = mask 8" by (simp add: mask_eq_exp_minus_1)
    show ?thesis unfolding ff by (rule bit_word_eqI) (auto simp: bit_simps)
  qed
  show ?thesis
  proof (cases "\<not> count < 4 \<and> \<not> UNALIGNED s")
    case False
    then show ?thesis using set_bytes_write [OF assms, of ?c count] d by (auto simp: rt_memset_def)
  next
    case True
    let ?v = "(push_bit 8 ?d OR ?d) OR push_bit 16 (push_bit 8 ?d OR ?d)"
    let ?k = "4 * (count div 4)"
    have w: "word_bytes ?v = replicate 4 ?c" by (rule fill_word)
    have sw: "Option.bind (set_words_4 m s ?v count) (\<lambda>(m, a, n). set_words m a ?v n) =
       map_option (\<lambda>m. (m, s + ?k, count mod 4)) (write_block m s (replicate ?k ?c))"
      unfolding set_words_4_same by (rule set_words_write [OF w assms])
    have "rt_memset m s c count = Option.bind (Option.bind (set_words_4 m s ?v count) (\<lambda>(m, a, n). set_words m a ?v n))
        (\<lambda>(m, a, n). set_bytes m a ?c n)"
      using True by (simp add: rt_memset_def Let_def d)
    also have "\<dots> = Option.bind (write_block m s (replicate ?k ?c)) (\<lambda>m. set_bytes m (s + ?k) ?c (count mod 4))"
      unfolding sw by (cases "write_block m s (replicate ?k ?c)") simp_all
    also have "\<dots> = Option.bind (write_block m s (replicate ?k ?c)) (\<lambda>m. write_block m (s + ?k) (replicate (count mod 4) ?c))"
    proof (cases "write_block m s (replicate ?k ?c)")
      case (Some m1)
      then have "s + ?k \<le> length m1" using write_block_length by fastforce
      then show ?thesis using Some set_bytes_write by simp
    qed simp
    also have "\<dots> = write_block m s (replicate count ?c)"
      using write_block_append [OF assms, of "replicate ?k ?c" "replicate (count mod 4) ?c"]
      by (simp flip: replicate_add)
    finally show ?thesis .
  qed
qed

section \<open>Copying\<close>

text \<open>
  A forward copy may be cut in pieces unless it overtakes its source: when the destination is not
  inside the part of the source that is still to be read.
\<close>

lemma copy_cell_0 [simp]: "dst \<le> length m \<Longrightarrow> src \<le> length m \<Longrightarrow> copy_cell 0 m dst src = Some m"
  by (simp add: copy_cell_def)

lemma copy_cell_some:
  "dst + k \<le> length m \<Longrightarrow> src + k \<le> length m \<Longrightarrow>
     copy_cell k m dst src = Some (take dst m @ take k (drop src m) @ drop (dst + k) m)"
  by (simp add: copy_cell_def)

definition copied :: "nat \<Rightarrow> memory \<Rightarrow> nat \<Rightarrow> nat \<Rightarrow> memory" where
  "copied k m dst src = take dst m @ take k (drop src m) @ drop (dst + k) m"

lemma copied_length [simp]: "dst + k \<le> length m \<Longrightarrow> src + k \<le> length m \<Longrightarrow> length (copied k m dst src) = length m"
  by (simp add: copied_def)

lemma copied_nth:
  assumes "dst + k \<le> length m" "src + k \<le> length m" "p < length m"
  shows "copied k m dst src ! p = (if dst \<le> p \<and> p < dst + k then m ! (src + (p - dst)) else m ! p)"
proof (cases "dst \<le> p \<and> p < dst + k")
  case True
  then have "p - dst < k" by auto
  then show ?thesis using nth_overwrite [of dst "take k (drop src m)" m p] assms True by (simp add: copied_def)
next
  case False
  then show ?thesis using nth_overwrite [of dst "take k (drop src m)" m p] assms by (auto simp: copied_def)
qed

lemma copy_cell_copied:
  "dst + k \<le> length m \<Longrightarrow> src + k \<le> length m \<Longrightarrow> copy_cell k m dst src = Some (copied k m dst src)"
  by (simp add: copied_def copy_cell_some)

lemma copy_split:
  assumes "dst + (j + k) \<le> length m" "src + (j + k) \<le> length m" "dst \<le> src \<or> src + (j + k) \<le> dst"
  shows "copy_cell (j + k) m dst src = Option.bind (copy_cell j m dst src) (\<lambda>m. copy_cell k m (dst + j) (src + j))"
proof -
  let ?m = "copied j m dst src"
  have l: "length ?m = length m" using assms(1,2) by simp
  have "copied k ?m (dst + j) (src + j) ! p = copied (j + k) m dst src ! p" if p: "p < length m" for p
  proof (cases "dst + j \<le> p \<and> p < dst + j + k")
    case True
    define q where "q = src + (p - dst)"
    have q: "src + j + (p - (dst + j)) = q" "\<not> (dst \<le> q \<and> q < dst + j)" "q < length m"
      using True assms by (auto simp: q_def)
    have "copied k ?m (dst + j) (src + j) ! p = ?m ! q"
      using copied_nth [of "dst + j" k ?m "src + j" p] True p assms(1,2) l q(1) by simp
    also have "\<dots> = m ! q" using copied_nth [of dst j m src q] assms(1,2) q(2,3) by simp
    finally show ?thesis using copied_nth [of dst "j + k" m src p] True p assms(1,2) by (simp add: q_def)
  next
    case False
    then show ?thesis using p assms(1,2) l by (auto simp: copied_nth)
  qed
  then have "copied k ?m (dst + j) (src + j) = copied (j + k) m dst src"
    using assms(1,2) l by (intro nth_equalityI) simp_all
  then show ?thesis using assms(1,2) l by (simp add: copy_cell_copied)
qed

lemma copy_bytes_cell:
  assumes "dst + n \<le> length m" "src + n \<le> length m" "dst \<le> src \<or> src + n \<le> dst"
  shows "copy_bytes m dst src n = copy_cell n m dst src"
  using assms
proof (induction n arbitrary: m dst src)
  case (Suc n)
  let ?m = "copied 1 m dst src"
  have c: "copy_cell 1 m dst src = Some ?m" using Suc.prems by (intro copy_cell_copied) simp_all
  have l: "length ?m = length m" using Suc.prems by simp
  have "copy_bytes ?m (dst + 1) (src + 1) n = copy_cell n ?m (dst + 1) (src + 1)"
    using Suc.prems l by (intro Suc.IH) auto
  then show ?case using c copy_split [of dst 1 n m src] Suc.prems by simp
qed simp

lemma copy_words_4_same:
  "Option.bind (copy_words_4 m dst src n) (\<lambda>(m, dst, src, n). copy_words m dst src n) = copy_words m dst src n"
proof (induction n arbitrary: m dst src rule: less_induct)
  case (less n)
  show ?case
  proof (cases "n \<ge> 16")
    case False
    then show ?thesis by (subst copy_words_4.simps) simp
  next
    case True
    have w: "copy_words m dst src k = Option.bind (copy_cell 4 m dst src) (\<lambda>m. copy_words m (dst + 4) (src + 4) (k - 4))"
      if "4 \<le> k" for m dst src k
      using that by (subst copy_words.simps) simp
    have "copy_words m dst src n =
        Option.bind (copy_cell 4 m dst src) (\<lambda>m. Option.bind (copy_cell 4 m (dst + 4) (src + 4)) (\<lambda>m.
          Option.bind (copy_cell 4 m (dst + 8) (src + 8)) (\<lambda>m. Option.bind (copy_cell 4 m (dst + 12) (src + 12)) (\<lambda>m.
            copy_words m (dst + 16) (src + 16) (n - 16)))))"
      using True by (simp add: w add.assoc)
    then show ?thesis using True less.IH [of "n - 16"] by (subst copy_words_4.simps) simp
  qed
qed

lemma copy_words_cell:
  assumes "dst + n \<le> length m" "src + n \<le> length m" "dst \<le> src \<or> src + n \<le> dst"
  shows "Option.bind (copy_words m dst src n) (\<lambda>(m, dst, src, n). copy_bytes m dst src n) = copy_cell n m dst src"
  using assms
proof (induction n arbitrary: m dst src rule: less_induct)
  case (less n)
  show ?case
  proof (cases "n \<ge> 4")
    case False
    then show ?thesis using less.prems copy_bytes_cell by (subst copy_words.simps) simp
  next
    case True
    let ?m = "copied 4 m dst src"
    have c: "copy_cell 4 m dst src = Some ?m" using less.prems True by (intro copy_cell_copied) simp_all
    have l: "length ?m = length m" using less.prems True by simp
    have "Option.bind (copy_words ?m (dst + 4) (src + 4) (n - 4)) (\<lambda>(m, dst, src, n). copy_bytes m dst src n) =
        copy_cell (n - 4) ?m (dst + 4) (src + 4)"
      using less.prems True l by (intro less.IH) auto
    then show ?thesis using c copy_split [of dst 4 "n - 4" m src] less.prems True
      by (subst copy_words.simps) simp
  qed
qed

lemma rt_memcpy_cell:
  assumes "dst + n \<le> length m" "src + n \<le> length m" "dst \<le> src \<or> src + n \<le> dst"
  shows "rt_memcpy m dst src n = copy_cell n m dst src"
proof (cases "\<not> n < 16 \<and> \<not> (UNALIGNED src \<or> UNALIGNED dst)")
  case True
  have "rt_memcpy m dst src n =
      Option.bind (Option.bind (copy_words_4 m dst src n) (\<lambda>(m, dst, src, n). copy_words m dst src n))
        (\<lambda>(m, dst, src, n). copy_bytes m dst src n)"
    using True by (simp add: rt_memcpy_def)
  then show ?thesis unfolding copy_words_4_same using copy_words_cell [OF assms] by simp
next
  case False
  then show ?thesis using copy_bytes_cell [OF assms] by (auto simp: rt_memcpy_def)
qed

lemma move_down_cell:
  assumes "dst + n \<le> length m" "src + n \<le> length m" "src \<le> dst"
  shows "move_down m (dst + n) (src + n) n = copy_cell n m dst src"
  using assms
proof (induction n arbitrary: m)
  case (Suc n)
  let ?m = "copied 1 m (dst + n) (src + n)"
  have c: "copy_cell 1 m (dst + n) (src + n) = Some ?m" using Suc.prems by (intro copy_cell_copied) simp_all
  have l: "length ?m = length m" using Suc.prems by simp
  have "move_down ?m (dst + n) (src + n) n = copy_cell n ?m dst src" using Suc.prems l by (intro Suc.IH) simp_all
  also have "\<dots> = Some (copied n ?m dst src)" using Suc.prems l by (intro copy_cell_copied) simp_all
  also have "copied n ?m dst src = copied (Suc n) m dst src"
  proof (intro nth_equalityI)
    fix p assume "p < length (copied n ?m dst src)"
    then have p: "p < length m" using Suc.prems l by simp
    show "copied n ?m dst src ! p = copied (Suc n) m dst src ! p"
    proof (cases "dst \<le> p \<and> p < dst + n")
      case True
      define q where "q = src + (p - dst)"
      have q: "q < dst + n" "q < length m" using True Suc.prems by (auto simp: q_def)
      have "copied n ?m dst src ! p = ?m ! q"
        using copied_nth [of dst n ?m src p] True p Suc.prems l by (simp add: q_def)
      also have "\<dots> = m ! q" using copied_nth [of "dst + n" 1 m "src + n" q] Suc.prems q by simp
      finally show ?thesis using copied_nth [of dst "Suc n" m src p] True p Suc.prems by (simp add: q_def)
    next
      case False
      then show ?thesis using p Suc.prems l by (auto simp: copied_nth less_Suc_eq)
    qed
  qed (use Suc.prems l in simp)
  also have "Some \<dots> = copy_cell (Suc n) m dst src" using Suc.prems by (subst copy_cell_copied) simp_all
  finally show ?case using c by simp
qed simp

section \<open>Strings\<close>

text \<open>A string is the bytes from its address to the first null byte.\<close>

function strlen_loop :: "memory \<Rightarrow> nat \<Rightarrow> nat option" where
  "strlen_loop m sc =
     (case load m sc of
        None \<Rightarrow> None
      | Some c \<Rightarrow> if c \<noteq> 0 then strlen_loop m (sc + 1) else Some sc)"
  by pat_completeness auto
termination by (relation "measure (\<lambda>(m, sc). length m - sc)") (auto simp: load_def split: if_splits)

declare strlen_loop.simps [simp del]

definition rt_strlen :: "memory \<Rightarrow> nat \<Rightarrow> nat option" where
  "rt_strlen m s = map_option (\<lambda>sc. sc - s) (strlen_loop m s)"

function strnlen_loop :: "memory \<Rightarrow> nat \<Rightarrow> nat \<Rightarrow> nat \<Rightarrow> nat option" where
  "strnlen_loop m s maxlen sc =
     (case load m sc of
        None \<Rightarrow> None
      | Some c \<Rightarrow> if c \<noteq> 0 \<and> sc - s < maxlen then strnlen_loop m s maxlen (sc + 1) else Some sc)"
  by pat_completeness auto
termination by (relation "measure (\<lambda>(m, s, maxlen, sc). length m - sc)") (auto simp: load_def split: if_splits)

declare strnlen_loop.simps [simp del]

definition rt_strnlen :: "memory \<Rightarrow> nat \<Rightarrow> nat \<Rightarrow> nat option" where
  "rt_strnlen m s maxlen = map_option (\<lambda>sc. sc - s) (strnlen_loop m s maxlen s)"

function strstr_loop :: "memory \<Rightarrow> nat \<Rightarrow> nat \<Rightarrow> int \<Rightarrow> int \<Rightarrow> nat option option" where
  "strstr_loop m s1 s2 l1 l2 =
     (if l1 \<ge> l2 then
        (case rt_memcmp m s1 s2 (nat l2) of
           None \<Rightarrow> None
         | Some r \<Rightarrow> if r = 0 then Some (Some s1) else strstr_loop m (s1 + 1) s2 (l1 - 1) l2)
      else Some None)"
  by pat_completeness auto
termination by (relation "measure (\<lambda>(m, s1, s2, l1, l2). nat (l1 - l2 + 1))") auto

declare strstr_loop.simps [simp del]

definition rt_strstr :: "memory \<Rightarrow> nat \<Rightarrow> nat \<Rightarrow> nat option option" where
  "rt_strstr m s1 s2 =
     do {
       l2 \<leftarrow> rt_strlen m s2;
       (if l2 = 0 then Some (Some s1)
        else
          do {
            l1 \<leftarrow> rt_strlen m s1;
            strstr_loop m s1 s2 (int l1) (int l2)
          })
     }"

definition fold_case :: "u8 \<Rightarrow> int" where
  "fold_case c =
     (let ca = int (unat c)
      in if ca \<ge> of_char (CHR ''A'') \<and> ca \<le> of_char (CHR ''Z'')
         then ca + (of_char (CHR ''a'') - of_char (CHR ''A'')) else ca)"

function rt_strcasecmp :: "memory \<Rightarrow> nat \<Rightarrow> nat \<Rightarrow> int option" where
  "rt_strcasecmp m a b =
     (case load m a of
        None \<Rightarrow> None
      | Some xa \<Rightarrow>
          (case load m b of
             None \<Rightarrow> None
           | Some xb \<Rightarrow>
               let ca = fold_case xa; cb = fold_case xb
               in if ca = cb \<and> ca \<noteq> 0 then rt_strcasecmp m (a + 1) (b + 1) else Some (ca - cb)))"
  by pat_completeness auto
termination by (relation "measure (\<lambda>(m, a, b). length m - a)") (auto simp: load_def split: if_splits)

declare rt_strcasecmp.simps [simp del]

function rt_strcmp :: "memory \<Rightarrow> nat \<Rightarrow> nat \<Rightarrow> int option" where
  "rt_strcmp m cs ct =
     (case load m cs of
        None \<Rightarrow> None
      | Some a \<Rightarrow>
          (case load m ct of
             None \<Rightarrow> None
           | Some b \<Rightarrow>
               if a \<noteq> 0 \<and> a = b then rt_strcmp m (cs + 1) (ct + 1)
               else Some (int (unat a) - int (unat b))))"
  by pat_completeness auto
termination by (relation "measure (\<lambda>(m, a, b). length m - a)") (auto simp: load_def split: if_splits)

declare rt_strcmp.simps [simp del]

text \<open>The result of \<open>rt_strncmp\<close> goes through a variable of type \<^verbatim>\<open>signed char\<close>.\<close>

fun rt_strncmp :: "memory \<Rightarrow> nat \<Rightarrow> nat \<Rightarrow> nat \<Rightarrow> int option" where
  "rt_strncmp m cs ct 0 = Some 0"
| "rt_strncmp m cs ct (Suc count) =
     do {
       a \<leftarrow> load m cs;
       b \<leftarrow> load m ct;
       (let res = sint (a - b)
        in if res \<noteq> 0 \<or> a = 0 then Some res else rt_strncmp m (cs + 1) (ct + 1) count)
     }"

fun strncpy_pad :: "memory \<Rightarrow> nat \<Rightarrow> nat \<Rightarrow> memory option" where
  "strncpy_pad m d 0 = Some m"
| "strncpy_pad m d (Suc n) = do { m \<leftarrow> store m d 0; strncpy_pad m (d + 1) n }"

fun strncpy_loop :: "memory \<Rightarrow> nat \<Rightarrow> nat \<Rightarrow> nat \<Rightarrow> memory option" where
  "strncpy_loop m d s 0 = Some m"
| "strncpy_loop m d s (Suc n) =
     do {
       c \<leftarrow> load m s;
       m \<leftarrow> store m d c;
       (if c = 0 then strncpy_pad m (d + 1) n else strncpy_loop m (d + 1) (s + 1) n)
     }"

definition rt_strncpy :: "memory \<Rightarrow> nat \<Rightarrow> nat \<Rightarrow> nat \<Rightarrow> memory option" where
  "rt_strncpy m dst src n = (if n \<noteq> 0 then strncpy_loop m dst src n else Some m)"

function rt_strcpy :: "memory \<Rightarrow> nat \<Rightarrow> nat \<Rightarrow> memory option" where
  "rt_strcpy m dst src =
     (case load m src of
        None \<Rightarrow> None
      | Some c \<Rightarrow>
          if c \<noteq> 0 then
            (case store m dst c of None \<Rightarrow> None | Some m' \<Rightarrow> rt_strcpy m' (dst + 1) (src + 1))
          else store m dst 0)"
  by pat_completeness auto
termination
  by (relation "measure (\<lambda>(m, dst, src). length m - src)") (auto simp: load_def store_def split: if_splits)

declare rt_strcpy.simps [simp del]

section \<open>What the string routines compute\<close>

text \<open>The string \<open>xs\<close> is stored at address \<open>s\<close>, with its null byte.\<close>

fun cstr :: "memory \<Rightarrow> nat \<Rightarrow> u8 list \<Rightarrow> bool" where
  "cstr m s [] \<longleftrightarrow> load m s = Some 0"
| "cstr m s (x # xs) \<longleftrightarrow> x \<noteq> 0 \<and> load m s = Some x \<and> cstr m (s + 1) xs"

lemma load_Some: "load m s = Some x \<longleftrightarrow> s < length m \<and> m ! s = x"
  by (auto simp: load_def)

lemma cstr_length: "cstr m s xs \<Longrightarrow> s + length xs < length m"
  by (induction m s xs rule: cstr.induct) (auto simp: load_Some)

lemma cstr_append: "cstr m s (xs @ ys) \<Longrightarrow> cstr m (s + length xs) ys"
  by (induction xs arbitrary: s) fastforce+

lemma cstr_take: "cstr m s xs \<Longrightarrow> take (length xs) (drop s m) = xs"
proof (induction m s xs rule: cstr.induct)
  case (2 m s x xs)
  then have "drop s m = x # drop (Suc s) m" using cstr_length [of m s "x # xs"] by (auto simp: load_Some Cons_nth_drop_Suc)
  then show ?case using 2 by simp
qed simp

lemma cstr_unique: "cstr m s xs \<Longrightarrow> cstr m s ys \<Longrightarrow> xs = ys"
proof (induction m s xs arbitrary: ys rule: cstr.induct)
  case (1 m s)
  then show ?case by (cases ys) auto
next
  case (2 m s x xs)
  then show ?case by (cases ys) auto
qed

lemma uint_pos: "x \<noteq> 0 \<Longrightarrow> 0 < uint x" for x :: u8
  using uint_ge_0 [of x] uint_0_iff [of x] by linarith

lemma fold_case_0: "fold_case 0 = 0" "y \<noteq> 0 \<Longrightarrow> fold_case y \<noteq> 0"
  using uint_pos [of y] by (auto simp: fold_case_def Let_def)

lemma strlen_loop_eq: "cstr m s xs \<Longrightarrow> strlen_loop m s = Some (s + length xs)"
  by (induction m s xs rule: cstr.induct) (subst strlen_loop.simps, simp)+

lemma rt_strlen_eq: "cstr m s xs \<Longrightarrow> rt_strlen m s = Some (length xs)"
  by (simp add: rt_strlen_def strlen_loop_eq)

lemma strnlen_loop_eq:
  "cstr m sc xs \<Longrightarrow> s \<le> sc \<Longrightarrow> sc - s \<le> maxlen \<Longrightarrow>
     strnlen_loop m s maxlen sc = Some (sc + min (length xs) (maxlen - (sc - s)))"
proof (induction m sc xs rule: cstr.induct)
  case (2 m sc x xs)
  show ?case
  proof (cases "sc - s < maxlen")
    case True
    then have "maxlen - (sc - s) = Suc (maxlen - (sc + 1 - s))" using "2.prems" by simp
    then show ?thesis using 2 True by (subst strnlen_loop.simps) simp
  next
    case False
    then show ?thesis using 2 by (subst strnlen_loop.simps) simp
  qed
qed (subst strnlen_loop.simps, simp)

text \<open>A block of \<open>maxlen\<close> bytes without a null byte at the end of the memory is overread.\<close>

lemma strnlen_loop_over:
  "length m = s + maxlen \<Longrightarrow> \<forall>i<length m. s \<le> i \<longrightarrow> m ! i \<noteq> 0 \<Longrightarrow> s \<le> sc \<Longrightarrow> strnlen_loop m s maxlen sc = None"
proof (induction "length m - sc" arbitrary: sc)
  case 0
  then show ?case by (subst strnlen_loop.simps) (simp add: load_def)
next
  case (Suc n)
  then show ?case by (subst strnlen_loop.simps) (auto simp: load_def)
qed

lemma memcmp_eq:
  assumes "a + n \<le> length m" "b + n \<le> length m"
  shows "\<exists>r. rt_memcmp m a b n = Some r \<and> (r = 0 \<longleftrightarrow> take n (drop a m) = take n (drop b m))"
  using assms
proof (induction n arbitrary: a b)
  case (Suc n)
  have d: "drop a m = m ! a # drop (a + 1) m" "drop b m = m ! b # drop (b + 1) m"
    using Suc.prems by (simp_all add: Cons_nth_drop_Suc)
  have "m ! a = m ! b \<longleftrightarrow> uint (m ! a) = uint (m ! b)" by (simp add: word_uint_eq_iff)
  then show ?case using Suc.IH [of "a + 1" "b + 1"] Suc.prems unfolding d by (auto simp: Let_def)
qed simp

lemma strcmp_eq:
  "cstr m a xs \<Longrightarrow> cstr m b ys \<Longrightarrow> \<exists>r. rt_strcmp m a b = Some r \<and> (r = 0 \<longleftrightarrow> xs = ys) \<and>
     (r < 0 \<longleftrightarrow> (xs, ys) \<in> lexord {(u, v). u < v})"
proof (induction m a xs arbitrary: b ys rule: cstr.induct)
  case (1 m a)
  then show ?case
    by (cases ys) (auto simp: rt_strcmp.simps uint_0_iff uint_pos)
next
  case (2 m a x xs)
  show ?case
  proof (cases ys)
    case Nil
    then show ?thesis using 2 by (subst rt_strcmp.simps) (auto simp: uint_0_iff)
  next
    case (Cons y ys')
    have u: "x < y \<longleftrightarrow> uint x < uint y" "x = y \<longleftrightarrow> uint x = uint y" by (simp_all add: word_less_def word_uint_eq_iff)
    show ?thesis
    proof (cases "x = y")
      case True
      then show ?thesis using 2 Cons by (subst rt_strcmp.simps) simp
    next
      case False
      then show ?thesis using 2(2-) Cons u by (subst rt_strcmp.simps) auto
    qed
  qed
qed

lemma strcasecmp_eq:
  "cstr m a xs \<Longrightarrow> cstr m b ys \<Longrightarrow> \<exists>r. rt_strcasecmp m a b = Some r \<and> (r = 0 \<longleftrightarrow> map fold_case xs = map fold_case ys)"
proof (induction m a xs arbitrary: b ys rule: cstr.induct)
  case (1 m a)
  then show ?case by (cases ys) (auto simp: rt_strcasecmp.simps fold_case_0 Let_def dest: fold_case_0(2) [THEN not_sym])
next
  case (2 m a x xs)
  show ?case
  proof (cases ys)
    case Nil
    then show ?thesis using 2 fold_case_0 by (subst rt_strcasecmp.simps) (auto simp: Let_def)
  next
    case (Cons y ys')
    then show ?thesis using 2 fold_case_0(2) by (subst rt_strcasecmp.simps) (auto simp: Let_def)
  qed
qed

definition first_match :: "u8 list \<Rightarrow> u8 list \<Rightarrow> nat \<Rightarrow> bool" where
  "first_match ys xs i \<longleftrightarrow> take (length ys) (drop i xs) = ys \<and> i + length ys \<le> length xs \<and>
     (\<forall>j<i. take (length ys) (drop j xs) \<noteq> ys)"

lemma cstr_tl: "cstr m s (x # xs) \<Longrightarrow> cstr m (s + 1) xs"
  by simp

lemma strstr_loop_eq:
  assumes "cstr m a xs" "cstr m b ys"
  shows "\<exists>r. strstr_loop m a b (int (length xs)) (int (length ys)) = Some r \<and>
    (case r of None \<Rightarrow> \<not> sublist ys xs | Some p \<Rightarrow> \<exists>i. p = a + i \<and> first_match ys xs i)"
  using assms(1)
proof (induction xs arbitrary: a)
  case Nil
  show ?case
  proof (cases ys)
    case Nil
    then show ?thesis by (subst strstr_loop.simps) (simp add: first_match_def)
  next
    case (Cons y ys')
    then show ?thesis by (subst strstr_loop.simps) simp
  qed
next
  case (Cons x xs)
  let ?n = "length ys"
  show ?case
  proof (cases "?n \<le> length (x # xs)")
    case False
    then have "\<not> sublist ys (x # xs)" using sublist_length_le by fastforce
    then show ?thesis using False by (subst strstr_loop.simps) auto
  next
    case True
    have "a + ?n \<le> length m" "b + ?n \<le> length m"
      using cstr_length [OF Cons.prems] cstr_length [OF assms(2)] True by simp_all
    from memcmp_eq [OF this] obtain r where r: "rt_memcmp m a b ?n = Some r"
      "r = 0 \<longleftrightarrow> take ?n (drop a m) = take ?n (drop b m)" by blast
    have "take ?n (drop a m) = take ?n (x # xs)"
      using cstr_take [OF Cons.prems] True by (metis min.absorb1 take_take)
    then have r0: "r = 0 \<longleftrightarrow> take ?n (x # xs) = ys" using r(2) cstr_take [OF assms(2)] by simp
    show ?thesis
    proof (cases "r = 0")
      case yes: True
      then have "first_match ys (x # xs) 0" using r0 True by (simp add: first_match_def)
      then show ?thesis using yes True r(1) by (subst strstr_loop.simps) auto
    next
      case no: False
      obtain q where q: "strstr_loop m (a + 1) b (int (length xs)) (int ?n) = Some q"
        "case q of None \<Rightarrow> \<not> sublist ys xs | Some p \<Rightarrow> \<exists>i. p = a + 1 + i \<and> first_match ys xs i"
        using Cons.IH [of "a + 1"] Cons.prems by auto
      have s: "strstr_loop m a b (int (length (x # xs))) (int ?n) = Some q"
        using True r(1) no q(1) by (subst strstr_loop.simps) simp
      have np: "\<not> prefix ys (x # xs)" using no r0 by (auto simp: prefix_def)
      have m: "first_match ys (x # xs) (Suc i)" if "first_match ys xs i" for i
        using that no r0 unfolding first_match_def by (auto simp: less_Suc_eq_0_disj)
      show ?thesis
      proof (cases q)
        case None
        then show ?thesis using s q(2) np by (simp add: sublist_Cons_right)
      next
        case (Some p)
        then show ?thesis using s q(2) m by fastforce
      qed
    qed
  qed
qed

lemma rt_strstr_eq:
  assumes "cstr m a xs" "cstr m b ys"
  shows "\<exists>r. rt_strstr m a b = Some r \<and>
    (case r of None \<Rightarrow> \<not> sublist ys xs | Some p \<Rightarrow> \<exists>i. p = a + i \<and> first_match ys xs i)"
proof (cases "ys = []")
  case True
  then show ?thesis using rt_strlen_eq [OF assms(2)] by (simp add: rt_strstr_def first_match_def)
next
  case False
  then show ?thesis using rt_strlen_eq [OF assms(2)] rt_strlen_eq [OF assms(1)] strstr_loop_eq [OF assms]
    by (simp add: rt_strstr_def)
qed

text \<open>Copying strings: the source must not be overwritten before it is read.\<close>

lemma strncpy_pad_write: "d \<le> length m \<Longrightarrow> strncpy_pad m d n = write_block m d (replicate n 0)"
proof -
  have "strncpy_pad m d n = set_bytes m d 0 n" by (induction n arbitrary: m d) simp_all
  then show "d \<le> length m \<Longrightarrow> ?thesis" using set_bytes_write by simp
qed

lemma cstr_upd: "cstr m s xs \<Longrightarrow> d < s \<or> s + length xs < d \<Longrightarrow> cstr (m[d := c]) s xs"
  by (induction m s xs rule: cstr.induct) (auto simp: load_def split: if_splits)

lemma strncpy_loop_write:
  assumes "cstr m s xs" "d + n \<le> length m" "d \<le> s \<or> s + length xs < d"
  shows "strncpy_loop m d s n = write_block m d (take n (xs @ replicate n 0))"
  using assms
proof (induction n arbitrary: m d s xs)
  case (Suc n)
  have d: "d < length m" using Suc.prems by simp
  show ?case
  proof (cases xs)
    case Nil
    have "write_block m d (0 # replicate n 0) = Option.bind (write_block m d [0]) (\<lambda>m. write_block m (d + 1) (replicate n 0))"
      using write_block_append [of d m "[0]" "replicate n 0"] d by simp
    moreover have "write_block m d [0] = Some (m[d := 0])" using d store_write [of m d 0] by simp
    moreover have "take n (replicate (Suc n) (0 :: u8)) = replicate n 0" unfolding take_replicate by simp
    then have "take n (0 # replicate n 0) = replicate n (0 :: u8)" by simp
    ultimately show ?thesis using Nil Suc.prems d by (simp add: strncpy_pad_write)
  next
    case (Cons x xs')
    have "cstr m (s + 1) xs'" using Suc.prems(1) Cons by simp
    then have "cstr (m[d := x]) (s + 1) xs'" using Suc.prems(3) Cons by (intro cstr_upd) auto
    then have "strncpy_loop (m[d := x]) (d + 1) (s + 1) n = write_block (m[d := x]) (d + 1) (take n (xs' @ replicate n 0))"
      using Suc.prems Cons by (intro Suc.IH) auto
    moreover have "take k (replicate (Suc n) 0) = take k (replicate n (0 :: u8))" if "k \<le> n" for k
      using that unfolding take_replicate by (simp add: min_def)
    then have "take (n - length xs') (0 # replicate n 0) = take (n - length xs') (replicate n (0 :: u8))" by simp
    moreover have "write_block m d (x # ys) = write_block (m[d := x]) (d + 1) ys" for ys
      using write_block_append [of d m "[x]" ys] store_write [of m d x] d by simp
    ultimately show ?thesis using Cons Suc.prems d by (simp del: replicate_Suc)
  qed
qed simp

lemma rt_strncpy_write:
  assumes "cstr m s xs" "d + n \<le> length m" "d \<le> s \<or> s + length xs < d"
  shows "rt_strncpy m d s n = write_block m d (take n (xs @ replicate n 0))"
  using strncpy_loop_write [OF assms] assms(2) by (simp add: rt_strncpy_def)

lemma rt_strcpy_write:
  assumes "cstr m s xs" "d + length xs < length m" "d \<le> s \<or> s + length xs < d"
  shows "rt_strcpy m d s = write_block m d (xs @ [0])"
  using assms
proof (induction xs arbitrary: m d s)
  case Nil
  then show ?case by (subst rt_strcpy.simps) (simp add: store_write)
next
  case (Cons x xs)
  have "cstr (m[d := x]) (s + 1) xs" using Cons.prems by (intro cstr_upd) auto
  then have "rt_strcpy (m[d := x]) (d + 1) (s + 1) = write_block (m[d := x]) (d + 1) (xs @ [0])"
    using Cons.prems by (intro Cons.IH) auto
  moreover have "write_block m d (x # ys) = write_block (m[d := x]) (d + 1) ys" for ys
    using write_block_append [of d m "[x]" ys] store_write [of m d x] Cons.prems by simp
  ultimately show ?case using Cons.prems by (subst rt_strcpy.simps) simp
qed

section \<open>Properties\<close>

text \<open>
  \<open>rt_memset\<close>, with its loops over words and blocks of four words, is a plain fill: for
  every start, alignment and length it stores \<open>count\<close> copies of the byte, or leaves the memory,
  exactly as the fill does.
\<close>

theorem rt_memset_correct:
  assumes "s \<le> length m"
  shows "rt_memset m s c count = write_block m s (replicate count (ucast c))"
  using assms by (rule rt_memset_write)

theorem rt_memset_correct_witness:
  "rt_memset (replicate 24 0) 4 0x141 19 = Some (replicate 4 0 @ replicate 19 0x41 @ [0])"
  using rt_memset_correct [of 4 "replicate 24 0" "0x141" 19] by (simp add: write_block_def)

text \<open>
  C25.  \<open>rt_memmove\<close> copies between any two blocks, overlapping or not; \<open>rt_memcpy\<close>, whose
  word loops run upwards, does so unless the destination starts inside the source block.
\<close>

theorem rt_memmove_correct:
  assumes "dst + n \<le> length m" "src + n \<le> length m"
  shows "rt_memmove m dst src n = Some (take dst m @ take n (drop src m) @ drop (dst + n) m) \<and>
     (dst \<le> src \<or> src + n \<le> dst \<longrightarrow> rt_memcpy m dst src n = rt_memmove m dst src n)"
proof -
  have "rt_memmove m dst src n = copy_cell n m dst src"
  proof (cases "src < dst \<and> dst < src + n")
    case True
    then show ?thesis using move_down_cell [OF assms] by (simp add: rt_memmove_def)
  next
    case False
    then show ?thesis using copy_bytes_cell [OF assms] by (auto simp: rt_memmove_def)
  qed
  then show ?thesis using rt_memcpy_cell [OF assms] copy_cell_some [OF assms] by simp
qed

theorem rt_memmove_correct_witness:
  "rt_memmove [1, 2, 3, 4, 5, 6] 2 0 4 = Some [1, 2, 1, 2, 3, 4] \<and>
   rt_memcpy [1, 2, 3, 4, 5, 6] 0 2 4 = Some [3, 4, 5, 6, 5, 6]"
  using rt_memmove_correct [of 2 4 "[1, 2, 3, 4, 5, 6]" 0] rt_memmove_correct [of 0 4 "[1, 2, 3, 4, 5, 6]" 2]
  by simp

text \<open>
  On stored strings \<open>rt_strlen\<close> is their length, \<open>rt_strcmp\<close> is 0 exactly for equal
  strings and negative exactly when the first is smaller in dictionary order, and
  \<open>rt_strstr\<close> returns the address of the first occurrence, or null exactly when there is none.
\<close>

theorem string_routines_correct:
  assumes "cstr m a xs" "cstr m b ys"
  shows "rt_strlen m a = Some (length xs) \<and>
    (\<exists>r. rt_strcmp m a b = Some r \<and> (r = 0 \<longleftrightarrow> xs = ys) \<and> (r < 0 \<longleftrightarrow> (xs, ys) \<in> lexord {(u, v). u < v})) \<and>
    (\<exists>r. rt_strstr m a b = Some r \<and>
       (case r of None \<Rightarrow> \<not> sublist ys xs
        | Some p \<Rightarrow> \<exists>i. p = a + i \<and> i + length ys \<le> length xs \<and> take (length ys) (drop i xs) = ys \<and>
            \<not> (\<exists>j<i. take (length ys) (drop j xs) = ys)))"
proof -
  have "\<exists>r. rt_strstr m a b = Some r \<and>
       (case r of None \<Rightarrow> \<not> sublist ys xs
        | Some p \<Rightarrow> \<exists>i. p = a + i \<and> i + length ys \<le> length xs \<and> take (length ys) (drop i xs) = ys \<and>
            \<not> (\<exists>j<i. take (length ys) (drop j xs) = ys))"
    using rt_strstr_eq [OF assms] unfolding first_match_def by (elim exE) (rule exI, auto split: option.splits)
  then show ?thesis using rt_strlen_eq [OF assms(1)] strcmp_eq [OF assms] by blast
qed

theorem string_routines_correct_witness:
  "rt_strlen [1, 2, 1, 3, 0, 1, 3, 0] 0 = Some 4 \<and>
   (\<exists>r. rt_strcmp [1, 2, 1, 3, 0, 1, 3, 0] 0 5 = Some r \<and> r < 0)"
  using string_routines_correct [of "[1, 2, 1, 3, 0, 1, 3, 0]" 0 "[1, 2, 1, 3]" 5 "[1, 3]"] by (auto simp: load_def)

text \<open>
  Two routines break their description.  \<open>rt_strnlen\<close> tests the byte before it tests the
  limit: on a block of \<open>maxlen\<close> bytes without a null byte that ends the memory it reads behind
  the block, although \<open>maxlen\<close> bytes are all it may look at.  \<open>rt_strncmp\<close> cuts the difference
  down to a \<^verbatim>\<open>signed char\<close>: where the first bytes differ by more than 127, the sign is wrong.
\<close>

theorem string_bounds_broken:
  "rt_strnlen (replicate (Suc n) 7) 0 (Suc n) = None \<and>
   rt_strncmp [200, 0, 50, 0] 0 2 1 = Some (- 106) \<and> rt_strcmp [200, 0, 50, 0] 0 2 = Some 150"
proof -
  have "strnlen_loop (replicate (Suc n) 7) 0 (Suc n) 0 = None" by (rule strnlen_loop_over) (simp_all del: replicate_Suc)
  then have "rt_strnlen (replicate (Suc n) 7) 0 (Suc n) = None" by (simp add: rt_strnlen_def)
  moreover have "rt_strncmp [200, 0, 50, 0] 0 2 1 = Some (- 106)" by code_simp
  moreover have "rt_strcmp [200, 0, 50, 0] 0 2 = Some 150" by (subst rt_strcmp.simps) (simp add: load_def)
  ultimately show ?thesis by blast
qed

end
