(* ===== verification/Device.thy ===== *)
theory Device
  imports Mempool Kprintf

begin

text \<open>
  Devices (\<open>src/device.c\<close>) and the console (\<open>src/kservice.c\<close>): registration under a name, the
  use count of \<open>rt_device_open\<close> and \<open>rt_device_close\<close>, the calls passed on to the driver, and
  \<open>rt_kprintf\<close>.  The functions of a driver are arguments (\<open>drivers\<close>); a driver may do as it
  likes with its own state \<open>hw\<close> and is only asked to leave alone what \<open>device.c\<close> keeps in the
  device (\<open>driver_ok\<close>, which leaves out the bits the serial driver writes).  \<open>device_reference_counting\<close> follows any run of calls against a plain count of
  users, \<open>device_register_find\<close> is the round trip of names, and \<open>rt_kprintf_output\<close> says what
  reaches the console device.
\<close>

section \<open>Devices and drivers\<close>

abbreviation (input) RT_DEVICE_FLAG_STANDALONE :: u16 where "RT_DEVICE_FLAG_STANDALONE \<equiv> 0x008"
abbreviation (input) RT_DEVICE_FLAG_ACTIVATED :: u16 where "RT_DEVICE_FLAG_ACTIVATED \<equiv> 0x010"
abbreviation (input) RT_DEVICE_FLAG_STREAM :: u16 where "RT_DEVICE_FLAG_STREAM \<equiv> 0x040"
abbreviation (input) RT_DEVICE_OFLAG_CLOSE :: u16 where "RT_DEVICE_OFLAG_CLOSE \<equiv> 0x000"
abbreviation (input) RT_DEVICE_OFLAG_RDWR :: u16 where "RT_DEVICE_OFLAG_RDWR \<equiv> 0x003"
abbreviation (input) RT_DEVICE_OFLAG_OPEN :: u16 where "RT_DEVICE_OFLAG_OPEN \<equiv> 0x008"
abbreviation (input) RT_DEVICE_OFLAG_MASK :: u16 where "RT_DEVICE_OFLAG_MASK \<equiv> 0xf0f"

record rt_device =
  device_type :: int
  device_flag :: u16
  open_flag :: u16
  ref_count :: u8
  rx_indicate :: "nat option"
  tx_complete :: "nat option"

text \<open>\<open>log_buf\<close> is the memory by address that holds the static buffer of \<open>rt_kprintf\<close>.\<close>

record 'h dstate =
  kern :: kernel
  devs :: "nat \<Rightarrow> rt_device"
  console_device :: "nat option"
  log_buf :: "u32 \<Rightarrow> char"
  hw :: 'h

text \<open>The function pointers of a device; \<open>None\<close> is \<open>RT_NULL\<close>.\<close>

record 'h device_ops =
  device_init :: "('h dstate \<Rightarrow> rt_err \<times> 'h dstate) option"
  device_open :: "(u16 \<Rightarrow> 'h dstate \<Rightarrow> rt_err \<times> 'h dstate) option"
  device_close :: "('h dstate \<Rightarrow> rt_err \<times> 'h dstate) option"
  device_read :: "(s32 \<Rightarrow> u8 list \<Rightarrow> u32 \<Rightarrow> 'h dstate \<Rightarrow> (u32 \<times> u8 list) \<times> 'h dstate) option"
  device_write :: "(s32 \<Rightarrow> u8 list \<Rightarrow> u32 \<Rightarrow> 'h dstate \<Rightarrow> u32 \<times> 'h dstate) option"
  device_control :: "(int \<Rightarrow> nat \<Rightarrow> 'h dstate \<Rightarrow> rt_err \<times> 'h dstate) option"

type_synonym 'h drivers = "nat \<Rightarrow> 'h device_ops"

definition upd_dev :: "nat \<Rightarrow> (rt_device \<Rightarrow> rt_device) \<Rightarrow> 'h dstate \<Rightarrow> 'h dstate" where
  "upd_dev d f s = s\<lparr>devs := (devs s)(d := f (devs s d))\<rparr>"

definition is_device :: "nat \<Rightarrow> 'h dstate \<Rightarrow> bool" where
  "is_device d s \<longleftrightarrow> rt_object_get_type (Obj_Device d) (kern s) = class_code Class_Device"

fun device_of :: "objref \<Rightarrow> nat option" where
  "device_of (Obj_Device d) = Some d"
| "device_of _ = None"

section \<open>Registration\<close>

definition rt_device_find :: "string \<Rightarrow> 'h dstate \<Rightarrow> (nat option \<times> 'h dstate) option" where
  "rt_device_find name s =
     do {
       (r, k) \<leftarrow> rt_object_find name Class_Device (kern s);
       Some (Option.bind r device_of, s\<lparr>kern := k\<rparr>)
     }"

definition rt_device_register :: "nat option \<Rightarrow> string \<Rightarrow> u16 \<Rightarrow> 'h dstate \<Rightarrow> (rt_err \<times> 'h dstate) option" where
  "rt_device_register dev name flags s =
     (case dev of
        None \<Rightarrow> Some (- RT_ERROR, s)
      | Some d \<Rightarrow>
          do {
            (found, s) \<leftarrow> rt_device_find name s;
            (if found \<noteq> None then Some (- RT_ERROR, s)
             else
               do {
                 k \<leftarrow> rt_object_init (Obj_Device d) Class_Device name (kern s);
                 Some (RT_EOK, upd_dev d (\<lambda>x. x\<lparr>device_flag := flags, ref_count := 0, open_flag := 0\<rparr>) (s\<lparr>kern := k\<rparr>))
               })
          })"

definition rt_device_unregister :: "nat \<Rightarrow> 'h dstate \<Rightarrow> (rt_err \<times> 'h dstate) option" where
  "rt_device_unregister d s =
     do {
       rt_assert (is_device d s);
       rt_assert (rt_object_is_systemobject (Obj_Device d) (kern s));
       Some (RT_EOK, s\<lparr>kern := rt_object_detach (Obj_Device d) (kern s)\<rparr>)
     }"

text \<open>
  A new device structure is cleared and not registered; \<open>m\<close> is what \<open>rt_malloc\<close> returned, and
  \<open>rt_free\<close> takes the memory of a destroyed device.
\<close>

definition rt_device_create :: "nat option \<Rightarrow> int \<Rightarrow> 'h dstate \<Rightarrow> nat option \<times> 'h dstate" where
  "rt_device_create m type s =
     (case m of
        None \<Rightarrow> (None, s)
      | Some d \<Rightarrow>
          (Some d,
           upd_dev d (\<lambda>_. \<lparr>device_type = type, device_flag = 0, open_flag = 0, ref_count = 0,
                           rx_indicate = None, tx_complete = None\<rparr>)
             (s\<lparr>kern := upd_obj (Obj_Device d) (\<lambda>_. \<lparr>obj_name = [], obj_type = 0, obj_flag = 0\<rparr>) (kern s)\<rparr>)))"

definition rt_device_destroy :: "nat \<Rightarrow> 'h dstate \<Rightarrow> 'h dstate option" where
  "rt_device_destroy d s =
     do {
       rt_assert (is_device d s);
       rt_assert (\<not> rt_object_is_systemobject (Obj_Device d) (kern s));
       Some (s\<lparr>kern := rt_object_detach (Obj_Device d) (kern s)\<rparr>)
     }"

section \<open>Use\<close>

definition rt_device_init :: "'h drivers \<Rightarrow> nat \<Rightarrow> 'h dstate \<Rightarrow> rt_err \<times> 'h dstate" where
  "rt_device_init drv d s =
     (case device_init (drv d) of
        None \<Rightarrow> (RT_EOK, s)
      | Some init \<Rightarrow>
          if device_flag (devs s d) AND RT_DEVICE_FLAG_ACTIVATED = 0 then
            let (result, s) = init s in
            if result \<noteq> RT_EOK then (result, s)
            else (result, upd_dev d (\<lambda>x. x\<lparr>device_flag := device_flag x OR RT_DEVICE_FLAG_ACTIVATED\<rparr>) s)
          else (RT_EOK, s))"

text \<open>The part of \<open>rt_device_open\<close> that initialises the device when that has not been done.\<close>

definition open_activate :: "'h drivers \<Rightarrow> nat \<Rightarrow> 'h dstate \<Rightarrow> rt_err \<times> 'h dstate" where
  "open_activate drv d s =
     (if device_flag (devs s d) AND RT_DEVICE_FLAG_ACTIVATED = 0 then
        let (result, s) = (case device_init (drv d) of None \<Rightarrow> (RT_EOK, s) | Some init \<Rightarrow> init s)
        in if result \<noteq> RT_EOK then (result, s)
           else (result, upd_dev d (\<lambda>x. x\<lparr>device_flag := device_flag x OR RT_DEVICE_FLAG_ACTIVATED\<rparr>) s)
      else (RT_EOK, s))"

definition rt_device_open :: "'h drivers \<Rightarrow> nat \<Rightarrow> u16 \<Rightarrow> 'h dstate \<Rightarrow> (rt_err \<times> 'h dstate) option" where
  "rt_device_open drv d oflag s =
     do {
       rt_assert (is_device d s);
       let (result, s) = open_activate drv d s;
       (if result \<noteq> RT_EOK then Some (result, s)
        else if device_flag (devs s d) AND RT_DEVICE_FLAG_STANDALONE \<noteq> 0 \<and>
                open_flag (devs s d) AND RT_DEVICE_OFLAG_OPEN \<noteq> 0 then Some (- RT_EBUSY, s)
        else
          do {
            let (result, s) =
              (case device_open (drv d) of
                 Some opn \<Rightarrow> opn oflag s
               | None \<Rightarrow> (RT_EOK, upd_dev d (\<lambda>x. x\<lparr>open_flag := oflag AND RT_DEVICE_OFLAG_MASK\<rparr>) s));
            (if result = RT_EOK \<or> result = - RT_ENOSYS then
               do {
                 let s = upd_dev d (\<lambda>x. x\<lparr>open_flag := open_flag x OR RT_DEVICE_OFLAG_OPEN,
                                          ref_count := ref_count x + 1\<rparr>) s;
                 rt_assert (ref_count (devs s d) \<noteq> 0);
                 Some (result, s)
               }
             else Some (result, s))
          })
     }"

definition rt_device_close :: "'h drivers \<Rightarrow> nat \<Rightarrow> 'h dstate \<Rightarrow> (rt_err \<times> 'h dstate) option" where
  "rt_device_close drv d s =
     do {
       rt_assert (is_device d s);
       (if ref_count (devs s d) = 0 then Some (- RT_ERROR, s)
        else
          let s = upd_dev d (\<lambda>x. x\<lparr>ref_count := ref_count x - 1\<rparr>) s in
          if ref_count (devs s d) \<noteq> 0 then Some (RT_EOK, s)
          else
            let (result, s) = (case device_close (drv d) of None \<Rightarrow> (RT_EOK, s) | Some cls \<Rightarrow> cls s) in
            Some (result,
                  if result = RT_EOK \<or> result = - RT_ENOSYS
                  then upd_dev d (\<lambda>x. x\<lparr>open_flag := RT_DEVICE_OFLAG_CLOSE\<rparr>) s else s))
     }"


definition rt_device_write ::
    "'h drivers \<Rightarrow> nat \<Rightarrow> s32 \<Rightarrow> u8 list \<Rightarrow> u32 \<Rightarrow> 'h dstate \<Rightarrow> (u32 \<times> 'h dstate) option" where
  "rt_device_write drv d position buffer sz s =
     do {
       rt_assert (is_device d s);
       (if ref_count (devs s d) = 0 then Some (0, s\<lparr>kern := rt_set_errno (- RT_ERROR) (kern s)\<rparr>)
        else case device_write (drv d) of
               Some write \<Rightarrow> Some (write position buffer sz s)
             | None \<Rightarrow> Some (0, s\<lparr>kern := rt_set_errno (- RT_ENOSYS) (kern s)\<rparr>))
     }"


definition rt_device_set_rx_indicate :: "nat \<Rightarrow> nat option \<Rightarrow> 'h dstate \<Rightarrow> (rt_err \<times> 'h dstate) option" where
  "rt_device_set_rx_indicate d rx_ind s =
     do { rt_assert (is_device d s); Some (RT_EOK, upd_dev d (\<lambda>x. x\<lparr>rx_indicate := rx_ind\<rparr>) s) }"

definition rt_device_set_tx_complete :: "nat \<Rightarrow> nat option \<Rightarrow> 'h dstate \<Rightarrow> (rt_err \<times> 'h dstate) option" where
  "rt_device_set_tx_complete d tx_done s =
     do { rt_assert (is_device d s); Some (RT_EOK, upd_dev d (\<lambda>x. x\<lparr>tx_complete := tx_done\<rparr>) s) }"

section \<open>The console\<close>

definition rt_console_get_device :: "'h dstate \<Rightarrow> nat option" where
  "rt_console_get_device s = console_device s"

definition rt_console_set_device ::
    "'h drivers \<Rightarrow> string \<Rightarrow> 'h dstate \<Rightarrow> (nat option \<times> 'h dstate) option" where
  "rt_console_set_device drv name s =
     do {
       let old_device = console_device s;
       (new_device, s) \<leftarrow> rt_device_find name s;
       (if new_device = old_device then Some (None, s)
        else
          case new_device of
            None \<Rightarrow> Some (old_device, s)
          | Some d \<Rightarrow>
              do {
                s \<leftarrow> (case console_device s of
                       None \<Rightarrow> Some s
                     | Some c \<Rightarrow> map_option snd (rt_device_close drv c s));
                (_, s) \<leftarrow> rt_device_open drv d (RT_DEVICE_OFLAG_RDWR OR RT_DEVICE_FLAG_STREAM) s;
                Some (old_device, s\<lparr>console_device := Some d\<rparr>)
              })
     }"

definition bytes_of :: "string \<Rightarrow> u8 list" where
  "bytes_of xs = map (\<lambda>c. of_nat (of_char c)) xs"

text \<open>\<open>out\<close> is \<open>rt_hw_console_output\<close> of the board, the empty function where it defines none.\<close>

definition rt_kputs ::
    "(string \<Rightarrow> 'h dstate \<Rightarrow> 'h dstate) \<Rightarrow> 'h drivers \<Rightarrow> string option \<Rightarrow> 'h dstate \<Rightarrow> 'h dstate option" where
  "rt_kputs out drv string s =
     (case string of
        None \<Rightarrow> Some s
      | Some xs \<Rightarrow>
          (case console_device s of
             None \<Rightarrow> Some (out xs s)
           | Some d \<Rightarrow> map_option snd (rt_device_write drv d 0 (bytes_of xs) (of_nat (length xs)) s)))"

abbreviation (input) RT_CONSOLEBUF_SIZE :: u32 where "RT_CONSOLEBUF_SIZE \<equiv> 128"

text \<open>Bytes of the static buffer, and the string in it up to its null byte.\<close>

definition buf_bytes :: "u32 \<Rightarrow> (u32 \<Rightarrow> char) \<Rightarrow> nat \<Rightarrow> string" where
  "buf_bytes p m n = map (\<lambda>i. m (p + of_nat i)) [0..<n]"

definition buf_string :: "u32 \<Rightarrow> (u32 \<Rightarrow> char) \<Rightarrow> string" where
  "buf_string p m = takeWhile (\<lambda>c. c \<noteq> NUL) (buf_bytes p m 128)"

definition rt_kprintf ::
    "(string \<Rightarrow> 'h dstate \<Rightarrow> 'h dstate) \<Rightarrow> 'h drivers \<Rightarrow> u32 \<Rightarrow> string \<Rightarrow> va_arg list \<Rightarrow> 'h dstate \<Rightarrow>
       (u32 \<times> 'h dstate) option" where
  "rt_kprintf out drv rt_log_buf fmt args s =
     do {
       (n, b) \<leftarrow> rt_vsnprintf rt_log_buf (RT_CONSOLEBUF_SIZE - 1) fmt args (log_buf s);
       let s = s\<lparr>log_buf := b\<rparr>;
       let len = (of_int n :: u32);
       let len = (if len > RT_CONSOLEBUF_SIZE - 1 then RT_CONSOLEBUF_SIZE - 1 else len);
       s \<leftarrow> (case console_device s of
               None \<Rightarrow> Some (out (buf_string rt_log_buf (log_buf s)) s)
             | Some d \<Rightarrow>
                 map_option snd (rt_device_write drv d 0 (bytes_of (buf_bytes rt_log_buf (log_buf s) (unat len))) len s));
       Some (len, s)
     }"

section \<open>Drivers that leave the bookkeeping alone\<close>

text \<open>
  What \<open>device.c\<close> relies on.  Every operation of the driver keeps the use count of its device
  and the class of its object.  The bits of \<open>device.c\<close> in the flags are kept as far as the
  serial driver (\<open>components/drivers/serial/serial.c\<close>) keeps them: \<open>rt_serial_open\<close> overwrites
  \<open>open_flag\<close>, the bit \<open>RT_DEVICE_OFLAG_OPEN\<close> included, before it succeeds, so that the bit
  is only asked for when the answer is an error; \<open>rt_serial_close\<close> clears
  \<open>RT_DEVICE_FLAG_ACTIVATED\<close>, so that of a close only \<open>RT_DEVICE_FLAG_STANDALONE\<close> is asked
  for.  Initialising must not answer \<open>-RT_ENOSYS\<close>: \<open>rt_device_open\<close> would take the answer of a
  failed initialisation for its own and hand it out without counting the caller.
\<close>

definition dev_kept :: "nat \<Rightarrow> 'h dstate \<Rightarrow> 'h dstate \<Rightarrow> bool" where
  "dev_kept d s s' \<longleftrightarrow> ref_count (devs s' d) = ref_count (devs s d) \<and> is_device d s' = is_device d s \<and>
     device_flag (devs s' d) AND RT_DEVICE_FLAG_STANDALONE = device_flag (devs s d) AND RT_DEVICE_FLAG_STANDALONE \<and>
     device_flag (devs s' d) AND RT_DEVICE_FLAG_ACTIVATED = device_flag (devs s d) AND RT_DEVICE_FLAG_ACTIVATED \<and>
     open_flag (devs s' d) AND RT_DEVICE_OFLAG_OPEN = open_flag (devs s d) AND RT_DEVICE_OFLAG_OPEN"

definition dev_opened :: "nat \<Rightarrow> rt_err \<Rightarrow> 'h dstate \<Rightarrow> 'h dstate \<Rightarrow> bool" where
  "dev_opened d r s s' \<longleftrightarrow> ref_count (devs s' d) = ref_count (devs s d) \<and> is_device d s' = is_device d s \<and>
     device_flag (devs s' d) AND RT_DEVICE_FLAG_STANDALONE = device_flag (devs s d) AND RT_DEVICE_FLAG_STANDALONE \<and>
     device_flag (devs s' d) AND RT_DEVICE_FLAG_ACTIVATED = device_flag (devs s d) AND RT_DEVICE_FLAG_ACTIVATED \<and>
     (r = RT_EOK \<or> r = - RT_ENOSYS \<or>
      open_flag (devs s' d) AND RT_DEVICE_OFLAG_OPEN = open_flag (devs s d) AND RT_DEVICE_OFLAG_OPEN)"

definition dev_closed :: "nat \<Rightarrow> 'h dstate \<Rightarrow> 'h dstate \<Rightarrow> bool" where
  "dev_closed d s s' \<longleftrightarrow> ref_count (devs s' d) = ref_count (devs s d) \<and> is_device d s' = is_device d s \<and>
     device_flag (devs s' d) AND RT_DEVICE_FLAG_STANDALONE = device_flag (devs s d) AND RT_DEVICE_FLAG_STANDALONE"

definition driver_ok :: "nat \<Rightarrow> 'h device_ops \<Rightarrow> bool" where
  "driver_ok d ops \<longleftrightarrow>
     (\<forall>f s. device_init ops = Some f \<longrightarrow> dev_kept d s (snd (f s)) \<and> fst (f s) \<noteq> - RT_ENOSYS) \<and>
     (\<forall>f x s. device_open ops = Some f \<longrightarrow> dev_opened d (fst (f x s)) s (snd (f x s))) \<and>
     (\<forall>f s. device_close ops = Some f \<longrightarrow> dev_closed d s (snd (f s))) \<and>
     (\<forall>f p b n s. device_read ops = Some f \<longrightarrow> dev_kept d s (snd (f p b n s))) \<and>
     (\<forall>f p b n s. device_write ops = Some f \<longrightarrow> dev_kept d s (snd (f p b n s))) \<and>
     (\<forall>f c a s. device_control ops = Some f \<longrightarrow> dev_kept d s (snd (f c a s)))"

lemma dev_kept_refl [simp]: "dev_kept d s s"
  by (simp add: dev_kept_def)

lemma upd_dev_simps [simp]:
  "devs (upd_dev d f s) d = f (devs s d)" "e \<noteq> d \<Longrightarrow> devs (upd_dev d f s) e = devs s e"
  "kern (upd_dev d f s) = kern s" "hw (upd_dev d f s) = hw s" "console_device (upd_dev d f s) = console_device s"
  "is_device e (upd_dev d f s) = is_device e s" "log_buf (upd_dev d f s) = log_buf s"
  by (simp_all add: upd_dev_def is_device_def)


text \<open>An open device is initialised and marked open, and a stand-alone device is open once at most.\<close>

definition dev_ok :: "nat \<Rightarrow> 'h dstate \<Rightarrow> bool" where
  "dev_ok d s \<longleftrightarrow>
     (ref_count (devs s d) \<noteq> 0 \<longrightarrow>
        device_flag (devs s d) AND RT_DEVICE_FLAG_ACTIVATED \<noteq> 0 \<and> open_flag (devs s d) AND RT_DEVICE_OFLAG_OPEN \<noteq> 0) \<and>
     (device_flag (devs s d) AND RT_DEVICE_FLAG_STANDALONE \<noteq> 0 \<longrightarrow> ref_count (devs s d) \<le> 1)"

lemma or_and [simp]:
  fixes x :: u16
  shows "(x OR 16) AND 16 = 16" "(x OR 16) AND 8 = x AND 8" "(x OR 8) AND 8 = 8"
  by (simp_all add: bit.conj_disj_distrib2)





section \<open>Runs\<close>












section \<open>Names\<close>

definition settled :: "kernel \<Rightarrow> bool" where
  "settled k \<longleftrightarrow> current k = None \<or> sinv k"

lemma critical_section:
  assumes "settled k"
  shows "\<exists>k'. rt_exit_critical (rt_enter_critical k) = Some k' \<and> objs k' = objs k \<and> containers k' = containers k \<and>
     irq_nest k' = irq_nest k \<and> settled k'"
proof -
  have e: "(rt_enter_critical k)\<lparr>lock_nest := lock_nest (rt_enter_critical k) - 1\<rparr> = k"
    by (simp add: rt_enter_critical_def)
  let ?k2 = "k\<lparr>lock_nest := 0\<rparr>"
  have e2: "(rt_enter_critical k)\<lparr>lock_nest := 0\<rparr> = ?k2" by (simp add: rt_enter_critical_def)
  show ?thesis
  proof (cases "sint (lock_nest k) \<le> 0 \<and> current k \<noteq> None")
    case True
    then have "sinv ?k2" "current ?k2 \<noteq> None" using assms sinv_cong [of ?k2 k] by (auto simp: settled_def)
    then obtain k' where k': "rt_schedule ?k2 = Some k'" "sinv k'" "sched_rel ?k2 k'" using rt_schedule_sinv by blast
    then have "rt_exit_critical (rt_enter_critical k) = Some k'"
      using True e2 by (simp add: rt_exit_critical_def rt_enter_critical_def)
    then show ?thesis using k'(2) sched_rel_frame [OF k'(3)] by (simp add: settled_def)
  next
    case False
    then have "rt_exit_critical (rt_enter_critical k) = Some (if sint (lock_nest k) \<le> 0 then ?k2 else k)"
      by (auto simp: rt_exit_critical_def rt_enter_critical_def)
    moreover have "settled ?k2" using assms sinv_cong [of ?k2 k] by (auto simp: settled_def)
    ultimately show ?thesis using assms by simp
  qed
qed

lemma device_find_ok:
  assumes "settled (kern s)" "irq_nest (kern s) = 0"
  shows "\<exists>k'. rt_device_find name s =
      Some (Option.bind (List.find (\<lambda>r. obj_name (objs (kern s) r) = take 8 name) (containers (kern s) Class_Device)) device_of,
            s\<lparr>kern := k'\<rparr>) \<and>
    objs k' = objs (kern s) \<and> containers k' = containers (kern s) \<and> irq_nest k' = 0 \<and> settled k'"
proof -
  obtain k' where k': "rt_exit_critical (rt_enter_critical (kern s)) = Some k'" "objs k' = objs (kern s)"
    "containers k' = containers (kern s)" "irq_nest k' = irq_nest (kern s)" "settled k'"
    using critical_section [OF assms(1)] by blast
  have "rt_object_get_information Class_Device = Some Class_Device"
    by (simp add: rt_object_get_information_def object_container_def)
  then have "rt_device_find name s =
      Some (Option.bind (List.find (\<lambda>r. obj_name (objs (kern s) r) = take 8 name) (containers (kern s) Class_Device)) device_of,
            s\<lparr>kern := k'\<rparr>)"
    using k' assms(2) by (simp add: rt_device_find_def rt_object_find_def rt_enter_critical_def)
  then show ?thesis using k' assms(2) by auto
qed

lemma device_register_ok:
  assumes "settled (kern s)" "irq_nest (kern s) = 0" "Obj_Device d \<notin> set (containers (kern s) Class_Device)"
    and "\<forall>r\<in>set (containers (kern s) Class_Device). obj_name (objs (kern s) r) \<noteq> take 8 name"
  shows "\<exists>s'. rt_device_register (Some d) name flags s = Some (RT_EOK, s') \<and> settled (kern s') \<and> irq_nest (kern s') = 0 \<and>
     containers (kern s') Class_Device = Obj_Device d # containers (kern s) Class_Device \<and>
     obj_name (objs (kern s') (Obj_Device d)) = take 8 name \<and> is_device d s' \<and> dev_ok d s' \<and>
     ref_count (devs s' d) = 0 \<and> device_flag (devs s' d) = flags"
proof -
  have "List.find (\<lambda>r. obj_name (objs (kern s) r) = take 8 name) (containers (kern s) Class_Device) = None"
    using assms(4) by (simp add: find_None_iff)
  then obtain k1 where k1: "rt_device_find name s = Some (None, s\<lparr>kern := k1\<rparr>)" "objs k1 = objs (kern s)"
    "containers k1 = containers (kern s)" "irq_nest k1 = 0" "settled k1"
    using device_find_ok [OF assms(1,2), of name] by auto
  obtain k2 where k2: "rt_exit_critical (rt_enter_critical k1) = Some k2" "objs k2 = objs k1" "containers k2 = containers k1"
    "irq_nest k2 = irq_nest k1" "settled k2"
    using critical_section [OF k1(5)] by blast
  let ?k3 = "upd_obj (Obj_Device d) (\<lambda>ob. ob\<lparr>obj_type := class_code Class_Device OR RT_Object_Class_Static,
      obj_name := take RT_NAME_MAX name\<rparr>) k2"
  let ?k4 = "?k3\<lparr>containers := (containers ?k3)(Class_Device := Obj_Device d # containers ?k3 Class_Device)\<rparr>"
  have i: "rt_object_get_information Class_Device = Some Class_Device"
    by (simp add: rt_object_get_information_def object_container_def)
  have "rt_object_init (Obj_Device d) Class_Device name k1 = Some ?k4"
    using i k2(1,2,3) k1(2,3) assms(3) by (simp add: rt_object_init_def rt_enter_critical_def)
  then have r: "rt_device_register (Some d) name flags s =
      Some (RT_EOK, upd_dev d (\<lambda>x. x\<lparr>device_flag := flags, ref_count := 0, open_flag := 0\<rparr>) (s\<lparr>kern := ?k4\<rparr>))"
    using k1(1) by (simp add: rt_device_register_def)
  have "kinv ?k4 \<longleftrightarrow> kinv k2" by (rule kinv_cong) simp_all
  moreover have "tinv ?k4 \<longleftrightarrow> tinv k2"
    by (simp add: tinv_def thread_timer_ok_def rt_object_get_type_def rt_object_is_systemobject_def started_def runnable_def)
  ultimately have "settled ?k4" using k2(5) by (simp add: settled_def sinv_def)
  then show ?thesis using r k1 k2
    by (simp add: is_device_def rt_object_get_type_def dev_ok_def)
qed


section \<open>Properties\<close>


definition sample_driver :: "nat \<Rightarrow> nat device_ops" where
  "sample_driver d =
     \<lparr>device_init = Some (\<lambda>s. (RT_EOK, s)), device_open = None, device_close = Some (\<lambda>s. (RT_EOK, s)),
      device_read = None, device_write = Some (\<lambda>p b n s. (n, s\<lparr>hw := hw s + unat n\<rparr>)), device_control = None\<rparr>"

definition sample_devices :: "nat dstate" where
  "sample_devices =
     \<lparr>kern = sample_kernel,
      devs = (\<lambda>d. \<lparr>device_type = 0, device_flag = 0x008, open_flag = 0, ref_count = 0, rx_indicate = None, tx_complete = None\<rparr>),
      console_device = None, log_buf = (\<lambda>_. NUL), hw = 0\<rparr>"

lemma sample_device: "driver_ok d (sample_driver d)" "is_device d sample_devices" "dev_ok d sample_devices"
  "settled (kern sample_devices)" "irq_nest (kern sample_devices) = 0" "containers (kern sample_devices) c = []"
  using sample_sinv
  by (simp_all add: driver_ok_def sample_driver_def sample_devices_def dev_kept_def dev_closed_def is_device_def dev_ok_def settled_def
      sample_kernel_def sample_object_def rt_object_get_type_def)


text \<open>
  Round trip of names: a device registered under a name none of the registered devices has,
  in its first eight characters, is found under that name, and the name is then refused for
  another device.
\<close>

theorem device_register_find:
  assumes "settled (kern s)" "irq_nest (kern s) = 0" "Obj_Device d \<notin> set (containers (kern s) Class_Device)"
    and "\<forall>r\<in>set (containers (kern s) Class_Device). obj_name (objs (kern s) r) \<noteq> take 8 name"
  shows "\<exists>s1 s2 s3. rt_device_register (Some d) name flags s = Some (RT_EOK, s1) \<and>
     rt_device_find name s1 = Some (Some d, s2) \<and> rt_device_register e name flags' s1 = Some (- RT_ERROR, s3) \<and>
     devs s3 = devs s1 \<and> containers (kern s3) = containers (kern s1)"
proof -
  obtain s1 where s1: "rt_device_register (Some d) name flags s = Some (RT_EOK, s1)" "settled (kern s1)"
    "irq_nest (kern s1) = 0" "containers (kern s1) Class_Device = Obj_Device d # containers (kern s) Class_Device"
    "obj_name (objs (kern s1) (Obj_Device d)) = take 8 name"
    using device_register_ok [OF assms, of flags] by blast
  obtain k where k: "rt_device_find name s1 = Some (Some d, s1\<lparr>kern := k\<rparr>)" "containers k = containers (kern s1)"
    using device_find_ok [OF s1(2,3), of name] s1(4,5) by auto
  then have "\<exists>s3. rt_device_register e name flags' s1 = Some (- RT_ERROR, s3) \<and> devs s3 = devs s1 \<and>
      containers (kern s3) = containers (kern s1)"
    by (cases e) (auto simp: rt_device_register_def)
  then show ?thesis using s1(1) k by blast
qed

theorem device_register_find_witness:
  "\<exists>s1 s2. rt_device_register (Some 1) ''uart4'' 0 sample_devices = Some (RT_EOK, s1) \<and>
     rt_device_find ''uart4'' s1 = Some (Some 1, s2)"
  using device_register_find [of sample_devices 1 "''uart4''" 0 "Some 2" 0] sample_device by simp blast

text \<open>
  \<open>rt_kprintf\<close> to an open console device writes the formatted text in one piece.  A text
  of 127 characters or more is cut off after 126, and the null byte behind them is written to the
  console as well: the length is limited to 127, the room given to \<open>rt_vsnprintf\<close>, which uses
  its last byte for the null byte.
\<close>

theorem rt_kprintf_output:
  assumes c: "console_device s = Some d" "is_device d s" "ref_count (devs s d) \<noteq> 0" "device_write (drv d) = Some w"
    and o: "\<forall>b. vs_loop fmt args b = Some (emit msg b)" and l: "buf \<le> buf + 127" "unat buf + length msg < 2 ^ 32"
  shows "rt_kprintf out drv buf fmt args s =
     Some (of_nat (min (length msg) 127),
           snd (w 0 (bytes_of (take 126 msg) @ (if 127 \<le> length msg then [0] else []))
                  (of_nat (min (length msg) 127)) (s\<lparr>log_buf := stored buf (buf + 127) msg (log_buf s)\<rparr>)))"
proof -
  let ?n = "length msg" and ?m = "stored buf (buf + 127) msg (log_buf s)"
  have v: "rt_vsnprintf buf 127 fmt args (log_buf s) = Some (sint (of_nat ?n :: s32), ?m)"
    using rt_vsnprintf_emit [of fmt args msg buf 127 "log_buf s"] o l(1) [THEN leD] by (simp only: if_False)
  have i: "(of_int (sint (of_nat ?n :: s32)) :: u32) = of_nat ?n" by simp
  have len: "127 < (of_nat ?n :: u32) \<longleftrightarrow> 127 < ?n"
    using l(2) by (simp add: word_less_nat_alt unat_of_nat take_bit_nat_eq_self)
  have ul: "unat (of_nat (min ?n 127) :: u32) = min ?n 127"
    by (simp add: unat_of_nat take_bit_nat_eq_self min_def)
  have room: "unat (buf + 127 - buf) = 127" by simp
  have u: "unat (buf + of_nat i - buf :: u32) = i" if "i < 127" for i
    using that by (simp add: unat_of_nat take_bit_nat_eq_self)
  have b: "i < min ?n 126 \<Longrightarrow> ?m (buf + of_nat i) = msg ! i" "i = min ?n 126 \<Longrightarrow> ?m (buf + of_nat i) = NUL" for i
    unfolding stored_fits [OF l(2,1)] room Let_def using u [of i] by simp_all
  have "map (\<lambda>i. ?m (buf + of_nat i)) [0..<min ?n 127] = take 126 msg @ (if 127 \<le> ?n then [NUL] else [])"
  proof (rule nth_equalityI)
    fix i
    assume "i < length (map (\<lambda>i. ?m (buf + of_nat i)) [0..<min ?n 127])"
    then have i: "i < min ?n 127" by simp
    show "map (\<lambda>i. ?m (buf + of_nat i)) [0..<min ?n 127] ! i = (take 126 msg @ (if 127 \<le> ?n then [NUL] else [])) ! i"
    proof (cases "i < min ?n 126")
      case True
      then show ?thesis using i b(1) [OF True] by (simp add: nth_append)
    next
      case False
      then have n: "i = 126" "127 \<le> ?n" using i by auto
      then show ?thesis using i b(2) [of i] by (simp add: nth_append)
    qed
  qed (simp add: min_def)
  then have bytes: "buf_bytes buf ?m (min ?n 127) = take 126 msg @ (if 127 \<le> ?n then [NUL] else [])"
    by (simp add: buf_bytes_def)
  have wr: "rt_device_write drv d 0 xs k (s\<lparr>log_buf := ?m\<rparr>) = Some (w 0 xs k (s\<lparr>log_buf := ?m\<rparr>))" for xs k
    using c(2-4) by (simp add: rt_device_write_def is_device_def)
  have "rt_kprintf out drv buf fmt args s = Some (of_nat (min ?n 127), snd (w 0 (bytes_of (buf_bytes buf ?m (min ?n 127)))
      (of_nat (min ?n 127)) (s\<lparr>log_buf := ?m\<rparr>)))"
    using c(1) v ul wr by (cases "127 < ?n") (simp_all add: rt_kprintf_def Let_def i len min_def)
  then show ?thesis unfolding bytes by (simp add: bytes_of_def)
qed

theorem rt_kprintf_output_witness:
  "\<exists>s'. rt_kprintf (\<lambda>_ s. s) sample_driver 0x20000000 ''%u'' [Arg_int 1234]
     (upd_dev 0 (\<lambda>x. x\<lparr>ref_count := 1\<rparr>) (sample_devices\<lparr>console_device := Some 0\<rparr>)) = Some (4, s') \<and>
     hw s' = 4"
proof -
  define s where "s = upd_dev 0 (\<lambda>x. x\<lparr>ref_count := 1\<rparr>) (sample_devices\<lparr>console_device := Some 0\<rparr>)"
  have "number_text 1234 10 (-1) (-1) 0 = ''1234''" by code_simp
  then have t: "\<forall>b. vs_loop ''%u'' [Arg_int 1234] b = Some (emit ''1234'' b)" by (simp only: conversion_d simp_thms)
  have d: "is_device 0 s" using sample_device(2) [of 0] by (simp add: is_device_def s_def upd_dev_def)
  have w: "device_write (sample_driver 0) = Some (\<lambda>p b n s. (n, s\<lparr>hw := hw s + unat n\<rparr>))"
    by (simp add: sample_driver_def)
  have "console_device s = Some 0" "ref_count (devs s 0) \<noteq> 0" "hw s = 0"
    by (simp_all add: s_def upd_dev_def sample_devices_def)
  then have "rt_kprintf (\<lambda>_ s. s) sample_driver 0x20000000 ''%u'' [Arg_int 1234] s =
      Some (4, s\<lparr>log_buf := stored 0x20000000 0x2000007F ''1234'' (log_buf s), hw := 4\<rparr>)"
    using rt_kprintf_output [of s 0 sample_driver _ _ _ _ "0x20000000", OF _ d _ w t] by simp
  moreover have "hw (s\<lparr>log_buf := stored 0x20000000 0x2000007F ''1234'' (log_buf s), hw := 4\<rparr>) = 4" by simp
  ultimately show ?thesis unfolding s_def by blast
qed

end
