(* ===== verification/Workqueue.thy ===== *)
theory Workqueue
  imports Semaphore
begin

text \<open>
  Work queues (\<^verbatim>\<open>components/drivers/ipc/workqueue.c\<close>): items of work that a thread of the queue
  runs one after the other, submitted at once or after a delay by a timer.  The loop of the thread
  is split at the call of the function of a work item: \<open>workqueue_take\<close> is the part before it,
  \<open>workqueue_done\<close> the part after it.  The functions of the items are a parameter.
  The timer embedded in item \<open>w\<close> is \<open>Timer w\<close>, and its timeout function is number \<open>w\<close>; the
  semaphore of a queue is \<open>work_sem\<close>.
\<close>

section \<open>Operations\<close>

abbreviation (input) RT_WORK_STATE_PENDING :: u16 where "RT_WORK_STATE_PENDING \<equiv> 1"
abbreviation (input) RT_WORK_STATE_SUBMITTING :: u16 where "RT_WORK_STATE_SUBMITTING \<equiv> 2"
abbreviation (input) RT_TIMER_FLAG_SOFT_TIMER :: u8 where "RT_TIMER_FLAG_SOFT_TIMER \<equiv> 4"

abbreviation wrk :: "kernel \<Rightarrow> nat \<Rightarrow> rt_work" where
  "wrk k w \<equiv> works (devipc k) w"

abbreviation wqu :: "kernel \<Rightarrow> nat \<Rightarrow> rt_workqueue" where
  "wqu k q \<equiv> workqueues (devipc k) q"

definition upd_work :: "nat \<Rightarrow> (rt_work \<Rightarrow> rt_work) \<Rightarrow> kernel \<Rightarrow> kernel" where
  "upd_work w f k = k\<lparr>devipc := (devipc k)\<lparr>works := (works (devipc k))(w := f (wrk k w))\<rparr>\<rparr>"

definition upd_wq :: "nat \<Rightarrow> (rt_workqueue \<Rightarrow> rt_workqueue) \<Rightarrow> kernel \<Rightarrow> kernel" where
  "upd_wq q f k = k\<lparr>devipc := (devipc k)\<lparr>workqueues := (workqueues (devipc k))(q := f (wqu k q))\<rparr>\<rparr>"

text \<open>\<open>rt_list_remove(&work->list)\<close>: an item that is in no list stays in none.\<close>

definition work_unlink :: "nat \<Rightarrow> kernel \<Rightarrow> kernel" where
  "work_unlink w k =
     (let k1 = upd_work w (\<lambda>x. x\<lparr>work_link := None\<rparr>) k
      in case work_link (wrk k w) of
           None \<Rightarrow> k
         | Some (Work_list q) \<Rightarrow> upd_wq q (\<lambda>x. x\<lparr>work_list := remove1 w (work_list x)\<rparr>) k1
         | Some (Delayed_list q) \<Rightarrow> upd_wq q (\<lambda>x. x\<lparr>delayed_list := remove1 w (delayed_list x)\<rparr>) k1)"

text \<open>\<open>rt_list_insert_after\<close> on the last node of a list, and on its head.\<close>

definition work_append :: "nat \<Rightarrow> nat \<Rightarrow> kernel \<Rightarrow> kernel" where
  "work_append q w k =
     upd_wq q (\<lambda>x. x\<lparr>work_list := work_list x @ [w]\<rparr>) (upd_work w (\<lambda>x. x\<lparr>work_link := Some (Work_list q)\<rparr>) k)"

definition work_prepend :: "nat \<Rightarrow> nat \<Rightarrow> kernel \<Rightarrow> kernel" where
  "work_prepend q w k =
     upd_wq q (\<lambda>x. x\<lparr>work_list := w # work_list x\<rparr>) (upd_work w (\<lambda>x. x\<lparr>work_link := Some (Work_list q)\<rparr>) k)"

definition delayed_append :: "nat \<Rightarrow> nat \<Rightarrow> kernel \<Rightarrow> kernel" where
  "delayed_append q w k =
     upd_wq q (\<lambda>x. x\<lparr>delayed_list := delayed_list x @ [w]\<rparr>)
       (upd_work w (\<lambda>x. x\<lparr>work_link := Some (Delayed_list q)\<rparr>) k)"

text \<open>Whether the thread of the queue waits for work, and what resumes it.\<close>

definition work_thread_idle :: "nat \<Rightarrow> kernel \<Rightarrow> bool" where
  "work_thread_idle q k \<longleftrightarrow>
     work_current (wqu k q) = None \<and> tstat k (work_thread (wqu k q)) = RT_THREAD_SUSPEND"

definition work_thread_wake :: "nat \<Rightarrow> kernel \<Rightarrow> kernel option" where
  "work_thread_wake q k =
     (if work_thread_idle q k
      then do { (_, k1) \<leftarrow> rt_thread_resume (work_thread (wqu k q)) k; rt_schedule k1 }
      else Some k)"

definition clear_pending :: "nat \<Rightarrow> kernel \<Rightarrow> kernel" where
  "clear_pending w k = upd_work w (\<lambda>x. x\<lparr>work_flags := work_flags x AND NOT RT_WORK_STATE_PENDING\<rparr>) k"

text \<open>
  Initialising an item that is linked in a list would leave its neighbours pointing at it; such a
  call is outside the model and answered \<open>None\<close>.
\<close>

definition rt_work_init :: "nat \<Rightarrow> nat \<Rightarrow> u32 \<Rightarrow> kernel \<Rightarrow> kernel option" where
  "rt_work_init w func data k =
     do {
       rt_assert (work_link (wrk k w) = None);
       Some (upd_work w (\<lambda>x. \<lparr>work_link = None, work_func = func, work_data = data, work_flags = 0,
                               work_type = 0, work_owner = None\<rparr>) k)
     }"

definition workqueue_submit_work :: "nat \<Rightarrow> nat \<Rightarrow> u32 \<Rightarrow> kernel \<Rightarrow> (rt_err \<times> kernel) option" where
  "workqueue_submit_work q w ticks k =
     (let k1 = clear_pending w (work_unlink w k) in
      if ticks = 0 then
        let (err, k2) =
              (if work_current (wqu k1 q) \<noteq> Some w then
                 (RT_EOK, upd_work w (\<lambda>x. x\<lparr>work_flags := work_flags x OR RT_WORK_STATE_PENDING,
                                              work_owner := Some q\<rparr>) (work_append q w k1))
               else (- RT_EBUSY, k1))
        in do { k3 \<leftarrow> work_thread_wake q k2; Some (err, k3) }
      else if ticks < RT_TICK_MAX_HALF then
        do {
          k2 \<leftarrow> (if work_flags (wrk k1 w) AND RT_WORK_STATE_SUBMITTING \<noteq> 0 then
                   do {
                     (_, k2) \<leftarrow> rt_timer_stop (Timer w) k1;
                     (_, _, k3) \<leftarrow> rt_timer_control (Timer w) (CTRL_SET_TIME ticks) k2;
                     Some k3
                   }
                 else
                   do {
                     k2 \<leftarrow> rt_timer_init (Timer w) ''work'' (User_timeout w) ticks RT_TIMER_FLAG_SOFT_TIMER k1;
                     Some (upd_work w (\<lambda>x. x\<lparr>work_flags := work_flags x OR RT_WORK_STATE_SUBMITTING\<rparr>) k2)
                   });
          let k3 = delayed_append q w (upd_work w (\<lambda>x. x\<lparr>work_owner := Some q\<rparr>) k2);
          (_, k4) \<leftarrow> rt_timer_start (Timer w) k3;
          Some (RT_EOK, k4)
        }
      else Some (- RT_ERROR, k1))"

definition workqueue_cancel_work :: "nat \<Rightarrow> nat \<Rightarrow> kernel \<Rightarrow> (rt_err \<times> kernel) option" where
  "workqueue_cancel_work q w k =
     do {
       let k1 = clear_pending w (work_unlink w k);
       k2 \<leftarrow> (if work_flags (wrk k1 w) AND RT_WORK_STATE_SUBMITTING \<noteq> 0 then
                do {
                  (_, k2) \<leftarrow> rt_timer_stop (Timer w) k1;
                  (_, k3) \<leftarrow> rt_timer_detach (Timer w) k2;
                  Some (upd_work w (\<lambda>x. x\<lparr>work_flags := work_flags x AND NOT RT_WORK_STATE_SUBMITTING\<rparr>) k3)
                }
              else Some k1);
       let err = (if work_current (wqu k2 q) \<noteq> Some w then RT_EOK else - RT_EBUSY);
       Some (err, upd_work w (\<lambda>x. x\<lparr>work_owner := None\<rparr>) k2)
     }"

definition delayed_work_timeout_handler :: "nat \<Rightarrow> kernel \<Rightarrow> kernel option" where
  "delayed_work_timeout_handler w k =
     do {
       q \<leftarrow> work_owner (wrk k w);
       (_, k1) \<leftarrow> rt_timer_detach (Timer w) k;
       let k2 = work_unlink w (upd_work w (\<lambda>x. x\<lparr>work_flags := work_flags x AND NOT RT_WORK_STATE_SUBMITTING\<rparr>) k1);
       let k3 = (if work_current (wqu k2 q) \<noteq> Some w
                 then upd_work w (\<lambda>x. x\<lparr>work_flags := work_flags x OR RT_WORK_STATE_PENDING\<rparr>) (work_append q w k2)
                 else k2);
       work_thread_wake q k3
     }"

definition rt_workqueue_dowork :: "nat \<Rightarrow> nat \<Rightarrow> kernel \<Rightarrow> (rt_err \<times> kernel) option" where
  "rt_workqueue_dowork q w k = workqueue_submit_work q w 0 k"

definition rt_workqueue_submit_work :: "nat \<Rightarrow> nat \<Rightarrow> u32 \<Rightarrow> kernel \<Rightarrow> (rt_err \<times> kernel) option" where
  "rt_workqueue_submit_work q w ticks k =
     do { rt_assert (ticks < RT_TICK_MAX_HALF); workqueue_submit_work q w ticks k }"

definition rt_workqueue_urgent_work :: "nat \<Rightarrow> nat \<Rightarrow> kernel \<Rightarrow> (rt_err \<times> kernel) option" where
  "rt_workqueue_urgent_work q w k =
     do { k1 \<leftarrow> work_thread_wake q (work_prepend q w (work_unlink w k)); Some (RT_EOK, k1) }"

definition rt_workqueue_cancel_work :: "nat \<Rightarrow> nat \<Rightarrow> kernel \<Rightarrow> (rt_err \<times> kernel) option" where
  "rt_workqueue_cancel_work q w k = workqueue_cancel_work q w k"

definition rt_workqueue_cancel_work_sync :: "nat \<Rightarrow> nat \<Rightarrow> kernel \<Rightarrow> (unit outcome \<times> kernel) option" where
  "rt_workqueue_cancel_work_sync q w k =
     (if work_current (wqu k q) = Some w then
        do {
          (oc, k1) \<leftarrow> rt_sem_take (work_sem (wqu k q)) RT_WAITING_FOREVER k;
          Some (case oc of Waits \<Rightarrow> (Waits, k1) | Returns _ _ \<Rightarrow> (Returns RT_EOK None, k1))
        }
      else do { (_, k1) \<leftarrow> workqueue_cancel_work q w k; Some (Returns RT_EOK None, k1) })"

definition rt_workqueue_cancel_work_sync_finish :: "tid \<Rightarrow> kernel \<Rightarrow> unit outcome \<times> kernel" where
  "rt_workqueue_cancel_work_sync_finish t k = (Returns RT_EOK None, snd (rt_sem_take_finish t k))"

partial_function (option) cancel_work_loop :: "(rt_workqueue \<Rightarrow> nat list) \<Rightarrow> nat \<Rightarrow> kernel \<Rightarrow> kernel option" where
  "cancel_work_loop l q k =
     (case l (wqu k q) of
        [] \<Rightarrow> Some k
      | w # _ \<Rightarrow> Option.bind (workqueue_cancel_work q w k) (\<lambda>(_, k1). cancel_work_loop l q k1))"

definition rt_workqueue_cancel_all_work :: "nat \<Rightarrow> kernel \<Rightarrow> (rt_err \<times> kernel) option" where
  "rt_workqueue_cancel_all_work q k =
     do {
       k1 \<leftarrow> cancel_work_loop work_list q (rt_enter_critical k);
       k2 \<leftarrow> cancel_work_loop delayed_list q k1;
       k3 \<leftarrow> rt_exit_critical k2;
       Some (RT_EOK, k3)
     }"

section \<open>The thread of a queue\<close>

text \<open>The loop that wakes every thread that waits for the end of the current item.\<close>

partial_function (option) work_completion_loop :: "nat \<Rightarrow> kernel \<Rightarrow> (rt_err \<times> kernel) option" where
  "work_completion_loop s k =
     Option.bind (rt_sem_trytake s k) (\<lambda>(oc, k1).
       case oc of
         Waits \<Rightarrow> None
       | Returns result _ \<Rightarrow>
           if result = - RT_ETIMEOUT then
             Option.bind (rt_sem_release s k1) (\<lambda>(_, k2). work_completion_loop s k2)
           else if result = RT_EOK then Some (RT_EOK, k1)
           else Some (- RT_ERROR, k1))"

definition workqueue_work_completion :: "nat \<Rightarrow> kernel \<Rightarrow> (rt_err \<times> kernel) option" where
  "workqueue_work_completion q k =
     do {
       (result, k1) \<leftarrow> work_completion_loop (work_sem (wqu k q)) (rt_enter_critical k);
       k2 \<leftarrow> rt_exit_critical k1;
       Some (result, k2)
     }"

definition workqueue_take :: "nat \<Rightarrow> kernel \<Rightarrow> (nat option \<times> kernel) option" where
  "workqueue_take q k =
     (case work_list (wqu k q) of
        [] \<Rightarrow>
          do {
            t \<leftarrow> rt_thread_self k;
            (_, k1) \<leftarrow> rt_thread_suspend t k;
            k2 \<leftarrow> rt_schedule (k1\<lparr>saved := (saved k1)(t := In_work_thread q)\<rparr>);
            Some (None, k2)
          }
      | w # _ \<Rightarrow>
          let k1 = upd_wq q (\<lambda>x. x\<lparr>work_current := Some w\<rparr>) (work_unlink w k)
          in Some (Some w, upd_work w (\<lambda>x. x\<lparr>work_flags := work_flags x AND NOT RT_WORK_STATE_PENDING,
                                              work_owner := None\<rparr>) k1))"

definition workqueue_done :: "nat \<Rightarrow> kernel \<Rightarrow> kernel option" where
  "workqueue_done q k =
     do {
       (_, k1) \<leftarrow> workqueue_work_completion q (upd_wq q (\<lambda>x. x\<lparr>work_current := None\<rparr>) k);
       Some k1
     }"

section \<open>Life of a queue\<close>

text \<open>The memory for the queue and its thread comes from \<open>rt_malloc\<close> and is an argument.\<close>

definition rt_workqueue_create ::
    "nat option \<Rightarrow> tid option \<Rightarrow> bool \<Rightarrow> nat \<Rightarrow> string \<Rightarrow> u8 \<Rightarrow> kernel \<Rightarrow> (nat option \<times> kernel) option" where
  "rt_workqueue_create mem tmem stack sem name priority k =
     (case mem of
        None \<Rightarrow> Some (None, k)
      | Some q \<Rightarrow>
          do {
            let k1 = upd_wq q (\<lambda>x. x\<lparr>work_list := [], delayed_list := [], work_current := None, work_sem := sem\<rparr>) k;
            (_, k2) \<leftarrow> rt_sem_init sem ''wqueue'' 0 RT_IPC_FLAG_FIFO k1;
            (th, k3) \<leftarrow> rt_thread_create tmem stack name priority 10 k2;
            (case th of
               None \<Rightarrow> Some (None, k3)
             | Some t \<Rightarrow>
                 do {
                   (_, k4) \<leftarrow> rt_thread_startup t (upd_wq q (\<lambda>x. x\<lparr>work_thread := t\<rparr>) k3);
                   Some (Some q, k4)
                 })
          })"

definition rt_workqueue_destroy :: "nat \<Rightarrow> kernel \<Rightarrow> (rt_err \<times> kernel) option" where
  "rt_workqueue_destroy q k =
     do {
       (_, k1) \<leftarrow> rt_workqueue_cancel_all_work q k;
       (_, k2) \<leftarrow> rt_thread_delete (work_thread (wqu k1 q)) k1;
       (_, k3) \<leftarrow> rt_sem_detach (work_sem (wqu k2 q)) k2;
       Some (RT_EOK, k3)
     }"

text \<open>
  The system work queue.  The static variable \<open>sys_workq\<close> is an argument: \<open>None\<close> before it is set up.
\<close>

definition rt_work_submit :: "nat option \<Rightarrow> nat \<Rightarrow> u32 \<Rightarrow> kernel \<Rightarrow> (rt_err \<times> kernel) option" where
  "rt_work_submit sys_workq w ticks k =
     do { rt_assert (sys_workq \<noteq> None); rt_workqueue_submit_work (the sys_workq) w ticks k }"

definition rt_work_urgent :: "nat option \<Rightarrow> nat \<Rightarrow> kernel \<Rightarrow> (rt_err \<times> kernel) option" where
  "rt_work_urgent sys_workq w k =
     do { rt_assert (sys_workq \<noteq> None); rt_workqueue_urgent_work (the sys_workq) w k }"

definition rt_work_cancel :: "nat option \<Rightarrow> nat \<Rightarrow> kernel \<Rightarrow> (rt_err \<times> kernel) option" where
  "rt_work_cancel sys_workq w k =
     do { rt_assert (sys_workq \<noteq> None); rt_workqueue_cancel_work (the sys_workq) w k }"

definition rt_work_sys_workqueue_init ::
    "nat option \<Rightarrow> nat option \<Rightarrow> tid option \<Rightarrow> bool \<Rightarrow> nat \<Rightarrow> kernel \<Rightarrow> (rt_err \<times> nat option \<times> kernel) option" where
  "rt_work_sys_workqueue_init sys_workq mem tmem stack sem k =
     (case sys_workq of
        Some q \<Rightarrow> Some (RT_EOK, Some q, k)
      | None \<Rightarrow>
          do {
            (q, k1) \<leftarrow> rt_workqueue_create mem tmem stack sem ''sys workq'' 23 k;
            rt_assert (q \<noteq> None);
            Some (RT_EOK, q, k1)
          })"

section \<open>Frames\<close>

lemma upd_work_simps [simp]:
  "threads (upd_work w f k) = threads k" "lists (upd_work w f k) = lists k" "objs (upd_work w f k) = objs k"
  "timers (upd_work w f k) = timers k" "containers (upd_work w f k) = containers k"
  "timer_list (upd_work w f k) = timer_list k" "fired_list (upd_work w f k) = fired_list k"
  "current (upd_work w f k) = current k" "sems (upd_work w f k) = sems k" "tick (upd_work w f k) = tick k"
  "sinv (upd_work w f k) = sinv k" "wqu (upd_work w f k) q = wqu k q"
  "wrk (upd_work w f k) v = (if v = w then f (wrk k w) else wrk k v)"
  by (simp_all add: upd_work_def)

lemma upd_wq_simps [simp]:
  "threads (upd_wq q f k) = threads k" "lists (upd_wq q f k) = lists k" "objs (upd_wq q f k) = objs k"
  "timers (upd_wq q f k) = timers k" "containers (upd_wq q f k) = containers k"
  "timer_list (upd_wq q f k) = timer_list k" "fired_list (upd_wq q f k) = fired_list k"
  "current (upd_wq q f k) = current k" "sems (upd_wq q f k) = sems k" "tick (upd_wq q f k) = tick k"
  "sinv (upd_wq q f k) = sinv k" "wrk (upd_wq q f k) w = wrk k w"
  "wqu (upd_wq q f k) p = (if p = q then f (wqu k q) else wqu k p)"
  by (simp_all add: upd_wq_def)

text \<open>
  What the operations leave alone, apart from the timers of the items in \<open>S\<close>: work items and
  queues, semaphores, headers and timers; no thread joins a line or is suspended.
\<close>

definition wframe :: "nat set \<Rightarrow> kernel \<Rightarrow> kernel \<Rightarrow> bool" where
  "wframe S k k' \<longleftrightarrow>
     devipc k' = devipc k \<and> sems k' = sems k \<and> tick k' = tick k \<and>
     (\<forall>x. (\<forall>u. x \<noteq> Obj_Timer (Thread_timer u)) \<and> (\<forall>n\<in>S. x \<noteq> Obj_Timer (Timer n)) \<longrightarrow> objs k' x = objs k x) \<and>
     (\<forall>n. n \<notin> S \<longrightarrow> timers k' (Timer n) = timers k (Timer n) \<and>
        (Timer n \<in> set (timer_list k') \<longleftrightarrow> Timer n \<in> set (timer_list k)) \<and>
        (Obj_Timer (Timer n) \<in> set (containers k' Class_Timer) \<longleftrightarrow> Obj_Timer (Timer n) \<in> set (containers k Class_Timer))) \<and>
     (distinct (containers k Class_Timer) \<longrightarrow> distinct (containers k' Class_Timer)) \<and>
     (fired_list k = [] \<longrightarrow> fired_list k' = []) \<and> (current k \<noteq> None \<longrightarrow> current k' \<noteq> None) \<and>
     (\<forall>r. set (lists k' (Suspended_on r)) \<subseteq> set (lists k (Suspended_on r))) \<and>
     (\<forall>t. tstat k t \<noteq> RT_THREAD_SUSPEND \<longrightarrow> tstat k' t \<noteq> RT_THREAD_SUSPEND)"

lemma wframe_refl [simp]: "wframe S k k"
  by (simp add: wframe_def)

lemma wframe_trans:
  assumes "wframe S k k1" "wframe S k1 k2"
  shows "wframe S k k2"
  using assms unfolding wframe_def by (elim conjE) (intro conjI allI impI; simp; blast)

lemma wframe_mono: "wframe S k k' \<Longrightarrow> S \<subseteq> S' \<Longrightarrow> wframe S' k k'"
  unfolding wframe_def by blast

lemma sched_wframe:
  assumes "sched_rel k k'" "current k' \<noteq> None"
  shows "wframe S k k'"
  using sched_rel_frame [OF assms(1)] sched_rel_lists [OF assms(1)] sched_rel_started(2) [OF assms(1)] assms(2)
  by (simp add: wframe_def)

lemma resume_timer_lists:
  assumes "rt_thread_resume t k = Some (e, k')"
  shows "(Timer n \<in> set (timer_list k') \<longleftrightarrow> Timer n \<in> set (timer_list k)) \<and> (fired_list k = [] \<longrightarrow> fired_list k' = [])"
proof (cases "tstat k t = RT_THREAD_SUSPEND")
  case False
  then show ?thesis using assms by (auto simp: rt_thread_resume_def)
next
  case True
  have l: "timer_list (list_remove t k) = timer_list k" "fired_list (list_remove t k) = fired_list k"
    by (simp_all add: list_remove_def split: option.split)
  have i: "timer_list k3 = timer_list k2 \<and> fired_list k3 = fired_list k2"
    if "rt_schedule_insert_thread t k2 = Some k3" for k2 k3
    using that by (auto simp: rt_schedule_insert_thread_def list_insert_before_def list_insert_after_def
        list_insert_at_def Let_def split: if_splits)
  have "(Timer n \<in> set (timer_list k2) \<longleftrightarrow> Timer n \<in> set (timer_list k)) \<and> (fired_list k = [] \<longrightarrow> fired_list k2 = [])"
    if "rt_timer_stop (Thread_timer t) (list_remove t k) = Some (e', k2)" for e' k2
    using that l by (auto simp: rt_timer_stop_def timer_deactivate_def timer_remove_def split: if_splits)
  moreover obtain e' k2 where "rt_timer_stop (Thread_timer t) (list_remove t k) = Some (e', k2)"
    "rt_schedule_insert_thread t k2 = Some k'"
    using assms True by (auto simp: rt_thread_resume_def Let_def bind_eq_Some_conv split: if_splits)
  ultimately show ?thesis using i by metis
qed

lemma resume_wframe:
  assumes "rt_thread_resume t k = Some (e, k')" "resume_rel t k k'"
  shows "wframe S k k'"
proof -
  note fr = resume_rel_frame [OF assms(2)]
  have "tstat k' u \<noteq> RT_THREAD_SUSPEND" if "tstat k u \<noteq> RT_THREAD_SUSPEND" for u
    using that fr(14,21) by (cases "u = t") (auto simp: runnable_def)
  moreover have "set (lists k' (Suspended_on r)) \<subseteq> set (lists k (Suspended_on r))" for r
    using fr(19) set_remove1_subset by metis
  ultimately show ?thesis using resume_timer_lists [OF assms(1)] fr(1-8,22,23) by (simp add: wframe_def)
qed

lemma wake_ok:
  assumes s: "sinv k" "current k \<noteq> None"
  shows "\<exists>k'. work_thread_wake q k = Some k' \<and> sinv k' \<and> wframe {} k k' \<and>
     (work_current (wqu k q) = None \<longrightarrow> tstat k' (work_thread (wqu k q)) \<noteq> RT_THREAD_SUSPEND)"
proof (cases "work_thread_idle q k")
  case False
  then show ?thesis using s by (auto simp: work_thread_wake_def work_thread_idle_def)
next
  case True
  let ?t = "work_thread (wqu k q)"
  have "tstat k ?t = RT_THREAD_SUSPEND" using True by (simp add: work_thread_idle_def)
  then obtain k1 where k1: "rt_thread_resume ?t k = Some (RT_EOK, k1)" "sinv k1" "resume_rel ?t k k1"
    using resume_ok [OF s(1)] by blast
  then have "current k1 \<noteq> None" using s(2) resume_rel_frame(5) by metis
  then obtain k' where k': "rt_schedule k1 = Some k'" "sinv k'" "sched_rel k1 k'" "current k' \<noteq> None"
    using rt_schedule_sinv [OF k1(2)] by blast
  have "wframe {} k k'" by (rule wframe_trans [OF resume_wframe [OF k1(1,3)] sched_wframe [OF k'(3,4)]])
  moreover have "runnable k' ?t" using resume_rel_frame(21) [OF k1(3)] k'(3) by (simp add: sched_rel_def)
  then have "tstat k' ?t \<noteq> RT_THREAD_SUSPEND" by (auto simp: runnable_def)
  ultimately show ?thesis using True k1(1) k'(1,2) by (simp add: work_thread_wake_def)
qed

section \<open>Timers of items\<close>

lemma user_timer_tinv:
  assumes "tinv k" "threads k' = threads k" "distinct (timer_list k')"
    "\<And>x. (\<forall>n. x \<noteq> Obj_Timer (Timer n)) \<Longrightarrow> objs k' x = objs k x"
    "\<And>t. timers k' (Thread_timer t) = timers k (Thread_timer t)"
    "\<And>t. Thread_timer t \<in> set (timer_list k') \<longleftrightarrow> Thread_timer t \<in> set (timer_list k)"
  shows "tinv k'"
proof -
  have "thread_timer_ok k' t \<longleftrightarrow> thread_timer_ok k t" for t
    by (simp add: thread_timer_ok_def rt_object_get_type_def rt_object_is_systemobject_def assms(4-6))
  moreover have "started k' t \<longleftrightarrow> started k t" for t by (simp add: started_def runnable_def assms(2))
  ultimately show ?thesis using assms(1-3,6) by (simp add: tinv_def)
qed

lemma timer_rel_sinv: "timer_rel k k' \<Longrightarrow> tinv k' \<Longrightarrow> sinv k \<Longrightarrow> sinv k'"
  by (simp add: sinv_def timer_rel_kinv)

text \<open>Stopping and detaching the timer of an item.\<close>

lemma user_deactivate:
  fixes w k
  defines "k' \<equiv> timer_deactivate (Timer w) k"
  assumes s: "sinv k"
  shows "sinv k'" "wframe {w} k k'" "Timer w \<notin> set (timer_list k')" "timers k' = timers k" "containers k' = containers k"
    "objs k' (Obj_Timer (Timer w)) = (objs k (Obj_Timer (Timer w)))\<lparr>obj_flag := obj_flag (objs k (Obj_Timer (Timer w))) AND NOT 1\<rparr>"
proof -
  have d: "distinct (timer_list k)" using s by (simp add: sinv_def tinv_def)
  show "sinv k'" unfolding k'_def
    using s timer_deactivate_tinv timer_rel_sinv [OF timer_deactivate_rel] by (auto simp: sinv_def)
  show "wframe {w} k k'" "Timer w \<notin> set (timer_list k')" "timers k' = timers k" "containers k' = containers k"
    "objs k' (Obj_Timer (Timer w)) = (objs k (Obj_Timer (Timer w)))\<lparr>obj_flag := obj_flag (objs k (Obj_Timer (Timer w))) AND NOT 1\<rparr>"
    using d by (auto simp: k'_def timer_deactivate_def timer_remove_def wframe_def)
qed

abbreviation (input) timer_type_ok :: "nat \<Rightarrow> kernel \<Rightarrow> bool" where
  "timer_type_ok w k \<equiv> rt_object_get_type (Obj_Timer (Timer w)) k = class_code Class_Timer"

text \<open>A timer that is registered as a one-shot timer of an item.\<close>

definition item_timer :: "nat \<Rightarrow> kernel \<Rightarrow> bool" where
  "item_timer w k \<longleftrightarrow>
     rt_object_get_type (Obj_Timer (Timer w)) k = class_code Class_Timer \<and>
     rt_object_is_systemobject (Obj_Timer (Timer w)) k \<and>
     obj_flag (objs k (Obj_Timer (Timer w))) AND RT_TIMER_FLAG_PERIODIC = 0 \<and>
     timeout_func (timers k (Timer w)) = User_timeout w \<and>
     Obj_Timer (Timer w) \<in> set (containers k Class_Timer)"

lemma item_stop_ok:
  assumes s: "sinv k" and i: "item_timer w k" and l: "Timer w \<in> set (timer_list k) \<longrightarrow> timer_active k (Timer w)"
  shows "\<exists>e k'. rt_timer_stop (Timer w) k = Some (e, k') \<and> sinv k' \<and> wframe {w} k k' \<and> item_timer w k' \<and>
     Timer w \<notin> set (timer_list k')"
proof (cases "timer_active k (Timer w)")
  case False
  then show ?thesis using s i l by (simp add: rt_timer_stop_def item_timer_def)
next
  case True
  note d = user_deactivate [OF s, of w]
  let ?k = "timer_deactivate (Timer w) k"
  have "item_timer w ?k"
    using i d(4-6) by (simp add: item_timer_def rt_object_get_type_def rt_object_is_systemobject_def)
  moreover have "rt_timer_stop (Timer w) k = Some (RT_EOK, ?k)"
    using True i by (simp add: rt_timer_stop_def item_timer_def)
  ultimately show ?thesis using d(1-3) by blast
qed

lemma item_detach_ok:
  assumes s: "sinv k" and i: "item_timer w k" and c: "distinct (containers k Class_Timer)"
  shows "\<exists>k'. rt_timer_detach (Timer w) k = Some (RT_EOK, k') \<and> sinv k' \<and> wframe {w} k k' \<and>
     Timer w \<notin> set (timer_list k') \<and> Obj_Timer (Timer w) \<notin> set (containers k' Class_Timer)"
proof -
  note d = user_deactivate [OF s, of w]
  let ?k = "rt_object_detach (Obj_Timer (Timer w)) (timer_deactivate (Timer w) k)"
  have e: "rt_timer_detach (Timer w) k = Some (RT_EOK, ?k)"
    using i by (simp add: rt_timer_detach_def item_timer_def)
  have t: "tinv ?k"
    by (rule user_timer_tinv [of "timer_deactivate (Timer w) k"])
       (use d(1) in \<open>auto simp: sinv_def tinv_def rt_object_detach_def\<close>)
  have "timer_rel k ?k" by (rule timer_detach_rel [OF e])
  then have "sinv ?k" using timer_rel_sinv t s by blast
  moreover have "wframe {w} (timer_deactivate (Timer w) k) ?k"
    by (auto simp: wframe_def rt_object_detach_def)
  ultimately show ?thesis using e d(2,3,5) c
    by (auto simp: rt_object_detach_def intro: wframe_trans)
qed

lemma item_start_ok:
  assumes s: "sinv k" and i: "item_timer w k"
  shows "\<exists>k'. rt_timer_start (Timer w) k = Some (RT_EOK, k') \<and> sinv k' \<and> wframe {w} k k' \<and> item_timer w k' \<and>
     Timer w \<in> set (timer_list k') \<and> timer_active k' (Timer w) \<and>
     timeout_tick (timers k' (Timer w)) = tick k + init_tick (timers k (Timer w))"
proof -
  define k1 where "k1 = timer_deactivate (Timer w) k"
  note d = user_deactivate [OF s, of w, folded k1_def]
  have tk: "tick k1 = tick k" by (simp add: k1_def timer_deactivate_def timer_remove_def)
  obtain p where e: "rt_timer_start (Timer w) k =
      Some (RT_EOK, k1\<lparr>timers := (timers k1)(Timer w := (timers k1 (Timer w))\<lparr>timeout_tick := tick k1 + init_tick (timers k1 (Timer w))\<rparr>),
         timer_list := insert_at p (Timer w) (timer_list k1),
         objs := (objs k1)(Obj_Timer (Timer w) := (objs k1 (Obj_Timer (Timer w)))\<lparr>obj_flag :=
             obj_flag (objs k1 (Obj_Timer (Timer w))) OR 1\<rparr>)\<rparr>)" (is "_ = Some (_, ?k2)")
    using i by (simp add: rt_timer_start_def Let_def k1_def [symmetric] item_timer_def)
  have t: "tinv ?k2"
    by (rule user_timer_tinv [of k1]) (use d(1,3) in \<open>auto simp: sinv_def tinv_def\<close>)
  have "timer_rel k ?k2" by (rule timer_start_rel [OF e])
  then have "sinv ?k2" using timer_rel_sinv t s by blast
  moreover have "wframe {w} k1 ?k2" by (auto simp: wframe_def)
  moreover have "item_timer w ?k2"
    using i d(4-6) by (simp add: item_timer_def rt_object_get_type_def rt_object_is_systemobject_def)
  ultimately show ?thesis using e d(2,4) tk by (auto intro: wframe_trans)
qed

lemma item_init_ok:
  assumes s: "sinv k" "current k \<noteq> None" and n: "Obj_Timer (Timer w) \<notin> set (containers k Class_Timer)"
    "Timer w \<notin> set (timer_list k)" "fired_list k = []" and x: "x < RT_TICK_MAX_HALF"
  shows "\<exists>k'. rt_timer_init (Timer w) name (User_timeout w) x RT_TIMER_FLAG_SOFT_TIMER k = Some k' \<and> sinv k' \<and>
     wframe {w} k k' \<and> item_timer w k' \<and> init_tick (timers k' (Timer w)) = x \<and> Timer w \<notin> set (timer_list k')"
proof -
  let ?e = "rt_enter_critical k"
  let ?r = "Obj_Timer (Timer w)"
  have "sinv ?e" "current ?e \<noteq> None" using s sinv_cong [of ?e k] by (simp_all add: rt_enter_critical_def)
  then obtain k2 m where k2: "rt_exit_critical ?e = Some k2" "sinv k2" "current k2 \<noteq> None"
      "sched_rel (?e\<lparr>lock_nest := m\<rparr>) k2"
    using exit_critical_ok by blast
  have e: "wframe {w} k (?e\<lparr>lock_nest := m\<rparr>)" by (simp add: wframe_def rt_enter_critical_def)
  note f = wframe_trans [OF e sched_wframe [OF k2(4,3)]]
  have l: "timer_list k2 = timer_list k" "fired_list k2 = []" "containers k2 = containers k"
    using sched_rel_frame [OF k2(4)] n(3) by (simp_all add: rt_enter_critical_def)
  define k3 where "k3 = upd_obj ?r (\<lambda>ob. ob\<lparr>obj_type := class_code Class_Timer OR RT_Object_Class_Static,
      obj_name := take RT_NAME_MAX name\<rparr>) k2"
  define k4 where "k4 = k3\<lparr>containers := (containers k3)(Class_Timer := ?r # containers k3 Class_Timer)\<rparr>"
  have i: "rt_object_init ?r Class_Timer name k = Some k4"
    using k2(1) l(3) n(1) by (simp add: rt_object_init_def rt_object_get_information_def object_container_def
        rt_enter_critical_def k3_def k4_def)
  define k5 where "k5 = upd_timer (Timer w) (\<lambda>_. \<lparr>timeout_func = User_timeout w, init_tick = x, timeout_tick = 0\<rparr>)
      (upd_obj ?r (\<lambda>ob. ob\<lparr>obj_flag := RT_TIMER_FLAG_SOFT_TIMER AND NOT RT_TIMER_FLAG_ACTIVATED\<rparr>) k4)"
  have "rt_timer_init (Timer w) name (User_timeout w) x RT_TIMER_FLAG_SOFT_TIMER k = Some k5"
    using i x n(2) l(1,2) by (simp add: rt_timer_init_def timer_init_def k5_def k4_def k3_def)
  moreover have "tinv k5"
    by (rule user_timer_tinv [of k2]) (use k2(2) in \<open>simp_all add: k5_def k4_def k3_def sinv_def tinv_def\<close>)
  then have "sinv k5"
    by (rule timer_rel_sinv [of k2, rotated]) (use k2(2) in \<open>simp_all add: k5_def k4_def k3_def timer_rel_def\<close>)
  moreover have "wframe {w} k2 k5" using n(1) l(3)
    by (simp add: wframe_def k5_def k4_def k3_def)
  then have "wframe {w} k k5" by (rule wframe_trans [OF f])
  moreover have "item_timer w k5" by (simp add: item_timer_def k5_def k4_def k3_def rt_object_get_type_def
        rt_object_is_systemobject_def)
  moreover have "init_tick (timers k5 (Timer w)) = x" "Timer w \<notin> set (timer_list k5)"
    using l(1) n(2) by (simp_all add: k5_def k4_def k3_def)
  ultimately show ?thesis by blast
qed

end
