(* ===== verification/Workqueue_Contract.thy ===== *)
theory Workqueue_Contract
  imports Workqueue
begin

text \<open>
  What the work queues of \<open>Workqueue\<close> promise: their invariant, the refinement of abstract queues by
  every operation and every run of them, and the end of the loops.
\<close>

section \<open>The invariant of work queues\<close>

text \<open>
  An item is in the list its node says, once; lists belong to the queues \<open>Q\<close>.
\<close>

definition works_ok :: "nat set \<Rightarrow> kernel \<Rightarrow> bool" where
  "works_ok Q k \<longleftrightarrow>
     (\<forall>q. distinct (work_list (wqu k q)) \<and> distinct (delayed_list (wqu k q))) \<and>
     (\<forall>q w. w \<in> set (work_list (wqu k q)) \<longleftrightarrow> work_link (wrk k w) = Some (Work_list q)) \<and>
     (\<forall>q w. w \<in> set (delayed_list (wqu k q)) \<longleftrightarrow> work_link (wrk k w) = Some (Delayed_list q)) \<and>
     (\<forall>q w. q \<notin> Q \<longrightarrow> work_link (wrk k w) \<noteq> Some (Work_list q) \<and> work_link (wrk k w) \<noteq> Some (Delayed_list q))"

abbreviation submitting :: "kernel \<Rightarrow> nat \<Rightarrow> bool" where
  "submitting k w \<equiv> work_flags (wrk k w) AND RT_WORK_STATE_SUBMITTING \<noteq> 0"

text \<open>A delayed item has a running timer, and the others have none.\<close>

definition timer_state_ok :: "kernel \<Rightarrow> nat \<Rightarrow> bool" where
  "timer_state_ok k w \<longleftrightarrow>
     (if submitting k w
      then item_timer w k \<and> Timer w \<in> set (timer_list k) \<and> timer_active k (Timer w) \<and>
        (\<exists>q. work_link (wrk k w) = Some (Delayed_list q) \<and> work_owner (wrk k w) = Some q)
      else Timer w \<notin> set (timer_list k) \<and> Obj_Timer (Timer w) \<notin> set (containers k Class_Timer) \<and>
        (\<forall>q. work_link (wrk k w) \<noteq> Some (Delayed_list q)))"

text \<open>
  \<open>X\<close> are the numbers of timers that belong to the application and not to an item; an item of
  such a number is in no queue.  \<open>S\<close> are items an operation is about to change.
\<close>

definition wq_core :: "nat set \<Rightarrow> nat set \<Rightarrow> nat set \<Rightarrow> kernel \<Rightarrow> bool" where
  "wq_core Q X S k \<longleftrightarrow>
     sinv k \<and> current k \<noteq> None \<and> works_ok Q k \<and> (\<forall>w. w \<notin> S \<union> X \<longrightarrow> timer_state_ok k w) \<and>
     (\<forall>w\<in>X - S. work_link (wrk k w) = None \<and> \<not> submitting k w) \<and>
     distinct (containers k Class_Timer) \<and> fired_list k = [] \<and>
     inj_on (\<lambda>q. work_thread (wqu k q)) Q \<and>
     (\<forall>q\<in>Q. is_sem (work_sem (wqu k q)) k \<and> sem_ok (work_sem (wqu k q)) k)"

text \<open>No wake-up is lost: a queue with work and no current item has a thread that is not suspended.\<close>

definition awake_at :: "kernel \<Rightarrow> nat \<Rightarrow> bool" where
  "awake_at k q \<longleftrightarrow> (work_list (wqu k q) \<noteq> [] \<and> work_current (wqu k q) = None \<longrightarrow>
     tstat k (work_thread (wqu k q)) \<noteq> RT_THREAD_SUSPEND)"

definition wq_inv :: "nat set \<Rightarrow> nat set \<Rightarrow> kernel \<Rightarrow> bool" where
  "wq_inv Q X k \<longleftrightarrow> wq_core Q X {} k \<and> (\<forall>q. awake_at k q)"

text \<open>The abstract queues: items to run, delayed items, and the item that runs.\<close>

type_synonym wq_spec = "(nat \<Rightarrow> nat list) \<times> (nat \<Rightarrow> nat list) \<times> (nat \<Rightarrow> nat option)"

definition wq_abs :: "kernel \<Rightarrow> wq_spec" where
  "wq_abs k = (\<lambda>q. work_list (wqu k q), \<lambda>q. delayed_list (wqu k q), \<lambda>q. work_current (wqu k q))"

definition drop_item :: "nat \<Rightarrow> wq_spec \<Rightarrow> wq_spec" where
  "drop_item w a = (case a of (P, D, C) \<Rightarrow> (\<lambda>q. removeAll w (P q), \<lambda>q. removeAll w (D q), C))"

definition queue_item :: "nat \<Rightarrow> nat \<Rightarrow> wq_spec \<Rightarrow> wq_spec" where
  "queue_item q w a = (case a of (P, D, C) \<Rightarrow> (P(q := P q @ [w]), D, C))"

definition delay_item :: "nat \<Rightarrow> nat \<Rightarrow> wq_spec \<Rightarrow> wq_spec" where
  "delay_item q w a = (case a of (P, D, C) \<Rightarrow> (P, D(q := D q @ [w]), C))"

definition running :: "nat \<Rightarrow> wq_spec \<Rightarrow> nat option" where
  "running q a = (case a of (P, D, C) \<Rightarrow> C q)"

lemma wq_frame:
  assumes "wframe S k k'" "sinv k'" "wq_core Q X S k"
  shows "wq_core Q X S k'" "wq_abs k' = wq_abs k" "awake_at k q \<Longrightarrow> awake_at k' q"
proof -
  have d: "devipc k' = devipc k" "sems k' = sems k" "fired_list k' = []" "current k' \<noteq> None"
    "distinct (containers k' Class_Timer)"
    using assms by (simp_all add: wframe_def wq_core_def)
  have o: "objs k' (Obj_Sem s) = objs k (Obj_Sem s)" for s using assms(1) by (simp add: wframe_def)
  have "is_sem s k' = is_sem s k" for s using o by (simp add: is_sem_def rt_object_get_type_def)
  moreover have "sem_ok s k'" if "sem_ok s k" for s
  proof -
    have "set (lists k' (Suspended_on (Obj_Sem s))) \<subseteq> set (lists k (Suspended_on (Obj_Sem s)))"
      using assms(1) by (simp add: wframe_def)
    then show ?thesis using that d(2) by (auto simp: sem_ok_def)
  qed
  moreover have "timer_state_ok k' w = timer_state_ok k w" if "w \<notin> S" for w
  proof -
    have "objs k' (Obj_Timer (Timer w)) = objs k (Obj_Timer (Timer w))" "timers k' (Timer w) = timers k (Timer w)"
      "Timer w \<in> set (timer_list k') \<longleftrightarrow> Timer w \<in> set (timer_list k)"
      "Obj_Timer (Timer w) \<in> set (containers k' Class_Timer) \<longleftrightarrow> Obj_Timer (Timer w) \<in> set (containers k Class_Timer)"
      using assms(1) that by (auto simp: wframe_def)
    then show ?thesis
      by (simp add: timer_state_ok_def item_timer_def rt_object_get_type_def rt_object_is_systemobject_def d)
  qed
  ultimately show "wq_core Q X S k'" using assms(2,3) d by (simp add: wq_core_def works_ok_def)
  show "wq_abs k' = wq_abs k" by (simp add: wq_abs_def d)
  show "awake_at k' q" if "awake_at k q" using that assms(1) d by (simp add: awake_at_def wframe_def)
qed

lemma wq_core_mono: "wq_core Q X S k \<Longrightarrow> S \<subseteq> S' \<Longrightarrow> wq_core Q X S' k"
  unfolding wq_core_def by blast

lemma wq_core_close:
  assumes "wq_core Q X {w} k" "w \<notin> X" "timer_state_ok k w"
  shows "wq_core Q X {} k"
proof -
  have "timer_state_ok k v" if "v \<notin> {} \<union> X" for v using assms that by (cases "v = w") (simp_all add: wq_core_def)
  moreover have "X - {w} = X - {}" using assms(2) by blast
  ultimately show ?thesis using assms(1) unfolding wq_core_def by simp
qed

section \<open>Moving items\<close>

text \<open>These operations change works and queues only, and not which thread or semaphore a queue has.\<close>

definition only_works :: "kernel \<Rightarrow> kernel \<Rightarrow> bool" where
  "only_works k k' \<longleftrightarrow> k' = k\<lparr>devipc := devipc k'\<rparr> \<and>
     (\<forall>q. work_thread (wqu k' q) = work_thread (wqu k q) \<and> work_sem (wqu k' q) = work_sem (wqu k q))"

lemma only_works_frame:
  assumes "only_works k k'"
  shows "threads k' = threads k" "lists k' = lists k" "objs k' = objs k" "timers k' = timers k"
    "containers k' = containers k" "timer_list k' = timer_list k" "fired_list k' = fired_list k"
    "current k' = current k" "sems k' = sems k" "tick k' = tick k" "sinv k' = sinv k"
    "work_thread (wqu k' q) = work_thread (wqu k q)" "work_sem (wqu k' q) = work_sem (wqu k q)"
proof -
  obtain d where d: "k' = k\<lparr>devipc := d\<rparr>" using assms unfolding only_works_def by blast
  show "threads k' = threads k" "lists k' = lists k" "objs k' = objs k" "timers k' = timers k"
    "containers k' = containers k" "timer_list k' = timer_list k" "fired_list k' = fired_list k"
    "current k' = current k" "sems k' = sems k" "tick k' = tick k" "sinv k' = sinv k"
    by (simp_all add: d)
  show "work_thread (wqu k' q) = work_thread (wqu k q)" "work_sem (wqu k' q) = work_sem (wqu k q)"
    using assms by (simp_all add: only_works_def)
qed

lemma only_works_refl [simp]: "only_works k k"
  by (simp add: only_works_def)

lemma only_works_trans: "only_works k k1 \<Longrightarrow> only_works k1 k2 \<Longrightarrow> only_works k k2"
proof -
  assume a: "only_works k k1" and b: "only_works k1 k2"
  obtain d where d: "k1 = k\<lparr>devipc := d\<rparr>" using a unfolding only_works_def by blast
  obtain e where e: "k2 = k1\<lparr>devipc := e\<rparr>" using b unfolding only_works_def by blast
  show ?thesis using a b unfolding only_works_def by (simp add: d e)
qed

lemma only_works_upd [simp]:
  "only_works k (upd_work w f k)"
  "(\<And>x. work_thread (g x) = work_thread x \<and> work_sem (g x) = work_sem x) \<Longrightarrow> only_works k (upd_wq q g k)"
  by (simp_all add: only_works_def) (simp_all add: upd_work_def upd_wq_def)

lemma only_works_both [simp]:
  "(\<And>x. work_thread (g x) = work_thread x \<and> work_sem (g x) = work_sem x) \<Longrightarrow> only_works k (upd_wq q g (upd_work w f k))"
  by (rule only_works_trans [of k "upd_work w f k"]) simp_all

lemma moves_only_works [simp]:
  "only_works k (work_append q w k)" "only_works k (work_prepend q w k)" "only_works k (delayed_append q w k)"
  "only_works k (clear_pending w k)" "only_works k (work_unlink w k)"
proof -
  show "only_works k (work_append q w k)" "only_works k (work_prepend q w k)" "only_works k (delayed_append q w k)"
    "only_works k (clear_pending w k)"
    unfolding work_append_def work_prepend_def delayed_append_def clear_pending_def
    by simp_all
  show "only_works k (work_unlink w k)"
    unfolding work_unlink_def Let_def
    by (simp split: option.split work_link.split)
qed

lemma core_only_works:
  assumes "only_works k k'" "wq_core Q X S k" "works_ok Q k'" "\<And>w. w \<notin> S \<Longrightarrow> wrk k' w = wrk k w"
  shows "wq_core Q X S k'"
proof -
  note f = only_works_frame [OF assms(1)]
  have "timer_state_ok k' w" if "w \<notin> S \<union> X" for w
  proof -
    have "timer_state_ok k w" using assms(2) that by (simp add: wq_core_def)
    moreover have "item_timer w k' = item_timer w k"
      by (simp add: item_timer_def rt_object_get_type_def rt_object_is_systemobject_def f)
    moreover have "wrk k' w = wrk k w" using that by (simp add: assms(4))
    ultimately show ?thesis by (simp add: timer_state_ok_def f)
  qed
  moreover have "\<forall>w\<in>X - S. work_link (wrk k' w) = None \<and> \<not> submitting k' w"
    using assms(2,4) by (simp add: wq_core_def)
  ultimately show ?thesis using assms(2,3)
    by (simp add: wq_core_def f is_sem_def sem_ok_def rt_object_get_type_def)
qed

text \<open>Taking an item out of its list.\<close>

lemma unlink_ok:
  assumes "works_ok Q k"
  shows "works_ok Q (work_unlink w k)" "wq_abs (work_unlink w k) = drop_item w (wq_abs k)"
    "wrk (work_unlink w k) v = (if v = w then (wrk k w)\<lparr>work_link := None\<rparr> else wrk k v)"
proof -
  have d: "distinct (work_list (wqu k q))" "distinct (delayed_list (wqu k q))" for q
    using assms by (simp_all add: works_ok_def)
  have m: "w \<in> set (work_list (wqu k q)) \<longleftrightarrow> work_link (wrk k w) = Some (Work_list q)"
    "w \<in> set (delayed_list (wqu k q)) \<longleftrightarrow> work_link (wrk k w) = Some (Delayed_list q)" for q
    using assms by (simp_all add: works_ok_def)
  have v: "wrk (work_unlink w k) v = (if v = w then (wrk k w)\<lparr>work_link := None\<rparr> else wrk k v)" for v
    by (cases "wrk k w") (simp add: work_unlink_def Let_def split: option.split work_link.split)
  then show "wrk (work_unlink w k) v = (if v = w then (wrk k w)\<lparr>work_link := None\<rparr> else wrk k v)" .
  have l: "work_list (wqu (work_unlink w k) q) = removeAll w (work_list (wqu k q))"
    "delayed_list (wqu (work_unlink w k) q) = removeAll w (delayed_list (wqu k q))"
    "work_current (wqu (work_unlink w k) q) = work_current (wqu k q)" for q
    using d m by (auto simp: work_unlink_def Let_def distinct_remove1_removeAll split: option.split work_link.split)
  then show "wq_abs (work_unlink w k) = drop_item w (wq_abs k)" by (simp add: wq_abs_def drop_item_def)
  show "works_ok Q (work_unlink w k)" using assms l v by (auto simp: works_ok_def distinct_removeAll)
qed

lemma append_ok:
  assumes "works_ok Q k" "work_link (wrk k w) = None" "q \<in> Q"
  shows "works_ok Q (work_append q w k)" "wq_abs (work_append q w k) = queue_item q w (wq_abs k)"
    "works_ok Q (delayed_append q w k)" "wq_abs (delayed_append q w k) = delay_item q w (wq_abs k)"
    "works_ok Q (work_prepend q w k)"
proof -
  have m: "w \<notin> set (work_list (wqu k p))" "w \<notin> set (delayed_list (wqu k p))" for p
    using assms(1,2) by (simp_all add: works_ok_def)
  show "works_ok Q (work_append q w k)" "works_ok Q (delayed_append q w k)" "works_ok Q (work_prepend q w k)"
    using assms m by (auto simp: works_ok_def work_append_def delayed_append_def work_prepend_def)
  show "wq_abs (work_append q w k) = queue_item q w (wq_abs k)" "wq_abs (delayed_append q w k) = delay_item q w (wq_abs k)"
    by (auto simp: wq_abs_def work_append_def delayed_append_def queue_item_def delay_item_def fun_eq_iff)
qed

section \<open>Submitting and cancelling\<close>

lemma state_bits [simp]:
  "(f AND -2 :: u16) AND 2 = f AND 2" "(f OR 1 :: u16) AND 2 = f AND 2" "(f OR 2 :: u16) AND 2 = 2"
  "(f AND -3 :: u16) AND 2 = 0"
  by (simp_all add: and.assoc bit.conj_disj_distrib2)

lemma awake_less:
  assumes "only_works k k'" "awake_at k q" "work_current (wqu k' q) = work_current (wqu k q)"
    "work_list (wqu k q) = [] \<Longrightarrow> work_list (wqu k' q) = []"
  shows "awake_at k' q"
  using assms only_works_frame(1,12) [OF assms(1)] by (auto simp: awake_at_def)

lemma wq_absD:
  assumes "wq_abs k' = (P, D, C)"
  shows "work_list (wqu k' q) = P q" "delayed_list (wqu k' q) = D q" "work_current (wqu k' q) = C q"
  using assms by (auto simp: wq_abs_def)

lemma drop_absD:
  assumes "wq_abs k' = drop_item w (wq_abs k)"
  shows "work_list (wqu k' q) = removeAll w (work_list (wqu k q))" "work_current (wqu k' q) = work_current (wqu k q)"
    "delayed_list (wqu k' q) = removeAll w (delayed_list (wqu k q))"
  using assms by (auto simp: wq_abs_def drop_item_def dest: fun_cong)

text \<open>The first step of every operation: the item leaves its list and is not pending any more.\<close>

lemma taken_out:
  fixes w k
  defines "k' \<equiv> clear_pending w (work_unlink w k)"
  assumes "wq_inv Q X k"
  shows "wq_core Q X {w} k'" "wq_abs k' = drop_item w (wq_abs k)" "only_works k k'" "awake_at k' q"
    "wrk k' w = (wrk k w)\<lparr>work_link := None, work_flags := work_flags (wrk k w) AND NOT 1\<rparr>"
proof -
  have c: "wq_core Q X {w} k" using assms(2) wq_core_mono unfolding wq_inv_def by blast
  then have w: "works_ok Q k" by (simp add: wq_core_def)
  note u = unlink_ok [OF w, where w = w]
  show o: "only_works k k'" unfolding k'_def by (rule only_works_trans [of k "work_unlink w k"]) simp_all
  have "wrk k' v = wrk k v" if "v \<noteq> w" for v using that by (simp add: k'_def clear_pending_def u(3))
  moreover have lk: "work_link (wrk k' v) = work_link (wrk (work_unlink w k) v)" "wqu k' p = wqu (work_unlink w k) p" for v p
    by (simp_all add: k'_def clear_pending_def)
  have "works_ok Q k'" using u(1) unfolding works_ok_def lk .
  ultimately show "wq_core Q X {w} k'" using core_only_works [OF o c] by blast
  show a: "wq_abs k' = drop_item w (wq_abs k)" using u(2) by (simp add: k'_def clear_pending_def wq_abs_def)
  show "awake_at k' q"
    by (rule awake_less [OF o]) (use assms(2) drop_absD [OF a] in \<open>auto simp: wq_inv_def\<close>)
  show "wrk k' w = (wrk k w)\<lparr>work_link := None, work_flags := work_flags (wrk k w) AND NOT 1\<rparr>"
    by (simp add: k'_def clear_pending_def u(3))
qed

lemma wq_coreD:
  assumes "wq_core Q X S k"
  shows "sinv k" "current k \<noteq> None" "works_ok Q k" "distinct (containers k Class_Timer)" "fired_list k = []"
    "w \<notin> S \<Longrightarrow> w \<notin> X \<Longrightarrow> timer_state_ok k w" "w \<in> X \<Longrightarrow> w \<notin> S \<Longrightarrow> work_link (wrk k w) = None \<and> \<not> submitting k w"
  using assms by (simp_all add: wq_core_def)

text \<open>Waking the thread of a queue restores the invariant.\<close>

lemma wake_inv:
  assumes "wq_core Q X {} k" "\<And>p. p \<noteq> q \<Longrightarrow> awake_at k p"
  shows "\<exists>k'. work_thread_wake q k = Some k' \<and> wq_inv Q X k' \<and> wq_abs k' = wq_abs k \<and> wframe {} k k'"
proof -
  obtain k' where k': "work_thread_wake q k = Some k'" "sinv k'" "wframe {} k k'"
    "work_current (wqu k q) = None \<longrightarrow> tstat k' (work_thread (wqu k q)) \<noteq> RT_THREAD_SUSPEND"
    using wake_ok wq_coreD(1,2) [OF assms(1)] by blast
  note f = wq_frame [OF k'(3,2) assms(1)]
  have "wqu k' q = wqu k q" using k'(3) by (simp add: wframe_def)
  then have "awake_at k' q" using k'(4) by (simp add: awake_at_def)
  then have "awake_at k' p" for p using f(3) assms(2) by (cases "p = q") auto
  then show ?thesis using f(1,2) k'(1,3) by (auto simp: wq_inv_def)
qed

lemma core_set_item:
  assumes "wq_core Q X {w} k" "\<And>x. work_link (f x) = work_link x"
  shows "wq_core Q X {w} (upd_work w f k)" "wq_abs (upd_work w f k) = wq_abs k"
    "awake_at (upd_work w f k) q = awake_at k q"
proof -
  show "wq_abs (upd_work w f k) = wq_abs k" by (simp add: wq_abs_def)
  show "awake_at (upd_work w f k) q = awake_at k q" by (simp add: awake_at_def)
  have "works_ok Q (upd_work w f k)" using assms by (simp add: wq_core_def works_ok_def)
  then show "wq_core Q X {w} (upd_work w f k)" by (intro core_only_works [OF _ assms(1)]) simp_all
qed

lemma core_append:
  assumes c: "wq_core Q X {w} k" and l: "work_link (wrk k w) = None" and q: "q \<in> Q"
  shows "wq_core Q X {w} (work_append q w k)" "wq_core Q X {w} (delayed_append q w k)" "wq_core Q X {w} (work_prepend q w k)"
    "p \<noteq> q \<Longrightarrow> awake_at k p \<Longrightarrow> awake_at (work_append q w k) p"
    "p \<noteq> q \<Longrightarrow> awake_at k p \<Longrightarrow> awake_at (work_prepend q w k) p"
    "awake_at (delayed_append q w k) p = awake_at k p"
proof -
  note a = append_ok [OF wq_coreD(3) [OF c] l q]
  show "wq_core Q X {w} (work_append q w k)" "wq_core Q X {w} (delayed_append q w k)" "wq_core Q X {w} (work_prepend q w k)"
    by (rule core_only_works [OF _ c]; use a in \<open>simp add: work_append_def delayed_append_def work_prepend_def\<close>)+
  show "p \<noteq> q \<Longrightarrow> awake_at k p \<Longrightarrow> awake_at (work_append q w k) p"
    "p \<noteq> q \<Longrightarrow> awake_at k p \<Longrightarrow> awake_at (work_prepend q w k) p"
    "awake_at (delayed_append q w k) p = awake_at k p"
    by (auto simp: awake_at_def work_append_def work_prepend_def delayed_append_def)
qed

definition submit_spec :: "nat \<Rightarrow> nat \<Rightarrow> bool \<Rightarrow> wq_spec \<Rightarrow> rt_err \<times> wq_spec" where
  "submit_spec q w delayed a =
     (if delayed then (RT_EOK, delay_item q w (drop_item w a))
      else if running q a = Some w then (- RT_EBUSY, drop_item w a)
      else (RT_EOK, queue_item q w (drop_item w a)))"

lemma submit_now_ok:
  assumes i: "wq_inv Q X k" and q: "q \<in> Q" and ns: "\<not> submitting k w" and nx: "w \<notin> X"
  shows "\<exists>e k'. workqueue_submit_work q w 0 k = Some (e, k') \<and> wq_inv Q X k' \<and>
     (e, wq_abs k') = submit_spec q w False (wq_abs k) \<and> \<not> submitting k' w"
proof -
  define k1 where "k1 = clear_pending w (work_unlink w k)"
  note t = taken_out [OF i, where w = w, folded k1_def]
  have run: "running q (wq_abs k) = work_current (wqu k1 q)" using drop_absD [OF t(2)] by (simp add: running_def wq_abs_def)
  have tm: "timer_state_ok k w" using i nx by (simp add: wq_inv_def wq_core_def)
  note fr = only_works_frame [OF t(3)]
  show ?thesis
  proof (cases "work_current (wqu k1 q) = Some w")
    case True
    have "timer_state_ok k1 w" using tm ns by (simp add: timer_state_ok_def t(5) fr)
    then have c: "wq_core Q X {} k1" using wq_core_close [OF t(1) nx] by blast
    have "\<not> work_thread_idle q k1" using True by (simp add: work_thread_idle_def)
    then have "workqueue_submit_work q w 0 k = Some (- RT_EBUSY, k1)"
      using True by (simp add: workqueue_submit_work_def work_thread_wake_def Let_def k1_def [symmetric])
    moreover have "\<not> submitting k1 w" using ns by (simp add: t(5))
    ultimately show ?thesis using c t(2,4) True run by (auto simp: wq_inv_def submit_spec_def)
  next
    case False
    let ?f = "\<lambda>x. x\<lparr>work_flags := work_flags x OR RT_WORK_STATE_PENDING, work_owner := Some q\<rparr>"
    let ?k2 = "upd_work w ?f (work_append q w k1)"
    have l: "work_link (wrk k1 w) = None" by (simp add: t(5))
    note a = core_append [OF t(1) l q]
    note s = core_set_item [OF a(1), where f = ?f, simplified]
    have ns2: "\<not> submitting ?k2 w" using ns by (simp add: t(5) work_append_def)
    then have "timer_state_ok ?k2 w" using tm ns by (simp add: timer_state_ok_def work_append_def fr)
    then have c: "wq_core Q X {} ?k2" using wq_core_close [OF s(1) nx] by blast
    obtain k' where k': "work_thread_wake q ?k2 = Some k'" "wq_inv Q X k'" "wq_abs k' = wq_abs ?k2" "wframe {} ?k2 k'"
      using wake_inv [OF c, of q] a(4) t(4) by (auto simp: awake_at_def)
    have "workqueue_submit_work q w 0 k = Some (RT_EOK, k')"
      using False k'(1) by (simp add: workqueue_submit_work_def Let_def k1_def [symmetric])
    moreover have "wq_abs ?k2 = queue_item q w (drop_item w (wq_abs k))"
      using s(2) append_ok(2) [OF wq_coreD(3) [OF t(1)] l q] t(2) by simp
    moreover have "\<not> submitting k' w" using ns2 k'(4) by (simp add: wframe_def)
    ultimately show ?thesis using k'(2,3) False run by (auto simp: submit_spec_def)
  qed
qed

lemma only_works_item_timer:
  assumes "only_works k k'"
  shows "item_timer w k' = item_timer w k"
  by (simp add: item_timer_def rt_object_get_type_def rt_object_is_systemobject_def only_works_frame [OF assms])

text \<open>Preparing the timer of a delayed item: an old one is stopped, or a new one initialised.\<close>

lemma prepare_timer_ok:
  assumes c: "wq_core Q X {w} k" and t: "timer_state_ok k0 w" and f: "only_works k0 k" "submitting k w = submitting k0 w"
    and x: "x < RT_TICK_MAX_HALF"
  shows "\<exists>k'. (if submitting k w then
                 do { (_, k2) \<leftarrow> rt_timer_stop (Timer w) k;
                      (_, _, k3) \<leftarrow> rt_timer_control (Timer w) (CTRL_SET_TIME x) k2; Some k3 }
               else
                 do { k2 \<leftarrow> rt_timer_init (Timer w) ''work'' (User_timeout w) x RT_TIMER_FLAG_SOFT_TIMER k;
                      Some (upd_work w (\<lambda>x. x\<lparr>work_flags := work_flags x OR RT_WORK_STATE_SUBMITTING\<rparr>) k2) }) = Some k' \<and>
     wq_core Q X {w} k' \<and> wq_abs k' = wq_abs k \<and> (\<forall>q. awake_at k q \<longrightarrow> awake_at k' q) \<and> item_timer w k' \<and>
     init_tick (timers k' (Timer w)) = x \<and> submitting k' w \<and> work_link (wrk k' w) = work_link (wrk k w) \<and>
     (\<forall>v. v \<noteq> w \<longrightarrow> wrk k' v = wrk k v) \<and> tick k' = tick k"
proof (cases "submitting k w")
  case True
  then have i: "item_timer w k" "timer_active k (Timer w)"
    using t f(2) only_works_item_timer [OF f(1)] by (simp_all add: timer_state_ok_def only_works_frame [OF f(1)])
  obtain e k2 where k2: "rt_timer_stop (Timer w) k = Some (e, k2)" "sinv k2" "wframe {w} k k2" "item_timer w k2"
    using item_stop_ok [OF wq_coreD(1) [OF c] i(1)] i(2) by blast
  let ?k3 = "upd_timer (Timer w) (\<lambda>t. t\<lparr>init_tick := x\<rparr>) k2"
  have r: "rt_timer_control (Timer w) (CTRL_SET_TIME x) k2 = Some (RT_EOK, None, ?k3)"
    using k2(4) x by (simp add: rt_timer_control_def item_timer_def)
  have "tinv ?k3" by (rule user_timer_tinv [of k2]) (use k2(2) in \<open>simp_all add: sinv_def tinv_def\<close>)
  then have s3: "sinv ?k3" using timer_rel_sinv [OF timer_control_rel [OF r]] k2(2) by blast
  have "wframe {w} k2 ?k3" by (simp add: wframe_def)
  then have fr: "wframe {w} k ?k3" using wframe_trans [OF k2(3)] by blast
  have "item_timer w ?k3"
    using k2(4) by (simp add: item_timer_def rt_object_get_type_def rt_object_is_systemobject_def)
  then show ?thesis using True k2(1) r wq_frame [OF fr s3 c] fr
    by (simp add: wframe_def)
next
  case False
  have n: "Timer w \<notin> set (timer_list k)" "Obj_Timer (Timer w) \<notin> set (containers k Class_Timer)"
    using t False f(2) by (simp_all add: timer_state_ok_def only_works_frame [OF f(1)])
  obtain k2 where k2: "rt_timer_init (Timer w) ''work'' (User_timeout w) x RT_TIMER_FLAG_SOFT_TIMER k = Some k2"
    "sinv k2" "wframe {w} k k2" "item_timer w k2" "init_tick (timers k2 (Timer w)) = x"
    using item_init_ok [OF wq_coreD(1,2) [OF c] n(2,1) wq_coreD(5) [OF c] x, of "''work''"] by blast
  note c2 = wq_frame [OF k2(3,2) c]
  let ?f = "\<lambda>x. x\<lparr>work_flags := work_flags x OR RT_WORK_STATE_SUBMITTING\<rparr>"
  note s = core_set_item [OF c2(1), where f = ?f, simplified]
  have "item_timer w (upd_work w ?f k2)" using k2(4) only_works_item_timer [OF only_works_upd(1)] by blast
  moreover have "(work_flags (wrk k2 w) OR 2) AND 2 \<noteq> 0" by simp
  ultimately show ?thesis using False k2(1,3,5) s c2(2,3) by (simp add: wframe_def)
qed

lemma submit_delayed_ok:
  assumes i: "wq_inv Q X k" and q: "q \<in> Q" and x: "ticks \<noteq> 0" "ticks < RT_TICK_MAX_HALF" and nx: "w \<notin> X"
  shows "\<exists>k'. workqueue_submit_work q w ticks k = Some (RT_EOK, k') \<and> wq_inv Q X k' \<and>
     (RT_EOK, wq_abs k') = submit_spec q w True (wq_abs k) \<and> submitting k' w \<and>
     timeout_tick (timers k' (Timer w)) = tick k + ticks"
proof -
  define k1 where "k1 = clear_pending w (work_unlink w k)"
  note t = taken_out [OF i, where w = w, folded k1_def]
  have tm: "timer_state_ok k w" using i nx by (simp add: wq_inv_def wq_core_def)
  have "submitting k1 w = submitting k w" by (simp add: t(5))
  from prepare_timer_ok [OF t(1) tm t(3) this x(2)] obtain k2 where k2:
    "(if submitting k1 w then
        do { (_, k2) \<leftarrow> rt_timer_stop (Timer w) k1;
             (_, _, k3) \<leftarrow> rt_timer_control (Timer w) (CTRL_SET_TIME ticks) k2; Some k3 }
      else
        do { k2 \<leftarrow> rt_timer_init (Timer w) ''work'' (User_timeout w) ticks RT_TIMER_FLAG_SOFT_TIMER k1;
             Some (upd_work w (\<lambda>x. x\<lparr>work_flags := work_flags x OR RT_WORK_STATE_SUBMITTING\<rparr>) k2) }) = Some k2"
    "wq_core Q X {w} k2" "wq_abs k2 = wq_abs k1" "\<forall>q. awake_at k1 q \<longrightarrow> awake_at k2 q" "item_timer w k2"
    "init_tick (timers k2 (Timer w)) = ticks" "submitting k2 w" "work_link (wrk k2 w) = work_link (wrk k1 w)"
    "tick k2 = tick k1" by blast
  let ?k2 = "upd_work w (\<lambda>x. x\<lparr>work_owner := Some q\<rparr>) k2"
  let ?k3 = "delayed_append q w ?k2"
  note s = core_set_item [OF k2(2), where f = "\<lambda>x. x\<lparr>work_owner := Some q\<rparr>", simplified]
  have l: "work_link (wrk ?k2 w) = None" using k2(8) by (simp add: t(5))
  note a = core_append [OF s(1) l q]
  have "only_works k2 ?k3" by (rule only_works_trans [of k2 ?k2]) simp_all
  note fr = only_works_frame [OF this] only_works_item_timer [OF this]
  have i3: "item_timer w ?k3" using k2(5) fr by simp
  obtain k4 where k4: "rt_timer_start (Timer w) ?k3 = Some (RT_EOK, k4)" "sinv k4" "wframe {w} ?k3 k4"
    "item_timer w k4" "Timer w \<in> set (timer_list k4)" "timer_active k4 (Timer w)"
    "timeout_tick (timers k4 (Timer w)) = tick ?k3 + init_tick (timers ?k3 (Timer w))"
    using item_start_ok [OF wq_coreD(1) [OF a(2)] i3] by blast
  note c4 = wq_frame [OF k4(3,2) a(2)]
  have w4: "wrk k4 w = wrk ?k3 w" using k4(3) by (simp add: wframe_def)
  have "timer_state_ok k4 w" using k4(4-6) k2(7) by (simp add: timer_state_ok_def w4) (simp add: delayed_append_def)
  then have "wq_core Q X {} k4" using wq_core_close [OF c4(1) nx] by blast
  moreover have "awake_at k4 p" for p using c4(3) a(6) s(3) k2(4) t(4) by blast
  moreover have "wq_abs k4 = delay_item q w (drop_item w (wq_abs k))"
    using c4(2) append_ok(4) [OF wq_coreD(3) [OF s(1)] l q] s(2) k2(3) t(2) by simp
  moreover have "workqueue_submit_work q w ticks k = Some (RT_EOK, k4)"
    using x k2(1) k4(1) unfolding workqueue_submit_work_def k1_def [symmetric] Let_def by simp
  moreover have "submitting k4 w" using k2(7) by (simp add: w4 delayed_append_def)
  moreover have "timeout_tick (timers k4 (Timer w)) = tick k + ticks"
    using k4(7) k2(6,9) only_works_frame(10) [OF t(3)] fr(4,10) by simp
  ultimately show ?thesis by (auto simp: wq_inv_def submit_spec_def)
qed

lemma urgent_ok:
  assumes i: "wq_inv Q X k" and q: "q \<in> Q" and ns: "\<not> submitting k w" and nx: "w \<notin> X"
  shows "\<exists>k'. rt_workqueue_urgent_work q w k = Some (RT_EOK, k') \<and> wq_inv Q X k' \<and>
     wq_abs k' = (case drop_item w (wq_abs k) of (P, D, C) \<Rightarrow> (P(q := w # P q), D, C)) \<and> \<not> submitting k' w"
proof -
  have c: "wq_core Q X {w} k" using i wq_core_mono unfolding wq_inv_def by blast
  note u = unlink_ok [OF wq_coreD(3) [OF c], where w = w]
  let ?k1 = "work_unlink w k" and ?k2 = "work_prepend q w (work_unlink w k)"
  have c1: "wq_core Q X {w} ?k1" by (rule core_only_works [OF _ c]) (simp_all add: u)
  have l: "work_link (wrk ?k1 w) = None" by (simp add: u(3))
  note a = core_append [OF c1 l q]
  have ow: "only_works k ?k2" by (rule only_works_trans [of k ?k1]) simp_all
  have tm: "timer_state_ok k w" using i nx by (simp add: wq_inv_def wq_core_def)
  have "timer_state_ok ?k2 w" using tm ns by (simp add: timer_state_ok_def work_prepend_def u(3) only_works_frame [OF moves_only_works(5)])
  then have c2: "wq_core Q X {} ?k2" using wq_core_close [OF a(3) nx] by blast
  have "awake_at ?k1 p" for p
    by (rule awake_less [of k]) (use i drop_absD [OF u(2)] in \<open>auto simp: wq_inv_def\<close>)
  then obtain k' where k': "work_thread_wake q ?k2 = Some k'" "wq_inv Q X k'" "wq_abs k' = wq_abs ?k2" "wframe {} ?k2 k'"
    using wake_inv [OF c2, of q] a(5) by blast
  have "wq_abs ?k2 = (case wq_abs ?k1 of (P, D, C) \<Rightarrow> (P(q := w # P q), D, C))"
    by (auto simp: wq_abs_def work_prepend_def)
  moreover have "\<not> submitting k' w" using ns k'(4) by (simp add: wframe_def work_prepend_def u(3))
  ultimately show ?thesis using k'(1-3) u(2) by (simp add: rt_workqueue_urgent_work_def)
qed

lemma cancel_ok:
  assumes i: "wq_inv Q X k" and nx: "w \<notin> X"
  shows "\<exists>k'. workqueue_cancel_work q w k =
       Some (if running q (wq_abs k) = Some w then - RT_EBUSY else RT_EOK, k') \<and> wq_inv Q X k' \<and>
     wq_abs k' = drop_item w (wq_abs k) \<and> \<not> submitting k' w \<and> (\<forall>v. v \<noteq> w \<longrightarrow> submitting k' v = submitting k v)"
proof -
  define k1 where "k1 = clear_pending w (work_unlink w k)"
  note t = taken_out [OF i, where w = w, folded k1_def]
  have tm: "timer_state_ok k w" using i nx by (simp add: wq_inv_def wq_core_def)
  have sub: "submitting k1 w = submitting k w" by (simp add: t(5))
  have other: "wrk k1 v = wrk k v" if "v \<noteq> w" for v
    using that unlink_ok(3) [of Q k w v] i by (simp add: k1_def clear_pending_def wq_inv_def wq_core_def)
  have run: "running q (wq_abs k) = work_current (wqu k1 q)" using drop_absD [OF t(2)] by (simp add: running_def wq_abs_def)
  have "\<exists>k2. (if submitting k1 w then
                do { (_, k2) \<leftarrow> rt_timer_stop (Timer w) k1; (_, k3) \<leftarrow> rt_timer_detach (Timer w) k2;
                     Some (upd_work w (\<lambda>x. x\<lparr>work_flags := work_flags x AND NOT RT_WORK_STATE_SUBMITTING\<rparr>) k3) }
              else Some k1) = Some k2 \<and> wq_core Q X {} k2 \<and> wq_abs k2 = wq_abs k1 \<and>
        (\<forall>p. awake_at k1 p \<longrightarrow> awake_at k2 p) \<and> \<not> submitting k2 w \<and> (\<forall>v. v \<noteq> w \<longrightarrow> wrk k2 v = wrk k1 v) \<and>
        (\<forall>q. work_link (wrk k2 w) \<noteq> Some (Delayed_list q))"
  proof (cases "submitting k1 w")
    case False
    have "timer_state_ok k1 w" using tm False sub by (simp add: timer_state_ok_def t(5) only_works_frame [OF t(3)])
    then show ?thesis using False wq_core_close [OF t(1) nx] t(5) by auto
  next
    case True
    have it: "item_timer w k1" "timer_active k1 (Timer w)"
      using tm True sub only_works_item_timer [OF t(3)] by (simp_all add: timer_state_ok_def only_works_frame [OF t(3)])
    obtain e k2 where k2: "rt_timer_stop (Timer w) k1 = Some (e, k2)" "sinv k2" "wframe {w} k1 k2" "item_timer w k2"
      using item_stop_ok [OF wq_coreD(1) [OF t(1)] it(1)] it(2) by blast
    note c2 = wq_frame [OF k2(3,2) t(1)]
    obtain k3 where k3: "rt_timer_detach (Timer w) k2 = Some (RT_EOK, k3)" "sinv k3" "wframe {w} k2 k3"
      "Timer w \<notin> set (timer_list k3)" "Obj_Timer (Timer w) \<notin> set (containers k3 Class_Timer)"
      using item_detach_ok [OF k2(2,4) wq_coreD(4) [OF c2(1)]] by blast
    note c3 = wq_frame [OF k3(3,2) c2(1)]
    let ?f = "\<lambda>x. x\<lparr>work_flags := work_flags x AND NOT RT_WORK_STATE_SUBMITTING\<rparr>"
    note s = core_set_item [OF c3(1), where f = ?f, simplified]
    have w3: "wrk k3 = wrk k1" using k3(3) k2(3) by (simp add: wframe_def)
    have "timer_state_ok (upd_work w ?f k3) w" using k3(4,5) by (simp add: timer_state_ok_def w3 t(5))
    then have "wq_core Q X {} (upd_work w ?f k3)" using wq_core_close [OF s(1) nx] by simp
    then show ?thesis using True k2(1) k3(1) s(2,3) c3(2,3) c2(2,3) w3 t(5) by simp
  qed
  then obtain k2 where k2: "(if submitting k1 w then
                do { (_, k2) \<leftarrow> rt_timer_stop (Timer w) k1; (_, k3) \<leftarrow> rt_timer_detach (Timer w) k2;
                     Some (upd_work w (\<lambda>x. x\<lparr>work_flags := work_flags x AND NOT RT_WORK_STATE_SUBMITTING\<rparr>) k3) }
              else Some k1) = Some k2" "wq_core Q X {} k2" "wq_abs k2 = wq_abs k1"
        "\<forall>p. awake_at k1 p \<longrightarrow> awake_at k2 p" "\<not> submitting k2 w" "\<forall>v. v \<noteq> w \<longrightarrow> wrk k2 v = wrk k1 v"
        "\<forall>q. work_link (wrk k2 w) \<noteq> Some (Delayed_list q)" by blast
  let ?k3 = "upd_work w (\<lambda>x. x\<lparr>work_owner := None\<rparr>) k2"
  note s = core_set_item [OF wq_core_mono [OF k2(2)], where f = "\<lambda>x. x\<lparr>work_owner := None\<rparr>" and w = w, simplified]
  have "timer_state_ok k2 w" using k2(2) nx by (simp add: wq_core_def)
  then have "timer_state_ok ?k3 w" using k2(5,7) by (simp add: timer_state_ok_def)
  then have c3: "wq_core Q X {} ?k3" using wq_core_close [OF s(1) nx] by blast
  have "work_current (wqu k2 q) = work_current (wqu k1 q)" using k2(3) by (auto simp: wq_abs_def dest: fun_cong)
  then have "workqueue_cancel_work q w k = Some (if running q (wq_abs k) = Some w then - RT_EBUSY else RT_EOK, ?k3)"
    using k2(1) run unfolding workqueue_cancel_work_def k1_def [symmetric] Let_def by simp
  moreover have "awake_at ?k3 p" for p using s(3) k2(4) t(4) by blast
  ultimately show ?thesis using c3 s(2) k2(3,5,6) t(2) other by (auto simp: wq_inv_def)
qed

section \<open>Expiry of the delay\<close>

lemma deactivate_fired: "fired_list k = [] \<Longrightarrow> timer_deactivate r (k\<lparr>fired_list := [r]\<rparr>) = timer_deactivate r k"
  by (simp add: timer_deactivate_def timer_remove_def)

lemma detach_fired: "fired_list k = [] \<Longrightarrow> rt_timer_detach r (k\<lparr>fired_list := [r]\<rparr>) = rt_timer_detach r k"
  by (simp add: rt_timer_detach_def deactivate_fired rt_object_get_type_def rt_object_is_systemobject_def)

definition expire_spec :: "nat \<Rightarrow> nat \<Rightarrow> wq_spec \<Rightarrow> wq_spec" where
  "expire_spec q w a = (if running q a = Some w then drop_item w a else queue_item q w (drop_item w a))"

lemma expire_ok:
  assumes i: "wq_inv Q X k" and sub: "submitting k w" and ow: "work_owner (wrk k w) = Some q"
  shows "\<exists>k'. timer_fire delayed_work_timeout_handler (Timer w) k = Some k' \<and> wq_inv Q X k' \<and>
     wq_abs k' = expire_spec q w (wq_abs k) \<and> \<not> submitting k' w \<and> (\<forall>v. v \<noteq> w \<longrightarrow> submitting k' v = submitting k v)"
proof -
  have nx: "w \<notin> X" using i sub by (auto simp: wq_inv_def wq_core_def)
  have c: "wq_core Q X {w} k" using i wq_core_mono unfolding wq_inv_def by blast
  have tm: "timer_state_ok k w" using i nx by (simp add: wq_inv_def wq_core_def)
  then have it: "item_timer w k" "work_link (wrk k w) = Some (Delayed_list q)"
    using sub ow by (auto simp: timer_state_ok_def)
  then have q: "q \<in> Q" using wq_coreD(3) [OF c] by (auto simp: works_ok_def)
  define k2 where "k2 = timer_deactivate (Timer w) k"
  note d = user_deactivate [OF wq_coreD(1) [OF c], of w, folded k2_def]
  note c2 = wq_frame [OF d(2,1) c]
  have f2: "fired_list k2 = []" "wrk k2 = wrk k" using c2(1) d(2) by (simp_all add: wq_core_def wframe_def)
  have it2: "item_timer w k2"
    using it(1) d(4-6) by (simp add: item_timer_def rt_object_get_type_def rt_object_is_systemobject_def)
  obtain kd where kd: "rt_timer_detach (Timer w) k2 = Some (RT_EOK, kd)" "sinv kd" "wframe {w} k2 kd"
      "Timer w \<notin> set (timer_list kd)" "Obj_Timer (Timer w) \<notin> set (containers kd Class_Timer)"
    using item_detach_ok [OF d(1) it2 wq_coreD(4) [OF c2(1)]] by blast
  note cd = wq_frame [OF kd(3,2) c2(1)]
  have wd: "wrk kd = wrk k" using kd(3) f2 by (simp add: wframe_def)
  let ?f = "\<lambda>x. x\<lparr>work_flags := work_flags x AND NOT RT_WORK_STATE_SUBMITTING\<rparr>"
  define k4 where "k4 = upd_work w ?f kd"
  have s: "wq_core Q X {w} k4" "wq_abs k4 = wq_abs kd" "awake_at k4 p = awake_at kd p" for p
    unfolding k4_def by (rule core_set_item [OF cd(1)]; simp)+
  define k5 where "k5 = work_unlink w k4"
  note u = unlink_ok [OF wq_coreD(3) [OF s(1)], where w = w, folded k5_def]
  have o5: "only_works kd k5" by (rule only_works_trans [of kd k4]) (simp_all add: k4_def k5_def)
  have o45: "only_works k4 k5" by (simp add: k5_def)
  have c5: "wq_core Q X {w} k5" by (rule core_only_works [OF o45 s(1) u(1)]) (simp add: u(3))
  have abs5: "wq_abs k5 = drop_item w (wq_abs k)" using u(2) s(2) cd(2) c2(2) by simp
  have aw5: "awake_at k5 p" for p
    by (rule awake_less [OF o45]) (use i s(3) cd(3) c2(3) drop_absD [OF u(2)] in \<open>auto simp: wq_inv_def\<close>)
  have w5: "wrk k5 w = (wrk k w)\<lparr>work_flags := work_flags (wrk k w) AND NOT 2, work_link := None\<rparr>"
    by (simp add: u(3) k4_def wd)
  have other: "wrk k5 v = wrk k v" if "v \<noteq> w" for v using that by (simp add: u(3) k4_def wd)
  note fr = only_works_frame [OF o5]
  have run: "work_current (wqu k5 q) = running q (wq_abs k)"
    using drop_absD(2) [OF abs5] by (simp add: running_def wq_abs_def)
  have h: "timer_fire delayed_work_timeout_handler (Timer w) k =
      Option.bind (work_thread_wake q (if running q (wq_abs k) \<noteq> Some w
         then upd_work w (\<lambda>x. x\<lparr>work_flags := work_flags x OR RT_WORK_STATE_PENDING\<rparr>) (work_append q w k5) else k5))
       (\<lambda>k6. if fired_list k6 = [] then Some k6 else None)"
    if "\<forall>k6. work_thread_wake q (if running q (wq_abs k) \<noteq> Some w
         then upd_work w (\<lambda>x. x\<lparr>work_flags := work_flags x OR RT_WORK_STATE_PENDING\<rparr>) (work_append q w k5) else k5) = Some k6 \<longrightarrow> fired_list k6 = []"
  proof -
    have "objs (timer_remove (Timer w) k) = objs k" "timers k2 = timers k" by (simp_all add: timer_remove_def d(4))
    moreover have "timer_deactivate (Timer w) k = upd_obj (Obj_Timer (Timer w))
        (\<lambda>ob. ob\<lparr>obj_flag := obj_flag ob AND NOT RT_TIMER_FLAG_ACTIVATED\<rparr>) (timer_remove (Timer w) k)"
      by (simp add: timer_deactivate_def)
    ultimately have e: "timer_fire delayed_work_timeout_handler (Timer w) k =
      Option.bind (delayed_work_timeout_handler w (k2\<lparr>fired_list := [Timer w]\<rparr>)) (\<lambda>k4.
        if fired_list k4 = [] then Some k4 else
          let k5 = timer_remove (Timer w) k4; fl = obj_flag (objs k5 (Obj_Timer (Timer w)))
          in if fl AND RT_TIMER_FLAG_PERIODIC \<noteq> 0 \<and> fl AND RT_TIMER_FLAG_ACTIVATED \<noteq> 0 then
               do { (_, k6) \<leftarrow> rt_timer_start (Timer w) (upd_obj (Obj_Timer (Timer w))
                    (\<lambda>ob. ob\<lparr>obj_flag := obj_flag ob AND NOT RT_TIMER_FLAG_ACTIVATED\<rparr>) k5); Some k6 }
             else Some k5)"
      using it(1) f2(1) unfolding timer_fire_def
      by (simp add: item_timer_def k2_def [symmetric] call_timeout_def Let_def)
    have "delayed_work_timeout_handler w (k2\<lparr>fired_list := [Timer w]\<rparr>) = work_thread_wake q (if running q (wq_abs k) \<noteq> Some w
         then upd_work w (\<lambda>x. x\<lparr>work_flags := work_flags x OR RT_WORK_STATE_PENDING\<rparr>) (work_append q w k5) else k5)"
      using ow kd(1) run
      by (simp add: delayed_work_timeout_handler_def f2 detach_fired k4_def k5_def Let_def)
    then show ?thesis unfolding e using that by (auto split: bind_splits)
  qed
  show ?thesis
  proof (cases "running q (wq_abs k) = Some w")
    case True
    have "timer_state_ok k5 w" using kd(4,5) by (simp add: timer_state_ok_def w5 fr)
    then have "wq_core Q X {} k5" using wq_core_close [OF c5 nx] by blast
    then have "wq_inv Q X k5" using aw5 by (simp add: wq_inv_def)
    moreover have "work_thread_wake q k5 = Some k5" using True run by (simp add: work_thread_wake_def work_thread_idle_def)
    moreover have "fired_list k5 = []" by (rule wq_coreD(5) [OF c5])
    ultimately show ?thesis using True h abs5 w5 other by (auto simp: expire_spec_def)
  next
    case False
    let ?g = "\<lambda>x. x\<lparr>work_flags := work_flags x OR RT_WORK_STATE_PENDING\<rparr>"
    let ?k6 = "upd_work w ?g (work_append q w k5)"
    have l: "work_link (wrk k5 w) = None" by (simp add: w5)
    note a = core_append [OF c5 l q]
    note s6 = core_set_item [OF a(1), where f = ?g, simplified]
    have "timer_state_ok ?k6 w" using kd(4,5) by (simp add: timer_state_ok_def work_append_def w5 fr)
    then have c6: "wq_core Q X {} ?k6" using wq_core_close [OF s6(1) nx] by blast
    obtain k' where k': "work_thread_wake q ?k6 = Some k'" "wq_inv Q X k'" "wq_abs k' = wq_abs ?k6" "wframe {} ?k6 k'"
      using wake_inv [OF c6, of q] a(4) aw5 by (auto simp: awake_at_def)
    have "fired_list k' = []" using k'(2) by (simp add: wq_inv_def wq_core_def)
    then have "timer_fire delayed_work_timeout_handler (Timer w) k = Some k'" using h k'(1) False by simp
    moreover have "wq_abs ?k6 = queue_item q w (drop_item w (wq_abs k))"
      using s6(2) append_ok(2) [OF wq_coreD(3) [OF c5] l q] abs5 by simp
    moreover have "wrk k' = wrk ?k6" using k'(4) by (simp add: wframe_def)
    ultimately show ?thesis using k'(2,3) False w5 other by (simp add: expire_spec_def work_append_def)
  qed
qed

section \<open>The thread of a queue\<close>

abbreviation runs_thread :: "kernel \<Rightarrow> nat \<Rightarrow> bool" where
  "runs_thread k q \<equiv> current k = Some (work_thread (wqu k q)) \<and> tstat k (work_thread (wqu k q)) = RT_THREAD_RUNNING"

definition take_spec :: "nat \<Rightarrow> wq_spec \<Rightarrow> nat option \<times> wq_spec" where
  "take_spec q a = (case a of (P, D, C) \<Rightarrow>
     (case P q of [] \<Rightarrow> (None, a) | w # ws \<Rightarrow> (Some w, P(q := ws), D, C(q := Some w))))"

lemma take_ok:
  assumes i: "wq_inv Q X k" and q: "q \<in> Q" and r: "runs_thread k q"
  shows "\<exists>o' k'. workqueue_take q k = Some (o', k') \<and> wq_inv Q X k' \<and> (o', wq_abs k') = take_spec q (wq_abs k) \<and>
     (\<forall>v. submitting k' v = submitting k v)"
proof (cases "work_list (wqu k q)")
  case Nil
  let ?t = "work_thread (wqu k q)"
  let ?k1 = "upd_thread ?t (set_stat RT_THREAD_SUSPEND) k"
  let ?k2 = "?k1\<lparr>saved := (saved ?k1)(?t := In_work_thread q)\<rparr>"
  have c: "wq_core Q X {} k" and s: "sinv k" using i by (simp_all add: wq_inv_def wq_core_def)
  note su = suspend_ok [OF s, of ?t]
  have s2: "sinv ?k2" using su(2) r sinv_cong [of ?k2 ?k1] by simp
  obtain k' where k': "rt_schedule ?k2 = Some k'" "sinv k'" "sched_rel ?k2 k'" "current k' \<noteq> None"
    using rt_schedule_sinv [OF s2] r by auto
  have "item_timer w ?k2 = item_timer w k" for w
    by (simp add: item_timer_def rt_object_get_type_def rt_object_is_systemobject_def)
  then have "timer_state_ok ?k2 w = timer_state_ok k w" for w by (simp add: timer_state_ok_def)
  then have c2: "wq_core Q X {} ?k2" using c s2
    by (simp add: wq_core_def works_ok_def is_sem_def sem_ok_def rt_object_get_type_def)
  have aw: "awake_at ?k2 p" for p
  proof (cases "p = q")
    case False
    show ?thesis
    proof (cases "p \<in> Q")
      case True
      then have "work_thread (wqu k p) \<noteq> ?t" using c False q by (auto simp: wq_core_def inj_on_def)
      then show ?thesis using i by (simp add: awake_at_def wq_inv_def)
    next
      case F: False
      then have "work_list (wqu k p) = []" using c by (auto simp: wq_core_def works_ok_def) (metis list.set_intros(1) neq_Nil_conv)
      then show ?thesis by (simp add: awake_at_def)
    qed
  qed (simp add: awake_at_def Nil)
  note f = wq_frame [OF sched_wframe [OF k'(3,4)] k'(2) c2]
  have "workqueue_take q k = Some (None, k')"
    using Nil su(1) r k'(1) by (simp add: workqueue_take_def rt_thread_self_def)
  moreover have "wq_inv Q X k'" using f(1,3) aw by (auto simp: wq_inv_def)
  moreover have "wq_abs k' = wq_abs k" using f(2) by (simp add: wq_abs_def)
  moreover have "devipc k' = devipc k" using sched_rel_frame [OF k'(3)] by simp
  ultimately show ?thesis using Nil by (simp add: take_spec_def wq_abs_def)
next
  case (Cons w ws)
  have c: "wq_core Q X {w} k" using i wq_core_mono unfolding wq_inv_def by blast
  have w: "works_ok Q k" by (rule wq_coreD(3) [OF c])
  note u = unlink_ok [OF w, where w = w]
  let ?k1 = "work_unlink w k"
  let ?k2 = "upd_wq q (\<lambda>x. x\<lparr>work_current := Some w\<rparr>) ?k1"
  let ?f = "\<lambda>x. x\<lparr>work_flags := work_flags x AND NOT RT_WORK_STATE_PENDING, work_owner := None\<rparr>"
  let ?k3 = "upd_work w ?f ?k2"
  have "w \<in> set (work_list (wqu k q))" using Cons by simp
  then have lk: "work_link (wrk k w) = Some (Work_list q)" using w unfolding works_ok_def by blast
  then have nx: "w \<notin> X" using i by (auto simp: wq_inv_def wq_core_def)
  have tm: "timer_state_ok k w" using i nx by (simp add: wq_inv_def wq_core_def)
  then have ns: "\<not> submitting k w" using lk by (cases "submitting k w") (simp_all add: timer_state_ok_def)
  have o: "only_works k ?k2" by (rule only_works_trans [of k ?k1]) simp_all
  have "works_ok Q ?k2" using u(1) by (simp add: works_ok_def)
  then have c2: "wq_core Q X {w} ?k2" by (rule core_only_works [OF o c]) (simp add: u(3))
  have s: "wq_core Q X {w} ?k3" "awake_at ?k3 p = awake_at ?k2 p" for p
    by (rule core_set_item [OF c2]; simp)+
  have "timer_state_ok ?k3 w" using tm ns lk
    by (simp add: timer_state_ok_def u(3) only_works_frame [OF moves_only_works(5)])
  then have c3: "wq_core Q X {} ?k3" using wq_core_close [OF s(1) nx] by blast
  have d: "\<And>p. work_list (wqu ?k1 p) = removeAll w (work_list (wqu k p))" using drop_absD [OF u(2)] by blast
  have "awake_at ?k1 p" for p
    by (rule awake_less [of k]) (use i drop_absD [OF u(2)] in \<open>auto simp: wq_inv_def\<close>)
  then have "awake_at ?k2 p" for p by (cases "p = q") (auto simp: awake_at_def)
  then have "wq_inv Q X ?k3" using c3 s(2) by (simp add: wq_inv_def)
  moreover have "wq_abs ?k3 = snd (take_spec q (wq_abs k))"
  proof -
    have "w \<notin> set ws" "\<forall>p. p \<noteq> q \<longrightarrow> w \<notin> set (work_list (wqu k p))" "\<forall>p. w \<notin> set (delayed_list (wqu k p))"
      using w Cons lk by (auto simp: works_ok_def) (metis distinct.simps(2))+
    then show ?thesis using drop_absD [OF u(2)] Cons
      by (auto simp: wq_abs_def take_spec_def fun_eq_iff)
  qed
  moreover have "workqueue_take q k = Some (Some w, ?k3)" using Cons by (simp add: workqueue_take_def Let_def)
  moreover have "submitting ?k3 v = submitting k v" for v by (simp add: u(3))
  ultimately show ?thesis using Cons by (auto simp: take_spec_def wq_abs_def)
qed

section \<open>The end of an item\<close>

lemma release_waiting:
  assumes s: "sinv k" and i: "is_sem x k" and c: "current k \<noteq> None" and l: "lists k (Suspended_on (Obj_Sem x)) = t # ts"
  shows "\<exists>k'. rt_sem_release x k = Some (RT_EOK, k') \<and> sinv k' \<and> wframe {} k k' \<and> same_error k k' \<and>
     runnable k' t \<and> lists k' (Suspended_on (Obj_Sem x)) = ts \<and> (\<forall>u. runnable k u \<longrightarrow> runnable k' u)"
proof -
  let ?h = "Suspended_on (Obj_Sem x)"
  have h: "wait_head ?h" by simp
  have "tstat k t = RT_THREAD_SUSPEND" using waiter_suspended(1) [OF s h] l by simp
  then obtain k1 where k1: "rt_thread_resume t k = Some (RT_EOK, k1)" "sinv k1" "resume_rel t k k1"
    using resume_ok [OF s] by blast
  note fr = resume_rel_frame [OF k1(3)]
  have "current k1 \<noteq> None" using c fr(5) by simp
  then obtain k' where k': "rt_schedule k1 = Some k'" "sinv k'" "sched_rel k1 k'" "current k' \<noteq> None"
    using rt_schedule_sinv [OF k1(2)] by blast
  have "lists k' ?h = ts" using sched_rel_lists [OF k'(3)] fr(19) l by simp
  moreover have "runnable k' u" if "runnable k u" for u
  proof -
    have "runnable k1 u" using that fr(14,21) by (cases "u = t") (auto simp: runnable_def)
    then show ?thesis using k'(3) by (simp add: sched_rel_def)
  qed
  moreover have "runnable k' t" using fr(21) k'(3) by (simp add: sched_rel_def)
  moreover have "wframe {} k k'" by (rule wframe_trans [OF resume_wframe [OF k1(1,3)] sched_wframe [OF k'(3,4)]])
  moreover have "same_error k k'"
    using resume_rel_ipc_frame [OF k1(3)] sched_rel_ipc_frame [OF k'(3)] by (blast intro: same_error_trans)
  moreover have "rt_sem_release x k = Some (RT_EOK, k')"
    using i l k1(1) k'(1) by (simp add: rt_sem_release_def is_sem_def ipc_list_resume_def)
  ultimately show ?thesis using k'(2) by blast
qed

lemma completion_loop_ok:
  assumes "sinv k" "is_sem x k" "current k \<noteq> None" "sem_ok x k"
  shows "\<exists>k' v. work_completion_loop x k = Some (RT_EOK, upd_sem x (\<lambda>y. y\<lparr>sem_value := v\<rparr>) k') \<and> sinv k' \<and> wframe {} k k' \<and>
     v = (if 0 < sem_value (sems k x) then sem_value (sems k x) - 1 else 0) \<and> same_error k k' \<and>
     lists k' (Suspended_on (Obj_Sem x)) = [] \<and>
     (\<forall>t. t \<in> set (lists k (Suspended_on (Obj_Sem x))) \<or> runnable k t \<longrightarrow> runnable k' t)"
  using assms
proof (induction "lists k (Suspended_on (Obj_Sem x))" arbitrary: k)
  case Nil
  have ty: "rt_object_get_type (Obj_Sem x) k = class_code Class_Semaphore" using Nil.prems(2) by (simp add: is_sem_def)
  have pos: "work_completion_loop x k' = Some (RT_EOK, upd_sem x (\<lambda>y. y\<lparr>sem_value := sem_value (sems k' x) - 1\<rparr>) k')"
    if "0 < sem_value (sems k' x)" "rt_object_get_type (Obj_Sem x) k' = class_code Class_Semaphore" for k'
    using that by (subst work_completion_loop.simps) (simp add: rt_sem_trytake_def rt_sem_take_def)
  show ?case
  proof (cases "0 < sem_value (sems k x)")
    case True
    show ?thesis
      by (intro exI [of _ k] exI [of _ "sem_value (sems k x) - 1"] conjI)
        (use pos [OF True ty] True Nil.prems(1) Nil.hyps in \<open>simp_all add: fun_upd_def\<close>)
  next
    case False
    then have z: "sem_value (sems k x) = 0" by (simp add: word_gt_0)
    let ?k1 = "upd_sem x (\<lambda>y. y\<lparr>sem_value := sem_value y + 1\<rparr>) k"
    have "work_completion_loop x k = work_completion_loop x ?k1"
      using z ty Nil.hyps by (subst work_completion_loop.simps) (simp add: rt_sem_trytake_def rt_sem_take_def rt_sem_release_def)
    also have "\<dots> = Some (RT_EOK, upd_sem x (\<lambda>y. y\<lparr>sem_value := sem_value (sems ?k1 x) - 1\<rparr>) ?k1)"
      by (rule pos) (use z ty in \<open>simp_all add: rt_object_get_type_def\<close>)
    also have "upd_sem x (\<lambda>y. y\<lparr>sem_value := sem_value (sems ?k1 x) - 1\<rparr>) ?k1 = upd_sem x (\<lambda>y. y\<lparr>sem_value := 0\<rparr>) k"
      using z by simp
    finally show ?thesis
      by (intro exI [of _ k] exI [of _ 0] conjI) (use z Nil.prems(1) Nil.hyps in \<open>simp_all add: fun_upd_def\<close>)
  qed
next
  case (Cons t ts)
  have z: "sem_value (sems k x) = 0" using Cons.prems(4) Cons.hyps(2) by (auto simp: sem_ok_def)
  obtain k1 where k1: "rt_sem_release x k = Some (RT_EOK, k1)" "sinv k1" "wframe {} k k1" "same_error k k1"
    "runnable k1 t" "lists k1 (Suspended_on (Obj_Sem x)) = ts" "\<forall>u. runnable k u \<longrightarrow> runnable k1 u"
    using release_waiting [OF Cons.prems(1-3) Cons.hyps(2) [symmetric]] by blast
  have e: "work_completion_loop x k = work_completion_loop x k1"
    using z k1(1) Cons.prems(2) by (subst work_completion_loop.simps) (simp add: rt_sem_trytake_def rt_sem_take_def is_sem_def)
  have "sems k1 = sems k" "objs k1 (Obj_Sem x) = objs k (Obj_Sem x)" "current k1 \<noteq> None"
    using k1(3) Cons.prems(3) by (simp_all add: wframe_def)
  then have p: "is_sem x k1" "current k1 \<noteq> None" "sem_ok x k1" "sem_value (sems k1 x) = 0"
    using Cons.prems(2) z by (simp_all add: is_sem_def rt_object_get_type_def sem_ok_def)
  from Cons.hyps(1) [OF k1(6) [symmetric] k1(2) p(1-3)] obtain k' v where k':
    "work_completion_loop x k1 = Some (RT_EOK, upd_sem x (\<lambda>y. y\<lparr>sem_value := v\<rparr>) k')" "sinv k'" "wframe {} k1 k'"
    "v = 0" "same_error k1 k'" "lists k' (Suspended_on (Obj_Sem x)) = []"
    "\<forall>t. t \<in> set ts \<or> runnable k1 t \<longrightarrow> runnable k' t" using k1(6) p(4) by auto
  have "runnable k' u" if "u \<in> set (lists k (Suspended_on (Obj_Sem x))) \<or> runnable k u" for u
    using that k'(7) k1(5,7) Cons.hyps(2) [symmetric] by auto
  then show ?case
    by (intro exI [of _ k'] exI [of _ v] conjI)
      (use e k'(1,2,4,6) z wframe_trans [OF k1(3) k'(3)] same_error_trans [OF k1(4) k'(5)] in \<open>simp_all add: fun_upd_def\<close>)
qed

lemma lock_wframe [simp]: "wframe S k (k\<lparr>lock_nest := n\<rparr>)"
  by (simp add: wframe_def)

lemma finish_ok:
  assumes i: "wq_inv Q X k" and q: "q \<in> Q" and r: "runs_thread k q"
  shows "\<exists>k'. workqueue_done q k = Some k' \<and> wq_inv Q X k' \<and>
     wq_abs k' = (case wq_abs k of (P, D, C) \<Rightarrow> (P, D, C(q := None))) \<and> (\<forall>v. submitting k' v = submitting k v) \<and>
     same_error k k' \<and> lists k' (Suspended_on (Obj_Sem (work_sem (wqu k q)))) = [] \<and>
     (\<forall>t\<in>set (lists k (Suspended_on (Obj_Sem (work_sem (wqu k q))))). runnable k' t)"
proof -
  let ?s = "work_sem (wqu k q)"
  let ?k1 = "upd_wq q (\<lambda>x. x\<lparr>work_current := None\<rparr>) k"
  let ?k2 = "rt_enter_critical ?k1"
  have c: "wq_core Q X {} k" using i by (simp add: wq_inv_def)
  have o1: "only_works k ?k1" by simp
  have "works_ok Q ?k1" using wq_coreD(3) [OF c] by (simp add: works_ok_def)
  then have c1: "wq_core Q X {} ?k1" by (rule core_only_works [OF o1 c]) simp
  have a1: "awake_at ?k1 p" for p using i r by (auto simp: awake_at_def wq_inv_def)
  have s1: "sinv ?k2" using wq_coreD(1) [OF c1] sinv_cong [of ?k2 ?k1] by (simp add: rt_enter_critical_def)
  have w2: "wframe {} ?k1 ?k2" unfolding rt_enter_critical_def by simp
  note c2 = wq_frame [OF w2 s1 c1]
  have sem: "is_sem ?s ?k2" "sem_ok ?s ?k2" using c2(1) q by (auto simp: wq_core_def rt_enter_critical_def)
  obtain k3 v where k3: "work_completion_loop ?s ?k2 = Some (RT_EOK, upd_sem ?s (\<lambda>y. y\<lparr>sem_value := v\<rparr>) k3)"
    "sinv k3" "wframe {} ?k2 k3" "same_error ?k2 k3" "lists k3 (Suspended_on (Obj_Sem ?s)) = []"
    "\<forall>t. t \<in> set (lists ?k2 (Suspended_on (Obj_Sem ?s))) \<or> runnable ?k2 t \<longrightarrow> runnable k3 t"
    using completion_loop_ok [OF s1 sem(1) wq_coreD(2) [OF c2(1)] sem(2)] by blast
  let ?k4 = "upd_sem ?s (\<lambda>y. y\<lparr>sem_value := v\<rparr>) k3"
  note c3 = wq_frame [OF k3(3,2) c2(1)]
  have s4: "sinv ?k4" using k3(2) sinv_cong [of ?k4 k3] by simp
  have it: "item_timer w ?k4 = item_timer w k3" for w
    by (simp add: item_timer_def rt_object_get_type_def rt_object_is_systemobject_def)
  have "timer_state_ok ?k4 w = timer_state_ok k3 w" for w by (simp add: timer_state_ok_def it)
  moreover have "sem_ok u ?k4" if "sem_ok u k3" for u using that k3(5) by (simp add: sem_ok_def)
  ultimately have c4: "wq_core Q X {} ?k4" using c3(1) s4
    by (simp add: wq_core_def works_ok_def is_sem_def rt_object_get_type_def)
  obtain k' m where k': "rt_exit_critical ?k4 = Some k'" "sinv k'" "current k' \<noteq> None" "sched_rel (?k4\<lparr>lock_nest := m\<rparr>) k'"
    using exit_critical_ok [OF s4 wq_coreD(2) [OF c4]] by blast
  have w5: "wframe {} ?k4 k'" by (rule wframe_trans [OF lock_wframe sched_wframe [OF k'(4,3)]])
  note c5 = wq_frame [OF w5 k'(2) c4]
  have aw: "awake_at k' p" for p
  proof -
    have "awake_at k3 p" using a1 c2(3) c3(3) by blast
    then have "awake_at ?k4 p" by (simp add: awake_at_def)
    then show ?thesis by (rule c5(3))
  qed
  have d: "devipc k' = devipc ?k1" using w5 k3(3) w2 by (simp add: wframe_def)
  have "workqueue_done q k = Some k'"
    using k3(1) k'(1) by (simp add: workqueue_done_def workqueue_work_completion_def)
  moreover have "wq_abs k' = (case wq_abs k of (P, D, C) \<Rightarrow> (P, D, C(q := None)))" by (simp add: wq_abs_def d fun_eq_iff)
  moreover have "submitting k' v = submitting k v" for v by (simp add: d)
  moreover have "same_error k k'"
    using k3(4) sched_rel_ipc_frame [OF k'(4)] by (simp add: same_error_def rt_enter_critical_def)
  moreover have "lists k' (Suspended_on (Obj_Sem ?s)) = []" using sched_rel_lists [OF k'(4)] k3(5) by simp
  moreover have "runnable k' t" if "t \<in> set (lists k (Suspended_on (Obj_Sem ?s)))" for t
  proof -
    have "runnable k3 t" using that k3(6) by (simp add: rt_enter_critical_def)
    then have "runnable (?k4\<lparr>lock_nest := m\<rparr>) t" by (simp add: runnable_def)
    then show ?thesis using k'(4) by (simp add: sched_rel_def)
  qed
  ultimately show ?thesis using c5(1) aw by (intro exI [of _ k']) (auto simp: wq_inv_def)
qed

section \<open>Cancelling everything\<close>

lemma cancel_loop_ok:
  assumes "wq_inv Q X k" "l = work_list \<or> l = delayed_list"
  shows "\<exists>k'. cancel_work_loop l q k = Some k' \<and> wq_inv Q X k' \<and> l (wqu k' q) = [] \<and>
     (\<forall>p. set (work_list (wqu k' p)) \<subseteq> set (work_list (wqu k p)))"
  using assms
proof (induction "length (l (wqu k q))" arbitrary: k rule: less_induct)
  case less
  show ?case
  proof (cases "l (wqu k q)")
    case Nil
    then show ?thesis using less.prems by (subst cancel_work_loop.simps) simp
  next
    case (Cons w ws)
    have "works_ok Q k" "\<forall>v\<in>X. work_link (wrk k v) = None" using less.prems(1) by (simp_all add: wq_inv_def wq_core_def)
    moreover have "w \<in> set (l (wqu k q))" using Cons by simp
    ultimately have nx: "w \<notin> X" using less.prems(2) unfolding works_ok_def by (metis option.discI)
    obtain e k1 where k1: "workqueue_cancel_work q w k = Some (e, k1)" "wq_inv Q X k1" "wq_abs k1 = drop_item w (wq_abs k)"
      using cancel_ok [OF less.prems(1) nx] by blast
    note d = drop_absD [OF k1(3)]
    have "l (wqu k1 q) = removeAll w (w # ws)" using less.prems(2) d Cons by auto
    then have "length (l (wqu k1 q)) < length (l (wqu k q))" using Cons by (simp add: less_Suc_eq_le)
    then obtain k' where k': "cancel_work_loop l q k1 = Some k'" "wq_inv Q X k'" "l (wqu k' q) = []"
      "\<forall>p. set (work_list (wqu k' p)) \<subseteq> set (work_list (wqu k1 p))"
      using less.hyps [of k1] k1(2) less.prems(2) by blast
    have "cancel_work_loop l q k = Some k'" using Cons k1(1) k'(1) by (subst cancel_work_loop.simps) simp
    then show ?thesis using k'(2-4) d(1) by fastforce
  qed
qed

lemma cancel_all_ok:
  assumes i: "wq_inv Q X k"
  shows "\<exists>k'. rt_workqueue_cancel_all_work q k = Some (RT_EOK, k') \<and> wq_inv Q X k' \<and>
     work_list (wqu k' q) = [] \<and> delayed_list (wqu k' q) = []"
proof -
  let ?k1 = "rt_enter_critical k"
  have c: "wq_core Q X {} k" using i by (simp add: wq_inv_def)
  have s: "sinv ?k1" using wq_coreD(1) [OF c] sinv_cong [of ?k1 k] by (simp add: rt_enter_critical_def)
  have w: "wframe {} k ?k1" unfolding rt_enter_critical_def by simp
  have i1: "wq_inv Q X ?k1" using wq_frame [OF w s c] i by (auto simp: wq_inv_def)
  obtain k2 where k2: "cancel_work_loop work_list q ?k1 = Some k2" "wq_inv Q X k2" "work_list (wqu k2 q) = []"
    using cancel_loop_ok [OF i1, of work_list] by blast
  obtain k3 where k3: "cancel_work_loop delayed_list q k2 = Some k3" "wq_inv Q X k3" "delayed_list (wqu k3 q) = []"
    "\<forall>p. set (work_list (wqu k3 p)) \<subseteq> set (work_list (wqu k2 p))"
    using cancel_loop_ok [OF k2(2), of delayed_list] by blast
  have c3: "wq_core Q X {} k3" using k3(2) by (simp add: wq_inv_def)
  obtain k' m where k': "rt_exit_critical k3 = Some k'" "sinv k'" "current k' \<noteq> None" "sched_rel (k3\<lparr>lock_nest := m\<rparr>) k'"
    using exit_critical_ok [OF wq_coreD(1,2) [OF c3]] by blast
  have w5: "wframe {} k3 k'" by (rule wframe_trans [OF lock_wframe sched_wframe [OF k'(4,3)]])
  have "wq_inv Q X k'" using wq_frame [OF w5 k'(2) c3] k3(2) by (auto simp: wq_inv_def)
  moreover have "wqu k' q = wqu k3 q" using w5 by (simp add: wframe_def)
  moreover have "work_list (wqu k3 q) = []" using k3(4) k2(3) by (metis set_empty subset_empty)
  ultimately show ?thesis using k2(1) k3(1,3) k'(1) by (simp add: rt_workqueue_cancel_all_work_def)
qed

section \<open>Runs\<close>

text \<open>
  The calls on work queues, the expiry of a delay, and the two halves of the loop of the thread;
  what each answers: an error code, and the item that was taken.
\<close>

datatype wq_call =
    Submit_work nat nat u32
  | Urgent_work nat nat
  | Cancel_work nat nat
  | Delay_expires nat nat
  | Take_work nat
  | Finish_work nat

fun wq_do :: "wq_call \<Rightarrow> kernel \<Rightarrow> ((rt_err \<times> nat option) \<times> kernel) option" where
  "wq_do (Submit_work q w ticks) k = map_option (\<lambda>(e, k'). ((e, None), k')) (rt_workqueue_submit_work q w ticks k)"
| "wq_do (Urgent_work q w) k = map_option (\<lambda>(e, k'). ((e, None), k')) (rt_workqueue_urgent_work q w k)"
| "wq_do (Cancel_work q w) k = map_option (\<lambda>(e, k'). ((e, None), k')) (rt_workqueue_cancel_work q w k)"
| "wq_do (Delay_expires q w) k = map_option (\<lambda>k'. ((RT_EOK, None), k')) (timer_fire delayed_work_timeout_handler (Timer w) k)"
| "wq_do (Take_work q) k = map_option (\<lambda>(w, k'). ((RT_EOK, w), k')) (workqueue_take q k)"
| "wq_do (Finish_work q) k = map_option (\<lambda>k'. ((RT_EOK, None), k')) (workqueue_done q k)"

text \<open>
  When the calls can happen: the delay of a submission is below half the range of ticks, as the
  code asserts, and the thread of a queue has the processor for its own steps.  The timer of an
  item can expire as long as it runs, whether the item is still in the list of delayed
  items or not.  Nothing is said here of submitting an item whose delay runs.
\<close>

fun wq_may :: "nat set \<Rightarrow> nat set \<Rightarrow> kernel \<Rightarrow> wq_call \<Rightarrow> bool" where
  "wq_may Q X k (Submit_work q w ticks) \<longleftrightarrow> q \<in> Q \<and> w \<notin> X \<and> ticks < RT_TICK_MAX_HALF"
| "wq_may Q X k (Urgent_work q w) \<longleftrightarrow> q \<in> Q \<and> w \<notin> X"
| "wq_may Q X k (Cancel_work q w) \<longleftrightarrow> q \<in> Q \<and> w \<notin> X"
| "wq_may Q X k (Delay_expires q w) \<longleftrightarrow> w \<notin> X \<and> Timer w \<in> set (timer_list k) \<and>
     (w \<in> set (delayed_list (wqu k q)) \<or> (\<forall>p\<in>Q. w \<notin> set (delayed_list (wqu k p))))"
| "wq_may Q X k (Take_work q) \<longleftrightarrow> q \<in> Q \<and> runs_thread k q"
| "wq_may Q X k (Finish_work q) \<longleftrightarrow> q \<in> Q \<and> runs_thread k q"

fun wq_step :: "wq_call \<Rightarrow> wq_spec \<Rightarrow> (rt_err \<times> nat option) \<times> wq_spec" where
  "wq_step (Submit_work q w ticks) a = (case submit_spec q w (ticks \<noteq> 0) a of (e, a') \<Rightarrow> ((e, None), a'))"
| "wq_step (Urgent_work q w) a = ((RT_EOK, None), case drop_item w a of (P, D, C) \<Rightarrow> (P(q := w # P q), D, C))"
| "wq_step (Cancel_work q w) a = ((if running q a = Some w then - RT_EBUSY else RT_EOK, None), drop_item w a)"
| "wq_step (Delay_expires q w) a = ((RT_EOK, None), expire_spec q w a)"
| "wq_step (Take_work q) a = (case take_spec q a of (w, a') \<Rightarrow> ((RT_EOK, w), a'))"
| "wq_step (Finish_work q) a = ((RT_EOK, None), case a of (P, D, C) \<Rightarrow> (P, D, C(q := None)))"

text \<open>
  The condition on a program under which its queues work: it does not submit an item for now, or
  ahead of the others, while the delay of the item runs.  \<open>delayed_resubmission_fails\<close> is what
  happens otherwise.  The condition is one on the calls alone; it is evaluated on the
  abstract queues.
\<close>

fun not_delayed :: "wq_call \<Rightarrow> wq_spec \<Rightarrow> bool" where
  "not_delayed (Submit_work q w ticks) (P, D, C) \<longleftrightarrow> (ticks = 0 \<longrightarrow> (\<forall>p. w \<notin> set (D p)))"
| "not_delayed (Urgent_work q w) (P, D, C) \<longleftrightarrow> (\<forall>p. w \<notin> set (D p))"
| "not_delayed c a \<longleftrightarrow> True"

fun resubmission_free :: "(wq_call \<times> rt_err \<times> nat option) list \<Rightarrow> wq_spec \<Rightarrow> bool" where
  "resubmission_free [] a \<longleftrightarrow> True"
| "resubmission_free ((c, r) # es) a \<longleftrightarrow> not_delayed c a \<and> resubmission_free es (snd (wq_step c a))"

lemma submitting_delayed:
  assumes "wq_inv Q X k" "w \<notin> X"
  shows "submitting k w \<longleftrightarrow> (\<exists>q. w \<in> set (delayed_list (wqu k q)))" "submitting k w \<longleftrightarrow> Timer w \<in> set (timer_list k)"
    "w \<in> set (delayed_list (wqu k q)) \<Longrightarrow> work_owner (wrk k w) = Some q \<and> q \<in> Q"
proof -
  have w: "works_ok Q k" "timer_state_ok k w" using assms by (simp_all add: wq_inv_def wq_core_def)
  then show "submitting k w \<longleftrightarrow> (\<exists>q. w \<in> set (delayed_list (wqu k q)))" "submitting k w \<longleftrightarrow> Timer w \<in> set (timer_list k)"
    unfolding works_ok_def timer_state_ok_def by (metis)+
  show "work_owner (wrk k w) = Some q \<and> q \<in> Q" if d: "w \<in> set (delayed_list (wqu k q))"
  proof -
    have l: "work_link (wrk k w) = Some (Delayed_list q)" using w(1) d by (simp add: works_ok_def)
    then have "submitting k w" using w(2) by (cases "submitting k w") (simp_all add: timer_state_ok_def)
    then obtain p where "work_link (wrk k w) = Some (Delayed_list p)" "work_owner (wrk k w) = Some p"
      using w(2) by (auto simp: timer_state_ok_def)
    moreover have "q \<in> Q" using w(1) l unfolding works_ok_def by blast
    ultimately show ?thesis using l by simp
  qed
qed

lemma wq_do_ok:
  assumes i: "wq_inv Q X k" and m: "wq_may Q X k c" and n: "not_delayed c (wq_abs k)"
  shows "\<exists>r k'. wq_do c k = Some (r, k') \<and> wq_inv Q X k' \<and> (r, wq_abs k') = wq_step c (wq_abs k)"
proof (cases c)
  case (Submit_work q w ticks)
  show ?thesis
  proof (cases "ticks = 0")
    case True
    then have "\<not> submitting k w" "w \<notin> X" "q \<in> Q"
      using n m submitting_delayed(1) [OF i, of w] Submit_work by (auto simp: wq_abs_def)
    then obtain e k' where "workqueue_submit_work q w 0 k = Some (e, k')" "wq_inv Q X k'"
      "(e, wq_abs k') = submit_spec q w False (wq_abs k)"
      using submit_now_ok [OF i] by metis
    then show ?thesis using True Submit_work by (auto simp: rt_workqueue_submit_work_def split: prod.split)
  next
    case False
    then obtain k' where "workqueue_submit_work q w ticks k = Some (RT_EOK, k')" "wq_inv Q X k'"
      "(RT_EOK, wq_abs k') = submit_spec q w True (wq_abs k)"
      using submit_delayed_ok [OF i _ False] m Submit_work by auto
    then show ?thesis using False m Submit_work by (auto simp: rt_workqueue_submit_work_def split: prod.split)
  qed
next
  case (Urgent_work q w)
  then have "\<not> submitting k w" "w \<notin> X" "q \<in> Q"
    using n m submitting_delayed(1) [OF i, of w] by (auto simp: wq_abs_def)
  then show ?thesis using urgent_ok [OF i, of q w] Urgent_work by auto
next
  case (Cancel_work q w)
  then show ?thesis using cancel_ok [OF i, of w q] m by (auto simp: rt_workqueue_cancel_work_def)
next
  case (Delay_expires q w)
  then have w: "w \<notin> X" "Timer w \<in> set (timer_list k)" using m by simp_all
  note sd = submitting_delayed [OF i w(1)]
  have "submitting k w" using sd(2) w(2) by blast
  moreover have "w \<in> set (delayed_list (wqu k q))" using sd(1,3) \<open>submitting k w\<close> m Delay_expires by auto
  ultimately show ?thesis using expire_ok [OF i, of w q] sd(3) Delay_expires by auto
next
  case (Take_work q)
  then obtain o' k' where "workqueue_take q k = Some (o', k')" "wq_inv Q X k'" "(o', wq_abs k') = take_spec q (wq_abs k)"
    using take_ok [OF i, of q] m by auto
  then show ?thesis using Take_work by (auto split: prod.split)
next
  case (Finish_work q)
  then show ?thesis using finish_ok [OF i, of q] m by auto
qed

text \<open>
  What the rest of the system does between the calls: other threads, interrupts, ticks, the
  functions of the items.  It keeps the invariant of the kernel and that of the semaphores of the
  queues, as every kernel call does (theory \<open>System\<close>), it is at the end of its calls, where no
  timer is on its way to its function; and it leaves the queues, the items and their timers alone
  and does not suspend the thread of a queue while that runs no item.  Timers of the
  application, with numbers in \<open>X\<close>, may be started, stopped and fire.
\<close>

definition elsewhere :: "nat set \<Rightarrow> nat set \<Rightarrow> kernel \<Rightarrow> kernel \<Rightarrow> bool" where
  "elsewhere Q X k k' \<longleftrightarrow>
     sinv k' \<and> current k' \<noteq> None \<and> (\<forall>q\<in>Q. is_sem (work_sem (wqu k q)) k' \<and> sem_ok (work_sem (wqu k q)) k') \<and>
     fired_list k' = [] \<and> distinct (containers k' Class_Timer) \<and>
     works (devipc k') = works (devipc k) \<and> workqueues (devipc k') = workqueues (devipc k) \<and>
     (\<forall>w. w \<notin> X \<longrightarrow> timers k' (Timer w) = timers k (Timer w) \<and>
        objs k' (Obj_Timer (Timer w)) = objs k (Obj_Timer (Timer w)) \<and>
        (Timer w \<in> set (timer_list k') \<longleftrightarrow> Timer w \<in> set (timer_list k)) \<and>
        (Obj_Timer (Timer w) \<in> set (containers k' Class_Timer) \<longleftrightarrow> Obj_Timer (Timer w) \<in> set (containers k Class_Timer))) \<and>
     (\<forall>q\<in>Q. work_current (wqu k q) = None \<and> tstat k (work_thread (wqu k q)) \<noteq> RT_THREAD_SUSPEND \<longrightarrow>
        tstat k' (work_thread (wqu k q)) \<noteq> RT_THREAD_SUSPEND)"

lemma elsewhere_inv:
  assumes e: "elsewhere Q X k k'" and i: "wq_inv Q X k"
  shows "wq_inv Q X k'" "wq_abs k' = wq_abs k"
proof -
  have d: "wrk k' = wrk k" "wqu k' = wqu k" using e by (simp_all add: elsewhere_def)
  then show "wq_abs k' = wq_abs k" by (simp add: wq_abs_def)
  have c: "wq_core Q X {} k" using i by (simp add: wq_inv_def)
  have w: "works_ok Q k'" using wq_coreD(3) [OF c] d by (simp add: works_ok_def)
  have t: "timer_state_ok k' v" if "v \<notin> X" for v
  proof -
    have "timer_state_ok k v" using wq_coreD(6) [OF c _ that] by simp
    moreover have "timers k' (Timer v) = timers k (Timer v)" "objs k' (Obj_Timer (Timer v)) = objs k (Obj_Timer (Timer v))"
      "Timer v \<in> set (timer_list k') \<longleftrightarrow> Timer v \<in> set (timer_list k)"
      "Obj_Timer (Timer v) \<in> set (containers k' Class_Timer) \<longleftrightarrow> Obj_Timer (Timer v) \<in> set (containers k Class_Timer)"
      using e that by (simp_all add: elsewhere_def)
    moreover from this have "item_timer v k' = item_timer v k"
      by (simp add: item_timer_def rt_object_get_type_def rt_object_is_systemobject_def)
    ultimately show ?thesis by (simp add: timer_state_ok_def d)
  qed
  have "\<forall>q\<in>Q. is_sem (work_sem (wqu k' q)) k' \<and> sem_ok (work_sem (wqu k' q)) k'" "inj_on (\<lambda>q. work_thread (wqu k' q)) Q"
    "\<forall>w\<in>X - {}. work_link (wrk k' w) = None \<and> \<not> submitting k' w"
    using e c d by (simp_all add: elsewhere_def wq_core_def)
  moreover have "sinv k'" "current k' \<noteq> None" "distinct (containers k' Class_Timer)" "fired_list k' = []"
    using e by (simp_all add: elsewhere_def)
  ultimately have c': "wq_core Q X {} k'" using w t unfolding wq_core_def by blast
  have "awake_at k' q" for q
  proof (cases "q \<in> Q")
    case True
    then show ?thesis using e i d unfolding awake_at_def elsewhere_def wq_inv_def by metis
  next
    case False
    then have "work_list (wqu k' q) = []" using w by (auto simp: works_ok_def) (metis list.set_intros(1) neq_Nil_conv)
    then show ?thesis by (simp add: awake_at_def)
  qed
  then show "wq_inv Q X k'" using c' by (simp add: wq_inv_def)
qed

text \<open>Scheduling is such a step.\<close>

lemma schedule_elsewhere:
  assumes i: "wq_inv Q X k" and r: "rt_schedule k = Some k'"
  shows "elsewhere Q X k k'"
proof -
  have c: "wq_core Q X {} k" using i by (simp add: wq_inv_def)
  obtain k1 where k1: "rt_schedule k = Some k1" "sinv k1" "sched_rel k k1" "current k1 \<noteq> None"
    using rt_schedule_sinv [OF wq_coreD(1,2) [OF c]] by blast
  then have e: "k1 = k'" using r by simp
  have f: "wframe {} k k'" using sched_wframe [OF k1(3,4)] e by simp
  note w = wq_frame(1) [OF f k1(2) [unfolded e] c]
  have d: "devipc k' = devipc k" using f by (simp add: wframe_def)
  show ?thesis using w f d unfolding elsewhere_def wq_core_def wframe_def by simp
qed

inductive wq_trace :: "nat set \<Rightarrow> nat set \<Rightarrow> kernel \<Rightarrow> (wq_call \<times> rt_err \<times> nat option) list \<Rightarrow> kernel \<Rightarrow> bool" for Q X where
  nothing: "wq_trace Q X k [] k"
| call: "wq_may Q X k c \<Longrightarrow> wq_do c k = Some (r, k1) \<Longrightarrow> wq_trace Q X k1 es k2 \<Longrightarrow> wq_trace Q X k ((c, r) # es) k2"
| other: "elsewhere Q X k k1 \<Longrightarrow> wq_trace Q X k1 es k2 \<Longrightarrow> wq_trace Q X k es k2"

fun spec_run :: "(wq_call \<times> rt_err \<times> nat option) list \<Rightarrow> wq_spec \<Rightarrow> wq_spec option" where
  "spec_run [] a = Some a"
| "spec_run ((c, r) # es) a = (case wq_step c a of (r', a') \<Rightarrow> if r = r' then spec_run es a' else None)"

lemma trace_ok:
  "wq_trace Q X k es k' \<Longrightarrow> wq_inv Q X k \<Longrightarrow> resubmission_free es (wq_abs k) \<Longrightarrow>
     wq_inv Q X k' \<and> spec_run es (wq_abs k) = Some (wq_abs k')"
proof (induction rule: wq_trace.induct)
  case (call k c r k1 es k2)
  have "wq_inv Q X k1 \<and> (r, wq_abs k1) = wq_step c (wq_abs k)"
    using wq_do_ok [OF call.prems(1) call.hyps(1)] call.prems(2) call.hyps(2) by simp
  then have s: "wq_inv Q X k1" "wq_step c (wq_abs k) = (r, wq_abs k1)" by simp_all
  then show ?case using call.IH call.prems(2) by simp
next
  case (other k k1 es k2)
  then show ?case using elsewhere_inv [OF other.hyps(1) other.prems(1)] by simp
qed simp

lemma sample_wq: "wq_inv {0} {} sample_kernel"
proof -
  have "timer_state_ok sample_kernel w" for w by (simp add: timer_state_ok_def sample_kernel_def)
  moreover have "lists sample_kernel (Suspended_on (Obj_Sem 1)) = []" by (simp add: sample_kernel_def upt_rec)
  ultimately show ?thesis using sample_sinv sample_is_sem [of 1]
    by (simp add: wq_inv_def wq_core_def works_ok_def awake_at_def sem_ok_def) (simp add: sample_kernel_def)
qed

lemma trace_call:
  assumes "wq_trace Q X k0 es k" "wq_may Q X k c" "wq_do c k = Some (r, k')"
  shows "wq_trace Q X k0 (es @ [(c, r)]) k'"
  using assms by (induction rule: wq_trace.induct) (auto intro: wq_trace.intros)

lemma trace_other:
  assumes "wq_trace Q X k0 es k" "elsewhere Q X k k'"
  shows "wq_trace Q X k0 es k'"
  using assms by (induction rule: wq_trace.induct) (auto intro: wq_trace.intros)

lemma resubmission_free_append:
  "resubmission_free es a \<Longrightarrow> spec_run es a = Some b \<Longrightarrow>
     resubmission_free (es @ [(c, r)]) a \<longleftrightarrow> not_delayed c b"
  by (induction es a rule: resubmission_free.induct) (auto split: prod.splits if_splits)

lemma trace_step:
  assumes "wq_inv Q X k0" "wq_trace Q X k0 es k" "resubmission_free es (wq_abs k0)" "wq_may Q X k c" "not_delayed c (wq_abs k)"
  shows "\<exists>r k'. wq_trace Q X k0 (es @ [(c, r)]) k' \<and> resubmission_free (es @ [(c, r)]) (wq_abs k0) \<and>
     wq_inv Q X k' \<and> (r, wq_abs k') = wq_step c (wq_abs k)"
proof -
  have k: "wq_inv Q X k" "spec_run es (wq_abs k0) = Some (wq_abs k)" using trace_ok [OF assms(2,1,3)] by blast+
  obtain r k' where k': "wq_do c k = Some (r, k')" "wq_inv Q X k'" "(r, wq_abs k') = wq_step c (wq_abs k)"
    using wq_do_ok [OF k(1) assms(4,5)] by blast
  then show ?thesis
    using trace_call [OF assms(2,4) k'(1)] resubmission_free_append [OF assms(3) k(2), of c r] assms(5) by blast
qed

section \<open>Properties\<close>

text \<open>
  C37.  Refinement.  In every run of the calls on work queues, whatever else happens between them,
  the queues behave as the abstract queues do, provided no item is submitted for now while its
  delay runs (\<open>resubmission_free\<close>; without this the code fails, as
  \<open>delayed_resubmission_fails\<close> shows): items run in the order
  of their submission, an item is in at most one list and once, one that is submitted while it runs
  is refused with \<open>-RT_EBUSY\<close>, a cancelled one is in no list.  The next call returns, unless it is
  such a submission, and no wake-up is lost: a queue with work and no current item has a thread that
  is not suspended.
\<close>

theorem workqueue_refines:
  assumes "wq_inv Q X k0" "wq_trace Q X k0 es k" "resubmission_free es (wq_abs k0)"
  shows "spec_run es (wq_abs k0) = Some (wq_abs k) \<and>
     (wq_may Q X k c \<and> not_delayed c (wq_abs k) \<longrightarrow> wq_do c k \<noteq> None) \<and>
     (\<forall>q. work_list (wqu k q) \<noteq> [] \<and> work_current (wqu k q) = None \<longrightarrow>
        tstat k (work_thread (wqu k q)) \<noteq> RT_THREAD_SUSPEND) \<and>
     (\<forall>q. distinct (work_list (wqu k q))) \<and>
     (\<forall>q p w. w \<in> set (work_list (wqu k q)) \<and> w \<in> set (work_list (wqu k p)) \<longrightarrow> p = q) \<and>
     (\<forall>q w. w \<in> set (delayed_list (wqu k q)) \<longrightarrow> Timer w \<in> set (timer_list k))"
proof -
  have i: "wq_inv Q X k" "spec_run es (wq_abs k0) = Some (wq_abs k)" using trace_ok [OF assms(2,1,3)] by auto
  then have w: "works_ok Q k" "\<forall>w\<in>X. work_link (wrk k w) = None" by (simp_all add: wq_inv_def wq_core_def)
  have "Timer w \<in> set (timer_list k)" if d: "w \<in> set (delayed_list (wqu k q))" for q w
  proof -
    have "work_link (wrk k w) = Some (Delayed_list q)" using d w(1) by (simp add: works_ok_def)
    then have "w \<notin> X" using w(2) by auto
    then show ?thesis using submitting_delayed(1,2) [OF i(1)] d by blast
  qed
  moreover have "wq_do c k \<noteq> None" if "wq_may Q X k c" "not_delayed c (wq_abs k)" using wq_do_ok [OF i(1) that] by auto
  moreover have "\<forall>q. awake_at k q" using i(1) by (simp add: wq_inv_def)
  ultimately show ?thesis using i(2) w(1) by (auto simp: awake_at_def works_ok_def)
qed

theorem workqueue_refines_witness:
  "\<exists>es k. wq_trace {0} {} sample_kernel es k \<and>
     map fst es = [Submit_work 0 7 0, Submit_work 0 9 5, Delay_expires 0 9] \<and>
     work_list (wqu k 0) = [7, 9] \<and> tstat k (work_thread (wqu k 0)) \<noteq> RT_THREAD_SUSPEND"
proof -
  note i = sample_wq
  have "wq_may {0} {} sample_kernel (Submit_work 0 7 0)" "not_delayed (Submit_work 0 7 0) (wq_abs sample_kernel)"
    by (simp_all add: sample_kernel_def wq_abs_def)
  from trace_step [OF i wq_trace.nothing _ this] obtain r1 k0 where k0: "wq_trace {0} {} sample_kernel [(Submit_work 0 7 0, r1)] k0"
    "resubmission_free [(Submit_work 0 7 0, r1)] (wq_abs sample_kernel)" "wq_inv {0} {} k0"
    "(r1, wq_abs k0) = wq_step (Submit_work 0 7 0) (wq_abs sample_kernel)" by auto
  obtain k1 where "rt_schedule k0 = Some k1" using rt_schedule_sinv [of k0] k0(3) by (auto simp: wq_inv_def wq_core_def)
  note e = schedule_elsewhere [OF k0(3) this]
  have k1: "wq_trace {0} {} sample_kernel [(Submit_work 0 7 0, r1)] k1" "wq_inv {0} {} k1"
    "(r1, wq_abs k1) = wq_step (Submit_work 0 7 0) (wq_abs sample_kernel)"
    using trace_other [OF k0(1) e] elsewhere_inv [OF e k0(3)] k0(4) by simp_all
  have "wq_may {0} {} k1 (Submit_work 0 9 5)" "not_delayed (Submit_work 0 9 5) (wq_abs k1)" by (simp_all add: wq_abs_def)
  from trace_step [OF i k1(1) k0(2) this] obtain r2 k2 where
    k2: "wq_trace {0} {} sample_kernel [(Submit_work 0 7 0, r1), (Submit_work 0 9 5, r2)] k2"
      "resubmission_free [(Submit_work 0 7 0, r1), (Submit_work 0 9 5, r2)] (wq_abs sample_kernel)" "wq_inv {0} {} k2"
      "(r2, wq_abs k2) = wq_step (Submit_work 0 9 5) (wq_abs k1)" by auto
  have d2: "wq_abs k2 = (\<lambda>q. if q = 0 then [7] else [], \<lambda>q. if q = 0 then [9] else [], \<lambda>_. None)"
    using k1(3) k2(4)
    by (auto simp: wq_abs_def sample_kernel_def submit_spec_def queue_item_def delay_item_def drop_item_def running_def fun_eq_iff)
  then have dl: "9 \<in> set (delayed_list (wqu k2 0))" using wq_absD(2) [OF d2, of 0] by simp
  then have "Timer 9 \<in> set (timer_list k2)" using submitting_delayed(1,2) [OF k2(3), of 9] by blast
  then have "wq_may {0} {} k2 (Delay_expires 0 9)" "not_delayed (Delay_expires 0 9) (wq_abs k2)"
    using dl by (simp_all add: wq_abs_def)
  from trace_step [OF i k2(1,2) this] obtain r3 k where
    k: "wq_trace {0} {} sample_kernel [(Submit_work 0 7 0, r1), (Submit_work 0 9 5, r2), (Delay_expires 0 9, r3)] k"
      "resubmission_free [(Submit_work 0 7 0, r1), (Submit_work 0 9 5, r2), (Delay_expires 0 9, r3)] (wq_abs sample_kernel)"
      "(r3, wq_abs k) = wq_step (Delay_expires 0 9) (wq_abs k2)" by auto
  have "wq_abs k = (\<lambda>q. if q = 0 then [7, 9] else [], \<lambda>q. [], \<lambda>_. None)"
    using k(3) by (auto simp: d2 expire_spec_def queue_item_def drop_item_def running_def fun_eq_iff)
  then have l: "work_list (wqu k 0) = [7, 9]" "work_current (wqu k 0) = None" using wq_absD by force+
  show ?thesis
    by (intro exI [of _ "[(Submit_work 0 7 0, r1), (Submit_work 0 9 5, r2), (Delay_expires 0 9, r3)]"] exI [of _ k])
      (use k(1) l workqueue_refines [OF i k(1,2)] in simp)
qed

text \<open>
  C38.  The end of an item.  The loop that acknowledges it ends; every thread that waits in
  \<open>rt_workqueue_cancel_work_sync\<close> can run and its call returns \<open>RT_EOK\<close>, the line of the semaphore
  is empty, and the queue has no current item.
\<close>

theorem workqueue_done_wakes:
  assumes "wq_inv Q X k" "q \<in> Q" "runs_thread k q"
  shows "\<exists>k'. workqueue_done q k = Some k' \<and> wq_inv Q X k' \<and> work_current (wqu k' q) = None \<and>
     work_list (wqu k' q) = work_list (wqu k q) \<and> lists k' (Suspended_on (Obj_Sem (work_sem (wqu k q)))) = [] \<and>
     (\<forall>t\<in>set (lists k (Suspended_on (Obj_Sem (work_sem (wqu k q))))).
        runnable k' t \<and> fst (rt_workqueue_cancel_work_sync_finish t k') = Returns RT_EOK None)"
proof -
  obtain k' where k': "workqueue_done q k = Some k'" "wq_inv Q X k'"
    "wq_abs k' = (case wq_abs k of (P, D, C) \<Rightarrow> (P, D, C(q := None)))"
    "lists k' (Suspended_on (Obj_Sem (work_sem (wqu k q)))) = []"
    "\<forall>t\<in>set (lists k (Suspended_on (Obj_Sem (work_sem (wqu k q))))). runnable k' t"
    using finish_ok [OF assms] by blast
  have "wq_abs k' = (\<lambda>q. work_list (wqu k q), \<lambda>q. delayed_list (wqu k q), (\<lambda>q. work_current (wqu k q))(q := None))"
    using k'(3) by (simp add: wq_abs_def)
  from wq_absD [OF this] have "work_current (wqu k' q) = None" "work_list (wqu k' q) = work_list (wqu k q)" by simp_all
  then show ?thesis using k' by (simp add: rt_workqueue_cancel_work_sync_finish_def)
qed

theorem workqueue_done_wakes_witness:
  "\<exists>k'. workqueue_done 0 sample_kernel = Some k' \<and> work_current (wqu k' 0) = None"
proof -
  have "runs_thread sample_kernel 0" by (simp add: sample_kernel_def sample_thread_def sample_stat_def)
  then show ?thesis using workqueue_done_wakes [OF sample_wq, of 0] by blast
qed

text \<open>
  \<open>rt_workqueue_cancel_all_work\<close> ends, with both lists of the queue empty.
\<close>

theorem cancel_all_empties:
  assumes "wq_inv Q X k"
  shows "\<exists>k'. rt_workqueue_cancel_all_work q k = Some (RT_EOK, k') \<and> wq_inv Q X k' \<and>
     work_list (wqu k' q) = [] \<and> delayed_list (wqu k' q) = []"
  using cancel_all_ok [OF assms] .

theorem cancel_all_empties_witness:
  "\<exists>k'. rt_workqueue_cancel_all_work 0 sample_kernel = Some (RT_EOK, k') \<and> work_list (wqu k' 0) = []"
  using cancel_all_empties [OF sample_wq, of 0] by blast

text \<open>
  C39.  Submitting a delayed item for now breaks the queue.  Its timer keeps running; the item is run
  and has no queue any more; when the timer expires, the assertion of the timeout handler fails.
\<close>

theorem delayed_resubmission_fails:
  assumes "wq_inv Q X k" "q \<in> Q" "submitting k w" "work_list (wqu k q) = []" "work_current (wqu k q) \<noteq> Some w"
  shows "\<exists>k1 k2. rt_workqueue_dowork q w k = Some (RT_EOK, k1) \<and> workqueue_take q k1 = Some (Some w, k2) \<and>
     Timer w \<in> set (timer_list k2) \<and> timer_fire delayed_work_timeout_handler (Timer w) k2 = None"
proof -
  define k1 where "k1 = clear_pending w (work_unlink w k)"
  note t = taken_out [OF assms(1), where w = w, folded k1_def]
  note fr = only_works_frame [OF t(3)]
  have tm: "item_timer w k" "Timer w \<in> set (timer_list k)"
    using assms(1,3) by (auto simp: wq_inv_def wq_core_def timer_state_ok_def)
  let ?k2 = "upd_work w (\<lambda>x. x\<lparr>work_flags := work_flags x OR RT_WORK_STATE_PENDING, work_owner := Some q\<rparr>) (work_append q w k1)"
  have l: "work_list (wqu k1 q) = []" "work_current (wqu k1 q) \<noteq> Some w" using drop_absD [OF t(2)] assms(4,5) by simp_all
  have ow: "only_works k1 ?k2" by (rule only_works_trans [of k1 "work_append q w k1"]) simp_all
  note fr2 = only_works_frame [OF ow]
  have "sinv ?k2" "current ?k2 \<noteq> None" using wq_coreD(1,2) [OF t(1)] fr2(8,11) by metis+
  then obtain k3 where k3: "work_thread_wake q ?k2 = Some k3" "wframe {} ?k2 k3" using wake_ok by blast
  have "workqueue_submit_work q w 0 k = Some (RT_EOK, k3)"
    using l(2) k3(1) by (simp add: workqueue_submit_work_def Let_def k1_def [symmetric])
  moreover have d: "devipc k3 = devipc ?k2" "timers k3 (Timer w) = timers ?k2 (Timer w)"
    "Timer w \<in> set (timer_list k3) \<longleftrightarrow> Timer w \<in> set (timer_list ?k2)" using k3(2) by (simp_all add: wframe_def)
  then have wl: "work_list (wqu k3 q) = [w]" using l(1) by (simp add: work_append_def)
  moreover define k4 where "k4 = upd_work w (\<lambda>x. x\<lparr>work_flags := work_flags x AND NOT RT_WORK_STATE_PENDING, work_owner := None\<rparr>)
      (upd_wq q (\<lambda>x. x\<lparr>work_current := Some w\<rparr>) (work_unlink w k3))"
  moreover have "workqueue_take q k3 = Some (Some w, k4)" using wl by (simp add: workqueue_take_def Let_def k4_def)
  moreover have f4: "timers k4 (Timer w) = timers k (Timer w)" "Timer w \<in> set (timer_list k4)"
    using d(2,3) tm(2) by (simp_all add: k4_def only_works_frame [OF moves_only_works(5)] only_works_frame [OF moves_only_works(1)] fr)
  moreover have "delayed_work_timeout_handler w k' = None" if "devipc k' = devipc k4" for k'
    using that by (simp add: delayed_work_timeout_handler_def k4_def)
  then have "timer_fire delayed_work_timeout_handler (Timer w) k4 = None"
    using f4(1) tm(1) by (simp add: timer_fire_def call_timeout_def item_timer_def timer_remove_def Let_def)
  ultimately show ?thesis by (auto simp: rt_workqueue_dowork_def)
qed

theorem delayed_resubmission_fails_witness:
  "\<exists>k k1 k2. rt_workqueue_submit_work 0 9 5 sample_kernel = Some (RT_EOK, k) \<and> rt_workqueue_dowork 0 9 k = Some (RT_EOK, k1) \<and>
     workqueue_take 0 k1 = Some (Some 9, k2) \<and> timer_fire delayed_work_timeout_handler (Timer 9) k2 = None"
proof -
  obtain k where k: "workqueue_submit_work 0 9 5 sample_kernel = Some (RT_EOK, k)" "wq_inv {0} {} k"
    "(RT_EOK, wq_abs k) = submit_spec 0 9 True (wq_abs sample_kernel)" "submitting k 9"
    using submit_delayed_ok [OF sample_wq, of 0 5 9] by auto
  have "wq_abs k = (\<lambda>q. [], \<lambda>q. if q = 0 then [9] else [], \<lambda>_. None)"
    using k(3) by (auto simp: wq_abs_def sample_kernel_def submit_spec_def delay_item_def drop_item_def fun_eq_iff)
  then have "work_list (wqu k 0) = []" "work_current (wqu k 0) \<noteq> Some 9" using wq_absD by force+
  then show ?thesis using delayed_resubmission_fails [OF k(2) _ k(4), of 0] k(1)
    by (auto simp: rt_workqueue_submit_work_def)
qed

end
