(* ===== verification/Msh.thy ===== *)
theory Msh
  imports Kprintf
begin

text \<open>
  The command interpreter of the shell (\<^verbatim>\<open>components/finsh/msh.c\<close>): splitting a line into
  arguments, finding and calling the command, completion.  A command line is a part of a buffer of
  characters; a pointer into it is a position.  Where the code moves a pointer and a counter
  together, the model keeps the counter.  The table of commands, what the commands do and the
  console are the parameters in \<open>shell_env\<close>.
\<close>

section \<open>Operations\<close>

abbreviation (input) FINSH_ARG_MAX :: nat where "FINSH_ARG_MAX \<equiv> 10"
abbreviation (input) QUOTE :: char where "QUOTE \<equiv> CHR 0x22"
abbreviation (input) BACKSLASH :: char where "BACKSLASH \<equiv> CHR 0x5C"
abbreviation (input) TAB :: char where "TAB \<equiv> CHR 0x09"
abbreviation (input) LF :: string where "LF \<equiv> [CHR 0x0A]"

definition is_blank :: "char \<Rightarrow> bool" where
  "is_blank c \<longleftrightarrow> c = CHR '' '' \<or> c = TAB"

text \<open>
  An entry of the command table.  \<open>call\<close> runs the function of an entry on its arguments;
  \<open>print\<close> is \<open>rt_kprintf\<close> on the console.  Both change the rest of the world, \<open>'w\<close>.
\<close>

record finsh_syscall =
  sys_name :: string
  sys_desc :: string
  sys_func :: nat

record 'w shell_env =
  symtab :: "finsh_syscall list"
  print :: "string \<Rightarrow> va_arg list \<Rightarrow> 'w \<Rightarrow> 'w"
  call :: "nat \<Rightarrow> string list \<Rightarrow> 'w \<Rightarrow> int \<times> 'w"

text \<open>The string that begins at a position; none if no null byte follows in the buffer.\<close>

definition string_at :: "string \<Rightarrow> nat \<Rightarrow> string option" where
  "string_at b p =
     (if NUL \<in> set (drop p b) then Some (takeWhile (\<lambda>c. c \<noteq> NUL) (drop p b)) else None)"

fun strings_at :: "string \<Rightarrow> nat list \<Rightarrow> string list option" where
  "strings_at b [] = Some []"
| "strings_at b (p # ps) = do { s \<leftarrow> string_at b p; ss \<leftarrow> strings_at b ps; Some (s # ss) }"

subsection \<open>Splitting a line\<close>

function strip_blanks :: "nat \<Rightarrow> nat \<Rightarrow> string \<Rightarrow> nat \<Rightarrow> (string \<times> nat) option" where
  "strip_blanks cmd n b pos =
     do {
       c \<leftarrow> load b (cmd + pos);
       if is_blank c \<and> pos < n
       then do { b \<leftarrow> store b (cmd + pos) NUL; strip_blanks cmd n b (Suc pos) }
       else Some (b, pos)
     }"
  by auto
termination
  by (relation "measure (\<lambda>(cmd, n, b, pos). n - pos)") auto

function skip_string :: "nat \<Rightarrow> nat \<Rightarrow> string \<Rightarrow> nat \<Rightarrow> nat option" where
  "skip_string cmd n b pos =
     do {
       c \<leftarrow> load b (cmd + pos);
       if c \<noteq> QUOTE \<and> pos < n then
         (if c = BACKSLASH
          then do {
                 d \<leftarrow> load b (cmd + Suc pos);
                 if d = QUOTE then skip_string cmd n b (Suc (Suc pos)) else skip_string cmd n b (Suc pos)
               }
          else skip_string cmd n b (Suc pos))
       else Some pos
     }"
  by auto
termination
  by (relation "measure (\<lambda>(cmd, n, b, pos). n - pos)") auto

function skip_word :: "nat \<Rightarrow> nat \<Rightarrow> string \<Rightarrow> nat \<Rightarrow> nat option" where
  "skip_word cmd n b pos =
     do {
       c \<leftarrow> load b (cmd + pos);
       if \<not> is_blank c \<and> pos < n then skip_word cmd n b (Suc pos) else Some pos
     }"
  by auto
termination
  by (relation "measure (\<lambda>(cmd, n, b, pos). n - pos)") auto

declare strip_blanks.simps [simp del] skip_string.simps [simp del] skip_word.simps [simp del]

lemma strip_blanks_mono: "strip_blanks cmd n b pos = Some (b', pos') \<Longrightarrow> pos \<le> pos' \<and> length b' = length b"
proof (induction cmd n b pos arbitrary: b' pos' rule: strip_blanks.induct)
  case (1 cmd n b pos)
  then obtain c where c: "load b (cmd + pos) = Some c" by (subst (asm) (2) strip_blanks.simps) (auto simp: bind_eq_Some_conv)
  show ?case
  proof (cases "is_blank c \<and> pos < n")
    case True
    then obtain b1 where b1: "store b (cmd + pos) NUL = Some b1" "strip_blanks cmd n b1 (Suc pos) = Some (b', pos')"
      using "1.prems" c by (subst (asm) strip_blanks.simps) (auto simp: bind_eq_Some_conv)
    then show ?thesis using "1.IH" [OF c True b1] by (auto simp: store_def split: if_splits)
  qed (use "1.prems" c in \<open>subst (asm) strip_blanks.simps, auto\<close>)
qed

lemma skip_string_mono: "skip_string cmd n b pos = Some pos' \<Longrightarrow> pos \<le> pos'"
proof (induction cmd n b pos arbitrary: pos' rule: skip_string.induct)
  case (1 cmd n b pos)
  then obtain c where c: "load b (cmd + pos) = Some c" by (subst (asm) (4) skip_string.simps) (auto simp: bind_eq_Some_conv)
  show ?case
  proof (cases "c \<noteq> QUOTE \<and> pos < n")
    case True
    then consider (e) "c = BACKSLASH" "load b (cmd + Suc pos) = Some QUOTE" "skip_string cmd n b (Suc (Suc pos)) = Some pos'"
      | (o) d where "skip_string cmd n b (Suc pos) = Some pos'" "c = BACKSLASH" "load b (cmd + Suc pos) = Some d" "d \<noteq> QUOTE"
      | (p) "skip_string cmd n b (Suc pos) = Some pos'" "c \<noteq> BACKSLASH"
      using "1.prems" c by (subst (asm) skip_string.simps) (auto simp: bind_eq_Some_conv split: if_splits)
    then show ?thesis
    proof cases
      case e
      show ?thesis using "1.IH"(1) [OF c True e(1,2) refl e(3)] by simp
    next
      case (o d)
      show ?thesis using "1.IH"(2) [OF c True o(2-4,1)] by simp
    next
      case p
      show ?thesis using "1.IH"(3) [OF c True p(2,1)] by simp
    qed
  qed (use "1.prems" c in \<open>subst (asm) skip_string.simps, auto\<close>)
qed

lemma skip_word_mono: "skip_word cmd n b pos = Some pos' \<Longrightarrow> pos \<le> pos'"
proof (induction cmd n b pos arbitrary: pos' rule: skip_word.induct)
  case (1 cmd n b pos)
  then obtain c where c: "load b (cmd + pos) = Some c" by (subst (asm) (2) skip_word.simps) (auto simp: bind_eq_Some_conv)
  show ?case
  proof (cases "\<not> is_blank c \<and> pos < n")
    case True
    then show ?thesis using "1.prems" c "1.IH" [OF c True] by (subst (asm) skip_word.simps) fastforce
  qed (use "1.prems" c in \<open>subst (asm) skip_word.simps, auto\<close>)
qed

text \<open>The text of the arguments so far, for the message that there are too many.\<close>

fun print_args :: "'w shell_env \<Rightarrow> string list \<Rightarrow> 'w \<Rightarrow> 'w" where
  "print_args env [] w = w"
| "print_args env (a # as) w = print_args env as (print env ''%s '' [Arg_str (Some a)] w)"

definition too_many_args :: "'w shell_env \<Rightarrow> string \<Rightarrow> nat list \<Rightarrow> 'w \<Rightarrow> 'w option" where
  "too_many_args env b argv w =
     do {
       args \<leftarrow> strings_at b argv;
       Some (print env LF [] (print_args env args (print env (''Too many args ! We only Use:'' @ LF) [] w)))
     }"

function split_loop ::
    "'w shell_env \<Rightarrow> nat \<Rightarrow> nat \<Rightarrow> string \<Rightarrow> nat \<Rightarrow> nat list \<Rightarrow> 'w \<Rightarrow> (string \<times> nat list \<times> 'w) option" where
  "split_loop env cmd n b pos argv w =
     (if pos < n then
        do {
          (b1, p1) \<leftarrow> strip_blanks cmd n b pos;
          if length argv \<ge> FINSH_ARG_MAX then
            do { w1 \<leftarrow> too_many_args env b1 argv w; Some (b1, argv, w1) }
          else if p1 \<ge> n then Some (b1, argv, w)
          else
            do {
              c \<leftarrow> load b1 (cmd + p1);
              if c = QUOTE then
                do {
                  p2 \<leftarrow> skip_string cmd n b1 (Suc p1);
                  if p2 \<ge> n then Some (b1, argv @ [cmd + Suc p1], w)
                  else
                    do {
                      b2 \<leftarrow> store b1 (cmd + p2) NUL;
                      split_loop env cmd n b2 (Suc p2) (argv @ [cmd + Suc p1]) w
                    }
                }
              else
                do {
                  p2 \<leftarrow> skip_word cmd n b1 p1;
                  if p2 \<ge> n then Some (b1, argv @ [cmd + p1], w)
                  else split_loop env cmd n b1 p2 (argv @ [cmd + p1]) w
                }
            }
        }
      else Some (b, argv, w))"
  by auto
termination
proof (relation "measure (\<lambda>(env, cmd, n, b, pos, argv, w). (n - pos) + (FINSH_ARG_MAX - length argv))", goal_cases)
  case 1
  show ?case by simp
qed (auto dest!: strip_blanks_mono skip_string_mono skip_word_mono)

declare split_loop.simps [simp del]

definition msh_split ::
    "'w shell_env \<Rightarrow> nat \<Rightarrow> nat \<Rightarrow> string \<Rightarrow> 'w \<Rightarrow> (string \<times> nat list \<times> 'w) option" where
  "msh_split env cmd n b w = split_loop env cmd n b 0 [] w"

subsection \<open>Finding and calling a command\<close>

text \<open>The C library's \<open>strncmp(name, cmd, n) == 0\<close>.\<close>

fun strncmp_eq :: "string \<Rightarrow> string \<Rightarrow> nat \<Rightarrow> nat \<Rightarrow> bool option" where
  "strncmp_eq name b p 0 = Some True"
| "strncmp_eq name b p (Suc n) =
     do {
       c \<leftarrow> load b p;
       if peek name \<noteq> c then Some False
       else if c = NUL then Some True
       else strncmp_eq (tl name) b (p + 1) n
     }"

fun find_cmd :: "finsh_syscall list \<Rightarrow> string \<Rightarrow> nat \<Rightarrow> nat \<Rightarrow> nat option option" where
  "find_cmd [] b cmd len = Some None"
| "find_cmd (index # rest) b cmd len =
     do {
       same \<leftarrow> strncmp_eq (sys_name index) b cmd len;
       found \<leftarrow> (if same then do { c \<leftarrow> load (sys_name index @ [NUL]) len; Some (c = NUL) } else Some False);
       if found then Some (Some (sys_func index)) else find_cmd rest b cmd len
     }"

definition msh_get_cmd :: "'w shell_env \<Rightarrow> string \<Rightarrow> nat \<Rightarrow> nat \<Rightarrow> nat option option" where
  "msh_get_cmd env b cmd len = find_cmd (symtab env) b cmd len"

definition msh_exec_cmd ::
    "'w shell_env \<Rightarrow> nat \<Rightarrow> nat \<Rightarrow> string \<Rightarrow> 'w \<Rightarrow> (rt_err \<times> int \<times> string \<times> 'w) option" where
  "msh_exec_cmd env cmd n b w =
     do {
       cmd0_size \<leftarrow> skip_word cmd n b 0;
       if cmd0_size = 0 then Some (- RT_ERROR, 0, b, w)
       else
         do {
           cmd_func \<leftarrow> msh_get_cmd env b cmd cmd0_size;
           case cmd_func of
             None \<Rightarrow> Some (- RT_ERROR, 0, b, w)
           | Some f \<Rightarrow>
               do {
                 (b1, argv, w1) \<leftarrow> msh_split env cmd n b w;
                 if argv = [] then Some (- RT_ERROR, 0, b1, w1)
                 else
                   do {
                     args \<leftarrow> strings_at b1 argv;
                     let (ret, w2) = call env f args w1;
                     Some (0, ret, b1, w2)
                   }
               }
         }
     }"

fun skip_blanks :: "nat \<Rightarrow> nat \<Rightarrow> string \<Rightarrow> (nat \<times> nat) option" where
  "skip_blanks cmd 0 b = Some (cmd, 0)"
| "skip_blanks cmd (Suc n) b =
     do { c \<leftarrow> load b cmd; if is_blank c then skip_blanks (cmd + 1) n b else Some (cmd, Suc n) }"

function first_space :: "string \<Rightarrow> nat \<Rightarrow> nat option" where
  "first_space b p =
     do { c \<leftarrow> load b p; if c \<noteq> CHR '' '' \<and> c \<noteq> NUL then first_space b (p + 1) else Some p }"
  by auto
termination
  by (relation "measure (\<lambda>(b, p). length b - p)") (auto simp: load_def split: if_splits)

definition msh_exec ::
    "'w shell_env \<Rightarrow> nat \<Rightarrow> nat \<Rightarrow> string \<Rightarrow> 'w \<Rightarrow> (int \<times> string \<times> 'w) option" where
  "msh_exec env cmd n b w =
     do {
       (cmd, n) \<leftarrow> skip_blanks cmd n b;
       if n = 0 then Some (0, b, w)
       else
         do {
           (err, cmd_ret, b, w) \<leftarrow> msh_exec_cmd env cmd n b w;
           if err = 0 then Some (cmd_ret, b, w)
           else
             do {
               tcmd \<leftarrow> first_space b cmd;
               b \<leftarrow> store b tcmd NUL;
               name \<leftarrow> string_at b cmd;
               Some (- 1, b, print env (''%s: command not found.'' @ LF) [Arg_str (Some name)] w)
             }
         }
     }"

declare first_space.simps [simp del]

subsection \<open>Help and completion\<close>

fun print_syscalls :: "'w shell_env \<Rightarrow> finsh_syscall list \<Rightarrow> 'w \<Rightarrow> 'w" where
  "print_syscalls env [] w = w"
| "print_syscalls env (index # rest) w =
     print_syscalls env rest
       (print env (''%-16s - %s'' @ LF) [Arg_str (Some (sys_name index)), Arg_str (Some (sys_desc index))] w)"

definition msh_help :: "'w shell_env \<Rightarrow> 'w \<Rightarrow> int \<times> 'w" where
  "msh_help env w =
     (0, print env LF [] (print_syscalls env (symtab env) (print env (''RT-Thread shell commands:'' @ LF) [] w)))"

fun str_common :: "string \<Rightarrow> string \<Rightarrow> nat" where
  "str_common (a # as) (b # bs) = (if a = b then Suc (str_common as bs) else 0)"
| "str_common _ _ = 0"

fun complete_loop ::
    "'w shell_env \<Rightarrow> string \<Rightarrow> nat \<Rightarrow> finsh_syscall list \<Rightarrow> string option \<Rightarrow> nat \<Rightarrow> 'w \<Rightarrow>
       (string option \<times> nat \<times> 'w) option" where
  "complete_loop env b prefix [] name_ptr min_length w = Some (name_ptr, min_length, w)"
| "complete_loop env b prefix (index # rest) name_ptr min_length w =
     do {
       pre \<leftarrow> string_at b prefix;
       let cmd_name = sys_name index;
       same \<leftarrow> strncmp_eq cmd_name b prefix (length pre);
       if same then
         let name_ptr = (if min_length = 0 then Some cmd_name else name_ptr);
             min_length = (if min_length = 0 then length cmd_name else min_length)
         in do {
              name \<leftarrow> name_ptr;
              let common = str_common name cmd_name;
              complete_loop env b prefix rest name_ptr (if common < min_length then common else min_length)
                (print env (''%s'' @ LF) [Arg_str (Some cmd_name)] w)
            }
       else complete_loop env b prefix rest name_ptr min_length w
     }"

text \<open>The last step is \<open>rt_strncpy(prefix, name_ptr, min_length)\<close>, which adds no null byte to a longer name.\<close>

definition msh_auto_complete :: "'w shell_env \<Rightarrow> nat \<Rightarrow> string \<Rightarrow> 'w \<Rightarrow> (string \<times> 'w) option" where
  "msh_auto_complete env prefix b w =
     do {
       c \<leftarrow> load b prefix;
       if c = NUL then Some (b, snd (msh_help env w))
       else
         do {
           (name_ptr, min_length, w) \<leftarrow> complete_loop env b prefix (symtab env) None 0 w;
           case name_ptr of
             None \<Rightarrow> Some (b, w)
           | Some name \<Rightarrow>
               do {
                 b \<leftarrow> write_block b prefix (take min_length (name @ replicate min_length NUL));
                 Some (b, w)
               }
         }
     }"

end
