(* ===== verification/Shell.thy ===== *)
theory Shell
  imports Msh
begin

text \<open>
  The line editor of the shell (\<^verbatim>\<open>components/finsh/shell.c\<close>): escape sequences, editing in the line,
  the history, completion, and handing the finished line to \<open>msh_exec\<close>.  \<open>shell_key\<close> is one pass of
  the loop of \<open>finsh_thread_entry\<close> on the byte that \<open>finsh_getchar\<close> returned, \<open>None\<close> for a negative
  number.  The lines of the history are the rows of \<open>cmd_history\<close>.
\<close>

abbreviation (input) FINSH_CMD_SIZE :: nat where "FINSH_CMD_SIZE \<equiv> 80"
abbreviation (input) FINSH_HISTORY_LINES :: nat where "FINSH_HISTORY_LINES \<equiv> 5"
abbreviation (input) BS :: string where "BS \<equiv> [CHR 0x08]"
abbreviation (input) ESC :: char where "ESC \<equiv> CHR 0x1B"

datatype input_stat = WAIT_NORMAL | WAIT_SPEC_KEY | WAIT_FUNC_KEY

text \<open>\<open>prompt_custom\<close> is the static variable \<open>finsh_prompt_custom\<close>.\<close>

record finsh_shell =
  input_state :: input_stat
  echo_mode :: bool
  prompt_mode :: bool
  current_history :: u16
  history_count :: u16
  cmd_history :: "string list"
  line :: string
  line_position :: u16
  line_curpos :: u16
  prompt_custom :: "string option"

text \<open>The mode fields are one bit wide.\<close>

definition finsh_set_echo :: "u32 \<Rightarrow> finsh_shell \<Rightarrow> finsh_shell" where
  "finsh_set_echo echo sh = sh\<lparr>echo_mode := odd (unat echo)\<rparr>"

definition finsh_get_echo :: "finsh_shell \<Rightarrow> u32" where
  "finsh_get_echo sh = of_bool (echo_mode sh)"

definition finsh_set_prompt_mode :: "u32 \<Rightarrow> finsh_shell \<Rightarrow> finsh_shell" where
  "finsh_set_prompt_mode mode sh = sh\<lparr>prompt_mode := odd (unat mode)\<rparr>"

definition finsh_get_prompt_mode :: "finsh_shell \<Rightarrow> u32" where
  "finsh_get_prompt_mode sh = of_bool (prompt_mode sh)"

text \<open>\<open>room\<close> says whether \<open>rt_malloc\<close> has room for the copy.\<close>

definition finsh_set_prompt :: "bool \<Rightarrow> string option \<Rightarrow> finsh_shell \<Rightarrow> finsh_shell" where
  "finsh_set_prompt room prompt sh =
     sh\<lparr>prompt_custom := (case prompt of Some p \<Rightarrow> if room then Some p else None | None \<Rightarrow> None)\<rparr>"

text \<open>
  The static buffer has 129 characters, the last of which stays null.  Appending \<open>>\<close> to a text of
  128 characters would write behind it.
\<close>

definition finsh_get_prompt :: "finsh_shell \<Rightarrow> string option" where
  "finsh_get_prompt sh =
     (if \<not> prompt_mode sh then Some []
      else
        let p = (case prompt_custom sh of Some c \<Rightarrow> take 128 c | None \<Rightarrow> ''msh '')
        in if length p + 2 \<le> 129 then Some (p @ ''>'') else None)"

fun print_times :: "'w shell_env \<Rightarrow> nat \<Rightarrow> string \<Rightarrow> 'w \<Rightarrow> 'w" where
  "print_times env 0 fmt w = w"
| "print_times env (Suc n) fmt w = print_times env n fmt (print env fmt [] w)"

definition shell_auto_complete ::
    "'w shell_env \<Rightarrow> finsh_shell \<times> 'w \<Rightarrow> (finsh_shell \<times> 'w) option" where
  "shell_auto_complete env = (\<lambda>(sh, w).
     do {
       (b, w) \<leftarrow> msh_auto_complete env 0 (line sh) (print env LF [] w);
       prompt \<leftarrow> finsh_get_prompt sh;
       prefix \<leftarrow> string_at b 0;
       Some (sh\<lparr>line := b\<rparr>, print env ''%s%s'' [Arg_str (Some prompt), Arg_str (Some prefix)] w)
     })"

definition shell_handle_history ::
    "'w shell_env \<Rightarrow> finsh_shell \<times> 'w \<Rightarrow> (finsh_shell \<times> 'w) option" where
  "shell_handle_history env = (\<lambda>(sh, w).
     do {
       prompt \<leftarrow> finsh_get_prompt sh;
       text \<leftarrow> string_at (line sh) 0;
       Some (sh, print env ''%s%s'' [Arg_str (Some prompt), Arg_str (Some text)]
                   (print env (ESC # ''[2K'' @ [CHR 0x0D]) [] w))
     })"

text \<open>The rows from \<open>i\<close> to the last but one each take the next row.\<close>

fun move_history :: "string list \<Rightarrow> nat \<Rightarrow> nat \<Rightarrow> string list option" where
  "move_history rows i 0 = Some rows"
| "move_history rows i (Suc n) =
     do { r \<leftarrow> load rows (i + 1); rows \<leftarrow> store rows i r; move_history rows (i + 1) n }"

definition history_row :: "finsh_shell \<Rightarrow> nat \<Rightarrow> finsh_shell option" where
  "history_row sh i =
     do {
       text \<leftarrow> read_block (line sh) 0 (unat (line_position sh));
       row \<leftarrow> write_block (replicate FINSH_CMD_SIZE NUL) 0 text;
       rows \<leftarrow> store (cmd_history sh) i row;
       Some (sh\<lparr>cmd_history := rows\<rparr>)
     }"

definition shell_push_history :: "finsh_shell \<Rightarrow> finsh_shell option" where
  "shell_push_history sh =
     do {
       sh \<leftarrow> (if line_position sh \<noteq> 0 then
                if unat (history_count sh) \<ge> FINSH_HISTORY_LINES then
                  do {
                    last_cmd \<leftarrow> load (cmd_history sh) (FINSH_HISTORY_LINES - 1);
                    text \<leftarrow> read_block (line sh) 0 FINSH_CMD_SIZE;
                    if last_cmd \<noteq> text then
                      do {
                        rows \<leftarrow> move_history (cmd_history sh) 0 (FINSH_HISTORY_LINES - 1);
                        sh \<leftarrow> history_row (sh\<lparr>cmd_history := rows\<rparr>) (FINSH_HISTORY_LINES - 1);
                        Some (sh\<lparr>history_count := of_nat FINSH_HISTORY_LINES\<rparr>)
                      }
                    else Some sh
                  }
                else
                  do {
                    differs \<leftarrow> (if history_count sh = 0 then Some True
                                else do {
                                       last_cmd \<leftarrow> load (cmd_history sh) (unat (history_count sh - 1));
                                       text \<leftarrow> read_block (line sh) 0 FINSH_CMD_SIZE;
                                       Some (last_cmd \<noteq> text)
                                     });
                    if differs then
                      do {
                        sh \<leftarrow> history_row (sh\<lparr>current_history := history_count sh\<rparr>) (unat (history_count sh));
                        Some (sh\<lparr>history_count := history_count sh + 1\<rparr>)
                      }
                    else Some sh
                  }
              else Some sh);
       Some (sh\<lparr>current_history := history_count sh\<rparr>)
     }"

section \<open>Keys\<close>

text \<open>Both positions are set to the length of the text in the line.\<close>

definition set_positions :: "finsh_shell \<Rightarrow> finsh_shell option" where
  "set_positions sh =
     do {
       text \<leftarrow> string_at (line sh) 0;
       Some (sh\<lparr>line_position := of_nat (length text), line_curpos := of_nat (length text)\<rparr>)
     }"

definition recall_history :: "'w shell_env \<Rightarrow> finsh_shell \<times> 'w \<Rightarrow> (finsh_shell \<times> 'w) option" where
  "recall_history env = (\<lambda>(sh, w).
     do {
       row \<leftarrow> load (cmd_history sh) (unat (current_history sh));
       cells \<leftarrow> read_block row 0 FINSH_CMD_SIZE;
       b \<leftarrow> write_block (line sh) 0 cells;
       sh \<leftarrow> set_positions (sh\<lparr>line := b\<rparr>);
       shell_handle_history env (sh, w)
     })"

definition key_up :: "'w shell_env \<Rightarrow> finsh_shell \<times> 'w \<Rightarrow> (finsh_shell \<times> 'w) option" where
  "key_up env = (\<lambda>(sh, w).
     if current_history sh > 0
     then recall_history env (sh\<lparr>current_history := current_history sh - 1\<rparr>, w)
     else Some (sh\<lparr>current_history := 0\<rparr>, w))"

definition key_down :: "'w shell_env \<Rightarrow> finsh_shell \<times> 'w \<Rightarrow> (finsh_shell \<times> 'w) option" where
  "key_down env = (\<lambda>(sh, w).
     if uint (current_history sh) < uint (history_count sh) - 1
     then recall_history env (sh\<lparr>current_history := current_history sh + 1\<rparr>, w)
     else if history_count sh \<noteq> 0
     then recall_history env (sh\<lparr>current_history := history_count sh - 1\<rparr>, w)
     else Some (sh, w))"

definition key_left :: "'w shell_env \<Rightarrow> finsh_shell \<times> 'w \<Rightarrow> (finsh_shell \<times> 'w) option" where
  "key_left env = (\<lambda>(sh, w).
     if line_curpos sh \<noteq> 0
     then Some (sh\<lparr>line_curpos := line_curpos sh - 1\<rparr>, print env BS [] w)
     else Some (sh, w))"

definition key_right :: "'w shell_env \<Rightarrow> finsh_shell \<times> 'w \<Rightarrow> (finsh_shell \<times> 'w) option" where
  "key_right env = (\<lambda>(sh, w).
     if line_curpos sh < line_position sh
     then do {
            c \<leftarrow> load (line sh) (unat (line_curpos sh));
            Some (sh\<lparr>line_curpos := line_curpos sh + 1\<rparr>, print env ''%c'' [Arg_int (of_char c)] w)
          }
     else Some (sh, w))"

definition key_tab :: "'w shell_env \<Rightarrow> finsh_shell \<times> 'w \<Rightarrow> (finsh_shell \<times> 'w) option" where
  "key_tab env = (\<lambda>(sh, w).
     do {
       (sh, w) \<leftarrow> shell_auto_complete env (sh, print_times env (unat (line_curpos sh)) BS w);
       sh \<leftarrow> set_positions sh;
       Some (sh, w)
     })"

definition key_backspace :: "'w shell_env \<Rightarrow> finsh_shell \<times> 'w \<Rightarrow> (finsh_shell \<times> 'w) option" where
  "key_backspace env = (\<lambda>(sh, w).
     if line_curpos sh = 0 then Some (sh, w)
     else
       let sh = sh\<lparr>line_position := line_position sh - 1, line_curpos := line_curpos sh - 1\<rparr>;
           pos = unat (line_position sh); cur = unat (line_curpos sh)
       in if pos > cur then
            do {
              text \<leftarrow> read_block (line sh) (cur + 1) (pos - cur);
              b \<leftarrow> write_block (line sh) cur text;
              b \<leftarrow> store b pos NUL;
              rest \<leftarrow> string_at b cur;
              Some (sh\<lparr>line := b\<rparr>,
                    print_times env (pos + 1 - cur) BS (print env (BS @ ''%s  '' @ BS) [Arg_str (Some rest)] w))
            }
          else
            do { b \<leftarrow> store (line sh) pos NUL; Some (sh\<lparr>line := b\<rparr>, print env (BS @ '' '' @ BS) [] w) })"

definition key_enter :: "'w shell_env \<Rightarrow> finsh_shell \<times> 'w \<Rightarrow> (finsh_shell \<times> 'w) option" where
  "key_enter env = (\<lambda>(sh, w).
     do {
       sh \<leftarrow> shell_push_history sh;
       let w = (if echo_mode sh then print env LF [] w else w);
       (_, b, w) \<leftarrow> msh_exec env 0 (unat (line_position sh)) (line sh) w;
       prompt \<leftarrow> finsh_get_prompt sh;
       Some (sh\<lparr>line := replicate (FINSH_CMD_SIZE + 1) NUL, line_position := 0, line_curpos := 0\<rparr>,
             print env prompt [] w)
     })"

definition key_char :: "'w shell_env \<Rightarrow> char \<Rightarrow> finsh_shell \<times> 'w \<Rightarrow> (finsh_shell \<times> 'w) option" where
  "key_char env ch = (\<lambda>(sh, w).
     do {
       let sh = (if unat (line_position sh) \<ge> FINSH_CMD_SIZE then sh\<lparr>line_position := 0\<rparr> else sh);
       let pos = unat (line_position sh);
       let cur = unat (line_curpos sh);
       (b, w) \<leftarrow> (if cur < pos then
                    do {
                      text \<leftarrow> read_block (line sh) cur (pos - cur);
                      b \<leftarrow> write_block (line sh) (cur + 1) text;
                      b \<leftarrow> store b cur ch;
                      rest \<leftarrow> string_at b cur;
                      let w = (if echo_mode sh then print env ''%s'' [Arg_str (Some rest)] w else w);
                      Some (b, print_times env (pos - cur) BS w)
                    }
                  else
                    do {
                      b \<leftarrow> store (line sh) pos ch;
                      Some (b, if echo_mode sh then print env ''%c'' [Arg_int (of_char ch)] w else w)
                    });
       let sh = sh\<lparr>line := b, line_position := line_position sh + 1, line_curpos := line_curpos sh + 1\<rparr>;
       Some (if unat (line_position sh) \<ge> FINSH_CMD_SIZE then sh\<lparr>line_position := 0, line_curpos := 0\<rparr> else sh, w)
     })"

text \<open>One byte of input.\<close>

definition plain_key :: "'w shell_env \<Rightarrow> char \<Rightarrow> finsh_shell \<times> 'w \<Rightarrow> (finsh_shell \<times> 'w) option" where
  "plain_key env ch s =
     (if ch = NUL \<or> ch = CHR 0xFF then Some s
      else if ch = TAB then key_tab env s
      else if ch = CHR 0x7F \<or> ch = CHR 0x08 then key_backspace env s
      else if ch = CHR 0x0D \<or> ch = CHR 0x0A then key_enter env s
      else key_char env ch s)"

definition shell_key :: "'w shell_env \<Rightarrow> char option \<Rightarrow> finsh_shell \<times> 'w \<Rightarrow> (finsh_shell \<times> 'w) option" where
  "shell_key env key = (\<lambda>(sh, w).
     case key of
       None \<Rightarrow> Some (sh, w)
     | Some ch \<Rightarrow>
         if ch = ESC then Some (sh\<lparr>input_state := WAIT_SPEC_KEY\<rparr>, w)
         else if input_state sh = WAIT_SPEC_KEY then
           if ch = CHR 0x5B then Some (sh\<lparr>input_state := WAIT_FUNC_KEY\<rparr>, w)
           else plain_key env ch (sh\<lparr>input_state := WAIT_NORMAL\<rparr>, w)
         else if input_state sh = WAIT_FUNC_KEY then
           let s = (sh\<lparr>input_state := WAIT_NORMAL\<rparr>, w)
           in if ch = CHR 0x41 then key_up env s
              else if ch = CHR 0x42 then key_down env s
              else if ch = CHR 0x44 then key_left env s
              else if ch = CHR 0x43 then key_right env s
              else plain_key env ch s
         else plain_key env ch (sh, w))"

text \<open>The loop on a sequence of bytes.\<close>

fun shell_run :: "'w shell_env \<Rightarrow> char option list \<Rightarrow> finsh_shell \<times> 'w \<Rightarrow> (finsh_shell \<times> 'w) option" where
  "shell_run env [] s = Some s"
| "shell_run env (k # ks) s = do { s \<leftarrow> shell_key env k s; shell_run env ks s }"

text \<open>The shell after \<open>finsh_system_init\<close> and the first lines of its thread.\<close>

definition shell_start :: finsh_shell where
  "shell_start =
     \<lparr>input_state = WAIT_NORMAL, echo_mode = True, prompt_mode = True, current_history = 0, history_count = 0,
      cmd_history = replicate FINSH_HISTORY_LINES (replicate FINSH_CMD_SIZE NUL),
      line = replicate (FINSH_CMD_SIZE + 1) NUL, line_position = 0, line_curpos = 0, prompt_custom = None\<rparr>"

end
