(* ===== verification/Msh_Contract.thy ===== *)
theory Msh_Contract
  imports Msh "HOL-Library.Sublist"
begin

text \<open>
  What the command interpreter of \<open>Msh\<close> does, from the text of a line alone: its arguments, the
  command it runs, its completion; and that no step leaves the line.
\<close>

section \<open>The arguments of a line\<close>

text \<open>
  What splitting means: arguments are separated by blanks; one that begins with a double quote
  reaches to the next double quote that no backslash precedes, or to the end.
\<close>

fun quoted :: "string \<Rightarrow> string \<times> string" where
  "quoted [] = ([], [])"
| "quoted (c # cs) =
     (if c = QUOTE then ([], cs)
      else if c = BACKSLASH \<and> peek cs = QUOTE
      then (c # QUOTE # fst (quoted (tl cs)), snd (quoted (tl cs)))
      else (c # fst (quoted cs), snd (quoted cs)))"

lemma quoted_length: "length (snd (quoted s)) \<le> length s"
  by (induction s rule: quoted.induct) auto

lemma quoted_split:
  "s = fst (quoted s) \<and> snd (quoted s) = [] \<or> s = fst (quoted s) @ QUOTE # snd (quoted s)"
proof (induction s rule: quoted.induct)
  case (2 c cs)
  then show ?case by (cases cs) (auto simp: peek_def)
qed simp

function tokens :: "string \<Rightarrow> string list" where
  "tokens s =
     (case dropWhile is_blank s of
        [] \<Rightarrow> []
      | c # cs \<Rightarrow>
          if c = QUOTE then fst (quoted cs) # tokens (snd (quoted cs))
          else takeWhile (\<lambda>x. \<not> is_blank x) (c # cs) # tokens (dropWhile (\<lambda>x. \<not> is_blank x) (c # cs)))"
  by auto
termination
proof (relation "measure length", goal_cases)
  case 1
  show ?case by simp
next
  case (2 s c cs)
  have "length (dropWhile is_blank s) \<le> length s" by (rule length_dropWhile_le)
  then show ?case using 2 quoted_length [of cs] by simp
next
  case (3 s c cs)
  have "\<not> is_blank c" using 3 by (metis hd_dropWhile list.distinct(1) list.sel(1))
  moreover have "length (dropWhile is_blank s) \<le> length s" by (rule length_dropWhile_le)
  moreover have "length (dropWhile (\<lambda>x. \<not> is_blank x) cs) \<le> length cs" by (rule length_dropWhile_le)
  ultimately show ?case using 3 by simp
qed

declare tokens.simps [simp del]

lemma tokens_blank [simp]: "is_blank c \<Longrightarrow> tokens (c # s) = tokens s"
  by (subst (1 2) tokens.simps) simp

lemma tokens_Nil [simp]: "tokens [] = []"
  by (subst tokens.simps) simp

lemma tokens_quote: "tokens (QUOTE # s) = fst (quoted s) # tokens (snd (quoted s))"
  by (subst tokens.simps) (simp add: is_blank_def)

lemma tokens_word:
  "\<not> is_blank c \<Longrightarrow> c \<noteq> QUOTE \<Longrightarrow>
   tokens (c # s) = takeWhile (\<lambda>x. \<not> is_blank x) (c # s) # tokens (dropWhile (\<lambda>x. \<not> is_blank x) s)"
  by (subst tokens.simps) simp

lemma tokens_strip: "tokens (dropWhile is_blank s) = tokens s"
  by (induction s) auto

text \<open>The loops, on a buffer that holds \<open>s\<close> behind position \<open>pos\<close> and a null byte behind it.\<close>

lemma strip_blanks_eq:
  assumes "length A = cmd + pos" "n = pos + length s" "NUL \<notin> set s"
  shows "strip_blanks cmd n (A @ s @ NUL # Z) pos =
    Some (A @ replicate (length (takeWhile is_blank s)) NUL @ dropWhile is_blank s @ NUL # Z,
          pos + length (takeWhile is_blank s))"
  using assms
proof (induction s arbitrary: A pos)
  case Nil
  then show ?case by (subst strip_blanks.simps) (simp add: is_blank_def)
next
  case (Cons c s)
  show ?case
  proof (cases "is_blank c")
    case True
    have "strip_blanks cmd n (A @ (c # s) @ NUL # Z) pos = strip_blanks cmd n ((A @ [NUL]) @ s @ NUL # Z) (pos + 1)"
      using Cons.prems True by (subst strip_blanks.simps) (simp add: nth_append list_update_append)
    also have "\<dots> = Some ((A @ [NUL]) @ replicate (length (takeWhile is_blank s)) NUL @ dropWhile is_blank s @ NUL # Z,
          pos + 1 + length (takeWhile is_blank s))"
      by (rule Cons.IH) (use Cons.prems in auto)
    finally show ?thesis using True by simp
  next
    case False
    then show ?thesis using Cons.prems by (subst strip_blanks.simps) (simp add: nth_append)
  qed
qed

lemma skip_word_eq:
  assumes "length A = cmd + pos" "n = pos + length s" "NUL \<notin> set s"
  shows "skip_word cmd n (A @ s @ NUL # Z) pos = Some (pos + length (takeWhile (\<lambda>x. \<not> is_blank x) s))"
  using assms
proof (induction s arbitrary: A pos)
  case Nil
  then show ?case by (subst skip_word.simps) (simp add: is_blank_def)
next
  case (Cons c s)
  show ?case
  proof (cases "is_blank c")
    case False
    have "skip_word cmd n (A @ (c # s) @ NUL # Z) pos = skip_word cmd n ((A @ [c]) @ s @ NUL # Z) (pos + 1)"
      using Cons.prems False by (subst skip_word.simps) (simp add: nth_append)
    also have "\<dots> = Some (pos + 1 + length (takeWhile (\<lambda>x. \<not> is_blank x) s))"
      by (rule Cons.IH) (use Cons.prems in auto)
    finally show ?thesis using False by simp
  next
    case True
    then show ?thesis using Cons.prems by (subst skip_word.simps) (simp add: nth_append)
  qed
qed


lemma skip_string_eq:
  assumes "length A = cmd + pos" "n = pos + length s" "NUL \<notin> set s"
  shows "skip_string cmd n (A @ s @ NUL # Z) pos = Some (pos + length (fst (quoted s)))"
  using assms
proof (induction s arbitrary: A pos rule: quoted.induct)
  case 1
  then show ?case by (subst skip_string.simps) simp
next
  case (2 c cs)
  consider (q) "c = QUOTE" | (e) "c \<noteq> QUOTE" "c = BACKSLASH \<and> peek cs = QUOTE"
    | (o) "c \<noteq> QUOTE" "\<not> (c = BACKSLASH \<and> peek cs = QUOTE)" by blast
  then show ?case
  proof cases
    case q
    then show ?thesis using "2.prems" by (subst skip_string.simps) (simp add: nth_append)
  next
    case e
    then obtain ds where ds: "cs = QUOTE # ds" by (cases cs) (auto simp: peek_def)
    have "skip_string cmd n (A @ (c # cs) @ NUL # Z) pos = skip_string cmd n ((A @ [c, QUOTE]) @ ds @ NUL # Z) (pos + 2)"
      using "2.prems" e ds by (subst skip_string.simps) (simp add: nth_append)
    also have "\<dots> = Some (pos + 2 + length (fst (quoted ds)))"
      by (rule "2.IH"(1) [OF e, unfolded ds, simplified]) (use "2.prems" ds in auto)
    finally show ?thesis using e ds by simp
  next
    case o
    have r: "cs = [] \<and> (cs @ NUL # Z) ! 0 = NUL \<or> (cs @ NUL # Z) ! 0 = peek cs" by (cases cs) (simp_all add: peek_def)
    have "skip_string cmd n (A @ (c # cs) @ NUL # Z) pos = skip_string cmd n ((A @ [c]) @ cs @ NUL # Z) (pos + 1)"
      using "2.prems" o r by (subst skip_string.simps) (auto simp: nth_append)
    also have "\<dots> = Some (pos + 1 + length (fst (quoted cs)))"
      by (rule "2.IH"(3) [OF o]) (use "2.prems" in auto)
    finally show ?thesis using o by auto
  qed
qed

lemma string_at_eq: "p = length P \<Longrightarrow> NUL \<notin> set x \<Longrightarrow> string_at (P @ x @ NUL # Q) p = Some x"
  by (induction x) (auto simp: string_at_def takeWhile_append2)

lemma strings_at_total: "\<forall>p\<in>set ps. p \<le> length B \<Longrightarrow> \<exists>ss. strings_at (B @ NUL # Z) ps = Some ss"
  by (induction ps) (auto simp: string_at_def)

text \<open>
  The result of the loop on a buffer that holds \<open>s\<close> behind \<open>A\<close>: nothing outside is changed, and the
  new arguments are the tokens of \<open>s\<close> as far as there is room for them.
\<close>

definition splits_to :: "string \<Rightarrow> string \<Rightarrow> string \<Rightarrow> nat list \<Rightarrow> 'w \<Rightarrow> (string \<times> nat list \<times> 'w) option \<Rightarrow> bool" where
  "splits_to A s Z argv w res \<longleftrightarrow>
     (\<exists>s' new w'. res = Some (A @ s' @ NUL # Z, argv @ new, w') \<and> length s' = length s \<and>
        (s \<noteq> [] \<and> is_blank (hd s) \<longrightarrow> hd s' = NUL) \<and>
        strings_at (A @ s' @ NUL # Z) new = Some (take (FINSH_ARG_MAX - length argv) (tokens s)) \<and>
        (\<forall>p\<in>set new. length A \<le> p \<and> p \<le> length A + length s) \<and>
        (length argv + length (tokens s) < FINSH_ARG_MAX \<longrightarrow> w' = w))"

lemma splits_strip:
  assumes "splits_to (A @ replicate k NUL) r Z argv w res" "k = length (takeWhile is_blank s)" "r = dropWhile is_blank s"
  shows "splits_to A s Z argv w res"
proof -
  have l: "length s = k + length r" unfolding assms(2,3) by (metis length_append takeWhile_dropWhile_id)
  have tk: "tokens r = tokens s" by (simp add: assms(3) tokens_strip)
  obtain s' new w' where r: "res = Some ((A @ replicate k NUL) @ s' @ NUL # Z, argv @ new, w')" "length s' = length r"
    "strings_at ((A @ replicate k NUL) @ s' @ NUL # Z) new = Some (take (FINSH_ARG_MAX - length argv) (tokens s))"
    "\<forall>p\<in>set new. length (A @ replicate k NUL) \<le> p \<and> p \<le> length (A @ replicate k NUL) + length r"
    "length argv + length (tokens s) < FINSH_ARG_MAX \<longrightarrow> w' = w"
    using assms(1) unfolding splits_to_def tk by blast
  have "s \<noteq> [] \<and> is_blank (hd s) \<longrightarrow> hd (replicate k NUL @ s') = NUL" unfolding assms(2) by (cases s) auto
  then show ?thesis unfolding splits_to_def
    by (intro exI [of _ "replicate k NUL @ s'"] exI [of _ new] exI [of _ w']) (use r l in auto)
qed

lemma take_room:
  "length argv < FINSH_ARG_MAX \<Longrightarrow>
   take (FINSH_ARG_MAX - length argv) (t # u) = t # take (FINSH_ARG_MAX - length (argv @ [x])) u"
  by (simp add: Suc_diff_Suc [symmetric] take_Cons')

lemma splits_token:
  assumes "splits_to (A @ u @ x @ v) y Z (argv @ [length A + length u]) w res"
    "NUL \<notin> set x" "v = [NUL] \<or> v = [] \<and> y \<noteq> [] \<and> is_blank (hd y)" "length argv < FINSH_ARG_MAX"
    "tokens s = x # tokens y" "length s = length (u @ x @ v @ y)" "\<not> is_blank (hd s)"
  shows "splits_to A s Z argv w res"
proof -
  obtain s' new w' where r: "res = Some ((A @ u @ x @ v) @ s' @ NUL # Z, (argv @ [length A + length u]) @ new, w')"
    "length s' = length y" "y \<noteq> [] \<and> is_blank (hd y) \<longrightarrow> hd s' = NUL"
    "strings_at ((A @ u @ x @ v) @ s' @ NUL # Z) new =
       Some (take (FINSH_ARG_MAX - length (argv @ [length A + length u])) (tokens y))"
    "\<forall>p\<in>set new. length (A @ u @ x @ v) \<le> p \<and> p \<le> length (A @ u @ x @ v) + length y"
    "length (argv @ [length A + length u]) + length (tokens y) < FINSH_ARG_MAX \<longrightarrow> w' = w"
    using assms(1) unfolding splits_to_def by blast
  have "\<exists>q. v @ s' @ NUL # Z = NUL # q" using assms(3) r(2,3) by (cases s') auto
  then obtain q where q: "v @ s' @ NUL # Z = NUL # q" ..
  have "string_at ((A @ u @ x @ v) @ s' @ NUL # Z) (length A + length u) = Some x"
    using string_at_eq [of "length A + length u" "A @ u" x q] assms(2) q by simp
  then show ?thesis unfolding splits_to_def
    by (intro exI [of _ "u @ x @ v @ s'"] exI [of _ "(length A + length u) # new"] exI [of _ w'])
      (use r assms(4-7) take_room [OF assms(4), of x "tokens y"] in auto)
qed

lemma splits_last:
  assumes "res = Some (A @ s @ NUL # Z, argv @ [length A + length u], w)" "s = u @ x" "NUL \<notin> set x"
    "tokens s = [x]" "length argv < FINSH_ARG_MAX" "\<not> is_blank (hd s)"
  shows "splits_to A s Z argv w res"
  unfolding splits_to_def
  by (intro exI [of _ s] exI [of _ "[length A + length u]"] exI [of _ w])
    (use assms string_at_eq [of "length A + length u" "A @ u" x Z] take_room [OF assms(5), of x "[]"] in auto)

text \<open>One pass of the loop, once the blanks are stripped.\<close>

definition split_one ::
    "'w shell_env \<Rightarrow> nat \<Rightarrow> nat \<Rightarrow> string \<Rightarrow> nat \<Rightarrow> nat list \<Rightarrow> 'w \<Rightarrow> char \<Rightarrow> (string \<times> nat list \<times> 'w) option" where
  "split_one env cmd n b pos argv w c =
     (if c = QUOTE then
        do {
          p2 \<leftarrow> skip_string cmd n b (Suc pos);
          if p2 \<ge> n then Some (b, argv @ [cmd + Suc pos], w)
          else do { b2 \<leftarrow> store b (cmd + p2) NUL; split_loop env cmd n b2 (Suc p2) (argv @ [cmd + Suc pos]) w }
        }
      else
        do {
          p2 \<leftarrow> skip_word cmd n b pos;
          if p2 \<ge> n then Some (b, argv @ [cmd + pos], w) else split_loop env cmd n b p2 (argv @ [cmd + pos]) w
        })"

lemma split_loop_one:
  assumes "pos < n" "strip_blanks cmd n b pos = Some (b1, p1)" "length argv < FINSH_ARG_MAX" "p1 < n" "load b1 (cmd + p1) = Some c"
  shows "split_loop env cmd n b pos argv w = split_one env cmd n b1 p1 argv w c"
  using assms by (subst split_loop.simps) (simp add: split_one_def)

lemma split_pass:
  assumes "length A = cmd + pos" "n = pos + length s" "NUL \<notin> set s" "length argv < FINSH_ARG_MAX" "s = c # cs" "\<not> is_blank c"
    and rec: "\<And>A' s' pos' argv'. length s' < length s \<Longrightarrow> length A' = cmd + pos' \<Longrightarrow> n = pos' + length s' \<Longrightarrow>
      set s' \<subseteq> set s \<Longrightarrow> length argv' = Suc (length argv) \<Longrightarrow> set argv' \<subseteq> insert (length A') (set argv) \<union> {..length A'} \<Longrightarrow>
      splits_to A' s' Z argv' w (split_loop env cmd n (A' @ s' @ NUL # Z) pos' argv' w)"
    and run: "res = split_one env cmd n (A @ s @ NUL # Z) pos argv w c"
  shows "splits_to A s Z argv w res"
proof (cases "c = QUOTE")
  case True
  let ?x = "fst (quoted cs)" and ?y = "snd (quoted cs)"
  have sk: "skip_string cmd n (A @ s @ NUL # Z) (pos + 1) = Some (pos + 1 + length ?x)"
    using skip_string_eq [of "A @ [c]" cmd "pos + 1" n cs Z] assms(1-3,5) by simp
  have tk: "tokens s = ?x # tokens ?y" using True assms(5) by (simp add: tokens_quote)
  from quoted_split [of cs] show ?thesis
  proof
    assume e: "cs = ?x \<and> ?y = []"
    then have "NUL \<notin> set ?x" "n = pos + 1 + length ?x" "s = [c] @ ?x" using assms(2,3,5) by simp_all
    then show ?thesis by (intro splits_last [where u = "[c]" and x = ?x]) (use run sk e tk assms True in \<open>auto simp: split_one_def\<close>)
  next
    assume e: "cs = ?x @ QUOTE # ?y"
    then have s: "s = [c] @ ?x @ QUOTE # ?y" using assms(5) by simp
    then have l: "length s = 2 + length ?x + length ?y" by (metis length_append length_Cons list.size(3) add_Suc_right add_Suc plus_nat.add_0 numeral_2_eq_2)
    have nx: "NUL \<notin> set ?x" "set ?y \<subseteq> set s" using assms(3) unfolding s by auto
    have "A @ s @ NUL # Z = (A @ [c] @ ?x) @ QUOTE # ?y @ NUL # Z" using s by simp
    then have b: "store (A @ s @ NUL # Z) (cmd + (pos + 1 + length ?x)) NUL = Some ((A @ [c] @ ?x @ [NUL]) @ ?y @ NUL # Z)"
      using assms(1) by (simp add: list_update_append)
    have run: "res = split_loop env cmd n ((A @ [c] @ ?x @ [NUL]) @ ?y @ NUL # Z) (pos + 1 + length ?x + 1) (argv @ [length A + length [c]]) w"
      using run sk b True l assms(1,2) by (simp add: split_one_def)
    show ?thesis
      by (rule splits_token [where u = "[c]" and x = ?x and v = "[NUL]" and y = ?y])
        (use l nx tk assms(1,2,4-6) rec [of ?y "A @ [c] @ ?x @ [NUL]" "pos + 1 + length ?x + 1" "argv @ [length A + length [c]]"]
          in \<open>auto simp: run\<close>)
  qed
next
  case False
  define x where "x = takeWhile (\<lambda>x. \<not> is_blank x) s"
  define y where "y = dropWhile (\<lambda>x. \<not> is_blank x) s"
  have s: "s = x @ y" by (simp add: x_def y_def)
  have x0: "0 < length x" using assms(5,6) by (simp add: x_def)
  have sk: "skip_word cmd n (A @ s @ NUL # Z) pos = Some (pos + length x)"
    unfolding x_def by (rule skip_word_eq) (use assms in auto)
  have tk: "tokens s = x # tokens y" using tokens_word [OF assms(6) False, of cs] assms(5,6) by (simp add: x_def y_def)
  have nx: "NUL \<notin> set x" "set y \<subseteq> set s" using assms(3) unfolding s by auto
  have hs: "\<not> is_blank (hd s)" using assms(5,6) by simp
  note l = arg_cong [OF s, of length, simplified]
  show ?thesis
  proof (cases "y = []")
    case True
    then have "res = Some (A @ s @ NUL # Z, argv @ [length A + length ([] :: string)], w)" using False run sk l assms(1,2) by (simp add: split_one_def)
    then show ?thesis
      by (rule splits_last [where u = "[]" and x = x]) (use True tk nx s hs assms(4) in auto)
  next
    case y: False
    have bd: "is_blank (hd y)" using y hd_dropWhile [of "\<lambda>x. \<not> is_blank x" s] by (simp add: y_def)
    have run: "res = split_loop env cmd n ((A @ [] @ x @ []) @ y @ NUL # Z) (pos + length x) (argv @ [length A + length ([] :: string)]) w"
      using run sk False l y assms(1,2) s by (simp add: split_one_def)
    have "splits_to (A @ [] @ x @ []) y Z (argv @ [length A + length ([] :: string)]) w res"
      unfolding run by (rule rec) (use l x0 nx(2) assms(1,2) in auto)
    then show ?thesis
      by (rule splits_token [where u = "[]" and x = x and v = "[]" and y = y]) (use l nx(1) y bd tk hs assms(4) in auto)
  qed
qed

lemma split_loop_eq:
  assumes "length A = cmd + pos" "n = pos + length s" "NUL \<notin> set s" "length argv \<le> FINSH_ARG_MAX"
    "\<forall>p\<in>set argv. p \<le> length A"
  shows "splits_to A s Z argv w (split_loop env cmd n (A @ s @ NUL # Z) pos argv w)"
  using assms
proof (induction s arbitrary: A pos argv rule: length_induct)
  case (1 s)
  note P = "1.prems"
  define k where "k = length (takeWhile is_blank s)"
  define r where "r = dropWhile is_blank s"
  let ?A = "A @ replicate k NUL" and ?res = "split_loop env cmd n (A @ s @ NUL # Z) pos argv w"
  note split = split_loop.simps [of env cmd n "A @ s @ NUL # Z" pos argv w]
  have kr: "length s = k + length r" unfolding k_def r_def by (metis length_append takeWhile_dropWhile_id)
  have rs: "set r \<subseteq> set s" unfolding r_def by (rule set_dropWhileD [THEN subsetI])
  have st: "strip_blanks cmd n (A @ s @ NUL # Z) pos = Some (?A @ r @ NUL # Z, pos + k)"
    using strip_blanks_eq [OF P(1-3), of Z] by (simp add: k_def r_def)
  show ?case
  proof (cases "s = []")
    case True
    then show ?thesis using P by (subst split_loop.simps) (simp add: splits_to_def)
  next
    case s: False
    then have pos: "pos < n" using P(2) by simp
    consider (full) "FINSH_ARG_MAX \<le> length argv" | (end_) "length argv < FINSH_ARG_MAX" "r = []"
      | (more) c cs where "length argv < FINSH_ARG_MAX" "r = c # cs" by (cases r) force+
    then show ?thesis
    proof cases
      case full
      have "\<forall>p\<in>set argv. p \<le> length (?A @ r)" using P(5) by auto
      then obtain args where "strings_at ((?A @ r) @ NUL # Z) argv = Some args"
        using strings_at_total by blast
      then obtain w' where "?res = Some (?A @ r @ NUL # Z, argv, w')"
        using full pos st by (auto simp: split too_many_args_def)
      then have "splits_to ?A r Z argv w ?res" unfolding splits_to_def
        by (intro exI [of _ r] exI [of _ "[]"] exI [of _ w']) (use full P(4) r_def hd_dropWhile [of is_blank s] in auto)
      then show ?thesis by (rule splits_strip [OF _ k_def r_def])
    next
      case end_
      then have "n \<le> pos + k" using kr P(2) by simp
      then have "?res = Some (?A @ r @ NUL # Z, argv, w)" using pos st end_ by (simp add: split)
      then have "splits_to ?A r Z argv w ?res" using end_ by (simp add: splits_to_def)
      then show ?thesis by (rule splits_strip [OF _ k_def r_def])
    next
      case more
      have nb: "\<not> is_blank c" using more(2) unfolding r_def by (metis hd_dropWhile list.distinct(1) list.sel(1))
      have "pos + k < n" "load (?A @ r @ NUL # Z) (cmd + (pos + k)) = Some c"
        using more(2) kr P(1,2) by (simp_all add: nth_append)
      note run = split_loop_one [OF pos st more(1) this, of env w]
      have "splits_to ?A r Z argv w ?res"
      proof (rule split_pass [OF _ _ _ more(1) more(2) nb])
        fix A' s' :: string and pos' argv'
        assume a: "length s' < length r" "length A' = cmd + pos'" "n = pos' + length s'" "set s' \<subseteq> set r"
          "length argv' = Suc (length argv)" "set argv' \<subseteq> insert (length A') (set argv) \<union> {..length A'}"
        have "length A \<le> length A'" using a(1-3) kr P(1,2) by simp
        then have "\<forall>p\<in>set argv'. p \<le> length A'" using a(6) P(5) by fastforce
        then show "splits_to A' s' Z argv' w (split_loop env cmd n (A' @ s' @ NUL # Z) pos' argv' w)"
          by (intro "1.IH" [rule_format]) (use a kr rs P(3) more(1) in auto)
      qed (use kr P rs run in auto)
      then show ?thesis by (rule splits_strip [OF _ k_def r_def])
    qed
  qed
qed

text \<open>Splitting as a whole, on a line that a null byte ends.\<close>

lemma msh_split_eq:
  assumes "length A = cmd" "NUL \<notin> set s"
  shows "\<exists>s' argv w'. msh_split env cmd (length s) (A @ s @ NUL # Z) w = Some (A @ s' @ NUL # Z, argv, w') \<and>
     length s' = length s \<and> length argv = min FINSH_ARG_MAX (length (tokens s)) \<and>
     strings_at (A @ s' @ NUL # Z) argv = Some (take FINSH_ARG_MAX (tokens s)) \<and>
     (\<forall>p\<in>set argv. cmd \<le> p \<and> p \<le> cmd + length s) \<and> (length (tokens s) < FINSH_ARG_MAX \<longrightarrow> w' = w)"
proof -
  have "splits_to A s Z [] w (msh_split env cmd (length s) (A @ s @ NUL # Z) w)"
    unfolding msh_split_def by (rule split_loop_eq) (use assms in auto)
  then obtain s' argv w' where r: "msh_split env cmd (length s) (A @ s @ NUL # Z) w = Some (A @ s' @ NUL # Z, argv, w')"
    "length s' = length s" "strings_at (A @ s' @ NUL # Z) argv = Some (take FINSH_ARG_MAX (tokens s))"
    "\<forall>p\<in>set argv. cmd \<le> p \<and> p \<le> cmd + length s" "length (tokens s) < FINSH_ARG_MAX \<longrightarrow> w' = w"
    using assms(1) by (auto simp: splits_to_def)
  have "strings_at b ps = Some ss \<Longrightarrow> length ps = length ss" for b ps ss
    by (induction ps arbitrary: ss) (auto simp: bind_eq_Some_conv)
  from this [OF r(3)] show ?thesis using r by auto
qed

text \<open>
  C34.  Splitting a line never reads or writes outside it, ends, and gives the arguments of the line, at
  most ten: what \<open>argv\<close> points to afterwards, each with its null byte, are the tokens of the text.
  Nothing but the characters of the line is changed, and nothing is printed for fewer than ten
  arguments.
\<close>

theorem msh_split_correct:
  assumes "cmd + n < length b" "b ! (cmd + n) = NUL" "NUL \<notin> set (take n (drop cmd b))"
  shows "\<exists>b' argv w'. msh_split env cmd n b w = Some (b', argv, w') \<and>
     strings_at b' argv = Some (take FINSH_ARG_MAX (tokens (take n (drop cmd b)))) \<and>
     length argv \<le> FINSH_ARG_MAX \<and> (\<forall>p\<in>set argv. cmd \<le> p \<and> p \<le> cmd + n) \<and>
     length b' = length b \<and> (\<forall>i. i < cmd \<or> cmd + n \<le> i \<longrightarrow> b' ! i = b ! i) \<and>
     (length (tokens (take n (drop cmd b))) < FINSH_ARG_MAX \<longrightarrow> w' = w)"
proof -
  let ?A = "take cmd b" and ?s = "take n (drop cmd b)" and ?Z = "drop (Suc (cmd + n)) b"
  have "drop cmd b = ?s @ drop (cmd + n) b" by (metis add.commute append_take_drop_id drop_drop)
  moreover have "drop (cmd + n) b = NUL # ?Z" using assms(1,2) by (metis Cons_nth_drop_Suc)
  ultimately have b: "b = ?A @ ?s @ NUL # ?Z" by (metis append_take_drop_id)
  have l: "length ?A = cmd" "length ?s = n" using assms(1) by simp_all
  obtain s' argv w' where r: "msh_split env cmd n b w = Some (?A @ s' @ NUL # ?Z, argv, w')" "length s' = n"
    "length argv = min FINSH_ARG_MAX (length (tokens ?s))"
    "strings_at (?A @ s' @ NUL # ?Z) argv = Some (take FINSH_ARG_MAX (tokens ?s))"
    "\<forall>p\<in>set argv. cmd \<le> p \<and> p \<le> cmd + n" "length (tokens ?s) < FINSH_ARG_MAX \<longrightarrow> w' = w"
    using msh_split_eq [OF l(1) assms(3), of env ?Z w] b l(2) by auto
  let ?b = "?A @ s' @ NUL # ?Z"
  have "?b ! i = b ! i" if "i < cmd \<or> cmd + n \<le> i" for i
    using that r(2) l by (subst (2) b) (auto simp: nth_append)
  moreover have "length ?b = length b" using r(2) l assms(1) by simp
  ultimately show ?thesis using r by auto
qed



text \<open>Writing arguments so that splitting gives them back: an argument that has a blank or is empty is quoted.\<close>

definition plain :: "string \<Rightarrow> bool" where
  "plain a \<longleftrightarrow> a \<noteq> [] \<and> (\<forall>c\<in>set a. \<not> is_blank c) \<and> hd a \<noteq> QUOTE"

definition quotable :: "string \<Rightarrow> bool" where
  "quotable a \<longleftrightarrow> QUOTE \<notin> set a \<and> (a \<noteq> [] \<longrightarrow> last a \<noteq> BACKSLASH)"

fun render :: "string list \<Rightarrow> string" where
  "render [] = []"
| "render (a # as) = (if plain a then a else QUOTE # a @ [QUOTE]) @ CHR '' '' # render as"

lemma quoted_quotable: "quotable a \<Longrightarrow> quoted (a @ QUOTE # r) = (a, r)"
proof (induction a)
  case (Cons c a)
  have "quotable a" using Cons.prems by (auto simp: quotable_def split: if_splits)
  moreover have "c = BACKSLASH \<Longrightarrow> peek (a @ QUOTE # r) \<noteq> QUOTE" "c \<noteq> QUOTE"
    using Cons.prems by (cases a; auto simp: quotable_def peek_def)+
  ultimately show ?case using Cons.IH by auto
qed simp

lemma tokens_render: "\<forall>a\<in>set as. plain a \<or> quotable a \<Longrightarrow> tokens (render as) = as"
proof (induction as)
  case (Cons a as)
  have sp: "is_blank (CHR '' '')" by (simp add: is_blank_def)
  show ?case
  proof (cases "plain a")
    case True
    then obtain c cs where a: "a = c # cs" "\<not> is_blank c" "c \<noteq> QUOTE" "\<forall>x\<in>set a. \<not> is_blank x"
      by (cases a) (auto simp: plain_def)
    have "tokens (a @ CHR '' '' # render as) = a # tokens (CHR '' '' # render as)"
      using tokens_word [OF a(2,3), of "cs @ CHR '' '' # render as"] a(1,4) sp
      by (simp add: takeWhile_append2 dropWhile_append2)
    then show ?thesis using True Cons sp by simp
  next
    case False
    then have "quotable a" using Cons.prems by simp
    then show ?thesis using False Cons sp by (simp add: tokens_quote quoted_quotable)
  qed
qed simp

text \<open>
  C36.  Splitting inverts writing: arguments that are plain or can be quoted come back as they were.
\<close>

theorem arguments_roundtrip:
  assumes "\<forall>a\<in>set as. (plain a \<or> quotable a) \<and> NUL \<notin> set a" "length as < FINSH_ARG_MAX"
  shows "\<exists>b argv. msh_split env 0 (length (render as)) (render as @ [NUL]) w = Some (b, argv, w) \<and>
     strings_at b argv = Some as"
proof -
  have "NUL \<notin> set (render as)" using assms(1) by (induction as rule: render.induct) auto
  then have "\<exists>b argv w'. msh_split env 0 (length (render as)) (render as @ [NUL]) w = Some (b, argv, w') \<and>
     strings_at b argv = Some (take FINSH_ARG_MAX (tokens (render as))) \<and>
     (length (tokens (render as)) < FINSH_ARG_MAX \<longrightarrow> w' = w)"
    using msh_split_eq [of "[]" 0 "render as" env "[]" w] by auto
  then show ?thesis using assms tokens_render [of as] by auto
qed

section \<open>Running a command\<close>

lemma strncmp_eq_text:
  "p + length x \<le> length b \<Longrightarrow> take (length x) (drop p b) = x \<Longrightarrow> NUL \<notin> set x \<Longrightarrow>
   strncmp_eq name b p (length x) = Some (prefix x name)"
proof (induction x arbitrary: name p)
  case (Cons c x)
  have "drop p b = b ! p # drop (Suc p) b" using Cons.prems(1) by (simp add: Cons_nth_drop_Suc)
  then have "b ! p = c" "take (length x) (drop (Suc p) b) = x" using Cons.prems(2) by simp_all
  then show ?case using Cons by (cases name) (auto simp: peek_def)
qed simp

fun lookup :: "finsh_syscall list \<Rightarrow> string \<Rightarrow> nat option" where
  "lookup [] name = None"
| "lookup (index # rest) name = (if sys_name index = name then Some (sys_func index) else lookup rest name)"

lemma find_cmd_eq:
  assumes "p + length x \<le> length b" "take (length x) (drop p b) = x" "NUL \<notin> set x"
    "\<forall>index\<in>set tab. NUL \<notin> set (sys_name index)"
  shows "find_cmd tab b p (length x) = Some (lookup tab x)"
  using assms(4)
proof (induction tab)
  case (Cons index tab)
  have e: "sys_name index = x" if pre: "prefix x (sys_name index)" and nul: "(sys_name index @ [NUL]) ! length x = NUL"
  proof -
    obtain y where y: "sys_name index = x @ y" using pre unfolding prefix_def by blast
    then have "y = []" using nul Cons.prems by (cases y) (auto simp: nth_append)
    then show ?thesis using y by simp
  qed
  show ?case
  proof (cases "prefix x (sys_name index)")
    case True
    then have "length x < length (sys_name index @ [NUL])" by (auto simp: prefix_def)
    then show ?thesis using True e Cons strncmp_eq_text [OF assms(1-3), of "sys_name index"]
      by (auto simp: nth_append)
  next
    case False
    then show ?thesis using Cons strncmp_eq_text [OF assms(1-3), of "sys_name index"] by auto
  qed
qed simp

text \<open>What the shell does with a line, from its text alone.\<close>

definition exec_spec :: "'w shell_env \<Rightarrow> string \<Rightarrow> 'w \<Rightarrow> int \<times> 'w" where
  "exec_spec env s w =
     (let t = dropWhile is_blank s in
      if t = [] then (0, w)
      else case lookup (symtab env) (takeWhile (\<lambda>c. \<not> is_blank c) t) of
             Some f \<Rightarrow> call env f (tokens t) w
           | None \<Rightarrow> (- 1, print env (''%s: command not found.'' @ LF) [Arg_str (Some (takeWhile (\<lambda>c. c \<noteq> CHR '' '') t))] w))"

lemma skip_blanks_eq:
  "length A = p \<Longrightarrow>
   skip_blanks p (length s) (A @ s @ Z) = Some (p + length (takeWhile is_blank s), length (dropWhile is_blank s))"
proof (induction s arbitrary: A p)
  case (Cons c s)
  show ?case using Cons.IH [of "A @ [c]" "p + 1"] Cons.prems by (auto simp: nth_append)
qed simp

lemma first_space_eq:
  assumes "length A = p" "NUL \<notin> set s"
  shows "first_space (A @ s @ NUL # Z) p = Some (p + length (takeWhile (\<lambda>c. c \<noteq> CHR '' '') s))"
  using assms
proof (induction s arbitrary: A p)
  case Nil
  then show ?case by (subst first_space.simps) (simp add: nth_append)
next
  case (Cons c s)
  show ?case using Cons.IH [of "A @ [c]" "p + 1"] Cons.prems by (subst first_space.simps) (auto simp: nth_append)
qed

text \<open>A line is run by its text: the buffer keeps its length and changes in the line only.\<close>

definition line_kept :: "nat \<Rightarrow> nat \<Rightarrow> string \<Rightarrow> string \<Rightarrow> bool" where
  "line_kept cmd n b b' \<longleftrightarrow> length b' = length b \<and> (\<forall>i. i < cmd \<or> cmd + n \<le> i \<longrightarrow> b' ! i = b ! i)"

lemma kept_splice:
  "b = A @ t @ NUL # Z \<Longrightarrow> length t' = length t \<Longrightarrow> length A + length t = cmd + n \<Longrightarrow> cmd \<le> length A \<Longrightarrow>
   line_kept cmd n b (A @ t' @ NUL # Z)"
  by (auto simp: line_kept_def nth_append)

lemma exec_cmd_eq:
  assumes A: "length A = cmd" and s: "NUL \<notin> set s" "s \<noteq> []" "\<not> is_blank (hd s)" "length (tokens s) < FINSH_ARG_MAX"
    and tab: "\<forall>index\<in>set (symtab env). NUL \<notin> set (sys_name index)"
  shows "case lookup (symtab env) (takeWhile (\<lambda>c. \<not> is_blank c) s) of
      None \<Rightarrow> msh_exec_cmd env cmd (length s) (A @ s @ NUL # Z) w = Some (- RT_ERROR, 0, A @ s @ NUL # Z, w)
    | Some f \<Rightarrow> \<exists>s'. length s' = length s \<and>
        msh_exec_cmd env cmd (length s) (A @ s @ NUL # Z) w =
          Some (0, fst (call env f (tokens s) w), A @ s' @ NUL # Z, snd (call env f (tokens s) w))"
proof -
  let ?x = "takeWhile (\<lambda>c. \<not> is_blank c) s" and ?b = "A @ s @ NUL # Z"
  have x0: "?x \<noteq> []" using s(2,3) by (cases s) auto
  have "cmd + length ?x \<le> length ?b" using A length_takeWhile_le [of "\<lambda>c. \<not> is_blank c" s] by simp
  moreover have "take (length ?x) (drop cmd ?b) = ?x"
    using A by (simp add: takeWhile_eq_take [symmetric] length_takeWhile_le)
  moreover have "NUL \<notin> set ?x" using s(1) by (auto dest: set_takeWhileD)
  ultimately have f: "find_cmd (symtab env) ?b cmd (length ?x) = Some (lookup (symtab env) ?x)"
    using find_cmd_eq tab by blast
  have k: "skip_word cmd (length s) ?b 0 = Some (length ?x)"
    using skip_word_eq [of A cmd 0 "length s" s Z] A s(1) by simp
  obtain s' argv where sp: "msh_split env cmd (length s) ?b w = Some (A @ s' @ NUL # Z, argv, w)" "length s' = length s"
    "length argv = length (tokens s)" "strings_at (A @ s' @ NUL # Z) argv = Some (tokens s)"
    using msh_split_eq [OF A s(1), of env Z w] s(4) by (auto simp: min_def)
  have "tokens s \<noteq> []" using s(2,3) tokens_quote tokens_word by (cases s) (metis list.distinct(1) list.sel(1))+
  then have "argv \<noteq> []" using sp(3) by auto
  then show ?thesis using f k sp x0
    by (auto simp: msh_exec_cmd_def msh_get_cmd_def split: option.split prod.split)
qed

lemma msh_exec_eq:
  assumes "cmd + n < length b" "b ! (cmd + n) = NUL" "NUL \<notin> set (take n (drop cmd b))"
    "length (tokens (take n (drop cmd b))) < FINSH_ARG_MAX" "\<forall>index\<in>set (symtab env). NUL \<notin> set (sys_name index)"
  shows "\<exists>b'. msh_exec env cmd n b w =
      Some (fst (exec_spec env (take n (drop cmd b)) w), b', snd (exec_spec env (take n (drop cmd b)) w)) \<and>
     line_kept cmd n b b'"
proof -
  let ?A = "take cmd b" and ?s = "take n (drop cmd b)" and ?Z = "drop (Suc (cmd + n)) b"
  let ?bl = "takeWhile is_blank ?s" and ?t = "dropWhile is_blank ?s"
  have "drop cmd b = ?s @ drop (cmd + n) b" by (metis add.commute append_take_drop_id drop_drop)
  moreover have "drop (cmd + n) b = NUL # ?Z" using assms(1,2) by (metis Cons_nth_drop_Suc)
  ultimately have b: "b = ?A @ ?s @ NUL # ?Z" by (metis append_take_drop_id)
  have l: "length ?A = cmd" "length ?s = n" using assms(1) by simp_all
  define A where "A = ?A @ ?bl"
  define t where "t = ?t"
  have bt: "b = A @ t @ NUL # ?Z" using b unfolding A_def t_def by (metis append.assoc takeWhile_dropWhile_id)
  have lA: "length A = cmd + length ?bl" using l(1) unfolding A_def by simp
  have lt: "length A + length t = cmd + n" using l(2) unfolding lA t_def by (metis add.assoc length_append takeWhile_dropWhile_id)
  have tn: "NUL \<notin> set t" using assms(3) by (auto simp: t_def dest: set_dropWhileD)
  have sk: "skip_blanks cmd n b = Some (length A, length t)"
    using skip_blanks_eq [OF l(1), of ?s "NUL # ?Z"] b l(2) lA by (simp add: t_def)
  note es = exec_spec_def [of env ?s w, unfolded Let_def, folded t_def]
  note kept = kept_splice [OF bt _ lt, unfolded lA, OF _ le_add1]
  have tk: "length (tokens t) < FINSH_ARG_MAX" using assms(4) by (simp add: t_def tokens_strip)
  show ?thesis
  proof (cases "t = []")
    case True
    then have "msh_exec env cmd n b w = Some (0, b, w)" using sk by (simp add: msh_exec_def)
    moreover have "line_kept cmd n b b" by (simp add: line_kept_def)
    ultimately show ?thesis using True by (auto simp: es)
  next
    case False
    then have hd: "\<not> is_blank (hd t)" unfolding t_def using hd_dropWhile by blast
    note ex = exec_cmd_eq [OF refl tn False hd tk assms(5), of A ?Z w, folded bt]
    show ?thesis
    proof (cases "lookup (symtab env) (takeWhile (\<lambda>c. \<not> is_blank c) t)")
      case (Some f)
      then obtain s' where s': "length s' = length t" "msh_exec_cmd env (length A) (length t) b w =
          Some (0, fst (call env f (tokens t) w), A @ s' @ NUL # ?Z, snd (call env f (tokens t) w))" using ex by auto
      have "exec_spec env ?s w = call env f (tokens t) w" using Some False by (simp add: es)
      then have "msh_exec env cmd n b w = Some (fst (exec_spec env ?s w), A @ s' @ NUL # ?Z, snd (exec_spec env ?s w))"
        using sk s'(2) False by (simp add: msh_exec_def)
      then show ?thesis using kept [OF s'(1)] by blast
    next
      case None
      let ?y = "takeWhile (\<lambda>c. c \<noteq> CHR '' '') t" and ?r = "dropWhile (\<lambda>c. c \<noteq> CHR '' '') t"
      define y where "y = ?y"
      define r where "r = ?r"
      have yr: "t = y @ r" by (simp add: y_def r_def)
      have fs: "first_space b (length A) = Some (length A + length y)"
        using first_space_eq [OF refl tn, of A ?Z, folded bt] by (simp add: y_def)
      have "\<exists>t' q. b[length A + length y := NUL] = A @ t' @ NUL # ?Z \<and> length t' = length t \<and> t' @ NUL # ?Z = y @ NUL # q"
      proof (cases r)
        case Nil
        then show ?thesis using yr by (subst bt) (auto simp: list_update_append intro!: exI [of _ t])
      next
        case (Cons c r')
        then show ?thesis using yr by (subst bt) (auto simp: list_update_append intro!: exI [of _ "y @ NUL # r'"])
      qed
      then obtain t' q where t': "b[length A + length y := NUL] = A @ t' @ NUL # ?Z" "length t' = length t"
        "t' @ NUL # ?Z = y @ NUL # q" by blast
      have "NUL \<notin> set y" using tn yr by simp
      then have sa: "string_at (A @ t' @ NUL # ?Z) (length A) = Some y" using string_at_eq [of "length A" A y q] t'(3) by simp
      have "length A + length y < length b" using assms(1) lt yr by simp
      then have "msh_exec env cmd n b w =
          Some (- 1, A @ t' @ NUL # ?Z, print env (''%s: command not found.'' @ LF) [Arg_str (Some y)] w)"
        using sk ex None False fs t'(1) sa by (simp add: msh_exec_def)
      moreover have "exec_spec env ?s w = (- 1, print env (''%s: command not found.'' @ LF) [Arg_str (Some y)] w)"
        using None False by (simp add: es y_def)
      ultimately show ?thesis using kept [OF t'(2)] by simp
    qed
  qed
qed

text \<open>
  C35.  \<open>msh_exec\<close> runs the first entry of the table whose name is the first word of the line, with the
  arguments of the line, and returns its result; without such an entry it says so and returns -1;
  it does nothing with an empty line.  It does not touch the buffer outside the line.
\<close>

theorem msh_exec_correct:
  assumes "cmd + n < length b" "b ! (cmd + n) = NUL" "NUL \<notin> set (take n (drop cmd b))"
    "length (tokens (take n (drop cmd b))) < FINSH_ARG_MAX" "\<forall>index\<in>set (symtab env). NUL \<notin> set (sys_name index)"
  shows "\<exists>b'. msh_exec env cmd n b w =
      Some (fst (exec_spec env (take n (drop cmd b)) w), b', snd (exec_spec env (take n (drop cmd b)) w)) \<and>
     line_kept cmd n b b'"
  by (rule msh_exec_eq [OF assms])

text \<open>A console that keeps what is printed, and a table of three commands.\<close>

definition sample_env :: "(string \<times> va_arg list) list shell_env" where
  "sample_env =
     \<lparr>symtab = [\<lparr>sys_name = ''help'', sys_desc = ''RT-Thread shell help.'', sys_func = 0\<rparr>,
               \<lparr>sys_name = ''list_sem'', sys_desc = ''list semaphore in system'', sys_func = 1\<rparr>,
               \<lparr>sys_name = ''list_timer'', sys_desc = ''list timer in system'', sys_func = 2\<rparr>],
      print = (\<lambda>fmt args w. w @ [(fmt, args)]),
      call = (\<lambda>f args w. (int (length args), w @ [(''call'', Arg_int (of_nat f) # map (Arg_str \<circ> Some) args)]))\<rparr>"

lemma sample_env_names: "\<forall>index\<in>set (symtab sample_env). NUL \<notin> set (sys_name index)"
  by (simp add: sample_env_def)

theorem arguments_roundtrip_witness:
  "\<exists>b argv. msh_split sample_env 0 13 (''set \"a b\" \"\" '' @ [NUL]) [] = Some (b, argv, []) \<and>
     strings_at b argv = Some [''set'', ''a b'', '''']"
proof -
  have e: "render [''set'', ''a b'', ''''] = ''set \"a b\" \"\" ''" by (simp add: plain_def is_blank_def)
  have "\<forall>a\<in>set [''set'', ''a b'', '''']. (plain a \<or> quotable a) \<and> NUL \<notin> set a"
    by (simp add: plain_def is_blank_def quotable_def)
  from arguments_roundtrip [OF this, of sample_env "[]"] show ?thesis unfolding e by (simp add: numeral_eq_Suc)
qed

theorem msh_split_correct_witness:
  "\<exists>b' argv w'. msh_split sample_env 1 9 (''>echo \"a b'' @ [NUL]) [] = Some (b', argv, w') \<and>
     strings_at b' argv = Some [''echo'', ''a b'']"
proof -
  have t: "take FINSH_ARG_MAX (tokens (take 9 (drop 1 (''>echo \"a b'' @ [NUL])))) = [''echo'', ''a b'']" by code_simp
  show ?thesis
    using msh_split_correct [of 1 9 "''>echo \"a b'' @ [NUL]" sample_env "[]", unfolded t] by auto
qed

theorem msh_exec_correct_witness:
  "\<exists>b'. msh_exec sample_env 0 11 ('' list_sem 7'' @ [NUL]) [] =
     Some (2, b', [(''call'', [Arg_int 1, Arg_str (Some ''list_sem''), Arg_str (Some ''7'')])])"
proof -
  have t: "length (tokens (take 11 (drop 0 ('' list_sem 7'' @ [NUL])))) < FINSH_ARG_MAX" by code_simp
  have e: "exec_spec sample_env (take 11 (drop 0 ('' list_sem 7'' @ [NUL]))) [] =
     (2, [(''call'', [Arg_int 1, Arg_str (Some ''list_sem''), Arg_str (Some ''7'')])])" by code_simp
  show ?thesis using msh_exec_correct [OF _ _ _ t sample_env_names, of "[]", unfolded e] by auto
qed

section \<open>Completion\<close>

definition matches :: "'w shell_env \<Rightarrow> string \<Rightarrow> string list" where
  "matches env s = filter (prefix s) (map sys_name (symtab env))"

lemma str_common_prefix: "prefix c a \<Longrightarrow> prefix c b \<longleftrightarrow> length c \<le> str_common a b"
proof (induction a b arbitrary: c rule: str_common.induct)
  case (1 a as b bs)
  then show ?case by (cases c) auto
qed (auto simp: prefix_def)

lemma string_at_text:
  assumes "string_at b p = Some s"
  shows "p + length s < length b" "take (length s) (drop p b) = s" "NUL \<notin> set s"
proof -
  have n: "NUL \<in> set (drop p b)" "s = takeWhile (\<lambda>c. c \<noteq> NUL) (drop p b)"
    using assms by (auto simp: string_at_def split: if_splits)
  have "NUL \<in> set xs \<Longrightarrow> length (takeWhile (\<lambda>c. c \<noteq> NUL) xs) < length xs" for xs by (induction xs) auto
  from this [OF n(1)] have "length s < length (drop p b)" unfolding n(2) .
  then show "p + length s < length b" by simp
  show "take (length s) (drop p b) = s" using n(2) by (metis takeWhile_eq_take)
  show "NUL \<notin> set s" using n(2) by (auto dest: set_takeWhileD)
qed

lemma complete_loop_go:
  assumes s: "string_at b p = Some s" "s \<noteq> []" and "prefix s m0" "length s \<le> k" "k \<le> length m0"
  shows "\<exists>k'. complete_loop env b p tab (Some m0) k w =
      Some (Some m0, k', fold (\<lambda>m. print env (''%s'' @ LF) [Arg_str (Some m)]) (filter (prefix s) (map sys_name tab)) w) \<and>
     length s \<le> k' \<and> k' \<le> length m0 \<and>
     (\<forall>c. prefix c m0 \<longrightarrow> (length c \<le> k' \<longleftrightarrow> length c \<le> k \<and> (\<forall>m\<in>set (filter (prefix s) (map sys_name tab)). prefix c m)))"
  using assms(4,5)
proof (induction tab arbitrary: k w)
  case (Cons index tab)
  note t = string_at_text [OF s(1)]
  have n: "strncmp_eq (sys_name index) b p (length s) = Some (prefix s (sys_name index))"
    by (rule strncmp_eq_text) (use t in auto)
  have k0: "k \<noteq> 0" using Cons.prems(1) s(2) by (cases s) auto
  show ?case
  proof (cases "prefix s (sys_name index)")
    case True
    let ?c = "str_common m0 (sys_name index)"
    have "length s \<le> ?c" using str_common_prefix [OF assms(3)] True by blast
    then have "length s \<le> min ?c k" "min ?c k \<le> length m0" using Cons.prems by simp_all
    from Cons.IH [OF this, of "print env (''%s'' @ LF) [Arg_str (Some (sys_name index))] w"]
    show ?thesis using True n k0 s(1) str_common_prefix [of _ m0 "sys_name index"]
      by (auto simp: min_def Let_def split: if_splits)
  qed (use Cons n s(1) in simp)
qed simp

lemma complete_loop_start:
  assumes s: "string_at b p = Some s" "s \<noteq> []" and m: "filter (prefix s) (map sys_name tab) = m0 # ms"
  shows "complete_loop env b p tab None 0 w = complete_loop env b p tab (Some m0) (length m0) w"
  using m
proof (induction tab)
  case (Cons index tab)
  note t = string_at_text [OF s(1)]
  have n: "strncmp_eq (sys_name index) b p (length s) = Some (prefix s (sys_name index))"
    by (rule strncmp_eq_text) (use t in auto)
  show ?case
  proof (cases "prefix s (sys_name index)")
    case True
    then have "m0 = sys_name index" "m0 \<noteq> []" using Cons.prems s(2) by auto
    then show ?thesis using n s(1) True by (simp add: Let_def)
  qed (use Cons n s(1) in simp)
qed simp

lemma complete_loop_none:
  assumes s: "string_at b p = Some s" and m: "filter (prefix s) (map sys_name tab) = []"
  shows "complete_loop env b p tab None 0 w = Some (None, 0, w)"
  using m
proof (induction tab)
  case (Cons index tab)
  note t = string_at_text [OF s(1)]
  have "strncmp_eq (sys_name index) b p (length s) = Some (prefix s (sys_name index))"
    by (rule strncmp_eq_text) (use t in auto)
  then show ?case using Cons s by (auto split: if_splits)
qed simp

lemma msh_auto_complete_eq:
  assumes "string_at b p = Some s" "s \<noteq> []" "\<forall>m\<in>set (matches env s). p + length m \<le> length b"
  shows "\<exists>c. msh_auto_complete env p b w =
      Some (take p b @ c @ drop (p + length c) b,
            fold (\<lambda>m. print env (''%s'' @ LF) [Arg_str (Some m)]) (matches env s) w) \<and>
     (matches env s = [] \<longrightarrow> c = []) \<and>
     (matches env s \<noteq> [] \<longrightarrow> prefix s c \<and> (\<forall>d. (\<forall>m\<in>set (matches env s). prefix d m) \<longleftrightarrow> prefix d c))"
proof -
  note t = string_at_text [OF assms(1)]
  have "drop p b = b ! p # drop (Suc p) b" using t(1) by (simp add: Cons_nth_drop_Suc)
  then have "b ! p = hd s" using t(2) assms(2) by (cases s) auto
  then have ld: "load b p = Some (hd s)" "hd s \<noteq> NUL" using t assms(2) by (cases s; auto)+
  show ?thesis
  proof (cases "matches env s")
    case Nil
    then show ?thesis using ld complete_loop_none [OF assms(1), of "symtab env" env w]
      by (auto simp: msh_auto_complete_def matches_def)
  next
    case (Cons m0 ms)
    have "m0 \<in> set (matches env s)" using Cons by simp
    then have m0: "prefix s m0" "p + length m0 \<le> length b" using assms(3) by (simp_all add: matches_def)
    obtain k where k: "complete_loop env b p (symtab env) (Some m0) (length m0) w =
        Some (Some m0, k, fold (\<lambda>m. print env (''%s'' @ LF) [Arg_str (Some m)]) (matches env s) w)"
      "length s \<le> k" "k \<le> length m0"
      "\<forall>c. prefix c m0 \<longrightarrow> (length c \<le> k \<longleftrightarrow> length c \<le> length m0 \<and> (\<forall>m\<in>set (matches env s). prefix c m))"
      using complete_loop_go [OF assms(1,2) m0(1) prefix_length_le [OF m0(1)] order_refl, of env "symtab env" w]
      unfolding matches_def by blast
    have l: "complete_loop env b p (symtab env) None 0 w = complete_loop env b p (symtab env) (Some m0) (length m0) w"
      by (rule complete_loop_start [OF assms(1,2)]) (use Cons in \<open>simp add: matches_def\<close>)
    let ?c = "take k m0"
    have c: "prefix ?c m0" "length ?c = k" using k(3) by (simp_all add: take_is_prefix)
    have "msh_auto_complete env p b w = Some (take p b @ ?c @ drop (p + length ?c) b,
          fold (\<lambda>m. print env (''%s'' @ LF) [Arg_str (Some m)]) (matches env s) w)"
      using ld k(1,3) l m0(2) c(2) by (simp add: msh_auto_complete_def)
    moreover have "prefix s ?c" using k(2) m0(1) c by (metis prefix_length_prefix)
    moreover have "(\<forall>m\<in>set (matches env s). prefix d m) \<longleftrightarrow> prefix d ?c" for d
    proof
      assume a: "\<forall>m\<in>set (matches env s). prefix d m"
      then have "prefix d m0" using Cons by simp
      then show "prefix d ?c" using k(4) a c prefix_length_le by (metis prefix_length_prefix)
    next
      assume d: "prefix d ?c"
      then have "prefix d m0" "length d \<le> k" using c prefix_order.trans prefix_length_le by metis+
      then show "\<forall>m\<in>set (matches env s). prefix d m" using k(4) by blast
    qed
    ultimately show ?thesis using Cons by (intro exI [of _ ?c]) simp
  qed
qed

text \<open>
  Completion lists the commands that begin with the text of the line and extends the text to their
  longest common prefix; it changes nothing else of the buffer.  Without such a command the
  line stays as it is.
\<close>

theorem msh_auto_complete_correct:
  assumes "string_at b p = Some s" "s \<noteq> []" "\<forall>m\<in>set (matches env s). p + length m \<le> length b"
  shows "\<exists>c. msh_auto_complete env p b w =
      Some (take p b @ c @ drop (p + length c) b,
            fold (\<lambda>m. print env (''%s'' @ LF) [Arg_str (Some m)]) (matches env s) w) \<and>
     (matches env s = [] \<longrightarrow> c = []) \<and>
     (matches env s \<noteq> [] \<longrightarrow> prefix s c \<and> (\<forall>d. (\<forall>m\<in>set (matches env s). prefix d m) \<longleftrightarrow> prefix d c))"
  by (rule msh_auto_complete_eq [OF assms])

theorem msh_auto_complete_correct_witness:
  "\<exists>c w. msh_auto_complete sample_env 0 (''li'' @ replicate 12 NUL) [] = Some (c @ drop (length c) (''li'' @ replicate 12 NUL), w) \<and>
     prefix ''li'' c \<and> prefix c ''list_sem'' \<and> prefix c ''list_timer''"
proof -
  have s: "string_at (''li'' @ replicate 12 NUL) 0 = Some ''li''" by code_simp
  have m: "matches sample_env ''li'' = [''list_sem'', ''list_timer'']" by code_simp
  have r: "\<forall>m\<in>set (matches sample_env ''li''). 0 + length m \<le> length (''li'' @ replicate 12 NUL)" unfolding m by simp
  show ?thesis using msh_auto_complete_correct [OF s _ r, of "[]"] unfolding m by force
qed

end
