(* ===== verification/Shell_Editor.thy ===== *)
theory Shell_Editor
  imports Shell Msh_Contract
begin

text \<open>
  What the shell of \<open>Shell\<close> promises: on every sequence of keys that fits into its lines it is an editor
  of one line with a cursor, a history and completion, which runs the lines it is given.  Every key
  is simulated, with the exact output.
\<close>

section \<open>The abstract editor\<close>

text \<open>
  A text with a cursor, the lines of the history, the place in the history, and the modes.
\<close>

record editor =
  ed_text :: string
  ed_cur :: nat
  ed_hist :: "string list"
  ed_pos :: nat
  ed_mode :: input_stat
  ed_echo :: bool
  ed_prompt :: string

datatype key = Key_escape | Key_bracket | Key_up | Key_down | Key_left | Key_right | Key_ignored | Key_tab
  | Key_back | Key_enter | Key_char char

definition plain_class :: "char \<Rightarrow> key" where
  "plain_class ch =
     (if ch = NUL \<or> ch = CHR 0xFF then Key_ignored
      else if ch = TAB then Key_tab
      else if ch = CHR 0x7F \<or> ch = CHR 0x08 then Key_back
      else if ch = CHR 0x0D \<or> ch = CHR 0x0A then Key_enter
      else Key_char ch)"

definition key_class :: "input_stat \<Rightarrow> char \<Rightarrow> key" where
  "key_class mode ch =
     (if ch = ESC then Key_escape
      else case mode of
        WAIT_NORMAL \<Rightarrow> plain_class ch
      | WAIT_SPEC_KEY \<Rightarrow> if ch = CHR 0x5B then Key_bracket else plain_class ch
      | WAIT_FUNC_KEY \<Rightarrow>
          if ch = CHR 0x41 then Key_up else if ch = CHR 0x42 then Key_down
          else if ch = CHR 0x44 then Key_left else if ch = CHR 0x43 then Key_right
          else plain_class ch)"

definition ed_insert :: "'w shell_env \<Rightarrow> char \<Rightarrow> editor \<times> 'w \<Rightarrow> editor \<times> 'w" where
  "ed_insert env c = (\<lambda>(ed, w).
     let rest = c # drop (ed_cur ed) (ed_text ed)
     in (ed\<lparr>ed_text := take (ed_cur ed) (ed_text ed) @ rest, ed_cur := ed_cur ed + 1\<rparr>,
         if ed_cur ed < length (ed_text ed)
         then print_times env (length (ed_text ed) - ed_cur ed) BS
                (if ed_echo ed then print env ''%s'' [Arg_str (Some rest)] w else w)
         else if ed_echo ed then print env ''%c'' [Arg_int (of_char c)] w else w))"

definition ed_delete :: "'w shell_env \<Rightarrow> editor \<times> 'w \<Rightarrow> editor \<times> 'w" where
  "ed_delete env = (\<lambda>(ed, w).
     if ed_cur ed = 0 then (ed, w)
     else
       let rest = drop (ed_cur ed) (ed_text ed)
       in (ed\<lparr>ed_text := take (ed_cur ed - 1) (ed_text ed) @ rest, ed_cur := ed_cur ed - 1\<rparr>,
           if rest \<noteq> []
           then print_times env (length rest + 1) BS (print env (BS @ ''%s  '' @ BS) [Arg_str (Some rest)] w)
           else print env (BS @ '' '' @ BS) [] w))"

definition ed_left :: "'w shell_env \<Rightarrow> editor \<times> 'w \<Rightarrow> editor \<times> 'w" where
  "ed_left env = (\<lambda>(ed, w).
     if ed_cur ed = 0 then (ed, w) else (ed\<lparr>ed_cur := ed_cur ed - 1\<rparr>, print env BS [] w))"

definition ed_right :: "'w shell_env \<Rightarrow> editor \<times> 'w \<Rightarrow> editor \<times> 'w" where
  "ed_right env = (\<lambda>(ed, w).
     if ed_cur ed < length (ed_text ed)
     then (ed\<lparr>ed_cur := ed_cur ed + 1\<rparr>, print env ''%c'' [Arg_int (of_char (ed_text ed ! ed_cur ed))] w)
     else (ed, w))"

definition ed_recall :: "'w shell_env \<Rightarrow> nat \<Rightarrow> editor \<times> 'w \<Rightarrow> editor \<times> 'w" where
  "ed_recall env i = (\<lambda>(ed, w).
     let text = ed_hist ed ! i
     in (ed\<lparr>ed_text := text, ed_cur := length text, ed_pos := i\<rparr>,
         print env ''%s%s'' [Arg_str (Some (ed_prompt ed)), Arg_str (Some text)]
           (print env (ESC # ''[2K'' @ [CHR 0x0D]) [] w)))"

definition ed_up :: "'w shell_env \<Rightarrow> editor \<times> 'w \<Rightarrow> editor \<times> 'w" where
  "ed_up env = (\<lambda>(ed, w). if ed_pos ed = 0 then (ed, w) else ed_recall env (ed_pos ed - 1) (ed, w))"

definition ed_down :: "'w shell_env \<Rightarrow> editor \<times> 'w \<Rightarrow> editor \<times> 'w" where
  "ed_down env = (\<lambda>(ed, w).
     if ed_hist ed = [] then (ed, w) else ed_recall env (min (ed_pos ed + 1) (length (ed_hist ed) - 1)) (ed, w))"

text \<open>The history keeps the last five lines, without empty ones and without repetitions in a row.\<close>

definition push_line :: "string \<Rightarrow> string list \<Rightarrow> string list" where
  "push_line text hist =
     (if text = [] \<or> hist \<noteq> [] \<and> last hist = text then hist
      else drop (length hist - (FINSH_HISTORY_LINES - 1)) hist @ [text])"

definition ed_enter :: "'w shell_env \<Rightarrow> editor \<times> 'w \<Rightarrow> editor \<times> 'w" where
  "ed_enter env = (\<lambda>(ed, w).
     let hist = push_line (ed_text ed) (ed_hist ed)
     in (ed\<lparr>ed_text := [], ed_cur := 0, ed_hist := hist, ed_pos := length hist\<rparr>,
         print env (ed_prompt ed) []
           (snd (exec_spec env (ed_text ed) (if ed_echo ed then print env LF [] w else w)))))"

fun common_prefix :: "string list \<Rightarrow> string" where
  "common_prefix [] = []"
| "common_prefix [m] = m"
| "common_prefix (m # ms) = longest_common_prefix m (common_prefix ms)"

definition ed_complete :: "'w shell_env \<Rightarrow> editor \<times> 'w \<Rightarrow> editor \<times> 'w" where
  "ed_complete env = (\<lambda>(ed, w).
     let w = print env LF [] (print_times env (ed_cur ed) BS w);
         ms = matches env (ed_text ed);
         text = (if ed_text ed = [] \<or> ms = [] then ed_text ed else common_prefix ms);
         w = (if ed_text ed = [] then snd (msh_help env w)
              else fold (\<lambda>m. print env (''%s'' @ LF) [Arg_str (Some m)]) ms w)
     in (ed\<lparr>ed_text := text, ed_cur := length text\<rparr>,
         print env ''%s%s'' [Arg_str (Some (ed_prompt ed)), Arg_str (Some text)] w))"

fun ed_do :: "'w shell_env \<Rightarrow> key \<Rightarrow> editor \<times> 'w \<Rightarrow> editor \<times> 'w" where
  "ed_do env Key_up s = ed_up env s"
| "ed_do env Key_down s = ed_down env s"
| "ed_do env Key_left s = ed_left env s"
| "ed_do env Key_right s = ed_right env s"
| "ed_do env Key_tab s = ed_complete env s"
| "ed_do env Key_back s = ed_delete env s"
| "ed_do env Key_enter s = ed_enter env s"
| "ed_do env (Key_char c) s = ed_insert env c s"
| "ed_do env _ s = s"

fun next_mode :: "key \<Rightarrow> input_stat" where
  "next_mode Key_escape = WAIT_SPEC_KEY"
| "next_mode Key_bracket = WAIT_FUNC_KEY"
| "next_mode _ = WAIT_NORMAL"

definition ed_key :: "'w shell_env \<Rightarrow> char \<Rightarrow> editor \<times> 'w \<Rightarrow> editor \<times> 'w" where
  "ed_key env ch = (\<lambda>(ed, w).
     let k = key_class (ed_mode ed) ch in ed_do env k (ed\<lparr>ed_mode := next_mode k\<rparr>, w))"

text \<open>
  What a key needs: room for a character (the shell drops a line of eighty), fewer than ten arguments
  in a line that is run, and command names that fit into the line.
\<close>

fun key_fits :: "'w shell_env \<Rightarrow> key \<Rightarrow> editor \<Rightarrow> bool" where
  "key_fits env (Key_char c) ed = (length (ed_text ed) + 1 < FINSH_CMD_SIZE)"
| "key_fits env Key_enter ed = (length (tokens (ed_text ed)) < FINSH_ARG_MAX)"
| "key_fits env Key_tab ed = list_all (\<lambda>m. length m < FINSH_CMD_SIZE) (matches env (ed_text ed))"
| "key_fits env _ ed = True"

section \<open>Simulation\<close>

definition padded :: "nat \<Rightarrow> string \<Rightarrow> string" where
  "padded n s = s @ replicate (n - length s) NUL"

definition text_ok :: "string \<Rightarrow> bool" where
  "text_ok s \<longleftrightarrow> NUL \<notin> set s \<and> length s < FINSH_CMD_SIZE"

definition history_is :: "string list \<Rightarrow> string list \<Rightarrow> bool" where
  "history_is rows hist \<longleftrightarrow>
     length rows = FINSH_HISTORY_LINES \<and> (\<forall>r\<in>set rows. length r = FINSH_CMD_SIZE) \<and>
     length hist \<le> FINSH_HISTORY_LINES \<and> take (length hist) rows = map (padded FINSH_CMD_SIZE) hist \<and>
     (\<forall>t\<in>set hist. text_ok t)"

definition edits :: "finsh_shell \<Rightarrow> editor \<Rightarrow> bool" where
  "edits sh ed \<longleftrightarrow>
     line sh = padded (FINSH_CMD_SIZE + 1) (ed_text ed) \<and> text_ok (ed_text ed) \<and>
     line_position sh = of_nat (length (ed_text ed)) \<and> line_curpos sh = of_nat (ed_cur ed) \<and>
     ed_cur ed \<le> length (ed_text ed) \<and>
     history_is (cmd_history sh) (ed_hist ed) \<and> history_count sh = of_nat (length (ed_hist ed)) \<and>
     current_history sh = of_nat (ed_pos ed) \<and> ed_pos ed \<le> length (ed_hist ed) \<and>
     finsh_get_prompt sh = Some (ed_prompt ed) \<and> echo_mode sh = ed_echo ed \<and> input_state sh = ed_mode ed"

lemma padded_length [simp]: "length s \<le> n \<Longrightarrow> length (padded n s) = n"
  by (simp add: padded_def)

lemma padded_take [simp]: "take (length s) (padded n s) = s"
  by (simp add: padded_def)

lemma string_at_padded: "NUL \<notin> set s \<Longrightarrow> length s < n \<Longrightarrow> p \<le> length s \<Longrightarrow> string_at (padded n s) p = Some (drop p s)"
proof -
  assume a: "NUL \<notin> set s" "length s < n" "p \<le> length s"
  then obtain m where "n - length s = Suc m" by (metis Suc_diff_Suc)
  then have "padded n s = take p s @ drop p s @ NUL # replicate m NUL" by (simp add: padded_def)
  moreover have "NUL \<notin> set (drop p s)" using a(1) by (meson in_set_dropD)
  ultimately show ?thesis using string_at_eq [of p "take p s" "drop p s"] a(3) by simp
qed

lemma u16_of_nat [simp]: "n < 65536 \<Longrightarrow> unat (of_nat n :: u16) = n"
  by (simp add: unat_of_nat take_bit_eq_mod)

lemma u16_dec: "0 < n \<Longrightarrow> (of_nat n :: u16) - 1 = of_nat (n - 1)"
  by (simp add: of_nat_diff)

lemma u16_zero: "n < 65536 \<Longrightarrow> (of_nat n :: u16) = 0 \<longleftrightarrow> n = 0"
  by (auto simp: word_of_nat_eq_0_iff dest: dvd_imp_le)

lemma u16_less: "m < 65536 \<Longrightarrow> n < 65536 \<Longrightarrow> (of_nat m :: u16) < of_nat n \<longleftrightarrow> m < n"
  by (simp add: word_less_nat_alt)

lemma prompt_same [simp]:
  "finsh_get_prompt (sh\<lparr>line := a\<rparr>) = finsh_get_prompt sh" "finsh_get_prompt (sh\<lparr>line_position := p\<rparr>) = finsh_get_prompt sh"
  "finsh_get_prompt (sh\<lparr>line_curpos := p\<rparr>) = finsh_get_prompt sh" "finsh_get_prompt (sh\<lparr>cmd_history := h\<rparr>) = finsh_get_prompt sh"
  "finsh_get_prompt (sh\<lparr>current_history := p\<rparr>) = finsh_get_prompt sh" "finsh_get_prompt (sh\<lparr>history_count := p\<rparr>) = finsh_get_prompt sh"
  "finsh_get_prompt (sh\<lparr>input_state := m\<rparr>) = finsh_get_prompt sh"
  by (simp_all add: finsh_get_prompt_def)

lemma editsD:
  assumes "edits sh ed"
  shows "line sh = padded (FINSH_CMD_SIZE + 1) (ed_text ed)" "NUL \<notin> set (ed_text ed)" "length (ed_text ed) < FINSH_CMD_SIZE"
    "line_position sh = of_nat (length (ed_text ed))" "line_curpos sh = of_nat (ed_cur ed)" "ed_cur ed \<le> length (ed_text ed)"
    "history_is (cmd_history sh) (ed_hist ed)" "history_count sh = of_nat (length (ed_hist ed))"
    "current_history sh = of_nat (ed_pos ed)" "ed_pos ed \<le> length (ed_hist ed)"
    "finsh_get_prompt sh = Some (ed_prompt ed)" "echo_mode sh = ed_echo ed" "input_state sh = ed_mode ed"
    "length (ed_hist ed) \<le> FINSH_HISTORY_LINES"
  using assms by (simp_all add: edits_def text_ok_def history_is_def)

text \<open>The result of a key in both.\<close>

definition simulates :: "(finsh_shell \<times> 'w) option \<Rightarrow> editor \<times> 'w \<Rightarrow> bool" where
  "simulates r s \<longleftrightarrow> (\<exists>sh. r = Some (sh, snd s) \<and> edits sh (fst s))"

lemma left_ok:
  assumes "edits sh ed"
  shows "simulates (key_left env (sh, w)) (ed_left env (ed, w))"
proof -
  note e = editsD [OF assms]
  have z: "line_curpos sh = 0 \<longleftrightarrow> ed_cur ed = 0" using e(3,5,6) by (simp add: u16_zero)
  show ?thesis
  proof (cases "ed_cur ed = 0")
    case True
    then show ?thesis using z assms by (simp add: simulates_def key_left_def ed_left_def)
  next
    case False
    then have "line_curpos sh - 1 = of_nat (ed_cur ed - 1)" using e(5) u16_dec by simp
    then show ?thesis using False z e by (simp add: simulates_def key_left_def ed_left_def edits_def text_ok_def)
  qed
qed

lemma right_ok:
  assumes "edits sh ed"
  shows "simulates (key_right env (sh, w)) (ed_right env (ed, w))"
proof -
  note e = editsD [OF assms]
  have z: "line_curpos sh < line_position sh \<longleftrightarrow> ed_cur ed < length (ed_text ed)" using e(3-6) by (simp add: u16_less)
  show ?thesis
  proof (cases "ed_cur ed < length (ed_text ed)")
    case False
    then show ?thesis using z assms by (simp add: simulates_def key_right_def ed_right_def)
  next
    case True
    have u: "unat (line_curpos sh) = ed_cur ed" "line_curpos sh + 1 = of_nat (ed_cur ed + 1)" using e(3,5,6) by simp_all
    have l: "load (line sh) (ed_cur ed) = Some (ed_text ed ! ed_cur ed)"
      using True e(1,3) by (simp add: padded_def nth_append)
    show ?thesis using True z e u l by (simp add: simulates_def key_right_def ed_right_def edits_def text_ok_def)
  qed
qed

lemma recall_ok:
  assumes "edits sh ed" "i < length (ed_hist ed)"
  shows "simulates (recall_history env (sh\<lparr>current_history := of_nat i\<rparr>, w)) (ed_recall env i (ed, w))"
proof -
  note e = editsD [OF assms(1)]
  let ?t = "ed_hist ed ! i"
  have h: "cmd_history sh ! i = padded FINSH_CMD_SIZE ?t" "text_ok ?t" "length (cmd_history sh) = FINSH_HISTORY_LINES"
    using e(7) assms(2) unfolding history_is_def
    by (metis nth_map nth_take, simp, simp)
  have i: "i < FINSH_HISTORY_LINES" using e(14) assms(2) by simp
  have t: "NUL \<notin> set ?t" "length ?t < FINSH_CMD_SIZE" using h(2) by (simp_all add: text_ok_def)
  have "drop FINSH_CMD_SIZE (line sh) = [NUL]" using e(1,3) by (simp add: padded_def)
  moreover have "FINSH_CMD_SIZE + 1 - length ?t = Suc (FINSH_CMD_SIZE - length ?t)" using t(2) by simp
  ultimately have p: "padded FINSH_CMD_SIZE ?t @ drop FINSH_CMD_SIZE (line sh) = padded (FINSH_CMD_SIZE + 1) ?t"
    by (simp add: padded_def replicate_append_same)
  have s: "string_at (padded (FINSH_CMD_SIZE + 1) ?t) 0 = Some ?t" using string_at_padded [of ?t 81 0] t by simp
  have "read_block (padded FINSH_CMD_SIZE ?t) 0 FINSH_CMD_SIZE = Some (padded FINSH_CMD_SIZE ?t)" using t(2) by simp
  moreover have "write_block (line sh) 0 (padded FINSH_CMD_SIZE ?t) = Some (padded (FINSH_CMD_SIZE + 1) ?t)"
    using p e(1,3) t(2) by simp
  ultimately have "recall_history env (sh\<lparr>current_history := of_nat i\<rparr>, w) =
      Some (sh\<lparr>current_history := of_nat i, line := padded (FINSH_CMD_SIZE + 1) ?t, line_position := of_nat (length ?t),
               line_curpos := of_nat (length ?t)\<rparr>, snd (ed_recall env i (ed, w)))"
    using i h(1,3) s e(11) by (simp add: recall_history_def set_positions_def shell_handle_history_def ed_recall_def Let_def)
  moreover have "edits (sh\<lparr>current_history := of_nat i, line := padded (FINSH_CMD_SIZE + 1) ?t, line_position := of_nat (length ?t),
               line_curpos := of_nat (length ?t)\<rparr>) (fst (ed_recall env i (ed, w)))"
    using e h(2) assms(2) by (simp add: edits_def ed_recall_def Let_def)
  ultimately show ?thesis by (simp add: simulates_def)
qed

lemma up_ok:
  assumes "edits sh ed"
  shows "simulates (key_up env (sh, w)) (ed_up env (ed, w))"
proof -
  note e = editsD [OF assms]
  have z: "current_history sh = 0 \<longleftrightarrow> ed_pos ed = 0" using e(9,10,14) by (simp add: u16_zero)
  show ?thesis
  proof (cases "ed_pos ed = 0")
    case True
    then have "edits (sh\<lparr>current_history := 0\<rparr>) ed" using e by (simp add: edits_def text_ok_def)
    then show ?thesis using True z by (simp add: key_up_def ed_up_def simulates_def)
  next
    case False
    then have "current_history sh - 1 = of_nat (ed_pos ed - 1)" using e(9) u16_dec by simp
    moreover have "ed_pos ed - 1 < length (ed_hist ed)" using False e(10) by simp
    ultimately show ?thesis using recall_ok [OF assms, of "ed_pos ed - 1" env w] False z
      by (simp add: key_up_def ed_up_def word_gt_0)
  qed
qed

lemma down_ok:
  assumes "edits sh ed"
  shows "simulates (key_down env (sh, w)) (ed_down env (ed, w))"
proof -
  note e = editsD [OF assms]
  have u: "uint (current_history sh) = int (ed_pos ed)" "uint (history_count sh) = int (length (ed_hist ed))"
    using e(8-10,14) u16_of_nat [of "ed_pos ed"] u16_of_nat [of "length (ed_hist ed)"]
    by (simp_all add: uint_nat del: u16_of_nat)
  have n: "history_count sh = 0 \<longleftrightarrow> ed_hist ed = []" using e(8,14) u16_zero [of "length (ed_hist ed)"] by simp
  show ?thesis
  proof (cases "ed_hist ed = []")
    case True
    then show ?thesis using n u e assms by (auto simp: key_down_def ed_down_def simulates_def)
  next
    case False
    then have l: "0 < length (ed_hist ed)" by simp
    have c: "uint (current_history sh) < uint (history_count sh) - 1 \<longleftrightarrow> ed_pos ed + 1 < length (ed_hist ed)"
      unfolding u by linarith
    show ?thesis
    proof (cases "ed_pos ed + 1 < length (ed_hist ed)")
      case True
      then have m: "min (ed_pos ed + 1) (length (ed_hist ed) - 1) = ed_pos ed + 1" by simp
      have "key_down env (sh, w) = recall_history env (sh\<lparr>current_history := of_nat (ed_pos ed + 1)\<rparr>, w)"
        using c True e(9) by (simp add: key_down_def add.commute)
      then show ?thesis using recall_ok [OF assms True, of env w] False m by (simp add: ed_down_def)
    next
      case nx: False
      then have m: "min (ed_pos ed + 1) (length (ed_hist ed) - 1) = length (ed_hist ed) - 1" by simp
      have "history_count sh - 1 = of_nat (length (ed_hist ed) - 1)" using e(8) u16_dec [OF l] by simp
      then have "key_down env (sh, w) = recall_history env (sh\<lparr>current_history := of_nat (length (ed_hist ed) - 1)\<rparr>, w)"
        using c nx n False by (simp add: key_down_def)
      moreover have "length (ed_hist ed) - 1 < length (ed_hist ed)" using l by simp
      moreover have "ed_down env (ed, w) = ed_recall env (length (ed_hist ed) - 1) (ed, w)" using False m by (simp add: ed_down_def)
      ultimately show ?thesis using recall_ok [OF assms] by (simp only:)
    qed
  qed
qed

text \<open>Editing at the cursor.\<close>

lemma padded_insert:
  assumes "length s < n" "cur \<le> length s"
  shows "take cur s @ c # drop cur s @ replicate (n - Suc (length s)) NUL = padded n (take cur s @ c # drop cur s)"
  using assms by (simp add: padded_def)

lemma insert_ok:
  assumes "edits sh ed" "length (ed_text ed) + 1 < FINSH_CMD_SIZE" "c \<noteq> NUL"
  shows "simulates (key_char env c (sh, w)) (ed_insert env c (ed, w))"
proof -
  note e = editsD [OF assms(1)]
  let ?s = "ed_text ed" and ?c = "ed_cur ed"
  let ?t = "take ?c ?s @ c # drop ?c ?s" and ?b = "padded (FINSH_CMD_SIZE + 1) (take ?c ?s @ c # drop ?c ?s)"
  have u: "unat (line_position sh) = length ?s" "unat (line_curpos sh) = ?c" using e(3-6) by simp_all
  have p1: "line_position sh + 1 = of_nat (length ?t)" "line_curpos sh + 1 = of_nat (?c + 1)"
    using e(4-6) by (simp_all add: add.commute)
  have u1: "unat (line_position sh + 1) = length ?s + 1" unfolding p1 using e(6) assms(2) by (subst u16_of_nat) simp_all
  have lt: "length ?t = length ?s + 1" using e(6) by simp
  have nt: "NUL \<notin> set ?t" using e(2) assms(3) by (auto dest: in_set_takeD in_set_dropD)
  have sa: "string_at ?b ?c = Some (c # drop ?c ?s)"
    using string_at_padded [OF nt, of "FINSH_CMD_SIZE + 1" ?c] lt assms(2) e(6) by simp
  have fin: "edits (sh\<lparr>line := ?b, line_position := line_position sh + 1, line_curpos := line_curpos sh + 1\<rparr>)
      (ed\<lparr>ed_text := ?t, ed_cur := ?c + 1\<rparr>)"
    using e p1 nt lt assms(2) by (simp add: edits_def text_ok_def)
  show ?thesis
  proof (cases "?c < length ?s")
    case True
    have "read_block (line sh) ?c (length ?s - ?c) = Some (drop ?c ?s)"
      using e(1,3) True by (simp add: padded_def)
    moreover have "write_block (line sh) (?c + 1) (drop ?c ?s) = Some (take (?c + 1) ?s @ drop ?c ?s @ replicate (FINSH_CMD_SIZE + 1 - Suc (length ?s)) NUL)"
      using e(1,3) True by (simp add: padded_def)
    moreover have "store (take (?c + 1) ?s @ drop ?c ?s @ replicate (FINSH_CMD_SIZE + 1 - Suc (length ?s)) NUL) ?c c = Some ?b"
    proof -
      have "(take (Suc ?c) ?s)[?c := c] = take ?c ?s @ [c]" using True by (simp add: take_Suc_conv_app_nth list_update_append)
      then show ?thesis using e(3,6) True padded_insert [of ?s 81 ?c c] by (simp add: list_update_append)
    qed
    ultimately have "key_char env c (sh, w) =
        Some (sh\<lparr>line := ?b, line_position := line_position sh + 1, line_curpos := line_curpos sh + 1\<rparr>,
              print_times env (length ?s - ?c) BS (if ed_echo ed then print env ''%s'' [Arg_str (Some (c # drop ?c ?s))] w else w))"
      using True u u1 sa assms(2) e(12) by (simp add: key_char_def Let_def)
    then show ?thesis using fin True by (simp add: simulates_def ed_insert_def Let_def)
  next
    case False
    then have c: "?c = length ?s" using e(6) by simp
    have "FINSH_CMD_SIZE + 1 - length ?s = Suc (FINSH_CMD_SIZE - length ?s)" using e(3) by simp
    then have "store (line sh) (length ?s) c = Some ?b" using e(1,3) c
      by (simp add: padded_def list_update_append)
    then have "key_char env c (sh, w) =
        Some (sh\<lparr>line := ?b, line_position := line_position sh + 1, line_curpos := line_curpos sh + 1\<rparr>,
              if ed_echo ed then print env ''%c'' [Arg_int (of_char c)] w else w)"
      using False u u1 assms(2) e(12) by (simp add: key_char_def Let_def)
    then show ?thesis using fin False c by (simp add: simulates_def ed_insert_def Let_def)
  qed
qed

lemma padded_delete:
  assumes "0 < cur" "cur \<le> length s" "length s < n"
  shows "store (take (cur - 1) s @ drop cur s @ drop (length s - 1) (padded n s)) (length s - 1) NUL =
    Some (padded n (take (cur - 1) s @ drop cur s))"
proof -
  have "drop (length s - 1) s = [last s]" using assms by (cases s rule: rev_cases) auto
  then have d: "drop (length s - 1) (padded n s) = last s # replicate (n - length s) NUL" by (simp add: padded_def)
  have l: "length (take (cur - 1) s @ drop cur s) = length s - 1" using assms by simp
  have "store (X @ y # Z) (length X) NUL = Some (X @ NUL # Z)" for X Z and y :: char
    by (simp add: list_update_append)
  note st = this [of "take (cur - 1) s @ drop cur s" "last s" "replicate (n - length s) NUL", unfolded l append_assoc]
  have "n - (length s - 1) = Suc (n - length s)" using assms by simp
  then have "padded n (take (cur - 1) s @ drop cur s) = take (cur - 1) s @ drop cur s @ NUL # replicate (n - length s) NUL"
    unfolding padded_def l by simp
  then show ?thesis unfolding d st by simp
qed

lemma delete_ok:
  assumes "edits sh ed"
  shows "simulates (key_backspace env (sh, w)) (ed_delete env (ed, w))"
proof -
  note e = editsD [OF assms]
  let ?s = "ed_text ed" and ?c = "ed_cur ed"
  have z: "line_curpos sh = 0 \<longleftrightarrow> ?c = 0" using e(3,5,6) by (simp add: u16_zero)
  show ?thesis
  proof (cases "?c = 0")
    case True
    then show ?thesis using z assms by (simp add: simulates_def key_backspace_def ed_delete_def)
  next
    case False
    let ?t = "take (?c - 1) ?s @ drop ?c ?s"
    let ?b = "padded (FINSH_CMD_SIZE + 1) ?t"
    let ?sh = "sh\<lparr>line_position := line_position sh - 1, line_curpos := line_curpos sh - 1, line := ?b\<rparr>"
    have p: "line_position sh - 1 = of_nat (length ?s - 1)" "line_curpos sh - 1 = of_nat (?c - 1)"
      using e(4-6) False u16_dec [of "length ?s"] u16_dec [of ?c] by simp_all
    have u: "unat (line_position sh - 1) = length ?s - 1" "unat (line_curpos sh - 1) = ?c - 1"
      unfolding p using e(3,6) by simp_all
    have lt: "length ?t = length ?s - 1" using e(6) False by simp
    have nt: "NUL \<notin> set ?t" using e(2) by (auto dest: in_set_takeD in_set_dropD)
    have le: "length ?s - 1 < FINSH_CMD_SIZE" "?c - 1 \<le> length ?s - 1" using e(3) less_imp_diff_less diff_le_mono [OF e(6)] by blast+
    have fin: "edits ?sh (ed\<lparr>ed_text := ?t, ed_cur := ?c - 1\<rparr>)"
      using e p nt lt False le by (simp add: edits_def text_ok_def del: of_nat_diff)
    have st: "store (take (?c - 1) ?s @ drop ?c ?s @ drop (length ?s - 1) (line sh)) (length ?s - 1) NUL = Some ?b"
      unfolding e(1) by (rule padded_delete) (use False e(3,6) in auto)
    show ?thesis
    proof (cases "?c < length ?s")
      case True
      have lt2: "?c - 1 < length ?s - 1" "length ?s - ?c = Suc (length ?s - Suc ?c)" using True False by (simp_all add: Suc_diff_Suc)
      have "read_block (line sh) ?c (length ?s - ?c) = Some (drop ?c ?s)" using e(1,3) True by (simp add: padded_def)
      moreover have "write_block (line sh) (?c - 1) (drop ?c ?s) =
          Some (take (?c - 1) ?s @ drop ?c ?s @ drop (length ?s - 1) (line sh))"
        using e(1,3) True False by (simp add: padded_def)
      moreover have "string_at ?b (?c - 1) = Some (drop ?c ?s)"
        using string_at_padded [OF nt, of "FINSH_CMD_SIZE + 1" "?c - 1"] lt e(3) True by simp
      ultimately have "key_backspace env (sh, w) = Some (?sh,
          print_times env (length (drop ?c ?s) + 1) BS (print env (BS @ ''%s  '' @ BS) [Arg_str (Some (drop ?c ?s))] w))"
        using z False True u st lt2 by (simp add: key_backspace_def Let_def Suc_diff_le)
      then show ?thesis using fin True False by (simp add: simulates_def ed_delete_def Let_def)
    next
      case end_: False
      then have c: "?c = length ?s" using e(6) by simp
      then have "take (?c - 1) ?s @ drop ?c ?s @ drop (length ?s - 1) (line sh) = line sh"
        using e(1,3) False by (simp add: padded_def)
      then have "key_backspace env (sh, w) = Some (?sh, print env (BS @ '' '' @ BS) [] w)"
        using z False c u st by (simp add: key_backspace_def Let_def)
      then show ?thesis using fin c False by (simp add: simulates_def ed_delete_def Let_def)
    qed
  qed
qed

subsection \<open>The history\<close>

lemma padded_inj: "text_ok s \<Longrightarrow> text_ok t \<Longrightarrow> padded FINSH_CMD_SIZE s = padded FINSH_CMD_SIZE t \<longleftrightarrow> s = t"
  by (metis drop0 option.inject string_at_padded text_ok_def zero_le)

lemma history_row_eq:
  assumes "edits sh ed" "length rows = FINSH_HISTORY_LINES" "i < FINSH_HISTORY_LINES" "cmd_history sh' = rows"
    "line sh' = line sh" "line_position sh' = line_position sh"
  shows "history_row sh' i = Some (sh'\<lparr>cmd_history := rows[i := padded FINSH_CMD_SIZE (ed_text ed)]\<rparr>)"
proof -
  note e = editsD [OF assms(1)]
  have "unat (line_position sh) = length (ed_text ed)" using e(3,4) by simp
  then have "read_block (line sh) 0 (unat (line_position sh)) = Some (ed_text ed)" using e(1,3) by simp
  then show ?thesis using assms(2-6) e(3) by (simp add: history_row_def padded_def)
qed

lemma history_full:
  "length h = FINSH_HISTORY_LINES \<Longrightarrow> \<forall>t\<in>set h. text_ok t \<Longrightarrow> history_is (map (padded FINSH_CMD_SIZE) h) h"
  by (auto simp: history_is_def text_ok_def intro!: padded_length less_imp_le)

lemma push_ok:
  assumes "edits sh ed"
  shows "\<exists>sh'. shell_push_history sh = Some sh' \<and>
     edits sh' (ed\<lparr>ed_hist := push_line (ed_text ed) (ed_hist ed), ed_pos := length (push_line (ed_text ed) (ed_hist ed))\<rparr>)"
proof -
  note e = editsD [OF assms]
  let ?s = "ed_text ed" and ?h = "ed_hist ed" and ?rows = "cmd_history sh"
  have z: "line_position sh = 0 \<longleftrightarrow> ?s = []" "history_count sh = 0 \<longleftrightarrow> ?h = []"
    using e(3,4,8,14) by (simp_all add: u16_zero)
  have u: "unat (history_count sh) = length ?h" using e(8,14) by simp
  have ok: "text_ok ?s" using e(2,3) by (simp add: text_ok_def)
  note hi = e(7) [unfolded history_is_def]
  have rd: "read_block (line sh) 0 FINSH_CMD_SIZE = Some (padded FINSH_CMD_SIZE ?s)"
    using e(1,3) by (simp add: padded_def)
  have same: "?rows ! (length ?h - 1) = padded FINSH_CMD_SIZE ?s \<longleftrightarrow> last ?h = ?s" if "?h \<noteq> []"
  proof -
    have "?rows ! (length ?h - 1) = padded FINSH_CMD_SIZE (?h ! (length ?h - 1))"
      using hi that by (metis diff_less length_greater_0_conv less_numeral_extra(1) nth_map nth_take)
    moreover have "text_ok (last ?h)" using hi that by simp
    ultimately show ?thesis using padded_inj [OF _ ok] that by (simp add: last_conv_nth)
  qed
  have keep: "edits (sh\<lparr>current_history := history_count sh\<rparr>) (ed\<lparr>ed_hist := ?h, ed_pos := length ?h\<rparr>)"
    using e by (simp add: edits_def text_ok_def)
  have new: "edits (sh\<lparr>current_history := of_nat n, cmd_history := rows, history_count := of_nat n\<rparr>)
      (ed\<lparr>ed_hist := h, ed_pos := length h\<rparr>)" if "history_is rows h" "n = length h" for rows h n
    using e that by (simp add: edits_def text_ok_def history_is_def)
  consider (none) "?s = [] \<or> ?h \<noteq> [] \<and> last ?h = ?s"
    | (full) "?s \<noteq> []" "?h \<noteq> [] \<longrightarrow> last ?h \<noteq> ?s" "length ?h = FINSH_HISTORY_LINES"
    | (room) "?s \<noteq> []" "?h \<noteq> [] \<longrightarrow> last ?h \<noteq> ?s" "length ?h < FINSH_HISTORY_LINES"
    using e(14) by linarith
  then show ?thesis
  proof cases
    case none
    have "unat (history_count sh - 1) = length ?h - 1" if "?h \<noteq> []"
      using u16_dec [of "length ?h"] that e(8,14) by simp
    moreover have "length ?h = FINSH_HISTORY_LINES" if "FINSH_HISTORY_LINES \<le> length ?h" using that e(14) by simp
    ultimately have "shell_push_history sh = Some (sh\<lparr>current_history := history_count sh\<rparr>)"
      using none z u rd same hi
      by (cases "?s = []"; cases "FINSH_HISTORY_LINES \<le> length ?h") (simp_all add: shell_push_history_def)
    then show ?thesis using none keep by (simp add: push_line_def)
  next
    case full
    then obtain r1 r2 r3 r4 r5 where rows: "?rows = [r1, r2, r3, r4, r5]" using hi by (auto simp: length_Suc_conv numeral_eq_Suc)
    have mv: "move_history ?rows 0 (FINSH_HISTORY_LINES - 1) = Some [r2, r3, r4, r5, r5]" by (simp add: rows numeral_eq_Suc)
    let ?new = "[r2, r3, r4, r5, padded FINSH_CMD_SIZE ?s]"
    have ne: "?h \<noteq> []" using full(3) by auto
    then have df: "last ?h \<noteq> ?s" using full(2) by blast
    have run: "shell_push_history sh = Some (sh\<lparr>current_history := of_nat FINSH_HISTORY_LINES, cmd_history := ?new, history_count := of_nat FINSH_HISTORY_LINES\<rparr>)"
      using history_row_eq [OF assms, of "[r2, r3, r4, r5, r5]" 4 "sh\<lparr>cmd_history := [r2, r3, r4, r5, r5]\<rparr>"]
        full z(1) u rd same [OF ne] df mv rows by (simp add: shell_push_history_def)
    have hist: "history_is ?new (drop 1 ?h @ [?s])"
    proof -
      have "map (padded FINSH_CMD_SIZE) ?h = ?rows" using hi full(3) rows by simp
      then have "map (padded FINSH_CMD_SIZE) (drop 1 ?h) = [r2, r3, r4, r5]" using rows by (metis drop_map drop0 drop_Suc_Cons One_nat_def)
      then have "?new = map (padded FINSH_CMD_SIZE) (drop 1 ?h @ [?s])" by simp
      moreover have "\<forall>t\<in>set (drop 1 ?h @ [?s]). text_ok t" using hi ok in_set_dropD [of _ 1 ?h] by fastforce
      moreover have "length (drop 1 ?h @ [?s]) = FINSH_HISTORY_LINES" using full(3) by simp
      ultimately show ?thesis using history_full by metis
    qed
    have pl: "push_line ?s ?h = drop 1 ?h @ [?s]" using full ne by (simp add: push_line_def)
    have nn: "FINSH_HISTORY_LINES = length (drop 1 ?h @ [?s])" using full(3) by simp
    show ?thesis unfolding pl by (rule exI, rule conjI [OF run new [OF hist nn]])
  next
    case room
    let ?n = "length ?h" and ?new = "?rows[length ?h := padded FINSH_CMD_SIZE ?s]"
    have d: "unat (history_count sh - 1) = ?n - 1" if "?h \<noteq> []"
      using u16_dec [of ?n] that e(8,14) by simp
    have run: "shell_push_history sh = Some (sh\<lparr>current_history := of_nat (Suc ?n), cmd_history := ?new, history_count := of_nat (Suc ?n)\<rparr>)"
      using history_row_eq [OF assms, of ?rows ?n "sh\<lparr>current_history := history_count sh\<rparr>"]
        room z u rd same d hi e(8) by (auto simp: shell_push_history_def add.commute)
    have hist: "history_is ?new (?h @ [?s])"
    proof -
      have "take (Suc ?n) ?new = take ?n ?rows @ [padded FINSH_CMD_SIZE ?s]" using hi room(3) by (simp add: take_Suc_conv_app_nth)
      then show ?thesis using hi room(3) ok e(3) by (auto simp: history_is_def dest: set_update_subset_insert [THEN subsetD])
    qed
    have pl: "push_line ?s ?h = ?h @ [?s]" using room by (auto simp: push_line_def)
    have nn: "Suc ?n = length (?h @ [?s])" by simp
    show ?thesis unfolding pl by (rule exI, rule conjI [OF run new [OF hist nn]])
  qed
qed

lemma enter_ok:
  assumes "edits sh ed" "length (tokens (ed_text ed)) < FINSH_ARG_MAX" "\<forall>index\<in>set (symtab env). NUL \<notin> set (sys_name index)"
  shows "simulates (key_enter env (sh, w)) (ed_enter env (ed, w))"
proof -
  obtain sh1 where p: "shell_push_history sh = Some sh1"
    "edits sh1 (ed\<lparr>ed_hist := push_line (ed_text ed) (ed_hist ed), ed_pos := length (push_line (ed_text ed) (ed_hist ed))\<rparr>)"
    using push_ok [OF assms(1)] by blast
  note e = editsD [OF p(2), simplified]
  let ?w = "if ed_echo ed then print env LF [] w else w"
  have u: "unat (line_position sh1) = length (ed_text ed)" using e(3,4) by simp
  have t: "take (length (ed_text ed)) (drop 0 (line sh1)) = ed_text ed" "line sh1 ! (0 + length (ed_text ed)) = NUL"
    "0 + length (ed_text ed) < length (line sh1)" using e(1,3) by (simp_all add: padded_def nth_append)
  obtain b where "msh_exec env 0 (length (ed_text ed)) (line sh1) ?w =
      Some (fst (exec_spec env (ed_text ed) ?w), b, snd (exec_spec env (ed_text ed) ?w))"
    using msh_exec_eq [OF t(3,2), of env ?w] t(1) e(2) assms(2,3) by auto
  then have "key_enter env (sh, w) = Some (sh1\<lparr>line := replicate (FINSH_CMD_SIZE + 1) NUL, line_position := 0, line_curpos := 0\<rparr>,
      print env (ed_prompt ed) [] (snd (exec_spec env (ed_text ed) ?w)))"
    using p(1) u e(11,12) by (simp add: key_enter_def)
  moreover have "edits (sh1\<lparr>line := replicate (FINSH_CMD_SIZE + 1) NUL, line_position := 0, line_curpos := 0\<rparr>)
      (fst (ed_enter env (ed, w)))"
    using p(2) by (simp add: edits_def ed_enter_def Let_def text_ok_def padded_def)
  ultimately show ?thesis by (simp add: simulates_def ed_enter_def Let_def)
qed

lemma longest_common_prefix_iff: "prefix d (longest_common_prefix a b) \<longleftrightarrow> prefix d a \<and> prefix d b"
  by (meson longest_common_prefix_max_prefix longest_common_prefix_prefix1 longest_common_prefix_prefix2 prefix_order.trans)

lemma common_prefix_iff: "ms \<noteq> [] \<Longrightarrow> prefix d (common_prefix ms) \<longleftrightarrow> (\<forall>m\<in>set ms. prefix d m)"
  by (induction ms rule: common_prefix.induct) (auto simp: longest_common_prefix_iff)

lemma padded_extend:
  assumes "length s \<le> length c" "length c \<le> n"
  shows "c @ drop (length c) (padded n s) = padded n c"
  using assms by (simp add: padded_def)

lemma set_positions_eq:
  assumes "line sh = padded (FINSH_CMD_SIZE + 1) t" "text_ok t"
  shows "set_positions sh = Some (sh\<lparr>line_position := of_nat (length t), line_curpos := of_nat (length t)\<rparr>)"
  using assms string_at_padded [of t "FINSH_CMD_SIZE + 1" 0] by (simp add: set_positions_def text_ok_def)

text \<open>Completion extends the text, or keeps it.\<close>

lemma complete_text:
  assumes "edits sh ed" "list_all (\<lambda>m. length m < FINSH_CMD_SIZE) (matches env (ed_text ed))"
    "\<forall>index\<in>set (symtab env). NUL \<notin> set (sys_name index)"
  defines "t \<equiv> (if ed_text ed = [] \<or> matches env (ed_text ed) = [] then ed_text ed else common_prefix (matches env (ed_text ed)))"
  shows "msh_auto_complete env 0 (line sh) w = Some (padded (FINSH_CMD_SIZE + 1) t,
      if ed_text ed = [] then snd (msh_help env w)
      else fold (\<lambda>m. print env (''%s'' @ LF) [Arg_str (Some m)]) (matches env (ed_text ed)) w)"
    and "text_ok t"
proof -
  note e = editsD [OF assms(1)]
  let ?s = "ed_text ed" and ?ms = "matches env (ed_text ed)" and ?N = "FINSH_CMD_SIZE + 1"
  have ln: "length (line sh) = ?N" using e(1,3) by simp
  show "text_ok t"
  proof (cases "?s = [] \<or> ?ms = []")
    case True
    then show ?thesis using e(2,3) by (auto simp: t_def text_ok_def)
  next
    case False
    then obtain m ms where m: "?ms = m # ms" by (cases ?ms) auto
    then have "prefix t m" using False common_prefix_iff [of ?ms t] by (simp add: t_def)
    moreover have "length m < FINSH_CMD_SIZE" using assms(2) m by simp
    moreover have "m \<in> set ?ms" using m by simp
    then have "NUL \<notin> set m" using assms(3) by (auto simp: matches_def)
    ultimately show ?thesis using prefix_length_le [of t m] set_mono_prefix [of t m] by (auto simp: text_ok_def)
  qed
  show "msh_auto_complete env 0 (line sh) w = Some (padded ?N t,
      if ?s = [] then snd (msh_help env w) else fold (\<lambda>m. print env (''%s'' @ LF) [Arg_str (Some m)]) ?ms w)"
  proof (cases "?s = []")
    case True
    then have "load (line sh) 0 = Some NUL" using e(1) by (simp add: padded_def)
    then show ?thesis using True e(1) by (simp add: msh_auto_complete_def t_def)
  next
    case False
    have at: "string_at (line sh) 0 = Some ?s" using string_at_padded [of ?s ?N 0] e(1-3) by simp
    have room: "\<forall>m\<in>set ?ms. 0 + length m \<le> length (line sh)" using assms(2) ln by (auto simp: list_all_iff)
    obtain c where c: "msh_auto_complete env 0 (line sh) w = Some (take 0 (line sh) @ c @ drop (0 + length c) (line sh),
        fold (\<lambda>m. print env (''%s'' @ LF) [Arg_str (Some m)]) ?ms w)" "?ms = [] \<longrightarrow> c = []"
      "?ms \<noteq> [] \<longrightarrow> prefix ?s c \<and> (\<forall>d. (\<forall>m\<in>set ?ms. prefix d m) \<longleftrightarrow> prefix d c)"
      using msh_auto_complete_eq [OF at False room, of w] by (elim exE conjE)
    show ?thesis
    proof (cases "?ms = []")
      case True
      then show ?thesis using c(1,2) False e(1) by (simp add: t_def)
    next
      case ms: False
      then have "prefix d c \<longleftrightarrow> prefix d t" for d using c(3) common_prefix_iff [OF ms] False by (simp add: t_def)
      then have ct: "c = t" by (metis prefix_order.antisym prefix_order.refl)
      then have "length ?s \<le> length t" using c(3) ms prefix_length_le [of ?s t] by simp
      moreover have "length t \<le> ?N" using \<open>text_ok t\<close> by (simp add: text_ok_def)
      ultimately show ?thesis using c(1) False padded_extend [of ?s t ?N] e(1) ct by simp
    qed
  qed
qed

lemma tab_ok:
  assumes "edits sh ed" "list_all (\<lambda>m. length m < FINSH_CMD_SIZE) (matches env (ed_text ed))"
    "\<forall>index\<in>set (symtab env). NUL \<notin> set (sys_name index)"
  shows "simulates (key_tab env (sh, w)) (ed_complete env (ed, w))"
proof -
  note e = editsD [OF assms(1)]
  let ?w = "print env LF [] (print_times env (ed_cur ed) BS w)"
  let ?ms = "matches env (ed_text ed)"
  define t where "t = (if ed_text ed = [] \<or> ?ms = [] then ed_text ed else common_prefix ?ms)"
  define w' where "w' = (if ed_text ed = [] then snd (msh_help env ?w)
      else fold (\<lambda>m. print env (''%s'' @ LF) [Arg_str (Some m)]) ?ms ?w)"
  have u: "unat (line_curpos sh) = ed_cur ed" using e(3,5,6) by simp
  have c: "msh_auto_complete env 0 (line sh) ?w = Some (padded (FINSH_CMD_SIZE + 1) t, w')" "text_ok t"
    using complete_text [OF assms] unfolding t_def w'_def by blast+
  let ?sh = "sh\<lparr>line := padded (FINSH_CMD_SIZE + 1) t\<rparr>"
  have "string_at (padded (FINSH_CMD_SIZE + 1) t) 0 = Some t"
    using string_at_padded [of t "FINSH_CMD_SIZE + 1" 0] c(2) by (simp add: text_ok_def)
  then have "shell_auto_complete env (sh, print_times env (unat (line_curpos sh)) BS w) =
      Some (?sh, print env ''%s%s'' [Arg_str (Some (ed_prompt ed)), Arg_str (Some t)] w')"
    using c(1) u e(11) by (simp add: shell_auto_complete_def)
  moreover have "set_positions ?sh = Some (?sh\<lparr>line_position := of_nat (length t), line_curpos := of_nat (length t)\<rparr>)"
    by (rule set_positions_eq) (use c(2) in simp_all)
  ultimately have "key_tab env (sh, w) = Some (?sh\<lparr>line_position := of_nat (length t), line_curpos := of_nat (length t)\<rparr>,
      snd (ed_complete env (ed, w)))"
    by (simp add: key_tab_def ed_complete_def Let_def t_def w'_def)
  moreover have "edits (?sh\<lparr>line_position := of_nat (length t), line_curpos := of_nat (length t)\<rparr>) (fst (ed_complete env (ed, w)))"
  proof -
    have "fst (ed_complete env (ed, w)) = ed\<lparr>ed_text := t, ed_cur := length t\<rparr>"
      by (simp add: ed_complete_def Let_def t_def)
    then show ?thesis using e c(2) by (simp add: edits_def)
  qed
  ultimately show ?thesis by (simp add: simulates_def)
qed

section \<open>The shell implements the editor\<close>

text \<open>A byte outside escape sequences, and any byte.\<close>

lemma plain_ok:
  assumes "edits sh ed" "key_fits env (plain_class ch) ed" "\<forall>index\<in>set (symtab env). NUL \<notin> set (sys_name index)"
  shows "simulates (plain_key env ch (sh, w)) (ed_do env (plain_class ch) (ed, w))"
proof -
  consider "ch = NUL \<or> ch = CHR 0xFF" | "ch = TAB" | "ch = CHR 0x7F \<or> ch = CHR 0x08" | "ch = CHR 0x0D \<or> ch = CHR 0x0A"
    | (char) "\<not> (ch = NUL \<or> ch = CHR 0xFF)" "ch \<noteq> TAB" "\<not> (ch = CHR 0x7F \<or> ch = CHR 0x08)" "\<not> (ch = CHR 0x0D \<or> ch = CHR 0x0A)"
    by blast
  then show ?thesis
  proof cases
    case 1
    then show ?thesis using assms(1) by (auto simp: plain_key_def plain_class_def simulates_def)
  next
    case 2
    then show ?thesis using assms tab_ok by (simp add: plain_key_def plain_class_def)
  next
    case 3
    then have "plain_class ch = Key_back" "plain_key env ch (sh, w) = key_backspace env (sh, w)"
      by (auto simp: plain_key_def plain_class_def)
    then show ?thesis using assms delete_ok by simp
  next
    case 4
    then have "plain_class ch = Key_enter" "plain_key env ch (sh, w) = key_enter env (sh, w)"
      by (auto simp: plain_key_def plain_class_def)
    then show ?thesis using assms enter_ok by simp
  next
    case char
    then have "plain_class ch = Key_char ch" "plain_key env ch (sh, w) = key_char env ch (sh, w)"
      by (simp_all add: plain_key_def plain_class_def)
    moreover have "ch \<noteq> NUL" using char(1) by blast
    moreover have "length (ed_text ed) + 1 < FINSH_CMD_SIZE" using assms(2) calculation(1) by simp
    ultimately show ?thesis using insert_ok [OF assms(1), of ch env w] by simp
  qed
qed

lemma edits_mode: "edits sh ed \<Longrightarrow> edits (sh\<lparr>input_state := m\<rparr>) (ed\<lparr>ed_mode := m\<rparr>)"
  by (simp add: edits_def)

lemma fits_mode: "key_fits env k (ed\<lparr>ed_mode := m\<rparr>) = key_fits env k ed"
  by (cases k) simp_all

lemma plain_mode: "next_mode (plain_class ch) = WAIT_NORMAL"
  by (simp add: plain_class_def)

lemma shell_key_ok:
  assumes "edits sh ed" "key_fits env (key_class (ed_mode ed) ch) ed" "\<forall>index\<in>set (symtab env). NUL \<notin> set (sys_name index)"
  shows "simulates (shell_key env (Some ch) (sh, w)) (ed_key env ch (ed, w))"
proof -
  note m = editsD(13) [OF assms(1)]
  note p = plain_ok [OF edits_mode [OF assms(1), of WAIT_NORMAL] _ assms(3), unfolded fits_mode]
  note n = edits_mode [OF assms(1), of WAIT_NORMAL]
  have w: "sh\<lparr>input_state := WAIT_NORMAL\<rparr> = sh" if "input_state sh = WAIT_NORMAL" using that by simp
  consider (esc) "ch = ESC" | (plain) "ch \<noteq> ESC" "key_class (ed_mode ed) ch = plain_class ch"
      "shell_key env (Some ch) (sh, w) = plain_key env ch (sh\<lparr>input_state := WAIT_NORMAL\<rparr>, w)"
    | (bracket) "ch \<noteq> ESC" "ed_mode ed = WAIT_SPEC_KEY" "ch = CHR 0x5B"
    | (func) "ed_mode ed = WAIT_FUNC_KEY" "ch \<in> {CHR 0x41, CHR 0x42, CHR 0x43, CHR 0x44}"
  proof (cases "ed_mode ed")
    case WAIT_NORMAL
    then have "sh\<lparr>input_state := WAIT_NORMAL\<rparr> = sh" using w m by simp
    then have "plain_key env ch (sh\<lparr>input_state := WAIT_NORMAL\<rparr>, w) = plain_key env ch (sh, w)" by (simp only:)
    then show ?thesis using m WAIT_NORMAL esc plain by (cases "ch = ESC") (simp_all add: key_class_def shell_key_def)
  next
    case WAIT_SPEC_KEY
    then show ?thesis using m esc plain bracket
      by (cases "ch = ESC"; cases "ch = CHR 0x5B") (simp_all add: key_class_def shell_key_def)
  next
    case WAIT_FUNC_KEY
    then show ?thesis using m esc plain func
      by (cases "ch = ESC"; cases "ch \<in> {CHR 0x41, CHR 0x42, CHR 0x43, CHR 0x44}") (simp_all add: key_class_def shell_key_def Let_def)
  qed
  then show ?thesis
  proof cases
    case esc
    then show ?thesis using edits_mode [OF assms(1)] by (simp add: shell_key_def ed_key_def key_class_def simulates_def)
  next
    case plain
    then show ?thesis using p [of ch w] assms(2) by (simp add: ed_key_def Let_def plain_mode)
  next
    case bracket
    then show ?thesis using edits_mode [OF assms(1)] m by (simp add: shell_key_def ed_key_def key_class_def simulates_def)
  next
    case func
    then show ?thesis using m up_ok [OF n, of env w] down_ok [OF n, of env w] left_ok [OF n, of env w] right_ok [OF n, of env w]
      by (auto simp: shell_key_def ed_key_def key_class_def Let_def)
  qed
qed

text \<open>Runs of both.\<close>

fun ed_run :: "'w shell_env \<Rightarrow> char list \<Rightarrow> editor \<times> 'w \<Rightarrow> editor \<times> 'w" where
  "ed_run env [] s = s"
| "ed_run env (c # cs) s = ed_run env cs (ed_key env c s)"

fun run_fits :: "'w shell_env \<Rightarrow> char list \<Rightarrow> editor \<times> 'w \<Rightarrow> bool" where
  "run_fits env [] s = True"
| "run_fits env (c # cs) s = (key_fits env (key_class (ed_mode (fst s)) c) (fst s) \<and> run_fits env cs (ed_key env c s))"

lemma shell_run_ok:
  assumes "edits sh ed" "run_fits env cs (ed, w)" "\<forall>index\<in>set (symtab env). NUL \<notin> set (sys_name index)"
  shows "simulates (shell_run env (map Some cs) (sh, w)) (ed_run env cs (ed, w))"
  using assms(1,2)
proof (induction cs arbitrary: sh ed w)
  case (Cons c cs)
  obtain ed1 w1 where s: "ed_key env c (ed, w) = (ed1, w1)" by (cases "ed_key env c (ed, w)")
  obtain sh1 where "shell_key env (Some c) (sh, w) = Some (sh1, w1)" "edits sh1 ed1"
    using shell_key_ok [OF Cons.prems(1) _ assms(3), of c w] Cons.prems(2) s by (auto simp: simulates_def)
  then show ?case using Cons.IH [of sh1 ed1 w1] Cons.prems(2) s by simp
qed (simp add: simulates_def)

definition editor_start :: editor where
  "editor_start = \<lparr>ed_text = [], ed_cur = 0, ed_hist = [], ed_pos = 0, ed_mode = WAIT_NORMAL, ed_echo = True, ed_prompt = ''msh >''\<rparr>"

lemma start_edits: "edits shell_start editor_start"
  by (simp add: edits_def shell_start_def editor_start_def padded_def text_ok_def history_is_def finsh_get_prompt_def)

text \<open>
  C31.  The shell is an editor.  From any state that agrees with an editor, on any bytes that fit, no step
  leaves a buffer; what is printed, which commands run with which arguments and results, the text,
  the cursor and the history are those of the editor.
\<close>

theorem shell_implements_editor:
  assumes "edits sh ed" "run_fits env cs (ed, w)" "\<forall>index\<in>set (symtab env). NUL \<notin> set (sys_name index)"
  shows "\<exists>sh'. shell_run env (map Some cs) (sh, w) = Some (sh', snd (ed_run env cs (ed, w))) \<and>
     edits sh' (fst (ed_run env cs (ed, w)))"
  using shell_run_ok [OF assms] by (simp add: simulates_def)

theorem shell_implements_editor_witness:
  "\<exists>sh w. shell_run sample_env (map Some (''lim'' @ [CHR 0x08, TAB] @ ''sem'' @ [CHR 0x0A, ESC] @ ''[A 7'' @ [CHR 0x0A])) (shell_start, []) = Some (sh, w) \<and>
     (''call'', [Arg_int 1, Arg_str (Some ''list_sem''), Arg_str (Some ''7'')]) \<in> set w \<and>
     edits sh (editor_start\<lparr>ed_hist := [''list_sem'', ''list_sem 7''], ed_pos := 2\<rparr>)"
proof -
  let ?cs = "''lim'' @ [CHR 0x08, TAB] @ ''sem'' @ [CHR 0x0A, ESC] @ ''[A 7'' @ [CHR 0x0A]"
  have f: "run_fits sample_env ?cs (editor_start, [])" by code_simp
  have r: "fst (ed_run sample_env ?cs (editor_start, [])) = editor_start\<lparr>ed_hist := [''list_sem'', ''list_sem 7''], ed_pos := 2\<rparr>" by code_simp
  have c: "(''call'', [Arg_int 1, Arg_str (Some ''list_sem''), Arg_str (Some ''7'')]) \<in> set (snd (ed_run sample_env ?cs (editor_start, [])))" by code_simp
  show ?thesis using shell_implements_editor [OF start_edits f sample_env_names] c unfolding r by blast
qed

end
