(* ===== verification/Shell_Safety.thy ===== *)
theory Shell_Safety
  imports Shell_Editor
begin

text \<open>
  The shell on any input: no access outside its buffers as long as completion is not asked for, and
  the run that breaks this when it is.
\<close>

section \<open>Memory safety on any input\<close>

text \<open>
  Without the assumption that lines fit: the buffer may hold old characters behind the text, but its
  last cell is null.  A run of a command reads at most one cell behind the given length.
\<close>

definition ends_null :: "string \<Rightarrow> bool" where
  "ends_null b \<longleftrightarrow> b \<noteq> [] \<and> last b = NUL"

lemma ends_null_store: "ends_null b \<Longrightarrow> store b i NUL = Some b' \<Longrightarrow> ends_null b' \<and> length b' = length b"
  by (auto simp: ends_null_def store_def last_list_update split: if_splits)

lemma ends_null_string: "ends_null b \<Longrightarrow> p < length b \<Longrightarrow> \<exists>s. string_at b p = Some s \<and> p + length s < length b"
proof -
  assume a: "ends_null b" "p < length b"
  then have "last (drop p b) = NUL" "drop p b \<noteq> []" by (simp_all add: ends_null_def)
  then have "NUL \<in> set (drop p b)" by (metis last_in_set)
  then obtain s where "string_at b p = Some s" by (simp add: string_at_def)
  then show ?thesis using string_at_text(1) by blast
qed

lemma ends_null_strings: "ends_null b \<Longrightarrow> \<forall>p\<in>set ps. p < length b \<Longrightarrow> \<exists>ss. strings_at b ps = Some ss"
  using ends_null_string by (induction ps) fastforce+

lemma strip_blanks_safe:
  assumes "ends_null b" "cmd + n + 1 < length b" "pos \<le> n + 1"
  shows "\<exists>b' pos'. strip_blanks cmd n b pos = Some (b', pos') \<and> ends_null b' \<and> length b' = length b \<and> pos' \<le> n + 1"
  using assms
proof (induction "n + 1 - pos" arbitrary: b pos)
  case 0
  then show ?case by (subst strip_blanks.simps) auto
next
  case (Suc d)
  show ?case
  proof (cases "is_blank (b ! (cmd + pos)) \<and> pos < n")
    case True
    then obtain b1 where b1: "store b (cmd + pos) NUL = Some b1" using Suc.prems by (simp add: store_def)
    note k = ends_null_store [OF Suc.prems(1) b1]
    have "\<exists>b' pos'. strip_blanks cmd n b1 (Suc pos) = Some (b', pos') \<and> ends_null b' \<and> length b' = length b1 \<and> pos' \<le> n + 1"
      by (rule Suc.hyps(1)) (use Suc True k in auto)
    then show ?thesis using True b1 k Suc.prems by (subst strip_blanks.simps) auto
  qed (use Suc.prems in \<open>subst strip_blanks.simps, auto\<close>)
qed

lemma skip_string_safe:
  assumes "cmd + n + 1 < length b" "pos \<le> n + 1"
  shows "\<exists>pos'. skip_string cmd n b pos = Some pos' \<and> pos' \<le> n + 1"
  using assms
proof (induction "n + 1 - pos" arbitrary: pos rule: less_induct)
  case less
  show ?case
  proof (cases "b ! (cmd + pos) \<noteq> QUOTE \<and> pos < n")
    case True
    have "\<exists>pos'. skip_string cmd n b (Suc pos) = Some pos' \<and> pos' \<le> n + 1"
      "\<exists>pos'. skip_string cmd n b (Suc (Suc pos)) = Some pos' \<and> pos' \<le> n + 1"
      using True less.prems less.hyps [of "Suc pos"] less.hyps [of "Suc (Suc pos)"] by auto
    then show ?thesis using True less.prems by (subst skip_string.simps) auto
  qed (use less.prems in \<open>subst skip_string.simps, auto\<close>)
qed

lemma skip_word_safe:
  assumes "cmd + n + 1 < length b" "pos \<le> n + 1"
  shows "\<exists>pos'. skip_word cmd n b pos = Some pos' \<and> pos' \<le> max pos n"
  using assms
proof (induction "n + 1 - pos" arbitrary: pos rule: less_induct)
  case less
  show ?case
  proof (cases "\<not> is_blank (b ! (cmd + pos)) \<and> pos < n")
    case True
    have "\<exists>pos'. skip_word cmd n b (Suc pos) = Some pos' \<and> pos' \<le> max (Suc pos) n"
      using True less.prems less.hyps [of "Suc pos"] by auto
    then show ?thesis using True less.prems by (subst skip_word.simps) auto
  qed (use less.prems in \<open>subst skip_word.simps, auto\<close>)
qed

lemma split_loop_safe:
  assumes "ends_null b" "cmd + n + 1 < length b" "pos \<le> n + 1" "\<forall>p\<in>set argv. p < length b"
  shows "\<exists>b' argv' w'. split_loop env cmd n b pos argv w = Some (b', argv', w') \<and> ends_null b' \<and>
     length b' = length b \<and> (\<forall>p\<in>set argv'. p < length b)"
  using assms
proof (induction "(n - pos) + (FINSH_ARG_MAX - length argv)" arbitrary: b pos argv rule: less_induct)
  case less
  note split = split_loop.simps [of env cmd n b pos argv w]
  show ?case
  proof (cases "pos < n")
    case False
    then show ?thesis using less.prems by (simp add: split)
  next
    case pos: True
    obtain b1 p1 where st: "strip_blanks cmd n b pos = Some (b1, p1)" "ends_null b1" "length b1 = length b" "p1 \<le> n + 1" "pos \<le> p1"
      using strip_blanks_safe [OF less.prems(1-3)] strip_blanks_mono by blast
    show ?thesis
    proof (cases "FINSH_ARG_MAX \<le> length argv")
      case True
      obtain args where "strings_at b1 argv = Some args" using ends_null_strings [OF st(2)] less.prems(4) st(3) by metis
      then show ?thesis using pos st True less.prems(4) by (simp add: split too_many_args_def)
    next
      case argc: False
      show ?thesis
      proof (cases "p1 < n")
        case False
        then show ?thesis using pos st argc less.prems(4) by (simp add: split)
      next
        case p1: True
        define c where "c = b1 ! (cmd + p1)"
        then have c: "load b1 (cmd + p1) = Some c" using less.prems(2) st(3) p1 by simp
        have go: "\<exists>b' argv' w'. split_loop env cmd n b2 p2 (argv @ [q]) w = Some (b', argv', w') \<and> ends_null b' \<and>
            length b' = length b \<and> (\<forall>p\<in>set argv'. p < length b)"
          if "ends_null b2" "length b2 = length b" "p2 \<le> n + 1" "p1 \<le> p2" "q < length b" for b2 p2 q
          using less.hyps [of p2 "argv @ [q]" b2] that argc st(5) less.prems by auto
        obtain q2 where q2: "skip_string cmd n b1 (Suc p1) = Some q2" "q2 \<le> n + 1" "Suc p1 \<le> q2"
          using skip_string_safe [of cmd n b1 "Suc p1"] skip_string_mono less.prems(2) st(3) p1 by (metis Suc_eq_plus1 Suc_leI add_mono1 less_imp_le_nat)
        obtain p2 where p2: "skip_word cmd n b1 p1 = Some p2" "p2 \<le> n + 1" "p1 \<le> p2"
          using skip_word_safe [of cmd n b1 p1] skip_word_mono less.prems(2) st(3,4) by fastforce
        have pr: "cmd + p1 + 1 < length b" using less.prems(2) p1 by simp
        note one = split_loop_one [OF pos st(1) _ p1 c, of argv env w]
        show ?thesis
        proof (cases "c = QUOTE")
          case True
          show ?thesis
          proof (cases "n \<le> q2")
            case True
            then show ?thesis using one argc \<open>c = QUOTE\<close> q2(1) st pr less.prems(4) by (auto simp: split_one_def)
          next
            case False
            then obtain b2 where b2: "store b1 (cmd + q2) NUL = Some b2" using less.prems(2) st(3) by (simp add: store_def)
            note k = ends_null_store [OF st(2) b2]
            show ?thesis using go [of b2 "Suc q2" "cmd + Suc p1"] k False q2 one argc \<open>c = QUOTE\<close> b2 st(3) pr
              by (simp add: split_one_def)
          qed
        next
          case False
          then show ?thesis using go [of b1 p2 "cmd + p1"] p2 one argc st pr less.prems(4)
            by (auto simp: split_one_def)
        qed
      qed
    qed
  qed
qed

lemma exec_cmd_safe:
  assumes "ends_null b" "cmd + n + 1 < length b" "NUL \<notin> set (take n (drop cmd b))" "\<forall>index\<in>set (symtab env). NUL \<notin> set (sys_name index)"
  shows "\<exists>err ret b' w'. msh_exec_cmd env cmd n b w = Some (err, ret, b', w') \<and> ends_null b' \<and> length b' = length b"
proof -
  obtain k where k: "skip_word cmd n b 0 = Some k" "k \<le> n" using skip_word_safe [OF assms(2), of 0] by auto
  let ?x = "take k (drop cmd b)"
  have lx: "length ?x = k" "cmd + length ?x \<le> length b" using assms(2) k(2) by simp_all
  have "set ?x \<subseteq> set (take n (drop cmd b))" by (rule set_take_subset_set_take [OF k(2)])
  then have f: "find_cmd (symtab env) b cmd k = Some (lookup (symtab env) ?x)"
    using find_cmd_eq [OF lx(2) _ _ assms(4)] lx(1) assms(3) by auto
  obtain b1 argv w1 where sp: "msh_split env cmd n b w = Some (b1, argv, w1)" "ends_null b1" "length b1 = length b"
      "\<forall>p\<in>set argv. p < length b"
    using split_loop_safe [OF assms(1,2), of 0 "[]" env w] by (auto simp: msh_split_def)
  obtain args where "strings_at b1 argv = Some args" using ends_null_strings [OF sp(2)] sp(3,4) by metis
  then show ?thesis using k(1) f sp assms(1)
    by (auto simp: msh_exec_cmd_def msh_get_cmd_def split: option.split prod.split)
qed

lemma skip_blanks_safe:
  "cmd + n < length b \<Longrightarrow> \<exists>j. skip_blanks cmd n b = Some (cmd + j, n - j) \<and> j \<le> n"
proof (induction n arbitrary: cmd)
  case (Suc n)
  obtain j where j: "skip_blanks (cmd + 1) n b = Some (cmd + 1 + j, n - j)" "j \<le> n" using Suc.IH [of "cmd + 1"] Suc.prems by auto
  show ?case
  proof (cases "is_blank (b ! cmd)")
    case True
    then show ?thesis using j Suc.prems by (intro exI [of _ "Suc j"]) simp
  qed (use Suc.prems in \<open>simp add: exI [of _ 0]\<close>)
qed simp

lemma first_space_safe: "ends_null b \<Longrightarrow> p < length b \<Longrightarrow> \<exists>q. first_space b p = Some q \<and> q < length b"
proof (induction "length b - p" arbitrary: p rule: less_induct)
  case less
  show ?case
  proof (cases "b ! p \<noteq> CHR '' '' \<and> b ! p \<noteq> NUL")
    case True
    then have "p \<noteq> length b - 1" using less.prems by (auto simp: ends_null_def last_conv_nth)
    then have "Suc p < length b" using less.prems(2) by simp
    then have "\<exists>q. first_space b (Suc p) = Some q \<and> q < length b" using less by simp
    then show ?thesis using True less.prems by (subst first_space.simps) simp
  qed (use less.prems in \<open>subst first_space.simps, auto\<close>)
qed

lemma msh_exec_safe:
  assumes "ends_null b" "cmd + n + 1 < length b" "NUL \<notin> set (take n (drop cmd b))" "\<forall>index\<in>set (symtab env). NUL \<notin> set (sys_name index)"
  shows "\<exists>r b' w'. msh_exec env cmd n b w = Some (r, b', w')"
proof -
  have "cmd + n < length b" using assms(2) by simp
  then obtain j where j: "skip_blanks cmd n b = Some (cmd + j, n - j)" "j \<le> n" using skip_blanks_safe by blast
  have "take (n - j) (drop (cmd + j) b) = drop j (take n (drop cmd b))" by (simp add: drop_take add.commute)
  then have "NUL \<notin> set (take (n - j) (drop (cmd + j) b))" using assms(3) in_set_dropD by metis
  then obtain err ret b1 w1 where x: "msh_exec_cmd env (cmd + j) (n - j) b w = Some (err, ret, b1, w1)" "ends_null b1" "length b1 = length b"
    using exec_cmd_safe [OF assms(1) _ _ assms(4), of "cmd + j" "n - j" w] assms(2) j(2) by auto
  have l: "cmd + j < length b1" using assms(2) j(2) x(3) by simp
  obtain q where q: "first_space b1 (cmd + j) = Some q" "q < length b1" using first_space_safe [OF x(2) l] by blast
  then obtain b2 where b2: "store b1 q NUL = Some b2" by simp
  obtain s where "string_at b2 (cmd + j) = Some s"
    using ends_null_string [of b2 "cmd + j"] ends_null_store [OF x(2) b2] l by auto
  then show ?thesis using j(1) x(1) q(1) b2 by (simp add: msh_exec_def)
qed

text \<open>The invariant of the shell on any input without completion.\<close>

definition shell_safe :: "finsh_shell \<Rightarrow> bool" where
  "shell_safe sh \<longleftrightarrow>
     length (line sh) = FINSH_CMD_SIZE + 1 \<and> last (line sh) = NUL \<and>
     line_curpos sh \<le> line_position sh \<and> unat (line_position sh) < FINSH_CMD_SIZE \<and>
     NUL \<notin> set (take (unat (line_position sh)) (line sh)) \<and>
     length (cmd_history sh) = FINSH_HISTORY_LINES \<and>
     (\<forall>r\<in>set (cmd_history sh). length r = FINSH_CMD_SIZE \<and> last r = NUL) \<and>
     unat (history_count sh) \<le> FINSH_HISTORY_LINES \<and> current_history sh \<le> history_count sh \<and>
     finsh_get_prompt sh \<noteq> None"

text \<open>The buffer after a change below its last cell.\<close>

lemma write_keeps_last:
  assumes "write_block b i xs = Some b'" "i + length xs < length b" "last b = NUL"
  shows "length b' = length b \<and> last b' = NUL"
  using assms by (auto simp: write_block_def last_append split: if_splits)

lemma store_keeps_last: "store b i x = Some b' \<Longrightarrow> i + 1 < length b \<Longrightarrow> last b = NUL \<Longrightarrow> length b' = length b \<and> last b' = NUL"
  by (cases "b = []") (auto simp: store_def last_list_update split: if_splits)

lemma ends_null_of: "length b = FINSH_CMD_SIZE + 1 \<and> last b = NUL \<Longrightarrow> ends_null b"
  by (cases b) (auto simp: ends_null_def)

lemma set_pieces:
  assumes "a \<le> m" "n \<le> m"
  shows "set (take a xs @ take (n - b) (drop b xs)) \<subseteq> set (take m xs)"
proof -
  have "set (take (n - b) (drop b xs)) \<subseteq> set (take n xs)" by (metis drop_take set_drop_subset)
  then show ?thesis using assms set_take_subset_set_take [of a m xs] set_take_subset_set_take [of n m xs] by auto
qed

lemma shell_safeD:
  assumes "shell_safe sh"
  shows "length (line sh) = FINSH_CMD_SIZE + 1" "last (line sh) = NUL" "unat (line_curpos sh) \<le> unat (line_position sh)"
    "unat (line_position sh) < FINSH_CMD_SIZE" "NUL \<notin> set (take (unat (line_position sh)) (line sh))"
    "length (cmd_history sh) = FINSH_HISTORY_LINES" "\<forall>r\<in>set (cmd_history sh). length r = FINSH_CMD_SIZE \<and> last r = NUL"
    "unat (history_count sh) \<le> FINSH_HISTORY_LINES" "unat (current_history sh) \<le> unat (history_count sh)"
    "finsh_get_prompt sh \<noteq> None" "ends_null (line sh)"
  using assms by (auto simp: shell_safe_def word_le_nat_alt ends_null_def)

lemma recall_safe:
  assumes "shell_safe sh" "i < history_count sh"
  shows "\<exists>s. recall_history env (sh\<lparr>current_history := i\<rparr>, w) = Some s \<and> shell_safe (fst s)"
proof -
  note s = shell_safeD [OF assms(1)]
  have i: "unat i < FINSH_HISTORY_LINES" using s(8) assms(2) by (simp add: word_less_nat_alt)
  let ?r = "cmd_history sh ! unat i"
  have r: "length ?r = FINSH_CMD_SIZE" "last ?r = NUL" using s(6,7) i by simp_all
  let ?b = "?r @ drop FINSH_CMD_SIZE (line sh)"
  have b: "read_block ?r 0 FINSH_CMD_SIZE = Some ?r" "write_block (line sh) 0 ?r = Some ?b" using r(1) s(1) by simp_all
  have lb: "length ?b = FINSH_CMD_SIZE + 1" "last ?b = NUL" using r(1) s(1,2) by (simp_all add: last_append)
  have "NUL \<in> set ?r" using r by (metis last_in_set list.size(3) zero_neq_numeral)
  then obtain t where t: "string_at ?r 0 = Some t" by (simp add: string_at_def)
  have lt: "length t < FINSH_CMD_SIZE" "take (length t) ?r = t" "NUL \<notin> set t" using string_at_text [OF t] r(1) by simp_all
  have tb: "string_at ?b 0 = Some t" using t \<open>NUL \<in> set ?r\<close> by (auto simp: string_at_def takeWhile_append1 split: if_splits)
  obtain p where p: "finsh_get_prompt sh = Some p" using s(10) by blast
  let ?sh = "sh\<lparr>current_history := i, line := ?b, line_position := of_nat (length t), line_curpos := of_nat (length t)\<rparr>"
  have "\<exists>w'. recall_history env (sh\<lparr>current_history := i\<rparr>, w) = Some (?sh, w')"
    using i s(6) b tb p by (simp add: recall_history_def set_positions_def shell_handle_history_def)
  moreover have "shell_safe ?sh" using s lb lt r(1) p assms(2) by (simp add: shell_safe_def order_less_imp_le)
  ultimately show ?thesis by fastforce
qed

lemma history_row_safe:
  assumes "shell_safe sh" "cmd_history sh' = rows" "line sh' = line sh" "line_position sh' = line_position sh"
    "i < length rows" "length rows = FINSH_HISTORY_LINES" "\<forall>r\<in>set rows. length r = FINSH_CMD_SIZE \<and> last r = NUL"
  shows "\<exists>rows'. history_row sh' i = Some (sh'\<lparr>cmd_history := rows'\<rparr>) \<and> length rows' = FINSH_HISTORY_LINES \<and>
     (\<forall>r\<in>set rows'. length r = FINSH_CMD_SIZE \<and> last r = NUL)"
proof -
  note s = shell_safeD [OF assms(1)]
  let ?n = "unat (line_position sh)"
  let ?row = "take ?n (line sh) @ replicate (FINSH_CMD_SIZE - ?n) NUL"
  have "history_row sh' i = Some (sh'\<lparr>cmd_history := rows[i := ?row]\<rparr>)"
    using s(1,4) assms(2-5) by (simp add: history_row_def)
  moreover have "length ?row = FINSH_CMD_SIZE \<and> last ?row = NUL" using s(1,4) by (simp add: last_append)
  ultimately show ?thesis using assms(6,7) set_update_subset_insert [of rows i ?row] by (intro exI [of _ "rows[i := ?row]"]) auto
qed

lemma move_history_safe:
  assumes "length rows = FINSH_HISTORY_LINES" "\<forall>r\<in>set rows. P r"
  shows "\<exists>rows'. move_history rows 0 (FINSH_HISTORY_LINES - 1) = Some rows' \<and> length rows' = FINSH_HISTORY_LINES \<and> (\<forall>r\<in>set rows'. P r)"
proof -
  obtain r1 r2 r3 r4 r5 where "rows = [r1, r2, r3, r4, r5]" using assms(1) by (auto simp: length_Suc_conv numeral_eq_Suc)
  then show ?thesis using assms(2) by (simp add: numeral_eq_Suc)
qed

lemma push_safe:
  assumes "shell_safe sh"
  shows "\<exists>sh'. shell_push_history sh = Some sh' \<and> shell_safe sh' \<and> line sh' = line sh \<and>
     line_position sh' = line_position sh \<and> echo_mode sh' = echo_mode sh"
proof -
  note s = shell_safeD [OF assms]
  obtain t where rd: "read_block (line sh) 0 FINSH_CMD_SIZE = Some t" using s(1) by simp
  have ok: "shell_safe (sh\<lparr>current_history := m, cmd_history := rows, history_count := n, current_history := n\<rparr>)"
    if "length rows = FINSH_HISTORY_LINES" "\<forall>r\<in>set rows. length r = FINSH_CMD_SIZE \<and> last r = NUL" "unat n \<le> FINSH_HISTORY_LINES" for rows n m
    using assms that by (simp add: shell_safe_def)
  have keep: "shell_safe (sh\<lparr>current_history := history_count sh\<rparr>)" using assms by (simp add: shell_safe_def)
  consider (none) "shell_push_history sh = Some (sh\<lparr>current_history := history_count sh\<rparr>)"
    | (full) rows where "move_history (cmd_history sh) 0 (FINSH_HISTORY_LINES - 1) = Some rows"
        "shell_push_history sh = do { sh \<leftarrow> history_row (sh\<lparr>cmd_history := rows\<rparr>) (FINSH_HISTORY_LINES - 1);
           Some (sh\<lparr>history_count := of_nat FINSH_HISTORY_LINES, current_history := of_nat FINSH_HISTORY_LINES\<rparr>) }"
    | (room) "unat (history_count sh) < FINSH_HISTORY_LINES"
        "shell_push_history sh = do { sh \<leftarrow> history_row (sh\<lparr>current_history := history_count sh\<rparr>) (unat (history_count sh));
           Some (sh\<lparr>history_count := history_count sh + 1, current_history := history_count sh + 1\<rparr>) }"
  proof (cases "line_position sh = 0")
    case True
    then show ?thesis using none by (simp add: shell_push_history_def)
  next
    case pos: False
    show ?thesis
    proof (cases "FINSH_HISTORY_LINES \<le> unat (history_count sh)")
      case True
      obtain rows where m: "move_history (cmd_history sh) 0 (FINSH_HISTORY_LINES - 1) = Some rows"
        using move_history_safe [OF s(6), of "\<lambda>_. True"] by auto
      obtain r where r: "load (cmd_history sh) (FINSH_HISTORY_LINES - 1) = Some r" using s(6) by simp
      show ?thesis
      proof (cases "r = t")
        case True
        then show ?thesis using none pos \<open>FINSH_HISTORY_LINES \<le> _\<close> r rd by (simp add: shell_push_history_def)
      next
        case False
        then show ?thesis using full [OF m] pos True r rd m by (simp add: shell_push_history_def)
      qed
    next
      case False
      then have c: "unat (history_count sh) < FINSH_HISTORY_LINES" by simp
      have "\<exists>r. load (cmd_history sh) (unat (history_count sh - 1)) = Some r" if "history_count sh \<noteq> 0"
        using that c s(6) by (simp add: unat_minus_one unat_eq_0 [symmetric] del: unat_eq_0)
      then obtain d where d: "(if history_count sh = 0 then Some True
                                else do {
                                       last_cmd \<leftarrow> load (cmd_history sh) (unat (history_count sh - 1));
                                       text \<leftarrow> read_block (line sh) 0 FINSH_CMD_SIZE;
                                       Some (last_cmd \<noteq> text)
                                     }) = Some d" using rd by (cases "history_count sh = 0") auto
      show ?thesis
      proof (cases d)
        case True
        then show ?thesis using room [OF c] pos False d by (simp add: shell_push_history_def)
      next
        case nd: False
        then show ?thesis using none pos False d by (simp add: shell_push_history_def)
      qed
    qed
  qed
  then show ?thesis
  proof cases
    case none
    then show ?thesis using keep by simp
  next
    case (full rows)
    have r: "length rows = FINSH_HISTORY_LINES" "\<forall>r\<in>set rows. length r = FINSH_CMD_SIZE \<and> last r = NUL"
      using move_history_safe [OF s(6,7)] full(1) by auto
    obtain rows' where "history_row (sh\<lparr>cmd_history := rows\<rparr>) (FINSH_HISTORY_LINES - 1) = Some (sh\<lparr>cmd_history := rows\<rparr>\<lparr>cmd_history := rows'\<rparr>)"
      "length rows' = FINSH_HISTORY_LINES" "\<forall>r\<in>set rows'. length r = FINSH_CMD_SIZE \<and> last r = NUL"
      using history_row_safe [OF assms, of "sh\<lparr>cmd_history := rows\<rparr>" rows "FINSH_HISTORY_LINES - 1"] r by auto
    then show ?thesis using full(2) ok [of rows' "of_nat FINSH_HISTORY_LINES" 0] by simp
  next
    case room
    obtain rows' where "history_row (sh\<lparr>current_history := history_count sh\<rparr>) (unat (history_count sh)) =
        Some (sh\<lparr>current_history := history_count sh\<rparr>\<lparr>cmd_history := rows'\<rparr>)"
      "length rows' = FINSH_HISTORY_LINES" "\<forall>r\<in>set rows'. length r = FINSH_CMD_SIZE \<and> last r = NUL"
      using history_row_safe [OF assms, of "sh\<lparr>current_history := history_count sh\<rparr>" "cmd_history sh" "unat (history_count sh)"] room(1) s(6,7) by auto
    moreover have "unat (history_count sh + 1) \<le> FINSH_HISTORY_LINES" using room(1) by (subst unat_add_one) simp_all
    ultimately show ?thesis using room(2) ok [of rows' "history_count sh + 1" 0] by simp
  qed
qed

lemma left_safe: "shell_safe sh \<Longrightarrow> \<exists>s. key_left env (sh, w) = Some s \<and> shell_safe (fst s)"
proof (cases "line_curpos sh = 0")
  case False
  assume s: "shell_safe sh"
  have "line_curpos sh - 1 \<le> line_curpos sh" using False by (simp add: word_le_nat_alt unat_minus_one)
  then show ?thesis using s False by (auto simp: key_left_def shell_safe_def intro: order_trans)
qed (simp add: key_left_def)

lemma right_safe: "shell_safe sh \<Longrightarrow> \<exists>s. key_right env (sh, w) = Some s \<and> shell_safe (fst s)"
proof (cases "line_curpos sh < line_position sh")
  case True
  assume s: "shell_safe sh"
  have "line_curpos sh + 1 \<le> line_position sh" using True by (rule inc_le)
  moreover have "unat (line_curpos sh) < length (line sh)" using shell_safeD(1,3,4) [OF s] by simp
  ultimately show ?thesis using s True by (simp add: key_right_def shell_safe_def)
qed (simp add: key_right_def)

lemma up_safe:
  assumes "shell_safe sh"
  shows "\<exists>s. key_up env (sh, w) = Some s \<and> shell_safe (fst s)"
proof (cases "current_history sh > 0")
  case True
  then have c: "current_history sh \<noteq> 0" by auto
  then have "0 < unat (current_history sh)" by (simp add: unat_gt_0)
  then have "current_history sh - 1 < history_count sh"
    using shell_safeD(9) [OF assms] by (simp add: word_less_nat_alt unat_minus_one [OF c])
  then show ?thesis using True recall_safe [OF assms] by (simp add: key_up_def)
qed (use assms in \<open>simp add: key_up_def shell_safe_def\<close>)

lemma down_safe:
  assumes "shell_safe sh"
  shows "\<exists>s. key_down env (sh, w) = Some s \<and> shell_safe (fst s)"
proof -
  note s = shell_safeD [OF assms]
  show ?thesis
  proof (cases "uint (current_history sh) < uint (history_count sh) - 1")
    case True
    then have "unat (current_history sh) + 1 < unat (history_count sh)" unfolding uint_nat by linarith
    then have "current_history sh + 1 < history_count sh"
      using s(8) unat_add_one [of "current_history sh"] by (simp add: word_less_nat_alt)
    then show ?thesis using True recall_safe [OF assms] by (simp add: key_down_def)
  next
    case False
    show ?thesis
    proof (cases "history_count sh = 0")
      case True
      then show ?thesis using False assms by (simp add: key_down_def)
    next
      case c: False
      then have "history_count sh - 1 < history_count sh" by (simp add: word_less_nat_alt unat_minus_one unat_gt_0)
      then show ?thesis using False c recall_safe [OF assms] by (simp add: key_down_def)
    qed
  qed
qed

lemma backspace_safe:
  assumes "shell_safe sh"
  shows "\<exists>s. key_backspace env (sh, w) = Some s \<and> shell_safe (fst s)"
proof (cases "line_curpos sh = 0")
  case True
  then show ?thesis using assms by (simp add: key_backspace_def)
next
  case False
  note s = shell_safeD [OF assms]
  define pos where "pos = unat (line_position sh) - 1"
  define cur where "cur = unat (line_curpos sh) - 1"
  have c0: "0 < unat (line_curpos sh)" using False by (simp add: unat_gt_0)
  then have "line_position sh \<noteq> 0" using s(3) by auto
  then have u: "unat (line_position sh - 1) = pos" "unat (line_curpos sh - 1) = cur"
    using False by (simp_all add: pos_def cur_def unat_minus_one)
  have b: "cur \<le> pos" "pos + 1 < FINSH_CMD_SIZE" "unat (line_position sh) = Suc pos" using s(3,4) c0 by (simp_all add: pos_def cur_def)
  have ok: "shell_safe (sh\<lparr>line_position := line_position sh - 1, line_curpos := line_curpos sh - 1, line := l\<rparr>)"
    if "length l = FINSH_CMD_SIZE + 1" "last l = NUL" "NUL \<notin> set (take pos l)" for l
    using assms that b u by (simp add: shell_safe_def word_le_nat_alt)
  have n: "NUL \<notin> set (take (Suc pos) (line sh))" using s(5) b(3) by simp
  show ?thesis
  proof (cases "cur < pos")
    case True
    let ?t = "take (pos - cur) (drop (cur + 1) (line sh))"
    have rd: "read_block (line sh) (cur + 1) (pos - cur) = Some ?t" using s(1) b by simp
    obtain l1 where l1: "write_block (line sh) cur ?t = Some l1" "l1 = take cur (line sh) @ ?t @ drop pos (line sh)"
      using s(1) b by simp
    have k1: "length l1 = FINSH_CMD_SIZE + 1 \<and> last l1 = NUL"
      using write_keeps_last [OF l1(1)] s(1,2) b by simp
    have "take pos l1 = take cur (line sh) @ ?t" using s(1) b l1(2) by simp
    then have "set (take pos l1) \<subseteq> set (take (Suc pos) (line sh))"
      using set_pieces [of cur "Suc pos" "Suc pos" "line sh" "Suc cur"] b by simp
    then have n1: "NUL \<notin> set (take pos l1)" using n by blast
    obtain l2 where l2: "store l1 pos NUL = Some l2" using k1 b by simp
    have k2: "length l2 = FINSH_CMD_SIZE + 1 \<and> last l2 = NUL" using store_keeps_last [OF l2] k1 b by simp
    have "take pos l2 = take pos l1" using l2 k1 b by (auto simp: store_def)
    then have safe: "shell_safe (sh\<lparr>line_position := line_position sh - 1, line_curpos := line_curpos sh - 1, line := l2\<rparr>)"
      using ok [of l2] k2 n1 by simp
    obtain r where "string_at l2 cur = Some r" using ends_null_string [of l2 cur, OF ends_null_of] k2 b by auto
    then have "\<exists>w'. key_backspace env (sh, w) =
        Some (sh\<lparr>line_position := line_position sh - 1, line_curpos := line_curpos sh - 1, line := l2\<rparr>, w')"
      using False True u rd l1(1) l2 by (simp add: key_backspace_def Let_def)
    then show ?thesis using safe by fastforce
  next
    case nl: False
    obtain l where l: "store (line sh) pos NUL = Some l" using s(1) b by simp
    have "length l = FINSH_CMD_SIZE + 1 \<and> last l = NUL" using store_keeps_last [OF l] s(1,2) b by simp
    moreover have "take pos l = take pos (line sh)" using l b s(1) by (auto simp: store_def)
    moreover have "NUL \<notin> set (take pos (line sh))" using n by (meson in_mono le_SucI order_refl set_take_subset_set_take)
    ultimately show ?thesis using False nl u l ok [of l] by (simp add: key_backspace_def Let_def)
  qed
qed

lemma enter_safe:
  assumes "shell_safe sh" "\<forall>index\<in>set (symtab env). NUL \<notin> set (sys_name index)"
  shows "\<exists>s. key_enter env (sh, w) = Some s \<and> shell_safe (fst s)"
proof -
  obtain sh1 where p: "shell_push_history sh = Some sh1" "shell_safe sh1" using push_safe [OF assms(1)] by blast
  note s = shell_safeD [OF p(2)]
  obtain pr where pr: "finsh_get_prompt sh1 = Some pr" using s(10) by blast
  have "\<exists>r b w'. msh_exec env 0 (unat (line_position sh1)) (line sh1) w0 = Some (r, b, w')" for w0
    by (rule msh_exec_safe) (use s assms(2) in auto)
  then obtain r b w' where "msh_exec env 0 (unat (line_position sh1)) (line sh1) (if echo_mode sh1 then print env LF [] w else w) = Some (r, b, w')"
    by blast
  moreover have "shell_safe (sh1\<lparr>line := replicate (FINSH_CMD_SIZE + 1) NUL, line_position := 0, line_curpos := 0\<rparr>)"
    using p(2) by (simp add: shell_safe_def)
  ultimately show ?thesis using p(1) pr by (simp add: key_enter_def)
qed

lemma char_safe:
  assumes "shell_safe sh" "ch \<noteq> NUL"
  shows "\<exists>s. key_char env ch (sh, w) = Some s \<and> shell_safe (fst s)"
proof -
  note s = shell_safeD [OF assms(1)]
  define pos where "pos = unat (line_position sh)"
  define cur where "cur = unat (line_curpos sh)"
  have b: "cur \<le> pos" "pos < FINSH_CMD_SIZE" using s(3,4) by (simp_all add: pos_def cur_def)
  have u: "unat (line_position sh + 1) = pos + 1" "unat (line_curpos sh + 1) = cur + 1"
    using b by (subst unat_add_one; simp add: pos_def cur_def)+
  have "\<exists>l. length l = FINSH_CMD_SIZE + 1 \<and> last l = NUL \<and> NUL \<notin> set (take (pos + 1) l) \<and>
      (\<forall>w. \<exists>w'. key_char env ch (sh, w) =
         (let sh = sh\<lparr>line := l, line_position := line_position sh + 1, line_curpos := line_curpos sh + 1\<rparr> in
          Some (if unat (line_position sh) \<ge> FINSH_CMD_SIZE then sh\<lparr>line_position := 0, line_curpos := 0\<rparr> else sh, w')))"
  proof (cases "cur < pos")
    case True
    let ?t = "take (pos - cur) (drop cur (line sh))"
    obtain l1 where l1: "write_block (line sh) (cur + 1) ?t = Some l1" "l1 = take (cur + 1) (line sh) @ ?t @ drop (pos + 1) (line sh)"
      using s(1) b True by simp
    have rd: "read_block (line sh) cur (pos - cur) = Some ?t" using s(1) b by simp
    have k1: "length l1 = FINSH_CMD_SIZE + 1 \<and> last l1 = NUL" using write_keeps_last [OF l1(1)] s(1,2) b by simp
    obtain l2 where l2: "store l1 cur ch = Some l2" using k1 b True by simp
    have k2: "length l2 = FINSH_CMD_SIZE + 1 \<and> last l2 = NUL" using store_keeps_last [OF l2] k1 b True by simp
    have "take (pos + 1) l1 = take (cur + 1) (line sh) @ ?t" using s(1) b l1(2) True by simp
    then have "set (take (pos + 1) l1) \<subseteq> set (take pos (line sh))" using set_pieces [of "cur + 1" pos pos "line sh" cur] True by simp
    moreover have "set (take (pos + 1) l2) \<subseteq> insert ch (set (take (pos + 1) l1))"
      using l2 k1 b by (auto simp: store_def take_update_swap split: if_splits dest: set_update_subset_insert [THEN subsetD])
    ultimately have "NUL \<notin> set (take (pos + 1) l2)" using s(5) assms(2) by (auto simp: pos_def)
    moreover obtain r where "string_at l2 cur = Some r" using ends_null_string [of l2 cur, OF ends_null_of] k2 b by auto
    ultimately show ?thesis using k2 True b rd l1(1) l2 by (intro exI [of _ l2]) (simp add: key_char_def Let_def pos_def [symmetric] cur_def [symmetric])
  next
    case False
    obtain l where l: "store (line sh) pos ch = Some l" using s(1) b by simp
    have k: "length l = FINSH_CMD_SIZE + 1 \<and> last l = NUL" using store_keeps_last [OF l] s(1,2) b by simp
    have "take (pos + 1) l = take pos (line sh) @ [ch]" using l s(1) b by (auto simp: store_def take_Suc_conv_app_nth)
    then have "NUL \<notin> set (take (pos + 1) l)" using s(5) assms(2) by (simp add: pos_def)
    then show ?thesis using k False b l by (intro exI [of _ l]) (simp add: key_char_def Let_def pos_def [symmetric] cur_def [symmetric])
  qed
  then obtain l w' where l: "length l = FINSH_CMD_SIZE + 1" "last l = NUL" "NUL \<notin> set (take (pos + 1) l)"
    "key_char env ch (sh, w) = (let sh = sh\<lparr>line := l, line_position := line_position sh + 1, line_curpos := line_curpos sh + 1\<rparr> in
          Some (if unat (line_position sh) \<ge> FINSH_CMD_SIZE then sh\<lparr>line_position := 0, line_curpos := 0\<rparr> else sh, w'))" by blast
  have "shell_safe (sh\<lparr>line := l, line_position := line_position sh + 1, line_curpos := line_curpos sh + 1\<rparr>)" if "pos + 1 < FINSH_CMD_SIZE"
    using assms(1) l that u b by (simp add: shell_safe_def word_le_nat_alt)
  moreover have "shell_safe (sh\<lparr>line := l, line_position := 0, line_curpos := 0\<rparr>)" using assms(1) l by (simp add: shell_safe_def)
  ultimately show ?thesis using l(4) u by (simp add: Let_def)
qed

lemma key_safe:
  assumes "shell_safe sh" "ch \<noteq> Some TAB" "\<forall>index\<in>set (symtab env). NUL \<notin> set (sys_name index)"
  shows "\<exists>s. shell_key env ch (sh, w) = Some s \<and> shell_safe (fst s)"
proof -
  have m: "shell_safe (sh\<lparr>input_state := m\<rparr>)" for m using assms(1) by (simp add: shell_safe_def)
  have p: "\<exists>s. plain_key env c (sh', w) = Some s \<and> shell_safe (fst s)" if "shell_safe sh'" "c \<noteq> TAB" for c sh'
    using that backspace_safe [OF that(1), of env w] enter_safe [OF that(1) assms(3), of w] char_safe [OF that(1), of c env w]
    by (auto simp: plain_key_def)
  show ?thesis
  proof (cases ch)
    case None
    then show ?thesis using assms(1) by (simp add: shell_key_def)
  next
    case (Some c)
    then show ?thesis using assms(1,2) m p up_safe [OF m, of env WAIT_NORMAL w] down_safe [OF m, of env WAIT_NORMAL w]
        left_safe [OF m, of env WAIT_NORMAL w] right_safe [OF m, of env WAIT_NORMAL w]
      by (auto simp: shell_key_def Let_def)
  qed
qed

text \<open>
  C32.  Whatever bytes arrive, and however long the lines are: as long as completion is not asked for, no
  step reads or writes outside the buffers of the shell, and every line ends.
\<close>

theorem shell_memory_safe:
  assumes "Some TAB \<notin> set ks" "\<forall>index\<in>set (symtab env). NUL \<notin> set (sys_name index)"
  shows "\<exists>sh w'. shell_run env ks (shell_start, w) = Some (sh, w') \<and> length (line sh) = FINSH_CMD_SIZE + 1 \<and>
     line_curpos sh \<le> line_position sh \<and> unat (line_position sh) < FINSH_CMD_SIZE"
proof -
  have "shell_safe shell_start" by (simp add: shell_safe_def shell_start_def finsh_get_prompt_def)
  moreover have "\<exists>s. shell_run env ks (sh, w) = Some s \<and> shell_safe (fst s)" if "shell_safe sh" for sh w
    using that assms(1)
  proof (induction ks arbitrary: sh w)
    case (Cons k ks)
    then obtain s where "shell_key env k (sh, w) = Some s" "shell_safe (fst s)"
      using key_safe [OF Cons.prems(1) _ assms(2), of k w] by auto
    then show ?case using Cons.IH [of "fst s" "snd s"] Cons.prems(2) by simp
  qed simp
  ultimately obtain s where "shell_run env ks (shell_start, w) = Some s" "shell_safe (fst s)" by blast
  then show ?thesis by (cases s) (auto simp: shell_safe_def)
qed

theorem shell_memory_safe_witness:
  "\<exists>sh w'. shell_run sample_env (replicate 85 (Some (CHR ''x'')) @ [Some (CHR 0x7F), Some (CHR 0x0D)]) (shell_start, []) = Some (sh, w')"
proof -
  have "Some TAB \<notin> set (replicate 85 (Some (CHR ''x'')) @ [Some (CHR 0x7F), Some (CHR 0x0D)])" by simp
  from shell_memory_safe [OF this sample_env_names, of "[]"] show ?thesis by blast
qed

section \<open>Completion after a dropped line\<close>

definition printable :: "char \<Rightarrow> bool" where
  "printable c \<longleftrightarrow> c \<noteq> ESC \<and> plain_class c = Key_char c"

lemma printable_key: "printable c \<Longrightarrow> input_state sh = WAIT_NORMAL \<Longrightarrow> shell_key env (Some c) (sh, w) = key_char env c (sh, w)"
  by (auto simp: printable_def plain_class_def shell_key_def plain_key_def split: if_splits)

lemma typed:
  assumes "edits sh ed" "ed_mode ed = WAIT_NORMAL" "ed_cur ed = length (ed_text ed)" "\<forall>c\<in>set cs. printable c"
    "length (ed_text ed) + length cs < FINSH_CMD_SIZE" "\<forall>index\<in>set (symtab env). NUL \<notin> set (sys_name index)"
  shows "\<exists>sh' w'. shell_run env (map Some cs) (sh, w) = Some (sh', w') \<and>
     edits sh' (ed\<lparr>ed_text := ed_text ed @ cs, ed_cur := length (ed_text ed @ cs)\<rparr>)"
  using assms(1-5)
proof (induction cs arbitrary: sh ed w)
  case Nil
  then have "ed\<lparr>ed_text := ed_text ed @ [], ed_cur := length (ed_text ed @ [])\<rparr> = ed" by simp
  then show ?case using Nil.prems(1) by simp
next
  case (Cons c cs)
  have k: "key_class (ed_mode ed) c = Key_char c" using Cons.prems(2,4) by (simp add: key_class_def printable_def)
  let ?ed = "ed\<lparr>ed_text := ed_text ed @ [c], ed_cur := length (ed_text ed) + 1\<rparr>"
  have f: "fst (ed_key env c (ed, w)) = ?ed" using k Cons.prems(2,3) by (simp add: ed_key_def ed_insert_def Let_def)
  obtain sh1 w1 where s: "shell_key env (Some c) (sh, w) = Some (sh1, w1)" "edits sh1 ?ed"
    using shell_key_ok [OF Cons.prems(1) _ assms(6), of c w] k Cons.prems(5) f by (auto simp: simulates_def)
  show ?case using Cons.IH [OF s(2), of w1] Cons.prems s(1) by simp
qed

lemma shell_run_append: "shell_run env (as @ bs) q = do { q \<leftarrow> shell_run env as q; shell_run env bs q }"
  by (induction as arbitrary: q) (simp_all split: bind_splits)

lemma dropped_line:
  assumes "length xs = FINSH_CMD_SIZE" "\<forall>c\<in>set xs. printable c" "\<forall>index\<in>set (symtab env). NUL \<notin> set (sys_name index)"
  shows "\<exists>sh w'. shell_run env (map Some xs) (shell_start, w) = Some (sh, w') \<and> line sh = xs @ [NUL] \<and>
     line_position sh = 0 \<and> line_curpos sh = 0 \<and> finsh_get_prompt sh \<noteq> None \<and> input_state sh = WAIT_NORMAL"
proof -
  obtain ys y where xs: "xs = ys @ [y]" "length ys = FINSH_CMD_SIZE - 1" using assms(1) by (cases xs rule: rev_cases) auto
  have y: "printable y" using xs assms(2) by simp
  let ?ed = "editor_start\<lparr>ed_text := ys, ed_cur := length ys\<rparr>"
  have "\<exists>sh w1. shell_run env (map Some ys) (shell_start, w) = Some (sh, w1) \<and>
     edits sh (editor_start\<lparr>ed_text := ed_text editor_start @ ys, ed_cur := length (ed_text editor_start @ ys)\<rparr>)"
    by (rule typed [OF start_edits _ _ _ _ assms(3)]) (use xs assms(2) in \<open>simp_all add: editor_start_def\<close>)
  then obtain sh w1 where s: "shell_run env (map Some ys) (shell_start, w) = Some (sh, w1)" "edits sh ?ed"
    by (auto simp: editor_start_def)
  note e = editsD [OF s(2), simplified]
  have m: "input_state sh = WAIT_NORMAL" using e(13) by (simp add: editor_start_def)
  have u: "unat (line_position sh) = 79" "unat (line_curpos sh) = 79" "line_position sh + 1 = 80" using e(4,5) xs(2) by simp_all
  have "(line sh)[79 := y] = xs @ [NUL]" using e(1) xs by (simp add: padded_def list_update_append numeral_eq_Suc)
  moreover have "length (line sh) = 81" using e(1) xs(2) by simp
  ultimately have "\<exists>w'. key_char env y (sh, w1) = Some (sh\<lparr>line := xs @ [NUL], line_position := 0, line_curpos := 0\<rparr>, w')"
    using u by (simp add: key_char_def Let_def)
  then obtain w' where k: "shell_key env (Some y) (sh, w1) = Some (sh\<lparr>line := xs @ [NUL], line_position := 0, line_curpos := 0\<rparr>, w')"
    using printable_key [OF y m] by metis
  have "shell_run env (map Some xs) (shell_start, w) = Some (sh\<lparr>line := xs @ [NUL], line_position := 0, line_curpos := 0\<rparr>, w')"
    using s(1) k xs(1) by (simp add: shell_run_append)
  then show ?thesis using e(11) m by simp
qed

lemma complete_none:
  assumes "string_at b 0 = Some s" "s \<noteq> []" "matches env s = []"
  shows "\<exists>w'. msh_auto_complete env 0 b w = Some (b, w')"
  using msh_auto_complete_eq [OF assms(1,2), of env w] assms(3) by auto

lemma erase_once:
  assumes "line_position sh = 1" "line_curpos sh = 81" "length (line sh) = FINSH_CMD_SIZE + 1"
  shows "\<exists>sh' w'. key_backspace env (sh, w) = Some (sh', w') \<and> line_position sh' = 0 \<and> line_curpos sh' = 80 \<and>
     length (line sh') = FINSH_CMD_SIZE + 1 \<and> input_state sh' = input_state sh"
proof -
  obtain l where l: "store (line sh) 0 NUL = Some l" "length l = 81" using assms(3) by (simp add: store_def)
  have "unat (81 - 1 :: u16) = 80" "unat (1 - 1 :: u16) = 0" by simp_all
  then have "key_backspace env (sh, w) = Some (sh\<lparr>line_position := 0, line_curpos := 80, line := l\<rparr>, print env (BS @ '' '' @ BS) [] w)"
    using assms(1,2) l(1) by (simp add: key_backspace_def Let_def)
  then show ?thesis using l(2) by simp
qed

lemma erase_wraps:
  assumes "line_position sh = 0" "line_curpos sh = 80" "length (line sh) = FINSH_CMD_SIZE + 1"
  shows "unat (line_position sh - 1) = 65535" "unat (line_curpos sh - 1) = 79" "read_block (line sh) 80 65456 = None"
    "key_backspace env (sh, w) = None"
proof -
  show u: "unat (line_position sh - 1) = 65535" "unat (line_curpos sh - 1) = 79"
    using assms(1,2) by (simp_all add: unsigned_minus_1_eq_mask mask_eq_exp_minus_1)
  show r: "read_block (line sh) 80 65456 = None" using assms(3) by (simp add: read_block_def)
  show "key_backspace env (sh, w) = None" using u r assms(2) by (simp add: key_backspace_def Let_def)
qed

text \<open>
  C33.  Completion after a line that was too long.  A line of eighty characters is dropped by
  setting both positions to 0, but its characters stay in the buffer.  Completion takes them for
  the text and sets the positions to 80.  After one more character the position wraps to 1 while the
  cursor stands at 81.  All these keys are handled, and so is the first backspace, which leaves the
  positions 0 and 80.  The second one decrements the position to 65535 and moves 65456 bytes from
  behind the cursor, where the buffer has one more cell: the step that fails, and the one that
  reads and writes far outside the buffer.
\<close>

theorem completion_after_overflow:
  assumes "length xs = FINSH_CMD_SIZE" "\<forall>d\<in>set (c # xs). printable d" "matches env xs = []"
    "\<forall>index\<in>set (symtab env). NUL \<notin> set (sys_name index)"
  shows "\<exists>sh0 w0 sh1 w1 sh2 w2 sh3 w3.
     shell_run env (map Some xs) (shell_start, w) = Some (sh0, w0) \<and>
       line sh0 = xs @ [NUL] \<and> line_position sh0 = 0 \<and> line_curpos sh0 = 0 \<and>
     shell_key env (Some TAB) (sh0, w0) = Some (sh1, w1) \<and> line_position sh1 = 80 \<and> line_curpos sh1 = 80 \<and>
     shell_key env (Some c) (sh1, w1) = Some (sh2, w2) \<and> line_position sh2 = 1 \<and> line_curpos sh2 = 81 \<and>
     shell_key env (Some (CHR 0x08)) (sh2, w2) = Some (sh3, w3) \<and> line_position sh3 = 0 \<and> line_curpos sh3 = 80 \<and>
       length (line sh3) = 81 \<and>
     unat (line_position sh3 - 1) = 65535 \<and> unat (line_curpos sh3 - 1) = 79 \<and> read_block (line sh3) 80 65456 = None \<and>
     shell_key env (Some (CHR 0x08)) (sh3, w3) = None"
proof -
  obtain sh w1 where s: "shell_run env (map Some xs) (shell_start, w) = Some (sh, w1)" "line sh = xs @ [NUL]"
      "line_position sh = 0" "line_curpos sh = 0" "finsh_get_prompt sh \<noteq> None" "input_state sh = WAIT_NORMAL"
    using dropped_line [OF assms(1) _ assms(4), of w] assms(2) by auto
  obtain p where p: "finsh_get_prompt sh = Some p" using s(5) by blast
  have "\<not> printable NUL" by (simp add: printable_def plain_class_def)
  then have nx: "NUL \<notin> set xs" using assms(2) by auto
  have at: "string_at (xs @ [NUL]) 0 = Some xs" using string_at_eq [of 0 "[]" xs "[]"] nx by simp
  have x0: "xs \<noteq> []" using assms(1) by auto
  let ?sh = "sh\<lparr>line_position := 80, line_curpos := 80\<rparr>"
  have same: "sh\<lparr>line := xs @ [NUL]\<rparr> = sh" using s(2) by simp
  obtain w2 where "msh_auto_complete env 0 (line sh) (print env LF [] w1) = Some (line sh, w2)"
    using complete_none [OF at x0 assms(3)] s(2) by metis
  then have "\<exists>w'. key_tab env (sh, w1) = Some (?sh, w')"
    using s(2-4) p at assms(1) by (simp add: key_tab_def shell_auto_complete_def set_positions_def)
  then obtain w3 where t: "shell_key env (Some TAB) (sh, w1) = Some (?sh, w3)"
    using s(6) by (auto simp: shell_key_def plain_key_def)
  obtain l where l: "store (line sh) 0 c = Some l" "length l = 81" using s(2) assms(1) by (simp add: store_def)
  let ?sh2 = "?sh\<lparr>line_position := 0, line := l, line_position := 1, line_curpos := 81\<rparr>"
  have "\<exists>w'. key_char env c (?sh, w3) = Some (?sh2, w')" using l(1) by (simp add: key_char_def Let_def)
  then obtain w4 where c: "shell_key env (Some c) (?sh, w3) = Some (?sh2, w4)"
    using printable_key [of c ?sh env w3] assms(2) s(6) by auto
  have bs: "shell_key env (Some (CHR 0x08)) (q, w') = key_backspace env (q, w')" if "input_state q = WAIT_NORMAL" for q w'
    using that by (simp add: shell_key_def plain_key_def)
  have at2: "line_position ?sh2 = 1" "line_curpos ?sh2 = 81" "length (line ?sh2) = FINSH_CMD_SIZE + 1" "input_state ?sh2 = WAIT_NORMAL"
    using l(2) s(6) by simp_all
  then obtain sh2 where c2: "shell_key env (Some c) (?sh, w3) = Some (sh2, w4)" "line_position sh2 = 1" "line_curpos sh2 = 81"
      "length (line sh2) = FINSH_CMD_SIZE + 1" "input_state sh2 = WAIT_NORMAL"
    using c by blast
  obtain sh3 w5 where b: "key_backspace env (sh2, w4) = Some (sh3, w5)" "line_position sh3 = 0" "line_curpos sh3 = 80"
      "length (line sh3) = FINSH_CMD_SIZE + 1" "input_state sh3 = WAIT_NORMAL"
    using erase_once [OF c2(2-4)] c2(5) by metis
  note e = erase_wraps [OF b(2-4)]
  have k: "shell_key env (Some (CHR 0x08)) (sh2, w4) = Some (sh3, w5)" "shell_key env (Some (CHR 0x08)) (sh3, w5) = None"
    unfolding bs [OF c2(5)] bs [OF b(5)] by (rule b(1), rule e(4))
  have l3: "length (line sh3) = 81" using b(4) by simp
  obtain sh1 where t1: "shell_key env (Some TAB) (sh, w1) = Some (sh1, w3)" "line_position sh1 = 80" "line_curpos sh1 = 80"
      "shell_key env (Some c) (sh1, w3) = Some (sh2, w4)"
    using t c2(1) by simp
  show ?thesis
    by (rule exI [of _ sh], rule exI [of _ w1], rule exI [of _ sh1], rule exI [of _ w3], rule exI [of _ sh2],
        rule exI [of _ w4], rule exI [of _ sh3], rule exI [of _ w5]) (intro conjI s(1-4) t1 c2(2,3) k b(2,3) l3 e(1-3))
qed

theorem completion_after_overflow_witness:
  "\<exists>sh w. shell_run sample_env (map Some (replicate 80 (CHR ''x'') @ [TAB, CHR ''y'', CHR 0x08])) (shell_start, []) = Some (sh, w) \<and>
     line_position sh = 0 \<and> line_curpos sh = 80 \<and> shell_key sample_env (Some (CHR 0x08)) (sh, w) = None"
proof -
  have l: "length (replicate 80 (CHR ''x'')) = FINSH_CMD_SIZE" by simp
  have p: "\<forall>d\<in>set (CHR ''y'' # replicate 80 (CHR ''x'')). printable d" by (simp add: printable_def plain_class_def)
  have m: "matches sample_env (replicate 80 (CHR ''x'')) = []" by code_simp
  have one: "shell_run sample_env [k] = shell_key sample_env k" for k by (rule ext) (auto split: bind_splits)
  have two: "shell_run sample_env [a, b] = (\<lambda>q. Option.bind (shell_key sample_env a q) (shell_key sample_env b))" for a b
    by (rule ext) (simp only: shell_run.simps(2) [of _ a] one)
  have three: "shell_run sample_env (xs @ [a, b, c]) q = do { q \<leftarrow> shell_run sample_env xs q; q \<leftarrow> shell_key sample_env a q;
      q \<leftarrow> shell_key sample_env b q; shell_key sample_env c q }" for xs a b c q
    by (simp add: shell_run_append one two)
  show ?thesis using completion_after_overflow [OF l p m sample_env_names, of "[]"]
    by (elim exE conjE) (simp add: three)
qed

end
