(* ===== verification/Effect.thy ===== *)
theory Effect
  imports Ipc_Base
begin

text \<open>
  What a call may change.  \<open>effect R c k k'\<close>: the data of IPC objects outside \<open>R\<close> and the
  headers of all objects are the same, no started thread is lost, threads leave waiting lines but
  join only those of objects in \<open>R\<close>, inside the call \<open>c\<close>.  Every operation has such an effect,
  and the invariants of the objects outside \<open>R\<close> survive it.
\<close>

section \<open>Effects\<close>

fun head_obj :: "list_head \<Rightarrow> objref option" where
  "head_obj (Suspended_on r) = Some r"
| "head_obj (Senders_of r) = Some r"
| "head_obj h = None"

text \<open>The line in which a thread inside a call waits.\<close>

fun call_head :: "saved_call \<Rightarrow> list_head option" where
  "call_head (In_sem_take s) = Some (Suspended_on (Obj_Sem s))"
| "call_head (In_mutex_take m) = Some (Suspended_on (Obj_Mutex m))"
| "call_head (In_event_recv e) = Some (Suspended_on (Obj_Event e))"
| "call_head (In_mb_send m v x s) = Some (Senders_of (Obj_Mb m))"
| "call_head (In_mb_recv m x s) = Some (Suspended_on (Obj_Mb m))"
| "call_head (In_mq_send q b n x s) = Some (Senders_of (Obj_Mq q))"
| "call_head (In_mq_recv q b n x s) = Some (Suspended_on (Obj_Mq q))"
| "call_head (In_mp_alloc p x s) = Some (Suspended_on (Obj_Mp p))"
| "call_head (In_completion_wait c) = Some (Suspended_on (Obj_Completion c))"
| "call_head (In_dq_push q d n x) = Some (Senders_of (Obj_Dq q))"
| "call_head (In_dq_pop q x) = Some (Suspended_on (Obj_Dq q))"
| "call_head c = None"

definition same_data :: "objref \<Rightarrow> kernel \<Rightarrow> kernel \<Rightarrow> bool" where
  "same_data r k k' \<longleftrightarrow>
     (case r of
        Obj_Sem x \<Rightarrow> sems k' x = sems k x
      | Obj_Mutex x \<Rightarrow> mutexes k' x = mutexes k x
      | Obj_Event x \<Rightarrow> events k' x = events k x
      | Obj_Mb x \<Rightarrow> mailboxes k' x = mailboxes k x
      | Obj_Mq x \<Rightarrow> queues k' x = queues k x
      | Obj_Mp x \<Rightarrow> pools k' x = pools k x
      | Obj_Completion x \<Rightarrow> completions (devipc k') x = completions (devipc k) x
      | Obj_Dq x \<Rightarrow> dqueues (devipc k') x = dqueues (devipc k) x
      | _ \<Rightarrow> True)"

definition same_wait :: "kernel \<Rightarrow> kernel \<Rightarrow> tid \<Rightarrow> bool" where
  "same_wait k k' t \<longleftrightarrow> saved k' t = saved k t \<and> event_set (threads k' t) = event_set (threads k t) \<and>
     event_info (threads k' t) = event_info (threads k t)"

text \<open>Only timers of threads are started.\<close>

definition timers_kept :: "kernel \<Rightarrow> kernel \<Rightarrow> bool" where
  "timers_kept k k' \<longleftrightarrow> set (timer_list k') \<subseteq> set (timer_list k) \<union> range Thread_timer"

lemma timers_kept_refl [simp]: "timer_list k' = timer_list k \<Longrightarrow> timers_kept k k'"
  by (simp add: timers_kept_def)

lemma timers_kept_trans: "timers_kept k k1 \<Longrightarrow> timers_kept k1 k2 \<Longrightarrow> timers_kept k k2"
  unfolding timers_kept_def by blast

definition effect :: "objref set \<Rightarrow> saved_call \<Rightarrow> kernel \<Rightarrow> kernel \<Rightarrow> bool" where
  "effect R c k k' \<longleftrightarrow>
     (\<forall>r. r \<notin> R \<longrightarrow> same_data r k k') \<and>
     (\<forall>x. (\<forall>u. x \<noteq> Obj_Timer (Thread_timer u)) \<longrightarrow> objs k' x = objs k x) \<and>
     (\<forall>u. started k u \<longrightarrow> started k' u) \<and>
     (\<forall>h t. wait_head h \<longrightarrow> t \<in> set (lists k' h) \<longrightarrow>
        t \<in> set (lists k h) \<and> same_wait k k' t \<or>
        (\<exists>r\<in>R. head_obj h = Some r) \<and> saved k' t = c \<and> call_head c = Some h) \<and>
     (\<forall>t. saved k' t = saved k t \<or> saved k' t = c) \<and>
     (current k \<noteq> None \<longrightarrow> current k' \<noteq> None) \<and> timers_kept k k' \<and>
     irq_nest k' = irq_nest k \<and> lock_nest k' = lock_nest k"

lemma same_data_refl [simp]: "same_data r k k"
  by (simp add: same_data_def split: objref.split)

lemma same_data_trans: "same_data r k k1 \<Longrightarrow> same_data r k1 k2 \<Longrightarrow> same_data r k k2"
  by (simp add: same_data_def split: objref.splits)

lemma effect_refl [simp]: "effect R c k k"
  by (simp add: effect_def same_wait_def)

lemma effect_trans:
  assumes "effect R c k k1" "effect R c k1 k2"
  shows "effect R c k k2"
proof -
  have "(t \<in> set (lists k h) \<and> same_wait k k2 t) \<or> (\<exists>r\<in>R. head_obj h = Some r) \<and> saved k2 t = c \<and> call_head c = Some h"
    if t: "wait_head h" "t \<in> set (lists k2 h)" for h t
  proof -
    consider "t \<in> set (lists k1 h)" "same_wait k1 k2 t"
      | "(\<exists>r\<in>R. head_obj h = Some r) \<and> saved k2 t = c \<and> call_head c = Some h"
      using assms(2) t unfolding effect_def by blast
    then show ?thesis
    proof cases
      case 1
      then have "(t \<in> set (lists k h) \<and> same_wait k k1 t) \<or>
          (\<exists>r\<in>R. head_obj h = Some r) \<and> saved k1 t = c \<and> call_head c = Some h"
        using assms(1) t(1) unfolding effect_def by blast
      then show ?thesis using 1(2) by (auto simp: same_wait_def)
    qed simp
  qed
  moreover have "\<forall>r. r \<notin> R \<longrightarrow> same_data r k k2" using assms same_data_trans unfolding effect_def by blast
  moreover have "saved k2 t = saved k t \<or> saved k2 t = c" for t using assms unfolding effect_def by metis
  moreover have "timers_kept k k2" using assms timers_kept_trans unfolding effect_def by blast
  ultimately show ?thesis using assms unfolding effect_def by simp
qed

lemma effect_mono: "effect R c k k' \<Longrightarrow> R \<subseteq> R' \<Longrightarrow> effect R' c k k'"
  unfolding effect_def by blast

text \<open>Changes of the data of one object, and of a thread that does not wait.\<close>

lemma effect_data [simp]:
  "effect {Obj_Sem x} c k (k\<lparr>sems := (sems k)(x := a)\<rparr>)"
  "effect {Obj_Mutex x} c k (k\<lparr>mutexes := (mutexes k)(x := b)\<rparr>)"
  "effect {Obj_Event x} c k (k\<lparr>events := (events k)(x := d)\<rparr>)"
  "effect {Obj_Mb x} c k (k\<lparr>mailboxes := (mailboxes k)(x := e)\<rparr>)"
  "effect {Obj_Mq x} c k (k\<lparr>queues := (queues k)(x := f)\<rparr>)"
  "effect {Obj_Mp x} c k (k\<lparr>pools := (pools k)(x := g)\<rparr>)"
  "effect {Obj_Completion x} c k (k\<lparr>devipc := (devipc k)\<lparr>completions := (completions (devipc k))(x := h)\<rparr>\<rparr>)"
  "effect {Obj_Dq x} c k (k\<lparr>devipc := (devipc k)\<lparr>dqueues := (dqueues (devipc k))(x := i)\<rparr>\<rparr>)"
  by (auto simp: effect_def same_data_def same_wait_def started_def runnable_def split: objref.split)

lemma effect_thread:
  assumes "stat (f (threads k t)) = stat (threads k t)"
    and "\<And>h. wait_head h \<Longrightarrow> t \<in> set (lists k h) \<Longrightarrow>
      event_set (f (threads k t)) = event_set (threads k t) \<and> event_info (f (threads k t)) = event_info (threads k t)"
  shows "effect R c k (upd_thread t f k)"
  using assms by (auto simp: effect_def same_data_def same_wait_def started_def runnable_def split: objref.split)

lemma effect_error [simp]: "effect R c k (upd_thread t (\<lambda>th. th\<lparr>thread_error := e\<rparr>) k)"
  by (rule effect_thread) simp_all

lemma running_not_waiting:
  assumes "sinv k" "tstat k t = RT_THREAD_RUNNING" "wait_head h"
  shows "t \<notin> set (lists k h)"
  using waiter_suspended(1) [OF assms(1,3)] assms(2) by force

lemma ipc_frame_data: "ipc_frame k k' \<Longrightarrow> same_data r k k'"
  by (simp add: ipc_frame_def same_data_def split: objref.split)

lemma sched_effect:
  assumes "sched_rel k k'" "current k \<noteq> None \<Longrightarrow> current k' \<noteq> None"
  shows "effect R c k k'"
proof -
  have "lists k' h = lists k h" if "wait_head h" for h
    using that sched_rel_lists [OF assms(1)] by (cases h) simp_all
  then show ?thesis
    using assms(2) sched_rel_ipc_frame [OF assms(1)] ipc_frame_data [of k k'] sched_rel_frame(7,9) [OF assms(1)]
    by (auto simp: effect_def ipc_frame_def same_wait_def)
qed

lemma prio_effect:
  assumes "prio_rel t p k k'"
  shows "effect R c k k'"
proof -
  note fr = prio_rel_frame [OF assms]
  have ev: "event_set (threads k' u) = event_set (threads k u)" "event_info (threads k' u) = event_info (threads k u)" for u
    using assms unfolding prio_rel_def by (auto simp: set_priority_def)
  have "started k u \<longrightarrow> started k' u" for u using fr(17) by (simp add: started_def runnable_def)
  moreover have "lists k' h = lists k h" if "wait_head h" for h using that fr(20,21) by (cases h) simp_all
  ultimately show ?thesis
    using fr ev by (auto simp: effect_def same_data_def same_wait_def split: objref.split)
qed

lemma resume_effect:
  assumes "resume_rel t k k'" "timers_kept k k'"
  shows "effect R c k k'"
proof -
  have "lists k' h = remove1 t (lists k h)" if "wait_head h" for h
    using that resume_rel_frame(19,20) [OF assms(1)] by (cases h) simp_all
  then have "set (lists k' h) \<subseteq> set (lists k h)" if "wait_head h" for h using that set_remove1_subset by metis
  then show ?thesis
    using assms(2) resume_rel_ipc_frame [OF assms(1)] ipc_frame_data [of k k'] resume_rel_frame(5,7) [OF assms(1)]
    by (auto simp: effect_def ipc_frame_def same_wait_def)
qed

lemma woken_effect:
  assumes "woken h k k'" "wait_head h" "timers_kept k k'"
  shows "effect R c k k'"
proof -
  have "set (tl xs) \<subseteq> set xs" for xs :: "tid list" by (cases xs) auto
  then have "set (lists k' h') \<subseteq> set (lists k h')" if "wait_head h'" for h'
    using assms that by (cases "h' = h") (simp_all add: woken_def)
  then show ?thesis
    using assms(1,3) ipc_frame_data [of k k'] by (auto simp: woken_def effect_def ipc_frame_def same_wait_def)
qed

lemma timed_out_effect:
  assumes "timed_out t k k'" "timers_kept k k'"
  shows "effect R c k k'"
proof -
  have "set (lists k' h) \<subseteq> set (lists k h)" if "wait_head h" for h
    using assms that set_remove1_subset unfolding timed_out_def by metis
  then show ?thesis
    using assms ipc_frame_data [of k k'] by (auto simp: timed_out_def effect_def ipc_frame_def same_wait_def)
qed

lemma waits_effect:
  assumes "waits_in h t i c x k k'" "wait_head h" "head_obj h = Some r" "call_head c = Some h"
    and "timers_kept k k'" and n: "\<And>h'. wait_head h' \<Longrightarrow> t \<notin> set (lists k h')"
  shows "effect {r} c k k'"
proof -
  note w = assms(1) [unfolded waits_in_def]
  have "t' \<in> set (lists k h') \<and> same_wait k k' t' \<or> (\<exists>q\<in>{r}. head_obj h' = Some q) \<and> saved k' t' = c \<and> call_head c = Some h'"
    if "wait_head h'" "t' \<in> set (lists k' h')" for h' t'
  proof (cases "h' = h")
    case True
    then have "t' = t \<or> t' \<in> set (lists k h)" using that w by (auto simp: set_insert_at)
    then show ?thesis using True w assms(2-4) n [OF assms(2)] by (auto simp: same_wait_def ipc_frame_def)
  next
    case False
    then have "t' \<in> set (lists k h')" using that w by auto
    then show ?thesis using w n [OF that(1)] by (auto simp: same_wait_def ipc_frame_def)
  qed
  then show ?thesis using w assms(5) ipc_frame_data [of k k'] by (auto simp: effect_def ipc_frame_def)
qed

subsection \<open>The timers of threads\<close>

lemma thread_arm_timers:
  assumes "thread_arm t x k = Some k'"
  shows "timers_kept k k'"
  using assms
  by (auto simp: thread_arm_def rt_timer_control_def rt_timer_start_def timer_deactivate_def timer_remove_def Let_def
      timers_kept_def set_insert_at bind_eq_Some_conv dest: notin_set_remove1 split: if_splits)

lemma timer_stop_timers: "rt_timer_stop r k = Some (e, k') \<Longrightarrow> timers_kept k k'"
  by (auto simp: rt_timer_stop_def timer_deactivate_def timer_remove_def timers_kept_def
      dest: notin_set_remove1 split: if_splits)

lemma insert_thread_timers: "rt_schedule_insert_thread t k = Some k' \<Longrightarrow> timer_list k' = timer_list k"
  by (auto simp: rt_schedule_insert_thread_def list_insert_after_def list_insert_before_def list_insert_at_def Let_def
      bind_eq_Some_conv split: if_splits)

lemma list_remove_timers [simp]: "timer_list (list_remove t k) = timer_list k"
  by (simp add: list_remove_def split: option.split)

lemma resume_timers: "rt_thread_resume t k = Some (e, k') \<Longrightarrow> timers_kept k k'"
  by (auto simp: rt_thread_resume_def bind_eq_Some_conv Let_def dest!: timer_stop_timers insert_thread_timers
      split: if_splits) (simp_all add: timers_kept_def)

lemma remove_thread_timers: "rt_schedule_remove_thread t k = Some k' \<Longrightarrow> timer_list k' = timer_list k"
  by (auto simp: rt_schedule_remove_thread_def Let_def split: if_splits)

lemma schedule_timers:
  assumes "rt_schedule k = Some k'"
  shows "timer_list k' = timer_list k"
proof (cases "lock_nest k = 0 \<and> ready_group k \<noteq> 0")
  case False
  then show ?thesis using assms by (auto simp: rt_schedule_def)
next
  case True
  obtain hp first cur where h: "scheduler_get_highest_priority_thread k = Some (hp, first)" "current k = Some cur"
    using assms True by (auto simp: rt_schedule_def bind_eq_Some_conv)
  define run keep where "run = (tstat k cur = RT_THREAD_RUNNING)"
    and "keep = (run \<and> (prio k cur < hp \<or> prio k cur = hp \<and> stat (threads k cur) AND RT_THREAD_STAT_YIELD = 0))"
  define k1 where "k1 = (if run then upd_thread cur (\<lambda>th. th\<lparr>stat := stat th AND NOT RT_THREAD_STAT_YIELD\<rparr>) k else k)"
  have t1: "timer_list k1 = timer_list k" by (simp add: k1_def)
  note e = assms [unfolded rt_schedule_def h, simplified True Let_def Option.bind.simps prod.case if_True simp_thms,
      folded run_def, folded keep_def, folded k1_def]
  show ?thesis
  proof (cases "(if keep then cur else first) = cur")
    case True
    then show ?thesis using e t1 by (auto simp: bind_eq_Some_conv dest!: remove_thread_timers)
  next
    case False
    then show ?thesis using e t1
      by (auto simp: bind_eq_Some_conv dest!: remove_thread_timers insert_thread_timers split: if_splits)
  qed
qed

lemma list_insert_timers: "list_insert_at h i t k = Some k' \<Longrightarrow> timer_list k' = timer_list k"
  by (auto simp: list_insert_at_def)

lemma wake_timers:
  assumes "ipc_wake_first h k = Some k'"
  shows "timers_kept k k'"
proof (cases "lists k h")
  case (Cons t ts)
  then obtain e k1 where "rt_thread_resume t k = Some (e, k1)" "rt_schedule k1 = Some k'"
    using assms by (auto simp: ipc_wake_first_def ipc_list_resume_def bind_eq_Some_conv)
  then show ?thesis using resume_timers schedule_timers by (metis timers_kept_def)
qed (use assms in \<open>simp add: ipc_wake_first_def\<close>)

lemma wait_timers:
  assumes "sinv k" "caller t k" "ipc_wait h flag t timeout c k = Some k'"
  shows "timers_kept k k'"
proof -
  have c: "current k = Some t" "tstat k t = RT_THREAD_RUNNING" using assms(2) by (simp_all add: caller_def)
  obtain k1 k2 where k1: "ipc_list_suspend h t flag k = Some k1"
    "(if sint timeout > 0 then thread_arm t timeout k1 else Some k1) = Some k2"
    "rt_schedule (k2\<lparr>saved := (saved k2)(t := c)\<rparr>) = Some k'"
    using assms(3) by (auto simp: ipc_wait_def bind_eq_Some_conv)
  have "timer_list k1 = timer_list k"
    using k1(1) suspend_ok(1) [OF assms(1) c]
    by (auto simp: ipc_list_suspend_def list_insert_before_def dest!: list_insert_timers split: if_splits)
  moreover have "timers_kept k1 k2" using k1(2) thread_arm_timers by (auto split: if_splits)
  moreover have "timer_list k' = timer_list k2" using schedule_timers [OF k1(3)] by simp
  ultimately show ?thesis by (simp add: timers_kept_def)
qed

subsection \<open>The blocking and the waking sequence\<close>

lemma schedule_effect:
  assumes "sinv k" "current k \<noteq> None" "rt_schedule k = Some k'"
  shows "effect R c k k'"
  using rt_schedule_sinv [OF assms(1,2)] assms(3) sched_effect by auto

lemma wake_effect:
  assumes "sinv k" "current k \<noteq> None" "wait_head h" "ipc_wake_first h k = Some k'"
  shows "effect R c k k'"
  using ipc_wake_first_ok [OF assms(1,3,2)] assms(4) woken_effect [OF _ assms(3) wake_timers] by auto

lemma wait_effect:
  assumes "sinv k" "caller t k" "flag = RT_IPC_FLAG_FIFO \<or> flag = RT_IPC_FLAG_PRIO"
    and "0 < sint timeout \<longrightarrow> timeout < RT_TICK_MAX_HALF"
    and "wait_head h" "head_obj h = Some r" "call_head c = Some h"
    and "ipc_wait h flag t timeout c k = Some k'"
  shows "effect {r} c k k'"
proof -
  have c: "current k = Some t" "tstat k t = RT_THREAD_RUNNING" using assms(2) by (simp_all add: caller_def)
  have "waits_in h t (wait_pos flag t h k) c timeout k k'"
    using ipc_wait_ok [OF assms(1) c assms(5,3), of timeout c] assms(4,8) by auto
  then show ?thesis
    using assms(5-7) wait_timers [OF assms(1,2,8)] running_not_waiting [OF assms(1) c(2)] by (rule waits_effect)
qed

lemma caller_cong:
  "caller t (upd_thread u (\<lambda>th. th\<lparr>thread_error := e\<rparr>) k) \<longleftrightarrow> caller t k"
  by (auto simp: caller_def scheduler_available_def in_thread_context_def rt_critical_level_def
      rt_thread_self_def rt_interrupt_get_nest_def)

text \<open>The usual blocking branch of a call: the error is cleared, then the caller waits.\<close>

lemma error_wait_effect:
  assumes "sinv k" "caller t k" "flag = RT_IPC_FLAG_FIFO \<or> flag = RT_IPC_FLAG_PRIO"
    and "0 < sint timeout \<longrightarrow> timeout < RT_TICK_MAX_HALF"
    and "wait_head h" "head_obj h = Some r" "call_head c = Some h"
    and "ipc_wait h flag t timeout c (upd_thread t (\<lambda>th. th\<lparr>thread_error := RT_EOK\<rparr>) k) = Some k'"
  shows "effect {r} c k k'"
proof -
  have "sinv (upd_thread t (\<lambda>th. th\<lparr>thread_error := RT_EOK\<rparr>) k)" using assms(1) by (simp only: set_error_sinv)
  from wait_effect [OF this _ assms(3-8)] show ?thesis
    using assms(2) effect_error effect_trans by (metis caller_cong)
qed

text \<open>Leaving a blocking call.\<close>

lemma finish_effect:
  assumes "sinv k" "caller t k"
  shows "effect R No_call k (finish_call t k)"
proof -
  have "t \<notin> set (lists k h)" if "wait_head h" for h
    using running_not_waiting [OF assms(1) _ that] assms(2) by (simp add: caller_def)
  then show ?thesis
    by (auto simp: finish_call_def effect_def same_data_def same_wait_def started_def runnable_def split: objref.split)
qed

end
