(* ===== verification/Op_Effects.thy ===== *)
theory Op_Effects
  imports Effect Semaphore Mutex Event Mailbox Messagequeue Mempool Kernel_Properties
begin

text \<open>
  The effect of every blocking and waking operation of the kernel: which object it may change and
  which line it may join.
\<close>

section \<open>The effect of every operation\<close>

abbreviation timeout_ok :: "s32 \<Rightarrow> bool" where
  "timeout_ok x \<equiv> 0 < sint x \<longrightarrow> x < RT_TICK_MAX_HALF"

lemma caller_simps:
  "caller t k \<Longrightarrow> rt_thread_self k = Some t" "caller t k \<Longrightarrow> current k = Some t"
  "caller t k \<Longrightarrow> current k \<noteq> None" "caller t k \<Longrightarrow> tstat k t = RT_THREAD_RUNNING"
  "caller t k \<Longrightarrow> scheduler_available k" "caller t k \<Longrightarrow> irq_nest k = 0"
  by (auto simp: caller_def rt_thread_self_def scheduler_available_def in_thread_context_def rt_interrupt_get_nest_def)

lemma sem_take_effect:
  assumes "sinv k" "is_sem x k" "caller t k" "timeout_ok timeout" "rt_sem_take x timeout k = Some (oc, k')"
  shows "effect {Obj_Sem x} (In_sem_take x) k k'"
proof -
  have fl: "obj_flag (objs k (Obj_Sem x)) = RT_IPC_FLAG_FIFO \<or> obj_flag (objs k (Obj_Sem x)) = RT_IPC_FLAG_PRIO"
    using assms(2) by (simp add: is_sem_def)
  from assms(5) consider "k' = upd_sem x (\<lambda>y. y\<lparr>sem_value := sem_value y - 1\<rparr>) k" | "k' = k"
    | "ipc_wait (Suspended_on (Obj_Sem x)) (obj_flag (objs k (Obj_Sem x))) t timeout (In_sem_take x)
         (upd_thread t (\<lambda>th. th\<lparr>thread_error := RT_EOK\<rparr>) k) = Some k'"
    using caller_simps(1) [OF assms(3)] by (auto simp: rt_sem_take_def bind_eq_Some_conv split: if_splits)
  then show ?thesis
  proof cases
    case 3
    then show ?thesis by (intro error_wait_effect [OF assms(1,3) fl assms(4)]) simp_all
  qed simp_all
qed

lemma resume_first_wake:
  assumes "lists k h \<noteq> []" "ipc_list_resume h k = Some k1" "rt_schedule k1 = Some k'"
  shows "ipc_wake_first h k = Some k'"
  using assms by (simp add: ipc_wake_first_def)

lemma sem_release_effect:
  assumes "sinv k" "current k \<noteq> None" "rt_sem_release x k = Some (e, k')"
  shows "effect {Obj_Sem x} c k k'"
proof -
  from assms(3) consider "k' = upd_sem x (\<lambda>y. y\<lparr>sem_value := sem_value y + 1\<rparr>) k" | "k' = k"
    | "ipc_wake_first (Suspended_on (Obj_Sem x)) k = Some k'"
    by (auto simp: rt_sem_release_def bind_eq_Some_conv resume_first_wake split: if_splits)
  then show ?thesis
  proof cases
    case 3
    then show ?thesis by (intro wake_effect [OF assms(1,2)]) simp_all
  qed simp_all
qed

lemma finish_caller:
  assumes "sinv k" "caller t k"
  shows "sinv (finish_call t k)" "caller t (finish_call t k)"
proof -
  show "sinv (finish_call t k)" using assms(1) sinv_cong [of "finish_call t k" k] by (simp add: finish_call_def)
  show "caller t (finish_call t k)"
    using assms(2) by (simp add: finish_call_def caller_def scheduler_available_def in_thread_context_def
        rt_critical_level_def rt_thread_self_def rt_interrupt_get_nest_def)
qed

text \<open>A passage of \<open>rt_mutex_take\<close> that changes a priority.\<close>

lemma change_priority_effect:
  assumes "sinv k" "unat p < 32" "started k u" "rt_thread_control u (CTRL_CHANGE_PRIORITY p) k = Some (e, k')"
  shows "effect R c k k' \<and> sinv k' \<and> (\<forall>t. caller t k \<longrightarrow> caller t k') \<and> objs k' = objs k \<and>
     (\<forall>u. tstat k' u = tstat k u)"
proof -
  obtain k1 where k1: "rt_thread_change_priority u p k = Some k1" "sinv k1" "prio_rel u p k k1"
    using change_priority_ok [OF assms(1,2)] by blast
  have "rt_object_get_type (Obj_Thread u) k = class_code Class_Thread" using kinv_startedD(4) [OF assms(1,3)] .
  then have "k1 = k'" using k1(1) assms(4) by (simp add: rt_thread_control_def)
  moreover note fr = prio_rel_frame [OF k1(3)]
  have "caller t k \<longrightarrow> caller t k1" for t
    using fr(5,6,7,17) by (simp add: caller_def scheduler_available_def in_thread_context_def
        rt_critical_level_def rt_thread_self_def rt_interrupt_get_nest_def)
  ultimately show ?thesis using k1 prio_effect [OF k1(3)] fr(2,17) by auto
qed

lemma upd_mutex_twice: "upd_mutex m f (upd_mutex m g k) = k\<lparr>mutexes := (mutexes k)(m := f (g (mutexes k m)))\<rparr>"
  by simp

lemma mutex_take_effect:
  assumes "sinv k" "is_mutex m k" "caller t k" "mutex_ok m k" "timeout_ok timeout"
    and r: "rt_mutex_take m timeout k = Some (oc, k')"
  shows "effect {Obj_Mutex m} (In_mutex_take m) k k'"
proof -
  let ?k1 = "upd_thread t (\<lambda>th. th\<lparr>thread_error := RT_EOK\<rparr>) k"
  have s1: "sinv ?k1" "caller t ?k1" using assms(1,3) by (simp_all only: set_error_sinv caller_cong)
  have e1: "effect R c k ?k1" for R c by simp
  have fl: "obj_flag (objs k (Obj_Mutex m)) = RT_IPC_FLAG_FIFO \<or> obj_flag (objs k (Obj_Mutex m)) = RT_IPC_FLAG_PRIO"
    using assms(2) by (simp add: is_mutex_def)
  show ?thesis
  proof (cases "owner (mutexes k m) = Some t \<or> owner (mutexes k m) = None \<or> timeout = 0")
    case True
    have "(\<exists>x. k' = ?k1\<lparr>mutexes := (mutexes ?k1)(m := x)\<rparr>) \<or> k' = ?k1 \<or>
        k' = upd_thread t (\<lambda>th. th\<lparr>thread_error := - RT_ETIMEOUT\<rparr>) ?k1"
      using r True assms(4) caller_simps(1) [OF assms(3)]
      by (auto simp: rt_mutex_take_def bind_eq_Some_conv Let_def mutex_ok_def split: if_splits)
    then show ?thesis using e1 effect_trans [OF e1 effect_data(2)] effect_trans [OF e1 effect_error] by blast
  next
    case False
    then obtain ow where ow: "owner (mutexes k m) = Some ow" "ow \<noteq> t" "timeout \<noteq> 0" by auto
    have o: "mutex_value (mutexes k m) = 0" "started ?k1 ow" using assms(4) ow by (auto simp: mutex_ok_def)
    let ?p = "current_priority (threads k t)"
    obtain k2 where k2: "(if ?p < current_priority (threads ?k1 ow)
          then map_option snd (rt_thread_control ow (CTRL_CHANGE_PRIORITY ?p) ?k1) else Some ?k1) = Some k2"
        "ipc_wait (Suspended_on (Obj_Mutex m)) (obj_flag (objs k2 (Obj_Mutex m))) t timeout (In_mutex_take m) k2 = Some k'"
      using r ow o(1) caller_simps(1) [OF assms(3)]
      by (auto simp: rt_mutex_take_def bind_eq_Some_conv Let_def split: if_splits)
    have p: "unat ?p < 32" by (rule running_priority [OF assms(1) caller_simps(4) [OF assms(3)]])
    have "effect {Obj_Mutex m} (In_mutex_take m) ?k1 k2 \<and> sinv k2 \<and> caller t k2 \<and> objs k2 = objs ?k1"
      using k2(1) change_priority_effect [OF s1(1) p o(2)] s1 by (auto split: if_splits)
    moreover from this have "effect {Obj_Mutex m} (In_mutex_take m) k2 k'"
      using fl assms(5) k2(2) by (intro wait_effect [of k2 t]) simp_all
    ultimately show ?thesis using e1 effect_trans by blast
  qed
qed

lemma hand_over_effect:
  assumes "sinv k" "current k \<noteq> None" "mutex_hand_over m k = Some (e, k')"
  shows "effect {Obj_Mutex m} c k k'"
proof (cases "lists k (Suspended_on (Obj_Mutex m))")
  case Nil
  then show ?thesis using assms(3) by (auto simp: mutex_hand_over_def split: if_splits)
next
  case (Cons w ws)
  show ?thesis
  proof (cases "hold (mutexes k m) < 0xff")
    case True
    let ?k1 = "k\<lparr>mutexes := (mutexes k)(m := (mutexes k m)\<lparr>owner := Some w, original_priority := current_priority (threads k w),
                    hold := hold (mutexes k m) + 1\<rparr>)\<rparr>"
    have "ipc_wake_first (Suspended_on (Obj_Mutex m)) ?k1 = Some k'"
      using assms(3) Cons True by (auto simp: mutex_hand_over_def Let_def bind_eq_Some_conv ipc_wake_first_def)
    moreover have "sinv ?k1" "current ?k1 \<noteq> None" using assms(1,2) sinv_cong [of ?k1 k] by simp_all
    ultimately have "effect {Obj_Mutex m} c ?k1 k'" by (intro wake_effect) simp_all
    then show ?thesis using effect_trans effect_data(2) by blast
  next
    case False
    then show ?thesis using assms(3) Cons by (auto simp: mutex_hand_over_def Let_def)
  qed
qed

lemma mutex_release_effect:
  assumes "sinv k" "current k = Some t" "mutex_ok m k" "rt_mutex_release m k = Some (e, k')"
  shows "effect {Obj_Mutex m} c k k'"
proof (cases "owner (mutexes k m) = Some t")
  case False
  then have "k' = upd_thread t (\<lambda>th. th\<lparr>thread_error := - RT_ERROR\<rparr>) k"
    using assms(2,4) by (auto simp: rt_mutex_release_def rt_thread_self_def)
  then show ?thesis by simp
next
  case True
  define k1 where "k1 = upd_mutex m (\<lambda>x. x\<lparr>hold := hold x - 1\<rparr>) k"
  note r = assms(4) [unfolded rt_mutex_release_def Let_def, folded k1_def]
  have s1: "sinv k1" using assms(1) sinv_cong [of k1 k] by (simp add: k1_def)
  have ow: "unat (original_priority (mutexes k1 m)) < 32" "started k1 t"
    using assms(3) True by (simp_all add: k1_def mutex_ok_def word_less_nat_alt started_def runnable_def)
  have e1: "effect {Obj_Mutex m} c k k1" by (simp add: k1_def)
  show ?thesis
  proof (cases "hold (mutexes k1 m) = 0")
    case False
    then have "k' = k1" using True assms(2) r by (auto simp: rt_thread_self_def)
    then show ?thesis using e1 by simp
  next
    case z: True
    obtain k2 where k2: "(if original_priority (mutexes k1 m) \<noteq> current_priority (threads k1 t)
         then map_option snd (rt_thread_control t (CTRL_CHANGE_PRIORITY (original_priority (mutexes k1 m))) k1)
         else Some k1) = Some k2" "mutex_hand_over m k2 = Some (e, k')"
      using True z assms(2) r by (auto simp: rt_thread_self_def bind_eq_Some_conv)
    have "effect {Obj_Mutex m} c k1 k2 \<and> sinv k2"
      using k2(1) change_priority_effect [OF s1 ow] s1 by (auto split: if_splits)
    moreover from this have "current k2 \<noteq> None" using assms(2) unfolding effect_def by (simp add: k1_def)
    ultimately show ?thesis using hand_over_effect [OF _ _ k2(2)] e1 effect_trans by blast
  qed
qed

lemma event_recv_effect:
  assumes "sinv k" "is_event e k" "caller t k" "timeout_ok timeout"
    and r: "rt_event_recv e want opt timeout k = Some (oc, k')"
  shows "effect {Obj_Event e} (In_event_recv e) k k'"
proof -
  let ?f = "\<lambda>x th. th\<lparr>thread_error := RT_EOK, event_set := x, event_info := opt\<rparr>"
  let ?h = "Suspended_on (Obj_Event e)"
  note c = caller_simps [OF assms(3)]
  have fl: "obj_flag (objs k (Obj_Event e)) = RT_IPC_FLAG_FIFO \<or> obj_flag (objs k (Obj_Event e)) = RT_IPC_FLAG_PRIO"
    using assms(2) by (simp add: is_event_def)
  have e1: "effect R cc k (upd_thread t (?f x) k)" for R cc x
    by (rule effect_thread) (use running_not_waiting [OF assms(1) c(4)] in auto)
  from r consider "k' = k" | x where "k' = upd_thread t (?f x) k"
    | x y where "k' = (upd_thread t (?f x) k)\<lparr>events := (events k)(e := y)\<rparr>"
    | z where "k' = upd_thread t (\<lambda>th. th\<lparr>thread_error := z\<rparr>) k"
    | "ipc_wait ?h (obj_flag (objs k (Obj_Event e))) t timeout (In_event_recv e) (upd_thread t (?f want) k) = Some k'"
    using c(1) by (auto simp: rt_event_recv_def bind_eq_Some_conv Let_def split: if_splits)
  then show ?thesis
  proof cases
    case (3 x y)
    then show ?thesis using effect_trans [OF e1 effect_data(3)] by simp
  next
    case 5
    let ?k1 = "upd_thread t (?f want) k"
    have "sinv ?k1" using assms(1) sinv_upd_neutral [where k = k and t = t and f = "?f want"] by simp
    moreover have "caller t ?k1"
      using assms(3) by (simp add: caller_def scheduler_available_def in_thread_context_def
          rt_critical_level_def rt_thread_self_def rt_interrupt_get_nest_def)
    ultimately have "effect {Obj_Event e} (In_event_recv e) ?k1 k'"
      using fl assms(4) 5 by (intro wait_effect [of ?k1 t]) simp_all
    then show ?thesis using e1 effect_trans by blast
  qed (use e1 in simp_all)
qed

text \<open>The options and interests of the waiting threads are valid.\<close>

definition interests_ok :: "nat \<Rightarrow> kernel \<Rightarrow> bool" where
  "interests_ok e k \<longleftrightarrow> (\<forall>t\<in>set (lists k (Suspended_on (Obj_Event e))). ev_option_ok (event_info (threads k t)))"

lemma event_wake_effect:
  assumes "sinv k" "t \<in> set (lists k (Suspended_on (Obj_Event e)))"
    and "rt_thread_resume t (upd_event e (\<lambda>x. x\<lparr>event_bits := b\<rparr>) (upd_thread t (\<lambda>th. th\<lparr>event_set := got\<rparr>) k)) = Some (z, k')"
  shows "effect {Obj_Event e} c k k'" "sinv k'" "\<forall>u. u \<noteq> t \<longrightarrow> threads k' u = threads k u"
    "lists k' (Suspended_on (Obj_Event e)) = remove1 t (lists k (Suspended_on (Obj_Event e)))" "current k' = current k"
proof -
  let ?h = "Suspended_on (Obj_Event e)"
  let ?k1 = "upd_event e (\<lambda>x. x\<lparr>event_bits := b\<rparr>) (upd_thread t (\<lambda>th. th\<lparr>event_set := got\<rparr>) k)"
  have rr: "sinv k'" "resume_rel t ?k1 k'" using event_wake_one [OF assms(1,2), of got b] assms(3) by auto
  note fr = resume_rel_frame [OF rr(2)]
  show "sinv k'" by (rule rr(1))
  show "\<forall>u. u \<noteq> t \<longrightarrow> threads k' u = threads k u" using fr(14) by auto
  show l: "lists k' ?h = remove1 t (lists k ?h)" using fr(19) by simp
  show "current k' = current k" using fr(5) by simp
  have k: "kinv k" using assms(1) by (simp add: sinv_def)
  have "t \<notin> set (lists k' h)" if "wait_head h" for h
  proof -
    have "lists k' h = remove1 t (lists k h)" using that fr(19,20) by (cases h) simp_all
    moreover have "distinct (lists k h)" using kinv_linked [OF k] by (simp add: linked_ok_def)
    ultimately show ?thesis by simp
  qed
  moreover have ef: "effect {Obj_Event e} c ?k1 k'" using resume_effect [OF rr(2) resume_timers [OF assms(3)]] .
  moreover have "same_wait k k' u" if "same_wait ?k1 k' u" "u \<noteq> t" for u using that by (simp add: same_wait_def)
  ultimately have j: "u \<in> set (lists k h) \<and> same_wait k k' u \<or>
      (\<exists>r\<in>{Obj_Event e}. head_obj h = Some r) \<and> saved k' u = c \<and> call_head c = Some h"
    if h: "wait_head h" "u \<in> set (lists k' h)" for h u
  proof -
    have ut: "u \<noteq> t" using h \<open>\<And>h. wait_head h \<Longrightarrow> t \<notin> set (lists k' h)\<close> by blast
    have "lists ?k1 h = lists k h" by simp
    then have "u \<in> set (lists k h) \<and> same_wait ?k1 k' u \<or>
        (\<exists>r\<in>{Obj_Event e}. head_obj h = Some r) \<and> saved k' u = c \<and> call_head c = Some h"
      using ef h unfolding effect_def by metis
    then show ?thesis using \<open>\<And>u. same_wait ?k1 k' u \<Longrightarrow> u \<noteq> t \<Longrightarrow> same_wait k k' u\<close> ut by blast
  qed
  have d: "same_data r k k'" if "r \<noteq> Obj_Event e" for r
  proof -
    have "same_data r k ?k1" using that by (simp add: same_data_def split: objref.split)
    moreover have "same_data r ?k1 k'" using ef that unfolding effect_def by simp
    ultimately show ?thesis by (rule same_data_trans)
  qed
  have "started ?k1 u \<longleftrightarrow> started k u" for u by (simp add: started_def runnable_def)
  then have o: "\<forall>x. (\<forall>u. x \<noteq> Obj_Timer (Thread_timer u)) \<longrightarrow> objs k' x = objs k x" "\<forall>u. started k u \<longrightarrow> started k' u"
    "\<forall>u. saved k' u = saved k u \<or> saved k' u = c" "current k \<noteq> None \<longrightarrow> current k' \<noteq> None"
    "timers_kept k k'" "irq_nest k' = irq_nest k" "lock_nest k' = lock_nest k"
    using ef unfolding effect_def timers_kept_def by simp_all
  show "effect {Obj_Event e} c k k'" unfolding effect_def using d o j by blast
qed

lemma event_loop_effect:
  assumes "sinv k" "lists k (Suspended_on (Obj_Event e)) = pre @ ts"
    and "\<And>t. t \<in> set ts \<Longrightarrow> ev_option_ok (event_info (threads k t))"
    and "event_send_loop e ts need k = Some (err, need', k')"
  shows "effect {Obj_Event e} c k k' \<and> sinv k' \<and> current k' = current k \<and> err = RT_EOK"
  using assms
proof (induction ts arbitrary: k need pre)
  case Nil
  then show ?case by simp
next
  case (Cons t ts)
  let ?h = "Suspended_on (Obj_Event e)"
  have ok: "ev_option_ok (event_info (threads k t))" using Cons.prems(3) by simp
  have dist: "distinct (pre @ t # ts)" using Cons.prems(1,2) by (metis kinv_linked linked_ok_def sinv_def)
  show ?case
  proof (cases "ev_grant (event_info (threads k t)) (event_set (threads k t)) (event_bits (events k e))")
    case None
    have l: "lists k ?h = (pre @ [t]) @ ts" using Cons.prems(2) by simp
    show ?thesis
      using Cons.IH [OF Cons.prems(1) l] Cons.prems(3) Cons.prems(4) [unfolded event_loop_step [OF ok] None]
      by (simp split del: if_split)
  next
    case (Some got)
    let ?b = "ev_left (event_info (threads k t)) got (event_bits (events k e))"
    obtain z k1 where k1: "rt_thread_resume t (upd_event e (\<lambda>x. x\<lparr>event_bits := ?b\<rparr>)
          (upd_thread t (\<lambda>th. th\<lparr>event_set := got\<rparr>) k)) = Some (z, k1)" "event_send_loop e ts True k1 = Some (err, need', k')"
      using Cons.prems(4) [unfolded event_loop_step [OF ok] Some] by (auto simp: bind_eq_Some_conv)
    have "t \<in> set (lists k ?h)" using Cons.prems(2) by simp
    note w = event_wake_effect [OF Cons.prems(1) this k1(1)]
    have l1: "lists k1 ?h = pre @ ts" using w(4) Cons.prems(2) dist by (simp add: remove1_append)
    have "ev_option_ok (event_info (threads k1 u))" if "u \<in> set ts" for u
    proof -
      have "u \<noteq> t" using that dist by auto
      then show ?thesis using w(3) Cons.prems(3) [of u] that by simp
    qed
    then have "effect {Obj_Event e} c k1 k' \<and> sinv k' \<and> current k' = current k1 \<and> err = RT_EOK"
      using Cons.IH [OF w(2) l1 _ k1(2)] by blast
    then show ?thesis using w(1,5) effect_trans by metis
  qed
qed

lemma event_send_effect:
  assumes "sinv k" "interests_ok e k" "current k \<noteq> None" "rt_event_send e bits k = Some (z, k')"
  shows "effect {Obj_Event e} c k k'"
proof (cases "bits = 0")
  case True
  then show ?thesis using assms(4) by (auto simp: rt_event_send_def)
next
  case False
  let ?h = "Suspended_on (Obj_Event e)"
  define k1 where "k1 = upd_event e (\<lambda>x. x\<lparr>event_bits := event_bits x OR bits\<rparr>) k"
  have s1: "sinv k1" "effect {Obj_Event e} c k k1" "current k1 = current k"
    using assms(1) sinv_cong [of k1 k] by (simp_all add: k1_def)
  obtain err need k2 where k2: "event_send_loop e (lists k1 ?h) False k1 = Some (err, need, k2)"
    "(if err \<noteq> RT_EOK then Some (err, k2)
      else Option.bind (if need then rt_schedule k2 else Some k2) (\<lambda>k3. Some (RT_EOK, k3))) = Some (z, k')"
    using assms(4) False by (auto simp: rt_event_send_def k1_def [symmetric] bind_eq_Some_conv Let_def)
  have "lists k1 ?h = [] @ lists k1 ?h" by simp
  moreover have "\<And>t. t \<in> set (lists k1 ?h) \<Longrightarrow> ev_option_ok (event_info (threads k1 t))"
    using assms(2) by (simp add: interests_ok_def k1_def)
  ultimately have l: "effect {Obj_Event e} c k1 k2" "sinv k2" "current k2 = current k1" "err = RT_EOK"
    using event_loop_effect [OF s1(1) _ _ k2(1)] by blast+
  have "effect {Obj_Event e} c k2 k'"
    using k2(2) l(4) schedule_effect [OF l(2)] l(3) s1(3) assms(3) by (auto simp: bind_eq_Some_conv split: if_splits)
  then show ?thesis using s1(2) l(1) effect_trans by blast
qed

text \<open>The two blocking branches of a message call: the error is cleared, then wait or give up.\<close>

lemma upd_mb_effect:
  assumes "sinv k" "current k \<noteq> None" "wait_head h" "ipc_wake_first h (upd_mb m (\<lambda>_. x) k) = Some k'"
  shows "effect {Obj_Mb m} c k k'"
proof -
  let ?k1 = "upd_mb m (\<lambda>_. x) k"
  have "sinv ?k1" "current ?k1 \<noteq> None" using assms(1,2) sinv_cong [of ?k1 k] by simp_all
  then have "effect {Obj_Mb m} c ?k1 k'" using assms(3,4) by (rule wake_effect)
  then show ?thesis by (rule effect_trans [OF effect_data(4)])
qed

lemma upd_mq_effect:
  assumes "sinv k" "current k \<noteq> None" "wait_head h" "ipc_wake_first h (upd_mq m (\<lambda>_. x) k) = Some k'"
  shows "effect {Obj_Mq m} c k k'"
proof -
  let ?k1 = "upd_mq m (\<lambda>_. x) k"
  have "sinv ?k1" "current ?k1 \<noteq> None" using assms(1,2) sinv_cong [of ?k1 k] by simp_all
  then have "effect {Obj_Mq m} c ?k1 k'" using assms(3,4) by (rule wake_effect)
  then show ?thesis by (rule effect_trans [OF effect_data(5)])
qed

lemma mb_send_effect:
  assumes "sinv k" "is_mb m k" "current k \<noteq> None" "timeout \<noteq> 0 \<longrightarrow> caller t k" "timeout_ok timeout"
    and r: "mb_send_pass m val timeout k = Some (oc, k')"
  shows "effect {Obj_Mb m} (In_mb_send m val timeout (tick k)) k k'"
proof (cases "mb_entry (mailboxes k m) = mb_size (mailboxes k m)")
  case False
  from r False consider x where "k' = upd_mb m (\<lambda>_. x) k"
    | x where "ipc_wake_first (Suspended_on (Obj_Mb m)) (upd_mb m (\<lambda>_. x) k) = Some k'"
    by (auto simp: mb_send_pass_def bind_eq_Some_conv Let_def split: if_splits)
  then show ?thesis
    by cases (use upd_mb_effect [OF assms(1,3), of "Suspended_on (Obj_Mb m)"] in auto)
next
  case True
  show ?thesis
  proof (cases "timeout = 0")
    case z: True
    then show ?thesis using r True by (auto simp: mb_send_pass_def bind_eq_Some_conv Let_def)
  next
    case False
    then have c: "caller t k" using assms(4) by simp
    have fl: "obj_flag (objs k (Obj_Mb m)) = RT_IPC_FLAG_FIFO \<or> obj_flag (objs k (Obj_Mb m)) = RT_IPC_FLAG_PRIO"
      using assms(2) by (simp add: is_mb_def)
    have "ipc_wait (Senders_of (Obj_Mb m)) (obj_flag (objs k (Obj_Mb m))) t timeout (In_mb_send m val timeout (tick k))
       (upd_thread t (\<lambda>th. th\<lparr>thread_error := RT_EOK\<rparr>) k) = Some k'"
      using r True False caller_simps(1) [OF c] by (auto simp: mb_send_pass_def bind_eq_Some_conv Let_def)
    then show ?thesis by (intro error_wait_effect [OF assms(1) c fl assms(5)]) simp_all
  qed
qed

lemma mb_recv_effect:
  assumes "sinv k" "is_mb m k" "current k \<noteq> None" "timeout \<noteq> 0 \<longrightarrow> caller t k" "timeout_ok timeout"
    and r: "mb_recv_pass m timeout k = Some (oc, k')"
  shows "effect {Obj_Mb m} (In_mb_recv m timeout (tick k)) k k'"
proof (cases "mb_entry (mailboxes k m) = 0")
  case False
  from r False obtain x where "ipc_wake_first (Senders_of (Obj_Mb m)) (upd_mb m (\<lambda>_. x) k) = Some k'"
    by (auto simp: mb_recv_pass_def bind_eq_Some_conv)
  then show ?thesis by (intro upd_mb_effect [OF assms(1,3)]) simp_all
next
  case True
  show ?thesis
  proof (cases "timeout = 0")
    case z: True
    then obtain u where "k' = upd_thread u (\<lambda>th. th\<lparr>thread_error := - RT_ETIMEOUT\<rparr>) (upd_thread u (\<lambda>th. th\<lparr>thread_error := RT_EOK\<rparr>) k)"
      using r True by (auto simp: mb_recv_pass_def bind_eq_Some_conv Let_def)
    then show ?thesis using effect_trans [OF effect_error effect_error] by blast
  next
    case False
    then have c: "caller t k" using assms(4) by simp
    have fl: "obj_flag (objs k (Obj_Mb m)) = RT_IPC_FLAG_FIFO \<or> obj_flag (objs k (Obj_Mb m)) = RT_IPC_FLAG_PRIO"
      using assms(2) by (simp add: is_mb_def)
    have "ipc_wait (Suspended_on (Obj_Mb m)) (obj_flag (objs k (Obj_Mb m))) t timeout (In_mb_recv m timeout (tick k))
       (upd_thread t (\<lambda>th. th\<lparr>thread_error := RT_EOK\<rparr>) k) = Some k'"
      using r True False caller_simps(1) [OF c] by (auto simp: mb_recv_pass_def bind_eq_Some_conv Let_def)
    then show ?thesis by (intro error_wait_effect [OF assms(1) c fl assms(5)]) simp_all
  qed
qed

lemma mq_send_effect:
  assumes "sinv k" "is_mq q k" "current k \<noteq> None" "timeout \<noteq> 0 \<longrightarrow> caller t k" "timeout_ok timeout"
    and r: "mq_send_pass q buffer sz timeout k = Some (oc, k')"
  shows "effect {Obj_Mq q} (In_mq_send q buffer sz timeout (tick k)) k k'"
proof (cases "mq_free (queues k q)")
  case (Some msg)
  from r Some consider x where "k' = upd_mq q (\<lambda>_. x) k"
    | x where "ipc_wake_first (Suspended_on (Obj_Mq q)) (upd_mq q (\<lambda>_. x) k) = Some k'"
    by (auto simp: mq_send_pass_def bind_eq_Some_conv Let_def split: if_splits)
  then show ?thesis
    by cases (use upd_mq_effect [OF assms(1,3), of "Suspended_on (Obj_Mq q)"] in auto)
next
  case None
  show ?thesis
  proof (cases "timeout = 0")
    case z: True
    then show ?thesis using r None by (auto simp: mq_send_pass_def bind_eq_Some_conv Let_def)
  next
    case False
    then have c: "caller t k" using assms(4) by simp
    have fl: "obj_flag (objs k (Obj_Mq q)) = RT_IPC_FLAG_FIFO \<or> obj_flag (objs k (Obj_Mq q)) = RT_IPC_FLAG_PRIO"
      using assms(2) by (simp add: is_mq_def)
    have "ipc_wait (Senders_of (Obj_Mq q)) (obj_flag (objs k (Obj_Mq q))) t timeout
       (In_mq_send q buffer sz timeout (tick k)) (upd_thread t (\<lambda>th. th\<lparr>thread_error := RT_EOK\<rparr>) k) = Some k'"
      using r None False caller_simps(1) [OF c] by (auto simp: mq_send_pass_def bind_eq_Some_conv Let_def)
    then show ?thesis by (intro error_wait_effect [OF assms(1) c fl assms(5)]) simp_all
  qed
qed

lemma mq_recv_effect:
  assumes "sinv k" "is_mq q k" "current k \<noteq> None" "timeout \<noteq> 0 \<longrightarrow> caller t k" "timeout_ok timeout"
    and r: "mq_recv_pass q buffer sz timeout k = Some (oc, k')"
  shows "effect {Obj_Mq q} (In_mq_recv q buffer sz timeout (tick k)) k k'"
proof (cases "mq_entry (queues k q) = 0")
  case False
  from r False obtain x where "ipc_wake_first (Senders_of (Obj_Mq q)) (upd_mq q (\<lambda>_. x) k) = Some k'"
    by (auto simp: mq_recv_pass_def bind_eq_Some_conv)
  then show ?thesis by (intro upd_mq_effect [OF assms(1,3)]) simp_all
next
  case True
  show ?thesis
  proof (cases "timeout = 0")
    case z: True
    then obtain u where "k' = upd_thread u (\<lambda>th. th\<lparr>thread_error := - RT_ETIMEOUT\<rparr>) (upd_thread u (\<lambda>th. th\<lparr>thread_error := RT_EOK\<rparr>) k)"
      using r True by (auto simp: mq_recv_pass_def bind_eq_Some_conv Let_def)
    then show ?thesis using effect_trans [OF effect_error effect_error] by blast
  next
    case False
    then have c: "caller t k" using assms(4) by simp
    have fl: "obj_flag (objs k (Obj_Mq q)) = RT_IPC_FLAG_FIFO \<or> obj_flag (objs k (Obj_Mq q)) = RT_IPC_FLAG_PRIO"
      using assms(2) by (simp add: is_mq_def)
    have "ipc_wait (Suspended_on (Obj_Mq q)) (obj_flag (objs k (Obj_Mq q))) t timeout
       (In_mq_recv q buffer sz timeout (tick k)) (upd_thread t (\<lambda>th. th\<lparr>thread_error := RT_EOK\<rparr>) k) = Some k'"
      using r True False caller_simps(1) [OF c] by (auto simp: mq_recv_pass_def bind_eq_Some_conv Let_def)
    then show ?thesis by (intro error_wait_effect [OF assms(1) c fl assms(5)]) simp_all
  qed
qed

text \<open>A waiting thread without a line of its own: sleeping, and the list of a memory pool.\<close>

lemma timer_effect:
  assumes "timer_rel k k'" "timers_kept k k'"
    and "\<forall>x. (\<forall>u. x \<noteq> Obj_Timer (Thread_timer u)) \<longrightarrow> objs k' x = objs k x"
  shows "effect R c k k'"
  using assms(2,3) timer_rel_frame [OF assms(1)]
  by (auto simp: effect_def same_data_def same_wait_def started_def runnable_def split: objref.split)

lemma arm_effect:
  assumes "sinv k" "tstat k t = RT_THREAD_SUSPEND" "x < RT_TICK_MAX_HALF" "thread_arm t x k = Some k'"
  shows "effect R c k k' \<and> sinv k' \<and> lists k' = lists k \<and> threads k' = threads k \<and> current k' = current k \<and>
     saved k' = saved k"
proof -
  have r: "sinv k'" "timer_rel k k'" using thread_arm_ok [OF assms(1-3)] assms(4) by auto
  have "\<forall>x. (\<forall>u. x \<noteq> Obj_Timer (Thread_timer u)) \<longrightarrow> objs k' x = objs k x"
    using thread_arm_ipc_frame(1) [OF assms(4) r(2)] by (simp add: ipc_frame_def)
  from timer_effect [OF r(2) thread_arm_timers [OF assms(4)] this] show ?thesis
    using r timer_rel_frame [OF r(2)] by simp
qed

lemma suspend_effect:
  assumes "sinv k" "caller t k" "\<And>h. wait_head h \<Longrightarrow> t \<in> set (l h) \<Longrightarrow> h = h0"
    and "wait_head h0 \<Longrightarrow> (\<exists>r\<in>R. head_obj h0 = Some r) \<and> call_head c = Some h0"
    and "\<And>h u. wait_head h \<Longrightarrow> u \<noteq> t \<Longrightarrow> u \<in> set (l h) \<Longrightarrow> u \<in> set (lists k h)"
    and "tstat k' t = RT_THREAD_SUSPEND"
    and "k' = k\<lparr>threads := (threads k)(t := th), lists := l, saved := (saved k)(t := c)\<rparr>"
  shows "effect R c k k'"
proof -
  have "u \<in> set (lists k h) \<and> same_wait k k' u \<or> (\<exists>r\<in>R. head_obj h = Some r) \<and> saved k' u = c \<and> call_head c = Some h"
    if h: "wait_head h" "u \<in> set (lists k' h)" for h u
  proof (cases "u = t")
    case True
    then have "h = h0" using assms(3) [OF h(1)] h(2) assms(7) by simp
    then show ?thesis using assms(4,7) h(1) True by simp
  next
    case False
    then show ?thesis using assms(5) [OF h(1) False] h(2) assms(7) by (simp add: same_wait_def)
  qed
  moreover have "started k u \<longrightarrow> started k' u" for u
    using assms(6,7) by (cases "u = t") (simp_all add: started_def runnable_def)
  ultimately show ?thesis using assms(7) by (simp add: effect_def same_data_def split: objref.split)
qed

lemma effect_saved:
  assumes "effect R c k k'" "lists k' = lists k" "threads k' = threads k"
  shows "effect R c (k\<lparr>saved := s\<rparr>) (k'\<lparr>saved := s\<rparr>)"
proof -
  have "same_data r (k\<lparr>saved := s\<rparr>) (k'\<lparr>saved := s\<rparr>)" if "r \<notin> R" for r
  proof -
    have "same_data r k k'" using assms(1) that unfolding effect_def by blast
    then show ?thesis by (cases r) (simp_all add: same_data_def)
  qed
  moreover have "\<forall>x. (\<forall>u. x \<noteq> Obj_Timer (Thread_timer u)) \<longrightarrow> objs k' x = objs k x" "current k \<noteq> None \<longrightarrow> current k' \<noteq> None"
    "timers_kept k k'" "irq_nest k' = irq_nest k" "lock_nest k' = lock_nest k"
    using assms(1) unfolding effect_def by simp_all
  ultimately show ?thesis
    unfolding effect_def using assms(2,3) by (simp add: same_wait_def timers_kept_def started_def runnable_def)
qed

lemma sleep_effect:
  assumes "sinv k" "caller t k" "x < RT_TICK_MAX_HALF" "rt_thread_sleep x k = Some k'"
  shows "effect R In_sleep k k'"
proof -
  note c = caller_simps [OF assms(2)]
  let ?k1 = "upd_thread t (\<lambda>th. th\<lparr>thread_error := RT_EOK\<rparr>) k"
  let ?k2 = "upd_thread t (set_stat RT_THREAD_SUSPEND) ?k1"
  have s1: "sinv ?k1" "current ?k1 = Some t" "tstat ?k1 t = RT_THREAD_RUNNING" "caller t ?k1"
    using assms(1,2) c by (simp_all add: caller_cong)
  note sp = suspend_ok [OF s1(1-3)]
  obtain k3 where k3: "thread_arm t x ?k2 = Some k3" "rt_schedule (k3\<lparr>saved := (saved k3)(t := In_sleep)\<rparr>) = Some k'"
    using assms(4) c(1) sp(1) by (auto simp: rt_thread_sleep_def thread_sleep_for_def bind_eq_Some_conv)
  note a = arm_effect [OF sp(2,4) assms(3) k3(1), of R In_sleep]
  let ?k2' = "?k2\<lparr>saved := (saved ?k2)(t := In_sleep)\<rparr>" and ?k3' = "k3\<lparr>saved := (saved k3)(t := In_sleep)\<rparr>"
  have n: "t \<notin> set (lists ?k1 h)" if "wait_head h" for h by (rule running_not_waiting [OF s1(1,3) that])
  have e1: "effect R In_sleep ?k1 ?k2'"
    by (rule suspend_effect [OF s1(1,4), where l = "lists ?k1" and ?h0.0 = Defunct]) (use n sp(4) in auto)
  have a': "effect R In_sleep ?k2 k3" "lists k3 = lists ?k2" "threads k3 = threads ?k2" "saved k3 = saved ?k2"
    "sinv k3" "current k3 = current ?k2" using a by blast+
  have e2: "effect R In_sleep ?k2' ?k3'" unfolding a'(4) by (rule effect_saved [OF a'(1-3)])
  have "sinv ?k3'" using a'(5) sinv_cong [of ?k3' k3] by simp
  moreover have "current ?k3' \<noteq> None" using a'(6) s1(2) by simp
  ultimately have e3: "effect R In_sleep ?k3' k'" using k3(2) by (rule schedule_effect)
  show ?thesis by (rule effect_trans [OF effect_error effect_trans [OF e1 effect_trans [OF e2 e3]]])
qed

lemma mp_alloc_effect:
  assumes "sinv k" "current k \<noteq> None" "time \<noteq> 0 \<longrightarrow> caller t k" "timeout_ok time"
    and r: "mp_alloc_pass p time k = Some (oc, k')"
  shows "effect {Obj_Mp p} (In_mp_alloc p time (tick k)) k k'"
proof (cases "block_free_count (pools k p) = 0")
  case False
  then show ?thesis using r by (auto simp: mp_alloc_pass_def bind_eq_Some_conv)
next
  case e: True
  show ?thesis
  proof (cases "time = 0")
    case True
    then show ?thesis using r e by (auto simp: mp_alloc_pass_def rt_set_errno_def split: option.splits if_splits)
  next
    case False
    let ?R = "{Obj_Mp p}" and ?c = "In_mp_alloc p time (tick k)"
    have ca: "caller t k" using assms(3) False by simp
    note c = caller_simps [OF ca]
    let ?h = "Suspended_on (Obj_Mp p)"
    let ?k1 = "upd_thread t (\<lambda>th. th\<lparr>thread_error := RT_EOK\<rparr>) k"
    let ?k2 = "upd_thread t (set_stat RT_THREAD_SUSPEND) ?k1"
    let ?k3 = "(upd_thread t (tlist_update (\<lambda>_. Some ?h)) ?k2)\<lparr>lists := (lists ?k2)(?h := insert_at 0 t (lists ?k2 ?h))\<rparr>"
    have s1: "sinv ?k1" "current ?k1 = Some t" "tstat ?k1 t = RT_THREAD_RUNNING" "caller t ?k1"
      using assms(1) ca c by (simp_all add: caller_cong)
    note sp = suspend_ok [OF s1(1-3)]
    have wh: "wait_head ?h" by simp
    note wi = wait_insert_ok [OF sp(2,4,3) wh, of 0]
    have st: "tstat ?k3 t = RT_THREAD_SUSPEND" using sp(4) by simp
    have ins: "list_insert_after ?h t ?k2 = Some ?k3" unfolding list_insert_after_def by (rule wi(1))
    have "Option.bind (if sint time > 0 then thread_arm t time ?k3 else Some ?k3)
        (\<lambda>k4. Option.bind (rt_schedule (k4\<lparr>saved := (saved k4)(t := In_mp_alloc p time (tick k4))\<rparr>))
           (\<lambda>k5. Some (Waits, k5))) = Some (oc, k')"
      using r e False c(1,6) sp(1) ins by (simp add: mp_alloc_pass_def rt_interrupt_get_nest_def Let_def cong: if_cong split del: if_split)
    then obtain k4 where k4: "(if sint time > 0 then thread_arm t time ?k3 else Some ?k3) = Some k4"
       "rt_schedule (k4\<lparr>saved := (saved k4)(t := In_mp_alloc p time (tick k4))\<rparr>) = Some k'"
      unfolding bind_eq_Some_conv by blast
    have a: "effect ?R ?c ?k3 k4 \<and> sinv k4 \<and> lists k4 = lists ?k3 \<and> threads k4 = threads ?k3 \<and>
       current k4 = current ?k3 \<and> saved k4 = saved ?k3 \<and> tick k4 = tick k"
    proof (cases "0 < sint time")
      case True
      then have x: "time < RT_TICK_MAX_HALF" "thread_arm t time ?k3 = Some k4" using assms(4) k4(1) by simp_all
      have "tick k4 = tick ?k3"
        using thread_arm_ok [OF wi(2) st x(1)] x(2) timer_rel_frame(7) by auto
      then show ?thesis using arm_effect [OF wi(2) st x, of ?R ?c] by simp
    next
      case False
      then have "k4 = ?k3" using k4(1) by simp
      then show ?thesis using wi(2) by simp
    qed
    let ?k3' = "?k3\<lparr>saved := (saved ?k3)(t := ?c)\<rparr>" and ?k4' = "k4\<lparr>saved := (saved k4)(t := ?c)\<rparr>"
    have n: "t \<notin> set (lists ?k1 h)" if "wait_head h" for h by (rule running_not_waiting [OF s1(1,3) that])
    have e1: "effect ?R ?c ?k1 ?k3'"
      by (rule suspend_effect [OF s1(1,4), where l = "lists ?k3" and ?h0.0 = ?h])
        (use n sp(4) in \<open>auto split: if_splits\<close>)
    have a': "effect ?R ?c ?k3 k4" "lists k4 = lists ?k3" "threads k4 = threads ?k3" "saved k4 = saved ?k3"
      "sinv k4" "current k4 = current ?k3" "tick k4 = tick k" using a by blast+
    have e2: "effect ?R ?c ?k3' ?k4'" unfolding a'(4) by (rule effect_saved [OF a'(1-3)])
    have "sinv ?k4'" using a'(5) sinv_cong [of ?k4' k4] by simp
    moreover have "current ?k4' \<noteq> None" using a'(6) s1(2) by simp
    moreover have "rt_schedule ?k4' = Some k'" using k4(2) a'(7) by simp
    ultimately have e3: "effect ?R ?c ?k4' k'" by (rule schedule_effect)
    show ?thesis by (rule effect_trans [OF effect_error effect_trans [OF e1 effect_trans [OF e2 e3]]])
  qed
qed

lemma mp_free_effect:
  assumes "sinv k" "current k \<noteq> None" "rt_mp_free p b k = Some k'"
  shows "effect {Obj_Mp p} c k k'"
proof -
  let ?k1 = "upd_mp p (mp_give b) k"
  have s1: "sinv ?k1" "current ?k1 \<noteq> None" using assms(1,2) sinv_cong [of ?k1 k] by simp_all
  have e1: "effect {Obj_Mp p} c k ?k1" by (rule effect_data(6))
  have "block_header (pools k p) b = Owner_pool p" using assms(3) by (auto simp: rt_mp_free_def split: block_header.splits if_splits)
  then have r: "(case lists k (Suspended_on (Obj_Mp p)) of [] \<Rightarrow> Some ?k1
      | t # _ \<Rightarrow> Option.bind (rt_thread_resume t (upd_thread t (\<lambda>th. th\<lparr>thread_error := RT_EOK\<rparr>) ?k1))
                 (\<lambda>(_, k3). rt_schedule k3)) = Some k'"
    using assms(3) by (cases "lists k (Suspended_on (Obj_Mp p))") (simp_all add: rt_mp_free_def Let_def)
  show ?thesis
  proof (cases "lists k (Suspended_on (Obj_Mp p))")
    case Nil
    then show ?thesis using r e1 by simp
  next
    case (Cons t ts)
    let ?k2 = "upd_thread t (\<lambda>th. th\<lparr>thread_error := RT_EOK\<rparr>) ?k1"
    have s2: "sinv ?k2" "current ?k2 \<noteq> None" using s1 by (simp_all only: set_error_sinv) simp
    have "ipc_wake_first (Suspended_on (Obj_Mp p)) ?k2 = Some k'"
      using r Cons by (auto simp: ipc_wake_first_def ipc_list_resume_def bind_eq_Some_conv)
    then have "effect {Obj_Mp p} c ?k2 k'" by (intro wake_effect [OF s2]) simp_all
    from effect_trans [OF e1 effect_trans [OF effect_error this]] show ?thesis .
  qed
qed

lemma yield_flag_sinv:
  "sinv k \<Longrightarrow> sinv (upd_thread t (\<lambda>th. th\<lparr>remaining_tick := f th, stat := stat th OR RT_THREAD_STAT_YIELD\<rparr>) k)"
  by (subst sinv_upd_neutral) simp_all

lemma yield_flag_effect:
  "effect R c k (upd_thread t (\<lambda>th. th\<lparr>remaining_tick := f th, stat := stat th OR RT_THREAD_STAT_YIELD\<rparr>) k)"
  by (auto simp: effect_def same_data_def same_wait_def started_def runnable_def split: objref.split)

lemma yield_effect:
  assumes "sinv k" "rt_thread_yield k = Some (e, k')"
  shows "effect R c k k'"
proof -
  obtain t where t: "current k = Some t" using assms(2) by (auto simp: rt_thread_yield_def rt_thread_self_def bind_eq_Some_conv)
  let ?k1 = "upd_thread t (\<lambda>th. th\<lparr>remaining_tick := thread_init_tick th, stat := stat th OR RT_THREAD_STAT_YIELD\<rparr>) k"
  have "rt_schedule ?k1 = Some k'"
    using assms(2) t by (auto simp: rt_thread_yield_def rt_thread_self_def Let_def bind_eq_Some_conv)
  moreover have "sinv ?k1" by (rule yield_flag_sinv [OF assms(1)])
  moreover have "current ?k1 \<noteq> None" using t by simp
  ultimately have "effect R c ?k1 k'" by (intro schedule_effect)
  then show ?thesis by (rule effect_trans [OF yield_flag_effect])
qed

lemma timer_fire_effect:
  assumes "sinv k" "current k \<noteq> None" "Thread_timer t \<in> set (timer_list k)" "timer_fire ucb (Thread_timer t) k = Some k'"
  shows "effect R c k k'"
proof -
  have "timed_out t k k'" "timer_list k' = remove1 (Thread_timer t) (timer_list k)"
    using thread_timer_fire [OF assms(1-3), of ucb] assms(4) by auto
  then show ?thesis by (intro timed_out_effect) (auto simp: timers_kept_def dest: notin_set_remove1)
qed

lemma check_effect:
  assumes "sinv k" "current k \<noteq> None" "\<forall>r\<in>set (timer_list k). \<exists>t. r = Thread_timer t"
    and "timer_check_loop ucb (tick k) k = Some k'"
  shows "effect R c k k'"
  using assms
proof (induction "length (timer_list k)" arbitrary: k)
  case 0
  then show ?case by (simp add: timer_check_loop.simps)
next
  case (Suc n)
  then obtain t rs where l: "timer_list k = Thread_timer t # rs" by (cases "timer_list k") auto
  show ?case
  proof (cases "tick k - timeout_tick (timers k (Thread_timer t)) < RT_TICK_MAX_HALF")
    case False
    then show ?thesis using Suc.prems(4) l by (simp add: timer_check_loop.simps)
  next
    case True
    have m: "Thread_timer t \<in> set (timer_list k)" using l by simp
    obtain k1 where k1: "timer_fire ucb (Thread_timer t) k = Some k1" "sinv k1" "current k1 \<noteq> None"
        "timer_list k1 = rs" "tick k1 = tick k"
      using thread_timer_fire [OF Suc.prems(1,2) m, of ucb] l by auto
    have "timer_check_loop ucb (tick k1) k1 = Some k'"
      using Suc.prems(4) l True k1(1) by (simp add: timer_check_loop.simps [of ucb _ k])
    moreover have "n = length (timer_list k1)" "\<forall>r\<in>set (timer_list k1). \<exists>t. r = Thread_timer t"
      using Suc.hyps(2) Suc.prems(3) l k1(4) by auto
    ultimately have "effect R c k1 k'" using Suc.hyps(1) k1(2,3) by blast
    then show ?thesis by (rule effect_trans [OF timer_fire_effect [OF Suc.prems(1,2) m k1(1)]])
  qed
qed

lemma effect_fields:
  assumes "threads k' = threads k" "lists k' = lists k" "objs k' = objs k" "saved k' = saved k" "sems k' = sems k"
    "mutexes k' = mutexes k" "events k' = events k" "mailboxes k' = mailboxes k" "queues k' = queues k"
    "pools k' = pools k" "timer_list k' = timer_list k" "current k' = current k" "irq_nest k' = irq_nest k"
    "lock_nest k' = lock_nest k" "devipc k' = devipc k"
  shows "effect R c k k'"
  using assms by (simp add: effect_def same_data_def same_wait_def started_def runnable_def split: objref.split)

text \<open>A tick: the slice of the running thread, then the timers.\<close>

lemma tick_ok:
  assumes "sinv k" "current k \<noteq> None" "\<forall>r\<in>set (timer_list k). \<exists>t. r = Thread_timer t"
  shows "\<exists>k'. rt_tick_increase ucb k = Some k' \<and> sinv k' \<and> effect R c k k'"
proof -
  obtain t where t: "current k = Some t" using assms(2) by auto
  let ?k1 = "k\<lparr>tick := tick k + 1\<rparr>"
  let ?k2 = "upd_thread t (\<lambda>th. th\<lparr>remaining_tick := remaining_tick th - 1\<rparr>) ?k1"
  let ?k2' = "upd_thread t (\<lambda>th. th\<lparr>remaining_tick := thread_init_tick th, stat := stat th OR RT_THREAD_STAT_YIELD\<rparr>) ?k2"
  have s1: "sinv ?k1" using assms(1) sinv_cong [of ?k1 k] by simp
  then have s2: "sinv ?k2" by (subst sinv_upd_neutral) simp_all
  have e1: "effect R c k ?k1" by (rule effect_fields) simp_all
  have e2: "effect R c ?k1 ?k2" by (rule effect_thread) simp_all
  obtain k3 where k3: "(if remaining_tick (threads ?k2 t) = 0 then rt_schedule ?k2' else Some ?k2) = Some k3" "sinv k3"
    "effect R c ?k2 k3" "timer_list k3 = timer_list k" "current k3 \<noteq> None"
  proof (cases "remaining_tick (threads ?k2 t) = 0")
    case True
    have s': "sinv ?k2'" by (rule yield_flag_sinv [OF s2])
    have c': "current ?k2' \<noteq> None" using t by simp
    obtain k3 where k3: "rt_schedule ?k2' = Some k3" "sinv k3" "current k3 \<noteq> None"
      using rt_schedule_sinv [OF s' c'] by auto
    have "effect R c ?k2 ?k2'" by (rule yield_flag_effect)
    then have "effect R c ?k2 k3" by (rule effect_trans) (rule schedule_effect [OF s' c' k3(1)])
    then show ?thesis using that True k3 schedule_timers [OF k3(1)] by simp
  next
    case False
    then show ?thesis using that s2 t by simp
  qed
  let ?k4 = "k3\<lparr>fired_list := []\<rparr>"
  have s4: "sinv ?k4" "current ?k4 \<noteq> None" "\<forall>r\<in>set (timer_list ?k4). \<exists>t. r = Thread_timer t"
    using k3 assms(3) sinv_cong [of ?k4 k3] by simp_all
  have e4: "effect R c k3 ?k4" by (rule effect_fields) simp_all
  obtain k' where k': "timer_check_loop ucb (tick ?k4) ?k4 = Some k'" "sinv k'"
    using timer_check_loop_ok [OF s4, of ucb] by blast
  have e5: "effect R c ?k4 k'" by (rule check_effect [OF s4 k'(1)])
  have "rt_tick_increase ucb k = Some k'"
    using t k3(1) k'(1) by (auto simp: rt_tick_increase_def rt_thread_self_def rt_timer_check_def Let_def split: if_splits)
  moreover have "effect R c k k'"
    by (rule effect_trans [OF e1 effect_trans [OF e2 effect_trans [OF k3(3) effect_trans [OF e4 e5]]]])
  ultimately show ?thesis using k'(2) by blast
qed

section \<open>Waiting for events\<close>

text \<open>No thread waits for flags that are set.\<close>

definition event_ok :: "nat \<Rightarrow> kernel \<Rightarrow> bool" where
  "event_ok e k \<longleftrightarrow> (\<forall>t\<in>set (lists k (Suspended_on (Obj_Event e))).
     ev_option_ok (event_info (threads k t)) \<and>
     ev_grant (event_info (threads k t)) (event_set (threads k t)) (event_bits (events k e)) = None)"

lemma ev_grant_mono:
  assumes "ev_grant opt want b = None" "b' AND b = b'"
  shows "ev_grant opt want b' = None"
proof -
  have b: "want AND b' = (want AND b) AND b'" using assms(2) by (metis and.assoc and.commute)
  show ?thesis
  proof (cases "opt AND RT_EVENT_FLAG_AND \<noteq> 0")
    case True
    have "want AND b = want" if "want AND b' = want"
      using that b by (metis and.assoc and.commute and.idem)
    then show ?thesis using assms(1) True by (auto simp: ev_grant_def split: if_splits)
  next
    case False
    then show ?thesis using assms(1) b by (auto simp: ev_grant_def split: if_splits)
  qed
qed

lemma ev_left_subset: "ev_left opt got b AND b = ev_left opt got b"
  by (simp add: ev_left_def and.assoc and.commute and.left_commute)

lemma ev_scan_rest:
  assumes "ev_scan f b ts = (wk, rest, b')"
  shows "b' AND b = b' \<and> set rest \<subseteq> set ts \<and> (\<forall>t\<in>set rest. ev_grant (fst (f t)) (snd (f t)) b' = None)"
  using assms
proof (induction ts arbitrary: b wk rest)
  case Nil
  then show ?case by simp
next
  case (Cons t ts)
  show ?case
  proof (cases "ev_grant (fst (f t)) (snd (f t)) b")
    case None
    obtain rest' where r: "ev_scan f b ts = (wk, rest', b')" "rest = t # rest'"
      using Cons.prems None by (auto split: prod.splits)
    from Cons.IH [OF r(1)] show ?thesis using r(2) ev_grant_mono [OF None] by auto
  next
    case (Some got)
    obtain wk' where r: "ev_scan f (ev_left (fst (f t)) got b) ts = (wk', rest, b')"
      using Cons.prems Some by (auto split: prod.splits)
    have "b' AND b = b'" using Cons.IH [OF r] ev_left_subset [of "fst (f t)" got b] by (metis and.assoc)
    then show ?thesis using Cons.IH [OF r] by auto
  qed
qed

end
