(* ===== verification/Driver_Effects.thy ===== *)
theory Driver_Effects
  imports Op_Effects Completion Dataqueue
begin

text \<open>
  The effects of completions and data queues, in the sense of theory \<open>Effect\<close>: they change their own
  object, and threads join only its waiting lines.
\<close>

lemma wake_as_code:
  "(if lists k h \<noteq> [] then Option.bind (ipc_list_resume h k) rt_schedule else Some k) = ipc_wake_first h k"
  by (simp add: ipc_wake_first_def)

lemma completion_wait_effect:
  assumes "sinv k" "timeout \<noteq> 0 \<longrightarrow> caller t k" "timeout_ok timeout"
    and r: "rt_completion_wait c timeout k = Some (oc, k')"
  shows "effect {Obj_Completion c} (In_completion_wait c) k k'"
proof (cases "comp_flag (cpl k c) = RT_COMPLETED \<or> timeout = 0")
  case True
  then show ?thesis using r by (auto simp: rt_completion_wait_def split: if_splits)
next
  case False
  then have c: "caller t k" using assms(2) by simp
  have "ipc_wait (Suspended_on (Obj_Completion c)) RT_IPC_FLAG_FIFO t timeout (In_completion_wait c)
       (upd_thread t (\<lambda>th. th\<lparr>thread_error := RT_EOK\<rparr>) k) = Some k'"
    using r False caller_simps(1) [OF c] by (auto simp: rt_completion_wait_def bind_eq_Some_conv Let_def)
  then show ?thesis by (intro error_wait_effect [OF assms(1) c _ assms(3)]) simp_all
qed

lemma completion_done_effect:
  assumes "sinv k" "current k \<noteq> None" "rt_completion_done c k = Some k'"
  shows "effect {Obj_Completion c} x k k'"
proof (cases "comp_flag (cpl k c) = RT_COMPLETED")
  case True
  then show ?thesis using assms(3) by (simp add: rt_completion_done_def)
next
  case False
  let ?k1 = "upd_comp c (\<lambda>y. y\<lparr>comp_flag := RT_COMPLETED\<rparr>) k"
  have "ipc_wake_first (Suspended_on (Obj_Completion c)) ?k1 = Some k'"
    using assms(3) False by (auto simp: rt_completion_done_def ipc_wake_first_def Let_def split: if_splits)
  then have "effect {Obj_Completion c} x ?k1 k'" using assms(1,2) by (intro wake_effect) simp_all
  then show ?thesis by (rule effect_trans [OF effect_data(7)])
qed

lemma completion_finish_effect:
  assumes "sinv k" "caller t k"
  shows "effect {Obj_Completion c} No_call k (snd (rt_completion_wait_finish t c k))"
  using effect_trans [OF finish_effect [OF assms] effect_data(7)] by (simp add: rt_completion_wait_finish_def)

lemma upd_dq_effect:
  assumes "sinv k" "current k \<noteq> None" "wait_head h" "ipc_wake_first h (upd_dq q (\<lambda>_. x) k) = Some k'"
  shows "effect {Obj_Dq q} c k k'"
proof -
  let ?k1 = "upd_dq q (\<lambda>_. x) k"
  have "sinv ?k1" "current ?k1 \<noteq> None" using assms(1,2) by simp_all
  then have "effect {Obj_Dq q} c ?k1 k'" using assms(3,4) by (rule wake_effect)
  then show ?thesis by (rule effect_trans [OF effect_data(8)])
qed

text \<open>A queue without a notification function.\<close>

lemma quiet_notify: "evt_notify (dqu k q) = None \<Longrightarrow> dq_notify ncb q e k = Some k"
  by (simp add: dq_notify_def)

lemma dq_push_effect:
  assumes "sinv k" "dq_inv (dqu k q)" "evt_notify (dqu k q) = None" "current k \<noteq> None" "timeout \<noteq> 0 \<longrightarrow> caller t k"
    and "timeout_ok timeout" and r: "dq_push_pass ncb q p sz timeout k = Some (oc, k')"
  shows "effect {Obj_Dq q} (In_dq_push q p sz timeout) k k' \<and> evt_notify (dqu k' q) = None"
proof (cases "is_full (dqu k q)")
  case False
  obtain dq where dq: "dq_put (p, sz) (dqu k q) = Some dq" "evt_notify dq = None"
    using dq_put_correct [OF assms(2) False, of "(p, sz)"] assms(3) by auto
  let ?k1 = "upd_dq q (\<lambda>_. dq) k"
  have "dq_notify ncb q e ?k1 = Some ?k1" for e by (rule quiet_notify) (simp add: dq(2))
  then have w: "ipc_wake_first (pop_line q) ?k1 = Some k'"
    using r False dq(1) unfolding wake_as_code [symmetric] by (auto simp: dq_push_pass_def Let_def bind_eq_Some_conv split: if_splits)
  have "effect {Obj_Dq q} (In_dq_push q p sz timeout) k k'" by (rule upd_dq_effect [OF assms(1,4) _ w]) simp
  moreover have "dqu k' q = dq" using dq_wake [OF assms(1,4), of "pop_line q" q dq] w by auto
  ultimately show ?thesis using dq(2) by simp
next
  case True
  show ?thesis
  proof (cases "timeout = 0")
    case z: True
    then show ?thesis using r True assms(3) by (simp add: dq_push_pass_def)
  next
    case False
    then have c: "caller t k" using assms(5) by simp
    have w: "ipc_wait (push_line q) RT_IPC_FLAG_FIFO t timeout (In_dq_push q p sz timeout)
       (upd_thread t (\<lambda>th. th\<lparr>thread_error := RT_EOK\<rparr>) k) = Some k'"
      using r True False caller_simps(1) [OF c] by (auto simp: dq_push_pass_def bind_eq_Some_conv Let_def)
    then have "effect {Obj_Dq q} (In_dq_push q p sz timeout) k k'"
      by (intro error_wait_effect [OF assms(1) c _ assms(6)]) simp_all
    moreover obtain k2 where "ipc_wait (push_line q) RT_IPC_FLAG_FIFO t timeout (In_dq_push q p sz timeout)
       (upd_thread t (\<lambda>th. th\<lparr>thread_error := RT_EOK\<rparr>) k) = Some k2" "ipc_frame k k2"
      using wait_with_error_cleared [OF assms(1) c _ _ assms(6), of "push_line q" RT_IPC_FLAG_FIFO "In_dq_push q p sz timeout"] by auto
    ultimately show ?thesis using w assms(3) by (simp add: ipc_frame_def)
  qed
qed

lemma dq_pop_effect:
  assumes "sinv k" "dq_inv (dqu k q)" "evt_notify (dqu k q) = None" "current k \<noteq> None" "timeout \<noteq> 0 \<longrightarrow> caller t k"
    and "timeout_ok timeout" and r: "dq_pop_pass ncb q timeout k = Some (oc, k')"
  shows "effect {Obj_Dq q} (In_dq_pop q timeout) k k' \<and> evt_notify (dqu k' q) = None"
proof (cases "is_empty (dqu k q)")
  case False
  obtain dq where dq: "dq_get (dqu k q) = Some (hd (items k q), dq)" "evt_notify dq = None"
    using dq_get_correct [OF assms(2) False] assms(3) by auto
  let ?k1 = "upd_dq q (\<lambda>_. dq) k"
  have n: "dq_notify ncb q e ?k1 = Some ?k1" for e by (rule quiet_notify) (simp add: dq(2))
  have q2: "dqu k2 q = dq" if "ipc_wake_first (push_line q) ?k1 = Some k2" for k2
    using dq_wake [OF assms(1,4), of "push_line q" q dq] that by auto
  have n2: "dq_notify ncb q e k2 = Some k2" if "ipc_wake_first (push_line q) ?k1 = Some k2" for e k2
    by (rule quiet_notify) (simp add: q2 [OF that] dq(2))
  from r False dq(1) have "ipc_wake_first (push_line q) ?k1 = Some k' \<or> ?k1 = k'"
    by (auto simp: dq_pop_pass_def Let_def bind_eq_Some_conv n n2 ipc_wake_first_def split: if_splits)
  then show ?thesis
  proof
    assume w: "ipc_wake_first (push_line q) ?k1 = Some k'"
    have "effect {Obj_Dq q} (In_dq_pop q timeout) k k'" by (rule upd_dq_effect [OF assms(1,4) _ w]) simp
    then show ?thesis using q2 [OF w] dq(2) by simp
  next
    assume "?k1 = k'"
    then show ?thesis using effect_data(8) dq(2) by auto
  qed
next
  case True
  show ?thesis
  proof (cases "timeout = 0")
    case z: True
    then show ?thesis using r True assms(3) by (simp add: dq_pop_pass_def)
  next
    case False
    then have c: "caller t k" using assms(5) by simp
    have w: "ipc_wait (pop_line q) RT_IPC_FLAG_FIFO t timeout (In_dq_pop q timeout)
       (upd_thread t (\<lambda>th. th\<lparr>thread_error := RT_EOK\<rparr>) k) = Some k'"
      using r True False caller_simps(1) [OF c] by (auto simp: dq_pop_pass_def bind_eq_Some_conv Let_def)
    then have "effect {Obj_Dq q} (In_dq_pop q timeout) k k'"
      by (intro error_wait_effect [OF assms(1) c _ assms(6)]) simp_all
    moreover obtain k2 where "ipc_wait (pop_line q) RT_IPC_FLAG_FIFO t timeout (In_dq_pop q timeout)
       (upd_thread t (\<lambda>th. th\<lparr>thread_error := RT_EOK\<rparr>) k) = Some k2" "ipc_frame k k2"
      using wait_with_error_cleared [OF assms(1) c _ _ assms(6), of "pop_line q" RT_IPC_FLAG_FIFO "In_dq_pop q timeout"] by auto
    ultimately show ?thesis using w assms(3) by (simp add: ipc_frame_def)
  qed
qed

end
