(* ===== verification/System_Inv.thy ===== *)
theory System_Inv
  imports Driver_Effects
begin

text \<open>
  The invariant of the whole kernel, and that every operation a running system performs returns
  and preserves it.  Each proof joins what the theory of the component shows of its own object
  with the effect the operation has on everything else (theory \<open>Op_Effects\<close>).
\<close>

section \<open>The invariant of the whole kernel\<close>

text \<open>
  \<open>V\<close> is the set of IPC objects that are set up.  Each satisfies the invariant of its kind; every
  thread in a waiting line is inside the call that waits there; and the arguments of the calls that
  are under way are valid.
\<close>

definition obj_inv :: "objref \<Rightarrow> kernel \<Rightarrow> bool" where
  "obj_inv r k \<longleftrightarrow>
     (case r of
        Obj_Sem x \<Rightarrow> is_sem x k \<and> sem_ok x k
      | Obj_Mutex x \<Rightarrow> is_mutex x k \<and> mutex_ok x k
      | Obj_Event x \<Rightarrow> is_event x k \<and> event_ok x k
      | Obj_Mb x \<Rightarrow> is_mb x k
      | Obj_Mq x \<Rightarrow> is_mq x k
      | Obj_Mp x \<Rightarrow> mp_inv x (pools k x)
      | Obj_Completion x \<Rightarrow> comp_ok x k
      | Obj_Dq x \<Rightarrow> dq_inv (dqu k x) \<and> evt_notify (dqu k x) = None
      | _ \<Rightarrow> True)"

fun call_ok :: "objref set \<Rightarrow> kernel \<Rightarrow> saved_call \<Rightarrow> bool" where
  "call_ok V k (In_sem_take x) \<longleftrightarrow> Obj_Sem x \<in> V"
| "call_ok V k (In_mutex_take x) \<longleftrightarrow> Obj_Mutex x \<in> V"
| "call_ok V k (In_event_recv x) \<longleftrightarrow> Obj_Event x \<in> V"
| "call_ok V k (In_mb_send x v timeout s) \<longleftrightarrow> Obj_Mb x \<in> V \<and> timeout_ok timeout"
| "call_ok V k (In_mb_recv x timeout s) \<longleftrightarrow> Obj_Mb x \<in> V \<and> timeout_ok timeout"
| "call_ok V k (In_mq_send x b n timeout s) \<longleftrightarrow> Obj_Mq x \<in> V \<and> timeout_ok timeout \<and>
     unat n \<le> length b \<and> unat n \<le> unat (msg_size (queues k x))"
| "call_ok V k (In_mq_recv x b n timeout s) \<longleftrightarrow> Obj_Mq x \<in> V \<and> timeout_ok timeout \<and>
     min (unat n) (unat (msg_size (queues k x))) \<le> length b"
| "call_ok V k (In_mp_alloc x timeout s) \<longleftrightarrow> Obj_Mp x \<in> V \<and> timeout_ok timeout"
| "call_ok V k (In_completion_wait c) \<longleftrightarrow> Obj_Completion c \<in> V"
| "call_ok V k (In_dq_push q p n timeout) \<longleftrightarrow> Obj_Dq q \<in> V \<and> timeout_ok timeout"
| "call_ok V k (In_dq_pop q timeout) \<longleftrightarrow> Obj_Dq q \<in> V \<and> timeout_ok timeout"
| "call_ok V k (In_work_thread w) \<longleftrightarrow> False"
| "call_ok V k In_sleep \<longleftrightarrow> True"
| "call_ok V k No_call \<longleftrightarrow> True"

definition sys_inv :: "objref set \<Rightarrow> kernel \<Rightarrow> bool" where
  "sys_inv V k \<longleftrightarrow>
     sinv k \<and> current k \<noteq> None \<and> (\<forall>r\<in>V. obj_inv r k) \<and>
     (\<forall>h t. wait_head h \<longrightarrow> t \<in> set (lists k h) \<longrightarrow> call_head (saved k t) = Some h) \<and>
     (\<forall>t. call_ok V k (saved k t)) \<and>
     (\<forall>r\<in>set (timer_list k). \<exists>t. r = Thread_timer t)"

lemma effect_is:
  assumes "effect R c k k'"
  shows "is_sem x k' = is_sem x k" "is_mutex x k' = is_mutex x k" "is_event x k' = is_event x k"
    "mb_inv (mailboxes k' x) \<Longrightarrow> is_mb x k \<Longrightarrow> is_mb x k'" "mq_inv (queues k' x) \<Longrightarrow> is_mq x k \<Longrightarrow> is_mq x k'"
proof -
  have "objs k' r = objs k r" if "\<forall>u. r \<noteq> Obj_Timer u" for r using assms that unfolding effect_def by simp
  then show "is_sem x k' = is_sem x k" "is_mutex x k' = is_mutex x k" "is_event x k' = is_event x k"
    "mb_inv (mailboxes k' x) \<Longrightarrow> is_mb x k \<Longrightarrow> is_mb x k'" "mq_inv (queues k' x) \<Longrightarrow> is_mq x k \<Longrightarrow> is_mq x k'"
    by (simp_all add: is_sem_def is_mutex_def is_event_def is_mb_def is_mq_def rt_object_get_type_def)
qed

lemma effect_line:
  assumes "effect R c k k'" "r \<notin> R" "t \<in> set (lists k' (Suspended_on r))"
  shows "t \<in> set (lists k (Suspended_on r)) \<and> same_wait k k' t"
proof -
  have "wait_head (Suspended_on r)" by simp
  then have "t \<in> set (lists k (Suspended_on r)) \<and> same_wait k k' t \<or>
      (\<exists>q\<in>R. head_obj (Suspended_on r) = Some q) \<and> saved k' t = c \<and> call_head c = Some (Suspended_on r)"
    using assms(1,3) unfolding effect_def by blast
  then show ?thesis using assms(2) by auto
qed

lemma effect_empty_line:
  assumes "effect R c k k'" "r \<notin> R" "lists k (Suspended_on r) = []"
  shows "lists k' (Suspended_on r) = []"
  using effect_line [OF assms(1,2)] assms(3) by (cases "lists k' (Suspended_on r)") auto

text \<open>What is outside the effect keeps its invariant.\<close>

lemma effect_obj_inv:
  assumes "effect R c k k'" "r \<notin> R" "obj_inv r k" "sinv k'"
  shows "obj_inv r k'"
proof -
  have d: "same_data r k k'" using assms(1,2) unfolding effect_def by simp
  note ei = effect_is [OF assms(1)]
  show ?thesis
  proof (cases r)
    case (Obj_Sem x)
    then show ?thesis using assms(2,3) d ei(1) effect_empty_line [OF assms(1,2)]
      by (auto simp: obj_inv_def same_data_def sem_ok_def)
  next
    case (Obj_Mutex x)
    have "started k u \<longrightarrow> started k' u" for u using assms(1) unfolding effect_def by simp
    moreover have "t \<in> set (lists k' (Suspended_on r)) \<Longrightarrow> t \<in> set (lists k (Suspended_on r))" for t
      using effect_line [OF assms(1,2)] by simp
    ultimately show ?thesis using Obj_Mutex assms(3) d ei(2) effect_empty_line [OF assms(1,2)]
      by (auto simp: obj_inv_def same_data_def mutex_ok_def split: option.splits)
  next
    case (Obj_Event x)
    then show ?thesis using assms(3) d ei(3) effect_line [OF assms(1,2)]
      by (auto simp: obj_inv_def same_data_def event_ok_def same_wait_def)
  next
    case (Obj_Mb x)
    then show ?thesis using assms(3) d ei(4) by (simp add: obj_inv_def same_data_def is_mb_def)
  next
    case (Obj_Mq x)
    then show ?thesis using assms(3) d ei(5) by (simp add: obj_inv_def same_data_def is_mq_def)
  next
    case (Obj_Mp x)
    then show ?thesis using assms(3) d by (simp add: obj_inv_def same_data_def)
  next
    case (Obj_Dq x)
    then show ?thesis using assms(3) d by (simp add: obj_inv_def same_data_def)
  next
    case (Obj_Completion x)
    let ?h = "Suspended_on (Obj_Completion x)"
    have sub: "set (lists k' ?h) \<subseteq> set (lists k ?h)" using effect_line [OF assms(1,2)] Obj_Completion by blast
    have o: "length (lists k ?h) \<le> 1" using assms(3) Obj_Completion by (simp add: obj_inv_def comp_ok_def)
    have "distinct (lists k' ?h)" using assms(4) by (simp add: sinv_def kinv_except_def linked_ok_def)
    then have "length (lists k' ?h) = card (set (lists k' ?h))" by (simp add: distinct_card)
    also have "\<dots> \<le> card (set (lists k ?h))" using sub by (intro card_mono) simp_all
    also have "\<dots> \<le> 1" using o card_length [of "lists k ?h"] by linarith
    finally have "length (lists k' ?h) \<le> 1" .
    then show ?thesis using Obj_Completion assms(3) d effect_empty_line [OF assms(1,2)]
      by (auto simp: obj_inv_def same_data_def comp_ok_def)
  qed (simp_all add: obj_inv_def)
qed

lemma call_ok_cong:
  assumes "\<And>q. Obj_Mq q \<in> V \<Longrightarrow> msg_size (queues k' q) = msg_size (queues k q)"
  shows "call_ok V k' c = call_ok V k c"
  using assms by (cases c) auto

text \<open>A step with an effect on one object preserves the invariant of the kernel.\<close>

lemma sys_inv_step:
  assumes "sys_inv V k" "effect R c k k'" "sinv k'" "\<And>r. r \<in> R \<Longrightarrow> r \<in> V \<Longrightarrow> obj_inv r k'" "call_ok V k c"
    and "\<And>q. Obj_Mq q \<in> R \<Longrightarrow> msg_size (queues k' q) = msg_size (queues k q)"
  shows "sys_inv V k'"
proof -
  have ms: "msg_size (queues k' q) = msg_size (queues k q)" for q
  proof (cases "Obj_Mq q \<in> R")
    case False
    then have "same_data (Obj_Mq q) k k'" using assms(2) unfolding effect_def by simp
    then show ?thesis by (simp add: same_data_def)
  qed (rule assms(6))
  have "obj_inv r k'" if "r \<in> V" for r
    using that assms(1,3,4) effect_obj_inv [OF assms(2)] by (cases "r \<in> R") (auto simp: sys_inv_def)
  moreover have "call_head (saved k' t) = Some h" if h: "wait_head h" "t \<in> set (lists k' h)" for h t
  proof -
    have "t \<in> set (lists k h) \<and> same_wait k k' t \<or> saved k' t = c \<and> call_head c = Some h"
      using assms(2) h unfolding effect_def by blast
    then show ?thesis using assms(1) h(1) by (auto simp: sys_inv_def same_wait_def)
  qed
  moreover have "call_ok V k' (saved k' t)" for t
  proof -
    have "saved k' t = saved k t \<or> saved k' t = c" using assms(2) unfolding effect_def by simp
    then have "call_ok V k (saved k' t)" using assms(1,5) by (auto simp: sys_inv_def)
    then show ?thesis using call_ok_cong [of V k' k] ms by blast
  qed
  moreover have "\<forall>r\<in>set (timer_list k'). \<exists>t. r = Thread_timer t"
    using assms(1,2) unfolding effect_def timers_kept_def sys_inv_def by blast
  moreover have "current k' \<noteq> None" using assms(1,2) unfolding effect_def sys_inv_def by simp
  ultimately show ?thesis using assms(3) unfolding sys_inv_def by blast
qed

section \<open>Every call succeeds and keeps the invariant\<close>

lemma sys_invD:
  assumes "sys_inv V k"
  shows "sinv k" "current k \<noteq> None" "r \<in> V \<Longrightarrow> obj_inv r k" "call_ok V k (saved k t)"
    "wait_head h \<Longrightarrow> t \<in> set (lists k h) \<Longrightarrow> call_head (saved k t) = Some h"
    "\<forall>r\<in>set (timer_list k). \<exists>t. r = Thread_timer t"
  using assms unfolding sys_inv_def by blast+

lemma objD:
  assumes "sys_inv V k"
  shows "Obj_Sem x \<in> V \<Longrightarrow> is_sem x k \<and> sem_ok x k" "Obj_Mutex x \<in> V \<Longrightarrow> is_mutex x k \<and> mutex_ok x k"
    "Obj_Event x \<in> V \<Longrightarrow> is_event x k \<and> event_ok x k" "Obj_Mb x \<in> V \<Longrightarrow> is_mb x k" "Obj_Mq x \<in> V \<Longrightarrow> is_mq x k"
    "Obj_Mp x \<in> V \<Longrightarrow> mp_inv x (pools k x)" "Obj_Completion x \<in> V \<Longrightarrow> comp_ok x k"
    "Obj_Dq x \<in> V \<Longrightarrow> dq_inv (dqu k x) \<and> evt_notify (dqu k x) = None"
  using sys_invD(3) [OF assms] by (force simp: obj_inv_def)+

lemma sem_take_sys:
  assumes "sys_inv V k" "Obj_Sem x \<in> V" "caller t k" "timeout_ok timeout"
  shows "\<exists>oc k'. rt_sem_take x timeout k = Some (oc, k') \<and> sys_inv V k'"
proof -
  note s = sys_invD(1) [OF assms(1)] and o = objD(1) [OF assms(1,2)]
  obtain oc k' where r: "rt_sem_take x timeout k = Some (oc, k')" "sinv k'"
    "(oc, sem_abs x k') = sem_P (wait_pos (obj_flag (objs k (Obj_Sem x))) t (Suspended_on (Obj_Sem x)) k) t
                            (timeout \<noteq> 0) (sem_abs x k)"
    using sem_take_refines [OF s _ assms(3), of x timeout] o assms(4) by blast
  have e: "effect {Obj_Sem x} (In_sem_take x) k k'"
    using sem_take_effect [OF s _ assms(3,4) r(1)] o by blast
  have "sem_ok x k'"
    using sem_P_ok [of oc "fst (sem_abs x k')" "snd (sem_abs x k')"] r(3) o unfolding sem_ok_abs by (metis prod.collapse)
  then have "obj_inv (Obj_Sem x) k'" using effect_is(1) [OF e] o by (simp add: obj_inv_def)
  then show ?thesis using r(1) sys_inv_step [OF assms(1) e r(2)] assms(2) by auto
qed

lemma sem_release_sys:
  assumes "sys_inv V k" "Obj_Sem x \<in> V"
  shows "\<exists>e k'. rt_sem_release x k = Some (e, k') \<and> sys_inv V k'"
proof -
  note s = sys_invD(1,2) [OF assms(1)] and o = objD(1) [OF assms]
  obtain z k' w where r: "rt_sem_release x k = Some (z, k')" "sinv k'" "(z, w, sem_abs x k') = sem_V (sem_abs x k)"
    using sem_release_refines [OF s(1) _ s(2), of x] o by blast
  have e: "effect {Obj_Sem x} No_call k k'" by (rule sem_release_effect [OF s r(1)])
  have "sem_ok x k'"
    using sem_V_ok [of z w "fst (sem_abs x k')" "snd (sem_abs x k')"] r(3) o unfolding sem_ok_abs by (metis prod.collapse)
  then have "obj_inv (Obj_Sem x) k'" using effect_is(1) [OF e] o by (simp add: obj_inv_def)
  then show ?thesis using r(1) sys_inv_step [OF assms(1) e r(2)] by auto
qed

lemma mutex_take_sys:
  assumes "sys_inv V k" "Obj_Mutex m \<in> V" "caller t k" "timeout_ok timeout"
  shows "\<exists>oc k'. rt_mutex_take m timeout k = Some (oc, k') \<and> sys_inv V k'"
proof -
  note s = sys_invD(1) [OF assms(1)] and o = objD(2) [OF assms(1,2)]
  obtain oc k' where r: "rt_mutex_take m timeout k = Some (oc, k')" "sinv k'" "mutex_ok m k'"
    using mutex_take_refines [OF s _ assms(3), of m timeout] o assms(4) by blast
  have e: "effect {Obj_Mutex m} (In_mutex_take m) k k'"
    using mutex_take_effect [OF s _ assms(3) _ assms(4) r(1)] o by blast
  then have "obj_inv (Obj_Mutex m) k'" using effect_is(2) [OF e] o r(3) by (simp add: obj_inv_def)
  then show ?thesis using r(1) sys_inv_step [OF assms(1) e r(2)] assms(2) by auto
qed

lemma mutex_release_sys:
  assumes "sys_inv V k" "Obj_Mutex m \<in> V" "caller t k"
  shows "\<exists>z k'. rt_mutex_release m k = Some (z, k') \<and> sys_inv V k'"
proof -
  note s = sys_invD(1) [OF assms(1)] and o = objD(2) [OF assms(1,2)]
  have c: "current k = Some t" "in_thread_context k" using assms(3) by (simp_all add: caller_def scheduler_available_def)
  obtain z k' where r: "rt_mutex_release m k = Some (z, k')" "sinv k'" "mutex_ok m k'"
    using mutex_release_refines [OF s _ c, of m] o by blast
  have e: "effect {Obj_Mutex m} No_call k k'" using mutex_release_effect [OF s c(1) _ r(1)] o by blast
  then have "obj_inv (Obj_Mutex m) k'" using effect_is(2) [OF e] o r(3) by (simp add: obj_inv_def)
  then show ?thesis using r(1) sys_inv_step [OF assms(1) e r(2)] by auto
qed

lemma event_recv_ok:
  assumes "sinv k" "is_event e k" "event_ok e k" "caller t k" "timeout_ok timeout" "want \<noteq> 0" "ev_option_ok opt"
  shows "\<exists>oc k'. rt_event_recv e want opt timeout k = Some (oc, k') \<and> sinv k' \<and> event_ok e k'"
proof -
  let ?h = "Suspended_on (Obj_Event e)"
  obtain oc k' where r: "rt_event_recv e want opt timeout k = Some (oc, k')" "sinv k'"
    "\<forall>u. u \<noteq> t \<longrightarrow> ev_interest k' u = ev_interest k u"
    "case ev_grant opt want (event_bits (events k e)) of
        Some got \<Rightarrow> oc = Returns RT_EOK (Some got) \<and> lists k' ?h = lists k ?h \<and>
          event_bits (events k' e) = ev_left opt got (event_bits (events k e))
      | None \<Rightarrow> event_bits (events k' e) = event_bits (events k e) \<and>
          (if timeout = 0 then oc = Returns (- RT_ETIMEOUT) None \<and> lists k' ?h = lists k ?h
           else oc = Waits \<and> tstat k' t = RT_THREAD_SUSPEND \<and> ev_interest k' t = (opt, want) \<and>
                thread_error (threads k' t) = RT_EOK \<and> saved k' t = In_event_recv e \<and>
                lists k' ?h = insert_at (wait_pos (obj_flag (objs k (Obj_Event e))) t ?h k) t (lists k ?h))"
    using event_recv_refines [OF assms(1,2,4,6,7), of timeout] assms(5) by blast
  have nt: "t \<notin> set (lists k ?h)"
    using running_not_waiting [OF assms(1), of t ?h] caller_simps(4) [OF assms(4)] by auto
  have "ev_option_ok (event_info (threads k' u)) \<and>
      ev_grant (event_info (threads k' u)) (event_set (threads k' u)) (event_bits (events k' e)) = None"
    if u: "u \<in> set (lists k' ?h)" for u
  proof (cases "u = t")
    case True
    then show ?thesis using u r(4) nt assms(7)
      by (auto split: option.splits if_splits simp: ev_interest_def)
  next
    case False
    then have "u \<in> set (lists k ?h)"
      using u r(4) by (auto split: option.splits if_splits simp: set_insert_at)
    moreover have "ev_interest k' u = ev_interest k u" using r(3) False by blast
    moreover have "event_bits (events k' e) AND event_bits (events k e) = event_bits (events k' e)"
      using r(4) ev_left_subset by (auto split: option.splits)
    ultimately show ?thesis using assms(3) ev_grant_mono unfolding ev_interest_def event_ok_def
      by (metis prod.inject)
  qed
  then show ?thesis using r(1,2) by (auto simp: event_ok_def)
qed

lemma event_recv_sys:
  assumes "sys_inv V k" "Obj_Event e \<in> V" "caller t k" "timeout_ok timeout" "want \<noteq> 0" "ev_option_ok opt"
  shows "\<exists>oc k'. rt_event_recv e want opt timeout k = Some (oc, k') \<and> sys_inv V k'"
proof -
  note s = sys_invD(1) [OF assms(1)] and o = objD(3) [OF assms(1,2)]
  obtain oc k' where r: "rt_event_recv e want opt timeout k = Some (oc, k')" "sinv k'" "event_ok e k'"
    using event_recv_ok [OF s _ _ assms(3-6)] o by blast
  have ef: "effect {Obj_Event e} (In_event_recv e) k k'"
    using event_recv_effect [OF s _ assms(3,4) r(1)] o by blast
  then have "obj_inv (Obj_Event e) k'" using effect_is(3) [OF ef] o r(3) by (simp add: obj_inv_def)
  then show ?thesis using r(1) sys_inv_step [OF assms(1) ef r(2)] assms(2) by auto
qed

lemma effect_waiter:
  assumes "effect R No_call k k'" "wait_head h" "t \<in> set (lists k' h)"
  shows "t \<in> set (lists k h)" "same_wait k k' t"
proof -
  have "t \<in> set (lists k h) \<and> same_wait k k' t \<or>
      (\<exists>q\<in>R. head_obj h = Some q) \<and> saved k' t = No_call \<and> call_head No_call = Some h"
    using assms unfolding effect_def by blast
  then show "t \<in> set (lists k h)" "same_wait k k' t" by auto
qed

lemma event_send_sys:
  assumes "sys_inv V k" "Obj_Event e \<in> V"
  shows "\<exists>z k'. rt_event_send e bits k = Some (z, k') \<and> sys_inv V k'"
proof (cases "bits = 0")
  case True
  then show ?thesis using objD(3) [OF assms] assms(1) by (simp add: rt_event_send_def is_event_def)
next
  case False
  note s = sys_invD(1,2) [OF assms(1)] and o = objD(3) [OF assms]
  let ?h = "Suspended_on (Obj_Event e)"
  obtain wk rest b where sc: "ev_scan (ev_interest k) (event_bits (events k e) OR bits) (lists k ?h) = (wk, rest, b)"
    by (cases "ev_scan (ev_interest k) (event_bits (events k e) OR bits) (lists k ?h)")
  have i: "interests_ok e k" using o by (simp add: interests_ok_def event_ok_def)
  obtain k' where r: "rt_event_send e bits k = Some (RT_EOK, k')" "sinv k'" "event_bits (events k' e) = b"
    "lists k' ?h = rest"
    using event_send_refines [OF s(1) _ s(2) False _ sc] o i unfolding interests_ok_def by blast
  have ef: "effect {Obj_Event e} No_call k k'" by (rule event_send_effect [OF s(1) i s(2) r(1)])
  have "ev_option_ok (event_info (threads k' t)) \<and>
      ev_grant (event_info (threads k' t)) (event_set (threads k' t)) (event_bits (events k' e)) = None"
    if t: "t \<in> set (lists k' ?h)" for t
  proof -
    have w: "wait_head ?h" by simp
    have "ev_grant (event_info (threads k t)) (event_set (threads k t)) b = None"
      using ev_scan_rest [OF sc] t r(4) by (simp add: ev_interest_def)
    then show ?thesis using effect_waiter [OF ef w t] o r(3) by (simp add: event_ok_def same_wait_def)
  qed
  then have "obj_inv (Obj_Event e) k'" using effect_is(3) [OF ef] o by (simp add: obj_inv_def event_ok_def)
  then show ?thesis using r(1) sys_inv_step [OF assms(1) ef r(2)] by auto
qed

lemma mb_pass_sys:
  assumes "sys_inv V k" "Obj_Mb m \<in> V" "timeout \<noteq> 0 \<longrightarrow> caller t k" "timeout_ok timeout"
  shows "length (mails k m) < mb_cap (mailboxes k m) \<or> timeout \<noteq> 0 \<Longrightarrow>
      \<exists>oc k'. mb_send_pass m val timeout k = Some (oc, k') \<and> sys_inv V k'"
    and "mails k m \<noteq> [] \<or> timeout \<noteq> 0 \<Longrightarrow> \<exists>oc k'. mb_recv_pass m timeout k = Some (oc, k') \<and> sys_inv V k'"
proof -
  note s = sys_invD(1,2) [OF assms(1)] and o = objD(4) [OF assms(1,2)]
  have to: "0 < sint timeout \<longrightarrow> timeout < RT_TICK_MAX_HALF" using assms(4) by simp
  have fin: "sys_inv V k'" if "effect {Obj_Mb m} c k k'" "sinv k'" "mb_inv (mailboxes k' m)" "call_ok V k c" for c k'
    using sys_inv_step [OF assms(1) that(1,2) _ that(4)] effect_is(4) [OF that(1,3) o] by (auto simp: obj_inv_def)
  show "\<exists>oc k'. mb_send_pass m val timeout k = Some (oc, k') \<and> sys_inv V k'"
    if g: "length (mails k m) < mb_cap (mailboxes k m) \<or> timeout \<noteq> 0"
  proof -
    obtain oc k' where r: "mb_send_pass m val timeout k = Some (oc, k')" "sinv k'" "mb_inv (mailboxes k' m)"
      using mb_send_pass_refines [OF s(1) o s(2) assms(3) to g, of val] by blast
    show ?thesis using r(1) fin [OF mb_send_effect [OF s(1) o s(2) assms(3,4) r(1)] r(2,3)] assms(2,4) by auto
  qed
  show "\<exists>oc k'. mb_recv_pass m timeout k = Some (oc, k') \<and> sys_inv V k'" if g: "mails k m \<noteq> [] \<or> timeout \<noteq> 0"
  proof -
    obtain oc k' where r: "mb_recv_pass m timeout k = Some (oc, k')" "sinv k'" "mb_inv (mailboxes k' m)"
      using mb_recv_pass_refines [OF s(1) o s(2) assms(3) to g] by blast
    show ?thesis using r(1) fin [OF mb_recv_effect [OF s(1) o s(2) assms(3,4) r(1)] r(2,3)] assms(2,4) by auto
  qed
qed

lemma error_sys:
  assumes "sys_inv V k"
  shows "sys_inv V (upd_thread t (\<lambda>th. th\<lparr>thread_error := e\<rparr>) k)"
proof -
  have "sinv (upd_thread t (\<lambda>th. th\<lparr>thread_error := e\<rparr>) k)" using sys_invD(1) [OF assms] by (simp only: set_error_sinv)
  then show ?thesis by (rule sys_inv_step [OF assms effect_error [of "{}" No_call]]) simp_all
qed

lemma finish_sys:
  assumes "sys_inv V k" "caller t k"
  shows "sys_inv V (finish_call t k)" "caller t (finish_call t k)"
proof -
  note f = finish_caller [OF sys_invD(1) [OF assms(1)] assms(2)]
  show "sys_inv V (finish_call t k)"
    by (rule sys_inv_step [OF assms(1) finish_effect [OF sys_invD(1) [OF assms(1)] assms(2), of "{}"] f(1)]) simp_all
  show "caller t (finish_call t k)" by (rule f(2))
qed

text \<open>The pass of a mailbox call for every timeout.\<close>

lemma mb_send_pass_sys:
  assumes "sys_inv V k" "Obj_Mb m \<in> V" "timeout_ok timeout" "caller t k"
  shows "\<exists>oc k'. mb_send_pass m val timeout k = Some (oc, k') \<and> sys_inv V k'"
proof (cases "length (mails k m) < mb_cap (mailboxes k m) \<or> timeout \<noteq> 0")
  case True
  show ?thesis by (rule mb_pass_sys(1) [OF assms(1,2) _ assms(3) True]) (use assms(4) in blast)
next
  case False
  have i: "mb_inv (mailboxes k m)" using objD(4) [OF assms(1,2)] by (simp add: is_mb_def)
  then have "mb_entry (mailboxes k m) = mb_size (mailboxes k m)"
    using False by (simp add: mb_cap_def mb_inv_def word_unat_eq_iff)
  then show ?thesis using False error_sys [OF assms(1)] caller_simps(1) [OF assms(4)]
    by (simp add: mb_send_pass_def)
qed

lemma mb_recv_pass_sys:
  assumes "sys_inv V k" "Obj_Mb m \<in> V" "timeout_ok timeout" "caller t k"
  shows "\<exists>oc k'. mb_recv_pass m timeout k = Some (oc, k') \<and> sys_inv V k'"
proof (cases "mails k m \<noteq> [] \<or> timeout \<noteq> 0")
  case True
  show ?thesis by (rule mb_pass_sys(2) [OF assms(1,2) _ assms(3) True]) (use assms(4) in blast)
next
  case False
  then show ?thesis using error_sys [OF assms(1)] caller_simps(1) [OF assms(4)]
    mb_empty_iff [of "mailboxes k m"]
    by (simp add: mb_recv_pass_def)
qed

lemma mb_send_sys:
  assumes "sys_inv V k" "Obj_Mb m \<in> V" "timeout_ok timeout" "timeout \<noteq> 0 \<longrightarrow> caller t k"
  shows "\<exists>oc k'. rt_mb_send_wait m val timeout k = Some (oc, k') \<and> sys_inv V k'"
proof (cases "mb_entry (mailboxes k m) = mb_size (mailboxes k m) \<and> timeout = 0")
  case True
  then show ?thesis using assms(1) objD(4) [OF assms(1,2)] by (simp add: rt_mb_send_wait_def is_mb_def)
next
  case False
  have i: "mb_inv (mailboxes k m)" using objD(4) [OF assms(1,2)] by (simp add: is_mb_def)
  then have "length (mails k m) < mb_cap (mailboxes k m) \<or> timeout \<noteq> 0"
    using False mb_full_iff [OF i] by (auto simp: mb_cap_def mb_inv_def word_unat_eq_iff)
  from mb_pass_sys(1) [OF assms(1,2,4,3) this, of val] show ?thesis
    using False assms(4) objD(4) [OF assms(1,2)] by (auto simp: rt_mb_send_wait_def is_mb_def caller_def)
qed

lemma mb_recv_sys:
  assumes "sys_inv V k" "Obj_Mb m \<in> V" "timeout_ok timeout" "timeout \<noteq> 0 \<longrightarrow> caller t k"
  shows "\<exists>oc k'. rt_mb_recv m timeout k = Some (oc, k') \<and> sys_inv V k'"
proof (cases "mb_entry (mailboxes k m) = 0 \<and> timeout = 0")
  case True
  then show ?thesis using assms(1) objD(4) [OF assms(1,2)] by (simp add: rt_mb_recv_def is_mb_def)
next
  case False
  then have "mails k m \<noteq> [] \<or> timeout \<noteq> 0" using mb_empty_iff by blast
  from mb_pass_sys(2) [OF assms(1,2,4,3) this] show ?thesis
    using False assms(4) objD(4) [OF assms(1,2)] by (auto simp: rt_mb_recv_def is_mb_def caller_def)
qed

lemma mb_urgent_sys:
  assumes "sys_inv V k" "Obj_Mb m \<in> V"
  shows "\<exists>z k'. rt_mb_urgent m val k = Some (z, k') \<and> sys_inv V k'"
proof (cases "mb_entry (mailboxes k m) = mb_size (mailboxes k m)")
  case True
  then show ?thesis using assms(1) objD(4) [OF assms] by (simp add: rt_mb_urgent_def is_mb_def)
next
  case False
  note s = sys_invD(1,2) [OF assms(1)] and o = objD(4) [OF assms]
  have i: "mb_inv (mailboxes k m)" using o by (simp add: is_mb_def)
  let ?h = "Suspended_on (Obj_Mb m)"
  obtain mb' where mb: "mb_put_front val (mailboxes k m) = Some mb'" "mb_inv mb'"
    using mb_put_front_correct [OF i False] by blast
  let ?k1 = "upd_mb m (\<lambda>_. mb') k"
  have s1: "sinv ?k1" using s(1) sinv_cong [of ?k1 k] by simp
  obtain k' where k': "ipc_wake_first ?h ?k1 = Some k'" "sinv k'" "woken ?h ?k1 k'"
    using ipc_wake_first_ok [OF s1, of ?h] s(2) by auto
  have e: "effect {Obj_Mb m} No_call k k'" by (rule upd_mb_effect [OF s _ k'(1)]) simp
  have "mailboxes k' m = mb'" using k'(3) by (simp add: woken_def ipc_frame_def split: list.splits)
  then have "obj_inv (Obj_Mb m) k'" using effect_is(4) [OF e _ o] mb(2) by (simp add: obj_inv_def)
  then have "sys_inv V k'" using sys_inv_step [OF assms(1) e k'(2)] by auto
  then show ?thesis using k'(1) mb(1) False o by (simp add: rt_mb_urgent_def is_mb_def)
qed

section \<open>Message queues and memory pools\<close>

lemma mq_recv_msg_size:
  assumes "sinv k" "current k \<noteq> None" "mq_entry (queues k q) \<noteq> 0" "mq_recv_pass q b sz timeout k = Some (oc, k')"
  shows "msg_size (queues k' q) = msg_size (queues k q)"
proof -
  obtain buf mq where g: "mq_get b sz (queues k q) = Some (buf, mq)"
      "ipc_wake_first (Senders_of (Obj_Mq q)) (upd_mq q (\<lambda>_. mq) k) = Some k'"
    using assms(3,4) by (auto simp: mq_recv_pass_def bind_eq_Some_conv)
  let ?k1 = "upd_mq q (\<lambda>_. mq) k"
  have "sinv ?k1" using assms(1) sinv_cong [of ?k1 k] by simp
  then have "woken (Senders_of (Obj_Mq q)) ?k1 k'"
    using ipc_wake_first_ok [of ?k1 "Senders_of (Obj_Mq q)"] g(2) assms(2) by auto
  then have "queues k' q = mq" by (simp add: woken_def ipc_frame_def split: list.splits)
  moreover have "msg_size mq = msg_size (queues k q)"
    using g(1) by (auto simp: mq_get_def Let_def bind_eq_Some_conv)
  ultimately show ?thesis by simp
qed

lemma mq_pass_sys:
  assumes "sys_inv V k" "Obj_Mq q \<in> V" "timeout \<noteq> 0 \<longrightarrow> caller t k" "timeout_ok timeout"
  shows "unat sz \<le> length b \<Longrightarrow> unat sz \<le> unat (msg_size (queues k q)) \<Longrightarrow>
      length (msgs k q) < mq_cap (queues k q) \<or> timeout \<noteq> 0 \<Longrightarrow>
      \<exists>oc k'. mq_send_pass q b sz timeout k = Some (oc, k') \<and> sys_inv V k'"
    and "min (unat sz) (unat (msg_size (queues k q))) \<le> length b \<Longrightarrow> msgs k q \<noteq> [] \<or> timeout \<noteq> 0 \<Longrightarrow>
      \<exists>oc k'. mq_recv_pass q b sz timeout k = Some (oc, k') \<and> sys_inv V k'"
proof -
  note s = sys_invD(1,2) [OF assms(1)] and o = objD(5) [OF assms(1,2)]
  have to: "0 < sint timeout \<longrightarrow> timeout < RT_TICK_MAX_HALF" using assms(4) by simp
  have fin: "sys_inv V k'"
    if "effect {Obj_Mq q} c k k'" "sinv k'" "is_mq q k'" "msg_size (queues k' q) = msg_size (queues k q)"
       "call_ok V k c" for c k'
    using sys_inv_step [OF assms(1) that(1,2) _ that(5)] that(3,4) by (auto simp: obj_inv_def)
  show "\<exists>oc k'. mq_send_pass q b sz timeout k = Some (oc, k') \<and> sys_inv V k'"
    if b: "unat sz \<le> length b" "unat sz \<le> unat (msg_size (queues k q))"
      and g: "length (msgs k q) < mq_cap (queues k q) \<or> timeout \<noteq> 0"
  proof -
    obtain oc k' where r: "mq_send_pass q b sz timeout k = Some (oc, k')" "sinv k'" "is_mq q k'"
      "msg_size (queues k' q) = msg_size (queues k q)"
      using mq_send_pass_refines [OF s(1) o s(2) assms(3) to b g] by blast
    show ?thesis using r(1) fin [OF mq_send_effect [OF s(1) o s(2) assms(3,4) r(1)] r(2-4)] assms(2,4) b by auto
  qed
  show "\<exists>oc k'. mq_recv_pass q b sz timeout k = Some (oc, k') \<and> sys_inv V k'"
    if b: "min (unat sz) (unat (msg_size (queues k q))) \<le> length b" and g: "msgs k q \<noteq> [] \<or> timeout \<noteq> 0"
  proof -
    obtain oc k' where r: "mq_recv_pass q b sz timeout k = Some (oc, k')" "sinv k'" "is_mq q k'"
      "msgs k q = [] \<longrightarrow> queues k' = queues k"
      using mq_recv_pass_refines [OF s(1) o s(2) assms(3) to b g] by (cases "msgs k q") auto
    have "mq_inv (queues k q)" using o by (simp add: is_mq_def)
    then have m: "msg_size (queues k' q) = msg_size (queues k q)"
      using mq_recv_msg_size [OF s _ r(1)] r(4) mq_empty_iff by metis
    show ?thesis using r(1) fin [OF mq_recv_effect [OF s(1) o s(2) assms(3,4) r(1)] r(2,3) m] assms(2,4) b by auto
  qed
qed

lemma mq_send_pass_sys:
  assumes "sys_inv V k" "Obj_Mq q \<in> V" "timeout_ok timeout" "caller t k"
    and "unat sz \<le> length b" "unat sz \<le> unat (msg_size (queues k q))"
  shows "\<exists>oc k'. mq_send_pass q b sz timeout k = Some (oc, k') \<and> sys_inv V k'"
proof (cases "length (msgs k q) < mq_cap (queues k q) \<or> timeout \<noteq> 0")
  case True
  show ?thesis by (rule mq_pass_sys(1) [OF assms(1,2) _ assms(3,5,6) True]) (use assms(4) in blast)
next
  case False
  have i: "mq_inv (queues k q)" using objD(5) [OF assms(1,2)] by (simp add: is_mq_def)
  have "length (msgs k q) \<le> mq_cap (queues k q)"
    using i mq_wf_length by (fastforce simp: mq_inv_def mq_cap_def mq_list_def)
  then have "mq_free (queues k q) = None" using False mq_full_iff [OF i] by simp
  then show ?thesis using False error_sys [OF assms(1)] caller_simps(1) [OF assms(4)]
    by (simp add: mq_send_pass_def)
qed

lemma mq_recv_pass_sys:
  assumes "sys_inv V k" "Obj_Mq q \<in> V" "timeout_ok timeout" "caller t k"
    and "min (unat sz) (unat (msg_size (queues k q))) \<le> length b"
  shows "\<exists>oc k'. mq_recv_pass q b sz timeout k = Some (oc, k') \<and> sys_inv V k'"
proof (cases "msgs k q \<noteq> [] \<or> timeout \<noteq> 0")
  case True
  show ?thesis by (rule mq_pass_sys(2) [OF assms(1,2) _ assms(3,5) True]) (use assms(4) in blast)
next
  case False
  have i: "mq_inv (queues k q)" using objD(5) [OF assms(1,2)] by (simp add: is_mq_def)
  then show ?thesis using False error_sys [OF assms(1)] caller_simps(1) [OF assms(4)] mq_empty_iff [OF i]
    by (simp add: mq_recv_pass_def)
qed

lemma mq_send_sys:
  assumes "sys_inv V k" "Obj_Mq q \<in> V" "timeout_ok timeout" "timeout \<noteq> 0 \<longrightarrow> caller t k"
    and "sz \<noteq> 0" "unat sz \<le> length b"
  shows "\<exists>oc k'. rt_mq_send_wait q b sz timeout k = Some (oc, k') \<and> sys_inv V k'"
proof -
  have o: "is_mq q k" by (rule objD(5) [OF assms(1,2)])
  then have i: "mq_inv (queues k q)" by (simp add: is_mq_def)
  have sc: "timeout \<noteq> 0 \<longrightarrow> scheduler_available k" using assms(4) by (simp add: caller_def)
  consider (big) "ucast (msg_size (queues k q)) < sz"
    | (full) "\<not> ucast (msg_size (queues k q)) < sz" "mq_free (queues k q) = None \<and> timeout = 0"
    | (pass) "\<not> ucast (msg_size (queues k q)) < sz" "\<not> (mq_free (queues k q) = None \<and> timeout = 0)" by blast
  then show ?thesis
  proof cases
    case big
    then show ?thesis using assms(1,5) sc o by (simp add: rt_mq_send_wait_def is_mq_def)
  next
    case full
    then show ?thesis using assms(1,5) sc o by (simp add: rt_mq_send_wait_def is_mq_def)
  next
    case pass
    have z: "unat sz \<le> unat (msg_size (queues k q))" using pass(1) by (simp add: word_less_nat_alt)
    have "length (msgs k q) \<le> mq_cap (queues k q)"
      using i mq_wf_length by (fastforce simp: mq_inv_def mq_cap_def mq_list_def)
    then have "length (msgs k q) < mq_cap (queues k q) \<or> timeout \<noteq> 0" using pass(2) mq_full_iff [OF i] by linarith
    from mq_pass_sys(1) [OF assms(1,2,4,3,6) z this] show ?thesis
      using pass assms(5) sc o by (auto simp: rt_mq_send_wait_def is_mq_def)
  qed
qed

lemma mq_recv_sys:
  assumes "sys_inv V k" "Obj_Mq q \<in> V" "timeout_ok timeout" "timeout \<noteq> 0 \<longrightarrow> caller t k"
    and "sz \<noteq> 0" "min (unat sz) (unat (msg_size (queues k q))) \<le> length b"
  shows "\<exists>oc k'. rt_mq_recv q b sz timeout k = Some (oc, k') \<and> sys_inv V k'"
proof -
  have o: "is_mq q k" by (rule objD(5) [OF assms(1,2)])
  then have i: "mq_inv (queues k q)" by (simp add: is_mq_def)
  have sc: "timeout \<noteq> 0 \<longrightarrow> scheduler_available k" using assms(4) by (simp add: caller_def)
  show ?thesis
  proof (cases "mq_entry (queues k q) = 0 \<and> timeout = 0")
    case True
    then show ?thesis using assms(1,5) o by (simp add: rt_mq_recv_def is_mq_def)
  next
    case False
    then have "msgs k q \<noteq> [] \<or> timeout \<noteq> 0" using mq_empty_iff [OF i] by blast
    from mq_pass_sys(2) [OF assms(1,2,4,3,6) this] show ?thesis
      using False assms(5) sc o by (auto simp: rt_mq_recv_def is_mq_def)
  qed
qed


lemma mq_urgent_sys:
  assumes "sys_inv V k" "Obj_Mq q \<in> V" "sz \<noteq> 0" "unat sz \<le> length b"
  shows "\<exists>z k'. rt_mq_urgent q b sz k = Some (z, k') \<and> sys_inv V k'"
proof -
  note s = sys_invD(1,2) [OF assms(1)] and o = objD(5) [OF assms(1,2)]
  let ?h = "Suspended_on (Obj_Mq q)"
  show ?thesis
  proof (cases "ucast (msg_size (queues k q)) < sz \<or> mq_free (queues k q) = None")
    case True
    then show ?thesis using assms(1,3) o by (auto simp: rt_mq_urgent_def is_mq_def)
  next
    case False
    then obtain msg where f: "mq_free (queues k q) = Some msg" by auto
    have z: "unat sz \<le> unat (msg_size (queues k q))" using False by (simp add: word_less_nat_alt)
    have w: "mq_wf (queues k q) (mq_blocks (queues k q)) (mq_frees (queues k q))" using o by (simp add: is_mq_def mq_inv_def)
    then obtain fs where fs: "mq_frees (queues k q) = msg # fs"
      using f by (cases "mq_frees (queues k q)") (auto simp: mq_wf_def)
    obtain mq' where mq: "mq_put_front msg b sz (queues k q) = Some (True, mq')" "mq_inv mq'"
      "msg_size mq' = msg_size (queues k q)"
      using mq_put_front_wf [OF w [unfolded fs] assms(4) z] mq_wf_unique(3) by blast
    let ?k1 = "upd_mq q (\<lambda>_. mq') k"
    have s1: "sinv ?k1" using s(1) sinv_cong [of ?k1 k] by simp
    obtain k' where k': "ipc_wake_first ?h ?k1 = Some k'" "sinv k'" "woken ?h ?k1 k'"
      using ipc_wake_first_ok [OF s1, of ?h] s(2) by auto
    have e: "effect {Obj_Mq q} No_call k k'" by (rule upd_mq_effect [OF s _ k'(1)]) simp
    have q: "queues k' q = mq'" using k'(3) by (simp add: woken_def ipc_frame_def split: list.splits)
    then have "obj_inv (Obj_Mq q) k'" using effect_is(5) [OF e _ o] mq(2) by (simp add: obj_inv_def)
    then have "sys_inv V k'" using sys_inv_step [OF assms(1) e k'(2)] q mq(3) by auto
    then show ?thesis using k'(1) mq(1) f False assms(3) o by (auto simp: rt_mq_urgent_def is_mq_def)
  qed
qed

lemma errno_sys:
  assumes "sys_inv V k"
  shows "sys_inv V (rt_set_errno e k)"
  using assms error_sys [OF assms] by (simp add: rt_set_errno_def split: option.split)

lemma mp_alloc_sys:
  assumes "sys_inv V k" "Obj_Mp p \<in> V" "timeout_ok time" "time \<noteq> 0 \<longrightarrow> caller t k"
  shows "\<exists>oc k'. mp_alloc_pass p time k = Some (oc, k') \<and> sys_inv V k'"
proof -
  note s = sys_invD(1,2) [OF assms(1)] and o = objD(6) [OF assms(1,2)]
  have fin: "sys_inv V k'" if "mp_alloc_pass p time k = Some (oc, k')" "sinv k'" "mp_inv p (pools k' p)" for oc k'
    using sys_inv_step [OF assms(1) mp_alloc_effect [OF s assms(4,3) that(1)] that(2)] that(3) assms(2,3)
    by (auto simp: obj_inv_def)
  show ?thesis
  proof (cases "mp_frees (pools k p)")
    case (Cons b bs)
    obtain mp where mp: "mp_alloc_block p (pools k p) = Some (Some b, mp)" "mp_inv p mp"
      using mpp.take_some [OF o Cons] by blast
    have ne: "block_free_count (pools k p) \<noteq> 0" using mp_count_0 [OF o] Cons by simp
    then have "mp_take p (pools k p) = Some (b, mp)" using mp(1) by (auto simp: mp_alloc_block_def)
    then have "mp_alloc_pass p time k = Some (Returns RT_EOK (Some b), upd_mp p (\<lambda>_. mp) k)"
      using ne by (simp add: mp_alloc_pass_def)
    moreover have "sinv (upd_mp p (\<lambda>_. mp) k)" using s(1) sinv_cong [of "upd_mp p (\<lambda>_. mp) k" k] by simp
    ultimately show ?thesis using fin mp(2) by fastforce
  next
    case Nil
    then have z: "block_free_count (pools k p) = 0" using mp_count_0 [OF o] by simp
    show ?thesis
    proof (cases "time = 0")
      case True
      then show ?thesis using z errno_sys [OF assms(1)] by (simp add: mp_alloc_pass_def)
    next
      case False
      obtain k' where "rt_mp_alloc p time k = Some (Waits, k')" "sinv k'" "pools k' = pools k"
        using mp_alloc_wait [OF s(1) _ z False assms(3)] assms(4) False by blast
      then show ?thesis using fin [of Waits k'] o by (simp add: rt_mp_alloc_def)
    qed
  qed
qed

lemma mp_free_sys:
  assumes "sys_inv V k" "Obj_Mp p \<in> V" "b \<in> mp_used (pools k p)"
  shows "\<exists>k'. rt_mp_free p b k = Some k' \<and> sys_inv V k'"
proof -
  note s = sys_invD(1,2) [OF assms(1)] and o = objD(6) [OF assms(1,2)]
  obtain k' where k': "rt_mp_free p b k = Some k'" "sinv k'" "mp_inv p (pools k' p)"
    using mp_free_ok [OF s o assms(3)] by blast
  have e: "effect {Obj_Mp p} No_call k k'" by (rule mp_free_effect [OF s k'(1)])
  have "obj_inv (Obj_Mp p) k'" using k'(3) by (simp add: obj_inv_def)
  then show ?thesis using k'(1) sys_inv_step [OF assms(1) e k'(2)] by auto
qed

lemma yield_sys:
  assumes "sys_inv V k"
  shows "\<exists>z k'. rt_thread_yield k = Some (z, k') \<and> sys_inv V k'"
proof -
  note s = sys_invD(1,2) [OF assms]
  obtain k' where k': "rt_thread_yield k = Some (RT_EOK, k')" "sinv k'" using yield_ok [OF s(1)] s(2) by blast
  show ?thesis using k'(1) sys_inv_step [OF assms yield_effect [OF s(1) k'(1), of "{}" No_call] k'(2)] by auto
qed

lemma sleep_sys:
  assumes "sys_inv V k" "caller t k" "x < RT_TICK_MAX_HALF"
  shows "\<exists>k'. rt_thread_sleep x k = Some k' \<and> sys_inv V k'"
proof -
  note s = sys_invD(1) [OF assms(1)] and c = caller_simps [OF assms(2)]
  let ?k = "upd_thread t (\<lambda>th. th\<lparr>thread_error := RT_EOK\<rparr>) k"
  have "sinv ?k" "current ?k = Some t" "tstat ?k t = RT_THREAD_RUNNING" using s c by simp_all
  from sleep_for_ok [OF this assms(3)] obtain k' where k': "thread_sleep_for t x ?k = Some k'" "sinv k'" by blast
  have "started k t" using c(4) by (simp add: started_def runnable_def)
  then have r: "rt_thread_sleep x k = Some k'"
    using kinv_startedD(4) [OF s] c(1) k'(1) by (simp add: rt_thread_sleep_def rt_object_get_type_def)
  show ?thesis using r sys_inv_step [OF assms(1) sleep_effect [OF s assms(2,3) r, of "{}"] k'(2)] by auto
qed

text \<open>Completions and data queues.\<close>

lemma completion_wait_sys:
  assumes "sys_inv V k" "Obj_Completion c \<in> V" "timeout_ok timeout" "timeout \<noteq> 0 \<longrightarrow> caller t k"
    and "lists k (Suspended_on (Obj_Completion c)) = []"
  shows "\<exists>oc k'. rt_completion_wait c timeout k = Some (oc, k') \<and> sys_inv V k'"
proof -
  note s = sys_invD(1) [OF assms(1)] and o = objD(7) [OF assms(1,2)]
  have to: "0 < sint timeout \<longrightarrow> timeout < RT_TICK_MAX_HALF" using assms(3) by simp
  obtain oc k' where r: "rt_completion_wait c timeout k = Some (oc, k')" "sinv k'" "comp_ok c k'"
    using completion_wait_refines [OF s o assms(4) to] assms(5) by (auto simp: comp_abs_def)
  have "sys_inv V k'"
    using sys_inv_step [OF assms(1) completion_wait_effect [OF s assms(4,3) r(1)] r(2)] r(3) assms(2)
    by (auto simp: obj_inv_def)
  then show ?thesis using r(1) by blast
qed

lemma completion_done_sys:
  assumes "sys_inv V k" "Obj_Completion c \<in> V"
  shows "\<exists>k'. rt_completion_done c k = Some k' \<and> sys_inv V k'"
proof -
  note s = sys_invD(1,2) [OF assms(1)] and o = objD(7) [OF assms]
  obtain k' where r: "rt_completion_done c k = Some k'" "sinv k'" "comp_ok c k'"
    using completion_done_refines [OF s(1) o s(2)] by blast
  have "sys_inv V k'"
    using sys_inv_step [OF assms(1) completion_done_effect [OF s r(1), of No_call] r(2)] r(3) by (auto simp: obj_inv_def)
  then show ?thesis using r(1) by blast
qed

lemma completion_finish_sys:
  assumes "sys_inv V k" "Obj_Completion c \<in> V" "caller t k"
  shows "sys_inv V (snd (rt_completion_wait_finish t c k))"
proof -
  let ?k = "snd (rt_completion_wait_finish t c k)"
  note s = sys_invD(1) [OF assms(1)] and o = objD(7) [OF assms(1,2)]
  have "sinv (finish_call t k)" using finish_caller [OF s assms(3)] by simp
  then have "sinv ?k" by (simp add: rt_completion_wait_finish_def)
  moreover have "comp_ok c ?k" using o by (simp add: comp_ok_def rt_completion_wait_finish_def finish_call_def)
  ultimately show ?thesis
    using sys_inv_step [OF assms(1) completion_finish_effect [OF s assms(3), of c]] by (auto simp: obj_inv_def)
qed

abbreviation no_notify :: notify_fun where "no_notify \<equiv> \<lambda>_ _ _. Some"

lemma dq_push_pass_sys:
  assumes "sys_inv V k" "Obj_Dq q \<in> V" "timeout_ok timeout" "timeout \<noteq> 0 \<longrightarrow> caller t k"
  shows "\<exists>oc k'. dq_push_pass no_notify q p n timeout k = Some (oc, k') \<and> sys_inv V k'"
proof -
  note s = sys_invD(1,2) [OF assms(1)]
  have o: "dq_inv (dqu k q)" "evt_notify (dqu k q) = None" using objD(8) [OF assms(1,2)] by simp_all
  have to: "0 < sint timeout \<longrightarrow> timeout < RT_TICK_MAX_HALF" using assms(3) by simp
  obtain oc k' where r: "dq_push_pass no_notify q p n timeout k = Some (oc, k')" "sinv k'" "dq_inv (dqu k' q)"
    using dq_push_pass_refines [OF s(1) o(1) s(2) assms(4) to o(2)] by blast
  have "sys_inv V k'"
    by (rule sys_inv_step [OF assms(1) conjunct1 [OF dq_push_effect [OF s(1) o s(2) assms(4,3) r(1)]] r(2)])
      (use dq_push_effect [OF s(1) o s(2) assms(4,3) r(1)] r(3) assms(2,3) in \<open>auto simp: obj_inv_def\<close>)
  then show ?thesis using r(1) by blast
qed

lemma dq_pop_pass_sys:
  assumes "sys_inv V k" "Obj_Dq q \<in> V" "timeout_ok timeout" "timeout \<noteq> 0 \<longrightarrow> caller t k"
  shows "\<exists>oc k'. dq_pop_pass no_notify q timeout k = Some (oc, k') \<and> sys_inv V k'"
proof -
  note s = sys_invD(1,2) [OF assms(1)]
  have o: "dq_inv (dqu k q)" "evt_notify (dqu k q) = None" using objD(8) [OF assms(1,2)] by simp_all
  have to: "0 < sint timeout \<longrightarrow> timeout < RT_TICK_MAX_HALF" using assms(3) by simp
  obtain oc k' where r: "dq_pop_pass no_notify q timeout k = Some (oc, k')" "sinv k'" "dq_inv (dqu k' q)"
    using dq_pop_pass_refines [OF s(1) o(1) s(2) assms(4) to o(2)] by blast
  have "sys_inv V k'"
    by (rule sys_inv_step [OF assms(1) conjunct1 [OF dq_pop_effect [OF s(1) o s(2) assms(4,3) r(1)]] r(2)])
      (use dq_pop_effect [OF s(1) o s(2) assms(4,3) r(1)] r(3) assms(2,3) in \<open>auto simp: obj_inv_def\<close>)
  then show ?thesis using r(1) by blast
qed

lemma tick_sys:
  assumes "sys_inv V k"
  shows "\<exists>k'. rt_tick_increase ucb k = Some k' \<and> sys_inv V k' \<and> irq_nest k' = irq_nest k \<and> lock_nest k' = lock_nest k"
proof -
  obtain k' where k': "rt_tick_increase ucb k = Some k'" "sinv k'" "effect {} No_call k k'"
    using tick_ok [OF sys_invD(1,2,6) [OF assms], of ucb "{}" No_call] by blast
  then have "sys_inv V k'" using sys_inv_step [OF assms k'(3,2)] by auto
  moreover have "irq_nest k' = irq_nest k \<and> lock_nest k' = lock_nest k" using k'(3) unfolding effect_def by blast
  ultimately show ?thesis using k'(1) by blast
qed

lemma nest_sys:
  assumes "sys_inv V k"
  shows "sys_inv V (k\<lparr>irq_nest := n\<rparr>)"
proof -
  let ?k = "k\<lparr>irq_nest := n\<rparr>"
  have "sinv ?k" using sys_invD(1) [OF assms] sinv_cong [of ?k k] by simp
  moreover have "obj_inv r ?k = obj_inv r k" for r
    by (simp add: obj_inv_def is_sem_def sem_ok_def is_mutex_def mutex_ok_def is_event_def event_ok_def is_mb_def
        is_mq_def comp_ok_def rt_object_get_type_def started_def runnable_def split: objref.split option.split)
  moreover have "call_ok V ?k c = call_ok V k c" for c by (rule call_ok_cong) simp
  ultimately show ?thesis using assms by (simp add: sys_inv_def)
qed

end
