(* ===== verification/System.thy ===== *)
theory System
  imports System_Inv
begin

text \<open>
  The kernel as a running system.  Threads and interrupt handlers call its operations, threads
  that were woken go on with their calls when they have the processor, and the tick interrupt
  (\<^verbatim>\<open>SysTick_Handler\<close> in \<^verbatim>\<open>board.c\<close>) drives the clock.  The steps form a relation
  \<open>kstep\<close>; the properties hold in all its reachable states.  A call is one step up to the point
  where it returns or its thread waits.
\<close>

section \<open>Calls and steps\<close>

text \<open>The calls of the interface of the kernel that its threads and handlers make.\<close>

datatype sys_call =
    Sem_take nat s32
  | Sem_release nat
  | Mutex_take nat s32
  | Mutex_release nat
  | Event_recv nat u32 u8 s32
  | Event_send nat u32
  | Mb_send_wait nat u32 s32
  | Mb_urgent nat u32
  | Mb_recv nat s32
  | Mq_send_wait nat "u8 list" u32 s32
  | Mq_urgent nat "u8 list" u32
  | Mq_recv nat "u8 list" u32 s32
  | Mp_alloc nat s32
  | Mp_free nat nat
  | Completion_wait nat s32
  | Completion_done nat
  | Dq_push nat u32 u32 s32
  | Dq_pop nat s32
  | Thread_yield
  | Thread_delay u32
  | Enter_critical
  | Exit_critical

definition new_state :: "('a \<times> kernel) option \<Rightarrow> kernel option" where
  "new_state r = map_option snd r"

fun perform :: "sys_call \<Rightarrow> kernel \<Rightarrow> kernel option" where
  "perform (Sem_take x timeout) k = new_state (rt_sem_take x timeout k)"
| "perform (Sem_release x) k = new_state (rt_sem_release x k)"
| "perform (Mutex_take x timeout) k = new_state (rt_mutex_take x timeout k)"
| "perform (Mutex_release x) k = new_state (rt_mutex_release x k)"
| "perform (Event_recv x want opt timeout) k = new_state (rt_event_recv x want opt timeout k)"
| "perform (Event_send x bits) k = new_state (rt_event_send x bits k)"
| "perform (Mb_send_wait x v timeout) k = new_state (rt_mb_send_wait x v timeout k)"
| "perform (Mb_urgent x v) k = new_state (rt_mb_urgent x v k)"
| "perform (Mb_recv x timeout) k = new_state (rt_mb_recv x timeout k)"
| "perform (Mq_send_wait x b n timeout) k = new_state (rt_mq_send_wait x b n timeout k)"
| "perform (Mq_urgent x b n) k = new_state (rt_mq_urgent x b n k)"
| "perform (Mq_recv x b n timeout) k = new_state (rt_mq_recv x b n timeout k)"
| "perform (Mp_alloc x timeout) k = new_state (rt_mp_alloc x timeout k)"
| "perform (Mp_free x b) k = rt_mp_free x b k"
| "perform (Completion_wait c timeout) k = new_state (rt_completion_wait c timeout k)"
| "perform (Completion_done c) k = rt_completion_done c k"
| "perform (Dq_push q p n timeout) k = new_state (rt_data_queue_push no_notify q p n timeout k)"
| "perform (Dq_pop q timeout) k = new_state (rt_data_queue_pop no_notify q timeout k)"
| "perform Thread_yield k = new_state (rt_thread_yield k)"
| "perform (Thread_delay x) k = rt_thread_delay x k"
| "perform Enter_critical k = Some (rt_enter_critical k)"
| "perform Exit_critical k = rt_exit_critical k"

text \<open>A thread that may wait has the processor: no interrupt, no scheduler lock.\<close>

definition ready_to_wait :: "kernel \<Rightarrow> bool" where
  "ready_to_wait k \<longleftrightarrow> (case current k of None \<Rightarrow> False | Some t \<Rightarrow> caller t k)"

text \<open>
  The calls whose arguments the source asks for: objects that are set up, timeouts below
  \<open>RT_TICK_MAX / 2\<close> (negative ones wait for ever), buffers of the length passed, blocks that
  were allocated; calls that may wait come from a thread, and only one thread waits for a
  completion.  The data queues of the system have no notification function.
\<close>

fun allowed :: "objref set \<Rightarrow> kernel \<Rightarrow> sys_call \<Rightarrow> bool" where
  "allowed V k (Sem_take x timeout) \<longleftrightarrow> Obj_Sem x \<in> V \<and> timeout_ok timeout \<and> ready_to_wait k"
| "allowed V k (Sem_release x) \<longleftrightarrow> Obj_Sem x \<in> V"
| "allowed V k (Mutex_take x timeout) \<longleftrightarrow> Obj_Mutex x \<in> V \<and> timeout_ok timeout \<and> ready_to_wait k"
| "allowed V k (Mutex_release x) \<longleftrightarrow> Obj_Mutex x \<in> V \<and> ready_to_wait k"
| "allowed V k (Event_recv x want opt timeout) \<longleftrightarrow>
     Obj_Event x \<in> V \<and> timeout_ok timeout \<and> want \<noteq> 0 \<and> ev_option_ok opt \<and> ready_to_wait k"
| "allowed V k (Event_send x bits) \<longleftrightarrow> Obj_Event x \<in> V"
| "allowed V k (Mb_send_wait x v timeout) \<longleftrightarrow>
     Obj_Mb x \<in> V \<and> timeout_ok timeout \<and> (timeout = 0 \<or> ready_to_wait k)"
| "allowed V k (Mb_urgent x v) \<longleftrightarrow> Obj_Mb x \<in> V"
| "allowed V k (Mb_recv x timeout) \<longleftrightarrow>
     Obj_Mb x \<in> V \<and> timeout_ok timeout \<and> (timeout = 0 \<or> ready_to_wait k)"
| "allowed V k (Mq_send_wait x b n timeout) \<longleftrightarrow>
     Obj_Mq x \<in> V \<and> n \<noteq> 0 \<and> unat n \<le> length b \<and> timeout_ok timeout \<and> (timeout = 0 \<or> ready_to_wait k)"
| "allowed V k (Mq_urgent x b n) \<longleftrightarrow> Obj_Mq x \<in> V \<and> n \<noteq> 0 \<and> unat n \<le> length b"
| "allowed V k (Mq_recv x b n timeout) \<longleftrightarrow>
     Obj_Mq x \<in> V \<and> n \<noteq> 0 \<and> unat n \<le> length b \<and> timeout_ok timeout \<and> (timeout = 0 \<or> ready_to_wait k)"
| "allowed V k (Mp_alloc x timeout) \<longleftrightarrow>
     Obj_Mp x \<in> V \<and> timeout_ok timeout \<and> (timeout = 0 \<or> ready_to_wait k)"
| "allowed V k (Mp_free x b) \<longleftrightarrow> Obj_Mp x \<in> V \<and> b \<in> mp_used (pools k x)"
| "allowed V k (Completion_wait c timeout) \<longleftrightarrow>
     Obj_Completion c \<in> V \<and> timeout_ok timeout \<and> (timeout = 0 \<or> ready_to_wait k) \<and>
     lists k (Suspended_on (Obj_Completion c)) = []"
| "allowed V k (Completion_done c) \<longleftrightarrow> Obj_Completion c \<in> V"
| "allowed V k (Dq_push q p n timeout) \<longleftrightarrow>
     Obj_Dq q \<in> V \<and> timeout_ok timeout \<and> (timeout = 0 \<or> ready_to_wait k)"
| "allowed V k (Dq_pop q timeout) \<longleftrightarrow>
     Obj_Dq q \<in> V \<and> timeout_ok timeout \<and> (timeout = 0 \<or> ready_to_wait k)"
| "allowed V k Thread_yield \<longleftrightarrow> True"
| "allowed V k (Thread_delay x) \<longleftrightarrow> x < RT_TICK_MAX_HALF \<and> ready_to_wait k"
| "allowed V k Enter_critical \<longleftrightarrow> True"
| "allowed V k Exit_critical \<longleftrightarrow> True"

text \<open>A woken thread goes on with the rest of its call.\<close>

fun resume_call :: "tid \<Rightarrow> saved_call \<Rightarrow> kernel \<Rightarrow> kernel option" where
  "resume_call t (In_sem_take x) k = Some (snd (rt_sem_take_finish t k))"
| "resume_call t (In_mutex_take x) k = Some (snd (rt_mutex_take_finish t k))"
| "resume_call t (In_event_recv x) k = Some (snd (rt_event_recv_finish t k))"
| "resume_call t (In_mb_send x v timeout start) k = new_state (rt_mb_send_wait_resume t x v timeout start k)"
| "resume_call t (In_mb_recv x timeout start) k = new_state (rt_mb_recv_resume t x timeout start k)"
| "resume_call t (In_mq_send x b n timeout start) k = new_state (rt_mq_send_wait_resume t x b n timeout start k)"
| "resume_call t (In_mq_recv x b n timeout start) k = new_state (rt_mq_recv_resume t x b n timeout start k)"
| "resume_call t (In_mp_alloc x timeout start) k = new_state (rt_mp_alloc_resume t x timeout start k)"
| "resume_call t (In_completion_wait c) k = Some (snd (rt_completion_wait_finish t c k))"
| "resume_call t (In_dq_push q p n timeout) k = new_state (rt_data_queue_push_resume no_notify t q p n timeout k)"
| "resume_call t (In_dq_pop q timeout) k = new_state (rt_data_queue_pop_resume no_notify t q timeout k)"
| "resume_call t (In_work_thread w) k = None"
| "resume_call t In_sleep k = Some (snd (rt_thread_sleep_finish t k))"
| "resume_call t No_call k = Some k"

text \<open>
  The calls that take up their wait again measure the time it took by the difference of ticks; it
  tells the time only when the thread gets the processor within half the range of the tick.
\<close>

fun call_start :: "saved_call \<Rightarrow> u32 option" where
  "call_start (In_mb_send x v timeout start) = Some start"
| "call_start (In_mb_recv x timeout start) = Some start"
| "call_start (In_mq_send x b n timeout start) = Some start"
| "call_start (In_mq_recv x b n timeout start) = Some start"
| "call_start (In_mp_alloc x timeout start) = Some start"
| "call_start c = None"

definition in_time :: "saved_call \<Rightarrow> kernel \<Rightarrow> bool" where
  "in_time c k \<longleftrightarrow> (case call_start c of None \<Rightarrow> True | Some start \<Rightarrow> tick k - start < 0x80000000)"

definition SysTick_Handler :: "(nat \<Rightarrow> kernel \<Rightarrow> kernel option) \<Rightarrow> kernel \<Rightarrow> kernel option" where
  "SysTick_Handler ucb k =
     do {
       k1 \<leftarrow> rt_tick_increase ucb (rt_interrupt_enter k);
       Some (rt_interrupt_leave k1)
     }"

lemma sint_negative:
  fixes x :: u32
  assumes "2147483648 \<le> unat x"
  shows "sint x < 0"
proof -
  have u: "uint x = int (unat x)" by simp
  have "unat x < 4294967296" using unsigned_less [of x] by simp
  then have "int (unat x) div 2147483648 = 1" using assms by linarith
  then have "uint x div 2147483648 = 1" unfolding u .
  then have "bit (uint x) 31" by (simp add: bit_iff_odd)
  then show ?thesis by (simp add: sint_uint signed_take_bit_negative_iff)
qed

lemma timeout_left_ok:
  assumes "timeout_ok timeout" "tick k - start < 0x80000000"
  shows "timeout_ok (timeout_left timeout start k)"
proof (cases "0 < sint timeout")
  case False
  then show ?thesis using assms(1) by (simp add: timeout_left_def)
next
  case True
  let ?d = "tick k - start"
  have b: "unat timeout < 0x7fffffff" "unat ?d < 0x80000000"
    using True assms by (simp_all add: word_less_nat_alt)
  show ?thesis
  proof (cases "unat ?d \<le> unat timeout")
    case le: True
    then have "unat (timeout - ?d) = unat timeout - unat ?d" by (simp add: unat_sub word_le_nat_alt)
    then have "timeout - ?d < RT_TICK_MAX_HALF" using b(1) by (simp add: word_less_nat_alt)
    then show ?thesis using True by (simp add: timeout_left_def Let_def)
  next
    case gt: False
    have "unat (timeout - ?d) = unat timeout + 4294967296 - unat ?d"
      using gt by (simp add: unat_sub_if')
    then have "2147483648 \<le> unat (timeout - ?d)" using b(2) by simp
    then have "sint (timeout - ?d) < 0"
      by (rule sint_negative)
    then show ?thesis using True by (simp add: timeout_left_def Let_def)
  qed
qed

lemma ready_to_waitD: "ready_to_wait k \<Longrightarrow> \<exists>t. caller t k"
  by (auto simp: ready_to_wait_def split: option.splits)

lemma caller_ready: "caller t k \<Longrightarrow> ready_to_wait k"
  by (auto simp: ready_to_wait_def caller_def)

lemma new_state_ok: "\<exists>oc k'. r = Some (oc, k') \<and> P k' \<Longrightarrow> \<exists>k'. new_state r = Some k' \<and> P k'"
  by (auto simp: new_state_def)

lemma lock_sys:
  assumes "sys_inv V k"
  shows "sys_inv V (k\<lparr>lock_nest := n\<rparr>)"
proof -
  let ?k = "k\<lparr>lock_nest := n\<rparr>"
  have "sinv ?k" using sys_invD(1) [OF assms] sinv_cong [of ?k k] by simp
  moreover have "obj_inv r ?k = obj_inv r k" for r
    by (simp add: obj_inv_def is_sem_def sem_ok_def is_mutex_def mutex_ok_def is_event_def event_ok_def is_mb_def
        is_mq_def comp_ok_def rt_object_get_type_def started_def runnable_def split: objref.split option.split)
  moreover have "call_ok V ?k c = call_ok V k c" for c by (rule call_ok_cong) simp
  ultimately show ?thesis using assms by (simp add: sys_inv_def)
qed

lemma schedule_sys:
  assumes "sys_inv V k"
  shows "\<exists>k'. rt_schedule k = Some k' \<and> sys_inv V k'"
proof -
  note s = sys_invD(1,2) [OF assms]
  obtain k' where k': "rt_schedule k = Some k'" "sinv k'" using rt_schedule_sinv [OF s] by blast
  show ?thesis using k'(1) sys_inv_step [OF assms schedule_effect [OF s k'(1), of "{}" No_call] k'(2)] by auto
qed

lemma exit_sys:
  assumes "sys_inv V k"
  shows "\<exists>k'. rt_exit_critical k = Some k' \<and> sys_inv V k'"
proof -
  have "sys_inv V (k\<lparr>lock_nest := lock_nest k - 1\<rparr>)" "sys_inv V (k\<lparr>lock_nest := 0\<rparr>)"
    by (rule lock_sys [OF assms])+
  then show ?thesis using schedule_sys [of V "k\<lparr>lock_nest := 0\<rparr>"] by (auto simp: rt_exit_critical_def Let_def)
qed

section \<open>The calls keep the invariant\<close>

lemma perform_sys:
  assumes "sys_inv V k" "allowed V k c"
  shows "\<exists>k'. perform c k = Some k' \<and> sys_inv V k'"
proof -
  note inv = assms(1)
  have dm: "n = 0 \<or> ready_to_wait k \<Longrightarrow> \<exists>t. n \<noteq> 0 \<longrightarrow> caller t k" for n :: s32
    using ready_to_waitD by blast
  show ?thesis
  proof (cases c)
    case (Sem_take x timeout)
    then obtain t where "caller t k" "Obj_Sem x \<in> V" "timeout_ok timeout" using assms(2) ready_to_waitD by auto
    from sem_take_sys [OF inv this(2,1,3)] show ?thesis unfolding Sem_take perform.simps by (rule new_state_ok)
  next
    case (Sem_release x)
    then have "Obj_Sem x \<in> V" using assms(2) by simp
    from sem_release_sys [OF inv this] show ?thesis unfolding Sem_release perform.simps by (rule new_state_ok)
  next
    case (Mutex_take x timeout)
    then obtain t where "caller t k" "Obj_Mutex x \<in> V" "timeout_ok timeout" using assms(2) ready_to_waitD by auto
    from mutex_take_sys [OF inv this(2,1,3)] show ?thesis unfolding Mutex_take perform.simps by (rule new_state_ok)
  next
    case (Mutex_release x)
    then obtain t where "caller t k" "Obj_Mutex x \<in> V" using assms(2) ready_to_waitD by auto
    from mutex_release_sys [OF inv this(2,1)] show ?thesis unfolding Mutex_release perform.simps by (rule new_state_ok)
  next
    case (Event_recv x want opt timeout)
    then obtain t where "caller t k" "Obj_Event x \<in> V" "timeout_ok timeout" "want \<noteq> 0" "ev_option_ok opt"
      using assms(2) ready_to_waitD by auto
    from event_recv_sys [OF inv this(2,1,3-5)] show ?thesis unfolding Event_recv perform.simps by (rule new_state_ok)
  next
    case (Event_send x bits)
    then have "Obj_Event x \<in> V" using assms(2) by simp
    from event_send_sys [OF inv this] show ?thesis unfolding Event_send perform.simps by (rule new_state_ok)
  next
    case (Mb_send_wait x v timeout)
    then obtain t where "timeout \<noteq> 0 \<longrightarrow> caller t k" "Obj_Mb x \<in> V" "timeout_ok timeout" using assms(2) dm by fastforce
    from mb_send_sys [OF inv this(2,3,1)] show ?thesis unfolding Mb_send_wait perform.simps by (rule new_state_ok)
  next
    case (Mb_urgent x v)
    then have "Obj_Mb x \<in> V" using assms(2) by simp
    from mb_urgent_sys [OF inv this] show ?thesis unfolding Mb_urgent perform.simps by (rule new_state_ok)
  next
    case (Mb_recv x timeout)
    then obtain t where "timeout \<noteq> 0 \<longrightarrow> caller t k" "Obj_Mb x \<in> V" "timeout_ok timeout" using assms(2) dm by fastforce
    from mb_recv_sys [OF inv this(2,3,1)] show ?thesis unfolding Mb_recv perform.simps by (rule new_state_ok)
  next
    case (Mq_send_wait x b n timeout)
    then obtain t where "timeout \<noteq> 0 \<longrightarrow> caller t k" "Obj_Mq x \<in> V" "timeout_ok timeout" "n \<noteq> 0" "unat n \<le> length b"
      using assms(2) dm by fastforce
    from mq_send_sys [OF inv this(2,3,1,4,5)] show ?thesis unfolding Mq_send_wait perform.simps by (rule new_state_ok)
  next
    case (Mq_urgent x b n)
    then have "Obj_Mq x \<in> V" "n \<noteq> 0" "unat n \<le> length b" using assms(2) by simp_all
    from mq_urgent_sys [OF inv this] show ?thesis unfolding Mq_urgent perform.simps by (rule new_state_ok)
  next
    case (Mq_recv x b n timeout)
    then obtain t where "timeout \<noteq> 0 \<longrightarrow> caller t k" "Obj_Mq x \<in> V" "timeout_ok timeout" "n \<noteq> 0" "unat n \<le> length b"
      using assms(2) dm by fastforce
    from mq_recv_sys [OF inv this(2,3,1,4) min.coboundedI1 [OF this(5)]] show ?thesis
      unfolding Mq_recv perform.simps by (rule new_state_ok)
  next
    case (Mp_alloc x timeout)
    then obtain t where "timeout \<noteq> 0 \<longrightarrow> caller t k" "Obj_Mp x \<in> V" "timeout_ok timeout" using assms(2) dm by fastforce
    from mp_alloc_sys [OF inv this(2,3,1)] show ?thesis unfolding Mp_alloc perform.simps rt_mp_alloc_def by (rule new_state_ok)
  next
    case (Mp_free x b)
    then show ?thesis using mp_free_sys [OF inv] assms(2) by simp
  next
    case (Completion_wait x timeout)
    then obtain t where "timeout \<noteq> 0 \<longrightarrow> caller t k" "Obj_Completion x \<in> V" "timeout_ok timeout"
        "lists k (Suspended_on (Obj_Completion x)) = []" using assms(2) dm [of timeout] by auto
    from completion_wait_sys [OF inv this(2,3,1,4)] show ?thesis
      unfolding Completion_wait perform.simps by (rule new_state_ok)
  next
    case (Completion_done x)
    then show ?thesis using completion_done_sys [OF inv, of x] assms(2) by simp
  next
    case (Dq_push q p n timeout)
    then obtain t where t: "timeout \<noteq> 0 \<longrightarrow> caller t k" "Obj_Dq q \<in> V" "timeout_ok timeout"
      using assms(2) dm [of timeout] by auto
    then have "rt_data_queue_push no_notify q p n timeout k = dq_push_pass no_notify q p n timeout k"
      using objD(8) [OF inv] by (simp add: rt_data_queue_push_def dq_inv_def caller_def)
    with dq_push_pass_sys [OF inv t(2,3,1), of p n] show ?thesis
      unfolding Dq_push perform.simps by (intro new_state_ok) simp
  next
    case (Dq_pop q timeout)
    then obtain t where t: "timeout \<noteq> 0 \<longrightarrow> caller t k" "Obj_Dq q \<in> V" "timeout_ok timeout"
      using assms(2) dm [of timeout] by auto
    then have "rt_data_queue_pop no_notify q timeout k = dq_pop_pass no_notify q timeout k"
      using objD(8) [OF inv] by (simp add: rt_data_queue_pop_def dq_inv_def caller_def)
    with dq_pop_pass_sys [OF inv t(2,3,1)] show ?thesis
      unfolding Dq_pop perform.simps by (intro new_state_ok) simp
  next
    case Thread_yield
    from yield_sys [OF inv] show ?thesis unfolding Thread_yield perform.simps by (rule new_state_ok)
  next
    case (Thread_delay x)
    then obtain t where "caller t k" "x < RT_TICK_MAX_HALF" using assms(2) ready_to_waitD by auto
    then show ?thesis using sleep_sys [OF inv] Thread_delay by (simp add: rt_thread_delay_def)
  next
    case Enter_critical
    then show ?thesis using lock_sys [OF inv] by (simp add: rt_enter_critical_def)
  next
    case Exit_critical
    then show ?thesis using exit_sys [OF inv] by simp
  qed
qed

lemma resume_sys:
  assumes "sys_inv V k" "caller t k" "in_time (saved k t) k"
  shows "\<exists>k'. resume_call t (saved k t) k = Some k' \<and> sys_inv V k'"
proof -
  let ?k = "finish_call t k"
  note fin = finish_sys [OF assms(1,2)] and co = sys_invD(4) [OF assms(1), of t]
  have keep: "\<exists>oc k'. Some (Returns z None, ?k) = Some (oc, k') \<and> sys_inv V k'" for z using fin(1) by simp
  have tk: "tick ?k = tick k" "queues ?k = queues k" by (simp_all add: finish_call_def)
  have left: "timeout_ok (timeout_left timeout start ?k)" if "timeout_ok timeout" "tick k - start < 0x80000000" for timeout start
    using timeout_left_ok [of timeout ?k start] that tk by simp
  have dm: "timeout_left timeout start ?k \<noteq> 0 \<longrightarrow> caller t ?k" for timeout start using fin(2) by blast
  show ?thesis
  proof (cases "saved k t")
    case No_call
    then show ?thesis using assms(1) by simp
  next
    case In_sleep
    let ?f = "\<lambda>th. th\<lparr>thread_error := (if thread_error th = - RT_ETIMEOUT then RT_EOK else thread_error th)\<rparr>"
    have "(upd_thread t ?f k)\<lparr>saved := (saved k)(t := No_call)\<rparr> =
        upd_thread t (\<lambda>th. th\<lparr>thread_error := thread_error (?f (threads k t))\<rparr>) ?k"
      by (simp add: finish_call_def)
    then have "sys_inv V (snd (rt_thread_sleep_finish t k))"
      using error_sys [OF fin(1)] by (simp add: rt_thread_sleep_finish_def Let_def)
    then show ?thesis using In_sleep by simp
  next
    case (In_sem_take x)
    then show ?thesis using fin(1) by (simp add: rt_sem_take_finish_def)
  next
    case (In_mutex_take x)
    then show ?thesis using fin(1) by (simp add: rt_mutex_take_finish_def)
  next
    case (In_event_recv x)
    then show ?thesis using fin(1) by (simp add: rt_event_recv_finish_def)
  next
    case (In_completion_wait x)
    then show ?thesis using completion_finish_sys [OF assms(1) _ assms(2), of x] co by simp
  next
    case (In_dq_push q p n timeout)
    then have "Obj_Dq q \<in> V" "timeout_ok timeout" using co by simp_all
    from dq_push_pass_sys [OF fin(1) this, of t p n] fin(2) keep show ?thesis
      unfolding In_dq_push resume_call.simps rt_data_queue_push_resume_def Let_def by (intro new_state_ok) simp
  next
    case (In_dq_pop q timeout)
    then have "Obj_Dq q \<in> V" "timeout_ok timeout" using co by simp_all
    from dq_pop_pass_sys [OF fin(1) this, of t] fin(2) keep show ?thesis
      unfolding In_dq_pop resume_call.simps rt_data_queue_pop_resume_def Let_def by (intro new_state_ok) simp
  next
    case (In_work_thread w)
    then show ?thesis using co by simp
  next
    case (In_mb_send x v timeout start)
    then have "Obj_Mb x \<in> V" "timeout_ok timeout" "tick k - start < 0x80000000"
      using co assms(3) by (simp_all add: in_time_def)
    from mb_send_pass_sys [OF fin(1) this(1) left [OF this(2,3)] fin(2)] keep show ?thesis
      unfolding In_mb_send resume_call.simps rt_mb_send_wait_resume_def Let_def by (intro new_state_ok) simp
  next
    case (In_mb_recv x timeout start)
    then have "Obj_Mb x \<in> V" "timeout_ok timeout" "tick k - start < 0x80000000"
      using co assms(3) by (simp_all add: in_time_def)
    from mb_recv_pass_sys [OF fin(1) this(1) left [OF this(2,3)] fin(2)] keep show ?thesis
      unfolding In_mb_recv resume_call.simps rt_mb_recv_resume_def Let_def by (intro new_state_ok) simp
  next
    case (In_mq_send x b n timeout start)
    then have "Obj_Mq x \<in> V" "timeout_ok timeout" "tick k - start < 0x80000000" "unat n \<le> length b"
        "unat n \<le> unat (msg_size (queues ?k x))"
      using co assms(3) tk by (simp_all add: in_time_def)
    from mq_send_pass_sys [OF fin(1) this(1) left [OF this(2,3)] fin(2) this(4,5)] keep show ?thesis
      unfolding In_mq_send resume_call.simps rt_mq_send_wait_resume_def Let_def by (intro new_state_ok) simp
  next
    case (In_mq_recv x b n timeout start)
    then have "Obj_Mq x \<in> V" "timeout_ok timeout" "tick k - start < 0x80000000"
        "min (unat n) (unat (msg_size (queues ?k x))) \<le> length b"
      using co assms(3) tk by (simp_all add: in_time_def)
    from mq_recv_pass_sys [OF fin(1) this(1) left [OF this(2,3)] fin(2) this(4)] keep show ?thesis
      unfolding In_mq_recv resume_call.simps rt_mq_recv_resume_def Let_def by (intro new_state_ok) simp
  next
    case (In_mp_alloc x timeout start)
    then have "Obj_Mp x \<in> V" "timeout_ok timeout" "tick k - start < 0x80000000"
      using co assms(3) by (simp_all add: in_time_def)
    from mp_alloc_sys [OF fin(1) this(1) left [OF this(2,3)] dm] keep show ?thesis
      unfolding In_mp_alloc resume_call.simps rt_mp_alloc_resume_def Let_def by (intro new_state_ok) simp
  qed
qed

section \<open>The running system\<close>

inductive kstep :: "objref set \<Rightarrow> (nat \<Rightarrow> kernel \<Rightarrow> kernel option) \<Rightarrow> kernel \<Rightarrow> kernel \<Rightarrow> bool"
  for V ucb where
  call: "current k = Some t \<Longrightarrow> saved k t = No_call \<Longrightarrow> allowed V k c \<Longrightarrow> perform c k = Some k' \<Longrightarrow> kstep V ucb k k'"
| isr_call: "irq_nest k \<noteq> 0 \<Longrightarrow> allowed V k c \<Longrightarrow> perform c k = Some k' \<Longrightarrow> kstep V ucb k k'"
| resume: "caller t k \<Longrightarrow> in_time (saved k t) k \<Longrightarrow> resume_call t (saved k t) k = Some k' \<Longrightarrow> kstep V ucb k k'"
| enter: "irq_nest k \<noteq> 0xff \<Longrightarrow> kstep V ucb k (rt_interrupt_enter k)"
| leave: "irq_nest k \<noteq> 0 \<Longrightarrow> kstep V ucb k (rt_interrupt_leave k)"
| sys_tick: "irq_nest k \<noteq> 0xff \<Longrightarrow> SysTick_Handler ucb k = Some k' \<Longrightarrow> kstep V ucb k k'"

inductive reachable :: "objref set \<Rightarrow> (nat \<Rightarrow> kernel \<Rightarrow> kernel option) \<Rightarrow> kernel \<Rightarrow> kernel \<Rightarrow> bool"
  for V ucb k0 where
  start: "reachable V ucb k0 k0"
| next_step: "reachable V ucb k0 k \<Longrightarrow> kstep V ucb k k' \<Longrightarrow> reachable V ucb k0 k'"

inductive_cases kstepE: "kstep V ucb k k'"

lemma handler_sys:
  assumes "sys_inv V k"
  shows "\<exists>k'. SysTick_Handler ucb k = Some k' \<and> sys_inv V k' \<and> irq_nest k' = irq_nest k"
proof -
  have "sys_inv V (rt_interrupt_enter k)" using nest_sys [OF assms] by (simp add: rt_interrupt_enter_def)
  from tick_sys [OF this, of ucb] obtain k1 where k1: "rt_tick_increase ucb (rt_interrupt_enter k) = Some k1"
    "sys_inv V k1" "irq_nest k1 = irq_nest k + 1" by (auto simp: rt_interrupt_enter_def)
  show ?thesis using k1(1,3) nest_sys [OF k1(2)] by (simp add: SysTick_Handler_def rt_interrupt_leave_def)
qed

lemma kstep_sys:
  assumes "kstep V ucb k k'" "sys_inv V k"
  shows "sys_inv V k'"
  using assms(1)
  by (rule kstepE)
    (use assms(2) perform_sys [OF assms(2)] resume_sys [OF assms(2)] handler_sys [OF assms(2), of ucb] nest_sys [OF assms(2)]
      in \<open>force simp: rt_interrupt_enter_def rt_interrupt_leave_def\<close>)+

lemma reachable_sys: "reachable V ucb k0 k \<Longrightarrow> sys_inv V k0 \<Longrightarrow> sys_inv V k"
  by (induction rule: reachable.induct) (auto intro: kstep_sys)

section \<open>The sample state\<close>

definition sample_objects :: "objref set" where
  "sample_objects = {Obj_Sem 0, Obj_Mutex 0, Obj_Event 0, Obj_Mb 0, Obj_Mq 0, Obj_Mp 0, Obj_Completion 0, Obj_Dq 0}"

lemma sample_link_call:
  "sample_link t = Some h \<Longrightarrow> wait_head h \<Longrightarrow> call_head (sample_call t) = Some h"
  by (auto simp: sample_call_def split: if_splits)

lemma sample_event_ok: "is_event 0 sample_kernel" "event_ok 0 sample_kernel"
  using sample_event0 by (auto simp: event_ok_def ev_interest_def ev_grant_def ev_option_ok_def)

lemma sample_idle:
  "saved sample_kernel 0 = No_call" "current sample_kernel = Some 0" "timer_list sample_kernel = []"
  by (simp_all add: sample_kernel_def sample_call_def)

lemma sample_sys: "sys_inv sample_objects sample_kernel"
proof -
  have "is_sem 0 sample_kernel"
    by (simp add: is_sem_def rt_object_get_type_def sample_kernel_def sample_object_def)
  moreover have "sem_value (sems sample_kernel 0) = 0" by (simp add: sample_kernel_def)
  ultimately have "obj_inv (Obj_Sem 0) sample_kernel" by (simp add: obj_inv_def sem_ok_def)
  moreover have "obj_inv (Obj_Mutex 0) sample_kernel" "obj_inv (Obj_Event 0) sample_kernel"
    "obj_inv (Obj_Mb 0) sample_kernel" "obj_inv (Obj_Mq 0) sample_kernel" "obj_inv (Obj_Mp 0) sample_kernel"
    "obj_inv (Obj_Completion 0) sample_kernel"
    using sample_mutex0(1,2) sample_event_ok sample_mb(1) sample_mq(1) sample_mp(2) sample_comp(1) by (simp_all only: obj_inv_def objref.case)
  moreover have "obj_inv (Obj_Dq 0) sample_kernel" using sample_dq(1) [of 0] by (simp add: obj_inv_def) (simp add: sample_kernel_def)
  ultimately have "\<forall>r\<in>sample_objects. obj_inv r sample_kernel" by (simp add: sample_objects_def)
  moreover have "call_head (saved sample_kernel t) = Some h"
    if "wait_head h" "t \<in> set (lists sample_kernel h)" for h t
    using that sample_link_call by (simp add: sample_kernel_def del: sample_link.simps)
  moreover have "call_ok sample_objects sample_kernel (saved sample_kernel t)" for t
    by (simp add: sample_kernel_def sample_call_def sample_objects_def)
  ultimately show ?thesis 
    using sample_sinv sample_mb(5) sample_idle by (simp only: sys_inv_def simp_thms ball_triv) auto
qed

section \<open>Properties\<close>

text \<open>
  C1.  The invariant of the kernel holds in every state that calls of threads, calls of interrupt
  handlers, woken threads that go on with their calls, interrupts and ticks can reach.
\<close>

theorem system_invariant:
  assumes "sys_inv V k0" "reachable V ucb k0 k"
  shows "sys_inv V k"
  using assms reachable_sys by blast

theorem system_invariant_witness:
  "\<exists>k. perform (Sem_release 0) sample_kernel = Some k \<and> sys_inv sample_objects k"
proof -
  have a: "allowed sample_objects sample_kernel (Sem_release 0)" by (simp add: sample_objects_def)
  obtain k where k: "perform (Sem_release 0) sample_kernel = Some k" using perform_sys [OF sample_sys a] by blast
  from system_invariant [OF sample_sys next_step [OF start kstep.call [OF sample_idle(2,1) a k]]] k
  show ?thesis by blast
qed

text \<open>
  C2.  In every reachable state no call fails: a call with legal arguments returns or leaves
  its thread waiting, a woken thread that has the processor gets on with its call, and the tick
  interrupt ends.  No assertion of the source is violated and no loop runs for ever.
\<close>

theorem system_never_fails:
  assumes "sys_inv V k0" "reachable V ucb k0 k"
  shows "(allowed V k c \<longrightarrow> perform c k \<noteq> None) \<and>
     (caller t k \<and> in_time (saved k t) k \<longrightarrow> resume_call t (saved k t) k \<noteq> None) \<and>
     SysTick_Handler ucb k \<noteq> None"
proof -
  have s: "sys_inv V k" by (rule reachable_sys [OF assms(2,1)])
  show ?thesis using perform_sys [OF s, of c] resume_sys [OF s, of t] handler_sys [OF s, of ucb] by fastforce
qed

theorem system_never_fails_witness:
  "perform (Mutex_take 0 5) sample_kernel \<noteq> None \<and> SysTick_Handler (\<lambda>_. Some) sample_kernel \<noteq> None"
proof -
  have "allowed sample_objects sample_kernel (Mutex_take 0 5)"
    using caller_ready [OF sample_caller] by (simp add: sample_objects_def)
  then show ?thesis using system_never_fails [OF sample_sys start, of "Mutex_take 0 5"] by blast
qed

text \<open>
  C3.  In every reachable state: a thread waits for a semaphore only while its value is 0; for a
  mutex only while another thread, which is started, owns it; for events only while the flags that
  are set do not satisfy it; for a completion only while it is not done; and every waiting thread
  is suspended, in one line only, inside the call that waits there.
\<close>

theorem system_consistent:
  assumes "sys_inv V k0" "reachable V ucb k0 k"
  shows "(\<forall>x. Obj_Sem x \<in> V \<and> lists k (Suspended_on (Obj_Sem x)) \<noteq> [] \<longrightarrow> sem_value (sems k x) = 0) \<and>
     (\<forall>x t. Obj_Mutex x \<in> V \<and> t \<in> set (lists k (Suspended_on (Obj_Mutex x))) \<longrightarrow>
        (\<exists>u. owner (mutexes k x) = Some u \<and> u \<noteq> t \<and> started k u)) \<and>
     (\<forall>x t. Obj_Event x \<in> V \<and> t \<in> set (lists k (Suspended_on (Obj_Event x))) \<longrightarrow>
        ev_grant (event_info (threads k t)) (event_set (threads k t)) (event_bits (events k x)) = None) \<and>
     (\<forall>x. Obj_Completion x \<in> V \<and> lists k (Suspended_on (Obj_Completion x)) \<noteq> [] \<longrightarrow>
        comp_flag (cpl k x) = RT_UNCOMPLETED) \<and>
     (\<forall>h t. wait_head h \<and> t \<in> set (lists k h) \<longrightarrow>
        tstat k t = RT_THREAD_SUSPEND \<and> call_head (saved k t) = Some h)"
proof -
  have s: "sys_inv V k" by (rule reachable_sys [OF assms(2,1)])
  have "\<exists>u. owner (mutexes k x) = Some u \<and> u \<noteq> t \<and> started k u"
    if "Obj_Mutex x \<in> V" "t \<in> set (lists k (Suspended_on (Obj_Mutex x)))" for x t
    using objD(2) [OF s that(1)] that(2) by (auto simp: mutex_ok_def split: option.splits)
  moreover have "tstat k t = RT_THREAD_SUSPEND \<and> call_head (saved k t) = Some h"
    if "wait_head h" "t \<in> set (lists k h)" for h t
    using waiter_suspended(1) [OF sys_invD(1) [OF s] that] sys_invD(5) [OF s that] by blast
  moreover have "sem_value (sems k x) = 0" if "Obj_Sem x \<in> V" "lists k (Suspended_on (Obj_Sem x)) \<noteq> []" for x
    using objD(1) [OF s that(1)] that(2) by (simp add: sem_ok_def)
  moreover have "ev_grant (event_info (threads k t)) (event_set (threads k t)) (event_bits (events k x)) = None"
    if "Obj_Event x \<in> V" "t \<in> set (lists k (Suspended_on (Obj_Event x)))" for x t
    using objD(3) [OF s that(1)] that(2) by (simp add: event_ok_def)
  moreover have "comp_flag (cpl k x) = RT_UNCOMPLETED"
    if "Obj_Completion x \<in> V" "lists k (Suspended_on (Obj_Completion x)) \<noteq> []" for x
    using objD(7) [OF s that(1)] that(2) by (auto simp: comp_ok_def)
  ultimately show ?thesis by blast
qed

theorem system_consistent_witness:
  "sem_value (sems sample_kernel 0) = 0 \<and> owner (mutexes sample_kernel 0) \<noteq> None"
proof -
  note c = system_consistent [OF sample_sys start]
  have "lists sample_kernel (Suspended_on (Obj_Sem 0)) \<noteq> []" by (simp add: sample_kernel_def upt_rec)
  moreover have "3 \<in> set (lists sample_kernel (Suspended_on (Obj_Mutex 0)))" using sample_mutex0(4) by simp
  ultimately show ?thesis using c by (auto simp: sample_objects_def)
qed

end
