(* ===== verification/Sleep.thy ===== *)
theory Sleep
  imports System Workqueue
begin

text \<open>
  Sleeping by ticks: a thread that calls \<open>rt_thread_sleep x\<close> is woken by the tick interrupt
  \<open>x\<close> ticks later, not before, whatever the other threads, the handlers and the timers of the
  application do in between.
\<close>

section \<open>What the rest of the system does to the timers\<close>

text \<open>
  A timer that may be in the list: the timer of a thread, or a timer of the application with a
  timeout function of the application and an interval that \<open>rt_timer_init\<close> accepts, other than
  0 (a periodic timer of interval 0 keeps \<open>rt_timer_check\<close> from returning).
\<close>

definition timer_fits :: "kernel \<Rightarrow> timer_ref \<Rightarrow> bool" where
  "timer_fits k r \<longleftrightarrow>
     (case r of
        Thread_timer u \<Rightarrow> True
      | Timer n \<Rightarrow> rt_object_get_type (Obj_Timer r) k = class_code Class_Timer \<and>
          (case timeout_func (timers k r) of User_timeout m \<Rightarrow> True | Thread_timeout u \<Rightarrow> False) \<and>
          0 < init_tick (timers k r) \<and> init_tick (timers k r) < RT_TICK_MAX_HALF)"

definition linked_timers :: "kernel \<Rightarrow> timer_ref set" where
  "linked_timers k = set (timer_list k) \<union> set (fired_list k)"

definition timers_ok :: "kernel \<Rightarrow> bool" where
  "timers_ok k \<longleftrightarrow> timers_sorted k \<and> (\<forall>r\<in>linked_timers k. timer_fits k r)"

text \<open>
  Sequences of changes that leave the timer of thread \<open>t\<close> alone: any change of the rest of the
  state, timers that are not linked included, and the start and the stop of other timers.
\<close>

inductive other_timers :: "tid \<Rightarrow> kernel \<Rightarrow> kernel \<Rightarrow> bool" for t where
  quiet: "timer_list k' = timer_list k \<Longrightarrow> fired_list k' = fired_list k \<Longrightarrow> tick k' = tick k \<Longrightarrow>
     (\<forall>r\<in>linked_timers k. timeout_tick (timers k' r) = timeout_tick (timers k r) \<and>
        (timer_fits k r \<longrightarrow> timer_fits k' r)) \<Longrightarrow> other_timers t k k'"
| start: "r \<noteq> Thread_timer t \<Longrightarrow> timer_fits k r \<Longrightarrow> 0 < init_tick (timers k r) \<Longrightarrow>
     init_tick (timers k r) < RT_TICK_MAX_HALF \<Longrightarrow> rt_timer_start r k = Some (e, k') \<Longrightarrow> other_timers t k k'"
| stop: "r \<noteq> Thread_timer t \<Longrightarrow> rt_timer_stop r k = Some (e, k') \<Longrightarrow> other_timers t k k'"
| and_then: "other_timers t k k1 \<Longrightarrow> other_timers t k1 k' \<Longrightarrow> other_timers t k k'"

text \<open>
  Anything that other threads, handlers and timeout functions do: it keeps the kernel invariant,
  and it neither resumes the sleeping thread nor stops it again once it can run.
\<close>

definition beside :: "tid \<Rightarrow> kernel \<Rightarrow> kernel \<Rightarrow> bool" where
  "beside t k k' \<longleftrightarrow> other_timers t k k' \<and> sinv k' \<and> current k' \<noteq> None \<and> saved k' t = saved k t \<and>
     thread_error (threads k' t) = thread_error (threads k t) \<and>
     (tstat k t = RT_THREAD_SUSPEND \<longrightarrow> tstat k' t = RT_THREAD_SUSPEND) \<and> (runnable k t \<longrightarrow> runnable k' t)"

text \<open>The states in which the rest of the system runs, and its timeout functions.\<close>

definition clock_ok :: "kernel \<Rightarrow> bool" where
  "clock_ok k \<longleftrightarrow> sinv k \<and> current k \<noteq> None \<and> timers_ok k"

definition callbacks_ok :: "tid \<Rightarrow> (nat \<Rightarrow> kernel \<Rightarrow> kernel option) \<Rightarrow> bool" where
  "callbacks_ok t ucb \<longleftrightarrow> (\<forall>n k. clock_ok k \<longrightarrow> (\<exists>k'. ucb n k = Some k' \<and> beside t k k'))"

text \<open>The timers that are due now.\<close>

definition due_timers :: "kernel \<Rightarrow> timer_ref set" where
  "due_timers k = {r \<in> set (timer_list k). timer_left k r = 0}"

lemma due_finite [simp]: "finite (due_timers k)"
  by (simp add: due_timers_def)

text \<open>The effect on the timers of \<open>other_timers\<close>.\<close>

definition timers_after :: "tid \<Rightarrow> kernel \<Rightarrow> kernel \<Rightarrow> bool" where
  "timers_after t k k' \<longleftrightarrow> timers_ok k' \<and> due_timers k' \<subseteq> due_timers k \<and> tick k' = tick k \<and>
     set (fired_list k') \<subseteq> set (fired_list k) \<and> length (fired_list k') \<le> length (fired_list k) \<and>
     (Thread_timer t \<in> set (timer_list k) \<longrightarrow>
        Thread_timer t \<in> set (timer_list k') \<and> timer_left k' (Thread_timer t) = timer_left k (Thread_timer t))"

lemma timers_after_refl: "timers_ok k \<Longrightarrow> timers_after t k k"
  by (simp add: timers_after_def)

lemma timers_after_trans: "timers_after t k k1 \<Longrightarrow> timers_after t k1 k' \<Longrightarrow> timers_after t k k'"
  unfolding timers_after_def by auto

lemma quiet_after:
  assumes "timers_ok k" "timer_list k' = timer_list k" "set (fired_list k') \<subseteq> set (fired_list k)"
    "length (fired_list k') \<le> length (fired_list k)" "tick k' = tick k"
    "\<forall>r\<in>linked_timers k. timeout_tick (timers k' r) = timeout_tick (timers k r) \<and> (timer_fits k r \<longrightarrow> timer_fits k' r)"
  shows "timers_after t k k'"
proof -
  have l: "timer_left k' r = timer_left k r" if "r \<in> set (timer_list k)" for r
    using that assms(5,6) by (simp add: timer_left_def linked_timers_def)
  then have m: "map (timer_left k') (timer_list k) = map (timer_left k) (timer_list k)" by simp
  have "timers_sorted k'" unfolding timers_sorted_def assms(2) m using assms(1) l by (simp add: timers_ok_def timers_sorted_def)
  moreover have "linked_timers k' \<subseteq> linked_timers k" using assms(2,3) by (auto simp: linked_timers_def)
  then have "\<forall>r\<in>linked_timers k'. timer_fits k' r" using assms(1,6) by (auto simp: timers_ok_def)
  moreover have "due_timers k' \<subseteq> due_timers k" using l assms(2) by (auto simp: due_timers_def)
  ultimately show ?thesis using assms l by (simp add: timers_after_def timers_ok_def)
qed

lemma timer_fits_start:
  assumes "rt_timer_start r k = Some (e, k')"
  shows "timer_fits k' u \<longleftrightarrow> timer_fits k u" "timer_left k' u = (if u = r then unat (init_tick (timers k r)) else timer_left k u)"
    "fired_list k' = remove1 r (fired_list k)" "tick k' = tick k"
  using assms
  by (auto simp: rt_timer_start_def Let_def timer_deactivate_def timer_remove_def timer_fits_def rt_object_get_type_def
      timer_left_def split: timer_ref.splits timer_callback.splits if_splits)

lemma start_after:
  assumes k: "timers_ok k" and r: "r \<noteq> Thread_timer t" "timer_fits k r" "0 < init_tick (timers k r)"
    "init_tick (timers k r) < RT_TICK_MAX_HALF" "rt_timer_start r k = Some (e, k')"
  shows "timers_after t k k'"
proof -
  have ty: "rt_object_get_type (Obj_Timer r) k = class_code Class_Timer"
    using r(5) by (auto simp: rt_timer_start_def bind_eq_Some_conv)
  have ts: "timers_sorted k" using k by (simp add: timers_ok_def)
  obtain as bs where k': "timers_sorted k'" "remove1 r (timer_list k) = as @ bs" "timer_list k' = as @ r # bs"
    using timer_start_sorted [OF ts ty r(4)] r(5) by auto
  note f = timer_fits_start [OF r(5)]
  have d: "set (as @ bs) = set (timer_list k) - {r}"
    using k'(2) ts set_remove1_eq [of "timer_list k" r] by (simp add: timers_sorted_def)
  then have l: "set (timer_list k') = insert r (set (timer_list k))" using k'(3) by auto
  have fl: "set (fired_list k') \<subseteq> set (fired_list k)" "length (fired_list k') \<le> length (fired_list k)"
    using f(3) set_remove1_subset [of r "fired_list k"] by (simp_all add: length_remove1)
  then have "\<forall>u\<in>linked_timers k'. timer_fits k' u" using k r(2) f(1) l by (auto simp: timers_ok_def linked_timers_def)
  moreover have "0 < unat (init_tick (timers k r))" using r(3) by (simp add: word_less_nat_alt)
  then have "due_timers k' \<subseteq> due_timers k" using l f(2) by (auto simp: due_timers_def split: if_splits)
  ultimately show ?thesis using k'(1) f(2,4) fl l r(1) by (auto simp: timers_after_def timers_ok_def)
qed

lemma remove_after:
  assumes k: "timers_ok k" and r: "r \<noteq> Thread_timer t"
    and k': "timer_list k' = remove1 r (timer_list k)" "fired_list k' = remove1 r (fired_list k)" "tick k' = tick k"
    "timers k' = timers k" "\<And>u. timer_fits k' u = timer_fits k u"
  shows "timers_after t k k'"
proof -
  have d: "distinct (timer_list k)" "sorted (map (timer_left k) (timer_list k))" using k by (simp_all add: timers_ok_def timers_sorted_def)
  have l: "set (timer_list k') = set (timer_list k) - {r}" using k'(1) set_remove1_eq [OF d(1)] by simp
  have tl: "timer_left k' = timer_left k" using k'(3,4) by (simp add: timer_left_def fun_eq_iff)
  have "timers_sorted k'" using k l d sorted_remove1_map [OF d(2), of r]
    unfolding timers_sorted_def tl k'(1) by (auto simp: timers_ok_def timers_sorted_def dest: notin_set_remove1)
  moreover have fl: "set (fired_list k') \<subseteq> set (fired_list k)" "length (fired_list k') \<le> length (fired_list k)"
    using k'(2) set_remove1_subset [of r "fired_list k"] by (simp_all add: length_remove1)
  then have "\<forall>u\<in>linked_timers k'. timer_fits k' u" using k k'(5) l by (auto simp: timers_ok_def linked_timers_def)
  ultimately show ?thesis using l tl fl k'(3) r by (auto simp: timers_after_def timers_ok_def due_timers_def)
qed

lemma timer_fits_obj:
  assumes "timers k' = timers k" "\<And>x. obj_type (objs k' x) = obj_type (objs k x)"
  shows "timer_fits k' u = timer_fits k u"
  using assms by (simp add: timer_fits_def rt_object_get_type_def split: timer_ref.split)

lemma stop_after:
  assumes "timers_ok k" "r \<noteq> Thread_timer t" "rt_timer_stop r k = Some (e, k')"
  shows "timers_after t k k'"
proof (cases "k' = k")
  case False
  then have e: "k' = timer_deactivate r k" using assms(3) by (auto simp: rt_timer_stop_def bind_eq_Some_conv split: if_splits)
  have "timer_fits k' u = timer_fits k u" for u
    unfolding e by (rule timer_fits_obj) (simp_all add: timer_deactivate_def timer_remove_def)
  then show ?thesis by (intro remove_after [OF assms(1,2)]) (simp_all add: e timer_deactivate_def timer_remove_def)
qed (simp add: timers_after_refl assms(1))

lemma other_timers_after: "other_timers t k k' \<Longrightarrow> timers_ok k \<Longrightarrow> timers_after t k k'"
proof (induction rule: other_timers.induct)
  case (and_then k k1 k')
  then have "timers_after t k k1" by simp
  moreover from this have "timers_after t k1 k'" using and_then by (simp add: timers_after_def)
  ultimately show ?case by (rule timers_after_trans)
qed (auto intro: quiet_after start_after stop_after)


section \<open>Firing a timer\<close>

text \<open>
  The two stages of the sleeping thread: waiting with its timer due in \<open>l\<close> ticks, and able to
  run with the error of a timeout.
\<close>

definition asleep :: "tid \<Rightarrow> nat \<Rightarrow> kernel \<Rightarrow> bool" where
  "asleep t l k \<longleftrightarrow> tstat k t = RT_THREAD_SUSPEND \<and> Thread_timer t \<in> set (timer_list k) \<and> timer_left k (Thread_timer t) = l"

definition awake :: "tid \<Rightarrow> kernel \<Rightarrow> bool" where
  "awake t k \<longleftrightarrow> runnable k t \<and> thread_error (threads k t) = - RT_ETIMEOUT"

definition follows :: "tid \<Rightarrow> kernel \<Rightarrow> kernel \<Rightarrow> bool" where
  "follows t k k' \<longleftrightarrow> saved k' t = saved k t \<and> (awake t k \<longrightarrow> awake t k') \<and>
     (\<forall>l. asleep t l k \<longrightarrow> asleep t l k' \<or> l = 0 \<and> awake t k')"

lemma follows_refl [simp]: "follows t k k"
  by (simp add: follows_def)

lemma follows_trans: "follows t k k1 \<Longrightarrow> follows t k1 k' \<Longrightarrow> follows t k k'"
  unfolding follows_def by metis

lemma follows_after:
  assumes "timers_after t k k'" "saved k' t = saved k t" "thread_error (threads k' t) = thread_error (threads k t)"
    "tstat k t = RT_THREAD_SUSPEND \<longrightarrow> tstat k' t = RT_THREAD_SUSPEND" "runnable k t \<longrightarrow> runnable k' t"
  shows "follows t k k'"
  using assms by (auto simp: follows_def asleep_def awake_def timers_after_def)

lemma beside_follows:
  assumes "clock_ok k" "beside t k k'"
  shows "clock_ok k'" "timers_after t k k'" "follows t k k'"
proof -
  show a: "timers_after t k k'" using assms other_timers_after by (simp add: beside_def clock_ok_def)
  then show "clock_ok k'" using assms by (simp add: beside_def clock_ok_def timers_after_def)
  show "follows t k k'" by (rule follows_after [OF a]) (use assms(2) in \<open>simp_all add: beside_def\<close>)
qed

lemma timer_remove_after:
  assumes "timers_ok k" "r \<noteq> Thread_timer t"
  shows "timers_after t k (timer_remove r k)"
  by (rule remove_after [OF assms]) (simp_all add: timer_remove_def timer_fits_def rt_object_get_type_def split: timer_ref.split)

text \<open>One pass of the expiry loop.\<close>

definition fires :: "tid \<Rightarrow> timer_ref \<Rightarrow> kernel \<Rightarrow> kernel \<Rightarrow> bool" where
  "fires t r k k' \<longleftrightarrow> clock_ok k' \<and> fired_list k' = [] \<and> tick k' = tick k \<and> due_timers k' \<subseteq> due_timers k - {r} \<and> follows t k k'"

lemma fire_thread:
  assumes c: "clock_ok k" and f: "fired_list k = []" and r: "Thread_timer u \<in> set (timer_list k)" "timer_left k (Thread_timer u) = 0"
  shows "\<exists>k'. timer_fire ucb (Thread_timer u) k = Some k' \<and> fires t (Thread_timer u) k k'"
proof -
  let ?r = "Thread_timer u"
  have s: "sinv k" "current k \<noteq> None" and k: "timers_ok k" using c by (simp_all add: clock_ok_def)
  obtain k' where k': "timer_fire ucb ?r k = Some k'" "sinv k'" "current k' \<noteq> None"
     "timer_list k' = remove1 ?r (timer_list k)" "timers k' = timers k" "tick k' = tick k" "fired_list k' = []"
     "runnable k' u" "\<forall>v. runnable k v \<longrightarrow> runnable k' v"
     "\<forall>v. thread_error (threads k' v) = (if v = u then - RT_ETIMEOUT else thread_error (threads k v))" "timed_out u k k'"
    using thread_timer_fire [OF s r(1), of ucb] f by auto
  have i: "ipc_frame k k'" "saved k' = saved k" using k'(11) by (simp_all add: timed_out_def)
  have fit: "timer_fits k' v = timer_fits k v" for v
    using k'(5) i(1) by (simp add: timer_fits_def rt_object_get_type_def ipc_frame_def split: timer_ref.split)
  have d: "distinct (timer_list k)" "sorted (map (timer_left k) (timer_list k))" using k by (simp_all add: timers_ok_def timers_sorted_def)
  have l: "set (timer_list k') = set (timer_list k) - {?r}" using k'(4) set_remove1_eq [OF d(1)] by simp
  have tl: "timer_left k' = timer_left k" using k'(5,6) by (simp add: timer_left_def fun_eq_iff)
  have "timers_sorted k'" using k l d sorted_remove1_map [OF d(2), of ?r]
    unfolding timers_sorted_def tl k'(4) by (auto simp: timers_ok_def timers_sorted_def dest: notin_set_remove1)
  moreover have "\<forall>v\<in>linked_timers k'. timer_fits k' v" using k fit l f k'(7) by (auto simp: timers_ok_def linked_timers_def)
  ultimately have "clock_ok k'" using k'(2,3) by (simp add: clock_ok_def timers_ok_def)
  moreover have "due_timers k' \<subseteq> due_timers k - {?r}" using l tl by (auto simp: due_timers_def)
  moreover have "follows t k k'"
  proof -
    have "tstat k' t = RT_THREAD_SUSPEND" if "Thread_timer t \<in> set (timer_list k')"
      using that k'(2) by (simp add: sinv_def tinv_def)
    then show ?thesis using i(2) k'(8-10) l tl r(2) by (auto simp: follows_def asleep_def awake_def)
  qed
  ultimately show ?thesis using k'(1,6,7) by (auto simp: fires_def)
qed

lemma timer_start_user_sinv:
  assumes "sinv k" "rt_timer_start (Timer n) k = Some (e, k')"
  shows "sinv k'"
proof -
  define k1 where "k1 = timer_deactivate (Timer n) k"
  note d = user_deactivate [OF assms(1), of n, folded k1_def]
  obtain p where e: "k' = k1\<lparr>timers := (timers k1)(Timer n := (timers k1 (Timer n))\<lparr>timeout_tick := tick k1 + init_tick (timers k1 (Timer n))\<rparr>),
         timer_list := insert_at p (Timer n) (timer_list k1),
         objs := (objs k1)(Obj_Timer (Timer n) := (objs k1 (Obj_Timer (Timer n)))\<lparr>obj_flag :=
             obj_flag (objs k1 (Obj_Timer (Timer n))) OR 1\<rparr>)\<rparr>"
    using assms(2) by (auto simp: rt_timer_start_def Let_def k1_def [symmetric] bind_eq_Some_conv)
  have "tinv k'" unfolding e
    by (rule user_timer_tinv [of k1]) (use d(1,3) in \<open>auto simp: sinv_def tinv_def\<close>)
  then show ?thesis by (rule timer_rel_sinv [OF timer_start_rel [OF assms(2)] _ assms(1)])
qed

lemma user_change_sinv:
  assumes "sinv k" "timer_rel k k'" "timers k' = timers k" "timer_list k' = remove1 (Timer n) (timer_list k) \<or> timer_list k' = timer_list k"
    "\<And>x. (\<forall>n. x \<noteq> Obj_Timer (Timer n)) \<Longrightarrow> objs k' x = objs k x"
  shows "sinv k'"
proof -
  have d: "distinct (timer_list k)" "tinv k" using assms(1) by (simp_all add: sinv_def tinv_def)
  have "tinv k'"
    by (rule user_timer_tinv [OF d(2) timer_rel_frame(1) [OF assms(2)]])
      (use assms(3-5) d(1) in \<open>auto simp: set_remove1_eq\<close>)
  then show ?thesis by (rule timer_rel_sinv [OF assms(2) _ assms(1)])
qed


lemma clock_follows:
  assumes "clock_ok k" "timers_after t k k'" "timer_rel k k'" "sinv k'"
  shows "clock_ok k'" "follows t k k'"
proof -
  note fr = timer_rel_frame [OF assms(3)]
  show "clock_ok k'" using assms fr by (simp add: clock_ok_def timers_after_def)
  show "follows t k k'" by (rule follows_after [OF assms(2)]) (simp_all add: fr runnable_def)
qed

text \<open>A periodic timer that the timeout function left running is started again.\<close>

lemma fire_restart:
  assumes c: "clock_ok k" and f: "fired_list k = [Timer n]" and x: "timer_fits k (Timer n)"
    and k5: "k5 = timer_remove (Timer n) k"
  defines "fl \<equiv> obj_flag (objs k5 (Obj_Timer (Timer n)))"
  shows "\<exists>k'. (if fl AND 2 \<noteq> 0 \<and> fl AND 1 \<noteq> 0 then
           do { (_, k6) \<leftarrow> rt_timer_start (Timer n) (upd_obj (Obj_Timer (Timer n)) (\<lambda>ob. ob\<lparr>obj_flag := obj_flag ob AND NOT 1\<rparr>) k5);
                Some k6 } else Some k5) = Some k' \<and>
     clock_ok k' \<and> fired_list k' = [] \<and> timers_after t k k' \<and> follows t k k'"
proof -
  let ?r = "Timer n"
  let ?k = "upd_obj (Obj_Timer ?r) (\<lambda>ob. ob\<lparr>obj_flag := obj_flag ob AND NOT 1\<rparr>) k5"
  have s: "sinv k" and ok: "timers_ok k" using c by (simp_all add: clock_ok_def)
  have a5: "timers_after t k k5" unfolding k5 by (rule timer_remove_after [OF ok]) simp
  have r5: "timer_rel k k5" by (simp add: k5 timer_rel_def timer_remove_def)
  have s5: "sinv k5" by (rule user_change_sinv [OF s r5]) (auto simp: k5 timer_remove_def)
  note c5 = clock_follows [OF c a5 r5 s5]
  have f5: "fired_list k5 = []" using f by (simp add: k5 timer_remove_def)
  show ?thesis
  proof (cases "fl AND 2 \<noteq> 0 \<and> fl AND 1 \<noteq> 0")
    case False
    then show ?thesis using c5 f5 a5 by (intro exI [of _ k5]) (simp only: if_False simp_thms)
  next
    case True
    have ok5: "timers_ok k5" using c5(1) by (simp add: clock_ok_def)
    have r6: "timer_rel k5 ?k" by (simp add: timer_rel_def)
    have s6: "sinv ?k" by (rule user_change_sinv [OF s5 r6, of n]) simp_all
    have fit: "timer_fits ?k u = timer_fits k u" for u
      by (simp add: k5 timer_remove_def timer_fits_def rt_object_get_type_def split: timer_ref.split)
    have fit5: "timer_fits ?k u = timer_fits k5 u" for u
      by (simp add: timer_fits_def rt_object_get_type_def split: timer_ref.split)
    have a6: "timers_after t k5 ?k" by (rule quiet_after [OF ok5]) (auto simp: timer_fits_def rt_object_get_type_def split: timer_ref.split)
    note c6 = clock_follows [OF c5(1) a6 r6 s6]
    have ok6: "timers_ok ?k" using c6(1) by (simp add: clock_ok_def)
    have x6: "timer_fits ?k ?r" using x fit by simp
    then have i6: "rt_object_get_type (Obj_Timer ?r) ?k = class_code Class_Timer" "0 < init_tick (timers ?k ?r)"
        "init_tick (timers ?k ?r) < RT_TICK_MAX_HALF" by (simp_all add: timer_fits_def)
    have "timers_sorted ?k" using ok6 by (simp add: timers_ok_def)
    from timer_start_sorted [OF this i6(1,3)] obtain k' where k': "rt_timer_start ?r ?k = Some (RT_EOK, k')" by blast
    have a': "timers_after t ?k k'" by (rule start_after [OF ok6 _ x6 i6(2,3) k']) simp
    have s': "sinv k'" by (rule timer_start_user_sinv [OF s6 k'])
    note c' = clock_follows [OF c6(1) a' timer_start_rel [OF k'] s']
    have "fired_list k' = []" using timer_fits_start(3) [OF k'] f5 by simp
    moreover have "timers_after t k k'" by (rule timers_after_trans [OF timers_after_trans [OF a5 a6] a'])
    moreover have "follows t k k'" by (rule follows_trans [OF follows_trans [OF c5(2) c6(2)] c'(2)])
    ultimately show ?thesis unfolding if_P [OF True] k' using c'(1) by simp
  qed
qed

lemma fire_user:
  assumes c: "clock_ok k" and f: "fired_list k = []" and r: "Timer n \<in> set (timer_list k)" and cb: "callbacks_ok t ucb"
  shows "\<exists>k'. timer_fire ucb (Timer n) k = Some k' \<and> fires t (Timer n) k k'"
proof -
  let ?r = "Timer n"
  have s: "sinv k" "current k \<noteq> None" and ok: "timers_ok k" using c by (simp_all add: clock_ok_def)
  have x: "timer_fits k ?r" using ok r by (simp add: timers_ok_def linked_timers_def)
  define k1 where "k1 = timer_remove ?r k"
  define k2 where "k2 = (if obj_flag (objs k1 (Obj_Timer ?r)) AND 2 = 0
     then upd_obj (Obj_Timer ?r) (\<lambda>ob. ob\<lparr>obj_flag := obj_flag ob AND NOT 1\<rparr>) k1 else k1)"
  define k3 where "k3 = k2\<lparr>fired_list := ?r # fired_list k2\<rparr>"
  have k2: "timer_list k2 = remove1 ?r (timer_list k)" "fired_list k2 = []" "timers k2 = timers k" "tick k2 = tick k"
    using f by (simp_all add: k2_def k1_def timer_remove_def)
  have fit2: "timer_fits k2 u = timer_fits k u" and fit3: "timer_fits k3 u = timer_fits k u" for u
    by (simp_all add: k3_def k2_def k1_def timer_remove_def timer_fits_def rt_object_get_type_def split: timer_ref.split)
  have r3: "timer_rel k k3" by (simp add: timer_rel_def k3_def k2_def k1_def timer_remove_def)
  have s3: "sinv k3"
    by (rule user_change_sinv [OF s(1) r3, of n]) (auto simp: k3_def k2_def k1_def timer_remove_def)
  have a2: "timers_after t k k2" by (rule remove_after [OF ok, of ?r]) (simp_all add: k2 f fit2)
  have tl3: "timer_left k3 = timer_left k2" by (simp add: timer_left_def k3_def fun_eq_iff)
  have o2: "timers_sorted k2" "\<forall>u\<in>set (timer_list k2). timer_fits k u"
    using a2 fit2 by (simp_all add: timers_after_def timers_ok_def linked_timers_def)
  have "timers_sorted k3" using o2(1) tl3 by (simp add: timers_sorted_def k3_def)
  then have "timers_ok k3" using o2(2) fit3 x k2(2) by (simp add: timers_ok_def linked_timers_def k3_def)
  then have c3: "clock_ok k3" using s3 s(2) timer_rel_frame(6) [OF r3] by (simp add: clock_ok_def)
  have fo3: "follows t k k3"
    using a2 timer_rel_frame(1,8) [OF r3] tl3
    by (auto simp: follows_def asleep_def awake_def timers_after_def runnable_def k3_def)
  have d: "distinct (timer_list k)" using ok by (simp add: timers_ok_def timers_sorted_def)
  have d3: "due_timers k3 \<subseteq> due_timers k - {?r}"
    using a2 d unfolding due_timers_def tl3 by (auto simp: k3_def k2 timers_after_def due_timers_def)
  obtain m where m: "timeout_func (timers k ?r) = User_timeout m"
    using x by (auto simp: timer_fits_def split: timer_callback.splits)
  obtain k4 where k4: "ucb m k3 = Some k4" "beside t k3 k4" using cb c3 unfolding callbacks_ok_def by blast
  note b = beside_follows [OF c3 k4(2)]
  have f3: "fired_list k3 = [?r]" using k2(2) by (simp add: k3_def)
  have l3: "timeout_func (timers k3 ?r) = User_timeout m" "tick k3 = tick k" using m k2 by (simp_all add: k3_def)
  have fire: "timer_fire ucb ?r k = (if fired_list k4 = [] then Some k4
        else let k5 = timer_remove ?r k4; fl = obj_flag (objs k5 (Obj_Timer ?r))
          in if fl AND 2 \<noteq> 0 \<and> fl AND 1 \<noteq> 0 then
               do { (_, k6) \<leftarrow> rt_timer_start ?r (upd_obj (Obj_Timer ?r) (\<lambda>ob. ob\<lparr>obj_flag := obj_flag ob AND NOT 1\<rparr>) k5); Some k6 }
             else Some k5)"
    unfolding timer_fire_def Let_def k1_def [symmetric] k2_def [symmetric] k3_def [symmetric] l3(1) call_timeout_def
    using k4(1) by simp
  have f4: "fired_list k4 = [] \<or> fired_list k4 = [?r]"
  proof -
    have "set (fired_list k4) \<subseteq> {?r}" "length (fired_list k4) \<le> 1" using b(2) f3 by (simp_all add: timers_after_def)
    then show ?thesis by (cases "fired_list k4") auto
  qed
  have t4: "tick k4 = tick k" "due_timers k4 \<subseteq> due_timers k - {?r}" "follows t k k4"
    using b(2) l3(2) d3 follows_trans [OF fo3 b(3)] by (auto simp: timers_after_def)
  show ?thesis
  proof (cases "fired_list k4 = []")
    case True
    then show ?thesis using fire b(1) t4 by (simp add: fires_def)
  next
    case False
    then have l4: "fired_list k4 = [?r]" using f4 by simp
    have "timer_fits k4 ?r" using b(1) l4 by (simp add: clock_ok_def timers_ok_def linked_timers_def)
    from fire_restart [OF b(1) l4 this refl, of t] obtain k' where k':
      "timer_fire ucb ?r k = Some k'" "clock_ok k'" "fired_list k' = []" "timers_after t k4 k'" "follows t k4 k'"
      unfolding fire if_not_P [OF False] Let_def by blast
    have "tick k' = tick k" "due_timers k' \<subseteq> due_timers k - {?r}" using k'(4) t4(1,2) by (auto simp: timers_after_def)
    then show ?thesis using k' follows_trans [OF t4(3) k'(5)] by (auto simp: fires_def)
  qed
qed

text \<open>The whole loop: it ends, nothing is due any more, and the sleeping thread has been served.\<close>

lemma due_left:
  assumes "timers_ok k" "r \<in> set (timer_list k)"
  shows "tick k - timeout_tick (timers k r) < RT_TICK_MAX_HALF \<longleftrightarrow> timer_left k r = 0"
  using expired_after [of "timeout_tick (timers k r)" "tick k" 0] assms
  by (simp add: timers_ok_def timers_sorted_def timer_left_def)

lemma check_loop_serves:
  assumes "clock_ok k" "fired_list k = []" "callbacks_ok t ucb"
  shows "\<exists>k'. timer_check_loop ucb (tick k) k = Some k' \<and> clock_ok k' \<and> fired_list k' = [] \<and> tick k' = tick k \<and>
     due_timers k' = {} \<and> follows t k k'"
  using assms(1,2)
proof (induction "card (due_timers k)" arbitrary: k rule: less_induct)
  case less
  have ok: "timers_ok k" using less.prems(1) by (simp add: clock_ok_def)
  show ?case
  proof (cases "timer_list k")
    case Nil
    then show ?thesis using less.prems by (intro exI [of _ k]) (simp add: timer_check_loop.simps due_timers_def)
  next
    case (Cons r rs)
    have m: "r \<in> set (timer_list k)" using Cons by simp
    show ?thesis
    proof (cases "timer_left k r = 0")
      case False
      have "timer_check_loop ucb (tick k) k = Some k"
        using Cons due_left [OF ok m] False by (simp add: timer_check_loop.simps)
      moreover have "sorted (map (timer_left k) (r # rs))" using ok Cons by (simp add: timers_ok_def timers_sorted_def)
      then have "due_timers k = {}" using False Cons by (auto simp: due_timers_def)
      ultimately show ?thesis using less.prems by (intro exI [of _ k]) simp
    next
      case True
      obtain k1 where k1: "timer_fire ucb r k = Some k1" "fires t r k k1"
        using fire_thread [OF less.prems] fire_user [OF less.prems _ assms(3)] m True by (cases r) blast+
      have "r \<in> due_timers k" using m True by (simp add: due_timers_def)
      then have "due_timers k1 \<subset> due_timers k" using k1(2) by (auto simp: fires_def)
      then have "card (due_timers k1) < card (due_timers k)" by (rule psubset_card_mono [OF due_finite])
      from less.hyps [OF this] k1(2) obtain k' where k':
        "timer_check_loop ucb (tick k) k1 = Some k'" "clock_ok k'" "fired_list k' = []" "tick k' = tick k"
        "due_timers k' = {}" "follows t k1 k'" by (auto simp: fires_def)
      have "timer_check_loop ucb (tick k) k = Some k'"
        using Cons due_left [OF ok m] True k1 k'(1) by (simp add: timer_check_loop.simps [of ucb _ k] fires_def)
      moreover have "follows t k k'" using k1(2) k'(6) follows_trans by (auto simp: fires_def)
      ultimately show ?thesis using k' by blast
    qed
  qed
qed


section \<open>A tick\<close>

lemma clock_neutral:
  assumes "clock_ok k" "sinv k'" "current k' \<noteq> None" "timers k' = timers k" "timer_list k' = timer_list k"
    "set (fired_list k') \<subseteq> set (fired_list k)" "tick k' = tick k" "\<And>x. obj_type (objs k' x) = obj_type (objs k x)"
    "saved k' t = saved k t" "thread_error (threads k' t) = thread_error (threads k t)"
    "tstat k t = RT_THREAD_SUSPEND \<longrightarrow> tstat k' t = RT_THREAD_SUSPEND" "runnable k t \<longrightarrow> runnable k' t"
  shows "clock_ok k'" "follows t k k'"
proof -
  have l: "timer_left k' = timer_left k" using assms(4,7) by (simp add: timer_left_def fun_eq_iff)
  have "linked_timers k' \<subseteq> linked_timers k" using assms(5,6) by (auto simp: linked_timers_def)
  moreover have "timer_fits k' r = timer_fits k r" for r by (rule timer_fits_obj [OF assms(4,8)])
  ultimately show "clock_ok k'" using assms(1,2,3,5) l by (auto simp: clock_ok_def timers_ok_def timers_sorted_def)
  show "follows t k k'" using assms(5,9-12) l by (simp add: follows_def asleep_def awake_def)
qed

lemma tick_shift:
  fixes k and n :: u8
  assumes "clock_ok k" "due_timers k = {}"
  defines "k' \<equiv> k\<lparr>irq_nest := n, tick := tick k + 1\<rparr>"
  shows "clock_ok k'" "awake t k \<longrightarrow> awake t k'" "asleep t (Suc l) k \<longrightarrow> asleep t l k'"
proof -
  have ok: "timers_ok k" and s: "sinv k" "current k \<noteq> None" using assms(1) by (simp_all add: clock_ok_def)
  have l: "timer_left k r = Suc (timer_left k' r)" if "r \<in> set (timer_list k)" for r
  proof -
    let ?d = "timeout_tick (timers k r) - tick k"
    have "timer_left k r \<noteq> 0" using that assms(2) by (auto simp: due_timers_def)
    then have "1 \<le> unat ?d" by (simp add: timer_left_def)
    then have "unat (?d - 1) = unat ?d - 1" by (simp add: unat_sub_if')
    moreover have "timeout_tick (timers k' r) - tick k' = ?d - 1" by (simp add: k'_def)
    ultimately show ?thesis using \<open>1 \<le> unat ?d\<close> by (simp add: timer_left_def)
  qed
  have s': "sinv k'" "current k' \<noteq> None" using s sinv_cong [of k' k] by (simp_all add: k'_def)
  have "sorted_wrt (\<lambda>x y. timer_left k x \<le> timer_left k y) (timer_list k)"
    using ok by (simp add: timers_ok_def timers_sorted_def sorted_map)
  then have "sorted_wrt (\<lambda>x y. timer_left k' x \<le> timer_left k' y) (timer_list k)"
    by (rule sorted_wrt_mono_rel [rotated]) (simp add: l)
  then have "sorted (map (timer_left k') (timer_list k))" by (simp add: sorted_map)
  moreover have "timer_left k' r < 0x7fffffff" if "r \<in> set (timer_list k)" for r
  proof -
    have "timer_left k r < 0x7fffffff" using ok that unfolding timers_ok_def timers_sorted_def by blast
    then show ?thesis using l [OF that] by simp
  qed
  moreover have "timer_fits k' r = timer_fits k r" for r by (rule timer_fits_obj) (simp_all add: k'_def)
  ultimately have "timers_ok k'" using ok by (simp add: timers_ok_def timers_sorted_def linked_timers_def k'_def)
  then show "clock_ok k'" using s' by (simp add: clock_ok_def)
  show "awake t k \<longrightarrow> awake t k'" by (simp add: awake_def k'_def runnable_def)
  show "asleep t (Suc l) k \<longrightarrow> asleep t l k'" using l [of "Thread_timer t"] by (auto simp: asleep_def k'_def)
qed

lemma tick_serves:
  assumes c: "clock_ok k" "due_timers k = {}" and cb: "callbacks_ok t ucb"
  shows "\<exists>k'. SysTick_Handler ucb k = Some k' \<and> clock_ok k' \<and> due_timers k' = {} \<and> saved k' t = saved k t \<and>
     (awake t k \<longrightarrow> awake t k') \<and> (\<forall>l. asleep t (Suc l) k \<longrightarrow> (if l = 0 then awake t k' else asleep t l k'))"
proof -
  obtain u where u: "current k = Some u" using c(1) by (auto simp: clock_ok_def)
  define k1 where "k1 = k\<lparr>irq_nest := irq_nest k + 1, tick := tick k + 1\<rparr>"
  note s1 = tick_shift [OF c, where n = "irq_nest k + 1", folded k1_def]
  have u1: "current k1 = Some u" "saved k1 = saved k" using u by (simp_all add: k1_def)
  have i1: "sinv k1" using s1(1) by (simp add: clock_ok_def)
  define k2 where "k2 = upd_thread u (\<lambda>th. th\<lparr>remaining_tick := remaining_tick th - 1\<rparr>) k1"
  have i2: "sinv k2" unfolding k2_def using i1 by (subst sinv_upd_neutral) simp_all
  have "current k2 \<noteq> None" by (simp add: k2_def u1)
  note s2 = clock_neutral [OF s1(1) i2 this, of t]
  have s2: "clock_ok k2" "follows t k1 k2" by (rule s2; simp add: k2_def runnable_def)+
  let ?k2' = "upd_thread u (\<lambda>th. th\<lparr>remaining_tick := thread_init_tick th, stat := stat th OR RT_THREAD_STAT_YIELD\<rparr>) k2"
  obtain k3 where k3: "(if remaining_tick (threads k2 u) = 0 then rt_schedule ?k2' else Some k2) = Some k3"
      "clock_ok k3" "follows t k2 k3"
  proof (cases "remaining_tick (threads k2 u) = 0")
    case False
    then show ?thesis using that s2(1) by simp
  next
    case True
    have s': "sinv ?k2'" by (rule yield_flag_sinv [OF i2])
    have c': "current ?k2' \<noteq> None" by (simp add: k2_def u1)
    obtain k3 where k3: "rt_schedule ?k2' = Some k3" "sinv k3" "sched_rel ?k2' k3" "current k3 \<noteq> None"
      using rt_schedule_sinv [OF s' c'] by blast
    have a: "clock_ok ?k2'" "follows t k2 ?k2'"
      by (rule clock_neutral [OF s2(1) s' c', of t]; simp add: runnable_def)+
    note fr = sched_rel_frame [OF k3(3)]
    have run: "runnable ?k2' t \<longrightarrow> runnable k3 t" using k3(3) by (simp only: sched_rel_def) blast
    have b: "clock_ok k3" "follows t ?k2' k3"
      by (rule clock_neutral [OF a(1) k3(2,4), of t];
          use fr sched_rel_thread(3) [OF k3(3)] sched_rel_started(2) [OF k3(3), of t] run in \<open>simp only: order_refl simp_thms\<close>)+
    show ?thesis using that True k3(1) b(1) follows_trans [OF a(2) b(2)] by simp
  qed
  let ?k4 = "k3\<lparr>fired_list := []\<rparr>"
  have i3: "sinv k3" "current k3 \<noteq> None" using k3(2) by (simp_all add: clock_ok_def)
  have "sinv ?k4" "current ?k4 \<noteq> None" using i3 sinv_cong [of ?k4 k3] by simp_all
  note s4 = clock_neutral [OF k3(2) this, of t]
  have s4: "clock_ok ?k4" "follows t k3 ?k4" by (rule s4; simp add: runnable_def)+
  obtain k5 where k5: "timer_check_loop ucb (tick ?k4) ?k4 = Some k5" "clock_ok k5" "due_timers k5 = {}" "follows t ?k4 k5"
    using check_loop_serves [OF s4(1) _ cb] by auto
  have i5: "sinv k5" "current k5 \<noteq> None" using k5(2) by (simp_all add: clock_ok_def)
  define k6 where "k6 = rt_interrupt_leave k5"
  have i6: "sinv k6" "current k6 \<noteq> None" using i5 sinv_cong [of k6 k5] by (simp_all add: k6_def rt_interrupt_leave_def)
  have s6: "clock_ok k6" "follows t k5 k6"
    by (rule clock_neutral [OF k5(2) i6, of t]; simp add: k6_def rt_interrupt_leave_def runnable_def)+
  have e1: "(rt_interrupt_enter k)\<lparr>tick := tick (rt_interrupt_enter k) + 1\<rparr> = k1"
    by (simp add: k1_def rt_interrupt_enter_def)
  have "rt_timer_check ucb k3 = Some k5" using k5(1) by (simp add: rt_timer_check_def)
  then have "rt_tick_increase ucb (rt_interrupt_enter k) = Some k5"
    unfolding rt_tick_increase_def Let_def e1 rt_thread_self_def u1(1) Option.bind.bind_lunit k2_def [symmetric] k3(1) .
  then have h: "SysTick_Handler ucb k = Some k6" by (simp add: SysTick_Handler_def k6_def)
  have d6: "due_timers k6 = {}" using k5(3) by (simp add: due_timers_def timer_left_def k6_def rt_interrupt_leave_def)
  have f: "follows t k1 k6"
    using s2(2) k3(3) s4(2) k5(4) s6(2) follows_trans by metis
  have "\<not> asleep t 0 k6" using d6 by (auto simp: asleep_def due_timers_def)
  moreover have "\<not> (asleep t l k6 \<and> awake t k6)" for l by (auto simp: asleep_def awake_def runnable_def)
  ultimately have "if l = 0 then awake t k6 else asleep t l k6" if "asleep t (Suc l) k" for l
    using f s1(3) [where t = t and l = l] that unfolding follows_def by (cases l) auto
  moreover have "awake t k \<longrightarrow> awake t k6" using f s1(2) by (simp add: follows_def)
  moreover have "saved k6 t = saved k t" using f u1(2) by (simp add: follows_def)
  ultimately show ?thesis using h s6(1) d6 by blast
qed


section \<open>Other threads\<close>

lemma quiet_trivial:
  assumes "timer_list k' = timer_list k" "fired_list k' = fired_list k" "tick k' = tick k" "timers k' = timers k"
    "\<And>x. obj_type (objs k' x) = obj_type (objs k x)"
  shows "other_timers t k k'"
  by (rule quiet) (use assms timer_fits_obj [OF assms(4,5)] in simp_all)

lemma arm_other:
  assumes "thread_arm u x k = Some k'" "u \<noteq> t" "0 < x"
  shows "other_timers t k k'"
proof -
  let ?k = "upd_timer (Thread_timer u) (\<lambda>tm. tm\<lparr>init_tick := x\<rparr>) k"
  obtain e where s: "rt_timer_start (Thread_timer u) ?k = Some (e, k')" "x < RT_TICK_MAX_HALF"
    using assms(1) by (auto simp: thread_arm_def rt_timer_control_def bind_eq_Some_conv split: if_splits)
  have "other_timers t k ?k"
    by (rule quiet) (auto simp: timer_fits_def rt_object_get_type_def split: timer_ref.split)
  moreover have "other_timers t ?k k'"
    by (rule start [OF _ _ _ _ s(1)]) (use assms s(2) in \<open>simp_all add: timer_fits_def\<close>)
  ultimately show ?thesis by (rule and_then)
qed

lemma schedule_other: "sched_rel k k' \<Longrightarrow> other_timers t k k'"
  by (rule quiet_trivial) (simp_all add: sched_rel_frame)

lemma sleep_for_other:
  assumes s: "sinv k" "current k = Some u" "tstat k u = RT_THREAD_RUNNING" "0 < x" "x < RT_TICK_MAX_HALF"
    and r: "thread_sleep_for u x k = Some k'" and t: "u \<noteq> t"
  shows "other_timers t k k'" "saved k' t = saved k t" "thread_error (threads k' t) = thread_error (threads k t)"
    "tstat k t = RT_THREAD_SUSPEND \<longrightarrow> tstat k' t = RT_THREAD_SUSPEND" "runnable k t \<longrightarrow> runnable k' t"
proof -
  let ?k1 = "upd_thread u (set_stat RT_THREAD_SUSPEND) k"
  note sp = suspend_ok [OF s(1-3)]
  obtain k2 where k2: "thread_arm u x ?k1 = Some k2" "sinv k2" "timer_rel ?k1 k2"
    using thread_arm_ok [OF sp(2,4) s(5)] by blast
  let ?k3 = "k2\<lparr>saved := (saved k2)(u := In_sleep)\<rparr>"
  have s3: "sinv ?k3" "current ?k3 \<noteq> None"
    using k2(2) sinv_cong [of ?k3 k2] timer_rel_frame(6) [OF k2(3)] s(2) by simp_all
  have "rt_schedule ?k3 = Some k'" using r sp(1) k2(1) by (simp add: thread_sleep_for_def)
  then have sr: "sched_rel ?k3 k'" using rt_schedule_sinv [OF s3] by auto
  have o1: "other_timers t k ?k1" and o3: "other_timers t k2 ?k3" by (rule quiet_trivial; simp)+
  show "other_timers t k k'"
    by (rule and_then [OF and_then [OF o1 arm_other [OF k2(1) t s(4)]] and_then [OF o3 schedule_other [OF sr]]])
  have th: "threads ?k3 t = threads k t" using timer_rel_frame(1) [OF k2(3)] t by simp
  show "saved k' t = saved k t" using sched_rel_frame(9) [OF sr] timer_rel_frame(8) [OF k2(3)] t by simp
  show "thread_error (threads k' t) = thread_error (threads k t)" using sched_rel_thread(3) [OF sr, of t] th by simp
  show "tstat k t = RT_THREAD_SUSPEND \<longrightarrow> tstat k' t = RT_THREAD_SUSPEND"
    using sched_rel_started(2) [OF sr, of t] th by simp
  have "runnable ?k3 t \<longrightarrow> runnable k' t" using sr unfolding sched_rel_def by blast
  then show "runnable k t \<longrightarrow> runnable k' t" using th by (simp add: runnable_def)
qed

text \<open>Steps that other parts of the system take beside a sleeping thread.\<close>

lemma beside_refl: "clock_ok k \<Longrightarrow> beside t k k"
  by (simp add: beside_def clock_ok_def quiet_trivial)

lemma beside_schedule:
  assumes "clock_ok k" "rt_schedule k = Some k'"
  shows "beside t k k'"
proof -
  have s: "sinv k'" "sched_rel k k'" "current k' \<noteq> None"
    using assms rt_schedule_sinv [of k] by (auto simp: clock_ok_def)
  have "runnable k t \<longrightarrow> runnable k' t" using s(2) unfolding sched_rel_def by blast
  then show ?thesis
    using s schedule_other [OF s(2)] sched_rel_frame(9) [OF s(2)] sched_rel_thread(3) [OF s(2)] sched_rel_started(2) [OF s(2)]
    by (simp add: beside_def)
qed

lemma beside_sleep:
  assumes c: "clock_ok k" "current k = Some u" "tstat k u = RT_THREAD_RUNNING" "u \<noteq> t" "0 < x" "x < RT_TICK_MAX_HALF"
    and r: "rt_thread_sleep x k = Some k'"
  shows "beside t k k'"
proof -
  let ?k = "upd_thread u (\<lambda>th. th\<lparr>thread_error := RT_EOK\<rparr>) k"
  have s: "sinv ?k" "current ?k = Some u" "tstat ?k u = RT_THREAD_RUNNING" using c(1-3) by (simp_all add: clock_ok_def)
  have r': "thread_sleep_for u x ?k = Some k'"
    using r c(2) by (auto simp: rt_thread_sleep_def rt_thread_self_def bind_eq_Some_conv Let_def)
  have k': "sinv k'" "current k' \<noteq> None" using sleep_for_ok [OF s c(6)] r' by auto
  note o = sleep_for_other [OF s c(5,6) r' c(4)]
  have "other_timers t k ?k" by (rule quiet_trivial) simp_all
  then show ?thesis using k' o c(4) and_then [OF _ o(1)] by (simp add: beside_def runnable_def)
qed

lemma beside_start:
  assumes "clock_ok k" "timer_fits k (Timer n)" "rt_timer_start (Timer n) k = Some (e, k')"
  shows "beside t k k'"
proof -
  have "other_timers t k k'" by (rule start [OF _ _ _ _ assms(3)]) (use assms(2) in \<open>simp_all add: timer_fits_def\<close>)
  then show ?thesis
    using assms(1) timer_start_user_sinv [OF _ assms(3)] timer_rel_frame [OF timer_start_rel [OF assms(3)]]
    by (simp add: beside_def clock_ok_def runnable_def)
qed

lemma beside_resume:
  assumes "clock_ok k" "tstat k u = RT_THREAD_SUSPEND" "u \<noteq> t" "rt_thread_resume u k = Some (e, k')"
  shows "beside t k k'"
proof -
  have r: "sinv k'" "resume_rel u k k'" using assms resume_ok [of k u] by (auto simp: clock_ok_def)
  note fr = resume_rel_frame [OF r(2)]
  obtain e' k2 where s: "rt_timer_stop (Thread_timer u) (list_remove u k) = Some (e', k2)"
    "rt_schedule_insert_thread u k2 = Some k'"
    using assms(2,4) by (auto simp: rt_thread_resume_def Let_def bind_eq_Some_conv split: if_splits)
  have "other_timers t k (list_remove u k)"
    by (rule quiet_trivial) (simp_all add: list_remove_def split: option.split)
  moreover have "other_timers t (list_remove u k) k2" by (rule stop [OF _ s(1)]) (use assms(3) in simp)
  moreover have "other_timers t k2 k'"
    by (rule quiet_trivial)
      (use s(2) in \<open>auto simp: rt_schedule_insert_thread_def list_insert_before_def list_insert_after_def
        list_insert_at_def Let_def split: if_splits\<close>)
  ultimately have "other_timers t k k'" by (blast intro: and_then)
  then show ?thesis using r(1) assms(1,3) fr(5,7) resume_rel_frame(14) [OF r(2), of t] by (simp add: beside_def clock_ok_def runnable_def)
qed
section \<open>Runs\<close>

text \<open>
  A run of the system from a state, with the number of ticks in it: interrupts of the tick, and
  between them what happens beside the sleeping thread.
\<close>

inductive passes :: "tid \<Rightarrow> (nat \<Rightarrow> kernel \<Rightarrow> kernel option) \<Rightarrow> kernel \<Rightarrow> nat \<Rightarrow> kernel \<Rightarrow> bool" for t ucb k0 where
  at_once: "passes t ucb k0 0 k0"
| others: "passes t ucb k0 n k \<Longrightarrow> beside t k k' \<Longrightarrow> passes t ucb k0 n k'"
| one_tick: "passes t ucb k0 n k \<Longrightarrow> SysTick_Handler ucb k = Some k' \<Longrightarrow> passes t ucb k0 (Suc n) k'"

lemma passes_stage:
  assumes "passes t ucb k0 n k" "clock_ok k0" "due_timers k0 = {}" "asleep t m k0" "0 < m" "callbacks_ok t ucb"
  shows "clock_ok k \<and> due_timers k = {} \<and> (if n < m then asleep t (m - n) k else awake t k)"
  using assms(1)
proof (induction rule: passes.induct)
  case at_once
  then show ?case using assms by simp
next
  case (others n k k')
  note b = beside_follows [OF _ others.hyps(2)]
  have "clock_ok k" "due_timers k = {}" using others.IH by simp_all
  with b have "clock_ok k'" "due_timers k' = {}" "follows t k k'" by (auto simp: timers_after_def)
  then show ?case using others.IH by (auto simp: follows_def split: if_splits)
next
  case (one_tick n k k')
  have "clock_ok k" "due_timers k = {}" using one_tick.IH by simp_all
  from tick_serves [OF this assms(6)] one_tick.hyps(2) have k': "clock_ok k'" "due_timers k' = {}"
    "awake t k \<longrightarrow> awake t k'" "\<forall>l. asleep t (Suc l) k \<longrightarrow> (if l = 0 then awake t k' else asleep t l k')" by auto
  show ?case
  proof (cases "n < m")
    case True
    then have "asleep t (Suc (m - Suc n)) k" using one_tick.IH by (simp add: Suc_diff_Suc)
    then show ?thesis using k' by (auto split: if_splits)
  next
    case False
    then show ?thesis using k' one_tick.IH by simp
  qed
qed

lemma sleep_stage:
  assumes c: "clock_ok k" "due_timers k = {}" "current k = Some t" "tstat k t = RT_THREAD_RUNNING" "0 < x" "x < RT_TICK_MAX_HALF"
  shows "\<exists>k'. rt_thread_sleep x k = Some k' \<and> clock_ok k' \<and> due_timers k' = {} \<and> asleep t (unat x) k' \<and> saved k' t = In_sleep"
proof -
  let ?k = "upd_thread t (\<lambda>th. th\<lparr>thread_error := RT_EOK\<rparr>) k"
  have s: "sinv ?k" "current ?k = Some t" "tstat ?k t = RT_THREAD_RUNNING" using c(1,3,4) by (simp_all add: clock_ok_def)
  have "timer_left ?k = timer_left k" "timer_fits ?k = timer_fits k" "linked_timers ?k = linked_timers k"
    by (auto simp: timer_left_def timer_fits_def rt_object_get_type_def linked_timers_def fun_eq_iff split: timer_ref.split)
  then have ok: "timers_ok ?k" "due_timers ?k = {}" using c(1,2) by (simp_all add: clock_ok_def timers_ok_def timers_sorted_def due_timers_def)
  obtain k' where k': "thread_sleep_for t x ?k = Some k'" "sinv k'" "current k' \<noteq> None"
     "tstat k' t = RT_THREAD_SUSPEND" "Thread_timer t \<in> set (timer_list k')" "saved k' t = In_sleep"
    using sleep_for_ok [OF s c(6)] by blast
  have "timers_sorted ?k" using ok by (simp add: timers_ok_def)
  note so = sleep_for_sorted [OF s c(6) this k'(1)]
  have "timers_after (Suc t) ?k k'"
    by (rule other_timers_after [OF sleep_for_other(1) [OF s c(5,6) k'(1)] ok(1)]) simp
  then have "clock_ok k'" "due_timers k' = {}" using ok k' by (auto simp: clock_ok_def timers_after_def)
  moreover have "started k t" using c(4) by (simp add: started_def runnable_def)
  then have "rt_thread_sleep x k = Some k'"
    using kinv_startedD(4) [of k t] c(1,3) k'(1)
    by (simp add: clock_ok_def rt_thread_sleep_def rt_thread_self_def rt_object_get_type_def)
  ultimately show ?thesis using k' so by (auto simp: asleep_def)
qed

text \<open>
  C14.  Sleeping: from a state whose timers are in order and not overdue, timers of the application
  among them, \<open>rt_thread_sleep x\<close> returns to the scheduler for every \<open>x\<close> from 1 to below
  \<open>RT_TICK_MAX / 2\<close>; and after every run in which the tick interrupt came \<open>n\<close> times, with other
  threads, handlers and timeout functions at work before, between and during the ticks, the next
  interrupt returns, and the thread still waits if \<open>n < x\<close>, while for \<open>n \<ge> x\<close> it can run and the
  rest of its call returns \<open>RT_EOK\<close>.  The condition on the others is \<open>beside\<close>: they keep the
  kernel invariant, start and stop other timers than that of the thread, with intervals other
  than 0, and do not resume the thread.  The tick may wrap around on the way.
\<close>

theorem sleep_wakes_on_time:
  assumes "clock_ok k" "due_timers k = {}" "current k = Some t" "tstat k t = RT_THREAD_RUNNING"
    and "0 < x" "x < RT_TICK_MAX_HALF" "callbacks_ok t ucb"
  shows "\<exists>k'. rt_thread_sleep x k = Some k' \<and>
     (\<forall>n k''. passes t ucb k' n k'' \<longrightarrow>
        (\<exists>k3. SysTick_Handler ucb k'' = Some k3) \<and>
        (if n < unat x then tstat k'' t = RT_THREAD_SUSPEND
         else runnable k'' t \<and> fst (rt_thread_sleep_finish t k'') = RT_EOK))"
proof -
  obtain k' where k': "rt_thread_sleep x k = Some k'" "clock_ok k'" "due_timers k' = {}" "asleep t (unat x) k'"
    using sleep_stage [OF assms(1-6)] by blast
  have "0 < unat x" using assms(5) by (simp add: word_less_nat_alt)
  then have st: "clock_ok k'' \<and> due_timers k'' = {} \<and> (if n < unat x then asleep t (unat x - n) k'' else awake t k'')"
    if "passes t ucb k' n k''" for n k''
    using passes_stage [OF that k'(2-4) _ assms(7)] by simp
  have "fst (rt_thread_sleep_finish t k'') = RT_EOK" if "awake t k''" for k''
    using that by (simp add: awake_def rt_thread_sleep_finish_def Let_def)
  then show ?thesis
    using k'(1) st tick_serves [OF _ _ assms(7)] by (fastforce simp: asleep_def awake_def)
qed

text \<open>
  The sample state with a periodic timer of the application of interval 3, due 3 ticks from now.
\<close>

definition sample_alarm_kernel :: kernel where
  "sample_alarm_kernel = sample_kernel\<lparr>timer_list := [Timer 0],
     objs := (objs sample_kernel)(Obj_Timer (Timer 0) := (sample_object (Obj_Timer (Timer 0)))\<lparr>obj_flag := 3\<rparr>),
     timers := (timers sample_kernel)(Timer 0 := \<lparr>timeout_func = User_timeout 0, init_tick = 3, timeout_tick = 103\<rparr>)\<rparr>"

lemma sample_alarm_clock: "clock_ok sample_alarm_kernel" "due_timers sample_alarm_kernel = {}"
  "current sample_alarm_kernel = Some 0" "tstat sample_alarm_kernel 0 = RT_THREAD_RUNNING"
proof -
  let ?k = sample_alarm_kernel
  have "tinv ?k"
    by (rule user_timer_tinv [of sample_kernel])
      (use sample_sinv in \<open>auto simp: sinv_def sample_alarm_kernel_def sample_kernel_def\<close>)
  moreover have "timer_rel sample_kernel ?k"
    by (simp add: timer_rel_def sample_alarm_kernel_def sample_kernel_def)
  ultimately have "sinv ?k" using timer_rel_sinv sample_sinv by blast
  moreover have "timers_ok ?k"
    by (simp add: timers_ok_def timers_sorted_def linked_timers_def timer_fits_def timer_left_def rt_object_get_type_def
        sample_alarm_kernel_def sample_kernel_def sample_object_def)
  ultimately show "clock_ok ?k" by (simp add: clock_ok_def sample_alarm_kernel_def sample_kernel_def)
  show "due_timers ?k = {}" by (simp add: due_timers_def timer_left_def sample_alarm_kernel_def sample_kernel_def)
  show "current ?k = Some 0" "tstat ?k 0 = RT_THREAD_RUNNING"
    by (simp_all add: sample_alarm_kernel_def sample_kernel_def sample_thread_def sample_stat_def)
qed

theorem sleep_wakes_on_time_witness:
  "\<exists>k' k9 k10. rt_thread_sleep 10 sample_alarm_kernel = Some k' \<and>
     passes 0 (\<lambda>_. Some) k' 9 k9 \<and> tstat k9 0 = RT_THREAD_SUSPEND \<and>
     passes 0 (\<lambda>_. Some) k' 10 k10 \<and> runnable k10 0 \<and> fst (rt_thread_sleep_finish 0 k10) = RT_EOK"
proof -
  have x: "(0::u32) < 10" "(10::u32) < RT_TICK_MAX_HALF" by simp_all
  have "callbacks_ok 0 (\<lambda>_. Some)" by (simp add: callbacks_ok_def beside_refl)
  from sleep_wakes_on_time [OF sample_alarm_clock x this] obtain k' where
    k': "rt_thread_sleep 10 sample_alarm_kernel = Some k'" and
    run: "\<forall>n k''. passes 0 (\<lambda>_. Some) k' n k'' \<longrightarrow> (\<exists>k3. SysTick_Handler (\<lambda>_. Some) k'' = Some k3) \<and>
        (if n < unat (10::u32) then tstat k'' 0 = RT_THREAD_SUSPEND
         else runnable k'' 0 \<and> fst (rt_thread_sleep_finish 0 k'') = RT_EOK)" by blast
  have "\<exists>k''. passes 0 (\<lambda>_. Some) k' n k''" for n
  proof (induction n)
    case 0
    show ?case using at_once by blast
  next
    case (Suc n)
    then show ?case using run one_tick by blast
  qed
  then obtain k9 k10 where p: "passes 0 (\<lambda>_. Some) k' 9 k9" "passes 0 (\<lambda>_. Some) k' 10 k10" by blast
  have n: "9 < unat (10::u32)" "\<not> 10 < unat (10::u32)" by simp_all
  have "tstat k9 0 = RT_THREAD_SUSPEND" using run p(1) n(1) by (metis (full_types))
  moreover have "runnable k10 0 \<and> fst (rt_thread_sleep_finish 0 k10) = RT_EOK" using run p(2) n(2) by (metis (full_types))
  ultimately show ?thesis using k' p by blast
qed

end
