(* ===== verification/Heap_Api.thy ===== *)
theory Heap_Api
  imports Heap_Contract Mutex Kservice
begin

text \<open>
  The system heap of \<^verbatim>\<open>rt-thread/src/kservice.c\<close>: \<open>rt_malloc\<close> and its relatives run an
  operation of \<^verbatim>\<open>mem.c\<close> (theories \<open>Small_Mem\<close> to \<open>Heap_Contract\<close>) between taking and releasing
  the mutex \<open>_lock\<close>.  The mutex has number \<open>L\<close> and the heap object number \<open>n\<close> in the kernel state.
  A call whose thread has to wait for the mutex stops there (\<open>Blocked\<close>); it goes on with
  the function \<open>..._resume\<close> when the thread runs again.  Hooks are off.
\<close>

section \<open>The lock\<close>

record heap_sys =
  kern :: kernel
  system_heap :: "rt_small_mem option"

datatype 'a heap_result = Blocked | Result 'a

definition heap_lock_init :: "nat \<Rightarrow> kernel \<Rightarrow> kernel option" where
  "heap_lock_init L k = map_option snd (rt_mutex_init L ''heap'' RT_IPC_FLAG_PRIO k)"

definition heap_lock :: "nat \<Rightarrow> kernel \<Rightarrow> (unit outcome \<times> kernel) option" where
  "heap_lock L k =
     (case rt_thread_self k of
        Some _ \<Rightarrow> rt_mutex_take L RT_WAITING_FOREVER k
      | None \<Rightarrow> Some (Returns RT_EOK None, k))"

definition heap_unlock :: "nat \<Rightarrow> rt_err \<Rightarrow> kernel \<Rightarrow> kernel option" where
  "heap_unlock L level k =
     do {
       rt_assert (level = RT_EOK);
       (case rt_thread_self k of
          Some _ \<Rightarrow> map_option snd (rt_mutex_release L k)
        | None \<Rightarrow> Some k)
     }"

text \<open>The part of a call behind \<open>_heap_lock\<close>, a call, and the rest of a call that had to wait.\<close>

type_synonym 'a heap_op = "heap_sys \<Rightarrow> ('a \<times> heap_sys) option"

definition heap_locked :: "nat \<Rightarrow> 'a heap_op \<Rightarrow> unit outcome \<Rightarrow> 'a heap_result heap_op" where
  "heap_locked L f oc s =
     (case oc of
        Waits \<Rightarrow> Some (Blocked, s)
      | Returns level _ \<Rightarrow>
          do {
            (r, s1) \<leftarrow> f s;
            k \<leftarrow> heap_unlock L level (kern s1);
            Some (Result r, s1\<lparr>kern := k\<rparr>)
          })"

definition heap_call :: "nat \<Rightarrow> 'a heap_op \<Rightarrow> 'a heap_result heap_op" where
  "heap_call L f s = do { (oc, k) \<leftarrow> heap_lock L (kern s); heap_locked L f oc (s\<lparr>kern := k\<rparr>) }"

definition heap_resume :: "nat \<Rightarrow> 'a heap_op \<Rightarrow> tid \<Rightarrow> 'a heap_result heap_op" where
  "heap_resume L f t s = (let (oc, k) = rt_mutex_take_finish t (kern s) in heap_locked L f oc (s\<lparr>kern := k\<rparr>))"

section \<open>The operations under the lock\<close>

definition MEM_MALLOC :: "nat \<Rightarrow> u32 \<Rightarrow> u32 option heap_op" where
  "MEM_MALLOC n sz s =
     (case system_heap s of
        None \<Rightarrow> if sz = 0 then Some (None, s) else None
      | Some h \<Rightarrow> do { (p, h1) \<leftarrow> rt_smem_alloc n (kern s) sz h; Some (p, s\<lparr>system_heap := Some h1\<rparr>) })"

definition MEM_REALLOC :: "nat \<Rightarrow> u32 option \<Rightarrow> u32 \<Rightarrow> u32 option heap_op" where
  "MEM_REALLOC n rmem newsize s =
     do {
       h \<leftarrow> system_heap s;
       (p, h1) \<leftarrow> rt_smem_realloc n (kern s) rmem newsize h;
       Some (p, s\<lparr>system_heap := Some h1\<rparr>)
     }"

definition MEM_FREE :: "nat \<Rightarrow> u32 option \<Rightarrow> unit heap_op" where
  "MEM_FREE n rmem s =
     do { h \<leftarrow> system_heap s; h1 \<leftarrow> rt_smem_free n (kern s) rmem h; Some ((), s\<lparr>system_heap := Some h1\<rparr>) }"

definition smem_info :: "(u32 \<times> u32 \<times> u32) heap_op" where
  "smem_info s = do { h \<leftarrow> system_heap s; Some ((mem_total h, mem_used h, mem_max h), s) }"

section \<open>The calls\<close>

text \<open>\<open>its\<close> and \<open>bs\<close> are what the area holds at the start.\<close>

definition rt_system_heap_init ::
    "nat \<Rightarrow> nat \<Rightarrow> (u32 \<Rightarrow> smem_item) \<Rightarrow> (u32 \<Rightarrow> u8) \<Rightarrow> u32 \<Rightarrow> u32 \<Rightarrow> heap_sys \<Rightarrow> heap_sys option" where
  "rt_system_heap_init L n its bs begin_addr end_addr s =
     (let begin_align = RT_ALIGN begin_addr RT_ALIGN_SIZE;
          end_align = RT_ALIGN_DOWN end_addr RT_ALIGN_SIZE
      in do {
           rt_assert (end_align > begin_align);
           (h, k1) \<leftarrow> rt_smem_init n its bs ''heap'' begin_addr (end_align - begin_align) (kern s);
           k2 \<leftarrow> heap_lock_init L k1;
           Some \<lparr>kern = k2, system_heap = h\<rparr>
         })"

definition rt_malloc :: "nat \<Rightarrow> nat \<Rightarrow> u32 \<Rightarrow> u32 option heap_result heap_op" where
  "rt_malloc L n sz = heap_call L (MEM_MALLOC n sz)"

definition rt_malloc_resume :: "nat \<Rightarrow> nat \<Rightarrow> u32 \<Rightarrow> tid \<Rightarrow> u32 option heap_result heap_op" where
  "rt_malloc_resume L n sz = heap_resume L (MEM_MALLOC n sz)"

definition rt_realloc :: "nat \<Rightarrow> nat \<Rightarrow> u32 option \<Rightarrow> u32 \<Rightarrow> u32 option heap_result heap_op" where
  "rt_realloc L n rmem newsize = heap_call L (MEM_REALLOC n rmem newsize)"

definition rt_realloc_resume :: "nat \<Rightarrow> nat \<Rightarrow> u32 option \<Rightarrow> u32 \<Rightarrow> tid \<Rightarrow> u32 option heap_result heap_op" where
  "rt_realloc_resume L n rmem newsize = heap_resume L (MEM_REALLOC n rmem newsize)"

definition rt_free :: "nat \<Rightarrow> nat \<Rightarrow> u32 option \<Rightarrow> unit heap_result heap_op" where
  "rt_free L n rmem s =
     (case rmem of
        None \<Rightarrow> Some (Result (), s)
      | Some _ \<Rightarrow> heap_call L (MEM_FREE n rmem) s)"

definition rt_free_resume :: "nat \<Rightarrow> nat \<Rightarrow> u32 option \<Rightarrow> tid \<Rightarrow> unit heap_result heap_op" where
  "rt_free_resume L n rmem = heap_resume L (MEM_FREE n rmem)"

definition rt_memory_info :: "nat \<Rightarrow> (u32 \<times> u32 \<times> u32) heap_result heap_op" where
  "rt_memory_info L = heap_call L smem_info"

definition rt_memory_info_resume :: "nat \<Rightarrow> tid \<Rightarrow> (u32 \<times> u32 \<times> u32) heap_result heap_op" where
  "rt_memory_info_resume L = heap_resume L smem_info"

subsection \<open>Cleared and aligned memory\<close>

text \<open>
  The callers below touch the memory they got.  An access outside the area of the heap has no
  result.  \<open>rt_memset\<close> is taken with its effect, which theory \<open>Kservice\<close> proves of its loops.
\<close>

definition in_heap :: "rt_small_mem \<Rightarrow> u32 \<Rightarrow> nat \<Rightarrow> bool" where
  "in_heap h a len \<longleftrightarrow> unat (mem_address h) \<le> unat a \<and> unat a + len \<le> unat (mem_address h) + unat (heap_end h)"

definition fill_zero :: "u32 \<Rightarrow> u32 \<Rightarrow> heap_sys \<Rightarrow> heap_sys option" where
  "fill_zero p len s =
     do {
       h \<leftarrow> system_heap s;
       rt_assert (in_heap h p (unat len));
       let off = p - mem_address h;
       Some (s\<lparr>system_heap := Some (h\<lparr>bytes := (\<lambda>x. if x - off < len then 0 else bytes h x)\<rparr>)\<rparr>)
     }"

definition put_word :: "u32 \<Rightarrow> u32 \<Rightarrow> heap_sys \<Rightarrow> heap_sys option" where
  "put_word a w s =
     do {
       h \<leftarrow> system_heap s;
       rt_assert (in_heap h a 4);
       let off = a - mem_address h;
       Some (s\<lparr>system_heap := Some (h\<lparr>bytes := (\<lambda>x. if x - off < 4 then word_bytes w ! unat (x - off) else bytes h x)\<rparr>)\<rparr>)
     }"

definition get_word :: "u32 \<Rightarrow> rt_small_mem \<Rightarrow> u32 option" where
  "get_word a h =
     do {
       rt_assert (in_heap h a 4);
       let off = a - mem_address h;
       Some (ucast (bytes h off) OR push_bit 8 (ucast (bytes h (off + 1)))
             OR push_bit 16 (ucast (bytes h (off + 2))) OR push_bit 24 (ucast (bytes h (off + 3))))
     }"

definition calloc_clear :: "u32 \<Rightarrow> u32 \<Rightarrow> u32 option heap_result \<Rightarrow> u32 option heap_result heap_op" where
  "calloc_clear count sz r s =
     (case r of
        Result (Some p) \<Rightarrow> do { s1 \<leftarrow> fill_zero p (count * sz) s; Some (r, s1) }
      | _ \<Rightarrow> Some (r, s))"

definition rt_calloc :: "nat \<Rightarrow> nat \<Rightarrow> u32 \<Rightarrow> u32 \<Rightarrow> u32 option heap_result heap_op" where
  "rt_calloc L n count sz s = do { (r, s1) \<leftarrow> rt_malloc L n (count * sz) s; calloc_clear count sz r s1 }"

definition rt_calloc_resume :: "nat \<Rightarrow> nat \<Rightarrow> u32 \<Rightarrow> u32 \<Rightarrow> tid \<Rightarrow> u32 option heap_result heap_op" where
  "rt_calloc_resume L n count sz t s =
     do { (r, s1) \<leftarrow> rt_malloc_resume L n (count * sz) t s; calloc_clear count sz r s1 }"

definition align_request :: "u32 \<Rightarrow> u32 \<Rightarrow> u32 \<times> u32" where
  "align_request sz align0 =
     (let uintptr_size = 4 - 1;
          align = (align0 + uintptr_size) AND NOT uintptr_size;
          align_size = ((sz + uintptr_size) AND NOT uintptr_size) + align
      in (align, align_size))"

definition align_place :: "u32 \<Rightarrow> u32 option heap_result \<Rightarrow> u32 option heap_result heap_op" where
  "align_place align r s =
     (case r of
        Result (Some ptr) \<Rightarrow>
          (let align_ptr = (if ptr AND (align - 1) = 0 then ptr + align
                            else (ptr + (align - 1)) AND NOT (align - 1))
           in do { s1 \<leftarrow> put_word (align_ptr - 4) ptr s; Some (Result (Some align_ptr), s1) })
      | _ \<Rightarrow> Some (r, s))"

definition rt_malloc_align :: "nat \<Rightarrow> nat \<Rightarrow> u32 \<Rightarrow> u32 \<Rightarrow> u32 option heap_result heap_op" where
  "rt_malloc_align L n sz align0 s =
     (let (align, align_size) = align_request sz align0
      in do { (r, s1) \<leftarrow> rt_malloc L n align_size s; align_place align r s1 })"

definition rt_malloc_align_resume :: "nat \<Rightarrow> nat \<Rightarrow> u32 \<Rightarrow> u32 \<Rightarrow> tid \<Rightarrow> u32 option heap_result heap_op" where
  "rt_malloc_align_resume L n sz align0 t s =
     (let (align, align_size) = align_request sz align0
      in do { (r, s1) \<leftarrow> rt_malloc_resume L n align_size t s; align_place align r s1 })"

definition rt_free_align :: "nat \<Rightarrow> nat \<Rightarrow> u32 option \<Rightarrow> unit heap_result heap_op" where
  "rt_free_align L n ptr s =
     (case ptr of
        None \<Rightarrow> Some (Result (), s)
      | Some p \<Rightarrow>
          do {
            h \<leftarrow> system_heap s;
            real_ptr \<leftarrow> get_word (p - 4) h;
            rt_free L n (if real_ptr = 0 then None else Some real_ptr) s
          })"


section \<open>The lock protects the heap\<close>

text \<open>The kernel while thread \<open>t\<close> is inside of a call, and after the call.\<close>

definition heap_held :: "nat \<Rightarrow> tid \<Rightarrow> kernel \<Rightarrow> kernel" where
  "heap_held L t k =
     (let k1 = upd_thread t (\<lambda>th. th\<lparr>thread_error := RT_EOK\<rparr>) k
      in if owner (mutexes k L) = Some t then upd_mutex L (\<lambda>x. x\<lparr>hold := hold x + 1\<rparr>) k1
         else upd_mutex L (\<lambda>x. x\<lparr>mutex_value := 0, owner := Some t,
                original_priority := current_priority (threads k t), hold := 1\<rparr>) k1)"

definition heap_left :: "nat \<Rightarrow> tid \<Rightarrow> kernel \<Rightarrow> kernel" where
  "heap_left L t k =
     (let k1 = upd_thread t (\<lambda>th. th\<lparr>thread_error := RT_EOK\<rparr>) k
      in if owner (mutexes k L) = Some t then k1
         else upd_mutex L (\<lambda>x. x\<lparr>original_priority := 0xff\<rparr>) k1)"

definition lock_available :: "nat \<Rightarrow> tid \<Rightarrow> kernel \<Rightarrow> bool" where
  "lock_available L t k \<longleftrightarrow> owner (mutexes k L) = None \<or> owner (mutexes k L) = Some t \<and> hold (mutexes k L) < 0xff"

definition may_lock :: "nat \<Rightarrow> tid \<Rightarrow> kernel \<Rightarrow> bool" where
  "may_lock L t k \<longleftrightarrow> sinv k \<and> is_mutex L k \<and> caller t k \<and> mutex_ok L k"

lemma heap_lock_available:
  assumes "may_lock L t k" "lock_available L t k"
  shows "heap_lock L k = Some (Returns RT_EOK None, heap_held L t k)"
proof -
  have e: "scheduler_available k" "rt_object_get_type (Obj_Mutex L) k = class_code Class_Mutex" "rt_thread_self k = Some t"
    using assms(1) by (simp_all add: may_lock_def is_mutex_def caller_def rt_thread_self_def)
  have m: "owner (mutexes k L) = None \<Longrightarrow> mutex_value (mutexes k L) = 1 \<and> hold (mutexes k L) = 0"
    using assms(1) by (auto simp: may_lock_def mutex_ok_def)
  show ?thesis
  proof (cases "owner (mutexes k L) = Some t")
    case True
    then show ?thesis using e assms(2) by (simp add: heap_lock_def rt_mutex_take_def lock_available_def heap_held_def Let_def)
  next
    case False
    then have "owner (mutexes k L) = None" using assms(2) by (auto simp: lock_available_def)
    then show ?thesis using e m by (simp add: heap_lock_def rt_mutex_take_def heap_held_def Let_def)
  qed
qed

lemma heap_unlock_held:
  assumes "may_lock L t k" "lock_available L t k"
  shows "heap_unlock L RT_EOK (heap_held L t k) = Some (heap_left L t k)"
proof -
  have e: "in_thread_context k" "rt_object_get_type (Obj_Mutex L) k = class_code Class_Mutex" "current k = Some t"
    using assms(1) by (simp_all add: may_lock_def is_mutex_def caller_def scheduler_available_def)
  show ?thesis
  proof (cases "owner (mutexes k L) = Some t")
    case True
    then have "hold (mutexes k L) \<noteq> 0" using assms(1) by (simp add: may_lock_def mutex_ok_def)
    then show ?thesis using e True
      by (simp add: heap_unlock_def rt_mutex_release_def heap_held_def heap_left_def Let_def in_thread_context_def
          rt_thread_self_def rt_interrupt_get_nest_def rt_object_get_type_def)
  next
    case False
    then have o: "owner (mutexes k L) = None" using assms(2) by (auto simp: lock_available_def)
    then have m: "mutex_value (mutexes k L) = 1" "hold (mutexes k L) = 0" "lists k (Suspended_on (Obj_Mutex L)) = []"
      using assms(1) by (simp_all add: may_lock_def mutex_ok_def)
    obtain r where "mutexes k L = \<lparr>mutex_value = 1, original_priority = r, hold = 0, owner = None\<rparr>"
      using o m by (cases "mutexes k L") simp
    then show ?thesis using e m(3)
      by (simp add: heap_unlock_def rt_mutex_release_def heap_held_def heap_left_def Let_def in_thread_context_def
          rt_thread_self_def rt_interrupt_get_nest_def rt_object_get_type_def mutex_hand_over_def)
  qed
qed

lemma heap_left_keeps:
  assumes "may_lock L t k" "lock_available L t k"
  shows "may_lock L t (heap_left L t k)" "mutex_abs L (heap_left L t k) = mutex_abs L k"
    "is_memory n (heap_left L t k) = is_memory n k" "is_memory n (heap_held L t k) = is_memory n k"
    "objs (heap_left L t k) = objs k" "lock_available L t (heap_left L t k) = lock_available L t k"
proof -
  let ?k = "upd_thread t (\<lambda>th. th\<lparr>thread_error := RT_EOK\<rparr>) k"
  have sk: "sinv (?k\<lparr>mutexes := mm\<rparr>)" for mm using assms sinv_cong [of "?k\<lparr>mutexes := mm\<rparr>" ?k] by (simp add: may_lock_def)
  have st: "started (upd_thread v (\<lambda>th. th\<lparr>thread_error := z\<rparr>) k\<lparr>mutexes := mm\<rparr>) u \<longleftrightarrow> started k u"
    "started (upd_thread v (\<lambda>th. th\<lparr>thread_error := z\<rparr>) k) u \<longleftrightarrow> started k u" for mm u v z
    by (simp_all add: started_def runnable_def)
  show "may_lock L t (heap_left L t k)"
    using assms sk st unfolding may_lock_def lock_available_def
    by (auto simp: heap_left_def Let_def is_mutex_def rt_object_get_type_def caller_def scheduler_available_def
        in_thread_context_def rt_thread_self_def rt_interrupt_get_nest_def rt_critical_level_def mutex_ok_def split: option.splits)
  show "mutex_abs L (heap_left L t k) = mutex_abs L k" "objs (heap_left L t k) = objs k"
    "lock_available L t (heap_left L t k) = lock_available L t k"
    by (simp_all add: heap_left_def mutex_abs_def Let_def lock_available_def)
  show "is_memory n (heap_left L t k) = is_memory n k" "is_memory n (heap_held L t k) = is_memory n k"
    by (simp_all add: heap_left_def heap_held_def is_memory_def rt_object_get_type_def rt_object_is_systemobject_def Let_def)
qed

text \<open>A call with the lock at hand: one operation on the heap, and the lock is as before.\<close>

lemma heap_call_available:
  assumes "may_lock L t (kern s)" "lock_available L t (kern s)"
    and "f (s\<lparr>kern := heap_held L t (kern s)\<rparr>) = Some (r, s1)" "kern s1 = heap_held L t (kern s)"
  shows "heap_call L f s = Some (Result r, s1\<lparr>kern := heap_left L t (kern s)\<rparr>)"
  using heap_lock_available [OF assms(1,2)] heap_unlock_held [OF assms(1,2)] assms(3,4)
  by (simp add: heap_call_def heap_locked_def)

text \<open>A call while another thread is inside: the heap is not touched.\<close>

lemma heap_call_taken:
  assumes "may_lock L t (kern s)" "owner (mutexes (kern s) L) = Some u" "u \<noteq> t"
  shows "\<exists>k'. heap_call L f s = Some (Blocked, s\<lparr>kern := k'\<rparr>) \<and> sinv k' \<and> mutex_ok L k' \<and>
     owner (mutexes k' L) = Some u \<and> t \<in> set (lists k' (Suspended_on (Obj_Mutex L))) \<and>
     tstat k' t = RT_THREAD_SUSPEND"
proof -
  have a: "sinv (kern s)" "is_mutex L (kern s)" "caller t (kern s)" "mutex_ok L (kern s)"
    using assms(1) by (simp_all add: may_lock_def)
  obtain k' where k': "rt_mutex_take L RT_WAITING_FOREVER (kern s) = Some (Waits, k')" "sinv k'" "mutex_ok L k'"
     "mutex_abs L k' = (Some u, unat (hold (mutexes (kern s) L)),
        insert_at (wait_pos (obj_flag (objs (kern s) (Obj_Mutex L))) t (Suspended_on (Obj_Mutex L)) (kern s)) t
          (lists (kern s) (Suspended_on (Obj_Mutex L))))" "tstat k' t = RT_THREAD_SUSPEND"
    using mutex_take_wait [OF a assms(2,3), of RT_WAITING_FOREVER] by auto
  have "rt_thread_self (kern s) = Some t" using a(3) by (simp add: caller_def rt_thread_self_def)
  then show ?thesis using k'
    by (intro exI [of _ k']) (simp add: heap_call_def heap_lock_def heap_locked_def mutex_abs_def set_insert_at)
qed

text \<open>The rest of a call whose thread got the lock while it was waiting.\<close>

lemma heap_resume_owner:
  assumes k: "sinv (kern s)" "is_mutex L (kern s)" "current (kern s) = Some t" "in_thread_context (kern s)" "mutex_ok L (kern s)"
    and o: "owner (mutexes (kern s) L) = Some t" "thread_error (threads (kern s) t) = RT_EOK"
    and f: "f (s\<lparr>kern := finish_call t (kern s)\<rparr>) = Some (r, s1)" "kern s1 = finish_call t (kern s)"
  shows "\<exists>k'. heap_resume L f t s = Some (Result r, s1\<lparr>kern := k'\<rparr>) \<and> sinv k' \<and> mutex_ok L k' \<and>
     (RT_EOK, mutex_abs L k') = mutex_V t (mutex_abs L (kern s))"
proof -
  let ?k = "finish_call t (kern s)"
  have e: "sinv ?k" "is_mutex L ?k" "current ?k = Some t" "in_thread_context ?k" "mutex_ok L ?k" "mutex_abs L ?k = mutex_abs L (kern s)"
    using k sinv_cong [of ?k "kern s"]
    by (auto simp: finish_call_def is_mutex_def rt_object_get_type_def in_thread_context_def rt_thread_self_def
        rt_interrupt_get_nest_def mutex_ok_def mutex_abs_def started_def runnable_def split: option.splits)
  obtain ec k' where k': "rt_mutex_release L ?k = Some (ec, k')" "sinv k'" "mutex_ok L k'"
     "(ec, mutex_abs L k') = mutex_V t (mutex_abs L ?k)"
    using mutex_release_refines [OF e(1-5)] by blast
  have "ec = RT_EOK" using k'(4) o(1) unfolding e(6) by (auto simp: mutex_abs_def mutex_V_def split: if_splits list.splits)
  then show ?thesis using k' e(3,6) o(2) f
    by (intro exI [of _ k']) (simp add: heap_resume_def rt_mutex_take_finish_def heap_locked_def heap_unlock_def rt_thread_self_def)
qed

end
