(* ===== verification/Heap_Api_Props.thy ===== *)
theory Heap_Api_Props
  imports Heap_Api
begin

text \<open>
  What the system heap promises: cleared and aligned memory, the lock that keeps calls of different
  threads apart, and the interface of theory \<open>Allocator\<close>, discharged by \<open>rt_malloc\<close> and \<open>rt_free\<close>.
\<close>

section \<open>Addresses and words\<close>

lemma mask_mod: "unat (x AND (2 ^ j - 1) :: u32) = unat x mod 2 ^ j"
proof -
  have "x AND (2 ^ j - 1) = take_bit j x" by (simp only: take_bit_eq_mask mask_eq_exp_minus_1)
  then show ?thesis by (simp only: unsigned_take_bit_eq, simp only: take_bit_eq_mod)
qed

lemma not_mask_floor: "unat (x AND NOT (2 ^ j - 1) :: u32) = unat x - unat x mod 2 ^ j"
proof -
  let ?m = "x AND (2 ^ j - 1)"
  have "x AND NOT (2 ^ j - 1) = push_bit j (drop_bit j x)"
    unfolding mask_eq_exp_minus_1 [symmetric] by (rule bit_word_eqI) (auto simp: bit_simps)
  moreover have "take_bit j x = ?m" by (simp only: take_bit_eq_mask mask_eq_exp_minus_1)
  ultimately have "(x AND NOT (2 ^ j - 1)) + ?m = x" using bits_ident [of j x] by simp
  then have "x AND NOT (2 ^ j - 1) = x - ?m" by (metis add_diff_cancel_right')
  moreover have "?m \<le> x" by (simp add: word_and_le2)
  ultimately show ?thesis using mask_mod [of x j] by (metis unat_sub)
qed

lemma word_of_bytes:
  "ucast (word_bytes w ! 0) OR push_bit 8 (ucast (word_bytes w ! 1)) OR push_bit 16 (ucast (word_bytes w ! 2))
     OR push_bit 24 (ucast (word_bytes w ! 3)) = (w :: u32)"
proof (rule bit_word_eqI)
  fix n :: nat
  assume "n < LENGTH(32)"
  then consider "n < 8" | "8 \<le> n" "n < 16" | "16 \<le> n" "n < 24" | "24 \<le> n" "n < 32" by fastforce
  then show "bit (ucast (word_bytes w ! 0) OR push_bit 8 (ucast (word_bytes w ! 1)) OR push_bit 16 (ucast (word_bytes w ! 2))
     OR push_bit 24 (ucast (word_bytes w ! 3)) :: u32) n = bit w n"
    by cases (auto simp: word_bytes_def bit_simps)
qed

lemma u32_below: "unat (x :: u32) < 4294967296"
  using unsigned_less [of x] by simp


section \<open>The heap behind the calls\<close>

definition heap_ready :: "nat \<Rightarrow> nat \<Rightarrow> tid \<Rightarrow> heap_sys \<Rightarrow> bool" where
  "heap_ready L n t s \<longleftrightarrow> may_lock L t (kern s) \<and> lock_available L t (kern s) \<and> is_memory n (kern s) \<and>
     (case system_heap s of None \<Rightarrow> False | Some h \<Rightarrow> smem_inv h)"

definition handed_out :: "heap_sys \<Rightarrow> (nat \<times> nat) set" where
  "handed_out s = (case system_heap s of None \<Rightarrow> {} | Some h \<Rightarrow> live h)"

lemma rt_malloc_ok:
  assumes "heap_ready L n t s" "unat sz \<le> 0xfffffffc"
  shows "\<exists>h res h'. system_heap s = Some h \<and>
     rt_malloc L n sz s = Some (Result res, \<lparr>kern = heap_left L t (kern s), system_heap = Some h'\<rparr>) \<and>
     heap_ready L n t \<lparr>kern = heap_left L t (kern s), system_heap = Some h'\<rparr> \<and>
     rt_smem_alloc n (heap_held L t (kern s)) sz h = Some (res, h') \<and> bytes h' = bytes h \<and> mem_address h' = mem_address h \<and>
     (case res of None \<Rightarrow> h' = h
      | Some a \<Rightarrow> \<exists>l. unat sz \<le> l \<and> live h' = insert (unat a, l) (live h) \<and> (unat a, l) \<notin> live h \<and> a AND 3 = 0)"
proof -
  obtain h where h: "system_heap s = Some h" "smem_inv h" and k: "may_lock L t (kern s)" "lock_available L t (kern s)"
    "is_memory n (kern s)"
    using assms(1) by (auto simp: heap_ready_def split: option.splits)
  note keep = heap_left_keeps [OF k(1,2)]
  have "is_memory n (heap_held L t (kern s))" using k(3) keep(4) by simp
  from smem_alloc_live [OF h(2) this assms(2)] obtain res h' where r:
    "rt_smem_alloc n (heap_held L t (kern s)) sz h = Some (res, h')" "smem_inv h'" "bytes h' = bytes h"
    "mem_address h' = mem_address h"
    "case res of None \<Rightarrow> h' = h
      | Some a \<Rightarrow> \<exists>l. unat sz \<le> l \<and> live h' = insert (unat a, l) (live h) \<and> (unat a, l) \<notin> live h \<and> a AND 3 = 0"
    by blast
  have "MEM_MALLOC n sz (s\<lparr>kern := heap_held L t (kern s)\<rparr>) =
      Some (res, \<lparr>kern = heap_held L t (kern s), system_heap = Some h'\<rparr>)"
    using h(1) r(1) by (simp add: MEM_MALLOC_def)
  from heap_call_available [where f = "MEM_MALLOC n sz", OF k(1,2) this]
  have "rt_malloc L n sz s = Some (Result res, \<lparr>kern = heap_left L t (kern s), system_heap = Some h'\<rparr>)"
    by (simp add: rt_malloc_def)
  moreover have "heap_ready L n t \<lparr>kern = heap_left L t (kern s), system_heap = Some h'\<rparr>"
    using keep k r(2) by (simp add: heap_ready_def)
  ultimately show ?thesis using h(1) r by blast
qed

lemma rt_free_ok:
  assumes "heap_ready L n t s" "(unat a, l) \<in> handed_out s"
  shows "\<exists>h h'. system_heap s = Some h \<and>
     rt_free L n (Some a) s = Some (Result (), \<lparr>kern = heap_left L t (kern s), system_heap = Some h'\<rparr>) \<and>
     heap_ready L n t \<lparr>kern = heap_left L t (kern s), system_heap = Some h'\<rparr> \<and>
     bytes h' = bytes h \<and> mem_address h' = mem_address h \<and> live h' = live h - {(unat a, l)}"
proof -
  obtain h where h: "system_heap s = Some h" "smem_inv h" and k: "may_lock L t (kern s)" "lock_available L t (kern s)"
    "is_memory n (kern s)"
    using assms(1) by (auto simp: heap_ready_def split: option.splits)
  note keep = heap_left_keeps [OF k(1,2)]
  have "is_memory n (heap_held L t (kern s))" using k(3) keep(4) by simp
  moreover have "(unat a, l) \<in> live h" using assms(2) h(1) by (simp add: handed_out_def)
  ultimately obtain h' where r: "rt_smem_free n (heap_held L t (kern s)) (Some a) h = Some h'" "smem_inv h'"
    "live h' = live h - {(unat a, l)}" "bytes h' = bytes h" "mem_address h' = mem_address h"
    using smem_free_live [OF h(2)] by blast
  have "MEM_FREE n (Some a) (s\<lparr>kern := heap_held L t (kern s)\<rparr>) =
      Some ((), \<lparr>kern = heap_held L t (kern s), system_heap = Some h'\<rparr>)"
    using h(1) r(1) by (simp add: MEM_FREE_def)
  from heap_call_available [where f = "MEM_FREE n (Some a)", OF k(1,2) this]
  have "rt_free L n (Some a) s = Some (Result (), \<lparr>kern = heap_left L t (kern s), system_heap = Some h'\<rparr>)"
    by (simp add: rt_free_def)
  moreover have "heap_ready L n t \<lparr>kern = heap_left L t (kern s), system_heap = Some h'\<rparr>"
    using keep k r(2) by (simp add: heap_ready_def)
  ultimately show ?thesis using h(1) r by blast
qed

text \<open>The calls as an allocator of the interface of theory \<open>Allocator\<close>.\<close>

definition malloc_at :: "nat \<Rightarrow> nat \<Rightarrow> u32 \<Rightarrow> heap_sys \<Rightarrow> (nat option \<times> heap_sys) option" where
  "malloc_at L n sz s =
     (case rt_malloc L n sz s of
        Some (Result p, s') \<Rightarrow> Some (map_option unat p, s')
      | _ \<Rightarrow> None)"

definition free_at :: "nat \<Rightarrow> nat \<Rightarrow> nat \<Rightarrow> heap_sys \<Rightarrow> heap_sys option" where
  "free_at L n a s =
     (case rt_free L n (Some (of_nat a)) s of
        Some (Result _, s') \<Rightarrow> Some s'
      | _ \<Rightarrow> None)"

lemma ready_live:
  assumes "heap_ready L n t s" "x \<in> handed_out s"
  obtains h where "system_heap s = Some h" "smem_inv h" "x \<in> live h"
  using assms by (auto simp: heap_ready_def handed_out_def split: option.splits)

interpretation system_heap: allocator "heap_ready L n t" handed_out "\<lambda>sz. unat sz \<le> 0xfffffffc" unat
    "malloc_at L n" "free_at L n" for L n t
proof (unfold_locales, goal_cases)
  case (1 s sz)
  from rt_malloc_ok [OF this] obtain h res h' where r: "system_heap s = Some h"
     "rt_malloc L n sz s = Some (Result res, \<lparr>kern = heap_left L t (kern s), system_heap = Some h'\<rparr>)"
     "heap_ready L n t \<lparr>kern = heap_left L t (kern s), system_heap = Some h'\<rparr>"
     "case res of None \<Rightarrow> h' = h
      | Some a \<Rightarrow> \<exists>l. unat sz \<le> l \<and> live h' = insert (unat a, l) (live h) \<and> (unat a, l) \<notin> live h \<and> a AND 3 = 0" by blast
  then show ?case by (cases res) (auto simp: malloc_at_def handed_out_def)
next
  case (2 s a l)
  then obtain h where "smem_inv h" "(a, l) \<in> live h" by (rule ready_live)
  then have a: "unat (of_nat a :: u32) = a" using live_bound unat_of_nat32 by blast
  from rt_free_ok [OF 2(1), of "of_nat a" l] 2(2) obtain h h' where "system_heap s = Some h"
     "rt_free L n (Some (of_nat a)) s = Some (Result (), \<lparr>kern = heap_left L t (kern s), system_heap = Some h'\<rparr>)"
     "heap_ready L n t \<lparr>kern = heap_left L t (kern s), system_heap = Some h'\<rparr>" "live h' = live h - {(a, l)}"
    unfolding a by blast
  then show ?case by (simp add: free_at_def handed_out_def)
next
  case (3 s x y)
  then obtain h where "system_heap s = Some h" "smem_inv h" "x \<in> live h" by (auto elim: ready_live)
  with 3 live_disjoint show ?case by (auto simp: handed_out_def)
next
  case (4 s x)
  then obtain h where "smem_inv h" "x \<in> live h" by (auto elim: ready_live)
  with live_range [of h "fst x" "snd x"] show ?case by (cases x) auto
qed


section \<open>Memory that the callers touch\<close>

lemma live_in_heap:
  assumes "smem_inv h" "(a, l) \<in> live h" "a \<le> unat p" "unat p + len \<le> a + l"
  shows "in_heap h p len"
proof -
  have c: "smem_ok h (heap_cells h)" using assms(1) by (simp add: smem_inv_def)
  then have "heap_end h = of_nat (row_total (heap_cells h))" "row_total (heap_cells h) < 2 ^ 32"
    by (simp_all add: smem_ok_def row_def)
  then have "unat (heap_end h) = row_total (heap_cells h)" using unat_of_nat32 by metis
  moreover have "unat (mem_address h) + 12 \<le> a \<and> a + l \<le> unat (mem_address h) + row_total (heap_cells h)"
    using areas_range [OF assms(2) [unfolded live_def]] c by (auto simp: smem_ok_def)
  ultimately show ?thesis using assms(3,4) by (simp add: in_heap_def)
qed

lemma smem_inv_bytes [simp]: "smem_inv (h\<lparr>bytes := b\<rparr>) = smem_inv h" "live (h\<lparr>bytes := b\<rparr>) = live h"
proof -
  have "read_row f (h\<lparr>bytes := b\<rparr>) p = read_row f h p" for f p
    by (induction f arbitrary: p) (simp_all add: MEM_ISUSED_def)
  then have "heap_cells (h\<lparr>bytes := b\<rparr>) = heap_cells h" by (simp add: heap_cells_def)
  then show "smem_inv (h\<lparr>bytes := b\<rparr>) = smem_inv h" "live (h\<lparr>bytes := b\<rparr>) = live h"
    by (simp_all add: smem_inv_def live_def)
qed

definition with_word :: "u32 \<Rightarrow> u32 \<Rightarrow> rt_small_mem \<Rightarrow> rt_small_mem" where
  "with_word a w h = h\<lparr>bytes := (\<lambda>x. if x - (a - mem_address h) < 4 then word_bytes w ! unat (x - (a - mem_address h)) else bytes h x)\<rparr>"

lemma put_get_word:
  assumes "in_heap h a 4"
  shows "put_word a w \<lparr>kern = k, system_heap = Some h\<rparr> = Some \<lparr>kern = k, system_heap = Some (with_word a w h)\<rparr>"
    "get_word a (with_word a w h) = Some w"
proof -
  have e: "bytes (with_word a w h) (a - mem_address h + i) = word_bytes w ! unat i" if "i < 4" for i
    using that by (simp add: with_word_def)
  have b: "bytes (with_word a w h) (a - mem_address h) = word_bytes w ! 0"
    "bytes (with_word a w h) (a - mem_address h + 1) = word_bytes w ! 1"
    "bytes (with_word a w h) (a - mem_address h + 2) = word_bytes w ! 2"
    "bytes (with_word a w h) (a - mem_address h + 3) = word_bytes w ! 3"
    using e [of 0] e [of 1] e [of 2] e [of 3] by simp_all
  have m: "mem_address (with_word a w h) = mem_address h" "in_heap (with_word a w h) a 4"
    using assms by (simp_all add: with_word_def in_heap_def)
  show "put_word a w \<lparr>kern = k, system_heap = Some h\<rparr> = Some \<lparr>kern = k, system_heap = Some (with_word a w h)\<rparr>"
    using assms by (simp add: put_word_def with_word_def Let_def)
  show "get_word a (with_word a w h) = Some w"
    unfolding get_word_def m(1) Let_def b using m(2) word_of_bytes [of w] by simp
qed

text \<open>The place \<open>rt_malloc_align\<close> picks: the first multiple of \<open>2 ^ m\<close> behind the area it got.\<close>

definition next_multiple :: "nat \<Rightarrow> nat \<Rightarrow> nat" where
  "next_multiple A a = (a div A + 1) * A"

lemma next_multiple_bounds:
  assumes "4 dvd A" "4 dvd a" "0 < A"
  shows "A dvd next_multiple A a" "a + 4 \<le> next_multiple A a" "next_multiple A a \<le> a + A"
proof -
  show "A dvd next_multiple A a" by (simp add: next_multiple_def)
  have d: "a div A * A + a mod A = a" by (rule div_mult_mod_eq)
  have e: "next_multiple A a = a div A * A + A" by (simp add: next_multiple_def)
  show "next_multiple A a \<le> a + A" using d e by linarith
  have "a < next_multiple A a" using d e mod_less_divisor [OF assms(3), of a] by linarith
  moreover have "4 dvd next_multiple A a" using assms(1) by (simp add: next_multiple_def)
  ultimately show "a + 4 \<le> next_multiple A a" using assms(2) by (simp add: dvd_def) presburger
qed

lemma unat_power32: "m < 32 \<Longrightarrow> unat (2 ^ m :: u32) = 2 ^ m"
proof -
  assume "m < 32"
  then have "(2 :: nat) ^ m < 2 ^ 32" by (rule power_strict_increasing) simp
  from unat_of_nat32 [OF this] show ?thesis by simp
qed

lemma align_ptr_value:
  fixes a :: u32
  assumes "m < 32" "unat a + 2 ^ m < 2 ^ 32"
  shows "unat (if a AND (2 ^ m - 1) = 0 then a + 2 ^ m else (a + (2 ^ m - 1)) AND NOT (2 ^ m - 1)) = next_multiple (2 ^ m) (unat a)"
proof -
  let ?A = "2 ^ m :: nat"
  have p: "unat (2 ^ m :: u32) = ?A" using assms(1) by (rule unat_power32)
  have q: "unat (2 ^ m - 1 :: u32) = ?A - 1" using p by (subst unat_sub) (simp_all add: word_le_nat_alt)
  have z: "a AND (2 ^ m - 1) = 0 \<longleftrightarrow> unat a mod ?A = 0" using mask_mod [of a m] by (metis unat_0 unat_eq_zero)
  have d: "unat a div ?A * ?A + unat a mod ?A = unat a" by (rule div_mult_mod_eq)
  show ?thesis
  proof (cases "unat a mod ?A = 0")
    case True
    have "unat (a + 2 ^ m) = unat a + ?A" using assms(2) p by (simp add: unat_word_ariths)
    then show ?thesis using True z d by (simp add: next_multiple_def)
  next
    case False
    have u: "unat (a + (2 ^ m - 1)) = unat a + (?A - 1)" using assms(2) q by (simp add: unat_word_ariths)
    let ?r = "unat a mod ?A - 1"
    have r: "?r < ?A" using mod_less_divisor [of ?A "unat a"] by (simp add: less_imp_diff_less)
    have n: "(unat a div ?A + 1) * ?A = unat a div ?A * ?A + ?A" by simp
    have "1 \<le> ?A" by simp
    then have e: "unat a + (?A - 1) = (unat a div ?A + 1) * ?A + ?r" using d False unfolding n by linarith
    then have "(unat a + (?A - 1)) mod ?A = ?r" using r by (metis mod_less mod_mult_self3)
    then have "unat a + (?A - 1) - (unat a + (?A - 1)) mod ?A = (unat a div ?A + 1) * ?A" using e by linarith
    then show ?thesis using False z not_mask_floor [of "a + (2 ^ m - 1)" m] unfolding u by (simp add: next_multiple_def)
  qed
qed

lemma align_request_value:
  assumes "j < 32" "unat sz + 2 ^ max 2 j \<le> 0xfffffff0"
  shows "fst (align_request sz (2 ^ j)) = 2 ^ max 2 j"
    "unat (snd (align_request sz (2 ^ j))) = (unat sz + 3) - (unat sz + 3) mod 4 + 2 ^ max 2 j"
proof -
  have f: "unat ((x + 3) AND NOT 3 :: u32) = unat x + 3 - (unat x + 3) mod 4" if "unat x \<le> 0xfffffff0" for x
    using not_mask_floor [of "x + 3" 2] that by (simp add: unat_word_ariths)
  have b: "unat (2 ^ j :: u32) = 2 ^ j" using assms(1) by (rule unat_power32)
  have "(2 :: nat) ^ j \<le> 2 ^ max 2 j" by simp
  then have "unat (2 ^ j :: u32) \<le> 0xfffffff0" using assms(2) b by linarith
  from f [OF this] have v: "unat ((2 ^ j + 3) AND NOT 3 :: u32) = 2 ^ j + 3 - (2 ^ j + 3) mod 4" unfolding b .
  have "(2 ^ j + 3 - (2 ^ j + 3) mod 4 :: nat) = 2 ^ max 2 j"
  proof (cases "2 \<le> j")
    case True
    then have "4 dvd (2 :: nat) ^ j" using le_imp_power_dvd [of 2 j "2 :: nat"] by simp
    then show ?thesis using True by (auto simp: max_absorb2 elim: dvdE)
  next
    case False
    then have "j = 0 \<or> j = 1" by auto
    then show ?thesis by auto
  qed
  moreover have m: "unat (2 ^ max 2 j :: u32) = 2 ^ max 2 j" using assms(1) by (intro unat_power32) simp
  ultimately have a: "(2 ^ j + 3) AND NOT 3 = (2 ^ max 2 j :: u32)" using v by (simp add: word_unat_eq_iff)
  then show "fst (align_request sz (2 ^ j)) = 2 ^ max 2 j" by (simp add: align_request_def Let_def)
  have s: "unat ((sz + 3) AND NOT 3) = unat sz + 3 - (unat sz + 3) mod 4" using f assms(2) by simp
  show "unat (snd (align_request sz (2 ^ j))) = (unat sz + 3) - (unat sz + 3) mod 4 + 2 ^ max 2 j"
    using a s m assms(2) by (simp add: align_request_def Let_def unat_word_ariths)
qed


text \<open>Clearing an area: the other areas keep what they hold.\<close>

lemma fill_zero_ok:
  assumes i: "smem_inv h" and l: "(unat p, l) \<in> live h" and c: "unat len \<le> l"
  shows "\<exists>h'. fill_zero p len \<lparr>kern = k, system_heap = Some h\<rparr> = Some \<lparr>kern = k, system_heap = Some h'\<rparr> \<and>
     smem_inv h' \<and> live h' = live h \<and> mem_address h' = mem_address h \<and>
     content h' (unat p) (unat len) = replicate (unat len) 0 \<and>
     (\<forall>b m. (b, m) \<in> live h \<and> (b, m) \<noteq> (unat p, l) \<longrightarrow> content h' b m = content h b m)"
proof -
  let ?M = "unat (mem_address h)"
  define h' where "h' = h\<lparr>bytes := (\<lambda>x. if x - (p - mem_address h) < len then 0 else bytes h x)\<rparr>"
  have r: "?M + 12 \<le> unat p \<and> unat p + l + 12 < 2 ^ 32 \<and> 0 < l" by (rule live_range [OF i l])
  have off: "p - mem_address h = of_nat (unat p - ?M)" using r by (simp add: of_nat_diff)
  have in_range: "of_nat (b - ?M + j) - (p - mem_address h) < len \<longleftrightarrow> unat p \<le> b + j \<and> b + j < unat p + unat len"
    if "?M \<le> b" "b + m < 2 ^ 32" "j < m" for b j m
    using offset_in_range [of ?M b m "unat p" "unat len" j] that r c unfolding off by simp
  have "in_heap h p (unat len)" by (rule live_in_heap [OF i l]) (use c in simp_all)
  then have "fill_zero p len \<lparr>kern = k, system_heap = Some h\<rparr> = Some \<lparr>kern = k, system_heap = Some h'\<rparr>"
    by (simp add: fill_zero_def h'_def Let_def)
  moreover have "content h' (unat p) (unat len) = replicate (unat len) 0"
    using in_range [of "unat p" "unat len"] r c
    by (intro nth_equalityI) (simp_all add: content_def h'_def)
  moreover have "content h' b m = content h b m" if "(b, m) \<in> live h" "(b, m) \<noteq> (unat p, l)" for b m
  proof -
    have "apart (b, m) (unat p, l)" by (rule live_disjoint [OF i that(1) l that(2)])
    moreover have "?M + 12 \<le> b \<and> b + m + 12 < 2 ^ 32" using live_range [OF i that(1)] by simp
    ultimately show ?thesis using in_range [of b m] c by (auto simp: content_def h'_def apart_def)
  qed
  moreover have "smem_inv h' \<and> live h' = live h \<and> mem_address h' = mem_address h" using i by (simp add: h'_def)
  ultimately show ?thesis by blast
qed

section \<open>Properties\<close>

text \<open>
  \<open>rt_calloc\<close>, when the product fits: a new area of \<open>count * size\<close> bytes that are all zero, and every
  other area keeps its contents.
\<close>

theorem rt_calloc_correct:
  assumes r: "heap_ready L n t s" and z: "unat count * unat sz \<le> 0xfffffffc" and h: "system_heap s = Some h"
  shows "\<exists>res s' h'. rt_calloc L n count sz s = Some (Result res, s') \<and> heap_ready L n t s' \<and> system_heap s' = Some h' \<and>
     (case res of None \<Rightarrow> h' = h
      | Some p \<Rightarrow> \<exists>l. unat count * unat sz \<le> l \<and> live h' = insert (unat p, l) (live h) \<and> (unat p, l) \<notin> live h \<and>
          content h' (unat p) (unat count * unat sz) = replicate (unat count * unat sz) 0 \<and>
          (\<forall>b m. (b, m) \<in> live h \<longrightarrow> content h' b m = content h b m))"
proof -
  have u: "unat (count * sz) = unat count * unat sz" using z by (simp add: unat_word_ariths)
  then have zu: "unat (count * sz) \<le> 0xfffffffc" using z by simp
  let ?k = "heap_left L t (kern s)"
  from rt_malloc_ok [OF r zu] h obtain res h1 where m:
     "rt_malloc L n (count * sz) s = Some (Result res, \<lparr>kern = ?k, system_heap = Some h1\<rparr>)"
     "heap_ready L n t \<lparr>kern = ?k, system_heap = Some h1\<rparr>" "bytes h1 = bytes h" "mem_address h1 = mem_address h"
     "case res of None \<Rightarrow> h1 = h
      | Some a \<Rightarrow> \<exists>l. unat (count * sz) \<le> l \<and> live h1 = insert (unat a, l) (live h) \<and> (unat a, l) \<notin> live h \<and> a AND 3 = 0"
    by auto
  show ?thesis
  proof (cases res)
    case None
    then show ?thesis using m by (simp add: rt_calloc_def calloc_clear_def)
  next
    case (Some p)
    then obtain l where l: "unat (count * sz) \<le> l" "live h1 = insert (unat p, l) (live h)" "(unat p, l) \<notin> live h"
      using m(5) by auto
    have i: "smem_inv h1" using m(2) by (simp add: heap_ready_def)
    have p: "(unat p, l) \<in> live h1" using l(2) by simp
    from fill_zero_ok [OF i p l(1)] obtain h' where f:
      "fill_zero p (count * sz) \<lparr>kern = ?k, system_heap = Some h1\<rparr> = Some \<lparr>kern = ?k, system_heap = Some h'\<rparr>"
      "smem_inv h'" "live h' = live h1" "content h' (unat p) (unat (count * sz)) = replicate (unat (count * sz)) 0"
      "\<forall>b m. (b, m) \<in> live h1 \<and> (b, m) \<noteq> (unat p, l) \<longrightarrow> content h' b m = content h1 b m" by blast
    have "rt_calloc L n count sz s = Some (Result (Some p), \<lparr>kern = ?k, system_heap = Some h'\<rparr>)"
      using m(1) Some f(1) by (simp add: rt_calloc_def calloc_clear_def)
    moreover have "heap_ready L n t \<lparr>kern = ?k, system_heap = Some h'\<rparr>" using m(2) f(2) by (simp add: heap_ready_def)
    moreover have "content h' b m = content h b m" if "(b, m) \<in> live h" for b m
      using f(5) l(2,3) that content_cong [OF \<open>bytes h1 = bytes h\<close> \<open>mem_address h1 = mem_address h\<close>] by (cases "b = unat p \<and> m = l") auto
    ultimately show ?thesis using f(3,4) l u by fastforce
  qed
qed

text \<open>The product is taken modulo \<open>2 ^ 32\<close>: more than four gigabytes may be answered with twelve bytes.\<close>

lemma calloc_product_wraps:
  "unat (0x40000001 :: u32) * unat (4 :: u32) = 2 ^ 32 + 4 \<and> rt_calloc L n 0x40000001 4 s = rt_calloc L n 1 4 s"
proof -
  have "(0x40000001 :: u32) * 4 = 1 * 4" by simp
  then have "rt_calloc L n 0x40000001 4 s = rt_calloc L n 1 4 s" unfolding rt_calloc_def calloc_clear_def by (simp only:)
  then show ?thesis by simp
qed

definition aligned_in :: "u32 \<Rightarrow> nat \<Rightarrow> u32 \<Rightarrow> u32 \<Rightarrow> nat \<Rightarrow> bool" where
  "aligned_in p A sz a l \<longleftrightarrow> A dvd unat p \<and> unat a + 4 \<le> unat p \<and> unat p + unat sz \<le> unat a + l"

text \<open>The word that \<open>rt_malloc_align\<close> left in front of its result is still there.\<close>

definition keeps_word :: "u32 \<Rightarrow> u32 \<Rightarrow> heap_sys \<Rightarrow> bool" where
  "keeps_word p a s \<longleftrightarrow> (case system_heap s of None \<Rightarrow> False | Some h \<Rightarrow> get_word (p - 4) h = Some a)"

lemma rt_malloc_align_ok:
  assumes r: "heap_ready L n t s" and j: "j < 32" and z: "unat sz + 2 ^ max 2 j \<le> 0xfffffff0"
  shows "\<exists>res s'. rt_malloc_align L n sz (2 ^ j) s = Some (Result res, s') \<and> heap_ready L n t s' \<and>
     (case res of None \<Rightarrow> system_heap s' = system_heap s
      | Some p \<Rightarrow> \<exists>a l. handed_out s' = insert (unat a, l) (handed_out s) \<and> (unat a, l) \<notin> handed_out s \<and>
          a \<noteq> 0 \<and> aligned_in p (2 ^ max 2 j) sz a l \<and> keeps_word p a s')"
proof -
  let ?A = "2 ^ max 2 j :: nat"
  obtain align total where q: "align_request sz (2 ^ j) = (align, total)" by (cases "align_request sz (2 ^ j)")
  have v: "align = 2 ^ max 2 j" "unat total = (unat sz + 3) - (unat sz + 3) mod 4 + ?A"
    using align_request_value [OF j z] q by simp_all
  have t: "unat sz + ?A \<le> unat total" "unat total \<le> 0xfffffffc" using v(2) z by linarith+
  from rt_malloc_ok [OF r t(2)] obtain h res h' where m: "system_heap s = Some h"
     "rt_malloc L n total s = Some (Result res, \<lparr>kern = heap_left L t (kern s), system_heap = Some h'\<rparr>)"
     "heap_ready L n t \<lparr>kern = heap_left L t (kern s), system_heap = Some h'\<rparr>"
     "case res of None \<Rightarrow> h' = h
      | Some a \<Rightarrow> \<exists>l. unat total \<le> l \<and> live h' = insert (unat a, l) (live h) \<and> (unat a, l) \<notin> live h \<and> a AND 3 = 0" by blast
  show ?thesis
  proof (cases res)
    case None
    then show ?thesis using m q by (simp add: rt_malloc_align_def align_place_def)
  next
    case (Some a)
    then obtain l where l: "unat total \<le> l" "live h' = insert (unat a, l) (live h)" "(unat a, l) \<notin> live h" "a AND 3 = 0"
      using m(4) by auto
    have i: "smem_inv h'" using m(3) by (simp add: heap_ready_def)
    have b: "unat a + l + 12 < 2 ^ 32" "0 < unat a" using live_range [OF i, of "unat a" l] l(2) by auto
    define p where "p = (if a AND (2 ^ max 2 j - 1) = 0 then a + 2 ^ max 2 j else (a + (2 ^ max 2 j - 1)) AND NOT (2 ^ max 2 j - 1))"
    have "max 2 j < 32" "unat a + ?A < 2 ^ 32" using j b(1) l(1) t(1) by (simp, linarith)
    from align_ptr_value [OF this] have p: "unat p = next_multiple ?A (unat a)" unfolding p_def .
    have "4 dvd unat a" using l(4) mask_mod [of a 2] by (simp add: mod_eq_0_iff_dvd)
    moreover have "4 dvd ?A" using le_imp_power_dvd [of 2 "max 2 j" "2 :: nat"] by simp
    ultimately have n: "?A dvd unat p" "unat a + 4 \<le> unat p" "unat p \<le> unat a + ?A"
      using next_multiple_bounds [of ?A "unat a"] p by simp_all
    have p4: "unat (p - 4) = unat p - 4" using n(2) by (simp add: unat_sub word_le_nat_alt)
    have "in_heap h' (p - 4) 4"
      by (rule live_in_heap [OF i, of "unat a" l]) (use l(1,2) t(1) n p4 in auto)
    note w = put_get_word [OF this]
    let ?s = "\<lparr>kern = heap_left L t (kern s), system_heap = Some (with_word (p - 4) a h')\<rparr>"
    have "rt_malloc_align L n sz (2 ^ j) s = Some (Result (Some p), ?s)"
      using m(2) Some w(1) q v(1) by (simp add: rt_malloc_align_def align_place_def p_def [symmetric] Let_def)
    moreover have "heap_ready L n t ?s" using m(3) by (simp add: heap_ready_def with_word_def)
    moreover have "handed_out ?s = insert (unat a, l) (handed_out s)" "(unat a, l) \<notin> handed_out s"
      using l(2,3) m(1) by (simp_all add: handed_out_def with_word_def)
    moreover have "aligned_in p ?A sz a l" using n l(1) t(1) by (simp add: aligned_in_def)
    moreover have "keeps_word p a ?s" using w(2) by (simp add: keeps_word_def)
    moreover have "a \<noteq> 0" using b(2) by auto
    ultimately show ?thesis by fastforce
  qed
qed

lemma rt_free_align_ok:
  assumes "heap_ready L n t s" "(unat a, l) \<in> handed_out s" "a \<noteq> 0" "keeps_word p a s"
  shows "\<exists>s'. rt_free_align L n (Some p) s = Some (Result (), s') \<and> heap_ready L n t s' \<and>
     handed_out s' = handed_out s - {(unat a, l)}"
  using rt_free_ok [OF assms(1,2)] assms(3,4)
  by (auto simp: rt_free_align_def keeps_word_def handed_out_def split: option.splits)

text \<open>
  \<open>rt_malloc_align\<close> with a power of two: the result is a multiple of it, the \<open>size\<close> bytes behind it
  lie in one new area, and \<open>rt_free_align\<close> in any later state that kept the word in front of the
  result gives exactly this area back.
\<close>

theorem aligned_memory:
  assumes "heap_ready L n t s" "j < 32" "unat sz + 2 ^ max 2 j \<le> 0xfffffff0"
  shows "\<exists>res s'. rt_malloc_align L n sz (2 ^ j) s = Some (Result res, s') \<and> heap_ready L n t s' \<and>
     (case res of None \<Rightarrow> system_heap s' = system_heap s
      | Some p \<Rightarrow> \<exists>a l. handed_out s' = insert (unat a, l) (handed_out s) \<and> (unat a, l) \<notin> handed_out s \<and>
          2 ^ j dvd unat p \<and> unat a + 4 \<le> unat p \<and> unat p + unat sz \<le> unat a + l \<and>
          keeps_word p a s' \<and>
          (\<forall>s2. heap_ready L n t s2 \<and> (unat a, l) \<in> handed_out s2 \<and> keeps_word p a s2 \<longrightarrow>
             (\<exists>s3. rt_free_align L n (Some p) s2 = Some (Result (), s3) \<and> heap_ready L n t s3 \<and>
                handed_out s3 = handed_out s2 - {(unat a, l)})))"
proof -
  obtain res s' where m: "rt_malloc_align L n sz (2 ^ j) s = Some (Result res, s')" "heap_ready L n t s'"
     "case res of None \<Rightarrow> system_heap s' = system_heap s
      | Some p \<Rightarrow> \<exists>a l. handed_out s' = insert (unat a, l) (handed_out s) \<and> (unat a, l) \<notin> handed_out s \<and>
          a \<noteq> 0 \<and> aligned_in p (2 ^ max 2 j) sz a l \<and> keeps_word p a s'"
    using rt_malloc_align_ok [OF assms] by blast
  show ?thesis
  proof (cases res)
    case None
    then show ?thesis using m by simp
  next
    case (Some p)
    then obtain a l where a: "handed_out s' = insert (unat a, l) (handed_out s)" "(unat a, l) \<notin> handed_out s"
      "a \<noteq> 0" "aligned_in p (2 ^ max 2 j) sz a l" "keeps_word p a s'" using m(3) by auto
    have "(2 :: nat) ^ j dvd 2 ^ max 2 j" by (rule le_imp_power_dvd) simp
    then have "2 ^ j dvd unat p" using a(4) by (auto simp: aligned_in_def intro: dvd_trans)
    then show ?thesis using m Some a rt_free_align_ok a(3) by (simp add: aligned_in_def) blast
  qed
qed


text \<open>A call that found the lock in the hands of another thread: it waits, and the heap is as it was.\<close>

definition waits_for_lock :: "nat \<Rightarrow> tid \<Rightarrow> heap_sys \<Rightarrow> ('a heap_result \<times> heap_sys) option \<Rightarrow> bool" where
  "waits_for_lock L t s res \<longleftrightarrow>
     (case res of
        Some (Blocked, s') \<Rightarrow>
          system_heap s' = system_heap s \<and> sinv (kern s') \<and> mutex_ok L (kern s') \<and>
          owner (mutexes (kern s') L) = owner (mutexes (kern s) L) \<and>
          t \<in> set (lists (kern s') (Suspended_on (Obj_Mutex L))) \<and> tstat (kern s') t = RT_THREAD_SUSPEND
      | _ \<Rightarrow> False)"

lemma waits_for_lock_call:
  assumes "may_lock L t (kern s)" "owner (mutexes (kern s) L) = Some u" "u \<noteq> t"
  shows "waits_for_lock L t s (heap_call L f s)"
  using heap_call_taken [OF assms, of f] assms(2) by (auto simp: waits_for_lock_def)

lemma waits_for_lock_bind:
  assumes "waits_for_lock L t s r" "\<And>s'. g Blocked s' = Some (Blocked, s')"
  shows "waits_for_lock L t s (do { (x, s1) \<leftarrow> r; g x s1 })"
proof -
  obtain x s' where r: "r = Some (x, s')" using assms(1) by (cases r) (auto simp: waits_for_lock_def)
  then have "x = Blocked" using assms(1) by (cases x) (simp_all add: waits_for_lock_def)
  with r have "r = Some (Blocked, s')" by simp
  then show ?thesis using assms by (simp add: waits_for_lock_def)
qed

lemma malloc_resume_ok:
  assumes k: "sinv (kern s)" "is_mutex L (kern s)" "current (kern s) = Some t" "in_thread_context (kern s)" "mutex_ok L (kern s)"
    and o: "owner (mutexes (kern s) L) = Some t" "thread_error (threads (kern s) t) = RT_EOK"
    and h: "is_memory n (kern s)" "system_heap s = Some h" "smem_inv h" "unat sz \<le> 0xfffffffc"
  shows "\<exists>res h' k'. rt_malloc_resume L n sz t s = Some (Result res, \<lparr>kern = k', system_heap = Some h'\<rparr>) \<and>
     rt_smem_alloc n (kern s) sz h = Some (res, h') \<and> smem_inv h' \<and> sinv k' \<and> mutex_ok L k' \<and>
     (RT_EOK, mutex_abs L k') = mutex_V t (mutex_abs L (kern s))"
proof -
  have m: "is_memory n (finish_call t (kern s)) = is_memory n (kern s)"
    by (simp add: is_memory_def rt_object_get_type_def rt_object_is_systemobject_def finish_call_def)
  then have e: "rt_smem_alloc n (finish_call t (kern s)) sz h = rt_smem_alloc n (kern s) sz h"
    by (simp add: rt_smem_alloc_def)
  obtain res h' where r: "rt_smem_alloc n (kern s) sz h = Some (res, h')" "smem_inv h'"
    using smem_alloc_live [OF h(3,1,4)] by blast
  have "MEM_MALLOC n sz (s\<lparr>kern := finish_call t (kern s)\<rparr>) =
      Some (res, \<lparr>kern = finish_call t (kern s), system_heap = Some h'\<rparr>)"
    using h(2) r(1) e by (simp add: MEM_MALLOC_def)
  from heap_resume_owner [where f = "MEM_MALLOC n sz", OF k o this] show ?thesis
    using r by (auto simp: rt_malloc_resume_def)
qed

text \<open>
  The lock of the system heap.  While one thread is inside a heap call, a call of any other thread
  stops before it touches the heap and waits in line; when it was given the lock it does its
  operation on the heap as it is then, and hands the lock on.
\<close>

theorem heap_lock_protects:
  assumes "may_lock L t (kern s)" "owner (mutexes (kern s) L) = Some u" "u \<noteq> t"
  shows "waits_for_lock L t s (rt_malloc L n sz s) \<and> waits_for_lock L t s (rt_realloc L n q sz s) \<and>
     waits_for_lock L t s (rt_calloc L n count sz s) \<and> waits_for_lock L t s (rt_free L n (Some a) s) \<and>
     waits_for_lock L t s (rt_malloc_align L n sz al s) \<and> waits_for_lock L t s (rt_memory_info L s) \<and>
     (\<forall>s2 h. sinv (kern s2) \<and> is_mutex L (kern s2) \<and> current (kern s2) = Some t \<and> in_thread_context (kern s2) \<and>
        mutex_ok L (kern s2) \<and> owner (mutexes (kern s2) L) = Some t \<and> thread_error (threads (kern s2) t) = RT_EOK \<and>
        is_memory n (kern s2) \<and> system_heap s2 = Some h \<and> smem_inv h \<and> unat sz \<le> 0xfffffffc \<longrightarrow>
        (\<exists>res h' k'. rt_malloc_resume L n sz t s2 = Some (Result res, \<lparr>kern = k', system_heap = Some h'\<rparr>) \<and>
           rt_smem_alloc n (kern s2) sz h = Some (res, h') \<and> smem_inv h' \<and> sinv k' \<and>
           (RT_EOK, mutex_abs L k') = mutex_V t (mutex_abs L (kern s2))))"
proof -
  note w = waits_for_lock_call [OF assms]
  have m: "waits_for_lock L t s (rt_malloc L n x s)" for x unfolding rt_malloc_def by (rule w)
  have "waits_for_lock L t s (rt_calloc L n count sz s)"
    unfolding rt_calloc_def by (rule waits_for_lock_bind [OF m]) (simp add: calloc_clear_def)
  moreover have "waits_for_lock L t s (rt_malloc_align L n sz al s)"
    unfolding rt_malloc_align_def align_request_def Let_def prod.case
    by (rule waits_for_lock_bind [OF m]) (simp add: align_place_def)
  moreover have "waits_for_lock L t s (rt_realloc L n q sz s)" unfolding rt_realloc_def by (rule w)
  moreover have "waits_for_lock L t s (rt_free L n (Some a) s)" unfolding rt_free_def option.case by (rule w)
  moreover have "waits_for_lock L t s (rt_memory_info L s)" unfolding rt_memory_info_def by (rule w)
  ultimately show ?thesis using m malloc_resume_ok by (intro conjI allI impI) (assumption | blast)+
qed

text \<open>A system with the heap and the kernel of the examples.\<close>

definition sample_system :: heap_sys where
  "sample_system = \<lparr>kern = sample_kernel, system_heap = Some sample_heap\<rparr>"

lemma sample_system_ready: "heap_ready 0 0 0 sample_system" "handed_out sample_system = {}"
proof -
  have "may_lock 0 0 sample_kernel" using sample_mutex0 sample_sinv sample_caller by (simp add: may_lock_def)
  moreover have "lock_available 0 0 sample_kernel" by (simp add: lock_available_def sample_kernel_def)
  ultimately show "heap_ready 0 0 0 sample_system" "handed_out sample_system = {}"
    using sample_heap_ok(2,5,6) by (simp_all add: heap_ready_def sample_system_def handed_out_def)
qed

theorem aligned_memory_witness:
  "\<exists>res s'. rt_malloc_align 0 0 20 64 sample_system = Some (Result res, s') \<and> heap_ready 0 0 0 s' \<and>
     (\<forall>p. res = Some p \<longrightarrow> 64 dvd unat p)"
proof -
  have "(6 :: nat) < 32" "unat (20 :: u32) + 2 ^ max 2 6 \<le> 0xfffffff0" by simp_all
  from aligned_memory [OF sample_system_ready(1) this] show ?thesis by (auto split: option.splits)
qed

theorem heap_lock_protects_witness:
  "waits_for_lock 0 0 \<lparr>kern = sample_mutex_kernel, system_heap = Some sample_heap\<rparr>
     (rt_malloc 0 0 40 \<lparr>kern = sample_mutex_kernel, system_heap = Some sample_heap\<rparr>)"
proof -
  let ?k = sample_mutex_kernel
  have s: "sinv ?k" using sample_sinv sinv_cong [of ?k sample_kernel] by (simp add: sample_mutex_kernel_def)
  have i: "is_mutex 0 ?k" "caller 0 ?k"
    using sample_mutex0(1) [of 0] sample_caller
    by (simp_all add: sample_mutex_kernel_def is_mutex_def caller_def rt_object_get_type_def
        scheduler_available_def in_thread_context_def rt_critical_level_def rt_thread_self_def
        rt_interrupt_get_nest_def)
  have "started ?k 2"
    by (simp add: started_def runnable_def sample_mutex_kernel_def sample_kernel_def sample_thread_def sample_stat_def)
  then have "mutex_ok 0 ?k"
    using sample_mutex0(4) by (simp add: mutex_ok_def sample_mutex_kernel_def)
  then have "may_lock 0 0 (kern \<lparr>kern = ?k, system_heap = Some sample_heap\<rparr>)" using s i by (simp add: may_lock_def)
  moreover have "owner (mutexes (kern \<lparr>kern = ?k, system_heap = Some sample_heap\<rparr>) 0) = Some 2" by (simp add: sample_mutex_kernel_def)
  ultimately show ?thesis using heap_lock_protects [of 0 0 "\<lparr>kern = ?k, system_heap = Some sample_heap\<rparr>" 2] by simp
qed

theorem rt_calloc_correct_witness:
  "\<exists>res s'. rt_calloc 0 0 5 8 sample_system = Some (Result res, s') \<and> heap_ready 0 0 0 s'"
proof -
  have "unat (5 :: u32) * unat (8 :: u32) \<le> 0xfffffffc" "system_heap sample_system = Some sample_heap"
    by (simp_all add: sample_system_def)
  from rt_calloc_correct [OF sample_system_ready(1) this] show ?thesis by blast
qed


text \<open>
  A thread that calls \<open>rt_malloc\<close> and \<open>rt_free\<close> in any order, freeing only what it owns: every call
  returns, the areas it owns are as long as it asked for and never overlap, the heap stays well
  formed, and the lock is at hand again after each call.
\<close>

theorem system_heap_no_overlap:
  assumes "heap_ready L n t s" "\<forall>r. Alloc r \<in> set ops \<longrightarrow> unat r \<le> 0xfffffffc"
  shows "\<exists>s' own. mrun (malloc_at L n) (free_at L n) unat ops (s, []) = Some (s', own) \<and> heap_ready L n t s' \<and>
     (\<forall>x\<in>set own. \<exists>l\<ge>snd x. (fst x, l) \<in> handed_out s') \<and>
     (\<forall>p<length own. \<forall>q<length own. p \<noteq> q \<longrightarrow> apart (own ! p) (own ! q))"
proof -
  have "owns (handed_out s) []" by (simp add: owns_def)
  then obtain s' own where r: "mrun (malloc_at L n) (free_at L n) unat ops (s, []) = Some (s', own)"
    "heap_ready L n t s'" "owns (handed_out s') own"
    using system_heap.mrun_ok [OF assms(1), of "[]" ops] assms(2) by auto
  have "apart (own ! p) (own ! q)" if "p < length own" "q < length own" "p \<noteq> q" for p q
    using system_heap.owned_apart [OF r(2,3)] that by simp
  then show ?thesis using r by (auto simp: owns_def)
qed

theorem system_heap_no_overlap_witness:
  "\<exists>s own. mrun (malloc_at 0 0) (free_at 0 0) unat [Alloc 40, Alloc 20, Free 1, Alloc 200, Alloc (13 :: u32)]
       (sample_system, []) = Some (s, own) \<and> heap_ready 0 0 0 s"
proof -
  have "\<forall>r. Alloc r \<in> set [Alloc 40, Alloc 20, Free 1, Alloc 200, Alloc (13 :: u32)] \<longrightarrow> unat r \<le> 0xfffffffc" by auto
  from system_heap_no_overlap [OF sample_system_ready(1) this] show ?thesis by blast
qed

end
