(* ===== verification/Serial.thy ===== *)
theory Serial
  imports Device Completion Dataqueue Effect
begin

text \<open>
  The serial driver (\<^verbatim>\<open>components/drivers/serial/serial.c\<close>, version 1 with DMA): initialising, opening,
  closing and controlling a device, and its receive buffer.  \<open>serial_driver_ok\<close> shows that it is a
  driver as \<open>device.c\<close> needs it, \<open>isr_rx_contents\<close> and \<open>int_rx_contents\<close> that the receive buffer is a
  queue that drops its oldest byte when it is full.  The functions of the UART are parameters that act
  on a state \<open>uart\<close> of their own; sending, which waits for the hardware, is not modelled.
\<close>

section \<open>Data\<close>

abbreviation (input) RT_DEVICE_FLAG_SUSPENDED :: u16 where "RT_DEVICE_FLAG_SUSPENDED \<equiv> 0x020"
abbreviation (input) RT_DEVICE_FLAG_INT_RX :: u16 where "RT_DEVICE_FLAG_INT_RX \<equiv> 0x100"
abbreviation (input) RT_DEVICE_FLAG_DMA_RX :: u16 where "RT_DEVICE_FLAG_DMA_RX \<equiv> 0x200"
abbreviation (input) RT_DEVICE_FLAG_INT_TX :: u16 where "RT_DEVICE_FLAG_INT_TX \<equiv> 0x400"
abbreviation (input) RT_DEVICE_FLAG_DMA_TX :: u16 where "RT_DEVICE_FLAG_DMA_TX \<equiv> 0x800"
abbreviation (input) RT_DEVICE_CTRL_CONFIG :: int where "RT_DEVICE_CTRL_CONFIG \<equiv> 3"
abbreviation (input) RT_DEVICE_CTRL_CLOSE :: int where "RT_DEVICE_CTRL_CLOSE \<equiv> 4"
abbreviation (input) RT_DEVICE_CTRL_SET_INT :: int where "RT_DEVICE_CTRL_SET_INT \<equiv> 0x10"
abbreviation (input) RT_DEVICE_CTRL_CLR_INT :: int where "RT_DEVICE_CTRL_CLR_INT \<equiv> 0x11"

record serial_configure =
  baud_rate :: u32
  data_bits :: u32
  stop_bits :: u32
  parity :: u32
  bit_order :: u32
  invert :: u32
  bufsz :: u16
  flowcontrol :: u32

record rt_serial_rx_fifo =
  rx_buffer :: "u8 list"
  rx_put_index :: u16
  rx_get_index :: u16
  rx_is_full :: bool

text \<open>
  What \<open>serial_rx\<close> and \<open>serial_tx\<close> point to: a fifo, or the flag of a DMA transfer.  The completion of
  the sending fifo and the data queue of the sending DMA are objects of the kernel, with the numbers
  \<open>c\<close> and \<open>q\<close> below.
\<close>

datatype serial_rx_mode = Rx_fifo rt_serial_rx_fifo | Rx_dma bool
datatype serial_tx_mode = Tx_fifo | Tx_dma bool

record 'u rt_serial =
  config :: serial_configure
  serial_rx :: "serial_rx_mode option"
  serial_tx :: "serial_tx_mode option"
  uart :: 'u

type_synonym 'u serial_state = "'u rt_serial dstate"

record 'u rt_uart_ops =
  uart_configure :: "(serial_configure \<Rightarrow> 'u \<Rightarrow> rt_err \<times> 'u) option"
  uart_control :: "int \<Rightarrow> u16 \<Rightarrow> 'u \<Rightarrow> rt_err \<times> 'u"

definition upd_serial :: "('u rt_serial \<Rightarrow> 'u rt_serial) \<Rightarrow> 'u serial_state \<Rightarrow> 'u serial_state" where
  "upd_serial f s = s\<lparr>hw := f (hw s)\<rparr>"

definition call_control :: "'u rt_uart_ops \<Rightarrow> int \<Rightarrow> u16 \<Rightarrow> 'u serial_state \<Rightarrow> 'u serial_state" where
  "call_control ops cmd arg s = upd_serial (\<lambda>x. x\<lparr>uart := snd (uart_control ops cmd arg (uart x))\<rparr>) s"

definition or_open_flag :: "nat \<Rightarrow> u16 \<Rightarrow> 'u serial_state \<Rightarrow> 'u serial_state" where
  "or_open_flag d f s = upd_dev d (\<lambda>x. x\<lparr>open_flag := open_flag x OR f\<rparr>) s"

definition clear_open_flag :: "nat \<Rightarrow> u16 \<Rightarrow> 'u serial_state \<Rightarrow> 'u serial_state" where
  "clear_open_flag d f s = upd_dev d (\<lambda>x. x\<lparr>open_flag := open_flag x AND NOT f\<rparr>) s"

section \<open>Operations\<close>

definition rt_serial_init :: "'u rt_uart_ops \<Rightarrow> 'u serial_state \<Rightarrow> rt_err \<times> 'u serial_state" where
  "rt_serial_init ops s =
     (let s1 = upd_serial (\<lambda>x. x\<lparr>serial_rx := None, serial_tx := None\<rparr>) s
      in case uart_configure ops of
           None \<Rightarrow> (RT_EOK, s1)
         | Some configure \<Rightarrow>
             (let (result, u) = configure (config (hw s1)) (uart (hw s1))
              in (result, upd_serial (\<lambda>x. x\<lparr>uart := u\<rparr>) s1)))"

text \<open>
  The two halves of \<open>rt_serial_open\<close> behind its checks.  \<open>room\<close> says whether \<open>rt_malloc\<close> has memory for
  the structure of that half, and \<open>slots\<close> is what it gives \<open>rt_data_queue_init\<close>.
\<close>

definition fresh_rx_fifo :: "u16 \<Rightarrow> serial_rx_mode" where
  "fresh_rx_fifo n = Rx_fifo \<lparr>rx_buffer = replicate (unat n) 0, rx_put_index = 0, rx_get_index = 0, rx_is_full = False\<rparr>"

definition open_rx :: "nat \<Rightarrow> 'u rt_uart_ops \<Rightarrow> bool \<Rightarrow> u16 \<Rightarrow> 'u serial_state \<Rightarrow> 'u serial_state option" where
  "open_rx d ops room oflag s =
     (let sz = bufsz (config (hw s)) in
      if serial_rx (hw s) = None then
        (if oflag AND RT_DEVICE_FLAG_INT_RX \<noteq> 0 then
           do {
             rt_assert room;
             let s1 = upd_serial (\<lambda>x. x\<lparr>serial_rx := Some (fresh_rx_fifo sz)\<rparr>) s;
             Some (call_control ops RT_DEVICE_CTRL_SET_INT RT_DEVICE_FLAG_INT_RX (or_open_flag d RT_DEVICE_FLAG_INT_RX s1))
           }
         else if oflag AND RT_DEVICE_FLAG_DMA_RX \<noteq> 0 then
           do {
             rt_assert room;
             let s1 = (if sz = 0 then upd_serial (\<lambda>x. x\<lparr>serial_rx := Some (Rx_dma False)\<rparr>) s
                       else call_control ops RT_DEVICE_CTRL_CONFIG RT_DEVICE_FLAG_DMA_RX
                              (upd_serial (\<lambda>x. x\<lparr>serial_rx := Some (fresh_rx_fifo sz)\<rparr>) s));
             Some (or_open_flag d RT_DEVICE_FLAG_DMA_RX s1)
           }
         else Some (upd_serial (\<lambda>x. x\<lparr>serial_rx := None\<rparr>) s))
      else if oflag AND RT_DEVICE_FLAG_INT_RX \<noteq> 0 then Some (or_open_flag d RT_DEVICE_FLAG_INT_RX s)
      else if oflag AND RT_DEVICE_FLAG_DMA_RX \<noteq> 0 then Some (or_open_flag d RT_DEVICE_FLAG_DMA_RX s)
      else Some s)"

definition open_tx ::
    "nat \<Rightarrow> nat \<Rightarrow> nat \<Rightarrow> 'u rt_uart_ops \<Rightarrow> bool \<Rightarrow> dq_item list option \<Rightarrow> u16 \<Rightarrow> 'u serial_state \<Rightarrow> 'u serial_state option" where
  "open_tx d c q ops room slots oflag s =
     (if serial_tx (hw s) = None then
        (if oflag AND RT_DEVICE_FLAG_INT_TX \<noteq> 0 then
           do {
             rt_assert room;
             k \<leftarrow> rt_completion_init c (kern s);
             let s1 = upd_serial (\<lambda>x. x\<lparr>serial_tx := Some Tx_fifo\<rparr>) (s\<lparr>kern := k\<rparr>);
             Some (call_control ops RT_DEVICE_CTRL_SET_INT RT_DEVICE_FLAG_INT_TX (or_open_flag d RT_DEVICE_FLAG_INT_TX s1))
           }
         else if oflag AND RT_DEVICE_FLAG_DMA_TX \<noteq> 0 then
           do {
             rt_assert room;
             (_, k) \<leftarrow> rt_data_queue_init q 8 4 None slots (kern s);
             let s1 = upd_serial (\<lambda>x. x\<lparr>serial_tx := Some (Tx_dma False)\<rparr>) (s\<lparr>kern := k\<rparr>);
             Some (call_control ops RT_DEVICE_CTRL_CONFIG RT_DEVICE_FLAG_DMA_TX (or_open_flag d RT_DEVICE_FLAG_DMA_TX s1))
           }
         else Some (upd_serial (\<lambda>x. x\<lparr>serial_tx := None\<rparr>) s))
      else if oflag AND RT_DEVICE_FLAG_INT_TX \<noteq> 0 then Some (or_open_flag d RT_DEVICE_FLAG_INT_TX s)
      else if oflag AND RT_DEVICE_FLAG_DMA_TX \<noteq> 0 then Some (or_open_flag d RT_DEVICE_FLAG_DMA_TX s)
      else Some s)"

definition lacks :: "u16 \<Rightarrow> u16 \<Rightarrow> u16 \<Rightarrow> bool" where
  "lacks oflag flag f \<longleftrightarrow> oflag AND f \<noteq> 0 \<and> flag AND f = 0"

definition rt_serial_open ::
    "nat \<Rightarrow> nat \<Rightarrow> nat \<Rightarrow> 'u rt_uart_ops \<Rightarrow> bool \<Rightarrow> bool \<Rightarrow> dq_item list option \<Rightarrow> u16 \<Rightarrow> 'u serial_state \<Rightarrow>
     (rt_err \<times> 'u serial_state) option" where
  "rt_serial_open d c q ops room_rx room_tx slots oflag s =
     (let flag = device_flag (devs s d) in
      if lacks oflag flag RT_DEVICE_FLAG_DMA_RX \<or> lacks oflag flag RT_DEVICE_FLAG_DMA_TX \<or>
         lacks oflag flag RT_DEVICE_FLAG_INT_RX \<or> lacks oflag flag RT_DEVICE_FLAG_INT_TX
      then Some (- RT_EIO, s)
      else
        do {
          let stream_flag = (if oflag AND RT_DEVICE_FLAG_STREAM \<noteq> 0 \<or> open_flag (devs s d) AND RT_DEVICE_FLAG_STREAM \<noteq> 0
                             then RT_DEVICE_FLAG_STREAM else 0);
          let s1 = upd_dev d (\<lambda>x. x\<lparr>open_flag := oflag AND 0xff\<rparr>) s;
          s2 \<leftarrow> open_rx d ops room_rx oflag s1;
          s3 \<leftarrow> open_tx d c q ops room_tx slots oflag s2;
          Some (RT_EOK, or_open_flag d stream_flag s3)
        })"

definition close_rx :: "nat \<Rightarrow> 'u rt_uart_ops \<Rightarrow> 'u serial_state \<Rightarrow> 'u serial_state option" where
  "close_rx d ops s =
     (if open_flag (devs s d) AND RT_DEVICE_FLAG_INT_RX \<noteq> 0 then
        do {
          let s1 = clear_open_flag d RT_DEVICE_FLAG_INT_RX (call_control ops RT_DEVICE_CTRL_CLR_INT RT_DEVICE_FLAG_INT_RX s);
          rt_assert (serial_rx (hw s1) \<noteq> None);
          Some (upd_serial (\<lambda>x. x\<lparr>serial_rx := None\<rparr>) s1)
        }
      else if open_flag (devs s d) AND RT_DEVICE_FLAG_DMA_RX \<noteq> 0 then
        do {
          let s1 = clear_open_flag d RT_DEVICE_FLAG_DMA_RX (call_control ops RT_DEVICE_CTRL_CLR_INT RT_DEVICE_FLAG_DMA_RX s);
          rt_assert (serial_rx (hw s1) \<noteq> None);
          Some (upd_serial (\<lambda>x. x\<lparr>serial_rx := None\<rparr>) s1)
        }
      else Some s)"

definition close_tx :: "nat \<Rightarrow> nat \<Rightarrow> 'u rt_uart_ops \<Rightarrow> 'u serial_state \<Rightarrow> 'u serial_state option" where
  "close_tx d q ops s =
     (if open_flag (devs s d) AND RT_DEVICE_FLAG_INT_TX \<noteq> 0 then
        do {
          let s1 = clear_open_flag d RT_DEVICE_FLAG_INT_TX (call_control ops RT_DEVICE_CTRL_CLR_INT RT_DEVICE_FLAG_INT_TX s);
          rt_assert (serial_tx (hw s1) \<noteq> None);
          Some (upd_serial (\<lambda>x. x\<lparr>serial_tx := None\<rparr>) s1)
        }
      else if open_flag (devs s d) AND RT_DEVICE_FLAG_DMA_TX \<noteq> 0 then
        do {
          let s1 = clear_open_flag d RT_DEVICE_FLAG_DMA_TX (call_control ops RT_DEVICE_CTRL_CLR_INT RT_DEVICE_FLAG_DMA_TX s);
          rt_assert (serial_tx (hw s1) \<noteq> None);
          (_, k) \<leftarrow> rt_data_queue_deinit q (kern s1);
          Some (upd_serial (\<lambda>x. x\<lparr>serial_tx := None\<rparr>) (s1\<lparr>kern := k\<rparr>))
        }
      else Some s)"

definition rt_serial_close :: "nat \<Rightarrow> nat \<Rightarrow> 'u rt_uart_ops \<Rightarrow> 'u serial_state \<Rightarrow> (rt_err \<times> 'u serial_state) option" where
  "rt_serial_close d q ops s =
     (if ref_count (devs s d) > 1 then Some (RT_EOK, s)
      else
        do {
          s1 \<leftarrow> close_rx d ops s;
          s2 \<leftarrow> close_tx d q ops s1;
          let s3 = call_control ops RT_DEVICE_CTRL_CLOSE 0 s2;
          Some (RT_EOK, upd_dev d (\<lambda>x. x\<lparr>device_flag := device_flag x AND NOT RT_DEVICE_FLAG_ACTIVATED\<rparr>) s3)
        })"

text \<open>\<open>RT_EBUSY\<close> is returned without its sign.\<close>

datatype serial_cmd = Serial_suspend | Serial_resume | Serial_config "serial_configure option" | Serial_other int u16

definition rt_serial_control :: "nat \<Rightarrow> 'u rt_uart_ops \<Rightarrow> serial_cmd \<Rightarrow> 'u serial_state \<Rightarrow> (rt_err \<times> 'u serial_state) option" where
  "rt_serial_control d ops cmd s =
     (case cmd of
        Serial_suspend \<Rightarrow> Some (RT_EOK, upd_dev d (\<lambda>x. x\<lparr>device_flag := device_flag x OR RT_DEVICE_FLAG_SUSPENDED\<rparr>) s)
      | Serial_resume \<Rightarrow> Some (RT_EOK, upd_dev d (\<lambda>x. x\<lparr>device_flag := device_flag x AND NOT RT_DEVICE_FLAG_SUSPENDED\<rparr>) s)
      | Serial_config args \<Rightarrow>
          (case args of
             None \<Rightarrow> Some (RT_EOK, s)
           | Some cfg \<Rightarrow>
               if bufsz cfg \<noteq> bufsz (config (hw s)) \<and> ref_count (devs s d) \<noteq> 0 then Some (RT_EBUSY, s)
               else
                 let s1 = upd_serial (\<lambda>x. x\<lparr>config := cfg\<rparr>) s in
                 if ref_count (devs s1 d) = 0 then Some (RT_EOK, s1)
                 else
                   do {
                     configure \<leftarrow> uart_configure ops;
                     Some (RT_EOK, upd_serial (\<lambda>x. x\<lparr>uart := snd (configure cfg (uart x))\<rparr>) s1)
                   })
      | Serial_other c arg \<Rightarrow>
          (let (ret, u) = uart_control ops c arg (uart (hw s)) in Some (ret, upd_serial (\<lambda>x. x\<lparr>uart := u\<rparr>) s)))"

section \<open>A driver for \<open>device.c\<close>\<close>

lemma upd_serial_simps [simp]:
  "devs (upd_serial f s) = devs s" "kern (upd_serial f s) = kern s" "hw (upd_serial f s) = f (hw s)"
  "is_device e (upd_serial f s) = is_device e s" "is_device e (s\<lparr>hw := x\<rparr>) = is_device e s"
  by (simp_all add: upd_serial_def is_device_def)

lemma call_control_simps [simp]:
  "devs (call_control ops cmd a s) = devs s" "kern (call_control ops cmd a s) = kern s"
  "is_device e (call_control ops cmd a s) = is_device e s" "serial_rx (hw (call_control ops cmd a s)) = serial_rx (hw s)"
  "serial_tx (hw (call_control ops cmd a s)) = serial_tx (hw s)" "config (hw (call_control ops cmd a s)) = config (hw s)"
  by (simp_all add: call_control_def)

text \<open>The parts keep the use count, the flags and the class of the object.\<close>

definition same_device :: "nat \<Rightarrow> 'u serial_state \<Rightarrow> 'u serial_state \<Rightarrow> bool" where
  "same_device d s s' \<longleftrightarrow> ref_count (devs s' d) = ref_count (devs s d) \<and> device_flag (devs s' d) = device_flag (devs s d) \<and>
     is_device d s' = is_device d s"

lemma same_device_refl [simp]: "same_device d s s"
  by (simp add: same_device_def)

lemma same_device_trans: "same_device d s s1 \<Longrightarrow> same_device d s1 s' \<Longrightarrow> same_device d s s'"
  by (simp add: same_device_def)

lemma is_device_kern: "(\<And>x. obj_type (objs k x) = obj_type (objs (kern s) x)) \<Longrightarrow> is_device d (s\<lparr>kern := k\<rparr>) = is_device d s"
  by (simp add: is_device_def rt_object_get_type_def)

lemma insert_thread_objs: "rt_schedule_insert_thread t k = Some k' \<Longrightarrow> objs k' = objs k"
  by (auto simp: rt_schedule_insert_thread_def list_insert_after_def list_insert_before_def list_insert_at_def Let_def
      bind_eq_Some_conv split: if_splits)

lemma remove_thread_objs: "rt_schedule_remove_thread t k = Some k' \<Longrightarrow> objs k' = objs k"
  by (auto simp: rt_schedule_remove_thread_def Let_def list_remove_def split: if_splits option.splits)

lemma schedule_objs:
  assumes "rt_schedule k = Some k'"
  shows "objs k' = objs k"
proof (cases "lock_nest k = 0 \<and> ready_group k \<noteq> 0")
  case False
  then show ?thesis using assms by (auto simp: rt_schedule_def)
next
  case True
  obtain hp first cur where h: "scheduler_get_highest_priority_thread k = Some (hp, first)" "current k = Some cur"
    using assms True by (auto simp: rt_schedule_def bind_eq_Some_conv)
  define run keep where "run = (tstat k cur = RT_THREAD_RUNNING)"
    and "keep = (run \<and> (prio k cur < hp \<or> prio k cur = hp \<and> stat (threads k cur) AND RT_THREAD_STAT_YIELD = 0))"
  define k1 where "k1 = (if run then upd_thread cur (\<lambda>th. th\<lparr>stat := stat th AND NOT RT_THREAD_STAT_YIELD\<rparr>) k else k)"
  have t1: "objs k1 = objs k" by (simp add: k1_def)
  note e = assms [unfolded rt_schedule_def h, simplified True Let_def Option.bind.simps prod.case if_True simp_thms,
      folded run_def, folded keep_def, folded k1_def]
  show ?thesis
  proof (cases "(if keep then cur else first) = cur")
    case True
    then show ?thesis using e t1 by (auto simp: bind_eq_Some_conv dest!: remove_thread_objs)
  next
    case False
    then show ?thesis using e t1
      by (auto simp: bind_eq_Some_conv dest!: remove_thread_objs insert_thread_objs split: if_splits)
  qed
qed

lemma resume_types:
  assumes "rt_thread_resume t k = Some (e, k')"
  shows "obj_type (objs k' x) = obj_type (objs k x)"
proof -
  have r: "objs (list_remove t k) = objs k" by (simp add: list_remove_def split: option.split)
  have s: "obj_type (objs k2 x) = obj_type (objs k1 x)" if "rt_timer_stop r k1 = Some (e', k2)" for e' k1 k2 r
    using that by (auto simp: rt_timer_stop_def timer_deactivate_def timer_remove_def split: if_splits)
  show ?thesis using assms r by (auto simp: rt_thread_resume_def bind_eq_Some_conv Let_def dest!: s insert_thread_objs split: if_splits)
qed

lemma resume_loop_types: "ipc_resume_loop n h k = Some k' \<Longrightarrow> obj_type (objs k' x) = obj_type (objs k x)"
proof (induction n h k rule: ipc_resume_loop.induct)
  case (2 n h k)
  show ?case
  proof (cases "lists k h")
    case (Cons t ts)
    let ?k = "upd_thread t (\<lambda>th. th\<lparr>thread_error := - RT_ERROR\<rparr>) k"
    obtain e k1 where r: "rt_thread_resume t ?k = Some (e, k1)" "ipc_resume_loop n h k1 = Some k'"
      using 2(2) Cons by (auto simp: bind_eq_Some_conv)
    have "obj_type (objs k' x) = obj_type (objs k1 x)" using 2(1) [OF Cons r(1)] r(2) by blast
    then show ?thesis using resume_types [OF r(1), of x] by simp
  qed (use 2(2) in simp)
qed (simp split: if_splits)

lemma exit_critical_objs: "rt_exit_critical k = Some k' \<Longrightarrow> objs k' = objs k"
  by (auto simp: rt_exit_critical_def Let_def dest!: schedule_objs split: if_splits)

lemma deinit_types:
  assumes "rt_data_queue_deinit q k = Some (e, k')"
  shows "obj_type (objs k' x) = obj_type (objs k x)"
  using assms
  by (auto simp: rt_data_queue_deinit_def rt_data_queue_reset_def Let_def bind_eq_Some_conv rt_enter_critical_def ipc_list_resume_all_def
      resume_loop_types dest!: schedule_objs exit_critical_objs)

lemma open_rx_same: "open_rx d ops room oflag s = Some s' \<Longrightarrow> same_device d s s'"
  by (auto simp: open_rx_def Let_def same_device_def or_open_flag_def split: if_splits)

lemma open_tx_same:
  assumes "open_tx d c q ops room slots oflag s = Some s'"
  shows "same_device d s s'"
proof -
  have a: "objs k = objs (kern s)" if "rt_completion_init c (kern s) = Some k" for k
    using that by (auto simp: rt_completion_init_def ipc_list_init_def)
  have b: "objs k = objs (kern s)" if "rt_data_queue_init q 8 4 None slots (kern s) = Some (e, k)" for e k
    using that by (auto simp: rt_data_queue_init_def ipc_list_init_def Let_def bind_eq_Some_conv split: option.splits)
  have "is_device d (s\<lparr>kern := k\<rparr>) = is_device d s" if "objs k = objs (kern s)" for k
    using that by (intro is_device_kern) simp
  then show ?thesis using assms a b
    by (auto simp: open_tx_def Let_def same_device_def or_open_flag_def bind_eq_Some_conv split: if_splits)
qed

lemma serial_open_ok:
  assumes "rt_serial_open d c q ops room_rx room_tx slots oflag s = Some (r, s')"
  shows "dev_opened d r s s'"
proof (cases "s' = s")
  case True
  then show ?thesis by (simp add: dev_opened_def)
next
  case False
  define stream where "stream = (if oflag AND RT_DEVICE_FLAG_STREAM \<noteq> 0 \<or> open_flag (devs s d) AND RT_DEVICE_FLAG_STREAM \<noteq> 0
     then RT_DEVICE_FLAG_STREAM else 0)"
  let ?s1 = "upd_dev d (\<lambda>x. x\<lparr>open_flag := oflag AND 0xff\<rparr>) s"
  obtain s2 s3 where o: "open_rx d ops room_rx oflag ?s1 = Some s2" "open_tx d c q ops room_tx slots oflag s2 = Some s3"
    "s' = or_open_flag d stream s3" "r = RT_EOK"
    using assms False by (auto simp: rt_serial_open_def Let_def stream_def bind_eq_Some_conv split: if_splits)
  have "same_device d ?s1 s3" by (rule same_device_trans [OF open_rx_same [OF o(1)] open_tx_same [OF o(2)]])
  then show ?thesis using o(3,4) by (simp add: dev_opened_def same_device_def or_open_flag_def)
qed

lemma close_rx_same: "close_rx d ops s = Some s' \<Longrightarrow> same_device d s s'"
  by (auto simp: close_rx_def Let_def same_device_def clear_open_flag_def split: if_splits)

lemma close_tx_same:
  assumes "close_tx d q ops s = Some s'"
  shows "same_device d s s'"
proof -
  have "is_device d (s1\<lparr>kern := k\<rparr>) = is_device d s1" if "rt_data_queue_deinit q (kern s1) = Some (e, k)" for e k and s1 :: "'a serial_state"
    by (rule is_device_kern) (rule deinit_types [OF that])
  then show ?thesis using assms
    by (auto simp: close_tx_def Let_def same_device_def clear_open_flag_def bind_eq_Some_conv split: if_splits)
qed

lemma serial_close_ok:
  assumes "rt_serial_close d q ops s = Some (r, s')"
  shows "dev_closed d s s'"
proof (cases "s' = s")
  case True
  then show ?thesis by (simp add: dev_closed_def)
next
  case False
  obtain s1 s2 where c: "close_rx d ops s = Some s1" "close_tx d q ops s1 = Some s2"
    "s' = upd_dev d (\<lambda>x. x\<lparr>device_flag := device_flag x AND NOT RT_DEVICE_FLAG_ACTIVATED\<rparr>) (call_control ops RT_DEVICE_CTRL_CLOSE 0 s2)"
    using assms False by (auto simp: rt_serial_close_def Let_def bind_eq_Some_conv split: if_splits)
  have "same_device d s s2" by (rule same_device_trans [OF close_rx_same [OF c(1)] close_tx_same [OF c(2)]])
  moreover have "(x AND NOT 16) AND 8 = x AND (8 :: u16)" for x by (simp add: and.assoc)
  ultimately show ?thesis using c(3) by (simp add: dev_closed_def same_device_def)
qed

lemma serial_control_ok:
  assumes "rt_serial_control d ops cmd s = Some (r, s')"
  shows "dev_kept d s s'"
proof -
  have "(x OR 32) AND 8 = x AND (8 :: u16)" "(x OR 32) AND 16 = x AND (16 :: u16)"
    "(x AND NOT 32) AND 8 = x AND (8 :: u16)" "(x AND NOT 32) AND 16 = x AND (16 :: u16)" for x
    by (simp_all add: bit.conj_disj_distrib2 and.assoc)
  then show ?thesis using assms
    by (auto simp: rt_serial_control_def dev_kept_def Let_def bind_eq_Some_conv
        split: serial_cmd.splits option.splits if_splits prod.splits)
qed

lemma serial_init_ok: "dev_kept d s (snd (rt_serial_init ops s))"
  by (simp add: rt_serial_init_def dev_kept_def Let_def split: option.split prod.split)

text \<open>
  The driver as \<open>device.c\<close> sees it.  A violated assertion stops the board; the state of a function that
  stopped does not matter, \<open>or_stop\<close> keeps the one before.  The functions for reading and writing only
  have to leave the device alone.
\<close>

definition or_stop :: "('s \<Rightarrow> (rt_err \<times> 's) option) \<Rightarrow> 's \<Rightarrow> rt_err \<times> 's" where
  "or_stop f s = (case f s of None \<Rightarrow> (- RT_ERROR, s) | Some r \<Rightarrow> r)"

lemma serial_driver_ok:
  assumes cfg: "\<forall>f x u. uart_configure ops = Some f \<longrightarrow> fst (f x u) \<noteq> - RT_ENOSYS"
    and rd: "\<forall>p b n s. dev_kept d s (snd (rd p b n s))" and wr: "\<forall>p b n s. dev_kept d s (snd (wr p b n s))"
  shows "driver_ok d \<lparr>device_init = Some (rt_serial_init ops),
      device_open = Some (\<lambda>oflag. or_stop (rt_serial_open d c q ops room_rx room_tx slots oflag)),
      device_close = Some (or_stop (rt_serial_close d q ops)),
      device_read = Some rd, device_write = Some wr,
      device_control = Some (\<lambda>cmd a. or_stop (rt_serial_control d ops (command cmd a)))\<rparr>"
proof -
  have "fst (rt_serial_init ops s) \<noteq> - RT_ENOSYS" for s
    using cfg by (auto simp: rt_serial_init_def Let_def split: option.split prod.split) (metis fst_conv)
  moreover have "dev_opened d (fst (or_stop f s)) s (snd (or_stop f s))"
    if "f = rt_serial_open d c q ops room_rx room_tx slots x" for f x s
    using serial_open_ok [of d c q ops room_rx room_tx slots x s] that
    by (auto simp: or_stop_def dev_opened_def split: option.split prod.splits)
  moreover have "dev_closed d s (snd (or_stop (rt_serial_close d q ops) s))" for s
    using serial_close_ok [of d q ops s] by (auto simp: or_stop_def dev_closed_def split: option.split prod.splits)
  moreover have "dev_kept d s (snd (or_stop (rt_serial_control d ops cmd) s))" for cmd s
    using serial_control_ok [of d ops cmd s] by (auto simp: or_stop_def split: option.split prod.splits)
  moreover have "dev_kept d s (snd (rt_serial_init ops s))" for s by (rule serial_init_ok)
  ultimately show ?thesis using rd wr by (simp add: driver_ok_def)
qed

text \<open>
  A second user that opens the device without the flags of the first one takes it out of its mode: the
  receive buffer stays, but reading no longer looks at it.
\<close>

lemma reopen_drops_mode:
  assumes "oflag AND RT_DEVICE_FLAG_INT_RX = 0" "oflag AND RT_DEVICE_FLAG_DMA_RX = 0" "oflag AND RT_DEVICE_FLAG_INT_TX = 0"
    "oflag AND RT_DEVICE_FLAG_DMA_TX = 0" "serial_rx (hw s) = Some m"
  shows "\<exists>s'. rt_serial_open d c q ops room_rx room_tx slots oflag s = Some (RT_EOK, s') \<and>
     open_flag (devs s' d) AND RT_DEVICE_FLAG_INT_RX = 0 \<and> serial_rx (hw s') = Some m"
proof -
  have "(oflag AND 0xff) AND 0x100 = (0 :: u16)" by (simp add: and.assoc)
  then show ?thesis using assms
    by (simp add: rt_serial_open_def lacks_def open_rx_def open_tx_def or_open_flag_def Let_def bit.conj_disj_distrib2)
qed

section \<open>The receive buffer\<close>

text \<open>
  \<open>_serial_int_rx\<close> takes up to \<open>n\<close> bytes from the buffer, the interrupt \<open>RT_SERIAL_EVENT_RX_IND\<close> puts the
  bytes \<open>chs\<close> into it that the UART delivers until its \<open>getc\<close> answers -1.
\<close>

fun serial_int_rx :: "u16 \<Rightarrow> nat \<Rightarrow> rt_serial_rx_fifo \<Rightarrow> (u8 list \<times> rt_serial_rx_fifo) option" where
  "serial_int_rx sz 0 f = Some ([], f)"
| "serial_int_rx sz (Suc n) f =
     (if rx_get_index f = rx_put_index f \<and> \<not> rx_is_full f then Some ([], f)
      else
        do {
          rt_assert (unat (rx_get_index f) < length (rx_buffer f));
          let ch = rx_buffer f ! unat (rx_get_index f);
          let g = rx_get_index f + 1;
          let f1 = f\<lparr>rx_get_index := (if g \<ge> sz then 0 else g), rx_is_full := False\<rparr>;
          (rest, f2) \<leftarrow> serial_int_rx sz n f1;
          Some (ch # rest, f2)
        })"

fun isr_rx_ind :: "u16 \<Rightarrow> u8 list \<Rightarrow> rt_serial_rx_fifo \<Rightarrow> rt_serial_rx_fifo option" where
  "isr_rx_ind sz [] f = Some f"
| "isr_rx_ind sz (ch # chs) f =
     do {
       rt_assert (unat (rx_put_index f) < length (rx_buffer f));
       let f1 = f\<lparr>rx_buffer := (rx_buffer f)[unat (rx_put_index f) := ch]\<rparr>;
       let p = rx_put_index f1 + 1;
       let f2 = f1\<lparr>rx_put_index := (if p \<ge> sz then 0 else p)\<rparr>;
       let f3 = (if rx_put_index f2 = rx_get_index f2
                 then let g = rx_get_index f2 + 1 in f2\<lparr>rx_get_index := (if g \<ge> sz then 0 else g), rx_is_full := True\<rparr>
                 else f2);
       isr_rx_ind sz chs f3
     }"

text \<open>The length that the interrupt passes to \<open>rx_indicate\<close>.\<close>

definition isr_rx_length :: "u16 \<Rightarrow> rt_serial_rx_fifo \<Rightarrow> u32" where
  "isr_rx_length sz f =
     (if rx_put_index f \<ge> rx_get_index f then ucast (rx_put_index f) - ucast (rx_get_index f)
      else ucast sz - (ucast (rx_get_index f) - ucast (rx_put_index f)))"

text \<open>
  The bytes in the buffer from the oldest to the newest.  There is always one free place, so that
  equal indices mean that there is none.
\<close>

definition rx_ok :: "u16 \<Rightarrow> rt_serial_rx_fifo \<Rightarrow> bool" where
  "rx_ok sz f \<longleftrightarrow> 1 < sz \<and> length (rx_buffer f) = unat sz \<and> rx_put_index f < sz \<and> rx_get_index f < sz \<and>
     (rx_is_full f \<longrightarrow> rx_put_index f \<noteq> rx_get_index f)"

definition ring_span :: "nat \<Rightarrow> nat \<Rightarrow> nat \<Rightarrow> nat" where
  "ring_span n g p = (if g \<le> p then p - g else n + p - g)"

definition ring_next :: "nat \<Rightarrow> nat \<Rightarrow> nat" where
  "ring_next n i = (if Suc i = n then 0 else Suc i)"

definition ring_seq :: "u8 list \<Rightarrow> nat \<Rightarrow> nat \<Rightarrow> u8 list" where
  "ring_seq xs g p = (if g \<le> p then drop g (take p xs) else drop g xs @ take p xs)"

definition rx_seq :: "rt_serial_rx_fifo \<Rightarrow> u8 list" where
  "rx_seq f = ring_seq (rx_buffer f) (unat (rx_get_index f)) (unat (rx_put_index f))"

lemma ring_seq_length: "g < length xs \<Longrightarrow> p < length xs \<Longrightarrow> length (ring_seq xs g p) = ring_span (length xs) g p"
  by (auto simp: ring_seq_def ring_span_def)

lemma ring_seq_get:
  assumes "g < length xs" "p < length xs" "g \<noteq> p"
  shows "ring_seq xs g p = xs ! g # ring_seq xs (ring_next (length xs) g) p"
proof (cases "g < p")
  case True
  then have "drop g (take p xs) = xs ! g # drop (Suc g) (take p xs)"
    using assms by (subst Cons_nth_drop_Suc [symmetric]) auto
  then show ?thesis using True assms by (simp add: ring_seq_def ring_next_def)
next
  case False
  have "drop g xs = xs ! g # drop (Suc g) xs" using assms(1) by (simp add: Cons_nth_drop_Suc)
  then show ?thesis using False assms by (auto simp: ring_seq_def ring_next_def)
qed

lemma ring_seq_put:
  assumes "g < length xs" "p < length xs" "ring_next (length xs) p \<noteq> g"
  shows "ring_seq (xs[p := ch]) g (ring_next (length xs) p) = ring_seq xs g p @ [ch]"
proof (cases "Suc p = length xs")
  case True
  then have "xs[p := ch] = take p xs @ [ch]" using assms(2) by (simp add: upd_conv_take_nth_drop)
  then show ?thesis using True assms by (auto simp: ring_seq_def ring_next_def)
next
  case False
  have t: "take (Suc p) (xs[p := ch]) = take p xs @ [ch]" using assms(2) by (simp add: take_Suc_conv_app_nth)
  show ?thesis
  proof (cases "g \<le> p")
    case True
    then show ?thesis using False t assms by (simp add: ring_seq_def ring_next_def)
  next
    case g: False
    then show ?thesis using False t assms by (simp add: ring_seq_def ring_next_def)
  qed
qed


lemma next_word:
  fixes i sz :: u16
  assumes "i < sz"
  shows "unat (if i + 1 \<ge> sz then 0 else i + 1) = ring_next (unat sz) (unat i)" "(if i + 1 \<ge> sz then 0 else i + 1) < sz"
proof -
  have "unat i < unat sz" using assms by (simp add: word_less_nat_alt)
  moreover have "unat sz < 2 ^ 16" using unsigned_less [of sz] by simp
  ultimately have u: "unat (i + 1) = Suc (unat i)" by (simp add: unat_word_ariths)
  then show "unat (if i + 1 \<ge> sz then 0 else i + 1) = ring_next (unat sz) (unat i)"
    using \<open>unat i < unat sz\<close> by (simp add: word_le_nat_alt ring_next_def)
  have "0 < sz" using assms by (metis word_neq_0_conv word_not_simps(1))
  then show "(if i + 1 \<ge> sz then 0 else i + 1) < sz" by (simp add: not_le)
qed

lemma rx_seq_empty: "rx_ok sz f \<Longrightarrow> rx_get_index f = rx_put_index f \<and> \<not> rx_is_full f \<longleftrightarrow> rx_seq f = []"
proof -
  assume o: "rx_ok sz f"
  then have l: "unat (rx_get_index f) < length (rx_buffer f)" "unat (rx_put_index f) < length (rx_buffer f)"
    by (simp_all add: rx_ok_def word_less_nat_alt)
  have "rx_seq f = [] \<longleftrightarrow> unat (rx_get_index f) = unat (rx_put_index f)"
    using ring_seq_length [OF l] l by (auto simp: rx_seq_def ring_span_def simp flip: length_0_conv split: if_splits)
  then show ?thesis using o by (auto simp: rx_ok_def word_unat_eq_iff)
qed

text \<open>Reading takes the oldest bytes.\<close>

lemma int_rx_contents:
  "rx_ok sz f \<Longrightarrow> \<exists>f'. serial_int_rx sz n f = Some (take n (rx_seq f), f') \<and> rx_ok sz f' \<and> rx_seq f' = drop n (rx_seq f)"
proof (induction n arbitrary: f)
  case 0
  then show ?case by simp
next
  case (Suc n)
  show ?case
  proof (cases "rx_seq f = []")
    case True
    then show ?thesis using Suc.prems rx_seq_empty [OF Suc.prems] by simp
  next
    case False
    then have ne: "\<not> (rx_get_index f = rx_put_index f \<and> \<not> rx_is_full f)" using rx_seq_empty [OF Suc.prems] by simp
    let ?g = "if rx_get_index f + 1 \<ge> sz then 0 else rx_get_index f + 1"
    let ?f = "f\<lparr>rx_get_index := ?g, rx_is_full := False\<rparr>"
    have o: "length (rx_buffer f) = unat sz" "rx_get_index f < sz" "rx_put_index f < sz" using Suc.prems by (simp_all add: rx_ok_def)
    note w = next_word [OF o(2)]
    have l: "unat (rx_get_index f) < length (rx_buffer f)" "unat (rx_put_index f) < length (rx_buffer f)"
      using o by (simp_all add: word_less_nat_alt)
    have d: "unat (rx_get_index f) \<noteq> unat (rx_put_index f)"
      using Suc.prems ne by (auto simp: rx_ok_def word_unat_eq_iff)
    have s: "rx_seq f = rx_buffer f ! unat (rx_get_index f) # rx_seq ?f"
      using ring_seq_get [OF l d] w(1) o(1) by (simp add: rx_seq_def)
    have "rx_ok sz ?f" using Suc.prems w(2) by (simp add: rx_ok_def)
    from Suc.IH [OF this] obtain f' where f': "serial_int_rx sz n ?f = Some (take n (rx_seq ?f), f')" "rx_ok sz f'"
      "rx_seq f' = drop n (rx_seq ?f)" by blast
    have "serial_int_rx sz (Suc n) f = Some (rx_buffer f ! unat (rx_get_index f) # take n (rx_seq ?f), f')"
      unfolding serial_int_rx.simps if_not_P [OF ne] using l(1) f'(1) by (simp add: Let_def)
    then show ?thesis using f' s by simp
  qed
qed

text \<open>The interrupt appends a byte and drops the oldest one when \<open>sz - 1\<close> bytes are there.\<close>

definition rx_append :: "u16 \<Rightarrow> u8 \<Rightarrow> u8 list \<Rightarrow> u8 list" where
  "rx_append sz ch q = (if Suc (length q) = unat sz then tl q @ [ch] else q @ [ch])"

lemma isr_rx_contents:
  "rx_ok sz f \<Longrightarrow> \<exists>f'. isr_rx_ind sz chs f = Some f' \<and> rx_ok sz f' \<and> rx_seq f' = fold (rx_append sz) chs (rx_seq f)"
proof (induction chs arbitrary: f)
  case Nil
  then show ?case by simp
next
  case (Cons ch chs)
  let ?xs = "rx_buffer f" and ?n = "unat sz"
  define g p where "g = unat (rx_get_index f)" and "p = unat (rx_put_index f)"
  have o: "length ?xs = ?n" "rx_get_index f < sz" "rx_put_index f < sz" "1 < ?n"
    using Cons.prems by (simp_all add: rx_ok_def word_less_nat_alt)
  have l: "g < length ?xs" "p < length ?xs" using o by (simp_all add: g_def p_def word_less_nat_alt)
  define f2 where "f2 = f\<lparr>rx_buffer := ?xs[p := ch], rx_put_index := (if rx_put_index f + 1 \<ge> sz then 0 else rx_put_index f + 1)\<rparr>"
  note wp = next_word [OF o(3)] and wg = next_word [OF o(2)]
  have f2: "unat (rx_put_index f2) = ring_next ?n p" "unat (rx_get_index f2) = g" "rx_buffer f2 = ?xs[p := ch]" "rx_put_index f2 < sz"
    "rx_get_index f2 < sz" using wp o(2) by (simp_all add: f2_def g_def p_def)
  have span: "length (rx_seq f) = ring_span ?n g p" using ring_seq_length [OF l] o(1) by (simp add: rx_seq_def g_def p_def)
  define f3 where "f3 = (if rx_put_index f2 = rx_get_index f2
       then f2\<lparr>rx_get_index := (if rx_get_index f2 + 1 \<ge> sz then 0 else rx_get_index f2 + 1), rx_is_full := True\<rparr> else f2)"
  have "rx_ok sz f3 \<and> rx_seq f3 = rx_append sz ch (rx_seq f)"
  proof (cases "ring_next ?n p = g")
    case False
    then have f3: "f3 = f2" using f2(1,2) by (auto simp: f3_def)
    have "Suc (length (rx_seq f)) \<noteq> ?n" using False l o unfolding span by (auto simp: ring_span_def ring_next_def split: if_splits)
    moreover have "rx_seq f2 = rx_seq f @ [ch]"
      using ring_seq_put [of g ?xs p ch] l False o(1) f2 by (simp add: rx_seq_def g_def p_def)
    moreover have "rx_put_index f2 \<noteq> rx_get_index f2" using f2(1,2) False by auto
    then have "rx_ok sz f2" using Cons.prems f2 o(1) by (simp add: rx_ok_def)
    ultimately show ?thesis by (simp add: f3 rx_append_def)
  next
    case True
    then have eq: "rx_put_index f2 = rx_get_index f2" using f2(1,2) by (simp add: word_unat_eq_iff)
    have g3: "rx_get_index f2 = rx_get_index f" by (simp add: f2_def)
    have f3: "unat (rx_get_index f3) = ring_next ?n g" "rx_get_index f3 < sz" "rx_buffer f3 = ?xs[p := ch]" "rx_put_index f3 = rx_put_index f2"
      using wg [folded g_def] eq f2(3) unfolding f3_def if_P [OF eq] g3 by simp_all
    have full: "Suc (length (rx_seq f)) = ?n" using True l o unfolding span by (auto simp: ring_span_def ring_next_def split: if_splits)
    have nn: "ring_next ?n g \<noteq> g" using o(4) by (auto simp: ring_next_def)
    have ng: "g \<noteq> p" using True o(4) by (auto simp: ring_next_def split: if_splits)
    have lg: "ring_next ?n g < length ?xs" using l(1) o(1,4) by (auto simp: ring_next_def)
    have pn: "ring_next ?n p \<noteq> ring_next ?n g" using True nn by simp
    have "rx_seq f3 = ring_seq (?xs[p := ch]) (ring_next ?n g) (ring_next ?n p)" using f3 f2(1) by (simp add: rx_seq_def)
    also have "\<dots> = ring_seq ?xs (ring_next ?n g) p @ [ch]"
      using ring_seq_put [OF lg l(2), of ch] pn o(1) by simp
    also have "ring_seq ?xs (ring_next ?n g) p = tl (rx_seq f)"
      using ring_seq_get [OF l ng] o(1) by (simp add: rx_seq_def g_def p_def)
    finally have "rx_seq f3 = rx_append sz ch (rx_seq f)" using full by (simp add: rx_append_def)
    moreover have "rx_put_index f3 \<noteq> rx_get_index f3" using f3(1,4) f2(1) pn by auto
    then have "rx_ok sz f3" using Cons.prems f3 f2(4) o(1) by (simp add: rx_ok_def)
    ultimately show ?thesis by blast
  qed
  moreover have "isr_rx_ind sz (ch # chs) f = isr_rx_ind sz chs f3"
    using l(2) by (simp add: Let_def f3_def f2_def p_def cong: if_cong split del: if_split)
  ultimately show ?case using Cons.IH [of f3] by auto
qed

text \<open>The length given to \<open>rx_indicate\<close> is the number of bytes in the buffer.\<close>

lemma isr_rx_length_ok:
  assumes "rx_ok sz f"
  shows "unat (isr_rx_length sz f) = length (rx_seq f)"
proof -
  define g p where "g = unat (rx_get_index f)" and "p = unat (rx_put_index f)"
  have o: "length (rx_buffer f) = unat sz" "g < unat sz" "p < unat sz"
    using assms by (simp_all add: rx_ok_def g_def p_def word_less_nat_alt)
  have b: "unat sz < 2 ^ 16" using unsigned_less [of sz] by simp
  have u: "unat (ucast (rx_get_index f) :: u32) = g" "unat (ucast (rx_put_index f) :: u32) = p" "unat (ucast sz :: u32) = unat sz"
    using o b by (simp_all add: g_def p_def unsigned_ucast_eq take_bit_nat_eq_self)
  have "length (rx_seq f) = ring_span (unat sz) g p"
    using ring_seq_length [of g "rx_buffer f" p] o by (simp add: rx_seq_def g_def p_def)
  moreover have "unat (isr_rx_length sz f) = ring_span (unat sz) g p"
  proof (cases "g \<le> p")
    case True
    then show ?thesis using u by (simp add: isr_rx_length_def ring_span_def word_le_nat_alt g_def p_def unat_sub)
  next
    case False
    have d: "unat (ucast (rx_get_index f) - ucast (rx_put_index f) :: u32) = g - p" using False u by (simp add: unat_sub word_le_nat_alt)
    have "(ucast (rx_get_index f) - ucast (rx_put_index f) :: u32) \<le> ucast sz" using d u o by (simp add: word_le_nat_alt)
    then have "unat (ucast sz - (ucast (rx_get_index f) - ucast (rx_put_index f)) :: u32) = unat sz - (g - p)"
      using d u by (simp add: unat_sub)
    then show ?thesis using False o by (simp add: isr_rx_length_def ring_span_def word_le_nat_alt g_def p_def)
  qed
  ultimately show ?thesis by simp
qed

end
