(* ===== verification/Spec2Isabelle.thy ===== *)
theory Spec2Isabelle
  imports Ringbuffer Ringblk_Buf Semaphore Mutex Event Mailbox Messagequeue Mempool Completion
    Dataqueue Kernel_Properties Heap_Contract Kprintf Kservice Device Workqueue_Contract
    Shell_Safety System Sleep Heap_Api_Props Serial
begin

text \<open>
  This is a model of the RT-Thread 4.1.1 kernel as this board support package for the HC32F460
  builds it (\<^verbatim>\<open>src/RTT_template\<close>), with the properties that make it correct.  The configuration
  is that of \<^verbatim>\<open>rtconfig.h\<close>: one core, 32 priorities, a tick of one millisecond, names of eight
  characters, assertions on, no soft timers, no signals, the small memory heap, devices, the
  shell, \<^verbatim>\<open>RT_PRINTF_PRECISION\<close> without \<^verbatim>\<open>RT_PRINTF_SPECIAL\<close> and \<^verbatim>\<open>RT_PRINTF_LONGLONG\<close>.

  \<^bold>\<open>The parts and how they interact.\<close>  The scheduler keeps a ready table with one line of threads
  for each priority.  Threads leave it when they suspend themselves, to sleep or to wait for an
  object, and come back when another thread, an interrupt handler or their own timer resumes
  them.  Every thread has a timer; the tick interrupt walks the sorted timer list and calls the
  timeout functions.  The objects of \<^verbatim>\<open>ipc.c\<close> and \<^verbatim>\<open>mempool.c\<close> and the helpers under
  \<^verbatim>\<open>components/drivers/ipc\<close> keep lines of waiting threads and are built from suspend, resume and
  the timer.  The heap, the ring buffers and the services of \<^verbatim>\<open>kservice.c\<close> work on memory of
  their own; devices keep a count of their users and stand between the console and a driver.

  \<^bold>\<open>The state.\<close>  \<open>Kernel_State\<close> has a record for each \<^verbatim>\<open>struct\<close> of \<^verbatim>\<open>rtdef.h\<close> that the kernel keeps,
  with its fields at their width, and the record \<open>kernel\<close> of all objects and of the static variables
  of the C files.  A pointer to an object is its number.  The doubly linked lists of
  \<^verbatim>\<open>rtservice.h\<close> are lists of thread numbers under the name of their head; \<open>list_remove\<close>,
  \<open>list_insert_before\<close> and \<open>list_insert_after\<close> are the operations on them, and \<open>link\<close> says in which
  list a thread is linked.  A failed \<^verbatim>\<open>RT_ASSERT\<close> is the value \<open>None\<close>; an error code is a value of
  \<open>rt_err\<close>.  A call that waits is cut where the thread gives up the processor: the first half
  leaves the rest in \<open>saved\<close>, and a second definition, \<open>..._finish\<close> or \<open>..._resume\<close>, is the rest of
  the C function, which the thread runs when it has the processor again.

  \<^bold>\<open>The theories.\<close>
  \<^item> \<open>Rtt_Prelude\<close>: \<^verbatim>\<open>RT_ASSERT\<close>, \<^verbatim>\<open>RT_ALIGN\<close>, error codes, and the lemmas on words, lists and
    options that all components use.
  \<^item> \<open>Bounded_Queue\<close>, \<open>Block_Chain\<close>, \<open>Allocator\<close>: the interfaces, as locales, with the lemmas their
    clients share.  The ring buffer, the mailbox, the message queue and the data queue interpret
    the first, the memory pool the second, the heap the third.
  \<^item> \<open>Kernel_State\<close>, \<open>Sample\<close>: the state, and a small concrete system on which the theorems are
    shown to apply.
  \<^item> \<open>Ffs\<close>, \<open>Scheduler\<close> (\<^verbatim>\<open>scheduler.c\<close>, \<^verbatim>\<open>__rt_ffs\<close>), \<open>Object\<close> (\<^verbatim>\<open>object.c\<close>), \<open>Timer_Core\<close>
    (\<^verbatim>\<open>timer.c\<close>), \<open>Thread\<close> (\<^verbatim>\<open>thread.c\<close>), \<open>Clock\<close> (\<^verbatim>\<open>clock.c\<close>, \<^verbatim>\<open>irq.c\<close>, \<^verbatim>\<open>idle.c\<close> and the expiry loop of
    \<^verbatim>\<open>timer.c\<close>), with \<open>Kernel_Properties\<close> for what they achieve together: the invariant
    \<open>kernel_ok\<close> (ready table, lines, timers and states of threads agree), choice of the best
    thread, round robin, order of the timer list across the wrap of the tick, the expiry loop.
  \<^item> \<open>Ipc_Base\<close>, \<open>Semaphore\<close>, \<open>Mutex\<close>, \<open>Event\<close>, \<open>Mailbox\<close>, \<open>Messagequeue\<close> (\<^verbatim>\<open>ipc.c\<close>) and \<open>Mempool\<close>
    (\<^verbatim>\<open>mempool.c\<close>), \<open>Completion\<close>, \<open>Dataqueue\<close> (\<^verbatim>\<open>components/drivers/ipc\<close>): every operation, and
    for each that it implements its abstract specification on every branch and keeps the
    invariant.
  \<^item> \<open>Workqueue\<close>, \<open>Workqueue_Contract\<close> (\<^verbatim>\<open>components/drivers/ipc/workqueue.c\<close>): items of work that a
    thread of the queue runs in turn, at once or when a timer expires; refinement of abstract
    queues, and that the loops which cancel and acknowledge items end.
  \<^item> \<open>Effect\<close>, \<open>Op_Effects\<close>, \<open>Driver_Effects\<close>: what each operation leaves alone, stated once for
    all of them, so that the objects of a system can be considered together.
  \<^item> \<open>System_Inv\<close>, \<open>System\<close>: the running system as a step relation of calls, handlers, woken
    threads and ticks, its invariant, and that no reachable call fails.
  \<^item> \<open>Sleep\<close>: what a sleeping thread sees of the ticks, with other threads, handlers and timers of the
    application at work (\<open>beside\<close>, \<open>passes\<close>).
  \<^item> \<open>Small_Mem\<close>, \<open>Heap_Row\<close>, \<open>Heap_Ops\<close>, \<open>Heap_Contract\<close> (\<^verbatim>\<open>mem.c\<close>): the heap as the row of block
    headers in its area, and what allocation, release and resizing promise.  \<open>Heap_Api\<close>, \<open>Heap_Api_Props\<close> (\<^verbatim>\<open>kservice.c\<close>):
    \<^verbatim>\<open>rt_malloc\<close> and its relatives, the mutex that keeps calls apart, cleared and aligned memory.
  \<^item> \<open>Ringbuffer\<close>, \<open>Ringblk_Buf\<close> (\<^verbatim>\<open>components/drivers/ipc\<close>): byte ring and ring of blocks.
  \<^item> \<open>Kprintf\<close>, \<open>Kservice\<close> (\<^verbatim>\<open>kservice.c\<close>): formatted output; memory and string routines, with the
    loops by words where the code has them.
  \<^item> \<open>Msh\<close>, \<open>Msh_Contract\<close> (\<^verbatim>\<open>components/finsh/msh.c\<close>): the command interpreter on a buffer of
    characters; what the arguments of a line are, which command it runs, completion.
  \<^item> \<open>Shell\<close>, \<open>Shell_Editor\<close>, \<open>Shell_Safety\<close> (\<^verbatim>\<open>components/finsh/shell.c\<close>): the loop of the shell thread on
    each byte; it implements an abstract line editor with history, exactly and with its output, and
    stays inside its buffers, except after one sequence of keys that is shown.
  \<^item> \<open>Device\<close> (\<^verbatim>\<open>device.c\<close> and the console of \<^verbatim>\<open>kservice.c\<close>): registration, reference counts, open
    flags, \<^verbatim>\<open>rt_kprintf\<close>.  The functions of a driver are arguments; \<open>driver_ok\<close> is what is asked of them.
  \<^item> \<open>Serial\<close> (\<^verbatim>\<open>serial.c\<close>): opening, closing and control of the serial driver, which satisfies \<open>driver_ok\<close>,
    and its receive buffer.

  \<^bold>\<open>Loops and bounds.\<close>  Loops that walk a list are structural recursions; loops over an index
  have a measure.  Loops whose end is a property are \<open>partial_function (option)\<close>, and that they
  end is proved: the expiry loop \<open>timer_check_loop\<close> (a periodic timer of interval 0 keeps it
  running for ever), the loop \<open>rt_defunct_execute\<close> of the idle thread, the searches
  \<open>smem_find\<close> and \<open>smem_lowest\<close> of the heap, \<open>cancel_work_loop\<close> and \<open>work_completion_loop\<close> of the
  work queues.  Some definitions have a bound as fuel:
  \<open>ipc_resume_loop\<close> and \<open>mq_flush\<close> run as often as the line or queue has members, which each pass
  makes shorter by one.  Ticks and counters wrap as in C; where a statement needs that a wait is shorter than half the
  range of the tick, it says so.

  \<^bold>\<open>What the lemmas show.\<close>  For each component: the operations do not fail on states of the
  invariant and keep it (\<open>..._ok\<close>); what they do on each branch (\<open>..._correct\<close>); that they implement
  an abstract step (\<open>..._refines\<close>).  For the system: safety of all interleavings of such steps.

  \<^bold>\<open>Not modelled.\<close>  Stacks, registers and the switch of context itself (assembly); hooks that
  only observe; the console commands that print tables of objects.  In a run of the system objects are set up at the start:
  the operations that create and delete them are modelled and have lemmas of their own, but are
  no steps of \<open>kstep\<close>; nor are the data queues with a notification function.  The error number of
  code outside threads is not kept.  Variants that the configuration leaves out: SMP, soft
  timers, signals, the slab and multi-heap allocators.  Drivers, board start-up and the vendor
  library access the registers of the device.  The file systems, network stacks and other
  components of the tree are not enabled, and many of them are third-party code.
\<close>

end
